(* ===== verification/Kmod_Prelude.thy ===== *)
theory Kmod_Prelude
  imports Main "HOL-Library.Word" "HOL-Library.Char_ord" "HOL-Library.List_Lexorder"
    "HOL-Library.Monad_Syntax"
begin

text \<open>
  The shared layer of the development: the types of the model, the errors of the C code, the
  overflow-checked arithmetic of \<open>shared/util.h\<close>, C strings with the standard library functions
  the sources use on them, and C arrays whose cells may be uninitialised.

  Conventions used by every component:
  \<^item> a pointer that may be NULL is an \<open>option\<close>; a C string is a \<open>string\<close> without its
    terminating NUL; the bytes of a file or of a memory block are a \<open>char list\<close>;
  \<^item> \<open>size_t\<close> is a 64-bit word, \<open>unsigned int\<close> a 32-bit word, \<open>uint8_t\<close> an 8-bit word;
  \<^item> a function that returns 0 or a negative errno returns \<open>errno + 'a\<close>;
  \<^item> undefined behaviour (a read or write outside an object, a shift by the width, a failed
    \<open>assert\<close>) is the value \<open>None\<close> of an outer \<open>option\<close>: that a call is \<open>Some\<close> is memory safety;
  \<^item> memory allocation is an argument \<open>alloc\<close>, which says for a requested size whether the
    allocation succeeds: a theorem for every \<open>alloc\<close> covers every failure.
\<close>

unbundle bit_operations_syntax

named_theorems overflow_simps \<open>overflow tests of util.h, as facts on natural numbers\<close>
named_theorems slot_simps \<open>contents of C arrays after stores, moves and reallocation\<close>

section \<open>Types and errors\<close>

type_synonym u8 = "8 word"
type_synonym u16 = "16 word"
type_synonym u32 = "32 word"
type_synonym u64 = "64 word"
type_synonym size_t = "64 word"

abbreviation NUL :: char where "NUL \<equiv> CHR 0x00"

datatype errno =
    ENOMEM | EEXIST | ENOENT | EINVAL | ENODATA | ENOSYS | ENAMETOOLONG | ENOTDIR | ERANGE
  | ENOEXEC | EAGAIN | EINTR | EBUSY | EIO | EPERM

type_synonym 'a result = "errno + 'a"

section \<open>Overflow-checked arithmetic\<close>

definition uadd_overflow :: "'a::len word \<Rightarrow> 'a word \<Rightarrow> 'a word \<times> bool" where
  "uadd_overflow a b = (a + b, - 1 - a < b)"

definition umul_overflow :: "'a::len word \<Rightarrow> 'a word \<Rightarrow> 'a word \<times> bool" where
  "umul_overflow a b = (a * b, a \<noteq> 0 \<and> (- 1) div a < b)"

lemma unat_minus_one: "unat (- 1 :: 'a::len word) = 2 ^ LENGTH('a) - 1"
  by (simp add: unsigned_minus_1_eq_mask mask_eq_exp_minus_1)
lemma unat_minus_one_diff: "unat (- 1 - a :: 'a::len word) = 2 ^ LENGTH('a) - 1 - unat a"
  by (simp add: unat_sub unat_minus_one)

lemma unat_add_less:
  assumes "unat a + unat b < unat (c :: 'a::len word)"
  shows "unat (a + b :: 'a word) = unat a + unat b"
proof -
  have "unat c < 2 ^ LENGTH('a)" by simp
  then have "unat a + unat b < 2 ^ LENGTH('a)" using assms by linarith
  then show ?thesis by (simp add: unat_word_ariths)
qed

lemma unat_mult_less:
  assumes "unat a * unat b \<le> unat (c :: 'a::len word)"
  shows "unat (a * b :: 'a word) = unat a * unat b"
proof -
  have "unat c < 2 ^ LENGTH('a)" by simp
  then have "unat a * unat b < 2 ^ LENGTH('a)" using assms by linarith
  then show ?thesis by (simp add: unat_word_ariths)
qed

lemma unat_two_power: "k < LENGTH('a) \<Longrightarrow> unat (2 ^ k :: 'a::len word) = 2 ^ k"
  by (metis of_nat_numeral of_nat_power power_strict_increasing_iff take_bit_nat_eq_self
      unat_of_nat one_less_numeral_iff semiring_norm(76) take_bit_nat_def)

lemma unat_lt_8: "unat (w :: 8 word) < 256"
  using unsigned_less [of w] by simp

lemma unat_lt_32: "unat (w :: 32 word) < 4294967296"
  using unsigned_less [of w] by simp

lemma unat_lt_64: "unat (w :: 64 word) < 18446744073709551616"
  using unsigned_less [of w] by simp

lemma unat_ucast_32_64 [simp]: "unat (ucast (w :: 32 word) :: 64 word) = unat w"
  using unat_lt_32 [of w] by (simp add: unsigned_ucast_eq take_bit_nat_eq_self)

lemma unat_pred: "w \<noteq> 0 \<Longrightarrow> unat (w - 1 :: 'a::len word) = unat w - 1"
  by (subst unat_sub) (auto simp: word_le_nat_alt Suc_le_eq unat_gt_0)

lemma uadd_overflow_iff [overflow_simps]:
  "snd (uadd_overflow a b) \<longleftrightarrow> 2 ^ LENGTH('a) \<le> unat a + unat (b :: 'a::len word)"
proof -
  have "unat a < 2 ^ LENGTH('a)" by simp
  then show ?thesis
    unfolding uadd_overflow_def snd_conv word_less_nat_alt unat_minus_one_diff by linarith
qed

lemma uadd_overflow_value [overflow_simps]:
  "\<not> snd (uadd_overflow a b) \<Longrightarrow> unat (fst (uadd_overflow a b)) = unat a + unat (b :: 'a::len word)"
  unfolding uadd_overflow_iff by (simp add: uadd_overflow_def unat_word_ariths)

lemma umul_overflow_iff [overflow_simps]:
  "snd (umul_overflow a b) \<longleftrightarrow> 2 ^ LENGTH('a) \<le> unat a * unat (b :: 'a::len word)"
proof (cases "a = 0")
  case False
  then have a: "0 < unat a" by (simp add: unat_gt_0)
  have "(2 ^ LENGTH('a) - 1) div unat a < unat b \<longleftrightarrow> 2 ^ LENGTH('a) - 1 < unat b * unat a"
    using a by (simp add: div_less_iff_less_mult)
  also have "\<dots> \<longleftrightarrow> 2 ^ LENGTH('a) \<le> unat a * unat b"
    unfolding mult.commute[of "unat b"] by (metis Suc_leI Suc_pred less_eq_Suc_le zero_less_numeral zero_less_power diff_Suc_1' One_nat_def)
  finally show ?thesis
    using False by (simp add: umul_overflow_def word_less_nat_alt unat_div unat_minus_one)
qed (simp add: umul_overflow_def)

lemma umul_overflow_value [overflow_simps]:
  "\<not> snd (umul_overflow a b) \<Longrightarrow> unat (fst (umul_overflow a b)) = unat a * unat (b :: 'a::len word)"
  unfolding umul_overflow_iff by (simp add: umul_overflow_def unat_word_ariths)

section \<open>C strings\<close>

text \<open>
  \<open>strcmp\<close> orders by unsigned character; only the sign of its result is used. \<open>char_at\<close> is the
  access \<open>s[i]\<close> of a C string: the terminating NUL at the end, undefined beyond it.
\<close>

fun strcmp :: "string \<Rightarrow> string \<Rightarrow> int" where
  "strcmp [] [] = 0"
| "strcmp [] (b # bs) = - 1"
| "strcmp (a # as) [] = 1"
| "strcmp (a # as) (b # bs) =
     (if a = b then strcmp as bs else if (of_char a :: nat) < of_char b then - 1 else 1)"

abbreviation streq :: "string \<Rightarrow> string \<Rightarrow> bool" where
  "streq a b \<equiv> strcmp a b = 0"

definition strstartswith :: "string \<Rightarrow> string \<Rightarrow> bool" where
  "strstartswith a b \<longleftrightarrow> take (length b) a = b"

lemma strcmp_eq_0 [simp]: "strcmp a b = 0 \<longleftrightarrow> a = b"
  by (induction a b rule: strcmp.induct) auto

lemma strcmp_less_0 [simp]: "strcmp a b < 0 \<longleftrightarrow> a < b"
  by (induction a b rule: strcmp.induct) (auto simp: less_char_def)

lemma strcmp_greater_0 [simp]: "0 < strcmp a b \<longleftrightarrow> b < a"
  by (induction a b rule: strcmp.induct) (auto simp: less_char_def not_less le_less)

definition char_at :: "string \<Rightarrow> nat \<Rightarrow> char" where
  "char_at s i = (if i < length s then s ! i else NUL)"

abbreviation nul_free :: "string \<Rightarrow> bool" where
  "nul_free s \<equiv> NUL \<notin> set s"

text \<open>The C string that starts at offset \<open>p\<close> of a memory block; undefined if no NUL follows.\<close>

definition cstr_at :: "char list \<Rightarrow> nat \<Rightarrow> string option" where
  "cstr_at m p = (if p \<le> length m \<and> NUL \<in> set (drop p m)
                  then Some (takeWhile (\<lambda>c. c \<noteq> NUL) (drop p m)) else None)"

lemma cstr_at_append:
  "nul_free s \<Longrightarrow> cstr_at (xs @ s @ NUL # ys) (length xs) = Some s"
  by (auto simp: cstr_at_def takeWhile_append)

section \<open>C arrays with uninitialised cells\<close>

type_synonym 'a slots = "'a option list"

definition live :: "nat \<Rightarrow> 'a slots \<Rightarrow> 'a list" where
  "live n s = map the (take n s)"

definition init_upto :: "nat \<Rightarrow> 'a slots \<Rightarrow> bool" where
  "init_upto n s \<longleftrightarrow> n \<le> length s \<and> None \<notin> set (take n s)"

definition realloc_slots :: "nat \<Rightarrow> 'a slots \<Rightarrow> 'a slots" where
  "realloc_slots n s = take n s @ replicate (n - length s) None"

definition store :: "nat \<Rightarrow> 'a \<Rightarrow> 'a slots \<Rightarrow> 'a slots option" where
  "store i x s = (if i < length s then Some (s[i := Some x]) else None)"

definition memmove :: "nat \<Rightarrow> nat \<Rightarrow> nat \<Rightarrow> 'a list \<Rightarrow> 'a list option" where
  "memmove dst src n s =
     (if dst + n \<le> length s \<and> src + n \<le> length s
      then Some (take dst s @ take n (drop src s) @ drop (dst + n) s) else None)"

lemma length_live [simp]: "init_upto n s \<Longrightarrow> length (live n s) = n"
  by (simp add: live_def init_upto_def)

lemma length_realloc_slots [simp]: "length (realloc_slots n s) = n"
  by (simp add: realloc_slots_def)

lemma live_0 [simp]: "live 0 s = []"
  by (simp add: live_def)

lemma init_upto_0 [simp]: "init_upto 0 s"
  by (simp add: init_upto_def)

lemma init_uptoD: "init_upto n s \<Longrightarrow> n \<le> length s"
  by (simp add: init_upto_def)

lemma init_upto_mono: "init_upto n s \<Longrightarrow> k \<le> n \<Longrightarrow> init_upto k s"
  by (auto simp: init_upto_def dest: set_take_subset_set_take [THEN subsetD])

lemma live_mono: "k \<le> n \<Longrightarrow> live k s = take k (live n s)"
  by (simp add: live_def take_map min_absorb1)

lemma live_nth: "init_upto n s \<Longrightarrow> i < n \<Longrightarrow> s ! i = Some (live n s ! i)"
  by (auto simp: live_def init_upto_def in_set_conv_nth)

lemma take_eq_live: "init_upto n s \<Longrightarrow> take n s = map Some (live n s)"
  by (rule nth_equalityI) (auto simp: live_nth dest: init_uptoD)

lemma init_upto_intro: "take n s = map Some xs \<Longrightarrow> length xs = n \<Longrightarrow> init_upto n s \<and> live n s = xs"
  by (auto simp: init_upto_def live_def comp_def dest: arg_cong [where f = length])

lemma realloc_slots_live [slot_simps]:
  "init_upto n s \<Longrightarrow> n \<le> m \<Longrightarrow> init_upto n (realloc_slots m s) \<and> live n (realloc_slots m s) = live n s"
  by (rule init_upto_intro)
    (auto simp: realloc_slots_def take_eq_live min_def dest: init_uptoD)

lemma store_end [slot_simps]:
  assumes "init_upto n s" and "n < length s"
  shows "\<exists>s'. store n x s = Some s' \<and> length s' = length s \<and> init_upto (Suc n) s'
    \<and> live (Suc n) s' = live n s @ [x]"
proof -
  have "take (Suc n) (s[n := Some x]) = map Some (live n s @ [x])"
    using assms by (simp add: take_Suc_conv_app_nth take_eq_live)
  then have "init_upto (Suc n) (s[n := Some x]) \<and> live (Suc n) (s[n := Some x]) = live n s @ [x]"
    using assms by (intro init_upto_intro) auto
  then show ?thesis using assms by (simp add: store_def)
qed

lemma store_replace [slot_simps]:
  assumes "init_upto n s" and "i < n"
  shows "\<exists>s'. store i x s = Some s' \<and> length s' = length s \<and> init_upto n s'
    \<and> live n s' = (live n s)[i := x]"
proof -
  have "take n (s[i := Some x]) = map Some ((live n s)[i := x])"
    using assms by (simp add: take_update_swap take_eq_live map_update)
  then have "init_upto n (s[i := Some x]) \<and> live n (s[i := Some x]) = (live n s)[i := x]"
    using assms by (intro init_upto_intro) auto
  then show ?thesis using assms by (simp add: store_def) (meson init_uptoD order_less_le_trans)
qed

text \<open>Opening a gap at \<open>i\<close> and filling it inserts; closing the gap at \<open>i\<close> deletes.\<close>

lemma memmove_insert [slot_simps]:
  assumes "init_upto n s" and "i \<le> n" and "n < length s"
  shows "\<exists>s' s''. memmove (Suc i) i (n - i) s = Some s' \<and> store i x s' = Some s''
    \<and> length s'' = length s \<and> init_upto (Suc n) s''
    \<and> live (Suc n) s'' = take i (live n s) @ x # drop i (live n s)"
proof -
  let ?l = "live n s"
  define s' where "s' = take (Suc i) s @ take (n - i) (drop i s) @ drop (Suc n) s"
  have len: "length s' = length s" using assms by (simp add: s'_def)
  have mv: "memmove (Suc i) i (n - i) s = Some s'"
    using assms by (simp add: memmove_def s'_def)
  have dr: "take (n - i) (drop i s) = map Some (drop i ?l)"
    using assms by (simp add: take_drop take_eq_live flip: drop_map)
  have ti: "take i s = map Some (take i ?l)"
    using assms by (metis min.absorb1 take_eq_live take_map take_take)
  have "s'[i := Some x] = take i s @ Some x # take (n - i) (drop i s) @ drop (Suc n) s"
    using assms by (simp add: s'_def take_Suc_conv_app_nth list_update_append min_absorb2)
  then have "take (Suc n) (s'[i := Some x]) = map Some (take i ?l @ x # drop i ?l)"
    using assms by (simp add: ti dr min_absorb2 Suc_diff_le)
  then have "init_upto (Suc n) (s'[i := Some x])
      \<and> live (Suc n) (s'[i := Some x]) = take i ?l @ x # drop i ?l"
    using assms by (intro init_upto_intro) auto
  then show ?thesis using mv len assms by (auto simp: store_def)
qed

lemma memmove_delete [slot_simps]:
  assumes "init_upto n s" and "i < n"
  shows "\<exists>s'. memmove i (Suc i) (n - Suc i) s = Some s' \<and> length s' = length s
    \<and> init_upto (n - 1) s' \<and> live (n - 1) s' = take i (live n s) @ drop (Suc i) (live n s)"
proof -
  let ?l = "live n s"
  have n: "n \<le> length s" using assms by (simp add: init_uptoD)
  define s' where "s' = take i s @ take (n - Suc i) (drop (Suc i) s) @ drop (i + (n - Suc i)) s"
  have mv: "memmove i (Suc i) (n - Suc i) s = Some s'"
    using assms n by (simp add: memmove_def s'_def)
  have dr: "take (n - Suc i) (drop (Suc i) s) = map Some (drop (Suc i) ?l)"
    using assms by (simp add: take_drop take_eq_live flip: drop_map)
  have ti: "take i s = map Some (take i ?l)"
    using assms by (metis less_imp_le_nat min.absorb1 take_eq_live take_map take_take)
  have "take (n - 1) s' = map Some (take i ?l @ drop (Suc i) ?l)"
    using assms n by (simp add: s'_def ti dr min_absorb2)
  then have "init_upto (n - 1) s' \<and> live (n - 1) s' = take i ?l @ drop (Suc i) ?l"
    using assms by (intro init_upto_intro) auto
  then show ?thesis using mv assms n by (auto simp: s'_def)
qed

section \<open>Loops that may fault\<close>

primrec foldM :: "('a \<Rightarrow> 's \<Rightarrow> 's option) \<Rightarrow> 'a list \<Rightarrow> 's \<Rightarrow> 's option" where
  "foldM f [] s = Some s"
| "foldM f (x # xs) s = Option.bind (f x s) (foldM f xs)"

lemma foldM_append: "foldM f (xs @ ys) s = Option.bind (foldM f xs s) (foldM f ys)"
  by (induction xs arbitrary: s) (auto simp: Option.bind_assoc split: Option.bind_split)

section \<open>Binary search\<close>

text \<open>\<open>bsearch\<close> of the C library on \<open>a[l..u)\<close>; \<open>cmp\<close> compares the key with an element.\<close>

function bsearch :: "('a \<Rightarrow> int) \<Rightarrow> 'a list \<Rightarrow> nat \<Rightarrow> nat \<Rightarrow> nat option" where
  "bsearch cmp a l u =
     (if l < u then
        (let i = (l + u) div 2; c = cmp (a ! i) in
         if c < 0 then bsearch cmp a l i
         else if 0 < c then bsearch cmp a (Suc i) u
         else Some i)
      else None)"
  by pat_completeness auto
termination
  by (relation "measure (\<lambda>(_, _, l, u). u - l)") auto

declare bsearch.simps [simp del]

lemma bsearch_Some:
  "bsearch cmp a l u = Some i \<Longrightarrow> l \<le> i \<and> i < u \<and> cmp (a ! i) = 0"
proof (induction cmp a l u rule: bsearch.induct)
  case (1 cmp a l u)
  let ?m = "(l + u) div 2"
  have lu: "l < u" using "1.prems" by (simp add: bsearch.simps [of cmp a l u] split: if_splits)
  consider "cmp (a ! ?m) < 0" | "0 < cmp (a ! ?m)" | "cmp (a ! ?m) = 0" by linarith
  then show ?case
  proof cases
    case 1
    then have "bsearch cmp a l ?m = Some i" using "1.prems" lu by (simp add: bsearch.simps [of cmp a l u])
    then have "l \<le> i \<and> i < ?m \<and> cmp (a ! i) = 0" by (rule "1.IH"(1)[OF lu refl refl 1])
    then show ?thesis using lu by auto
  next
    case 2
    then have "bsearch cmp a (Suc ?m) u = Some i" using "1.prems" lu by (simp add: bsearch.simps [of cmp a l u])
    then have "Suc ?m \<le> i \<and> i < u \<and> cmp (a ! i) = 0" using "1.IH"(2)[OF lu refl refl] 2 by simp
    then show ?thesis using lu by auto
  next
    case 3
    then show ?thesis using "1.prems" lu by (auto simp: bsearch.simps [of cmp a l u])
  qed
qed

lemma bsearch_None:
  assumes "\<And>i j. i < j \<Longrightarrow> j < u \<Longrightarrow> cmp (a ! j) \<ge> 0 \<Longrightarrow> cmp (a ! i) > 0"
  shows "bsearch cmp a l u = None \<Longrightarrow> l \<le> i \<Longrightarrow> i < u \<Longrightarrow> cmp (a ! i) \<noteq> 0"
  using assms
proof (induction cmp a l u rule: bsearch.induct)
  case (1 cmp a l u)
  let ?m = "(l + u) div 2"
  have lu: "l < u" using "1.prems" by simp
  have m: "?m < u" "l \<le> ?m" using lu by auto
  consider "cmp (a ! ?m) < 0" | "0 < cmp (a ! ?m)" | "cmp (a ! ?m) = 0" by linarith
  then show ?case
  proof cases
    case 1
    then have none: "bsearch cmp a l ?m = None" using "1.prems" lu by (simp add: bsearch.simps [of cmp a l u])
    show ?thesis
    proof (cases "i < ?m")
      case True
      then show ?thesis
        using "1.IH"(1)[OF lu refl refl 1 none] "1.prems"(2,4) m by (meson less_trans)
    next
      case False
      then show ?thesis using "1.prems"(4)[of ?m i] "1.prems"(3) 1 by (cases "i = ?m") auto
    qed
  next
    case 2
    then have none: "bsearch cmp a (Suc ?m) u = None" using "1.prems" lu by (simp add: bsearch.simps [of cmp a l u])
    show ?thesis
    proof (cases "?m < i")
      case True
      then show ?thesis using "1.IH"(2)[OF lu refl refl _ 2 none] 2 "1.prems"(3,4) by simp
    next
      case False
      then show ?thesis using "1.prems"(4)[of i ?m] m 2 by (cases "i = ?m") auto
    qed
  next
    case 3
    then show ?thesis using "1.prems" lu by (simp add: bsearch.simps [of cmp a l u])
  qed
qed
end
