(* ===== verification/Kmod_Array.thy ===== *)
theory Kmod_Array
  imports Kmod_Prelude "HOL-Library.Multiset"
begin

text \<open>
  \<open>shared/array.c\<close>: a pointer array that grows and shrinks in steps. The record is
  \<open>struct array\<close>; \<open>arr_cells\<close> is the allocated block (NULL is the empty block), whose cells may be
  uninitialised. Every store and move is bounds checked, so that a call returning \<open>Some\<close> touched
  only memory of the block. The interface locales \<open>vec\<close> and \<open>unique_vec\<close> state what a client of
  the array relies on; depmod's dependency lists are such a client.
\<close>

record 'a array =
  arr_cells :: "'a slots"
  arr_count :: size_t
  arr_total :: size_t
  arr_step :: size_t

section \<open>Operations\<close>

definition array_realloc :: "(size_t \<Rightarrow> bool) \<Rightarrow> 'a array \<Rightarrow> size_t \<Rightarrow> unit result \<times> 'a array" where
  "array_realloc alloc a new_total =
     (let (total_size, ov) = umul_overflow 8 new_total in
      if ov then (Inl ENOMEM, a)
      else if \<not> alloc total_size then (Inl ENOMEM, a)
      else (Inr (), a\<lparr>arr_cells := realloc_slots (unat new_total) (arr_cells a),
                      arr_total := new_total\<rparr>))"

definition array_trim :: "(size_t \<Rightarrow> bool) \<Rightarrow> 'a array \<Rightarrow> 'a array" where
  "array_trim alloc a =
     (if arr_count a + arr_step a < arr_total a
      then snd (array_realloc alloc a (arr_total a - arr_step a)) else a)"

definition array_init :: "size_t \<Rightarrow> 'a array option" where
  "array_init step =
     (if 0 < step then Some \<lparr>arr_cells = [], arr_count = 0, arr_total = 0, arr_step = step\<rparr>
      else None)"

definition array_append :: "(size_t \<Rightarrow> bool) \<Rightarrow> 'a array \<Rightarrow> 'a \<Rightarrow> (int result \<times> 'a array) option" where
  "array_append alloc a element =
     (let grown =
        (if arr_total a \<le> arr_count a + 1 then
           (let (new_size, ov) = uadd_overflow (arr_total a) (arr_step a) in
            if ov then (Inl ENOMEM, a) else array_realloc alloc a new_size)
         else (Inr (), a)) in
      case grown of
        (Inl e, a') \<Rightarrow> Some (Inl e, a')
      | (Inr _, a') \<Rightarrow>
          do { cells \<leftarrow> store (unat (arr_count a')) element (arr_cells a');
               Some (Inr (sint (ucast (arr_count a') :: 32 word)),
                     a'\<lparr>arr_cells := cells, arr_count := arr_count a' + 1\<rparr>) })"

text \<open>The scan of the first \<open>n\<close> cells; reading an uninitialised or missing cell is undefined.\<close>

fun array_scan :: "nat \<Rightarrow> 'a slots \<Rightarrow> 'a \<Rightarrow> bool option" where
  "array_scan 0 s x = Some False"
| "array_scan (Suc n) [] x = None"
| "array_scan (Suc n) (None # s) x = None"
| "array_scan (Suc n) (Some y # s) x = (if y = x then Some True else array_scan n s x)"

definition array_append_unique ::
    "(size_t \<Rightarrow> bool) \<Rightarrow> 'a array \<Rightarrow> 'a \<Rightarrow> (int result \<times> 'a array) option" where
  "array_append_unique alloc a element =
     do { found \<leftarrow> (if arr_count a \<noteq> 0 then array_scan (unat (arr_count a)) (arr_cells a) element
                    else Some False);
          if found then Some (Inl EEXIST, a) else array_append alloc a element }"

definition array_pop :: "(size_t \<Rightarrow> bool) \<Rightarrow> 'a array \<Rightarrow> 'a array" where
  "array_pop alloc a =
     (if arr_count a = 0 then a else array_trim alloc (a\<lparr>arr_count := arr_count a - 1\<rparr>))"

definition array_free_array :: "'a array \<Rightarrow> 'a array" where
  "array_free_array a = a\<lparr>arr_cells := [], arr_count := 0, arr_total := 0\<rparr>"

definition array_sort ::
    "(('a \<Rightarrow> 'a \<Rightarrow> int) \<Rightarrow> 'a list \<Rightarrow> 'a list) \<Rightarrow> ('a \<Rightarrow> 'a \<Rightarrow> int) \<Rightarrow> 'a array \<Rightarrow> 'a array option" where
  "array_sort qsort cmp a =
     (let n = unat (arr_count a) in
      if init_upto n (arr_cells a)
      then Some (a\<lparr>arr_cells := map Some (qsort cmp (live n (arr_cells a))) @ drop n (arr_cells a)\<rparr>)
      else None)"

definition array_remove_at ::
    "(size_t \<Rightarrow> bool) \<Rightarrow> 'a array \<Rightarrow> size_t \<Rightarrow> (unit result \<times> 'a array) option" where
  "array_remove_at alloc a pos =
     (if arr_count a \<le> pos then Some (Inl ENOENT, a)
      else
        (let c = arr_count a - 1 in
         do { cells \<leftarrow> (if pos < c
                        then memmove (unat pos) (unat pos + 1) (unat (c - pos)) (arr_cells a)
                        else Some (arr_cells a));
              Some (Inr (), array_trim alloc (a\<lparr>arr_cells := cells, arr_count := c\<rparr>)) }))"

section \<open>Invariant and contents\<close>

text \<open>
  The block has \<open>total\<close> cells, a whole number of steps, the first \<open>count\<close> are initialised, and its
  size in bytes fits \<open>size_t\<close>. The contents are the first \<open>count\<close> cells.
\<close>

definition array_inv :: "'a array \<Rightarrow> bool" where
  "array_inv a \<longleftrightarrow> arr_step a \<noteq> 0 \<and> length (arr_cells a) = unat (arr_total a)
     \<and> init_upto (unat (arr_count a)) (arr_cells a)
     \<and> 8 * unat (arr_total a) < 2 ^ 64 \<and> unat (arr_step a) dvd unat (arr_total a)"

definition array_list :: "'a array \<Rightarrow> 'a list" where
  "array_list a = live (unat (arr_count a)) (arr_cells a)"

lemma array_invD:
  assumes "array_inv a"
  shows "unat (arr_count a) \<le> unat (arr_total a)" "unat (arr_total a) < 2 ^ 61"
    "unat (arr_count a + 1) = Suc (unat (arr_count a))"
    "arr_total a \<noteq> 0 \<Longrightarrow> unat (arr_step a) \<le> unat (arr_total a)"
    "length (array_list a) = unat (arr_count a)"
proof -
  show c: "unat (arr_count a) \<le> unat (arr_total a)" and t: "unat (arr_total a) < 2 ^ 61"
    using assms by (auto simp: array_inv_def dest: init_uptoD)
  then show "unat (arr_count a + 1) = Suc (unat (arr_count a))"
    by (simp add: unat_word_ariths)
  show "arr_total a \<noteq> 0 \<Longrightarrow> unat (arr_step a) \<le> unat (arr_total a)"
    using assms by (auto simp: array_inv_def unat_gt_0 intro!: dvd_imp_le)
  show "length (array_list a) = unat (arr_count a)"
    using assms by (simp add: array_list_def array_inv_def)
qed

lemma array_init_inv: "array_init s = Some a \<Longrightarrow> array_inv a \<and> array_list a = []"
  by (auto simp: array_init_def array_inv_def array_list_def split: if_splits)

lemma array_realloc_spec:
  assumes "array_inv a" and "unat (arr_count a) \<le> unat n" and "unat (arr_step a) dvd unat n"
  shows "array_realloc alloc a n = (Inl ENOMEM, a) \<or>
    (\<exists>a'. array_realloc alloc a n = (Inr (), a') \<and> array_inv a' \<and> array_list a' = array_list a
       \<and> arr_count a' = arr_count a \<and> arr_total a' = n \<and> arr_step a' = arr_step a)"
proof (cases "snd (umul_overflow 8 n) \<or> \<not> alloc (fst (umul_overflow 8 n))")
  case True
  then show ?thesis by (auto simp: array_realloc_def split: prod.split)
next
  case False
  then have "8 * unat n < 2 ^ 64" by (simp add: umul_overflow_iff)
  moreover have "init_upto (unat (arr_count a)) (realloc_slots (unat n) (arr_cells a))
      \<and> live (unat (arr_count a)) (realloc_slots (unat n) (arr_cells a)) = array_list a"
    using assms realloc_slots_live [of "unat (arr_count a)" "arr_cells a" "unat n"]
    by (simp add: array_inv_def array_list_def)
  ultimately show ?thesis
    using False assms by (auto simp: array_realloc_def array_inv_def array_list_def split: prod.split)
qed

lemma array_trim_spec:
  assumes "array_inv a"
  shows "array_inv (array_trim alloc a) \<and> array_list (array_trim alloc a) = array_list a"
proof (cases "arr_count a + arr_step a < arr_total a")
  case True
  note D = array_invD [OF assms]
  have "arr_total a \<noteq> 0" using True by auto
  then have st: "unat (arr_step a) \<le> unat (arr_total a)" by (rule D(4))
  have le: "arr_step a \<le> arr_total a" using st by (simp add: word_le_nat_alt)
  have sum: "unat (arr_count a) + unat (arr_step a) < unat (arr_total a)"
    using True D(1,2) st by (simp add: word_less_nat_alt unat_word_ariths)
  have diff: "unat (arr_total a - arr_step a) = unat (arr_total a) - unat (arr_step a)"
    using le by (simp add: unat_sub)
  have "unat (arr_step a) dvd unat (arr_total a - arr_step a)"
    unfolding diff using assms by (simp add: array_inv_def)
  moreover have "unat (arr_count a) \<le> unat (arr_total a - arr_step a)"
    unfolding diff using sum by linarith
  ultimately have "array_realloc alloc a (arr_total a - arr_step a) = (Inl ENOMEM, a) \<or>
    (\<exists>a'. array_realloc alloc a (arr_total a - arr_step a) = (Inr (), a') \<and> array_inv a'
       \<and> array_list a' = array_list a)"
    using array_realloc_spec [OF assms] by blast
  then show ?thesis
    using True assms by (auto simp: array_trim_def)
qed (simp add: array_trim_def assms)

lemma array_scan_live:
  "init_upto n s \<Longrightarrow> array_scan n s x = Some (x \<in> set (live n s))"
  by (induction n s x rule: array_scan.induct) (auto simp: init_upto_def live_def)

section \<open>Functional behaviour\<close>

lemma array_append_cases:
  assumes inv: "array_inv a"
  shows "array_append alloc a x = Some (Inl ENOMEM, a) \<or>
    (\<exists>a'. array_append alloc a x = Some (Inr (sint (ucast (arr_count a) :: 32 word)), a')
       \<and> array_inv a' \<and> array_list a' = array_list a @ [x] \<and> arr_step a' = arr_step a)"
proof -
  note D = array_invD [OF inv]
  have put: "\<exists>a''. do { cells \<leftarrow> store (unat (arr_count a')) x (arr_cells a');
               Some (Inr (sint (ucast (arr_count a') :: 32 word)) :: int result,
                     a'\<lparr>arr_cells := cells, arr_count := arr_count a' + 1\<rparr>) }
        = Some (Inr (sint (ucast (arr_count a') :: 32 word)), a'')
      \<and> array_inv a'' \<and> array_list a'' = array_list a' @ [x] \<and> arr_step a'' = arr_step a'"
    if "array_inv a'" and "unat (arr_count a') < unat (arr_total a')" for a'
    using that store_end [of "unat (arr_count a')" "arr_cells a'" x] array_invD(3)[OF that(1)]
    by (auto simp: array_inv_def array_list_def)
  show ?thesis
  proof (cases "arr_total a \<le> arr_count a + 1")
    case False
    then have "unat (arr_count a) < unat (arr_total a)"
      using D by (simp add: word_le_nat_alt)
    with put [OF inv] False show ?thesis by (auto simp: array_append_def)
  next
    case True
    let ?n = "fst (uadd_overflow (arr_total a) (arr_step a))"
    show ?thesis
    proof (cases "snd (uadd_overflow (arr_total a) (arr_step a))")
      case True
      then show ?thesis using \<open>arr_total a \<le> arr_count a + 1\<close>
        by (auto simp: array_append_def split: prod.split)
    next
      case False
      then have n: "unat ?n = unat (arr_total a) + unat (arr_step a)"
        by (rule uadd_overflow_value)
      have pos: "0 < unat (arr_step a)" using inv by (simp add: array_inv_def unat_gt_0)
      have "array_realloc alloc a ?n = (Inl ENOMEM, a) \<or>
        (\<exists>a'. array_realloc alloc a ?n = (Inr (), a') \<and> array_inv a' \<and> array_list a' = array_list a
           \<and> arr_count a' = arr_count a \<and> arr_total a' = ?n \<and> arr_step a' = arr_step a)"
        using inv D n by (intro array_realloc_spec) (auto simp: array_inv_def)
      then show ?thesis
      proof (elim disjE exE conjE)
        assume "array_realloc alloc a ?n = (Inl ENOMEM, a)"
        then show ?thesis using True False by (auto simp: array_append_def split: prod.split)
      next
        fix a' assume r: "array_realloc alloc a ?n = (Inr (), a')" "array_inv a'"
          "array_list a' = array_list a" "arr_count a' = arr_count a" "arr_total a' = ?n"
          "arr_step a' = arr_step a"
        have "unat (arr_count a') < unat (arr_total a')" using r n D(1) pos by simp
        from put [OF r(2) this] show ?thesis
          using True False r by (auto simp: array_append_def split: prod.split)
      qed
    qed
  qed
qed

lemma array_append_unique_eq:
  assumes "array_inv a"
  shows "array_append_unique alloc a x =
    (if x \<in> set (array_list a) then Some (Inl EEXIST, a) else array_append alloc a x)"
  using assms array_scan_live [of "unat (arr_count a)" "arr_cells a" x]
  by (auto simp: array_append_unique_def array_list_def array_inv_def)

lemma array_pop_spec:
  assumes inv: "array_inv a"
  shows "array_inv (array_pop alloc a) \<and> array_list (array_pop alloc a) = butlast (array_list a)"
proof (cases "arr_count a = 0")
  case True
  then show ?thesis using inv by (simp add: array_pop_def array_list_def)
next
  case False
  let ?a = "a\<lparr>arr_count := arr_count a - 1\<rparr>"
  have c: "unat (arr_count a - 1) = unat (arr_count a) - 1"
    using False by (rule unat_pred)
  have "array_inv ?a" "array_list ?a = butlast (array_list a)"
    using inv c array_invD(5)[OF inv] live_mono [of "unat (arr_count a) - 1" "unat (arr_count a)" "arr_cells a"]
    by (auto simp: array_inv_def array_list_def butlast_conv_take intro: init_upto_mono)
  then show ?thesis using array_trim_spec [of ?a alloc] False by (simp add: array_pop_def)
qed

lemma array_remove_at_spec:
  assumes inv: "array_inv a"
  shows "\<exists>r a'. array_remove_at alloc a p = Some (r, a') \<and> array_inv a'
    \<and> (if unat p < length (array_list a)
       then r = Inr () \<and> array_list a' = take (unat p) (array_list a) @ drop (Suc (unat p)) (array_list a)
       else r = Inl ENOENT \<and> a' = a)"
proof (cases "arr_count a \<le> p")
  case True
  then show ?thesis using inv array_invD(5)[OF inv]
    by (simp add: array_remove_at_def word_le_nat_alt)
next
  case False
  let ?n = "unat (arr_count a)" and ?c = "arr_count a - 1"
  have lt: "unat p < ?n" using False by (simp add: word_le_nat_alt)
  have c: "unat ?c = ?n - 1" using lt by (intro unat_pred) auto
  have i: "init_upto ?n (arr_cells a)" using inv by (simp add: array_inv_def)
  obtain s' where s': "(if p < ?c then memmove (unat p) (unat p + 1) (unat (?c - p)) (arr_cells a)
        else Some (arr_cells a)) = Some s'"
      "length s' = length (arr_cells a)" "init_upto (?n - 1) s'"
      "live (?n - 1) s' = take (unat p) (array_list a) @ drop (Suc (unat p)) (array_list a)"
  proof (cases "p < ?c")
    case True
    then have "unat (?c - p) = ?n - Suc (unat p)"
      using c by (simp add: unat_sub word_le_nat_alt word_less_nat_alt)
    then show thesis using that memmove_delete [OF i lt] True by (auto simp: array_list_def)
  next
    case False
    then have n: "?n = Suc (unat p)" using c lt by (simp add: word_less_nat_alt)
    have "init_upto (?n - 1) (arr_cells a)" by (rule init_upto_mono [OF i]) simp
    then show thesis
      using that [of "arr_cells a"] False n i live_mono [of "?n - 1" ?n "arr_cells a"]
      by (simp add: array_list_def)
  qed
  let ?a = "a\<lparr>arr_cells := s', arr_count := ?c\<rparr>"
  have "array_inv ?a" "array_list ?a = take (unat p) (array_list a) @ drop (Suc (unat p)) (array_list a)"
    using s' c inv by (auto simp: array_inv_def array_list_def)
  then show ?thesis using array_trim_spec [of ?a alloc] False s' lt array_invD(5)[OF inv]
    by (auto simp: array_remove_at_def Let_def)
qed

text \<open>\<open>qsort\<close> is the C library's: it permutes the array so that it is sorted for the comparison.\<close>

lemma array_sort_spec:
  assumes inv: "array_inv a" and perm: "\<And>xs. mset (qsort cmp xs) = mset xs"
  shows "\<exists>a'. array_sort qsort cmp a = Some a' \<and> array_inv a'
    \<and> array_list a' = qsort cmp (array_list a)"
proof -
  let ?n = "unat (arr_count a)"
  let ?l = "qsort cmp (live ?n (arr_cells a))"
  have len: "length ?l = ?n"
    using inv perm mset_eq_length [of ?l "live ?n (arr_cells a)"] by (simp add: array_inv_def)
  have "init_upto ?n (map Some ?l @ drop ?n (arr_cells a))
      \<and> live ?n (map Some ?l @ drop ?n (arr_cells a)) = ?l"
    by (rule init_upto_intro) (simp_all add: len)
  then show ?thesis
    using inv len by (auto simp: array_sort_def array_inv_def array_list_def Let_def dest: init_uptoD)
qed

section \<open>The interface of an append-only vector\<close>

text \<open>
  What a client of \<open>array_append\<close> relies on: the call is always defined; on success the element
  is at the end, on failure the contents are unchanged. \<open>unique_vec\<close> adds the contract of
  \<open>array_append_unique\<close>.
\<close>

locale vec =
  fixes append :: "'v \<Rightarrow> 'a \<Rightarrow> (int result \<times> 'v) option"
    and elems :: "'v \<Rightarrow> 'a list"
    and inv :: "'v \<Rightarrow> bool"
  assumes append_defined: "inv v \<Longrightarrow> \<exists>r v'. append v x = Some (r, v')"
    and append_ok: "inv v \<Longrightarrow> append v x = Some (Inr i, v') \<Longrightarrow> inv v' \<and> elems v' = elems v @ [x]"
    and append_err: "inv v \<Longrightarrow> append v x = Some (Inl e, v') \<Longrightarrow> inv v' \<and> elems v' = elems v"

locale unique_vec = vec +
  fixes append_unique :: "'v \<Rightarrow> 'a \<Rightarrow> (int result \<times> 'v) option"
  assumes unique_eq: "inv v \<Longrightarrow> append_unique v x =
    (if x \<in> set (elems v) then Some (Inl EEXIST, v) else append v x)"
begin

lemma unique_defined: "inv v \<Longrightarrow> \<exists>r v'. append_unique v x = Some (r, v')"
  using append_defined [of v x] by (simp add: unique_eq)

lemma unique_set:
  assumes "inv v" and "append_unique v x = Some (Inr i, v')"
  shows "inv v' \<and> x \<notin> set (elems v) \<and> set (elems v') = insert x (set (elems v))
    \<and> (distinct (elems v) \<longrightarrow> distinct (elems v'))"
  using assms append_ok [of v x i v'] by (auto simp: unique_eq split: if_splits)

lemma unique_keeps:
  assumes "inv v" and "append_unique v x = Some (r, v')"
  shows "inv v' \<and> (\<exists>ys. elems v' = elems v @ ys \<and> set ys \<subseteq> {x})
    \<and> (distinct (elems v) \<longrightarrow> distinct (elems v'))"
proof (cases r)
  case (Inl e)
  then show ?thesis using assms append_err [of v x e v'] by (auto simp: unique_eq split: if_splits)
next
  case (Inr i)
  then show ?thesis
    using assms append_ok [of v x i v'] by (auto simp: unique_eq split: if_splits)
qed

lemma unique_exists_iff:
  assumes "inv v"
  shows "append_unique v x = Some (Inl EEXIST, v') \<Longrightarrow> x \<in> set (elems v) \<or> append v x = Some (Inl EEXIST, v')"
  using assms by (auto simp: unique_eq split: if_splits)

end

interpretation arr: unique_vec "array_append alloc" array_list array_inv "array_append_unique alloc"
proof unfold_locales
  fix v :: "'a array" and x
  assume inv: "array_inv v"
  show "\<exists>r v'. array_append alloc v x = Some (r, v')"
    using array_append_cases [OF inv, of alloc x] by blast
  show "array_inv v' \<and> array_list v' = array_list v @ [x]" if "array_append alloc v x = Some (Inr i, v')" for i v'
    using array_append_cases [OF inv, of alloc x] that by auto
  show "array_inv v' \<and> array_list v' = array_list v" if "array_append alloc v x = Some (Inl e, v')" for e v'
    using array_append_cases [OF inv, of alloc x] that inv by auto
  show "array_append_unique alloc v x =
      (if x \<in> set (array_list v) then Some (Inl EEXIST, v) else array_append alloc v x)"
    by (rule array_append_unique_eq [OF inv])
qed

section \<open>Properties\<close>

text \<open>
  Removing a position from an array whose contents are \<open>xs\<close> never touches memory outside the
  block: inside the range it returns 0 and deletes exactly that element, keeping the order of the
  others; outside it returns \<open>-ENOENT\<close> and changes nothing. The invariant is kept, whether or not
  the shrinking reallocation succeeds.
\<close>

theorem array_remove_at_correct:
  assumes "array_inv a"
  shows "\<exists>r a'. array_remove_at alloc a pos = Some (r, a') \<and> array_inv a'
    \<and> (if unat pos < length (array_list a)
       then r = Inr () \<and> array_list a' = take (unat pos) (array_list a) @ drop (Suc (unat pos)) (array_list a)
       else r = Inl ENOENT \<and> a' = a)"
  using array_remove_at_spec [OF assms] .

definition array_example :: "nat array" where
  "array_example = \<lparr>arr_cells = [Some 7, Some 8, Some 9, None], arr_count = 3, arr_total = 4, arr_step = 2\<rparr>"

lemma array_example_inv: "array_inv array_example" "array_list array_example = [7, 8, 9]"
  by (simp_all add: array_example_def array_inv_def array_list_def init_upto_def live_def)

theorem array_remove_at_witness:
  "\<exists>r a'. array_remove_at (\<lambda>_. True) array_example 1 = Some (r, a') \<and> r = Inr () \<and> array_list a' = [7, 9]"
  using array_remove_at_correct [OF array_example_inv(1), of "\<lambda>_. True" 1] by (auto simp: array_example_inv)

text \<open>
  C23. \<open>array_append_unique\<close> keeps an array duplicate free and is always memory safe: an element
  that is present is refused with \<open>-EEXIST\<close> and the array is unchanged; otherwise the result is
  either \<open>-ENOMEM\<close> with the array unchanged, or the old count as an \<open>int\<close> with the element
  appended.
\<close>

theorem array_append_unique_correct:
  assumes "array_inv a" and "distinct (array_list a)"
  shows "\<exists>r a'. array_append_unique alloc a x = Some (r, a') \<and> array_inv a' \<and> distinct (array_list a')
    \<and> (if x \<in> set (array_list a) then r = Inl EEXIST \<and> a' = a
       else r = Inl ENOMEM \<and> a' = a
          \<or> r = Inr (sint (ucast (arr_count a) :: 32 word)) \<and> array_list a' = array_list a @ [x])"
proof (cases "x \<in> set (array_list a)")
  case True
  then show ?thesis using assms by (simp add: array_append_unique_eq)
next
  case False
  then have eq: "array_append_unique alloc a x = array_append alloc a x"
    using assms by (simp add: array_append_unique_eq)
  show ?thesis unfolding eq
    using array_append_cases [OF assms(1), of alloc x] assms False
    by (elim disjE exE conjE) simp_all
qed

theorem array_append_unique_witness:
  "\<exists>a'. array_append_unique (\<lambda>_. False) array_example 8 = Some (Inl EEXIST, a') \<and> array_list a' = [7, 8, 9]"
  using array_append_unique_correct [OF array_example_inv(1), of "\<lambda>_. False" 8]
  by (auto simp: array_example_inv)

end
