(* ===== verification/Kmod_Strbuf.thy ===== *)
theory Kmod_Strbuf
  imports Kmod_Prelude
begin

text \<open>
  \<open>shared/strbuf.c\<close>: a growing byte buffer, on the heap or started on a caller's stack block. The
  record is \<open>struct strbuf\<close>; \<open>sb_bytes\<close> is the block \<open>bytes\<close> points to, whose bytes may be
  uninitialised. The locale \<open>textbuf\<close> is the contract its clients (the line reader and the index
  walkers) rely on: pushing appends or fails without a change, popping removes from the end, so a
  push undone by a pop of the same length restores the contents.
\<close>

record strbuf =
  sb_bytes :: "char slots"
  sb_size :: size_t
  sb_used :: size_t
  sb_heap :: bool

section \<open>Operations\<close>

abbreviation BUF_STEP :: size_t where "BUF_STEP \<equiv> 128"

definition buf_realloc :: "(size_t \<Rightarrow> bool) \<Rightarrow> strbuf \<Rightarrow> size_t \<Rightarrow> bool \<times> strbuf" where
  "buf_realloc alloc buf sz =
     (if 0 < sz \<and> \<not> alloc sz then (False, buf)
      else (True, buf\<lparr>sb_heap := True, sb_bytes := realloc_slots (unat sz) (sb_bytes buf), sb_size := sz\<rparr>))"

definition strbuf_reserve_extra :: "(size_t \<Rightarrow> bool) \<Rightarrow> strbuf \<Rightarrow> size_t \<Rightarrow> bool \<times> strbuf" where
  "strbuf_reserve_extra alloc buf n =
     (if n < sb_size buf - sb_used buf then (True, buf)
      else
        (let (n, ov) = uadd_overflow (sb_used buf) n in
         if ov \<or> - 1 - BUF_STEP \<le> n then (False, buf)
         else
           (let n = n + 1;
                n = (if n mod BUF_STEP \<noteq> 0 then (n div BUF_STEP + 1) * BUF_STEP else n) in
            buf_realloc alloc buf n)))"

definition strbuf_init :: strbuf where
  "strbuf_init = \<lparr>sb_bytes = [], sb_size = 0, sb_used = 0, sb_heap = True\<rparr>"

text \<open>\<open>DECLARE_STRBUF_WITH_STACK\<close>: the block is an uninitialised array of the caller's frame.\<close>

definition strbuf_with_stack :: "size_t \<Rightarrow> strbuf" where
  "strbuf_with_stack sz =
     \<lparr>sb_bytes = replicate (unat sz) None, sb_size = sz, sb_used = 0, sb_heap = False\<rparr>"

text \<open>The C string at the start of a block: bytes are read up to the first NUL.\<close>

fun read_cstr :: "char slots \<Rightarrow> string option" where
  "read_cstr [] = None"
| "read_cstr (None # s) = None"
| "read_cstr (Some c # s) = (if c = NUL then Some [] else map_option (Cons c) (read_cstr s))"

definition strbuf_str :: "strbuf \<Rightarrow> (string \<times> strbuf) option" where
  "strbuf_str buf =
     (if sb_used buf = 0 then Some ([], buf)
      else
        (let i = unat (sb_used buf - 1) in
         do { last \<leftarrow> (if i < length (sb_bytes buf) then sb_bytes buf ! i else None);
              bytes \<leftarrow> (if last \<noteq> NUL then store (unat (sb_used buf)) NUL (sb_bytes buf)
                        else Some (sb_bytes buf));
              str \<leftarrow> read_cstr bytes;
              Some (str, buf\<lparr>sb_bytes := bytes\<rparr>) }))"

definition strbuf_pushchar :: "(size_t \<Rightarrow> bool) \<Rightarrow> strbuf \<Rightarrow> char \<Rightarrow> (bool \<times> strbuf) option" where
  "strbuf_pushchar alloc buf ch =
     (case strbuf_reserve_extra alloc buf 1 of
        (False, buf') \<Rightarrow> Some (False, buf')
      | (True, buf') \<Rightarrow>
          do { bytes \<leftarrow> store (unat (sb_used buf')) ch (sb_bytes buf');
               Some (True, buf'\<lparr>sb_bytes := bytes, sb_used := sb_used buf' + 1\<rparr>) })"

definition memcpy_to :: "char list \<Rightarrow> nat \<Rightarrow> char slots \<Rightarrow> char slots option" where
  "memcpy_to src d s =
     (if d + length src \<le> length s
      then Some (take d s @ map Some src @ drop (d + length src) s) else None)"

definition strbuf_pushmem :: "(size_t \<Rightarrow> bool) \<Rightarrow> strbuf \<Rightarrow> char list \<Rightarrow> (size_t \<times> strbuf) option" where
  "strbuf_pushmem alloc buf src =
     (let sz = (of_nat (length src) :: size_t) in
      if sz = 0 then Some (0, buf)
      else
        (case strbuf_reserve_extra alloc buf sz of
           (False, buf') \<Rightarrow> Some (0, buf')
         | (True, buf') \<Rightarrow>
             do { bytes \<leftarrow> memcpy_to src (unat (sb_used buf')) (sb_bytes buf');
                  Some (sz, buf'\<lparr>sb_bytes := bytes, sb_used := sb_used buf' + sz\<rparr>) }))"

definition strbuf_pushchars :: "(size_t \<Rightarrow> bool) \<Rightarrow> strbuf \<Rightarrow> string \<Rightarrow> (size_t \<times> strbuf) option" where
  "strbuf_pushchars alloc buf str = strbuf_pushmem alloc buf str"

definition strbuf_popchar :: "strbuf \<Rightarrow> strbuf option" where
  "strbuf_popchar buf =
     (if 0 < sb_used buf then Some (buf\<lparr>sb_used := sb_used buf - 1\<rparr>) else None)"

definition strbuf_popchars :: "strbuf \<Rightarrow> size_t \<Rightarrow> strbuf option" where
  "strbuf_popchars buf n =
     (if n \<le> sb_used buf then Some (buf\<lparr>sb_used := sb_used buf - n\<rparr>) else None)"

definition strbuf_shrink_to :: "strbuf \<Rightarrow> size_t \<Rightarrow> strbuf option" where
  "strbuf_shrink_to buf sz =
     (if sz \<le> sb_used buf then Some (buf\<lparr>sb_used := sz\<rparr>) else None)"

definition strbuf_clear :: "strbuf \<Rightarrow> strbuf" where
  "strbuf_clear buf = buf\<lparr>sb_used := 0\<rparr>"

section \<open>Invariant and contents\<close>

text \<open>
  The used bytes are initialised, and a non-empty buffer has room for the NUL that \<open>strbuf_str\<close>
  writes behind them.
\<close>

definition strbuf_inv :: "strbuf \<Rightarrow> bool" where
  "strbuf_inv buf \<longleftrightarrow> length (sb_bytes buf) = unat (sb_size buf)
     \<and> init_upto (unat (sb_used buf)) (sb_bytes buf)
     \<and> (sb_used buf = 0 \<or> unat (sb_used buf) < unat (sb_size buf))"

definition sb_text :: "strbuf \<Rightarrow> char list" where
  "sb_text buf = live (unat (sb_used buf)) (sb_bytes buf)"

lemma length_sb_text: "strbuf_inv buf \<Longrightarrow> length (sb_text buf) = unat (sb_used buf)"
  by (simp add: strbuf_inv_def sb_text_def)

lemma strbuf_invD: "strbuf_inv buf \<Longrightarrow> unat (sb_used buf) \<le> unat (sb_size buf)"
  by (auto simp: strbuf_inv_def)

lemma strbuf_init_inv [simp]: "strbuf_inv strbuf_init" "sb_text strbuf_init = []"
  by (simp_all add: strbuf_inv_def sb_text_def strbuf_init_def)

lemma strbuf_with_stack_inv [simp]:
  "strbuf_inv (strbuf_with_stack sz)" "sb_text (strbuf_with_stack sz) = []"
  by (simp_all add: strbuf_inv_def sb_text_def strbuf_with_stack_def)

lemma strbuf_clear_inv [simp]:
  "strbuf_inv buf \<Longrightarrow> strbuf_inv (strbuf_clear buf)" "sb_text (strbuf_clear buf) = []"
  by (simp_all add: strbuf_inv_def sb_text_def strbuf_clear_def)

lemma strbuf_shrink_to_spec:
  assumes "strbuf_inv buf" and "unat sz \<le> length (sb_text buf)"
  shows "\<exists>buf'. strbuf_shrink_to buf sz = Some buf' \<and> strbuf_inv buf'
    \<and> sb_text buf' = take (unat sz) (sb_text buf)"
proof -
  have le: "unat sz \<le> unat (sb_used buf)" using assms by (simp add: length_sb_text)
  then have "init_upto (unat sz) (sb_bytes buf)"
    using assms(1) by (auto simp: strbuf_inv_def intro: init_upto_mono)
  moreover have "sz = 0 \<or> unat sz < unat (sb_size buf)"
    using le assms(1) by (auto simp: strbuf_inv_def unat_eq_zero)
  ultimately show ?thesis
    using le assms live_mono [OF le, of "sb_bytes buf"]
    by (auto simp: strbuf_shrink_to_def strbuf_inv_def sb_text_def word_le_nat_alt)
qed

lemma strbuf_popchars_shrink: "strbuf_popchars buf n = (if n \<le> sb_used buf then strbuf_shrink_to buf (sb_used buf - n) else None)"
  by (auto simp: strbuf_popchars_def strbuf_shrink_to_def word_le_nat_alt unat_sub)

lemma strbuf_popchar_popchars: "strbuf_popchar buf = strbuf_popchars buf 1"
  by (auto simp: strbuf_popchar_def strbuf_popchars_def word_le_nat_alt word_less_nat_alt)

lemma strbuf_popchars_spec:
  assumes "strbuf_inv buf" and "unat n \<le> length (sb_text buf)"
  shows "\<exists>buf'. strbuf_popchars buf n = Some buf' \<and> strbuf_inv buf'
    \<and> sb_text buf' = take (length (sb_text buf) - unat n) (sb_text buf)"
proof -
  have le: "n \<le> sb_used buf" using assms by (simp add: length_sb_text word_le_nat_alt)
  then show ?thesis
    using strbuf_shrink_to_spec [OF assms(1), of "sb_used buf - n"] assms
    by (auto simp: strbuf_popchars_shrink length_sb_text unat_sub)
qed

section \<open>Growing\<close>

text \<open>Rounding up to a multiple of \<open>BUF_STEP\<close> neither wraps nor shrinks.\<close>

lemma round_up_step:
  fixes n :: size_t
  assumes "n < - 1 - BUF_STEP"
  defines "m \<equiv> n + 1"
  shows "unat n < unat (if m mod BUF_STEP \<noteq> 0 then (m div BUF_STEP + 1) * BUF_STEP else m)"
proof -
  have n: "unat n < 2 ^ 64 - 129"
    using assms(1) by (simp add: word_less_nat_alt unat_minus_one_diff)
  then have m: "unat m = unat n + 1" by (simp add: m_def unat_word_ariths)
  have "unat m div 128 < 2 ^ 57 - 1" using n m by simp
  then have "unat ((m div BUF_STEP + 1) * BUF_STEP) = (unat m div 128 + 1) * 128"
    by (simp add: unat_word_ariths unat_div)
  then show ?thesis using m by auto
qed

lemma buf_realloc_spec:
  assumes "strbuf_inv buf" and "unat (sb_used buf) < unat sz"
  shows "buf_realloc alloc buf sz = (False, buf) \<or>
    (\<exists>buf'. buf_realloc alloc buf sz = (True, buf') \<and> strbuf_inv buf' \<and> sb_text buf' = sb_text buf
       \<and> sb_used buf' = sb_used buf \<and> sb_size buf' = sz)"
  using assms realloc_slots_live [of "unat (sb_used buf)" "sb_bytes buf" "unat sz"]
  by (auto simp: buf_realloc_def strbuf_inv_def sb_text_def)

lemma strbuf_reserve_extra_spec:
  assumes inv: "strbuf_inv buf"
  shows "strbuf_reserve_extra alloc buf n = (False, buf) \<or>
    (\<exists>buf'. strbuf_reserve_extra alloc buf n = (True, buf') \<and> strbuf_inv buf' \<and> sb_text buf' = sb_text buf
       \<and> sb_used buf' = sb_used buf \<and> unat (sb_used buf) + unat n < unat (sb_size buf'))"
proof (cases "n < sb_size buf - sb_used buf")
  case True
  then have "unat (sb_used buf) + unat n < unat (sb_size buf)"
    using strbuf_invD [OF inv] by (simp add: word_less_nat_alt word_le_nat_alt unat_sub)
  then show ?thesis using True inv by (simp add: strbuf_reserve_extra_def)
next
  case False
  obtain t ov where t: "uadd_overflow (sb_used buf) n = (t, ov)" by force
  show ?thesis
  proof (cases "ov \<or> - 1 - BUF_STEP \<le> t")
    case True
    then show ?thesis using False t by (simp add: strbuf_reserve_extra_def)
  next
    case f: False
    let ?m = "t + 1"
    define s where "s = (if ?m mod BUF_STEP \<noteq> 0 then (?m div BUF_STEP + 1) * BUF_STEP else ?m)"
    have "unat t = unat (sb_used buf) + unat n"
      using uadd_overflow_value [of "sb_used buf" n] t f by simp
    moreover have "unat t < unat s" using f unfolding s_def by (intro round_up_step) (simp add: not_le)
    moreover have "strbuf_reserve_extra alloc buf n = buf_realloc alloc buf s"
      using False f t by (simp add: strbuf_reserve_extra_def Let_def s_def)
    ultimately show ?thesis using buf_realloc_spec [OF inv, of s alloc] by auto
  qed
qed

lemma memcpy_to_spec:
  assumes "init_upto n s" and "n + length src \<le> length s"
  shows "\<exists>s'. memcpy_to src n s = Some s' \<and> length s' = length s \<and> init_upto (n + length src) s'
    \<and> live (n + length src) s' = live n s @ src"
proof -
  let ?s = "take n s @ map Some src @ drop (n + length src) s"
  have "init_upto (n + length src) ?s \<and> live (n + length src) ?s = live n s @ src"
    using assms by (intro init_upto_intro) (simp_all add: take_eq_live)
  then show ?thesis using assms by (simp add: memcpy_to_def)
qed

lemma strbuf_pushmem_spec:
  assumes inv: "strbuf_inv buf" and small: "length src < 2 ^ 64"
  shows "strbuf_pushmem alloc buf src = Some (0, buf) \<or>
    (\<exists>buf'. strbuf_pushmem alloc buf src = Some (of_nat (length src), buf') \<and> strbuf_inv buf'
       \<and> sb_text buf' = sb_text buf @ src)"
proof (cases "(of_nat (length src) :: size_t) = 0")
  case False
  let ?n = "of_nat (length src) :: size_t"
  have n: "unat ?n = length src" using small by (simp add: unat_of_nat)
  from strbuf_reserve_extra_spec [OF inv, of alloc ?n] show ?thesis
  proof (elim disjE exE conjE)
    fix b assume b: "strbuf_reserve_extra alloc buf ?n = (True, b)" "strbuf_inv b" "sb_text b = sb_text buf"
      "sb_used b = sb_used buf" "unat (sb_used buf) + unat ?n < unat (sb_size b)"
    have u: "unat (sb_used b + ?n) = unat (sb_used b) + length src"
      using unat_add_less [of "sb_used b" ?n "sb_size b"] b n by simp
    obtain s' where "memcpy_to src (unat (sb_used b)) (sb_bytes b) = Some s'"
        "length s' = length (sb_bytes b)" "init_upto (unat (sb_used b) + length src) s'"
        "live (unat (sb_used b) + length src) s' = sb_text b @ src"
      using memcpy_to_spec [of "unat (sb_used b)" "sb_bytes b" src] b n
      by (auto simp: strbuf_inv_def sb_text_def)
    then show ?thesis using b u n False
      by (auto simp: strbuf_pushmem_def strbuf_inv_def sb_text_def Let_def)
  qed (simp add: strbuf_pushmem_def False)
qed (simp add: strbuf_pushmem_def)

lemma strbuf_pushchar_spec:
  assumes inv: "strbuf_inv buf"
  shows "strbuf_pushchar alloc buf ch = Some (False, buf) \<or>
    (\<exists>buf'. strbuf_pushchar alloc buf ch = Some (True, buf') \<and> strbuf_inv buf'
       \<and> sb_text buf' = sb_text buf @ [ch])"
  using strbuf_reserve_extra_spec [OF inv, of alloc 1]
proof (elim disjE exE conjE)
  fix b assume b: "strbuf_reserve_extra alloc buf 1 = (True, b)" "strbuf_inv b" "sb_text b = sb_text buf"
    "sb_used b = sb_used buf" "unat (sb_used buf) + unat 1 < unat (sb_size b)"
  have u: "unat (sb_used b + 1) = Suc (unat (sb_used b))"
    using unat_add_less [of "sb_used b" 1 "sb_size b"] b by simp
  show ?thesis using b u store_end [of "unat (sb_used b)" "sb_bytes b" ch]
    by (auto simp: strbuf_pushchar_def strbuf_inv_def sb_text_def)
qed (simp add: strbuf_pushchar_def)

text \<open>With an allocator that does not fail, only lengths near \<open>SIZE_MAX\<close> are refused.\<close>

lemma strbuf_reserve_ok:
  assumes inv: "strbuf_inv buf" and small: "length (sb_text buf) + unat n < 2 ^ 63"
  shows "fst (strbuf_reserve_extra (\<lambda>_. True) buf n)"
proof (cases "n < sb_size buf - sb_used buf")
  case False
  have sum: "unat (sb_used buf) + unat n < 2 ^ 63" using small inv by (simp add: length_sb_text)
  obtain t ov where t: "uadd_overflow (sb_used buf) n = (t, ov)" by force
  have "\<not> ov" using uadd_overflow_iff [of "sb_used buf" n] sum t by simp
  moreover have "unat t = unat (sb_used buf) + unat n"
    using uadd_overflow_value [of "sb_used buf" n] t calculation by simp
  then have "\<not> - 1 - BUF_STEP \<le> t" using sum by (simp add: word_le_nat_alt unat_minus_one_diff)
  ultimately show ?thesis using False t by (simp add: strbuf_reserve_extra_def buf_realloc_def Let_def)
qed (simp add: strbuf_reserve_extra_def)

lemma strbuf_pushmem_ok:
  assumes inv: "strbuf_inv buf" and small: "length (sb_text buf) + length src < 2 ^ 63"
  shows "\<exists>buf'. strbuf_pushmem (\<lambda>_. True) buf src = Some (of_nat (length src), buf') \<and> strbuf_inv buf'
    \<and> sb_text buf' = sb_text buf @ src"
proof (cases "src = []")
  case True
  then show ?thesis using inv by (simp add: strbuf_pushmem_def)
next
  case False
  let ?n = "of_nat (length src) :: size_t"
  have n: "unat ?n = length src" using small by (simp add: unat_of_nat)
  then have nz: "?n \<noteq> 0" using False by (auto dest: arg_cong [where f = unat])
  have ok: "fst (strbuf_reserve_extra (\<lambda>_. True) buf ?n)"
    using strbuf_reserve_ok [OF inv, of ?n] small n by simp
  then have "strbuf_pushmem (\<lambda>_. True) buf src \<noteq> Some (0, buf)"
    using nz by (auto simp: strbuf_pushmem_def Let_def bind_eq_Some_conv split: prod.splits bool.splits)
  then show ?thesis using strbuf_pushmem_spec [OF inv, of src "\<lambda>_. True"] small by auto
qed

lemma strbuf_pushchar_ok:
  assumes inv: "strbuf_inv buf" and small: "length (sb_text buf) + 1 < 2 ^ 63"
  shows "\<exists>buf'. strbuf_pushchar (\<lambda>_. True) buf c = Some (True, buf') \<and> strbuf_inv buf'
    \<and> sb_text buf' = sb_text buf @ [c]"
proof -
  have "fst (strbuf_reserve_extra (\<lambda>_. True) buf 1)" using strbuf_reserve_ok [OF inv, of 1] small by simp
  then have "strbuf_pushchar (\<lambda>_. True) buf c \<noteq> Some (False, buf)"
    by (auto simp: strbuf_pushchar_def bind_eq_Some_conv split: prod.splits bool.splits)
  then show ?thesis using strbuf_pushchar_spec [OF inv, of "\<lambda>_. True" c] by auto
qed

section \<open>Reading the string\<close>

lemma read_cstr_live:
  "init_upto n s \<Longrightarrow> n < length s \<Longrightarrow> s ! n = Some NUL \<or> NUL \<in> set (live n s) \<Longrightarrow>
    read_cstr s = Some (takeWhile (\<lambda>c. c \<noteq> NUL) (live n s))"
proof (induction s arbitrary: n rule: read_cstr.induct)
  case (3 c s)
  then show ?case by (cases n) (auto simp: init_upto_def live_def)
qed (auto simp: init_upto_def take_Cons' live_def split: if_splits)

lemma strbuf_str_spec:
  assumes inv: "strbuf_inv buf"
  shows "\<exists>buf'. strbuf_str buf = Some (takeWhile (\<lambda>c. c \<noteq> NUL) (sb_text buf), buf')
    \<and> strbuf_inv buf' \<and> sb_text buf' = sb_text buf"
proof (cases "sb_used buf = 0")
  case True
  then show ?thesis using inv by (simp add: strbuf_str_def sb_text_def)
next
  case False
  let ?n = "unat (sb_used buf)" and ?s = "sb_bytes buf"
  have lt: "?n < length ?s" and i: "init_upto ?n ?s"
    using inv False by (auto simp: strbuf_inv_def)
  have p: "unat (sb_used buf - 1) = ?n - 1" "0 < ?n" using False by (auto simp: unat_pred unat_gt_0)
  have last: "?s ! (?n - 1) = Some (last (sb_text buf))" "sb_text buf \<noteq> []"
    using live_nth [OF i, of "?n - 1"] p i
    by (auto simp: sb_text_def last_conv_nth simp flip: length_0_conv)
  show ?thesis
  proof (cases "last (sb_text buf) = NUL")
    case True
    then have "NUL \<in> set (live ?n ?s)" using last by (metis last_in_set sb_text_def)
    then show ?thesis
      using True False last p lt read_cstr_live [OF i lt] inv
      by (simp add: strbuf_str_def sb_text_def Let_def)
  next
    case nl: False
    obtain s' where s': "store ?n NUL ?s = Some s'" "length s' = length ?s" "init_upto (Suc ?n) s'"
        "live (Suc ?n) s' = live ?n ?s @ [NUL]"
      using store_end [OF i lt] by blast
    have i': "init_upto ?n s'" by (rule init_upto_mono [OF s'(3)]) simp
    have l': "live ?n s' = sb_text buf"
      using live_mono [of ?n "Suc ?n" s'] s' i by (simp add: sb_text_def)
    have "s' ! ?n = Some NUL" using s' lt by (auto simp: store_def)
    then have "read_cstr s' = Some (takeWhile (\<lambda>c. c \<noteq> NUL) (sb_text buf))"
      using read_cstr_live [OF i'] l' s'(2) lt by simp
    then show ?thesis
      using nl False last p lt s' i' l' inv
      by (auto simp: strbuf_str_def strbuf_inv_def sb_text_def Let_def)
  qed
qed

section \<open>The interface of a text buffer\<close>

locale textbuf =
  fixes push :: "'b \<Rightarrow> string \<Rightarrow> (bool \<times> 'b) option"
    and pop :: "'b \<Rightarrow> nat \<Rightarrow> 'b option"
    and str :: "'b \<Rightarrow> (string \<times> 'b) option"
    and cont :: "'b \<Rightarrow> string"
    and inv :: "'b \<Rightarrow> bool"
  assumes push_cases: "inv b \<Longrightarrow> length s < 2 ^ 64 \<Longrightarrow>
      push b s = Some (False, b) \<or> (\<exists>b'. push b s = Some (True, b') \<and> inv b' \<and> cont b' = cont b @ s)"
    and pop_ok: "inv b \<Longrightarrow> n \<le> length (cont b) \<Longrightarrow>
      \<exists>b'. pop b n = Some b' \<and> inv b' \<and> cont b' = take (length (cont b) - n) (cont b)"
    and str_ok: "inv b \<Longrightarrow> \<exists>b'. str b = Some (takeWhile (\<lambda>c. c \<noteq> NUL) (cont b), b') \<and> inv b' \<and> cont b' = cont b"
begin

lemma push_pop:
  assumes "inv b" and "length s < 2 ^ 64" and "push b s = Some (True, b')"
  shows "\<exists>b''. pop b' (length s) = Some b'' \<and> inv b'' \<and> cont b'' = cont b"
proof -
  have "inv b'" "cont b' = cont b @ s" using push_cases [OF assms(1,2)] assms(3) by auto
  then show ?thesis using pop_ok [of b' "length s"] by simp
qed

lemma push_str:
  assumes "inv b" and "length s < 2 ^ 64" and "push b s = Some (True, b')" and "nul_free (cont b @ s)"
  shows "\<exists>b''. str b' = Some (cont b @ s, b'') \<and> inv b'' \<and> cont b'' = cont b @ s"
proof -
  have b': "inv b'" "cont b' = cont b @ s" using push_cases [OF assms(1,2)] assms(3) by auto
  moreover have "takeWhile (\<lambda>c. c \<noteq> NUL) (cont b @ s) = cont b @ s"
    using assms(4) by (subst takeWhile_eq_all_conv) auto
  ultimately show ?thesis using str_ok [OF b'(1)] by metis
qed

end

text \<open>The push and pop of the contract, as the clients use them: \<open>strbuf_pushchars\<close> and \<open>strbuf_popchars\<close>.\<close>

definition sb_push :: "(size_t \<Rightarrow> bool) \<Rightarrow> strbuf \<Rightarrow> string \<Rightarrow> (bool \<times> strbuf) option" where
  "sb_push alloc b s = map_option (\<lambda>(n, b'). (n = of_nat (length s), b')) (strbuf_pushchars alloc b s)"

definition sb_pop :: "strbuf \<Rightarrow> nat \<Rightarrow> strbuf option" where
  "sb_pop b n = strbuf_popchars b (of_nat n)"

interpretation sb: textbuf "sb_push alloc" sb_pop strbuf_str sb_text strbuf_inv
proof unfold_locales
  fix b :: strbuf and s n
  assume inv: "strbuf_inv b"
  show "sb_push alloc b s = Some (False, b)
      \<or> (\<exists>b'. sb_push alloc b s = Some (True, b') \<and> strbuf_inv b' \<and> sb_text b' = sb_text b @ s)"
    if l: "length s < 2 ^ 64"
  proof (cases "s = []")
    case True
    then show ?thesis using inv by (simp add: sb_push_def strbuf_pushchars_def strbuf_pushmem_def)
  next
    case False
    then have "(of_nat (length s) :: size_t) \<noteq> 0"
      using l by (auto dest!: arg_cong [where f = unat] simp: unat_of_nat)
    then show ?thesis
      using strbuf_pushmem_spec [OF inv l, of alloc] by (auto simp: sb_push_def strbuf_pushchars_def)
  qed
  show "\<exists>b'. sb_pop b n = Some b' \<and> strbuf_inv b' \<and> sb_text b' = take (length (sb_text b) - n) (sb_text b)"
    if le: "n \<le> length (sb_text b)"
  proof -
    have "length (sb_text b) < 2 ^ 64" using inv by (simp add: length_sb_text unat_lt_64)
    then have "unat (of_nat n :: size_t) = n" using le by (simp add: unat_of_nat)
    then show ?thesis using strbuf_popchars_spec [OF inv, of "of_nat n"] le by (simp add: sb_pop_def)
  qed
  show "\<exists>b'. strbuf_str b = Some (takeWhile (\<lambda>c. c \<noteq> NUL) (sb_text b), b') \<and> strbuf_inv b' \<and> sb_text b' = sb_text b"
    by (rule strbuf_str_spec [OF inv])
qed

section \<open>Properties\<close>

text \<open>
  C24. The growth policy of the buffer is memory safe: for every allocator outcome, pushing the
  bytes \<open>src\<close> on a well-formed buffer returns normally, and either the buffer is unchanged and 0
  is returned, or \<open>src\<close> is appended to the contents; the string then read by \<open>strbuf_str\<close> is the
  contents up to the first NUL, without reading or writing outside the block.
\<close>

theorem strbuf_push_read:
  assumes "strbuf_inv buf" and "length src < 2 ^ 64"
  shows "\<exists>n buf'. strbuf_pushmem alloc buf src = Some (n, buf') \<and> strbuf_inv buf'
    \<and> (n = 0 \<and> buf' = buf \<or> n = of_nat (length src) \<and> sb_text buf' = sb_text buf @ src)
    \<and> (\<exists>buf''. strbuf_str buf' = Some (takeWhile (\<lambda>c. c \<noteq> NUL) (sb_text buf'), buf''))"
  using strbuf_pushmem_spec [OF assms, of alloc] strbuf_str_spec assms(1) by blast

theorem strbuf_push_read_witness:
  "\<exists>n buf'. strbuf_pushmem (\<lambda>_. True) (strbuf_with_stack 4) ''kmod.ko'' = Some (n, buf')
    \<and> (n = 0 \<or> sb_text buf' = ''kmod.ko'')"
  using strbuf_push_read [of "strbuf_with_stack 4" "''kmod.ko''" "\<lambda>_. True"] by auto

end
