(* ===== verification/Kmod_Hash.thy ===== *)
theory Kmod_Hash
  imports Kmod_Prelude
begin

text \<open>
  \<open>shared/hash.c\<close>: the hash table of the tools, with Hsieh's hash and buckets that are arrays of
  entries sorted by key, grown in steps. Values are pointers, so a value is an \<open>option\<close>; calls of
  the \<open>free_value\<close> callback are returned as the list of the freed values. The locale \<open>dict\<close> is the
  contract of the table as a finite map from strings.

  \<open>hash_superfast\<close> reads 16-bit units in the byte order of a little-endian machine and takes
  \<open>char\<close> to be signed; the results on the table do not depend on either.
\<close>

section \<open>Rounding up to a power of two\<close>

text \<open>\<open>32 - __builtin_clz(x)\<close> is the number of significant bits of \<open>x\<close>, undefined for 0.\<close>

fun bit_len :: "nat \<Rightarrow> nat" where
  "bit_len n = (if n = 0 then 0 else Suc (bit_len (n div 2)))"

declare bit_len.simps [simp del]

definition align_power2 :: "u32 \<Rightarrow> u32 option" where
  "align_power2 u =
     (let x = u - 1; sh = bit_len (unat x) in
      if x = 0 \<or> 31 \<le> sh then None else Some (push_bit sh 1))"

section \<open>Data\<close>

record 'v hash_entry =
  he_key :: string
  he_value :: "'v option"

record 'v hash_bucket =
  hb_entries :: "'v hash_entry slots"
  hb_used :: u32
  hb_total :: u32

record 'v hash =
  h_count :: u32
  h_step :: u32
  h_n_buckets :: u32
  h_free_value :: bool
  h_buckets :: "'v hash_bucket list"

record hash_iter =
  hi_bucket :: u32
  hi_entry :: u32

section \<open>Creation and the hash function\<close>

definition hash_new :: "(size_t \<Rightarrow> bool) \<Rightarrow> u32 \<Rightarrow> bool \<Rightarrow> 'v hash option option" where
  "hash_new alloc n_buckets free_value =
     do { n \<leftarrow> align_power2 n_buckets;
          if \<not> alloc (24 + ucast n * 16) then Some None
          else
            (let step = n div 32;
                 step = (if step < 4 then 4 else if 64 < step then 64 else step) in
             Some (Some \<lparr>h_count = 0, h_step = step, h_n_buckets = n, h_free_value = free_value,
                         h_buckets = replicate (unat n) \<lparr>hb_entries = [], hb_used = 0, hb_total = 0\<rparr>\<rparr>)) }"

definition hash_free :: "'v hash option \<Rightarrow> 'v option list option" where
  "hash_free hash =
     (case hash of None \<Rightarrow> Some []
      | Some h \<Rightarrow>
          if \<not> h_free_value h then Some []
          else if \<forall>b \<in> set (h_buckets h). init_upto (unat (hb_used b)) (hb_entries b)
          then Some (concat (map (\<lambda>b. map he_value (live (unat (hb_used b)) (hb_entries b))) (h_buckets h)))
          else None)"

definition get16 :: "string \<Rightarrow> nat \<Rightarrow> u32" where
  "get16 key i = of_char (char_at key i) OR push_bit 8 (of_char (char_at key (i + 1)))"

definition sf_step :: "string \<Rightarrow> nat \<Rightarrow> u32 \<Rightarrow> u32" where
  "sf_step key p hash =
     (let hash = hash + get16 key p;
          tmp = push_bit 11 (get16 key (p + 2)) XOR hash;
          hash = push_bit 16 hash XOR tmp in
      hash + drop_bit 11 hash)"

fun sf_loop :: "nat \<Rightarrow> string \<Rightarrow> nat \<Rightarrow> u32 \<Rightarrow> nat \<times> u32" where
  "sf_loop 0 key p hash = (p, hash)"
| "sf_loop (Suc len) key p hash = sf_loop len key (p + 4) (sf_step key p hash)"

definition hash_superfast :: "string \<Rightarrow> u32 \<Rightarrow> u32" where
  "hash_superfast key len =
     (let rem = len AND 3;
          (p, hash) = sf_loop (unat (len div 4)) key 0 len;
          hash =
            (if rem = 3 then
               (let hash = hash + get16 key p;
                    hash = hash XOR push_bit 16 hash;
                    hash = hash XOR push_bit 18 (of_char (char_at key (p + 2))) in
                hash + drop_bit 11 hash)
             else if rem = 2 then
               (let hash = hash + get16 key p;
                    hash = hash XOR push_bit 11 hash in
                hash + drop_bit 17 hash)
             else if rem = 1 then
               (let hash = hash + scast (of_char (char_at key p) :: u8);
                    hash = hash XOR push_bit 10 hash in
                hash + drop_bit 1 hash)
             else hash);
          hash = hash XOR push_bit 3 hash;
          hash = hash + drop_bit 5 hash;
          hash = hash XOR push_bit 4 hash;
          hash = hash + drop_bit 17 hash;
          hash = hash XOR push_bit 25 hash in
      hash + drop_bit 6 hash)"

definition hash_pos :: "'v hash \<Rightarrow> string \<Rightarrow> nat" where
  "hash_pos hash key =
     (let keylen = of_nat (length key); hashval = hash_superfast key keylen in
      unat (hashval AND (h_n_buckets hash - 1)))"

section \<open>Insertion\<close>

text \<open>
  The growing step that opens both insertions. A request of size 0 (the 32-bit total wrapped)
  frees the block and is undefined afterwards.
\<close>

definition bucket_grow :: "(size_t \<Rightarrow> bool) \<Rightarrow> u32 \<Rightarrow> 'v hash_bucket \<Rightarrow> 'v hash_bucket result option" where
  "bucket_grow alloc step bucket =
     (if hb_total bucket \<le> hb_used bucket + 1 then
        (let new_total = hb_total bucket + step; size = (ucast new_total :: size_t) * 16 in
         if size = 0 then None
         else if \<not> alloc size then Some (Inl ENOMEM)
         else Some (Inr (bucket\<lparr>hb_entries := realloc_slots (unat new_total) (hb_entries bucket),
                                 hb_total := new_total\<rparr>)))
      else Some (Inr bucket))"

text \<open>The scan of the entries, which stops at an equal key or at the first greater one.\<close>

datatype scan = Found nat | Before nat | AtEnd nat

fun bucket_scan :: "string \<Rightarrow> nat \<Rightarrow> nat \<Rightarrow> 'v hash_entry slots \<Rightarrow> scan option" where
  "bucket_scan key i 0 s = Some (AtEnd i)"
| "bucket_scan key i (Suc n) (Some e # s) =
     (let c = strcmp key (he_key e) in
      if c = 0 then Some (Found i) else if c < 0 then Some (Before i)
      else bucket_scan key (Suc i) n s)"
| "bucket_scan key i (Suc n) s = None"

definition bucket_insert ::
    "string \<Rightarrow> 'v option \<Rightarrow> scan \<Rightarrow> 'v hash_bucket \<Rightarrow> 'v hash_bucket option" where
  "bucket_insert key value sc bucket =
     (let n = unat (hb_used bucket); e = \<lparr>he_key = key, he_value = value\<rparr> in
      do { (i, s) \<leftarrow> (case sc of
               Before i \<Rightarrow> map_option (Pair i) (memmove (Suc i) i (n - i) (hb_entries bucket))
             | AtEnd i \<Rightarrow> Some (i, hb_entries bucket)
             | Found i \<Rightarrow> Some (i, hb_entries bucket));
           s' \<leftarrow> store i e s;
           Some (bucket\<lparr>hb_entries := s', hb_used := hb_used bucket + 1\<rparr>) })"

definition set_bucket :: "'v hash \<Rightarrow> nat \<Rightarrow> 'v hash_bucket \<Rightarrow> 'v hash" where
  "set_bucket h pos b = h\<lparr>h_buckets := (h_buckets h)[pos := b]\<rparr>"

definition hash_add ::
    "(size_t \<Rightarrow> bool) \<Rightarrow> 'v hash \<Rightarrow> string \<Rightarrow> 'v option \<Rightarrow> (unit result \<times> 'v hash \<times> 'v option list) option" where
  "hash_add alloc hash key value =
     (let pos = hash_pos hash key in
      if \<not> pos < length (h_buckets hash) then None
      else
        do { g \<leftarrow> bucket_grow alloc (h_step hash) (h_buckets hash ! pos);
             case g of
               Inl err \<Rightarrow> Some (Inl err, hash, [])
             | Inr bucket \<Rightarrow>
                 do { sc \<leftarrow> bucket_scan key 0 (unat (hb_used bucket)) (hb_entries bucket);
                      case sc of
                        Found i \<Rightarrow>
                          do { old \<leftarrow> hb_entries bucket ! i;
                               s \<leftarrow> store i \<lparr>he_key = key, he_value = value\<rparr> (hb_entries bucket);
                               Some (Inr (), set_bucket hash pos (bucket\<lparr>hb_entries := s\<rparr>),
                                     if h_free_value hash then [he_value old] else []) }
                      | _ \<Rightarrow>
                          do { b \<leftarrow> bucket_insert key value sc bucket;
                               Some (Inr (), (set_bucket hash pos b)\<lparr>h_count := h_count hash + 1\<rparr>, []) } } })"

definition hash_add_unique ::
    "(size_t \<Rightarrow> bool) \<Rightarrow> 'v hash \<Rightarrow> string \<Rightarrow> 'v option \<Rightarrow> (unit result \<times> 'v hash) option" where
  "hash_add_unique alloc hash key value =
     (let pos = hash_pos hash key in
      if \<not> pos < length (h_buckets hash) then None
      else
        do { g \<leftarrow> bucket_grow alloc (h_step hash) (h_buckets hash ! pos);
             case g of
               Inl err \<Rightarrow> Some (Inl err, hash)
             | Inr bucket \<Rightarrow>
                 do { sc \<leftarrow> bucket_scan key 0 (unat (hb_used bucket)) (hb_entries bucket);
                      case sc of
                        Found i \<Rightarrow> Some (Inl EEXIST, set_bucket hash pos bucket)
                      | _ \<Rightarrow>
                          do { b \<leftarrow> bucket_insert key value sc bucket;
                               Some (Inr (), (set_bucket hash pos b)\<lparr>h_count := h_count hash + 1\<rparr>) } } })"

section \<open>Lookup, deletion, iteration\<close>

definition hash_entry_cmp :: "'v hash_entry \<Rightarrow> 'v hash_entry \<Rightarrow> int" where
  "hash_entry_cmp a b = strcmp (he_key a) (he_key b)"

definition bucket_search :: "string \<Rightarrow> 'v hash_bucket \<Rightarrow> nat option option" where
  "bucket_search key bucket =
     (let n = unat (hb_used bucket); se = \<lparr>he_key = key, he_value = None\<rparr> in
      if init_upto n (hb_entries bucket)
      then Some (bsearch (hash_entry_cmp se) (live n (hb_entries bucket)) 0 n) else None)"

definition hash_find :: "'v hash \<Rightarrow> string \<Rightarrow> 'v option option" where
  "hash_find hash key =
     (let pos = hash_pos hash key in
      if \<not> pos < length (h_buckets hash) then None
      else
        (let bucket = h_buckets hash ! pos in
         if hb_entries bucket = [] then Some None
         else
           do { r \<leftarrow> bucket_search key bucket;
                case r of
                  None \<Rightarrow> Some None
                | Some i \<Rightarrow> map_option he_value (hb_entries bucket ! i) }))"

definition bucket_shrink :: "(size_t \<Rightarrow> bool) \<Rightarrow> u32 \<Rightarrow> 'v hash_bucket \<Rightarrow> 'v hash_bucket option" where
  "bucket_shrink alloc step bucket =
     (if step = 0 then None
      else
        (let steps_used = hb_used bucket div step; steps_total = hb_total bucket div step in
         if steps_used + 1 < steps_total then
           (let new_total = (steps_used + 1) * step; size = (ucast new_total :: size_t) * 16 in
            if size = 0 then None
            else if alloc size
            then Some (bucket\<lparr>hb_entries := realloc_slots (unat new_total) (hb_entries bucket),
                              hb_total := new_total\<rparr>)
            else Some bucket)
         else Some bucket))"

definition hash_del ::
    "(size_t \<Rightarrow> bool) \<Rightarrow> 'v hash \<Rightarrow> string \<Rightarrow> (unit result \<times> 'v hash \<times> 'v option list) option" where
  "hash_del alloc hash key =
     (let pos = hash_pos hash key in
      if \<not> pos < length (h_buckets hash) then None
      else
        (let bucket = h_buckets hash ! pos in
         if hb_entries bucket = [] then Some (Inl ENOENT, hash, [])
         else
           do { r \<leftarrow> bucket_search key bucket;
                case r of
                  None \<Rightarrow> Some (Inl ENOENT, hash, [])
                | Some i \<Rightarrow>
                    do { old \<leftarrow> hb_entries bucket ! i;
                         s \<leftarrow> memmove i (Suc i) (unat (hb_used bucket) - Suc i) (hb_entries bucket);
                         b \<leftarrow> bucket_shrink alloc (h_step hash)
                               (bucket\<lparr>hb_entries := s, hb_used := hb_used bucket - 1\<rparr>);
                         Some (Inr (), (set_bucket hash pos b)\<lparr>h_count := h_count hash - 1\<rparr>,
                               if h_free_value hash then [he_value old] else []) } }))"

definition hash_get_count :: "'v hash \<Rightarrow> u32" where
  "hash_get_count hash = h_count hash"

definition hash_iter_init :: hash_iter where
  "hash_iter_init = \<lparr>hi_bucket = 0, hi_entry = - 1\<rparr>"

text \<open>The inner loop: the first non-empty bucket from \<open>i\<close> on.\<close>

function next_bucket :: "'v hash \<Rightarrow> u32 \<Rightarrow> u32 option" where
  "next_bucket h i =
     (if i < h_n_buckets h then
        (if unat i < length (h_buckets h)
         then (if 0 < hb_used (h_buckets h ! unat i) then Some i else next_bucket h (i + 1))
         else None)
      else Some i)"
  by pat_completeness auto
termination
proof (relation "measure (\<lambda>(h, i). unat (h_n_buckets h) - unat i)", goal_cases)
  case (2 h i)
  then have "unat (i + 1) = Suc (unat i)" and "unat i < unat (h_n_buckets h)"
    using unat_lt_32 [of "h_n_buckets h"] by (simp_all add: word_less_nat_alt unat_word_ariths)
  then show ?case by simp
qed simp

declare next_bucket.simps [simp del]

definition hash_iter_next ::
    "'v hash \<Rightarrow> hash_iter \<Rightarrow> ((string \<times> 'v option) option \<times> hash_iter) option" where
  "hash_iter_next h iter =
     (if \<not> unat (hi_bucket iter) < length (h_buckets h) then None
      else
        (let entry = hi_entry iter + 1 in
         do { (bucket, entry, stop) \<leftarrow>
                (if hb_used (h_buckets h ! unat (hi_bucket iter)) \<le> entry
                 then map_option (\<lambda>b. (b, 0, h_n_buckets h \<le> b)) (next_bucket h (hi_bucket iter + 1))
                 else Some (hi_bucket iter, entry, False));
              let iter' = \<lparr>hi_bucket = bucket, hi_entry = entry\<rparr>;
              if stop then Some (None, iter')
              else
                (let s = hb_entries (h_buckets h ! unat bucket) in
                 do { e \<leftarrow> (if unat entry < length s then s ! unat entry else None);
                      Some (Some (he_key e, he_value e), iter') }) }))"

section \<open>Invariant and contents\<close>

definition bucket_list :: "'v hash_bucket \<Rightarrow> 'v hash_entry list" where
  "bucket_list b = live (unat (hb_used b)) (hb_entries b)"

abbreviation keys_of :: "'v hash_entry list \<Rightarrow> string list" where
  "keys_of \<equiv> map he_key"

definition bucket_inv :: "'v hash_bucket \<Rightarrow> bool" where
  "bucket_inv b \<longleftrightarrow> length (hb_entries b) = unat (hb_total b)
     \<and> init_upto (unat (hb_used b)) (hb_entries b) \<and> sorted_wrt (<) (keys_of (bucket_list b))"

definition entries_map :: "'v hash_entry list \<Rightarrow> string \<Rightarrow> 'v option option" where
  "entries_map es = map_of (map (\<lambda>e. (he_key e, he_value e)) es)"

text \<open>
  Every bucket is sorted, holds exactly keys that hash to it, and the count is the number of
  entries of all buckets.
\<close>

definition hash_inv :: "'v hash \<Rightarrow> bool" where
  "hash_inv h \<longleftrightarrow> h_n_buckets h \<noteq> 0 \<and> length (h_buckets h) = unat (h_n_buckets h)
     \<and> 4 \<le> unat (h_step h) \<and> unat (h_step h) \<le> 64
     \<and> (\<forall>i < length (h_buckets h). bucket_inv (h_buckets h ! i)
          \<and> (\<forall>e \<in> set (bucket_list (h_buckets h ! i)). hash_pos h (he_key e) = i))
     \<and> unat (h_count h) = sum_list (map (\<lambda>b. length (bucket_list b)) (h_buckets h))"

definition hash_map :: "'v hash \<Rightarrow> string \<Rightarrow> 'v option option" where
  "hash_map h k = entries_map (bucket_list (h_buckets h ! hash_pos h k)) k"

text \<open>There is room for one more key without wrapping a 32-bit total.\<close>

definition hash_room :: "'v hash \<Rightarrow> bool" where
  "hash_room h \<longleftrightarrow> unat (h_count h) + 65 < 2 ^ 32"

lemma word_and_le_right: "(a AND b :: 'a::len word) \<le> b"
  by (rule word_and_le1)

lemma hash_pos_less:
  assumes "hash_inv h"
  shows "hash_pos h k < length (h_buckets h)"
proof -
  let ?n = "h_n_buckets h" and ?v = "hash_superfast k (of_nat (length k))"
  have "unat (?v AND (?n - 1)) \<le> unat (?n - 1)" using word_and_le_right by (simp add: word_le_nat_alt)
  moreover have "unat (?n - 1) < unat ?n"
    using assms by (simp add: hash_inv_def unat_pred unat_gt_0)
  ultimately show ?thesis using assms by (simp add: hash_pos_def hash_inv_def Let_def)
qed

lemma hash_pos_cong: "h_n_buckets h = h_n_buckets h' \<Longrightarrow> hash_pos h = hash_pos h'"
  by (simp add: hash_pos_def fun_eq_iff)

section \<open>Association lists sorted by key\<close>

lemma entries_map_None: "entries_map xs k = None \<longleftrightarrow> k \<notin> set (keys_of xs)"
  by (simp add: entries_map_def map_of_eq_None_iff image_image)

lemma entries_map_append: "entries_map (xs @ ys) = entries_map ys ++ entries_map xs"
  by (simp add: entries_map_def)

lemma entries_map_insert:
  "k \<notin> set (keys_of xs) \<Longrightarrow>
    entries_map (xs @ \<lparr>he_key = k, he_value = v\<rparr> # ys) = (entries_map (xs @ ys))(k \<mapsto> v)"
  using entries_map_None [of xs k] by (auto simp: entries_map_def map_add_def fun_eq_iff split: option.splits)

lemma entries_map_update:
  assumes "sorted_wrt (<) (keys_of xs)" and "i < length xs" and "he_key (xs ! i) = k"
  shows "entries_map (xs[i := \<lparr>he_key = k, he_value = v\<rparr>]) = (entries_map xs)(k \<mapsto> v)"
proof -
  obtain ys zs where xs: "xs = ys @ xs ! i # zs" "length ys = i"
    using assms(2) id_take_nth_drop by (metis length_take min.absorb4)
  have "k \<notin> set (keys_of ys)" using assms(1,3) by (subst (asm) xs(1)) (auto simp: sorted_wrt_append)
  moreover have "xs[i := e] = ys @ e # zs" for e
    using xs by (metis list_update_length)
  moreover have "entries_map (ys @ xs ! i # zs) = (entries_map (ys @ zs))(k \<mapsto> he_value (xs ! i))"
    using entries_map_insert [of k ys "he_value (xs ! i)" zs] calculation(1) assms(3)
    by (cases "xs ! i") simp
  ultimately show ?thesis using entries_map_insert [of k ys v zs] xs(1) by simp
qed

lemma entries_map_delete:
  assumes "sorted_wrt (<) (keys_of xs)" and "i < length xs" and "he_key (xs ! i) = k"
  shows "entries_map (take i xs @ drop (Suc i) xs) = (entries_map xs)(k := None)"
proof -
  have xs: "xs = take i xs @ xs ! i # drop (Suc i) xs" using assms(2) by (rule id_take_nth_drop)
  have nk: "k \<notin> set (keys_of (take i xs))" "k \<notin> set (keys_of (drop (Suc i) xs))"
    using assms(1,3) by (subst (asm) xs, auto simp: sorted_wrt_append)+
  have "entries_map xs = (entries_map (take i xs @ drop (Suc i) xs))(k \<mapsto> he_value (xs ! i))"
    using entries_map_insert [OF nk(1), of "he_value (xs ! i)" "drop (Suc i) xs"] assms(3)
    by (subst xs) (cases "xs ! i", simp)
  moreover have "entries_map (take i xs @ drop (Suc i) xs) k = None"
    using nk unfolding entries_map_None by simp
  ultimately show ?thesis by (auto simp: fun_eq_iff)
qed

lemma entries_map_Some_iff:
  assumes "sorted_wrt (<) (keys_of xs)"
  shows "entries_map xs k = Some v \<longleftrightarrow> (\<exists>e \<in> set xs. he_key e = k \<and> he_value e = v)"
proof -
  have "distinct (map fst (map (\<lambda>e. (he_key e, he_value e)) xs))"
    using assms strict_sorted_iff [of "keys_of xs"] by (simp add: comp_def)
  then show ?thesis unfolding entries_map_def by (subst map_of_eq_Some_iff) auto
qed

lemma entries_map_nth:
  assumes "sorted_wrt (<) (keys_of xs)" and "i < length xs"
  shows "entries_map xs (he_key (xs ! i)) = Some (he_value (xs ! i))"
  using assms by (auto simp: entries_map_Some_iff)

lemma sorted_insert_at:
  assumes "sorted_wrt (<) (keys_of xs)" and "\<forall>e \<in> set (take i xs). he_key e < k"
    and "\<forall>e \<in> set (drop i xs). k < he_key e"
  shows "sorted_wrt (<) (keys_of (take i xs @ \<lparr>he_key = k, he_value = v\<rparr> # drop i xs))"
proof -
  have "sorted_wrt (<) (keys_of (take i xs @ drop i xs))" using assms(1) by simp
  then have "sorted_wrt (<) (keys_of (take i xs)) \<and> sorted_wrt (<) (keys_of (drop i xs))
      \<and> (\<forall>x \<in> set (keys_of (take i xs)). \<forall>y \<in> set (keys_of (drop i xs)). x < y)"
    unfolding map_append sorted_wrt_append by simp
  then show ?thesis using assms(2,3) by (auto simp: sorted_wrt_append)
qed

lemma sorted_delete_at:
  assumes "sorted_wrt (<) (keys_of xs)" and "i < length xs"
  shows "sorted_wrt (<) (keys_of (take i xs @ drop (Suc i) xs))"
proof -
  have "sorted_wrt (<) (keys_of (take i xs @ xs ! i # drop (Suc i) xs))"
    using assms by (simp flip: id_take_nth_drop)
  then show ?thesis by (auto simp: sorted_wrt_append)
qed

section \<open>Scanning and searching a bucket\<close>

lemma bucket_scan_spec:
  "init_upto n s \<Longrightarrow> \<exists>r. bucket_scan key i n s = Some r \<and>
     (case r of
        Found j \<Rightarrow> i \<le> j \<and> j < i + n \<and> he_key (live n s ! (j - i)) = key
      | Before j \<Rightarrow> i \<le> j \<and> j < i + n \<and> (\<forall>e \<in> set (take (j - i) (live n s)). he_key e < key)
          \<and> key < he_key (live n s ! (j - i))
      | AtEnd j \<Rightarrow> j = i + n \<and> (\<forall>e \<in> set (live n s). he_key e < key))"
proof (induction key i n s rule: bucket_scan.induct)
  case (2 key i n e s)
  have i: "init_upto n s" using "2.prems" by (simp add: init_upto_def)
  consider "key = he_key e" | "key < he_key e" | "he_key e < key" by (rule linorder_cases) auto
  then show ?case
  proof cases
    case 3
    have ns: "\<not> strcmp key (he_key e) = 0" "\<not> strcmp key (he_key e) < 0" using 3 by auto
    obtain r where r: "bucket_scan key (Suc i) n s = Some r"
      "case r of
        Found j \<Rightarrow> Suc i \<le> j \<and> j < Suc i + n \<and> he_key (live n s ! (j - Suc i)) = key
      | Before j \<Rightarrow> Suc i \<le> j \<and> j < Suc i + n \<and> (\<forall>e \<in> set (take (j - Suc i) (live n s)). he_key e < key)
          \<and> key < he_key (live n s ! (j - Suc i))
      | AtEnd j \<Rightarrow> j = Suc i + n \<and> (\<forall>e \<in> set (live n s). he_key e < key)"
      using "2.IH" [OF refl ns i] by blast
    have l: "live (Suc n) (Some e # s) = e # live n s" by (simp add: live_def)
    have "\<And>j. Suc i \<le> j \<Longrightarrow> j - i = Suc (j - Suc i)" by simp
    then show ?thesis using r ns 3 by (auto simp: l split: scan.splits)
  qed (auto simp: live_def)
qed (auto simp: init_upto_def)

lemma bucket_scan_cases:
  assumes inv: "bucket_inv b"
  obtains (Found) i where "bucket_scan key 0 (unat (hb_used b)) (hb_entries b) = Some (Found i)"
      "i < length (bucket_list b)" "he_key (bucket_list b ! i) = key"
  | (Insert) sc i where "bucket_scan key 0 (unat (hb_used b)) (hb_entries b) = Some sc"
      "sc = Before i \<or> sc = AtEnd i" "i \<le> length (bucket_list b)" "sc = AtEnd i \<longrightarrow> i = length (bucket_list b)"
      "\<forall>e \<in> set (take i (bucket_list b)). he_key e < key"
      "\<forall>e \<in> set (drop i (bucket_list b)). key < he_key e"
proof -
  let ?n = "unat (hb_used b)" and ?l = "bucket_list b"
  have i: "init_upto ?n (hb_entries b)" and so: "sorted_wrt (<) (keys_of ?l)"
    using inv by (auto simp: bucket_inv_def)
  have len: "length ?l = ?n" using i by (simp add: bucket_list_def)
  obtain r where r: "bucket_scan key 0 ?n (hb_entries b) = Some r"
    "case r of Found j \<Rightarrow> 0 \<le> j \<and> j < 0 + ?n \<and> he_key (?l ! (j - 0)) = key
      | Before j \<Rightarrow> 0 \<le> j \<and> j < 0 + ?n \<and> (\<forall>e \<in> set (take (j - 0) ?l). he_key e < key)
          \<and> key < he_key (?l ! (j - 0))
      | AtEnd j \<Rightarrow> j = 0 + ?n \<and> (\<forall>e \<in> set ?l. he_key e < key)"
    using bucket_scan_spec [OF i, of key 0] unfolding bucket_list_def by blast
  show thesis
  proof (cases r)
    case (Found j)
    then show thesis using r len that(1) [of j] by simp
  next
    case (Before j)
    have "he_key (?l ! j) \<le> he_key e" if e: "e \<in> set (drop j ?l)" for e
    proof -
      obtain m where m: "m < length ?l - j" "e = ?l ! (j + m)"
        using e by (auto simp: in_set_conv_nth)
      show ?thesis
        using sorted_wrt_nth_less [OF so, of j "j + m"] m by (cases "m = 0") (auto simp: less_imp_le)
    qed
    then have "\<forall>e \<in> set (drop j ?l). key < he_key e" using r Before by fastforce
    then show thesis using r Before len that(2) [of "Before j" j] by auto
  next
    case (AtEnd j)
    then show thesis using r len that(2) [of "AtEnd j" j] by simp
  qed
qed

lemma bucket_search_spec:
  assumes inv: "bucket_inv b"
  shows "\<exists>r. bucket_search key b = Some r \<and>
    (case r of None \<Rightarrow> entries_map (bucket_list b) key = None
     | Some i \<Rightarrow> i < length (bucket_list b) \<and> he_key (bucket_list b ! i) = key
         \<and> hb_entries b ! i = Some (bucket_list b ! i))"
proof -
  let ?n = "unat (hb_used b)" and ?l = "bucket_list b"
  let ?cmp = "hash_entry_cmp \<lparr>he_key = key, he_value = None\<rparr>"
  have i: "init_upto ?n (hb_entries b)" and so: "sorted_wrt (<) (keys_of ?l)"
    using inv by (auto simp: bucket_inv_def)
  have len: "length ?l = ?n" using i by (simp add: bucket_list_def)
  have cmp: "?cmp x < 0 \<longleftrightarrow> key < he_key x" "0 < ?cmp x \<longleftrightarrow> he_key x < key"
    "?cmp x = 0 \<longleftrightarrow> he_key x = key" "0 \<le> ?cmp x \<longleftrightarrow> he_key x \<le> key" for x
    using strcmp_less_0 [of key "he_key x"] by (auto simp: hash_entry_cmp_def not_less simp flip: not_less)
  have eq: "bucket_search key b = Some (bsearch ?cmp ?l 0 ?n)"
    using i by (simp add: bucket_search_def Let_def bucket_list_def)
  show ?thesis
  proof (cases "bsearch ?cmp ?l 0 ?n")
    case None
    have mono: "0 < ?cmp (?l ! p)" if "p < q" "q < ?n" "0 \<le> ?cmp (?l ! q)" for p q
      using that sorted_wrt_nth_less [OF so, of p q] len by (auto simp: cmp)
    have "?cmp (?l ! p) \<noteq> 0" if "p < ?n" for p
      by (rule bsearch_None [OF _ None]) (use mono that in auto)
    then have "he_key (?l ! p) \<noteq> key" if "p < ?n" for p
      using that unfolding cmp by blast
    then have "entries_map ?l key = None"
      unfolding entries_map_None using len by (auto simp: in_set_conv_nth) metis
    then show ?thesis using eq None by simp
  next
    case (Some p)
    then show ?thesis
      using eq bsearch_Some [OF Some] len live_nth [OF i, of p] by (simp add: cmp bucket_list_def)
  qed
qed

section \<open>Operations on one bucket\<close>

lemma bucket_grow_spec:
  assumes inv: "bucket_inv b" and room: "unat (hb_used b) + unat step < 2 ^ 32 - 1" and "1 < unat step"
  shows "bucket_grow alloc step b = Some (Inl ENOMEM) \<or>
    (\<exists>b'. bucket_grow alloc step b = Some (Inr b') \<and> bucket_inv b' \<and> bucket_list b' = bucket_list b
       \<and> hb_used b' = hb_used b \<and> unat (hb_used b') < unat (hb_total b'))"
proof -
  have u1: "unat (hb_used b + 1) = unat (hb_used b) + 1"
    using room by (simp add: unat_word_ariths)
  show ?thesis
  proof (cases "hb_total b \<le> hb_used b + 1")
    case False
    then show ?thesis using inv u1 by (simp add: bucket_grow_def word_le_nat_alt)
  next
    case True
    let ?t = "hb_total b + step"
    have le: "unat (hb_used b) \<le> unat (hb_total b)"
      using inv by (auto simp: bucket_inv_def dest: init_uptoD)
    have t: "unat ?t = unat (hb_total b) + unat step"
      using True u1 room by (simp add: word_le_nat_alt unat_word_ariths)
    have "unat ((ucast ?t :: size_t) * 16) = unat ?t * 16"
      using unat_lt_32 [of ?t] by (simp add: unat_word_ariths)
    then have nz: "(ucast ?t :: size_t) * 16 \<noteq> 0" using t assms(3) by (auto dest: arg_cong [where f = unat])
    show ?thesis
    proof (cases "alloc ((ucast ?t :: size_t) * 16)")
      case True
      have "init_upto (unat (hb_used b)) (realloc_slots (unat ?t) (hb_entries b))
          \<and> live (unat (hb_used b)) (realloc_slots (unat ?t) (hb_entries b)) = bucket_list b"
        using realloc_slots_live [of "unat (hb_used b)" "hb_entries b" "unat ?t"] inv le t
        by (simp add: bucket_inv_def bucket_list_def)
      then show ?thesis using True \<open>hb_total b \<le> hb_used b + 1\<close> nz inv le t assms(3)
        by (simp add: bucket_grow_def Let_def bucket_inv_def bucket_list_def)
    next
      case False
      then show ?thesis using True nz by (simp add: bucket_grow_def Let_def)
    qed
  qed
qed

lemma bucket_insert_spec:
  assumes inv: "bucket_inv b" and lt: "unat (hb_used b) < unat (hb_total b)"
    and sc: "sc = Before i \<or> sc = AtEnd i" "i \<le> length (bucket_list b)"
      "sc = AtEnd i \<longrightarrow> i = length (bucket_list b)"
    and less: "\<forall>e \<in> set (take i (bucket_list b)). he_key e < key"
    and greater: "\<forall>e \<in> set (drop i (bucket_list b)). key < he_key e"
  shows "\<exists>b'. bucket_insert key v sc b = Some b' \<and> bucket_inv b'
    \<and> bucket_list b' = take i (bucket_list b) @ \<lparr>he_key = key, he_value = v\<rparr> # drop i (bucket_list b)"
proof -
  let ?n = "unat (hb_used b)" and ?e = "\<lparr>he_key = key, he_value = v\<rparr>" and ?l = "bucket_list b"
  have ini: "init_upto ?n (hb_entries b)" and len: "length (hb_entries b) = unat (hb_total b)"
    using inv by (auto simp: bucket_inv_def)
  have ll: "length ?l = ?n" using ini by (simp add: bucket_list_def)
  have u: "unat (hb_used b + 1) = Suc ?n"
    using lt unat_lt_32 [of "hb_total b"] by (simp add: unat_word_ariths)
  obtain s where s: "bucket_insert key v sc b = Some (b\<lparr>hb_entries := s, hb_used := hb_used b + 1\<rparr>)"
    "length s = length (hb_entries b)" "init_upto (Suc ?n) s" "live (Suc ?n) s = take i ?l @ ?e # drop i ?l"
    using sc(1)
  proof
    assume "sc = Before i"
    moreover obtain s' s'' where "memmove (Suc i) i (?n - i) (hb_entries b) = Some s'"
      "store i ?e s' = Some s''" "length s'' = length (hb_entries b)" "init_upto (Suc ?n) s''"
      "live (Suc ?n) s'' = take i ?l @ ?e # drop i ?l"
      using memmove_insert [OF ini, of i ?e] sc(2) lt len ll unfolding bucket_list_def by auto
    ultimately show thesis using that by (simp add: bucket_insert_def Let_def)
  next
    assume at: "sc = AtEnd i"
    then have "i = ?n" using sc ll by simp
    moreover obtain s' where "store ?n ?e (hb_entries b) = Some s'" "length s' = length (hb_entries b)"
      "init_upto (Suc ?n) s'" "live (Suc ?n) s' = ?l @ [?e]"
      using store_end [OF ini, of ?e] lt len unfolding bucket_list_def by auto
    ultimately show thesis using that at ll by (simp add: bucket_insert_def Let_def)
  qed
  have "sorted_wrt (<) (keys_of (take i ?l @ ?e # drop i ?l))"
    using inv less greater by (intro sorted_insert_at) (auto simp: bucket_inv_def)
  then show ?thesis using s u len by (simp add: bucket_inv_def bucket_list_def)
qed

section \<open>Operations on the table\<close>

lemma set_bucket_simps [simp]:
  "h_n_buckets (set_bucket h p b) = h_n_buckets h" "h_count (set_bucket h p b) = h_count h"
  "h_step (set_bucket h p b) = h_step h" "h_free_value (set_bucket h p b) = h_free_value h"
  "h_buckets (set_bucket h p b) = (h_buckets h)[p := b]"
  by (simp_all add: set_bucket_def)

lemma hash_replace_bucket:
  fixes h :: "'v hash"
  assumes inv: "hash_inv h" and p: "p < length (h_buckets h)" and b: "bucket_inv b"
    and keys: "\<forall>e \<in> set (bucket_list b). hash_pos h (he_key e) = p"
    and c: "unat c + length (bucket_list (h_buckets h ! p)) = unat (h_count h) + length (bucket_list b)"
  defines "h' \<equiv> (set_bucket h p b)\<lparr>h_count := c\<rparr>"
  shows "hash_inv h'"
    "hash_map h' k = (if hash_pos h k = p then entries_map (bucket_list b) k else hash_map h k)"
proof -
  have pos: "hash_pos h' = hash_pos h" by (rule hash_pos_cong) (simp add: h'_def)
  let ?f = "\<lambda>b :: 'v hash_bucket. length (bucket_list b)"
  let ?s = "map ?f (h_buckets h)"
  have "sum_list (map ?f ((h_buckets h)[p := b])) = sum_list ?s + ?f b - ?s ! p"
    using p by (simp add: map_update sum_list_update)
  moreover have "?s ! p \<le> sum_list ?s" using p by (intro member_le_sum_list) auto
  ultimately have "unat c = sum_list (map ?f ((h_buckets h)[p := b]))"
    using c inv p by (simp add: hash_inv_def)
  then show "hash_inv h'"
    using inv b keys p unfolding hash_inv_def pos by (auto simp: h'_def nth_list_update)
  show "hash_map h' k = (if hash_pos h k = p then entries_map (bucket_list b) k else hash_map h k)"
    unfolding hash_map_def pos using p by (auto simp: h'_def)
qed

lemma hash_bucketD:
  assumes "hash_inv h"
  shows "bucket_inv (h_buckets h ! hash_pos h k)"
    "e \<in> set (bucket_list (h_buckets h ! hash_pos h k)) \<Longrightarrow> hash_pos h (he_key e) = hash_pos h k"
    "length (bucket_list (h_buckets h ! hash_pos h k)) \<le> unat (h_count h)"
    "length (bucket_list (h_buckets h ! hash_pos h k)) = unat (hb_used (h_buckets h ! hash_pos h k))"
proof -
  note p = hash_pos_less [OF assms, of k]
  show b: "bucket_inv (h_buckets h ! hash_pos h k)"
    and "e \<in> set (bucket_list (h_buckets h ! hash_pos h k)) \<Longrightarrow> hash_pos h (he_key e) = hash_pos h k"
    using assms p by (auto simp: hash_inv_def)
  have "length (bucket_list (h_buckets h ! hash_pos h k)) \<in> set (map (\<lambda>b. length (bucket_list b)) (h_buckets h))"
    using p by auto
  then show "length (bucket_list (h_buckets h ! hash_pos h k)) \<le> unat (h_count h)"
    using assms member_le_sum_list [of "length (bucket_list (h_buckets h ! hash_pos h k))"]
    by (simp add: hash_inv_def)
  show "length (bucket_list (h_buckets h ! hash_pos h k)) = unat (hb_used (h_buckets h ! hash_pos h k))"
    using b by (simp add: bucket_inv_def bucket_list_def)
qed

lemma hash_grow_spec:
  fixes k :: string
  assumes inv: "hash_inv h" and room: "hash_room h"
  defines "b \<equiv> h_buckets h ! hash_pos h k"
  shows "bucket_grow alloc (h_step h) b = Some (Inl ENOMEM) \<or>
    (\<exists>b'. bucket_grow alloc (h_step h) b = Some (Inr b') \<and> bucket_inv b' \<and> bucket_list b' = bucket_list b
       \<and> unat (hb_used b') < unat (hb_total b'))"
proof -
  have "unat (hb_used b) + unat (h_step h) < 2 ^ 32 - 1"
    using inv room hash_bucketD(3,4)[OF inv, of k] by (simp add: b_def hash_inv_def hash_room_def)
  then show ?thesis
    using bucket_grow_spec [of b "h_step h" alloc] hash_bucketD(1)[OF inv, of k] inv
    by (auto simp: b_def hash_inv_def)
qed

text \<open>
  Both insertions end in the same insertion of a new key; the pieces shared by their proofs.
\<close>

lemma hash_insert_new:
  assumes inv: "hash_inv h" and room: "hash_room h"
    and b: "bucket_inv b" "bucket_list b = bucket_list (h_buckets h ! hash_pos h k)"
      "unat (hb_used b) < unat (hb_total b)"
    and sc: "sc = Before i \<or> sc = AtEnd i" "i \<le> length (bucket_list b)"
      "sc = AtEnd i \<longrightarrow> i = length (bucket_list b)"
      "\<forall>e \<in> set (take i (bucket_list b)). he_key e < k"
      "\<forall>e \<in> set (drop i (bucket_list b)). k < he_key e"
  shows "\<exists>b'. bucket_insert k v sc b = Some b'
    \<and> hash_inv ((set_bucket h (hash_pos h k) b')\<lparr>h_count := h_count h + 1\<rparr>)
    \<and> hash_map ((set_bucket h (hash_pos h k) b')\<lparr>h_count := h_count h + 1\<rparr>) = (hash_map h)(k \<mapsto> v)
    \<and> hash_map h k = None"
proof -
  let ?l = "bucket_list b"
  obtain b' where b': "bucket_insert k v sc b = Some b'" "bucket_inv b'"
    "bucket_list b' = take i ?l @ \<lparr>he_key = k, he_value = v\<rparr> # drop i ?l"
    using bucket_insert_spec [OF b(1,3) sc] by blast
  have fresh: "k \<notin> set (keys_of (take i ?l))" "k \<notin> set (keys_of (drop i ?l))" using sc(4,5) by auto
  have fresh': "k \<notin> set (keys_of ?l)"
    using fresh by (metis Un_iff append_take_drop_id map_append set_append)
  have c: "unat (h_count h + 1) = unat (h_count h) + 1"
    using room by (simp add: hash_room_def unat_word_ariths)
  have keys: "\<forall>e \<in> set (bucket_list b'). hash_pos h (he_key e) = hash_pos h k"
    using hash_bucketD(2)[OF inv, of _ k] b(2) by (auto simp: b'(3) dest: in_set_takeD in_set_dropD)
  have len: "unat (h_count h + 1) + length (bucket_list (h_buckets h ! hash_pos h k))
      = unat (h_count h) + length (bucket_list b')"
    using c b(2) sc(2) by (simp add: b'(3))
  note R = hash_replace_bucket [OF inv hash_pos_less [OF inv] b'(2) keys len]
  have "entries_map (bucket_list b') = (entries_map ?l)(k \<mapsto> v)"
    using entries_map_insert [OF fresh(1), of v "drop i ?l"] by (simp add: b'(3))
  then have "hash_map ((set_bucket h (hash_pos h k) b')\<lparr>h_count := h_count h + 1\<rparr>) = (hash_map h)(k \<mapsto> v)"
    by (simp add: fun_eq_iff R(2)) (simp add: hash_map_def b(2))
  moreover have "hash_map h k = None"
    using fresh' b(2) entries_map_None [of ?l k] by (simp add: hash_map_def)
  ultimately show ?thesis using b'(1) R(1) by blast
qed

lemma hash_same_contents:
  assumes inv: "hash_inv h" and b: "bucket_inv b" "bucket_list b = bucket_list (h_buckets h ! hash_pos h k)"
  shows "hash_inv (set_bucket h (hash_pos h k) b)" "hash_map (set_bucket h (hash_pos h k) b) = hash_map h"
proof -
  have keys: "\<forall>e \<in> set (bucket_list b). hash_pos h (he_key e) = hash_pos h k"
    using hash_bucketD(2)[OF inv] b(2) by simp
  have c: "unat (h_count h) + length (bucket_list (h_buckets h ! hash_pos h k)) = unat (h_count h) + length (bucket_list b)"
    using b(2) by simp
  have eq: "(set_bucket h (hash_pos h k) b)\<lparr>h_count := h_count h\<rparr> = set_bucket h (hash_pos h k) b"
    by (simp add: set_bucket_def)
  note R = hash_replace_bucket [OF inv hash_pos_less [OF inv] b(1) keys c, unfolded eq]
  show "hash_inv (set_bucket h (hash_pos h k) b)" by (rule R(1))
  show "hash_map (set_bucket h (hash_pos h k) b) = hash_map h"
    by (simp add: fun_eq_iff R(2)) (simp add: hash_map_def b(2))
qed

definition freed :: "'v hash \<Rightarrow> string \<Rightarrow> 'v option list" where
  "freed h k = (case hash_map h k of Some v \<Rightarrow> if h_free_value h then [v] else [] | None \<Rightarrow> [])"

lemma hash_add_spec:
  assumes inv: "hash_inv h" and room: "hash_room h"
  shows "hash_add alloc h k v = Some (Inl ENOMEM, h, []) \<or>
    (\<exists>h'. hash_add alloc h k v = Some (Inr (), h', freed h k) \<and> hash_inv h'
       \<and> hash_map h' = (hash_map h)(k \<mapsto> v))"
proof -
  let ?p = "hash_pos h k"
  note p = hash_pos_less [OF inv, of k]
  from hash_grow_spec [OF inv room, of alloc k] show ?thesis
  proof (elim disjE exE conjE)
    assume "bucket_grow alloc (h_step h) (h_buckets h ! ?p) = Some (Inl ENOMEM)"
    then show ?thesis using p by (simp add: hash_add_def)
  next
    fix b assume b: "bucket_grow alloc (h_step h) (h_buckets h ! ?p) = Some (Inr b)" "bucket_inv b"
      "bucket_list b = bucket_list (h_buckets h ! ?p)" "unat (hb_used b) < unat (hb_total b)"
    let ?l = "bucket_list b" and ?e = "\<lparr>he_key = k, he_value = v\<rparr>"
    have i: "init_upto (unat (hb_used b)) (hb_entries b)" and so: "sorted_wrt (<) (keys_of ?l)"
      using b(2) by (auto simp: bucket_inv_def)
    show ?thesis
      using b(2)
    proof (cases rule: bucket_scan_cases [where key = k])
      case (Found i)
      have iu: "i < unat (hb_used b)" using Found(2) i by (simp add: bucket_list_def)
      obtain s where s: "store i ?e (hb_entries b) = Some s" "length s = length (hb_entries b)"
        "init_upto (unat (hb_used b)) s" "live (unat (hb_used b)) s = ?l[i := ?e]"
        using store_replace [OF i iu, of ?e] unfolding bucket_list_def by blast
      let ?b = "b\<lparr>hb_entries := s\<rparr>"
      have l': "bucket_list ?b = ?l[i := ?e]" using s by (simp add: bucket_list_def)
      have "keys_of ?l ! i = k" using Found by simp
      then have "keys_of (?l[i := ?e]) = keys_of ?l" by (simp add: map_update) (metis list_update_id)
      then have bi: "bucket_inv ?b" using b(2) s l' by (simp add: bucket_inv_def bucket_list_def)
      have keys: "\<forall>e \<in> set (bucket_list ?b). hash_pos h (he_key e) = ?p"
        using hash_bucketD(2)[OF inv, of _ k] b(3) set_update_subset_insert [of ?l i ?e] by (auto simp: l')
      have c: "unat (h_count h) + length (bucket_list (h_buckets h ! ?p)) = unat (h_count h) + length (bucket_list ?b)"
        using b(3) by (simp add: l')
      have eq: "(set_bucket h ?p ?b)\<lparr>h_count := h_count h\<rparr> = set_bucket h ?p ?b" by (simp add: set_bucket_def)
      note R = hash_replace_bucket [OF inv p bi keys c, unfolded eq]
      have "hash_map (set_bucket h ?p ?b) = (hash_map h)(k \<mapsto> v)"
        by (simp add: fun_eq_iff R(2) l' entries_map_update [OF so Found(2,3)]) (simp add: hash_map_def b(3))
      moreover have "hash_map h k = Some (he_value (?l ! i))"
        using entries_map_nth [OF so Found(2)] Found(3) b(3) by (simp add: hash_map_def)
      moreover have "hb_entries b ! i = Some (?l ! i)" using live_nth [OF i iu] by (simp add: bucket_list_def)
      ultimately show ?thesis using p b(1) Found(1) s(1) R(1) by (simp add: hash_add_def freed_def)
    next
      case (Insert sc i)
      then show ?thesis
        using p b(1) hash_insert_new [OF inv room b(2,3,4) Insert(2-6), of v] by (auto simp: hash_add_def freed_def)
    qed
  qed
qed

lemma hash_add_unique_spec:
  assumes inv: "hash_inv h" and room: "hash_room h"
  shows "hash_add_unique alloc h k v = Some (Inl ENOMEM, h) \<or>
    (\<exists>h'. hash_add_unique alloc h k v = Some (if hash_map h k = None then Inr () else Inl EEXIST, h')
       \<and> hash_inv h' \<and> hash_map h' = (if hash_map h k = None then (hash_map h)(k \<mapsto> v) else hash_map h))"
proof -
  let ?p = "hash_pos h k"
  note p = hash_pos_less [OF inv, of k]
  from hash_grow_spec [OF inv room, of alloc k] show ?thesis
  proof (elim disjE exE conjE)
    assume "bucket_grow alloc (h_step h) (h_buckets h ! ?p) = Some (Inl ENOMEM)"
    then show ?thesis using p by (simp add: hash_add_unique_def)
  next
    fix b assume b: "bucket_grow alloc (h_step h) (h_buckets h ! ?p) = Some (Inr b)" "bucket_inv b"
      "bucket_list b = bucket_list (h_buckets h ! ?p)" "unat (hb_used b) < unat (hb_total b)"
    show ?thesis
      using b(2)
    proof (cases rule: bucket_scan_cases [where key = k])
      case (Found i)
      have "sorted_wrt (<) (keys_of (bucket_list b))" using b(2) by (simp add: bucket_inv_def)
      then have "hash_map h k = Some (he_value (bucket_list b ! i))"
        using entries_map_nth [of "bucket_list b" i] Found(2,3) b(3) by (simp add: hash_map_def)
      then show ?thesis using p b(1) Found(1) hash_same_contents [OF inv b(2,3)] by (simp add: hash_add_unique_def)
    next
      case (Insert sc i)
      then show ?thesis
        using p b(1) hash_insert_new [OF inv room b(2,3,4) Insert(2-6), of v] by (auto simp: hash_add_unique_def)
    qed
  qed
qed

lemma hash_find_spec:
  assumes inv: "hash_inv h"
  shows "hash_find h k = Some (Option.bind (hash_map h k) id)"
proof -
  let ?b = "h_buckets h ! hash_pos h k"
  note p = hash_pos_less [OF inv, of k]
  have bi: "bucket_inv ?b" by (rule hash_bucketD(1)[OF inv])
  show ?thesis
  proof (cases "hb_entries ?b = []")
    case True
    then have "bucket_list ?b = []" by (simp add: bucket_list_def live_def)
    then show ?thesis using True p by (simp add: hash_find_def Let_def hash_map_def entries_map_def)
  next
    case False
    have so: "sorted_wrt (<) (keys_of (bucket_list ?b))" using bi by (simp add: bucket_inv_def)
    obtain r where r: "bucket_search k ?b = Some r"
      "case r of None \<Rightarrow> entries_map (bucket_list ?b) k = None
       | Some i \<Rightarrow> i < length (bucket_list ?b) \<and> he_key (bucket_list ?b ! i) = k
           \<and> hb_entries ?b ! i = Some (bucket_list ?b ! i)"
      using bucket_search_spec [OF bi, of k] by blast
    then show ?thesis
      using False p entries_map_nth [OF so, of "the r"]
      by (cases r) (auto simp: hash_find_def Let_def hash_map_def)
  qed
qed

lemma bucket_shrink_spec:
  assumes inv: "bucket_inv b" and st': "1 < unat step"
  shows "\<exists>b'. bucket_shrink alloc step b = Some b' \<and> bucket_inv b' \<and> bucket_list b' = bucket_list b"
proof (cases "hb_used b div step + 1 < hb_total b div step")
  case False
  then show ?thesis using inv st' by (auto simp: bucket_shrink_def)
next
  case True
  let ?u = "unat (hb_used b)" and ?s = "unat step" and ?t = "(hb_used b div step + 1) * step"
  have q: "unat (hb_used b div step) = ?u div ?s" by (simp add: unat_div)
  have st: "unat step \<noteq> 0" using st' by simp
  have "?u div ?s \<le> ?u div 2" using st' by (intro div_le_mono2) auto
  then have "?u div ?s < 2 ^ 32 - 1"
    using unat_lt_32 [of "hb_used b"] by simp
  then have q1: "unat (hb_used b div step + 1) = ?u div ?s + 1"
    by (simp add: unat_word_ariths q)
  have "?u div ?s + 1 < unat (hb_total b) div ?s"
    using True by (simp add: word_less_nat_alt q1 unat_div)
  then have "(?u div ?s + 1) * ?s \<le> unat (hb_total b)"
    by (metis div_times_less_eq_dividend less_imp_le_nat mult_le_mono1 order_trans)
  then have t: "unat ?t = (?u div ?s + 1) * ?s"
    using unat_mult_less [of "hb_used b div step + 1" step "hb_total b"] by (simp add: q1)
  have gt: "?u < unat ?t" unfolding t using st by (simp add: dividend_less_div_times)
  have "unat ((ucast ?t :: size_t) * 16) = unat ?t * 16"
    using unat_lt_32 [of ?t] by (simp add: unat_word_ariths)
  then have nz: "(ucast ?t :: size_t) * 16 \<noteq> 0" using gt by (auto dest: arg_cong [where f = unat])
  have "init_upto ?u (realloc_slots (unat ?t) (hb_entries b))
      \<and> live ?u (realloc_slots (unat ?t) (hb_entries b)) = bucket_list b"
    using realloc_slots_live [of ?u "hb_entries b" "unat ?t"] inv gt
    by (simp add: bucket_inv_def bucket_list_def)
  then show ?thesis using True st nz inv
    by (auto simp: bucket_shrink_def Let_def bucket_inv_def bucket_list_def)
qed

lemma hash_del_spec:
  assumes inv: "hash_inv h"
  shows "\<exists>h'. hash_del alloc h k = Some (if hash_map h k = None then Inl ENOENT else Inr (), h', freed h k)
    \<and> hash_inv h' \<and> hash_map h' = (hash_map h)(k := None)"
proof -
  let ?p = "hash_pos h k" and ?b = "h_buckets h ! hash_pos h k"
  let ?l = "bucket_list ?b"
  note p = hash_pos_less [OF inv, of k]
  have bi: "bucket_inv ?b" by (rule hash_bucketD(1)[OF inv])
  have i: "init_upto (unat (hb_used ?b)) (hb_entries ?b)" and so: "sorted_wrt (<) (keys_of ?l)"
    using bi by (auto simp: bucket_inv_def)
  have nochange: "(hash_map h)(k := None) = hash_map h" if "hash_map h k = None" using that by auto
  show ?thesis
  proof (cases "hash_map h k")
    case None
    have "hb_entries ?b = [] \<or> bucket_search k ?b = Some None"
      using bucket_search_spec [OF bi, of k] None entries_map_nth [OF so]
      by (fastforce simp: hash_map_def split: option.splits)
    then show ?thesis using None p inv nochange by (auto simp: hash_del_def Let_def freed_def)
  next
    case (Some old)
    have ne: "hb_entries ?b \<noteq> []" using Some by (auto simp: hash_map_def bucket_list_def live_def entries_map_def)
    obtain j where j: "bucket_search k ?b = Some (Some j)" "j < length ?l" "he_key (?l ! j) = k"
      "hb_entries ?b ! j = Some (?l ! j)"
      using bucket_search_spec [OF bi, of k] Some by (auto simp: hash_map_def split: option.splits)
    have old: "he_value (?l ! j) = old" using entries_map_nth [OF so j(2)] j(3) Some by (simp add: hash_map_def)
    have ju: "j < unat (hb_used ?b)" using j(2) hash_bucketD(4)[OF inv, of k] by simp
    obtain s where s: "memmove j (Suc j) (unat (hb_used ?b) - Suc j) (hb_entries ?b) = Some s"
      "length s = length (hb_entries ?b)" "init_upto (unat (hb_used ?b) - 1) s"
      "live (unat (hb_used ?b) - 1) s = take j ?l @ drop (Suc j) ?l"
      using memmove_delete [OF i ju] unfolding bucket_list_def by blast
    let ?b1 = "?b\<lparr>hb_entries := s, hb_used := hb_used ?b - 1\<rparr>"
    have u: "unat (hb_used ?b - 1) = unat (hb_used ?b) - 1" using ju by (intro unat_pred) auto
    have l1: "bucket_list ?b1 = take j ?l @ drop (Suc j) ?l" using s u by (simp add: bucket_list_def)
    have "sorted_wrt (<) (keys_of (take j ?l @ drop (Suc j) ?l))"
      by (rule sorted_delete_at [OF so j(2)])
    then have "bucket_inv ?b1" using bi s u l1 by (simp add: bucket_inv_def bucket_list_def)
    then obtain b2 where b2: "bucket_shrink alloc (h_step h) ?b1 = Some b2" "bucket_inv b2"
      "bucket_list b2 = take j ?l @ drop (Suc j) ?l"
      using bucket_shrink_spec [of ?b1 "h_step h" alloc] inv l1 by (auto simp: hash_inv_def)
    have keys: "\<forall>e \<in> set (bucket_list b2). hash_pos h (he_key e) = ?p"
      using hash_bucketD(2)[OF inv, of _ k] by (auto simp: b2(3) dest: in_set_takeD in_set_dropD)
    have pos: "0 < unat (h_count h)" using hash_bucketD(3)[OF inv, of k] j(2) by linarith
    have "unat (h_count h - 1) = unat (h_count h) - 1" using pos by (intro unat_pred) auto
    then have c: "unat (h_count h - 1) + length ?l = unat (h_count h) + length (bucket_list b2)"
      using pos j(2) by (simp add: b2(3))
    note R = hash_replace_bucket [OF inv p b2(2) keys c]
    have "hash_map ((set_bucket h ?p b2)\<lparr>h_count := h_count h - 1\<rparr>) = (hash_map h)(k := None)"
      by (simp add: fun_eq_iff R(2) b2(3) entries_map_delete [OF so j(2,3)]) (simp add: hash_map_def)
    then show ?thesis using ne p j s(1) b2(1) R(1) Some old by (auto simp: hash_del_def Let_def freed_def)
  qed
qed

section \<open>Creation\<close>

lemma bit_len_bounds: "n \<noteq> 0 \<Longrightarrow> 2 ^ (bit_len n - 1) \<le> n \<and> n < 2 ^ bit_len n"
proof (induction n rule: bit_len.induct)
  case (1 n)
  show ?case
  proof (cases "n div 2 = 0")
    case True
    then have "n = 1" using "1.prems" by simp
    then show ?thesis by (simp add: bit_len.simps)
  next
    case False
    then have ih: "2 ^ (bit_len (n div 2) - 1) \<le> n div 2 \<and> n div 2 < 2 ^ bit_len (n div 2)"
      using 1 by blast
    have "bit_len (n div 2) \<noteq> 0" using False by (simp add: bit_len.simps [of "n div 2"])
    then have "(2::nat) ^ bit_len (n div 2) = 2 * 2 ^ (bit_len (n div 2) - 1)"
      by (metis power_eq_if)
    then show ?thesis using ih "1.prems" by (simp add: bit_len.simps [of n]) linarith
  qed
qed

lemma align_power2_spec:
  assumes "2 \<le> unat u" and "unat u \<le> 2 ^ 30"
  shows "\<exists>k r. align_power2 u = Some r \<and> unat r = 2 ^ k \<and> k \<le> 30 \<and> unat u \<le> 2 ^ k \<and> 2 ^ k < 2 * unat u"
proof -
  let ?x = "unat (u - 1)" and ?k = "bit_len (unat (u - 1))"
  have x: "?x = unat u - 1" using assms(1) by (intro unat_pred) auto
  then have b: "2 ^ (?k - 1) \<le> ?x" "?x < 2 ^ ?k" using bit_len_bounds [of ?x] assms(1) by auto
  have "(2::nat) ^ (?k - 1) < 2 ^ 30" using b x assms by linarith
  then have k: "?k - 1 < 30" using power_less_imp_less_exp [of "2::nat" "?k - 1" 30] by simp
  have kpos: "?k \<noteq> 0" using x assms(1) by (simp add: bit_len.simps [of "unat u - Suc 0"])
  then have pk: "(2::nat) ^ ?k = 2 * 2 ^ (?k - 1)" by (metis power_eq_if)
  have "u - 1 \<noteq> 0" using x assms(1) by (auto simp: unat_eq_zero)
  moreover have "unat (push_bit ?k (1 :: u32)) = 2 ^ ?k"
    using k kpos by (simp add: push_bit_eq_mult unat_two_power)
  moreover have "unat u \<le> 2 ^ ?k" "2 ^ ?k < 2 * unat u" using b x assms(1) pk by linarith+
  moreover have "?k \<le> 30" using k by linarith
  ultimately show ?thesis
    by (intro exI [of _ ?k] exI [of _ "push_bit ?k 1"]) (simp add: align_power2_def Let_def)
qed

lemma hash_new_spec:
  assumes "2 \<le> unat n" and "unat n \<le> 2 ^ 30"
  shows "\<exists>r. (hash_new alloc n fv :: 'a hash option option) = Some r \<and>
    (case r of None \<Rightarrow> True
     | Some h \<Rightarrow> hash_inv h \<and> hash_map h = Map.empty \<and> h_count h = 0 \<and> h_free_value h = fv)"
proof -
  obtain k r where r: "align_power2 n = Some r" "unat r = 2 ^ k" "k \<le> 30"
    using align_power2_spec [OF assms] by blast
  define b where "b = (\<lparr>hb_entries = [], hb_used = 0, hb_total = 0\<rparr> :: 'a hash_bucket)"
  define st where "st = (if r div 32 < 4 then 4 else if 64 < r div 32 then 64 else r div 32)"
  define h where "h = \<lparr>h_count = 0, h_step = st, h_n_buckets = r, h_free_value = fv,
    h_buckets = replicate (unat r) b\<rparr>"
  have st: "4 \<le> unat st" "unat st \<le> 64" by (auto simp: st_def word_less_nat_alt not_less)
  have nz: "r \<noteq> 0" using r(2) by auto
  have bi: "bucket_inv b" "bucket_list b = []" by (simp_all add: b_def bucket_inv_def bucket_list_def)
  have inv: "hash_inv h" using st nz bi unfolding hash_inv_def by (simp add: h_def sum_list_replicate)
  have "hash_map h = Map.empty"
    using hash_pos_less [OF inv] bi(2) by (simp add: hash_map_def fun_eq_iff entries_map_def h_def)
  moreover have "hash_new alloc n fv = (if alloc (24 + ucast r * 16) then Some (Some h) else Some None)"
    by (simp add: hash_new_def Let_def r(1) h_def st_def b_def)
  moreover have "h_count h = 0" "h_free_value h = fv" by (simp_all add: h_def)
  ultimately show ?thesis using inv by auto
qed

section \<open>Iteration\<close>

lemma distinct_concat_nth:
  assumes "\<And>i. i < length xss \<Longrightarrow> distinct (xss ! i)"
    and "\<And>i j x. i < length xss \<Longrightarrow> j < length xss \<Longrightarrow> x \<in> set (xss ! i) \<Longrightarrow> x \<in> set (xss ! j) \<Longrightarrow> i = j"
  shows "distinct (concat xss)"
  using assms
proof (induction xss)
  case (Cons xs xss)
  have "distinct (concat xss)"
    using Cons.prems(1)[of "Suc _"] Cons.prems(2)[of "Suc _" "Suc _"] by (intro Cons.IH) auto
  moreover have "set xs \<inter> set ys = {}" if "ys \<in> set xss" for ys
    using that Cons.prems(2)[of 0 "Suc _"] by (fastforce simp: in_set_conv_nth)
  ultimately show ?case using Cons.prems(1)[of 0] by auto
qed simp

definition hash_entries :: "'v hash \<Rightarrow> (string \<times> 'v option) list" where
  "hash_entries h = map (\<lambda>e. (he_key e, he_value e)) (concat (map bucket_list (h_buckets h)))"

text \<open>The caller's loop \<open>while (hash_iter_next(&iter, &key, &value))\<close>, run at most \<open>n\<close> times.\<close>

fun hash_iter_run :: "nat \<Rightarrow> 'v hash \<Rightarrow> hash_iter \<Rightarrow> (string \<times> 'v option) list option" where
  "hash_iter_run 0 h it = None"
| "hash_iter_run (Suc n) h it =
     do { (r, it') \<leftarrow> hash_iter_next h it;
          case r of None \<Rightarrow> Some [] | Some kv \<Rightarrow> map_option (Cons kv) (hash_iter_run n h it') }"

lemma next_bucket_spec:
  assumes "hash_inv h"
  shows "unat i \<le> unat (h_n_buckets h) \<Longrightarrow> \<exists>j. next_bucket h i = Some j \<and> unat i \<le> unat j
    \<and> unat j \<le> unat (h_n_buckets h)
    \<and> concat (map bucket_list (drop (unat i) (h_buckets h))) = concat (map bucket_list (drop (unat j) (h_buckets h)))
    \<and> (unat j < unat (h_n_buckets h) \<longrightarrow> 0 < unat (hb_used (h_buckets h ! unat j)))"
  using assms
proof (induction h i rule: next_bucket.induct)
  case (1 h i)
  have len: "length (h_buckets h) = unat (h_n_buckets h)" using "1.prems" by (simp add: hash_inv_def)
  show ?case
  proof (cases "i < h_n_buckets h")
    case False
    then show ?thesis using "1.prems" by (simp add: next_bucket.simps [of h i] word_less_nat_alt)
  next
    case True
    then have lt: "unat i < length (h_buckets h)" using len by (simp add: word_less_nat_alt)
    show ?thesis
    proof (cases "0 < hb_used (h_buckets h ! unat i)")
      case used: True
      then show ?thesis
        using True lt len by (simp add: next_bucket.simps [of h i] word_less_nat_alt)
    next
      case False
      have i1: "unat (i + 1) = Suc (unat i)"
        using lt len unat_lt_32 [of "h_n_buckets h"] by (simp add: unat_word_ariths)
      have "bucket_list (h_buckets h ! unat i) = []" using False by (simp add: bucket_list_def word_gt_0)
      then have "concat (map bucket_list (drop (unat i) (h_buckets h)))
          = concat (map bucket_list (drop (Suc (unat i)) (h_buckets h)))"
        using lt by (subst Cons_nth_drop_Suc [symmetric]) simp_all
      then show ?thesis
        using "1.IH" [OF True lt False] "1.prems" lt len True False i1
        by (simp add: next_bucket.simps [of h i]) (metis Suc_leD)
    qed
  qed
qed

definition iter_rest :: "'v hash \<Rightarrow> hash_iter \<Rightarrow> 'v hash_entry list" where
  "iter_rest h it = drop (unat (hi_entry it + 1)) (bucket_list (h_buckets h ! unat (hi_bucket it)))
     @ concat (map bucket_list (drop (Suc (unat (hi_bucket it))) (h_buckets h)))"

lemma hash_iter_next_spec:
  assumes inv: "hash_inv h" and b: "unat (hi_bucket it) < unat (h_n_buckets h)"
  shows "case iter_rest h it of
      [] \<Rightarrow> \<exists>it'. hash_iter_next h it = Some (None, it')
    | e # es \<Rightarrow> \<exists>it'. hash_iter_next h it = Some (Some (he_key e, he_value e), it')
        \<and> unat (hi_bucket it') < unat (h_n_buckets h) \<and> iter_rest h it' = es"
proof -
  have len: "length (h_buckets h) = unat (h_n_buckets h)" using inv by (simp add: hash_inv_def)
  have ini: "init_upto (unat (hb_used (h_buckets h ! i))) (hb_entries (h_buckets h ! i))"
    and ll: "length (bucket_list (h_buckets h ! i)) = unat (hb_used (h_buckets h ! i))"
    if "i < unat (h_n_buckets h)" for i
    using inv that len by (auto simp: hash_inv_def bucket_inv_def bucket_list_def)
  have fetch: "\<exists>e. (if unat n < length (hb_entries (h_buckets h ! unat j)) then hb_entries (h_buckets h ! unat j) ! unat n else None)
        = Some e \<and> iter_rest h \<lparr>hi_bucket = j, hi_entry = n\<rparr> = es \<and> e = e'"
    if "unat j < unat (h_n_buckets h)" "unat n < unat (hb_used (h_buckets h ! unat j))"
      "drop (unat n) (bucket_list (h_buckets h ! unat j))
         @ concat (map bucket_list (drop (Suc (unat j)) (h_buckets h))) = e' # es" for j n e' es
  proof -
    let ?b = "h_buckets h ! unat j"
    have n1: "unat (n + 1) = Suc (unat n)"
      using that(2) unat_lt_32 [of "hb_used ?b"] by (simp add: unat_word_ariths)
    have "drop (unat n) (bucket_list ?b) = bucket_list ?b ! unat n # drop (Suc (unat n)) (bucket_list ?b)"
      using that ll [of "unat j"] by (simp add: Cons_nth_drop_Suc)
    moreover have "hb_entries ?b ! unat n = Some (bucket_list ?b ! unat n)"
      using live_nth [OF ini [OF that(1)] that(2)] by (simp add: bucket_list_def)
    ultimately show ?thesis using that ini [OF that(1)] n1 by (auto simp: iter_rest_def dest: init_uptoD)
  qed
  show ?thesis
  proof (cases "hb_used (h_buckets h ! unat (hi_bucket it)) \<le> hi_entry it + 1")
    case False
    then have lt: "unat (hi_entry it + 1) < unat (hb_used (h_buckets h ! unat (hi_bucket it)))"
      by (simp add: word_le_nat_alt)
    have "iter_rest h it \<noteq> []" using lt ll [OF b] by (simp add: iter_rest_def)
    then obtain e es where e: "iter_rest h it = e # es" by (cases "iter_rest h it") auto
    show ?thesis
      using fetch [OF b lt e [unfolded iter_rest_def]] False b len e by (auto simp: hash_iter_next_def Let_def)
  next
    case True
    have b1: "unat (hi_bucket it + 1) = Suc (unat (hi_bucket it))"
      using b unat_lt_32 [of "h_n_buckets h"] by (simp add: unat_word_ariths)
    have rest: "iter_rest h it = concat (map bucket_list (drop (unat (hi_bucket it + 1)) (h_buckets h)))"
      using True ll [OF b] by (simp add: iter_rest_def b1 word_le_nat_alt)
    obtain j where j: "next_bucket h (hi_bucket it + 1) = Some j" "unat j \<le> unat (h_n_buckets h)"
      "iter_rest h it = concat (map bucket_list (drop (unat j) (h_buckets h)))"
      "unat j < unat (h_n_buckets h) \<longrightarrow> 0 < unat (hb_used (h_buckets h ! unat j))"
      using next_bucket_spec [OF inv, of "hi_bucket it + 1"] b b1 rest by auto
    show ?thesis
    proof (cases "unat j < unat (h_n_buckets h)")
      case False
      then have "iter_rest h it = []" using j(3) len by simp
      then show ?thesis using False j(1) True b len by (simp add: hash_iter_next_def Let_def word_le_nat_alt)
    next
      case lt: True
      have r: "iter_rest h it = drop (unat (0::u32)) (bucket_list (h_buckets h ! unat j))
          @ concat (map bucket_list (drop (Suc (unat j)) (h_buckets h)))"
        using j(3) lt len by (simp add: Cons_nth_drop_Suc [symmetric])
      have used: "unat (0::u32) < unat (hb_used (h_buckets h ! unat j))" using j(4) lt by simp
      have "iter_rest h it \<noteq> []" using r used ll [OF lt] by auto
      then obtain e es where e: "iter_rest h it = e # es" by (cases "iter_rest h it") auto
      have f: "(if unat (0::u32) < length (hb_entries (h_buckets h ! unat j)) then hb_entries (h_buckets h ! unat j) ! unat (0::u32) else None)
          = Some e" "iter_rest h \<lparr>hi_bucket = j, hi_entry = 0\<rparr> = es"
        using fetch [OF lt used e [unfolded r]] by auto
      have "\<not> h_n_buckets h \<le> j" using lt by (simp add: word_le_nat_alt)
      then have "hash_iter_next h it = Some (Some (he_key e, he_value e), \<lparr>hi_bucket = j, hi_entry = 0\<rparr>)"
        using f(1) True b len j(1) by (simp add: hash_iter_next_def Let_def)
      then show ?thesis using f(2) lt unfolding e by simp
    qed
  qed
qed

lemma hash_iter_run_rest:
  assumes inv: "hash_inv h"
  shows "unat (hi_bucket it) < unat (h_n_buckets h) \<Longrightarrow> length (iter_rest h it) < n \<Longrightarrow>
    hash_iter_run n h it = Some (map (\<lambda>e. (he_key e, he_value e)) (iter_rest h it))"
proof (induction n arbitrary: it)
  case (Suc n)
  show ?case
  proof (cases "iter_rest h it")
    case Nil
    then show ?thesis using hash_iter_next_spec [OF inv Suc.prems(1)] by auto
  next
    case (Cons e es)
    then obtain it' where it': "hash_iter_next h it = Some (Some (he_key e, he_value e), it')"
      "unat (hi_bucket it') < unat (h_n_buckets h)" "iter_rest h it' = es"
      using hash_iter_next_spec [OF inv Suc.prems(1)] by auto
    then show ?thesis using Suc.IH [of it'] Suc.prems Cons by simp
  qed
qed simp

lemma hash_iter_all:
  assumes inv: "hash_inv h" and "unat (h_count h) < n"
  shows "hash_iter_run n h hash_iter_init = Some (hash_entries h)"
proof -
  have b: "unat (hi_bucket hash_iter_init) < unat (h_n_buckets h)"
    using inv by (simp add: hash_iter_init_def hash_inv_def unat_gt_0)
  have r: "iter_rest h hash_iter_init = concat (map bucket_list (h_buckets h))"
    using inv b unfolding iter_rest_def hash_iter_init_def
    by (cases "h_buckets h") (auto simp: hash_inv_def)
  have "length (iter_rest h hash_iter_init) < n"
    using assms by (simp add: r length_concat comp_def hash_inv_def)
  then show ?thesis using hash_iter_run_rest [OF inv b] by (simp add: r hash_entries_def)
qed

lemma hash_entries_map:
  assumes inv: "hash_inv h"
  shows "distinct (map fst (hash_entries h))" "map_of (hash_entries h) = hash_map h"
    "length (hash_entries h) = unat (h_count h)"
proof -
  let ?B = "h_buckets h"
  have bk: "bucket_inv (?B ! i)" "\<forall>e \<in> set (bucket_list (?B ! i)). hash_pos h (he_key e) = i"
    if "i < length ?B" for i using inv that by (auto simp: hash_inv_def)
  have keys: "map fst (hash_entries h) = concat (map (\<lambda>b. keys_of (bucket_list b)) ?B)"
    by (simp add: hash_entries_def map_concat comp_def)
  have one: "distinct (keys_of (bucket_list (?B ! i)))" if "i < length ?B" for i
    using bk(1)[OF that] by (auto simp: bucket_inv_def dest: strict_sorted_iff [THEN iffD1])
  show d: "distinct (map fst (hash_entries h))"
    unfolding keys
  proof (rule distinct_concat_nth)
    fix i j x
    assume "i < length (map (\<lambda>b. keys_of (bucket_list b)) ?B)" "j < length (map (\<lambda>b. keys_of (bucket_list b)) ?B)"
      "x \<in> set (map (\<lambda>b. keys_of (bucket_list b)) ?B ! i)" "x \<in> set (map (\<lambda>b. keys_of (bucket_list b)) ?B ! j)"
    then show "i = j" using bk(2)[of i] bk(2)[of j] by auto
  qed (simp add: one)
  have mem: "e \<in> set (concat (map bucket_list ?B)) \<longleftrightarrow> e \<in> set (bucket_list (?B ! hash_pos h (he_key e)))" for e
  proof
    assume "e \<in> set (concat (map bucket_list ?B))"
    then obtain i where i: "i < length ?B" "e \<in> set (bucket_list (?B ! i))"
      by (auto simp: in_set_conv_nth [of _ ?B])
    then have "hash_pos h (he_key e) = i" using bk(2) by simp
    then show "e \<in> set (bucket_list (?B ! hash_pos h (he_key e)))" using i by simp
  qed (use nth_mem [OF hash_pos_less [OF inv]] in auto)
  show "map_of (hash_entries h) = hash_map h"
  proof
    fix k
    have "(k, v) \<in> set (hash_entries h) \<longleftrightarrow> hash_map h k = Some v" for v
    proof -
      have so: "sorted_wrt (<) (keys_of (bucket_list (?B ! hash_pos h k)))"
        using hash_bucketD(1)[OF inv] by (simp add: bucket_inv_def)
      have "(k, v) \<in> set (hash_entries h) \<longleftrightarrow> (\<exists>e \<in> set (bucket_list (?B ! hash_pos h k)). he_key e = k \<and> he_value e = v)"
        using mem by (auto simp: hash_entries_def simp del: set_concat)
      also have "\<dots> \<longleftrightarrow> hash_map h k = Some v"
        using entries_map_Some_iff [OF so] by (simp add: hash_map_def)
      finally show ?thesis .
    qed
    then show "map_of (hash_entries h) k = hash_map h k"
      using d map_of_eq_Some_iff by (metis not_Some_eq)
  qed
  show "length (hash_entries h) = unat (h_count h)"
    using inv by (simp add: hash_entries_def length_concat comp_def hash_inv_def)
qed

section \<open>The interface of a dictionary\<close>

text \<open>
  What the tools rely on: for every allocator outcome the operations return, and the contents are
  those of a finite map. \<open>room\<close> is what the provider needs before it takes one more key.
\<close>

locale dict =
  fixes contents :: "'h \<Rightarrow> string \<Rightarrow> 'v option option"
    and inv :: "'h \<Rightarrow> bool" and room :: "'h \<Rightarrow> bool"
    and find :: "'h \<Rightarrow> string \<Rightarrow> 'v option option"
    and add :: "'h \<Rightarrow> string \<Rightarrow> 'v option \<Rightarrow> (unit result \<times> 'h \<times> 'v option list) option"
    and add_unique :: "'h \<Rightarrow> string \<Rightarrow> 'v option \<Rightarrow> (unit result \<times> 'h) option"
    and del :: "'h \<Rightarrow> string \<Rightarrow> (unit result \<times> 'h \<times> 'v option list) option"
  assumes find_law: "inv h \<Longrightarrow> find h k = Some (Option.bind (contents h k) id)"
    and add_law: "inv h \<Longrightarrow> room h \<Longrightarrow> \<exists>r h' fr. add h k v = Some (r, h', fr) \<and> inv h'
      \<and> (r = Inl ENOMEM \<and> h' = h \<or> r = Inr () \<and> contents h' = (contents h)(k \<mapsto> v))"
    and add_unique_law: "inv h \<Longrightarrow> room h \<Longrightarrow> \<exists>r h'. add_unique h k v = Some (r, h') \<and> inv h'
      \<and> (r = Inl ENOMEM \<and> h' = h \<or> r = Inl EEXIST \<and> contents h k \<noteq> None \<and> contents h' = contents h
         \<or> r = Inr () \<and> contents h k = None \<and> contents h' = (contents h)(k \<mapsto> v))"
    and del_law: "inv h \<Longrightarrow> \<exists>r h' fr. del h k = Some (r, h', fr) \<and> inv h'
      \<and> contents h' = (contents h)(k := None) \<and> (r = Inr () \<longleftrightarrow> contents h k \<noteq> None)"
begin

lemma find_after_add:
  assumes "inv h" and "room h" and "add h k v = Some (Inr (), h', fr)"
  shows "find h' j = (if j = k then Some v else find h j)"
  using add_law [OF assms(1,2), of k v] assms(1,3) by (auto simp: find_law)

lemma find_after_del:
  assumes "inv h" and "del h k = Some (r, h', fr)"
  shows "find h' j = (if j = k then Some None else find h j)"
  using del_law [OF assms(1), of k] assms by (auto simp: find_law)

lemma add_unique_keeps:
  assumes "inv h" and "room h" and "add_unique h k v = Some (r, h')"
  shows "inv h' \<and> (contents h j \<noteq> None \<longrightarrow> contents h' j = contents h j)"
  using add_unique_law [OF assms(1,2), of k v] assms(3) by auto

end

interpretation hd: dict hash_map hash_inv hash_room hash_find "hash_add alloc" "hash_add_unique alloc" "hash_del alloc"
proof unfold_locales
  fix h :: "'a hash" and k v
  assume inv: "hash_inv h"
  show "hash_find h k = Some (Option.bind (hash_map h k) id)" by (rule hash_find_spec [OF inv])
  show "\<exists>r h' fr. hash_del alloc h k = Some (r, h', fr) \<and> hash_inv h'
      \<and> hash_map h' = (hash_map h)(k := None) \<and> (r = Inr () \<longleftrightarrow> hash_map h k \<noteq> None)"
    using hash_del_spec [OF inv, of alloc k] by auto
  assume room: "hash_room h"
  show "\<exists>r h' fr. hash_add alloc h k v = Some (r, h', fr) \<and> hash_inv h'
      \<and> (r = Inl ENOMEM \<and> h' = h \<or> r = Inr () \<and> hash_map h' = (hash_map h)(k \<mapsto> v))"
    using hash_add_spec [OF inv room, of alloc k v] inv by auto
  show "\<exists>r h'. hash_add_unique alloc h k v = Some (r, h') \<and> hash_inv h'
      \<and> (r = Inl ENOMEM \<and> h' = h \<or> r = Inl EEXIST \<and> hash_map h k \<noteq> None \<and> hash_map h' = hash_map h
         \<or> r = Inr () \<and> hash_map h k = None \<and> hash_map h' = (hash_map h)(k \<mapsto> v))"
    using hash_add_unique_spec [OF inv room, of alloc k v] inv by (cases "hash_map h k") auto
qed

section \<open>Properties\<close>

text \<open>
  C21. \<open>hash_add\<close> refines the update of a finite map: on a well-formed table it touches only memory
  of the target bucket, and either fails with \<open>-ENOMEM\<close> leaving the table as it was, or binds the
  key, hands the replaced value (if any) to \<open>free_value\<close> exactly once, and every later \<open>hash_find\<close>
  returns the new value for this key and what it returned before for every other key.
\<close>

theorem hash_add_refines_map:
  assumes "hash_inv h" and "hash_room h"
  shows "hash_add alloc h k v = Some (Inl ENOMEM, h, []) \<or>
    (\<exists>h'. hash_add alloc h k v = Some (Inr (), h', freed h k) \<and> hash_inv h'
       \<and> hash_map h' = (hash_map h)(k \<mapsto> v)
       \<and> (\<forall>j. hash_find h' j = (if j = k then Some v else hash_find h j)))"
  using hash_add_spec [OF assms, of alloc k v] hd.find_after_add [OF assms, of alloc k v] by blast

definition hash_example :: "nat hash" where
  "hash_example = \<lparr>h_count = 0, h_step = 4, h_n_buckets = 2, h_free_value = True,
     h_buckets = [\<lparr>hb_entries = [], hb_used = 0, hb_total = 0\<rparr>, \<lparr>hb_entries = [], hb_used = 0, hb_total = 0\<rparr>]\<rparr>"

lemma hash_example_inv: "hash_inv hash_example" "hash_room hash_example"
  by (auto simp: hash_example_def hash_inv_def hash_room_def bucket_inv_def bucket_list_def
      less_Suc_eq)

theorem hash_add_refines_map_witness:
  "hash_add (\<lambda>_. True) hash_example ''dm'' (Some 3) = Some (Inl ENOMEM, hash_example, []) \<or>
    (\<exists>h'. hash_add (\<lambda>_. True) hash_example ''dm'' (Some 3) = Some (Inr (), h', freed hash_example ''dm'')
       \<and> hash_find h' ''dm'' = Some (Some 3))"
  using hash_add_refines_map [OF hash_example_inv, of "\<lambda>_. True" "''dm''" "Some 3"] by auto

text \<open>
  Deleting a key removes exactly that binding: \<open>hash_del\<close> returns 0 iff the key was bound and
  \<open>-ENOENT\<close> otherwise, passes the removed value to \<open>free_value\<close> once, keeps the table well formed
  through the shrinking of the bucket, and later lookups differ only at that key.
\<close>

theorem hash_del_removes:
  assumes "hash_inv h"
  shows "\<exists>h'. hash_del alloc h k = Some (if hash_map h k = None then Inl ENOENT else Inr (), h', freed h k)
    \<and> hash_inv h' \<and> hash_map h' = (hash_map h)(k := None)
    \<and> (\<forall>j. hash_find h' j = (if j = k then Some None else hash_find h j))"
  using hash_del_spec [OF assms, of alloc k] hd.find_after_del [OF assms, of alloc k] by blast

theorem hash_del_removes_witness:
  "\<exists>h'. hash_del (\<lambda>_. True) hash_example ''dm'' = Some (Inl ENOENT, h', []) \<and> hash_inv h'"
proof -
  have "hash_map hash_example ''dm'' = None"
    using hash_pos_less [OF hash_example_inv(1), of "''dm''"]
    by (auto simp: hash_map_def hash_example_def less_Suc_eq bucket_list_def entries_map_def)
  then show ?thesis using hash_del_removes [OF hash_example_inv(1), of "\<lambda>_. True" "''dm''"] by (auto simp: freed_def)
qed

text \<open>
  Iterating a table from \<open>hash_iter_init\<close> until \<open>hash_iter_next\<close> returns false visits every
  binding of the table exactly once and then stops: with more than \<open>hash_get_count\<close> calls the loop
  ends, the visited keys are distinct, there are \<open>hash_get_count\<close> of them, and as an association
  list they are the contents of the table.
\<close>

theorem hash_iter_visits_all:
  assumes "hash_inv h" and "unat (hash_get_count h) < n"
  shows "\<exists>kvs. hash_iter_run n h hash_iter_init = Some kvs \<and> distinct (map fst kvs)
    \<and> length kvs = unat (hash_get_count h) \<and> map_of kvs = hash_map h"
  using hash_iter_all [of h n] hash_entries_map [OF assms(1)] assms by (simp add: hash_get_count_def)

theorem hash_iter_visits_all_witness:
  "hash_iter_run 1 hash_example hash_iter_init = Some []"
  using hash_iter_visits_all [OF hash_example_inv(1), of 1]
  by (auto simp: hash_get_count_def hash_example_def)

end
