(* ===== verification/Kmod_List.thy ===== *)
theory Kmod_List
  imports Kmod_Prelude
begin

text \<open>
  \<open>libkmod/libkmod-list.c\<close>: the circular doubly linked lists that every libkmod interface returns.
  The heap is explicit: a map from addresses to nodes, so that aliasing, freed nodes and the links
  in both directions are part of the model; reading or writing an address outside the heap is
  undefined. \<open>malloc\<close> is an argument, the address it returns or None. \<open>node\<close> and \<open>kmod_list\<close>
  are one record, since \<open>container_of\<close> only shifts the pointer by a constant.
\<close>

type_synonym addr = nat

record 'a list_node =
  ln_next :: "addr option"
  ln_prev :: "addr option"
  kl_data :: 'a

type_synonym 'a heap = "addr \<Rightarrow> 'a list_node option"

section \<open>Access to the heap\<close>

definition nxt :: "'a heap \<Rightarrow> addr \<Rightarrow> addr option" where
  "nxt h a = Option.bind (h a) ln_next"

definition prv :: "'a heap \<Rightarrow> addr \<Rightarrow> addr option" where
  "prv h a = Option.bind (h a) ln_prev"

definition dat :: "'a heap \<Rightarrow> addr \<Rightarrow> 'a option" where
  "dat h a = map_option kl_data (h a)"

definition set_next :: "'a heap \<Rightarrow> addr \<Rightarrow> addr \<Rightarrow> 'a heap option" where
  "set_next h a b = map_option (\<lambda>n. h(a \<mapsto> n\<lparr>ln_next := Some b\<rparr>)) (h a)"

definition set_prev :: "'a heap \<Rightarrow> addr \<Rightarrow> addr \<Rightarrow> 'a heap option" where
  "set_prev h a b = map_option (\<lambda>n. h(a \<mapsto> n\<lparr>ln_prev := Some b\<rparr>)) (h a)"

text \<open>\<open>malloc\<close> of a node followed by the store of its data; the links are still uninitialised.\<close>

definition new_node :: "'a heap \<Rightarrow> addr \<Rightarrow> 'a \<Rightarrow> 'a heap" where
  "new_node h n d = h(n \<mapsto> \<lparr>ln_next = None, ln_prev = None, kl_data = d\<rparr>)"

definition free_node :: "'a heap \<Rightarrow> addr \<Rightarrow> 'a heap option" where
  "free_node h a = (case h a of None \<Rightarrow> None | Some _ \<Rightarrow> Some (h(a := None)))"

section \<open>Operations on nodes\<close>

definition list_node_init :: "'a heap \<Rightarrow> addr \<Rightarrow> 'a heap option" where
  "list_node_init h node = do { h \<leftarrow> set_next h node node; set_prev h node node }"

definition list_node_append :: "'a heap \<Rightarrow> addr option \<Rightarrow> addr \<Rightarrow> 'a heap option" where
  "list_node_append h list node =
     (case list of
        None \<Rightarrow> list_node_init h node
      | Some l \<Rightarrow>
          do { p \<leftarrow> prv h l;
               h \<leftarrow> set_prev h node p;
               p \<leftarrow> prv h l;
               h \<leftarrow> set_next h p node;
               h \<leftarrow> set_prev h l node;
               set_next h node l })"

definition list_node_remove :: "'a heap \<Rightarrow> addr \<Rightarrow> (addr option \<times> 'a heap) option" where
  "list_node_remove h node =
     do { p \<leftarrow> prv h node;
          n \<leftarrow> nxt h node;
          if p = node \<or> n = node then Some (None, h)
          else
            do { h \<leftarrow> set_next h p n;
                 n \<leftarrow> nxt h node;
                 p \<leftarrow> prv h node;
                 h \<leftarrow> set_prev h n p;
                 n \<leftarrow> nxt h node;
                 Some (Some n, h) } }"

definition list_node_insert_after :: "'a heap \<Rightarrow> addr option \<Rightarrow> addr \<Rightarrow> 'a heap option" where
  "list_node_insert_after h list node =
     (case list of
        None \<Rightarrow> list_node_init h node
      | Some l \<Rightarrow>
          do { h \<leftarrow> set_prev h node l;
               n \<leftarrow> nxt h l;
               h \<leftarrow> set_next h node n;
               n \<leftarrow> nxt h l;
               h \<leftarrow> set_prev h n node;
               set_next h l node })"

definition list_node_insert_before :: "'a heap \<Rightarrow> addr option \<Rightarrow> addr \<Rightarrow> 'a heap option" where
  "list_node_insert_before h list node =
     (case list of
        None \<Rightarrow> list_node_init h node
      | Some l \<Rightarrow>
          do { h \<leftarrow> set_next h node l;
               p \<leftarrow> prv h l;
               h \<leftarrow> set_prev h node p;
               p \<leftarrow> prv h l;
               h \<leftarrow> set_next h p node;
               set_prev h l node })"

definition list_node_append_list :: "'a heap \<Rightarrow> addr option \<Rightarrow> addr \<Rightarrow> 'a heap option" where
  "list_node_append_list h list1 list2 =
     (case list1 of
        None \<Rightarrow> list_node_init h list2
      | Some l1 \<Rightarrow>
          do { p1 \<leftarrow> prv h l1;
               h \<leftarrow> set_next h p1 list2;
               p2 \<leftarrow> prv h list2;
               h \<leftarrow> set_next h p2 l1;
               list1_last \<leftarrow> prv h l1;
               p2 \<leftarrow> prv h list2;
               h \<leftarrow> set_prev h l1 p2;
               set_prev h list2 list1_last })"

section \<open>The list interface\<close>

definition kmod_list_append :: "addr option \<Rightarrow> 'a heap \<Rightarrow> addr option \<Rightarrow> 'a \<Rightarrow> (addr option \<times> 'a heap) option" where
  "kmod_list_append new h list data =
     (case new of
        None \<Rightarrow> Some (None, h)
      | Some n \<Rightarrow>
          do { h \<leftarrow> list_node_append (new_node h n data) list n;
               Some (if list \<noteq> None then list else Some n, h) })"

definition kmod_list_insert_after :: "addr option \<Rightarrow> 'a heap \<Rightarrow> addr option \<Rightarrow> 'a \<Rightarrow> (addr option \<times> 'a heap) option" where
  "kmod_list_insert_after new h list data =
     (if list = None then kmod_list_append new h list data
      else
        (case new of
           None \<Rightarrow> Some (None, h)
         | Some n \<Rightarrow>
             do { h \<leftarrow> list_node_insert_after (new_node h n data) list n;
                  Some (list, h) }))"

definition kmod_list_insert_before :: "addr option \<Rightarrow> 'a heap \<Rightarrow> addr option \<Rightarrow> 'a \<Rightarrow> (addr option \<times> 'a heap) option" where
  "kmod_list_insert_before new h list data =
     (if list = None then kmod_list_append new h list data
      else
        (case new of
           None \<Rightarrow> Some (None, h)
         | Some n \<Rightarrow>
             do { h \<leftarrow> list_node_insert_before (new_node h n data) list n;
                  Some (Some n, h) }))"

definition kmod_list_append_list :: "'a heap \<Rightarrow> addr option \<Rightarrow> addr option \<Rightarrow> (addr option \<times> 'a heap) option" where
  "kmod_list_append_list h list1 list2 =
     (if list1 = None then Some (list2, h)
      else
        (case list2 of
           None \<Rightarrow> Some (list1, h)
         | Some l2 \<Rightarrow>
             do { h \<leftarrow> list_node_append_list h list1 l2;
                  Some (list1, h) }))"

definition kmod_list_prepend :: "addr option \<Rightarrow> 'a heap \<Rightarrow> addr option \<Rightarrow> 'a \<Rightarrow> (addr option \<times> 'a heap) option" where
  "kmod_list_prepend new h list data =
     (case new of
        None \<Rightarrow> Some (None, h)
      | Some n \<Rightarrow>
          do { h \<leftarrow> list_node_append (new_node h n data) list n;
               Some (Some n, h) })"

definition kmod_list_remove :: "'a heap \<Rightarrow> addr option \<Rightarrow> (addr option \<times> 'a heap) option" where
  "kmod_list_remove h list =
     (case list of
        None \<Rightarrow> Some (None, h)
      | Some l \<Rightarrow>
          do { (node, h) \<leftarrow> list_node_remove h l;
               h \<leftarrow> free_node h l;
               Some (node, h) })"

definition kmod_list_prev :: "'a heap \<Rightarrow> addr option \<Rightarrow> addr option \<Rightarrow> addr option option" where
  "kmod_list_prev h list cur =
     (case cur of
        None \<Rightarrow> Some None
      | Some c \<Rightarrow>
          if list = None then Some None
          else if list = cur then Some None
          else map_option Some (prv h c))"

definition kmod_list_next :: "'a heap \<Rightarrow> addr option \<Rightarrow> addr option \<Rightarrow> addr option option" where
  "kmod_list_next h list cur =
     (case cur of
        None \<Rightarrow> Some None
      | Some c \<Rightarrow>
          if list = None then Some None
          else do { n \<leftarrow> nxt h c; Some (if Some n = list then None else Some n) })"

definition kmod_list_last :: "'a heap \<Rightarrow> addr option \<Rightarrow> addr option option" where
  "kmod_list_last h list =
     (case list of None \<Rightarrow> Some None | Some l \<Rightarrow> map_option Some (prv h l))"

text \<open>The loops \<open>for (itr = list; itr != NULL; itr = kmod_list_next(list, itr))\<close>: searching and collecting.\<close>

partial_function (option) find_data :: "'a heap \<Rightarrow> addr option \<Rightarrow> 'a \<Rightarrow> addr option \<Rightarrow> addr option option" where
  "find_data h list data itr =
     (case itr of
        None \<Rightarrow> Some None
      | Some i \<Rightarrow>
          do { d \<leftarrow> dat h i;
               if d = data then Some itr
               else do { n \<leftarrow> kmod_list_next h list itr; find_data h list data n } })"

partial_function (option) kmod_list_foreach :: "'a heap \<Rightarrow> addr option \<Rightarrow> addr option \<Rightarrow> 'a list option" where
  "kmod_list_foreach h list cur =
     (case cur of
        None \<Rightarrow> Some []
      | Some c \<Rightarrow>
          do { d \<leftarrow> dat h c;
               n \<leftarrow> kmod_list_next h list cur;
               ds \<leftarrow> kmod_list_foreach h list n;
               Some (d # ds) })"

partial_function (option) foreach_reverse :: "'a heap \<Rightarrow> addr option \<Rightarrow> addr option \<Rightarrow> 'a list option" where
  "foreach_reverse h list cur =
     (case cur of
        None \<Rightarrow> Some []
      | Some c \<Rightarrow>
          do { d \<leftarrow> dat h c;
               n \<leftarrow> kmod_list_prev h list cur;
               ds \<leftarrow> foreach_reverse h list n;
               Some (d # ds) })"

definition kmod_list_foreach_reverse :: "'a heap \<Rightarrow> addr option \<Rightarrow> 'a list option" where
  "kmod_list_foreach_reverse h list = do { l \<leftarrow> kmod_list_last h list; foreach_reverse h list l }"

definition kmod_list_remove_data :: "'a heap \<Rightarrow> addr option \<Rightarrow> 'a \<Rightarrow> (addr option \<times> 'a heap) option" where
  "kmod_list_remove_data h list data =
     do { itr \<leftarrow> find_data h list data list;
          case itr of
            None \<Rightarrow> Some (list, h)
          | Some i \<Rightarrow>
              do { (node, h) \<leftarrow> list_node_remove h i;
                   h \<leftarrow> free_node h i;
                   Some (node, h) } }"

section \<open>Rings\<close>

text \<open>
  A path is a chain of mutual links; a ring is a non-empty list of distinct nodes whose path closes
  on its head. A \<open>kmod_list\<close> pointer represents the list of nodes it heads.
\<close>

fun path :: "(addr \<Rightarrow> addr option) \<Rightarrow> (addr \<Rightarrow> addr option) \<Rightarrow> addr list \<Rightarrow> bool" where
  "path N P (a # b # xs) = (N a = Some b \<and> P b = Some a \<and> path N P (b # xs))"
| "path N P xs = True"

definition ring :: "'a heap \<Rightarrow> addr list \<Rightarrow> bool" where
  "ring h xs \<longleftrightarrow> xs \<noteq> [] \<and> distinct xs \<and> path (nxt h) (prv h) (xs @ [hd xs])"

definition heads :: "'a heap \<Rightarrow> addr option \<Rightarrow> addr list \<Rightarrow> bool" where
  "heads h p xs \<longleftrightarrow> (case p of None \<Rightarrow> xs = [] | Some a \<Rightarrow> ring h xs \<and> hd xs = a)"

definition data_of :: "'a heap \<Rightarrow> addr list \<Rightarrow> 'a list" where
  "data_of h xs = map (\<lambda>a. the (dat h a)) xs"

lemma path_append: "path N P (xs @ y # ys) \<longleftrightarrow> path N P (xs @ [y]) \<and> path N P (y # ys)"
  by (induction N P xs rule: path.induct) (auto simp: neq_Nil_conv dest: sym)

lemma path_cong:
  "\<forall>a \<in> set (butlast xs). N a = N' a \<Longrightarrow> \<forall>a \<in> set (tl xs). P a = P' a \<Longrightarrow> path N P xs = path N' P' xs"
  by (induction N P xs rule: path.induct) (auto split: if_splits)

lemma ring_snoc:
  "ring h (ys @ [l]) \<longleftrightarrow> distinct (ys @ [l]) \<and> path (nxt h) (prv h) (ys @ [l])
     \<and> nxt h l = Some (hd (ys @ [l])) \<and> prv h (hd (ys @ [l])) = Some l"
  using path_append [of "nxt h" "prv h" ys l "[hd (ys @ [l])]"] by (auto simp: ring_def)

lemma ring_rotate: "ring h (xs @ ys) \<Longrightarrow> ring h (ys @ xs)"
proof (cases "xs = [] \<or> ys = []")
  case False
  then obtain x xs' y ys' where [simp]: "xs = x # xs'" "ys = y # ys'" by (meson neq_Nil_conv)
  assume "ring h (xs @ ys)"
  then have d: "distinct (xs @ ys)" and "path (nxt h) (prv h) (xs @ y # ys' @ [x])" by (auto simp: ring_def)
  then have "path (nxt h) (prv h) (xs @ [y])" "path (nxt h) (prv h) (ys @ [x])"
    by (subst (asm) path_append, simp)+
  then have "path (nxt h) (prv h) (ys @ x # xs' @ [y])" by (subst path_append) simp
  then show ?thesis using d by (auto simp: ring_def)
qed auto

lemma heap_upd [simp]:
  "nxt (h(a \<mapsto> n)) = (nxt h)(a := ln_next n)" "prv (h(a \<mapsto> n)) = (prv h)(a := ln_prev n)"
  "dat (h(a \<mapsto> n)) = (dat h)(a \<mapsto> kl_data n)"
  by (auto simp: nxt_def prv_def dat_def fun_eq_iff)

lemma set_next_spec:
  "dat h a \<noteq> None \<Longrightarrow> \<exists>h'. set_next h a b = Some h' \<and> nxt h' = (nxt h)(a \<mapsto> b) \<and> prv h' = prv h
     \<and> dat h' = dat h \<and> (\<forall>x. x \<noteq> a \<longrightarrow> h' x = h x)"
  by (cases "h a") (auto simp: set_next_def fun_upd_idem_iff prv_def dat_def)

lemma set_prev_spec:
  "dat h a \<noteq> None \<Longrightarrow> \<exists>h'. set_prev h a b = Some h' \<and> nxt h' = nxt h \<and> prv h' = (prv h)(a \<mapsto> b)
     \<and> dat h' = dat h \<and> (\<forall>x. x \<noteq> a \<longrightarrow> h' x = h x)"
  by (cases "h a") (auto simp: set_prev_def fun_upd_idem_iff nxt_def dat_def)

lemma new_node_spec:
  "nxt (new_node h n d) = (nxt h)(n := None)" "prv (new_node h n d) = (prv h)(n := None)"
  "dat (new_node h n d) = (dat h)(n \<mapsto> d)"
  by (auto simp: new_node_def nxt_def prv_def dat_def fun_eq_iff)

lemma nxt_dat: "nxt h a = Some b \<Longrightarrow> dat h a \<noteq> None"
  by (auto simp: nxt_def dat_def bind_eq_Some_conv)

lemma path_nxt: "path N P xs \<Longrightarrow> a \<in> set (butlast xs) \<Longrightarrow> N a \<noteq> None"
  by (induction N P xs rule: path.induct) (auto split: if_splits)

lemma ring_dat: "ring h xs \<Longrightarrow> a \<in> set xs \<Longrightarrow> dat h a \<noteq> None"
  using path_nxt [of "nxt h" "prv h" "xs @ [hd xs]" a] nxt_dat [of h a] by (auto simp: ring_def butlast_append)

lemma ring_new_node:
  assumes "ring h xs" and "h n = None"
  shows "ring (new_node h n d) xs" "n \<notin> set xs"
proof -
  show n: "n \<notin> set xs" using ring_dat [OF assms(1), of n] assms(2) by (auto simp: dat_def)
  have "path (nxt h) (prv h) (xs @ [hd xs]) = path (nxt (new_node h n d)) (prv (new_node h n d)) (xs @ [hd xs])"
    using n assms(1) by (intro path_cong) (auto simp: new_node_spec ring_def butlast_append dest: list.set_sel(2))
  then show "ring (new_node h n d) xs" using assms(1) by (simp add: ring_def)
qed

section \<open>Operations on rings\<close>

text \<open>Only the two nodes next to the insertion point and the new node change.\<close>

lemma list_node_append_ring:
  assumes r: "ring h (x # xs)" and n: "n \<notin> set (x # xs)" "dat h n \<noteq> None"
  shows "\<exists>h'. list_node_append h (Some x) n = Some h' \<and> ring h' (x # xs @ [n]) \<and> dat h' = dat h
    \<and> (\<forall>a. a \<notin> set (x # xs) \<longrightarrow> a \<noteq> n \<longrightarrow> h' a = h a)"
proof -
  obtain ys l where yl: "x # xs = ys @ [l]" by (metis neq_Nil_conv rev_exhaust)
  have l: "l \<in> set (x # xs)" "hd (ys @ [l]) = x" using yl by (metis in_set_conv_decomp, metis list.sel(1))
  have R: "distinct (ys @ [l])" "path (nxt h) (prv h) (ys @ [l])" "nxt h l = Some x" "prv h x = Some l"
    using r unfolding yl ring_snoc l(2) by auto
  obtain h1 where h1: "set_prev h n l = Some h1" "nxt h1 = nxt h" "prv h1 = (prv h)(n \<mapsto> l)" "dat h1 = dat h"
    "\<forall>a. a \<noteq> n \<longrightarrow> h1 a = h a" using set_prev_spec [OF n(2)] by blast
  have "dat h1 l \<noteq> None" using ring_dat [OF r l(1)] h1(4) by simp
  then obtain h2 where h2: "set_next h1 l n = Some h2" "nxt h2 = (nxt h1)(l \<mapsto> n)" "prv h2 = prv h1" "dat h2 = dat h"
    "\<forall>a. a \<noteq> l \<longrightarrow> h2 a = h1 a" using set_next_spec [of h1 l n] h1(4) by auto
  have "dat h2 x \<noteq> None" using ring_dat [OF r, of x] h2(4) by simp
  then obtain h3 where h3: "set_prev h2 x n = Some h3" "nxt h3 = nxt h2" "prv h3 = (prv h2)(x \<mapsto> n)" "dat h3 = dat h"
    "\<forall>a. a \<noteq> x \<longrightarrow> h3 a = h2 a" using set_prev_spec [of h2 x n] h2(4) by auto
  obtain h4 where h4: "set_next h3 n x = Some h4" "nxt h4 = (nxt h3)(n \<mapsto> x)" "prv h4 = prv h3" "dat h4 = dat h"
    "\<forall>a. a \<noteq> n \<longrightarrow> h4 a = h3 a" using set_next_spec [of h3 n x] h3(4) n(2) by auto
  have nx: "n \<noteq> x" "n \<noteq> l" using n(1) l(1) by auto
  have op: "list_node_append h (Some x) n = Some h4"
    using h1(1,3) h2(1) h3(1) h4(1) R(4) nx by (simp add: list_node_append_def)
  have "path (nxt h) (prv h) (ys @ [l]) = path (nxt h4) (prv h4) (ys @ [l])"
  proof (rule path_cong)
    show "\<forall>a \<in> set (butlast (ys @ [l])). nxt h a = nxt h4 a"
      using R(1) n(1) unfolding yl by (auto simp: h1 h2 h3 h4)
    have "tl (ys @ [l]) = xs" using yl by (metis list.sel(3))
    then show "\<forall>a \<in> set (tl (ys @ [l])). prv h a = prv h4 a"
      using r n(1) by (auto simp: h1 h2 h3 h4 ring_def)
  qed
  then have "path (nxt h4) (prv h4) ((ys @ [l]) @ [n])"
    using R(2) path_append [of "nxt h4" "prv h4" ys l "[n]"] nx by (simp add: h1 h2 h3 h4)
  moreover have "hd ((ys @ [l]) @ [n]) = x" using l(2) by (auto simp: hd_append split: if_splits)
  ultimately have "ring h4 ((ys @ [l]) @ [n])"
    unfolding ring_snoc using R(1) n(1) nx yl by (auto simp: h1 h2 h3 h4)
  then have "ring h4 (x # xs @ [n])" using yl by (metis append_Cons)
  moreover have "h4 a = h a" if "a \<notin> set (x # xs)" "a \<noteq> n" for a
    using that h1(5) h2(5) h3(5) h4(5) l(1) by auto
  ultimately show ?thesis using op h4(4) by blast
qed

lemma list_node_init_ring:
  assumes "dat h n \<noteq> None"
  shows "\<exists>h'. list_node_init h n = Some h' \<and> ring h' [n] \<and> dat h' = dat h \<and> (\<forall>a. a \<noteq> n \<longrightarrow> h' a = h a)"
proof -
  obtain h1 where h1: "set_next h n n = Some h1" "nxt h1 = (nxt h)(n \<mapsto> n)" "dat h1 = dat h"
    "\<forall>a. a \<noteq> n \<longrightarrow> h1 a = h a" using set_next_spec [OF assms] by blast
  obtain h2 where "set_prev h1 n n = Some h2" "nxt h2 = nxt h1" "prv h2 = (prv h1)(n \<mapsto> n)" "dat h2 = dat h"
    "\<forall>a. a \<noteq> n \<longrightarrow> h2 a = h1 a" using set_prev_spec [of h1 n n] assms h1(3) by auto
  then show ?thesis using h1 by (auto simp: list_node_init_def ring_def)
qed

lemma list_node_insert_after_ring:
  assumes r: "ring h (x # xs)" and n: "n \<notin> set (x # xs)" "dat h n \<noteq> None"
  shows "\<exists>h'. list_node_insert_after h (Some x) n = Some h' \<and> ring h' (x # n # xs) \<and> dat h' = dat h
    \<and> (\<forall>a. a \<notin> set (x # xs) \<longrightarrow> a \<noteq> n \<longrightarrow> h' a = h a)"
proof -
  define y where "y = hd (xs @ [x])"
  have y: "y \<in> set (x # xs)" by (cases xs) (auto simp: y_def)
  obtain zs where zs: "xs @ [x] = y # zs" by (cases xs) (auto simp: y_def)
  have P: "nxt h x = Some y" "prv h y = Some x" "path (nxt h) (prv h) (xs @ [x])" "distinct (x # xs)"
    using r zs by (auto simp: ring_def)
  obtain h1 where h1: "set_prev h n x = Some h1" "nxt h1 = nxt h" "prv h1 = (prv h)(n \<mapsto> x)" "dat h1 = dat h"
    "\<forall>a. a \<noteq> n \<longrightarrow> h1 a = h a" using set_prev_spec [OF n(2)] by blast
  obtain h2 where h2: "set_next h1 n y = Some h2" "nxt h2 = (nxt h1)(n \<mapsto> y)" "prv h2 = prv h1" "dat h2 = dat h"
    "\<forall>a. a \<noteq> n \<longrightarrow> h2 a = h1 a" using set_next_spec [of h1 n y] h1(4) n(2) by auto
  have "dat h2 y \<noteq> None" using ring_dat [OF r y] h2(4) by simp
  then obtain h3 where h3: "set_prev h2 y n = Some h3" "nxt h3 = nxt h2" "prv h3 = (prv h2)(y \<mapsto> n)" "dat h3 = dat h"
    "\<forall>a. a \<noteq> y \<longrightarrow> h3 a = h2 a" using set_prev_spec [of h2 y n] h2(4) by auto
  have "dat h3 x \<noteq> None" using ring_dat [OF r, of x] h3(4) by simp
  then obtain h4 where h4: "set_next h3 x n = Some h4" "nxt h4 = (nxt h3)(x \<mapsto> n)" "prv h4 = prv h3" "dat h4 = dat h"
    "\<forall>a. a \<noteq> x \<longrightarrow> h4 a = h3 a" using set_next_spec [of h3 x n] h3(4) by auto
  have nx: "n \<noteq> x" "n \<noteq> y" using n(1) y by auto
  have op: "list_node_insert_after h (Some x) n = Some h4"
    using h1(1,2) h2(1,2) h3(1) h4(1) P(1) nx by (simp add: list_node_insert_after_def)
  have "distinct (xs @ [x])" using P(4) by auto
  then have d: "y \<notin> set zs" unfolding zs by simp
  have "path (nxt h) (prv h) (y # zs) = path (nxt h4) (prv h4) (y # zs)"
  proof (rule path_cong)
    have "butlast (y # zs) = xs" using zs by (metis butlast_snoc)
    then show "\<forall>a \<in> set (butlast (y # zs)). nxt h a = nxt h4 a"
      using P(4) n(1) by (auto simp: h1 h2 h3 h4)
    have "n \<notin> set zs" using n(1) zs by (metis list.set_intros(2) rotate1.simps(2) set_rotate1)
    then show "\<forall>a \<in> set (tl (y # zs)). prv h a = prv h4 a" using d by (auto simp: h1 h2 h3 h4)
  qed
  then have "path (nxt h4) (prv h4) (x # n # xs @ [x])"
    using P zs nx by (simp add: h1 h2 h3 h4)
  then have "ring h4 (x # n # xs)" using P(4) n(1) by (auto simp: ring_def)
  moreover have "h4 a = h a" if "a \<notin> set (x # xs)" "a \<noteq> n" for a
    using that h1(5) h2(5) h3(5) h4(5) y by auto
  ultimately show ?thesis using op h4(4) by blast
qed

lemma node_upd_commute: "n\<lparr>ln_next := a, ln_prev := b\<rparr> = n\<lparr>ln_prev := b, ln_next := a\<rparr>"
  by (cases n) simp

text \<open>\<open>list_node_insert_before\<close> makes the same links as \<open>list_node_append\<close>, in another order.\<close>

lemma list_node_insert_before_append:
  assumes r: "ring h (x # xs)" and n: "n \<notin> set (x # xs)" "dat h n \<noteq> None"
  shows "list_node_insert_before h (Some x) n = list_node_append h (Some x) n"
proof -
  obtain l where l: "prv h x = Some l" "l \<in> set (x # xs)"
  proof -
    obtain ys l where yl: "x # xs = ys @ [l]" by (metis neq_Nil_conv rev_exhaust)
    moreover have "hd (ys @ [l]) = x" using yl by (metis list.sel(1))
    ultimately show thesis using r that [of l] unfolding yl ring_snoc by auto
  qed
  obtain nn where nn: "h n = Some nn" using n(2) by (auto simp: dat_def)
  obtain xn where xn: "h x = Some xn" using ring_dat [OF r, of x] by (auto simp: dat_def)
  obtain ln where ln: "h l = Some ln" using ring_dat [OF r l(2)] by (auto simp: dat_def)
  have ne: "n \<noteq> x" "n \<noteq> l" "x \<noteq> n" "l \<noteq> n" using n(1) l(2) by auto
  have "ln_prev xn = Some l" using l(1) xn by (simp add: prv_def)
  then show ?thesis using nn xn ln ne l(1)
    by (cases "l = x")
      (simp_all add: list_node_insert_before_def list_node_append_def set_prev_def set_next_def fun_upd_twist prv_def
        node_upd_commute)
qed

lemma list_node_append_list_ring:
  assumes r1: "ring h (x # xs)" and r2: "ring h (y # ys)" and dis: "set (x # xs) \<inter> set (y # ys) = {}"
  shows "\<exists>h'. list_node_append_list h (Some x) y = Some h' \<and> ring h' (x # xs @ y # ys) \<and> dat h' = dat h
    \<and> (\<forall>a. a \<notin> set (x # xs) \<union> set (y # ys) \<longrightarrow> h' a = h a)"
proof -
  obtain us l where ul: "x # xs = us @ [l]" by (metis neq_Nil_conv rev_exhaust)
  obtain vs m where vm: "y # ys = vs @ [m]" by (metis neq_Nil_conv rev_exhaust)
  have hdx: "hd (us @ [l]) = x" and hdy: "hd (vs @ [m]) = y" using ul vm by (metis list.sel(1))+
  have lm: "l \<in> set (x # xs)" "m \<in> set (y # ys)" unfolding ul vm by auto
  have R1: "distinct (us @ [l])" "path (nxt h) (prv h) (us @ [l])" "prv h x = Some l"
    using r1 unfolding ul ring_snoc hdx by auto
  have R2: "distinct (vs @ [m])" "path (nxt h) (prv h) (vs @ [m])" "prv h y = Some m"
    using r2 unfolding vm ring_snoc hdy by auto
  obtain h1 where h1: "set_next h l y = Some h1" "nxt h1 = (nxt h)(l \<mapsto> y)" "prv h1 = prv h" "dat h1 = dat h"
    "\<forall>a. a \<noteq> l \<longrightarrow> h1 a = h a" using set_next_spec [OF ring_dat [OF r1 lm(1)]] by blast
  obtain h2 where h2: "set_next h1 m x = Some h2" "nxt h2 = (nxt h1)(m \<mapsto> x)" "prv h2 = prv h" "dat h2 = dat h"
    "\<forall>a. a \<noteq> m \<longrightarrow> h2 a = h1 a" using set_next_spec [of h1 m x] ring_dat [OF r2 lm(2)] h1 by auto
  obtain h3 where h3: "set_prev h2 x m = Some h3" "nxt h3 = nxt h2" "prv h3 = (prv h2)(x \<mapsto> m)" "dat h3 = dat h"
    "\<forall>a. a \<noteq> x \<longrightarrow> h3 a = h2 a" using set_prev_spec [of h2 x m] ring_dat [OF r1, of x] h2 by auto
  obtain h4 where h4: "set_prev h3 y l = Some h4" "nxt h4 = nxt h3" "prv h4 = (prv h3)(y \<mapsto> l)" "dat h4 = dat h"
    "\<forall>a. a \<noteq> y \<longrightarrow> h4 a = h3 a" using set_prev_spec [of h3 y l] ring_dat [OF r2, of y] h3 by auto
  have op: "list_node_append_list h (Some x) y = Some h4"
    using h1(1,3) h2(1,3) h3(1) h4(1) R1(3) R2(3) by (simp add: list_node_append_list_def)
  have tls: "tl (us @ [l]) = xs" "tl (vs @ [m]) = ys" using ul vm by (metis list.sel(3))+
  have dxy: "x \<notin> set xs" "y \<notin> set ys" using r1 r2 by (auto simp: ring_def)
  have su: "set us \<subseteq> set (x # xs)" "set vs \<subseteq> set (y # ys)" unfolding ul vm by auto
  have nN: "nxt h4 = (nxt h)(l \<mapsto> y, m \<mapsto> x)" and nP: "prv h4 = (prv h)(x \<mapsto> m, y \<mapsto> l)"
    by (simp_all add: h1 h2 h3 h4)
  have "path (nxt h) (prv h) (us @ [l]) = path (nxt h4) (prv h4) (us @ [l])"
  proof (rule path_cong)
    show "\<forall>a \<in> set (butlast (us @ [l])). nxt h a = nxt h4 a"
      using R1(1) lm su dis by (auto simp: nN)
    show "\<forall>a \<in> set (tl (us @ [l])). prv h a = prv h4 a" unfolding tls using dxy dis by (auto simp: nP)
  qed
  moreover have "path (nxt h) (prv h) (vs @ [m]) = path (nxt h4) (prv h4) (vs @ [m])"
  proof (rule path_cong)
    show "\<forall>a \<in> set (butlast (vs @ [m])). nxt h a = nxt h4 a"
      using R2(1) lm su dis by (auto simp: nN)
    show "\<forall>a \<in> set (tl (vs @ [m])). prv h a = prv h4 a" unfolding tls using dxy dis by (auto simp: nP)
  qed
  moreover have "nxt h4 l = Some y" "prv h4 y = Some l" "nxt h4 m = Some x" "prv h4 x = Some m"
    using lm dis by (auto simp: nN nP)
  ultimately have p: "path (nxt h4) (prv h4) (us @ l # y # [])" "path (nxt h4) (prv h4) (vs @ m # x # [])"
    using R1(2) R2(2) path_append [of _ _ us l "[y]"] path_append [of _ _ vs m "[x]"] by auto
  have "us @ l # y # [] = (x # xs) @ [y]" "vs @ m # x # [] = y # ys @ [x]" using ul vm by simp_all
  then have "path (nxt h4) (prv h4) ((x # xs) @ [y])" "path (nxt h4) (prv h4) (y # ys @ [x])"
    using p by metis+
  then have "path (nxt h4) (prv h4) ((x # xs) @ y # (ys @ [x]))"
    by (subst path_append) simp
  then have "ring h4 (x # xs @ y # ys)" using r1 r2 dis by (auto simp: ring_def)
  moreover have "h4 a = h a" if a: "a \<notin> set (x # xs) \<union> set (y # ys)" for a
  proof -
    have "a \<noteq> l" "a \<noteq> m" "a \<noteq> x" "a \<noteq> y" using a lm by auto
    then show ?thesis using h1(5) h2(5) h3(5) h4(5) by simp
  qed
  ultimately show ?thesis using op h4(4) by blast
qed

lemma list_node_remove_ring:
  assumes r: "ring h (x # xs)"
  shows "\<exists>h'. list_node_remove h x = Some (if xs = [] then None else Some (hd xs), h')
    \<and> (xs \<noteq> [] \<longrightarrow> ring h' xs) \<and> dat h' = dat h \<and> (\<forall>a. a \<notin> set xs \<longrightarrow> h' a = h a)"
proof (cases "xs = []")
  case True
  then show ?thesis using r by (auto simp: list_node_remove_def ring_def)
next
  case False
  then obtain ys l where yl: "xs = ys @ [l]" by (metis rev_exhaust)
  define b where "b = hd xs"
  obtain zs where zs: "xs = b # zs" using False by (cases xs) (auto simp: b_def)
  have l: "l \<in> set xs" and bx: "b \<in> set xs" by (simp add: yl, simp add: zs)
  have d: "distinct (x # xs)" using r by (simp add: ring_def)
  have "path (nxt h) (prv h) (x # xs @ [x])" using r by (simp add: ring_def)
  then have P: "nxt h x = Some b" "prv h b = Some x" "path (nxt h) (prv h) (xs @ [x])" by (auto simp: zs)
  have Q: "path (nxt h) (prv h) xs" "prv h x = Some l"
    using P(3) path_append [of "nxt h" "prv h" ys l "[x]"] by (auto simp: yl)
  have ne: "l \<noteq> x" "b \<noteq> x" using d l bx by auto
  obtain h1 where h1: "set_next h l b = Some h1" "nxt h1 = (nxt h)(l \<mapsto> b)" "prv h1 = prv h" "dat h1 = dat h"
    "\<forall>a. a \<noteq> l \<longrightarrow> h1 a = h a" using set_next_spec [of h l b] ring_dat [OF r, of l] l by auto
  obtain h2 where h2: "set_prev h1 b l = Some h2" "nxt h2 = nxt h1" "prv h2 = (prv h1)(b \<mapsto> l)" "dat h2 = dat h"
    "\<forall>a. a \<noteq> b \<longrightarrow> h2 a = h1 a" using set_prev_spec [of h1 b l] ring_dat [OF r, of b] bx h1(4) by auto
  have op: "list_node_remove h x = Some (Some b, h2)"
    using P Q h1(1,2,3) h2(1,2) ne by (simp add: list_node_remove_def)
  have "path (nxt h) (prv h) xs = path (nxt h2) (prv h2) xs"
  proof (rule path_cong)
    show "\<forall>a \<in> set (butlast xs). nxt h a = nxt h2 a" using d yl by (auto simp: h1 h2)
    show "\<forall>a \<in> set (tl xs). prv h a = prv h2 a" using d zs by (auto simp: h1 h2)
  qed
  then have "ring h2 (ys @ [l])" unfolding ring_snoc
    using Q d by (auto simp: h1 h2 yl [symmetric] b_def)
  moreover have "h2 a = h a" if a: "a \<notin> set xs" for a
  proof -
    have "a \<noteq> l" "a \<noteq> b" using a l bx by auto
    then show ?thesis using h1(5) h2(5) by simp
  qed
  ultimately show ?thesis using op h2(4) False by (auto simp: yl b_def)
qed

lemma free_node_ring:
  assumes "ring h xs" and "a \<notin> set xs"
  shows "ring (h(a := None)) xs"
proof -
  have "path (nxt h) (prv h) (xs @ [hd xs]) = path (nxt (h(a := None))) (prv (h(a := None))) (xs @ [hd xs])"
    using assms by (intro path_cong) (auto simp: nxt_def prv_def ring_def butlast_append dest: list.set_sel(2))
  then show ?thesis using assms(1) by (simp add: ring_def)
qed

section \<open>The interface on represented lists\<close>

lemma heads_Some: "heads h (Some a) xs \<longleftrightarrow> (\<exists>ys. xs = a # ys \<and> ring h xs)"
  by (cases xs) (auto simp: heads_def ring_def)

lemma data_of_upd: "n \<notin> set xs \<Longrightarrow> map (\<lambda>a. the (((dat h)(n \<mapsto> d)) a)) xs = data_of h xs"
  by (auto simp: data_of_def)

lemma kmod_list_next_nth:
  assumes r: "ring h xs" and i: "i < length xs"
  shows "kmod_list_next h (Some (hd xs)) (Some (xs ! i)) = Some (if Suc i < length xs then Some (xs ! Suc i) else None)"
proof -
  have "xs = take i xs @ xs ! i # drop (Suc i) xs" using i by (rule id_take_nth_drop)
  then have "path (nxt h) (prv h) (take i xs @ xs ! i # (drop (Suc i) xs @ [hd xs]))"
    using r by (metis append_Cons append_assoc ring_def)
  then have "path (nxt h) (prv h) (xs ! i # (drop (Suc i) xs @ [hd xs]))"
    by (subst (asm) path_append) simp
  then have "nxt h (xs ! i) = Some (hd (drop (Suc i) xs @ [hd xs]))"
    by (cases "drop (Suc i) xs") auto
  moreover have "xs ! Suc i \<noteq> hd xs" if "Suc i < length xs"
    using r that by (auto simp: ring_def hd_conv_nth nth_eq_iff_index_eq)
  ultimately show ?thesis
    by (auto simp: kmod_list_next_def hd_append hd_drop_conv_nth)
qed

lemma kmod_list_prev_nth:
  assumes r: "ring h xs" and i: "i < length xs"
  shows "kmod_list_prev h (Some (hd xs)) (Some (xs ! i)) = Some (if i = 0 then None else Some (xs ! (i - 1)))"
proof (cases i)
  case 0
  then show ?thesis using r by (simp add: kmod_list_prev_def hd_conv_nth ring_def)
next
  case (Suc j)
  have "hd xs \<noteq> xs ! i" using r i Suc by (auto simp: ring_def hd_conv_nth nth_eq_iff_index_eq)
  have "xs = take j xs @ xs ! j # xs ! Suc j # drop (Suc (Suc j)) xs"
    using i Suc by (metis Cons_nth_drop_Suc Suc_lessD id_take_nth_drop)
  then have "path (nxt h) (prv h) (take j xs @ xs ! j # (xs ! Suc j # drop (Suc (Suc j)) xs @ [hd xs]))"
    using r by (metis append_Cons append_assoc ring_def)
  then have "prv h (xs ! Suc j) = Some (xs ! j)"
    by (subst (asm) path_append) simp
  then show ?thesis using \<open>hd xs \<noteq> xs ! i\<close> Suc by (simp add: kmod_list_prev_def)
qed

lemma foreach_from:
  assumes r: "ring h xs"
  shows "i < length xs \<Longrightarrow> kmod_list_foreach h (Some (hd xs)) (Some (xs ! i)) = Some (data_of h (drop i xs))"
proof (induction "length xs - i" arbitrary: i)
  case (Suc m)
  obtain d where d: "dat h (xs ! i) = Some d" using ring_dat [OF r, of "xs ! i"] Suc.prems by auto
  have dr: "drop i xs = xs ! i # drop (Suc i) xs" using Suc.prems by (simp add: Cons_nth_drop_Suc)
  show ?case
  proof (cases "Suc i < length xs")
    case True
    then show ?thesis
      using Suc.hyps(1)[of "Suc i"] Suc.hyps(2) d kmod_list_next_nth [OF r Suc.prems]
      by (subst kmod_list_foreach.simps) (simp add: dr data_of_def)
  next
    case False
    then show ?thesis
      using d kmod_list_next_nth [OF r Suc.prems]
      by (subst kmod_list_foreach.simps) (simp add: dr data_of_def kmod_list_foreach.simps)
  qed
qed simp

lemma foreach_reverse_from:
  assumes r: "ring h xs"
  shows "i < length xs \<Longrightarrow> foreach_reverse h (Some (hd xs)) (Some (xs ! i)) = Some (rev (data_of h (take (Suc i) xs)))"
proof (induction i)
  case 0
  obtain d where d: "dat h (xs ! 0) = Some d" using ring_dat [OF r, of "xs ! 0"] 0 by auto
  have "take 1 xs = [xs ! 0]" using 0 by (cases xs) auto
  then show ?case using d kmod_list_prev_nth [OF r 0]
    by (subst foreach_reverse.simps) (simp add: data_of_def foreach_reverse.simps)
next
  case (Suc i)
  obtain d where d: "dat h (xs ! Suc i) = Some d" using ring_dat [OF r, of "xs ! Suc i"] Suc.prems by auto
  show ?case
    using Suc d kmod_list_prev_nth [OF r Suc.prems]
    by (subst foreach_reverse.simps) (simp add: data_of_def take_Suc_conv_app_nth)
qed

lemma find_data_from:
  assumes r: "ring h xs"
  shows "i < length xs \<Longrightarrow> find_data h (Some (hd xs)) d (Some (xs ! i)) =
    Some (find (\<lambda>a. dat h a = Some d) (drop i xs))"
proof (induction "length xs - i" arbitrary: i)
  case (Suc m)
  obtain e where e: "dat h (xs ! i) = Some e" using ring_dat [OF r, of "xs ! i"] Suc.prems by auto
  have dr: "drop i xs = xs ! i # drop (Suc i) xs" using Suc.prems by (simp add: Cons_nth_drop_Suc)
  show ?case
  proof (cases "Suc i < length xs")
    case True
    then show ?thesis
      using Suc.hyps(1)[of "Suc i"] Suc.hyps(2) e kmod_list_next_nth [OF r Suc.prems]
      by (subst find_data.simps) (simp add: dr)
  next
    case False
    then show ?thesis
      using e kmod_list_next_nth [OF r Suc.prems]
      by (subst find_data.simps) (simp add: dr find_data.simps)
  qed
qed simp

text \<open>
  The specification of an operation that adds the node \<open>n\<close>: the result heads the nodes \<open>zs\<close>, every
  old node keeps its data, \<open>n\<close> carries the new data, and nothing else in the heap changes.
\<close>

definition adds :: "'a heap \<Rightarrow> addr list \<Rightarrow> addr \<Rightarrow> 'a \<Rightarrow> (addr option \<times> 'a heap) option \<Rightarrow> addr list \<Rightarrow> bool" where
  "adds h xs n d r zs \<longleftrightarrow> (case r of None \<Rightarrow> False
     | Some (p, h') \<Rightarrow> heads h' p zs \<and> dat h' = (dat h)(n \<mapsto> d)
         \<and> (\<forall>a. a \<notin> set xs \<longrightarrow> a \<noteq> n \<longrightarrow> h' a = h a))"

lemma add_first:
  assumes "h n = None"
  shows "\<exists>h'. list_node_init (new_node h n d) n = Some h' \<and> adds h [] n d (Some (Some n, h')) [n]"
proof -
  have "dat (new_node h n d) n \<noteq> None" by (simp add: new_node_spec)
  from list_node_init_ring [OF this] obtain h' where
    h': "list_node_init (new_node h n d) n = Some h'" "ring h' [n]" "dat h' = dat (new_node h n d)"
      "\<forall>a. a \<noteq> n \<longrightarrow> h' a = new_node h n d a" by blast
  then show ?thesis by (auto simp: adds_def heads_Some new_node_spec(3)) (simp add: new_node_def)
qed

lemma kmod_list_append_spec:
  assumes "heads h p xs" and n: "h n = None"
  shows "adds h xs n d (kmod_list_append (Some n) h p d) (xs @ [n])"
proof (cases p)
  case None
  then show ?thesis using assms add_first [of h n d]
    by (auto simp: heads_def kmod_list_append_def list_node_append_def)
next
  case (Some x)
  then obtain ys where xs: "xs = x # ys" and r: "ring h xs" using assms by (auto simp: heads_Some)
  have "ring (new_node h n d) (x # ys)" "n \<notin> set (x # ys)" "dat (new_node h n d) n \<noteq> None"
    using ring_new_node [OF r n] by (auto simp: xs new_node_spec)
  from list_node_append_ring [OF this] show ?thesis
    by (auto simp: adds_def kmod_list_append_def Some xs heads_Some new_node_spec(3)) (auto simp: new_node_def)
qed

lemma kmod_list_prepend_spec:
  assumes "heads h p xs" and n: "h n = None"
  shows "adds h xs n d (kmod_list_prepend (Some n) h p d) (n # xs)"
proof (cases p)
  case None
  then show ?thesis using assms add_first [of h n d]
    by (auto simp: heads_def kmod_list_prepend_def list_node_append_def)
next
  case (Some x)
  then obtain ys where xs: "xs = x # ys" and r: "ring h xs" using assms by (auto simp: heads_Some)
  have "ring (new_node h n d) (x # ys)" "n \<notin> set (x # ys)" "dat (new_node h n d) n \<noteq> None"
    using ring_new_node [OF r n] by (auto simp: xs new_node_spec)
  from list_node_append_ring [OF this] obtain h' where
    h': "list_node_append (new_node h n d) (Some x) n = Some h'" "ring h' ((x # ys) @ [n])"
      "dat h' = dat (new_node h n d)" "\<forall>a. a \<notin> set (x # ys) \<longrightarrow> a \<noteq> n \<longrightarrow> h' a = new_node h n d a" by auto
  have "ring h' (n # x # ys)" using ring_rotate [OF h'(2)] by simp
  then show ?thesis using h'(1,3,4)
    by (auto simp: adds_def kmod_list_prepend_def Some xs heads_Some new_node_spec(3)) (auto simp: new_node_def)
qed

lemma kmod_list_insert_after_spec:
  assumes r: "ring h (x # xs)" and n: "h n = None"
  shows "adds h (x # xs) n d (kmod_list_insert_after (Some n) h (Some x) d) (x # n # xs)"
proof -
  have "ring (new_node h n d) (x # xs)" "n \<notin> set (x # xs)" "dat (new_node h n d) n \<noteq> None"
    using ring_new_node [OF r n] by (auto simp: new_node_spec)
  from list_node_insert_after_ring [OF this] show ?thesis
    by (auto simp: adds_def kmod_list_insert_after_def heads_Some new_node_spec(3)) (auto simp: new_node_def)
qed

lemma kmod_list_insert_before_eq:
  assumes r: "ring h (x # xs)" and n: "h n = None"
  shows "kmod_list_insert_before (Some n) h (Some x) d = kmod_list_prepend (Some n) h (Some x) d"
proof -
  have "ring (new_node h n d) (x # xs)" "n \<notin> set (x # xs)" "dat (new_node h n d) n \<noteq> None"
    using ring_new_node [OF r n] by (auto simp: new_node_spec)
  from list_node_insert_before_append [OF this] show ?thesis
    by (simp add: kmod_list_insert_before_def kmod_list_prepend_def)
qed

lemma kmod_list_append_list_spec:
  assumes "heads h p xs" and "heads h q ys" and "set xs \<inter> set ys = {}"
  shows "\<exists>r h'. kmod_list_append_list h p q = Some (r, h') \<and> heads h' r (xs @ ys) \<and> dat h' = dat h"
proof (cases "p = None \<or> q = None")
  case True
  then show ?thesis using assms by (auto simp: kmod_list_append_list_def heads_def split: option.splits)
next
  case False
  then obtain x y xs' ys' where [simp]: "p = Some x" "q = Some y" "xs = x # xs'" "ys = y # ys'"
    and r: "ring h (x # xs')" "ring h (y # ys')" using assms by (auto simp: heads_Some)
  show ?thesis using list_node_append_list_ring [OF r] assms(3)
    by (auto simp: kmod_list_append_list_def heads_Some)
qed

lemma remove_head:
  assumes r: "ring h (x # xs)"
  shows "\<exists>p h'. do { (node, h) \<leftarrow> list_node_remove h x; h \<leftarrow> free_node h x; Some (node, h) } = Some (p, h')
    \<and> heads h' p xs \<and> h' x = None \<and> dat h' = (dat h)(x := None) \<and> (\<forall>a. a \<notin> set (x # xs) \<longrightarrow> h' a = h a)"
proof -
  obtain h1 where h1: "list_node_remove h x = Some (if xs = [] then None else Some (hd xs), h1)"
    "xs \<noteq> [] \<longrightarrow> ring h1 xs" "dat h1 = dat h" "\<forall>a. a \<notin> set xs \<longrightarrow> h1 a = h a"
    using list_node_remove_ring [OF r] by blast
  have x: "x \<notin> set xs" using r by (simp add: ring_def)
  have "dat h1 x \<noteq> None" using ring_dat [OF r, of x] h1(3) by simp
  then have f: "free_node h1 x = Some (h1(x := None))" by (auto simp: free_node_def dat_def split: option.splits)
  have "heads (h1(x := None)) (if xs = [] then None else Some (hd xs)) xs"
    using h1(2) free_node_ring [of h1 xs x] x by (auto simp: heads_def)
  moreover have "dat (h1(x := None)) = (dat h)(x := None)" using h1(3) by (auto simp: dat_def fun_eq_iff)
  ultimately show ?thesis using h1(1,4) f by auto
qed

lemma kmod_list_remove_data_spec:
  assumes "heads h p xs"
  shows "(Some d \<notin> dat h ` set xs \<longrightarrow> kmod_list_remove_data h p d = Some (p, h)) \<and>
    (Some d \<in> dat h ` set xs \<longrightarrow> (\<exists>us a vs q h'. xs = us @ a # vs \<and> dat h a = Some d \<and> Some d \<notin> dat h ` set us
       \<and> kmod_list_remove_data h p d = Some (q, h') \<and> heads h' q (vs @ us) \<and> h' a = None
       \<and> dat h' = (dat h)(a := None)))"
proof (cases p)
  case None
  then show ?thesis using assms
    by (auto simp: heads_def kmod_list_remove_data_def find_data.simps)
next
  case (Some x)
  then have r: "ring h xs" and x: "x = hd xs" "0 < length xs" using assms by (auto simp: heads_Some)
  have fd: "find_data h p d p = Some (find (\<lambda>a. dat h a = Some d) xs)"
    using find_data_from [OF r x(2), of d] Some x by (simp add: hd_conv_nth)
  show ?thesis
  proof (cases "find (\<lambda>a. dat h a = Some d) xs")
    case None
    moreover from None have "Some d \<notin> dat h ` set xs" by (auto simp: find_None_iff)
    ultimately show ?thesis using fd by (simp add: kmod_list_remove_data_def)
  next
    case (Some a)
    then obtain i where i: "i < length xs" "dat h (xs ! i) = Some d" "a = xs ! i" "\<forall>j < i. dat h (xs ! j) \<noteq> Some d"
      by (auto simp: find_Some_iff)
    let ?us = "take i xs" and ?vs = "drop (Suc i) xs"
    have xs: "xs = ?us @ a # ?vs" using i by (simp add: id_take_nth_drop)
    have "ring h ((a # ?vs) @ ?us)" by (rule ring_rotate) (use r xs in simp)
    then have "ring h (a # ?vs @ ?us)" by simp
    from remove_head [OF this] obtain q h' where
      q: "do { (node, h) \<leftarrow> list_node_remove h a; h \<leftarrow> free_node h a; Some (node, h) } = Some (q, h')"
        "heads h' q (?vs @ ?us)" "h' a = None" "dat h' = (dat h)(a := None)" by blast
    have "kmod_list_remove_data h p d = Some (q, h')"
      using q(1) fd Some by (simp add: kmod_list_remove_data_def)
    moreover have "Some d \<notin> dat h ` set ?us" using i(4) by (fastforce simp: in_set_conv_nth)
    moreover have "Some d \<in> dat h ` set xs" using i by (metis imageI nth_mem)
    moreover have "dat h a = Some d" using i by simp
    ultimately show ?thesis using xs q(2-4) by blast
  qed
qed

section \<open>The interface of a sequence of values\<close>

text \<open>
  What the library relies on when it builds a list and hands it out: the contents as a plain list
  of values, independent of the addresses.
\<close>

definition klist :: "'a heap \<Rightarrow> addr option \<Rightarrow> 'a list \<Rightarrow> bool" where
  "klist h p ds \<longleftrightarrow> (\<exists>xs. heads h p xs \<and> data_of h xs = ds)"

lemma adds_klist:
  assumes "adds h xs n d r zs"
  shows "\<exists>p h'. r = Some (p, h') \<and> klist h' p (map (\<lambda>a. if a = n then d else the (dat h a)) zs)"
  using assms by (auto simp: adds_def klist_def data_of_def split: option.splits intro!: exI [of _ zs])

lemma heads_fresh: "heads h p xs \<Longrightarrow> h n = None \<Longrightarrow> n \<notin> set xs"
  using ring_new_node(2) [of h xs n] by (auto simp: heads_def split: option.splits)

lemma klist_foreach: "klist h p ds \<Longrightarrow> kmod_list_foreach h p p = Some ds"
proof -
  assume "klist h p ds"
  then obtain xs where xs: "heads h p xs" "data_of h xs = ds" by (auto simp: klist_def)
  show ?thesis
  proof (cases p)
    case None
    then show ?thesis using xs by (simp add: heads_def kmod_list_foreach.simps data_of_def)
  next
    case (Some x)
    then show ?thesis using xs foreach_from [of h xs 0] by (auto simp: heads_Some)
  qed
qed

lemma klist_foreach_reverse: "klist h p ds \<Longrightarrow> kmod_list_foreach_reverse h p = Some (rev ds)"
proof -
  assume "klist h p ds"
  then obtain xs where xs: "heads h p xs" "data_of h xs = ds" by (auto simp: klist_def)
  show ?thesis
  proof (cases p)
    case None
    then show ?thesis using xs
      by (simp add: heads_def kmod_list_foreach_reverse_def kmod_list_last_def foreach_reverse.simps data_of_def)
  next
    case (Some x)
    then have r: "ring h xs" and x: "x = hd xs" "xs \<noteq> []" using xs by (auto simp: heads_Some)
    have "prv h x = Some (last xs)"
      using r x ring_snoc [of h "butlast xs" "last xs"] by simp
    moreover have "last xs = xs ! (length xs - 1)" using x by (simp add: last_conv_nth)
    ultimately show ?thesis
      using foreach_reverse_from [OF r, of "length xs - 1"] xs x Some
      by (simp add: kmod_list_foreach_reverse_def kmod_list_last_def)
  qed
qed

locale seq_heap =
  fixes rep :: "'h \<Rightarrow> 'p option \<Rightarrow> 'a list \<Rightarrow> bool"
    and fresh :: "'h \<Rightarrow> 'n \<Rightarrow> bool"
    and append :: "'n option \<Rightarrow> 'h \<Rightarrow> 'p option \<Rightarrow> 'a \<Rightarrow> ('p option \<times> 'h) option"
    and prepend :: "'n option \<Rightarrow> 'h \<Rightarrow> 'p option \<Rightarrow> 'a \<Rightarrow> ('p option \<times> 'h) option"
    and foreach :: "'h \<Rightarrow> 'p option \<Rightarrow> 'a list option"
  assumes rep_nil: "rep h None ds \<longleftrightarrow> ds = []"
    and append_law: "rep h p ds \<Longrightarrow> fresh h n \<Longrightarrow>
      \<exists>p' h'. append (Some n) h p d = Some (p', h') \<and> rep h' p' (ds @ [d])"
    and prepend_law: "rep h p ds \<Longrightarrow> fresh h n \<Longrightarrow>
      \<exists>p' h'. prepend (Some n) h p d = Some (p', h') \<and> rep h' p' (d # ds)"
    and foreach_law: "rep h p ds \<Longrightarrow> foreach h p = Some ds"
begin

lemma append_foreach:
  assumes "rep h p ds" and "fresh h n"
  shows "\<exists>p' h'. append (Some n) h p d = Some (p', h') \<and> p' \<noteq> None \<and> foreach h' p' = Some (ds @ [d])"
proof -
  obtain p' h' where p': "append (Some n) h p d = Some (p', h')" "rep h' p' (ds @ [d])"
    using append_law [OF assms] by blast
  then have "p' \<noteq> None" using rep_nil [of h' "ds @ [d]"] by (cases p') auto
  then show ?thesis using p' foreach_law [OF p'(2)] by blast
qed

lemma prepend_foreach:
  assumes "rep h p ds" and "fresh h n"
  shows "\<exists>p' h'. prepend (Some n) h p d = Some (p', h') \<and> p' \<noteq> None \<and> foreach h' p' = Some (d # ds)"
proof -
  obtain p' h' where p': "prepend (Some n) h p d = Some (p', h')" "rep h' p' (d # ds)"
    using prepend_law [OF assms] by blast
  then have "p' \<noteq> None" using rep_nil [of h' "d # ds"] by (cases p') auto
  then show ?thesis using p' foreach_law [OF p'(2)] by blast
qed

end

interpretation kl: seq_heap klist "\<lambda>h n. h n = None" kmod_list_append kmod_list_prepend
  "\<lambda>h p. kmod_list_foreach h p p"
proof unfold_locales
  fix h :: "'a heap" and p ds n d
  show "klist h None ds \<longleftrightarrow> ds = []" by (auto simp: klist_def heads_def data_of_def)
  show "klist h p ds \<Longrightarrow> kmod_list_foreach h p p = Some ds" by (rule klist_foreach)
  assume "klist h p ds" and n: "h n = None"
  then obtain xs where xs: "heads h p xs" "data_of h xs = ds" by (auto simp: klist_def)
  have "map (\<lambda>a. if a = n then d else the (dat h a)) xs = ds"
    using heads_fresh [of h p xs n] xs n by (auto simp: data_of_def)
  then show "\<exists>p' h'. kmod_list_append (Some n) h p d = Some (p', h') \<and> klist h' p' (ds @ [d])"
    and "\<exists>p' h'. kmod_list_prepend (Some n) h p d = Some (p', h') \<and> klist h' p' (d # ds)"
    using adds_klist [OF kmod_list_append_spec [of h p xs n d]]
      adds_klist [OF kmod_list_prepend_spec [of h p xs n d]] xs n by auto
qed

section \<open>Properties\<close>

text \<open>
  Appending a value to a list and then walking it with \<open>kmod_list_foreach\<close> visits the old values
  in order and then the new one, walking it with \<open>kmod_list_foreach_reverse\<close> visits them in the
  opposite order, and both walks end; no other node of the heap is changed by the append.
\<close>

theorem kmod_list_append_walk:
  assumes "heads h list xs" and "h n = None"
  shows "\<exists>p h'. kmod_list_append (Some n) h list d = Some (p, h')
    \<and> kmod_list_foreach h' p p = Some (data_of h xs @ [d])
    \<and> kmod_list_foreach_reverse h' p = Some (d # rev (data_of h xs))
    \<and> (\<forall>a. a \<notin> set xs \<longrightarrow> a \<noteq> n \<longrightarrow> h' a = h a)"
proof -
  have "klist h list (data_of h xs)" using assms(1) by (auto simp: klist_def)
  from kl.append_law [OF this assms(2), of d] obtain p h' where
    p: "kmod_list_append (Some n) h list d = Some (p, h')" "klist h' p (data_of h xs @ [d])" by blast
  moreover have "\<forall>a. a \<notin> set xs \<longrightarrow> a \<noteq> n \<longrightarrow> h' a = h a"
    using kmod_list_append_spec [of h list xs n d] assms p(1) by (simp add: adds_def)
  ultimately show ?thesis using klist_foreach [OF p(2)] klist_foreach_reverse [OF p(2)] by simp
qed

theorem kmod_list_append_walk_witness:
  "\<exists>p h'. kmod_list_append (Some 5) Map.empty None (7::int) = Some (p, h')
    \<and> kmod_list_foreach h' p p = Some [7]"
  using kmod_list_append_walk [of Map.empty None "[]" 5 "7::int"] by (auto simp: heads_def data_of_def)

text \<open>
  C22. \<open>kmod_list_remove_data\<close> removes and frees the first node that holds the value and no other,
  keeps the ring well linked, and returns the node after the removed one: the result is the list
  rotated to start there, not the old head. If no node holds the value the list is unchanged.
\<close>

theorem kmod_list_remove_data_rotates:
  assumes "heads h list xs"
  shows "(Some d \<notin> dat h ` set xs \<longrightarrow> kmod_list_remove_data h list d = Some (list, h)) \<and>
    (Some d \<in> dat h ` set xs \<longrightarrow> (\<exists>us a vs q h'. xs = us @ a # vs \<and> dat h a = Some d \<and> Some d \<notin> dat h ` set us
       \<and> kmod_list_remove_data h list d = Some (q, h') \<and> heads h' q (vs @ us) \<and> h' a = None
       \<and> dat h' = (dat h)(a := None)))"
  by (rule kmod_list_remove_data_spec [OF assms])

text \<open>A ring of four nodes of which two hold the same value.\<close>

definition ring_of_four :: "int heap" where
  "ring_of_four = [1 \<mapsto> \<lparr>ln_next = Some 2, ln_prev = Some 4, kl_data = 10\<rparr>,
                   2 \<mapsto> \<lparr>ln_next = Some 3, ln_prev = Some 1, kl_data = 20\<rparr>,
                   3 \<mapsto> \<lparr>ln_next = Some 4, ln_prev = Some 2, kl_data = 30\<rparr>,
                   4 \<mapsto> \<lparr>ln_next = Some 1, ln_prev = Some 3, kl_data = 20\<rparr>]"

lemma ring_of_four_heads: "heads ring_of_four (Some 1) [1, 2, 3, 4]"
  by (auto simp: heads_def ring_def ring_of_four_def nxt_def prv_def less_Suc_eq numeral_nat)

theorem kmod_list_remove_data_rotates_witness:
  "(\<exists>q h'. kmod_list_remove_data ring_of_four (Some 1) 20 = Some (q, h') \<and> h' 2 = None \<and> h' 4 \<noteq> None
      \<and> kmod_list_foreach h' q q = Some [30, 20, 10])
   \<and> kmod_list_remove_data ring_of_four (Some 1) 40 = Some (Some 1, ring_of_four)"
proof -
  note R = kmod_list_remove_data_rotates [OF ring_of_four_heads]
  have d: "dat ring_of_four 1 = Some 10" "dat ring_of_four 2 = Some 20" "dat ring_of_four 3 = Some 30" "dat ring_of_four 4 = Some 20"
    by (simp_all add: dat_def ring_of_four_def)
  obtain us a vs q h' where r: "[1, 2, 3, 4] = us @ a # vs" "dat ring_of_four a = Some 20" "Some 20 \<notin> dat ring_of_four ` set us"
    "kmod_list_remove_data ring_of_four (Some 1) 20 = Some (q, h')" "heads h' q (vs @ us)" "h' a = None"
    "dat h' = (dat ring_of_four)(a := None)"
    using R [of 20] d by auto
  have "us = [1] \<and> a = 2 \<and> vs = [3, 4]"
    using r(1-3) d by (auto simp: Cons_eq_append_conv)
  then have u: "us = [1]" "a = 2" "vs = [3, 4]" by simp_all
  have "data_of h' (vs @ us) = [30, 20, 10]" using r(7) d u by (simp add: data_of_def)
  then have "kmod_list_foreach h' q q = Some [30, 20, 10]"
    using r(5) klist_foreach [of h' q "[30, 20, 10]"] by (auto simp: klist_def)
  moreover have "dat h' 4 = Some 20" using r(7) d(4) u by simp
  then have "h' 4 \<noteq> None" by (auto simp: dat_def)
  ultimately show ?thesis using r(4,6) u(2) R [of 40] d by auto
qed

text \<open>
  Appending one list to another concatenates them: for two disjoint lists the result heads the
  nodes of the first followed by those of the second, all links rewired in both directions, with
  every value in place.
\<close>

theorem kmod_list_append_list_concat:
  assumes "heads h list1 xs" and "heads h list2 ys" and "set xs \<inter> set ys = {}"
  shows "\<exists>r h'. kmod_list_append_list h list1 list2 = Some (r, h') \<and> heads h' r (xs @ ys) \<and> dat h' = dat h
    \<and> kmod_list_foreach h' r r = Some (data_of h xs @ data_of h ys)"
proof -
  obtain r h' where r: "kmod_list_append_list h list1 list2 = Some (r, h')" "heads h' r (xs @ ys)" "dat h' = dat h"
    using kmod_list_append_list_spec [OF assms] by blast
  moreover have "data_of h' (xs @ ys) = data_of h xs @ data_of h ys" using r(3) by (simp add: data_of_def)
  ultimately show ?thesis using klist_foreach [of h' r "data_of h xs @ data_of h ys"] by (auto simp: klist_def)
qed

definition two_rings :: "int heap" where
  "two_rings = [1 \<mapsto> \<lparr>ln_next = Some 1, ln_prev = Some 1, kl_data = 10\<rparr>,
                2 \<mapsto> \<lparr>ln_next = Some 2, ln_prev = Some 2, kl_data = 20\<rparr>]"

theorem kmod_list_append_list_concat_witness:
  "\<exists>r h'. kmod_list_append_list two_rings (Some 1) (Some 2) = Some (r, h')
    \<and> kmod_list_foreach h' r r = Some [10, 20]"
  using kmod_list_append_list_concat [of two_rings "Some 1" "[1]" "Some 2" "[2]"]
  by (auto simp: heads_def ring_def two_rings_def nxt_def prv_def data_of_def dat_def)

end
