(* ===== verification/Kmod_Index_Format.thy ===== *)
theory Kmod_Index_Format
  imports Kmod_Prelude
begin

text \<open>
  What the writer (\<open>tools/depmod.c\<close>) and the reader (\<open>libkmod/libkmod-index.c\<close>) of the module index
  share: the constants of the file format, 32-bit big-endian words as bytes, 7-bit strings, and
  the comparison of an unsigned byte with a signed \<open>char\<close>.
\<close>

section \<open>Constants and data\<close>

abbreviation INDEX_MAGIC :: u32 where "INDEX_MAGIC \<equiv> 0xB007F457"
abbreviation INDEX_VERSION_MAJOR :: u32 where "INDEX_VERSION_MAJOR \<equiv> 2"
abbreviation INDEX_VERSION :: u32 where "INDEX_VERSION \<equiv> 0x00020001"
abbreviation INDEX_CHILDMAX :: u8 where "INDEX_CHILDMAX \<equiv> 128"
abbreviation INDEX_NODE_PREFIX :: u32 where "INDEX_NODE_PREFIX \<equiv> 0x80000000"
abbreviation INDEX_NODE_VALUES :: u32 where "INDEX_NODE_VALUES \<equiv> 0x40000000"
abbreviation INDEX_NODE_CHILDS :: u32 where "INDEX_NODE_CHILDS \<equiv> 0x20000000"
abbreviation INDEX_NODE_MASK :: u32 where "INDEX_NODE_MASK \<equiv> 0x0FFFFFFF"

text \<open>
  A value is its priority and its string. The library's \<open>struct index_value\<close> has a field \<open>len\<close> besides,
  the number of bytes of the string that a copy takes; the stream reader counts the terminator in
  it and the mapped reader does not. Nothing else reads the field, and it is left out: by
  \<open>copied_value_string\<close> a copy of either length holds the same string.
\<close>

type_synonym index_value = "u32 \<times> string"

abbreviation code :: "char \<Rightarrow> nat" where "code c \<equiv> of_char c"

text \<open>\<open>ch != key[j]\<close> compares a \<open>uint8_t\<close> with a signed \<open>char\<close>: bytes above 127 never match.\<close>

definition same_char :: "char \<Rightarrow> char \<Rightarrow> bool" where
  "same_char c k \<longleftrightarrow> c = k \<and> code k < 128"

section \<open>Priority-ordered values\<close>

text \<open>The string of a value that \<open>add_value\<close> made from \<open>len\<close> bytes of a terminated string.\<close>

definition copied_value :: "string \<Rightarrow> nat \<Rightarrow> string" where
  "copied_value val len = takeWhile (\<lambda>c. c \<noteq> CHR 0x00) (take len (val @ [CHR 0x00]) @ [CHR 0x00])"

lemma copied_value_string:
  assumes "CHR 0x00 \<notin> set val" and "len = length val \<or> len = length val + 1"
  shows "copied_value val len = val"
proof -
  have "takeWhile (\<lambda>c. c \<noteq> CHR 0x00) val = val" using assms(1) by (auto simp: takeWhile_eq_all_conv)
  then show ?thesis using assms(2) by (elim disjE) (simp_all add: copied_value_def takeWhile_append)
qed

text \<open>A value is inserted before the first value whose priority is not smaller.\<close>

fun value_insert :: "index_value list \<Rightarrow> u32 \<Rightarrow> string \<Rightarrow> index_value list" where
  "value_insert [] p v = [(p, v)]"
| "value_insert ((q, w) # vs) p v =
     (if q < p then (q, w) # value_insert vs p v else (p, v) # (q, w) # vs)"

lemma set_value_insert: "set (value_insert vs p v) = insert (p, v) (set vs)"
  by (induction vs p v rule: value_insert.induct) auto

lemma sorted_value_insert: "sorted (map fst vs) \<Longrightarrow> sorted (map fst (value_insert vs p v))"
  by (induction vs p v rule: value_insert.induct) (auto simp: set_value_insert)

section \<open>Child ranges\<close>

text \<open>The values of the loops \<open>for (ch = first; ch <= last; ch++)\<close>.\<close>

definition child_range :: "u8 \<Rightarrow> u8 \<Rightarrow> nat list" where
  "child_range first lst = [unat first ..< Suc (unat lst)]"

lemma child_range_nth:
  "c \<in> set (child_range first lst) \<Longrightarrow> c - unat first < length (child_range first lst)
     \<and> child_range first lst ! (c - unat first) = c"
  by (auto simp: child_range_def simp del: upt_Suc)

section \<open>Big-endian words\<close>

text \<open>\<open>htobe32\<close> followed by \<open>fwrite\<close>: the most significant byte first; \<open>dec32\<close> is the inverse, \<open>be32toh\<close>.\<close>

definition enc32 :: "u32 \<Rightarrow> char list" where
  "enc32 w = map (\<lambda>i. char_of (unat w div 256 ^ i)) [3, 2, 1, 0 :: nat]"

definition dec32 :: "char list \<Rightarrow> u32" where
  "dec32 bs = of_nat (foldl (\<lambda>n c. 256 * n + code c) 0 bs)"

lemma length_enc32 [simp]: "length (enc32 w) = 4"
  by (simp add: enc32_def)

lemma dec32_enc32 [simp]: "dec32 (enc32 w) = w"
proof -
  define n where "n = unat w"
  have n: "n < 256 ^ 4" using unat_lt_32 [of w] by (simp add: n_def)
  have "n div 16777216 mod 256 = n div 16777216" using n by simp
  moreover have "256 * (256 * (256 * (n div 16777216) + n div 65536 mod 256) + n div 256 mod 256) + n mod 256 = n"
  proof -
    have "n div 16777216 = n div 65536 div 256" "n div 65536 = n div 256 div 256"
      by (simp_all add: div_mult2_eq [symmetric])
    then show ?thesis by (metis mult_div_mod_eq)
  qed
  ultimately have "foldl (\<lambda>n c. 256 * n + code c) 0 (enc32 w) = n"
    by (simp add: enc32_def n_def [symmetric])
  then show ?thesis by (simp add: dec32_def n_def)
qed

section \<open>Seven-bit strings\<close>

definition ascii :: "string \<Rightarrow> bool" where
  "ascii s \<longleftrightarrow> (\<forall>c \<in> set s. c \<noteq> NUL \<and> code c < 128)"

lemma ascii_simps [simp]: "ascii []" "ascii (c # s) \<longleftrightarrow> c \<noteq> NUL \<and> code c < 128 \<and> ascii s"
  "ascii (s @ t) \<longleftrightarrow> ascii s \<and> ascii t"
  by (auto simp: ascii_def)

lemma ascii_take_drop: "ascii s \<Longrightarrow> ascii (take n s)" "ascii s \<Longrightarrow> ascii (drop n s)"
  by (auto simp: ascii_def dest: in_set_takeD in_set_dropD)

lemma code_inj [simp]: "code c = code d \<longleftrightarrow> c = d"
  by (fact of_char_eq_iff)

lemma code_less_256: "code c < 256"
  by (metis mod_less_divisor of_char_mod_256 zero_less_numeral)

lemma unat_of_char [simp]: "unat (of_char c :: u8) = code c"
proof -
  have "(of_char c :: u8) = of_nat (code c)" by (simp add: of_nat_of_char)
  then show ?thesis using code_less_256 [of c] by (simp add: unat_of_nat)
qed

lemma code_NUL [simp]: "code c = 0 \<longleftrightarrow> c = NUL" "0 < code c \<longleftrightarrow> c \<noteq> NUL"
proof -
  have "code NUL = 0" by simp
  then show "code c = 0 \<longleftrightarrow> c = NUL" by (metis of_char_eq_iff)
  then show "0 < code c \<longleftrightarrow> c \<noteq> NUL" by (metis neq0_conv)
qed

end
