(* ===== verification/Kmod_Index_Write.thy ===== *)
theory Kmod_Index_Write
  imports Kmod_Index_Format
begin

text \<open>
  The writer half of the module index (\<open>tools/depmod.c\<close>): the in-memory Patricia trie, insertion
  with node splitting and priority-ordered values, the computation of node sizes, and the writing
  of the binary file. An \<open>index_node\<close> is \<open>struct index_node\<close>; its array of child pointers is a
  function that is None outside the array.

  A character above 7 bits and a failed allocation end the process (\<open>CRIT\<close>, \<open>fatal_oom\<close>): the
  former is the result None, the latter is not modelled. Lengths of keys fit \<open>int\<close>.
\<close>

section \<open>Data\<close>

datatype index_node = Node
  (n_prefix: string)
  (n_values: "index_value list")
  (n_first: u8)
  (n_last: u8)
  (n_size: u32)
  (n_total: u32)
  (n_children: "nat \<Rightarrow> index_node option")

section \<open>Building the trie\<close>

definition index_create :: index_node where
  "index_create = Node [] [] INDEX_CHILDMAX 0 0 0 (\<lambda>_. None)"

fun index__checkstring :: "string \<Rightarrow> unit option" where
  "index__checkstring [] = Some ()"
| "index__checkstring (c # s) = (if 128 \<le> code c then None else index__checkstring s)"

definition index_add_value :: "index_value list \<Rightarrow> string \<Rightarrow> u32 \<Rightarrow> int \<times> index_value list" where
  "index_add_value values value priority =
     (let duplicate = (if \<exists>v \<in> set values. streq (snd v) value then 1 else 0) in
      (duplicate, value_insert values priority value))"

text \<open>
  \<open>first_diff\<close> is the loop over the prefix: the index where prefix and key part, or None if the
  prefix is exhausted.
\<close>

fun first_diff :: "string \<Rightarrow> string \<Rightarrow> nat option" where
  "first_diff [] key = None"
| "first_diff (c # p) [] = Some 0"
| "first_diff (c # p) (k # key) = (if same_char c k then map_option Suc (first_diff p key) else Some 0)"

definition split_node :: "index_node \<Rightarrow> nat \<Rightarrow> index_node" where
  "split_node node j =
     (let prefix = n_prefix node;
          ch = prefix ! j;
          n = Node (drop (Suc j) prefix) (n_values node) (n_first node) (n_last node)
                (n_size node) (n_total node) (n_children node) in
      Node (take j prefix) [] (of_char ch) (of_char ch) 0 0 ((\<lambda>_. None)(code ch \<mapsto> n)))"

definition fit_node :: "index_node \<Rightarrow> string \<Rightarrow> index_node" where
  "fit_node node key = (case first_diff (n_prefix node) key of None \<Rightarrow> node | Some j \<Rightarrow> split_node node j)"

function insert_loop :: "index_node \<Rightarrow> string \<Rightarrow> string \<Rightarrow> u32 \<Rightarrow> (int \<times> index_node) option" where
  "insert_loop node key value priority =
     (case fit_node node key of
        Node prefix values first lst sz tot children \<Rightarrow>
          (case drop (length prefix) key of
             [] \<Rightarrow>
               (let (duplicate, values') = index_add_value values value priority in
                Some (duplicate, Node prefix values' first lst sz tot children))
           | ch # rest \<Rightarrow>
               (if 128 \<le> code ch then None
                else
                  (case children (code ch) of
                     None \<Rightarrow>
                       (let c = (of_char ch :: u8);
                            child = Node rest (snd (index_add_value [] value priority)) INDEX_CHILDMAX 0 0 0 (\<lambda>_. None) in
                        Some (0, Node prefix values (if c < first then c else first)
                                   (if lst < c then c else lst) sz tot (children(code ch \<mapsto> child))))
                   | Some child \<Rightarrow>
                       map_option (\<lambda>(d, child'). (d, Node prefix values first lst sz tot (children(code ch \<mapsto> child'))))
                         (insert_loop child rest value priority)))))"
  by pat_completeness auto
termination
proof (relation "measure (\<lambda>(_, key, _, _). length key)", goal_cases)
  case (2 node key val priority prefix vals first lst sz tot children ch rest child)
  have "length (drop (length prefix) key) \<le> length key" by simp
  then show ?case using 2 by simp
qed simp

declare insert_loop.simps [simp del]

definition index_insert :: "index_node \<Rightarrow> string \<Rightarrow> string \<Rightarrow> u32 \<Rightarrow> (int \<times> index_node) option" where
  "index_insert node key value priority =
     do { _ \<leftarrow> index__checkstring key;
          _ \<leftarrow> index__checkstring value;
          insert_loop node key value priority }"

section \<open>Sizes\<close>

definition index__haschildren :: "index_node \<Rightarrow> bool" where
  "index__haschildren node \<longleftrightarrow> n_first node < INDEX_CHILDMAX"

definition index_get_mask :: "index_node \<Rightarrow> u32" where
  "index_get_mask node =
     (if index__haschildren node then INDEX_NODE_CHILDS else 0)
     OR (if n_prefix node \<noteq> [] then INDEX_NODE_PREFIX else 0)
     OR (if n_values node \<noteq> [] then INDEX_NODE_VALUES else 0)"

fun sum_totals :: "index_node option list \<Rightarrow> u32" where
  "sum_totals [] = 0"
| "sum_totals (None # ns) = sum_totals ns"
| "sum_totals (Some n # ns) = n_total n + sum_totals ns"

primrec index_calculate_size :: "index_node \<Rightarrow> index_node" where
  "index_calculate_size (Node prefix values first lst sz tot children) =
     (let sized = (\<lambda>c. map_option index_calculate_size (children c));
          has = first < INDEX_CHILDMAX;
          children' = (\<lambda>c. if has \<and> c \<in> set (child_range first lst) then sized c else children c);
          size1 = (if has then 2 + of_int (uint lst - uint first + 1) * 4 else 0);
          total1 = (if has then sum_totals (map children' (child_range first lst)) else 0);
          size2 = size1 + (if prefix \<noteq> [] then of_nat (length prefix) + 1 else 0);
          size3 = size2 + (if values \<noteq> [] then 4 + sum_list (map (\<lambda>(_, v). 4 + (of_nat (length v) + 1)) values) else 0) in
      Node prefix values first lst size3 (total1 + size3) children')"

section \<open>Writing\<close>

fun child_offs :: "u32 \<Rightarrow> u64 \<Rightarrow> index_node option list \<Rightarrow> u32 list" where
  "child_offs base sizes [] = []"
| "child_offs base sizes (None # ns) = 0 # child_offs base sizes ns"
| "child_offs base sizes (Some n # ns) =
     (ucast (ucast base + sizes) OR index_get_mask n) # child_offs base (sizes + ucast (n_total n)) ns"

definition write_values :: "index_value list \<Rightarrow> char list" where
  "write_values values =
     (if values = [] then []
      else enc32 (of_nat (length values))
             @ concat (map (\<lambda>(priority, value). enc32 priority @ value @ [NUL]) values))"

fun write_children :: "(u32 \<Rightarrow> char list \<times> u32) option list \<Rightarrow> u32 \<Rightarrow> char list" where
  "write_children [] offset = []"
| "write_children (None # ws) offset = write_children ws offset"
| "write_children (Some w # ws) offset =
     (let (bytes, tot) = w offset in bytes @ write_children ws (offset + tot))"

definition write_head :: "string \<Rightarrow> index_value list \<Rightarrow> u8 \<Rightarrow> u8 \<Rightarrow> u32 list \<Rightarrow> char list" where
  "write_head prefix vals first lst offs =
     (if prefix \<noteq> [] then prefix @ [NUL] else [])
     @ (if first < INDEX_CHILDMAX \<and> child_range first lst \<noteq> []
        then [char_of (unat first), char_of (unat lst)] @ concat (map enc32 offs) else [])
     @ write_values vals"

primrec index_write__node :: "index_node \<Rightarrow> u32 \<Rightarrow> char list \<times> u32" where
  "index_write__node (Node prefix vals first lst sz tot children) =
     (let writers = (\<lambda>c. map_option index_write__node (children c)) in
      (\<lambda>offset.
         (let range = child_range first lst;
              offs = child_offs (offset + sz) 0 (map children range) in
          (write_head prefix vals first lst offs
             @ (if first < INDEX_CHILDMAX \<and> range \<noteq> []
                then write_children (map writers range) (offset + sz) else []),
           tot))))"

definition index_write :: "index_node \<Rightarrow> char list" where
  "index_write node =
     (let first_off = 12; node = index_calculate_size node in
      enc32 INDEX_MAGIC @ enc32 INDEX_VERSION @ enc32 (first_off OR index_get_mask node)
        @ fst (index_write__node node first_off))"

section \<open>The contents of a trie\<close>

text \<open>
  \<open>strip p k\<close> is what remains of \<open>k\<close> behind the prefix \<open>p\<close>; \<open>trie_vals\<close> is the abstract content:
  the values stored under a key. Well-formed nodes hold 7-bit strings without NUL, values in
  priority order, and children only inside the range \<open>first..last\<close>.
\<close>

fun strip :: "string \<Rightarrow> string \<Rightarrow> string option" where
  "strip [] k = Some k"
| "strip (c # p) [] = None"
| "strip (c # p) (d # k) = (if c = d then strip p k else None)"

function trie_vals :: "index_node \<Rightarrow> string \<Rightarrow> index_value list" where
  "trie_vals node key =
     (case strip (n_prefix node) key of
        None \<Rightarrow> []
      | Some [] \<Rightarrow> n_values node
      | Some (c # rest) \<Rightarrow>
          (case n_children node (code c) of None \<Rightarrow> [] | Some n \<Rightarrow> trie_vals n rest))"
  by pat_completeness auto

lemma strip_iff: "strip p k = Some r \<longleftrightarrow> k = p @ r"
  by (induction p k rule: strip.induct) auto

termination trie_vals
  by (relation "measure (\<lambda>(_, key). length key)") (auto simp: strip_iff)

declare trie_vals.simps [simp del]

primrec wf_node :: "index_node \<Rightarrow> bool" where
  "wf_node (Node prefix vals first lst sz tot children) \<longleftrightarrow>
     ascii prefix \<and> (\<forall>v \<in> set vals. ascii (snd v)) \<and> sorted (map fst vals)
     \<and> unat lst < 128 \<and> (first < INDEX_CHILDMAX \<longrightarrow> first \<le> lst)
     \<and> (\<forall>c. children c \<noteq> None \<longrightarrow> c \<noteq> 0 \<and> unat first \<le> c \<and> c \<le> unat lst)
     \<and> (\<forall>c. map_option wf_node (children c) \<noteq> Some False)"

lemma wf_node_iff:
  "wf_node (Node prefix vals first lst sz tot children) \<longleftrightarrow>
     ascii prefix \<and> (\<forall>v \<in> set vals. ascii (snd v)) \<and> sorted (map fst vals)
     \<and> unat lst < 128 \<and> (first < INDEX_CHILDMAX \<longrightarrow> first \<le> lst)
     \<and> (\<forall>c n. children c = Some n \<longrightarrow> c \<noteq> 0 \<and> unat first \<le> c \<and> c \<le> unat lst \<and> wf_node n)"
  by auto

declare wf_node.simps [simp del]

lemma checkstring_ascii: "ascii s \<Longrightarrow> index__checkstring s = Some ()"
  by (induction s) auto

lemma first_diff_None: "ascii p \<Longrightarrow> first_diff p k = None \<longleftrightarrow> (\<exists>r. k = p @ r)"
  by (induction p k rule: first_diff.induct) (auto simp: same_char_def)

lemma first_diff_Some:
  "ascii p \<Longrightarrow> first_diff p k = Some j \<Longrightarrow> j < length p \<and> (\<exists>r. k = take j p @ r \<and> (\<forall>d s. r = d # s \<longrightarrow> d \<noteq> p ! j))"
  by (induction p k arbitrary: j rule: first_diff.induct) (auto simp: same_char_def split: if_splits)

section \<open>Insertion\<close>

lemma trie_vals_Node:
  "trie_vals (Node p vs f l s t ch) (p @ r) =
     (case r of [] \<Rightarrow> vs | c # rest \<Rightarrow> (case ch (code c) of None \<Rightarrow> [] | Some n \<Rightarrow> trie_vals n rest))"
  by (subst trie_vals.simps) (simp add: strip_iff [THEN iffD2] split: list.splits)

lemma trie_vals_Node_self: "trie_vals (Node p vs f l s t ch) p = vs"
  using trie_vals_Node [of p vs f l s t ch "[]"] by simp

lemma trie_vals_mismatch: "(\<And>r. k \<noteq> n_prefix node @ r) \<Longrightarrow> trie_vals node k = []"
  by (subst trie_vals.simps) (auto simp: strip_iff split: option.splits)

lemma trie_vals_child_upd:
  "trie_vals (Node p vs f' l' s' t' (ch(code c \<mapsto> n))) k =
     (if \<exists>rest. k = p @ c # rest then trie_vals n (drop (Suc (length p)) k)
      else trie_vals (Node p vs f l s t ch) k)"
proof (cases "\<exists>q. k = p @ q")
  case True
  then obtain q where "k = p @ q" by blast
  then show ?thesis by (cases q) (auto simp: trie_vals_Node trie_vals_Node_self)
next
  case False
  then show ?thesis by (auto simp: trie_vals_mismatch)
qed

lemma split_node_spec:
  assumes "j < length (n_prefix node)"
  shows "trie_vals (split_node node j) k = trie_vals node k"
proof -
  obtain p vs f l s t ch where node [simp]: "node = Node p vs f l s t ch" by (cases node)
  let ?a = "take j p" and ?c = "p ! j" and ?b = "drop (Suc j) p"
  have p: "p = ?a @ ?c # ?b" using assms by (simp add: id_take_nth_drop)
  let ?n = "Node ?b vs f l s t ch"
  have sp: "split_node node j = Node ?a [] (of_char ?c) (of_char ?c) 0 0 ((\<lambda>_. None)(code ?c \<mapsto> ?n))"
    by (simp add: split_node_def Let_def)
  show ?thesis
  proof (cases "\<exists>r. k = ?a @ r")
    case False
    then have "trie_vals node k = []" by (intro trie_vals_mismatch) (metis append.assoc index_node.sel(1) node p)
    moreover have "trie_vals (split_node node j) k = []" unfolding sp using False by (intro trie_vals_mismatch) simp
    ultimately show ?thesis by simp
  next
    case True
    then obtain r where k: "k = ?a @ r" by blast
    have L: "trie_vals (split_node node j) k
        = (case r of [] \<Rightarrow> [] | d # rest \<Rightarrow> if d = ?c then trie_vals ?n rest else [])"
      unfolding sp k trie_vals_Node by (auto split: list.splits)
    show ?thesis
    proof (cases "\<exists>rest. r = ?c # rest")
      case True
      then obtain rest where r: "r = ?c # rest" by blast
      show ?thesis
      proof (cases "\<exists>q. rest = ?b @ q")
        case True
        then obtain q where q: "rest = ?b @ q" by blast
        have "k = p @ q" using k r q p by (metis append.assoc append_Cons)
        then have "trie_vals node k = trie_vals ?n rest" by (simp add: q trie_vals_Node)
        then show ?thesis using L r by simp
      next
        case False
        then have "\<And>q. k \<noteq> p @ q" using k r p by (metis append.assoc append_Cons same_append_eq list.inject)
        then have "trie_vals node k = []" by (intro trie_vals_mismatch) simp
        moreover have "trie_vals ?n rest = []" using False by (intro trie_vals_mismatch) simp
        ultimately show ?thesis using L r by simp
      qed
    next
      case False
      then have "\<And>q. k \<noteq> p @ q" using k p by (metis append.assoc append_Cons same_append_eq)
      then have "trie_vals node k = []" by (intro trie_vals_mismatch) simp
      then show ?thesis using False L by (auto split: list.splits)
    qed
  qed
qed

lemma split_node_wf:
  assumes "wf_node node" and "j < length (n_prefix node)"
  shows "wf_node (split_node node j)"
proof -
  obtain p vs f l s t ch where node [simp]: "node = Node p vs f l s t ch" by (cases node)
  have c: "p ! j \<in> set p" using assms(2) by simp
  then have "p ! j \<noteq> NUL" "code (p ! j) < 128" using assms(1) by (auto simp: wf_node_iff ascii_def)
  then show ?thesis using assms
    by (auto simp: split_node_def wf_node_iff ascii_take_drop Let_def split: if_splits)
qed

lemma fit_node_spec:
  assumes wf: "wf_node node"
  shows "wf_node (fit_node node key)" "trie_vals (fit_node node key) k = trie_vals node k"
    "\<exists>r. key = n_prefix (fit_node node key) @ r"
proof -
  have a: "ascii (n_prefix node)" using wf by (cases node) (simp add: wf_node_iff)
  show "wf_node (fit_node node key)" "trie_vals (fit_node node key) k = trie_vals node k"
    using first_diff_Some [OF a, of key] split_node_wf [OF wf] split_node_spec [of _ node k] wf
    by (auto simp: fit_node_def split: option.splits)
  show "\<exists>r. key = n_prefix (fit_node node key) @ r"
    using first_diff_Some [OF a, of key] first_diff_None [OF a, of key]
    by (auto simp: fit_node_def split_node_def Let_def split: option.splits)
qed

lemma insert_loop_spec:
  assumes "wf_node node" and "ascii key" and "ascii v"
  shows "\<exists>d node'. insert_loop node key v pri = Some (d, node') \<and> wf_node node'
    \<and> (\<forall>k. trie_vals node' k = (if k = key then value_insert (trie_vals node key) pri v else trie_vals node k))
    \<and> d = (if v \<in> snd ` set (trie_vals node key) then 1 else 0)"
  using assms
proof (induction node key v pri rule: insert_loop.induct)
  case (1 node key val pri)
  note F = fit_node_spec [OF "1.prems"(1)]
  obtain p vs f l s t ch where N: "fit_node node key = Node p vs f l s t ch" by (cases "fit_node node key")
  obtain r where key: "key = p @ r" using F(3)[of key] N by auto
  have wf: "wf_node (Node p vs f l s t ch)" using F(1)[of key] N by simp
  have tv: "trie_vals node k = trie_vals (Node p vs f l s t ch) k" for k using F(2)[of key k] N by simp
  have dr: "drop (length p) key = r" by (simp add: key)
  have other: "trie_vals node k = []" if "\<And>q. k \<noteq> p @ q" for k
    unfolding tv using that by (intro trie_vals_mismatch) simp
  show ?case
  proof (cases r)
    case Nil
    let ?n = "Node p (value_insert vs pri val) f l s t ch"
    have "trie_vals ?n k = (if k = key then value_insert (trie_vals node key) pri val else trie_vals node k)" for k
    proof (cases "\<exists>q. k = p @ q")
      case True
      then show ?thesis by (auto simp: tv key Nil trie_vals_Node trie_vals_Node_self split: list.splits)
    next
      case False
      then show ?thesis using other [of k] trie_vals_mismatch [of k ?n] by (auto simp: key Nil)
    qed
    moreover have "wf_node ?n" using wf "1.prems"(3) by (auto simp: wf_node_iff set_value_insert sorted_value_insert)
    moreover have "insert_loop node key val pri = Some (if val \<in> snd ` set vs then 1 else 0, ?n)"
      by (subst insert_loop.simps) (auto simp: N dr Nil index_add_value_def)
    moreover have "trie_vals node key = vs" by (simp add: tv key Nil trie_vals_Node_self)
    ultimately show ?thesis by auto
  next
    case (Cons c rest)
    have c: "code c < 128" "c \<noteq> NUL" "ascii rest" using "1.prems"(2) by (auto simp: key Cons)
    show ?thesis
    proof (cases "ch (code c)")
      case None
      let ?child = "Node rest [(pri, val)] INDEX_CHILDMAX 0 0 0 (\<lambda>_. None)"
      let ?n = "Node p vs (if of_char c < f then of_char c else f) (if l < of_char c then of_char c else l) s t (ch(code c \<mapsto> ?child))"
      have child: "trie_vals ?child q = (if q = rest then [(pri, val)] else [])" for q
        by (cases "\<exists>x. q = rest @ x")
          (auto simp: trie_vals_Node trie_vals_Node_self trie_vals_mismatch split: list.splits)
      have old: "trie_vals node key = []" by (simp add: tv key Cons trie_vals_Node None)
      have "trie_vals ?n k = (if k = key then value_insert (trie_vals node key) pri val else trie_vals node k)" for k
        unfolding trie_vals_child_upd [where f = f and l = l and s = s and t = t] tv
        by (auto simp: old key Cons child trie_vals_Node None)
      moreover have "wf_node ?child" using c "1.prems"(3) by (auto simp: wf_node_iff)
      then have "wf_node ?n" using wf c
        by (auto simp: wf_node_iff word_less_nat_alt word_le_nat_alt split: if_splits) (fastforce+)?
      moreover have "insert_loop node key val pri = Some (0, ?n)"
        using c(1) by (subst insert_loop.simps) (simp add: N dr Cons None index_add_value_def Let_def)
      ultimately show ?thesis by (auto simp: old)
    next
      case (Some n)
      have "wf_node n" using wf Some by (auto simp: wf_node_iff)
      then obtain d n' where n': "insert_loop n rest val pri = Some (d, n')" "wf_node n'"
        "\<forall>k. trie_vals n' k = (if k = rest then value_insert (trie_vals n rest) pri val else trie_vals n k)"
        "d = (if val \<in> snd ` set (trie_vals n rest) then 1 else 0)"
        using "1.IH" [OF N, of c rest n] c "1.prems"(3) Some by (auto simp: dr Cons)
      let ?n = "Node p vs f l s t (ch(code c \<mapsto> n'))"
      have old: "trie_vals node key = trie_vals n rest" by (simp add: tv key Cons trie_vals_Node Some)
      have "trie_vals ?n k = (if k = key then value_insert (trie_vals node key) pri val else trie_vals node k)" for k
        unfolding trie_vals_child_upd [where f = f and l = l and s = s and t = t] tv
        using n'(3) by (auto simp: key Cons trie_vals_Node Some)
      moreover have "wf_node ?n" using wf n'(2) Some c by (auto simp: wf_node_iff)
      moreover have "insert_loop node key val pri = Some (d, ?n)"
        using c(1) n'(1) by (subst insert_loop.simps) (simp add: N dr Cons Some)
      ultimately show ?thesis using n'(4) by (auto simp: old)
    qed
  qed
qed

lemma index_create_spec: "wf_node index_create" "trie_vals index_create k = []"
proof -
  show "wf_node index_create" by (simp add: index_create_def wf_node_iff)
  show "trie_vals index_create k = []"
    using trie_vals_Node [of "[]" _ _ _ _ _ _ k] by (simp add: index_create_def split: list.splits)
qed

text \<open>
  The loop in which depmod fills an index: every (key, value, priority) is inserted into the trie
  that \<open>index_create\<close> returns.
\<close>

definition index_build :: "(string \<times> string \<times> u32) list \<Rightarrow> index_node option" where
  "index_build es = foldM (\<lambda>(key, val, pri) node. map_option snd (index_insert node key val pri)) es index_create"

definition entry_vals :: "(string \<times> string \<times> u32) list \<Rightarrow> string \<Rightarrow> index_value list" where
  "entry_vals es key = fold (\<lambda>(k, v, p) vs. if k = key then value_insert vs p v else vs) es []"

lemma index_insert_spec:
  assumes "wf_node node" and "ascii key" and "ascii v"
  shows "\<exists>node'. index_insert node key v pri = Some (if v \<in> snd ` set (trie_vals node key) then 1 else 0, node')
    \<and> wf_node node'
    \<and> (\<forall>k. trie_vals node' k = (if k = key then value_insert (trie_vals node key) pri v else trie_vals node k))"
  using insert_loop_spec [OF assms, of pri] assms by (auto simp: index_insert_def checkstring_ascii)

lemma index_build_spec:
  assumes "\<forall>(k, v, p) \<in> set es. ascii k \<and> ascii v"
  shows "\<exists>root. index_build es = Some root \<and> wf_node root \<and> (\<forall>k. trie_vals root k = entry_vals es k)"
  using assms
proof (induction es rule: rev_induct)
  case Nil
  then show ?case using index_create_spec by (simp add: index_build_def entry_vals_def)
next
  case (snoc e es)
  obtain k v p where e: "e = (k, v, p)" by (cases e)
  obtain root where root: "index_build es = Some root" "wf_node root" "\<forall>k. trie_vals root k = entry_vals es k"
    using snoc by auto
  obtain root' where "index_insert root k v p = Some (if v \<in> snd ` set (trie_vals root k) then 1 else 0, root')"
    "wf_node root'" "\<forall>j. trie_vals root' j = (if j = k then value_insert (trie_vals root k) p v else trie_vals root j)"
    using index_insert_spec [OF root(2), of k v p] snoc.prems e by auto
  then show ?case using root by (auto simp: index_build_def e foldM_append entry_vals_def)
qed

lemma entry_vals_set: "set (entry_vals es key) = {(p, v). (key, v, p) \<in> set es}"
  by (induction es rule: rev_induct) (auto simp: entry_vals_def set_value_insert split: if_splits)

lemma entry_vals_sorted: "sorted (map fst (entry_vals es key))"
  by (induction es rule: rev_induct) (auto simp: entry_vals_def sorted_value_insert split: if_splits)

section \<open>Sizes\<close>

text \<open>
  \<open>head_len\<close> is the length of a node without its children; \<open>trie_len\<close> the length with them. A
  node is \<open>sized\<close> when its 32-bit fields hold these numbers: \<open>index_calculate_size\<close> establishes it
  as long as the whole trie fits 32 bits.
\<close>

definition head_len :: "string \<Rightarrow> index_value list \<Rightarrow> u8 \<Rightarrow> u8 \<Rightarrow> nat" where
  "head_len prefix vals first lst =
     (if first < INDEX_CHILDMAX then 2 + 4 * length (child_range first lst) else 0)
     + (if prefix \<noteq> [] then length prefix + 1 else 0)
     + (if vals \<noteq> [] then 4 + sum_list (map (\<lambda>(_, v). 4 + (length v + 1)) vals) else 0)"

definition opt_sum :: "('a \<Rightarrow> nat) \<Rightarrow> 'a option list \<Rightarrow> nat" where
  "opt_sum f ns = sum_list (map (case_option 0 f) ns)"

abbreviation tots :: "index_node option list \<Rightarrow> nat" where
  "tots \<equiv> opt_sum (\<lambda>n. unat (n_total n))"

primrec trie_len :: "index_node \<Rightarrow> nat" where
  "trie_len (Node prefix vals first lst sz tot children) =
     head_len prefix vals first lst
     + opt_sum id (map (\<lambda>c. map_option trie_len (children c)) (child_range first lst))"

primrec sized :: "index_node \<Rightarrow> bool" where
  "sized (Node prefix vals first lst sz tot children) \<longleftrightarrow>
     unat sz = head_len prefix vals first lst
     \<and> unat tot = head_len prefix vals first lst + tots (map children (child_range first lst))
     \<and> (\<forall>c. map_option sized (children c) \<noteq> Some False)"

lemma sized_iff:
  "sized (Node prefix vals first lst sz tot children) \<longleftrightarrow>
     unat sz = head_len prefix vals first lst
     \<and> unat tot = head_len prefix vals first lst + tots (map children (child_range first lst))
     \<and> (\<forall>c n. children c = Some n \<longrightarrow> sized n)"
  by auto

declare sized.simps [simp del]

lemma opt_sum_simps [simp]: "opt_sum f [] = 0" "opt_sum f (None # ns) = opt_sum f ns"
  "opt_sum f (Some n # ns) = f n + opt_sum f ns" "opt_sum f (xs @ ys) = opt_sum f xs + opt_sum f ys"
  by (simp_all add: opt_sum_def)

lemma opt_sum_take_le: "opt_sum f (take i ns) \<le> opt_sum f ns"
  by (metis append_take_drop_id le_add1 opt_sum_simps(4))

lemma opt_sum_nth: "i < length ns \<Longrightarrow> ns ! i = Some n \<Longrightarrow> opt_sum f (take i ns) + f n \<le> opt_sum f ns"
proof -
  assume i: "i < length ns" "ns ! i = Some n"
  have "opt_sum f ns = opt_sum f (take i ns @ Some n # drop (Suc i) ns)"
    using id_take_nth_drop [OF i(1)] i(2) by simp
  then show ?thesis by (simp del: append_take_drop_id)
qed

lemma opt_sum_map_option: "opt_sum f (map (\<lambda>c. map_option g (h c)) cs) = opt_sum (\<lambda>n. f (g n)) (map h cs)"
  by (induction cs) (auto simp: opt_sum_def split: option.splits)

lemma opt_sum_cong: "(\<And>n. Some n \<in> set ns \<Longrightarrow> f n = g n) \<Longrightarrow> opt_sum f ns = opt_sum g ns"
  by (induction ns) (auto simp: opt_sum_def split: option.splits)

lemma sum_totals_tots: "tots ns < 2 ^ 32 \<Longrightarrow> unat (sum_totals ns) = tots ns"
  by (induction ns rule: sum_totals.induct) (auto simp: unat_word_ariths)

lemma unat_of_nat_32: "n < 2 ^ 32 \<Longrightarrow> unat (of_nat n :: u32) = n"
  by (simp add: unat_of_nat)

lemma calc_size_field:
  assumes "first < INDEX_CHILDMAX \<longrightarrow> first \<le> lst"
  shows "((if first < INDEX_CHILDMAX then 2 + of_int (uint lst - uint first + 1) * 4 else 0)
      + (if prefix \<noteq> [] then of_nat (length prefix) + 1 else 0)
      + (if vals \<noteq> [] then 4 + sum_list (map (\<lambda>(_, v). 4 + (of_nat (length v) + 1)) vals) else 0) :: u32)
    = of_nat (head_len prefix vals first lst)"
proof -
  have "of_int (uint lst - uint first + 1) = (of_nat (Suc (unat lst) - unat first) :: u32)" if "first < INDEX_CHILDMAX"
  proof -
    have "unat first \<le> Suc (unat lst)" using assms that by (simp add: word_le_nat_alt)
    then have "int (Suc (unat lst) - unat first) = uint lst - uint first + 1" by (simp add: of_nat_diff)
    then show ?thesis by (metis of_int_of_nat_eq)
  qed
  moreover have "sum_list (map (\<lambda>(_, v). 4 + (of_nat (length v) + 1)) vals)
      = (of_nat (sum_list (map (\<lambda>(_, v). 4 + (length v + 1)) vals)) :: u32)"
    by (induction vals) auto
  ultimately show ?thesis unfolding head_len_def child_range_def by simp
qed

lemma wf_node_child:
  assumes "wf_node (Node prefix vals first lst sz tot children)" and "children c = Some n"
  shows "wf_node n" "c \<noteq> 0" "c < 128" "first < INDEX_CHILDMAX" "c \<in> set (child_range first lst)"
proof -
  have *: "wf_node n" "c \<noteq> 0" "unat first \<le> c" "c \<le> unat lst" "unat lst < 128"
    using assms unfolding wf_node_iff by blast+
  then show "wf_node n" "c \<noteq> 0" "c < 128" "first < INDEX_CHILDMAX" "c \<in> set (child_range first lst)"
    by (auto simp: child_range_def word_less_nat_alt)
qed

lemma calc_shape:
  assumes "wf_node (Node prefix vals first lst sz tot children)"
  shows "\<exists>sz' tot'. index_calculate_size (Node prefix vals first lst sz tot children)
      = Node prefix vals first lst sz' tot' (\<lambda>c. map_option index_calculate_size (children c))
    \<and> sz' = of_nat (head_len prefix vals first lst)
    \<and> tot' = sum_totals (map (\<lambda>c. map_option index_calculate_size (children c)) (child_range first lst)) + sz'"
proof -
  have kids: "(if first < INDEX_CHILDMAX \<and> c \<in> set (child_range first lst)
      then map_option index_calculate_size (children c) else children c) = map_option index_calculate_size (children c)" for c
    using wf_node_child [OF assms, of c] by (cases "children c") auto
  have empty: "sum_totals (map (\<lambda>c. map_option index_calculate_size (children c)) (child_range first lst)) = 0"
    if "\<not> first < INDEX_CHILDMAX"
  proof -
    have "child_range first lst = []" using that assms by (simp add: wf_node_iff child_range_def word_less_nat_alt)
    then show ?thesis by simp
  qed
  have "first < INDEX_CHILDMAX \<longrightarrow> first \<le> lst" using assms by (simp add: wf_node_iff)
  note F = calc_size_field [OF this, of prefix vals]
  show ?thesis unfolding index_calculate_size.simps Let_def kids F using empty by simp
qed

lemma calc_same:
  "wf_node node \<Longrightarrow> wf_node (index_calculate_size node) \<and> n_prefix (index_calculate_size node) = n_prefix node
     \<and> n_values (index_calculate_size node) = n_values node
     \<and> n_children (index_calculate_size node) = (\<lambda>c. map_option index_calculate_size (n_children node c))"
proof (induction node)
  case (Node prefix vals first lst sz tot children)
  have "wf_node (index_calculate_size n)" if "children c = Some n" for c n
    using Node.IH [OF rangeI, of n c] that wf_node_child [OF Node.prems that] by auto
  then show ?case
    using calc_shape [OF Node.prems] Node.prems by (auto simp: wf_node_iff)
qed

lemma calc_trie_vals: "wf_node node \<Longrightarrow> trie_vals (index_calculate_size node) k = trie_vals node k"
proof (induction node k rule: trie_vals.induct)
  case (1 node key)
  have sub: "wf_node n" if "n_children node c = Some n" for c n
    using 1(2) that by (cases node) (auto simp: wf_node_iff)
  show ?case
    using calc_same [OF 1(2)] 1(1) sub
    by (simp add: trie_vals.simps [of "index_calculate_size node"] trie_vals.simps [of node] split: option.split list.split)
qed

lemma calc_sized:
  "wf_node node \<Longrightarrow> trie_len node < 2 ^ 32 \<Longrightarrow> sized (index_calculate_size node) \<and> unat (n_total (index_calculate_size node)) = trie_len node"
proof (induction node)
  case (Node prefix vals first lst sz tot children)
  let ?cs = "child_range first lst" and ?k = "\<lambda>c. map_option index_calculate_size (children c)"
  obtain sz' tot' where C: "index_calculate_size (Node prefix vals first lst sz tot children) = Node prefix vals first lst sz' tot' ?k"
    "sz' = of_nat (head_len prefix vals first lst)" "tot' = sum_totals (map ?k ?cs) + sz'"
    using calc_shape [OF Node.prems(1)] by blast
  have len: "trie_len (Node prefix vals first lst sz tot children)
      = head_len prefix vals first lst + opt_sum trie_len (map children ?cs)"
    by (simp add: opt_sum_map_option)
  have sub: "sized (index_calculate_size n) \<and> unat (n_total (index_calculate_size n)) = trie_len n" if cn: "children c = Some n" for c n
  proof -
    note W = wf_node_child [OF Node.prems(1) cn]
    from W(5) obtain i where i: "i < length (map children ?cs)" "map children ?cs ! i = Some n"
      using cn by (auto simp: in_set_conv_nth)
    have "trie_len n < 2 ^ 32" using opt_sum_nth [OF i, of trie_len] Node.prems(2) len by linarith
    then show ?thesis using Node.IH [OF rangeI, of n c] that W(1) by auto
  qed
  have t: "tots (map ?k ?cs) = opt_sum trie_len (map children ?cs)"
    unfolding opt_sum_map_option by (rule opt_sum_cong) (use sub in auto)
  have h: "unat sz' = head_len prefix vals first lst" using C(2) len Node.prems(2) by (simp add: unat_of_nat)
  have "unat (sum_totals (map ?k ?cs)) = tots (map ?k ?cs)"
    using t len Node.prems(2) by (intro sum_totals_tots) simp
  then have "unat tot' = head_len prefix vals first lst + tots (map ?k ?cs)"
    using C(3) h t len Node.prems(2) by (simp add: unat_word_ariths)
  then show ?case using C(1) h t len sub by (auto simp: sized_iff)
qed

section \<open>The written file\<close>

lemma length_child_offs [simp]: "length (child_offs base sizes ns) = length ns"
  by (induction base sizes ns rule: child_offs.induct) auto

lemma length_concat_enc32 [simp]: "length (concat (map enc32 ws)) = 4 * length ws"
  by (induction ws) auto

lemma length_write_values: "length (write_values vals)
    = (if vals \<noteq> [] then 4 + sum_list (map (\<lambda>(_, v). 4 + (length v + 1)) vals) else 0)"
proof -
  have "length (concat (map (\<lambda>(priority, value). enc32 priority @ value @ [NUL]) vals))
      = sum_list (map (\<lambda>(_, v). 4 + (length v + 1)) vals)"
    by (induction vals) auto
  then show ?thesis by (simp add: write_values_def)
qed

lemma length_write_head:
  assumes "first < INDEX_CHILDMAX \<longrightarrow> first \<le> lst" and "length offs = length (child_range first lst)"
  shows "length (write_head prefix vals first lst offs) = head_len prefix vals first lst"
proof -
  have "first < INDEX_CHILDMAX \<Longrightarrow> child_range first lst \<noteq> []"
    using assms(1) by (simp add: child_range_def word_le_nat_alt)
  then show ?thesis using assms(2) by (simp add: write_head_def head_len_def length_write_values)
qed

lemma length_write_children:
  assumes "\<forall>n off. Some n \<in> set ns \<longrightarrow> length (fst (W n off)) = unat (n_total n) \<and> snd (W n off) = n_total n"
  shows "length (write_children (map (map_option W) ns) off) = tots ns"
  using assms
proof (induction ns arbitrary: off)
  case (Cons x ns)
  then show ?case by (cases x) (auto simp: case_prod_beta)
qed simp

lemma write_children_nth:
  assumes "\<forall>n off. Some n \<in> set ns \<longrightarrow> length (fst (W n off)) = unat (n_total n) \<and> snd (W n off) = n_total n"
    and "i < length ns" and "ns ! i = Some n"
  shows "\<exists>pre post. write_children (map (map_option W) ns) off = pre @ fst (W n (off + of_nat (tots (take i ns)))) @ post
    \<and> length pre = tots (take i ns)"
  using assms
proof (induction ns arbitrary: off i)
  case (Cons x ns)
  show ?case
  proof (cases i)
    case 0
    then show ?thesis using Cons.prems
      by (auto simp: case_prod_beta intro!: exI [of _ "[]"])
  next
    case (Suc j)
    have H: "\<forall>n off. Some n \<in> set ns \<longrightarrow> length (fst (W n off)) = unat (n_total n) \<and> snd (W n off) = n_total n"
      and j: "j < length ns" "ns ! j = Some n" using Cons.prems Suc by auto
    show ?thesis
    proof (cases x)
      case None
      then show ?thesis using Cons.IH [OF H j, of off] Suc by simp
    next
      case (Some y)
      have y: "length (fst (W y off)) = unat (n_total y)" "snd (W y off) = n_total y"
        using Cons.prems(1) Some by auto
      obtain pre post where P: "write_children (map (map_option W) ns) (off + n_total y)
          = pre @ fst (W n (off + n_total y + of_nat (tots (take j ns)))) @ post" "length pre = tots (take j ns)"
        using Cons.IH [OF H j, of "off + n_total y"] by blast
      show ?thesis using P y Some Suc
        by (intro exI [of _ "fst (W y off) @ pre"] exI [of _ post]) (simp add: case_prod_beta add.assoc)
    qed
  qed
qed simp

lemma child_offs_nth:
  assumes "i < length ns" and "unat base + unat sizes + tots ns < 2 ^ 28"
  shows "child_offs base sizes ns ! i = (case ns ! i of None \<Rightarrow> 0
    | Some n \<Rightarrow> of_nat (unat base + unat sizes + tots (take i ns)) OR index_get_mask n)"
  using assms
proof (induction base sizes ns arbitrary: i rule: child_offs.induct)
  case (2 base sizes ns)
  then show ?case by (cases i) (auto split: option.split)
next
  case (3 base sizes n ns)
  have s: "unat (sizes + ucast (n_total n)) = unat sizes + unat (n_total n)"
    using "3.prems"(2) by (simp add: unat_word_ariths)
  show ?case
  proof (cases i)
    case 0
    have "unat (ucast base + sizes) = unat base + unat sizes"
      using "3.prems"(2) by (simp add: unat_word_ariths)
    then have "(ucast (ucast base + sizes) :: u32) = of_nat (unat base + unat sizes)"
      by (metis of_nat_unat)
    then show ?thesis using 0 by simp
  next
    case (Suc j)
    then show ?thesis using "3.IH" [of j] "3.prems" s by (simp add: add.assoc split: option.split)
  qed
qed simp

lemma write_node_length:
  "wf_node node \<Longrightarrow> sized node \<Longrightarrow> length (fst (index_write__node node off)) = unat (n_total node)
     \<and> snd (index_write__node node off) = n_total node"
proof (induction node arbitrary: off)
  case (Node prefix vals first lst sz tot children)
  let ?cs = "child_range first lst"
  let ?ns = "map children ?cs"
  have sub: "\<forall>n off. Some n \<in> set ?ns \<longrightarrow> length (fst (index_write__node n off)) = unat (n_total n)
      \<and> snd (index_write__node n off) = n_total n"
  proof (intro allI impI)
    fix n off assume "Some n \<in> set ?ns"
    then obtain c where c: "children c = Some n" by auto
    then show "length (fst (index_write__node n off)) = unat (n_total n) \<and> snd (index_write__node n off) = n_total n"
      using Node.IH [OF rangeI, of n c off] wf_node_child(1)[OF Node.prems(1) c] Node.prems(2)
      by (auto simp: sized_iff)
  qed
  have "?cs = []" if "\<not> first < INDEX_CHILDMAX"
    using that Node.prems(1) by (simp add: wf_node_iff child_range_def word_less_nat_alt)
  moreover have "first < INDEX_CHILDMAX \<longrightarrow> first \<le> lst" using Node.prems(1) by (simp add: wf_node_iff)
  ultimately show ?case
    using length_write_children [OF sub, of "off + sz", unfolded map_map comp_def] Node.prems(2)
    by (auto simp: length_write_head sized_iff Let_def)
qed

text \<open>
  \<open>stored m node off\<close>: the file \<open>m\<close> holds the encoding of \<open>node\<close> at \<open>off\<close>, with its child table, and
  each child at the place the table points to.
\<close>

definition child_pos :: "u8 \<Rightarrow> u8 \<Rightarrow> (nat \<Rightarrow> index_node option) \<Rightarrow> u32 \<Rightarrow> nat \<Rightarrow> u32" where
  "child_pos first lst children base c =
     base + of_nat (tots (take (c - unat first) (map children (child_range first lst))))"

inductive stored :: "char list \<Rightarrow> index_node \<Rightarrow> u32 \<Rightarrow> bool" for m where
  "m = pre @ write_head prefix vals first lst (child_offs (off + sz) 0 (map children (child_range first lst))) @ post
   \<Longrightarrow> length pre = unat off \<Longrightarrow> unat off + unat tot < 2 ^ 28
   \<Longrightarrow> (\<And>c n. children c = Some n \<Longrightarrow> stored m n (child_pos first lst children (off + sz) c))
   \<Longrightarrow> stored m (Node prefix vals first lst sz tot children) off"

inductive_cases stored_NodeE: "stored m (Node prefix vals first lst sz tot children) off"

lemma write_stored:
  "wf_node node \<Longrightarrow> sized node \<Longrightarrow> m = pre @ fst (index_write__node node off) @ post \<Longrightarrow> length pre = unat off
     \<Longrightarrow> unat off + unat (n_total node) < 2 ^ 28 \<Longrightarrow> stored m node off"
proof (induction node arbitrary: off pre post)
  case (Node prefix vals first lst sz tot children)
  let ?cs = "child_range first lst"
  let ?ns = "map children ?cs"
  let ?offs = "child_offs (off + sz) 0 ?ns"
  let ?head = "write_head prefix vals first lst ?offs"
  have S: "unat sz = head_len prefix vals first lst" "unat tot = unat sz + tots ?ns"
    and subs: "\<And>c n. children c = Some n \<Longrightarrow> sized n" using Node.prems(2) by (auto simp: sized_iff)
  have fl: "first < INDEX_CHILDMAX \<longrightarrow> first \<le> lst" using Node.prems(1) by (simp add: wf_node_iff)
  have os: "unat (off + sz) = unat off + unat sz"
    using Node.prems(5) S(2) by (simp add: unat_word_ariths)
  have len: "length ?head = unat sz" using length_write_head [OF fl] S(1) by simp
  have child: "stored m n (child_pos first lst children (off + sz) c)" if cn: "children c = Some n" for c n
  proof -
    note W = wf_node_child [OF Node.prems(1) cn]
    let ?i = "c - unat first"
    have i: "?i < length ?ns" "?ns ! ?i = Some n" using child_range_nth [OF W(5)] cn by auto
    have ws: "\<forall>n off. Some n \<in> set ?ns \<longrightarrow> length (fst (index_write__node n off)) = unat (n_total n)
        \<and> snd (index_write__node n off) = n_total n"
      using write_node_length wf_node_child(1)[OF Node.prems(1)] subs by auto
    obtain pre' post' where P: "write_children (map (map_option index_write__node) ?ns) (off + sz)
        = pre' @ fst (index_write__node n (child_pos first lst children (off + sz) c)) @ post'"
      "length pre' = tots (take ?i ?ns)"
      using write_children_nth [OF ws i] unfolding child_pos_def by blast
    have ne: "?cs \<noteq> []" using W(5) by auto
    have m: "m = (pre @ ?head @ pre') @ fst (index_write__node n (child_pos first lst children (off + sz) c)) @ (post' @ post)"
      using Node.prems(3) W(4) ne P(1) by (simp add: Let_def comp_def)
    have le: "tots (take ?i ?ns) + unat (n_total n) \<le> tots ?ns" using opt_sum_nth [OF i] by blast
    have pos: "unat (child_pos first lst children (off + sz) c) = unat off + unat sz + tots (take ?i ?ns)"
      using le Node.prems(5) S(2) os by (simp add: child_pos_def unat_word_ariths unat_of_nat)
    show ?thesis
      by (rule Node.IH [OF rangeI _ W(1) subs [OF cn] m])
        (use cn pos le len P(2) Node.prems(4,5) S(2) in simp_all)
  qed
  have "m = pre @ ?head @ ((if first < INDEX_CHILDMAX \<and> ?cs \<noteq> []
      then write_children (map (\<lambda>c. map_option index_write__node (children c)) ?cs) (off + sz) else []) @ post)"
    using Node.prems(3) by (simp add: Let_def)
  then show ?case using Node.prems(4,5) child by (intro stored.intros) simp_all
qed

section \<open>Properties\<close>

text \<open>
  C19. \<open>index_insert\<close> refines the update of a map from keys to value lists: on a well-formed trie and
  7-bit strings it always returns, splitting nodes as needed; the key gains the value at the place
  of its priority, every other key keeps its values, and the result is 1 exactly if the value was
  already stored under the key.
\<close>

theorem index_insert_refines:
  assumes "wf_node node" and "ascii key" and "ascii v"
  shows "\<exists>node'. index_insert node key v pri = Some (if v \<in> snd ` set (trie_vals node key) then 1 else 0, node')
    \<and> wf_node node'
    \<and> (\<forall>k. trie_vals node' k = (if k = key then value_insert (trie_vals node key) pri v else trie_vals node k))"
  by (rule index_insert_spec [OF assms])

theorem index_insert_refines_witness:
  "\<exists>node'. index_insert index_create ''loop'' ''l.ko'' 1 = Some (0, node') \<and> trie_vals node' ''loop'' = [(1, ''l.ko'')]"
  using index_insert_refines [OF index_create_spec(1), of "''loop''" "''l.ko''" 1] index_create_spec(2)
  by (auto simp: ascii_def)

end
