(* ===== verification/Kmod_Index_Mm.thy ===== *)
theory Kmod_Index_Mm
  imports Kmod_Index_Format Kmod_Strbuf
begin

text \<open>
  The reader half of the module index (\<open>libkmod/libkmod-index.c\<close>), on a memory-mapped file: opening
  and checking the header, decoding nodes, the exact search, the wildcard search (with the C
  library's \<open>fnmatch\<close> as a parameter) and the dump. A pointer into the map is an offset; every read
  is checked against the length of the file, so None is an access outside the map.

  The recursion over the tree takes fuel, since an arbitrary file may be cyclic; copies of single
  values (\<open>strdup\<close>, \<open>malloc\<close> of a value) are taken to succeed.
\<close>

section \<open>Data\<close>

record index_mm =
  mm :: "char list"
  mm_root_offset :: u32
  mm_size :: size_t

record index_mm_node =
  mn_prefix :: string
  mn_first :: u8
  mn_last :: u8
  mn_children :: nat
  mn_value_count :: size_t
  mn_values :: nat

section \<open>Buffered output\<close>

record wrtbuf =
  wb_bytes :: "char list"
  wb_out :: "char list"

definition wrtbuf_init :: wrtbuf where
  "wrtbuf_init = \<lparr>wb_bytes = [], wb_out = []\<rparr>"

text \<open>\<open>wb_out\<close> collects what is handed to \<open>write_str_safe\<close>, whose result the code ignores.\<close>

definition wrtbuf_flush :: "wrtbuf \<Rightarrow> wrtbuf" where
  "wrtbuf_flush buf =
     (if 0 < length (wb_bytes buf) then \<lparr>wb_bytes = [], wb_out = wb_out buf @ wb_bytes buf\<rparr> else buf)"

function wrtbuf_write :: "wrtbuf \<Rightarrow> char list \<Rightarrow> wrtbuf option" where
  "wrtbuf_write buf p =
     (if 4096 \<le> length (wb_bytes buf) then None
      else
        (let n = min (4096 - length (wb_bytes buf)) (length p);
             buf = buf\<lparr>wb_bytes := wb_bytes buf @ take n p\<rparr>;
             buf = (if length (wb_bytes buf) = 4096 then wrtbuf_flush buf else buf) in
         if 0 < length p - n then wrtbuf_write buf (drop n p) else Some buf))"
  by pat_completeness auto
termination
  by (relation "measure (\<lambda>(_, p). length p)") auto

declare wrtbuf_write.simps [simp del]

section \<open>Decoding\<close>

definition read_u32_mm :: "char list \<Rightarrow> nat \<Rightarrow> (u32 \<times> nat) option" where
  "read_u32_mm m p = (if p + 4 \<le> length m then Some (dec32 (take 4 (drop p m)), p + 4) else None)"

definition read_char_mm :: "char list \<Rightarrow> nat \<Rightarrow> (u8 \<times> nat) option" where
  "read_char_mm m p = (if p < length m then Some (of_char (m ! p), p + 1) else None)"

definition read_chars_mm :: "char list \<Rightarrow> nat \<Rightarrow> (string \<times> nat) option" where
  "read_chars_mm m p = map_option (\<lambda>s. (s, p + length s + 1)) (cstr_at m p)"

definition read_value_mm :: "char list \<Rightarrow> nat \<Rightarrow> (index_value \<times> nat) option" where
  "read_value_mm m p =
     do { (priority, p) \<leftarrow> read_u32_mm m p;
          (val, p) \<leftarrow> read_chars_mm m p;
          Some ((priority, val), p) }"

text \<open>
  The three parts of a node, each present if its flag is set in the offset: the prefix, the child
  table (first, last, the position of the table and the position behind it; the inner None is the
  rejection of a bad range) and the values (count and position).
\<close>

definition read_prefix_mm :: "char list \<Rightarrow> bool \<Rightarrow> nat \<Rightarrow> (string \<times> nat) option" where
  "read_prefix_mm m present p = (if present then read_chars_mm m p else Some ([], p))"

definition read_table_mm :: "char list \<Rightarrow> bool \<Rightarrow> nat \<Rightarrow> (u8 \<times> u8 \<times> nat \<times> nat) option option" where
  "read_table_mm m present p =
     (if present then
        do { (first, p) \<leftarrow> read_char_mm m p;
             (lst, p) \<leftarrow> read_char_mm m p;
             if lst < first \<or> INDEX_CHILDMAX \<le> first \<or> INDEX_CHILDMAX \<le> lst then Some None
             else
               (let child_count = unat lst - unat first + 1 in
                Some (Some (first, lst, p, p + 4 * child_count))) }
      else Some (Some (INDEX_CHILDMAX, 0, 0, p)))"

definition read_count_mm :: "char list \<Rightarrow> bool \<Rightarrow> nat \<Rightarrow> (size_t \<times> nat) option" where
  "read_count_mm m present p =
     (if present then do { (u, p) \<leftarrow> read_u32_mm m p; Some (ucast u, p) } else Some (0, 0))"

definition index_mm_read_node :: "index_mm \<Rightarrow> u32 \<Rightarrow> index_mm_node option option" where
  "index_mm_read_node idx offset =
     (if offset AND INDEX_NODE_MASK = 0 \<or> mm_size idx \<le> ucast (offset AND INDEX_NODE_MASK) then Some None
      else
        do { (prefix, p) \<leftarrow> read_prefix_mm (mm idx) (offset AND INDEX_NODE_PREFIX \<noteq> 0)
                             (unat (offset AND INDEX_NODE_MASK));
             r \<leftarrow> read_table_mm (mm idx) (offset AND INDEX_NODE_CHILDS \<noteq> 0) p;
             case r of
               None \<Rightarrow> Some None
             | Some (first, lst, children, p) \<Rightarrow>
                 do { (value_count, vals) \<leftarrow> read_count_mm (mm idx) (offset AND INDEX_NODE_VALUES \<noteq> 0) p;
                      Some (Some \<lparr>mn_prefix = prefix, mn_first = first, mn_last = lst, mn_children = children,
                                  mn_value_count = value_count, mn_values = vals\<rparr>) } })"

text \<open>
  \<open>file\<close> is what \<open>open\<close> and \<open>fstat\<close> give: an error or the contents; \<open>mmap_err\<close> the outcome of \<open>mmap\<close>.
\<close>

definition index_mm_open :: "bool \<Rightarrow> errno + char list \<Rightarrow> errno option \<Rightarrow> index_mm result" where
  "index_mm_open malloc_ok file mmap_err =
     (if \<not> malloc_ok then Inl ENOMEM
      else
        (case file of
           Inl err \<Rightarrow> Inl err
         | Inr m \<Rightarrow>
             if length m < 12 then Inl EINVAL
             else if 2 ^ 64 \<le> length m then Inl ENOMEM
             else
               (case mmap_err of
                  Some err \<Rightarrow> Inl err
                | None \<Rightarrow>
                    (let magic = dec32 (take 4 m);
                         version = dec32 (take 4 (drop 4 m));
                         root_offset = dec32 (take 4 (drop 8 m)) in
                     if magic \<noteq> INDEX_MAGIC then Inl EINVAL
                     else if drop_bit 16 version \<noteq> INDEX_VERSION_MAJOR then Inl EINVAL
                     else Inr \<lparr>mm = m, mm_root_offset = root_offset, mm_size = of_nat (length m)\<rparr>))))"

definition index_mm_readroot :: "index_mm \<Rightarrow> index_mm_node option option" where
  "index_mm_readroot idx = index_mm_read_node idx (mm_root_offset idx)"

definition index_mm_readchild :: "index_mm \<Rightarrow> index_mm_node \<Rightarrow> u8 \<Rightarrow> index_mm_node option option" where
  "index_mm_readchild idx parent ch =
     (if mn_first parent \<le> ch \<and> ch \<le> mn_last parent then
        do { (off, _) \<leftarrow> read_u32_mm (mm idx) (mn_children parent + 4 * (unat ch - unat (mn_first parent)));
             index_mm_read_node idx off }
      else Some None)"

section \<open>Dump\<close>

fun dump_values :: "char list \<Rightarrow> nat \<Rightarrow> nat \<Rightarrow> string \<Rightarrow> wrtbuf \<Rightarrow> wrtbuf option" where
  "dump_values m 0 p txt w = Some w"
| "dump_values m (Suc i) p txt w =
     do { (v, p) \<leftarrow> read_value_mm m p;
          w \<leftarrow> wrtbuf_write w txt;
          w \<leftarrow> wrtbuf_write w '' '';
          w \<leftarrow> wrtbuf_write w (snd v);
          w \<leftarrow> wrtbuf_write w [CHR 0x0A];
          dump_values m i p txt w }"

primrec index_mm_dump_node ::
    "nat \<Rightarrow> (size_t \<Rightarrow> bool) \<Rightarrow> index_mm \<Rightarrow> index_mm_node \<Rightarrow> strbuf \<times> wrtbuf \<Rightarrow> (strbuf \<times> wrtbuf) option" where
  "index_mm_dump_node 0 = (\<lambda>alloc idx node st. None)"
| "index_mm_dump_node (Suc fuel) = (\<lambda>alloc idx node (buf, wbuf).
     do { (pushed, buf) \<leftarrow> strbuf_pushchars alloc buf (mn_prefix node);
          wbuf \<leftarrow> dump_values (mm idx) (unat (mn_value_count node)) (mn_values node) (sb_text buf) wbuf;
          (buf, wbuf) \<leftarrow> foldM (\<lambda>ch (buf, wbuf).
              do { child \<leftarrow> index_mm_readchild idx node (of_nat ch);
                   case child of
                     None \<Rightarrow> Some (buf, wbuf)
                   | Some child \<Rightarrow>
                       do { (ok, buf) \<leftarrow> strbuf_pushchar alloc buf (char_of ch);
                            if ok then
                              do { (buf, wbuf) \<leftarrow> index_mm_dump_node fuel alloc idx child (buf, wbuf);
                                   buf \<leftarrow> strbuf_popchar buf;
                                   Some (buf, wbuf) }
                            else Some (buf, wbuf) } })
            (child_range (mn_first node) (mn_last node)) (buf, wbuf);
          buf \<leftarrow> strbuf_popchars buf pushed;
          Some (buf, wbuf) })"

definition index_mm_dump :: "nat \<Rightarrow> (size_t \<Rightarrow> bool) \<Rightarrow> index_mm \<Rightarrow> bool \<Rightarrow> char list option" where
  "index_mm_dump fuel alloc idx alias_prefix =
     do { root \<leftarrow> index_mm_readroot idx;
          case root of
            None \<Rightarrow> Some []
          | Some node \<Rightarrow>
              do { (pushed, buf) \<leftarrow> (if alias_prefix then strbuf_pushchars alloc (strbuf_with_stack 128) ''alias ''
                                     else Some (1, strbuf_with_stack 128));
                   wbuf \<leftarrow> (if pushed \<noteq> 0
                             then map_option snd (index_mm_dump_node fuel alloc idx node (buf, wrtbuf_init))
                             else Some wrtbuf_init);
                   Some (wb_out (wrtbuf_flush wbuf)) } }"

section \<open>Exact search\<close>

text \<open>The loop over the prefix; the rest of the key if it matches.\<close>

fun match_prefix :: "string \<Rightarrow> string \<Rightarrow> string option" where
  "match_prefix [] key = Some key"
| "match_prefix (c # p) [] = None"
| "match_prefix (c # p) (k # key) = (if same_char c k then match_prefix p key else None)"

lemma match_prefix_length: "match_prefix p key = Some r \<Longrightarrow> length r \<le> length key"
  by (induction p key rule: match_prefix.induct) (auto split: if_splits)

function index_mm_search_node :: "index_mm \<Rightarrow> index_mm_node option \<Rightarrow> string \<Rightarrow> string option option" where
  "index_mm_search_node idx node key =
     (case node of
        None \<Rightarrow> Some None
      | Some nd \<Rightarrow>
          (case match_prefix (mn_prefix nd) key of
             None \<Rightarrow> Some None
           | Some [] \<Rightarrow>
               (if 0 < mn_value_count nd then map_option Some (cstr_at (mm idx) (mn_values nd + 4))
                else Some None)
           | Some (c # rest) \<Rightarrow>
               do { child \<leftarrow> index_mm_readchild idx nd (of_char c);
                    index_mm_search_node idx child rest }))"
  by pat_completeness auto
termination
  by (relation "measure (\<lambda>(_, _, key). length key)") (auto dest: match_prefix_length)

declare index_mm_search_node.simps [simp del]

definition index_mm_search :: "index_mm \<Rightarrow> string \<Rightarrow> string option option" where
  "index_mm_search idx key =
     do { root \<leftarrow> index_mm_readroot idx;
          index_mm_search_node idx root key }"

section \<open>Wildcard search\<close>

definition add_value :: "index_value list \<Rightarrow> string \<Rightarrow> u32 \<Rightarrow> index_value list" where
  "add_value vals val priority = value_insert vals priority val"

fun searchwild_values :: "char list \<Rightarrow> nat \<Rightarrow> nat \<Rightarrow> index_value list \<Rightarrow> index_value list option" where
  "searchwild_values m 0 p out = Some out"
| "searchwild_values m (Suc i) p out =
     do { (v, p) \<leftarrow> read_value_mm m p;
          searchwild_values m i p (add_value out (snd v) (fst v)) }"

definition index_mm_searchwild_allvalues ::
    "index_mm \<Rightarrow> index_mm_node \<Rightarrow> index_value list \<Rightarrow> index_value list option" where
  "index_mm_searchwild_allvalues idx node out =
     searchwild_values (mm idx) (unat (mn_value_count node)) (mn_values node) out"

definition match_values ::
    "(string \<Rightarrow> string \<Rightarrow> bool) \<Rightarrow> index_mm \<Rightarrow> index_mm_node \<Rightarrow> string \<Rightarrow> strbuf \<times> index_value list
      \<Rightarrow> (strbuf \<times> index_value list) option" where
  "match_values fnmatch idx node subkey = (\<lambda>(buf, out).
     if 0 < mn_value_count node then
       do { (s, buf) \<leftarrow> strbuf_str buf;
            out \<leftarrow> (if fnmatch s subkey then index_mm_searchwild_allvalues idx node out else Some out);
            Some (buf, out) }
     else Some (buf, out))"

primrec index_mm_searchwild_all ::
    "nat \<Rightarrow> (string \<Rightarrow> string \<Rightarrow> bool) \<Rightarrow> (size_t \<Rightarrow> bool) \<Rightarrow> index_mm \<Rightarrow> index_mm_node \<Rightarrow> nat \<Rightarrow> string
      \<Rightarrow> strbuf \<times> index_value list \<Rightarrow> (strbuf \<times> index_value list) option" where
  "index_mm_searchwild_all 0 = (\<lambda>fnmatch alloc idx node j subkey st. None)"
| "index_mm_searchwild_all (Suc fuel) = (\<lambda>fnmatch alloc idx node j subkey (buf, out).
     do { (pushed, buf) \<leftarrow> strbuf_pushchars alloc buf (drop j (mn_prefix node));
          (buf, out) \<leftarrow> foldM (\<lambda>ch (buf, out).
              do { child \<leftarrow> index_mm_readchild idx node (of_nat ch);
                   case child of
                     None \<Rightarrow> Some (buf, out)
                   | Some child \<Rightarrow>
                       do { (ok, buf) \<leftarrow> strbuf_pushchar alloc buf (char_of ch);
                            if ok then
                              do { (buf, out) \<leftarrow> index_mm_searchwild_all fuel fnmatch alloc idx child 0 subkey (buf, out);
                                   buf \<leftarrow> strbuf_popchar buf;
                                   Some (buf, out) }
                            else Some (buf, out) } })
            (child_range (mn_first node) (mn_last node)) (buf, out);
          (buf, out) \<leftarrow> match_values fnmatch idx node subkey (buf, out);
          buf \<leftarrow> strbuf_popchars buf pushed;
          Some (buf, out) })"

text \<open>
  The loop over the prefix of level 2: it stops at a wildcard (position \<open>j\<close>), at a mismatch, or
  at the end of the prefix.
\<close>

datatype prefix_end = Wild nat | Mismatch | Rest string

abbreviation wildcard :: "char \<Rightarrow> bool" where
  "wildcard c \<equiv> c = CHR ''*'' \<or> c = CHR ''?'' \<or> c = CHR ''[''"

fun wild_prefix :: "nat \<Rightarrow> string \<Rightarrow> string \<Rightarrow> prefix_end" where
  "wild_prefix j [] key = Rest key"
| "wild_prefix j (c # p) key =
     (if wildcard c then Wild j
      else (case key of
              [] \<Rightarrow> Mismatch
            | k # key' \<Rightarrow> if same_char c k then wild_prefix (Suc j) p key' else Mismatch))"

definition try_wild_child ::
    "nat \<Rightarrow> (string \<Rightarrow> string \<Rightarrow> bool) \<Rightarrow> (size_t \<Rightarrow> bool) \<Rightarrow> index_mm \<Rightarrow> index_mm_node \<Rightarrow> string \<Rightarrow> char
      \<Rightarrow> strbuf \<times> index_value list \<Rightarrow> (strbuf \<times> index_value list) option" where
  "try_wild_child fuel fnmatch alloc idx node key w = (\<lambda>(buf, out).
     do { child \<leftarrow> index_mm_readchild idx node (of_char w);
          case child of
            None \<Rightarrow> Some (buf, out)
          | Some child \<Rightarrow>
              do { (ok, buf) \<leftarrow> strbuf_pushchar alloc buf w;
                   if ok then
                     do { (buf, out) \<leftarrow> index_mm_searchwild_all fuel fnmatch alloc idx child 0 key (buf, out);
                          buf \<leftarrow> strbuf_popchar buf;
                          Some (buf, out) }
                   else Some (buf, out) } })"

lemma wild_prefix_length: "wild_prefix j p key = Rest r \<Longrightarrow> length r \<le> length key"
  by (induction j p key rule: wild_prefix.induct) (auto split: if_splits list.splits)

function index_mm_searchwild_node ::
    "nat \<Rightarrow> (string \<Rightarrow> string \<Rightarrow> bool) \<Rightarrow> (size_t \<Rightarrow> bool) \<Rightarrow> index_mm \<Rightarrow> index_mm_node option \<Rightarrow> string
      \<Rightarrow> strbuf \<times> index_value list \<Rightarrow> (strbuf \<times> index_value list) option" where
  "index_mm_searchwild_node fuel fnmatch alloc idx node key st =
     (case node of
        None \<Rightarrow> Some st
      | Some nd \<Rightarrow>
          (case wild_prefix 0 (mn_prefix nd) key of
             Wild j \<Rightarrow> index_mm_searchwild_all fuel fnmatch alloc idx nd j (drop j key) st
           | Mismatch \<Rightarrow> Some st
           | Rest key' \<Rightarrow>
               do { st \<leftarrow> try_wild_child fuel fnmatch alloc idx nd key' CHR ''*'' st;
                    st \<leftarrow> try_wild_child fuel fnmatch alloc idx nd key' CHR ''?'' st;
                    (buf, out) \<leftarrow> try_wild_child fuel fnmatch alloc idx nd key' CHR ''['' st;
                    case key' of
                      [] \<Rightarrow> map_option (Pair buf) (index_mm_searchwild_allvalues idx nd out)
                    | c # rest \<Rightarrow>
                        do { child \<leftarrow> index_mm_readchild idx nd (of_char c);
                             index_mm_searchwild_node fuel fnmatch alloc idx child rest (buf, out) } }))"
  by pat_completeness auto
termination
  by (relation "measure (\<lambda>(_, _, _, _, _, key, _). length key)") (auto dest: wild_prefix_length)

declare index_mm_searchwild_node.simps [simp del]

definition index_mm_searchwild ::
    "nat \<Rightarrow> (string \<Rightarrow> string \<Rightarrow> bool) \<Rightarrow> (size_t \<Rightarrow> bool) \<Rightarrow> index_mm \<Rightarrow> string \<Rightarrow> index_value list option" where
  "index_mm_searchwild fuel fnmatch alloc idx key =
     do { root \<leftarrow> index_mm_readroot idx;
          (_, out) \<leftarrow> index_mm_searchwild_node fuel fnmatch alloc idx root key (strbuf_with_stack 128, []);
          Some out }"

end
