(* ===== verification/Kmod_Index_Roundtrip.thy ===== *)
theory Kmod_Index_Roundtrip
  imports Kmod_Index_Write Kmod_Index_Mm
begin

text \<open>
  The writer and the reader of the module index together: a file written by \<open>index_write\<close> from a
  well-formed trie is decoded by the memory-mapped reader to the same trie, so that searching the
  file is looking up the trie. The bound is that of the format: offsets have 28 bits.
\<close>

section \<open>Bits of a node offset\<close>

lemma off_bits:
  fixes off :: u32
  assumes "unat off < 2 ^ 28"
  shows "off AND INDEX_NODE_MASK = off" "off AND INDEX_NODE_PREFIX = 0" "off AND INDEX_NODE_CHILDS = 0"
    "off AND INDEX_NODE_VALUES = 0"
proof -
  have m: "(INDEX_NODE_MASK :: u32) = mask 28" by (simp add: mask_eq_exp_minus_1)
  have "take_bit 28 off = off" using assms
    by (intro word_unat_eq_iff [THEN iffD2]) (simp add: unsigned_take_bit_eq take_bit_nat_eq_self)
  then show 1: "off AND INDEX_NODE_MASK = off" unfolding m by (simp add: take_bit_eq_mask)
  have e: "off AND x = off AND (INDEX_NODE_MASK AND x)" for x :: u32
    by (simp only: and.assoc [symmetric] 1)
  show "off AND INDEX_NODE_PREFIX = 0" "off AND INDEX_NODE_CHILDS = 0" "off AND INDEX_NODE_VALUES = 0"
    by (subst e, simp)+
qed

lemma mask_bits:
  assumes "unat off < 2 ^ 28"
  shows "(off OR index_get_mask n) AND INDEX_NODE_MASK = off"
    "(off OR index_get_mask n) AND INDEX_NODE_PREFIX \<noteq> 0 \<longleftrightarrow> n_prefix n \<noteq> []"
    "(off OR index_get_mask n) AND INDEX_NODE_CHILDS \<noteq> 0 \<longleftrightarrow> index__haschildren n"
    "(off OR index_get_mask n) AND INDEX_NODE_VALUES \<noteq> 0 \<longleftrightarrow> n_values n \<noteq> []"
  unfolding bit.conj_disj_distrib2 off_bits [OF assms] index_get_mask_def by auto

section \<open>Decoding what was encoded\<close>

lemma read_u32_append: "read_u32_mm (xs @ enc32 w @ ys) (length xs) = Some (w, length xs + 4)"
  by (simp add: read_u32_mm_def)

lemma read_chars_append: "nul_free s \<Longrightarrow> read_chars_mm (xs @ s @ NUL # ys) (length xs) = Some (s, length xs + length s + 1)"
  by (simp add: read_chars_mm_def cstr_at_append)

lemma read_char_append: "read_char_mm (xs @ c # ys) (length xs) = Some (of_char c, length xs + 1)"
  by (simp add: read_char_mm_def)

lemma read_value_append:
  "nul_free v \<Longrightarrow> read_value_mm (xs @ enc32 p @ v @ NUL # ys) (length xs) = Some ((p, v), length xs + 4 + length v + 1)"
  using read_u32_append [of xs p "v @ NUL # ys"] read_chars_append [of v "xs @ enc32 p" ys]
  by (simp add: read_value_mm_def)

text \<open>The values of a node, as the loops of the reader see them.\<close>

fun read_values :: "char list \<Rightarrow> nat \<Rightarrow> nat \<Rightarrow> index_value list option" where
  "read_values m 0 p = Some []"
| "read_values m (Suc i) p = do { (v, p) \<leftarrow> read_value_mm m p; map_option (Cons v) (read_values m i p) }"

lemma read_values_append:
  "\<forall>v \<in> set vs. nul_free (snd v) \<Longrightarrow>
     read_values (xs @ concat (map (\<lambda>(p, v). enc32 p @ v @ [NUL]) vs) @ ys) (length vs) (length xs) = Some vs"
proof (induction vs arbitrary: xs)
  case (Cons pv vs)
  obtain p v where pv: "pv = (p, v)" by (cases pv)
  let ?t = "concat (map (\<lambda>(p, v). enc32 p @ v @ [NUL]) vs) @ ys"
  have m: "xs @ concat (map (\<lambda>(p, v). enc32 p @ v @ [NUL]) (pv # vs)) @ ys = xs @ enc32 p @ v @ NUL # ?t"
    by (simp add: pv)
  have m': "xs @ enc32 p @ v @ NUL # ?t = (xs @ enc32 p @ v @ [NUL]) @ ?t" by simp
  have "read_values (xs @ enc32 p @ v @ NUL # ?t) (length vs) (length xs + 4 + length v + 1) = Some vs"
    unfolding m' using Cons.IH [of "xs @ enc32 p @ v @ [NUL]"] Cons.prems by (simp add: ac_simps)
  then show ?case unfolding m using Cons.prems read_value_append [of v xs p ?t] by (simp add: pv ac_simps)
qed simp

lemma concat_enc32_nth:
  "i < length ws \<Longrightarrow> \<exists>a b. concat (map enc32 ws) = a @ enc32 (ws ! i) @ b \<and> length a = 4 * i"
proof -
  assume i: "i < length ws"
  have "concat (map enc32 ws) = concat (map enc32 (take i ws)) @ enc32 (ws ! i) @ concat (map enc32 (drop (Suc i) ws))"
    by (subst id_take_nth_drop [OF i]) simp
  moreover have "length (concat (map enc32 (take i ws))) = 4 * i" using i by simp
  ultimately show ?thesis by blast
qed

section \<open>A stored node is read back\<close>

text \<open>
  \<open>represents idx nd node off\<close>: the decoded node \<open>nd\<close> shows what the trie node at \<open>off\<close> holds, and
  following a child pointer decodes the child where the writer put it.
\<close>

definition kid_off :: "index_node \<Rightarrow> u32 \<Rightarrow> nat \<Rightarrow> u32" where
  "kid_off node off c = child_pos (n_first node) (n_last node) (n_children node) (off + n_size node) c"

definition represents :: "index_mm \<Rightarrow> index_mm_node \<Rightarrow> index_node \<Rightarrow> u32 \<Rightarrow> bool" where
  "represents idx nd node off \<longleftrightarrow> mn_prefix nd = n_prefix node
     \<and> unat (mn_value_count nd) = length (n_values node)
     \<and> read_values (mm idx) (length (n_values node)) (mn_values nd) = Some (n_values node)
     \<and> unat (mn_first nd) = (if index__haschildren node then unat (n_first node) else 128)
     \<and> unat (mn_last nd) = (if index__haschildren node then unat (n_last node) else 0)
     \<and> (\<forall>ch. index_mm_readchild idx nd ch = (case n_children node (unat ch) of
           None \<Rightarrow> Some None
         | Some n \<Rightarrow> index_mm_read_node idx (kid_off node off (unat ch) OR index_get_mask n)))"

definition mm_ok :: "index_mm \<Rightarrow> bool" where
  "mm_ok idx \<longleftrightarrow> mm_size idx = of_nat (length (mm idx)) \<and> length (mm idx) < 2 ^ 64"

lemma of_char_char_of_u8 [simp]: "of_char (char_of (unat (w :: u8))) = w"
  using unat_lt_8 [of w] by (intro word_unat_eq_iff [THEN iffD2]) simp

lemma read_prefix:
  assumes "m = pre @ (if prefix \<noteq> [] then prefix @ [NUL] else []) @ rest" and "nul_free prefix"
  shows "read_prefix_mm m (prefix \<noteq> []) (length pre)
    = Some (prefix, length (pre @ (if prefix \<noteq> [] then prefix @ [NUL] else [])))"
  using assms read_chars_append [of prefix pre rest] by (auto simp: read_prefix_mm_def)

lemma read_child_table:
  assumes m: "m = xs @ [char_of (unat first), char_of (unat lst)] @ concat (map enc32 offs) @ ys"
    and fl: "first \<le> lst" "unat lst < 128"
  shows "read_table_mm m True (length xs)
    = Some (Some (first, lst, length xs + 2, length xs + 2 + 4 * length (child_range first lst)))"
proof -
  have m2: "m = (xs @ [char_of (unat first)]) @ char_of (unat lst) # (concat (map enc32 offs) @ ys)" using m by simp
  have r1: "read_char_mm m (length xs) = Some (first, length xs + 1)"
    using read_char_append [of xs "char_of (unat first)"] m by simp
  have r2: "read_char_mm m (length xs + 1) = Some (lst, length xs + 2)"
    using read_char_append [of "xs @ [char_of (unat first)]" "char_of (unat lst)" "concat (map enc32 offs) @ ys"] m2 by simp
  have ok: "\<not> (lst < first \<or> INDEX_CHILDMAX \<le> first \<or> INDEX_CHILDMAX \<le> lst)"
    using fl by (auto simp: word_less_nat_alt word_le_nat_alt)
  have "unat lst - unat first + 1 = length (child_range first lst)"
    using fl(1) by (simp add: child_range_def word_le_nat_alt)
  then show ?thesis using r1 r2 ok by (simp add: read_table_mm_def Let_def)
qed

lemma read_value_table:
  assumes m: "m = xs @ write_values vs @ ys" and "\<forall>v \<in> set vs. nul_free (snd v)" and "length vs < 2 ^ 32"
  shows "\<exists>cnt vp. read_count_mm m (vs \<noteq> []) (length xs) = Some (cnt, vp)
    \<and> unat cnt = length vs \<and> read_values m (length vs) vp = Some vs"
proof (cases "vs = []")
  case False
  let ?c = "concat (map (\<lambda>(priority, v). enc32 priority @ v @ [NUL]) vs)"
  have m1: "m = xs @ enc32 (of_nat (length vs)) @ ?c @ ys" using m False by (simp add: write_values_def)
  have m2: "m = (xs @ enc32 (of_nat (length vs))) @ ?c @ ys" using m1 by simp
  have "read_u32_mm m (length xs) = Some (of_nat (length vs), length xs + 4)"
    using read_u32_append [of xs "of_nat (length vs)" "?c @ ys"] m1 by simp
  moreover have "read_values m (length vs) (length xs + 4) = Some vs"
    using read_values_append [OF assms(2), of "xs @ enc32 (of_nat (length vs))" ys] m2 by simp
  moreover have "unat (of_nat (length vs) :: u32) = length vs" using assms(3) by (rule unat_of_nat_32)
  ultimately show ?thesis using False by (simp add: read_count_mm_def)
qed (simp add: read_count_mm_def)

lemma length_vals_le: "length vs \<le> length (write_values vs)"
proof -
  have "length vs \<le> sum_list (map (\<lambda>(_, v). 4 + (length v + 1)) vs)" by (induction vs) auto
  then show ?thesis by (simp add: length_write_values)
qed

lemma read_node_stored:
  assumes ok: "mm_ok idx" and st: "stored (mm idx) node off" and wf: "wf_node node" and sz: "sized node"
    and pos: "0 < unat off" and lt: "unat off < length (mm idx)"
  shows "\<exists>nd. index_mm_read_node idx (off OR index_get_mask node) = Some (Some nd) \<and> represents idx nd node off"
proof -
  obtain prefix vs first lst s t children where node: "node = Node prefix vs first lst s t children" by (cases node)
  let ?cs = "child_range first lst"
  let ?offs = "child_offs (off + s) 0 (map children ?cs)"
  let ?A = "if prefix \<noteq> [] then prefix @ [NUL] else []"
  let ?B = "if first < INDEX_CHILDMAX then [char_of (unat first), char_of (unat lst)] @ concat (map enc32 ?offs) else []"
  let ?m = "mm idx"
  have W: "ascii prefix" "\<forall>v \<in> set vs. ascii (snd v)" "unat lst < 128" "first < INDEX_CHILDMAX \<longrightarrow> first \<le> lst"
    using wf by (auto simp: node wf_node_iff)
  have nf: "nul_free prefix" "\<forall>v \<in> set vs. nul_free (snd v)" using W by (auto simp: ascii_def)
  have S: "unat s = head_len prefix vs first lst" "unat t = unat s + tots (map children ?cs)"
    using sz by (auto simp: node sized_iff)
  have ne: "first < INDEX_CHILDMAX \<Longrightarrow> ?cs \<noteq> []" using W(4) by (simp add: child_range_def word_le_nat_alt)
  obtain pre post where m0: "?m = pre @ write_head prefix vs first lst ?offs @ post" and pl: "length pre = unat off"
    and bound: "unat off + unat t < 2 ^ 28"
    using st unfolding node by (elim stored_NodeE) auto
  have head: "write_head prefix vs first lst ?offs = ?A @ ?B @ write_values vs"
    using ne by (simp add: write_head_def)
  have m: "?m = pre @ ?A @ (?B @ write_values vs @ post)" using m0 head by simp
  have off28: "unat off < 2 ^ 28" using bound by simp
  note bits = mask_bits [OF off28, of node]
  have "length vs \<le> length (write_head prefix vs first lst ?offs)" using length_vals_le [of vs] by (simp add: head)
  also have "\<dots> = unat s" using length_write_head [OF W(4), of ?offs] S(1) by simp
  finally have lv: "length vs < 2 ^ 32" using bound S(2) by simp
  obtain cnt vp where V: "read_count_mm ?m (vs \<noteq> []) (length (pre @ ?A @ ?B)) = Some (cnt, vp)"
    "unat cnt = length vs" "read_values ?m (length vs) vp = Some vs"
    using read_value_table [of ?m "pre @ ?A @ ?B" vs post] m nf(2) lv by auto
  define tbl where "tbl = length (pre @ ?A) + 2"
  define nd where "nd = \<lparr>mn_prefix = prefix, mn_first = if first < INDEX_CHILDMAX then first else INDEX_CHILDMAX,
    mn_last = if first < INDEX_CHILDMAX then lst else 0, mn_children = if first < INDEX_CHILDMAX then tbl else 0,
    mn_value_count = cnt, mn_values = vp\<rparr>"
  define oo where "oo = off OR index_get_mask node"
  have O: "oo AND INDEX_NODE_MASK = off" "oo AND INDEX_NODE_PREFIX = 0 \<longleftrightarrow> prefix = []"
    "oo AND INDEX_NODE_CHILDS = 0 \<longleftrightarrow> \<not> first < INDEX_CHILDMAX" "oo AND INDEX_NODE_VALUES = 0 \<longleftrightarrow> vs = []"
    using bits by (auto simp: oo_def node index__haschildren_def)
  have O': "oo AND INDEX_NODE_PREFIX \<noteq> 0 \<longleftrightarrow> prefix \<noteq> []" "oo AND INDEX_NODE_CHILDS \<noteq> 0 \<longleftrightarrow> first < INDEX_CHILDMAX"
    "oo AND INDEX_NODE_VALUES \<noteq> 0 \<longleftrightarrow> vs \<noteq> []" using O by auto
  have size: "\<not> mm_size idx \<le> ucast off" using ok lt by (simp add: mm_ok_def word_le_nat_alt unat_of_nat)
  have "off \<noteq> 0" using pos by auto
  note P = read_prefix [OF m nf(1), unfolded pl]
  have rd: "index_mm_read_node idx oo = Some (Some nd)"
  proof (cases "first < INDEX_CHILDMAX")
    case True
    have "?m = (pre @ ?A) @ [char_of (unat first), char_of (unat lst)] @ concat (map enc32 ?offs) @ (write_values vs @ post)"
      using m True by simp
    note T = read_child_table [OF this W(4)[rule_format, OF True] W(3)]
    have "length (pre @ ?A) + 2 + 4 * length ?cs = length (pre @ ?A @ ?B)" using True by simp
    then show ?thesis using True T P V size \<open>off \<noteq> 0\<close>
      unfolding index_mm_read_node_def O(1) O' by (simp add: nd_def tbl_def del: length_append)
  next
    case False
    then show ?thesis using P V size \<open>off \<noteq> 0\<close>
      unfolding index_mm_read_node_def O(1) O'
      by (simp add: nd_def read_table_mm_def del: length_append)
  qed
  have os: "unat (off + s) = unat off + unat s" using bound S(2) by (simp add: unat_word_ariths)
  have kids: "index_mm_readchild idx nd ch = (case children (unat ch) of None \<Rightarrow> Some None
      | Some n \<Rightarrow> index_mm_read_node idx (kid_off node off (unat ch) OR index_get_mask n))" for ch
  proof (cases "first < INDEX_CHILDMAX \<and> unat ch \<in> set ?cs")
    case True
    let ?i = "unat ch - unat first"
    note N = child_range_nth [OF True [THEN conjunct2]]
    have rng: "mn_first nd \<le> ch" "ch \<le> mn_last nd"
      using True by (auto simp: nd_def child_range_def word_le_nat_alt)
    obtain a b where ab: "concat (map enc32 ?offs) = a @ enc32 (?offs ! ?i) @ b" "length a = 4 * ?i"
      using concat_enc32_nth [of ?i ?offs] N by auto
    have m': "?m = (pre @ ?A @ [char_of (unat first), char_of (unat lst)] @ a) @ enc32 (?offs ! ?i) @ (b @ write_values vs @ post)"
      using m True ab(1) by simp
    have "length (pre @ ?A @ [char_of (unat first), char_of (unat lst)] @ a) = tbl + 4 * ?i"
      using ab(2) by (simp add: tbl_def)
    then have rd: "read_u32_mm ?m (tbl + 4 * ?i) = Some (?offs ! ?i, tbl + 4 * ?i + 4)"
      by (metis m' read_u32_append)
    have "?offs ! ?i = (case children (unat ch) of None \<Rightarrow> 0
        | Some n \<Rightarrow> of_nat (unat (off + s) + tots (take ?i (map children ?cs))) OR index_get_mask n)"
      using child_offs_nth [of ?i "map children ?cs" "off + s" 0] N os bound S(2) by (simp split: option.split)
    then show ?thesis using True rng rd
      by (auto simp: index_mm_readchild_def nd_def kid_off_def child_pos_def node index_mm_read_node_def [of idx 0]
          split: option.split)
  next
    case False
    have "\<not> (mn_first nd \<le> ch \<and> ch \<le> mn_last nd)"
      using False by (auto simp: nd_def child_range_def word_le_nat_alt)
    moreover have "children (unat ch) = None"
      using False wf_node_child(4,5)[OF wf [unfolded node], of "unat ch"] by (cases "children (unat ch)") auto
    ultimately show ?thesis by (auto simp: index_mm_readchild_def)
  qed
  have "represents idx nd node off"
    unfolding represents_def using kids V(2,3) by (simp add: nd_def node index__haschildren_def)
  then show ?thesis using rd by (auto simp: oo_def)
qed

lemma read_node_empty:
  assumes ok: "mm_ok idx" and st: "stored (mm idx) node off" and wf: "wf_node node" and sz: "sized node"
    and ge: "length (mm idx) \<le> unat off"
  shows "index_mm_read_node idx (off OR index_get_mask node) = Some None" "trie_vals node k = []"
    "n_values node = []" "n_children node c = None"
proof -
  obtain prefix vs first lst s t children where node: "node = Node prefix vs first lst s t children" by (cases node)
  let ?offs = "child_offs (off + s) 0 (map children (child_range first lst))"
  have fl: "first < INDEX_CHILDMAX \<longrightarrow> first \<le> lst" using wf by (simp add: node wf_node_iff)
  obtain pre post where m0: "mm idx = pre @ write_head prefix vs first lst ?offs @ post" "length pre = unat off"
    and bound: "unat off + unat t < 2 ^ 28"
    using st unfolding node by (elim stored_NodeE) auto
  then have "length (write_head prefix vs first lst ?offs) = 0" using ge by simp
  then have "head_len prefix vs first lst = 0" using length_write_head [OF fl, of ?offs] by simp
  then have empty: "prefix = []" "vs = []" "\<not> first < INDEX_CHILDMAX" by (auto simp: head_len_def split: if_splits)
  have kids: "children c = None" for c using wf_node_child(4)[OF wf [unfolded node], of c] empty(3) by (cases "children c") auto
  then show "n_values node = []" "n_children node c = None" using empty by (simp_all add: node)
  show "trie_vals node k = []"
    using kids trie_vals_Node [of "[]" vs first lst s t children k] empty by (simp add: node split: list.splits)
  have "unat off < 2 ^ 28" using bound by simp
  note bits = mask_bits(1) [OF this, of node]
  show "index_mm_read_node idx (off OR index_get_mask node) = Some None"
    using ok ge by (simp add: index_mm_read_node_def bits mm_ok_def word_le_nat_alt unat_of_nat)
qed

section \<open>Searching the file is looking up the trie\<close>

lemma match_prefix_ascii: "ascii p \<Longrightarrow> match_prefix p key = strip p key"
  by (induction p key rule: match_prefix.induct) (auto simp: same_char_def)

lemma stored_child:
  assumes "stored m node off" and "wf_node node" and "sized node" and "n_children node c = Some n" and "0 < unat off"
  shows "stored m n (kid_off node off c)" "wf_node n" "sized n" "0 < unat (kid_off node off c)"
proof -
  obtain prefix vs first lst s t children where node: "node = Node prefix vs first lst s t children" by (cases node)
  have st: "stored m (Node prefix vs first lst s t children) off" using assms(1) node by simp
  then show "stored m n (kid_off node off c)"
    by (rule stored_NodeE) (use assms(4) in \<open>auto simp: kid_off_def node\<close>)
  have bound: "unat off + unat t < 2 ^ 28" using st by (rule stored_NodeE) simp
  show "wf_node n" using wf_node_child(1)[OF assms(2)[unfolded node], of c n] assms(4) by (simp add: node)
  show "sized n" using assms(3,4) by (auto simp: node sized_iff)
  let ?ns = "map children (child_range first lst)"
  have "unat t = unat s + tots ?ns" using assms(3) by (auto simp: node sized_iff)
  moreover have "tots (take (c - unat first) ?ns) \<le> tots ?ns" by (rule opt_sum_take_le)
  ultimately show "0 < unat (kid_off node off c)"
    using bound assms(5) by (simp add: kid_off_def child_pos_def node unat_word_ariths unat_of_nat)
qed

lemma search_node_stored:
  assumes "mm_ok idx"
  shows "stored (mm idx) node off \<Longrightarrow> wf_node node \<Longrightarrow> sized node \<Longrightarrow> 0 < unat off \<Longrightarrow>
    do { nd \<leftarrow> index_mm_read_node idx (off OR index_get_mask node); index_mm_search_node idx nd key }
    = Some (case trie_vals node key of [] \<Rightarrow> None | (_, v) # _ \<Rightarrow> Some v)"
proof (induction key arbitrary: node off rule: length_induct)
  case (1 key)
  show ?case
  proof (cases "unat off < length (mm idx)")
    case False
    then show ?thesis
      using read_node_empty(1) [OF assms "1.prems"(1-3)] read_node_empty(2) [OF assms "1.prems"(1-3), of key] by (simp add: index_mm_search_node.simps)
  next
    case True
    obtain nd where nd: "index_mm_read_node idx (off OR index_get_mask node) = Some (Some nd)" "represents idx nd node off"
      using read_node_stored [OF assms "1.prems" True] by blast
    note R = nd(2)[unfolded represents_def]
    have asc: "ascii (n_prefix node)" using "1.prems"(2) by (cases node) (simp add: wf_node_iff)
    show ?thesis
    proof (cases "strip (n_prefix node) key")
      case None
      then show ?thesis
        using nd(1) R match_prefix_ascii [OF asc] by (simp add: index_mm_search_node.simps trie_vals.simps)
    next
      case (Some r)
      show ?thesis
      proof (cases r)
        case Nil
        show ?thesis
        proof (cases "n_values node")
          case Nil' [simp]: Nil
          have "mn_value_count nd = 0" using R by (simp add: unat_eq_zero)
          then show ?thesis using Some Nil nd(1) R match_prefix_ascii [OF asc]
            by (simp add: index_mm_search_node.simps trie_vals.simps)
        next
          case (Cons pv vs)
          have "mn_value_count nd \<noteq> 0" using R Cons by auto
          then have pos: "0 < mn_value_count nd" by (simp add: word_gt_0)
          obtain p where "read_value_mm (mm idx) (mn_values nd) = Some (pv, p)"
            using R Cons by (auto simp: bind_eq_Some_conv split: prod.splits)
          then have "cstr_at (mm idx) (mn_values nd + 4) = Some (snd pv)"
            by (auto simp: read_value_mm_def read_u32_mm_def read_chars_mm_def bind_eq_Some_conv split: if_splits)
          then show ?thesis using Some Nil nd(1) R match_prefix_ascii [OF asc] Cons pos
            by (simp add: index_mm_search_node.simps trie_vals.simps [of node] case_prod_beta)
        qed
      next
        case (Cons c rest)
        have len: "length rest < length key" using Some Cons by (auto simp: strip_iff)
        have rc: "index_mm_readchild idx nd (of_char c) = (case n_children node (code c) of
           None \<Rightarrow> Some None
         | Some n \<Rightarrow> index_mm_read_node idx (kid_off node off (code c) OR index_get_mask n))"
          using R by (simp split: option.split)
        have step: "index_mm_search_node idx (Some nd) key
            = do { child \<leftarrow> index_mm_readchild idx nd (of_char c); index_mm_search_node idx child rest }"
          using Some Cons R match_prefix_ascii [OF asc] by (subst index_mm_search_node.simps) simp
        show ?thesis
        proof (cases "n_children node (code c)")
          case None
          then show ?thesis using nd(1) step rc Some Cons
            by (simp add: trie_vals.simps [of node] index_mm_search_node.simps [of idx None])
        next
          case kid: (Some n)
          note C = stored_child [OF "1.prems"(1-3) kid "1.prems"(4)]
          show ?thesis using nd(1) step rc kid Some Cons "1.IH" len C by (simp add: trie_vals.simps [of node])
        qed
      qed
    qed
  qed
qed

lemma index_write_length:
  assumes "wf_node root" and "trie_len root + 12 < 2 ^ 28"
  shows "length (index_write root) = trie_len root + 12"
proof -
  have "trie_len root < 2 ^ 32" using assms(2) by simp
  then show ?thesis
    using calc_sized [OF assms(1)] write_node_length [of "index_calculate_size root" 12] calc_same [OF assms(1)]
    by (simp add: index_write_def Let_def)
qed

definition written_mm :: "index_node \<Rightarrow> index_mm" where
  "written_mm root = \<lparr>mm = index_write root, mm_root_offset = 12 OR index_get_mask (index_calculate_size root),
     mm_size = of_nat (length (index_write root))\<rparr>"

lemma index_open_written:
  assumes "wf_node root" and "trie_len root + 12 < 2 ^ 28"
  shows "index_mm_open True (Inr (index_write root)) None = Inr (written_mm root)"
proof -
  let ?b = "fst (index_write__node (index_calculate_size root) 12)"
  let ?r = "12 OR index_get_mask (index_calculate_size root)"
  have w: "index_write root = enc32 INDEX_MAGIC @ enc32 INDEX_VERSION @ enc32 ?r @ ?b"
    by (simp add: index_write_def Let_def)
  have d: "take 4 (index_write root) = enc32 INDEX_MAGIC" "take 4 (drop 4 (index_write root)) = enc32 INDEX_VERSION"
    "take 4 (drop 8 (index_write root)) = enc32 ?r"
    by (simp_all add: w)
  show ?thesis using index_write_length [OF assms] assms(2)
    by (simp add: index_mm_open_def d written_mm_def Let_def)
qed

lemma written_stored:
  assumes "wf_node root" and "trie_len root + 12 < 2 ^ 28"
  shows "mm_ok (written_mm root)" "stored (index_write root) (index_calculate_size root) 12"
    "wf_node (index_calculate_size root)" "sized (index_calculate_size root)"
proof -
  let ?n = "index_calculate_size root"
  show "mm_ok (written_mm root)" using index_write_length [OF assms] assms(2) by (simp add: mm_ok_def written_mm_def)
  have "trie_len root < 2 ^ 32" using assms(2) by simp
  then show wf: "wf_node ?n" and sz: "sized ?n" using calc_same [OF assms(1)] calc_sized [OF assms(1)] by auto
  have t: "unat (n_total ?n) = trie_len root" using calc_sized [OF assms(1)] assms(2) by simp
  show "stored (index_write root) ?n 12"
    by (rule write_stored [OF wf sz, of _ "enc32 INDEX_MAGIC @ enc32 INDEX_VERSION @ enc32 (12 OR index_get_mask ?n)" _ "[]"])
      (use t assms(2) in \<open>simp_all add: index_write_def Let_def\<close>)
qed

lemma index_build_search:
  assumes "\<forall>(k, v, p) \<in> set es. ascii k \<and> ascii v"
    and "index_build es = Some root" and "trie_len root + 12 < 2 ^ 28"
  shows "\<exists>idx. index_mm_open True (Inr (index_write root)) None = Inr idx
    \<and> (\<forall>key. \<exists>r. index_mm_search idx key = Some r
         \<and> (case r of None \<Rightarrow> \<forall>v p. (key, v, p) \<notin> set es
            | Some v \<Rightarrow> \<exists>p. (key, v, p) \<in> set es \<and> (\<forall>v' p'. (key, v', p') \<in> set es \<longrightarrow> p \<le> p')))"
proof -
  have wf: "wf_node root" and tv: "\<And>k. trie_vals root k = entry_vals es k"
    using index_build_spec [OF assms(1)] assms(2) by auto
  let ?n = "index_calculate_size root" and ?idx = "written_mm root"
  note S = written_stored [OF wf assms(3)]
  have search: "index_mm_search ?idx key = Some (case entry_vals es key of [] \<Rightarrow> None | (_, v) # _ \<Rightarrow> Some v)" for key
    using search_node_stored [OF S(1) _ S(3,4), of 12 key] S(2) calc_trie_vals [OF wf, of key] tv [of key]
    by (simp add: index_mm_search_def index_mm_readroot_def written_mm_def)
  have "\<exists>r. index_mm_search ?idx key = Some r
         \<and> (case r of None \<Rightarrow> \<forall>v p. (key, v, p) \<notin> set es
            | Some v \<Rightarrow> \<exists>p. (key, v, p) \<in> set es \<and> (\<forall>v' p'. (key, v', p') \<in> set es \<longrightarrow> p \<le> p'))" for key
  proof (cases "entry_vals es key")
    case Nil
    then have "\<forall>v p. (key, v, p) \<notin> set es" using entry_vals_set [of es key] by auto
    then show ?thesis using search [of key] Nil by simp
  next
    case (Cons pv vs)
    obtain p v where pv: "pv = (p, v)" by (cases pv)
    have in_es: "(q, w) \<in> set (entry_vals es key) \<longleftrightarrow> (key, w, q) \<in> set es" for q w
      using entry_vals_set [of es key] by auto
    have "p \<le> q" if "(key, w, q) \<in> set es" for w q
    proof -
      have "(q, w) \<in> set ((p, v) # vs)" using that in_es Cons pv by simp
      then show ?thesis using entry_vals_sorted [of es key] Cons pv by auto
    qed
    moreover have "(key, v, p) \<in> set es" using in_es [of p v] Cons pv by simp
    ultimately show ?thesis using search [of key] Cons pv by auto
  qed
  then show ?thesis using index_open_written [OF wf assms(3)] by blast
qed

section \<open>Properties\<close>

text \<open>
  Round trip of the module index: for every well-formed trie whose encoding fits the 28-bit
  offsets of the format, the file that depmod writes passes the header checks of the library, and
  searching it for any string, without reading outside the file, gives the first value the trie
  holds for that string, or NULL if it holds none.
\<close>

theorem index_search_roundtrip:
  assumes "wf_node root" and "trie_len root + 12 < 2 ^ 28"
  shows "\<exists>idx. index_mm_open True (Inr (index_write root)) None = Inr idx
    \<and> (\<forall>key. index_mm_search idx key
           = Some (case trie_vals root key of [] \<Rightarrow> None | (_, v) # _ \<Rightarrow> Some v))"
proof -
  let ?n = "index_calculate_size root" and ?idx = "written_mm root"
  note S = written_stored [OF assms]
  have "index_mm_search ?idx key = Some (case trie_vals root key of [] \<Rightarrow> None | (_, v) # _ \<Rightarrow> Some v)" for key
    using search_node_stored [OF S(1) _ S(3,4), of 12 key] S(2) calc_trie_vals [OF assms(1), of key]
    by (simp add: index_mm_search_def index_mm_readroot_def written_mm_def)
  then show ?thesis using index_open_written [OF assms] by blast
qed

definition roundtrip_example :: index_node where
  "roundtrip_example = Node [] [] 108 108 0 0
     ((\<lambda>_. None)(108 \<mapsto> Node ''oop'' [(2, ''loop.ko'')] INDEX_CHILDMAX 0 0 0 (\<lambda>_. None)))"

theorem index_search_roundtrip_witness:
  "\<exists>idx. index_mm_open True (Inr (index_write roundtrip_example)) None = Inr idx
    \<and> index_mm_search idx ''loop'' = Some (Some ''loop.ko'') \<and> index_mm_search idx ''loo'' = Some None"
proof -
  have wf: "wf_node roundtrip_example" by (auto simp: roundtrip_example_def wf_node_iff ascii_def)
  have len: "trie_len roundtrip_example + 12 < 2 ^ 28"
    by (simp add: roundtrip_example_def head_len_def child_range_def)
  have "trie_vals roundtrip_example ''loop'' = [(2, ''loop.ko'')]" "trie_vals roundtrip_example ''loo'' = []"
    by (simp_all add: roundtrip_example_def trie_vals.simps)
  then show ?thesis using index_search_roundtrip [OF wf len] by auto
qed

text \<open>
  C17. From depmod's input to the library's answer: if 7-bit entries (key, value, priority) are
  inserted into a fresh index and the index is written, then the written file opens, and a search
  for any key returns NULL exactly if no entry has that key, and otherwise the value of an entry
  with that key whose priority is the smallest.
\<close>

theorem index_end_to_end:
  assumes "\<forall>(k, v, p) \<in> set es. ascii k \<and> ascii v"
    and "index_build es = Some root" and "trie_len root + 12 < 2 ^ 28"
  shows "\<exists>idx. index_mm_open True (Inr (index_write root)) None = Inr idx
    \<and> (\<forall>key. \<exists>r. index_mm_search idx key = Some r
         \<and> (case r of None \<Rightarrow> \<forall>v p. (key, v, p) \<notin> set es
            | Some v \<Rightarrow> \<exists>p. (key, v, p) \<in> set es \<and> (\<forall>v' p'. (key, v', p') \<in> set es \<longrightarrow> p \<le> p')))"
  by (rule index_build_search [OF assms])

definition entries_example :: "(string \<times> string \<times> u32) list" where
  "entries_example = [(''ab'', ''x'', 3), (''ab'', ''z'', 2)]"

lemma entries_example_build:
  "index_build entries_example = Some (Node [] [] 97 97 0 0
     ((\<lambda>_. None)(97 \<mapsto> Node ''b'' [(2, ''z''), (3, ''x'')] INDEX_CHILDMAX 0 0 0 (\<lambda>_. None))))"
proof -
  have 1: "insert_loop index_create ''ab'' ''x'' 3 = Some (0, Node [] [] 97 97 0 0
     ((\<lambda>_. None)(97 \<mapsto> Node ''b'' [(3, ''x'')] INDEX_CHILDMAX 0 0 0 (\<lambda>_. None))))"
    by (subst insert_loop.simps) (simp add: fit_node_def index_create_def index_add_value_def)
  have 2: "insert_loop (Node ''b'' [(3, ''x'')] INDEX_CHILDMAX 0 0 0 (\<lambda>_. None)) ''b'' ''z'' 2
      = Some (0, Node ''b'' [(2, ''z''), (3, ''x'')] INDEX_CHILDMAX 0 0 0 (\<lambda>_. None))"
    by (subst insert_loop.simps) (simp add: fit_node_def same_char_def index_add_value_def)
  have 3: "insert_loop (Node [] [] 97 97 0 0
     ((\<lambda>_. None)(97 \<mapsto> Node ''b'' [(3, ''x'')] INDEX_CHILDMAX 0 0 0 (\<lambda>_. None)))) ''ab'' ''z'' 2 = Some (0, Node [] [] 97 97 0 0
     ((\<lambda>_. None)(97 \<mapsto> Node ''b'' [(2, ''z''), (3, ''x'')] INDEX_CHILDMAX 0 0 0 (\<lambda>_. None))))"
    by (subst insert_loop.simps) (simp add: fit_node_def 2)
  show ?thesis by (simp add: index_build_def entries_example_def index_insert_def 1 3)
qed

theorem index_end_to_end_witness:
  "\<exists>root idx. index_build entries_example = Some root
    \<and> index_mm_open True (Inr (index_write root)) None = Inr idx \<and> index_mm_search idx ''ab'' = Some (Some ''z'')"
proof -
  have asc: "\<forall>(k, v, p) \<in> set entries_example. ascii k \<and> ascii v"
    by (auto simp: entries_example_def ascii_def)
  obtain root where root: "index_build entries_example = Some root" and len: "trie_len root + 12 < 2 ^ 28"
    by (auto simp: entries_example_build head_len_def child_range_def)
  obtain idx r where idx: "index_mm_open True (Inr (index_write root)) None = Inr idx"
    "index_mm_search idx ''ab'' = Some r"
    "case r of None \<Rightarrow> \<forall>v p. (''ab'', v, p) \<notin> set entries_example
       | Some v \<Rightarrow> \<exists>p. (''ab'', v, p) \<in> set entries_example \<and> (\<forall>v' p'. (''ab'', v', p') \<in> set entries_example \<longrightarrow> p \<le> p')"
    using index_end_to_end [OF asc root len] by blast
  have "r = Some ''z''" using idx(3) by (auto simp: entries_example_def split: option.splits)
  then show ?thesis using root idx by blast
qed

end
