(* ===== verification/Kmod_Index_Walk.thy ===== *)
theory Kmod_Index_Walk
  imports Kmod_Index_Roundtrip
begin

text \<open>
  The tree walks of the reader on a written index: the dump prints every stored value once behind
  its key, in key order, and the wildcard search returns exactly the values of the stored patterns
  that match. \<open>fnmatch\<close> stays a parameter; what is used of it is its documented treatment of
  ordinary characters. Both walks need fuel for the height of the trie.
\<close>

section \<open>The output buffer\<close>

definition wb_all :: "wrtbuf \<Rightarrow> char list" where
  "wb_all w = wb_out w @ wb_bytes w"

definition wb_inv :: "wrtbuf \<Rightarrow> bool" where
  "wb_inv w \<longleftrightarrow> length (wb_bytes w) < 4096"

lemma wrtbuf_write_spec: "wb_inv w \<Longrightarrow> \<exists>w'. wrtbuf_write w p = Some w' \<and> wb_inv w' \<and> wb_all w' = wb_all w @ p"
proof (induction w p rule: wrtbuf_write.induct)
  case (1 w p)
  let ?n = "min (4096 - length (wb_bytes w)) (length p)"
  let ?w1 = "w\<lparr>wb_bytes := wb_bytes w @ take ?n p\<rparr>"
  let ?w2 = "if length (wb_bytes ?w1) = 4096 then wrtbuf_flush ?w1 else ?w1"
  have lt: "\<not> 4096 \<le> length (wb_bytes w)" using "1.prems" by (simp add: wb_inv_def)
  have inv: "wb_inv ?w2" using lt by (auto simp: wb_inv_def wrtbuf_flush_def)
  have all: "wb_all ?w2 = wb_all w @ take ?n p" by (auto simp: wb_all_def wrtbuf_flush_def)
  show ?case
  proof (cases "0 < length p - ?n")
    case True
    then obtain w' where "wrtbuf_write ?w2 (drop ?n p) = Some w'" "wb_inv w'" "wb_all w' = wb_all ?w2 @ drop ?n p"
      using "1.IH" [OF lt refl refl refl True inv] by blast
    moreover have "wrtbuf_write w p = wrtbuf_write ?w2 (drop ?n p)"
      using True lt by (subst wrtbuf_write.simps) (simp only: Let_def if_False if_True)
    ultimately show ?thesis using all by auto
  next
    case False
    then have "take ?n p = p" by simp
    moreover have "wrtbuf_write w p = Some ?w2"
      using False lt by (subst wrtbuf_write.simps) (simp only: Let_def if_False)
    ultimately show ?thesis using all inv by metis
  qed
qed

definition line :: "string \<Rightarrow> index_value \<Rightarrow> char list" where
  "line key v = key @ '' '' @ snd v @ [CHR 0x0A]"

lemma dump_values_spec:
  "wb_inv w \<Longrightarrow> read_values m i p = Some vs \<Longrightarrow>
     \<exists>w'. dump_values m i p key w = Some w' \<and> wb_inv w' \<and> wb_all w' = wb_all w @ concat (map (line key) vs)"
proof (induction m i p key w arbitrary: vs rule: dump_values.induct)
  case (2 m i p key w)
  obtain v q vs' where v: "read_value_mm m p = Some (v, q)" "read_values m i q = Some vs'" "vs = v # vs'"
    using "2.prems"(2) by (auto simp: bind_eq_Some_conv split: prod.splits)
  obtain w1 where w1: "wrtbuf_write w key = Some w1" "wb_inv w1" "wb_all w1 = wb_all w @ key"
    using wrtbuf_write_spec [OF "2.prems"(1)] by blast
  obtain w2 where w2: "wrtbuf_write w1 '' '' = Some w2" "wb_inv w2" "wb_all w2 = wb_all w1 @ '' ''"
    using wrtbuf_write_spec [OF w1(2)] by blast
  obtain w3 where w3: "wrtbuf_write w2 (snd v) = Some w3" "wb_inv w3" "wb_all w3 = wb_all w2 @ snd v"
    using wrtbuf_write_spec [OF w2(2)] by blast
  obtain w4 where w4: "wrtbuf_write w3 [CHR 0x0A] = Some w4" "wb_inv w4" "wb_all w4 = wb_all w3 @ [CHR 0x0A]"
    using wrtbuf_write_spec [OF w3(2)] by blast
  obtain w5 where w5: "dump_values m i q key w4 = Some w5" "wb_inv w5"
    "wb_all w5 = wb_all w4 @ concat (map (line key) vs')"
    using "2.IH" [OF v(1) refl w1(1) w2(1) w3(1) w4(1) w4(2) v(2)] by blast
  show ?case using v(1) w1 w2 w3 w4 w5 by (simp add: v(3) line_def [of key v])
qed simp

section \<open>Walking the children of a stored node\<close>

lemma foldM_out:
  assumes "\<And>x s. x \<in> set xs \<Longrightarrow> I s \<Longrightarrow> \<exists>s'. f x s = Some s' \<and> I s' \<and> out s' = out s @ g x" and "I s"
  shows "\<exists>s'. foldM f xs s = Some s' \<and> I s' \<and> out s' = out s @ concat (map g xs)"
  using assms
proof (induction xs arbitrary: s)
  case (Cons x xs)
  obtain s1 where s1: "f x s = Some s1" "I s1" "out s1 = out s @ g x"
    using Cons.prems(1)[of x s] Cons.prems(2) by auto
  have "\<exists>s'. foldM f xs s1 = Some s' \<and> I s' \<and> out s' = out s1 @ concat (map g xs)"
    using Cons.prems(1) s1(2) by (intro Cons.IH) auto
  then show ?case using s1 by auto
qed simp

lemma represents_range:
  assumes "represents idx nd node off" and "wf_node node"
  shows "child_range (mn_first nd) (mn_last nd) = child_range (n_first node) (n_last node)"
  using assms by (cases node)
    (auto simp: represents_def wf_node_iff child_range_def index__haschildren_def word_less_nat_alt split: if_splits)

lemma range_small: "wf_node node \<Longrightarrow> c \<in> set (child_range (n_first node) (n_last node)) \<Longrightarrow> c < 128"
  by (cases node) (auto simp: wf_node_iff child_range_def)

lemma kid_total:
  assumes "wf_node node" and "sized node" and "n_children node c = Some n"
  shows "length (n_prefix node) + 1 + unat (n_total n) \<le> unat (n_total node)"
proof -
  obtain prefix vs first lst s t children where node: "node = Node prefix vs first lst s t children" by (cases node)
  let ?ns = "map children (child_range first lst)"
  have kid: "children c = Some n" using assms(3) by (simp add: node)
  note W = wf_node_child [OF assms(1)[unfolded node] kid]
  have "unat (n_total n) \<le> tots ?ns"
    using opt_sum_nth [of "c - unat first" ?ns n "\<lambda>n. unat (n_total n)"] child_range_nth [OF W(5)] kid by simp
  moreover have "unat t = head_len prefix vs first lst + tots ?ns" using assms(2) by (simp add: node sized_iff)
  moreover have "length prefix + 1 \<le> head_len prefix vs first lst" using W(4) by (simp add: head_len_def)
  ultimately show ?thesis by (simp add: node)
qed

primrec trie_height :: "index_node \<Rightarrow> nat" where
  "trie_height (Node prefix vals first lst sz tot children) =
     Suc (foldr max (map (\<lambda>c. case_option 0 id (map_option trie_height (children c))) (child_range first lst)) 0)"

lemma foldr_max: "x \<in> set xs \<Longrightarrow> x \<le> foldr max xs (0::nat)"
  by (induction xs) auto

lemma kid_height:
  assumes "wf_node node" and "n_children node c = Some n"
  shows "trie_height n < trie_height node"
proof -
  obtain prefix vs first lst s t children where node: "node = Node prefix vs first lst s t children" by (cases node)
  have kid: "children c = Some n" using assms(2) by (simp add: node)
  let ?xs = "map (\<lambda>c. case_option 0 id (map_option trie_height (children c))) (child_range first lst)"
  have "trie_height n \<in> set ?xs" using wf_node_child(5)[OF assms(1)[unfolded node] kid] kid by force
  then show ?thesis using foldr_max [of "trie_height n" ?xs] by (simp add: node)
qed

section \<open>Dump\<close>

primrec trie_dump :: "index_node \<Rightarrow> string \<Rightarrow> char list" where
  "trie_dump (Node prefix vals first lst sz tot children) =
     (let dumps = (\<lambda>c. map_option trie_dump (children c)) in
      (\<lambda>pre. concat (map (line (pre @ prefix)) vals)
         @ concat (map (\<lambda>c. case dumps c of None \<Rightarrow> [] | Some d \<Rightarrow> d (pre @ prefix @ [char_of c])) (child_range first lst))))"

lemma trie_dump_eq:
  "trie_dump node pre = concat (map (line (pre @ n_prefix node)) (n_values node))
     @ concat (map (\<lambda>c. case n_children node c of None \<Rightarrow> [] | Some n \<Rightarrow> trie_dump n (pre @ n_prefix node @ [char_of c]))
                (child_range (n_first node) (n_last node)))"
  by (cases node) (auto simp: Let_def option.case_eq_if option.map_sel intro!: arg_cong [where f = concat])

definition dump_inv :: "string \<Rightarrow> strbuf \<times> wrtbuf \<Rightarrow> bool" where
  "dump_inv t st \<longleftrightarrow> strbuf_inv (fst st) \<and> sb_text (fst st) = t \<and> wb_inv (snd st)"

lemma dump_node_spec:
  assumes "mm_ok idx"
  shows "stored (mm idx) node off \<Longrightarrow> wf_node node \<Longrightarrow> sized node \<Longrightarrow> 0 < unat off \<Longrightarrow>
    represents idx nd node off \<Longrightarrow> trie_height node \<le> fuel \<Longrightarrow> length t + unat (n_total node) < 2 ^ 62 \<Longrightarrow>
    dump_inv t st \<Longrightarrow>
    \<exists>st'. index_mm_dump_node fuel (\<lambda>_. True) idx nd st = Some st' \<and> dump_inv t st'
      \<and> wb_all (snd st') = wb_all (snd st) @ trie_dump node t"
proof (induction fuel arbitrary: node off nd t st)
  case 0
  then show ?case by (cases node) simp
next
  case (Suc fuel)
  obtain buf w where st: "st = (buf, w)" by (cases st)
  note R = Suc.prems(5)[unfolded represents_def]
  let ?p = "n_prefix node" and ?T = "t @ n_prefix node"
  have I: "strbuf_inv buf" "sb_text buf = t" "wb_inv w" using Suc.prems(8) by (auto simp: dump_inv_def st)
  have plen: "length ?p \<le> unat (n_total node)"
  proof -
    have "length ?p \<le> head_len ?p (n_values node) (n_first node) (n_last node)" by (simp add: head_len_def)
    then show ?thesis using Suc.prems(3) by (cases node) (simp add: sized_iff)
  qed
  obtain b1 where b1: "strbuf_pushmem (\<lambda>_. True) buf ?p = Some (of_nat (length ?p), b1)" "strbuf_inv b1" "sb_text b1 = ?T"
    using strbuf_pushmem_ok [OF I(1), of ?p] I(2) plen Suc.prems(7) by auto
  obtain w1 where w1: "dump_values (mm idx) (length (n_values node)) (mn_values nd) ?T w = Some w1" "wb_inv w1"
    "wb_all w1 = wb_all w @ concat (map (line ?T) (n_values node))"
    using dump_values_spec [OF I(3)] R by blast
  let ?cs = "child_range (n_first node) (n_last node)"
  let ?g = "\<lambda>c. case n_children node c of None \<Rightarrow> [] | Some n \<Rightarrow> trie_dump n (t @ ?p @ [char_of c])"
  let ?f = "\<lambda>ch (buf, wbuf).
              do { child \<leftarrow> index_mm_readchild idx nd (of_nat ch);
                   case child of
                     None \<Rightarrow> Some (buf, wbuf)
                   | Some child \<Rightarrow>
                       do { (ok, buf) \<leftarrow> strbuf_pushchar (\<lambda>_. True) buf (char_of ch);
                            if ok then
                              do { (buf, wbuf) \<leftarrow> index_mm_dump_node fuel (\<lambda>_. True) idx child (buf, wbuf);
                                   buf \<leftarrow> strbuf_popchar buf;
                                   Some (buf, wbuf) }
                            else Some (buf, wbuf) } }"
  have step: "\<exists>s'. ?f c s = Some s' \<and> dump_inv ?T s' \<and> wb_all (snd s') = wb_all (snd s) @ ?g c"
    if c: "c \<in> set ?cs" and s: "dump_inv ?T s" for c s
  proof -
    obtain b v where sv: "s = (b, v)" by (cases s)
    have c8: "unat (of_nat c :: u8) = c" using range_small [OF Suc.prems(2) c] by (simp add: unat_of_nat)
    have rc: "index_mm_readchild idx nd (of_nat c) = (case n_children node c of None \<Rightarrow> Some None
        | Some n \<Rightarrow> index_mm_read_node idx (kid_off node off c OR index_get_mask n))"
      using R c8 by (simp split: option.split)
    show ?thesis
    proof (cases "n_children node c")
      case None
      then show ?thesis using rc s by (auto simp: sv)
    next
      case (Some n)
      note C = stored_child [OF Suc.prems(1-3) Some Suc.prems(4)]
      have kt: "length ?p + 1 + unat (n_total n) \<le> unat (n_total node)"
        by (rule kid_total [OF Suc.prems(2,3) Some])
      show ?thesis
      proof (cases "unat (kid_off node off c) < length (mm idx)")
        case False
        then have "length (mm idx) \<le> unat (kid_off node off c)" by simp
        note E = read_node_empty [OF assms C(1,2,3) this]
        have "trie_dump n x = []" for x using E(3,4) by (simp add: trie_dump_eq)
        then show ?thesis using rc Some E(1) s by (auto simp: sv)
      next
        case True
        obtain md where md: "index_mm_read_node idx (kid_off node off c OR index_get_mask n) = Some (Some md)"
          "represents idx md n (kid_off node off c)"
          using read_node_stored [OF assms C(1,2,3,4) True] by blast
        have si: "strbuf_inv b" "sb_text b = ?T" "wb_inv v" using s by (auto simp: dump_inv_def sv)
        obtain b2 where b2: "strbuf_pushchar (\<lambda>_. True) b (char_of c) = Some (True, b2)" "strbuf_inv b2"
          "sb_text b2 = ?T @ [char_of c]"
          using strbuf_pushchar_ok [OF si(1), of "char_of c"] si(2) kt Suc.prems(7) by auto
        have h: "trie_height n \<le> fuel" using kid_height [OF Suc.prems(2) Some] Suc.prems(6) by simp
        obtain b3 v3 where b3: "index_mm_dump_node fuel (\<lambda>_. True) idx md (b2, v) = Some (b3, v3)"
          "dump_inv (?T @ [char_of c]) (b3, v3)" "wb_all v3 = wb_all v @ trie_dump n (?T @ [char_of c])"
          using Suc.IH [OF C(1,2,3,4) md(2) h, of "?T @ [char_of c]" "(b2, v)"] b2 si kt Suc.prems(7)
          by (auto simp: dump_inv_def)
        obtain b4 where b4: "strbuf_popchar b3 = Some b4" "strbuf_inv b4" "sb_text b4 = ?T"
          using strbuf_popchars_spec [of b3 1] b3(2) by (auto simp: dump_inv_def strbuf_popchar_popchars)
        show ?thesis using rc Some md(1) b2(1) b3 b4 by (simp add: sv dump_inv_def)
      qed
    qed
  qed
  obtain s2 where s2: "foldM ?f ?cs (b1, w1) = Some s2" "dump_inv ?T s2"
    "wb_all (snd s2) = wb_all w1 @ concat (map ?g ?cs)"
    using foldM_out [of ?cs "dump_inv ?T" ?f "\<lambda>s. wb_all (snd s)" ?g "(b1, w1)"] step b1 w1 by (auto simp: dump_inv_def)
  obtain b2 w2 where bw: "s2 = (b2, w2)" by (cases s2)
  have "unat (of_nat (length ?p) :: size_t) = length ?p" using plen Suc.prems(7) by (simp add: unat_of_nat)
  then obtain b5 where b5: "strbuf_popchars b2 (of_nat (length ?p)) = Some b5" "strbuf_inv b5" "sb_text b5 = t"
    using strbuf_popchars_spec [of b2 "of_nat (length ?p)"] s2(2) by (auto simp: dump_inv_def bw)
  have "index_mm_dump_node (Suc fuel) (\<lambda>_. True) idx nd st = Some (b5, w2)"
    using b1 w1(1) s2(1) b5(1) R represents_range [OF Suc.prems(5,2)]
    by (simp add: st strbuf_pushchars_def bw)
  then show ?case using b5 s2(2,3) w1(3) trie_dump_eq [of node t] by (auto simp: dump_inv_def bw st)
qed

section \<open>Wildcard search below a wildcard\<close>

lemma foldM_set:
  assumes "\<And>x s. x \<in> set xs \<Longrightarrow> I s \<Longrightarrow> \<exists>s'. f x s = Some s' \<and> I s' \<and> out s' = out s \<union> g x" and "I s"
  shows "\<exists>s'. foldM f xs s = Some s' \<and> I s' \<and> out s' = out s \<union> (\<Union>x \<in> set xs. g x)"
  using assms
proof (induction xs arbitrary: s)
  case (Cons x xs)
  obtain s1 where s1: "f x s = Some s1" "I s1" "out s1 = out s \<union> g x"
    using Cons.prems(1)[of x s] Cons.prems(2) by auto
  have "\<exists>s'. foldM f xs s1 = Some s' \<and> I s' \<and> out s' = out s1 \<union> (\<Union>x \<in> set xs. g x)"
    using Cons.prems(1) s1(2) by (intro Cons.IH) auto
  then show ?case using s1 by auto
qed simp

lemma searchwild_values_spec:
  "read_values m i p = Some vs \<Longrightarrow> sorted (map fst out) \<Longrightarrow>
     \<exists>out'. searchwild_values m i p out = Some out' \<and> set out' = set out \<union> set vs \<and> sorted (map fst out')"
proof (induction m i p out arbitrary: vs rule: searchwild_values.induct)
  case (2 m i p out)
  obtain v q vs' where v: "read_value_mm m p = Some (v, q)" "read_values m i q = Some vs'" "vs = v # vs'"
    using "2.prems"(1) by (auto simp: bind_eq_Some_conv split: prod.splits)
  have "sorted (map fst (add_value out (snd v) (fst v)))"
    using "2.prems"(2) by (simp add: add_value_def sorted_value_insert)
  then obtain out' where "searchwild_values m i q (add_value out (snd v) (fst v)) = Some out'"
    "set out' = set (add_value out (snd v) (fst v)) \<union> set vs'" "sorted (map fst out')"
    using "2.IH" [OF v(1) refl v(2)] by blast
  then show ?case by (auto simp: v add_value_def set_value_insert)
qed simp

text \<open>
  The values below a node whose key, behind the text \<open>t\<close>, matches; and the same split at the node.
\<close>

definition matches_under :: "(string \<Rightarrow> string \<Rightarrow> bool) \<Rightarrow> index_node \<Rightarrow> string \<Rightarrow> string \<Rightarrow> index_value set" where
  "matches_under fn node t sk = {x. \<exists>k. x \<in> set (trie_vals node k) \<and> fn (t @ k) sk}"

definition matches_behind :: "(string \<Rightarrow> string \<Rightarrow> bool) \<Rightarrow> index_node \<Rightarrow> string \<Rightarrow> string \<Rightarrow> index_value set" where
  "matches_behind fn node t sk = {x. \<exists>r. x \<in> set (trie_vals node (n_prefix node @ r)) \<and> fn (t @ r) sk}"

lemma matches_under_behind: "matches_under fn node t sk = matches_behind fn node (t @ n_prefix node) sk"
proof -
  have "\<exists>r. k = n_prefix node @ r" if "x \<in> set (trie_vals node k)" for x k
    using that trie_vals_mismatch [of k node] by (metis empty_iff empty_set)
  then show ?thesis by (auto simp: matches_under_def matches_behind_def) (metis append.assoc)
qed

lemma trie_vals_at: "trie_vals node (n_prefix node @ r) =
    (case r of [] \<Rightarrow> n_values node | c # rest \<Rightarrow> (case n_children node (code c) of None \<Rightarrow> [] | Some n \<Rightarrow> trie_vals n rest))"
  by (cases node) (simp add: trie_vals_Node split: list.split option.split)

definition kid_matches :: "(string \<Rightarrow> string \<Rightarrow> bool) \<Rightarrow> index_node \<Rightarrow> string \<Rightarrow> string \<Rightarrow> nat \<Rightarrow> index_value set" where
  "kid_matches fn node t sk c =
     (case n_children node c of None \<Rightarrow> {} | Some n \<Rightarrow> matches_under fn n (t @ [char_of c]) sk)"

lemma matches_behind_split:
  assumes wf: "wf_node node"
  shows "matches_behind fn node t sk = (if fn t sk then set (n_values node) else {})
    \<union> (\<Union>c \<in> set (child_range (n_first node) (n_last node)). kid_matches fn node t sk c)"
    (is "?L = ?V \<union> ?K")
proof (intro set_eqI iffI)
  fix x assume "x \<in> ?L"
  then obtain r where r: "x \<in> set (trie_vals node (n_prefix node @ r))" "fn (t @ r) sk" by (auto simp: matches_behind_def)
  show "x \<in> ?V \<union> ?K"
  proof (cases r)
    case Nil
    then show ?thesis using r trie_vals_at [of node "[]"] by simp
  next
    case (Cons d rest)
    then obtain n where n: "n_children node (code d) = Some n" "x \<in> set (trie_vals n rest)"
      using r(1) by (cases "n_children node (code d)") (auto simp: trie_vals_at)
    then have "code d \<in> set (child_range (n_first node) (n_last node))"
      using wf_node_child(5) [of _ _ _ _ _ _ "n_children node" "code d" n] wf by (cases node) auto
    moreover have "x \<in> kid_matches fn node t sk (code d)"
      using n r(2) Cons by (auto simp: kid_matches_def matches_under_def)
    ultimately show ?thesis by auto
  qed
next
  fix x assume "x \<in> ?V \<union> ?K"
  then show "x \<in> ?L"
  proof
    assume "x \<in> ?V"
    then have "x \<in> set (trie_vals node (n_prefix node @ [])) \<and> fn (t @ []) sk"
      using trie_vals_at [of node "[]"] by (simp split: if_splits)
    then show ?thesis unfolding matches_behind_def by blast
  next
    assume "x \<in> ?K"
    then obtain c n k where c: "n_children node c = Some n" "x \<in> set (trie_vals n k)" "fn ((t @ [char_of c]) @ k) sk"
      by (auto simp: kid_matches_def matches_under_def split: option.splits)
    have "c < 128" using wf_node_child(3) [of _ _ _ _ _ _ "n_children node" c n] wf c(1) by (cases node) auto
    then have "code (char_of c) = c" by simp
    then have "x \<in> set (trie_vals node (n_prefix node @ char_of c # k)) \<and> fn (t @ char_of c # k) sk"
      using c by (simp add: trie_vals_at)
    then show ?thesis unfolding matches_behind_def by blast
  qed
qed

lemma char_of_not_NUL: "c \<noteq> 0 \<Longrightarrow> c < 128 \<Longrightarrow> char_of (c :: nat) \<noteq> NUL"
proof
  assume c: "c \<noteq> 0" "c < 128" "char_of c = NUL"
  then have "code (char_of c) = 0" by simp
  then show False using c(1,2) by simp
qed

definition wild_inv :: "string \<Rightarrow> strbuf \<times> index_value list \<Rightarrow> bool" where
  "wild_inv t st \<longleftrightarrow> strbuf_inv (fst st) \<and> sb_text (fst st) = t \<and> sorted (map fst (snd st))"

lemma searchwild_all_spec:
  assumes ok: "mm_ok idx"
  shows "stored (mm idx) node off \<Longrightarrow> wf_node node \<Longrightarrow> sized node \<Longrightarrow> 0 < unat off \<Longrightarrow>
    represents idx nd node off \<Longrightarrow> trie_height node \<le> fuel \<Longrightarrow> length t + unat (n_total node) < 2 ^ 62 \<Longrightarrow>
    nul_free t \<Longrightarrow> wild_inv t st \<Longrightarrow>
    \<exists>st'. index_mm_searchwild_all fuel fn (\<lambda>_. True) idx nd j sk st = Some st' \<and> wild_inv t st'
      \<and> set (snd st') = set (snd st) \<union> matches_behind fn node (t @ drop j (n_prefix node)) sk"
proof (induction fuel arbitrary: node off nd t st j)
  case 0
  then show ?case by (cases node) simp
next
  case (Suc fuel)
  obtain buf out where st: "st = (buf, out)" by (cases st)
  note R = Suc.prems(5)[unfolded represents_def]
  let ?p = "drop j (n_prefix node)" and ?T = "t @ drop j (n_prefix node)"
  have I: "strbuf_inv buf" "sb_text buf = t" "sorted (map fst out)" using Suc.prems(9) by (auto simp: wild_inv_def st)
  have "ascii (n_prefix node)" using Suc.prems(2) by (cases node) (simp add: wf_node_iff)
  then have "ascii ?p" by (rule ascii_take_drop)
  then have nf: "nul_free ?T" using Suc.prems(8) by (auto simp: ascii_def)
  have plen: "length ?p \<le> unat (n_total node)"
  proof -
    have "length (n_prefix node) \<le> head_len (n_prefix node) (n_values node) (n_first node) (n_last node)" by (simp add: head_len_def)
    then have "length ?p \<le> head_len (n_prefix node) (n_values node) (n_first node) (n_last node)" by simp
    then show ?thesis using Suc.prems(3) by (cases node) (simp add: sized_iff)
  qed
  obtain b1 where b1: "strbuf_pushmem (\<lambda>_. True) buf ?p = Some (of_nat (length ?p), b1)" "strbuf_inv b1" "sb_text b1 = ?T"
    using strbuf_pushmem_ok [OF I(1), of ?p] I(2) plen Suc.prems(7) by auto
  let ?cs = "child_range (n_first node) (n_last node)"
  let ?f = "\<lambda>ch (buf, out).
              do { child \<leftarrow> index_mm_readchild idx nd (of_nat ch);
                   case child of
                     None \<Rightarrow> Some (buf, out)
                   | Some child \<Rightarrow>
                       do { (ok, buf) \<leftarrow> strbuf_pushchar (\<lambda>_. True) buf (char_of ch);
                            if ok then
                              do { (buf, out) \<leftarrow> index_mm_searchwild_all fuel fn (\<lambda>_. True) idx child 0 sk (buf, out);
                                   buf \<leftarrow> strbuf_popchar buf;
                                   Some (buf, out) }
                            else Some (buf, out) } }"
  have step: "\<exists>s'. ?f c s = Some s' \<and> wild_inv ?T s' \<and> set (snd s') = set (snd s) \<union> kid_matches fn node ?T sk c"
    if c: "c \<in> set ?cs" and s: "wild_inv ?T s" for c s
  proof -
    obtain b v where sv: "s = (b, v)" by (cases s)
    have c8: "unat (of_nat c :: u8) = c" using range_small [OF Suc.prems(2) c] by (simp add: unat_of_nat)
    have rc: "index_mm_readchild idx nd (of_nat c) = (case n_children node c of None \<Rightarrow> Some None
        | Some n \<Rightarrow> index_mm_read_node idx (kid_off node off c OR index_get_mask n))"
      using R c8 by (simp split: option.split)
    show ?thesis
    proof (cases "n_children node c")
      case None
      then show ?thesis using rc s by (auto simp: sv kid_matches_def)
    next
      case (Some n)
      note C = stored_child [OF Suc.prems(1-3) Some Suc.prems(4)]
      have kt: "length (n_prefix node) + 1 + unat (n_total n) \<le> unat (n_total node)"
        by (rule kid_total [OF Suc.prems(2,3) Some])
      show ?thesis
      proof (cases "unat (kid_off node off c) < length (mm idx)")
        case False
        then have "length (mm idx) \<le> unat (kid_off node off c)" by simp
        note E = read_node_empty [OF ok C(1,2,3) this]
        have "kid_matches fn node ?T sk c = {}" using Some E(2) by (simp add: kid_matches_def matches_under_def)
        then show ?thesis using rc Some E(1) s by (auto simp: sv)
      next
        case True
        obtain md where md: "index_mm_read_node idx (kid_off node off c OR index_get_mask n) = Some (Some md)"
          "represents idx md n (kid_off node off c)"
          using read_node_stored [OF ok C(1,2,3,4) True] by blast
        have cn: "c \<noteq> 0" "c < 128"
          using wf_node_child(2,3) [of _ _ _ _ _ _ "n_children node" c n] Suc.prems(2) Some by (cases node, auto)+
        then have "char_of c \<noteq> NUL" by (rule char_of_not_NUL)
        then have nf': "nul_free (?T @ [char_of c])" using nf by auto
        have si: "strbuf_inv b" "sb_text b = ?T" "sorted (map fst v)" using s by (auto simp: wild_inv_def sv)
        have l1: "length ?T + 1 < 2 ^ 63" using kt Suc.prems(7) by simp
        obtain b2 where b2: "strbuf_pushchar (\<lambda>_. True) b (char_of c) = Some (True, b2)" "strbuf_inv b2"
          "sb_text b2 = ?T @ [char_of c]"
          using strbuf_pushchar_ok [OF si(1), of "char_of c"] si(2) l1 by auto
        have h: "trie_height n \<le> fuel" using kid_height [OF Suc.prems(2) Some] Suc.prems(6) by simp
        have w2: "wild_inv (?T @ [char_of c]) (b2, v)" using b2 si by (simp add: wild_inv_def)
        have l2: "length (?T @ [char_of c]) + unat (n_total n) < 2 ^ 62" using kt Suc.prems(7) by simp
        obtain b3 v3 where b3: "index_mm_searchwild_all fuel fn (\<lambda>_. True) idx md 0 sk (b2, v) = Some (b3, v3)"
          "wild_inv (?T @ [char_of c]) (b3, v3)"
          "set v3 = set v \<union> matches_behind fn n ((?T @ [char_of c]) @ drop 0 (n_prefix n)) sk"
          using Suc.IH [OF C(1,2,3,4) md(2) h l2 nf' w2, of 0] by auto
        obtain b4 where b4: "strbuf_popchar b3 = Some b4" "strbuf_inv b4" "sb_text b4 = ?T"
          using strbuf_popchars_spec [of b3 1] b3(2) by (auto simp: wild_inv_def strbuf_popchar_popchars)
        have "kid_matches fn node ?T sk c = matches_behind fn n ((?T @ [char_of c]) @ drop 0 (n_prefix n)) sk"
          using Some by (simp add: kid_matches_def matches_under_behind)
        then show ?thesis using rc Some md(1) b2(1) b3 b4 by (simp add: sv wild_inv_def)
      qed
    qed
  qed
  obtain s2 where s2: "foldM ?f ?cs (b1, out) = Some s2" "wild_inv ?T s2"
    "set (snd s2) = set out \<union> (\<Union>c \<in> set ?cs. kid_matches fn node ?T sk c)"
    using foldM_set [of ?cs "wild_inv ?T" ?f "\<lambda>s. set (snd s)" "kid_matches fn node ?T sk" "(b1, out)"] step b1 I(3)
    by (auto simp: wild_inv_def)
  obtain b2 o2 where bw: "s2 = (b2, o2)" by (cases s2)
  obtain b3 o3 where b3: "match_values fn idx nd sk (b2, o2) = Some (b3, o3)" "strbuf_inv b3" "sb_text b3 = ?T" "sorted (map fst o3)"
    "set o3 = set o2 \<union> (if fn ?T sk then set (n_values node) else {})"
  proof (cases "0 < mn_value_count nd")
    case False
    then have "n_values node = []" using R by (simp add: word_gt_0)
    then show thesis using that [of b2 o2] False s2(2) by (auto simp: wild_inv_def bw match_values_def)
  next
    case True
    have tw: "takeWhile (\<lambda>c. c \<noteq> NUL) ?T = ?T" using nf by (subst takeWhile_eq_all_conv) auto
    have b2: "strbuf_inv b2" "sb_text b2 = ?T" using s2(2) by (simp_all add: wild_inv_def bw)
    obtain b3 where b3: "strbuf_str b2 = Some (?T, b3)" "strbuf_inv b3" "sb_text b3 = ?T"
      using strbuf_str_spec [OF b2(1)] unfolding b2(2) tw by blast
    have so: "sorted (map fst o2)" using s2(2) by (simp add: wild_inv_def bw)
    obtain o3 where o3: "index_mm_searchwild_allvalues idx nd o2 = Some o3" "set o3 = set o2 \<union> set (n_values node)" "sorted (map fst o3)"
      using searchwild_values_spec [of "mm idx" "length (n_values node)" "mn_values nd" "n_values node" o2] R so
      by (auto simp: index_mm_searchwild_allvalues_def)
    show thesis
    proof (cases "fn ?T sk")
      case fn: True
      then show thesis using that [of b3 o3] True b3 o3 by (simp add: match_values_def)
    next
      case False
      then show thesis using that [of b3 o2] True b3 so by (simp add: match_values_def)
    qed
  qed
  have "unat (of_nat (length ?p) :: size_t) = length ?p" using plen Suc.prems(7) by (simp add: unat_of_nat)
  then obtain b5 where b5: "strbuf_popchars b3 (of_nat (length ?p)) = Some b5" "strbuf_inv b5" "sb_text b5 = t"
    using strbuf_popchars_spec [OF b3(2), of "of_nat (length ?p)"] b3(3) by auto
  have "index_mm_searchwild_all (Suc fuel) fn (\<lambda>_. True) idx nd j sk st = Some (b5, o3)"
    using b1 s2(1) b3(1) b5(1) R represents_range [OF Suc.prems(5,2)] by (simp add: st strbuf_pushchars_def bw)
  then show ?case using b5 b3 s2(3) matches_behind_split [OF Suc.prems(2), of fn ?T sk]
    by (auto simp: wild_inv_def bw st)
qed

section \<open>Wildcard search from the root\<close>

text \<open>
  What is used of \<open>fnmatch(pattern, string, 0)\<close>: the empty pattern matches the empty string only, and
  a character other than \<open>* ? [ \\\<close> matches itself.
\<close>

abbreviation special :: "char \<Rightarrow> bool" where
  "special c \<equiv> wildcard c \<or> c = CHR 0x5C"

definition fnmatch_laws :: "(string \<Rightarrow> string \<Rightarrow> bool) \<Rightarrow> bool" where
  "fnmatch_laws fn \<longleftrightarrow> (\<forall>s. fn [] s \<longleftrightarrow> s = [])
     \<and> (\<forall>c p s. \<not> special c \<longrightarrow> (fn (c # p) s \<longleftrightarrow> (\<exists>s'. s = c # s' \<and> fn p s')))"

lemma fnmatch_strip:
  "fnmatch_laws fn \<Longrightarrow> \<forall>c \<in> set l. \<not> special c \<Longrightarrow> fn (l @ p) (l @ s) \<longleftrightarrow> fn p s"
  by (induction l) (auto simp: fnmatch_laws_def)

lemma fnmatch_mismatch:
  assumes "fnmatch_laws fn" and "\<forall>c \<in> set l. \<not> special c" and "\<not> special c" and "\<And>s'. s \<noteq> c # s'"
  shows "\<not> fn (l @ c # p) (l @ s)"
proof -
  have "\<not> fn (c # p) s" using assms(1,3,4) unfolding fnmatch_laws_def by blast
  then show ?thesis using fnmatch_strip [OF assms(1,2)] by blast
qed

lemma wild_prefix_cases:
  "ascii p \<Longrightarrow> case wild_prefix j p key of
      Wild k \<Rightarrow> \<exists>l q s. p = l @ q \<and> key = l @ s \<and> k = j + length l \<and> (\<forall>c \<in> set l. \<not> wildcard c)
    | Mismatch \<Rightarrow> \<exists>l c q s. p = l @ c # q \<and> key = l @ s \<and> (\<forall>d \<in> set (l @ [c]). \<not> wildcard d) \<and> (\<forall>s'. s \<noteq> c # s')
    | Rest r \<Rightarrow> key = p @ r \<and> (\<forall>c \<in> set p. \<not> wildcard c)"
proof (induction j p key rule: wild_prefix.induct)
  case (2 j c p key)
  show ?case
  proof (cases "wildcard c")
    case True
    then show ?thesis by (auto intro!: exI [of _ "[]"])
  next
    case nw: False
    show ?thesis
    proof (cases "\<exists>key'. key = c # key'")
      case False
      then have "wild_prefix j (c # p) key = Mismatch" using nw by (auto simp: same_char_def split: list.splits)
      then show ?thesis using False nw by (auto intro!: exI [of _ "[]"])
    next
      case True
      then obtain key' where key: "key = c # key'" by blast
      have sc: "same_char c c" using "2.prems" by (simp add: same_char_def)
      have e: "wild_prefix j (c # p) key = wild_prefix (Suc j) p key'" using nw sc by (simp add: key)
      have IH: "case wild_prefix (Suc j) p key' of
          Wild k \<Rightarrow> \<exists>l q s. p = l @ q \<and> key' = l @ s \<and> k = Suc j + length l \<and> (\<forall>c \<in> set l. \<not> wildcard c)
        | Mismatch \<Rightarrow> \<exists>l c q s. p = l @ c # q \<and> key' = l @ s \<and> (\<forall>d \<in> set (l @ [c]). \<not> wildcard d) \<and> (\<forall>s'. s \<noteq> c # s')
        | Rest r \<Rightarrow> key' = p @ r \<and> (\<forall>c \<in> set p. \<not> wildcard c)"
        using "2.IH" [OF nw key sc] "2.prems" by simp
      show ?thesis
      proof (cases "wild_prefix (Suc j) p key'")
        case (Wild k)
        then obtain l q s where "p = l @ q" "key' = l @ s" "k = Suc j + length l" "\<forall>c \<in> set l. \<not> wildcard c"
          using IH unfolding Wild prefix_end.case by blast
        then have "c # p = (c # l) @ q \<and> key = (c # l) @ s \<and> k = j + length (c # l) \<and> (\<forall>c \<in> set (c # l). \<not> wildcard c)"
          using nw by (simp add: key)
        then show ?thesis unfolding e Wild prefix_end.case by blast
      next
        case Mismatch
        from IH [unfolded Mismatch prefix_end.case] obtain l d q s
          where M: "p = l @ d # q" "key' = l @ s" "\<forall>d \<in> set (l @ [d]). \<not> wildcard d" "\<forall>s'. s \<noteq> d # s'"
          by (elim exE conjE) (rule that)
        have "c # p = (c # l) @ d # q \<and> key = (c # l) @ s \<and> (\<forall>d \<in> set ((c # l) @ [d]). \<not> wildcard d) \<and> (\<forall>s'. s \<noteq> d # s')"
          using nw M by (simp add: key)
        then show ?thesis unfolding e Mismatch prefix_end.case by (intro exI)
      next
        case (Rest r)
        then show ?thesis using IH nw unfolding e Rest by (auto simp: key)
      qed
    qed
  qed
qed auto

text \<open>No stored key contains a backslash.\<close>

definition plain_keys :: "index_node \<Rightarrow> bool" where
  "plain_keys node \<longleftrightarrow> (\<forall>k. trie_vals node k \<noteq> [] \<longrightarrow> CHR 0x5C \<notin> set k)"

lemma plain_child:
  assumes "plain_keys node" and "n_children node (code c) = Some n"
  shows "plain_keys n"
  unfolding plain_keys_def
proof (intro allI impI)
  fix k assume k: "trie_vals n k \<noteq> []"
  have "trie_vals node (n_prefix node @ c # k) = trie_vals n k" using assms(2) by (simp add: trie_vals_at)
  then have "CHR 0x5C \<notin> set (n_prefix node @ c # k)" using k assms(1) unfolding plain_keys_def by metis
  then show "CHR 0x5C \<notin> set k" by simp
qed

lemma matches_under_strip:
  assumes laws: "fnmatch_laws fn" and plain: "plain_keys node" and p: "n_prefix node = l @ q"
    and nw: "\<forall>c \<in> set l. \<not> wildcard c"
  shows "matches_under fn node [] (l @ s) = matches_behind fn node q s"
proof -
  have "fn ((l @ q) @ r) (l @ s) \<longleftrightarrow> fn (q @ r) s" if "x \<in> set (trie_vals node ((l @ q) @ r))" for x r
  proof -
    have "trie_vals node ((l @ q) @ r) \<noteq> []" using that by auto
    then have "CHR 0x5C \<notin> set ((l @ q) @ r)" using plain unfolding plain_keys_def by blast
    then have "\<forall>c \<in> set l. \<not> special c" using nw by auto
    then show ?thesis using fnmatch_strip [OF laws] by simp
  qed
  then show ?thesis unfolding matches_under_behind by (auto simp: matches_behind_def p)
qed

lemma matches_under_mismatch:
  assumes laws: "fnmatch_laws fn" and plain: "plain_keys node" and p: "n_prefix node = l @ c # q"
    and nw: "\<forall>d \<in> set (l @ [c]). \<not> wildcard d" and s: "\<forall>s'. s \<noteq> c # s'"
  shows "matches_under fn node [] (l @ s) = {}"
proof -
  have "\<not> fn ((l @ c # q) @ r) (l @ s)" if "x \<in> set (trie_vals node ((l @ c # q) @ r))" for x r
  proof -
    have "trie_vals node ((l @ c # q) @ r) \<noteq> []" using that by auto
    then have "CHR 0x5C \<notin> set ((l @ c # q) @ r)" using plain unfolding plain_keys_def by blast
    then have "\<forall>c \<in> set l. \<not> special c" "\<not> special c" using nw by auto
    then show ?thesis using fnmatch_mismatch [OF laws, of l c s "q @ r"] s by simp
  qed
  then show ?thesis unfolding matches_under_behind by (auto simp: matches_behind_def p)
qed

definition literal_kid :: "(string \<Rightarrow> string \<Rightarrow> bool) \<Rightarrow> index_node \<Rightarrow> string \<Rightarrow> index_value set" where
  "literal_kid fn node key = (case key of [] \<Rightarrow> {}
     | c # rest \<Rightarrow> (case n_children node (code c) of None \<Rightarrow> {} | Some n \<Rightarrow> matches_under fn n [] rest))"

lemma kid_matches_literal:
  assumes laws: "fnmatch_laws fn" and plain: "plain_keys node" and kid: "n_children node c = Some n"
    and c: "c < 128" and nw: "\<not> wildcard (char_of c)"
  shows "kid_matches fn node [] key c = (case key of [] \<Rightarrow> {} | d # rest \<Rightarrow> if code d = c then matches_under fn n [] rest else {})"
proof -
  have cc: "code (char_of c) = c" using c by simp
  have lit: "fn (char_of c # k) key \<longleftrightarrow> (\<exists>s'. key = char_of c # s' \<and> fn k s')" if "x \<in> set (trie_vals n k)" for x k
  proof -
    have "trie_vals node (n_prefix node @ char_of c # k) = trie_vals n k" using kid cc by (simp add: trie_vals_at)
    then have "CHR 0x5C \<notin> set (n_prefix node @ char_of c # k)"
      using plain that unfolding plain_keys_def by (metis empty_iff empty_set)
    then have "\<not> special (char_of c)" using nw by auto
    then show ?thesis using laws unfolding fnmatch_laws_def by blast
  qed
  have d: "code d = c \<longleftrightarrow> d = char_of c" for d using cc by (metis of_char_eq_iff)
  show ?thesis using lit by (cases key) (auto simp: kid_matches_def kid matches_under_def d)
qed

lemma kids_split:
  assumes laws: "fnmatch_laws fn" and plain: "plain_keys node" and wf: "wf_node node"
    and key: "\<forall>c \<in> set key. \<not> wildcard c"
  shows "(\<Union>c \<in> set (child_range (n_first node) (n_last node)). kid_matches fn node [] key c)
    = kid_matches fn node [] key (code CHR ''*'') \<union> kid_matches fn node [] key (code CHR ''?'')
      \<union> kid_matches fn node [] key (code CHR ''['') \<union> literal_kid fn node key" (is "?L = ?R")
proof (intro set_eqI iffI)
  fix x assume "x \<in> ?L"
  then obtain c where c: "x \<in> kid_matches fn node [] key c" by auto
  then obtain n where n: "n_children node c = Some n" by (auto simp: kid_matches_def split: option.splits)
  have c128: "c < 128" using wf_node_child(3) [of _ _ _ _ _ _ "n_children node" c n] wf n by (cases node) auto
  then have cc: "code (char_of c) = c" by simp
  show "x \<in> ?R"
  proof (cases "wildcard (char_of c)")
    case True
    then show ?thesis using c cc by (elim disjE) auto
  next
    case False
    then have "x \<in> literal_kid fn node key"
      using c kid_matches_literal [OF laws plain n c128 False, of key] n
      by (auto simp: literal_kid_def split: list.splits if_splits)
    then show ?thesis by blast
  qed
next
  fix x assume x: "x \<in> ?R"
  have in_range: "c \<in> set (child_range (n_first node) (n_last node))" if "n_children node c = Some n" for c n
    using wf_node_child(5) [of _ _ _ _ _ _ "n_children node" c n] wf that by (cases node) auto
  have k: "x \<in> ?L" if xc: "x \<in> kid_matches fn node [] key c" for c
  proof -
    obtain n where "n_children node c = Some n" using xc by (auto simp: kid_matches_def split: option.splits)
    then show ?thesis using in_range xc by blast
  qed
  from x show "x \<in> ?L"
  proof (elim UnE)
    assume "x \<in> literal_kid fn node key"
    then obtain d rest n where d: "key = d # rest" "n_children node (code d) = Some n" "x \<in> matches_under fn n [] rest"
      by (auto simp: literal_kid_def split: list.splits option.splits)
    have "code d < 128" using wf_node_child(3) [of _ _ _ _ _ _ "n_children node" "code d" n] wf d(2) by (cases node) auto
    moreover have "\<not> wildcard (char_of (code d))" using key d(1) by simp
    ultimately have "x \<in> kid_matches fn node [] key (code d)"
      using kid_matches_literal [OF laws plain d(2), of key] d by simp
    then show ?thesis by (rule k)
  qed (use k in blast)+
qed

lemma try_wild_child_spec:
  assumes ok: "mm_ok idx" and S: "stored (mm idx) node off" "wf_node node" "sized node" "0 < unat off"
    and rep: "represents idx nd node off" and h: "trie_height node \<le> fuel"
    and len: "unat (n_total node) < 2 ^ 61" and c: "c \<noteq> NUL" and st: "wild_inv [] st"
  shows "\<exists>st'. try_wild_child fuel fn (\<lambda>_. True) idx nd key c st = Some st' \<and> wild_inv [] st'
    \<and> set (snd st') = set (snd st) \<union> kid_matches fn node [] key (code c)"
proof -
  obtain b v where sv: "st = (b, v)" by (cases st)
  have rc: "index_mm_readchild idx nd (of_char c) = (case n_children node (code c) of None \<Rightarrow> Some None
      | Some n \<Rightarrow> index_mm_read_node idx (kid_off node off (code c) OR index_get_mask n))"
    using rep by (simp add: represents_def split: option.split)
  show ?thesis
  proof (cases "n_children node (code c)")
    case None
    then show ?thesis using rc st by (auto simp: sv kid_matches_def try_wild_child_def)
  next
    case (Some n)
    note C = stored_child [OF S(1-3) Some S(4)]
    show ?thesis
    proof (cases "unat (kid_off node off (code c)) < length (mm idx)")
      case False
      then have "length (mm idx) \<le> unat (kid_off node off (code c))" by simp
      note E = read_node_empty [OF ok C(1,2,3) this]
      have "kid_matches fn node [] key (code c) = {}" using Some E(2) by (simp add: kid_matches_def matches_under_def)
      then show ?thesis using rc Some E(1) st by (auto simp: sv try_wild_child_def)
    next
      case True
      obtain md where md: "index_mm_read_node idx (kid_off node off (code c) OR index_get_mask n) = Some (Some md)"
        "represents idx md n (kid_off node off (code c))"
        using read_node_stored [OF ok C(1,2,3,4) True] by blast
      have si: "strbuf_inv b" "sb_text b = []" "sorted (map fst v)" using st by (auto simp: wild_inv_def sv)
      obtain b2 where b2: "strbuf_pushchar (\<lambda>_. True) b c = Some (True, b2)" "strbuf_inv b2" "sb_text b2 = [c]"
        using strbuf_pushchar_ok [OF si(1), of c] si(2) by auto
      have hn: "trie_height n \<le> fuel" using kid_height [OF S(2) Some] h by simp
      have w2: "wild_inv [c] (b2, v)" using b2 si by (simp add: wild_inv_def)
      have l2: "length [c] + unat (n_total n) < 2 ^ 62" using kid_total [OF S(2,3) Some] len by simp
      have nf: "nul_free [c]" using c by simp
      obtain b3 v3 where b3: "index_mm_searchwild_all fuel fn (\<lambda>_. True) idx md 0 key (b2, v) = Some (b3, v3)"
        "wild_inv [c] (b3, v3)" "set v3 = set v \<union> matches_behind fn n ([c] @ drop 0 (n_prefix n)) key"
        using searchwild_all_spec [OF ok C(1,2,3,4) md(2) hn l2 nf w2, of fn 0 key] by auto
      obtain b4 where b4: "strbuf_popchar b3 = Some b4" "strbuf_inv b4" "sb_text b4 = []"
        using strbuf_popchars_spec [of b3 1] b3(2) by (auto simp: wild_inv_def strbuf_popchar_popchars)
      have "kid_matches fn node [] key (code c) = matches_behind fn n ([c] @ drop 0 (n_prefix n)) key"
        using Some by (simp add: kid_matches_def matches_under_behind)
      then show ?thesis using rc Some md(1) b2(1) b3 b4 by (simp add: sv wild_inv_def try_wild_child_def)
    qed
  qed
qed

lemma searchwild_node_spec:
  assumes ok: "mm_ok idx" and laws: "fnmatch_laws fn"
  shows "stored (mm idx) node off \<Longrightarrow> wf_node node \<Longrightarrow> sized node \<Longrightarrow> 0 < unat off \<Longrightarrow> plain_keys node \<Longrightarrow>
    trie_height node \<le> fuel \<Longrightarrow> unat (n_total node) < 2 ^ 61 \<Longrightarrow> \<forall>c \<in> set key. \<not> wildcard c \<Longrightarrow> wild_inv [] st \<Longrightarrow>
    \<exists>st'. do { nd \<leftarrow> index_mm_read_node idx (off OR index_get_mask node);
               index_mm_searchwild_node fuel fn (\<lambda>_. True) idx nd key st } = Some st'
      \<and> wild_inv [] st' \<and> set (snd st') = set (snd st) \<union> matches_under fn node [] key"
proof (induction key arbitrary: node off st rule: length_induct)
  case (1 key)
  note S = "1.prems"(1-4)
  show ?case
  proof (cases "unat off < length (mm idx)")
    case False
    then have "length (mm idx) \<le> unat off" by simp
    note E = read_node_empty [OF ok S(1-3) this]
    have "matches_under fn node [] key = {}" using E(2) by (simp add: matches_under_def)
    then show ?thesis using E(1) "1.prems"(9) by (simp add: index_mm_searchwild_node.simps)
  next
    case True
    obtain nd where nd: "index_mm_read_node idx (off OR index_get_mask node) = Some (Some nd)" "represents idx nd node off"
      using read_node_stored [OF ok S True] by blast
    have pre: "mn_prefix nd = n_prefix node" using nd(2) by (simp add: represents_def)
    have asc: "ascii (n_prefix node)" using S(2) by (cases node) (simp add: wf_node_iff)
    note W = wild_prefix_cases [OF asc, where j = 0 and key = key]
    show ?thesis
    proof (cases "wild_prefix 0 (n_prefix node) key")
      case (Wild j)
      from W [unfolded Wild prefix_end.case] obtain l q s where l: "n_prefix node = l @ q" "key = l @ s" "j = 0 + length l"
        "\<forall>c \<in> set l. \<not> wildcard c" by (elim exE conjE) (rule that)
      have "matches_under fn node [] key = matches_behind fn node ([] @ drop j (n_prefix node)) (drop j key)"
        using matches_under_strip [OF laws "1.prems"(5) l(1,4), of s] l by simp
      then show ?thesis
        using searchwild_all_spec [OF ok S nd(2) "1.prems"(6), of "[]" st fn j "drop j key"] "1.prems"(7,9) nd(1) Wild pre
        by (simp add: index_mm_searchwild_node.simps [of fuel fn _ idx "Some nd"])
    next
      case Mismatch
      from W [unfolded Mismatch prefix_end.case] obtain l d q s
        where M: "n_prefix node = l @ d # q" "key = l @ s" "\<forall>d \<in> set (l @ [d]). \<not> wildcard d" "\<forall>s'. s \<noteq> d # s'"
        by (elim exE conjE) (rule that)
      have "matches_under fn node [] key = {}"
        using matches_under_mismatch [OF laws "1.prems"(5) M(1,3,4)] M(2) by simp
      then show ?thesis using nd(1) Mismatch pre "1.prems"(9)
        by (simp add: index_mm_searchwild_node.simps [of fuel fn _ idx "Some nd"])
    next
      case (Rest r)
      have r: "key = n_prefix node @ r" "\<forall>c \<in> set (n_prefix node). \<not> wildcard c" using W [unfolded Rest prefix_end.case] by blast+
      have rw: "\<forall>c \<in> set r. \<not> wildcard c" using "1.prems"(8) r(1) by simp
      have "matches_under fn node [] key = matches_behind fn node [] r"
        using matches_under_strip [OF laws "1.prems"(5), of "n_prefix node" "[]" r] r by simp
      also have "\<dots> = (if fn [] r then set (n_values node) else {}) \<union> (kid_matches fn node [] r (code CHR ''*'')
          \<union> kid_matches fn node [] r (code CHR ''?'') \<union> kid_matches fn node [] r (code CHR ''['') \<union> literal_kid fn node r)"
        unfolding matches_behind_split [OF S(2)] kids_split [OF laws "1.prems"(5) S(2) rw] ..
      finally have M: "matches_under fn node [] key = \<dots>" .
      note T = try_wild_child_spec [OF ok S nd(2) "1.prems"(6,7)]
      obtain s1 where s1: "try_wild_child fuel fn (\<lambda>_. True) idx nd r CHR ''*'' st = Some s1" "wild_inv [] s1"
        "set (snd s1) = set (snd st) \<union> kid_matches fn node [] r (code CHR ''*'')"
        using T [OF _ "1.prems"(9), of "CHR ''*''" fn r] by blast
      obtain s2 where s2: "try_wild_child fuel fn (\<lambda>_. True) idx nd r CHR ''?'' s1 = Some s2" "wild_inv [] s2"
        "set (snd s2) = set (snd s1) \<union> kid_matches fn node [] r (code CHR ''?'')"
        using T [OF _ s1(2), of "CHR ''?''" fn r] by blast
      obtain b3 o3 where s3: "try_wild_child fuel fn (\<lambda>_. True) idx nd r CHR ''['' s2 = Some (b3, o3)" "wild_inv [] (b3, o3)"
        "set o3 = set (snd s2) \<union> kid_matches fn node [] r (code CHR ''['')"
        using T [OF _ s2(2), of "CHR ''[''" fn r] by fastforce
      show ?thesis
      proof (cases r)
        case Nil
        have so: "sorted (map fst o3)" using s3(2) by (simp add: wild_inv_def)
        obtain o4 where o4: "index_mm_searchwild_allvalues idx nd o3 = Some o4" "set o4 = set o3 \<union> set (n_values node)" "sorted (map fst o4)"
          using searchwild_values_spec [of "mm idx" "length (n_values node)" "mn_values nd" "n_values node" o3] nd(2) so
          by (auto simp: index_mm_searchwild_allvalues_def represents_def)
        have "fn [] r" "literal_kid fn node r = {}" using laws Nil by (auto simp: fnmatch_laws_def literal_kid_def)
        moreover have "index_mm_searchwild_node fuel fn (\<lambda>_. True) idx (Some nd) key st = Some (b3, o4)"
          using Rest pre s1(1) s2(1) s3(1) o4(1) Nil by (subst index_mm_searchwild_node.simps) simp
        ultimately show ?thesis using nd(1) s1(3) s2(3) s3(2,3) o4 M by (auto simp: wild_inv_def)
      next
        case (Cons c rest)
        have nfn: "\<not> fn [] r" using laws Cons by (auto simp: fnmatch_laws_def)
        have rc: "index_mm_readchild idx nd (of_char c) = (case n_children node (code c) of None \<Rightarrow> Some None
            | Some n \<Rightarrow> index_mm_read_node idx (kid_off node off (code c) OR index_get_mask n))"
          using nd(2) by (simp add: represents_def split: option.split)
        have run: "index_mm_searchwild_node fuel fn (\<lambda>_. True) idx (Some nd) key st
            = do { child \<leftarrow> index_mm_readchild idx nd (of_char c);
                   index_mm_searchwild_node fuel fn (\<lambda>_. True) idx child rest (b3, o3) }"
          using Rest pre s1(1) s2(1) s3(1) Cons by (subst index_mm_searchwild_node.simps) simp
        show ?thesis
        proof (cases "n_children node (code c)")
          case None
          then have "literal_kid fn node r = {}" by (simp add: literal_kid_def Cons)
          then show ?thesis using run rc None nd(1) s1(3) s2(3) s3(2,3) M nfn
            by (auto simp: index_mm_searchwild_node.simps [of _ _ _ _ None])
        next
          case (Some n)
          note C = stored_child [OF S(1-3) Some S(4)]
          have "length rest < length key" using r(1) Cons by simp
          then obtain s4 where s4: "do { nd \<leftarrow> index_mm_read_node idx (kid_off node off (code c) OR index_get_mask n);
               index_mm_searchwild_node fuel fn (\<lambda>_. True) idx nd rest (b3, o3) } = Some s4" "wild_inv [] s4"
            "set (snd s4) = set o3 \<union> matches_under fn n [] rest"
            using "1.IH" [rule_format, OF _ C plain_child [OF "1.prems"(5) Some] _ _ _ s3(2), of rest]
              kid_height [OF S(2) Some] kid_total [OF S(2,3) Some] "1.prems"(6,7) rw Cons by auto
          have "literal_kid fn node r = matches_under fn n [] rest" using Some by (simp add: literal_kid_def Cons)
          then show ?thesis using run rc Some nd(1) s1(3) s2(3) s3(3) s4 M nfn by auto
        qed
      qed
    qed
  qed
qed

section \<open>Properties\<close>

lemma calc_height: "wf_node node \<Longrightarrow> trie_height (index_calculate_size node) = trie_height node"
proof (induction node)
  case (Node prefix vals first lst sz tot children)
  obtain sz' tot' where C: "index_calculate_size (Node prefix vals first lst sz tot children)
      = Node prefix vals first lst sz' tot' (\<lambda>c. map_option index_calculate_size (children c))"
    using calc_shape [OF Node.prems] by blast
  have "map_option trie_height (map_option index_calculate_size (children c)) = map_option trie_height (children c)" for c
    using Node.IH [OF rangeI, of _ c] wf_node_child(1)[OF Node.prems, of c] by (cases "children c") auto
  then show ?case unfolding C by (simp only: trie_height.simps)
qed

lemma written_total:
  assumes "wf_node root" and "trie_len root + 12 < 2 ^ 28"
  shows "unat (n_total (index_calculate_size root)) < 2 ^ 28"
  using calc_sized [OF assms(1)] assms(2) by simp

text \<open>
  C18. The wildcard search of a written index is complete and sound: for a search string without
  wildcard characters, and stored patterns without backslashes, \<open>index_mm_searchwild\<close> returns,
  ordered by priority, exactly the values of those stored patterns that \<open>fnmatch\<close> the string. Fuel
  for the height of the trie is enough, and no read leaves the file.
\<close>

theorem searchwild_exact:
  assumes "wf_node root" and "trie_len root + 12 < 2 ^ 28" and "fnmatch_laws fn" and "plain_keys root"
    and "\<forall>c \<in> set key. \<not> wildcard c" and "trie_height root \<le> fuel"
  shows "\<exists>idx out. index_mm_open True (Inr (index_write root)) None = Inr idx
    \<and> index_mm_searchwild fuel fn (\<lambda>_. True) idx key = Some out
    \<and> set out = {x. \<exists>pat. x \<in> set (trie_vals root pat) \<and> fn pat key} \<and> sorted (map fst out)"
proof -
  let ?n = "index_calculate_size root" and ?idx = "written_mm root"
  note S = written_stored [OF assms(1,2)]
  have tv: "trie_vals ?n k = trie_vals root k" for k by (rule calc_trie_vals [OF assms(1)])
  have plain: "plain_keys ?n" using assms(4) by (simp add: plain_keys_def tv)
  have m: "mm ?idx = index_write root" by (simp add: written_mm_def)
  have st0: "wild_inv [] (strbuf_with_stack 128, [])" by (simp add: wild_inv_def)
  have S2: "stored (mm ?idx) ?n 12" using S(2) m by simp
  have tot: "unat (n_total ?n) < 2 ^ 61" using written_total [OF assms(1,2)] by simp
  have h: "trie_height ?n \<le> fuel" using calc_height [OF assms(1)] assms(6) by simp
  obtain st' where st': "do { nd \<leftarrow> index_mm_read_node ?idx (12 OR index_get_mask ?n);
       index_mm_searchwild_node fuel fn (\<lambda>_. True) ?idx nd key (strbuf_with_stack 128, []) } = Some st'"
    "wild_inv [] st'" "set (snd st') = matches_under fn ?n [] key"
    using searchwild_node_spec [OF S(1) assms(3) S2 S(3,4) _ plain h tot assms(5) st0] by auto
  have "index_mm_searchwild fuel fn (\<lambda>_. True) ?idx key = Some (snd st')"
    using st'(1) by (cases st') (auto simp: index_mm_searchwild_def index_mm_readroot_def written_mm_def bind_eq_Some_conv)
  moreover have "set (snd st') = {x. \<exists>pat. x \<in> set (trie_vals root pat) \<and> fn pat key}"
    using st'(3) by (simp add: matches_under_def tv)
  moreover have "sorted (map fst (snd st'))" using st'(2) by (simp add: wild_inv_def)
  ultimately show ?thesis using index_open_written [OF assms(1,2)] by blast
qed

text \<open>A small matcher with \<open>*\<close> and \<open>?\<close>, to show that the hypotheses on \<open>fnmatch\<close> can be met.\<close>

fun glob :: "string \<Rightarrow> string \<Rightarrow> bool" where
  "glob [] s = (s = [])"
| "glob (c # p) [] = (c = CHR ''*'' \<and> glob p [])"
| "glob (c # p) (d # s) =
     (if c = CHR ''*'' then glob p (d # s) \<or> glob (c # p) s
      else if c = CHR ''?'' then glob p s
      else c = d \<and> glob p s)"

lemma glob_laws: "fnmatch_laws glob"
proof -
  have "glob (c # p) s \<longleftrightarrow> (\<exists>s'. s = c # s' \<and> glob p s')" if "\<not> special c" for c p s
    using that by (cases s) auto
  then show ?thesis by (simp add: fnmatch_laws_def)
qed

definition alias_example :: index_node where
  "alias_example = Node ''pci:*'' [(0, ''drv'')] INDEX_CHILDMAX 0 0 0 (\<lambda>_. None)"

theorem searchwild_exact_witness:
  "\<exists>idx out. index_mm_open True (Inr (index_write alias_example)) None = Inr idx
    \<and> index_mm_searchwild 1 glob (\<lambda>_. True) idx ''pci:v8'' = Some out \<and> set out = {(0, ''drv'')}"
proof -
  have wf: "wf_node alias_example" by (auto simp: alias_example_def wf_node_iff ascii_def)
  have len: "trie_len alias_example + 12 < 2 ^ 28" "trie_height alias_example \<le> 1"
    by (simp_all add: alias_example_def head_len_def child_range_def)
  have tv: "trie_vals alias_example k = (if k = ''pci:*'' then [(0, ''drv'')] else [])" for k
    by (cases "\<exists>r. k = ''pci:*'' @ r")
      (auto simp: alias_example_def trie_vals_Node [of "''pci:*''", simplified] trie_vals_mismatch split: list.splits)
  have plain: "plain_keys alias_example" by (simp add: plain_keys_def tv)
  have key: "\<forall>c \<in> set ''pci:v8''. \<not> wildcard c" by simp
  have g: "glob ''pci:*'' ''pci:v8''" by simp
  have "{x. \<exists>pat. x \<in> set (trie_vals alias_example pat) \<and> glob pat ''pci:v8''} = {(0, ''drv'')}"
    using g by (auto simp: tv split: if_splits)
  then show ?thesis using searchwild_exact [OF wf len(1) glob_laws plain key len(2)] by auto
qed

text \<open>
  Dumping a written index prints one line for every value stored in it, in the order of the
  trie: the key, a space, the value, a newline; the 4096-byte output buffer and the key buffer do
  not lose or duplicate anything.
\<close>

theorem index_dump_lines:
  assumes "wf_node root" and "trie_len root + 12 < 2 ^ 28" and "trie_height root \<le> fuel"
  shows "\<exists>idx out. index_mm_open True (Inr (index_write root)) None = Inr idx
    \<and> index_mm_dump fuel (\<lambda>_. True) idx alias_prefix = Some out
    \<and> out = trie_dump (index_calculate_size root) (if alias_prefix then ''alias '' else [])"
proof -
  let ?n = "index_calculate_size root" and ?idx = "written_mm root"
  let ?t = "if alias_prefix then ''alias '' else []"
  note S = written_stored [OF assms(1,2)]
  have m: "mm ?idx = index_write root" by (simp add: written_mm_def)
  have S2: "stored (mm ?idx) ?n 12" using S(2) m by simp
  have root: "index_mm_readroot ?idx = index_mm_read_node ?idx (12 OR index_get_mask ?n)"
    by (simp add: index_mm_readroot_def written_mm_def)
  have "index_mm_dump fuel (\<lambda>_. True) ?idx alias_prefix = Some (trie_dump ?n ?t)"
  proof (cases "unat (12 :: u32) < length (mm ?idx)")
    case False
    then have "length (mm ?idx) \<le> unat (12 :: u32)" by simp
    note E = read_node_empty [OF S(1) S2 S(3,4) this]
    have "trie_dump ?n ?t = []" using E(3,4) by (simp add: trie_dump_eq)
    then show ?thesis using E(1) root by (simp add: index_mm_dump_def)
  next
    case True
    obtain nd where nd: "index_mm_read_node ?idx (12 OR index_get_mask ?n) = Some (Some nd)" "represents ?idx nd ?n 12"
      using read_node_stored [OF S(1) S2 S(3,4) _ True] by auto
    obtain k buf where buf: "(if alias_prefix then strbuf_pushchars (\<lambda>_. True) (strbuf_with_stack 128) ''alias ''
        else Some (1, strbuf_with_stack 128)) = Some (k, buf)" "k \<noteq> 0" "strbuf_inv buf" "sb_text buf = ?t"
      using strbuf_pushmem_ok [OF strbuf_with_stack_inv(1) [of 128], of "''alias ''"]
      by (cases alias_prefix) (auto simp: strbuf_pushchars_def)
    have h: "trie_height ?n \<le> fuel" using calc_height [OF assms(1)] assms(3) by simp
    have len: "length ?t + unat (n_total ?n) < 2 ^ 62" using written_total [OF assms(1,2)] by simp
    have inv: "dump_inv ?t (buf, wrtbuf_init)" using buf(3,4) by (simp add: dump_inv_def wb_inv_def wrtbuf_init_def)
    have pos: "0 < unat (12 :: u32)" by simp
    from dump_node_spec [OF S(1) S2 S(3,4) pos nd(2) h len inv] obtain st' where
      st': "index_mm_dump_node fuel (\<lambda>_. True) ?idx nd (buf, wrtbuf_init) = Some st'"
        "wb_all (snd st') = wb_all wrtbuf_init @ trie_dump ?n ?t" by auto
    have "wb_out (wrtbuf_flush (snd st')) = trie_dump ?n ?t"
      using st'(2) by (auto simp: wb_all_def wrtbuf_flush_def wrtbuf_init_def)
    then show ?thesis using root nd(1) buf(1,2) st'(1) by (simp add: index_mm_dump_def)
  qed
  then show ?thesis using index_open_written [OF assms(1,2)] by blast
qed

theorem index_dump_lines_witness:
  "\<exists>idx out. index_mm_open True (Inr (index_write alias_example)) None = Inr idx
    \<and> index_mm_dump 1 (\<lambda>_. True) idx True = Some out \<and> out = ''alias pci:* drv'' @ [CHR 0x0A]"
proof -
  have wf: "wf_node alias_example" by (auto simp: alias_example_def wf_node_iff ascii_def)
  have len: "trie_len alias_example + 12 < 2 ^ 28" "trie_height alias_example \<le> 1"
    by (simp_all add: alias_example_def head_len_def child_range_def)
  have "trie_dump (index_calculate_size alias_example) ''alias '' = ''alias pci:* drv'' @ [CHR 0x0A]"
    by (simp add: alias_example_def child_range_def line_def)
  then show ?thesis using index_dump_lines [OF wf len, of True] by simp
qed

end
