(* ===== verification/Kmod_Index_File.thy ===== *)
theory Kmod_Index_File
  imports Kmod_Index_Walk
begin

text \<open>
  The second reader of the module index in \<open>libkmod/libkmod-index.c\<close>, used when the index is not
  kept in memory: it reads nodes from a \<open>FILE\<close>, copying the child table and the values. A stream is
  its contents with a position; \<open>getdelim\<close> accepts a string that ends at the end of the file.
  Allocations (\<open>strdup\<close>, \<open>malloc\<close> of a node or a value) are taken to succeed.

  None as the result of a walk is a loop that does not end: \<open>for (uint8_t ch = first; ch <= last; ch++)\<close>
  with \<open>last\<close> equal to 255, or a tree deeper than the fuel.
\<close>

section \<open>Streams\<close>

record index_file =
  fbytes :: "char list"
  root_offset :: u32

record index_node_f =
  nf_prefix :: string
  nf_values :: "index_value list"
  nf_first :: u8
  nf_last :: u8
  nf_children :: "u32 list"

definition read_char :: "char list \<Rightarrow> nat \<Rightarrow> int \<times> nat" where
  "read_char m p = (if p < length m then (int (code (m ! p)), p + 1) else (- 1, p))"

definition read_u32s :: "char list \<Rightarrow> nat \<Rightarrow> nat \<Rightarrow> (u32 list \<times> nat) option" where
  "read_u32s m p n =
     (if p + 4 * n \<le> length m then Some (map (\<lambda>i. dec32 (take 4 (drop (p + 4 * i) m))) [0..<n], p + 4 * n)
      else None)"

definition read_u32 :: "char list \<Rightarrow> nat \<Rightarrow> (u32 \<times> nat) option" where
  "read_u32 m p = map_option (\<lambda>(l, p). (hd l, p)) (read_u32s m p 1)"

text \<open>\<open>getdelim\<close> with delimiter NUL: the C string in its buffer and the new position.\<close>

definition getdelim :: "char list \<Rightarrow> nat \<Rightarrow> (string \<times> nat) option" where
  "getdelim m p =
     (if p < length m then
        (let s = takeWhile (\<lambda>c. c \<noteq> NUL) (drop p m) in
         Some (s, min (length m) (p + length s + 1)))
      else None)"

fun read_node_values :: "char list \<Rightarrow> nat \<Rightarrow> nat \<Rightarrow> index_value list \<Rightarrow> index_value list option" where
  "read_node_values m 0 p vals = Some vals"
| "read_node_values m (Suc n) p vals =
     do { (priority, p) \<leftarrow> read_u32 m p;
          (tmp, p) \<leftarrow> getdelim m p;
          read_node_values m n p (add_value vals tmp priority) }"

definition read_node_table :: "char list \<Rightarrow> bool \<Rightarrow> nat \<Rightarrow> (u8 \<times> u8 \<times> u32 list \<times> nat) option" where
  "read_node_table m present p =
     (if present then
        (let (first, p) = read_char m p; (lst, p) = read_char m p in
         if first = - 1 \<or> lst = - 1 \<or> first > lst then None
         else
           do { (children, p) \<leftarrow> read_u32s m p (nat (lst - first + 1));
                Some (of_int first, of_int lst, children, p) })
      else Some (INDEX_CHILDMAX, 0, [], p))"

definition index_read :: "index_file \<Rightarrow> u32 \<Rightarrow> index_node_f option" where
  "index_read idx offset =
     (if offset AND INDEX_NODE_MASK = 0 then None
      else
        do { let p = unat (offset AND INDEX_NODE_MASK);
             (prefix, p) \<leftarrow> (if offset AND INDEX_NODE_PREFIX \<noteq> 0 then getdelim (fbytes idx) p else Some ([], p));
             (first, lst, children, p) \<leftarrow> read_node_table (fbytes idx) (offset AND INDEX_NODE_CHILDS \<noteq> 0) p;
             vals \<leftarrow> (if offset AND INDEX_NODE_VALUES \<noteq> 0 then
                         do { (value_count, p) \<leftarrow> read_u32 (fbytes idx) p;
                              read_node_values (fbytes idx) (unat value_count) p [] }
                       else Some []);
             Some \<lparr>nf_prefix = prefix, nf_values = vals, nf_first = first, nf_last = lst,
                   nf_children = children\<rparr> })"

text \<open>\<open>contents\<close> is what \<open>fopen\<close> gives: the contents of the file, or NULL.\<close>

definition index_file_open :: "bool \<Rightarrow> char list option \<Rightarrow> index_file option" where
  "index_file_open malloc_ok contents =
     do { m \<leftarrow> contents;
          (magic, p) \<leftarrow> read_u32 m 0;
          if magic \<noteq> INDEX_MAGIC then None
          else
            do { (version, p) \<leftarrow> read_u32 m p;
                 if drop_bit 16 version \<noteq> INDEX_VERSION_MAJOR then None
                 else if \<not> malloc_ok then None
                 else
                   do { (root, p) \<leftarrow> read_u32 m p;
                        Some \<lparr>fbytes = m, root_offset = root\<rparr> } } }"

definition index_readroot :: "index_file \<Rightarrow> index_node_f option" where
  "index_readroot idx = index_read idx (root_offset idx)"

definition index_readchild :: "index_file \<Rightarrow> index_node_f \<Rightarrow> u8 \<Rightarrow> index_node_f option" where
  "index_readchild idx parent ch =
     (if nf_first parent \<le> ch \<and> ch \<le> nf_last parent
      then index_read idx (nf_children parent ! (unat ch - unat (nf_first parent)))
      else None)"

section \<open>Walks\<close>

definition child_loop :: "index_node_f \<Rightarrow> (nat \<Rightarrow> 's \<Rightarrow> 's option) \<Rightarrow> 's \<Rightarrow> 's option" where
  "child_loop node body s =
     (if nf_last node = 255 then None else foldM body (child_range (nf_first node) (nf_last node)) s)"

definition dump_value :: "string \<Rightarrow> index_value \<Rightarrow> wrtbuf \<Rightarrow> wrtbuf option" where
  "dump_value bytes v w =
     do { w \<leftarrow> wrtbuf_write w bytes;
          w \<leftarrow> wrtbuf_write w '' '';
          w \<leftarrow> wrtbuf_write w (snd v);
          wrtbuf_write w [CHR 0x0A] }"

primrec index_dump_node ::
    "nat \<Rightarrow> (size_t \<Rightarrow> bool) \<Rightarrow> index_file \<Rightarrow> index_node_f \<Rightarrow> strbuf \<times> wrtbuf \<Rightarrow> (strbuf \<times> wrtbuf) option" where
  "index_dump_node 0 = (\<lambda>alloc idx node st. None)"
| "index_dump_node (Suc fuel) = (\<lambda>alloc idx node (buf, wbuf).
     do { (pushed, buf) \<leftarrow> strbuf_pushchars alloc buf (nf_prefix node);
          wbuf \<leftarrow> foldM (dump_value (sb_text buf)) (nf_values node) wbuf;
          (buf, wbuf) \<leftarrow> child_loop node (\<lambda>ch (buf, wbuf).
              case index_readchild idx node (of_nat ch) of
                None \<Rightarrow> Some (buf, wbuf)
              | Some child \<Rightarrow>
                  do { (ok, buf) \<leftarrow> strbuf_pushchar alloc buf (char_of ch);
                       if ok then
                         do { (buf, wbuf) \<leftarrow> index_dump_node fuel alloc idx child (buf, wbuf);
                              buf \<leftarrow> strbuf_popchar buf;
                              Some (buf, wbuf) }
                       else Some (buf, wbuf) })
            (buf, wbuf);
          buf \<leftarrow> strbuf_popchars buf pushed;
          Some (buf, wbuf) })"

definition index_dump :: "nat \<Rightarrow> (size_t \<Rightarrow> bool) \<Rightarrow> index_file \<Rightarrow> bool \<Rightarrow> char list option" where
  "index_dump fuel alloc idx alias_prefix =
     (case index_readroot idx of
        None \<Rightarrow> Some []
      | Some root \<Rightarrow>
          do { (pushed, buf) \<leftarrow> (if alias_prefix then strbuf_pushchars alloc (strbuf_with_stack 128) ''alias ''
                                 else Some (1, strbuf_with_stack 128));
               wbuf \<leftarrow> (if pushed \<noteq> 0
                         then map_option snd (index_dump_node fuel alloc idx root (buf, wrtbuf_init))
                         else Some wrtbuf_init);
               Some (wb_out (wrtbuf_flush wbuf)) })"

function index_search__node :: "index_file \<Rightarrow> index_node_f option \<Rightarrow> string \<Rightarrow> string option" where
  "index_search__node idx node key =
     (case node of
        None \<Rightarrow> None
      | Some nd \<Rightarrow>
          (case match_prefix (nf_prefix nd) key of
             None \<Rightarrow> None
           | Some [] \<Rightarrow> (case nf_values nd of [] \<Rightarrow> None | v # _ \<Rightarrow> Some (snd v))
           | Some (c # rest) \<Rightarrow> index_search__node idx (index_readchild idx nd (of_char c)) rest))"
  by pat_completeness auto
termination
  by (relation "measure (\<lambda>(_, _, key). length key)") (auto dest: match_prefix_length)

declare index_search__node.simps [simp del]

definition index_search :: "index_file \<Rightarrow> string \<Rightarrow> string option" where
  "index_search idx key = index_search__node idx (index_readroot idx) key"

definition index_searchwild__allvalues :: "index_node_f \<Rightarrow> index_value list \<Rightarrow> index_value list" where
  "index_searchwild__allvalues node out = fold (\<lambda>v out. add_value out (snd v) (fst v)) (nf_values node) out"

primrec index_searchwild__all ::
    "nat \<Rightarrow> (string \<Rightarrow> string \<Rightarrow> bool) \<Rightarrow> (size_t \<Rightarrow> bool) \<Rightarrow> index_file \<Rightarrow> index_node_f \<Rightarrow> nat \<Rightarrow> string
      \<Rightarrow> strbuf \<times> index_value list \<Rightarrow> (strbuf \<times> index_value list) option" where
  "index_searchwild__all 0 = (\<lambda>fnmatch alloc idx node j subkey st. None)"
| "index_searchwild__all (Suc fuel) = (\<lambda>fnmatch alloc idx node j subkey (buf, out).
     do { (pushed, buf) \<leftarrow> strbuf_pushchars alloc buf (drop j (nf_prefix node));
          (buf, out) \<leftarrow> child_loop node (\<lambda>ch (buf, out).
              case index_readchild idx node (of_nat ch) of
                None \<Rightarrow> Some (buf, out)
              | Some child \<Rightarrow>
                  do { (ok, buf) \<leftarrow> strbuf_pushchar alloc buf (char_of ch);
                       if ok then
                         do { (buf, out) \<leftarrow> index_searchwild__all fuel fnmatch alloc idx child 0 subkey (buf, out);
                              buf \<leftarrow> strbuf_popchar buf;
                              Some (buf, out) }
                       else Some (buf, out) })
            (buf, out);
          (buf, out) \<leftarrow> (if nf_values node \<noteq> [] then
                            do { (s, buf) \<leftarrow> strbuf_str buf;
                                 Some (buf, if fnmatch s subkey then index_searchwild__allvalues node out else out) }
                          else Some (buf, out));
          buf \<leftarrow> strbuf_popchars buf pushed;
          Some (buf, out) })"

definition try_wild_child_f ::
    "nat \<Rightarrow> (string \<Rightarrow> string \<Rightarrow> bool) \<Rightarrow> (size_t \<Rightarrow> bool) \<Rightarrow> index_file \<Rightarrow> index_node_f \<Rightarrow> string \<Rightarrow> char
      \<Rightarrow> strbuf \<times> index_value list \<Rightarrow> (strbuf \<times> index_value list) option" where
  "try_wild_child_f fuel fnmatch alloc idx node key w = (\<lambda>(buf, out).
     case index_readchild idx node (of_char w) of
       None \<Rightarrow> Some (buf, out)
     | Some child \<Rightarrow>
         do { (ok, buf) \<leftarrow> strbuf_pushchar alloc buf w;
              if ok then
                do { (buf, out) \<leftarrow> index_searchwild__all fuel fnmatch alloc idx child 0 key (buf, out);
                     buf \<leftarrow> strbuf_popchar buf;
                     Some (buf, out) }
              else Some (buf, out) })"

function index_searchwild__node ::
    "nat \<Rightarrow> (string \<Rightarrow> string \<Rightarrow> bool) \<Rightarrow> (size_t \<Rightarrow> bool) \<Rightarrow> index_file \<Rightarrow> index_node_f option \<Rightarrow> string
      \<Rightarrow> strbuf \<times> index_value list \<Rightarrow> (strbuf \<times> index_value list) option" where
  "index_searchwild__node fuel fnmatch alloc idx node key st =
     (case node of
        None \<Rightarrow> Some st
      | Some nd \<Rightarrow>
          (case wild_prefix 0 (nf_prefix nd) key of
             Wild j \<Rightarrow> index_searchwild__all fuel fnmatch alloc idx nd j (drop j key) st
           | Mismatch \<Rightarrow> Some st
           | Rest key' \<Rightarrow>
               do { st \<leftarrow> try_wild_child_f fuel fnmatch alloc idx nd key' CHR ''*'' st;
                    st \<leftarrow> try_wild_child_f fuel fnmatch alloc idx nd key' CHR ''?'' st;
                    (buf, out) \<leftarrow> try_wild_child_f fuel fnmatch alloc idx nd key' CHR ''['' st;
                    case key' of
                      [] \<Rightarrow> Some (buf, index_searchwild__allvalues nd out)
                    | c # rest \<Rightarrow>
                        index_searchwild__node fuel fnmatch alloc idx (index_readchild idx nd (of_char c)) rest (buf, out) }))"
  by pat_completeness auto
termination
  by (relation "measure (\<lambda>(_, _, _, _, _, key, _). length key)") (auto dest: wild_prefix_length)

declare index_searchwild__node.simps [simp del]

definition index_searchwild ::
    "nat \<Rightarrow> (string \<Rightarrow> string \<Rightarrow> bool) \<Rightarrow> (size_t \<Rightarrow> bool) \<Rightarrow> index_file \<Rightarrow> string \<Rightarrow> index_value list option" where
  "index_searchwild fuel fnmatch alloc idx key =
     map_option snd (index_searchwild__node fuel fnmatch alloc idx (index_readroot idx) key (strbuf_with_stack 128, []))"

section \<open>Reading back what was written\<close>

lemma value_insert_last:
  "sorted (map fst (vs @ [(p, v)])) \<Longrightarrow> \<forall>w \<in> set vs. fst w = p \<longrightarrow> w = (p, v) \<Longrightarrow> value_insert vs p v = vs @ [(p, v)]"
proof (induction vs p v rule: value_insert.induct)
  case (2 q w vs p v)
  show ?case
  proof (cases "q < p")
    case True
    then show ?thesis using 2 by simp
  next
    case False
    have "q \<le> p" "\<forall>x \<in> set vs. q \<le> fst x \<and> fst x \<le> p" using "2.prems"(1) by (auto simp: sorted_append)
    then have "q = p" "\<forall>x \<in> set vs. x = (p, v)" using False "2.prems"(2) by force+
    moreover from this(2) have "vs @ [(p, v)] = (p, v) # vs" by (induction vs) auto
    ultimately show ?thesis using False "2.prems"(2) by simp
  qed
qed simp

lemma file_u32_append: "read_u32 (xs @ enc32 w @ ys) (length xs) = Some (w, length xs + 4)"
  by (simp add: read_u32_def read_u32s_def)

lemma file_u32s_append:
  "read_u32s (xs @ concat (map enc32 ws) @ ys) (length xs) (length ws) = Some (ws, length xs + 4 * length ws)"
proof -
  let ?m = "xs @ concat (map enc32 ws) @ ys"
  have len: "length (concat (map enc32 ws)) = 4 * length ws" by (induction ws) auto
  have "dec32 (take 4 (drop (length xs + 4 * i) ?m)) = ws ! i" if i: "i < length ws" for i
  proof -
    obtain a b where ab: "concat (map enc32 ws) = a @ enc32 (ws ! i) @ b" "length a = 4 * i"
      using concat_enc32_nth [OF i] by blast
    have "?m = (xs @ a) @ enc32 (ws ! i) @ (b @ ys)" by (simp add: ab(1))
    then have "take 4 (drop (length xs + 4 * i) ?m) = enc32 (ws ! i)" using ab(2) by simp
    then show ?thesis by simp
  qed
  then have "map (\<lambda>i. dec32 (take 4 (drop (length xs + 4 * i) ?m))) [0..<length ws] = ws"
    by (intro nth_equalityI) simp_all
  then show ?thesis using len by (simp add: read_u32s_def)
qed

lemma getdelim_append: "nul_free s \<Longrightarrow> getdelim (xs @ s @ NUL # ys) (length xs) = Some (s, length xs + length s + 1)"
  by (simp add: getdelim_def takeWhile_append)

definition steady :: "index_value list \<Rightarrow> bool" where
  "steady vs \<longleftrightarrow> sorted (map fst vs) \<and> (\<forall>v \<in> set vs. \<forall>w \<in> set vs. fst v = fst w \<longrightarrow> v = w)"

lemma read_node_values_append:
  "\<forall>v \<in> set vs. nul_free (snd v) \<Longrightarrow> steady (acc @ vs) \<Longrightarrow>
     read_node_values (xs @ concat (map (\<lambda>(p, v). enc32 p @ v @ [NUL]) vs) @ ys) (length vs) (length xs) acc
       = Some (acc @ vs)"
proof (induction vs arbitrary: xs acc)
  case (Cons pv vs)
  obtain p v where pv: "pv = (p, v)" by (cases pv)
  let ?t = "concat (map (\<lambda>(p, v). enc32 p @ v @ [NUL]) vs) @ ys"
  have m: "xs @ concat (map (\<lambda>(p, v). enc32 p @ v @ [NUL]) (pv # vs)) @ ys = xs @ enc32 p @ v @ NUL # ?t"
    by (simp add: pv)
  have m': "xs @ enc32 p @ v @ NUL # ?t = (xs @ enc32 p @ v @ [NUL]) @ ?t" by simp
  have ins: "add_value acc v p = acc @ [(p, v)]"
    unfolding add_value_def using Cons.prems(2) by (intro value_insert_last) (auto simp: steady_def sorted_append pv)
  have st: "steady ((acc @ [(p, v)]) @ vs)" using Cons.prems(2) by (simp add: pv)
  have "read_node_values (xs @ enc32 p @ v @ NUL # ?t) (length vs) (length xs + 4 + length v + 1) (acc @ [(p, v)])
      = Some (acc @ pv # vs)"
    unfolding m' using Cons.IH [OF _ st, of "xs @ enc32 p @ v @ [NUL]"] Cons.prems(1) by (simp add: ac_simps pv)
  moreover have "getdelim (xs @ enc32 p @ v @ NUL # ?t) (length xs + 4) = Some (v, length xs + 4 + length v + 1)"
    using getdelim_append [of v "xs @ enc32 p" ?t] Cons.prems(1) by (simp add: pv)
  ultimately show ?case unfolding m using file_u32_append [of xs p "v @ NUL # ?t"] ins by simp
qed simp

lemma read_node_table_append:
  assumes m: "m = xs @ [char_of (unat first), char_of (unat lst)] @ concat (map enc32 offs) @ ys"
    and fl: "first \<le> lst" and len: "length offs = length (child_range first lst)"
  shows "read_node_table m True (length xs) = Some (first, lst, offs, length xs + 2 + 4 * length offs)"
proof -
  let ?x = "xs @ [char_of (unat first), char_of (unat lst)]"
  have rc: "read_char m (length xs) = (int (unat first), length xs + 1)"
    "read_char m (length xs + 1) = (int (unat lst), length xs + 2)"
    using unat_lt_8 [of first] unat_lt_8 [of lst] by (simp_all add: m read_char_def nth_append)
  have "nat (int (unat lst) - int (unat first) + 1) = length offs"
    using fl unfolding len child_range_def word_le_nat_alt length_upt by linarith
  moreover have "read_u32s m (length xs + 2) (length offs) = Some (offs, length xs + 2 + 4 * length offs)"
    using file_u32s_append [of ?x offs ys] by (simp add: m)
  moreover have "\<not> int (unat lst) < int (unat first)" using fl unfolding word_le_nat_alt by linarith
  moreover have "int (unat first) \<noteq> - 1" "int (unat lst) \<noteq> - 1" by linarith+
  ultimately show ?thesis using rc by (simp add: read_node_table_def)
qed

lemma read_node_values_table:
  assumes m: "m = xs @ write_values vs @ ys" and "\<forall>v \<in> set vs. nul_free (snd v)" and "length vs < 2 ^ 32" and "steady vs"
  shows "(if vs \<noteq> [] then do { (value_count, p) \<leftarrow> read_u32 m (length xs);
            read_node_values m (unat value_count) p [] } else Some []) = Some vs"
proof (cases "vs = []")
  case False
  let ?c = "concat (map (\<lambda>(priority, v). enc32 priority @ v @ [NUL]) vs)"
  have m1: "m = xs @ enc32 (of_nat (length vs)) @ ?c @ ys" using m False by (simp add: write_values_def)
  have m2: "m = (xs @ enc32 (of_nat (length vs))) @ ?c @ ys" using m1 by simp
  have "read_u32 m (length xs) = Some (of_nat (length vs), length xs + 4)"
    using file_u32_append [of xs "of_nat (length vs)" "?c @ ys"] m1 by simp
  moreover have "read_node_values m (length vs) (length xs + 4) [] = Some vs"
    using read_node_values_append [OF assms(2), of "[]" "xs @ enc32 (of_nat (length vs))" ys] assms(4) m2 by simp
  moreover have "unat (of_nat (length vs) :: u32) = length vs" using assms(3) by (rule unat_of_nat_32)
  ultimately show ?thesis using False by simp
qed simp

text \<open>The bytes of a stored node, with the child table spelt out.\<close>

lemma stored_layout:
  assumes st: "stored m node off" and wf: "wf_node node" and sz: "sized node"
  obtains pre offs post where
    "m = pre @ (if n_prefix node \<noteq> [] then n_prefix node @ [NUL] else [])
       @ (if index__haschildren node then [char_of (unat (n_first node)), char_of (unat (n_last node))] @ concat (map enc32 offs) else [])
       @ write_values (n_values node) @ post"
    "length pre = unat off" "unat off < 2 ^ 28" "length (n_values node) < 2 ^ 32"
    "length offs = length (child_range (n_first node) (n_last node))"
    "\<And>c. c \<in> set (child_range (n_first node) (n_last node)) \<Longrightarrow> offs ! (c - unat (n_first node))
       = (case n_children node c of None \<Rightarrow> 0 | Some n \<Rightarrow> kid_off node off c OR index_get_mask n)"
proof -
  obtain prefix vs first lst s t children where node: "node = Node prefix vs first lst s t children" by (cases node)
  let ?cs = "child_range first lst"
  let ?offs = "child_offs (off + s) 0 (map children ?cs)"
  have W: "first < INDEX_CHILDMAX \<longrightarrow> first \<le> lst" using wf by (auto simp: node wf_node_iff)
  have S: "unat s = head_len prefix vs first lst" "unat t = unat s + tots (map children ?cs)"
    using sz by (auto simp: node sized_iff)
  obtain pre post where m: "m = pre @ write_head prefix vs first lst ?offs @ post" and pl: "length pre = unat off"
    and bound: "unat off + unat t < 2 ^ 28"
    using st unfolding node by (elim stored_NodeE) auto
  have "length vs \<le> length (write_head prefix vs first lst ?offs)"
    using length_vals_le [of vs] by (simp add: write_head_def)
  also have "\<dots> = unat s" using length_write_head [OF W, of ?offs] S(1) by simp
  finally have lv: "length vs < 2 ^ 32" using bound S(2) by simp
  have os: "unat (off + s) = unat off + unat s" using bound S(2) by (simp add: unat_word_ariths)
  have nth: "?offs ! (c - unat first) = (case children c of None \<Rightarrow> 0 | Some n \<Rightarrow> kid_off node off c OR index_get_mask n)"
    if "c \<in> set ?cs" for c
    using child_offs_nth [of "c - unat first" "map children ?cs" "off + s" 0] child_range_nth [OF that] os bound S(2)
    by (simp add: kid_off_def child_pos_def node split: option.split)
  have len: "length ?offs = length ?cs" by simp
  have ne: "first < INDEX_CHILDMAX \<Longrightarrow> ?cs \<noteq> []" using W by (simp add: child_range_def word_le_nat_alt)
  show ?thesis
    by (rule that [of pre ?offs post])
      (use m pl bound lv nth len ne in \<open>auto simp: node write_head_def index__haschildren_def\<close>)
qed

text \<open>
  A trie is tidy if values stored under one key with equal priority are equal and every child has
  a value or children of its own; \<open>represents_f\<close> is the counterpart of \<open>represents\<close> for the nodes of
  this reader.
\<close>

definition occupied :: "index_node \<Rightarrow> bool" where
  "occupied node \<longleftrightarrow> n_values node \<noteq> [] \<or> index__haschildren node"

primrec full :: "index_node \<Rightarrow> bool" where
  "full (Node prefix vals first lst sz tot children) \<longleftrightarrow>
     (\<forall>c. map_option full (children c) \<noteq> Some False) \<and> (\<forall>c. map_option occupied (children c) \<noteq> Some False)"

lemma full_iff:
  "full (Node prefix vals first lst sz tot children) \<longleftrightarrow> (\<forall>c n. children c = Some n \<longrightarrow> full n \<and> occupied n)"
  by auto

declare full.simps [simp del]

definition tidy :: "index_node \<Rightarrow> bool" where
  "tidy node \<longleftrightarrow> full node \<and> (\<forall>k. steady (trie_vals node k))"

definition represents_f :: "index_file \<Rightarrow> index_node_f \<Rightarrow> index_node \<Rightarrow> u32 \<Rightarrow> bool" where
  "represents_f idx f node off \<longleftrightarrow> nf_prefix f = n_prefix node \<and> nf_values f = n_values node
     \<and> nf_last f \<noteq> 255 \<and> child_range (nf_first f) (nf_last f) = child_range (n_first node) (n_last node)
     \<and> (\<forall>ch. index_readchild idx f ch = (case n_children node (unat ch) of
           None \<Rightarrow> None
         | Some n \<Rightarrow> index_read idx (kid_off node off (unat ch) OR index_get_mask n)))"

lemma tidy_child:
  assumes "tidy node" and "wf_node node" and "n_children node c = Some n"
  shows "tidy n \<and> occupied n"
proof -
  obtain p vs f l s t ch where node: "node = Node p vs f l s t ch" by (cases node)
  have "ch c = Some n" using assms(3) node by simp
  moreover from this have "c < 128" using wf_node_child(5)[OF assms(2)[unfolded node]] range_small [OF assms(2)] by (auto simp: node)
  ultimately have "trie_vals n k = trie_vals node (p @ char_of c # k)" for k
    by (simp add: node trie_vals_Node)
  then show ?thesis using assms(1,3) by (auto simp: tidy_def node full_iff)
qed

lemma tidy_values: "tidy node \<Longrightarrow> steady (n_values node)"
  using trie_vals_Node_self by (cases node) (metis index_node.sel(2) tidy_def)

lemma index_read_stored:
  assumes st: "stored (fbytes idx) node off" and wf: "wf_node node" and sz: "sized node" and pos: "0 < unat off"
    and td: "tidy node"
  shows "\<exists>f. index_read idx (off OR index_get_mask node) = Some f \<and> represents_f idx f node off"
proof -
  let ?m = "fbytes idx" and ?first = "n_first node" and ?lst = "n_last node" and ?vs = "n_values node"
  let ?A = "if n_prefix node \<noteq> [] then n_prefix node @ [NUL] else []"
  obtain pre offs post where L:
    "?m = pre @ ?A @ (if index__haschildren node then [char_of (unat ?first), char_of (unat ?lst)] @ concat (map enc32 offs) else [])
       @ write_values ?vs @ post" "length pre = unat off" "unat off < 2 ^ 28" "length ?vs < 2 ^ 32"
    "length offs = length (child_range ?first ?lst)"
    "\<And>c. c \<in> set (child_range ?first ?lst) \<Longrightarrow> offs ! (c - unat ?first)
       = (case n_children node c of None \<Rightarrow> 0 | Some n \<Rightarrow> kid_off node off c OR index_get_mask n)"
    by (rule stored_layout [OF st wf sz]) blast
  have W: "nul_free (n_prefix node)" "\<forall>v \<in> set ?vs. nul_free (snd v)" "unat ?lst < 128"
    "index__haschildren node \<longrightarrow> ?first \<le> ?lst"
    using wf by (cases node; auto simp: wf_node_iff ascii_def index__haschildren_def)+
  have sv: "steady ?vs" using td by (rule tidy_values)
  define B where "B = (if index__haschildren node then [char_of (unat ?first), char_of (unat ?lst)] @ concat (map enc32 offs) else [])"
  define f where "f = \<lparr>nf_prefix = n_prefix node, nf_values = ?vs,
    nf_first = if index__haschildren node then ?first else INDEX_CHILDMAX,
    nf_last = if index__haschildren node then ?lst else 0, nf_children = if index__haschildren node then offs else []\<rparr>"
  note bits = mask_bits [OF L(3), of node]
  have P: "(if n_prefix node \<noteq> [] then getdelim ?m (unat off) else Some ([], unat off)) = Some (n_prefix node, length (pre @ ?A))"
    using getdelim_append [OF W(1), of pre "B @ write_values ?vs @ post"] L(1,2) by (simp add: B_def)
  have "length (concat (map enc32 offs)) = 4 * length offs" by (induction offs) auto
  then have T: "read_node_table ?m (index__haschildren node) (length (pre @ ?A))
      = Some (nf_first f, nf_last f, nf_children f, length (pre @ ?A @ B))"
    using read_node_table_append [of ?m "pre @ ?A" ?first ?lst offs "write_values ?vs @ post"] L(1,5) W(4)
    by (cases "index__haschildren node") (simp_all add: f_def B_def read_node_table_def [of _ False])
  have V: "(if ?vs \<noteq> [] then do { (value_count, p) \<leftarrow> read_u32 ?m (length (pre @ ?A @ B));
            read_node_values ?m (unat value_count) p [] } else Some []) = Some ?vs"
    by (rule read_node_values_table [OF _ W(2) L(4) sv, of _ _ post]) (use L(1) in \<open>simp add: B_def\<close>)
  have "off \<noteq> 0" using pos by auto
  then have rd: "index_read idx (off OR index_get_mask node) = Some f"
    unfolding index_read_def bits Let_def using P T V by (simp add: f_def del: length_append)
  have kids: "index_readchild idx f ch = (case n_children node (unat ch) of None \<Rightarrow> None
      | Some n \<Rightarrow> index_read idx (kid_off node off (unat ch) OR index_get_mask n))" for ch
  proof (cases "index__haschildren node \<and> unat ch \<in> set (child_range ?first ?lst)")
    case True
    then have "nf_first f \<le> ch" "ch \<le> nf_last f" by (auto simp: f_def child_range_def word_le_nat_alt)
    then show ?thesis using True L(6)[of "unat ch"]
      by (auto simp: index_readchild_def f_def index_read_def [of idx 0] split: option.split)
  next
    case False
    have "\<not> (nf_first f \<le> ch \<and> ch \<le> nf_last f)"
      using False by (auto simp: f_def child_range_def word_le_nat_alt)
    moreover have "n_children node (unat ch) = None"
      using False wf_node_child(4,5)[of _ _ _ _ _ _ _ "unat ch"] wf
      by (cases node; cases "n_children node (unat ch)") (auto simp: index__haschildren_def)
    ultimately show ?thesis by (auto simp: index_readchild_def)
  qed
  have "nf_last f \<noteq> 255" using W(3) by (auto simp: f_def)
  moreover have "child_range (nf_first f) (nf_last f) = child_range ?first ?lst"
    using W(3) by (auto simp: f_def child_range_def index__haschildren_def word_less_nat_alt)
  ultimately have "represents_f idx f node off" using kids by (simp add: represents_f_def f_def)
  then show ?thesis using rd by blast
qed

section \<open>The two readers agree\<close>

text \<open>
  \<open>agree idx idf nd f\<close>: the decoded nodes show the same prefix, values and range of children, and
  following a child pointer gives NULL in both readers or again nodes that agree. The relation is
  coinductive, since nothing bounds the depth of a file.
\<close>

coinductive agree :: "index_mm \<Rightarrow> index_file \<Rightarrow> index_mm_node \<Rightarrow> index_node_f \<Rightarrow> bool" for idx idf where
  "nf_prefix f = mn_prefix nd
   \<Longrightarrow> read_values (mm idx) (unat (mn_value_count nd)) (mn_values nd) = Some (nf_values f)
   \<Longrightarrow> nf_last f \<noteq> 255
   \<Longrightarrow> child_range (nf_first f) (nf_last f) = child_range (mn_first nd) (mn_last nd)
   \<Longrightarrow> \<forall>ch. index_mm_readchild idx nd ch = Some None \<and> index_readchild idf f ch = None
        \<or> (\<exists>nd' f'. index_mm_readchild idx nd ch = Some (Some nd') \<and> index_readchild idf f ch = Some f' \<and> agree idx idf nd' f')
   \<Longrightarrow> agree idx idf nd f"

inductive_cases agreeE: "agree idx idf nd f"

lemma agree_child:
  assumes "agree idx idf nd f"
  obtains "index_mm_readchild idx nd ch = Some None" "index_readchild idf f ch = None"
    | nd' f' where "index_mm_readchild idx nd ch = Some (Some nd')" "index_readchild idf f ch = Some f'" "agree idx idf nd' f'"
proof -
  from assms have "index_mm_readchild idx nd ch = Some None \<and> index_readchild idf f ch = None
      \<or> (\<exists>nd' f'. index_mm_readchild idx nd ch = Some (Some nd') \<and> index_readchild idf f ch = Some f' \<and> agree idx idf nd' f')"
    by (elim agreeE) (erule allE [of _ ch], blast)
  then show ?thesis using that by blast
qed

lemma occupied_inside:
  assumes st: "stored m node off" and wf: "wf_node node" and sz: "sized node" and "occupied node"
  shows "unat off < length m"
proof -
  obtain pre offs post where L:
    "m = pre @ (if n_prefix node \<noteq> [] then n_prefix node @ [NUL] else [])
       @ (if index__haschildren node then [char_of (unat (n_first node)), char_of (unat (n_last node))] @ concat (map enc32 offs) else [])
       @ write_values (n_values node) @ post" "length pre = unat off"
    by (rule stored_layout [OF st wf sz]) blast
  have "n_values node \<noteq> [] \<Longrightarrow> 0 < length (write_values (n_values node))"
    using length_vals_le [of "n_values node"] by (metis length_greater_0_conv less_le_trans)
  then show ?thesis using assms(4) unfolding occupied_def L(1) length_append L(2) by (auto split: if_splits)
qed

lemma agree_stored:
  assumes ok: "mm_ok idx" "fbytes idf = mm idx" and st: "stored (mm idx) node off" and wf: "wf_node node" and sz: "sized node"
    and pos: "0 < unat off" and td: "tidy node" and oc: "occupied node"
  shows "\<exists>nd f. index_mm_read_node idx (off OR index_get_mask node) = Some (Some nd)
    \<and> index_read idf (off OR index_get_mask node) = Some f \<and> agree idx idf nd f"
proof -
  let ?R = "\<lambda>nd f. \<exists>node off. stored (mm idx) node off \<and> wf_node node \<and> sized node \<and> 0 < unat off \<and> tidy node
    \<and> represents idx nd node off \<and> represents_f idf f node off"
  have both: "\<exists>nd f. index_mm_read_node idx (off OR index_get_mask node) = Some (Some nd)
      \<and> index_read idf (off OR index_get_mask node) = Some f \<and> ?R nd f"
    if h: "stored (mm idx) node off" "wf_node node" "sized node" "0 < unat off" "tidy node" "occupied node" for node off
  proof -
    have "unat off < length (mm idx)" using occupied_inside h(1,2,3,6) by blast
    then obtain nd where "index_mm_read_node idx (off OR index_get_mask node) = Some (Some nd)" "represents idx nd node off"
      using read_node_stored [OF ok(1) h(1-4)] by blast
    moreover obtain f where "index_read idf (off OR index_get_mask node) = Some f" "represents_f idf f node off"
      using index_read_stored [OF _ h(2-5)] h(1) ok(2) by metis
    ultimately show ?thesis using h by blast
  qed
  have step: "agree idx idf nd f" if "?R nd f" for nd f
    using that
  proof (coinduction arbitrary: nd f)
    case agree
    then obtain node off where A: "stored (mm idx) node off" "wf_node node" "sized node" "0 < unat off" "tidy node"
      "represents idx nd node off" "represents_f idf f node off" by blast
    note R = A(6)[unfolded represents_def] and F = A(7)[unfolded represents_f_def]
    have kid: "index_mm_readchild idx nd ch = Some None \<and> index_readchild idf f ch = None
        \<or> (\<exists>nd' f'. index_mm_readchild idx nd ch = Some (Some nd') \<and> index_readchild idf f ch = Some f' \<and> ?R nd' f')" for ch
    proof (cases "n_children node (unat ch)")
      case None
      then show ?thesis using R F by simp
    next
      case (Some n)
      note C = stored_child [OF A(1-3) Some A(4)] tidy_child [OF A(5,2) Some]
      show ?thesis using both [OF C(1-4)] C(5) R F Some by simp
    qed
    have "read_values (mm idx) (unat (mn_value_count nd)) (mn_values nd) = Some (nf_values f)" using R F by simp
    moreover have "child_range (nf_first f) (nf_last f) = child_range (mn_first nd) (mn_last nd)"
      using F represents_range [OF A(6,2)] by simp
    moreover have "\<forall>ch. index_mm_readchild idx nd ch = Some None \<and> index_readchild idf f ch = None
        \<or> (\<exists>nd' f'. index_mm_readchild idx nd ch = Some (Some nd') \<and> index_readchild idf f ch = Some f'
             \<and> (?R nd' f' \<or> agree idx idf nd' f'))" using kid by blast
    ultimately show ?case using R F by (intro exI [of _ f] exI [of _ nd] conjI) simp_all
  qed
  show ?thesis using both [OF st wf sz pos td oc] step by blast
qed

lemma foldM_cong: "\<forall>x \<in> set xs. f x = g x \<Longrightarrow> foldM f xs s = foldM g xs s"
  by (induction xs arbitrary: s) (auto split: Option.bind_split)

lemma dump_values_foldM:
  "read_values m n p = Some vs \<Longrightarrow> dump_values m n p bytes w = foldM (dump_value bytes) vs w"
proof (induction m n p bytes w arbitrary: vs rule: dump_values.induct)
  case (2 m i p bytes w)
  obtain v q vs' where v: "read_value_mm m p = Some (v, q)" "read_values m i q = Some vs'" "vs = v # vs'"
    using "2.prems" by (auto simp: bind_eq_Some_conv split: prod.splits)
  show ?case using "2.IH" [OF v(1) refl _ _ _ _ v(2)] v(1)
    by (auto simp: v(3) dump_value_def Option.bind_assoc intro!: bind_option_cong)
qed simp

lemma searchwild_values_fold:
  "read_values m n p = Some vs \<Longrightarrow> searchwild_values m n p out = Some (fold (\<lambda>v out. add_value out (snd v) (fst v)) vs out)"
proof (induction m n p out arbitrary: vs rule: searchwild_values.induct)
  case (2 m i p out)
  obtain v q vs' where v: "read_value_mm m p = Some (v, q)" "read_values m i q = Some vs'" "vs = v # vs'"
    using "2.prems" by (auto simp: bind_eq_Some_conv split: prod.splits)
  show ?case using "2.IH" [OF v(1) refl v(2)] v(1) by (simp add: v(3))
qed simp

lemma read_values_length: "read_values m n p = Some vs \<Longrightarrow> length vs = n"
  by (induction m n p arbitrary: vs rule: read_values.induct) (auto simp: bind_eq_Some_conv split: prod.splits)

lemma agree_facts:
  assumes "agree idx idf nd f"
  shows "nf_prefix f = mn_prefix nd"
    "read_values (mm idx) (unat (mn_value_count nd)) (mn_values nd) = Some (nf_values f)"
    "child_loop f body s = foldM body (child_range (mn_first nd) (mn_last nd)) s"
    "0 < mn_value_count nd \<longleftrightarrow> nf_values f \<noteq> []"
    "index_mm_searchwild_allvalues idx nd out = Some (index_searchwild__allvalues f out)"
proof -
  show v: "read_values (mm idx) (unat (mn_value_count nd)) (mn_values nd) = Some (nf_values f)"
    and "nf_prefix f = mn_prefix nd"
    and "child_loop f body s = foldM body (child_range (mn_first nd) (mn_last nd)) s"
    using assms by (auto elim: agreeE simp: child_loop_def)
  show "0 < mn_value_count nd \<longleftrightarrow> nf_values f \<noteq> []"
    using read_values_length [OF v] by (auto simp: word_less_nat_alt simp flip: length_greater_0_conv)
  show "index_mm_searchwild_allvalues idx nd out = Some (index_searchwild__allvalues f out)"
    using searchwild_values_fold [OF v] by (simp add: index_mm_searchwild_allvalues_def index_searchwild__allvalues_def)
qed

lemma dump_node_agree:
  "agree idx idf nd f \<Longrightarrow> index_mm_dump_node fuel alloc idx nd st = index_dump_node fuel alloc idf f st"
proof (induction fuel arbitrary: nd f st)
  case (Suc fuel)
  note F = agree_facts [OF Suc.prems]
  have body: "(do { child \<leftarrow> index_mm_readchild idx nd (of_nat ch);
       case child of None \<Rightarrow> Some (buf, wbuf)
       | Some child \<Rightarrow> do { (ok, buf) \<leftarrow> strbuf_pushchar alloc buf (char_of ch);
            if ok then do { (buf, wbuf) \<leftarrow> index_mm_dump_node fuel alloc idx child (buf, wbuf);
                            buf \<leftarrow> strbuf_popchar buf; Some (buf, wbuf) }
            else Some (buf, wbuf) } })
     = (case index_readchild idf f (of_nat ch) of None \<Rightarrow> Some (buf, wbuf)
       | Some child \<Rightarrow> do { (ok, buf) \<leftarrow> strbuf_pushchar alloc buf (char_of ch);
            if ok then do { (buf, wbuf) \<leftarrow> index_dump_node fuel alloc idf child (buf, wbuf);
                            buf \<leftarrow> strbuf_popchar buf; Some (buf, wbuf) }
            else Some (buf, wbuf) })" for ch :: nat and buf wbuf
  proof (cases rule: agree_child [OF Suc.prems, of "of_nat ch"])
    case (2 nd' f')
    have "index_mm_dump_node fuel alloc idx nd' = index_dump_node fuel alloc idf f'" by (rule ext) (rule Suc.IH [OF 2(3)])
    then show ?thesis unfolding 2(1,2) by (simp cong: if_cong)
  qed simp
  obtain buf wbuf where st: "st = (buf, wbuf)" by (cases st)
  show ?case unfolding index_mm_dump_node.simps index_dump_node.simps st prod.case body F(1,3)
    by (simp add: dump_values_foldM [OF F(2)])
qed simp

lemma searchwild_all_agree:
  "agree idx idf nd f \<Longrightarrow> index_mm_searchwild_all fuel fn alloc idx nd j subkey st
     = index_searchwild__all fuel fn alloc idf f j subkey st"
proof (induction fuel arbitrary: nd f j st)
  case (Suc fuel)
  note F = agree_facts [OF Suc.prems]
  have body: "(do { child \<leftarrow> index_mm_readchild idx nd (of_nat ch);
       case child of None \<Rightarrow> Some (buf, out)
       | Some child \<Rightarrow> do { (ok, buf) \<leftarrow> strbuf_pushchar alloc buf (char_of ch);
            if ok then do { (buf, out) \<leftarrow> index_mm_searchwild_all fuel fn alloc idx child 0 subkey (buf, out);
                            buf \<leftarrow> strbuf_popchar buf; Some (buf, out) }
            else Some (buf, out) } })
     = (case index_readchild idf f (of_nat ch) of None \<Rightarrow> Some (buf, out)
       | Some child \<Rightarrow> do { (ok, buf) \<leftarrow> strbuf_pushchar alloc buf (char_of ch);
            if ok then do { (buf, out) \<leftarrow> index_searchwild__all fuel fn alloc idf child 0 subkey (buf, out);
                            buf \<leftarrow> strbuf_popchar buf; Some (buf, out) }
            else Some (buf, out) })" for ch :: nat and buf out
  proof (cases rule: agree_child [OF Suc.prems, of "of_nat ch"])
    case (2 nd' f')
    have "index_mm_searchwild_all fuel fn alloc idx nd' 0 subkey = index_searchwild__all fuel fn alloc idf f' 0 subkey" by (rule ext) (rule Suc.IH [OF 2(3)])
    then show ?thesis unfolding 2(1,2) by (simp cong: if_cong)
  qed simp
  have vals: "match_values fn idx nd subkey (buf, out) = (if nf_values f \<noteq> [] then
      do { (s, buf) \<leftarrow> strbuf_str buf; Some (buf, if fn s subkey then index_searchwild__allvalues f out else out) }
      else Some (buf, out))" for buf out
    by (auto simp: match_values_def F(4,5) intro!: bind_option_cong)
  obtain buf out where st: "st = (buf, out)" by (cases st)
  show ?case unfolding index_mm_searchwild_all.simps index_searchwild__all.simps st prod.case body vals F(1,3) ..
qed simp

lemma try_wild_child_agree:
  assumes "agree idx idf nd f"
  shows "try_wild_child fuel fn alloc idx nd key w st = try_wild_child_f fuel fn alloc idf f key w st"
proof (cases rule: agree_child [OF assms, of "of_char w"])
  case (2 nd' f')
  have E: "index_mm_searchwild_all fuel fn alloc idx nd' 0 key = index_searchwild__all fuel fn alloc idf f' 0 key"
    by (rule ext) (rule searchwild_all_agree [OF 2(3)])
  show ?thesis unfolding try_wild_child_def try_wild_child_f_def 2(1,2) by (cases st) (simp add: E cong: if_cong)
qed (simp_all add: try_wild_child_def try_wild_child_f_def split: prod.split)

lemma searchwild_node_agree:
  "agree idx idf nd f \<Longrightarrow> index_mm_searchwild_node fuel fn alloc idx (Some nd) key st
     = index_searchwild__node fuel fn alloc idf (Some f) key st"
proof (induction key arbitrary: nd f st rule: length_induct)
  case (1 key)
  note F = agree_facts [OF "1.prems"]
  have kid: "(do { child \<leftarrow> index_mm_readchild idx nd (of_char c);
       index_mm_searchwild_node fuel fn alloc idx child rest st })
     = index_searchwild__node fuel fn alloc idf (index_readchild idf f (of_char c)) rest st"
    if "wild_prefix 0 (mn_prefix nd) key = Rest (c # rest)" for c rest st
  proof -
    have "length rest < length key" using wild_prefix_length [OF that] by simp
    note IH = "1.IH" [rule_format, OF this]
    show ?thesis
    proof (cases rule: agree_child [OF "1.prems", of "of_char c"])
      case 1
      then show ?thesis
        by (simp add: index_mm_searchwild_node.simps [of _ _ _ _ None] index_searchwild__node.simps [of _ _ _ _ None])
    next
      case (2 nd' f')
      then show ?thesis using IH [OF 2(3)] by simp
    qed
  qed
  note T = try_wild_child_agree [OF "1.prems"]
  show ?case
  proof (cases "wild_prefix 0 (mn_prefix nd) key")
    case (Rest r)
    then show ?thesis
      by (subst index_mm_searchwild_node.simps, subst index_searchwild__node.simps)
        (cases r; simp add: F(1,5) kid T cong: bind_option_cong)
  qed (simp_all add: index_mm_searchwild_node.simps [of _ _ _ _ "Some nd"] index_searchwild__node.simps [of _ _ _ _ "Some f"]
      F(1) searchwild_all_agree [OF "1.prems"])
qed

lemma search_node_agree:
  "agree idx idf nd f \<Longrightarrow> index_mm_search_node idx (Some nd) key = Some (index_search__node idf (Some f) key)"
proof (induction key arbitrary: nd f rule: length_induct)
  case (1 key)
  note F = agree_facts [OF "1.prems"]
  have kid: "(do { child \<leftarrow> index_mm_readchild idx nd (of_char c); index_mm_search_node idx child rest })
     = Some (index_search__node idf (index_readchild idf f (of_char c)) rest)"
    if "match_prefix (mn_prefix nd) key = Some (c # rest)" for c rest
  proof -
    have "length rest < length key" using match_prefix_length [OF that] by simp
    note IH = "1.IH" [rule_format, OF this]
    show ?thesis
    proof (cases rule: agree_child [OF "1.prems", of "of_char c"])
      case 1
      then show ?thesis by (simp add: index_mm_search_node.simps [of _ None] index_search__node.simps [of _ None])
    next
      case (2 nd' f')
      then show ?thesis using IH [OF 2(3)] by simp
    qed
  qed
  have val: "(if 0 < mn_value_count nd then map_option Some (cstr_at (mm idx) (mn_values nd + 4)) else Some None)
      = Some (case nf_values f of [] \<Rightarrow> None | v # _ \<Rightarrow> Some (snd v))"
  proof (cases "nf_values f")
    case (Cons v vs)
    then obtain n where "unat (mn_value_count nd) = Suc n" using read_values_length [OF F(2)] by (metis length_Cons)
    then obtain q where "read_value_mm (mm idx) (mn_values nd) = Some (v, q)"
      using F(2) Cons by (auto simp: bind_eq_Some_conv split: prod.splits)
    then have "cstr_at (mm idx) (mn_values nd + 4) = Some (snd v)"
      by (auto simp: read_value_mm_def read_u32_mm_def read_chars_mm_def bind_eq_Some_conv split: if_splits)
    then show ?thesis using F(4) Cons by simp
  qed (simp add: F(4))
  show ?case
  proof (cases "match_prefix (mn_prefix nd) key")
    case (Some r)
    then show ?thesis
      by (subst index_mm_search_node.simps, subst index_search__node.simps)
        (cases r; simp only: F(1) option.case list.case kid val)
  qed (simp add: index_mm_search_node.simps [of _ "Some nd"] index_search__node.simps [of _ "Some f"] F(1))
qed

section \<open>Insertion leaves no empty child\<close>

lemma first_diff_less: "first_diff p k = Some j \<Longrightarrow> j < length p"
  by (induction p k arbitrary: j rule: first_diff.induct) (auto split: if_splits)

lemma fit_node_full:
  assumes "full node" and "n_prefix node = [] \<or> occupied node" and "wf_node node"
  shows "full (fit_node node key) \<and> (fit_node node key = node \<or> occupied (fit_node node key))"
proof (cases "first_diff (n_prefix node) key")
  case (Some j)
  have "j < length (n_prefix node)" using Some by (rule first_diff_less)
  then have oc: "occupied node" using assms(2) by auto
  obtain p vs f l s t ch where node: "node = Node p vs f l s t ch" by (cases node)
  let ?c = "p ! j" and ?n = "Node (drop (Suc j) p) vs f l s t ch"
  have "full ?n \<and> occupied ?n" using assms(1) oc by (simp add: node full_iff occupied_def index__haschildren_def)
  moreover have "?c \<in> set p" using \<open>j < length (n_prefix node)\<close> by (simp add: node)
  then have "code ?c < 128" using assms(3) by (auto simp: node wf_node_iff ascii_def)
  ultimately show ?thesis using Some
    by (auto simp: fit_node_def split_node_def node full_iff occupied_def index__haschildren_def Let_def word_less_nat_alt)
qed (simp add: fit_node_def assms(1))

lemma insert_loop_full:
  assumes "full node" and "n_prefix node = [] \<or> occupied node" and "wf_node node" and "ascii key"
    and "insert_loop node key v pri = Some (d, node')"
  shows "full node' \<and> occupied node'"
  using assms
proof (induction node key v pri arbitrary: d node' rule: insert_loop.induct)
  case (1 node key val pri)
  obtain p vs f l s t ch where N: "fit_node node key = Node p vs f l s t ch" by (cases "fit_node node key")
  have fit: "full (Node p vs f l s t ch)" "wf_node (Node p vs f l s t ch)"
    using fit_node_full [OF "1.prems"(1-3), of key] fit_node_spec(1) [OF "1.prems"(3), of key] N by auto
  obtain r where key: "key = p @ r" using fit_node_spec(3) [OF "1.prems"(3), of key] N by auto
  have dr: "drop (length p) key = r" by (simp add: key)
  note run = "1.prems"(5)[unfolded insert_loop.simps [of node] N index_node.case dr]
  have ins: "value_insert us q w \<noteq> []" for us q w using set_value_insert [of us q w] by (metis empty_iff empty_set insertI1)
  show ?case
  proof (cases r)
    case Nil
    then show ?thesis using run fit ins by (auto simp: full_iff occupied_def index_add_value_def)
  next
    case (Cons c rest)
    have c: "code c < 128" "ascii rest" using "1.prems"(4) by (auto simp: key Cons)
    show ?thesis
    proof (cases "ch (code c)")
      case None
      then show ?thesis using run fit(1) c Cons ins
        by (auto simp: full_iff occupied_def index_add_value_def index__haschildren_def word_less_nat_alt Let_def split: if_splits)
    next
      case (Some n)
      then obtain d' n' where n': "insert_loop n rest val pri = Some (d', n')" "node' = Node p vs f l s t (ch(code c \<mapsto> n'))"
        using run c(1) Cons by auto
      have "full n" "occupied n" "wf_node n" using fit Some by (auto simp: full_iff wf_node_iff)
      then have "full n' \<and> occupied n'" using "1.IH" [OF N _ _ Some, of rest] n'(1) c Cons dr by auto
      moreover have "f < INDEX_CHILDMAX" using wf_node_child(4)[OF fit(2) Some] .
      ultimately show ?thesis using fit(1) by (auto simp: n'(2) full_iff occupied_def index__haschildren_def)
    qed
  qed
qed

lemma index_build_full:
  assumes "\<forall>(k, v, p) \<in> set es. ascii k \<and> ascii v" and "index_build es = Some root"
  shows "full root \<and> (if es = [] then root = index_create else occupied root)"
  using assms
proof (induction es arbitrary: root rule: rev_induct)
  case Nil
  then show ?case by (auto simp: index_build_def index_create_def full_iff)
next
  case (snoc e es)
  obtain k v p where e: "e = (k, v, p)" by (cases e)
  obtain r0 where r0: "index_build es = Some r0" "wf_node r0" using index_build_spec [of es] snoc.prems(1) by auto
  obtain d where d: "insert_loop r0 k v p = Some (d, root)"
    using snoc.prems(2) r0(1) by (auto simp: index_build_def foldM_append e index_insert_def bind_eq_Some_conv)
  have "full r0" "n_prefix r0 = [] \<or> occupied r0"
    using snoc.IH [OF _ r0(1)] snoc.prems(1) by (auto simp: index_create_def split: if_splits)
  then show ?case using insert_loop_full [OF _ _ r0(2) _ d] snoc.prems(1) by (auto simp: e)
qed

lemma calc_full: "wf_node node \<Longrightarrow> full (index_calculate_size node) = full node"
proof (induction node)
  case (Node prefix vals first lst sz tot children)
  obtain sz' tot' where C: "index_calculate_size (Node prefix vals first lst sz tot children)
      = Node prefix vals first lst sz' tot' (\<lambda>c. map_option index_calculate_size (children c))"
    using calc_shape [OF Node.prems] by blast
  have "full (index_calculate_size n) = full n \<and> occupied (index_calculate_size n) = occupied n"
    if n: "children c = Some n" for c n
  proof -
    have wf: "wf_node n" using wf_node_child(1)[OF Node.prems n] .
    have "full (index_calculate_size n) = full n" using Node.IH [OF rangeI, of n c] wf n by simp
    moreover obtain a b f l s t ch where "n = Node a b f l s t ch" by (cases n)
    ultimately show ?thesis using calc_shape [of a b f l s t ch] wf by (auto simp: occupied_def index__haschildren_def)
  qed
  then show ?case unfolding C full_iff map_option_eq_Some by blast
qed

section \<open>Properties\<close>

definition written_file :: "index_node \<Rightarrow> index_file" where
  "written_file root = \<lparr>fbytes = index_write root, root_offset = 12 OR index_get_mask (index_calculate_size root)\<rparr>"

lemma index_file_open_written: "index_file_open True (Some (index_write root)) = Some (written_file root)"
proof -
  let ?r = "12 OR index_get_mask (index_calculate_size root)"
  obtain b where w: "index_write root = enc32 INDEX_MAGIC @ enc32 INDEX_VERSION @ enc32 ?r @ b"
    by (simp add: index_write_def Let_def)
  have "read_u32 (index_write root) 0 = Some (INDEX_MAGIC, 4)" "read_u32 (index_write root) 4 = Some (INDEX_VERSION, 8)"
    "read_u32 (index_write root) 8 = Some (?r, 12)"
    using file_u32_append [of "[]" INDEX_MAGIC "enc32 INDEX_VERSION @ enc32 ?r @ b"]
      file_u32_append [of "enc32 INDEX_MAGIC" INDEX_VERSION "enc32 ?r @ b"]
      file_u32_append [of "enc32 INDEX_MAGIC @ enc32 INDEX_VERSION" ?r b]
    by (simp_all add: w)
  then show ?thesis by (simp add: index_file_open_def written_file_def)
qed

text \<open>
  The stream reader inserts the values of a node anew by their priority, and so turns around those of
  equal priority; the mapped reader takes them as they are stored. The two give values of one key and
  one priority in opposite orders.
\<close>

lemma read_node_values_reinserts:
  "\<forall>v \<in> set vs. nul_free (snd v) \<Longrightarrow>
     read_node_values (xs @ concat (map (\<lambda>(p, v). enc32 p @ v @ [NUL]) vs) @ ys) (length vs) (length xs) acc
       = Some (foldl (\<lambda>acc (p, v). value_insert acc p v) acc vs)"
proof (induction vs arbitrary: xs acc)
  case (Cons pv vs)
  obtain p v where pv: "pv = (p, v)" by (cases pv)
  let ?t = "concat (map (\<lambda>(p, v). enc32 p @ v @ [NUL]) vs) @ ys"
  have "read_node_values ((xs @ enc32 p @ v @ [NUL]) @ ?t) (length vs) (length (xs @ enc32 p @ v @ [NUL])) (value_insert acc p v)
      = Some (foldl (\<lambda>acc (p, v). value_insert acc p v) (value_insert acc p v) vs)"
    using Cons.prems by (intro Cons.IH) simp
  moreover have "getdelim (xs @ enc32 p @ v @ NUL # ?t) (length xs + 4) = Some (v, length xs + 4 + length v + 1)"
    using getdelim_append [of v "xs @ enc32 p" ?t] Cons.prems by (simp add: pv)
  ultimately show ?case using file_u32_append [of xs p "v @ NUL # ?t"] by (simp add: pv add_value_def ac_simps)
qed simp

lemma readers_differ_on_ties:
  assumes "nul_free v" and "nul_free w"
  shows "read_values (xs @ (enc32 p @ v @ [NUL]) @ (enc32 p @ w @ [NUL]) @ ys) 2 (length xs) = Some [(p, v), (p, w)]"
    and "read_node_values (xs @ (enc32 p @ v @ [NUL]) @ (enc32 p @ w @ [NUL]) @ ys) 2 (length xs) [] = Some [(p, w), (p, v)]"
  using assms read_values_append [of "[(p, v), (p, w)]" xs ys] read_node_values_reinserts [of "[(p, v), (p, w)]" xs ys "[]"]
  by (simp_all add: numeral_2_eq_2)

text \<open>
  C20. The two readers of the module index are equivalent on an index that depmod writes for at least
  one 7-bit entry, if entries with the same key and priority have the same value (see
  \<open>readers_differ_on_ties\<close>): the written file opens with both readers, and the exact search, the
  wildcard search (for every \<open>fnmatch\<close>, every outcome of the allocations and every fuel) and the dump
  give the same priorities and strings; in particular the stream reader has no reads past the end
  and no endless loop there.
\<close>

theorem readers_agree:
  assumes "\<forall>(k, v, p) \<in> set es. ascii k \<and> ascii v" and "es \<noteq> []"
    and "\<forall>(k, v, p) \<in> set es. \<forall>(k', v', p') \<in> set es. k = k' \<and> p = p' \<longrightarrow> v = v'"
    and "index_build es = Some root" and "trie_len root + 12 < 2 ^ 28"
  shows "\<exists>idx idf. index_mm_open True (Inr (index_write root)) None = Inr idx
    \<and> index_file_open True (Some (index_write root)) = Some idf
    \<and> (\<forall>key. index_mm_search idx key = Some (index_search idf key))
    \<and> (\<forall>fuel fn alloc key. index_mm_searchwild fuel fn alloc idx key = index_searchwild fuel fn alloc idf key)
    \<and> (\<forall>fuel alloc prefixed. index_mm_dump fuel alloc idx prefixed = index_dump fuel alloc idf prefixed)"
proof -
  let ?n = "index_calculate_size root" and ?idx = "written_mm root" and ?idf = "written_file root"
  have wf: "wf_node root" and tv: "\<And>k. trie_vals root k = entry_vals es k"
    using index_build_spec [OF assms(1)] assms(4) by auto
  note S = written_stored [OF wf assms(5)]
  have "steady (entry_vals es k)" for k
    using entry_vals_sorted [of es k] entry_vals_set [of es k] assms(3) by (fastforce simp: steady_def)
  then have td: "tidy ?n"
    using index_build_full [OF assms(1,4)] calc_full [OF wf] calc_trie_vals [OF wf] tv by (simp add: tidy_def)
  have oc: "occupied ?n"
    using index_build_full [OF assms(1,4)] assms(2) calc_shape wf
    by (cases root) (fastforce simp: occupied_def index__haschildren_def)
  have m: "mm ?idx = index_write root" "fbytes ?idf = mm ?idx" by (simp_all add: written_mm_def written_file_def)
  have S2: "stored (mm ?idx) ?n 12" and pos: "0 < unat (12 :: u32)" using S(2) m by simp_all
  obtain nd f where A: "index_mm_read_node ?idx (12 OR index_get_mask ?n) = Some (Some nd)"
    "index_read ?idf (12 OR index_get_mask ?n) = Some f" "agree ?idx ?idf nd f"
    using agree_stored [OF S(1) m(2) S2 S(3,4) pos td oc] by blast
  have roots: "index_mm_readroot ?idx = Some (Some nd)" "index_readroot ?idf = Some f"
    using A(1,2) by (simp_all add: index_mm_readroot_def index_readroot_def written_mm_def written_file_def)
  have "index_mm_search ?idx key = Some (index_search ?idf key)" for key
    using roots search_node_agree [OF A(3)] by (simp add: index_mm_search_def index_search_def)
  moreover have "index_mm_searchwild fuel fn alloc ?idx key = index_searchwild fuel fn alloc ?idf key" for fuel fn alloc key
    using roots searchwild_node_agree [OF A(3)]
    by (auto simp: index_mm_searchwild_def index_searchwild_def split: Option.bind_split option.split prod.split)
  moreover have "index_mm_dump fuel alloc ?idx a = index_dump fuel alloc ?idf a" for fuel alloc a
    using roots dump_node_agree [OF A(3)] by (simp add: index_mm_dump_def index_dump_def cong: if_cong)
  ultimately show ?thesis using index_open_written [OF wf assms(5)] index_file_open_written by blast
qed

theorem readers_agree_witness:
  "\<exists>root idf. index_build entries_example = Some root
    \<and> index_file_open True (Some (index_write root)) = Some idf \<and> index_search idf ''ab'' = Some ''z''"
proof -
  have asc: "\<forall>(k, v, p) \<in> set entries_example. ascii k \<and> ascii v"
    and ne: "entries_example \<noteq> []"
    and cons: "\<forall>(k, v, p) \<in> set entries_example. \<forall>(k', v', p') \<in> set entries_example. k = k' \<and> p = p' \<longrightarrow> v = v'"
    by (auto simp: entries_example_def ascii_def)
  obtain root where root: "index_build entries_example = Some root" and len: "trie_len root + 12 < 2 ^ 28"
    by (auto simp: entries_example_build head_len_def child_range_def)
  obtain idx idf where I: "index_mm_open True (Inr (index_write root)) None = Inr idx"
    "index_file_open True (Some (index_write root)) = Some idf" "index_mm_search idx ''ab'' = Some (index_search idf ''ab'')"
    using readers_agree [OF asc ne cons root len] by blast
  have wf: "wf_node root" using index_build_spec [OF asc] root by auto
  note S = written_stored [OF wf len]
  have "trie_vals root ''ab'' = [(2, ''z''), (3, ''x'')]"
    using root by (auto simp: entries_example_build trie_vals.simps)
  moreover have "idx = written_mm root" using I(1) index_open_written [OF wf len] by simp
  ultimately have "index_mm_search idx ''ab'' = Some (Some ''z'')"
    using search_node_stored [OF S(1) _ S(3,4), of 12 "''ab''"] S(2) calc_trie_vals [OF wf]
    by (simp add: index_mm_search_def index_mm_readroot_def written_mm_def)
  then show ?thesis using root I by auto
qed

end
