(* ===== verification/Kmod_Deps.thy ===== *)
theory Kmod_Deps
  imports Kmod_Array Kmod_Hash
begin

text \<open>
  The dependency calculation of depmod (\<open>tools/depmod.c\<close>): the symbol table, the edges between
  modules that follow from it, and the topological sort that numbers the modules.

  A \<open>struct mod\<close> is a record; the modules of \<open>struct depmod\<close> are the list in the order of
  \<open>depmod->modules.array\<close>, and a pointer to a module is its position there. Log messages other than
  the report of cycles are not modelled. None is undefined behaviour or a failed \<open>assert\<close>.
\<close>

section \<open>Data\<close>

record dmod =
  dm_modname :: string
  dm_path :: string
  dm_relpath :: "string option"
  dm_dep_sym_list :: "(string \<times> u64 \<times> char) list"
  dm_deps :: "nat array"
  dm_dep_sort_idx :: int
  dm_idx :: u16
  dm_users :: u16
  dm_visited :: bool

record symbol =
  sym_owner :: "nat option"
  sym_crc :: u64
  sym_name :: string

record depmod =
  dp_sym_prefix :: char
  dp_modules :: "dmod list"
  dp_symbols :: "symbol hash"

section \<open>Symbols\<close>

text \<open>
  \<open>if (name[0] == sym_prefix) name++\<close>: with the default prefix NUL this steps over the end of an
  empty name, which is undefined.
\<close>

definition skip_prefix :: "char \<Rightarrow> string \<Rightarrow> string option" where
  "skip_prefix sym_prefix name =
     (if char_at name 0 = sym_prefix then (if name = [] then None else Some (drop 1 name)) else Some name)"

definition depmod_symbol_add ::
    "(size_t \<Rightarrow> bool) \<Rightarrow> depmod \<Rightarrow> string \<Rightarrow> bool \<Rightarrow> u64 \<Rightarrow> nat option \<Rightarrow> (unit result \<times> depmod) option" where
  "depmod_symbol_add alloc dp name prefix_skipped crc owner =
     do { name \<leftarrow> (if \<not> prefix_skipped then skip_prefix (dp_sym_prefix dp) name else Some name);
          let namelen = of_nat (length name) + 1;
          if \<not> alloc (16 + namelen) then Some (Inl ENOMEM, dp)
          else
            do { (r, symbols, freed) \<leftarrow> hash_add alloc (dp_symbols dp) name
                   (Some \<lparr>sym_owner = owner, sym_crc = crc, sym_name = name\<rparr>);
                 Some (r, dp\<lparr>dp_symbols := symbols\<rparr>) } }"

definition depmod_symbol_find :: "depmod \<Rightarrow> string \<Rightarrow> symbol option option" where
  "depmod_symbol_find dp name =
     do { name \<leftarrow> Some (if char_at name 0 = CHR ''.'' then drop 1 name else name);
          name \<leftarrow> skip_prefix (dp_sym_prefix dp) name;
          hash_find (dp_symbols dp) name }"

section \<open>Edges\<close>

text \<open>
  A failed allocation is logged with \<open>CRIT\<close>. \<open>log_printf\<close> then ends the process if it can build its
  message, and returns if \<open>vasprintf\<close> fails too; the model is the second course, in which the error is
  returned and the loops go on. In the first the tables are not used again.
\<close>

definition mod_add_dependency ::
    "(size_t \<Rightarrow> bool) \<Rightarrow> dmod list \<Rightarrow> nat \<Rightarrow> symbol \<Rightarrow> (unit result \<times> dmod list) option" where
  "mod_add_dependency alloc mods i symb =
     (case sym_owner symb of
        None \<Rightarrow> Some (Inr (), mods)
      | Some owner \<Rightarrow>
          if length mods \<le> i \<or> length mods \<le> owner then None
          else
            do { (r, deps) \<leftarrow> array_append_unique alloc (dm_deps (mods ! i)) owner;
                 let mods = mods[i := (mods ! i)\<lparr>dm_deps := deps\<rparr>];
                 case r of
                   Inl err \<Rightarrow> Some (if err = EEXIST then Inr () else Inl err, mods)
                 | Inr _ \<Rightarrow>
                     Some (Inr (), mods[owner := (mods ! owner)\<lparr>dm_users := dm_users (mods ! owner) + 1\<rparr>]) })"

definition load_dependency ::
    "(size_t \<Rightarrow> bool) \<Rightarrow> nat \<Rightarrow> string \<times> u64 \<times> char \<Rightarrow> unit result \<times> depmod \<Rightarrow> (unit result \<times> depmod) option" where
  "load_dependency alloc i = (\<lambda>(name, crc, bindtype) (ret, dp).
     do { found \<leftarrow> depmod_symbol_find dp name;
          case found of
            None \<Rightarrow> Some (ret, dp)
          | Some symb \<Rightarrow>
              do { (err, mods) \<leftarrow> mod_add_dependency alloc (dp_modules dp) i symb;
                   Some (case err of Inl e \<Rightarrow> Inl e | Inr _ \<Rightarrow> ret, dp\<lparr>dp_modules := mods\<rparr>) } })"

definition depmod_load_module_dependencies ::
    "(size_t \<Rightarrow> bool) \<Rightarrow> depmod \<Rightarrow> nat \<Rightarrow> (unit result \<times> depmod) option" where
  "depmod_load_module_dependencies alloc dp i =
     foldM (load_dependency alloc i) (dm_dep_sym_list (dp_modules dp ! i)) (Inr (), dp)"

definition depmod_load_dependencies :: "(size_t \<Rightarrow> bool) \<Rightarrow> depmod \<Rightarrow> (unit result \<times> depmod) option" where
  "depmod_load_dependencies alloc dp =
     foldM (\<lambda>i (ret, dp).
         if dm_dep_sym_list (dp_modules dp ! i) = [] then Some (ret, dp)
         else
           do { (err, dp) \<leftarrow> depmod_load_module_dependencies alloc dp i;
                Some (case err of Inl e \<Rightarrow> Inl e | Inr _ \<Rightarrow> ret, dp) })
       [0..<length (dp_modules dp)] (Inr (), dp)"

section \<open>Sorting by topological index\<close>

definition dep_cmp :: "dmod list \<Rightarrow> nat \<Rightarrow> nat \<Rightarrow> int" where
  "dep_cmp mods a b = dm_dep_sort_idx (mods ! a) - dm_dep_sort_idx (mods ! b)"

definition depmod_sort_dependencies ::
    "((nat \<Rightarrow> nat \<Rightarrow> int) \<Rightarrow> nat list \<Rightarrow> nat list) \<Rightarrow> dmod list \<Rightarrow> dmod list option" where
  "depmod_sort_dependencies qsort mods =
     foldM (\<lambda>i mods.
         if 1 < arr_count (dm_deps (mods ! i)) then
           do { deps \<leftarrow> array_sort qsort (dep_cmp mods) (dm_deps (mods ! i));
                Some (mods[i := (mods ! i)\<lparr>dm_deps := deps\<rparr>]) }
         else Some mods)
       [0..<length mods] mods"

section \<open>Topological sort\<close>

text \<open>
  The block \<open>users\<close> of \<open>depmod_calculate_dependencies\<close> holds three arrays of \<open>n_mods\<close> elements;
  each is modelled with its own bounds, which are stricter than those of the block.
\<close>

record topo =
  tp_mods :: "dmod list"
  tp_users :: "u16 list"
  tp_roots :: "u16 slots"
  tp_n_roots :: u16
  tp_sorted :: "u16 slots"
  tp_n_sorted :: u16

definition push_root :: "u16 \<Rightarrow> topo \<Rightarrow> topo option" where
  "push_root i st =
     do { roots \<leftarrow> store (unat (tp_n_roots st)) i (tp_roots st);
          Some (st\<lparr>tp_roots := roots, tp_n_roots := tp_n_roots st + 1\<rparr>) }"

definition populate_users :: "nat \<Rightarrow> topo \<Rightarrow> topo option" where
  "populate_users i st =
     (let users = dm_users (tp_mods st ! i); st = st\<lparr>tp_users := (tp_users st)[i := users]\<rparr> in
      if users = 0 then push_root (of_nat i) st else Some st)"

definition release_dep :: "nat \<Rightarrow> topo \<Rightarrow> topo option" where
  "release_dep d st =
     (let dst_idx = dm_idx (tp_mods st ! d); i = unat dst_idx in
      if length (tp_mods st) \<le> d \<or> length (tp_users st) \<le> i \<or> tp_users st ! i = 0 then None
      else
        (let st = st\<lparr>tp_users := (tp_users st)[i := tp_users st ! i - 1]\<rparr> in
         if tp_users st ! i = 0 then push_root dst_idx st else Some st))"

definition topo_step :: "topo \<Rightarrow> topo option" where
  "topo_step st =
     (let st = st\<lparr>tp_n_roots := tp_n_roots st - 1\<rparr> in
      do { slot \<leftarrow> (if unat (tp_n_roots st) < length (tp_roots st) then Some (tp_roots st ! unat (tp_n_roots st)) else None);
           src_idx \<leftarrow> slot;
           if length (tp_mods st) \<le> unat src_idx then None
           else
             do { let src = (tp_mods st ! unat src_idx)\<lparr>dm_dep_sort_idx := int (unat (tp_n_sorted st))\<rparr>;
                  sorted_cells \<leftarrow> store (unat (tp_n_sorted st)) src_idx (tp_sorted st);
                  let st = st\<lparr>tp_mods := (tp_mods st)[unat src_idx := src], tp_sorted := sorted_cells,
                              tp_n_sorted := tp_n_sorted st + 1\<rparr>;
                  foldM release_dep (array_list (dm_deps src)) st } })"

definition topo_measure :: "topo \<Rightarrow> nat" where
  "topo_measure st = sum_list (map unat (tp_users st)) + unat (tp_n_roots st)"

lemma push_root_measure: "push_root i st = Some st' \<Longrightarrow> topo_measure st' \<le> Suc (topo_measure st)"
  by (auto simp: push_root_def topo_measure_def bind_eq_Some_conv unat_word_ariths intro: le_trans [OF mod_less_eq_dividend])

lemma sum_list_decr:
  "i < length us \<Longrightarrow> us ! i \<noteq> 0 \<Longrightarrow> Suc (sum_list (map unat (us[i := us ! i - 1]))) = sum_list (map unat (us :: u16 list))"
proof (induction us arbitrary: i)
  case (Cons u us)
  have "u \<noteq> 0 \<Longrightarrow> 0 < unat u" by (simp add: unat_gt_0)
  then show ?case using Cons by (cases i) (auto simp: unat_pred)
qed simp

lemma release_dep_measure: "release_dep d st = Some st' \<Longrightarrow> topo_measure st' \<le> topo_measure st"
proof -
  assume run: "release_dep d st = Some st'"
  let ?i = "unat (dm_idx (tp_mods st ! d))"
  let ?s = "st\<lparr>tp_users := (tp_users st)[?i := tp_users st ! ?i - 1]\<rparr>"
  have i: "?i < length (tp_users st)" "tp_users st ! ?i \<noteq> 0"
    using run by (auto simp: release_dep_def Let_def split: if_splits)
  have "Suc (topo_measure ?s) = topo_measure st" using sum_list_decr [OF i] by (simp add: topo_measure_def)
  moreover have "push_root (dm_idx (tp_mods st ! d)) ?s = Some st' \<or> st' = ?s"
    using run by (auto simp: release_dep_def Let_def split: if_splits)
  ultimately show ?thesis using push_root_measure [of _ ?s st'] by fastforce
qed

lemma foldM_measure:
  "(\<And>x s s'. f x s = Some s' \<Longrightarrow> m s' \<le> (m s :: nat)) \<Longrightarrow> foldM f xs s = Some s' \<Longrightarrow> m s' \<le> m s"
proof (induction xs arbitrary: s)
  case (Cons x xs)
  then obtain s1 where "f x s = Some s1" "foldM f xs s1 = Some s'" by (auto simp: bind_eq_Some_conv)
  then have "m s' \<le> m s1" "m s1 \<le> m s" using Cons.IH Cons.prems(1) by blast+
  then show ?case by (rule le_trans)
qed simp

lemma topo_step_measure: "tp_n_roots st \<noteq> 0 \<Longrightarrow> topo_step st = Some st' \<Longrightarrow> topo_measure st' < topo_measure st"
proof -
  assume n: "tp_n_roots st \<noteq> 0" and run: "topo_step st = Some st'"
  obtain m s k ds where fold: "foldM release_dep ds (st\<lparr>tp_n_roots := tp_n_roots st - 1, tp_mods := m, tp_sorted := s, tp_n_sorted := k\<rparr>) = Some st'"
    using run by (auto simp: topo_step_def bind_eq_Some_conv Let_def split: if_splits)
  have "topo_measure st' \<le> topo_measure (st\<lparr>tp_n_roots := tp_n_roots st - 1, tp_mods := m, tp_sorted := s, tp_n_sorted := k\<rparr>)"
    using foldM_measure [OF release_dep_measure fold] .
  moreover have "unat (tp_n_roots st - 1) < unat (tp_n_roots st)" using n by (simp add: unat_pred unat_gt_0)
  ultimately show ?thesis by (simp add: topo_measure_def)
qed

function topo_loop :: "topo \<Rightarrow> topo option" where
  "topo_loop st = (if tp_n_roots st = 0 then Some st else Option.bind (topo_step st) topo_loop)"
  by pat_completeness auto
termination
  by (relation "measure topo_measure") (auto simp: topo_step_measure)

declare topo_loop.simps [simp del]

definition topo_start :: "dmod list \<Rightarrow> topo option" where
  "topo_start mods =
     (let n = length mods in
      foldM populate_users [0..<n]
        \<lparr>tp_mods = mods, tp_users = replicate n 0, tp_roots = replicate n None, tp_n_roots = 0,
         tp_sorted = replicate n None, tp_n_sorted = 0\<rparr>)"

section \<open>The dependency graph\<close>

text \<open>
  \<open>deps_of mods i\<close> are the modules that module \<open>i\<close> needs; \<open>users_of\<close> the modules that need it among
  those not in \<open>done\<close>. A module table is well formed if the dependency arrays are duplicate-free
  arrays of positions, \<open>idx\<close> is the position, and \<open>users\<close> counts the modules that need it.
\<close>

definition deps_of :: "dmod list \<Rightarrow> nat \<Rightarrow> nat list" where
  "deps_of mods i = array_list (dm_deps (mods ! i))"

definition users_of :: "dmod list \<Rightarrow> nat set \<Rightarrow> nat \<Rightarrow> nat set" where
  "users_of mods finished i = {j. j < length mods \<and> j \<notin> finished \<and> i \<in> set (deps_of mods j)}"

definition dep_edges :: "dmod list \<Rightarrow> (nat \<times> nat) set" where
  "dep_edges mods = {(i, j). i < length mods \<and> j \<in> set (deps_of mods i)}"

definition wf_mods :: "dmod list \<Rightarrow> bool" where
  "wf_mods mods \<longleftrightarrow> length mods < 65535 \<and> (\<forall>i < length mods. array_inv (dm_deps (mods ! i)) \<and> distinct (deps_of mods i)
     \<and> set (deps_of mods i) \<subseteq> {..<length mods} \<and> unat (dm_idx (mods ! i)) = i
     \<and> unat (dm_users (mods ! i)) = card (users_of mods {} i))"

lemma finite_users_of [simp]: "finite (users_of mods F i)"
  by (simp add: users_of_def)

text \<open>Tables that differ only in the topological index (and the visited mark) have the same graph.\<close>

definition same_graph :: "dmod list \<Rightarrow> dmod list \<Rightarrow> bool" where
  "same_graph mods mods' \<longleftrightarrow> length mods' = length mods \<and> (\<forall>i < length mods. dm_deps (mods' ! i) = dm_deps (mods ! i)
     \<and> dm_idx (mods' ! i) = dm_idx (mods ! i) \<and> dm_users (mods' ! i) = dm_users (mods ! i)
     \<and> dm_modname (mods' ! i) = dm_modname (mods ! i) \<and> dm_path (mods' ! i) = dm_path (mods ! i)
     \<and> dm_relpath (mods' ! i) = dm_relpath (mods ! i))"

lemma same_graph_refl [simp]: "same_graph mods mods"
  by (simp add: same_graph_def)

lemma same_graph_upd:
  "same_graph mods mods' \<Longrightarrow> i < length mods \<Longrightarrow> same_graph mods (mods'[i := (mods' ! i)\<lparr>dm_dep_sort_idx := k\<rparr>])"
  by (auto simp: same_graph_def nth_list_update)

section \<open>Invariant of the topological sort\<close>

text \<open>
  \<open>shape\<close> reads the arrays as lists: \<open>order\<close> the modules output so far, \<open>roots\<close> the stack of modules
  that wait.
\<close>

definition shape :: "nat \<Rightarrow> topo \<Rightarrow> nat list \<Rightarrow> nat list \<Rightarrow> bool" where
  "shape n st order roots \<longleftrightarrow> length (tp_users st) = n \<and> length (tp_roots st) = n \<and> length (tp_sorted st) = n
     \<and> init_upto (unat (tp_n_roots st)) (tp_roots st) \<and> init_upto (unat (tp_n_sorted st)) (tp_sorted st)
     \<and> order = map unat (live (unat (tp_n_sorted st)) (tp_sorted st))
     \<and> roots = map unat (live (unat (tp_n_roots st)) (tp_roots st))"

text \<open>
  \<open>mods\<close> is the original table; the modules output so far are numbered in order and come after all
  their users; \<open>users\<close> counts the users not yet output, plus one for the modules whose release is
  \<open>pending\<close>; the modules with a count of zero are those output or in \<open>roots\<close>.
\<close>

definition topo_inv :: "dmod list \<Rightarrow> topo \<Rightarrow> nat list \<Rightarrow> nat list \<Rightarrow> nat list \<Rightarrow> bool" where
  "topo_inv mods st order roots pending \<longleftrightarrow>
     shape (length mods) st order roots \<and> same_graph mods (tp_mods st) \<and> distinct (order @ roots)
     \<and> (\<forall>i < length mods. unat (tp_users st ! i) = card (users_of mods (set order) i) + (if i \<in> set pending then 1 else 0))
     \<and> set (order @ roots) = {i. i < length mods \<and> tp_users st ! i = 0}
     \<and> (\<forall>k < length order. dm_dep_sort_idx (tp_mods st ! (order ! k)) = int k
          \<and> (\<forall>j < length mods. order ! k \<in> set (deps_of mods j) \<longrightarrow> j \<in> set (take k order)))"

lemma shape_lengths:
  assumes "shape n st order roots"
  shows "length order = unat (tp_n_sorted st)" "length roots = unat (tp_n_roots st)"
  using assms by (auto simp: shape_def)

lemma push_root_shape:
  assumes "shape n st order roots" and "length roots < n" and "n < 65535"
  shows "\<exists>st'. push_root i st = Some st' \<and> shape n st' order (roots @ [unat i])
    \<and> tp_mods st' = tp_mods st \<and> tp_users st' = tp_users st"
proof -
  have r: "unat (tp_n_roots st) < n" using assms(2) shape_lengths(2)[OF assms(1)] by simp
  then have "unat (tp_n_roots st + 1) = Suc (unat (tp_n_roots st))" using assms(3) by (simp add: unat_word_ariths)
  then show ?thesis using store_end [of "unat (tp_n_roots st)" "tp_roots st" i] r assms(1)
    by (auto simp: push_root_def shape_def)
qed

lemma distinct_bound:
  assumes "distinct xs" and "set xs \<subseteq> {..<n}" and "x < n" and "x \<notin> set xs"
  shows "length xs < n"
proof -
  have "card (set xs) < card {..<n}" using assms by (intro psubset_card_mono) auto
  then show ?thesis using assms(1) by (simp add: distinct_card)
qed

lemma topo_room:
  assumes "topo_inv mods st order roots pending" and "d < length mods" and "tp_users st ! d \<noteq> 0"
  shows "d \<notin> set (order @ roots)" "length order + length roots < length mods"
proof -
  show d: "d \<notin> set (order @ roots)" using assms by (auto simp: topo_inv_def)
  have "set (order @ roots) \<subseteq> {..<length mods}" "distinct (order @ roots)" using assms(1) unfolding topo_inv_def by blast+
  then show "length order + length roots < length mods" using distinct_bound [of "order @ roots" "length mods" d] assms(2) d by simp
qed

lemma release_dep_inv:
  assumes wf: "wf_mods mods" and inv: "topo_inv mods st order roots (d # pending)" and d: "d < length mods" and nd: "d \<notin> set pending"
  shows "\<exists>st' roots'. release_dep d st = Some st' \<and> topo_inv mods st' order roots' pending"
proof -
  note I = inv [unfolded topo_inv_def]
  have idx: "unat (dm_idx (tp_mods st ! d)) = d" "length (tp_mods st) = length mods" "length mods < 65535"
    using I wf d by (auto simp: same_graph_def wf_mods_def)
  have lu: "length (tp_users st) = length mods" using I by (simp add: shape_def)
  let ?u = "(tp_users st)[d := tp_users st ! d - 1]"
  let ?s = "st\<lparr>tp_users := ?u\<rparr>"
  have u: "unat (tp_users st ! d) = Suc (card (users_of mods (set order) d))" using I d by simp
  then have nz: "tp_users st ! d \<noteq> 0" by auto
  then have u': "unat (tp_users st ! d - 1) = card (users_of mods (set order) d)" using u by (simp add: unat_pred)
  have counts: "\<forall>i < length mods. unat (?u ! i) = card (users_of mods (set order) i) + (if i \<in> set pending then 1 else 0)"
    using I u' nd d lu by (auto simp: nth_list_update)
  note room = topo_room [OF inv d nz]
  have dn: "d \<notin> set order" "d \<notin> set roots" using room(1) by simp_all
  have zero: "{i. i < length mods \<and> ?u ! i = 0}
      = (if ?u ! d = 0 then insert d (set (order @ roots)) else set (order @ roots))"
    using I d nz lu by (auto simp: nth_list_update split: if_splits)
  have sh: "shape (length mods) ?s order roots" using I lu by (simp add: shape_def)
  have run: "release_dep d st = (if ?u ! d = 0 then push_root (dm_idx (tp_mods st ! d)) ?s else Some ?s)"
    using idx lu d nz by (simp add: release_dep_def Let_def)
  show ?thesis
  proof (cases "?u ! d = 0")
    case False
    have "topo_inv mods ?s order roots pending" unfolding topo_inv_def using I counts zero False sh by simp
    then show ?thesis using run False by auto
  next
    case True
    obtain s' where s': "push_root (dm_idx (tp_mods st ! d)) ?s = Some s'" "shape (length mods) s' order (roots @ [d])"
      "tp_mods s' = tp_mods st" "tp_users s' = ?u"
      using push_root_shape [OF sh, of "dm_idx (tp_mods st ! d)"] room(2) idx by auto
    have "topo_inv mods s' order (roots @ [d]) pending" unfolding topo_inv_def
      using I counts zero True s'(2-4) dn by simp
    then show ?thesis using run True s'(1) by auto
  qed
qed

lemma release_deps_inv:
  assumes wf: "wf_mods mods" and "topo_inv mods st order roots ds" and "distinct ds" and "set ds \<subseteq> {..<length mods}"
  shows "\<exists>st' roots'. foldM release_dep ds st = Some st' \<and> topo_inv mods st' order roots' []"
  using assms(2-)
proof (induction ds arbitrary: st roots)
  case (Cons d ds)
  obtain s1 r1 where "release_dep d st = Some s1" "topo_inv mods s1 order r1 ds"
    using release_dep_inv [OF wf Cons.prems(1)] Cons.prems by auto
  then show ?case using Cons.IH [of s1 r1] Cons.prems by auto
qed auto

lemma users_of_snoc:
  assumes "s < length mods" and "s \<notin> set order"
  shows "card (users_of mods (set order) i) = card (users_of mods (set (order @ [s])) i) + (if i \<in> set (deps_of mods s) then 1 else 0)"
proof (cases "i \<in> set (deps_of mods s)")
  case True
  have "users_of mods (set order) i = insert s (users_of mods (set (order @ [s])) i)"
    "s \<notin> users_of mods (set (order @ [s])) i"
    using assms True by (auto simp: users_of_def)
  then show ?thesis using True by simp
next
  case False
  then have "users_of mods (set order) i = users_of mods (set (order @ [s])) i" by (auto simp: users_of_def)
  then show ?thesis using False by simp
qed

lemma topo_step_inv:
  assumes wf: "wf_mods mods" and inv: "topo_inv mods st order (roots @ [s]) []"
  shows "\<exists>st' roots'. topo_step st = Some st' \<and> topo_inv mods st' (order @ [s]) roots' []"
proof -
  let ?n = "length mods"
  note I = inv [unfolded topo_inv_def]
  have sh: "shape ?n st order (roots @ [s])" using I by blast
  note L = shape_lengths [OF sh]
  have un: "unat (tp_n_roots st) = Suc (length roots)" using L(2) by simp
  have S: "map unat (live (Suc (length roots)) (tp_roots st)) = roots @ [s]" "init_upto (Suc (length roots)) (tp_roots st)"
    using sh un by (simp_all add: shape_def)
  have s: "s < ?n" "tp_users st ! s = 0" "s \<notin> set order" "s \<notin> set roots" using I by auto
  have n65: "?n < 65535" using wf by (simp add: wf_mods_def)
  have "length (order @ roots @ [s]) \<le> ?n"
    using I card_mono [of "{..<?n}" "set (order @ roots @ [s])"] distinct_card [of "order @ roots @ [s]"]
    by (metis (no_types, lifting) append.assoc card_lessThan finite_lessThan lessThan_def mem_Collect_eq subsetI)
  then have ns: "unat (tp_n_sorted st) < ?n" using L by simp
  have nr: "unat (tp_n_roots st - 1) = length roots" using L(2) by (subst unat_pred) auto
  have cell: "tp_roots st ! length roots = Some (of_nat s)"
  proof -
    have "unat (live (Suc (length roots)) (tp_roots st) ! length roots) = s"
      using arg_cong [OF S(1), of "\<lambda>xs. xs ! length roots"] S(2) by simp
    then have "live (Suc (length roots)) (tp_roots st) ! length roots = of_nat s" by auto
    then show ?thesis using live_nth [OF S(2), of "length roots"] by simp
  qed
  have us: "unat (of_nat s :: u16) = s" using s(1) n65 by (simp add: unat_of_nat)
  have lm: "length (tp_mods st) = ?n" using I by (simp add: same_graph_def)
  have lr: "length roots < length (tp_roots st)" using S(2) by (auto dest!: init_uptoD)
  obtain cells where c: "store (unat (tp_n_sorted st)) (of_nat s) (tp_sorted st) = Some cells"
    "length cells = length (tp_sorted st)" "init_upto (Suc (unat (tp_n_sorted st))) cells"
    "live (Suc (unat (tp_n_sorted st))) cells = live (unat (tp_n_sorted st)) (tp_sorted st) @ [of_nat s]"
    using store_end [of "unat (tp_n_sorted st)" "tp_sorted st" "of_nat s"] sh ns by (auto simp: shape_def)
  let ?src = "(tp_mods st ! s)\<lparr>dm_dep_sort_idx := int (unat (tp_n_sorted st))\<rparr>"
  let ?st = "st\<lparr>tp_n_roots := tp_n_roots st - 1, tp_mods := (tp_mods st)[s := ?src], tp_sorted := cells,
    tp_n_sorted := tp_n_sorted st + 1\<rparr>"
  have deps: "array_list (dm_deps ?src) = deps_of mods s" using I s(1) by (simp add: same_graph_def deps_of_def)
  have run: "topo_step st = foldM release_dep (deps_of mods s) ?st"
    using nr lr cell us lm s(1) c(1) deps by (simp add: topo_step_def Let_def)
  have ns': "unat (tp_n_sorted st + 1) = Suc (unat (tp_n_sorted st))" using ns n65 by (simp add: unat_word_ariths)
  have "init_upto (length roots) (tp_roots st)" using init_upto_mono [OF S(2)] by simp
  moreover have "map unat (live (length roots) (tp_roots st)) = roots"
    using live_mono [of "length roots" "Suc (length roots)" "tp_roots st"] arg_cong [OF S(1), of "take (length roots)"]
    by (simp add: take_map)
  ultimately have sh': "shape ?n ?st (order @ [s]) roots" using sh c nr ns' us by (simp add: shape_def)
  have "topo_inv mods ?st (order @ [s]) roots (deps_of mods s)"
    unfolding topo_inv_def
  proof (intro conjI sh')
    show "same_graph mods (tp_mods ?st)" using same_graph_upd [of mods "tp_mods st" s] I s(1) by simp
    show "distinct ((order @ [s]) @ roots)" using I by auto
    show "set ((order @ [s]) @ roots) = {i. i < ?n \<and> tp_users ?st ! i = 0}" using I by auto
    show "\<forall>i < ?n. unat (tp_users ?st ! i) = card (users_of mods (set (order @ [s])) i) + (if i \<in> set (deps_of mods s) then 1 else 0)"
      using I users_of_snoc [OF s(1,3)] by simp
    have "card (users_of mods (set order) s) = 0" using I s(1,2) by auto
    then have pred: "\<forall>j < ?n. s \<in> set (deps_of mods j) \<longrightarrow> j \<in> set order" by (auto simp: users_of_def)
    show "\<forall>k < length (order @ [s]). dm_dep_sort_idx (tp_mods ?st ! ((order @ [s]) ! k)) = int k
        \<and> (\<forall>j < ?n. (order @ [s]) ! k \<in> set (deps_of mods j) \<longrightarrow> j \<in> set (take k (order @ [s])))"
    proof (intro allI impI)
      fix k assume k: "k < length (order @ [s])"
      show "dm_dep_sort_idx (tp_mods ?st ! ((order @ [s]) ! k)) = int k
        \<and> (\<forall>j < ?n. (order @ [s]) ! k \<in> set (deps_of mods j) \<longrightarrow> j \<in> set (take k (order @ [s])))"
      proof (cases "k < length order")
        case True
        then have "order ! k \<noteq> s" using s(3) by auto
        then show ?thesis using I True by (simp add: nth_append)
      next
        case False
        then have k': "k = length order" using k by simp
        have e: "(order @ [s]) ! k = s" "take k (order @ [s]) = order" by (simp_all add: k')
        have "tp_mods ?st ! s = ?src" using lm s(1) by simp
        then show ?thesis unfolding e using pred L(1) k' by simp
      qed
    qed
  qed
  then show ?thesis using release_deps_inv [OF wf, of ?st "order @ [s]" roots "deps_of mods s"] run wf s(1)
    by (auto simp: wf_mods_def)
qed

lemma topo_loop_inv:
  "wf_mods mods \<Longrightarrow> topo_inv mods st order roots [] \<Longrightarrow>
     \<exists>st' order'. topo_loop st = Some st' \<and> tp_n_roots st' = 0 \<and> topo_inv mods st' order' [] []"
proof (induction st arbitrary: order roots rule: topo_loop.induct)
  case (1 st)
  have L: "length roots = unat (tp_n_roots st)" using shape_lengths(2) "1.prems"(2) unfolding topo_inv_def by blast
  show ?case
  proof (cases "tp_n_roots st = 0")
    case True
    then show ?thesis using "1.prems"(2) L by (auto simp: topo_loop.simps [of st])
  next
    case False
    then have "roots \<noteq> []" using L by (auto simp: unat_eq_zero)
    then obtain r0 s where r: "roots = r0 @ [s]" using rev_exhaust by blast
    obtain st1 r1 where st1: "topo_step st = Some st1" "topo_inv mods st1 (order @ [s]) r1 []"
      using topo_step_inv [OF "1.prems"(1), of st order r0 s] "1.prems"(2) r by auto
    then show ?thesis using "1.IH" [OF False _ "1.prems"(1) st1(2)] False by (auto simp: topo_loop.simps [of st])
  qed
qed

text \<open>The populating loop establishes the invariant.\<close>

lemma populate_inv:
  assumes wf: "wf_mods mods" and "k \<le> length mods"
  shows "\<exists>st. foldM populate_users [0..<k] \<lparr>tp_mods = mods, tp_users = replicate (length mods) 0, tp_roots = replicate (length mods) None,
       tp_n_roots = 0, tp_sorted = replicate (length mods) None, tp_n_sorted = 0\<rparr> = Some st
    \<and> shape (length mods) st [] (filter (\<lambda>i. dm_users (mods ! i) = 0) [0..<k]) \<and> tp_mods st = mods
    \<and> (\<forall>i < k. tp_users st ! i = dm_users (mods ! i))"
  using assms(2)
proof (induction k)
  case 0
  show ?case by (simp add: shape_def)
next
  case (Suc k)
  obtain st where st: "foldM populate_users [0..<k] \<lparr>tp_mods = mods, tp_users = replicate (length mods) 0, tp_roots = replicate (length mods) None,
       tp_n_roots = 0, tp_sorted = replicate (length mods) None, tp_n_sorted = 0\<rparr> = Some st"
    "shape (length mods) st [] (filter (\<lambda>i. dm_users (mods ! i) = 0) [0..<k])" "tp_mods st = mods"
    "\<forall>i < k. tp_users st ! i = dm_users (mods ! i)"
    using Suc by auto
  let ?s = "st\<lparr>tp_users := (tp_users st)[k := dm_users (mods ! k)]\<rparr>"
  have n: "length mods < 65535" using wf by (simp add: wf_mods_def)
  have sh: "shape (length mods) ?s [] (filter (\<lambda>i. dm_users (mods ! i) = 0) [0..<k])" using st(2) by (simp add: shape_def)
  have us: "\<forall>i < Suc k. tp_users ?s ! i = dm_users (mods ! i)"
    using st(2,4) Suc.prems by (auto simp: less_Suc_eq shape_def)
  have "length (filter (\<lambda>i. dm_users (mods ! i) = 0) [0..<k]) \<le> k" by (metis length_filter_le length_upt minus_nat.diff_0)
  then have room: "length (filter (\<lambda>i. dm_users (mods ! i) = 0) [0..<k]) < length mods" using Suc.prems by simp
  have uk: "unat (of_nat k :: u16) = k" using n Suc.prems by (simp add: unat_of_nat)
  have step: "populate_users k st = (if dm_users (mods ! k) = 0 then push_root (of_nat k) ?s else Some ?s)"
    by (simp add: populate_users_def st(3) Let_def)
  show ?case
  proof (cases "dm_users (mods ! k) = 0")
    case True
    obtain s' where "push_root (of_nat k) ?s = Some s'"
      "shape (length mods) s' [] (filter (\<lambda>i. dm_users (mods ! i) = 0) [0..<k] @ [k])" "tp_mods s' = mods" "tp_users s' = tp_users ?s"
      using push_root_shape [OF sh room n, of "of_nat k"] uk st(3) by auto
    then show ?thesis using st(1) step us True by (simp add: foldM_append)
  next
    case False
    then show ?thesis using st(1,3) step sh us by (simp add: foldM_append)
  qed
qed

lemma topo_start_inv:
  assumes wf: "wf_mods mods"
  shows "\<exists>st roots. topo_start mods = Some st \<and> topo_inv mods st [] roots []"
proof -
  let ?r = "filter (\<lambda>i. dm_users (mods ! i) = 0) [0..<length mods]"
  obtain st where st: "topo_start mods = Some st" "shape (length mods) st [] ?r" "tp_mods st = mods"
    "\<forall>i < length mods. tp_users st ! i = dm_users (mods ! i)"
    using populate_inv [OF wf order_refl] by (auto simp: topo_start_def Let_def)
  have "topo_inv mods st [] ?r []" unfolding topo_inv_def using st(2,3,4) wf by (auto simp: wf_mods_def)
  then show ?thesis using st(1) by blast
qed

section \<open>What the topological sort computes\<close>

lemma topo_complete:
  assumes wf: "wf_mods mods" and inv: "topo_inv mods st order [] []" and "acyclic (dep_edges mods)"
  shows "set order = {..<length mods}"
proof (rule ccontr)
  let ?n = "length mods"
  note I = inv [unfolded topo_inv_def]
  assume neq: "set order \<noteq> {..<?n}"
  have sub: "set order \<subseteq> {..<?n}" using I by auto
  then obtain i0 where i0: "i0 < ?n" "i0 \<notin> set order" using neq by auto
  have "dep_edges mods \<subseteq> {..<?n} \<times> {..<?n}" using wf by (auto simp: dep_edges_def wf_mods_def)
  then have "finite (dep_edges mods)" by (rule finite_subset) simp
  then have "wf (dep_edges mods)" using assms(3) by (rule finite_acyclic_wf)
  then obtain m where m: "m \<in> {i. i < ?n \<and> i \<notin> set order}" "\<And>j. (j, m) \<in> dep_edges mods \<Longrightarrow> j \<notin> {i. i < ?n \<and> i \<notin> set order}"
    using wfE_min [of "dep_edges mods" i0 "{i. i < ?n \<and> i \<notin> set order}"] i0 by blast
  have "tp_users st ! m \<noteq> 0" using I m(1) by auto
  moreover have "users_of mods (set order) m = {}" using m(2) by (auto simp: users_of_def dep_edges_def)
  then have "unat (tp_users st ! m) = 0" using I m(1) by simp
  ultimately show False by (simp add: unat_eq_zero)
qed

lemma topo_numbers:
  assumes wf: "wf_mods mods" and inv: "topo_inv mods st order [] []" and all: "length order = length mods"
  shows "acyclic (dep_edges mods)"
    and "\<forall>(i, j) \<in> dep_edges mods. dm_dep_sort_idx (tp_mods st ! i) < dm_dep_sort_idx (tp_mods st ! j)"
    and "(\<lambda>i. dm_dep_sort_idx (tp_mods st ! i)) ` {..<length mods} = int ` {..<length mods}"
proof -
  let ?n = "length mods"
  note I = inv [unfolded topo_inv_def]
  have d: "distinct order" and sub: "set order \<subseteq> {..<?n}" using I by auto
  have set: "set order = {..<?n}" using card_subset_eq [OF _ sub] distinct_card [OF d] all by simp
  have num: "dm_dep_sort_idx (tp_mods st ! (order ! k)) = int k" if "k < ?n" for k using I all that by simp
  show edge: "\<forall>(i, j) \<in> dep_edges mods. dm_dep_sort_idx (tp_mods st ! i) < dm_dep_sort_idx (tp_mods st ! j)"
  proof clarify
    fix i j assume "(i, j) \<in> dep_edges mods"
    then have ij: "i < ?n" "j \<in> set (deps_of mods i)" by (auto simp: dep_edges_def)
    then have "j \<in> set order" using wf set by (auto simp: wf_mods_def)
    then obtain k where k: "k < ?n" "order ! k = j" using all by (auto simp: in_set_conv_nth)
    then have "i \<in> set (take k order)" using I ij all by auto
    then obtain l where "l < k" "order ! l = i" by (auto simp: in_set_conv_nth)
    then show "dm_dep_sort_idx (tp_mods st ! i) < dm_dep_sort_idx (tp_mods st ! j)" using num k by force
  qed
  have "(i, j) \<in> (dep_edges mods)\<^sup>+ \<Longrightarrow> dm_dep_sort_idx (tp_mods st ! i) < dm_dep_sort_idx (tp_mods st ! j)" for i j
    by (induction rule: trancl_induct) (use edge in force)+
  then show "acyclic (dep_edges mods)" by (auto simp: acyclic_def)
  have "(\<lambda>i. dm_dep_sort_idx (tp_mods st ! i)) ` set order = (\<lambda>k. dm_dep_sort_idx (tp_mods st ! (order ! k))) ` {..<?n}"
    using all by (auto simp: set_conv_nth image_iff)
  also have "\<dots> = int ` {..<?n}" using num by (intro image_cong) auto
  finally show "(\<lambda>i. dm_dep_sort_idx (tp_mods st ! i)) ` {..<?n} = int ` {..<?n}" by (simp add: set)
qed

section \<open>Loading the dependencies\<close>

text \<open>Adding the edge from \<open>i\<close> to \<open>owner\<close>, on the table.\<close>

definition edge_added :: "dmod list \<Rightarrow> nat \<Rightarrow> nat \<Rightarrow> nat array \<Rightarrow> dmod list" where
  "edge_added mods i owner deps = (let mods = mods[i := (mods ! i)\<lparr>dm_deps := deps\<rparr>] in
     mods[owner := (mods ! owner)\<lparr>dm_users := dm_users (mods ! owner) + 1\<rparr>])"

lemma edge_added_fields:
  assumes "i < length mods" and "owner < length mods"
  shows "length (edge_added mods i owner deps) = length mods"
    and "j < length mods \<Longrightarrow> dm_deps (edge_added mods i owner deps ! j) = (if j = i then deps else dm_deps (mods ! j))
      \<and> dm_idx (edge_added mods i owner deps ! j) = dm_idx (mods ! j)
      \<and> dm_users (edge_added mods i owner deps ! j) = (if j = owner then dm_users (mods ! j) + 1 else dm_users (mods ! j))
      \<and> dm_dep_sym_list (edge_added mods i owner deps ! j) = dm_dep_sym_list (mods ! j)"
  using assms by (auto simp: edge_added_def nth_list_update Let_def)

lemma edge_added_wf:
  assumes wf: "wf_mods mods" and i: "i < length mods" and ow: "owner < length mods"
    and deps: "array_inv deps" "array_list deps = deps_of mods i @ [owner]" and new: "owner \<notin> set (deps_of mods i)"
  shows "wf_mods (edge_added mods i owner deps)" "dep_edges (edge_added mods i owner deps) = insert (i, owner) (dep_edges mods)"
proof -
  let ?m = "edge_added mods i owner deps"
  note F = edge_added_fields(1)[OF i ow, of deps] edge_added_fields(2)[OF i ow, of _ deps]
  have d: "deps_of ?m j = (if j = i then deps_of mods i @ [owner] else deps_of mods j)" if "j < length mods" for j
    using F(2)[OF that] deps(2) by (simp add: deps_of_def)
  show "dep_edges ?m = insert (i, owner) (dep_edges mods)"
    using d i F(1) by (auto simp: dep_edges_def split: if_splits)
  have u: "users_of ?m {} j = (if j = owner then insert i (users_of mods {} j) else users_of mods {} j)" for j
  proof -
    have "users_of ?m {} j = {k. k < length mods \<and> j \<in> set (if k = i then deps_of mods i @ [owner] else deps_of mods k)}"
      unfolding users_of_def F(1) using d by auto
    then show ?thesis using i by (auto simp: users_of_def)
  qed
  have ni: "i \<notin> users_of mods {} owner" using new by (simp add: users_of_def)
  then have card: "card (users_of ?m {} owner) = Suc (card (users_of mods {} owner))" using u by simp
  have sub: "users_of mods {} owner \<subset> {..<length mods}" using ni i by (auto simp: users_of_def)
  have "card (users_of mods {} owner) < length mods" using psubset_card_mono [OF _ sub] by simp
  moreover have n: "length mods < 65535" using wf by (simp add: wf_mods_def)
  ultimately have "unat (dm_users (mods ! owner) + 1) = Suc (unat (dm_users (mods ! owner)))"
    using wf ow by (simp add: wf_mods_def unat_word_ariths)
  then have users: "unat (dm_users (?m ! j)) = card (users_of ?m {} j)" if "j < length mods" for j
    using F(2)[OF that] u card wf that by (simp add: wf_mods_def)
  show "wf_mods ?m" unfolding wf_mods_def
    using F users d wf n deps new ow by (simp add: wf_mods_def)
qed

lemma mod_add_dependency_spec:
  assumes wf: "wf_mods mods" and i: "i < length mods" and ow: "sym_owner sm = Some owner" "owner < length mods"
  shows "\<exists>r mods'. mod_add_dependency alloc mods i sm = Some (r, mods') \<and> wf_mods mods' \<and> length mods' = length mods
    \<and> (\<forall>j < length mods. dm_dep_sym_list (mods' ! j) = dm_dep_sym_list (mods ! j))
    \<and> (if r = Inr () then dep_edges mods' = insert (i, owner) (dep_edges mods) else r = Inl ENOMEM \<and> mods' = mods)"
proof -
  let ?a = "dm_deps (mods ! i)"
  have inv: "array_inv ?a" using wf i by (simp add: wf_mods_def)
  have same: "mods[i := (mods ! i)\<lparr>dm_deps := ?a\<rparr>] = mods" by simp
  show ?thesis
  proof (cases "owner \<in> set (array_list ?a)")
    case True
    then have "mod_add_dependency alloc mods i sm = Some (Inr (), mods)"
      using i ow array_append_unique_eq [OF inv, of alloc owner] by (simp add: mod_add_dependency_def)
    moreover have "insert (i, owner) (dep_edges mods) = dep_edges mods" using True i by (auto simp: dep_edges_def deps_of_def)
    ultimately show ?thesis using wf by simp
  next
    case False
    then have eq: "array_append_unique alloc ?a owner = array_append alloc ?a owner" using array_append_unique_eq [OF inv] by simp
    show ?thesis using array_append_cases [OF inv, of alloc owner]
    proof (elim disjE exE conjE)
      assume "array_append alloc ?a owner = Some (Inl ENOMEM, ?a)"
      then show ?thesis using wf i ow eq by (simp add: mod_add_dependency_def)
    next
      fix a' assume a': "array_append alloc ?a owner = Some (Inr (sint (ucast (arr_count ?a) :: 32 word)), a')" "array_inv a'"
        "array_list a' = array_list ?a @ [owner]"
      have "mod_add_dependency alloc mods i sm = Some (Inr (), edge_added mods i owner a')"
        using i ow eq a'(1) by (simp add: mod_add_dependency_def edge_added_def Let_def)
      moreover have l: "array_list a' = deps_of mods i @ [owner]" "owner \<notin> set (deps_of mods i)" using a'(3) False by (simp_all add: deps_of_def)
      ultimately show ?thesis
        using edge_added_wf [OF wf i ow(2) a'(2) l] edge_added_fields(1)[OF i ow(2), of a'] edge_added_fields(2)[OF i ow(2), of _ a'] by simp
    qed
  qed
qed

text \<open>
  What a needed symbol resolves to, and the edges that follow: the owner of the symbol after the
  leading dot and the symbol prefix are removed.
\<close>

definition sym_target :: "depmod \<Rightarrow> string \<Rightarrow> nat option" where
  "sym_target dp name =
     do { name \<leftarrow> skip_prefix (dp_sym_prefix dp) (if char_at name 0 = CHR ''.'' then drop 1 name else name);
          v \<leftarrow> hash_map (dp_symbols dp) name;
          symb \<leftarrow> v;
          sym_owner symb }"

definition needed_edges :: "depmod \<Rightarrow> nat \<Rightarrow> string set \<Rightarrow> (nat \<times> nat) set" where
  "needed_edges dp i names = {(i, owner) | owner. \<exists>name \<in> names. sym_target dp name = Some owner}"

definition depmod_inv :: "depmod \<Rightarrow> bool" where
  "depmod_inv dp \<longleftrightarrow> wf_mods (dp_modules dp) \<and> hash_inv (dp_symbols dp)
     \<and> (\<forall>k s owner. hash_map (dp_symbols dp) k = Some (Some s) \<longrightarrow> sym_owner s = Some owner \<longrightarrow> owner < length (dp_modules dp))
     \<and> (\<forall>m \<in> set (dp_modules dp). \<forall>(name, _, _) \<in> set (dm_dep_sym_list m).
          skip_prefix (dp_sym_prefix dp) (if char_at name 0 = CHR ''.'' then drop 1 name else name) \<noteq> None)"

definition same_tables :: "depmod \<Rightarrow> depmod \<Rightarrow> bool" where
  "same_tables dp dp' \<longleftrightarrow> dp_symbols dp' = dp_symbols dp \<and> dp_sym_prefix dp' = dp_sym_prefix dp
     \<and> length (dp_modules dp') = length (dp_modules dp)
     \<and> (\<forall>j < length (dp_modules dp). dm_dep_sym_list (dp_modules dp' ! j) = dm_dep_sym_list (dp_modules dp ! j))"

lemma same_tables_inv: "same_tables dp dp' \<Longrightarrow> depmod_inv dp \<Longrightarrow> wf_mods (dp_modules dp') \<Longrightarrow> depmod_inv dp'"
proof -
  assume st: "same_tables dp dp'" and inv: "depmod_inv dp" and wf: "wf_mods (dp_modules dp')"
  have "map dm_dep_sym_list (dp_modules dp') = map dm_dep_sym_list (dp_modules dp)"
    using st by (simp add: same_tables_def list_eq_iff_nth_eq)
  then have "dm_dep_sym_list ` set (dp_modules dp') = dm_dep_sym_list ` set (dp_modules dp)" by (metis list.set_map)
  then have syms: "\<forall>m \<in> set (dp_modules dp'). \<exists>m' \<in> set (dp_modules dp). dm_dep_sym_list m = dm_dep_sym_list m'" by blast
  have names: "\<forall>(name, _, _) \<in> set (dm_dep_sym_list m).
      skip_prefix (dp_sym_prefix dp) (if char_at name 0 = CHR ''.'' then drop 1 name else name) \<noteq> None"
    if h: "m \<in> set (dp_modules dp')" for m
  proof -
    obtain m' where m': "m' \<in> set (dp_modules dp)" "dm_dep_sym_list m = dm_dep_sym_list m'" using syms h by blast
    have "\<forall>m \<in> set (dp_modules dp). \<forall>(name, _, _) \<in> set (dm_dep_sym_list m).
        skip_prefix (dp_sym_prefix dp) (if char_at name 0 = CHR ''.'' then drop 1 name else name) \<noteq> None"
      using inv unfolding depmod_inv_def by (elim conjE)
    then show ?thesis unfolding m'(2) by (rule bspec) (rule m'(1))
  qed
  have "dp_symbols dp' = dp_symbols dp" "dp_sym_prefix dp' = dp_sym_prefix dp" "length (dp_modules dp') = length (dp_modules dp)"
    using st by (simp_all add: same_tables_def)
  then show ?thesis using names inv wf unfolding depmod_inv_def by simp
qed

lemma same_tables_edges: "same_tables dp dp' \<Longrightarrow> needed_edges dp' = needed_edges dp"
  by (intro ext) (simp add: needed_edges_def sym_target_def same_tables_def)

lemma load_dependency_spec:
  assumes inv: "depmod_inv dp" and i: "i < length (dp_modules dp)"
    and nm: "skip_prefix (dp_sym_prefix dp) (if char_at name 0 = CHR ''.'' then drop 1 name else name) \<noteq> None"
  shows "\<exists>r dp'. load_dependency alloc i (name, crc, b) (ret, dp) = Some (r, dp') \<and> depmod_inv dp' \<and> same_tables dp dp'
    \<and> (r = Inr () \<longrightarrow> ret = Inr () \<and> dep_edges (dp_modules dp') = dep_edges (dp_modules dp) \<union> needed_edges dp i {name})"
proof -
  obtain nm' where nm': "skip_prefix (dp_sym_prefix dp) (if char_at name 0 = CHR ''.'' then drop 1 name else name) = Some nm'"
    using nm by blast
  have h: "hash_inv (dp_symbols dp)" using inv by (simp add: depmod_inv_def)
  have find: "depmod_symbol_find dp name = Some (Option.bind (hash_map (dp_symbols dp) nm') id)"
    using nm' hd.find_law [OF h, of nm'] by (simp add: depmod_symbol_find_def)
  have tgt: "sym_target dp name = Option.bind (Option.bind (hash_map (dp_symbols dp) nm') id) sym_owner"
    using nm' by (cases "hash_map (dp_symbols dp) nm'") (auto simp: sym_target_def split: option.splits)
  have keep: ?thesis if "load_dependency alloc i (name, crc, b) (ret, dp) = Some (ret, dp)" and "sym_target dp name = None"
    using that inv by (auto simp: same_tables_def needed_edges_def)
  show ?thesis
  proof (cases "Option.bind (hash_map (dp_symbols dp) nm') id")
    case None
    then show ?thesis using keep find tgt by (simp add: load_dependency_def)
  next
    case (Some s)
    show ?thesis
    proof (cases "sym_owner s")
      case None
      then show ?thesis using keep find tgt Some by (simp add: load_dependency_def mod_add_dependency_def)
    next
      case ow: (Some owner)
      have "hash_map (dp_symbols dp) nm' = Some (Some s)" using Some by (auto simp: bind_eq_Some_conv)
      then have lt: "owner < length (dp_modules dp)" using inv ow unfolding depmod_inv_def by blast
      have wf: "wf_mods (dp_modules dp)" using inv by (simp add: depmod_inv_def)
      obtain r mods' where M: "mod_add_dependency alloc (dp_modules dp) i s = Some (r, mods')" "wf_mods mods'"
        "length mods' = length (dp_modules dp)" "\<forall>j < length (dp_modules dp). dm_dep_sym_list (mods' ! j) = dm_dep_sym_list (dp_modules dp ! j)"
        "if r = Inr () then dep_edges mods' = insert (i, owner) (dep_edges (dp_modules dp)) else r = Inl ENOMEM \<and> mods' = dp_modules dp"
        using mod_add_dependency_spec [OF wf i ow lt] by blast
      let ?dp = "dp\<lparr>dp_modules := mods'\<rparr>"
      have st: "same_tables dp ?dp" using M(3,4) by (simp add: same_tables_def)
      have "load_dependency alloc i (name, crc, b) (ret, dp) = Some (case r of Inl e \<Rightarrow> Inl e | Inr _ \<Rightarrow> ret, ?dp)"
        using find Some M(1) by (simp add: load_dependency_def)
      moreover have "needed_edges dp i {name} = {(i, owner)}" using tgt Some ow by (auto simp: needed_edges_def)
      ultimately show ?thesis using st same_tables_inv [OF st inv] M(2,5) by (auto split: sum.splits if_splits)
    qed
  qed
qed

lemma same_tables_trans: "same_tables a b \<Longrightarrow> same_tables b c \<Longrightarrow> same_tables a c"
  by (simp add: same_tables_def)

lemma needed_edges_Un: "needed_edges dp i (A \<union> B) = needed_edges dp i A \<union> needed_edges dp i B"
  by (auto simp: needed_edges_def)

lemma load_syms_spec:
  assumes "depmod_inv dp" and "i < length (dp_modules dp)"
    and "\<forall>(name, _, _) \<in> set syms. skip_prefix (dp_sym_prefix dp) (if char_at name 0 = CHR ''.'' then drop 1 name else name) \<noteq> None"
  shows "\<exists>r dp'. foldM (load_dependency alloc i) syms (ret, dp) = Some (r, dp') \<and> depmod_inv dp' \<and> same_tables dp dp'
    \<and> (r = Inr () \<longrightarrow> ret = Inr () \<and> dep_edges (dp_modules dp') = dep_edges (dp_modules dp) \<union> needed_edges dp i (fst ` set syms))"
  using assms
proof (induction syms arbitrary: ret dp)
  case Nil
  then show ?case by (simp add: same_tables_def needed_edges_def)
next
  case (Cons s syms)
  obtain name crc b where s: "s = (name, crc, b)" by (cases s)
  have nm: "skip_prefix (dp_sym_prefix dp) (if char_at name 0 = CHR ''.'' then drop 1 name else name) \<noteq> None"
    using Cons.prems(3) by (simp add: s)
  obtain r1 dp1 where 1: "load_dependency alloc i s (ret, dp) = Some (r1, dp1)" "depmod_inv dp1" "same_tables dp dp1"
    "r1 = Inr () \<longrightarrow> ret = Inr () \<and> dep_edges (dp_modules dp1) = dep_edges (dp_modules dp) \<union> needed_edges dp i {name}"
    using load_dependency_spec [OF Cons.prems(1,2) nm, of alloc crc b ret] unfolding s by blast
  have "i < length (dp_modules dp1)" "dp_sym_prefix dp1 = dp_sym_prefix dp" using 1(3) Cons.prems(2) by (auto simp: same_tables_def)
  then obtain r dp' where 2: "foldM (load_dependency alloc i) syms (r1, dp1) = Some (r, dp')" "depmod_inv dp'" "same_tables dp1 dp'"
    "r = Inr () \<longrightarrow> r1 = Inr () \<and> dep_edges (dp_modules dp') = dep_edges (dp_modules dp1) \<union> needed_edges dp1 i (fst ` set syms)"
    using Cons.IH [OF 1(2), of r1] Cons.prems(3) by auto
  have "dep_edges (dp_modules dp') = dep_edges (dp_modules dp) \<union> needed_edges dp i (fst ` set (s # syms))" if "r = Inr ()"
    using 1(4) 2(4) that needed_edges_Un [of dp i "{name}" "fst ` set syms"] same_tables_edges [OF 1(3)] by (simp add: s Un_assoc)
  then show ?case using 1 2 same_tables_trans [OF 1(3) 2(3)] by auto
qed

definition all_needed :: "depmod \<Rightarrow> nat \<Rightarrow> (nat \<times> nat) set" where
  "all_needed dp k = (\<Union>i < k. needed_edges dp i (fst ` set (dm_dep_sym_list (dp_modules dp ! i))))"

lemma load_dependencies_spec:
  assumes inv: "depmod_inv dp"
  shows "\<exists>r dp'. depmod_load_dependencies alloc dp = Some (r, dp') \<and> depmod_inv dp' \<and> same_tables dp dp'
    \<and> (r = Inr () \<longrightarrow> dep_edges (dp_modules dp') = dep_edges (dp_modules dp) \<union> all_needed dp (length (dp_modules dp)))"
proof -
  let ?body = "\<lambda>i (ret, dp).
         if dm_dep_sym_list (dp_modules dp ! i) = [] then Some (ret, dp)
         else
           do { (err, dp) \<leftarrow> depmod_load_module_dependencies alloc dp i;
                Some (case err of Inl e \<Rightarrow> Inl e | Inr _ \<Rightarrow> ret, dp) }"
  have "\<exists>r dp'. foldM ?body [0..<k] (Inr (), dp) = Some (r, dp') \<and> depmod_inv dp' \<and> same_tables dp dp'
      \<and> (r = Inr () \<longrightarrow> dep_edges (dp_modules dp') = dep_edges (dp_modules dp) \<union> all_needed dp k)"
    if "k \<le> length (dp_modules dp)" for k
    using that
  proof (induction k)
    case 0
    then show ?case using inv by (simp add: same_tables_def all_needed_def)
  next
    case (Suc k)
    then obtain r d1 where IH: "foldM ?body [0..<k] (Inr (), dp) = Some (r, d1)" "depmod_inv d1" "same_tables dp d1"
      "r = Inr () \<longrightarrow> dep_edges (dp_modules d1) = dep_edges (dp_modules dp) \<union> all_needed dp k" by auto
    have k: "k < length (dp_modules d1)" "dm_dep_sym_list (dp_modules d1 ! k) = dm_dep_sym_list (dp_modules dp ! k)"
      using IH(3) Suc.prems by (auto simp: same_tables_def)
    let ?syms = "dm_dep_sym_list (dp_modules dp ! k)"
    have all: "all_needed dp (Suc k) = all_needed dp k \<union> needed_edges dp k (fst ` set ?syms)"
      by (auto simp: all_needed_def less_Suc_eq)
    have names: "\<forall>(name, _, _) \<in> set (dm_dep_sym_list (dp_modules d1 ! k)).
        skip_prefix (dp_sym_prefix d1) (if char_at name 0 = CHR ''.'' then drop 1 name else name) \<noteq> None"
      using IH(2) k(1) nth_mem [OF k(1)] unfolding depmod_inv_def by (elim conjE) (rule bspec)
    obtain r2 d2 where 2: "depmod_load_module_dependencies alloc d1 k = Some (r2, d2)" "depmod_inv d2" "same_tables d1 d2"
      "r2 = Inr () \<longrightarrow> dep_edges (dp_modules d2) = dep_edges (dp_modules d1) \<union> needed_edges d1 k (fst ` set ?syms)"
      using load_syms_spec [OF IH(2) k(1) names, of alloc "Inr ()"] k(2) by (auto simp: depmod_load_module_dependencies_def)
    show ?case
    proof (cases "?syms = []")
      case True
      then have "all_needed dp (Suc k) = all_needed dp k" unfolding all by (simp add: needed_edges_def)
      then show ?thesis using IH True k(2) by (simp add: foldM_append)
    next
      case False
      then show ?thesis using IH 2 k(2) same_tables_trans [OF IH(3) 2(3)] same_tables_edges [OF IH(3)]
        by (auto simp: foldM_append all Un_assoc split: sum.splits)
    qed
  qed
  then show ?thesis by (auto simp: depmod_load_dependencies_def)
qed

section \<open>Example tables\<close>

text \<open>A module for the examples: its name, position, dependencies and number of users.\<close>

definition example_mod :: "string \<Rightarrow> nat \<Rightarrow> nat list \<Rightarrow> nat \<Rightarrow> dmod" where
  "example_mod name idx ds users = \<lparr>dm_modname = name, dm_path = name @ ''.ko'', dm_relpath = None, dm_dep_sym_list = [],
     dm_deps = \<lparr>arr_cells = map Some ds, arr_count = of_nat (length ds), arr_total = of_nat (length ds), arr_step = 1\<rparr>,
     dm_dep_sort_idx = 0, dm_idx = of_nat idx, dm_users = of_nat users, dm_visited = False\<rparr>"

lemma example_mod_deps:
  "length ds < 2 ^ 32 \<Longrightarrow> array_inv (dm_deps (example_mod name idx ds users)) \<and> array_list (dm_deps (example_mod name idx ds users)) = ds"
  by (auto simp: example_mod_def array_inv_def array_list_def init_upto_def live_def unat_of_nat comp_def)

lemma example_mod_fields [simp]:
  "dm_idx (example_mod name idx ds users) = of_nat idx" "dm_users (example_mod name idx ds users) = of_nat users"
  "dm_visited (example_mod name idx ds users) = False" "dm_modname (example_mod name idx ds users) = name"
  "dm_path (example_mod name idx ds users) = name @ ''.ko''" "dm_relpath (example_mod name idx ds users) = None"
  "arr_count (dm_deps (example_mod name idx ds users)) = of_nat (length ds)"
  by (simp_all add: example_mod_def)

text \<open>Well-formedness with executable quantifiers.\<close>

lemma wf_mods_check:
  "wf_mods mods \<longleftrightarrow> length mods < 65535 \<and> (\<forall>i \<in> set [0..<length mods]. array_inv (dm_deps (mods ! i)) \<and> distinct (deps_of mods i)
     \<and> (\<forall>j \<in> set (deps_of mods i). j < length mods) \<and> unat (dm_idx (mods ! i)) = i
     \<and> unat (dm_users (mods ! i)) = length (filter (\<lambda>j. i \<in> set (deps_of mods j)) [0..<length mods]))"
proof -
  have "users_of mods {} i = set (filter (\<lambda>j. i \<in> set (deps_of mods j)) [0..<length mods])" for i
    by (auto simp: users_of_def)
  then have "card (users_of mods {} i) = length (filter (\<lambda>j. i \<in> set (deps_of mods j)) [0..<length mods])" for i
    using distinct_card [of "filter (\<lambda>j. i \<in> set (deps_of mods j)) [0..<length mods]"] by simp
  then show ?thesis by (auto simp: wf_mods_def)
qed

lemmas table_simps = deps_of_def example_mod_deps upt_rec [of "Suc _"] upt_rec [of 0]

section \<open>Properties\<close>

text \<open>
  C7. Loading the dependencies keeps the module table well formed, whatever allocations fail, and
  never leaves it: the arrays stay duplicate free, the 16-bit user counts stay the true number of
  users and do not wrap. If no error is returned, the edges are exactly the old ones and, for every
  symbol a module needs, the edge to the module that owns it; unknown symbols add none.
\<close>

theorem load_dependencies_edges:
  assumes "depmod_inv dp"
  shows "\<exists>r dp'. depmod_load_dependencies alloc dp = Some (r, dp') \<and> depmod_inv dp'
    \<and> length (dp_modules dp') = length (dp_modules dp)
    \<and> (r = Inr () \<longrightarrow> dep_edges (dp_modules dp') = dep_edges (dp_modules dp)
         \<union> {(i, owner). i < length (dp_modules dp) \<and> (\<exists>name \<in> fst ` set (dm_dep_sym_list (dp_modules dp ! i)). sym_target dp name = Some owner)})"
proof -
  have "all_needed dp (length (dp_modules dp))
      = {(i, owner). i < length (dp_modules dp) \<and> (\<exists>name \<in> fst ` set (dm_dep_sym_list (dp_modules dp ! i)). sym_target dp name = Some owner)}"
    by (auto simp: all_needed_def needed_edges_def)
  then show ?thesis using load_dependencies_spec [OF assms, of alloc] by (auto simp: same_tables_def)
qed

definition symbols_example :: "symbol hash" where
  "symbols_example = \<lparr>h_count = 1, h_step = 4, h_n_buckets = 1, h_free_value = True,
     h_buckets = [\<lparr>hb_entries = [Some \<lparr>he_key = ''foo'', he_value = Some \<lparr>sym_owner = Some 1, sym_crc = 7, sym_name = ''foo''\<rparr>\<rparr>],
                   hb_used = 1, hb_total = 1\<rparr>]\<rparr>"

definition depmod_example :: depmod where
  "depmod_example = \<lparr>dp_sym_prefix = CHR ''_'',
     dp_modules = [(example_mod ''user'' 0 [] 0)\<lparr>dm_dep_sym_list := [(''_foo'', 7, CHR ''U''), (''bar'', 0, CHR ''U'')]\<rparr>,
                   example_mod ''owner'' 1 [] 0], dp_symbols = symbols_example\<rparr>"

lemma symbols_example_facts:
  "hash_inv symbols_example"
  "hash_map symbols_example k = (if k = ''foo'' then Some (Some \<lparr>sym_owner = Some 1, sym_crc = 7, sym_name = ''foo''\<rparr>) else None)"
proof -
  have pos: "hash_pos symbols_example k = 0" for k by (simp add: hash_pos_def symbols_example_def Let_def)
  have list: "bucket_list (h_buckets symbols_example ! 0)
      = [\<lparr>he_key = ''foo'', he_value = Some \<lparr>sym_owner = Some 1, sym_crc = 7, sym_name = ''foo''\<rparr>\<rparr>]"
    by (simp add: symbols_example_def bucket_list_def live_def)
  show "hash_map symbols_example k = (if k = ''foo'' then Some (Some \<lparr>sym_owner = Some 1, sym_crc = 7, sym_name = ''foo''\<rparr>) else None)"
    by (simp add: hash_map_def pos list entries_map_def)
  have "bucket_inv (h_buckets symbols_example ! 0)" unfolding bucket_inv_def list
    by (simp add: symbols_example_def init_upto_def)
  moreover have "sum_list (map (\<lambda>b. length (bucket_list b)) (h_buckets symbols_example)) = length (bucket_list (h_buckets symbols_example ! 0))"
    by (simp add: symbols_example_def)
  moreover have "length (h_buckets symbols_example) = 1" "h_n_buckets symbols_example = 1" "h_step symbols_example = 4"
    "h_count symbols_example = 1"
    by (simp_all add: symbols_example_def)
  ultimately show "hash_inv symbols_example" unfolding hash_inv_def using pos list by simp
qed

lemma depmod_example_inv: "depmod_inv depmod_example"
proof -
  have "wf_mods (dp_modules depmod_example)"
    by (simp add: wf_mods_check depmod_example_def table_simps)
  moreover have "dp_symbols depmod_example = symbols_example" by (simp add: depmod_example_def)
  moreover have "\<forall>m \<in> set (dp_modules depmod_example). \<forall>(name, _, _) \<in> set (dm_dep_sym_list m).
      skip_prefix (dp_sym_prefix depmod_example) (if char_at name 0 = CHR ''.'' then drop 1 name else name) \<noteq> None"
    by (simp add: depmod_example_def skip_prefix_def char_at_def example_mod_def)
  moreover have "length (dp_modules depmod_example) = 2" by (simp add: depmod_example_def)
  ultimately show ?thesis unfolding depmod_inv_def using symbols_example_facts by (simp split: if_splits)
qed

theorem load_dependencies_edges_witness:
  "\<exists>r dp'. depmod_load_dependencies (\<lambda>_. True) depmod_example = Some (r, dp') \<and> depmod_inv dp'
    \<and> (r = Inr () \<longrightarrow> dep_edges (dp_modules dp') = {(0, 1)})"
proof -
  have n: "i < length (dp_modules depmod_example) \<longleftrightarrow> i = 0 \<or> i = 1" for i
    by (auto simp: depmod_example_def)
  have "deps_of (dp_modules depmod_example) 0 = []" "deps_of (dp_modules depmod_example) 1 = []"
    by (simp_all add: depmod_example_def table_simps)
  then have e: "dep_edges (dp_modules depmod_example) = {}"
    unfolding dep_edges_def n by (auto intro: ccontr)
  have l: "dm_dep_sym_list (dp_modules depmod_example ! 0) = [(''_foo'', 7, CHR ''U''), (''bar'', 0, CHR ''U'')]"
    "dm_dep_sym_list (dp_modules depmod_example ! 1) = []"
    by (simp_all add: depmod_example_def example_mod_def)
  have "sym_target depmod_example ''_foo'' = Some 1" "sym_target depmod_example ''bar'' = None"
    by (simp_all add: sym_target_def skip_prefix_def char_at_def depmod_example_def symbols_example_facts(2))
  then have "{(i, owner). i < length (dp_modules depmod_example)
      \<and> (\<exists>name \<in> fst ` set (dm_dep_sym_list (dp_modules depmod_example ! i)). sym_target depmod_example name = Some owner)} = {(0, 1)}"
    unfolding n using l by (auto intro: ccontr)
  then show ?thesis using load_dependencies_edges [OF depmod_example_inv, of "\<lambda>_. True"] unfolding e by auto
qed

end
