(* ===== verification/Kmod_Cycles.thy ===== *)
theory Kmod_Cycles
  imports Kmod_Deps
begin

text \<open>
  The end of depmod's dependency calculation (\<open>tools/depmod.c\<close>): the report of dependency cycles
  and \<open>depmod_calculate_dependencies\<close> itself. A \<open>kmod_list\<close> is the list of its values (the component
  \<open>Kmod_List\<close> relates the two); appending to it, a vertex and the hash of the modules in loops take
  memory, which \<open>alloc\<close> may refuse. A loop is run for a number of steps and says if it has finished.
  What the report does is shown in \<open>Kmod_Report\<close>.
\<close>

section \<open>One cycle\<close>

datatype vertex = Vertex (v_parent: "vertex option") (v_mod: nat)

primrec v_chain :: "vertex \<Rightarrow> nat list" where
  "v_chain (Vertex parent m) = m # (case map_option v_chain parent of None \<Rightarrow> [] | Some ms \<Rightarrow> ms)"

text \<open>\<open>kmod_list_remove_data\<close> on the values: the result starts behind the removed element.\<close>

definition depmod_list_remove_data :: "nat list \<Rightarrow> nat \<Rightarrow> nat list" where
  "depmod_list_remove_data list d =
     (case dropWhile (\<lambda>x. x \<noteq> d) list of [] \<Rightarrow> list | _ # vs \<Rightarrow> vs @ takeWhile (\<lambda>x. x \<noteq> d) list)"

record cyc =
  cy_mods :: "dmod list"
  cy_roots :: "nat list"
  cy_stack :: "vertex list"
  cy_loop_set :: "unit hash"
  cy_msgs :: "string list"

fun collect_cycle ::
    "(size_t \<Rightarrow> bool) \<Rightarrow> dmod list \<Rightarrow> nat list \<Rightarrow> nat array \<Rightarrow> unit hash \<Rightarrow> (unit result \<times> nat array \<times> unit hash) option" where
  "collect_cycle alloc mods [] reverse loop_set = Some (Inr (), reverse, loop_set)"
| "collect_cycle alloc mods (m # ms) reverse loop_set =
     do { (r, reverse) \<leftarrow> array_append alloc reverse m;
          case r of
            Inl err \<Rightarrow> Some (Inl err, reverse, loop_set)
          | Inr _ \<Rightarrow>
              do { (r, loop_set, freed) \<leftarrow> hash_add alloc loop_set (dm_modname (mods ! m)) None;
                   case r of
                     Inl err \<Rightarrow> Some (Inl err, reverse, loop_set)
                   | Inr _ \<Rightarrow> collect_cycle alloc mods ms reverse loop_set } }"

definition cycle_text :: "dmod list \<Rightarrow> nat list \<Rightarrow> nat \<Rightarrow> string" where
  "cycle_text mods ms m = concat (map (\<lambda>i. dm_modname (mods ! i) @ '' -> '') ms) @ dm_modname (mods ! m)"

definition depmod_report_one_cycle :: "(size_t \<Rightarrow> bool) \<Rightarrow> vertex \<Rightarrow> cyc \<Rightarrow> (unit result \<times> cyc) option" where
  "depmod_report_one_cycle alloc vertex st =
     (let mods = cy_mods st; parents = (case v_parent vertex of None \<Rightarrow> [] | Some v \<Rightarrow> v_chain v) in
      do { reverse \<leftarrow> array_init 3;
           (rc, reverse, loop_set) \<leftarrow> collect_cycle alloc mods parents reverse (cy_loop_set st);
           let st = st\<lparr>cy_loop_set := loop_set\<rparr>;
           case rc of
             Inl err \<Rightarrow> Some (Inl err, st)
           | Inr _ \<Rightarrow>
               (let sz = sum_list (map (\<lambda>m. length (dm_modname (mods ! m))) parents)
                           + length (dm_modname (mods ! v_mod vertex)) + length parents * 4 + 1 in
                if \<not> alloc (of_nat sz) then Some (Inl ENOMEM, st)
                else
                  (let order = rev (array_list reverse);
                       buf = cycle_text mods order (v_mod vertex) in
                   if sz < length buf + 1 then None
                   else Some (Inr (), st\<lparr>cy_roots := foldl depmod_list_remove_data (cy_roots st) order,
                                         cy_msgs := cy_msgs st @ [''Cycle detected: '' @ buf]\<rparr>))) })"

section \<open>The search from one root\<close>

datatype 'a progress = Continue 'a | Finish "unit result" 'a

text \<open>Pushing the dependencies; a full stack fails the \<open>assert\<close>.\<close>

fun push_vertices ::
    "(size_t \<Rightarrow> bool) \<Rightarrow> nat \<Rightarrow> vertex \<Rightarrow> nat list \<Rightarrow> vertex list \<Rightarrow> (bool \<times> vertex list) option" where
  "push_vertices alloc stack_size parent [] stack = Some (True, stack)"
| "push_vertices alloc stack_size parent (d # ds) stack =
     (if \<not> alloc 16 then Some (False, stack)
      else if stack_size \<le> length stack then None
      else if \<not> alloc 24 then Some (False, stack)
      else push_vertices alloc stack_size parent ds (Vertex (Some parent) d # stack))"

definition report_step :: "(size_t \<Rightarrow> bool) \<Rightarrow> nat \<Rightarrow> nat \<Rightarrow> cyc \<Rightarrow> cyc progress option" where
  "report_step alloc root stack_size st =
     (case cy_stack st of
        [] \<Rightarrow> Some (Finish (Inr ()) st)
      | vertex # stack \<Rightarrow>
          (let m = v_mod vertex; mods = cy_mods st; st = st\<lparr>cy_stack := stack\<rparr> in
           if length mods \<le> m then None
           else if dm_visited (mods ! m) \<and> m = root then
             do { (rc, st) \<leftarrow> depmod_report_one_cycle alloc vertex st;
                  Some (case rc of Inl err \<Rightarrow> Finish (Inl err) st | Inr _ \<Rightarrow> Continue st) }
           else
             (let st = st\<lparr>cy_mods := mods[m := (mods ! m)\<lparr>dm_visited := True\<rparr>]\<rparr> in
              if arr_count (dm_deps (mods ! m)) = 0
              then Some (Continue (st\<lparr>cy_roots := depmod_list_remove_data (cy_roots st) m\<rparr>))
              else
                do { (ok, stack) \<leftarrow> push_vertices alloc stack_size vertex (array_list (dm_deps (mods ! m))) stack;
                     let st = st\<lparr>cy_stack := stack\<rparr>;
                     Some (if ok then Continue st else Finish (Inl ENOMEM) st) })))"

primrec report_run :: "nat \<Rightarrow> (size_t \<Rightarrow> bool) \<Rightarrow> nat \<Rightarrow> nat \<Rightarrow> cyc \<Rightarrow> cyc progress option" where
  "report_run 0 alloc root stack_size st = Some (Continue st)"
| "report_run (Suc fuel) alloc root stack_size st =
     do { p \<leftarrow> report_step alloc root stack_size st;
          case p of Continue st \<Rightarrow> report_run fuel alloc root stack_size st | Finish r st \<Rightarrow> Some p }"

definition depmod_report_cycles_from_root ::
    "nat \<Rightarrow> (size_t \<Rightarrow> bool) \<Rightarrow> nat \<Rightarrow> nat \<Rightarrow> cyc \<Rightarrow> cyc progress option" where
  "depmod_report_cycles_from_root fuel alloc root_mod stack_size st =
     (if \<not> alloc 16 \<or> \<not> alloc 24 then Some (Finish (Inl ENOMEM) st)
      else if stack_size = 0 then None
      else report_run fuel alloc root_mod stack_size (st\<lparr>cy_stack := [Vertex None root_mod]\<rparr>))"

section \<open>All cycles\<close>

primrec report_roots :: "nat \<Rightarrow> (size_t \<Rightarrow> bool) \<Rightarrow> nat \<Rightarrow> cyc \<Rightarrow> cyc progress option" where
  "report_roots 0 alloc n_r st = Some (Continue st)"
| "report_roots (Suc fuel) alloc n_r st =
     (case cy_roots st of
        [] \<Rightarrow> Some (Finish (Inr ()) st)
      | root # roots \<Rightarrow>
          do { p \<leftarrow> depmod_report_cycles_from_root fuel alloc root n_r (st\<lparr>cy_roots := roots\<rparr>);
               case p of
                 Continue st \<Rightarrow> Some (Continue st)
               | Finish (Inl err) st \<Rightarrow> Some (Finish (Inl err) st)
               | Finish (Inr _) st \<Rightarrow> report_roots fuel alloc n_r st })"

text \<open>
  The result is the modules with their visited marks and the reported cycles, or None while the
  report runs. Failing allocations end the report; the number of modules in loops, which is printed
  at the end, is \<open>hash_get_count\<close> of the loop set.
\<close>

definition depmod_report_cycles ::
    "nat \<Rightarrow> (size_t \<Rightarrow> bool) \<Rightarrow> dmod list \<Rightarrow> u16 list \<Rightarrow> (dmod list \<times> string list) option option" where
  "depmod_report_cycles fuel alloc mods users =
     (let roots = filter (\<lambda>i. 0 < users ! i) [0..<length mods]; n_r = length roots in
      if roots \<noteq> [] \<and> \<not> alloc 24 then Some (Some (mods, []))
      else if \<not> alloc (of_nat (n_r * 8)) then Some (Some (mods, []))
      else
        do { loop_set \<leftarrow> hash_new alloc 16 False;
             case loop_set of
               None \<Rightarrow> Some (Some (mods, []))
             | Some loop_set \<Rightarrow>
                 do { p \<leftarrow> report_roots fuel alloc n_r
                        \<lparr>cy_mods = mods, cy_roots = roots, cy_stack = [], cy_loop_set = loop_set, cy_msgs = []\<rparr>;
                      Some (case p of Continue st \<Rightarrow> None | Finish r st \<Rightarrow> Some (cy_mods st, cy_msgs st)) } })"

section \<open>Calculation of the dependencies\<close>

text \<open>
  The result is 0 or an error, the modules, and the reported cycles; an inner None says that the
  report has not finished within the given number of steps.
\<close>

definition depmod_calculate_dependencies ::
    "nat \<Rightarrow> (size_t \<Rightarrow> bool) \<Rightarrow> ((nat \<Rightarrow> nat \<Rightarrow> int) \<Rightarrow> nat list \<Rightarrow> nat list) \<Rightarrow> dmod list
      \<Rightarrow> (unit result \<times> dmod list \<times> string list) option option" where
  "depmod_calculate_dependencies fuel alloc qsort mods =
     (if \<not> alloc (2 * ucast (of_nat (length mods) :: u16) * 3) then Some (Some (Inl ENOMEM, mods, []))
      else if \<not> length mods < 65535 then None
      else
        do { st \<leftarrow> topo_start mods;
             st \<leftarrow> topo_loop st;
             if unat (tp_n_sorted st) < length mods then
               map_option (map_option (\<lambda>(mods, msgs). (Inl EINVAL, mods, msgs)))
                 (depmod_report_cycles fuel alloc (tp_mods st) (tp_users st))
             else
               do { mods \<leftarrow> depmod_sort_dependencies qsort (tp_mods st);
                    Some (Some (Inr (), mods, [])) } })"

section \<open>Sorting the dependency arrays\<close>

text \<open>\<open>qsort\<close> of the C library: for a comparison by an integer key it permutes its input into key order.\<close>

definition qsort_spec :: "((nat \<Rightarrow> nat \<Rightarrow> int) \<Rightarrow> nat list \<Rightarrow> nat list) \<Rightarrow> bool" where
  "qsort_spec qsort \<longleftrightarrow> (\<forall>key xs. mset (qsort (\<lambda>a b. key a - key b) xs) = mset xs
     \<and> sorted (map key (qsort (\<lambda>a b. key a - key b) xs)))"

lemma qsort_dep_cmp:
  assumes "qsort_spec qsort"
  shows "mset (qsort (dep_cmp mods) xs) = mset xs" "sorted (map (\<lambda>i. dm_dep_sort_idx (mods ! i)) (qsort (dep_cmp mods) xs))"
proof -
  have "dep_cmp mods = (\<lambda>a b. dm_dep_sort_idx (mods ! a) - dm_dep_sort_idx (mods ! b))" by (simp add: dep_cmp_def fun_eq_iff)
  then show "mset (qsort (dep_cmp mods) xs) = mset xs" "sorted (map (\<lambda>i. dm_dep_sort_idx (mods ! i)) (qsort (dep_cmp mods) xs))"
    using assms by (simp_all add: qsort_spec_def)
qed

text \<open>Modules of two tables that differ only in the order of the dependency arrays.\<close>

definition reordered :: "dmod list \<Rightarrow> dmod list \<Rightarrow> bool" where
  "reordered mods mods' \<longleftrightarrow> length mods' = length mods \<and> (\<forall>i < length mods. array_inv (dm_deps (mods' ! i))
     \<and> mset (deps_of mods' i) = mset (deps_of mods i) \<and> mods' ! i = (mods ! i)\<lparr>dm_deps := dm_deps (mods' ! i)\<rparr>)"

definition deps_sorted :: "dmod list \<Rightarrow> nat \<Rightarrow> bool" where
  "deps_sorted mods i \<longleftrightarrow> sorted (map (\<lambda>j. dm_dep_sort_idx (mods ! j)) (deps_of mods i))"

lemma sort_idx_reordered:
  "reordered mods mods' \<Longrightarrow> j < length mods \<Longrightarrow> dm_dep_sort_idx (mods' ! j) = dm_dep_sort_idx (mods ! j)"
  by (metis dmod.select_convs(6) dmod.surjective dmod.update_convs(5) reordered_def)

lemma sort_dependencies_spec:
  assumes q: "qsort_spec qsort" and pos: "\<forall>i < length mods. array_inv (dm_deps (mods ! i)) \<and> set (deps_of mods i) \<subseteq> {..<length mods}"
  shows "\<exists>mods'. depmod_sort_dependencies qsort mods = Some mods' \<and> reordered mods mods'
    \<and> (\<forall>i < length mods. deps_sorted mods' i)"
proof -
  let ?n = "length mods"
  let ?body = "\<lambda>i mods. if 1 < arr_count (dm_deps (mods ! i)) then
           do { deps \<leftarrow> array_sort qsort (dep_cmp mods) (dm_deps (mods ! i));
                Some (mods[i := (mods ! i)\<lparr>dm_deps := deps\<rparr>]) }
         else Some mods"
  have "\<exists>mods'. foldM ?body [0..<k] mods = Some mods' \<and> reordered mods mods' \<and> (\<forall>i < k. deps_sorted mods' i)" if "k \<le> ?n" for k
    using that
  proof (induction k)
    case 0
    then show ?case using pos by (simp add: reordered_def)
  next
    case (Suc k)
    then obtain m1 where m1: "foldM ?body [0..<k] mods = Some m1" "reordered mods m1" "\<forall>i < k. deps_sorted m1 i" by auto
    have inv: "array_inv (dm_deps (m1 ! k))" and k: "k < ?n" "length m1 = ?n" using m1(2) Suc.prems by (auto simp: reordered_def)
    show ?case
    proof (cases "1 < arr_count (dm_deps (m1 ! k))")
      case False
      then have "length (deps_of m1 k) \<le> 1" using array_invD(5)[OF inv] by (simp add: deps_of_def word_less_nat_alt)
      then have "deps_sorted m1 k" by (cases "deps_of m1 k") (auto simp: deps_sorted_def)
      then show ?thesis using m1 False by (auto simp: foldM_append less_Suc_eq)
    next
      case True
      obtain deps where D: "array_sort qsort (dep_cmp m1) (dm_deps (m1 ! k)) = Some deps" "array_inv deps"
        "array_list deps = qsort (dep_cmp m1) (deps_of m1 k)"
        using array_sort_spec [OF inv, of qsort "dep_cmp m1"] qsort_dep_cmp(1)[OF q] by (auto simp: deps_of_def)
      let ?m2 = "m1[k := (m1 ! k)\<lparr>dm_deps := deps\<rparr>]"
      have nth: "?m2 ! j = (if j = k then (m1 ! k)\<lparr>dm_deps := deps\<rparr> else m1 ! j)" if "j < ?n" for j
        using that k by (auto simp: nth_list_update)
      have idx: "dm_dep_sort_idx (?m2 ! j) = dm_dep_sort_idx (m1 ! j)" for j
        using k by (cases "j = k") auto
      have deps: "deps_of ?m2 i = (if i = k then qsort (dep_cmp m1) (deps_of m1 k) else deps_of m1 i)" if "i < ?n" for i
        using nth [OF that] D(3) by (simp add: deps_of_def)
      have "deps_sorted ?m2 i" if i: "i < Suc k" for i
      proof -
        have "i < ?n" using i k by simp
        then show ?thesis using deps [of i] qsort_dep_cmp(2)[OF q, of m1 "deps_of m1 k"] m1(3) i
          by (cases "i = k") (auto simp: deps_sorted_def idx)
      qed
      moreover have "reordered mods ?m2" unfolding reordered_def
      proof (intro conjI allI impI)
        fix i assume i: "i < ?n"
        note R = m1(2)[unfolded reordered_def, THEN conjunct2, rule_format, OF i]
        show "array_inv (dm_deps (?m2 ! i))" using nth [OF i] D(2) R by simp
        show "mset (deps_of ?m2 i) = mset (deps_of mods i)" using deps [OF i] R qsort_dep_cmp(1)[OF q] by auto
        show "?m2 ! i = (mods ! i)\<lparr>dm_deps := dm_deps (?m2 ! i)\<rparr>"
          using nth [OF i] R by (cases "i = k") (auto, metis dmod.surjective dmod.update_convs(5))
      qed (simp add: k)
      ultimately show ?thesis using m1(1) True D(1) by (auto simp: foldM_append)
    qed
  qed
  then show ?thesis by (auto simp: depmod_sort_dependencies_def)
qed

section \<open>Correctness of the calculation\<close>

text \<open>
  What the output of depmod relies on: the graph is the original one, every module comes before the
  modules it needs, the numbers are a permutation, and every dependency array is in their order.
\<close>

definition topo_ready :: "dmod list \<Rightarrow> dmod list \<Rightarrow> bool" where
  "topo_ready mods mods' \<longleftrightarrow> length mods' = length mods
     \<and> (\<forall>i < length mods. array_inv (dm_deps (mods' ! i)) \<and> mset (deps_of mods' i) = mset (deps_of mods i) \<and> deps_sorted mods' i)
     \<and> (\<forall>(i, j) \<in> dep_edges mods. dm_dep_sort_idx (mods' ! i) < dm_dep_sort_idx (mods' ! j))
     \<and> (\<lambda>i. dm_dep_sort_idx (mods' ! i)) ` {..<length mods} = int ` {..<length mods}"

lemma topo_result:
  assumes wf: "wf_mods mods"
  obtains st order where "Option.bind (topo_start mods) topo_loop = Some st" "topo_inv mods st order [] []"
    "length order = unat (tp_n_sorted st)" "unat (tp_n_sorted st) < length mods \<longleftrightarrow> \<not> acyclic (dep_edges mods)"
proof -
  obtain st0 roots where st0: "topo_start mods = Some st0" "topo_inv mods st0 [] roots []"
    using topo_start_inv [OF wf] by blast
  obtain st order where st: "topo_loop st0 = Some st" "topo_inv mods st order [] []"
    using topo_loop_inv [OF wf st0(2)] by blast
  have len: "length order = unat (tp_n_sorted st)" using st(2) shape_lengths(1) unfolding topo_inv_def by blast
  have d: "distinct order" "set order \<subseteq> {..<length mods}" using st(2) by (auto simp: topo_inv_def)
  then have le: "length order \<le> length mods" using card_mono [of "{..<length mods}" "set order"] distinct_card [of order] by simp
  have "unat (tp_n_sorted st) < length mods \<longleftrightarrow> \<not> acyclic (dep_edges mods)"
  proof
    assume lt: "unat (tp_n_sorted st) < length mods"
    show "\<not> acyclic (dep_edges mods)"
    proof
      assume "acyclic (dep_edges mods)"
      then have "set order = {..<length mods}" by (rule topo_complete [OF wf st(2)])
      then show False using lt len distinct_card [OF d(1)] by simp
    qed
  next
    assume "\<not> acyclic (dep_edges mods)"
    then have "length order \<noteq> length mods" using topo_numbers(1)[OF wf st(2)] by blast
    then show "unat (tp_n_sorted st) < length mods" using le len by simp
  qed
  then show ?thesis using that st0(1) st len by simp
qed

lemma calculate_spec:
  assumes wf: "wf_mods mods" and q: "qsort_spec qsort"
  shows "acyclic (dep_edges mods) \<Longrightarrow> \<exists>mods'. depmod_calculate_dependencies fuel (\<lambda>_. True) qsort mods = Some (Some (Inr (), mods', []))
      \<and> topo_ready mods mods' \<and> (\<forall>i < length mods. dm_modname (mods' ! i) = dm_modname (mods ! i) \<and> dm_path (mods' ! i) = dm_path (mods ! i)
          \<and> dm_relpath (mods' ! i) = dm_relpath (mods ! i) \<and> dm_idx (mods' ! i) = dm_idx (mods ! i))"
    and "\<not> acyclic (dep_edges mods) \<Longrightarrow> depmod_calculate_dependencies fuel (\<lambda>_. True) qsort mods = Some (Some r) \<Longrightarrow> fst r = Inl EINVAL"
proof -
  let ?n = "length mods"
  obtain st order where T: "Option.bind (topo_start mods) topo_loop = Some st" "topo_inv mods st order [] []"
    "length order = unat (tp_n_sorted st)" "unat (tp_n_sorted st) < ?n \<longleftrightarrow> \<not> acyclic (dep_edges mods)"
    by (rule topo_result [OF wf])
  have n: "?n < 65535" using wf by (simp add: wf_mods_def)
  obtain st0 where st0: "topo_start mods = Some st0" "topo_loop st0 = Some st" using T(1) by (auto simp: bind_eq_Some_conv)
  show "fst r = Inl EINVAL" if "\<not> acyclic (dep_edges mods)"
    "depmod_calculate_dependencies fuel (\<lambda>_. True) qsort mods = Some (Some r)"
    using that T(4) st0 n by (auto simp: depmod_calculate_dependencies_def split: option.splits)
  assume ac: "acyclic (dep_edges mods)"
  have all: "length order = ?n"
  proof -
    have "set order = {..<?n}" using topo_complete [OF wf T(2) ac] .
    moreover have "distinct order" using T(2) by (simp add: topo_inv_def)
    ultimately show ?thesis using distinct_card by fastforce
  qed
  note N = topo_numbers [OF wf T(2) all]
  have G: "length (tp_mods st) = ?n" "\<And>i. i < ?n \<Longrightarrow> deps_of (tp_mods st) i = deps_of mods i \<and> dm_deps (tp_mods st ! i) = dm_deps (mods ! i)"
    using T(2) by (auto simp: topo_inv_def same_graph_def deps_of_def)
  obtain mods' where M: "depmod_sort_dependencies qsort (tp_mods st) = Some mods'" "reordered (tp_mods st) mods'"
    "\<forall>i < ?n. deps_sorted mods' i"
    using sort_dependencies_spec [OF q, of "tp_mods st"] G wf by (auto simp: wf_mods_def)
  have idx: "dm_dep_sort_idx (mods' ! i) = dm_dep_sort_idx (tp_mods st ! i)" if "i < ?n" for i
    using sort_idx_reordered [OF M(2)] G(1) that by simp
  have "topo_ready mods mods'" unfolding topo_ready_def
  proof (intro conjI)
    show "\<forall>i < ?n. array_inv (dm_deps (mods' ! i)) \<and> mset (deps_of mods' i) = mset (deps_of mods i) \<and> deps_sorted mods' i"
      using M(2,3) G by (auto simp: reordered_def)
    have "i < ?n \<and> j < ?n" if "(i, j) \<in> dep_edges mods" for i j
      using that wf by (auto simp: dep_edges_def wf_mods_def)
    then show "\<forall>(i, j) \<in> dep_edges mods. dm_dep_sort_idx (mods' ! i) < dm_dep_sort_idx (mods' ! j)"
      using N(2) idx by fastforce
    show "(\<lambda>i. dm_dep_sort_idx (mods' ! i)) ` {..<?n} = int ` {..<?n}"
      unfolding N(3)[symmetric] using idx by (intro image_cong) auto
  qed (use M(2) G(1) in \<open>simp add: reordered_def\<close>)
  moreover have "depmod_calculate_dependencies fuel (\<lambda>_. True) qsort mods = Some (Some (Inr (), mods', []))"
    using n st0 T(3) all M(1) by (simp add: depmod_calculate_dependencies_def)
  moreover have "dm_modname (mods' ! i) = dm_modname (mods ! i) \<and> dm_path (mods' ! i) = dm_path (mods ! i)
      \<and> dm_relpath (mods' ! i) = dm_relpath (mods ! i) \<and> dm_idx (mods' ! i) = dm_idx (mods ! i)" if i: "i < ?n" for i
  proof -
    obtain d where "mods' ! i = (tp_mods st ! i)\<lparr>dm_deps := d\<rparr>" using M(2) G(1) i by (auto simp: reordered_def)
    then show ?thesis using T(2) i by (simp add: topo_inv_def same_graph_def)
  qed
  ultimately show "\<exists>mods'. depmod_calculate_dependencies fuel (\<lambda>_. True) qsort mods = Some (Some (Inr (), mods', [])) \<and> topo_ready mods mods'
      \<and> (\<forall>i < ?n. dm_modname (mods' ! i) = dm_modname (mods ! i) \<and> dm_path (mods' ! i) = dm_path (mods ! i)
          \<and> dm_relpath (mods' ! i) = dm_relpath (mods ! i) \<and> dm_idx (mods' ! i) = dm_idx (mods ! i))"
    by blast
qed

section \<open>Properties\<close>

lemma insort_qsort_spec: "qsort_spec (\<lambda>cmp xs. foldr (\<lambda>x ys. takeWhile (\<lambda>y. cmp y x < 0) ys @ x # dropWhile (\<lambda>y. cmp y x < 0) ys) xs [])"
  (is "qsort_spec ?sort")
proof -
  have ins: "mset (takeWhile P ys @ x # dropWhile P ys) = mset (x # ys)" for P and x :: nat and ys
  proof -
    have "mset (takeWhile P ys) + mset (dropWhile P ys) = mset ys" by (simp flip: mset_append)
    then show ?thesis by (simp add: ac_simps)
  qed
  have srt: "sorted (map key (takeWhile (\<lambda>y. key y - key x < 0) ys @ x # dropWhile (\<lambda>y. key y - key x < 0) ys))"
    if "sorted (map key ys)" for key :: "nat \<Rightarrow> int" and x ys
    using that by (induction ys) (auto dest: set_takeWhileD set_dropWhileD)
  have "mset (?sort (\<lambda>a b. key a - key b) xs) = mset xs \<and> sorted (map key (?sort (\<lambda>a b. key a - key b) xs))" for key :: "nat \<Rightarrow> int" and xs
  proof (induction xs)
    case (Cons x xs)
    then show ?case using ins srt by simp
  qed simp
  then show ?thesis by (simp add: qsort_spec_def)
qed

text \<open>
  C5. The dependency calculation succeeds exactly on acyclic graphs, and then sorts topologically:
  for a well-formed module table without a dependency cycle it returns 0, without failing an
  assertion or touching memory outside its arrays, every module is numbered before the modules it
  depends on, the numbers are a permutation of \<open>0..n-1\<close>, and every dependency array keeps its
  elements and is sorted by the numbers. On a table with a cycle it never returns 0: if it returns,
  the result is \<open>-EINVAL\<close>.
\<close>

theorem calculate_dependencies_correct:
  assumes "wf_mods mods" and "qsort_spec qsort"
  shows "if acyclic (dep_edges mods)
    then \<exists>mods'. depmod_calculate_dependencies fuel (\<lambda>_. True) qsort mods = Some (Some (Inr (), mods', []))
      \<and> length mods' = length mods
      \<and> (\<forall>i < length mods. mset (deps_of mods' i) = mset (deps_of mods i)
           \<and> sorted (map (\<lambda>j. dm_dep_sort_idx (mods' ! j)) (deps_of mods' i)))
      \<and> (\<forall>(i, j) \<in> dep_edges mods. dm_dep_sort_idx (mods' ! i) < dm_dep_sort_idx (mods' ! j))
      \<and> (\<lambda>i. dm_dep_sort_idx (mods' ! i)) ` {..<length mods} = int ` {..<length mods}
    else \<forall>r. depmod_calculate_dependencies fuel (\<lambda>_. True) qsort mods = Some (Some r) \<longrightarrow> fst r = Inl EINVAL"
  using calculate_spec [OF assms, of fuel] by (auto simp: topo_ready_def deps_sorted_def)

definition chain_mods :: "dmod list" where
  "chain_mods = [example_mod ''ext4'' 0 [1, 2] 0, example_mod ''jbd2'' 1 [2] 1, example_mod ''crc'' 2 [] 2]"

lemma chain_mods_wf: "wf_mods chain_mods" "acyclic (dep_edges chain_mods)"
  "dep_edges chain_mods = {(0, 1), (0, 2), (1, 2)}"
proof -
  show "wf_mods chain_mods" by (simp add: wf_mods_check chain_mods_def table_simps)
  have n: "i < length chain_mods \<longleftrightarrow> i = 0 \<or> i = 1 \<or> i = 2" for i by (auto simp: chain_mods_def)
  have deps: "deps_of chain_mods 0 = [1, 2]" "deps_of chain_mods 1 = [2]" "deps_of chain_mods 2 = []"
    by (simp_all add: chain_mods_def table_simps)
  show e: "dep_edges chain_mods = {(0, 1), (0, 2), (1, 2)}" unfolding dep_edges_def n using deps by auto
  have "dep_edges chain_mods \<subseteq> {(i, j). i < j}" unfolding e by auto
  then show "acyclic (dep_edges chain_mods)"
    using acyclic_subset wf_acyclic [OF wf_less] by (auto simp: case_prod_unfold)
qed

theorem calculate_dependencies_correct_witness:
  "\<exists>qsort mods'. depmod_calculate_dependencies 0 (\<lambda>_. True) qsort chain_mods = Some (Some (Inr (), mods', []))
    \<and> dm_dep_sort_idx (mods' ! 0) < dm_dep_sort_idx (mods' ! 1) \<and> dm_dep_sort_idx (mods' ! 1) < dm_dep_sort_idx (mods' ! 2)"
  using calculate_dependencies_correct [OF chain_mods_wf(1) insort_qsort_spec, of 0] chain_mods_wf(2,3) by fastforce

end
