(* ===== verification/Kmod_Report.thy ===== *)
theory Kmod_Report
  imports Kmod_Cycles
begin

text \<open>
  What depmod's report of dependency cycles does (\<open>depmod_report_cycles_from_root\<close> of
  \<open>tools/depmod.c\<close>, defined in \<open>Kmod_Cycles\<close>). The search from a root follows all walks along the
  dependencies and marks only the root: it reports exactly the cycles through the root, ends if every cycle
  it can reach passes through the root, and never completes otherwise.
\<close>

section \<open>Steps of the search\<close>

text \<open>
  \<open>marked\<close>: tables that differ in the visited marks only. A vertex on the stack stands for the walk
  from the root to its module along dependency edges.
\<close>

definition marked :: "dmod list \<Rightarrow> dmod list \<Rightarrow> bool" where
  "marked mods mods' \<longleftrightarrow> length mods' = length mods
     \<and> (\<forall>i < length mods. dm_deps (mods' ! i) = dm_deps (mods ! i) \<and> dm_modname (mods' ! i) = dm_modname (mods ! i))"

definition dep_walk :: "dmod list \<Rightarrow> nat list \<Rightarrow> bool" where
  "dep_walk mods c \<longleftrightarrow> set c \<subseteq> {..<length mods} \<and> successively (\<lambda>i j. j \<in> set (deps_of mods i)) c"

definition vertex_walk :: "vertex \<Rightarrow> nat list" where
  "vertex_walk v = rev (v_chain v)"

definition cycle_message :: "dmod list \<Rightarrow> nat list \<Rightarrow> string" where
  "cycle_message mods c = ''Cycle detected: '' @ cycle_text mods (butlast c) (last c)"

lemma vertex_walk_simps [simp]:
  "vertex_walk (Vertex None m) = [m]" "vertex_walk (Vertex (Some v) m) = vertex_walk v @ [m]"
  "vertex_walk v \<noteq> []" "last (vertex_walk v) = v_mod v"
  by (simp_all add: vertex_walk_def) (cases v; simp add: vertex_walk_def last_rev)+

lemma vertex_parents: "rev (case v_parent v of None \<Rightarrow> [] | Some u \<Rightarrow> v_chain u) = butlast (vertex_walk v)"
  by (cases v) (auto simp: vertex_walk_def split: option.split)

lemma marked_refl: "marked mods mods"
  by (simp add: marked_def)

lemma marked_visit: "marked mods0 mods \<Longrightarrow> marked mods0 (mods[m := (mods ! m)\<lparr>dm_visited := True\<rparr>])"
  by (cases "m < length mods") (auto simp: marked_def nth_list_update)

lemma marked_deps: "marked mods mods' \<Longrightarrow> i < length mods \<Longrightarrow> array_list (dm_deps (mods' ! i)) = deps_of mods i"
  by (simp add: marked_def deps_of_def)

lemma cycle_text_marked:
  "marked mods mods' \<Longrightarrow> set (m # ms) \<subseteq> {..<length mods} \<Longrightarrow> cycle_text mods' ms m = cycle_text mods ms m"
  by (auto simp: cycle_text_def marked_def subset_iff intro!: arg_cong [where f = concat] map_cong)

lemma hash_add_error: "hash_add alloc h k v = Some (Inl e, h', fr) \<Longrightarrow> e = ENOMEM"
proof -
  assume H: "hash_add alloc h k v = Some (Inl e, h', fr)"
  then obtain g where g: "bucket_grow alloc (h_step h) (h_buckets h ! hash_pos h k) = Some g"
    by (auto simp: hash_add_def Let_def bind_eq_Some_conv split: if_splits)
  have "g = Inl e"
  proof (cases g)
    case (Inr b)
    then obtain sc where "bucket_scan k 0 (unat (hb_used b)) (hb_entries b) = Some sc"
      using H g by (auto simp: hash_add_def Let_def bind_eq_Some_conv split: if_splits)
    then show ?thesis using H g Inr by (cases sc) (auto simp: hash_add_def Let_def bind_eq_Some_conv split: if_splits)
  qed (use H g in \<open>auto simp: hash_add_def Let_def split: if_splits\<close>)
  then show "e = ENOMEM" using g by (auto simp: bucket_grow_def Let_def split: if_splits)
qed

lemma collect_cycle_result:
  "collect_cycle alloc mods ms a h = Some (r, a', h') \<Longrightarrow> array_inv a \<Longrightarrow>
     (case r of Inl e \<Rightarrow> e = ENOMEM | Inr _ \<Rightarrow> array_list a' = array_list a @ ms)"
proof (induction alloc mods ms a h rule: collect_cycle.induct)
  case (2 alloc mods m ms a h)
  show ?case using array_append_cases [OF "2.prems"(2), of alloc m]
  proof (elim disjE exE conjE)
    assume "array_append alloc a m = Some (Inl ENOMEM, a)"
    then show ?thesis using "2.prems"(1) by auto
  next
    fix a1 assume A: "array_append alloc a m = Some (Inr (sint (ucast (arr_count a) :: 32 word)), a1)" "array_inv a1"
      "array_list a1 = array_list a @ [m]"
    obtain r2 h1 fr where H: "hash_add alloc h (dm_modname (mods ! m)) None = Some (r2, h1, fr)"
      using "2.prems"(1) A by (cases "hash_add alloc h (dm_modname (mods ! m)) None") auto
    show ?thesis
    proof (cases r2)
      case (Inl e)
      then show ?thesis using "2.prems"(1) A H hash_add_error by auto
    next
      case (Inr u)
      then show ?thesis using "2.prems"(1) A H "2.IH" [OF A(1) refl refl H refl refl Inr _ A(2)] by (auto split: sum.splits)
    qed
  qed
qed (auto)

text \<open>One report: the message is that of the walk of the vertex.\<close>

lemma report_one_cycle_result:
  assumes "depmod_report_one_cycle alloc v st = Some (rc, st')"
    and "marked mods (cy_mods st)" and "set (vertex_walk v) \<subseteq> {..<length mods}"
  shows "cy_mods st' = cy_mods st \<and> cy_stack st' = cy_stack st \<and> (case rc of
      Inl e \<Rightarrow> e = ENOMEM \<and> cy_msgs st' = cy_msgs st
    | Inr _ \<Rightarrow> cy_msgs st' = cy_msgs st @ [cycle_message mods (vertex_walk v)])"
proof -
  let ?parents = "case v_parent v of None \<Rightarrow> [] | Some u \<Rightarrow> v_chain u"
  obtain a0 where a0: "array_init 3 = Some (a0 :: nat array)" by (simp add: array_init_def)
  obtain r a1 h1 where C: "collect_cycle alloc (cy_mods st) ?parents a0 (cy_loop_set st) = Some (r, a1, h1)"
    using assms(1) a0 by (cases "collect_cycle alloc (cy_mods st) ?parents a0 (cy_loop_set st)")
      (auto simp: depmod_report_one_cycle_def Let_def)
  have R: "case r of Inl e \<Rightarrow> e = ENOMEM | Inr _ \<Rightarrow> array_list a1 = ?parents"
    using collect_cycle_result [OF C] array_init_inv [OF a0] by (cases r) auto
  have "v_mod v \<in> set (vertex_walk v)" by (metis last_in_set vertex_walk_simps(3,4))
  then have "set (v_mod v # butlast (vertex_walk v)) \<subseteq> {..<length mods}" using assms(3) in_set_butlastD by fastforce
  note tm = cycle_text_marked [OF assms(2) this]
  show ?thesis
  proof (cases r)
    case (Inl e)
    then show ?thesis using assms(1) a0 C R by (auto simp: depmod_report_one_cycle_def Let_def)
  next
    case (Inr u)
    then show ?thesis using assms(1) a0 C R tm vertex_parents [of v]
      by (auto simp: depmod_report_one_cycle_def Let_def cycle_message_def split: if_splits)
  qed
qed

lemma push_vertices_result:
  "push_vertices alloc n v ds stack = Some (ok, stack') \<Longrightarrow> ok \<Longrightarrow> stack' = rev (map (Vertex (Some v)) ds) @ stack"
  by (induction alloc n v ds stack rule: push_vertices.induct) (auto split: if_splits)

text \<open>A step pops a vertex and either reports its walk or pushes a vertex for every dependency.\<close>

lemma report_step_result:
  assumes "report_step alloc root n st = Some p" and "cy_stack st = v # stack"
    and "marked mods (cy_mods st)" and "set (vertex_walk v) \<subseteq> {..<length mods}"
  shows "if dm_visited (cy_mods st ! v_mod v) \<and> v_mod v = root
    then \<exists>(rc :: unit result) st'. p = (case rc of Inl e \<Rightarrow> Finish (Inl e) st' | Inr _ \<Rightarrow> Continue st')
      \<and> cy_mods st' = cy_mods st \<and> cy_stack st' = stack \<and> (case rc of
          Inl e \<Rightarrow> e = ENOMEM \<and> cy_msgs st' = cy_msgs st
        | Inr _ \<Rightarrow> cy_msgs st' = cy_msgs st @ [cycle_message mods (vertex_walk v)])
    else \<exists>ok st'. p = (if ok then Continue st' else Finish (Inl ENOMEM) st')
      \<and> cy_mods st' = (cy_mods st)[v_mod v := (cy_mods st ! v_mod v)\<lparr>dm_visited := True\<rparr>] \<and> cy_msgs st' = cy_msgs st
      \<and> (ok \<longrightarrow> cy_stack st' = rev (map (Vertex (Some v)) (deps_of mods (v_mod v))) @ stack)"
proof -
  let ?m = "v_mod v" and ?st = "st\<lparr>cy_stack := stack\<rparr>"
  have "?m \<in> set (vertex_walk v)" by (metis last_in_set vertex_walk_simps(3,4))
  then have m: "?m < length mods" using assms(4) by auto
  have len: "length (cy_mods st) = length mods" using assms(3) by (simp add: marked_def)
  show ?thesis
  proof (cases "dm_visited (cy_mods st ! ?m) \<and> ?m = root")
    case True
    then obtain rc st' where R: "depmod_report_one_cycle alloc v ?st = Some (rc, st')"
      and p: "p = (case rc of Inl err \<Rightarrow> Finish (Inl err) st' | Inr _ \<Rightarrow> Continue st')"
      using assms(1,2) m len by (auto simp: report_step_def bind_eq_Some_conv)
    have "cy_mods st' = cy_mods st \<and> cy_stack st' = stack \<and> (case rc of Inl e \<Rightarrow> e = ENOMEM \<and> cy_msgs st' = cy_msgs st
        | Inr _ \<Rightarrow> cy_msgs st' = cy_msgs st @ [cycle_message mods (vertex_walk v)])"
      using report_one_cycle_result [OF R, of mods] assms(3,4) by (cases rc) simp_all
    then show ?thesis unfolding if_P [OF True] using p by blast
  next
    case False
    let ?mods = "(cy_mods st)[?m := (cy_mods st ! ?m)\<lparr>dm_visited := True\<rparr>]"
    have deps: "array_list (dm_deps (cy_mods st ! ?m)) = deps_of mods ?m" using marked_deps [OF assms(3) m] .
    show ?thesis
    proof (cases "arr_count (dm_deps (cy_mods st ! ?m)) = 0")
      case none: True
      then have "deps_of mods ?m = []" unfolding deps [symmetric] by (simp add: array_list_def live_def)
      moreover have "p = Continue (?st\<lparr>cy_mods := ?mods, cy_roots := depmod_list_remove_data (cy_roots st) ?m\<rparr>)"
        using assms(1) False none m len by (simp add: report_step_def assms(2) Let_def)
      ultimately show ?thesis unfolding if_not_P [OF False]
        by (intro exI [of _ True] exI [of _ "?st\<lparr>cy_mods := ?mods, cy_roots := depmod_list_remove_data (cy_roots st) ?m\<rparr>"]) simp
    next
      case some: False
      obtain ok stack' where P: "push_vertices alloc n v (deps_of mods ?m) stack = Some (ok, stack')"
        "p = (if ok then Continue (?st\<lparr>cy_mods := ?mods, cy_stack := stack'\<rparr>)
              else Finish (Inl ENOMEM) (?st\<lparr>cy_mods := ?mods, cy_stack := stack'\<rparr>))"
        using False some assms(1,2) m len deps by (auto simp: report_step_def Let_def bind_eq_Some_conv)
      then show ?thesis using False push_vertices_result [OF P(1)] by auto
    qed
  qed
qed

section \<open>The cycles through a root\<close>

text \<open>
  \<open>root_cycle\<close>: a closed walk that comes back to the root at its end and not before. \<open>open_walk\<close> is what the
  vertices on the stack stand for after the first step.
\<close>

definition root_cycle :: "dmod list \<Rightarrow> nat \<Rightarrow> nat list \<Rightarrow> bool" where
  "root_cycle mods root c \<longleftrightarrow> dep_walk mods c \<and> 2 \<le> length c \<and> hd c = root \<and> last c = root \<and> root \<notin> set (tl (butlast c))"

definition open_walk :: "dmod list \<Rightarrow> nat \<Rightarrow> nat list \<Rightarrow> bool" where
  "open_walk mods root c \<longleftrightarrow> dep_walk mods c \<and> 2 \<le> length c \<and> hd c = root \<and> root \<notin> set (tl (butlast c))"

text \<open>
  The search on the way: the messages are those of before and of cycles through the root, and every
  such cycle is reported or continues the walk of a vertex on the stack.
\<close>

definition search_inv :: "dmod list \<Rightarrow> nat \<Rightarrow> string set \<Rightarrow> cyc \<Rightarrow> bool" where
  "search_inv mods root old st \<longleftrightarrow> marked mods (cy_mods st) \<and> dm_visited (cy_mods st ! root)
     \<and> (\<forall>v \<in> set (cy_stack st). open_walk mods root (vertex_walk v))
     \<and> old \<subseteq> set (cy_msgs st) \<and> set (cy_msgs st) \<subseteq> old \<union> cycle_message mods ` {c. root_cycle mods root c}
     \<and> (\<forall>c. root_cycle mods root c \<longrightarrow> cycle_message mods c \<in> set (cy_msgs st)
           \<or> (\<exists>v \<in> set (cy_stack st). \<exists>us. c = vertex_walk v @ us))"

lemma dep_walk_snoc:
  assumes "wf_mods mods" and "dep_walk mods c" and "c \<noteq> []" and "d \<in> set (deps_of mods (last c))"
  shows "dep_walk mods (c @ [d])"
proof -
  have "last c < length mods" using assms(2,3) by (auto simp: dep_walk_def subset_iff)
  then have "d < length mods" using assms(1,4) by (auto simp: wf_mods_def)
  then show ?thesis using assms by (auto simp: dep_walk_def successively_append_iff)
qed

lemma open_walk_snoc:
  assumes "wf_mods mods" and "open_walk mods root c" and "last c \<noteq> root" and "d \<in> set (deps_of mods (last c))"
  shows "open_walk mods root (c @ [d])"
proof -
  have ne: "c \<noteq> []" "tl c \<noteq> []" using assms(2) by (cases c; auto simp: open_walk_def)+
  have "tl c = tl (butlast c) @ [last c]" using ne by (cases c) auto
  then have "root \<notin> set (tl c)" using assms(2,3) by (simp add: open_walk_def)
  then show ?thesis using assms ne dep_walk_snoc [of mods c d] by (simp add: open_walk_def)
qed

text \<open>A cycle through the root that continues a walk ends with it at the root, and goes on from another module.\<close>

lemma root_cycle_closed:
  assumes "root_cycle mods root (c @ us)" and "open_walk mods root c" and "last c = root"
  shows "us = []"
proof (rule ccontr)
  assume us: "us \<noteq> []"
  have c: "c \<noteq> []" "tl c \<noteq> []" using assms(2) by (cases c; auto simp: open_walk_def)+
  have "last c \<in> set (tl (butlast (c @ us)))" using us c by (cases c) (auto simp: butlast_append)
  then show False using assms(1,3) by (simp add: root_cycle_def)
qed

lemma root_cycle_goes_on:
  assumes "root_cycle mods root (c @ us)" and "c \<noteq> []" and "last c \<noteq> root \<or> length c = 1"
  obtains d vs where "us = d # vs" and "d \<in> set (deps_of mods (last c))"
proof (cases us)
  case Nil
  then show ?thesis using assms by (auto simp: root_cycle_def)
next
  case (Cons d vs)
  then show ?thesis using assms(1,2) by (intro that) (auto simp: root_cycle_def dep_walk_def successively_append_iff)
qed

lemma search_inv_step:
  assumes wf: "wf_mods mods" and inv: "search_inv mods root old st" and run: "report_step alloc root n st = Some (Continue st')"
  shows "search_inv mods root old st'"
proof (cases "cy_stack st")
  case (Cons v stack)
  let ?w = "vertex_walk v"
  have ow: "open_walk mods root ?w" and mk: "marked mods (cy_mods st)" and rv: "dm_visited (cy_mods st ! root)"
    using inv Cons by (auto simp: search_inv_def)
  have w: "set ?w \<subseteq> {..<length mods}" using ow by (simp add: open_walk_def dep_walk_def)
  note S = report_step_result [OF run Cons mk w]
  show ?thesis
  proof (cases "v_mod v = root")
    case True
    then have S': "cy_mods st' = cy_mods st" "cy_stack st' = stack" "cy_msgs st' = cy_msgs st @ [cycle_message mods ?w]"
    proof -
      have vis: "dm_visited (cy_mods st ! v_mod v) \<and> v_mod v = root" using True rv by simp
      obtain rc :: "unit result" and s1 where R: "Continue st' = (case rc of Inl e \<Rightarrow> Finish (Inl e) s1 | Inr _ \<Rightarrow> Continue s1)"
        "cy_mods s1 = cy_mods st \<and> cy_stack s1 = stack \<and> (case rc of Inl e \<Rightarrow> e = ENOMEM \<and> cy_msgs s1 = cy_msgs st
          | Inr _ \<Rightarrow> cy_msgs s1 = cy_msgs st @ [cycle_message mods ?w])"
        using S unfolding if_P [OF vis] by blast
      show "cy_mods st' = cy_mods st" "cy_stack st' = stack" "cy_msgs st' = cy_msgs st @ [cycle_message mods ?w]"
        using R by (cases rc; simp)+
    qed
    have closed: "root_cycle mods root ?w" using ow True by (simp add: open_walk_def root_cycle_def)
    have "cycle_message mods c \<in> set (cy_msgs st') \<or> (\<exists>u \<in> set stack. \<exists>us. c = vertex_walk u @ us)" if c: "root_cycle mods root c" for c
    proof -
      have "us = []" if "c = ?w @ us" for us using root_cycle_closed [OF _ ow] c that True by auto
      then show ?thesis using inv c Cons S'(3) unfolding search_inv_def by auto
    qed
    then show ?thesis using inv S' closed Cons unfolding search_inv_def by auto
  next
    case False
    let ?kids = "rev (map (Vertex (Some v)) (deps_of mods (v_mod v)))"
    have S': "cy_mods st' = (cy_mods st)[v_mod v := (cy_mods st ! v_mod v)\<lparr>dm_visited := True\<rparr>]" "cy_msgs st' = cy_msgs st"
      "cy_stack st' = ?kids @ stack" using S False by (auto split: if_splits)
    have mk': "marked mods (cy_mods st')" using marked_visit [OF mk] S'(1) by simp
    have rv': "dm_visited (cy_mods st' ! root)" using rv S'(1) False by simp
    have kids: "\<forall>u \<in> set ?kids. open_walk mods root (vertex_walk u)" using open_walk_snoc [OF wf ow] False by auto
    have "\<exists>u \<in> set ?kids. \<exists>vs. c = vertex_walk u @ vs" if c: "root_cycle mods root c" "c = ?w @ us" for c us
    proof -
      obtain d vs where "us = d # vs" "d \<in> set (deps_of mods (last ?w))"
        using c False by (auto elim: root_cycle_goes_on [of mods root ?w us])
      then show ?thesis using c(2) by (intro bexI [of _ "Vertex (Some v) d"]) auto
    qed
    then have "\<forall>c. root_cycle mods root c \<longrightarrow> cycle_message mods c \<in> set (cy_msgs st')
        \<or> (\<exists>u \<in> set (cy_stack st'). \<exists>us. c = vertex_walk u @ us)"
      using inv Cons S'(2,3) unfolding search_inv_def by (metis Un_iff list.set_intros(2) set_ConsD set_append)
    then show ?thesis using inv Cons S' mk' rv' kids unfolding search_inv_def by auto
  qed
qed (use run in \<open>auto simp: report_step_def\<close>)

text \<open>The first step marks the root and pushes its dependencies.\<close>

lemma search_inv_start:
  assumes wf: "wf_mods (cy_mods st)" and root: "root < length (cy_mods st)" "\<not> dm_visited (cy_mods st ! root)"
    and run: "report_step alloc root n (st\<lparr>cy_stack := [Vertex None root]\<rparr>) = Some (Continue st')"
  shows "search_inv (cy_mods st) root (set (cy_msgs st)) st'"
proof -
  let ?mods = "cy_mods st" and ?kids = "rev (map (Vertex (Some (Vertex None root))) (deps_of (cy_mods st) root))"
  have S: "cy_mods st' = ?mods[root := (?mods ! root)\<lparr>dm_visited := True\<rparr>]" "cy_msgs st' = cy_msgs st" "cy_stack st' = ?kids"
    using report_step_result [OF run, of "Vertex None root" "[]" ?mods] root marked_refl by (auto split: if_splits)
  have "open_walk ?mods root (vertex_walk u)" if "u \<in> set ?kids" for u
    using that root(1) dep_walk_snoc [OF wf, of "[root]"] by (auto simp: open_walk_def dep_walk_def)
  moreover have "\<exists>u \<in> set ?kids. \<exists>us. c = vertex_walk u @ us" if c: "root_cycle ?mods root c" for c
  proof -
    have eq: "c = [root] @ tl c" using c by (cases c) (auto simp: root_cycle_def)
    then have "root_cycle ?mods root ([root] @ tl c)" using c by simp
    then obtain d vs where "tl c = d # vs" "d \<in> set (deps_of ?mods (last [root]))"
      by (rule root_cycle_goes_on) simp_all
    then show ?thesis using eq by (intro bexI [of _ "Vertex (Some (Vertex None root)) d"]) auto
  qed
  ultimately show ?thesis unfolding search_inv_def using S root(1) marked_visit [OF marked_refl] by auto
qed

lemma report_run_keeps:
  assumes step: "\<And>st st'. P st \<Longrightarrow> report_step alloc root n st = Some (Continue st') \<Longrightarrow> P st'"
    and "P st" and "report_run fuel alloc root n st = Some p"
  shows "\<exists>s. P s \<and> (p = Continue s \<or> (\<exists>r s'. p = Finish r s' \<and> report_step alloc root n s = Some (Finish r s')))"
  using assms(2,3)
proof (induction fuel arbitrary: st)
  case (Suc fuel)
  obtain q where q: "report_step alloc root n st = Some q" "(case q of Continue st \<Rightarrow> report_run fuel alloc root n st | Finish r st \<Rightarrow> Some q) = Some p"
    using Suc.prems(2) by (auto simp: bind_eq_Some_conv)
  show ?case
  proof (cases q)
    case (Continue s)
    then show ?thesis using Suc.IH [of s] step [OF Suc.prems(1)] q by simp
  next
    case (Finish r s)
    then show ?thesis using Suc.prems(1) q by auto
  qed
qed auto

lemma report_step_finish:
  assumes "report_step alloc root n st = Some (Finish r st')" and "marked mods (cy_mods st)"
    and "\<forall>v \<in> set (cy_stack st). set (vertex_walk v) \<subseteq> {..<length mods}"
  shows "cy_msgs st' = cy_msgs st \<and> (r = Inr () \<and> cy_stack st = [] \<or> r = Inl ENOMEM \<and> cy_stack st \<noteq> [])"
proof (cases "cy_stack st")
  case Nil
  then show ?thesis using assms(1) by (auto simp: report_step_def)
next
  case (Cons v stack)
  have w: "set (vertex_walk v) \<subseteq> {..<length mods}" using assms(3) Cons by simp
  note S = report_step_result [OF assms(1) Cons assms(2) w]
  show ?thesis
  proof (cases "dm_visited (cy_mods st ! v_mod v) \<and> v_mod v = root")
    case True
    then obtain rc :: "unit result" and s1 where "Finish r st' = (case rc of Inl e \<Rightarrow> Finish (Inl e) s1 | Inr _ \<Rightarrow> Continue s1)"
      "case rc of Inl e \<Rightarrow> e = ENOMEM \<and> cy_msgs s1 = cy_msgs st | Inr _ \<Rightarrow> cy_msgs s1 = cy_msgs st @ [cycle_message mods (vertex_walk v)]"
      using S unfolding if_P [OF True] by blast
    then show ?thesis using Cons by (cases rc) auto
  next
    case False
    then show ?thesis using S Cons unfolding if_not_P [OF False] by (auto split: if_splits)
  qed
qed

definition after :: "cyc progress \<Rightarrow> cyc" where
  "after p = (case p of Continue st \<Rightarrow> st | Finish r st \<Rightarrow> st)"

lemma search_result:
  assumes wf: "wf_mods (cy_mods st)" and root: "root < length (cy_mods st)" "\<not> dm_visited (cy_mods st ! root)"
    and run: "depmod_report_cycles_from_root fuel alloc root n st = Some p"
  defines "new \<equiv> cycle_message (cy_mods st) ` {c. root_cycle (cy_mods st) root c}"
  shows "set (cy_msgs st) \<subseteq> set (cy_msgs (after p)) \<and> set (cy_msgs (after p)) \<subseteq> set (cy_msgs st) \<union> new
    \<and> (\<forall>r st'. p = Finish r st' \<longrightarrow> r = Inr () \<and> set (cy_msgs st') = set (cy_msgs st) \<union> new \<or> r = Inl ENOMEM)"
proof (cases "alloc 16 \<and> alloc 24 \<and> fuel \<noteq> 0")
  case False
  then show ?thesis using run by (auto simp: depmod_report_cycles_from_root_def after_def split: if_splits)
next
  case True
  let ?mods = "cy_mods st" and ?old = "set (cy_msgs st)" and ?st = "st\<lparr>cy_stack := [Vertex None root]\<rparr>"
  obtain f where f: "fuel = Suc f" using True by (cases fuel) auto
  have R: "report_run fuel alloc root n ?st = Some p"
    using run True by (auto simp: depmod_report_cycles_from_root_def split: if_splits)
  then obtain q where q: "report_step alloc root n ?st = Some q"
      "(case q of Continue st \<Rightarrow> report_run f alloc root n st | Finish r st \<Rightarrow> Some q) = Some p"
    by (auto simp: f bind_eq_Some_conv)
  show ?thesis
  proof (cases q)
    case (Finish r s)
    then have "cy_msgs s = cy_msgs st \<and> r = Inl ENOMEM"
      using report_step_finish [of alloc root n ?st r s ?mods] q(1) root(1) marked_refl by auto
    then show ?thesis using q(2) Finish by (auto simp: after_def)
  next
    case (Continue s)
    have I: "search_inv ?mods root ?old s" using search_inv_start [OF wf root] q(1) Continue by simp
    have Q: "report_run f alloc root n s = Some p" using q(2) Continue by simp
    obtain s1 where s1: "search_inv ?mods root ?old s1"
        "p = Continue s1 \<or> (\<exists>r s'. p = Finish r s' \<and> report_step alloc root n s1 = Some (Finish r s'))"
      using report_run_keeps [of "search_inv ?mods root ?old" alloc root n s f p] search_inv_step [OF wf] I Q by blast
    have fin: "cy_msgs s' = cy_msgs s1 \<and> (r = Inr () \<and> cy_stack s1 = [] \<or> r = Inl ENOMEM)"
      if "report_step alloc root n s1 = Some (Finish r s')" for r s'
      using report_step_finish [OF that, of ?mods] s1(1) by (auto simp: search_inv_def open_walk_def dep_walk_def)
    have "set (cy_msgs s1) = ?old \<union> new" if "cy_stack s1 = []"
      using s1(1) that unfolding search_inv_def new_def by auto
    moreover have "?old \<subseteq> set (cy_msgs s1)" "set (cy_msgs s1) \<subseteq> ?old \<union> new" using s1(1) by (auto simp: search_inv_def new_def)
    ultimately show ?thesis using s1(2) fin by (auto simp: after_def)
  qed
qed

section \<open>Cycles that avoid the root\<close>

text \<open>
  The edges to other modules than the root. If the search can reach a cycle of such edges, there is
  always a vertex on the stack from which it can go on.
\<close>

definition inner_edges :: "dmod list \<Rightarrow> nat \<Rightarrow> (nat \<times> nat) set" where
  "inner_edges mods root = {(i, j) \<in> dep_edges mods. j \<noteq> root}"

definition inner_cycle :: "dmod list \<Rightarrow> nat \<Rightarrow> nat \<Rightarrow> bool" where
  "inner_cycle mods root x \<longleftrightarrow> (root, x) \<in> (inner_edges mods root)\<^sup>+ \<and> (x, x) \<in> (inner_edges mods root)\<^sup>+"

lemma inner_edgesD: "(i, j) \<in> inner_edges mods root \<Longrightarrow> i < length mods \<and> j \<in> set (deps_of mods i) \<and> j \<noteq> root"
  by (auto simp: inner_edges_def dep_edges_def)

lemma inner_edgesI: "i < length mods \<Longrightarrow> j \<in> set (deps_of mods i) \<Longrightarrow> j \<noteq> root \<Longrightarrow> (i, j) \<in> inner_edges mods root"
  by (auto simp: inner_edges_def dep_edges_def)

lemma towards_cycle:
  assumes "(m, x) \<in> (inner_edges mods root)\<^sup>+" and "(x, x) \<in> (inner_edges mods root)\<^sup>+"
  shows "\<exists>d \<in> set (deps_of mods m). d \<noteq> root \<and> (d, x) \<in> (inner_edges mods root)\<^sup>+"
proof -
  obtain d where d: "(m, d) \<in> inner_edges mods root" "(d, x) \<in> (inner_edges mods root)\<^sup>*" using assms(1) by (meson tranclD)
  have "(d, x) \<in> (inner_edges mods root)\<^sup>+" using d(2) assms(2) by (metis rtranclD)
  then show ?thesis using inner_edgesD [OF d(1)] by blast
qed

text \<open>What every step keeps: the tables differ in marks only, the root is marked, and walks stay inside.\<close>

definition walks_inv :: "dmod list \<Rightarrow> nat \<Rightarrow> cyc \<Rightarrow> bool" where
  "walks_inv mods root st \<longleftrightarrow> marked mods (cy_mods st) \<and> dm_visited (cy_mods st ! root)
     \<and> (\<forall>v \<in> set (cy_stack st). set (vertex_walk v) \<subseteq> {..<length mods})"

lemma walks_inv_step:
  assumes wf: "wf_mods mods" and st: "marked mods (cy_mods st)" "cy_stack st = v # stack" "set (vertex_walk v) \<subseteq> {..<length mods}"
    and run: "report_step alloc root n st = Some (Continue st')"
  shows "marked mods (cy_mods st')" and "\<forall>i. dm_visited (cy_mods st ! i) \<longrightarrow> dm_visited (cy_mods st' ! i)"
    and "if dm_visited (cy_mods st ! v_mod v) \<and> v_mod v = root then cy_stack st' = stack
      else cy_stack st' = rev (map (Vertex (Some v)) (deps_of mods (v_mod v))) @ stack \<and> dm_visited (cy_mods st' ! v_mod v)"
    and "\<forall>d \<in> set (deps_of mods (v_mod v)). set (vertex_walk (Vertex (Some v) d)) \<subseteq> {..<length mods}"
proof -
  have "v_mod v \<in> set (vertex_walk v)" by (metis last_in_set vertex_walk_simps(3,4))
  then have m: "v_mod v < length mods" using st(3) by auto
  then show "\<forall>d \<in> set (deps_of mods (v_mod v)). set (vertex_walk (Vertex (Some v) d)) \<subseteq> {..<length mods}"
    using wf st(3) by (auto simp: wf_mods_def)
  have len: "length (cy_mods st) = length mods" using st(1) by (simp add: marked_def)
  note S = report_step_result [OF run st(2,1,3)]
  show "marked mods (cy_mods st')" "\<forall>i. dm_visited (cy_mods st ! i) \<longrightarrow> dm_visited (cy_mods st' ! i)"
    "if dm_visited (cy_mods st ! v_mod v) \<and> v_mod v = root then cy_stack st' = stack
      else cy_stack st' = rev (map (Vertex (Some v)) (deps_of mods (v_mod v))) @ stack \<and> dm_visited (cy_mods st' ! v_mod v)"
  proof (atomize (full), cases "dm_visited (cy_mods st ! v_mod v) \<and> v_mod v = root")
    case True
    then obtain rc :: "unit result" and s1 where R: "Continue st' = (case rc of Inl e \<Rightarrow> Finish (Inl e) s1 | Inr _ \<Rightarrow> Continue s1)"
      "cy_mods s1 = cy_mods st" "cy_stack s1 = stack"
      using S unfolding if_P [OF True] by blast
    then have "s1 = st'" by (cases rc) auto
    then show "marked mods (cy_mods st') \<and> (\<forall>i. dm_visited (cy_mods st ! i) \<longrightarrow> dm_visited (cy_mods st' ! i))
      \<and> (if dm_visited (cy_mods st ! v_mod v) \<and> v_mod v = root then cy_stack st' = stack
         else cy_stack st' = rev (map (Vertex (Some v)) (deps_of mods (v_mod v))) @ stack \<and> dm_visited (cy_mods st' ! v_mod v))"
      using R st(1) True by auto
  next
    case False
    then have R: "cy_mods st' = (cy_mods st)[v_mod v := (cy_mods st ! v_mod v)\<lparr>dm_visited := True\<rparr>]"
      "cy_stack st' = rev (map (Vertex (Some v)) (deps_of mods (v_mod v))) @ stack"
      using S unfolding if_not_P [OF False] by (auto split: if_splits)
    have "dm_visited (cy_mods st' ! i)" if "dm_visited (cy_mods st ! i)" for i
      using that R(1) m len by (cases "i = v_mod v") auto
    then show "marked mods (cy_mods st') \<and> (\<forall>i. dm_visited (cy_mods st ! i) \<longrightarrow> dm_visited (cy_mods st' ! i))
      \<and> (if dm_visited (cy_mods st ! v_mod v) \<and> v_mod v = root then cy_stack st' = stack
         else cy_stack st' = rev (map (Vertex (Some v)) (deps_of mods (v_mod v))) @ stack \<and> dm_visited (cy_mods st' ! v_mod v))"
      unfolding if_not_P [OF False] using R m len marked_visit [OF st(1)] by simp
  qed
qed

lemma walks_inv_keep:
  assumes wf: "wf_mods mods" and inv: "walks_inv mods root st" and run: "report_step alloc root n st = Some (Continue st')"
  shows "walks_inv mods root st'"
proof (cases "cy_stack st")
  case (Cons v stack)
  have st: "marked mods (cy_mods st)" "set (vertex_walk v) \<subseteq> {..<length mods}" using inv Cons by (auto simp: walks_inv_def)
  note S = walks_inv_step [OF wf st(1) Cons st(2) run]
  show ?thesis using S(1-4) inv Cons by (auto simp: walks_inv_def split: if_splits)
qed (use run in \<open>auto simp: report_step_def\<close>)

lemma walks_inv_start:
  assumes wf: "wf_mods (cy_mods st)" and root: "root < length (cy_mods st)" "\<not> dm_visited (cy_mods st ! root)"
    and run: "report_step alloc root n (st\<lparr>cy_stack := [Vertex None root]\<rparr>) = Some (Continue st')"
  shows "walks_inv (cy_mods st) root st'" and "cy_stack st' = rev (map (Vertex (Some (Vertex None root))) (deps_of (cy_mods st) root))"
  using walks_inv_step [OF wf _ _ _ run, of "Vertex None root" "[]"] root marked_refl by (auto simp: walks_inv_def)

text \<open>The search works on a walk towards the cycle.\<close>

definition busy_inv :: "dmod list \<Rightarrow> nat \<Rightarrow> nat \<Rightarrow> cyc \<Rightarrow> bool" where
  "busy_inv mods root x st \<longleftrightarrow> walks_inv mods root st
     \<and> (\<exists>v \<in> set (cy_stack st). v_mod v \<noteq> root \<and> (v_mod v, x) \<in> (inner_edges mods root)\<^sup>+)"

lemma busy_inv_keep:
  assumes wf: "wf_mods mods" and x: "(x, x) \<in> (inner_edges mods root)\<^sup>+" and inv: "busy_inv mods root x st"
    and run: "report_step alloc root n st = Some (Continue st')"
  shows "busy_inv mods root x st'"
proof -
  obtain u where u: "u \<in> set (cy_stack st)" "v_mod u \<noteq> root" "(v_mod u, x) \<in> (inner_edges mods root)\<^sup>+"
    using inv by (auto simp: busy_inv_def)
  then obtain v stack where Cons: "cy_stack st = v # stack" by (cases "cy_stack st") auto
  have st: "marked mods (cy_mods st)" "set (vertex_walk v) \<subseteq> {..<length mods}" using inv Cons by (auto simp: walks_inv_def busy_inv_def)
  note S = walks_inv_step(3) [OF wf st(1) Cons st(2) run]
  have "\<exists>w \<in> set (cy_stack st'). v_mod w \<noteq> root \<and> (v_mod w, x) \<in> (inner_edges mods root)\<^sup>+"
  proof (cases "u = v")
    case True
    then obtain d where "d \<in> set (deps_of mods (v_mod v))" "d \<noteq> root" "(d, x) \<in> (inner_edges mods root)\<^sup>+"
      using towards_cycle [OF u(3) x] by blast
    then show ?thesis using S u(2) True by (intro bexI [of _ "Vertex (Some v) d"]) auto
  next
    case False
    then have "u \<in> set (cy_stack st')" using S u(1) Cons by (auto split: if_splits)
    then show ?thesis using u by blast
  qed
  then show ?thesis using walks_inv_keep [OF wf _ run] inv by (simp add: busy_inv_def)
qed

lemma search_never_completes:
  assumes wf: "wf_mods (cy_mods st)" and root: "root < length (cy_mods st)" "\<not> dm_visited (cy_mods st ! root)"
    and x: "inner_cycle (cy_mods st) root x" and run: "depmod_report_cycles_from_root fuel alloc root n st = Some (Finish r st')"
  shows "r = Inl ENOMEM"
proof (cases "alloc 16 \<and> alloc 24 \<and> fuel \<noteq> 0")
  case False
  then show ?thesis using run by (auto simp: depmod_report_cycles_from_root_def split: if_splits)
next
  case True
  let ?mods = "cy_mods st" and ?st = "st\<lparr>cy_stack := [Vertex None root]\<rparr>"
  have xx: "(x, x) \<in> (inner_edges ?mods root)\<^sup>+" using x by (simp add: inner_cycle_def)
  obtain f where f: "fuel = Suc f" using True by (cases fuel) auto
  have "report_run fuel alloc root n ?st = Some (Finish r st')"
    using run True by (auto simp: depmod_report_cycles_from_root_def split: if_splits)
  then obtain q where q: "report_step alloc root n ?st = Some q"
      "(case q of Continue st \<Rightarrow> report_run f alloc root n st | Finish r st \<Rightarrow> Some q) = Some (Finish r st')"
    by (auto simp: f bind_eq_Some_conv)
  show ?thesis
  proof (cases q)
    case (Finish r' s)
    then show ?thesis using report_step_finish [of alloc root n ?st r' s ?mods] q root(1) marked_refl by auto
  next
    case (Continue s)
    obtain d where d: "d \<in> set (deps_of ?mods root)" "d \<noteq> root" "(d, x) \<in> (inner_edges ?mods root)\<^sup>+"
      using towards_cycle x unfolding inner_cycle_def by blast
    have "busy_inv ?mods root x s" unfolding busy_inv_def
      using walks_inv_start [OF wf root q(1) [unfolded Continue]] d by (auto intro!: bexI [of _ "Vertex (Some (Vertex None root)) d"])
    then obtain s1 where "busy_inv ?mods root x s1" "report_step alloc root n s1 = Some (Finish r st')"
      using report_run_keeps [of "busy_inv ?mods root x" alloc root n s f "Finish r st'"] busy_inv_keep [OF wf xx] q(2) Continue
      by (auto simp del: report_run.simps)
    then show ?thesis using report_step_finish [of alloc root n s1 r st' ?mods] by (auto simp: busy_inv_def walks_inv_def)
  qed
qed

section \<open>The search ends\<close>

text \<open>Otherwise a vertex is done after some steps: they leave the rest of the stack, or end the search.\<close>

definition stops :: "nat \<Rightarrow> (size_t \<Rightarrow> bool) \<Rightarrow> nat \<Rightarrow> nat \<Rightarrow> cyc \<Rightarrow> bool" where
  "stops k alloc root n st \<longleftrightarrow> (\<forall>st'. report_run k alloc root n st \<noteq> Some (Continue st'))"

definition pops :: "dmod list \<Rightarrow> (size_t \<Rightarrow> bool) \<Rightarrow> nat \<Rightarrow> nat \<Rightarrow> vertex list \<Rightarrow> cyc \<Rightarrow> bool" where
  "pops mods alloc root n rest st \<longleftrightarrow> (\<exists>k. stops k alloc root n st
     \<or> (\<exists>st'. report_run k alloc root n st = Some (Continue st') \<and> cy_stack st' = rest \<and> walks_inv mods root st'))"

lemma report_run_add:
  "report_run k alloc root n st = Some (Continue st') \<Longrightarrow> report_run (k + j) alloc root n st = report_run j alloc root n st'"
proof (induction k arbitrary: st)
  case (Suc k)
  obtain q where q: "report_step alloc root n st = Some q" using Suc.prems by (auto simp: bind_eq_Some_conv)
  then show ?case using Suc by (cases q) auto
qed simp

lemma stops_mono: "stops k alloc root n st \<Longrightarrow> stops (k + j) alloc root n st"
proof (induction k arbitrary: st)
  case (Suc k)
  show ?case
  proof (cases "report_step alloc root n st")
    case (Some q)
    then show ?thesis using Suc by (cases q) (auto simp: stops_def)
  qed (simp add: stops_def)
qed (simp add: stops_def)

lemma pops_step:
  assumes "\<And>st'. report_step alloc root n st = Some (Continue st') \<Longrightarrow> pops mods alloc root n rest st'"
  shows "pops mods alloc root n rest st"
proof (cases "\<exists>st'. report_step alloc root n st = Some (Continue st')")
  case True
  then obtain s k where s: "report_step alloc root n st = Some (Continue s)" and k: "stops k alloc root n s
      \<or> (\<exists>st'. report_run k alloc root n s = Some (Continue st') \<and> cy_stack st' = rest \<and> walks_inv mods root st')"
    using assms unfolding pops_def by blast
  then show ?thesis unfolding pops_def by (intro exI [of _ "Suc k"]) (auto simp: stops_def)
next
  case False
  then have "stops (Suc 0) alloc root n st"
    by (cases "report_step alloc root n st") (auto simp: stops_def split: progress.splits)
  then show ?thesis unfolding pops_def by blast
qed

lemma pops_all:
  assumes "\<And>w st rest. w \<in> set ws \<Longrightarrow> walks_inv mods root st \<Longrightarrow> cy_stack st = w # rest \<Longrightarrow> pops mods alloc root n rest st"
    and "walks_inv mods root st" and "cy_stack st = ws @ rest"
  shows "pops mods alloc root n rest st"
  using assms
proof (induction ws arbitrary: st)
  case Nil
  then show ?case unfolding pops_def by (intro exI [of _ 0]) simp
next
  case (Cons w ws)
  have "pops mods alloc root n (ws @ rest) st" using Cons.prems(1) [of w st "ws @ rest"] Cons.prems(2,3) by simp
  then obtain k where "stops k alloc root n st
      \<or> (\<exists>st'. report_run k alloc root n st = Some (Continue st') \<and> cy_stack st' = ws @ rest \<and> walks_inv mods root st')"
    unfolding pops_def by blast
  then show ?case
  proof (elim disjE exE conjE)
    fix s assume s: "report_run k alloc root n st = Some (Continue s)" "cy_stack s = ws @ rest" "walks_inv mods root s"
    have "pops mods alloc root n rest s"
    proof (rule Cons.IH [OF _ s(3,2)])
      fix w' st rest assume "w' \<in> set ws" "walks_inv mods root st" "cy_stack st = w' # rest"
      then show "pops mods alloc root n rest st" by (intro Cons.prems(1) [of w']) simp_all
    qed
    then obtain j where "stops j alloc root n s
        \<or> (\<exists>st'. report_run j alloc root n s = Some (Continue st') \<and> cy_stack st' = rest \<and> walks_inv mods root st')"
      unfolding pops_def by blast
    then show ?thesis unfolding pops_def using report_run_add [OF s(1), of j] by (intro exI [of _ "k + j"]) (auto simp: stops_def)
  qed (auto simp: pops_def)
qed

text \<open>The edges that a search from the root can use without coming back.\<close>

definition reached_edges :: "dmod list \<Rightarrow> nat \<Rightarrow> (nat \<times> nat) set" where
  "reached_edges mods root = {(i, j) \<in> inner_edges mods root. (root, i) \<in> (inner_edges mods root)\<^sup>+}"

lemma reached_edges_wf:
  assumes "wf_mods mods" and "\<nexists>x. inner_cycle mods root x"
  shows "wf ((reached_edges mods root)\<inverse>)"
proof (rule finite_acyclic_wf_converse)
  have "reached_edges mods root \<subseteq> {..<length mods} \<times> {..<length mods}"
    using assms(1) by (auto simp: reached_edges_def inner_edges_def dep_edges_def wf_mods_def)
  then show "finite (reached_edges mods root)" by (rule finite_subset) simp
  have sub: "(reached_edges mods root)\<^sup>+ \<subseteq> (inner_edges mods root)\<^sup>+" by (intro trancl_mono_subset) (auto simp: reached_edges_def)
  show "acyclic (reached_edges mods root)"
  proof (rule acyclicI, rule allI, rule notI)
    fix x assume c: "(x, x) \<in> (reached_edges mods root)\<^sup>+"
    then obtain y where "(x, y) \<in> reached_edges mods root" by (meson tranclD)
    then have "(root, x) \<in> (inner_edges mods root)\<^sup>+" by (simp add: reached_edges_def)
    then show False using c sub assms(2) unfolding inner_cycle_def by blast
  qed
qed

lemma vertex_pops:
  assumes wf: "wf_mods mods" and W: "wf ((reached_edges mods root)\<inverse>)"
  shows "m = root \<or> (root, m) \<in> (inner_edges mods root)\<^sup>+ \<Longrightarrow> walks_inv mods root st \<Longrightarrow> cy_stack st = v # rest \<Longrightarrow> v_mod v = m
    \<Longrightarrow> pops mods alloc root n rest st"
proof (induction m arbitrary: st v rest rule: wf_induct_rule [OF W])
  case (1 m)
  have st: "marked mods (cy_mods st)" "set (vertex_walk v) \<subseteq> {..<length mods}" "dm_visited (cy_mods st ! root)"
    using "1.prems" by (auto simp: walks_inv_def)
  have "v_mod v \<in> set (vertex_walk v)" by (metis last_in_set vertex_walk_simps(3,4))
  then have m: "m < length mods" using st(2) "1.prems"(4) by auto
  show ?case
  proof (rule pops_step)
    fix s assume run: "report_step alloc root n st = Some (Continue s)"
    note S = walks_inv_step(3) [OF wf st(1) "1.prems"(3) st(2) run] and K = walks_inv_keep [OF wf "1.prems"(2) run]
    show "pops mods alloc root n rest s"
    proof (cases "m = root")
      case True
      then show ?thesis unfolding pops_def using S K "1.prems"(4) st(3) by (intro exI [of _ 0]) simp
    next
      case False
      let ?kids = "rev (map (Vertex (Some v)) (deps_of mods m))"
      have kids: "cy_stack s = ?kids @ rest" using S "1.prems"(4) False by (auto split: if_splits)
      show ?thesis
      proof (rule pops_all [OF _ K kids])
        fix w t rest' assume w: "w \<in> set ?kids" and t: "walks_inv mods root t" "cy_stack t = w # rest'"
        then obtain d where d: "d \<in> set (deps_of mods m)" "v_mod w = d" by auto
        have rm: "(root, m) \<in> (inner_edges mods root)\<^sup>+" using "1.prems"(1) False by simp
        show "pops mods alloc root n rest' t"
        proof (cases "d = root")
          case True
          show ?thesis
          proof (rule pops_step)
            fix s' assume run': "report_step alloc root n t = Some (Continue s')"
            have tw: "marked mods (cy_mods t)" "set (vertex_walk w) \<subseteq> {..<length mods}" "dm_visited (cy_mods t ! root)"
              using t by (auto simp: walks_inv_def)
            show "pops mods alloc root n rest' s'" unfolding pops_def
              using walks_inv_step(3) [OF wf tw(1) t(2) tw(2) run'] walks_inv_keep [OF wf t(1) run'] True d(2) tw(3)
              by (intro exI [of _ 0]) simp
          qed
        next
          case other: False
          have e: "(m, d) \<in> inner_edges mods root" using inner_edgesI [OF m d(1) other] .
          then have "(d, m) \<in> (reached_edges mods root)\<inverse>" using rm by (simp add: reached_edges_def)
          then show ?thesis using "1.IH" [OF _ _ t d(2)] rm e by (meson trancl_into_trancl)
        qed
      qed
    qed
  qed
qed

lemma search_ends:
  assumes wf: "wf_mods (cy_mods st)" and root: "root < length (cy_mods st)" "\<not> dm_visited (cy_mods st ! root)"
    and x: "\<nexists>x. inner_cycle (cy_mods st) root x"
  shows "\<exists>k. \<forall>fuel \<ge> k. \<forall>st'. depmod_report_cycles_from_root fuel alloc root n st \<noteq> Some (Continue st')"
proof -
  let ?mods = "cy_mods st" and ?st = "st\<lparr>cy_stack := [Vertex None root]\<rparr>"
  have "pops ?mods alloc root n [] ?st"
  proof (rule pops_step)
    fix s assume run: "report_step alloc root n ?st = Some (Continue s)"
    note S = walks_inv_start [OF wf root run]
    show "pops ?mods alloc root n [] s"
    proof (rule pops_all [OF _ S(1)])
      show "cy_stack s = rev (map (Vertex (Some (Vertex None root))) (deps_of ?mods root)) @ []" using S(2) by simp
      fix w t rest assume w: "w \<in> set (rev (map (Vertex (Some (Vertex None root))) (deps_of ?mods root)))"
        and t: "walks_inv ?mods root t" "cy_stack t = w # rest"
      have "v_mod w = root \<or> (root, v_mod w) \<in> (inner_edges ?mods root)\<^sup>+" using w inner_edgesI [OF root(1)] by auto
      then show "pops ?mods alloc root n rest t" using vertex_pops [OF wf reached_edges_wf [OF wf x] _ t refl] by blast
    qed
  qed
  then obtain k where k: "stops k alloc root n ?st
      \<or> (\<exists>st'. report_run k alloc root n ?st = Some (Continue st') \<and> cy_stack st' = [] \<and> walks_inv ?mods root st')"
    unfolding pops_def by blast
  have "stops (k + 1) alloc root n ?st"
    using k
  proof (elim disjE exE conjE)
    fix s assume s: "report_run k alloc root n ?st = Some (Continue s)" "cy_stack s = []"
    then show ?thesis using report_run_add [OF s(1), of 1] by (simp add: stops_def report_step_def)
  qed (rule stops_mono)
  then have "stops fuel alloc root n ?st" if "k + 1 \<le> fuel" for fuel using stops_mono that by (metis le_Suc_ex)
  then show ?thesis by (intro exI [of _ "k + 1"]) (auto simp: depmod_report_cycles_from_root_def stops_def)
qed

section \<open>Examples\<close>

text \<open>
  Two cycles through \<open>a\<close>; three modules that all depend on each other; and a cycle through \<open>a\<close> that leads to
  the cycle of \<open>c\<close> and \<open>d\<close>.
\<close>

definition double_cycle :: "dmod list" where
  "double_cycle = [example_mod ''a'' 0 [1, 2] 1, example_mod ''b'' 1 [2] 1, example_mod ''c'' 2 [0] 2]"

definition clique_mods :: "dmod list" where
  "clique_mods = [example_mod ''a'' 0 [1, 2] 2, example_mod ''b'' 1 [0, 2] 2, example_mod ''c'' 2 [0, 1] 2]"

definition two_loops :: "dmod list" where
  "two_loops = [example_mod ''a'' 0 [1, 2] 1, example_mod ''b'' 1 [0] 1, example_mod ''c'' 2 [3] 2, example_mod ''d'' 3 [2] 1]"

lemma example_tables_wf: "wf_mods double_cycle" "wf_mods clique_mods" "wf_mods two_loops"
  by (simp_all add: wf_mods_check double_cycle_def clique_mods_def two_loops_def table_simps)

definition report_start :: "dmod list \<Rightarrow> cyc" where
  "report_start mods = \<lparr>cy_mods = mods, cy_roots = [1..<length mods], cy_stack = [],
     cy_loop_set = the (the (hash_new (\<lambda>_. True) 16 False)), cy_msgs = []\<rparr>"

lemma report_start_simps [simp]: "cy_mods (report_start mods) = mods" "cy_msgs (report_start mods) = []"
  by (simp_all add: report_start_def)

lemma double_cycle_run:
  "\<exists>st'. depmod_report_cycles_from_root 20 (\<lambda>_. True) 0 3 (report_start double_cycle) = Some (Finish (Inr ()) st')
    \<and> cy_msgs st' = [''Cycle detected: a -> c -> a'', ''Cycle detected: a -> b -> c -> a'']"
proof -
  let ?run = "depmod_report_cycles_from_root 20 (\<lambda>_. True) 0 3 (report_start double_cycle)"
  have "map_option (\<lambda>p. case p of Finish (Inr _) st' \<Rightarrow> Some (cy_msgs st') | _ \<Rightarrow> None) ?run
    = Some (Some [''Cycle detected: a -> c -> a'', ''Cycle detected: a -> b -> c -> a''])"
    by code_simp
  moreover from this obtain p where p: "?run = Some p" by (cases ?run) auto
  ultimately have "(case p of Finish (Inr _) st' \<Rightarrow> Some (cy_msgs st') | _ \<Rightarrow> None)
    = Some [''Cycle detected: a -> c -> a'', ''Cycle detected: a -> b -> c -> a'']" by simp
  then show ?thesis unfolding p by (cases p) (auto split: sum.splits)
qed

lemma clique_aborts: "depmod_report_cycles_from_root 10 (\<lambda>_. True) 0 3 (report_start clique_mods) = None"
  by code_simp

lemma two_loops_deps:
  assumes "marked two_loops mods"
  shows "length mods = 4" "array_list (dm_deps (mods ! 0)) = [1, 2]" "array_list (dm_deps (mods ! 2)) = [3]" "array_list (dm_deps (mods ! 3)) = [2]"
    "arr_count (dm_deps (mods ! 0)) = 2" "arr_count (dm_deps (mods ! 2)) = 1" "arr_count (dm_deps (mods ! 3)) = 1"
proof -
  have D: "dm_deps (mods ! i) = dm_deps (two_loops ! i)" if "i < 4" for i
    using assms that by (simp add: marked_def two_loops_def)
  show "length mods = 4" using assms by (simp add: marked_def two_loops_def)
  show "array_list (dm_deps (mods ! 0)) = [1, 2]" "array_list (dm_deps (mods ! 2)) = [3]" "array_list (dm_deps (mods ! 3)) = [2]"
    using D by (simp_all add: two_loops_def example_mod_deps)
  show "arr_count (dm_deps (mods ! 0)) = 2" "arr_count (dm_deps (mods ! 2)) = 1" "arr_count (dm_deps (mods ! 3)) = 1"
    using D by (simp_all add: two_loops_def example_mod_def)
qed

lemma two_loops_spin:
  assumes "marked two_loops (cy_mods st)" and "cy_stack st = v # rest" and "v_mod v = 2 \<or> v_mod v = 3" and "length rest = 1"
  shows "\<exists>st'. report_run fuel (\<lambda>_. True) 0 4 st = Some (Continue st')"
  using assms
proof (induction fuel arbitrary: st v)
  case (Suc fuel)
  note D = two_loops_deps [OF Suc.prems(1)]
  let ?m = "v_mod v"
  let ?d = "if ?m = 2 then 3 else 2 :: nat"
  let ?st = "st\<lparr>cy_stack := Vertex (Some v) ?d # rest, cy_mods := (cy_mods st)[?m := (cy_mods st ! ?m)\<lparr>dm_visited := True\<rparr>]\<rparr>"
  have "report_step (\<lambda>_. True) 0 4 st = Some (Continue ?st)"
    using Suc.prems D by (auto simp: report_step_def Let_def)
  moreover have "\<exists>st'. report_run fuel (\<lambda>_. True) 0 4 ?st = Some (Continue st')"
    using Suc.prems marked_visit by (intro Suc.IH [of ?st "Vertex (Some v) ?d"]) auto
  ultimately show ?case by simp
qed simp

lemma two_loops_runs:
  "\<exists>st'. depmod_report_cycles_from_root fuel (\<lambda>_. True) 0 4 (report_start two_loops) = Some (Continue st')"
proof (cases fuel)
  case (Suc k)
  let ?s0 = "(report_start two_loops)\<lparr>cy_stack := [Vertex None 0]\<rparr>"
  let ?s1 = "?s0\<lparr>cy_stack := [Vertex (Some (Vertex None 0)) 2, Vertex (Some (Vertex None 0)) 1],
    cy_mods := two_loops[0 := (two_loops ! 0)\<lparr>dm_visited := True\<rparr>]\<rparr>"
  have nv: "\<not> dm_visited (two_loops ! 0)" by (simp add: two_loops_def example_mod_def)
  have "report_step (\<lambda>_. True) 0 4 ?s0 = Some (Continue ?s1)"
    using two_loops_deps [OF marked_refl] nv by (simp add: report_step_def Let_def)
  moreover have "\<exists>st'. report_run k (\<lambda>_. True) 0 4 ?s1 = Some (Continue st')"
    using marked_visit [OF marked_refl] by (intro two_loops_spin) auto
  ultimately show ?thesis using Suc by (simp add: depmod_report_cycles_from_root_def)
qed (simp add: depmod_report_cycles_from_root_def)

text \<open>A root that an earlier search has marked is reported at once, with its name alone.\<close>

lemma report_marked_root:
  assumes "root < length (cy_mods st)" and "dm_visited (cy_mods st ! root)" and "0 < n"
  shows "depmod_report_cycles_from_root (Suc (Suc fuel)) (\<lambda>_. True) root n st
    = Some (Finish (Inr ()) (st\<lparr>cy_stack := [], cy_msgs := cy_msgs st @ [''Cycle detected: '' @ dm_modname (cy_mods st ! root)]\<rparr>))"
  using assms by (simp add: depmod_report_cycles_from_root_def report_step_def depmod_report_one_cycle_def array_init_def
      array_list_def cycle_text_def Let_def)

section \<open>Properties\<close>

text \<open>
  C25. The search from a root that no earlier search has visited reports exactly the cycles through it. In
  every state in which it stops or still runs, the new messages are those of closed walks along
  dependencies from the root to itself, of at least one edge, that do not pass the root in between: the
  names of the modules on the walk, the root at both ends. If the search returns 0, every such walk has been
  reported. It fails only for lack of memory.
\<close>

theorem root_cycles_reported:
  assumes "wf_mods (cy_mods st)" and "root < length (cy_mods st)" and "\<not> dm_visited (cy_mods st ! root)"
    and "depmod_report_cycles_from_root fuel alloc root n st = Some p"
  defines "mods \<equiv> cy_mods st"
  defines "new \<equiv> {''Cycle detected: '' @ concat (map (\<lambda>i. dm_modname (mods ! i) @ '' -> '') (butlast c)) @ dm_modname (mods ! root) | c.
      2 \<le> length c \<and> hd c = root \<and> last c = root \<and> root \<notin> set (tl (butlast c))
      \<and> successively (\<lambda>i j. j \<in> set (deps_of mods i)) c}"
  shows "set (cy_msgs st) \<subseteq> set (cy_msgs (after p)) \<and> set (cy_msgs (after p)) \<subseteq> set (cy_msgs st) \<union> new
    \<and> (\<forall>r st'. p = Finish r st' \<longrightarrow> r = Inr () \<and> set (cy_msgs st') = set (cy_msgs st) \<union> new \<or> r = Inl ENOMEM)"
proof -
  have inside: "set c \<subseteq> {..<length mods}" if "successively (\<lambda>i j. j \<in> set (deps_of mods i)) c" "c \<noteq> []" "hd c < length mods" for c
    using that
  proof (induction c rule: induct_list012)
    case (3 i j c)
    then have "j < length mods" using assms(1) by (auto simp: wf_mods_def mods_def)
    then show ?case using 3 by auto
  qed auto
  have "root_cycle mods root c \<longleftrightarrow> 2 \<le> length c \<and> hd c = root \<and> last c = root \<and> root \<notin> set (tl (butlast c))
      \<and> successively (\<lambda>i j. j \<in> set (deps_of mods i)) c" for c
    using inside [of c] assms(2) unfolding root_cycle_def dep_walk_def mods_def by (cases c) auto
  then have "new = cycle_message mods ` {c. root_cycle mods root c}"
    unfolding new_def by (auto simp: cycle_message_def cycle_text_def image_def)
  then have eq: "new = cycle_message (cy_mods st) ` {c. root_cycle (cy_mods st) root c}" by (simp only: mods_def)
  show ?thesis unfolding eq by (rule search_result [OF assms(1-4)])
qed

theorem root_cycles_reported_witness:
  "\<exists>st'. depmod_report_cycles_from_root 20 (\<lambda>_. True) 0 3 (report_start double_cycle) = Some (Finish (Inr ()) st')
    \<and> {''Cycle detected: '' @ concat (map (\<lambda>i. dm_modname (double_cycle ! i) @ '' -> '') (butlast c)) @ dm_modname (double_cycle ! 0) | c.
      2 \<le> length c \<and> hd c = 0 \<and> last c = 0 \<and> 0 \<notin> set (tl (butlast c)) \<and> successively (\<lambda>i j. j \<in> set (deps_of double_cycle i)) c}
      = {''Cycle detected: a -> c -> a'', ''Cycle detected: a -> b -> c -> a''}"
proof -
  obtain st' where st': "depmod_report_cycles_from_root 20 (\<lambda>_. True) 0 3 (report_start double_cycle) = Some (Finish (Inr ()) st')"
    "cy_msgs st' = [''Cycle detected: a -> c -> a'', ''Cycle detected: a -> b -> c -> a'']" using double_cycle_run by blast
  have "0 < length double_cycle" "\<not> dm_visited (double_cycle ! 0)" by (simp_all add: double_cycle_def example_mod_def)
  then show ?thesis using root_cycles_reported [OF _ _ _ st'(1)] example_tables_wf(1) st' by auto
qed

text \<open>
  C26. A defect of the search: if it can reach a cycle that avoids the root, it never completes. For
  every stack size, every outcome of the allocations and every number of steps it is still running, has failed the
  assertion that its stack is large enough, or has run out of memory.
\<close>

theorem cycle_search_never_completes:
  assumes "wf_mods (cy_mods st)" and "root < length (cy_mods st)" and "\<not> dm_visited (cy_mods st ! root)"
    and "(root, x) \<in> {(i, j) \<in> dep_edges (cy_mods st). j \<noteq> root}\<^sup>+" and "(x, x) \<in> {(i, j) \<in> dep_edges (cy_mods st). j \<noteq> root}\<^sup>+"
  shows "depmod_report_cycles_from_root fuel alloc root n st = None
    \<or> (\<exists>st'. depmod_report_cycles_from_root fuel alloc root n st = Some (Continue st'))
    \<or> (\<exists>st'. depmod_report_cycles_from_root fuel alloc root n st = Some (Finish (Inl ENOMEM) st'))"
proof (cases "depmod_report_cycles_from_root fuel alloc root n st")
  case (Some p)
  have "inner_cycle (cy_mods st) root x" using assms(4,5) by (simp add: inner_cycle_def inner_edges_def)
  then show ?thesis using search_never_completes [OF assms(1-3)] Some by (cases p) auto
qed simp

lemma clique_edges: "(0, 1) \<in> dep_edges clique_mods" "(1, 2) \<in> dep_edges clique_mods" "(2, 1) \<in> dep_edges clique_mods"
  by (auto simp: dep_edges_def deps_of_def clique_mods_def example_mod_deps)

text \<open>The search in the clique fails its assertion, and the search in \<open>two_loops\<close> runs for ever.\<close>

theorem cycle_search_never_completes_witness:
  "(\<forall>fuel alloc n st'. depmod_report_cycles_from_root fuel alloc 0 n (report_start clique_mods) \<noteq> Some (Finish (Inr ()) st'))
    \<and> depmod_report_cycles_from_root 10 (\<lambda>_. True) 0 3 (report_start clique_mods) = None
    \<and> (\<forall>fuel. \<exists>st'. depmod_report_cycles_from_root fuel (\<lambda>_. True) 0 4 (report_start two_loops) = Some (Continue st'))"
proof -
  let ?R = "{(i, j) \<in> dep_edges (cy_mods (report_start clique_mods)). j \<noteq> 0}"
  have e: "(0, 1) \<in> ?R" "(1, 2) \<in> ?R" "(2, 1) \<in> ?R" using clique_edges by simp_all
  have c: "(0, 1) \<in> ?R\<^sup>+" "(1, 1) \<in> ?R\<^sup>+" using e by (meson r_into_trancl' trancl_into_trancl)+
  have "0 < length clique_mods" "\<not> dm_visited (clique_mods ! 0)" by (simp_all add: clique_mods_def example_mod_def)
  then have "depmod_report_cycles_from_root fuel alloc 0 n (report_start clique_mods) \<noteq> Some (Finish (Inr ()) st')" for fuel alloc n st'
    using cycle_search_never_completes [OF _ _ _ c, of fuel alloc n] example_tables_wf(2) by auto
  then show ?thesis using clique_aborts two_loops_runs by blast
qed

text \<open>
  C27. The search ends if every cycle that it can reach passes through the root: after some number of steps it is
  no longer running, whatever the stack size and the allocations; it has returned, or failed the
  assertion that its stack is large enough.
\<close>

theorem cycle_search_ends:
  assumes "wf_mods (cy_mods st)" and "root < length (cy_mods st)" and "\<not> dm_visited (cy_mods st ! root)"
    and "\<nexists>x. (root, x) \<in> {(i, j) \<in> dep_edges (cy_mods st). j \<noteq> root}\<^sup>+ \<and> (x, x) \<in> {(i, j) \<in> dep_edges (cy_mods st). j \<noteq> root}\<^sup>+"
  shows "\<exists>k. \<forall>fuel \<ge> k. depmod_report_cycles_from_root fuel alloc root n st = None
    \<or> (\<exists>r st'. depmod_report_cycles_from_root fuel alloc root n st = Some (Finish r st'))"
proof -
  have "\<nexists>x. inner_cycle (cy_mods st) root x" using assms(4) by (simp add: inner_cycle_def inner_edges_def)
  from search_ends [OF assms(1-3) this] obtain k where
    k: "\<forall>fuel \<ge> k. \<forall>st'. depmod_report_cycles_from_root fuel alloc root n st \<noteq> Some (Continue st')" by blast
  show ?thesis
  proof (intro exI [of _ k] allI impI)
    fix fuel assume "k \<le> fuel"
    then show "depmod_report_cycles_from_root fuel alloc root n st = None
      \<or> (\<exists>r st'. depmod_report_cycles_from_root fuel alloc root n st = Some (Finish r st'))"
      using k by (cases "depmod_report_cycles_from_root fuel alloc root n st") (auto, metis progress.exhaust)
  qed
qed

theorem cycle_search_ends_witness:
  "\<exists>k. \<forall>fuel \<ge> k. depmod_report_cycles_from_root fuel (\<lambda>_. True) 0 3 (report_start double_cycle) = None
    \<or> (\<exists>r st'. depmod_report_cycles_from_root fuel (\<lambda>_. True) 0 3 (report_start double_cycle) = Some (Finish r st'))"
proof (rule cycle_search_ends)
  let ?R = "{(i, j) \<in> dep_edges (cy_mods (report_start double_cycle)). j \<noteq> 0}"
  have "deps_of double_cycle 0 = [1, 2]" "deps_of double_cycle 1 = [2]" "deps_of double_cycle 2 = [0]" "length double_cycle = 3"
    by (simp_all add: deps_of_def double_cycle_def example_mod_deps)
  then have "i < j" if "i < length double_cycle" "j \<in> set (deps_of double_cycle i)" "j \<noteq> 0" for i j
    using that by (cases "i = 0"; cases "i = 1"; cases "i = 2") auto
  then have "?R \<subseteq> less_than" by (auto simp: dep_edges_def)
  then have "?R\<^sup>+ \<subseteq> less_than\<^sup>+" by (rule trancl_mono_subset)
  then have "?R\<^sup>+ \<subseteq> less_than" unfolding trancl_id [OF trans_less_than] .
  then show "\<nexists>x. (0, x) \<in> ?R\<^sup>+ \<and> (x, x) \<in> ?R\<^sup>+" by auto
qed (use example_tables_wf(1) in \<open>simp_all add: double_cycle_def example_mod_def\<close>)

end
