(* ===== verification/Kmod_Output.thy ===== *)
theory Kmod_Output
  imports Kmod_Cycles Kmod_Index_Roundtrip
begin

text \<open>
  What depmod writes about dependencies (\<open>tools/depmod.c\<close>): the transitive closure of the dependency
  lists, the text file \<open>modules.dep\<close> and the binary index \<open>modules.dep.bin\<close>. The recursion over the
  graph takes fuel; one more than the number of modules is enough, also on cyclic graphs. Together
  with the reader of the index this gives the path from depmod's graph to the library's answer.
\<close>

section \<open>Collecting dependencies\<close>

primrec mod_fill_all_unique_dependencies ::
    "nat \<Rightarrow> (size_t \<Rightarrow> bool) \<Rightarrow> dmod list \<Rightarrow> nat \<Rightarrow> nat array \<Rightarrow> (unit result \<times> nat array) option" where
  "mod_fill_all_unique_dependencies 0 = (\<lambda>alloc mods m deps. None)"
| "mod_fill_all_unique_dependencies (Suc fuel) = (\<lambda>alloc mods m deps.
     foldM (\<lambda>d (err, deps).
         case err of
           Inl e \<Rightarrow> Some (Inl e, deps)
         | Inr _ \<Rightarrow>
             do { (r, deps) \<leftarrow> array_append_unique alloc deps d;
                  case r of
                    Inl e \<Rightarrow> Some (if e = EEXIST then Inr () else Inl e, deps)
                  | Inr _ \<Rightarrow> mod_fill_all_unique_dependencies fuel alloc mods d deps })
       (array_list (dm_deps (mods ! m))) (Inr (), deps))"

definition mod_get_all_sorted_dependencies ::
    "nat \<Rightarrow> (size_t \<Rightarrow> bool) \<Rightarrow> ((nat \<Rightarrow> nat \<Rightarrow> int) \<Rightarrow> nat list \<Rightarrow> nat list) \<Rightarrow> dmod list \<Rightarrow> nat \<Rightarrow> nat array
      \<Rightarrow> (bool \<times> nat array) option" where
  "mod_get_all_sorted_dependencies fuel alloc qsort mods m deps =
     do { (err, deps) \<leftarrow> mod_fill_all_unique_dependencies fuel alloc mods m (deps\<lparr>arr_count := 0\<rparr>);
          case err of
            Inl _ \<Rightarrow> Some (False, deps)
          | Inr _ \<Rightarrow>
              if 1 < arr_count deps then map_option (Pair True) (array_sort qsort (dep_cmp mods) deps)
              else Some (True, deps) }"

definition mod_get_compressed_path :: "dmod \<Rightarrow> string" where
  "mod_get_compressed_path m = (case dm_relpath m of Some p \<Rightarrow> p | None \<Rightarrow> dm_path m)"

section \<open>The text file\<close>

definition output_deps_line ::
    "nat \<Rightarrow> (size_t \<Rightarrow> bool) \<Rightarrow> ((nat \<Rightarrow> nat \<Rightarrow> int) \<Rightarrow> nat list \<Rightarrow> nat list) \<Rightarrow> dmod list \<Rightarrow> nat
      \<Rightarrow> nat array \<times> string \<Rightarrow> (nat array \<times> string) option" where
  "output_deps_line fuel alloc qsort mods i = (\<lambda>(deps, out).
     (let m = mods ! i; out = out @ mod_get_compressed_path m @ '':'' in
      if arr_count (dm_deps m) = 0 then Some (deps, out @ [CHR 0x0A])
      else
        do { (ok, deps) \<leftarrow> mod_get_all_sorted_dependencies fuel alloc qsort mods i deps;
             if ok then
               Some (deps, out @ concat (map (\<lambda>d. '' '' @ mod_get_compressed_path (mods ! d)) (array_list deps)) @ [CHR 0x0A])
             else Some (deps, out @ [CHR 0x0A]) }))"

definition output_deps ::
    "nat \<Rightarrow> (size_t \<Rightarrow> bool) \<Rightarrow> ((nat \<Rightarrow> nat \<Rightarrow> int) \<Rightarrow> nat list \<Rightarrow> nat list) \<Rightarrow> dmod list \<Rightarrow> string option" where
  "output_deps fuel alloc qsort mods =
     do { deps \<leftarrow> array_init 64;
          (_, out) \<leftarrow> foldM (output_deps_line fuel alloc qsort mods) [0..<length mods] (deps, []);
          Some out }"

section \<open>The binary index\<close>

text \<open>
  A dependency that does not fit the buffer is skipped; a module whose own path does not fit, or
  whose dependencies cannot be collected, is left out of the index.
\<close>

definition push_dep :: "(size_t \<Rightarrow> bool) \<Rightarrow> dmod list \<Rightarrow> nat \<Rightarrow> strbuf \<Rightarrow> strbuf option" where
  "push_dep alloc mods d sbuf =
     do { (ok, sbuf) \<leftarrow> strbuf_pushchar alloc sbuf CHR '' '';
          if ok then map_option snd (strbuf_pushchars alloc sbuf (mod_get_compressed_path (mods ! d))) else Some sbuf }"

definition output_deps_bin_mod ::
    "nat \<Rightarrow> (size_t \<Rightarrow> bool) \<Rightarrow> ((nat \<Rightarrow> nat \<Rightarrow> int) \<Rightarrow> nat list \<Rightarrow> nat list) \<Rightarrow> dmod list \<Rightarrow> nat
      \<Rightarrow> index_node \<times> nat array \<times> strbuf \<Rightarrow> (index_node \<times> nat array \<times> strbuf) option" where
  "output_deps_bin_mod fuel alloc qsort mods i = (\<lambda>(idx, array, sbuf).
     do { let m = mods ! i;
          (ok, array) \<leftarrow> mod_get_all_sorted_dependencies fuel alloc qsort mods i array;
          if \<not> ok then Some (idx, array, sbuf)
          else
            do { (pushed, sbuf) \<leftarrow> strbuf_pushchars alloc (strbuf_clear sbuf) (mod_get_compressed_path m);
                 (ok, sbuf) \<leftarrow> (if pushed = 0 then Some (False, sbuf) else strbuf_pushchar alloc sbuf CHR '':'');
                 if \<not> ok then Some (idx, array, sbuf)
                 else
                   do { sbuf \<leftarrow> foldM (push_dep alloc mods) (array_list array) sbuf;
                        (line, sbuf) \<leftarrow> strbuf_str sbuf;
                        (duplicate, idx) \<leftarrow> index_insert idx (dm_modname m) line (ucast (dm_idx m));
                        Some (idx, array, sbuf) } } })"

definition deps_index ::
    "nat \<Rightarrow> (size_t \<Rightarrow> bool) \<Rightarrow> ((nat \<Rightarrow> nat \<Rightarrow> int) \<Rightarrow> nat list \<Rightarrow> nat list) \<Rightarrow> dmod list \<Rightarrow> index_node option" where
  "deps_index fuel alloc qsort mods =
     do { array \<leftarrow> array_init 64;
          (idx, _) \<leftarrow> foldM (output_deps_bin_mod fuel alloc qsort mods) [0..<length mods]
                        (index_create, array, strbuf_with_stack 2048);
          Some idx }"

definition output_deps_bin ::
    "nat \<Rightarrow> (size_t \<Rightarrow> bool) \<Rightarrow> ((nat \<Rightarrow> nat \<Rightarrow> int) \<Rightarrow> nat list \<Rightarrow> nat list) \<Rightarrow> dmod list \<Rightarrow> bool \<Rightarrow> bool
      \<Rightarrow> char list result option" where
  "output_deps_bin fuel alloc qsort mods to_stdout create_ok =
     (if to_stdout then Some (Inr [])
      else if \<not> create_ok then Some (Inl ENOMEM)
      else map_option (\<lambda>idx. Inr (index_write idx)) (deps_index fuel alloc qsort mods))"

section \<open>The closure of the dependencies\<close>

text \<open>The array of the closure stays small: at most 65534 elements are ever stored.\<close>

definition small_array :: "nat \<Rightarrow> nat array \<Rightarrow> bool" where
  "small_array n a \<longleftrightarrow> array_inv a \<and> distinct (array_list a) \<and> set (array_list a) \<subseteq> {..<n}
     \<and> arr_step a = 64 \<and> unat (arr_total a) \<le> 70000"

lemma small_array_length: "small_array n a \<Longrightarrow> length (array_list a) \<le> n"
  using card_mono [of "{..<n}" "set (array_list a)"] distinct_card [of "array_list a"] by (simp add: small_array_def)

lemma append_small:
  assumes sm: "small_array n a" and d: "d < n" "d \<notin> set (array_list a)" and n: "n < 65535"
  shows "\<exists>i a'. array_append_unique (\<lambda>_. True) a d = Some (Inr i, a') \<and> small_array n a' \<and> array_list a' = array_list a @ [d]"
proof -
  note S = sm [unfolded small_array_def]
  have cnt: "unat (arr_count a) < n"
    using array_invD(5)[of a] S d distinct_bound [of "array_list a" n d] by auto
  have c1: "unat (arr_count a + 1) = Suc (unat (arr_count a))" using array_invD(3) S by blast
  have st: "unat (arr_total a + 64) = unat (arr_total a) + 64" using S by (simp add: unat_word_ariths)
  have ov: "uadd_overflow (arr_total a) 64 = (arr_total a + 64, False)"
    using uadd_overflow_iff [of "arr_total a" 64] S by (simp add: uadd_overflow_def)
  have mo: "umul_overflow 8 (arr_total a + 64) = (8 * (arr_total a + 64), False)"
    using umul_overflow_iff [of 8 "arr_total a + 64"] S st by (simp add: umul_overflow_def)
  have grow: "array_append (\<lambda>_. True) a d \<noteq> Some (Inl ENOMEM, a)"
    using S ov mo by (auto simp: array_append_def array_realloc_def bind_eq_Some_conv split: option.splits)
  obtain i a' where a': "array_append (\<lambda>_. True) a d = Some (Inr i, a')" "array_inv a'" "array_list a' = array_list a @ [d]" "arr_step a' = 64"
    using array_append_cases [of a "\<lambda>_. True" d] grow S by auto
  have "unat (arr_total a') \<le> 70000"
  proof (cases "arr_total a \<le> arr_count a + 1")
    case True
    then have "unat (arr_total a) \<le> 65535" using c1 cnt n by (simp add: word_le_nat_alt)
    moreover have "arr_total a' = arr_total a + 64"
      using a'(1) True ov mo S by (auto simp: array_append_def array_realloc_def bind_eq_Some_conv split: option.splits)
    ultimately show ?thesis using st by simp
  next
    case False
    then have "arr_total a' = arr_total a" using a'(1) by (auto simp: array_append_def bind_eq_Some_conv)
    then show ?thesis using S by simp
  qed
  then have "small_array n a'" using a' S d by (auto simp: small_array_def)
  moreover have "array_append_unique (\<lambda>_. True) a d = array_append (\<lambda>_. True) a d"
    using array_append_unique_eq [of a "\<lambda>_. True" d] S d by simp
  ultimately show ?thesis using a' by auto
qed

text \<open>
  \<open>closes mods from D D'\<close>: going from the collected set \<open>D\<close> to \<open>D'\<close> adds the modules of \<open>from\<close>,
  only modules reachable from them, and with every new module all that it needs.
\<close>

definition closes :: "dmod list \<Rightarrow> nat set \<Rightarrow> nat set \<Rightarrow> nat set \<Rightarrow> bool" where
  "closes mods from D D' \<longleftrightarrow> D \<union> from \<subseteq> D' \<and> (\<forall>x \<in> D' - D. set (deps_of mods x) \<subseteq> D')
     \<and> D' - D \<subseteq> (dep_edges mods)\<^sup>* `` from"

lemma closes_trans:
  assumes "closes mods A D D1" and "closes mods B D1 D2"
  shows "closes mods (A \<union> B) D D2"
proof -
  have sub: "D \<union> A \<subseteq> D1" "D1 \<union> B \<subseteq> D2" using assms by (simp_all add: closes_def)
  have "set (deps_of mods x) \<subseteq> D2" if "x \<in> D2 - D" for x
  proof (cases "x \<in> D1")
    case True
    then have "set (deps_of mods x) \<subseteq> D1" using assms(1) that by (simp add: closes_def)
    then show ?thesis using sub by blast
  next
    case False
    then show ?thesis using assms(2) that by (simp add: closes_def)
  qed
  moreover have "D2 - D \<subseteq> (dep_edges mods)\<^sup>* `` A \<union> (dep_edges mods)\<^sup>* `` B"
    using assms unfolding closes_def by blast
  ultimately show ?thesis using sub by (auto simp: closes_def Image_Un)
qed

lemma closes_add:
  assumes "closes mods (set (deps_of mods d)) (insert d D) D'" and "d < length mods"
  shows "closes mods {d} D D'"
proof -
  have "(dep_edges mods)\<^sup>* `` set (deps_of mods d) \<subseteq> (dep_edges mods)\<^sup>* `` {d}"
    using assms(2) by (auto simp: dep_edges_def intro: converse_rtrancl_into_rtrancl)
  moreover have "D' - D \<subseteq> insert d (D' - insert d D)" "d \<in> (dep_edges mods)\<^sup>* `` {d}" by auto
  ultimately have "D' - D \<subseteq> (dep_edges mods)\<^sup>* `` {d}" using assms(1) unfolding closes_def by blast
  moreover have "set (deps_of mods x) \<subseteq> D'" if "x \<in> D' - D" for x
    using assms(1) that by (cases "x = d") (simp_all add: closes_def)
  ultimately show ?thesis using assms(1) by (simp add: closes_def)
qed

definition edges_ok :: "dmod list \<Rightarrow> bool" where
  "edges_ok mods \<longleftrightarrow> length mods < 65535 \<and> (\<forall>i < length mods. set (deps_of mods i) \<subseteq> {..<length mods})"

lemma fill_spec:
  assumes ok: "edges_ok mods"
  shows "small_array (length mods) deps \<Longrightarrow> m < length mods \<Longrightarrow> length mods < fuel + length (array_list deps) \<Longrightarrow>
    \<exists>deps'. mod_fill_all_unique_dependencies fuel (\<lambda>_. True) mods m deps = Some (Inr (), deps')
      \<and> small_array (length mods) deps' \<and> closes mods (set (deps_of mods m)) (set (array_list deps)) (set (array_list deps'))"
proof (induction fuel arbitrary: deps m)
  case 0
  then show ?case using small_array_length by fastforce
next
  case (Suc fuel)
  let ?n = "length mods"
  let ?body = "\<lambda>d (err, deps). case err of
           Inl e \<Rightarrow> Some (Inl e, deps)
         | Inr _ \<Rightarrow>
             do { (r, deps) \<leftarrow> array_append_unique (\<lambda>_. True) deps d;
                  case r of
                    Inl e \<Rightarrow> Some (if e = EEXIST then Inr () else Inl e, deps)
                  | Inr _ \<Rightarrow> mod_fill_all_unique_dependencies fuel (\<lambda>_. True) mods d deps }"
  have loop: "\<exists>a'. foldM ?body ds (Inr (), a) = Some (Inr (), a') \<and> small_array ?n a'
      \<and> closes mods (set ds) (set (array_list a)) (set (array_list a'))"
    if "set ds \<subseteq> {..<?n}" "small_array ?n a" "?n < Suc fuel + length (array_list a)" for ds a
    using that
  proof (induction ds arbitrary: a)
    case Nil
    then show ?case by (simp add: closes_def)
  next
    case (Cons d ds)
    have d: "d < ?n" using Cons.prems(1) by simp
    obtain a1 where a1: "?body d (Inr (), a) = Some (Inr (), a1)" "small_array ?n a1"
      "closes mods {d} (set (array_list a)) (set (array_list a1))"
    proof (cases "d \<in> set (array_list a)")
      case True
      then have "array_append_unique (\<lambda>_. True) a d = Some (Inl EEXIST, a)"
        using Cons.prems(2) by (simp add: small_array_def array_append_unique_eq)
      then show ?thesis using that [of a] Cons.prems(2) True by (simp add: closes_def)
    next
      case False
      obtain i b where b: "array_append_unique (\<lambda>_. True) a d = Some (Inr i, b)" "small_array ?n b" "array_list b = array_list a @ [d]"
        using append_small [OF Cons.prems(2) d False] ok by (auto simp: edges_ok_def)
      obtain a1 where "mod_fill_all_unique_dependencies fuel (\<lambda>_. True) mods d b = Some (Inr (), a1)" "small_array ?n a1"
        "closes mods (set (deps_of mods d)) (set (array_list b)) (set (array_list a1))"
        using Suc.IH [OF b(2) d] b(3) Cons.prems(3) by auto
      then show ?thesis using that [of a1] b closes_add [OF _ d] by simp
    qed
    have "length (array_list a) \<le> length (array_list a1)"
      using a1(2,3) Cons.prems(2) card_mono [of "set (array_list a1)" "set (array_list a)"]
      by (auto simp: small_array_def closes_def distinct_card)
    then obtain a2 where "foldM ?body ds (Inr (), a1) = Some (Inr (), a2)" "small_array ?n a2"
      "closes mods (set ds) (set (array_list a1)) (set (array_list a2))"
      using Cons.IH [OF _ a1(2)] Cons.prems(1,3) by auto
    then show ?case using a1 closes_trans [OF a1(3)] by auto
  qed
  show ?case using loop [of "deps_of mods m" deps] Suc.prems ok by (auto simp: edges_ok_def deps_of_def)
qed

text \<open>
  What the calculation of the dependencies leaves behind, and what the closure of a module is: all
  modules it needs, directly or not, in an order in which none needs an earlier one.
\<close>

definition numbered :: "dmod list \<Rightarrow> bool" where
  "numbered mods \<longleftrightarrow> edges_ok mods \<and> (\<forall>i < length mods. array_inv (dm_deps (mods ! i)))
     \<and> (\<forall>(i, j) \<in> dep_edges mods. dm_dep_sort_idx (mods ! i) < dm_dep_sort_idx (mods ! j))"

definition load_order :: "dmod list \<Rightarrow> nat \<Rightarrow> nat list \<Rightarrow> bool" where
  "load_order mods i ds \<longleftrightarrow> distinct ds \<and> set ds = (dep_edges mods)\<^sup>+ `` {i}
     \<and> sorted_wrt (\<lambda>x y. (y, x) \<notin> (dep_edges mods)\<^sup>+) ds"

lemma numbered_trancl:
  assumes "numbered mods" and "(i, j) \<in> (dep_edges mods)\<^sup>+"
  shows "dm_dep_sort_idx (mods ! i) < dm_dep_sort_idx (mods ! j)"
  using assms(2) by (induction rule: trancl_induct) (use assms(1) in \<open>auto simp: numbered_def\<close>)

lemma fill_closure:
  assumes "edges_ok mods" and "small_array (length mods) deps" and m: "m < length mods" and "length mods < fuel" and "array_list deps = []"
  shows "\<exists>deps'. mod_fill_all_unique_dependencies fuel (\<lambda>_. True) mods m deps = Some (Inr (), deps')
      \<and> small_array (length mods) deps' \<and> set (array_list deps') = (dep_edges mods)\<^sup>+ `` {m}"
proof -
  obtain deps' where D: "mod_fill_all_unique_dependencies fuel (\<lambda>_. True) mods m deps = Some (Inr (), deps')"
    "small_array (length mods) deps'" "closes mods (set (deps_of mods m)) {} (set (array_list deps'))"
    using fill_spec [OF assms(1-3), of fuel] assms(4,5) by auto
  let ?S = "set (array_list deps')" and ?R = "dep_edges mods"
  have "y \<in> ?S" if "(m, y) \<in> ?R\<^sup>+" for y
    using that
  proof (induction rule: trancl_induct)
    case (base y)
    then show ?case using D(3) by (auto simp: dep_edges_def closes_def)
  next
    case (step y z)
    then show ?case using D(3) by (auto simp: dep_edges_def closes_def)
  qed
  moreover have "(m, y) \<in> ?R\<^sup>+" if y: "y \<in> ?S" for y
  proof -
    obtain d where d: "d \<in> set (deps_of mods m)" "(d, y) \<in> ?R\<^sup>*" using D(3) y by (auto simp: closes_def)
    then have "(m, d) \<in> ?R" using m by (simp add: dep_edges_def)
    then show ?thesis using d(2) by (rule rtrancl_into_trancl2)
  qed
  ultimately show ?thesis using D(1,2) by auto
qed

lemma sorted_deps_spec:
  assumes num: "numbered mods" and q: "qsort_spec qsort" and sm: "small_array (length mods) a" and m: "m < length mods" and f: "length mods < fuel"
  shows "\<exists>a'. mod_get_all_sorted_dependencies fuel (\<lambda>_. True) qsort mods m a = Some (True, a')
    \<and> small_array (length mods) a' \<and> load_order mods m (array_list a')"
proof -
  have ok: "edges_ok mods" using num by (simp add: numbered_def)
  have sm0: "small_array (length mods) (a\<lparr>arr_count := 0\<rparr>)" "array_list (a\<lparr>arr_count := 0\<rparr>) = []"
    using sm by (auto simp: small_array_def array_inv_def array_list_def)
  obtain b where b: "mod_fill_all_unique_dependencies fuel (\<lambda>_. True) mods m (a\<lparr>arr_count := 0\<rparr>) = Some (Inr (), b)"
    "small_array (length mods) b" "set (array_list b) = (dep_edges mods)\<^sup>+ `` {m}"
    using fill_closure [OF ok sm0(1) m f sm0(2)] by blast
  show ?thesis
  proof (cases "1 < arr_count b")
    case False
    then have "length (array_list b) \<le> 1" using b(2) array_invD(5)[of b] by (simp add: small_array_def word_less_nat_alt)
    then have "sorted_wrt (\<lambda>x y. (y, x) \<notin> (dep_edges mods)\<^sup>+) (array_list b)" by (cases "array_list b") auto
    then show ?thesis using b False by (simp add: mod_get_all_sorted_dependencies_def load_order_def small_array_def)
  next
    case True
    have inv: "array_inv b" using b(2) by (simp add: small_array_def)
    obtain c where c: "array_sort qsort (dep_cmp mods) b = Some c" "array_inv c" "array_list c = qsort (dep_cmp mods) (array_list b)"
      using array_sort_spec [OF inv, of qsort "dep_cmp mods"] qsort_dep_cmp(1)[OF q] by blast
    have perm: "mset (array_list c) = mset (array_list b)" using c(3) qsort_dep_cmp(1)[OF q] by simp
    then have set: "set (array_list c) = set (array_list b)" "distinct (array_list c)"
      using b(2) mset_eq_setD [OF perm] mset_eq_imp_distinct_iff [OF perm] by (auto simp: small_array_def)
    have "sorted_wrt (\<lambda>x y. dm_dep_sort_idx (mods ! x) \<le> dm_dep_sort_idx (mods ! y)) (array_list c)"
      using qsort_dep_cmp(2)[OF q, of mods "array_list b"] c(3) by (simp add: sorted_map)
    then have "sorted_wrt (\<lambda>x y. (y, x) \<notin> (dep_edges mods)\<^sup>+) (array_list c)"
      by (rule sorted_wrt_mono_rel [rotated]) (use numbered_trancl [OF num] in force)
    moreover have "small_array (length mods) c"
      using c(1,2) set b(2) by (auto simp: small_array_def array_sort_def Let_def split: if_splits)
    ultimately show ?thesis using b True c(1) set by (simp add: mod_get_all_sorted_dependencies_def load_order_def)
  qed
qed

section \<open>The files\<close>

definition deps_line :: "dmod list \<Rightarrow> nat \<Rightarrow> nat list \<Rightarrow> string" where
  "deps_line mods i ds = mod_get_compressed_path (mods ! i) @ '':''
     @ concat (map (\<lambda>d. '' '' @ mod_get_compressed_path (mods ! d)) ds)"

lemma no_deps_closure:
  assumes "arr_count (dm_deps (mods ! i)) = 0"
  shows "load_order mods i []"
proof -
  have "deps_of mods i = []" using assms by (simp add: deps_of_def array_list_def)
  then have "(i, y) \<notin> (dep_edges mods)\<^sup>+" for y by (auto simp: dep_edges_def dest!: tranclD)
  then show ?thesis by (auto simp: load_order_def)
qed

lemma output_deps_line_spec:
  assumes "numbered mods" and "qsort_spec qsort" and "small_array (length mods) a" and i: "i < length mods" and "length mods < fuel"
  shows "\<exists>a' ds. output_deps_line fuel (\<lambda>_. True) qsort mods i (a, out) = Some (a', out @ deps_line mods i ds @ [CHR 0x0A])
    \<and> small_array (length mods) a' \<and> load_order mods i ds"
proof (cases "arr_count (dm_deps (mods ! i)) = 0")
  case True
  then show ?thesis using assms(3) no_deps_closure [OF True]
    by (intro exI [of _ a] exI [of _ "[]"]) (simp add: output_deps_line_def deps_line_def Let_def)
next
  case False
  then show ?thesis using sorted_deps_spec [OF assms] by (fastforce simp: output_deps_line_def deps_line_def Let_def)
qed

lemma array_init_small: "\<exists>a. array_init 64 = Some a \<and> small_array n (a :: nat array)"
  by (auto simp: array_init_def small_array_def array_inv_def array_list_def)

lemma output_deps_spec:
  assumes num: "numbered mods" and q: "qsort_spec qsort" and f: "length mods < fuel"
  shows "\<exists>dss. output_deps fuel (\<lambda>_. True) qsort mods
      = Some (concat (map (\<lambda>i. deps_line mods i (dss i) @ [CHR 0x0A]) [0..<length mods]))
    \<and> (\<forall>i < length mods. load_order mods i (dss i))"
proof -
  obtain a0 where a0: "array_init 64 = Some a0" "small_array (length mods) a0" using array_init_small by blast
  have "\<exists>a dss. foldM (output_deps_line fuel (\<lambda>_. True) qsort mods) [0..<k] (a0, [])
      = Some (a, concat (map (\<lambda>i. deps_line mods i (dss i) @ [CHR 0x0A]) [0..<k]))
    \<and> small_array (length mods) a \<and> (\<forall>i < k. load_order mods i (dss i))" if "k \<le> length mods" for k
    using that
  proof (induction k)
    case 0
    then show ?case using a0(2) by simp
  next
    case (Suc k)
    then obtain a dss where IH: "foldM (output_deps_line fuel (\<lambda>_. True) qsort mods) [0..<k] (a0, [])
        = Some (a, concat (map (\<lambda>i. deps_line mods i (dss i) @ [CHR 0x0A]) [0..<k]))"
      "small_array (length mods) a" "\<forall>i < k. load_order mods i (dss i)" by auto
    have k: "k < length mods" using Suc.prems by simp
    obtain a' ds where L: "output_deps_line fuel (\<lambda>_. True) qsort mods k (a, concat (map (\<lambda>i. deps_line mods i (dss i) @ [CHR 0x0A]) [0..<k]))
        = Some (a', concat (map (\<lambda>i. deps_line mods i (dss i) @ [CHR 0x0A]) [0..<k]) @ deps_line mods k ds @ [CHR 0x0A])"
      "small_array (length mods) a'" "load_order mods k ds"
      using output_deps_line_spec [OF num q IH(2) k f] by blast
    have "concat (map (\<lambda>i. deps_line mods i ((dss(k := ds)) i) @ [CHR 0x0A]) [0..<Suc k])
        = concat (map (\<lambda>i. deps_line mods i (dss i) @ [CHR 0x0A]) [0..<k]) @ deps_line mods k ds @ [CHR 0x0A]"
      by (auto intro!: arg_cong [where f = concat])
    then show ?case using IH L by (intro exI [of _ a'] exI [of _ "dss(k := ds)"]) (simp add: foldM_append less_Suc_eq del: concat_append)
  qed
  then show ?thesis using a0(1) by (fastforce simp: output_deps_def)
qed

lemma topo_ready_numbered:
  assumes wf: "wf_mods mods" and r: "topo_ready mods mods'"
  shows "numbered mods'" "dep_edges mods' = dep_edges mods"
proof -
  have set: "set (deps_of mods' i) = set (deps_of mods i)" if "i < length mods" for i
    using r that mset_eq_setD unfolding topo_ready_def by blast
  then show e: "dep_edges mods' = dep_edges mods" using r by (auto simp: dep_edges_def topo_ready_def)
  show "numbered mods'" using wf r set unfolding numbered_def e by (auto simp: edges_ok_def wf_mods_def topo_ready_def)
qed

section \<open>The binary index holds the lines\<close>

text \<open>Paths and names are non-empty 7-bit strings of a bounded length.\<close>

definition named :: "dmod list \<Rightarrow> bool" where
  "named mods \<longleftrightarrow> (\<forall>i < length mods. ascii (dm_modname (mods ! i)) \<and> ascii (mod_get_compressed_path (mods ! i))
     \<and> mod_get_compressed_path (mods ! i) \<noteq> [] \<and> length (mod_get_compressed_path (mods ! i)) < 2 ^ 32)"

lemma push_deps_spec:
  assumes "named mods" and "set ds \<subseteq> {..<length mods}" and "strbuf_inv b" and "length (sb_text b) + length ds * 2 ^ 33 < 2 ^ 62"
  shows "\<exists>b'. foldM (push_dep (\<lambda>_. True) mods) ds b = Some b' \<and> strbuf_inv b'
    \<and> sb_text b' = sb_text b @ concat (map (\<lambda>d. '' '' @ mod_get_compressed_path (mods ! d)) ds)"
  using assms(2-)
proof (induction ds arbitrary: b)
  case (Cons d ds)
  let ?p = "mod_get_compressed_path (mods ! d)"
  have p: "length ?p < 2 ^ 32" using assms(1) Cons.prems(1) by (simp add: named_def)
  obtain b1 where b1: "strbuf_pushchar (\<lambda>_. True) b CHR '' '' = Some (True, b1)" "strbuf_inv b1" "sb_text b1 = sb_text b @ '' ''"
    using strbuf_pushchar_ok [OF Cons.prems(2), of "CHR '' ''"] Cons.prems(3) by auto
  obtain b2 where b2: "strbuf_pushmem (\<lambda>_. True) b1 ?p = Some (of_nat (length ?p), b2)" "strbuf_inv b2" "sb_text b2 = sb_text b1 @ ?p"
    using strbuf_pushmem_ok [OF b1(2), of ?p] b1(3) Cons.prems(3) p by auto
  have "push_dep (\<lambda>_. True) mods d b = Some b2" using b1(1) b2(1) by (simp add: push_dep_def strbuf_pushchars_def)
  moreover have "length (sb_text b2) + length ds * 2 ^ 33 < 2 ^ 62" using b1(3) b2(3) Cons.prems(3) p by simp
  ultimately show ?case using Cons.IH [OF _ b2(2)] Cons.prems(1) b1(3) b2(3) by auto
qed simp

lemma ascii_no_NUL: "ascii s \<Longrightarrow> takeWhile (\<lambda>c. c \<noteq> NUL) s = s"
  by (auto simp: ascii_def takeWhile_eq_all_conv)

lemma deps_line_ascii:
  assumes "named mods" and "i < length mods" and "set ds \<subseteq> {..<length mods}"
  shows "ascii (deps_line mods i ds)"
proof -
  have "ascii (concat (map (\<lambda>d. '' '' @ mod_get_compressed_path (mods ! d)) ds))"
    using assms(3) by (induction ds) (use assms(1) in \<open>auto simp: named_def\<close>)
  then show ?thesis using assms(1,2) by (simp add: deps_line_def named_def)
qed

lemma output_deps_bin_mod_spec:
  assumes "numbered mods" and q: "qsort_spec qsort" and nm: "named mods" and sm: "small_array (length mods) a" and i: "i < length mods"
    and f: "length mods < fuel" and b: "strbuf_inv b"
  shows "\<exists>a' b' ds. output_deps_bin_mod fuel (\<lambda>_. True) qsort mods i (idx, a, b)
      = do { (d, idx) \<leftarrow> index_insert idx (dm_modname (mods ! i)) (deps_line mods i ds) (ucast (dm_idx (mods ! i))); Some (idx, a', b') }
    \<and> small_array (length mods) a' \<and> strbuf_inv b' \<and> load_order mods i ds \<and> set ds \<subseteq> {..<length mods}"
proof -
  let ?p = "mod_get_compressed_path (mods ! i)"
  obtain a' where a': "mod_get_all_sorted_dependencies fuel (\<lambda>_. True) qsort mods i a = Some (True, a')"
    "small_array (length mods) a'" "load_order mods i (array_list a')"
    using sorted_deps_spec [OF assms(1) q sm i f] by blast
  have ds: "set (array_list a') \<subseteq> {..<length mods}" using a'(2) by (simp add: small_array_def)
  have p: "length ?p < 2 ^ 32" "?p \<noteq> []" "ascii ?p" using nm i by (auto simp: named_def)
  obtain b1 where b1: "strbuf_pushmem (\<lambda>_. True) (strbuf_clear b) ?p = Some (of_nat (length ?p), b1)" "strbuf_inv b1" "sb_text b1 = ?p"
    using strbuf_pushmem_ok [of "strbuf_clear b" ?p] b p by auto
  have nz: "(of_nat (length ?p) :: size_t) \<noteq> 0"
  proof
    assume "(of_nat (length ?p) :: size_t) = 0"
    then have "unat (of_nat (length ?p) :: size_t) = 0" by simp
    then show False using p by (simp add: unat_of_nat)
  qed
  obtain b2 where b2: "strbuf_pushchar (\<lambda>_. True) b1 CHR '':'' = Some (True, b2)" "strbuf_inv b2" "sb_text b2 = ?p @ '':''"
    using strbuf_pushchar_ok [OF b1(2), of "CHR '':''"] b1(3) p by auto
  have "length (array_list a') \<le> 65534" using small_array_length [OF a'(2)] assms(1) by (simp add: numbered_def edges_ok_def)
  then have "length (sb_text b2) + length (array_list a') * 2 ^ 33 < 2 ^ 62" using b2(3) p by simp
  then obtain b3 where b3: "foldM (push_dep (\<lambda>_. True) mods) (array_list a') b2 = Some b3" "strbuf_inv b3"
    "sb_text b3 = deps_line mods i (array_list a')"
    using push_deps_spec [OF nm ds b2(2)] b2(3) by (auto simp: deps_line_def)
  obtain b4 where b4: "strbuf_str b3 = Some (deps_line mods i (array_list a'), b4)" "strbuf_inv b4"
    using strbuf_str_spec [OF b3(2)] b3(3) ascii_no_NUL [OF deps_line_ascii [OF nm i ds]] by auto
  have "output_deps_bin_mod fuel (\<lambda>_. True) qsort mods i (idx, a, b)
      = do { (d, idx) \<leftarrow> index_insert idx (dm_modname (mods ! i)) (deps_line mods i (array_list a')) (ucast (dm_idx (mods ! i)));
             Some (idx, a', b4) }"
    using a'(1) b1(1) b2(1) b3(1) b4(1) nz by (simp add: output_deps_bin_mod_def strbuf_pushchars_def Let_def)
  then show ?thesis using a'(2,3) b4(2) ds by blast
qed

definition dep_entries :: "dmod list \<Rightarrow> (nat \<Rightarrow> nat list) \<Rightarrow> nat \<Rightarrow> (string \<times> string \<times> u32) list" where
  "dep_entries mods dss k = map (\<lambda>i. (dm_modname (mods ! i), deps_line mods i (dss i), ucast (dm_idx (mods ! i)))) [0..<k]"

lemma deps_index_spec:
  assumes num: "numbered mods" and q: "qsort_spec qsort" and nm: "named mods" and f: "length mods < fuel"
  shows "\<exists>idx dss. deps_index fuel (\<lambda>_. True) qsort mods = Some idx \<and> index_build (dep_entries mods dss (length mods)) = Some idx
    \<and> (\<forall>i < length mods. load_order mods i (dss i) \<and> set (dss i) \<subseteq> {..<length mods})"
proof -
  obtain a0 where a0: "array_init 64 = Some a0" "small_array (length mods) a0" using array_init_small by blast
  let ?step = "output_deps_bin_mod fuel (\<lambda>_. True) qsort mods" and ?init = "(index_create, a0, strbuf_with_stack 2048)"
  have "\<exists>idx a b dss. foldM ?step [0..<k] ?init = Some (idx, a, b) \<and> small_array (length mods) a \<and> strbuf_inv b
      \<and> index_build (dep_entries mods dss k) = Some idx \<and> (\<forall>i < k. load_order mods i (dss i) \<and> set (dss i) \<subseteq> {..<length mods})"
    if "k \<le> length mods" for k
    using that
  proof (induction k)
    case 0
    then show ?case using a0(2) by (simp add: dep_entries_def index_build_def)
  next
    case (Suc k)
    then obtain idx a b dss where IH: "foldM ?step [0..<k] ?init = Some (idx, a, b)" "small_array (length mods) a" "strbuf_inv b"
      "index_build (dep_entries mods dss k) = Some idx" "\<forall>i < k. load_order mods i (dss i) \<and> set (dss i) \<subseteq> {..<length mods}" by auto
    have k: "k < length mods" using Suc.prems by simp
    obtain a' b' ds where S: "?step k (idx, a, b)
        = do { (d, idx) \<leftarrow> index_insert idx (dm_modname (mods ! k)) (deps_line mods k ds) (ucast (dm_idx (mods ! k))); Some (idx, a', b') }"
      "small_array (length mods) a'" "strbuf_inv b'" "load_order mods k ds" "set ds \<subseteq> {..<length mods}"
      using output_deps_bin_mod_spec [OF num q nm IH(2) k f IH(3)] by blast
    let ?dss = "dss(k := ds)"
    have e: "dep_entries mods ?dss (Suc k) = dep_entries mods dss k @ [(dm_modname (mods ! k), deps_line mods k ds, ucast (dm_idx (mods ! k)))]"
      by (simp add: dep_entries_def)
    have "\<forall>(key, v, p) \<in> set (dep_entries mods ?dss (Suc k)). ascii key \<and> ascii v"
      using nm deps_line_ascii [OF nm] k S(5) IH(5) by (fastforce simp: dep_entries_def named_def)
    then obtain idx' where idx': "index_build (dep_entries mods ?dss (Suc k)) = Some idx'"
      using index_build_spec by blast
    then obtain d where "index_insert idx (dm_modname (mods ! k)) (deps_line mods k ds) (ucast (dm_idx (mods ! k))) = Some (d, idx')"
      using IH(4) unfolding e by (auto simp: index_build_def foldM_append bind_eq_Some_conv)
    then show ?case using IH S by (intro exI [of _ idx'] exI [of _ a'] exI [of _ b'] exI [of _ ?dss] conjI idx')
        (simp_all add: foldM_append less_Suc_eq)
  qed
  then show ?thesis using a0(1) by (fastforce simp: deps_index_def)
qed

section \<open>Properties\<close>

lemma same_paths:
  assumes "length mods' = length mods" and "\<forall>i < length mods. dm_path (mods' ! i) = dm_path (mods ! i) \<and> dm_relpath (mods' ! i) = dm_relpath (mods ! i)"
  shows "i < length mods \<Longrightarrow> mod_get_compressed_path (mods' ! i) = mod_get_compressed_path (mods ! i)"
    and "i < length mods \<Longrightarrow> set ds \<subseteq> {..<length mods} \<Longrightarrow> deps_line mods' i ds = deps_line mods i ds"
proof -
  have p: "mod_get_compressed_path (mods' ! j) = mod_get_compressed_path (mods ! j)" if "j < length mods" for j
    using assms that by (simp add: mod_get_compressed_path_def split: option.split)
  show "i < length mods \<Longrightarrow> mod_get_compressed_path (mods' ! i) = mod_get_compressed_path (mods ! i)" by (rule p)
  show "i < length mods \<Longrightarrow> set ds \<subseteq> {..<length mods} \<Longrightarrow> deps_line mods' i ds = deps_line mods i ds"
    using p by (auto simp: deps_line_def subset_iff intro!: arg_cong [where f = concat])
qed

lemma closure_positions:
  assumes "edges_ok mods" and "load_order mods i ds"
  shows "set ds \<subseteq> {..<length mods}"
proof
  fix y assume "y \<in> set ds"
  then have "(i, y) \<in> (dep_edges mods)\<^sup>+" using assms(2) by (simp add: load_order_def)
  then show "y \<in> {..<length mods}"
    by (rule tranclE) (use assms(1) in \<open>auto simp: dep_edges_def edges_ok_def\<close>)
qed

text \<open>
  C6. \<open>modules.dep\<close> is right: for a well-formed acyclic module table depmod's calculation succeeds
  and the text file has one line per module, in table order, with the module's path, a colon and
  the paths of exactly the modules it needs directly or indirectly, each once, and so ordered that
  no module is followed by one that needs it.
\<close>

theorem modules_dep_text:
  assumes "wf_mods mods" and "acyclic (dep_edges mods)" and "qsort_spec qsort"
  shows "\<exists>mods' dss. depmod_calculate_dependencies fuel (\<lambda>_. True) qsort mods = Some (Some (Inr (), mods', []))
    \<and> output_deps (Suc (length mods)) (\<lambda>_. True) qsort mods'
        = Some (concat (map (\<lambda>i. mod_get_compressed_path (mods ! i) @ '':''
            @ concat (map (\<lambda>d. '' '' @ mod_get_compressed_path (mods ! d)) (dss i)) @ [CHR 0x0A]) [0..<length mods]))
    \<and> (\<forall>i < length mods. distinct (dss i) \<and> set (dss i) = (dep_edges mods)\<^sup>+ `` {i}
         \<and> sorted_wrt (\<lambda>x y. (y, x) \<notin> (dep_edges mods)\<^sup>+) (dss i))"
proof -
  obtain mods' where M: "depmod_calculate_dependencies fuel (\<lambda>_. True) qsort mods = Some (Some (Inr (), mods', []))"
    "topo_ready mods mods'" "\<forall>i < length mods. dm_path (mods' ! i) = dm_path (mods ! i) \<and> dm_relpath (mods' ! i) = dm_relpath (mods ! i)"
    using calculate_spec(1)[OF assms(1,3,2), of fuel] by blast
  note N = topo_ready_numbered [OF assms(1) M(2)]
  have len: "length mods' = length mods" using M(2) by (simp add: topo_ready_def)
  obtain dss where D: "output_deps (Suc (length mods)) (\<lambda>_. True) qsort mods'
      = Some (concat (map (\<lambda>i. deps_line mods' i (dss i) @ [CHR 0x0A]) [0..<length mods]))"
    "\<forall>i < length mods. load_order mods' i (dss i)"
    using output_deps_spec [OF N(1) assms(3), of "Suc (length mods)"] len by auto
  have "deps_line mods' i (dss i) = deps_line mods i (dss i)" if "i < length mods" for i
    using same_paths(2)[OF len M(3) that] closure_positions [of mods' i "dss i"] D(2) that N(1) len by (simp add: numbered_def)
  then have eq: "map (\<lambda>i. deps_line mods' i (dss i) @ [CHR 0x0A]) [0..<length mods]
      = map (\<lambda>i. mod_get_compressed_path (mods ! i) @ '':''
            @ concat (map (\<lambda>d. '' '' @ mod_get_compressed_path (mods ! d)) (dss i)) @ [CHR 0x0A]) [0..<length mods]"
    by (simp add: deps_line_def)
  have "\<forall>i < length mods. distinct (dss i) \<and> set (dss i) = (dep_edges mods)\<^sup>+ `` {i}
         \<and> sorted_wrt (\<lambda>x y. (y, x) \<notin> (dep_edges mods)\<^sup>+) (dss i)" using D(2) N(2) by (simp add: load_order_def)
  then show ?thesis using M(1) D(1)[unfolded eq] by blast
qed

lemma chain_closure:
  assumes "\<forall>i < length chain_mods. distinct (dss i) \<and> set (dss i) = (dep_edges chain_mods)\<^sup>+ `` {i}
     \<and> sorted_wrt (\<lambda>x y. (y, x) \<notin> (dep_edges chain_mods)\<^sup>+) (dss i)"
  shows "dss 0 = [1, 2]" "dss 1 = [2]" "dss 2 = []"
proof -
  have R: "(dep_edges chain_mods)\<^sup>+ = {(0, 1), (0, 2), (1, 2)}"
    unfolding chain_mods_wf(3) by (rule trancl_id) (auto intro!: transI)
  have D: "distinct (dss i) \<and> set (dss i) = {(0, 1), (0, 2), (1, 2)} `` {i} \<and> sorted_wrt (\<lambda>x y. (y, x) \<notin> {(0, 1), (0, 2), (1, 2)}) (dss i)"
    if "i < 3" for i using assms that unfolding R by (simp add: chain_mods_def)
  have S: "set (dss 0) = {1, 2}" "set (dss 1) = {2}" "set (dss 2) = {}" using D by auto
  have L: "length (dss 0) = 2" "length (dss 1) = 1"
    using D [of 0, THEN conjunct1] distinct_card [of "dss 0", unfolded S(1)]
      D [of 1, THEN conjunct1] distinct_card [of "dss 1", unfolded S(2)] by simp_all
  show "dss 2 = []" using S by simp
  show "dss 1 = [2]" using S(2) L(2) by (cases "dss 1") auto
  obtain a b where ab: "dss 0 = [a, b]" using L(1) by (auto simp: length_Suc_conv numeral_2_eq_2)
  have "{a, b} = {1, 2}" "(b, a) \<noteq> (1, 2)" using S(1) D [of 0] ab by auto
  then have "a = 1" "b = 2" by (auto simp: doubleton_eq_iff)
  then show "dss 0 = [1, 2]" using ab by simp
qed

theorem modules_dep_text_witness:
  "\<exists>qsort mods' out. depmod_calculate_dependencies 0 (\<lambda>_. True) qsort chain_mods = Some (Some (Inr (), mods', []))
    \<and> output_deps 4 (\<lambda>_. True) qsort mods' = Some out
    \<and> out = ''ext4.ko: jbd2.ko crc.ko'' @ [CHR 0x0A] @ ''jbd2.ko: crc.ko'' @ [CHR 0x0A] @ ''crc.ko:'' @ [CHR 0x0A]"
proof -
  note T = modules_dep_text [OF chain_mods_wf(1,2) insort_qsort_spec, of 0]
  obtain qsort mods' dss where D: "depmod_calculate_dependencies 0 (\<lambda>_. True) qsort chain_mods = Some (Some (Inr (), mods', []))"
    "output_deps (Suc (length chain_mods)) (\<lambda>_. True) qsort mods'
        = Some (concat (map (\<lambda>i. mod_get_compressed_path (chain_mods ! i) @ '':''
            @ concat (map (\<lambda>d. '' '' @ mod_get_compressed_path (chain_mods ! d)) (dss i)) @ [CHR 0x0A]) [0..<length chain_mods]))"
    and ord: "\<forall>i < length chain_mods. distinct (dss i) \<and> set (dss i) = (dep_edges chain_mods)\<^sup>+ `` {i}
         \<and> sorted_wrt (\<lambda>x y. (y, x) \<notin> (dep_edges chain_mods)\<^sup>+) (dss i)"
    using T by blast
  have e: "Suc (length chain_mods) = 4" "[0..<length chain_mods] = [0, 1, 2]" by (simp_all add: chain_mods_def upt_rec)
  show ?thesis using D(1) D(2)[unfolded e list.map chain_closure [OF ord]]
    by (intro exI [of _ qsort] exI [of _ mods']) (simp add: chain_mods_def mod_get_compressed_path_def)
qed

lemma deps_bin_lookup:
  assumes "wf_mods mods" and "acyclic (dep_edges mods)" and "qsort_spec qsort" and "named mods"
    and "distinct (map dm_modname mods)"
    and "depmod_calculate_dependencies fuel (\<lambda>_. True) qsort mods = Some (Some (Inr (), mods', []))"
    and "deps_index (Suc (length mods)) (\<lambda>_. True) qsort mods' = Some root" and "trie_len root + 12 < 2 ^ 28"
  shows "\<exists>file idx. output_deps_bin (Suc (length mods)) (\<lambda>_. True) qsort mods' False True = Some (Inr file)
    \<and> index_mm_open True (Inr file) None = Inr idx
    \<and> (\<forall>i < length mods. \<exists>ds. index_mm_search idx (dm_modname (mods ! i)) = Some (Some (deps_line mods i ds)) \<and> load_order mods i ds)"
proof -
  let ?n = "length mods"
  have M: "topo_ready mods mods'" "\<forall>i < ?n. dm_modname (mods' ! i) = dm_modname (mods ! i)"
    "\<forall>i < ?n. dm_path (mods' ! i) = dm_path (mods ! i) \<and> dm_relpath (mods' ! i) = dm_relpath (mods ! i)"
    using calculate_spec(1)[OF assms(1,3,2), of fuel] assms(6) by auto
  note N = topo_ready_numbered [OF assms(1) M(1)]
  have len: "length mods' = ?n" using M(1) by (simp add: topo_ready_def)
  have nm: "named mods'" using assms(4) M(2) same_paths(1)[OF len M(3)] by (simp add: named_def len)
  obtain dss where D: "index_build (dep_entries mods' dss ?n) = Some root"
    "\<forall>i < ?n. load_order mods' i (dss i) \<and> set (dss i) \<subseteq> {..<?n}"
    using deps_index_spec [OF N(1) assms(3) nm, of "Suc ?n"] assms(7) len by auto
  have lines: "deps_line mods' i (dss i) = deps_line mods i (dss i)" if "i < ?n" for i
    using same_paths(2)[OF len M(3) that] D(2) that by simp
  have asc: "\<forall>(k, v, p) \<in> set (dep_entries mods' dss ?n). ascii k \<and> ascii v"
    using nm deps_line_ascii [OF nm] D(2) len by (auto simp: dep_entries_def named_def)
  obtain idx where idx: "index_mm_open True (Inr (index_write root)) None = Inr idx"
    "\<And>key. \<exists>r. index_mm_search idx key = Some r
         \<and> (case r of None \<Rightarrow> \<forall>v p. (key, v, p) \<notin> set (dep_entries mods' dss ?n)
            | Some v \<Rightarrow> \<exists>p. (key, v, p) \<in> set (dep_entries mods' dss ?n))"
    using index_build_search [OF asc D(1) assms(8)] by (fastforce split: option.splits)
  have "\<exists>ds. index_mm_search idx (dm_modname (mods ! i)) = Some (Some (deps_line mods i ds)) \<and> load_order mods' i ds" if i: "i < ?n" for i
  proof -
    have e: "(dm_modname (mods ! i), v, p) \<in> set (dep_entries mods' dss ?n)
        \<longleftrightarrow> v = deps_line mods i (dss i) \<and> p = ucast (dm_idx (mods' ! i))" for v p
    proof -
      have "(dm_modname (mods ! i), v, p) \<in> set (dep_entries mods' dss ?n) \<longleftrightarrow>
          (\<exists>j < ?n. dm_modname (mods ! i) = dm_modname (mods ! j) \<and> v = deps_line mods' j (dss j) \<and> p = ucast (dm_idx (mods' ! j)))"
        using M(2) by (auto simp: dep_entries_def)
      also have "\<dots> \<longleftrightarrow> v = deps_line mods' i (dss i) \<and> p = ucast (dm_idx (mods' ! i))"
        using assms(5) i by (auto simp: distinct_conv_nth)
      finally show ?thesis using lines [OF i] by simp
    qed
    obtain r where r: "index_mm_search idx (dm_modname (mods ! i)) = Some r"
      "case r of None \<Rightarrow> \<forall>v p. (dm_modname (mods ! i), v, p) \<notin> set (dep_entries mods' dss ?n)
            | Some v \<Rightarrow> \<exists>p. (dm_modname (mods ! i), v, p) \<in> set (dep_entries mods' dss ?n)"
      using idx(2) by blast
    have "r = Some (deps_line mods i (dss i))" using r(2) unfolding e by (auto split: option.splits)
    then show ?thesis using r(1) D(2) i by auto
  qed
  then have "\<forall>i < ?n. \<exists>ds. index_mm_search idx (dm_modname (mods ! i)) = Some (Some (deps_line mods i ds)) \<and> load_order mods i ds"
    using N(2) by (simp add: load_order_def)
  moreover have "output_deps_bin (Suc ?n) (\<lambda>_. True) qsort mods' False True = Some (Inr (index_write root))"
    using assms(7) by (simp add: output_deps_bin_def)
  ultimately show ?thesis using idx(1) by blast
qed

text \<open>
  C4. From the dependency graph to the library's answer: for a well-formed acyclic module table with
  distinct 7-bit module names, the index that depmod writes to \<open>modules.dep.bin\<close> opens in the
  library, and searching it for the name of a module gives that module's path, a colon and the
  paths of exactly the modules it needs directly or indirectly, so ordered that no module is
  followed by one that needs it. The bound is that of the format's 28-bit offsets.
\<close>

theorem modules_dep_bin_lookup:
  assumes "wf_mods mods" and "acyclic (dep_edges mods)" and "qsort_spec qsort" and "named mods"
    and "distinct (map dm_modname mods)"
    and "depmod_calculate_dependencies fuel (\<lambda>_. True) qsort mods = Some (Some (Inr (), mods', []))"
    and "deps_index (Suc (length mods)) (\<lambda>_. True) qsort mods' = Some root" and "trie_len root + 12 < 2 ^ 28"
  shows "\<exists>file idx. output_deps_bin (Suc (length mods)) (\<lambda>_. True) qsort mods' False True = Some (Inr file)
    \<and> index_mm_open True (Inr file) None = Inr idx
    \<and> (\<forall>i < length mods. \<exists>ds. index_mm_search idx (dm_modname (mods ! i))
           = Some (Some (mod_get_compressed_path (mods ! i) @ '':'' @ concat (map (\<lambda>d. '' '' @ mod_get_compressed_path (mods ! d)) ds)))
         \<and> distinct ds \<and> set ds = (dep_edges mods)\<^sup>+ `` {i} \<and> sorted_wrt (\<lambda>x y. (y, x) \<notin> (dep_edges mods)\<^sup>+) ds)"
  using deps_bin_lookup [OF assms] by (simp add: deps_line_def load_order_def)

definition one_mod :: "dmod list" where
  "one_mod = [example_mod ''dm'' 0 [] 0]"

lemma one_mod_facts: "wf_mods one_mod" "dep_edges one_mod = {}" "named one_mod"
proof -
  have "deps_of one_mod 0 = []" by (simp add: one_mod_def table_simps)
  moreover have "i < length one_mod \<longleftrightarrow> i = 0" for i by (simp add: one_mod_def)
  ultimately show "dep_edges one_mod = {}" unfolding dep_edges_def by (auto intro: ccontr)
qed (simp_all add: wf_mods_check named_def one_mod_def table_simps mod_get_compressed_path_def)

lemma one_entry_index:
  "index_build [(''dm'', ''dm.ko:'', 0)] = Some (Node [] [] 100 100 0 0
     ((\<lambda>_. None)(100 \<mapsto> Node ''m'' [(0, ''dm.ko:'')] INDEX_CHILDMAX 0 0 0 (\<lambda>_. None))))"
proof -
  have "insert_loop index_create ''dm'' ''dm.ko:'' 0 = Some (0, Node [] [] 100 100 0 0
     ((\<lambda>_. None)(100 \<mapsto> Node ''m'' [(0, ''dm.ko:'')] INDEX_CHILDMAX 0 0 0 (\<lambda>_. None))))"
    by (subst insert_loop.simps) (simp add: fit_node_def index_create_def index_add_value_def)
  then show ?thesis by (simp add: index_build_def index_insert_def)
qed

theorem modules_dep_bin_lookup_witness:
  "\<exists>qsort mods' img idx. output_deps_bin 2 (\<lambda>_. True) qsort mods' False True = Some (Inr img)
    \<and> index_mm_open True (Inr img) None = Inr idx \<and> index_mm_search idx ''dm'' = Some (Some ''dm.ko:'')"
proof -
  have ac: "acyclic (dep_edges one_mod)" by (simp add: one_mod_facts(2) acyclic_def)
  obtain qsort where q: "qsort_spec qsort" using insort_qsort_spec by blast
  obtain mods' where M: "depmod_calculate_dependencies 0 (\<lambda>_. True) qsort one_mod = Some (Some (Inr (), mods', []))"
    "topo_ready one_mod mods'" "\<forall>i < length one_mod. dm_modname (mods' ! i) = dm_modname (one_mod ! i) \<and> dm_path (mods' ! i) = dm_path (one_mod ! i)
          \<and> dm_relpath (mods' ! i) = dm_relpath (one_mod ! i) \<and> dm_idx (mods' ! i) = dm_idx (one_mod ! i)"
    using calculate_spec(1)[OF one_mod_facts(1) q ac, of 0] by blast
  have f: "length one_mod = 1" "length mods' = 1" "dm_modname (mods' ! 0) = ''dm''" "mod_get_compressed_path (mods' ! 0) = ''dm.ko''" "dm_idx (mods' ! 0) = 0"
    using M(2,3) by (simp_all add: one_mod_def topo_ready_def mod_get_compressed_path_def)
  note N = topo_ready_numbered [OF one_mod_facts(1) M(2)]
  have "named mods'" using f by (simp add: named_def)
  then obtain root dss where I: "deps_index 2 (\<lambda>_. True) qsort mods' = Some root" "index_build (dep_entries mods' dss 1) = Some root"
    "load_order mods' 0 (dss 0)"
    using deps_index_spec [OF N(1) q, of 2] f(2) by auto
  have "dss 0 = []" using I(3) N(2) one_mod_facts(2) by (simp add: load_order_def)
  then have "dep_entries mods' dss 1 = [(''dm'', ''dm.ko:'', 0)]" using f by (simp add: dep_entries_def deps_line_def)
  then have len: "trie_len root + 12 < 2 ^ 28" using I(2) one_entry_index by (auto simp: head_len_def child_range_def)
  have d: "distinct (map dm_modname one_mod)" by (simp add: one_mod_def)
  have I': "deps_index (Suc (length one_mod)) (\<lambda>_. True) qsort mods' = Some root" using I(1) f(1) by (simp add: numeral_2_eq_2)
  obtain img idx ds where "output_deps_bin 2 (\<lambda>_. True) qsort mods' False True = Some (Inr img)"
    "index_mm_open True (Inr img) None = Inr idx"
    "index_mm_search idx (dm_modname (one_mod ! 0))
       = Some (Some (mod_get_compressed_path (one_mod ! 0) @ '':'' @ concat (map (\<lambda>d. '' '' @ mod_get_compressed_path (one_mod ! d)) ds)))"
    "set ds = (dep_edges one_mod)\<^sup>+ `` {0}"
    using modules_dep_bin_lookup [OF one_mod_facts(1) ac q one_mod_facts(3) d M(1) I' len] f(1) by (auto simp: numeral_2_eq_2)
  then show ?thesis using one_mod_facts(2) by (auto simp: one_mod_def mod_get_compressed_path_def)
qed

end
