(* ===== verification/Kmod_Util.thy ===== *)
theory Kmod_Util
  imports Kmod_Strbuf
begin

text \<open>
  \<open>shared/util.c\<close>: normalisation of module names and aliases, the safe read and write loops, the
  reader of continued configuration lines, absolute paths and the back-off timer. Buffers of the
  caller are \<open>char slots\<close>; \<open>rd\<close> is a read of a C string that is undefined beyond its NUL. System
  calls are arguments: a function of the number of the call and of its parameters.
\<close>

section \<open>Strings\<close>

abbreviation PATH_MAX :: nat where "PATH_MAX \<equiv> 4096"

definition rd :: "string \<Rightarrow> nat \<Rightarrow> char option" where
  "rd s i = (if i < length s then Some (s ! i) else if i = length s then Some NUL else None)"

definition kmod_exts :: "bool \<Rightarrow> bool \<Rightarrow> bool \<Rightarrow> string list" where
  "kmod_exts zlib xz zstd =
     [''.ko''] @ (if zlib then [''.ko.gz''] else []) @ (if xz then [''.ko.xz''] else [])
     @ (if zstd then [''.ko.zst''] else [])"

definition memdup :: "(size_t \<Rightarrow> bool) \<Rightarrow> char list \<Rightarrow> nat \<Rightarrow> char list option option" where
  "memdup alloc p n =
     (if \<not> alloc (of_nat n) then Some None
      else if n \<le> length p then Some (Some (take n p)) else None)"

primrec strchr_replace :: "string \<Rightarrow> char \<Rightarrow> char \<Rightarrow> string" where
  "strchr_replace [] c r = []"
| "strchr_replace (p # s) c r = (if p = c then r else p) # strchr_replace s c r"

definition strcspn :: "string \<Rightarrow> string \<Rightarrow> nat" where
  "strcspn s reject = length (takeWhile (\<lambda>c. c \<notin> set reject) s)"

section \<open>Names of modules and aliases\<close>

text \<open>The \<open>while\<close> loop of \<open>alias_normalize\<close> that copies a character range.\<close>

function alias_range :: "string \<Rightarrow> nat \<Rightarrow> char slots \<Rightarrow> (nat \<times> char slots) option" where
  "alias_range alias i buf =
     (if i < PATH_MAX - 1 then
        do { c \<leftarrow> rd alias i;
             if c \<noteq> CHR '']'' \<and> c \<noteq> NUL then
               do { buf \<leftarrow> store i c buf; alias_range alias (Suc i) buf }
             else Some (i, buf) }
      else Some (i, buf))"
  by pat_completeness auto

termination by (relation "measure (\<lambda>(alias, i, buf). PATH_MAX - i)") auto

declare alias_range.simps [simp del]

lemma alias_range_mono: "alias_range a i buf = Some (j, buf') \<Longrightarrow> i \<le> j"
proof (induction a i buf arbitrary: j buf' rule: alias_range.induct)
  case (1 a i buf)
  then show ?case
    by (subst (asm) (2) alias_range.simps) (fastforce simp: bind_eq_Some_conv split: if_splits)
qed

function alias_loop :: "string \<Rightarrow> nat \<Rightarrow> char slots \<Rightarrow> (nat result \<times> char slots) option" where
  "alias_loop alias i buf =
     (if i < PATH_MAX - 1 then
        do { c \<leftarrow> rd alias i;
             if c = CHR ''-'' then do { buf \<leftarrow> store i CHR ''_'' buf; alias_loop alias (Suc i) buf }
             else if c = CHR '']'' then Some (Inl EINVAL, buf)
             else if c = CHR ''['' then
               do { (j, buf) \<leftarrow> alias_range alias i buf;
                    if PATH_MAX - 1 \<le> j then Some (Inl EINVAL, buf)
                    else
                      do { c \<leftarrow> rd alias j;
                           if c \<noteq> CHR '']'' then Some (Inl EINVAL, buf)
                           else do { buf \<leftarrow> store j c buf; alias_loop alias (Suc j) buf } } }
             else if c = NUL then Some (Inr i, buf)
             else do { buf \<leftarrow> store i c buf; alias_loop alias (Suc i) buf } }
      else Some (Inr i, buf))"
  by pat_completeness auto

termination
  by (relation "measure (\<lambda>(alias, i, buf). PATH_MAX - i)") (auto dest: alias_range_mono)

declare alias_loop.simps [simp del]

definition alias_normalize :: "string \<Rightarrow> char slots \<Rightarrow> (nat result \<times> char slots) option" where
  "alias_normalize alias buf =
     do { (r, buf) \<leftarrow> alias_loop alias 0 buf;
          case r of
            Inl e \<Rightarrow> Some (Inl e, buf)
          | Inr i \<Rightarrow> do { buf \<leftarrow> store i NUL buf; Some (Inr i, buf) } }"

function underscores_loop :: "string \<Rightarrow> nat \<Rightarrow> (unit result \<times> string) option" where
  "underscores_loop s i =
     do { c \<leftarrow> rd s i;
          if c = NUL then Some (Inr (), s)
          else if c = CHR ''-'' then underscores_loop (s[i := CHR ''_'']) (Suc i)
          else if c = CHR '']'' then Some (Inl EINVAL, s)
          else if c = CHR ''['' then
            (let j = i + strcspn (drop i s) '']'' in
             do { c \<leftarrow> rd s j;
                  if c = NUL then Some (Inl EINVAL, s) else underscores_loop s (Suc j) })
          else underscores_loop s (Suc i) }"
  by pat_completeness auto

termination
  by (relation "measure (\<lambda>(s, i). Suc (length s) - i)") (auto simp: rd_def split: if_splits)

declare underscores_loop.simps [simp del]

definition underscores :: "string option \<Rightarrow> (unit result \<times> string option) option" where
  "underscores s =
     (case s of
        None \<Rightarrow> Some (Inl EINVAL, None)
      | Some s \<Rightarrow> map_option (\<lambda>(r, s). (r, Some s)) (underscores_loop s 0))"

function modname_loop :: "string \<Rightarrow> nat \<Rightarrow> char slots \<Rightarrow> (nat \<times> char slots) option" where
  "modname_loop modname s buf =
     (if s < PATH_MAX - 1 then
        do { c \<leftarrow> rd modname s;
             if c = CHR ''-'' then do { buf \<leftarrow> store s CHR ''_'' buf; modname_loop modname (Suc s) buf }
             else if c = NUL \<or> c = CHR ''.'' then Some (s, buf)
             else do { buf \<leftarrow> store s c buf; modname_loop modname (Suc s) buf } }
      else Some (s, buf))"
  by pat_completeness auto

termination by (relation "measure (\<lambda>(modname, s, buf). PATH_MAX - s)") auto

declare modname_loop.simps [simp del]

definition modname_normalize :: "string \<Rightarrow> char slots \<Rightarrow> (nat \<times> char slots) option" where
  "modname_normalize modname buf =
     do { (s, buf) \<leftarrow> modname_loop modname 0 buf;
          buf \<leftarrow> store s NUL buf;
          Some (s, buf) }"

text \<open>The GNU \<open>basename\<close>: what follows the last slash, possibly nothing.\<close>

definition basename :: "string \<Rightarrow> string" where
  "basename s = rev (takeWhile (\<lambda>c. c \<noteq> CHR ''/'') (rev s))"

definition path_to_modname :: "string \<Rightarrow> char slots \<Rightarrow> (nat \<times> char slots) option option" where
  "path_to_modname path buf =
     (let modname = basename path in
      if modname = [] then Some None else map_option Some (modname_normalize modname buf))"

fun ends_with_ext :: "string list \<Rightarrow> string \<Rightarrow> nat \<Rightarrow> bool option" where
  "ends_with_ext [] path len = Some False"
| "ends_with_ext (ext # exts) path len =
     (if len \<le> length ext then ends_with_ext exts path len
      else if length path < len - length ext then None
      else if streq (drop (len - length ext) path) ext then Some True
      else ends_with_ext exts path len)"

definition path_ends_with_kmod_ext :: "bool \<Rightarrow> bool \<Rightarrow> bool \<Rightarrow> string \<Rightarrow> nat \<Rightarrow> bool option" where
  "path_ends_with_kmod_ext zlib xz zstd path len = ends_with_ext (kmod_exts zlib xz zstd) path len"

section \<open>Contents of the caller's buffer\<close>

definition filled :: "char slots \<Rightarrow> char list \<Rightarrow> bool" where
  "filled buf cs \<longleftrightarrow> length buf = PATH_MAX \<and> length cs \<le> PATH_MAX \<and> take (length cs) buf = map Some cs"

lemma filled_Nil: "filled buf [] \<longleftrightarrow> length buf = PATH_MAX"
  by (simp add: filled_def)

lemma filled_store:
  assumes "filled buf cs" and "n = length cs" and "n < PATH_MAX"
  shows "store n c buf = Some (buf[n := Some c])" and "filled (buf[n := Some c]) (cs @ [c])"
  using assms by (simp_all add: filled_def store_def take_Suc_conv_app_nth)

lemma filled_cstr:
  assumes "filled buf (cs @ [NUL])" and "nul_free cs"
  shows "read_cstr buf = Some cs"
proof -
  let ?n = "length cs"
  have t: "take (Suc ?n) buf = map Some (cs @ [NUL])" and l: "Suc ?n \<le> length buf" using assms(1) by (simp_all add: filled_def)
  then have "take ?n buf = map Some cs" "buf ! ?n = Some NUL"
    by (simp_all add: take_Suc_conv_app_nth)
  then have "init_upto ?n buf" "live ?n buf = cs" using init_upto_intro by auto
  then show ?thesis using read_cstr_live [of ?n buf] \<open>buf ! ?n = Some NUL\<close> l assms(2)
    by (auto simp: takeWhile_eq_all_conv)
qed

lemma rd_append [simp]:
  "length p = n \<Longrightarrow> rd (p @ c # s) n = Some c" "length p = n \<Longrightarrow> rd p n = Some NUL"
  by (auto simp: rd_def)

text \<open>The loops look at the first \<open>PATH_MAX - 1\<close> characters only.\<close>

definition window :: "string \<Rightarrow> string \<Rightarrow> string \<Rightarrow> bool" where
  "window p s rest \<longleftrightarrow> length (p @ s) \<le> PATH_MAX - 1 \<and> (rest = [] \<or> length (p @ s) = PATH_MAX - 1)"

lemma window_Cons: "window p (c # s) rest \<longleftrightarrow> window (p @ [c]) s rest"
  by (simp add: window_def)

lemma window_append: "window p (r @ s) rest \<longleftrightarrow> window (p @ r) s rest"
  by (simp add: window_def)

lemma window_room: "window p (c # s) rest \<Longrightarrow> length p < PATH_MAX - 1"
  by (simp add: window_def)

lemma window_take: "window [] (take (PATH_MAX - 1) s) (drop (PATH_MAX - 1) s)"
  by (auto simp: window_def)

section \<open>What the normalisations compute\<close>

text \<open>
  The reference for aliases: dashes become underscores, except inside \<open>[...]\<close>; a bracket without
  its partner is an error.
\<close>

function norm_alias :: "string \<Rightarrow> string option" where
  "norm_alias [] = Some []"
| "norm_alias (c # s) =
     (if c = CHR '']'' then None
      else if c = CHR ''['' then
        (case dropWhile (\<lambda>c. c \<noteq> CHR '']'') s of
           [] \<Rightarrow> None
         | d # u \<Rightarrow> map_option (\<lambda>v. c # takeWhile (\<lambda>c. c \<noteq> CHR '']'') s @ d # v) (norm_alias u))
      else map_option (Cons (if c = CHR ''-'' then CHR ''_'' else c)) (norm_alias s))"
  by pat_completeness auto

termination
proof (relation "measure length")
  fix c :: char and s d u
  assume "dropWhile (\<lambda>c. c \<noteq> CHR '']'') s = d # u"
  then have "length (d # u) \<le> length s" using length_dropWhile_le [of "\<lambda>c. c \<noteq> CHR '']''" s] by simp
  then show "(u, c # s) \<in> measure length" by simp
qed auto

definition norm_name :: "string \<Rightarrow> string" where
  "norm_name s = map (\<lambda>c. if c = CHR ''-'' then CHR ''_'' else c) (takeWhile (\<lambda>c. c \<noteq> CHR ''.'') s)"

lemma norm_alias_length: "norm_alias s = Some t \<Longrightarrow> length t = length s"
proof (induction s arbitrary: t rule: norm_alias.induct)
  case (2 c s)
  show ?case
  proof (cases "c = CHR ''[''")
    case True
    then obtain d u v where u: "dropWhile (\<lambda>c. c \<noteq> CHR '']'') s = d # u" and v: "norm_alias u = Some v"
      and t: "t = c # takeWhile (\<lambda>c. c \<noteq> CHR '']'') s @ d # v"
      using "2.prems" by (auto split: list.splits)
    have "length v = length u" using "2.IH"(1) True u v by simp
    moreover have "s = takeWhile (\<lambda>c. c \<noteq> CHR '']'') s @ d # u" using u by (metis takeWhile_dropWhile_id)
    then have "length s = length (takeWhile (\<lambda>c. c \<noteq> CHR '']'') s) + Suc (length u)" by (metis length_append length_Cons)
    ultimately show ?thesis by (simp add: t)
  next
    case False
    then show ?thesis using 2 by (auto split: if_splits)
  qed
qed simp

lemma alias_range_window:
  assumes "window p s rest" and "nul_free s" and "filled buf q" and "length q = length p"
  shows "\<exists>buf'. alias_range (p @ s @ rest) (length p) buf
      = Some (length p + length (takeWhile (\<lambda>c. c \<noteq> CHR '']'') s), buf')
    \<and> filled buf' (q @ takeWhile (\<lambda>c. c \<noteq> CHR '']'') s)"
  using assms
proof (induction s arbitrary: p q buf)
  case Nil
  then show ?case by (subst alias_range.simps) (auto simp: window_def)
next
  case (Cons c s)
  note room = window_room [OF Cons.prems(1)]
  show ?case
  proof (cases "c = CHR '']''")
    case True
    then show ?thesis using room Cons.prems by (subst alias_range.simps) auto
  next
    case False
    note st = filled_store [OF Cons.prems(3), of "length p" c]
    have len: "length p = length q" "length p < PATH_MAX" using room Cons.prems(4) by simp_all
    have "\<exists>buf'. alias_range ((p @ [c]) @ s @ rest) (length (p @ [c])) (buf[length p := Some c])
        = Some (length (p @ [c]) + length (takeWhile (\<lambda>c. c \<noteq> CHR '']'') s), buf')
      \<and> filled buf' ((q @ [c]) @ takeWhile (\<lambda>c. c \<noteq> CHR '']'') s)"
      by (rule Cons.IH) (use Cons.prems st len in \<open>auto simp: window_Cons\<close>)
    then show ?thesis using room False st(1) len Cons.prems(2) by (subst alias_range.simps) auto
  qed
qed

lemma alias_loop_range:
  assumes "alias_range a i buf = Some (j, buf')" and "i < PATH_MAX - 1" and "rd a i = Some CHR ''[''"
  shows "alias_loop a i buf =
    (if PATH_MAX - 1 \<le> j then Some (Inl EINVAL, buf')
     else do { c \<leftarrow> rd a j;
               if c \<noteq> CHR '']'' then Some (Inl EINVAL, buf')
               else do { b \<leftarrow> store j c buf'; alias_loop a (Suc j) b } })"
  using assms by (subst alias_loop.simps) simp

lemma alias_loop_window:
  assumes "window p s rest" and "nul_free s" and "filled buf q" and "length q = length p"
  shows "\<exists>buf'. length buf' = PATH_MAX \<and> (case norm_alias s of
      None \<Rightarrow> alias_loop (p @ s @ rest) (length p) buf = Some (Inl EINVAL, buf')
    | Some t \<Rightarrow> alias_loop (p @ s @ rest) (length p) buf = Some (Inr (length p + length s), buf') \<and> filled buf' (q @ t))"
  using assms
proof (induction s arbitrary: p q buf rule: norm_alias.induct)
  case 1
  then show ?case by (subst alias_loop.simps) (auto simp: window_def filled_def)
next
  case (2 c s)
  note room = window_room [OF "2.prems"(1)]
  have len: "length p = length q" "length p < PATH_MAX" "length buf = PATH_MAX" and nn: "c \<noteq> NUL" "nul_free s"
    using room "2.prems" by (auto simp: filled_def)
  note st = filled_store [OF "2.prems"(3) len(1,2)]
  consider "c = CHR '']''" | "c = CHR ''[''" | "c \<noteq> CHR '']''" "c \<noteq> CHR ''[''" by blast
  then show ?case
  proof cases
    case 1
    then show ?thesis using room len by (subst alias_loop.simps) auto
  next
    case 2
    let ?r = "takeWhile (\<lambda>c. c \<noteq> CHR '']'') s"
    obtain buf' where range: "alias_range (p @ (c # s) @ rest) (length p) buf = Some (length p + Suc (length ?r), buf')"
      and buf': "filled buf' (q @ c # ?r)"
      using alias_range_window [OF "2.prems"] 2 by auto
    have rd0: "rd (p @ (c # s) @ rest) (length p) = Some CHR ''[''" using 2 by simp
    note loop = alias_loop_range [OF range room rd0]
    show ?thesis
    proof (cases "dropWhile (\<lambda>c. c \<noteq> CHR '']'') s")
      case Nil
      then have r: "?r = s" by (metis append_Nil2 takeWhile_dropWhile_id)
      have "rd (p @ (c # s) @ rest) (length p + Suc (length s)) = Some NUL" if "\<not> PATH_MAX - 1 \<le> length p + Suc (length s)"
        using that "2.prems"(1) by (auto simp: window_def rd_def)
      then have l: "alias_loop (p @ (c # s) @ rest) (length p) buf = Some (Inl EINVAL, buf')" using loop unfolding r by simp
      have n: "norm_alias (c # s) = None" unfolding norm_alias.simps Nil using 2 by simp
      have "length buf' = PATH_MAX" using buf' by (simp add: filled_def)
      then show ?thesis unfolding l n by auto
    next
      case (Cons d u)
      then have s: "s = ?r @ d # u" by (metis takeWhile_dropWhile_id)
      have d: "d = CHR '']''" using hd_dropWhile [of "\<lambda>c. c \<noteq> CHR '']''" s] Cons by simp
      define a where "a = p @ c # ?r"
      have whole: "p @ (c # s) @ rest = a @ d # u @ rest" using s by (simp add: a_def)
      have la: "length p + Suc (length ?r) = length a" by (simp add: a_def)
      have w: "window (a @ [d]) u rest"
        using "2.prems"(1) window_append [of p "c # ?r @ [d]" u rest] s by (simp add: a_def)
      then have a4: "length a < PATH_MAX - 1" by (simp add: window_def)
      note st' = filled_store [OF buf', of "length a" d]
      have st1: "store (length a) d buf' = Some (buf'[length a := Some d])" "filled (buf'[length a := Some d]) (q @ c # ?r @ [d])"
        using st' len(1) a4 by (simp_all add: a_def)
      have l1: "alias_loop (p @ (c # s) @ rest) (length p) buf
          = alias_loop ((a @ [d]) @ u @ rest) (length (a @ [d])) (buf'[length a := Some d])"
        using loop a4 st1(1) unfolding la whole by (simp add: d)
      have "\<exists>b. length b = PATH_MAX \<and> (case norm_alias u of
          None \<Rightarrow> alias_loop ((a @ [d]) @ u @ rest) (length (a @ [d])) (buf'[length a := Some d]) = Some (Inl EINVAL, b)
        | Some t \<Rightarrow> alias_loop ((a @ [d]) @ u @ rest) (length (a @ [d])) (buf'[length a := Some d])
              = Some (Inr (length (a @ [d]) + length u), b) \<and> filled b ((q @ c # ?r @ [d]) @ t))"
      proof (rule "2.IH"(1) [OF _ 2 Cons w _ st1(2)])
        show "nul_free u" using nn s by (metis Un_iff set_append set_subset_Cons subsetD)
      qed (use 2 len in \<open>simp_all add: a_def\<close>)
      moreover have "length p + length (c # s) = length (a @ [d]) + length u" using arg_cong [OF s, of length] by (simp add: a_def)
      ultimately show ?thesis unfolding l1 using Cons 2 by (auto split: option.splits)
    qed
  next
    case 3
    let ?c = "if c = CHR ''-'' then CHR ''_'' else c"
    have l: "alias_loop (p @ (c # s) @ rest) (length p) buf
        = alias_loop ((p @ [c]) @ s @ rest) (length (p @ [c])) (buf[length p := Some ?c])"
      using room 3 st(1) nn by (subst alias_loop.simps) auto
    have "\<exists>b. length b = PATH_MAX \<and> (case norm_alias s of
        None \<Rightarrow> alias_loop ((p @ [c]) @ s @ rest) (length (p @ [c])) (buf[length p := Some ?c]) = Some (Inl EINVAL, b)
      | Some t \<Rightarrow> alias_loop ((p @ [c]) @ s @ rest) (length (p @ [c])) (buf[length p := Some ?c])
            = Some (Inr (length (p @ [c]) + length s), b) \<and> filled b ((q @ [?c]) @ t))"
      by (rule "2.IH"(2)) (use 3 "2.prems" st(2) nn in \<open>simp_all add: window_Cons\<close>)
    then show ?thesis unfolding l using 3 by (auto split: option.splits)
  qed
qed

lemma norm_alias_nul_free: "norm_alias s = Some t \<Longrightarrow> nul_free s \<Longrightarrow> nul_free t"
proof (induction s arbitrary: t rule: norm_alias.induct)
  case (2 c s)
  show ?case
  proof (cases "c = CHR ''[''")
    case True
    then obtain d u v where u: "dropWhile (\<lambda>c. c \<noteq> CHR '']'') s = d # u" and v: "norm_alias u = Some v"
      and t: "t = c # takeWhile (\<lambda>c. c \<noteq> CHR '']'') s @ d # v"
      using "2.prems"(1) by (auto split: list.splits)
    have "set (d # u) \<subseteq> set s" using u by (metis set_dropWhileD subsetI)
    then have "nul_free v" "d \<noteq> NUL" using "2.IH"(1) True u v "2.prems"(2) by auto
    then show ?thesis using "2.prems"(2) by (auto simp: t dest: set_takeWhileD)
  next
    case False
    then show ?thesis using 2 by (auto split: if_splits)
  qed
qed simp

lemma alias_normalize_spec:
  assumes "nul_free s" and "length buf = PATH_MAX"
  shows "\<exists>buf'. length buf' = PATH_MAX \<and> (case norm_alias (take (PATH_MAX - 1) s) of
      None \<Rightarrow> alias_normalize s buf = Some (Inl EINVAL, buf')
    | Some t \<Rightarrow> alias_normalize s buf = Some (Inr (length t), buf') \<and> read_cstr buf' = Some t)"
proof -
  let ?t = "take (PATH_MAX - 1) s" and ?r = "drop (PATH_MAX - 1) s"
  have nf: "nul_free ?t" using assms(1) by (meson in_set_takeD)
  obtain b where b: "length b = PATH_MAX" "case norm_alias ?t of
      None \<Rightarrow> alias_loop ([] @ ?t @ ?r) (length ([] :: string)) buf = Some (Inl EINVAL, b)
    | Some t \<Rightarrow> alias_loop ([] @ ?t @ ?r) (length ([] :: string)) buf = Some (Inr (length ([] :: string) + length ?t), b) \<and> filled b ([] @ t)"
    using alias_loop_window [OF window_take nf, of buf "[]"] assms(2) by (auto simp: filled_Nil)
  show ?thesis
  proof (cases "norm_alias ?t")
    case None
    then show ?thesis using b by (auto simp: alias_normalize_def)
  next
    case (Some t)
    have len: "length t = length ?t" using norm_alias_length [OF Some] .
    then have lt: "length t < PATH_MAX" by simp
    have f: "filled b t" and loop: "alias_loop s 0 buf = Some (Inr (length t), b)" using b Some len by simp_all
    note st = filled_store [OF f refl lt, of NUL]
    have "read_cstr (b[length t := Some NUL]) = Some t"
      using filled_cstr [OF st(2) norm_alias_nul_free [OF Some nf]] .
    then show ?thesis using Some loop st(1) b(1) by (auto simp: alias_normalize_def)
  qed
qed

lemma underscores_loop_range:
  "rd s i = Some CHR ''['' \<Longrightarrow> underscores_loop s i = do { c \<leftarrow> rd s (i + strcspn (drop i s) '']'');
     if c = NUL then Some (Inl EINVAL, s) else underscores_loop s (Suc (i + strcspn (drop i s) '']'')) }"
  by (subst underscores_loop.simps) (simp add: Let_def)

lemma underscores_loop_spec:
  assumes "nul_free s"
  shows "case norm_alias s of
      None \<Rightarrow> \<exists>s'. underscores_loop (p @ s) (length p) = Some (Inl EINVAL, p @ s')
    | Some t \<Rightarrow> underscores_loop (p @ s) (length p) = Some (Inr (), p @ t)"
  using assms
proof (induction s arbitrary: p rule: norm_alias.induct)
  case 1
  then show ?case by (simp add: underscores_loop.simps)
next
  case (2 c s)
  have nn: "c \<noteq> NUL" "nul_free s" using "2.prems" by auto
  consider "c = CHR '']''" | "c = CHR ''[''" | "c \<noteq> CHR '']''" "c \<noteq> CHR ''[''" by blast
  then show ?case
  proof cases
    case 1
    then show ?thesis by (subst underscores_loop.simps) auto
  next
    case 2
    let ?r = "takeWhile (\<lambda>c. c \<noteq> CHR '']'') s"
    have span: "strcspn (drop (length p) (p @ c # s)) '']'' = Suc (length ?r)" using 2 by (simp add: strcspn_def)
    have loop: "underscores_loop (p @ c # s) (length p) = do { c' \<leftarrow> rd (p @ c # s) (length p + Suc (length ?r));
        if c' = NUL then Some (Inl EINVAL, p @ c # s)
        else underscores_loop (p @ c # s) (Suc (length p + Suc (length ?r))) }"
      using underscores_loop_range [of "p @ c # s" "length p"] 2 unfolding span by simp
    show ?thesis
    proof (cases "dropWhile (\<lambda>c. c \<noteq> CHR '']'') s")
      case Nil
      then have r: "?r = s" by (metis append_Nil2 takeWhile_dropWhile_id)
      have "norm_alias (c # s) = None" unfolding norm_alias.simps Nil using 2 by simp
      moreover have "underscores_loop (p @ c # s) (length p) = Some (Inl EINVAL, p @ c # s)"
        using loop unfolding r by (simp add: rd_def)
      ultimately show ?thesis by auto
    next
      case (Cons d u)
      then have s: "s = ?r @ d # u" by (metis takeWhile_dropWhile_id)
      have d: "d = CHR '']''" using hd_dropWhile [of "\<lambda>c. c \<noteq> CHR '']''" s] Cons by simp
      define a where "a = p @ c # ?r @ [d]"
      have whole: "p @ c # s = a @ u" using s by (simp add: a_def)
      have la: "Suc (length p + Suc (length ?r)) = length a" by (simp add: a_def)
      have "rd (p @ c # s) (length p + Suc (length ?r)) = Some d"
        unfolding whole a_def by (simp add: rd_def nth_append)
      then have l: "underscores_loop (p @ c # s) (length p) = underscores_loop (a @ u) (length a)"
        using loop unfolding la whole by (simp add: d)
      have "nul_free u" using nn s by (metis Un_iff set_append set_subset_Cons subsetD)
      then have "case norm_alias u of
          None \<Rightarrow> \<exists>s'. underscores_loop (a @ u) (length a) = Some (Inl EINVAL, a @ s')
        | Some t \<Rightarrow> underscores_loop (a @ u) (length a) = Some (Inr (), a @ t)"
        using "2.IH"(1) [OF _ 2 Cons] 2 by simp
      then show ?thesis unfolding l using Cons 2 by (auto simp: a_def split: option.splits)
    qed
  next
    case 3
    let ?c = "if c = CHR ''-'' then CHR ''_'' else c"
    have l: "underscores_loop (p @ c # s) (length p) = underscores_loop ((p @ [?c]) @ s) (length (p @ [?c]))"
      using 3 nn by (subst underscores_loop.simps) auto
    have "case norm_alias s of
        None \<Rightarrow> \<exists>s'. underscores_loop ((p @ [?c]) @ s) (length (p @ [?c])) = Some (Inl EINVAL, (p @ [?c]) @ s')
      | Some t \<Rightarrow> underscores_loop ((p @ [?c]) @ s) (length (p @ [?c])) = Some (Inr (), (p @ [?c]) @ t)"
      by (rule "2.IH"(2)) (use 3 nn in simp_all)
    then show ?thesis unfolding l using 3 by (auto split: option.splits)
  qed
qed

lemma underscores_spec:
  assumes "nul_free s"
  shows "case norm_alias s of
      None \<Rightarrow> \<exists>s'. underscores (Some s) = Some (Inl EINVAL, Some s')
    | Some t \<Rightarrow> underscores (Some s) = Some (Inr (), Some t)"
  using underscores_loop_spec [OF assms, of "[]"] by (auto simp: underscores_def split: option.splits)

lemma modname_loop_window:
  assumes "window p s rest" and "nul_free s" and "filled buf q" and "length q = length p"
  shows "\<exists>buf'. modname_loop (p @ s @ rest) (length p) buf = Some (length p + length (norm_name s), buf')
    \<and> filled buf' (q @ norm_name s)"
  using assms
proof (induction s arbitrary: p q buf)
  case Nil
  then show ?case by (subst modname_loop.simps) (auto simp: window_def norm_name_def)
next
  case (Cons c s)
  note room = window_room [OF Cons.prems(1)]
  have len: "length p = length q" "length p < PATH_MAX" and nn: "c \<noteq> NUL" "nul_free s" using room Cons.prems by auto
  note st = filled_store [OF Cons.prems(3) len]
  show ?case
  proof (cases "c = CHR ''.''")
    case True
    then show ?thesis using room Cons.prems by (subst modname_loop.simps) (auto simp: norm_name_def)
  next
    case False
    let ?c = "if c = CHR ''-'' then CHR ''_'' else c"
    have l: "modname_loop (p @ (c # s) @ rest) (length p) buf
        = modname_loop ((p @ [c]) @ s @ rest) (length (p @ [c])) (buf[length p := Some ?c])"
      using room False st(1) nn by (subst modname_loop.simps) auto
    have "\<exists>buf'. modname_loop ((p @ [c]) @ s @ rest) (length (p @ [c])) (buf[length p := Some ?c])
        = Some (length (p @ [c]) + length (norm_name s), buf') \<and> filled buf' ((q @ [?c]) @ norm_name s)"
      by (rule Cons.IH) (use False Cons.prems st(2) nn in \<open>simp_all add: window_Cons\<close>)
    then show ?thesis unfolding l using False by (auto simp: norm_name_def)
  qed
qed

lemma norm_name_nul_free: "nul_free s \<Longrightarrow> nul_free (norm_name s)"
  by (auto simp: norm_name_def dest: set_takeWhileD)

lemma modname_normalize_spec:
  assumes "nul_free s" and "length buf = PATH_MAX"
  defines "t \<equiv> norm_name (take (PATH_MAX - 1) s)"
  shows "\<exists>buf'. modname_normalize s buf = Some (length t, buf') \<and> length buf' = PATH_MAX \<and> read_cstr buf' = Some t"
proof -
  let ?t = "take (PATH_MAX - 1) s" and ?r = "drop (PATH_MAX - 1) s"
  have nf: "nul_free ?t" using assms(1) by (meson in_set_takeD)
  obtain b where loop: "modname_loop s 0 buf = Some (length t, b)" and f: "filled b t"
    using modname_loop_window [OF window_take nf, of buf "[]"] assms(2) by (auto simp: filled_Nil t_def)
  have "length t \<le> length ?t" unfolding t_def norm_name_def length_map by (rule length_takeWhile_le)
  then have lt: "length t < PATH_MAX" by simp
  note st = filled_store [OF f refl lt, of NUL]
  have "read_cstr (b[length t := Some NUL]) = Some t"
    using filled_cstr [OF st(2)] norm_name_nul_free [OF nf] by (simp add: t_def)
  then show ?thesis using loop st f by (simp add: modname_normalize_def filled_def)
qed

lemma norm_name_clean: "CHR ''-'' \<notin> set (norm_name s)" "CHR ''.'' \<notin> set (norm_name s)"
  by (auto simp: norm_name_def dest: set_takeWhileD)

lemma norm_name_idem: "CHR ''-'' \<notin> set s \<Longrightarrow> CHR ''.'' \<notin> set s \<Longrightarrow> norm_name s = s"
  by (induction s) (auto simp: norm_name_def)

lemma basename_empty: "basename path = [] \<longleftrightarrow> path = [] \<or> last path = CHR ''/''"
  by (cases path rule: rev_cases) (auto simp: basename_def)

lemma basename_dir: "CHR ''/'' \<notin> set name \<Longrightarrow> basename (dir @ CHR ''/'' # name) = name"
  by (simp add: basename_def takeWhile_append2 takeWhile_append)

lemma ends_with_ext_spec:
  "ends_with_ext exts path (length path) = Some (\<exists>ext \<in> set exts. \<exists>stem. stem \<noteq> [] \<and> path = stem @ ext)"
proof (induction exts)
  case (Cons ext exts)
  have "(\<exists>stem. stem \<noteq> [] \<and> path = stem @ ext) \<longleftrightarrow> length ext < length path \<and> drop (length path - length ext) path = ext"
  proof safe
    assume l: "length ext < length path" and d: "drop (length path - length ext) path = ext"
    have "path = take (length path - length ext) path @ ext" using d by (metis append_take_drop_id)
    moreover have "take (length path - length ext) path \<noteq> []" using l by auto
    ultimately show "\<exists>stem. stem \<noteq> [] \<and> path = stem @ ext" by blast
  qed simp_all
  then show ?case using Cons by auto
qed simp

section \<open>Properties\<close>

text \<open>
  The two normalisations of aliases agree: for an alias shorter than \<open>PATH_MAX\<close> the copying
  \<open>alias_normalize\<close> accepts exactly the aliases that the in-place \<open>underscores\<close> accepts (every
  bracket has its partner), writes the same string, dashes inside \<open>[...]\<close> left alone, and returns
  its length; neither reads beyond the alias nor writes outside the buffer.
\<close>

theorem alias_normalize_underscores:
  assumes "nul_free s" and "length s < PATH_MAX" and "length buf = PATH_MAX"
  shows "\<exists>r s' buf'. underscores (Some s) = Some (r, Some s')
    \<and> alias_normalize s buf = Some (map_sum id (\<lambda>_. length s) r, buf')
    \<and> length buf' = PATH_MAX \<and> (r = Inr () \<longrightarrow> read_cstr buf' = Some s') \<and> (r = Inr () \<or> r = Inl EINVAL)"
proof -
  have t: "take (PATH_MAX - 1) s = s" using assms(2) by simp
  show ?thesis using underscores_spec [OF assms(1)] alias_normalize_spec [OF assms(1,3)] norm_alias_length [of s]
    unfolding t by (cases "norm_alias s") fastforce+
qed

theorem alias_normalize_underscores_witness:
  "\<exists>buf. underscores (Some ''snd-[a-c]-x'') = Some (Inr (), Some ''snd_[a-c]_x'')
    \<and> alias_normalize ''snd-[a-c]-x'' (replicate PATH_MAX None) = Some (Inr 11, buf) \<and> read_cstr buf = Some ''snd_[a-c]_x''"
proof -
  have "underscores (Some ''snd-[a-c]-x'') = Some (Inr (), Some ''snd_[a-c]_x'')"
    by (simp add: underscores_def underscores_loop.simps rd_def strcspn_def)
  then show ?thesis
    using alias_normalize_underscores [of "''snd-[a-c]-x''" "replicate PATH_MAX None"] by auto
qed

text \<open>
  C33. The name of a module is canonical: for every path, the function returns no name exactly if
  nothing follows the last slash; otherwise it writes, inside the buffer and terminated by a NUL,
  the part of the file name before its first dot (of at most \<open>PATH_MAX - 1\<close> characters), with
  underscores for dashes, and normalising that name again does not change it.
\<close>

theorem path_to_modname_canonical:
  assumes "nul_free path" and "length buf = PATH_MAX"
  shows "if path = [] \<or> last path = CHR ''/'' then path_to_modname path buf = Some None
    else \<exists>name buf' buf''. path_to_modname path buf = Some (Some (length name, buf'))
      \<and> length buf' = PATH_MAX \<and> read_cstr buf' = Some name
      \<and> name = strchr_replace (takeWhile (\<lambda>c. c \<noteq> CHR ''.'') (take (PATH_MAX - 1) (basename path))) CHR ''-'' CHR ''_''
      \<and> modname_normalize name buf = Some (length name, buf'') \<and> read_cstr buf'' = Some name"
proof (cases "basename path = []")
  case True
  then show ?thesis using basename_empty by (simp add: path_to_modname_def Let_def)
next
  case False
  define name where "name = norm_name (take (PATH_MAX - 1) (basename path))"
  have nf: "nul_free (basename path)" using assms(1) by (auto simp: basename_def dest: set_takeWhileD)
  then have nf': "nul_free name" unfolding name_def by (intro norm_name_nul_free) (meson in_set_takeD)
  have "length name \<le> PATH_MAX - 1" unfolding name_def norm_name_def length_map
    by (rule order_trans [OF length_takeWhile_le]) simp
  then have again: "norm_name (take (PATH_MAX - 1) name) = name"
    using norm_name_idem norm_name_clean by (simp add: name_def)
  have r: "strchr_replace t CHR ''-'' CHR ''_'' = map (\<lambda>c. if c = CHR ''-'' then CHR ''_'' else c) t" for t
    by (induction t) auto
  obtain buf' where "modname_normalize (basename path) buf = Some (length name, buf')" "length buf' = PATH_MAX" "read_cstr buf' = Some name"
    using modname_normalize_spec [OF nf assms(2)] by (auto simp: name_def)
  moreover obtain buf'' where "modname_normalize name buf = Some (length name, buf'')" "read_cstr buf'' = Some name"
    using modname_normalize_spec [OF nf' assms(2)] again by auto
  ultimately show ?thesis
    using False basename_empty [of path] by (auto simp: path_to_modname_def Let_def r name_def norm_name_def)
qed

theorem path_to_modname_canonical_witness:
  "\<exists>buf. path_to_modname ''/lib/snd-hda.ko.xz'' (replicate PATH_MAX None) = Some (Some (7, buf)) \<and> read_cstr buf = Some ''snd_hda''"
proof -
  have b: "basename ''/lib/snd-hda.ko.xz'' = ''snd-hda.ko.xz''" by (simp add: basename_def)
  show ?thesis
    using path_to_modname_canonical [of "''/lib/snd-hda.ko.xz''" "replicate PATH_MAX None"] unfolding b by auto
qed

end
