(* ===== verification/Kmod_Io.thy ===== *)
theory Kmod_Io
  imports Kmod_Util
begin

text \<open>
  The input, output and timer functions of \<open>shared/util.c\<close>. A system call is an argument: a function
  of the number of the call (so that it may answer differently every time) and of its parameters.
  The loops take fuel, one unit per call; the inner \<open>None\<close> says that the loop is still running. A
  stream (\<open>FILE\<close>) is the list of the characters not yet read.
\<close>

section \<open>Reading and writing despite interrupts\<close>

definition transient :: "errno \<Rightarrow> bool" where
  "transient e \<longleftrightarrow> e = EAGAIN \<or> e = EINTR"

text \<open>
  The body shared by \<open>pread_str_safe\<close> and \<open>read_str_safe\<close>; \<open>call k done todo\<close> is the answer of the
  \<open>k\<close>-th system call.
\<close>

primrec read_loop ::
    "nat \<Rightarrow> (nat \<Rightarrow> size_t \<Rightarrow> size_t \<Rightarrow> char list result) \<Rightarrow> nat \<Rightarrow> size_t \<Rightarrow> size_t \<Rightarrow> char slots
      \<Rightarrow> (size_t result \<times> char slots) option option" where
  "read_loop 0 call k todo done buf = Some None"
| "read_loop (Suc fuel) call k todo done buf =
     (let next = (\<lambda>todo done buf.
            if 0 < todo then read_loop fuel call (Suc k) todo done buf
            else map_option (\<lambda>buf. Some (Inr done, buf)) (store (unat done) NUL buf)) in
      case call k done todo of
        Inl e \<Rightarrow> if transient e then next todo done buf else Some (Some (Inl e, buf))
      | Inr [] \<Rightarrow> map_option (\<lambda>buf. Some (Inr done, buf)) (store (unat done) NUL buf)
      | Inr cs \<Rightarrow>
          do { buf \<leftarrow> memcpy_to cs (unat done) buf;
               next (todo - of_nat (length cs)) (done + of_nat (length cs)) buf })"

definition pread_str_safe ::
    "nat \<Rightarrow> (nat \<Rightarrow> size_t \<Rightarrow> u64 \<Rightarrow> char list result) \<Rightarrow> char slots \<Rightarrow> size_t \<Rightarrow> u64
      \<Rightarrow> (size_t result \<times> char slots) option option" where
  "pread_str_safe fuel pread buf buflen off =
     read_loop fuel (\<lambda>k done todo. pread k todo (off + done)) 0 (buflen - 1) 0 buf"

definition read_str_safe ::
    "nat \<Rightarrow> (nat \<Rightarrow> size_t \<Rightarrow> char list result) \<Rightarrow> char slots \<Rightarrow> size_t
      \<Rightarrow> (size_t result \<times> char slots) option option" where
  "read_str_safe fuel read buf buflen = read_loop fuel (\<lambda>k done todo. read k todo) 0 (buflen - 1) 0 buf"

text \<open>\<open>write\<close> answers how many of the bytes it was given it took; \<open>out\<close> collects those.\<close>

primrec write_loop ::
    "nat \<Rightarrow> (nat \<Rightarrow> char list \<Rightarrow> size_t result) \<Rightarrow> nat \<Rightarrow> char list \<Rightarrow> size_t \<Rightarrow> size_t \<Rightarrow> char list
      \<Rightarrow> (size_t result \<times> char list) option option" where
  "write_loop 0 put k buf todo done out = Some None"
| "write_loop (Suc fuel) put k buf todo done out =
     (if length buf < unat done + unat todo then None
      else
        (let chunk = take (unat todo) (drop (unat done) buf);
             next = (\<lambda>todo done out.
               if 0 < todo then write_loop fuel put (Suc k) buf todo done out
               else Some (Some (Inr done, out))) in
         case put k chunk of
           Inl e \<Rightarrow> if transient e then next todo done out else Some (Some (Inl e, out))
         | Inr r \<Rightarrow> if r = 0 then Some (Some (Inr done, out))
                    else next (todo - r) (done + r) (out @ take (unat r) chunk)))"

definition write_str_safe ::
    "nat \<Rightarrow> (nat \<Rightarrow> char list \<Rightarrow> size_t result) \<Rightarrow> char list \<Rightarrow> size_t
      \<Rightarrow> (size_t result \<times> char list) option option" where
  "write_str_safe fuel put buf buflen = write_loop fuel put 0 buf buflen 0 []"

section \<open>Continued lines\<close>

text \<open>
  \<open>freadline_wrapped\<close>: the line is the caller's new buffer, with its NUL; \<open>linenum\<close> counts physical
  lines if it is given. No line is returned at the end of the file and when memory runs out.
\<close>

definition end_line ::
    "u32 option \<Rightarrow> u32 \<Rightarrow> nat \<Rightarrow> char slots \<Rightarrow> char list \<Rightarrow> (char slots option \<times> u32 option \<times> char list) option" where
  "end_line linenum n i buf fp =
     do { ret \<leftarrow> store i NUL buf; Some (Some ret, map_option (\<lambda>l. l + n) linenum, fp) }"

definition freadline_put ::
    "(size_t \<Rightarrow> bool) \<Rightarrow> char \<Rightarrow> nat \<Rightarrow> size_t \<Rightarrow> char slots \<Rightarrow> (size_t \<times> char slots) option option" where
  "freadline_put alloc ch i sz buf =
     do { buf \<leftarrow> store i ch buf;
          if Suc i = unat sz then
            (let sz = sz * 2 in
             if \<not> alloc sz then Some None else Some (Some (sz, realloc_slots (unat sz) buf)))
          else Some (Some (sz, buf)) }"

fun freadline_loop ::
    "(size_t \<Rightarrow> bool) \<Rightarrow> u32 option \<Rightarrow> char list \<Rightarrow> nat \<Rightarrow> size_t \<Rightarrow> u32 \<Rightarrow> char slots
      \<Rightarrow> (char slots option \<times> u32 option \<times> char list) option" where
  "freadline_loop alloc linenum [] i sz n buf =
     (if i = 0 then Some (None, linenum, []) else end_line linenum (n + 1) i buf [])"
| "freadline_loop alloc linenum (ch # fp) i sz n buf =
     (let put = (\<lambda>ch fp next.
            do { p \<leftarrow> freadline_put alloc ch i sz buf;
                 case p of
                   None \<Rightarrow> Some (None, linenum, fp)
                 | Some (sz, buf) \<Rightarrow> next (Suc i) sz n buf }) in
      if ch = CHR 0x0A then end_line linenum (n + 1) i buf fp
      else if ch = CHR 0x5C then
        (case fp of
           [] \<Rightarrow> freadline_loop alloc linenum [] i sz n buf
         | c # fp' \<Rightarrow> if c = CHR 0x0A then freadline_loop alloc linenum fp' i sz (n + 1) buf
                      else put c fp' (freadline_loop alloc linenum fp'))
      else put ch fp (freadline_loop alloc linenum fp))"

definition freadline_wrapped ::
    "(size_t \<Rightarrow> bool) \<Rightarrow> char list \<Rightarrow> u32 option \<Rightarrow> (char slots option \<times> u32 option \<times> char list) option" where
  "freadline_wrapped alloc fp linenum =
     (if \<not> alloc 256 then Some (None, linenum, fp)
      else freadline_loop alloc linenum fp 0 256 0 (replicate 256 None))"

section \<open>Paths and time\<close>

definition path_is_absolute :: "string \<Rightarrow> bool" where
  "path_is_absolute p \<longleftrightarrow> char_at p 0 = CHR ''/''"

definition path_make_absolute_cwd :: "(size_t \<Rightarrow> bool) \<Rightarrow> string option \<Rightarrow> string \<Rightarrow> string option" where
  "path_make_absolute_cwd alloc cwd p =
     (if path_is_absolute p then (if alloc (of_nat (Suc (length p))) then Some p else None)
      else
        (case cwd of
           None \<Rightarrow> None
         | Some cwd \<Rightarrow>
             if alloc (of_nat (length cwd + 1 + length p + 1)) then Some (cwd @ ''/'' @ p) else None))"

record timespec =
  tv_sec :: u64
  tv_nsec :: u64

definition ts_usec :: "timespec \<Rightarrow> u64" where
  "ts_usec ts = tv_sec ts * 1000000 + tv_nsec ts div 1000"

definition ts_msec :: "timespec \<Rightarrow> u64" where
  "ts_msec ts = tv_sec ts * 1000 + tv_nsec ts div 1000000"

definition msec_ts :: "u64 \<Rightarrow> timespec" where
  "msec_ts msec = \<lparr>tv_sec = msec div 1000, tv_nsec = (msec mod 1000) * 1000000\<rparr>"

text \<open>
  \<open>clock_gettime\<close> is \<open>clock\<close>, None when it fails. \<open>clock_nanosleep\<close> gives the number it returns, and
  \<open>get_errno\<close> is the variable \<open>errno\<close> of a state.
\<close>

definition now_msec :: "('k \<Rightarrow> timespec option) \<Rightarrow> 'k \<Rightarrow> u64" where
  "now_msec clock k = (case clock k of None \<Rightarrow> 0 | Some ts \<Rightarrow> ts_msec ts)"

definition sleep_until_msec ::
    "(timespec \<Rightarrow> 'k \<Rightarrow> int \<times> 'k) \<Rightarrow> ('k \<Rightarrow> errno) \<Rightarrow> u64 \<Rightarrow> 'k \<Rightarrow> errno option \<times> 'k" where
  "sleep_until_msec clock_nanosleep get_errno msec k =
     (let ts = msec_ts msec; (r, k) = clock_nanosleep ts k in
      if r < 0 \<and> get_errno k \<noteq> EINTR then (Some (get_errno k), k) else (None, k))"

lemma msec_ts_unat:
  "unat (tv_sec (msec_ts t)) = unat t div 1000" "unat (tv_nsec (msec_ts t)) = (unat t mod 1000) * 1000000"
proof -
  show "unat (tv_sec (msec_ts t)) = unat t div 1000" by (simp add: msec_ts_def unat_div)
  have "unat (t mod 1000) < 1000" by (simp add: unat_mod)
  then show "unat (tv_nsec (msec_ts t)) = (unat t mod 1000) * 1000000" by (simp add: msec_ts_def unat_word_ariths unat_mod)
qed

lemma ts_msec_msec_ts [simp]: "ts_msec (msec_ts t) = t"
proof -
  have t: "unat t < 2 ^ 64" using unsigned_less [of t] by simp
  have "unat t div 1000 * 1000 \<le> unat t" by simp
  then have q: "unat t div 1000 * 1000 mod 2 ^ 64 = unat t div 1000 * 1000" using t by simp
  have "unat (ts_msec (msec_ts t)) = (unat t div 1000 * 1000 mod 2 ^ 64 + unat t mod 1000) mod 2 ^ 64"
    using msec_ts_unat [of t] by (simp add: ts_msec_def unat_word_ariths unat_div)
  also have "\<dots> = unat t" unfolding q div_mult_mod_eq using t by simp
  finally show ?thesis by (simp only: word_unat_eq_iff)
qed

text \<open>A clock that has reached the time of a sleep shows at least that number of milliseconds.\<close>

lemma ts_msec_reached:
  assumes "tv_sec (msec_ts t) < tv_sec ts \<or> tv_sec (msec_ts t) = tv_sec ts \<and> tv_nsec (msec_ts t) \<le> tv_nsec ts"
    and "unat (tv_sec ts) * 1000 + unat (tv_nsec ts) div 1000000 < 2 ^ 64"
  shows "t \<le> ts_msec ts"
proof -
  have ms: "unat (ts_msec ts) = unat (tv_sec ts) * 1000 + unat (tv_nsec ts) div 1000000"
    using assms(2) by (simp add: ts_msec_def unat_word_ariths unat_div)
  have "unat t = unat t div 1000 * 1000 + unat t mod 1000" by simp
  moreover have "unat t mod 1000 < 1000" by simp
  ultimately have "unat t \<le> unat (tv_sec ts) * 1000 + unat (tv_nsec ts) div 1000000"
    using assms(1) unfolding word_less_nat_alt word_le_nat_alt msec_ts_unat
  proof (elim disjE conjE)
    assume "tv_sec (msec_ts t) = tv_sec ts" "unat t mod 1000 * 1000000 \<le> unat (tv_nsec ts)"
    then have "unat t div 1000 = unat (tv_sec ts)" "unat t mod 1000 \<le> unat (tv_nsec ts) div 1000000"
      using msec_ts_unat(1) [of t] by (simp_all add: less_eq_div_iff_mult_less_eq)
    then show ?thesis by (metis add_left_mono div_mult_mod_eq)
  qed linarith
  then show ?thesis unfolding word_le_nat_alt ms .
qed

lemma unat_half: "unat (drop_bit 1 d :: u64) = unat d div 2"
  unfolding unat_drop_bit_eq by (simp only: drop_bit_eq_div power_one_right)

function halve_to :: "u64 \<Rightarrow> u64 \<Rightarrow> u64" where
  "halve_to limit d = (if limit < d then halve_to limit (drop_bit 1 d) else d)"
  by pat_completeness auto

termination
proof (relation "measure (\<lambda>(limit, d). unat d)")
  fix limit d :: u64
  assume "limit < d"
  then have "0 < unat d" by (simp add: word_less_nat_alt)
  then show "((limit, drop_bit 1 d), limit, d) \<in> measure (\<lambda>(limit, d). unat d)" by (simp add: unat_half [unfolded One_nat_def])
qed simp

declare halve_to.simps [simp del]

text \<open>The clock (\<open>now_msec\<close>) is an argument; the results are the time to wait for and the new step.\<close>

definition get_backoff_delta_msec :: "u64 \<Rightarrow> u64 \<Rightarrow> u64 \<Rightarrow> u64 \<times> u64" where
  "get_backoff_delta_msec now tend delta =
     (let t = now;
          d = (if tend \<le> t then 0
               else
                 (let limit = tend - t;
                      d = (if delta = 0 then 1
                           else let (d, ov) = umul_overflow delta 2 in if ov then - 1 else d);
                      d = halve_to limit d in
                  if d = 0 then limit else d)) in
      (t + d, d))"

section \<open>The read loop\<close>

text \<open>
  What \<open>pread\<close> promises: bytes of the file from the offset on, at most as many as asked for, and
  none only at the end of the file.
\<close>

definition pread_spec :: "char list \<Rightarrow> (nat \<Rightarrow> size_t \<Rightarrow> u64 \<Rightarrow> char list result) \<Rightarrow> bool" where
  "pread_spec content pread \<longleftrightarrow> (\<forall>k n off cs. pread k n off = Inr cs \<longrightarrow>
     length cs \<le> unat n \<and> cs = take (length cs) (drop (unat off) content)
     \<and> (cs = [] \<longrightarrow> n = 0 \<or> length content \<le> unat off))"

definition serves :: "char list \<Rightarrow> (nat \<Rightarrow> size_t \<Rightarrow> size_t \<Rightarrow> char list result) \<Rightarrow> nat \<Rightarrow> bool" where
  "serves content call room \<longleftrightarrow> (\<forall>k done todo cs. unat done + unat todo < room \<longrightarrow> call k done todo = Inr cs \<longrightarrow>
     length cs \<le> unat todo \<and> cs = take (length cs) (drop (unat done) content)
     \<and> (cs = [] \<longrightarrow> todo = 0 \<or> length content \<le> unat done))"

definition read_state :: "char list \<Rightarrow> size_t \<Rightarrow> size_t \<Rightarrow> char slots \<Rightarrow> bool" where
  "read_state content todo done buf \<longleftrightarrow> length buf < 2 ^ 64 \<and> unat done + unat todo + 1 = length buf \<and> unat done \<le> length content
     \<and> take (unat done) buf = map Some (take (unat done) content)"

definition read_done :: "char list \<Rightarrow> nat \<Rightarrow> size_t result \<times> char slots \<Rightarrow> bool" where
  "read_done content len r \<longleftrightarrow> length (snd r) = len \<and> (case fst r of
       Inl e \<Rightarrow> \<not> transient e
     | Inr d \<Rightarrow> unat d = min (length content) (len - 1)
         \<and> take (Suc (unat d)) (snd r) = map Some (take (len - 1) content @ [NUL]))"

lemma read_finish:
  assumes "read_state content todo done buf" and "todo = 0 \<or> length content \<le> unat done"
  shows "\<exists>buf'. store (unat done) NUL buf = Some buf' \<and> read_done content (length buf) (Inr done, buf')"
proof -
  have min: "unat done = min (length content) (length buf - 1)" using assms by (auto simp: read_state_def)
  have t: "take (min (length content) n) content = take n content" for n by (simp add: min_def)
  have l: "unat done < length buf" using assms(1) by (simp add: read_state_def)
  then show ?thesis using assms(1) min unfolding read_done_def
    by (simp add: store_def take_Suc_conv_app_nth t read_state_def)
qed

lemma read_chunk:
  assumes st: "read_state content todo done buf" and cs: "cs = take (length cs) (drop (unat done) content)" "length cs \<le> unat todo"
  shows "\<exists>buf'. memcpy_to cs (unat done) buf = Some buf' \<and> length buf' = length buf
    \<and> read_state content (todo - of_nat (length cs)) (done + of_nat (length cs)) buf'"
proof -
  let ?n = "of_nat (length cs) :: size_t"
  have n: "unat ?n = length cs" using cs(2) unat_lt_64 [of todo] by (simp add: unat_of_nat take_bit_nat_eq_self)
  then have u: "unat (todo - ?n) = unat todo - length cs" using cs(2) by (simp add: unat_sub word_le_nat_alt)
  have "unat done + unat ?n < unat (- 1 :: size_t)" using st n cs(2) by (simp add: read_state_def unat_minus_one)
  then have d: "unat (done + ?n) = unat done + length cs" using unat_add_less n by metis
  let ?b = "take (unat done) buf @ map Some cs @ drop (unat done + length cs) buf"
  have l: "unat done + length cs \<le> length content"
    using arg_cong [OF cs(1), of length] st by (auto simp: read_state_def)
  have room: "unat done + length cs \<le> length buf" using st cs(2) by (simp add: read_state_def)
  have "take (unat done + length cs) content = take (unat done) content @ cs" using cs(1) by (simp add: take_add)
  then have "take (unat done + length cs) ?b = map Some (take (unat done + length cs) content)"
    using st room l by (auto simp: read_state_def min_def)
  moreover have "length ?b = length buf" using room by simp
  ultimately have "read_state content (todo - ?n) (done + ?n) ?b"
    using st cs(2) l unfolding read_state_def u d by simp
  then show ?thesis using room \<open>length ?b = length buf\<close> by (auto simp: memcpy_to_def)
qed

lemma read_loop_safe:
  assumes "read_state content todo done buf" and "serves content call (length buf)"
  shows "\<exists>r. read_loop fuel call k todo done buf = Some r \<and> (\<forall>x. r = Some x \<longrightarrow> read_done content (length buf) x)"
  using assms
proof (induction fuel arbitrary: k todo "done" buf)
  case (Suc fuel)
  have fin: "\<exists>buf'. store (unat done) NUL buf = Some buf' \<and> read_done content (length buf) (Inr done, buf')"
    if "todo = 0 \<or> length content \<le> unat done" using read_finish [OF Suc.prems(1)] that .
  show ?case
  proof (cases "call k done todo")
    case (Inl e)
    show ?thesis
    proof (cases "transient e")
      case True
      then show ?thesis using Inl Suc.IH [OF Suc.prems] fin by (cases "todo = 0") (auto simp: word_gt_0)
    next
      case False
      then show ?thesis using Inl by (simp add: read_done_def)
    qed
  next
    case (Inr cs)
    have "unat done + unat todo < length buf" using Suc.prems(1) by (simp add: read_state_def)
    then have cs: "length cs \<le> unat todo" "cs = take (length cs) (drop (unat done) content)"
      and e: "cs = [] \<longrightarrow> todo = 0 \<or> length content \<le> unat done"
      using Suc.prems(2) Inr unfolding serves_def by blast+
    show ?thesis
    proof (cases cs)
      case Nil
      then show ?thesis using Inr fin e by auto
    next
      case (Cons c cs')
      let ?t = "todo - of_nat (length cs)" and ?d = "done + of_nat (length cs)"
      obtain b where b: "memcpy_to cs (unat done) buf = Some b" "length b = length buf" "read_state content ?t ?d b"
        using read_chunk [OF Suc.prems(1) cs(2,1)] by auto
      have eq: "read_loop (Suc fuel) call k todo done buf =
          (if 0 < ?t then read_loop fuel call (Suc k) ?t ?d b
           else map_option (\<lambda>buf. Some (Inr ?d, buf)) (store (unat ?d) NUL b))"
        using Inr Cons b(1) by simp
      show ?thesis
      proof (cases "?t = 0")
        case True
        then show ?thesis unfolding eq using read_finish [OF b(3)] b(2) by auto
      next
        case False
        then show ?thesis unfolding eq using Suc.IH [OF b(3), of "Suc k"] Suc.prems(2) b(2) by (simp add: word_gt_0)
      qed
    qed
  qed
qed simp

lemma read_loop_ends:
  assumes "read_state content todo done buf" and "serves content call (length buf)"
    and "\<And>i d t e. n \<le> i \<Longrightarrow> call i d t = Inl e \<Longrightarrow> \<not> transient e" and "n - k + unat todo < fuel"
  shows "read_loop fuel call k todo done buf \<noteq> Some None"
  using assms
proof (induction fuel arbitrary: k todo "done" buf)
  case (Suc fuel)
  show ?case
  proof (cases "call k done todo")
    case (Inl e)
    show ?thesis
    proof (cases "transient e \<and> 0 < todo")
      case True
      then have "k < n" using Suc.prems(3) [of k] Inl not_le by blast
      then show ?thesis using Inl True Suc.IH [OF Suc.prems(1-3), where k = "Suc k"] Suc.prems(4) by simp
    next
      case False
      then show ?thesis using Inl by auto
    qed
  next
    case (Inr cs)
    have "unat done + unat todo < length buf" using Suc.prems(1) by (simp add: read_state_def)
    then have cs: "length cs \<le> unat todo" "cs = take (length cs) (drop (unat done) content)"
      using Suc.prems(2) Inr unfolding serves_def by blast+
    show ?thesis
    proof (cases cs)
      case Nil
      then show ?thesis using Inr by auto
    next
      case (Cons c cs')
      let ?t = "todo - of_nat (length cs)" and ?d = "done + of_nat (length cs)"
      obtain b where b: "memcpy_to cs (unat done) buf = Some b" "length b = length buf" "read_state content ?t ?d b"
        using read_chunk [OF Suc.prems(1) cs(2,1)] by auto
      have "unat (of_nat (length cs) :: size_t) = length cs" using cs(1) unat_lt_64 [of todo]
        by (simp add: unat_of_nat take_bit_nat_eq_self)
      then have "unat ?t < unat todo" using cs(1) Cons by (subst unat_sub) (auto simp: word_le_nat_alt)
      then have "n - Suc k + unat ?t < fuel" using Suc.prems(4) by simp
      then have "read_loop fuel call (Suc k) ?t ?d b \<noteq> Some None"
        using Suc.IH [OF b(3)] Suc.prems(2,3) b(2) by simp
      then show ?thesis using Inr Cons b(1) by auto
    qed
  qed
qed simp

section \<open>The write loop\<close>

text \<open>What \<open>write\<close> promises: it takes at most the bytes it is given.\<close>

definition write_spec :: "(nat \<Rightarrow> char list \<Rightarrow> size_t result) \<Rightarrow> bool" where
  "write_spec put \<longleftrightarrow> (\<forall>k cs r. put k cs = Inr r \<longrightarrow> unat r \<le> length cs)"

lemma write_loop_safe:
  assumes "write_spec put" and "unat done + unat todo = length buf" and "length buf < 2 ^ 64" and "out = take (unat done) buf"
  shows "\<exists>r. write_loop fuel put k buf todo done out = Some r \<and> (\<forall>d out'. r = Some (d, out') \<longrightarrow>
    (\<exists>n \<le> length buf. out' = take n buf \<and> (\<forall>m. d = Inr m \<longrightarrow> n = unat m)
      \<and> ((\<forall>k cs. put k cs \<noteq> Inr 0) \<and> \<not> isl d \<longrightarrow> n = length buf)))"
  using assms
proof (induction fuel arbitrary: k todo "done" out)
  case (Suc fuel)
  let ?c = "take (unat todo) (drop (unat done) buf)"
  have fin: "unat done \<le> length buf \<and> out = take (unat done) buf" using Suc.prems by simp
  show ?case
  proof (cases "put k ?c")
    case (Inl e)
    then show ?thesis using Suc.IH [OF Suc.prems] Suc.prems(2,4) fin
      by (cases "transient e"; cases "todo = 0") (auto simp: word_gt_0 intro!: exI [of _ "unat done"])
  next
    case (Inr r)
    show ?thesis
    proof (cases "r = 0")
      case True
      then show ?thesis using Inr Suc.prems(2) fin by (auto intro!: exI [of _ "unat done"])
    next
      case False
      have r: "unat r \<le> unat todo" using Suc.prems(1,2) Inr unfolding write_spec_def by fastforce
      have t: "unat (todo - r) = unat todo - unat r" using r by (simp add: unat_sub word_le_nat_alt)
      have d: "unat (done + r) = unat done + unat r"
        using r Suc.prems(2,3) by (simp add: unat_word_ariths)
      have out: "out @ take (unat r) ?c = take (unat (done + r)) buf"
        unfolding d using Suc.prems(4) r by (simp add: take_add min_def)
      have eq: "write_loop (Suc fuel) put k buf todo done out =
         (if 0 < todo - r then write_loop fuel put (Suc k) buf (todo - r) (done + r) (out @ take (unat r) ?c)
          else Some (Some (Inr (done + r), out @ take (unat r) ?c)))"
        using Inr False Suc.prems(2) by (simp add: Let_def)
      show ?thesis
      proof (cases "todo - r = 0")
        case True
        then have "unat (done + r) = length buf" using d t Suc.prems(2) by simp
        then show ?thesis unfolding eq out using True by (auto intro!: exI [of _ "length buf"])
      next
        case False
        then show ?thesis unfolding eq
          using Suc.IH [OF Suc.prems(1) _ Suc.prems(3) out, of "todo - r" "Suc k"] d t r Suc.prems(2) by (simp add: word_gt_0)
      qed
    qed
  qed
qed simp

section \<open>Logical lines\<close>

text \<open>
  The reference for the line reader, without buffers: the text of the logical line, how many ends of
  line were read, the rest of the file, and whether the line was ended by one.
\<close>

fun logical_line :: "char list \<Rightarrow> string \<times> nat \<times> char list \<times> bool" where
  "logical_line [] = ([], 0, [], False)"
| "logical_line (ch # fp) =
     (if ch = CHR 0x0A then ([], 1, fp, True)
      else if ch = CHR 0x5C then
        (case fp of
           [] \<Rightarrow> ([], 0, [], False)
         | c # fp' \<Rightarrow> if c = CHR 0x0A then (let (t, k, rest, nl) = logical_line fp' in (t, Suc k, rest, nl))
                      else (let (t, r) = logical_line fp' in (c # t, r)))
      else (let (t, r) = logical_line fp in (ch # t, r)))"

definition line_is :: "string \<Rightarrow> char slots \<Rightarrow> bool" where
  "line_is line buf \<longleftrightarrow> length line < length buf \<and> take (Suc (length line)) buf = map Some (line @ [NUL])"

definition line_result ::
    "u32 option \<Rightarrow> string \<Rightarrow> u32 \<Rightarrow> char list \<Rightarrow> char slots option \<times> u32 option \<times> char list \<Rightarrow> bool" where
  "line_result linenum acc n fp r \<longleftrightarrow>
     (let (t, k, rest, nl) = logical_line fp in
      if \<not> nl \<and> acc @ t = [] then r = (None, linenum, [])
      else \<exists>buf. r = (Some buf, map_option (\<lambda>l. l + (n + of_nat (k + (if nl then 0 else 1)))) linenum, rest) \<and> line_is (acc @ t) buf)"

definition line_buf :: "string \<Rightarrow> size_t \<Rightarrow> char slots \<Rightarrow> bool" where
  "line_buf acc sz buf \<longleftrightarrow> length buf = unat sz \<and> length acc < unat sz \<and> take (length acc) buf = map Some acc
     \<and> unat sz \<le> max 256 (2 * length acc)"

lemma line_buf_end:
  assumes "line_buf acc sz buf"
  shows "\<exists>buf'. store (length acc) NUL buf = Some buf' \<and> line_is acc buf'"
  using assms by (auto simp: line_buf_def store_def line_is_def take_Suc_conv_app_nth)

lemma line_buf_put:
  assumes "line_buf acc sz buf" and "Suc (length acc) < 2 ^ 62"
  shows "\<exists>p. freadline_put alloc c (length acc) sz buf = Some p
    \<and> (case p of None \<Rightarrow> \<exists>s. \<not> alloc s | Some (sz', buf') \<Rightarrow> line_buf (acc @ [c]) sz' buf')"
proof -
  let ?b = "buf[length acc := Some c]"
  have len: "length buf = unat sz" "length acc < unat sz" "unat sz \<le> max 256 (2 * length acc)"
    using assms(1) by (simp_all add: line_buf_def)
  have st: "store (length acc) c buf = Some ?b" using len by (simp add: store_def)
  have t: "take (Suc (length acc)) ?b = map Some (acc @ [c])"
    using assms(1) by (simp add: line_buf_def take_Suc_conv_app_nth)
  show ?thesis
  proof (cases "Suc (length acc) = unat sz")
    case True
    then have d: "unat (sz * 2) = 2 * Suc (length acc)"
      using assms(2) by (simp add: unat_word_ariths flip: True)
    have "?b = map Some (acc @ [c])" using t True len by simp
    then have "line_buf (acc @ [c]) (sz * 2) (realloc_slots (unat (sz * 2)) ?b)"
      unfolding line_buf_def d realloc_slots_def by simp
    then show ?thesis using st True by (auto simp: freadline_put_def Let_def)
  next
    case False
    moreover have "max 256 (2 * length acc) \<le> max 256 (2 * length (acc @ [c]))" by (intro max.mono) simp_all
    ultimately have "line_buf (acc @ [c]) sz ?b" using t len unfolding line_buf_def by (simp del: mult_Suc_right)
    then show ?thesis using st False by (simp add: freadline_put_def)
  qed
qed

lemma line_result_skip:
  "logical_line fp = (let (t, k, rest, nl) = logical_line fp' in (t, Suc k, rest, nl)) \<Longrightarrow>
    line_result linenum acc (n + 1) fp' r \<Longrightarrow> line_result linenum acc n fp r"
  by (cases linenum) (auto simp: line_result_def ac_simps split: prod.splits if_splits)

lemma line_result_put:
  "logical_line fp = (let (t, r) = logical_line fp' in (c # t, r)) \<Longrightarrow>
    line_result linenum (acc @ [c]) n fp' r \<Longrightarrow> line_result linenum acc n fp r"
  by (auto simp: line_result_def split: prod.splits if_splits)

lemma line_result_end:
  assumes "line_buf acc sz buf" and "logical_line fp = ([], k, rest, nl)" and "nl \<or> acc \<noteq> []" and "k + (if nl then 0 else 1) = 1"
  shows "\<exists>r. end_line linenum (n + 1) (length acc) buf rest = Some r \<and> line_result linenum acc n fp r"
  using line_buf_end [OF assms(1)] assms(2-4) by (auto simp: end_line_def line_result_def split: if_splits)

definition line_ok ::
    "(size_t \<Rightarrow> bool) \<Rightarrow> u32 option \<Rightarrow> string \<Rightarrow> u32 \<Rightarrow> char list \<Rightarrow> (char slots option \<times> u32 option \<times> char list) option \<Rightarrow> bool" where
  "line_ok alloc linenum acc n fp res \<longleftrightarrow>
     (\<exists>r. res = Some r \<and> (line_result linenum acc n fp r \<or> (\<exists>s. \<not> alloc s) \<and> fst r = None \<and> fst (snd r) = linenum))"

lemma line_ok_put:
  assumes "line_buf acc sz buf" and "Suc (length acc) < 2 ^ 62" and "logical_line fp = (let (t, r) = logical_line fp' in (c # t, r))"
    and ih: "\<And>sz' buf'. line_buf (acc @ [c]) sz' buf' \<Longrightarrow> line_ok alloc linenum (acc @ [c]) n fp' (next (Suc (length acc)) sz' n buf')"
  shows "line_ok alloc linenum acc n fp
    (do { p \<leftarrow> freadline_put alloc c (length acc) sz buf;
          case p of None \<Rightarrow> Some (None, linenum, fp') | Some (sz, buf) \<Rightarrow> next (Suc (length acc)) sz n buf })"
proof -
  obtain p where p: "freadline_put alloc c (length acc) sz buf = Some p"
    "case p of None \<Rightarrow> \<exists>s. \<not> alloc s | Some (sz', buf') \<Rightarrow> line_buf (acc @ [c]) sz' buf'"
    using line_buf_put [OF assms(1,2)] by blast
  show ?thesis
  proof (cases p)
    case None
    then show ?thesis using p by (auto simp: line_ok_def)
  next
    case (Some q)
    then show ?thesis using p ih [of "fst q" "snd q"] line_result_put [OF assms(3)]
      by (cases q) (auto simp: line_ok_def)
  qed
qed

lemma freadline_loop_spec:
  assumes "line_buf acc sz buf" and "length acc + length fp < 2 ^ 62"
  shows "line_ok alloc linenum acc n fp (freadline_loop alloc linenum fp (length acc) sz n buf)"
  using assms
proof (induction fp arbitrary: acc sz n buf rule: logical_line.induct)
  case 1
  show ?case
  proof (cases "acc = []")
    case True
    then show ?thesis by (simp add: line_ok_def line_result_def)
  next
    case False
    then show ?thesis using line_result_end [OF 1(1), of "[]" 0 "[]" False linenum n] by (auto simp: line_ok_def)
  qed
next
  case (2 ch fp)
  consider (nl) "ch = CHR 0x0A" | (eof) "ch = CHR 0x5C" "fp = []"
    | (skip) fp' where "ch = CHR 0x5C" "fp = CHR 0x0A # fp'"
    | (esc) c fp' where "ch = CHR 0x5C" "fp = c # fp'" "c \<noteq> CHR 0x0A"
    | (plain) "ch \<noteq> CHR 0x0A" "ch \<noteq> CHR 0x5C"
    by (metis neq_Nil_conv)
  then show ?case
  proof cases
    case nl
    then show ?thesis using line_result_end [OF "2.prems"(1), of "ch # fp" 1 fp True linenum n] by (auto simp: line_ok_def)
  next
    case eof
    then show ?thesis using line_result_end [OF "2.prems"(1), of "ch # fp" 0 "[]" False linenum n]
      by (cases "acc = []") (auto simp: line_ok_def line_result_def)
  next
    case skip
    then have "line_ok alloc linenum acc (n + 1) fp' (freadline_loop alloc linenum fp' (length acc) sz (n + 1) buf)"
      using "2.IH"(1) [of "CHR 0x0A" fp' acc sz buf "n + 1"] "2.prems" by simp
    then show ?thesis using skip line_result_skip [of "ch # fp" fp'] by (auto simp: line_ok_def)
  next
    case esc
    have "line_ok alloc linenum acc n (ch # fp) (freadline_loop alloc linenum (ch # fp) (length acc) sz n buf)
      \<longleftrightarrow> line_ok alloc linenum acc n (ch # fp) (do { p \<leftarrow> freadline_put alloc c (length acc) sz buf;
        case p of None \<Rightarrow> Some (None, linenum, fp') | Some (sz, buf) \<Rightarrow> freadline_loop alloc linenum fp' (Suc (length acc)) sz n buf })"
      using esc by (simp add: Let_def)
    then show ?thesis
      using line_ok_put [OF "2.prems"(1), of "ch # fp" fp' c alloc linenum n "freadline_loop alloc linenum fp'"]
        "2.IH"(2) [of c fp' "acc @ [c]"] esc "2.prems"(2) by simp
  next
    case plain
    have "line_ok alloc linenum acc n (ch # fp) (freadline_loop alloc linenum (ch # fp) (length acc) sz n buf)
      \<longleftrightarrow> line_ok alloc linenum acc n (ch # fp) (do { p \<leftarrow> freadline_put alloc ch (length acc) sz buf;
        case p of None \<Rightarrow> Some (None, linenum, fp) | Some (sz, buf) \<Rightarrow> freadline_loop alloc linenum fp (Suc (length acc)) sz n buf })"
      using plain by (simp add: Let_def)
    then show ?thesis
      using line_ok_put [OF "2.prems"(1), of "ch # fp" fp ch alloc linenum n "freadline_loop alloc linenum fp"]
        "2.IH"(3) [of "acc @ [ch]"] plain "2.prems"(2) by simp
  qed
qed

lemma logical_line_escaped:
  assumes "CHR 0x0A \<notin> set line"
  shows "logical_line (concat (map (\<lambda>c. if c = CHR 0x5C then [c, c] else [c]) line) @ fp)
    = (let (t, r) = logical_line fp in (line @ t, r))"
  using assms by (induction line) (auto split: prod.splits)

lemma halve_to_bounds:
  assumes "0 < limit" and "0 < d"
  shows "0 < halve_to limit d \<and> halve_to limit d \<le> limit \<and> halve_to limit d \<le> d"
  using assms
proof (induction limit d rule: halve_to.induct)
  case (1 limit d)
  show ?case
  proof (cases "limit < d")
    case True
    then have "unat limit < unat d" "0 < unat limit" using 1(2) by (simp_all add: word_less_nat_alt)
    then have "0 < unat d div 2" by simp
    then have pos: "0 < drop_bit 1 d" and le: "drop_bit 1 d \<le> d" by (simp_all add: word_less_nat_alt word_le_nat_alt unat_half [unfolded One_nat_def])
    have "halve_to limit d = halve_to limit (drop_bit 1 d)" using True by (subst halve_to.simps) simp
    then show ?thesis using 1(1) [OF True 1(2) pos] le by auto
  next
    case False
    then have "halve_to limit d = d" by (subst halve_to.simps) simp
    then show ?thesis using 1(3) False by simp
  qed
qed

section \<open>Properties\<close>

text \<open>
  Reading a file at an offset loses nothing to short reads and interrupts: for every \<open>pread\<close>
  that serves the file, the loop never writes outside the caller's buffer; if it returns a length,
  this is the number of bytes from the offset to the end of the file, or the room of the buffer if
  that is less, and the buffer holds exactly these bytes followed by a NUL; an error it returns is
  one the system call gave and not \<open>EAGAIN\<close> or \<open>EINTR\<close>. It returns as soon as the interrupts stop:
  if none comes from call \<open>n\<close> on, after at most \<open>n + buflen\<close> calls.
\<close>

theorem pread_str_safe_reads:
  assumes "pread_spec content pread" and "length buf = unat buflen" and "0 < buflen" and "unat off + unat buflen \<le> 2 ^ 64"
    and "unat off \<le> length content"
  shows "\<exists>r. pread_str_safe fuel pread buf buflen off = Some r
    \<and> (\<forall>e buf'. r = Some (Inl e, buf') \<longrightarrow> e \<noteq> EAGAIN \<and> e \<noteq> EINTR \<and> length buf' = length buf)
    \<and> (\<forall>d buf'. r = Some (Inr d, buf') \<longrightarrow> length buf' = length buf
         \<and> unat d = min (length content - unat off) (unat buflen - 1)
         \<and> take (Suc (unat d)) buf' = map Some (take (unat d) (drop (unat off) content) @ [NUL]))
    \<and> ((\<forall>i \<ge> n. \<forall>s o' e. pread i s o' = Inl e \<longrightarrow> e \<noteq> EAGAIN \<and> e \<noteq> EINTR) \<and> n + unat buflen \<le> fuel \<longrightarrow> r \<noteq> None)"
proof -
  let ?c = "drop (unat off) content" and ?call = "\<lambda>k done todo. pread k todo (off + done)"
  have u: "unat (buflen - 1) = unat buflen - 1" using assms(3) by (intro unat_pred) auto
  have pos: "0 < unat buflen" using assms(3) by (simp add: word_less_nat_alt)
  have st: "read_state ?c (buflen - 1) 0 buf"
    using assms(2) u pos unat_lt_64 [of buflen] by (simp add: read_state_def)
  have add: "unat (off + d) = unat off + unat d" if "unat d < unat buflen" for d
    using that assms(4) by (simp add: unat_word_ariths)
  have sv: "serves ?c ?call (length buf)"
  proof (unfold serves_def, intro allI impI)
    fix k "done" todo cs
    assume "unat done + unat todo < length buf" and c: "pread k todo (off + done) = Inr cs"
    then have d: "unat (off + done) = unat off + unat done" using assms(2) by (intro add) simp
    have "length cs \<le> unat todo \<and> cs = take (length cs) (drop (unat (off + done)) content)
        \<and> (cs = [] \<longrightarrow> todo = 0 \<or> length content \<le> unat (off + done))"
      using assms(1) c unfolding pread_spec_def by blast
    then show "length cs \<le> unat todo \<and> cs = take (length cs) (drop (unat done) ?c) \<and> (cs = [] \<longrightarrow> todo = 0 \<or> length ?c \<le> unat done)"
      unfolding d by (auto simp: add.commute)
  qed
  obtain r where r: "pread_str_safe fuel pread buf buflen off = Some r" "\<And>x. r = Some x \<Longrightarrow> read_done ?c (length buf) x"
    using read_loop_safe [OF st sv, of fuel 0] by (auto simp: pread_str_safe_def)
  have "r \<noteq> None" if "\<forall>i \<ge> n. \<forall>s o' e. pread i s o' = Inl e \<longrightarrow> e \<noteq> EAGAIN \<and> e \<noteq> EINTR" "n + unat buflen \<le> fuel"
    using read_loop_ends [OF st sv, of n 0 fuel] that r(1) u pos by (auto simp: pread_str_safe_def transient_def)
  moreover have "take (length buf - 1) ?c = take (unat d) ?c" if "unat d = min (length ?c) (length buf - 1)" for d :: size_t
    unfolding that by (simp add: min_def)
  ultimately show ?thesis using r assms(2) unfolding read_done_def by (auto simp: transient_def)
qed


text \<open>A file that is served one byte at a time, after one interrupt.\<close>

definition slow_pread :: "nat \<Rightarrow> size_t \<Rightarrow> u64 \<Rightarrow> char list result" where
  "slow_pread k n off = (if k = 0 then Inl EINTR else if n = 0 then Inr [] else Inr (take 1 (drop (unat off) ''live'')))"

theorem pread_str_safe_reads_witness:
  "\<exists>r buf. pread_str_safe 9 slow_pread (replicate 8 None) 8 0 = Some (Some (r, buf))
    \<and> (\<forall>d. r = Inr d \<longrightarrow> unat d = 4 \<and> take 5 buf = map Some (''live'' @ [NUL]))"
proof -
  have spec: "pread_spec ''live'' slow_pread"
  proof (unfold pread_spec_def, intro allI impI)
    fix k n off cs
    assume "slow_pread k n off = Inr cs"
    then have cs: "cs = (if n = 0 then [] else take 1 (drop (unat off) ''live''))"
      by (simp add: slow_pread_def split: if_splits)
    have "n \<noteq> 0 \<Longrightarrow> 1 \<le> unat n" by (simp add: Suc_le_eq unat_gt_0)
    then show "length cs \<le> unat n \<and> cs = take (length cs) (drop (unat off) ''live'') \<and> (cs = [] \<longrightarrow> n = 0 \<or> length ''live'' \<le> unat off)"
      unfolding cs by (cases "drop (unat off) ''live''") auto
  qed
  have "\<forall>i \<ge> 1. \<forall>s o' e. slow_pread i s o' = Inl e \<longrightarrow> e \<noteq> EAGAIN \<and> e \<noteq> EINTR" by (simp add: slow_pread_def)
  moreover have h: "length (replicate 8 (None :: char option)) = unat (8 :: size_t)" "0 < (8 :: size_t)"
    "unat (0 :: u64) + unat (8 :: size_t) \<le> 2 ^ 64" "unat (0 :: u64) \<le> length ''live''" by simp_all
  ultimately obtain r where r: "pread_str_safe 9 slow_pread (replicate 8 None) 8 0 = Some r" "r \<noteq> None"
    and d: "\<forall>d buf'. r = Some (Inr d, buf') \<longrightarrow> unat d = min (length ''live'' - unat (0 :: u64)) (unat (8 :: size_t) - 1)
       \<and> take (Suc (unat d)) buf' = map Some (take (unat d) (drop (unat (0 :: u64)) ''live'') @ [NUL])"
    using pread_str_safe_reads [OF spec h, of 9 1] by fastforce
  have "unat d = 4 \<and> take 5 buf = map Some (''live'' @ [NUL])" if "r = Some (Inr d, buf)" for d buf
  proof -
    have u: "unat d = 4" using d that by simp
    have "take (Suc (unat d)) buf = map Some (take (unat d) ''live'' @ [NUL])" using d that by auto
    then show ?thesis using u by simp
  qed
  then show ?thesis using r by (cases r) auto
qed

text \<open>
  Writing loses and repeats nothing: for every \<open>write\<close> that takes at most what it is given, what
  has reached the file when the loop returns is a prefix of the data, and exactly as long as the
  returned count; if \<open>write\<close> never takes zero bytes, success means that all of the data was written.
\<close>

theorem write_str_safe_prefix:
  assumes "write_spec put" and "length buf = unat buflen"
  shows "\<exists>r. write_str_safe fuel put buf buflen = Some r \<and> (\<forall>d out. r = Some (d, out) \<longrightarrow>
    (\<exists>n \<le> length buf. out = take n buf \<and> (\<forall>m. d = Inr m \<longrightarrow> n = unat m)
      \<and> ((\<forall>k cs. put k cs \<noteq> Inr 0) \<and> \<not> isl d \<longrightarrow> out = buf)))"
proof -
  have "length buf < 2 ^ 64" using assms(2) unat_lt_64 [of buflen] by simp
  then show ?thesis using write_loop_safe [OF assms(1), of 0 buflen buf "[]" fuel 0] assms(2)
    unfolding write_str_safe_def by fastforce
qed

definition short_write :: "nat \<Rightarrow> char list \<Rightarrow> size_t result" where
  "short_write k cs = (if k = 0 then Inl EAGAIN else if cs = [] then Inr 0 else Inr 1)"

theorem write_str_safe_prefix_witness:
  "write_str_safe (Suc (Suc (Suc 0))) short_write ''ok'' 2 = Some (Some (Inr 2, ''ok''))
    \<and> (\<exists>n \<le> 2. ''ok'' = take n ''ok'' \<and> n = unat (2 :: size_t))"
proof -
  have "write_spec short_write" by (auto simp: write_spec_def short_write_def Suc_le_eq split: if_splits)
  moreover have "write_str_safe (Suc (Suc (Suc 0))) short_write ''ok'' 2 = Some (Some (Inr 2, ''ok''))"
    by (simp add: write_str_safe_def short_write_def transient_def Let_def)
  ultimately show ?thesis using write_str_safe_prefix [of short_write "''ok''" 2 "Suc (Suc (Suc 0))"] by auto
qed

text \<open>
  C32. Continued lines are read back: a configuration line cut into pieces, each piece written with
  its backslashes doubled and joined to the next by a backslash and an end of line, is returned as
  the one logical line it was, whatever its length: the buffer grows as needed and is never
  overrun. The line counter advances by the number of physical lines and the stream stands at the
  start of the next line.
\<close>

theorem freadline_wrapped_roundtrip:
  assumes "pieces \<noteq> []" and "\<forall>p \<in> set pieces. CHR 0x0A \<notin> set p \<and> nul_free p"
    and "length text' < 2 ^ 62"
    and "text' = concat (map (\<lambda>p. concat (map (\<lambda>c. if c = CHR 0x5C then [c, c] else [c]) p) @ [CHR 0x5C, CHR 0x0A]) (butlast pieces))
      @ concat (map (\<lambda>c. if c = CHR 0x5C then [c, c] else [c]) (last pieces)) @ CHR 0x0A # rest"
  shows "\<exists>buf. freadline_wrapped (\<lambda>_. True) text' (Some l) = Some (Some buf, Some (l + of_nat (length pieces)), rest)
    \<and> read_cstr buf = Some (concat pieces)"
proof -
  have line: "logical_line text' = (concat pieces, length pieces, rest, True)"
    using assms(1,2) unfolding assms(4)
  proof (induction pieces)
    case (Cons p ps)
    have esc: "logical_line (concat (map (\<lambda>c. if c = CHR 0x5C then [c, c] else [c]) p) @ fp)
        = (let (t, r) = logical_line fp in (p @ t, r))" for fp
      by (rule logical_line_escaped) (use Cons.prems in simp)
    show ?case
    proof (cases ps)
      case Nil
      then show ?thesis by (simp add: esc)
    next
      case (Cons q qs)
      then show ?thesis using Cons.IH Cons.prems by (simp add: esc)
    qed
  qed simp
  have buf: "line_buf [] 256 (replicate 256 None)" by (simp add: line_buf_def)
  obtain buf where b: "freadline_loop (\<lambda>_. True) (Some l) text' 0 256 0 (replicate 256 None)
      = Some (Some buf, Some (l + of_nat (length pieces)), rest)" "line_is (concat pieces) buf"
    using freadline_loop_spec [OF buf, of text' "\<lambda>_. True" "Some l" 0] assms(3) line
    by (auto simp: line_ok_def line_result_def)
  have "read_cstr buf = Some (concat pieces)"
  proof -
    have "init_upto (length (concat pieces)) buf \<and> live (length (concat pieces)) buf = concat pieces"
      "length (concat pieces) < length buf" "buf ! length (concat pieces) = Some NUL"
      using b(2) by (auto simp: line_is_def take_Suc_conv_app_nth intro!: init_upto_intro)
    then show ?thesis using read_cstr_live [of "length (concat pieces)" buf] assms(2) by (auto simp: takeWhile_eq_all_conv)
  qed
  then show ?thesis using b(1) by (simp add: freadline_wrapped_def)
qed

theorem freadline_wrapped_roundtrip_witness:
  "\<exists>buf. freadline_wrapped (\<lambda>_. True) (''options a'' @ [CHR 0x5C, CHR 0x0A] @ '' x=1'' @ CHR 0x0A # ''b'') (Some 4)
      = Some (Some buf, Some 6, ''b'') \<and> read_cstr buf = Some ''options a x=1''"
  using freadline_wrapped_roundtrip [of "[''options a'', '' x=1'']"
      "''options a'' @ [CHR 0x5C, CHR 0x0A] @ '' x=1'' @ CHR 0x0A # ''b''" "''b''" 4] by simp

text \<open>
  The back-off timer makes progress and never overshoots: before the deadline the new step is at
  least one millisecond, at most what is left and at most twice the old one, and the returned time is
  the current time plus the step, without wrap-around and not after the deadline; from the deadline
  on, the step is zero.
\<close>

theorem backoff_bounds:
  "let (t, d) = get_backoff_delta_msec now tend delta in
    if tend \<le> now then t = now \<and> d = 0
    else 0 < d \<and> d \<le> tend - now \<and> unat t = unat now + unat d \<and> t \<le> tend \<and> unat d \<le> max 1 (2 * unat delta)"
proof (cases "tend \<le> now")
  case False
  let ?limit = "tend - now"
  let ?d = "if delta = 0 then 1 else let (d, ov) = umul_overflow delta 2 in if ov then - 1 else d"
  have pos: "0 < ?limit" using False by (simp add: word_gt_0)
  have lim: "unat ?limit = unat tend - unat now" using False by (simp add: unat_sub)
  have dbl: "0 < ?d \<and> unat ?d \<le> max 1 (2 * unat delta)"
    using umul_overflow_iff [of delta 2] umul_overflow_value [of delta 2] unat_minus_one [where 'a = 64]
    by (auto simp: word_gt_0 split: prod.splits simp flip: unat_eq_zero)
  note h = halve_to_bounds [OF pos conjunct1 [OF dbl]]
  define d where "d = halve_to ?limit ?d"
  have d: "0 < d" "d \<le> ?limit" "unat d \<le> max 1 (2 * unat delta)"
    using h dbl unfolding d_def word_le_nat_alt by auto
  then have t: "unat (now + d) = unat now + unat d"
    using lim unat_lt_64 [of tend] False by (simp add: unat_word_ariths word_le_nat_alt)
  have "get_backoff_delta_msec now tend delta = (now + d, d)"
    using False d(1) unfolding get_backoff_delta_msec_def d_def by (simp add: Let_def word_gt_0)
  then show ?thesis using False d t lim by (simp add: word_le_nat_alt)
qed (simp add: get_backoff_delta_msec_def Let_def)

end
