(* ===== verification/Kmod_Config.thy ===== *)
theory Kmod_Config
  imports Kmod_Io
begin

text \<open>
  \<open>libkmod/libkmod-config.c\<close>, first part: the entries of a configuration and the functions that add
  them. A \<open>kmod_list\<close> is the list of the data it holds (\<open>Kmod_List\<close> has its links); adding to it
  allocates one node. A soft or weak dependency is one block of memory: the pointers are offsets into
  the characters behind the name, and both passes over the text are modelled, so that a write outside
  the block is undefined. Log messages are left out.
\<close>

section \<open>Entries\<close>

record kmod_alias =
  al_name :: string
  al_modname :: string

record kmod_options =
  op_options :: string
  op_modname :: string

record kmod_command =
  cm_command :: string
  cm_modname :: string

record kmod_softdep =
  sd_name :: string
  sd_pre :: "nat slots"
  sd_post :: "nat slots"
  sd_n_pre :: u32
  sd_n_post :: u32
  sd_buf :: "char slots"

record kmod_weakdep =
  wd_name :: string
  wd_weak :: "nat slots"
  wd_n_weak :: u32
  wd_buf :: "char slots"

record kmod_config_path =
  cp_stamp :: u64
  cp_path :: string

record kmod_config =
  aliases :: "kmod_alias list"
  blacklists :: "string list"
  options :: "kmod_options list"
  remove_commands :: "kmod_command list"
  install_commands :: "kmod_command list"
  softdeps :: "kmod_softdep list"
  weakdeps :: "kmod_weakdep list"
  paths :: "kmod_config_path list"

definition empty_config :: kmod_config where
  "empty_config = \<lparr>aliases = [], blacklists = [], options = [], remove_commands = [],
     install_commands = [], softdeps = [], weakdeps = [], paths = []\<rparr>"

text \<open>\<open>kmod_list_append\<close> on the data of the list; a node has 24 bytes.\<close>

definition list_append :: "(size_t \<Rightarrow> bool) \<Rightarrow> 'a list \<Rightarrow> 'a \<Rightarrow> 'a list option" where
  "list_append alloc xs x = (if alloc 24 then Some (xs @ [x]) else None)"

definition strsize :: "string \<Rightarrow> size_t" where
  "strsize s = of_nat (length s) + 1"

section \<open>Adding entries\<close>

definition kmod_config_add_command ::
    "(size_t \<Rightarrow> bool) \<Rightarrow> string \<Rightarrow> string \<Rightarrow> kmod_command list \<Rightarrow> unit result \<times> kmod_command list" where
  "kmod_config_add_command alloc modname command list =
     (if \<not> alloc (8 + strsize modname + strsize command) then (Inl ENOMEM, list)
      else
        (case list_append alloc list \<lparr>cm_command = command, cm_modname = modname\<rparr> of
           None \<Rightarrow> (Inl ENOMEM, list)
         | Some l \<Rightarrow> (Inr (), l)))"

definition kmod_config_add_options ::
    "(size_t \<Rightarrow> bool) \<Rightarrow> kmod_config \<Rightarrow> string \<Rightarrow> string \<Rightarrow> unit result \<times> kmod_config" where
  "kmod_config_add_options alloc config modname opts =
     (if \<not> alloc (8 + strsize modname + strsize opts) then (Inl ENOMEM, config)
      else
        (case list_append alloc (options config)
                \<lparr>op_options = strchr_replace opts (CHR 0x09) (CHR '' ''), op_modname = modname\<rparr> of
           None \<Rightarrow> (Inl ENOMEM, config)
         | Some l \<Rightarrow> (Inr (), config\<lparr>options := l\<rparr>)))"

definition kmod_config_add_alias ::
    "(size_t \<Rightarrow> bool) \<Rightarrow> kmod_config \<Rightarrow> string \<Rightarrow> string \<Rightarrow> unit result \<times> kmod_config" where
  "kmod_config_add_alias alloc config name modname =
     (if \<not> alloc (8 + strsize name + strsize modname) then (Inl ENOMEM, config)
      else
        (case list_append alloc (aliases config) \<lparr>al_name = name, al_modname = modname\<rparr> of
           None \<Rightarrow> (Inl ENOMEM, config)
         | Some l \<Rightarrow> (Inr (), config\<lparr>aliases := l\<rparr>)))"

definition kmod_config_add_blacklist ::
    "(size_t \<Rightarrow> bool) \<Rightarrow> kmod_config \<Rightarrow> string \<Rightarrow> unit result \<times> kmod_config" where
  "kmod_config_add_blacklist alloc config modname =
     (if \<not> alloc (strsize modname) then (Inl ENOMEM, config)
      else
        (case list_append alloc (blacklists config) modname of
           None \<Rightarrow> (Inl ENOMEM, config)
         | Some l \<Rightarrow> (Inr (), config\<lparr>blacklists := l\<rparr>)))"

section \<open>The loop over the fields of a line\<close>

text \<open>
  The four loops \<open>for (p = s = line;; s++)\<close> of \<open>kmod_config_add_softdep\<close> and
  \<open>kmod_config_add_weakdep\<close> find the fields in the same way: \<open>scan_field\<close> is the part of the body up
  to \<open>plen = s - p\<close>, with its \<open>continue\<close>s, and \<open>for_fields\<close> the loop, whose argument is what the body
  does with a field. A field is passed with the condition under which it is used.
\<close>

definition isspace :: "char \<Rightarrow> bool" where
  "isspace c \<longleftrightarrow> c \<in> {CHR '' '', CHR 0x09, CHR 0x0A, CHR 0x0B, CHR 0x0C, CHR 0x0D}"

lemma isspace_NUL [simp]: "\<not> isspace NUL"
  by (simp add: isspace_def)

function scan_field :: "string \<Rightarrow> nat \<Rightarrow> nat \<Rightarrow> bool \<Rightarrow> (nat \<times> nat \<times> bool) option" where
  "scan_field line p s was_space =
     do { c \<leftarrow> rd line s;
          if c \<noteq> NUL then
            if \<not> isspace c then scan_field line p (Suc s) False
            else if was_space then scan_field line (Suc s) (Suc s) was_space
            else if s \<le> p then scan_field line p (Suc s) True
            else Some (p, s, True)
          else Some (p, s, was_space) }"
  by pat_completeness auto

termination
  by (relation "measure (\<lambda>(line, p, s, w). Suc (length line) - s)") (auto simp: rd_def split: if_splits)

declare scan_field.simps [simp del]

lemma scan_field_mono: "scan_field line p s w = Some (p', s', w') \<Longrightarrow> s \<le> s'"
proof (induction line p s w rule: scan_field.induct)
  case (1 line p s w)
  show ?case
    using "1.prems" unfolding scan_field.simps [of line p s w]
    by (fastforce simp: bind_eq_Some_conv split: if_splits dest: "1.IH")
qed

function for_fields ::
    "(string \<Rightarrow> bool \<Rightarrow> 's \<Rightarrow> 's result option) \<Rightarrow> string \<Rightarrow> nat \<Rightarrow> nat \<Rightarrow> bool \<Rightarrow> 's \<Rightarrow> 's result option" where
  "for_fields f line p s was_space st =
     do { (p, s, was_space) \<leftarrow> scan_field line p s was_space;
          c \<leftarrow> rd line s;
          r \<leftarrow> f (take (s - p) (drop p line)) (c \<noteq> NUL \<or> c = NUL \<and> \<not> was_space) st;
          case r of
            Inl e \<Rightarrow> Some (Inl e)
          | Inr st \<Rightarrow> if c = NUL then Some (Inr st) else for_fields f line (Suc s) (Suc s) was_space st }"
  by pat_completeness auto

termination
  by (relation "measure (\<lambda>(f, line, p, s, w, st). Suc (length line) - s)")
    (auto simp: rd_def split: if_splits dest!: scan_field_mono)

declare for_fields.simps [simp del]

section \<open>Soft dependencies\<close>

datatype softdep_mode = S_NONE | S_PRE | S_POST

definition is_word :: "string \<Rightarrow> string \<Rightarrow> bool" where
  "is_word w tok \<longleftrightarrow> length tok = length w \<and> strstartswith tok w"

lemma is_word_eq [simp]: "is_word w tok \<longleftrightarrow> tok = w"
  by (auto simp: is_word_def strstartswith_def)

fun softdep_count ::
    "string \<Rightarrow> bool \<Rightarrow> softdep_mode \<times> u32 \<times> u32 \<times> size_t \<Rightarrow> (softdep_mode \<times> u32 \<times> u32 \<times> size_t) result option" where
  "softdep_count tok used (mode, n_pre, n_post, buflen) =
     (let plen = of_nat (length tok) in
      if is_word ''pre:'' tok then Some (Inr (S_PRE, n_pre, n_post, buflen))
      else if is_word ''post:'' tok then Some (Inr (S_POST, n_pre, n_post, buflen))
      else if used \<and> mode = S_PRE then
        (case uadd_overflow n_pre 1 of
           (_, True) \<Rightarrow> Some (Inl EINVAL)
         | (n_pre, False) \<Rightarrow> Some (Inr (mode, n_pre, n_post, buflen + (plen + 1))))
      else if used \<and> mode = S_POST then
        (case uadd_overflow n_post 1 of
           (_, True) \<Rightarrow> Some (Inl EINVAL)
         | (n_post, False) \<Rightarrow> Some (Inr (mode, n_pre, n_post, buflen + (plen + 1))))
      else Some (Inr (mode, n_pre, n_post, buflen)))"

definition softdep_size :: "size_t \<Rightarrow> u32 \<Rightarrow> u32 \<Rightarrow> size_t \<Rightarrow> size_t option" where
  "softdep_size modnamelen n_pre n_post buflen =
     (let (sz, o1) = uadd_overflow 32 modnamelen;
          (size_pre, o2) = umul_overflow (ucast n_pre) 8;
          (sz, o3) = uadd_overflow sz size_pre;
          (size_post, o4) = umul_overflow (ucast n_post) 8;
          (sz, o5) = uadd_overflow sz size_post;
          (sz, o6) = uadd_overflow sz buflen
      in if o1 \<or> o2 \<or> o3 \<or> o4 \<or> o5 \<or> o6 then None else Some sz)"

text \<open>The stores of one string: its pointer, its characters and its NUL.\<close>

definition put_field ::
    "string \<Rightarrow> u32 \<Rightarrow> nat \<Rightarrow> nat slots \<Rightarrow> char slots \<Rightarrow> (nat slots \<times> char slots) option" where
  "put_field tok n itr strv buf =
     do { strv \<leftarrow> store (unat n) itr strv;
          buf \<leftarrow> memcpy_to tok itr buf;
          buf \<leftarrow> store (itr + length tok) NUL buf;
          Some (strv, buf) }"

fun softdep_copy ::
    "string \<Rightarrow> bool \<Rightarrow> softdep_mode \<times> u32 \<times> u32 \<times> nat \<times> kmod_softdep
      \<Rightarrow> (softdep_mode \<times> u32 \<times> u32 \<times> nat \<times> kmod_softdep) result option" where
  "softdep_copy tok used (mode, n_pre, n_post, itr, dep) =
     (if is_word ''pre:'' tok then Some (Inr (S_PRE, n_pre, n_post, itr, dep))
      else if is_word ''post:'' tok then Some (Inr (S_POST, n_pre, n_post, itr, dep))
      else if used \<and> mode = S_PRE then
        do { (pre, buf) \<leftarrow> put_field tok n_pre itr (sd_pre dep) (sd_buf dep);
             Some (Inr (mode, n_pre + 1, n_post, itr + (length tok + 1), dep\<lparr>sd_pre := pre, sd_buf := buf\<rparr>)) }
      else if used \<and> mode = S_POST then
        do { (post, buf) \<leftarrow> put_field tok n_post itr (sd_post dep) (sd_buf dep);
             Some (Inr (mode, n_pre, n_post + 1, itr + (length tok + 1), dep\<lparr>sd_post := post, sd_buf := buf\<rparr>)) }
      else Some (Inr (mode, n_pre, n_post, itr, dep)))"

definition kmod_config_add_softdep ::
    "(size_t \<Rightarrow> bool) \<Rightarrow> kmod_config \<Rightarrow> string \<Rightarrow> string \<Rightarrow> (unit result \<times> kmod_config) option" where
  "kmod_config_add_softdep alloc config modname line =
     do { r \<leftarrow> for_fields softdep_count line 0 0 False (S_NONE, 0, 0, 0);
          case r of
            Inl e \<Rightarrow> Some (Inl e, config)
          | Inr (_, n_pre, n_post, buflen) \<Rightarrow>
              (case softdep_size (strsize modname) n_pre n_post buflen of
                 None \<Rightarrow> Some (Inl ENOMEM, config)
               | Some sz \<Rightarrow>
                   if \<not> alloc sz then Some (Inl ENOMEM, config)
                   else
                     do { r \<leftarrow> for_fields softdep_copy line 0 0 False
                            (S_NONE, 0, 0, 0, \<lparr>sd_name = modname, sd_pre = replicate (unat n_pre) None,
                               sd_post = replicate (unat n_post) None, sd_n_pre = n_pre, sd_n_post = n_post,
                               sd_buf = replicate (unat buflen) None\<rparr>);
                          case r of
                            Inl e \<Rightarrow> Some (Inl e, config)
                          | Inr (_, _, _, _, dep) \<Rightarrow>
                              (case list_append alloc (softdeps config) dep of
                                 None \<Rightarrow> Some (Inl ENOMEM, config)
                               | Some l \<Rightarrow> Some (Inr (), config\<lparr>softdeps := l\<rparr>)) }) }"

section \<open>Weak dependencies\<close>

fun weakdep_count :: "string \<Rightarrow> bool \<Rightarrow> u32 \<times> size_t \<Rightarrow> (u32 \<times> size_t) result option" where
  "weakdep_count tok used (n_weak, buflen) =
     (if used then
        (case uadd_overflow n_weak 1 of
           (_, True) \<Rightarrow> Some (Inl EINVAL)
         | (n_weak, False) \<Rightarrow> Some (Inr (n_weak, buflen + (of_nat (length tok) + 1))))
      else Some (Inr (n_weak, buflen)))"

definition weakdep_size :: "size_t \<Rightarrow> u32 \<Rightarrow> size_t \<Rightarrow> size_t option" where
  "weakdep_size modnamelen n_weak buflen =
     (let (sz, o1) = uadd_overflow 24 modnamelen;
          (size_weak, o2) = umul_overflow (ucast n_weak) 8;
          (sz, o3) = uadd_overflow sz size_weak;
          (sz, o4) = uadd_overflow sz buflen
      in if o1 \<or> o2 \<or> o3 \<or> o4 then None else Some sz)"

fun weakdep_copy ::
    "string \<Rightarrow> bool \<Rightarrow> u32 \<times> nat \<times> kmod_weakdep \<Rightarrow> (u32 \<times> nat \<times> kmod_weakdep) result option" where
  "weakdep_copy tok used (n_weak, itr, dep) =
     (if used then
        do { (weak, buf) \<leftarrow> put_field tok n_weak itr (wd_weak dep) (wd_buf dep);
             Some (Inr (n_weak + 1, itr + (length tok + 1), dep\<lparr>wd_weak := weak, wd_buf := buf\<rparr>)) }
      else Some (Inr (n_weak, itr, dep)))"

definition kmod_config_add_weakdep ::
    "(size_t \<Rightarrow> bool) \<Rightarrow> kmod_config \<Rightarrow> string \<Rightarrow> string \<Rightarrow> (unit result \<times> kmod_config) option" where
  "kmod_config_add_weakdep alloc config modname line =
     do { r \<leftarrow> for_fields weakdep_count line 0 0 False (0, 0);
          case r of
            Inl e \<Rightarrow> Some (Inl e, config)
          | Inr (n_weak, buflen) \<Rightarrow>
              (case weakdep_size (strsize modname) n_weak buflen of
                 None \<Rightarrow> Some (Inl ENOMEM, config)
               | Some sz \<Rightarrow>
                   if \<not> alloc sz then Some (Inl ENOMEM, config)
                   else
                     do { r \<leftarrow> for_fields weakdep_copy line 0 0 False
                            (0, 0, \<lparr>wd_name = modname, wd_weak = replicate (unat n_weak) None,
                               wd_n_weak = n_weak, wd_buf = replicate (unat buflen) None\<rparr>);
                          case r of
                            Inl e \<Rightarrow> Some (Inl e, config)
                          | Inr (_, _, dep) \<Rightarrow>
                              (case list_append alloc (weakdeps config) dep of
                                 None \<Rightarrow> Some (Inl ENOMEM, config)
                               | Some l \<Rightarrow> Some (Inr (), config\<lparr>weakdeps := l\<rparr>)) }) }"

end
