(* ===== verification/Kmod_Softdep.thy ===== *)
theory Kmod_Softdep
  imports Kmod_Config
begin

text \<open>
  The fields of a line of soft or weak dependencies: a reference splits the line into words, and the
  loops of \<open>Kmod_Config\<close> are shown to visit them.
\<close>

section \<open>Fields of a line\<close>

abbreviation nonspace :: "char \<Rightarrow> bool" where "nonspace c \<equiv> \<not> isspace c"

lemma length_dropWhile_tl:
  "dropWhile nonspace (dropWhile isspace l) \<noteq> [] \<Longrightarrow> length (tl (dropWhile nonspace (dropWhile isspace l))) < length l"
  using length_dropWhile_le [of nonspace "dropWhile isspace l"] length_dropWhile_le [of isspace l]
  by (cases "dropWhile nonspace (dropWhile isspace l)") auto

text \<open>The words of a text and whether each is used; the empty rest behind trailing blanks is not.\<close>

function fields :: "string \<Rightarrow> (string \<times> bool) list" where
  "fields l =
     (let l = dropWhile isspace l; w = takeWhile nonspace l; r = dropWhile nonspace l in
      if l = [] then [([], False)] else if r = [] then [(w, True)] else (w, True) # fields (tl r))"
  by pat_completeness auto

termination
  by (relation "measure length") (simp_all del: dropWhile_eq_Nil_conv length_tl add: length_dropWhile_tl)

declare fields.simps [simp del]

text \<open>At the start of the line a single blank is taken for a part of the first word.\<close>

fun line_fields :: "string \<Rightarrow> (string \<times> bool) list" where
  "line_fields [] = [([], True)]"
| "line_fields [c] = (if isspace c then [([c], False)] else fields [c])"
| "line_fields (c # d # r) =
     (if nonspace c then fields (c # d # r)
      else if isspace d then fields r
      else (case fields (d # r) of (w, u) # fs \<Rightarrow> (c # w, u) # fs | [] \<Rightarrow> []))"

primrec run_fields ::
    "(string \<Rightarrow> bool \<Rightarrow> 's \<Rightarrow> 's result option) \<Rightarrow> (string \<times> bool) list \<Rightarrow> 's \<Rightarrow> 's result option" where
  "run_fields f [] st = Some (Inr st)"
| "run_fields f (x # xs) st =
     do { r \<leftarrow> f (fst x) (snd x) st; case r of Inl e \<Rightarrow> Some (Inl e) | Inr st \<Rightarrow> run_fields f xs st }"

lemma scan_word:
  assumes "nul_free rest" and "p \<le> length d" and "p < length d \<or> rest \<noteq> [] \<and> nonspace (hd rest)"
  shows "scan_field (d @ rest) p (length d) False
    = Some (p, length d + length (takeWhile nonspace rest), dropWhile nonspace rest \<noteq> [])"
  using assms
proof (induction rest arbitrary: d)
  case Nil
  then show ?case by (subst scan_field.simps) simp
next
  case (Cons c rest)
  show ?case
  proof (cases "isspace c")
    case True
    then show ?thesis using Cons.prems by (subst scan_field.simps) auto
  next
    case False
    then show ?thesis
      using Cons.prems Cons.IH [of "d @ [c]"] by (subst scan_field.simps) auto
  qed
qed

lemma scan_gap:
  assumes "nul_free rest"
  shows "scan_field (d @ rest) (length d) (length d) True
    = (let q = length d + length (takeWhile isspace rest); r = dropWhile isspace rest in
       Some (q, q + length (takeWhile nonspace r), r = [] \<or> dropWhile nonspace r \<noteq> []))"
  using assms
proof (induction rest arbitrary: d)
  case Nil
  then show ?case by (subst scan_field.simps) (simp add: Let_def)
next
  case (Cons c rest)
  show ?case
  proof (cases "isspace c")
    case True
    then show ?thesis
      using Cons.prems Cons.IH [of "d @ [c]"] by (subst scan_field.simps) (auto simp: Let_def)
  next
    case False
    then show ?thesis
      using Cons.prems scan_word [of rest "length d" "d @ [c]"]
      by (subst scan_field.simps) (auto simp: Let_def)
  qed
qed

lemma rd_split: "line = a @ b \<Longrightarrow> s = length a \<Longrightarrow> rd line s = Some (case b of [] \<Rightarrow> NUL | c # _ \<Rightarrow> c)"
  by (auto simp: rd_def nth_append split: list.splits)

text \<open>One field, given where the scan stopped.\<close>

lemma for_fields_step:
  assumes "scan_field line p s w = Some (length a, length a + length b, w')"
    and "line = a @ b @ r" and "nul_free r"
  shows "for_fields f line p s w st =
    do { x \<leftarrow> f b (r \<noteq> [] \<or> \<not> w') st;
         case x of Inl e \<Rightarrow> Some (Inl e)
         | Inr st \<Rightarrow> if r = [] then Some (Inr st)
                     else for_fields f line (Suc (length a + length b)) (Suc (length a + length b)) w' st }"
proof -
  have "rd line (length a + length b) = Some (case r of [] \<Rightarrow> NUL | c # _ \<Rightarrow> c)"
    by (rule rd_split [of _ "a @ b"]) (use assms in simp_all)
  moreover have "r \<noteq> [] \<Longrightarrow> hd r \<noteq> NUL" using assms(2,3) by (cases r) auto
  ultimately show ?thesis
    using assms(1,2) by (subst for_fields.simps) (cases r; simp)
qed

lemma for_fields_gap:
  "nul_free rest \<Longrightarrow> for_fields f (d @ rest) (length d) (length d) True st = run_fields f (fields rest) st"
proof (induction rest arbitrary: d st rule: fields.induct)
  case (1 l)
  define g where "g = takeWhile isspace l"
  define m where "m = dropWhile isspace l"
  define b where "b = takeWhile nonspace m"
  define r where "r = dropWhile nonspace m"
  have l: "l = g @ b @ r" by (simp add: g_def m_def b_def r_def)
  have s: "scan_field (d @ l) (length d) (length d) True
      = Some (length (d @ g), length (d @ g) + length b, m = [] \<or> r \<noteq> [])"
    using scan_gap [OF "1.prems", of d] by (simp add: Let_def g_def m_def b_def r_def)
  have step: "for_fields f (d @ l) (length d) (length d) True st =
      do { x \<leftarrow> f b (m \<noteq> []) st;
           case x of Inl e \<Rightarrow> Some (Inl e)
           | Inr st \<Rightarrow> if r = [] then Some (Inr st)
               else for_fields f (d @ l) (Suc (length (d @ g) + length b)) (Suc (length (d @ g) + length b)) True st }"
  proof -
    have rm: "m = [] \<Longrightarrow> r = []" by (simp add: r_def)
    have "d @ l = (d @ g) @ b @ r" "nul_free r" using l "1.prems" by auto
    from for_fields_step [OF s this, of f st] show ?thesis
      using rm by (cases "r = []"; cases "m = []") simp_all
  qed
  show ?case
  proof (cases "r = []")
    case True
    then have "fields l = [(b, m \<noteq> [])]"
      by (subst fields.simps) (unfold Let_def m_def [symmetric], cases "m = []", simp_all add: b_def r_def)
    then show ?thesis unfolding step using True by (simp cong: sum.case_cong)
  next
    case False
    then have m: "m \<noteq> []" by (auto simp: r_def)
    have f: "fields l = (b, True) # fields (tl r)"
      using False m
      by (subst fields.simps) (unfold Let_def m_def [symmetric] b_def [symmetric] r_def [symmetric], simp)
    have r: "r = hd r # tl r" using False by simp
    have dl: "d @ l = (d @ g @ b @ [hd r]) @ tl r" using l r by simp
    have "for_fields f (d @ l) (Suc (length (d @ g) + length b)) (Suc (length (d @ g) + length b)) True st'
        = run_fields f (fields (tl r)) st'" for st'
    proof -
      have "nul_free (tl r)" using "1.prems" l by (auto dest: list.set_sel(2) [OF False])
      then show ?thesis
        using "1.IH" [OF m_def b_def r_def m False, of "d @ g @ b @ [hd r]" st'] dl by (simp add: add.assoc)
    qed
    then show ?thesis unfolding step f using m False by (simp cong: sum.case_cong)
  qed
qed

lemma fields_word:
  assumes "nonspace c"
  shows "fields (c # l) = (c # takeWhile nonspace l, True)
    # (if dropWhile nonspace l = [] then [] else fields (tl (dropWhile nonspace l)))"
proof -
  have d: "dropWhile isspace (c # l) = c # l" "takeWhile nonspace (c # l) = c # takeWhile nonspace l"
      "dropWhile nonspace (c # l) = dropWhile nonspace l"
    using assms by auto
  show ?thesis by (subst fields.simps) (unfold Let_def d, simp)
qed

lemma for_fields_cong:
  "scan_field line p s w = scan_field line p' s' w' \<Longrightarrow> for_fields f line p s w st = for_fields f line p' s' w' st"
  by (subst (1 2) for_fields.simps) simp

lemma for_fields_line:
  "nul_free line \<Longrightarrow> for_fields f line 0 0 False st = run_fields f (line_fields line) st"
proof (induction line rule: line_fields.induct)
  case 1
  show ?case by (subst for_fields.simps, subst scan_field.simps) (simp cong: sum.case_cong)
next
  case (2 c)
  show ?case
  proof (cases "isspace c")
    case True
    have "scan_field [c] 0 0 False = Some (length [], length [] + length [c], True)"
      using True 2 by (subst scan_field.simps, subst scan_field.simps) (auto simp: rd_def)
    from for_fields_step [OF this, of "[]"] show ?thesis using True by (simp cong: sum.case_cong)
  next
    case False
    then have "scan_field [c] 0 0 False = scan_field [c] 0 0 True"
      using 2 by (subst (1 2) scan_field.simps) (auto simp: rd_def)
    from for_fields_cong [OF this, of f st] show ?thesis
      using for_fields_gap [of "[c]" f "[]" st] 2 False by simp
  qed
next
  case (3 c d r)
  consider "nonspace c" | "isspace c" "isspace d" | "isspace c" "nonspace d" by blast
  then show ?case
  proof cases
    case 1
    then have "scan_field (c # d # r) 0 0 False = scan_field (c # d # r) 0 0 True"
      using 3 by (subst (1 2) scan_field.simps) (auto simp: rd_def)
    from for_fields_cong [OF this, of f st] show ?thesis
      using for_fields_gap [of "c # d # r" f "[]" st] 3 1 by simp
  next
    case 2
    then have "scan_field (c # d # r) 0 0 False = scan_field (c # d # r) 2 2 True"
      using 3 by (subst scan_field.simps, subst scan_field.simps) (auto simp: rd_def numeral_2_eq_2)
    from for_fields_cong [OF this, of f st] show ?thesis
      using for_fields_gap [of r f "[c, d]" st] 3 2 by (simp add: numeral_2_eq_2)
  next
    case 3
    define w where "w = c # d # takeWhile nonspace r"
    define t where "t = dropWhile nonspace r"
    have l: "c # d # r = [] @ w @ t" by (simp add: w_def t_def)
    have "nul_free (c # d # r)" by (fact "3.prems")
    then have nf: "nul_free r" "nul_free t" by (auto simp: t_def dest: set_dropWhileD)
    have "scan_field (c # d # r) 0 0 False = scan_field (c # d # r) 0 (length [c, d]) False"
      using 3 "3.prems" by (subst scan_field.simps, subst scan_field.simps) (auto simp: rd_def numeral_2_eq_2)
    also have "\<dots> = Some (length ([] :: string), length ([] :: string) + length w, t \<noteq> [])"
      using scan_word [of r 0 "[c, d]"] nf by (simp add: w_def t_def)
    finally have s: "scan_field (c # d # r) 0 0 False = \<dots>" .
    have lf: "line_fields (c # d # r) = (w, True) # (if t = [] then [] else fields (tl t))"
      using 3 by (simp add: fields_word w_def t_def del: dropWhile_eq_Nil_conv)
    have gap: "for_fields f (c # d # r) (Suc (length w)) (Suc (length w)) True st'
        = run_fields f (fields (tl t)) st'" if "t \<noteq> []" for st'
      using for_fields_gap [of "tl t" f "w @ [hd t]" st'] nf that l list.set_sel(2) [OF that] by auto
    show ?thesis
      unfolding for_fields_step [OF s l nf(2)] lf using gap by (cases "t = []") (simp_all cong: sum.case_cong)
  qed
qed

section \<open>Strings in a block\<close>

definition str_at :: "char list \<Rightarrow> nat \<Rightarrow> string \<Rightarrow> bool" where
  "str_at cs p s \<longleftrightarrow> (\<exists>a b. cs = a @ s @ NUL # b \<and> length a = p)"

text \<open>A block whose first \<open>itr\<close> characters are \<open>cs\<close>, and a vector of \<open>n\<close> strings in it.\<close>

definition filled_upto :: "nat \<Rightarrow> char slots \<Rightarrow> char list \<Rightarrow> bool" where
  "filled_upto itr buf cs \<longleftrightarrow> init_upto itr buf \<and> live itr buf = cs"

definition strv_holds :: "u32 \<Rightarrow> nat slots \<Rightarrow> char list \<Rightarrow> string list \<Rightarrow> bool" where
  "strv_holds n strv cs ss \<longleftrightarrow> init_upto (unat n) strv \<and> list_all2 (str_at cs) (live (unat n) strv) ss"

lemma strv_holds_length: "strv_holds n strv cs ss \<Longrightarrow> length ss = unat n"
  by (auto simp: strv_holds_def dest: list_all2_lengthD)

lemma filled_upto_length: "filled_upto itr buf cs \<Longrightarrow> length cs = itr"
  by (auto simp: filled_upto_def)

lemma str_at_append: "str_at cs p s \<Longrightarrow> str_at (cs @ t) p s"
  unfolding str_at_def by (metis append.assoc append_Cons)

lemma strv_holds_append: "strv_holds n strv cs ss \<Longrightarrow> strv_holds n strv (cs @ t) ss"
  by (auto simp: strv_holds_def intro: str_at_append list_all2_mono)

lemma put_field_spec:
  assumes "strv_holds n strv cs ss" and "filled_upto itr buf cs"
    and "unat n < length strv" and "unat n + 1 < 2 ^ 32" and "itr + length tok < length buf"
  shows "\<exists>strv' buf'. put_field tok n itr strv buf = Some (strv', buf') \<and> length strv' = length strv
    \<and> length buf' = length buf \<and> strv_holds (n + 1) strv' (cs @ tok @ [NUL]) (ss @ [tok])
    \<and> filled_upto (itr + (length tok + 1)) buf' (cs @ tok @ [NUL])"
proof -
  obtain sv where sv: "store (unat n) itr strv = Some sv" "length sv = length strv" "init_upto (Suc (unat n)) sv"
      "live (Suc (unat n)) sv = live (unat n) strv @ [itr]"
    using store_end [of "unat n" strv itr] assms(1,3) by (auto simp: strv_holds_def)
  obtain b where b: "memcpy_to tok itr buf = Some b" "length b = length buf" "init_upto (itr + length tok) b"
      "live (itr + length tok) b = cs @ tok"
    using memcpy_to_spec [of itr buf tok] assms(2,5) by (auto simp: filled_upto_def)
  obtain c where c: "store (itr + length tok) NUL b = Some c" "length c = length b" "init_upto (Suc (itr + length tok)) c"
      "live (Suc (itr + length tok)) c = cs @ tok @ [NUL]"
    using store_end [of "itr + length tok" b NUL] b assms(5) by auto
  have n: "unat (n + 1) = Suc (unat n)" using assms(4) by (simp add: unat_word_ariths)
  have "str_at (cs @ tok @ [NUL]) itr tok"
    unfolding str_at_def using filled_upto_length [OF assms(2)] by (intro exI [of _ cs] exI [of _ "[]"]) auto
  then have "strv_holds (n + 1) sv (cs @ tok @ [NUL]) (ss @ [tok])"
    using strv_holds_append [OF assms(1), of "tok @ [NUL]"] sv(3,4)
    unfolding strv_holds_def n by (auto intro: list_all2_appendI)
  then show ?thesis
    using sv b c by (auto simp: put_field_def filled_upto_def)
qed

text \<open>Reading a vector back.\<close>

definition strv_list :: "u32 \<Rightarrow> nat slots \<Rightarrow> char slots \<Rightarrow> string list option" where
  "strv_list n strv buf =
     foldM (\<lambda>i ss. do { p \<leftarrow> (if i < length strv then strv ! i else None);
                        s \<leftarrow> read_cstr (drop p buf); Some (ss @ [s]) }) [0..<unat n] []"

lemma read_cstr_map: "nul_free s \<Longrightarrow> read_cstr (map Some s @ Some NUL # r) = Some s"
  by (induction s) auto

lemma read_cstr_at:
  assumes "filled_upto itr buf cs" and "str_at cs p s" and "nul_free s"
  shows "read_cstr (drop p buf) = Some s"
proof -
  obtain a b where t: "cs = a @ s @ NUL # b" "length a = p" using assms(2) by (auto simp: str_at_def)
  have "buf = map Some cs @ drop itr buf"
    using assms(1) append_take_drop_id [of itr buf] by (simp add: filled_upto_def take_eq_live)
  then have "buf = map Some a @ map Some s @ Some NUL # map Some b @ drop itr buf" using t by simp
  then have "drop p buf = map Some s @ Some NUL # map Some b @ drop itr buf"
    using t(2) by (metis append_eq_conv_conj length_map)
  then show ?thesis using assms(3) by (simp add: read_cstr_map)
qed

lemma strv_list_holds:
  assumes "strv_holds n strv cs ss" and "filled_upto itr buf cs" and "\<forall>s \<in> set ss. nul_free s"
  shows "strv_list n strv buf = Some ss"
proof -
  have "foldM (\<lambda>i ss. do { p \<leftarrow> (if i < length strv then strv ! i else None);
      s \<leftarrow> read_cstr (drop p buf); Some (ss @ [s]) }) [0..<k] [] = Some (take k ss)" if "k \<le> unat n" for k
    using that
  proof (induction k)
    case (Suc k)
    have k: "k < length ss" using Suc.prems strv_holds_length [OF assms(1)] by simp
    have i: "init_upto (unat n) strv" and l: "list_all2 (str_at cs) (live (unat n) strv) ss"
      using assms(1) by (auto simp: strv_holds_def)
    have "strv ! k = Some (live (unat n) strv ! k)" "k < length strv"
      using live_nth [OF i, of k] init_uptoD [OF i] Suc.prems by auto
    moreover have "str_at cs (live (unat n) strv ! k) (ss ! k)"
      using list_all2_nthD2 [OF l k] .
    ultimately show ?case
      using Suc k read_cstr_at [OF assms(2)] assms(3) by (simp add: foldM_append take_Suc_conv_app_nth)
  qed simp
  from this [of "unat n"] show ?thesis
    using strv_holds_length [OF assms(1)] by (simp add: strv_list_def)
qed

section \<open>The lists of a soft dependency\<close>

text \<open>
  The reference: the fields behind \<open>pre:\<close> and behind \<open>post:\<close>, each keyword holding until the next.
\<close>

fun sort_deps :: "softdep_mode \<Rightarrow> (string \<times> bool) list \<Rightarrow> string list \<times> string list" where
  "sort_deps mode [] = ([], [])"
| "sort_deps mode ((tok, used) # fs) =
     (if tok = ''pre:'' then sort_deps S_PRE fs
      else if tok = ''post:'' then sort_deps S_POST fs
      else (let (pre, post) = sort_deps mode fs in
            if used \<and> mode = S_PRE then (tok # pre, post)
            else if used \<and> mode = S_POST then (pre, tok # post) else (pre, post)))"

definition softdep_lists :: "string \<Rightarrow> string list \<times> string list" where
  "softdep_lists line = sort_deps S_NONE (line_fields line)"

definition weakdep_list :: "string \<Rightarrow> string list" where
  "weakdep_list line = map fst (filter snd (line_fields line))"

abbreviation bytes_of :: "string list \<Rightarrow> nat" where
  "bytes_of ss \<equiv> (\<Sum>s\<leftarrow>ss. length s + 1)"

lemma uadd_one: "unat n + 1 < 2 ^ LENGTH('a) \<Longrightarrow> uadd_overflow n (1 :: 'a::len word) = (n + 1, False)"
  using uadd_overflow_iff [of n 1] by (simp add: uadd_overflow_def)

lemma softdep_count_run:
  assumes "sort_deps mode fs = (pre, post)"
    and "unat n_pre + length pre < 2 ^ 32" and "unat n_post + length post < 2 ^ 32"
  shows "\<exists>mode'. run_fields softdep_count fs (mode, n_pre, n_post, buflen)
    = Some (Inr (mode', n_pre + of_nat (length pre), n_post + of_nat (length post),
        buflen + of_nat (bytes_of pre + bytes_of post)))"
  using assms
proof (induction fs arbitrary: mode n_pre n_post buflen pre post)
  case (Cons f fs)
  obtain tok used where f: "f = (tok, used)" by (cases f)
  obtain pr po where r: "sort_deps mode fs = (pr, po)" by (cases "sort_deps mode fs")
  have w: "unat (n + 1 :: u32) = unat n + 1" if "unat n + Suc k < 2 ^ 32" for n :: u32 and k
    using that by (simp add: unat_word_ariths)
  consider "tok = ''pre:''" | "tok = ''post:''"
    | "tok \<noteq> ''pre:''" "tok \<noteq> ''post:''" "used" "mode = S_PRE"
    | "tok \<noteq> ''pre:''" "tok \<noteq> ''post:''" "used" "mode = S_POST"
    | "tok \<noteq> ''pre:''" "tok \<noteq> ''post:''" "\<not> used \<or> mode = S_NONE"
    by (cases mode) auto
  then show ?case
  proof cases
    case 3
    then have p: "pre = tok # pr" "post = po" using Cons.prems(1) f r by auto
    have "unat n_pre + 1 < 2 ^ 32" using Cons.prems(2) p by simp
    then have "softdep_count tok used (mode, n_pre, n_post, buflen)
        = Some (Inr (mode, n_pre + 1, n_post, buflen + (of_nat (length tok) + 1)))"
      using 3 uadd_one [of n_pre] by simp
    then show ?thesis
      using Cons.IH [OF r, of "n_pre + 1" n_post "buflen + (of_nat (length tok) + 1)"] Cons.prems p w [of n_pre "length pr"] f
      by (auto simp: algebra_simps)
  next
    case 4
    then have p: "pre = pr" "post = tok # po" using Cons.prems(1) f r by auto
    have "unat n_post + 1 < 2 ^ 32" using Cons.prems(3) p by simp
    then have "softdep_count tok used (mode, n_pre, n_post, buflen)
        = Some (Inr (mode, n_pre, n_post + 1, buflen + (of_nat (length tok) + 1)))"
      using 4 uadd_one [of n_post] by simp
    then show ?thesis
      using Cons.IH [OF r, of n_pre "n_post + 1" "buflen + (of_nat (length tok) + 1)"] Cons.prems p w [of n_post "length po"] f
      by (auto simp: algebra_simps)
  next
    case 5
    then have "sort_deps mode fs = (pre, post)" using Cons.prems(1) f r by auto
    from Cons.IH [OF this Cons.prems(2,3), of buflen] show ?thesis using 5 f by auto
  qed (use Cons f in auto)
qed auto

text \<open>The state of the second pass: what is stored so far.\<close>

definition dep_holds ::
    "kmod_softdep \<Rightarrow> u32 \<Rightarrow> u32 \<Rightarrow> nat \<Rightarrow> char list \<Rightarrow> string list \<Rightarrow> string list \<Rightarrow> bool" where
  "dep_holds dep n_pre n_post itr cs ps qs \<longleftrightarrow> strv_holds n_pre (sd_pre dep) cs ps
     \<and> strv_holds n_post (sd_post dep) cs qs \<and> filled_upto itr (sd_buf dep) cs"

definition dep_same :: "kmod_softdep \<Rightarrow> kmod_softdep \<Rightarrow> bool" where
  "dep_same d d' \<longleftrightarrow> sd_name d' = sd_name d \<and> sd_n_pre d' = sd_n_pre d \<and> sd_n_post d' = sd_n_post d
     \<and> length (sd_pre d') = length (sd_pre d) \<and> length (sd_post d') = length (sd_post d)
     \<and> length (sd_buf d') = length (sd_buf d)"

lemma softdep_copy_pre:
  assumes "dep_holds dep n_pre n_post itr cs ps qs" and "tok \<noteq> ''pre:''" "tok \<noteq> ''post:''"
    and "unat n_pre < length (sd_pre dep)" and "unat n_pre + 1 < 2 ^ 32" and "itr + length tok < length (sd_buf dep)"
  shows "\<exists>dep'. softdep_copy tok True (S_PRE, n_pre, n_post, itr, dep)
      = Some (Inr (S_PRE, n_pre + 1, n_post, itr + (length tok + 1), dep')) \<and> dep_same dep dep'
    \<and> dep_holds dep' (n_pre + 1) n_post (itr + (length tok + 1)) (cs @ tok @ [NUL]) (ps @ [tok]) qs"
  using put_field_spec [of n_pre "sd_pre dep" cs ps itr "sd_buf dep" tok]
    strv_holds_append [of n_post "sd_post dep" cs qs "tok @ [NUL]"] assms
  by (auto simp: dep_holds_def dep_same_def)

lemma softdep_copy_post:
  assumes "dep_holds dep n_pre n_post itr cs ps qs" and "tok \<noteq> ''pre:''" "tok \<noteq> ''post:''"
    and "unat n_post < length (sd_post dep)" and "unat n_post + 1 < 2 ^ 32" and "itr + length tok < length (sd_buf dep)"
  shows "\<exists>dep'. softdep_copy tok True (S_POST, n_pre, n_post, itr, dep)
      = Some (Inr (S_POST, n_pre, n_post + 1, itr + (length tok + 1), dep')) \<and> dep_same dep dep'
    \<and> dep_holds dep' n_pre (n_post + 1) (itr + (length tok + 1)) (cs @ tok @ [NUL]) ps (qs @ [tok])"
  using put_field_spec [of n_post "sd_post dep" cs qs itr "sd_buf dep" tok]
    strv_holds_append [of n_pre "sd_pre dep" cs ps "tok @ [NUL]"] assms
  by (auto simp: dep_holds_def dep_same_def)

lemma softdep_copy_run:
  assumes "sort_deps mode fs = (pre, post)" and "dep_holds dep n_pre n_post itr cs ps qs"
    and "unat n_pre + length pre \<le> length (sd_pre dep)" and "unat n_post + length post \<le> length (sd_post dep)"
    and "unat n_pre + length pre < 2 ^ 32" and "unat n_post + length post < 2 ^ 32"
    and "itr + (bytes_of pre + bytes_of post) \<le> length (sd_buf dep)"
  shows "\<exists>mode' itr' dep' cs'. run_fields softdep_copy fs (mode, n_pre, n_post, itr, dep)
      = Some (Inr (mode', n_pre + of_nat (length pre), n_post + of_nat (length post), itr', dep')) \<and> dep_same dep dep'
    \<and> dep_holds dep' (n_pre + of_nat (length pre)) (n_post + of_nat (length post)) itr' cs' (ps @ pre) (qs @ post)"
  using assms
proof (induction fs arbitrary: mode n_pre n_post itr dep cs ps qs pre post)
  case (Cons f fs)
  obtain tok used where f: "f = (tok, used)" by (cases f)
  obtain pr po where r: "sort_deps mode fs = (pr, po)" by (cases "sort_deps mode fs")
  have w: "unat (n + 1 :: u32) = unat n + 1" if "unat n + Suc k < 2 ^ 32" for n :: u32 and k
    using that by (simp add: unat_word_ariths)
  have same: "dep_same a c" if "dep_same a b" "dep_same b c" for a b c
    using that by (simp add: dep_same_def)
  consider "tok = ''pre:''" | "tok = ''post:''"
    | "tok \<noteq> ''pre:''" "tok \<noteq> ''post:''" "used" "mode = S_PRE"
    | "tok \<noteq> ''pre:''" "tok \<noteq> ''post:''" "used" "mode = S_POST"
    | "tok \<noteq> ''pre:''" "tok \<noteq> ''post:''" "\<not> used \<or> mode = S_NONE"
    by (cases mode) auto
  then show ?case
  proof cases
    case 3
    then have p: "pre = tok # pr" "post = po" using Cons.prems(1) f r by auto
    obtain dep' where d: "softdep_copy tok True (S_PRE, n_pre, n_post, itr, dep)
        = Some (Inr (S_PRE, n_pre + 1, n_post, itr + (length tok + 1), dep'))" "dep_same dep dep'"
        "dep_holds dep' (n_pre + 1) n_post (itr + (length tok + 1)) (cs @ tok @ [NUL]) (ps @ [tok]) qs"
      using softdep_copy_pre [OF Cons.prems(2) 3(1,2)] Cons.prems p by auto
    show ?thesis
      using Cons.IH [OF r d(3)] d(1,2) Cons.prems(3-7) p w [of n_pre "length pr"] f 3 same [OF d(2)]
      by (fastforce simp: dep_same_def algebra_simps)
  next
    case 4
    then have p: "pre = pr" "post = tok # po" using Cons.prems(1) f r by auto
    obtain dep' where d: "softdep_copy tok True (S_POST, n_pre, n_post, itr, dep)
        = Some (Inr (S_POST, n_pre, n_post + 1, itr + (length tok + 1), dep'))" "dep_same dep dep'"
        "dep_holds dep' n_pre (n_post + 1) (itr + (length tok + 1)) (cs @ tok @ [NUL]) ps (qs @ [tok])"
      using softdep_copy_post [OF Cons.prems(2) 4(1,2)] Cons.prems p by auto
    show ?thesis
      using Cons.IH [OF r d(3)] d(1,2) Cons.prems(3-7) p w [of n_post "length po"] f 4 same [OF d(2)]
      by (fastforce simp: dep_same_def algebra_simps)
  next
    case 5
    then have "sort_deps mode fs = (pre, post)" using Cons.prems(1) f r by auto
    from Cons.IH [OF this Cons.prems(2-7)] show ?thesis using 5 f by auto
  qed (use Cons f in auto)
qed (auto simp: dep_same_def)

section \<open>Sizes\<close>

lemma fields_bytes: "(\<Sum>(w, u)\<leftarrow>fields l. if u then length w + 1 else 0) \<le> length l + 1"
proof (induction l rule: fields.induct)
  case (1 l)
  define m where "m = dropWhile isspace l"
  define b where "b = takeWhile nonspace m"
  define r where "r = dropWhile nonspace m"
  have len: "length b + length r \<le> length l"
    using length_dropWhile_le [of isspace l] takeWhile_dropWhile_id [of nonspace m]
    by (metis b_def r_def m_def length_append)
  have f: "fields l = (if m = [] then [([], False)] else if r = [] then [(b, True)] else (b, True) # fields (tl r))"
    by (subst fields.simps) (unfold Let_def m_def [symmetric] b_def [symmetric] r_def [symmetric], simp)
  show ?case
  proof (cases "m = [] \<or> r = []")
    case True
    then show ?thesis using len f by auto
  next
    case False
    then have "(\<Sum>(w, u)\<leftarrow>fields (tl r). if u then length w + 1 else 0) \<le> length (tl r) + 1"
      using "1.IH" [OF m_def b_def r_def] by blast
    then show ?thesis using len f False by (cases r) auto
  qed
qed

lemma fields_chars: "(w, u) \<in> set (fields l) \<Longrightarrow> set w \<subseteq> set l"
proof (induction l arbitrary: w u rule: fields.induct)
  case (1 l)
  define m where "m = dropWhile isspace l"
  define b where "b = takeWhile nonspace m"
  define r where "r = dropWhile nonspace m"
  have sub: "set b \<subseteq> set l" "set r \<subseteq> set l"
    by (auto simp: b_def r_def m_def dest!: set_takeWhileD set_dropWhileD)
  have f: "fields l = (if m = [] then [([], False)] else if r = [] then [(b, True)] else (b, True) # fields (tl r))"
    by (subst fields.simps) (unfold Let_def m_def [symmetric] b_def [symmetric] r_def [symmetric], simp)
  show ?case
  proof (cases "m = [] \<or> r = []")
    case True
    then show ?thesis using "1.prems" sub f by (auto split: if_splits)
  next
    case False
    then show ?thesis
      using "1.IH" [OF m_def b_def r_def, of w u] "1.prems" sub f by (cases r) auto
  qed
qed

lemma line_fields_bytes: "(\<Sum>(w, u)\<leftarrow>line_fields l. if u then length w + 1 else 0) \<le> length l + 1"
proof (induction l rule: line_fields.induct)
  case (3 c d r)
  show ?case
    using fields_bytes [of "c # d # r"] fields_bytes [of "d # r"] fields_bytes [of r]
    by (auto split: list.splits)
next
  case (2 c)
  show ?case using fields_bytes [of "[c]"] by auto
qed simp

lemma line_fields_chars: "(w, u) \<in> set (line_fields l) \<Longrightarrow> set w \<subseteq> set l"
proof (induction l rule: line_fields.induct)
  case (3 c d r)
  have d: "set w' \<subseteq> set (d # r)" if "fields (d # r) = (x, y) # fs" "(w', u) \<in> set ((x, y) # fs)" for w' x y fs
    using fields_chars [of w' u "d # r"] that by metis
  consider "nonspace c" | "isspace c" "isspace d" | "isspace c" "nonspace d" by blast
  then show ?case
  proof cases
    case 1
    then show ?thesis using fields_chars [of w u "c # d # r"] 3 by simp
  next
    case 2
    then show ?thesis using fields_chars [of w u r] 3 by auto
  next
    case n: 3
    obtain x y fs where f: "fields (d # r) = (x, y) # fs" using fields_word [OF n(2), of r] by metis
    then have "(w, u) = (c # x, y) \<or> (w, u) \<in> set fs" using n "3.prems" by simp
    then show ?thesis using d [OF f, of x] d [OF f, of w] by auto
  qed
next
  case (2 c)
  then show ?case using fields_chars [of w u "[c]"] by (auto split: if_splits)
qed simp

lemma sort_deps_bytes:
  "sort_deps mode fs = (pre, post) \<Longrightarrow>
    bytes_of pre + bytes_of post \<le> (\<Sum>(w, u)\<leftarrow>fs. if u then length w + 1 else 0)"
  by (induction mode fs arbitrary: pre post rule: sort_deps.induct)
    (fastforce split: if_splits prod.splits)+

lemma sort_deps_fields:
  "sort_deps mode fs = (pre, post) \<Longrightarrow> set pre \<union> set post \<subseteq> fst ` set fs"
  by (induction mode fs arbitrary: pre post rule: sort_deps.induct)
    (fastforce split: if_splits prod.splits)+

lemma length_le_bytes_of: "length ss \<le> bytes_of ss"
  by (induction ss) auto

lemma softdep_lists_small:
  assumes "softdep_lists line = (pre, post)"
  shows "bytes_of pre + bytes_of post \<le> length line + 1"
    and "length pre + length post \<le> length line + 1"
    and "nul_free line \<Longrightarrow> s \<in> set pre \<union> set post \<Longrightarrow> nul_free s"
proof -
  show b: "bytes_of pre + bytes_of post \<le> length line + 1"
    using sort_deps_bytes [OF assms [unfolded softdep_lists_def]] line_fields_bytes [of line] by linarith
  show "length pre + length post \<le> length line + 1"
    using b length_le_bytes_of [of pre] length_le_bytes_of [of post] by linarith
  show "nul_free line \<Longrightarrow> s \<in> set pre \<union> set post \<Longrightarrow> nul_free s"
    using sort_deps_fields [OF assms [unfolded softdep_lists_def]] line_fields_chars [of _ _ line] by fastforce
qed

lemma uadd_small:
  "unat a + unat b < 2 ^ LENGTH('a) \<Longrightarrow> uadd_overflow a b = (a + b, False)" for a b :: "'a::len word"
  using uadd_overflow_iff [of a b] by (simp add: uadd_overflow_def)

lemma umul_small:
  "unat a * unat b < 2 ^ LENGTH('a) \<Longrightarrow> umul_overflow a b = (a * b, False)" for a b :: "'a::len word"
  using umul_overflow_iff [of a b] by (simp add: umul_overflow_def)

lemma unat_of_nat_small: "k < 2 ^ LENGTH('a) \<Longrightarrow> unat (of_nat k :: 'a::len word) = k"
  by (simp add: unat_of_nat take_bit_nat_eq_self)

lemma strsize_of_nat: "strsize s = of_nat (length s + 1)"
  by (simp add: strsize_def)

lemma uadd_of_nat:
  "k + l < 2 ^ 64 \<Longrightarrow> uadd_overflow (of_nat k) (of_nat l :: size_t) = (of_nat (k + l), False)"
  using uadd_small [of "of_nat k :: size_t" "of_nat l"] by (simp add: unat_of_nat_small)

lemma umul_of_nat:
  assumes "k < 2 ^ 32"
  shows "umul_overflow (ucast (of_nat k :: u32)) (8 :: size_t) = (of_nat (8 * k), False)"
proof -
  have k: "unat (ucast (of_nat k :: u32) :: size_t) = k" using assms by (simp add: unat_of_nat_small)
  then have "umul_overflow (ucast (of_nat k :: u32)) (8 :: size_t) = (ucast (of_nat k :: u32) * 8, False)"
    using assms by (intro umul_small) simp
  moreover have "ucast (of_nat k :: u32) = (of_nat k :: size_t)" 
    unfolding word_unat_eq_iff using k assms by (simp add: unat_of_nat_small)
  ultimately show ?thesis by (simp add: mult.commute)
qed

lemma softdep_size_small:
  assumes "m < 2 ^ 32" "i < 2 ^ 32" "j < 2 ^ 32" "b < 2 ^ 32"
  shows "softdep_size (of_nat m) (of_nat i) (of_nat j) (of_nat b) = Some (of_nat (32 + m + 8 * i + 8 * j + b))"
proof -
  have 32: "(32 :: size_t) = of_nat 32" by simp
  show ?thesis
    unfolding softdep_size_def 32 using assms
    by (simp add: uadd_of_nat umul_of_nat Let_def del: of_nat_numeral of_nat_add of_nat_mult)
qed

lemma weakdep_size_small:
  assumes "m < 2 ^ 32" "i < 2 ^ 32" "b < 2 ^ 32"
  shows "weakdep_size (of_nat m) (of_nat i) (of_nat b) = Some (of_nat (24 + m + 8 * i + b))"
proof -
  have 24: "(24 :: size_t) = of_nat 24" by simp
  show ?thesis
    unfolding weakdep_size_def 24 using assms
    by (simp add: uadd_of_nat umul_of_nat Let_def del: of_nat_numeral of_nat_add of_nat_mult)
qed

section \<open>Adding dependencies\<close>

definition softdep_view :: "kmod_softdep \<Rightarrow> string \<times> string list option \<times> string list option" where
  "softdep_view dep = (sd_name dep, strv_list (sd_n_pre dep) (sd_pre dep) (sd_buf dep),
     strv_list (sd_n_post dep) (sd_post dep) (sd_buf dep))"

lemma strv_holds_empty: "strv_holds 0 strv [] []"
  by (simp add: strv_holds_def)

lemma filled_upto_empty: "filled_upto 0 buf []"
  by (simp add: filled_upto_def)

lemma softdep_built:
  assumes "nul_free line" and "length line < 2 ^ 31" and "softdep_lists line = (pre, post)"
  defines "i \<equiv> of_nat (length pre)" and "j \<equiv> of_nat (length post)"
  defines "b \<equiv> of_nat (bytes_of pre + bytes_of post)"
  shows "\<exists>mode. for_fields softdep_count line 0 0 False (S_NONE, 0, 0, 0) = Some (Inr (mode, i, j, b))"
    and "\<exists>mode itr dep. for_fields softdep_copy line 0 0 False
        (S_NONE, 0, 0, 0, \<lparr>sd_name = modname, sd_pre = replicate (unat i) None,
           sd_post = replicate (unat j) None, sd_n_pre = i, sd_n_post = j, sd_buf = replicate (unat b) None\<rparr>)
      = Some (Inr (mode, i, j, itr, dep)) \<and> softdep_view dep = (modname, Some pre, Some post)"
proof -
  note small = softdep_lists_small [OF assms(3)]
  have s: "sort_deps S_NONE (line_fields line) = (pre, post)" using assms(3) by (simp add: softdep_lists_def)
  have len: "length pre < 2 ^ 32" "length post < 2 ^ 32" "bytes_of pre + bytes_of post < 2 ^ 64"
    using small(1,2) assms(2) by auto
  have u: "unat i = length pre" "unat j = length post" "unat b = bytes_of pre + bytes_of post"
    unfolding i_def j_def b_def by (rule unat_of_nat_small, use len in simp)+
  show "\<exists>mode. for_fields softdep_count line 0 0 False (S_NONE, 0, 0, 0) = Some (Inr (mode, i, j, b))"
    using softdep_count_run [OF s, of 0 0 0] len unfolding for_fields_line [OF assms(1)] i_def j_def b_def by simp
  let ?d = "\<lparr>sd_name = modname, sd_pre = replicate (unat i) None, sd_post = replicate (unat j) None,
      sd_n_pre = i, sd_n_post = j, sd_buf = replicate (unat b) None\<rparr>"
  have "dep_holds ?d 0 0 0 [] [] []"
    by (simp add: dep_holds_def strv_holds_empty filled_upto_empty)
  from softdep_copy_run [OF s this] obtain mode itr dep cs where d:
      "run_fields softdep_copy (line_fields line) (S_NONE, 0, 0, 0, ?d) = Some (Inr (mode, i, j, itr, dep))"
      "dep_same ?d dep" "dep_holds dep i j itr cs pre post"
    using len u by (auto simp: i_def j_def)
  have "softdep_view dep = (modname, Some pre, Some post)"
    using d(2,3) strv_list_holds small(3) assms(1)
    by (auto simp: softdep_view_def dep_same_def dep_holds_def)
  then show "\<exists>mode itr dep. for_fields softdep_copy line 0 0 False (S_NONE, 0, 0, 0, ?d)
      = Some (Inr (mode, i, j, itr, dep)) \<and> softdep_view dep = (modname, Some pre, Some post)"
    unfolding for_fields_line [OF assms(1)] using d(1) by blast
qed

lemma add_softdep_spec:
  assumes "nul_free line" and "length line < 2 ^ 31" and "length modname < 2 ^ 31"
    and "softdep_lists line = (pre, post)"
  defines "sz \<equiv> of_nat (33 + length modname + 8 * (length pre + length post) + bytes_of pre + bytes_of post)"
  shows "\<exists>dep. softdep_view dep = (modname, Some pre, Some post)
    \<and> kmod_config_add_softdep alloc config modname line
      = Some (if alloc sz \<and> alloc 24 then (Inr (), config\<lparr>softdeps := softdeps config @ [dep]\<rparr>)
              else (Inl ENOMEM, config))"
proof -
  note small = softdep_lists_small [OF assms(4)]
  note built = softdep_built [OF assms(1,2,4)]
  have "softdep_size (strsize modname) (of_nat (length pre)) (of_nat (length post)) (of_nat (bytes_of pre + bytes_of post))
      = Some (of_nat (32 + (length modname + 1) + 8 * length pre + 8 * length post + (bytes_of pre + bytes_of post)))"
    unfolding strsize_of_nat by (rule softdep_size_small) (use small(1,2) assms(2,3) in auto)
  also have "\<dots> = Some sz" unfolding sz_def by (simp add: algebra_simps)
  finally have sz: "softdep_size (strsize modname) (of_nat (length pre)) (of_nat (length post)) (of_nat (bytes_of pre + bytes_of post)) = Some sz" .
  obtain mode itr dep where c: "for_fields softdep_copy line 0 0 False
        (S_NONE, 0, 0, 0, \<lparr>sd_name = modname, sd_pre = replicate (unat (of_nat (length pre) :: u32)) None,
           sd_post = replicate (unat (of_nat (length post) :: u32)) None, sd_n_pre = of_nat (length pre), sd_n_post = of_nat (length post),
           sd_buf = replicate (unat (of_nat (bytes_of pre + bytes_of post) :: size_t)) None\<rparr>)
      = Some (Inr (mode, of_nat (length pre), of_nat (length post), itr, dep))"
      "softdep_view dep = (modname, Some pre, Some post)"
    using built(2) by blast
  show ?thesis
    using built(1) c sz
    by (intro exI [of _ dep]) (auto simp: kmod_config_add_softdep_def list_append_def simp del: of_nat_add)
qed

section \<open>Adding weak dependencies\<close>

definition weakdep_view :: "kmod_weakdep \<Rightarrow> string \<times> string list option" where
  "weakdep_view dep = (wd_name dep, strv_list (wd_n_weak dep) (wd_weak dep) (wd_buf dep))"

abbreviation used_fields :: "(string \<times> bool) list \<Rightarrow> string list" where
  "used_fields fs \<equiv> map fst (filter snd fs)"

lemma used_fields_bytes: "bytes_of (used_fields fs) = (\<Sum>(w, u)\<leftarrow>fs. if u then length w + 1 else 0)"
  by (induction fs) auto

lemma weakdep_count_run:
  assumes "unat n + length (used_fields fs) < 2 ^ 32"
  shows "run_fields weakdep_count fs (n, buflen)
    = Some (Inr (n + of_nat (length (used_fields fs)), buflen + of_nat (bytes_of (used_fields fs))))"
  using assms
proof (induction fs arbitrary: n buflen)
  case (Cons f fs)
  show ?case
  proof (cases "snd f")
    case True
    then have "unat n + 1 < 2 ^ 32" "unat (n + 1) + length (used_fields fs) < 2 ^ 32"
      using Cons.prems by (auto simp: unat_word_ariths)
    note n = this
    have "weakdep_count (fst f) (snd f) (n, buflen) = Some (Inr (n + 1, buflen + (of_nat (length (fst f)) + 1)))"
      using True uadd_one [of n] n(1) by simp
    moreover have "buflen + (of_nat (length (fst f)) + 1) + of_nat (bytes_of (used_fields fs))
        = buflen + of_nat (bytes_of (used_fields (f # fs)))"
      "n + 1 + of_nat (length (used_fields fs)) = n + of_nat (length (used_fields (f # fs)))"
      using True by simp_all
    ultimately show ?thesis using Cons.IH [OF n(2), of "buflen + (of_nat (length (fst f)) + 1)"] by simp
  qed (use Cons in auto)
qed simp

lemma weakdep_copy_run:
  assumes "strv_holds n (wd_weak dep) cs ps" and "filled_upto itr (wd_buf dep) cs"
    and "unat n + length (used_fields fs) \<le> length (wd_weak dep)" and "unat n + length (used_fields fs) < 2 ^ 32"
    and "itr + bytes_of (used_fields fs) \<le> length (wd_buf dep)"
  shows "\<exists>itr' dep' cs'. run_fields weakdep_copy fs (n, itr, dep)
      = Some (Inr (n + of_nat (length (used_fields fs)), itr', dep'))
    \<and> wd_name dep' = wd_name dep \<and> wd_n_weak dep' = wd_n_weak dep
    \<and> strv_holds (n + of_nat (length (used_fields fs))) (wd_weak dep') cs' (ps @ used_fields fs)
    \<and> filled_upto itr' (wd_buf dep') cs'"
  using assms
proof (induction fs arbitrary: n itr dep cs ps)
  case (Cons f fs)
  show ?case
  proof (cases "snd f")
    case True
    let ?t = "fst f"
    have n: "unat (n + 1) = unat n + 1" using Cons.prems(4) True by (simp add: unat_word_ariths)
    obtain sv b where p: "put_field ?t n itr (wd_weak dep) (wd_buf dep) = Some (sv, b)"
        "length sv = length (wd_weak dep)" "length b = length (wd_buf dep)"
        "strv_holds (n + 1) sv (cs @ ?t @ [NUL]) (ps @ [?t])" "filled_upto (itr + (length ?t + 1)) b (cs @ ?t @ [NUL])"
      using put_field_spec [OF Cons.prems(1,2), of ?t] Cons.prems(3-5) True by auto
    show ?thesis
      using Cons.IH [of "n + 1" "dep\<lparr>wd_weak := sv, wd_buf := b\<rparr>" "cs @ ?t @ [NUL]" "ps @ [?t]" "itr + (length ?t + 1)"]
        p n Cons.prems(3-5) True by (simp add: algebra_simps)
  qed (use Cons in auto)
qed auto

lemma add_weakdep_spec:
  assumes "nul_free line" and "length line < 2 ^ 31" and "length modname < 2 ^ 31"
  defines "weak \<equiv> weakdep_list line"
  defines "sz \<equiv> of_nat (25 + length modname + 8 * length weak + bytes_of weak)"
  shows "\<exists>dep. weakdep_view dep = (modname, Some weak)
    \<and> kmod_config_add_weakdep alloc config modname line
      = Some (if alloc sz \<and> alloc 24 then (Inr (), config\<lparr>weakdeps := weakdeps config @ [dep]\<rparr>)
              else (Inl ENOMEM, config))"
proof -
  have w: "weak = used_fields (line_fields line)" by (simp add: weak_def weakdep_list_def)
  have b: "bytes_of weak \<le> length line + 1"
    unfolding w used_fields_bytes by (rule line_fields_bytes)
  have l: "length weak \<le> length line + 1" using b length_le_bytes_of [of weak] by linarith
  have nf: "\<forall>s \<in> set weak. nul_free s"
    using assms(1) line_fields_chars [of _ _ line] by (fastforce simp: w)
  define i :: u32 where "i = of_nat (length weak)"
  define n :: size_t where "n = of_nat (bytes_of weak)"
  have u: "unat i = length weak" "unat n = bytes_of weak"
    unfolding i_def n_def by (rule unat_of_nat_small, use l b assms(2) in simp)+
  have c: "for_fields weakdep_count line 0 0 False (0, 0) = Some (Inr (i, n))"
    unfolding for_fields_line [OF assms(1)] using weakdep_count_run [of 0 "line_fields line" 0] l assms(2)
    by (simp add: w i_def n_def)
  have "weakdep_size (strsize modname) i n = Some (of_nat (24 + (length modname + 1) + 8 * length weak + bytes_of weak))"
    unfolding strsize_of_nat i_def n_def by (rule weakdep_size_small) (use l b assms(2,3) in auto)
  also have "\<dots> = Some sz" unfolding sz_def by (simp add: algebra_simps)
  finally have sz: "weakdep_size (strsize modname) i n = Some sz" .
  let ?d = "\<lparr>wd_name = modname, wd_weak = replicate (unat i) None, wd_n_weak = i, wd_buf = replicate (unat n) None\<rparr>"
  obtain itr dep cs where r: "for_fields weakdep_copy line 0 0 False (0, 0, ?d) = Some (Inr (i, itr, dep))"
      "wd_name dep = modname" "wd_n_weak dep = i" "strv_holds i (wd_weak dep) cs weak" "filled_upto itr (wd_buf dep) cs"
  proof -
    have len: "length (wd_weak ?d) = length weak" "length (wd_buf ?d) = bytes_of weak" "length weak < 2 ^ 32"
      using u l assms(2) by auto
    have i: "0 + of_nat (length weak) = i" by (simp add: i_def)
    show thesis
      using weakdep_copy_run [of 0 ?d "[]" "[]" 0 "line_fields line", folded w, unfolded i] that len
      unfolding for_fields_line [OF assms(1)] by (force simp: strv_holds_empty filled_upto_empty)
  qed
  have "weakdep_view dep = (modname, Some weak)"
    using r strv_list_holds [OF r(4,5) nf] by (simp add: weakdep_view_def)
  then show ?thesis
    using c r(1) sz by (intro exI [of _ dep]) (auto simp: kmod_config_add_weakdep_def list_append_def)
qed

end
