(* ===== verification/Kmod_Config_File.thy ===== *)
theory Kmod_Config_File
  imports Kmod_Softdep "HOL-Library.Sublist"
begin

text \<open>
  \<open>libkmod/libkmod-config.c\<close>, second part: parsing a configuration file, and choosing and ordering
  the files of the configuration directories. The contents of a file, the entries of a directory and
  the results of \<open>stat\<close> are arguments. Log messages are left out.
\<close>

section \<open>Lines\<close>

text \<open>\<open>strtok_r\<close> on the rest of a line: the token, or NULL, and the new rest.\<close>

definition strtok_r :: "string \<Rightarrow> string \<Rightarrow> string option \<times> string" where
  "strtok_r saveptr delim =
     (let s = dropWhile (\<lambda>c. c \<in> set delim) saveptr in
      if s = [] then (None, [])
      else (Some (takeWhile (\<lambda>c. c \<notin> set delim) s), drop 1 (dropWhile (\<lambda>c. c \<notin> set delim) s)))"

abbreviation blanks :: string where "blanks \<equiv> [CHR 0x09, CHR '' '']"

text \<open>The guard of most commands: the name of a module, made canonical, and the rest of the line.\<close>

definition modname_and_rest :: "string \<Rightarrow> (string \<times> string) option option" where
  "modname_and_rest saveptr =
     (let (modname, saveptr) = strtok_r saveptr blanks; (rest, _) = strtok_r saveptr [] in
      do { (r, modname) \<leftarrow> underscores modname;
           Some (case (r, modname, rest) of (Inr _, Some m, Some s) \<Rightarrow> Some (m, s) | _ \<Rightarrow> None) })"

text \<open>The commands, with the rest of the line behind the command.\<close>

definition parse_command :: "(size_t \<Rightarrow> bool) \<Rightarrow> kmod_config \<Rightarrow> string \<Rightarrow> string \<Rightarrow> kmod_config option" where
  "parse_command alloc config cmd saveptr =
     (if streq cmd ''alias'' then
        (let (alias, saveptr) = strtok_r saveptr blanks; (modname, saveptr) = strtok_r saveptr blanks in
         do { (r, alias) \<leftarrow> underscores alias;
              case (r, alias) of
                (Inr _, Some a) \<Rightarrow>
                  do { (r, modname) \<leftarrow> underscores modname;
                       Some (case (r, modname) of
                               (Inr _, Some m) \<Rightarrow> snd (kmod_config_add_alias alloc config a m)
                             | _ \<Rightarrow> config) }
              | _ \<Rightarrow> Some config })
      else if streq cmd ''blacklist'' then
        (let (modname, saveptr) = strtok_r saveptr blanks in
         do { (r, modname) \<leftarrow> underscores modname;
              Some (case (r, modname) of
                      (Inr _, Some m) \<Rightarrow> snd (kmod_config_add_blacklist alloc config m)
                    | _ \<Rightarrow> config) })
      else if streq cmd ''options'' then
        do { a \<leftarrow> modname_and_rest saveptr;
             Some (case a of Some (m, s) \<Rightarrow> snd (kmod_config_add_options alloc config m s) | None \<Rightarrow> config) }
      else if streq cmd ''install'' then
        do { a \<leftarrow> modname_and_rest saveptr;
             Some (case a of
                     Some (m, s) \<Rightarrow> config\<lparr>install_commands := snd (kmod_config_add_command alloc m s (install_commands config))\<rparr>
                   | None \<Rightarrow> config) }
      else if streq cmd ''remove'' then
        do { a \<leftarrow> modname_and_rest saveptr;
             Some (case a of
                     Some (m, s) \<Rightarrow> config\<lparr>remove_commands := snd (kmod_config_add_command alloc m s (remove_commands config))\<rparr>
                   | None \<Rightarrow> config) }
      else if streq cmd ''softdep'' then
        do { a \<leftarrow> modname_and_rest saveptr;
             case a of
               Some (m, s) \<Rightarrow> map_option snd (kmod_config_add_softdep alloc config m s)
             | None \<Rightarrow> Some config }
      else if streq cmd ''weakdep'' then
        do { a \<leftarrow> modname_and_rest saveptr;
             case a of
               Some (m, s) \<Rightarrow> map_option snd (kmod_config_add_weakdep alloc config m s)
             | None \<Rightarrow> Some config }
      else Some config)"

definition parse_line :: "(size_t \<Rightarrow> bool) \<Rightarrow> kmod_config \<Rightarrow> string \<Rightarrow> kmod_config option" where
  "parse_line alloc config line =
     (if char_at line 0 = NUL \<or> char_at line 0 = CHR ''#'' then Some config
      else
        (case strtok_r line blanks of
           (None, _) \<Rightarrow> Some config
         | (Some cmd, saveptr) \<Rightarrow> parse_command alloc config cmd saveptr))"

text \<open>Each line that is read leaves less of the file.\<close>

lemma freadline_loop_shorter:
  "freadline_loop alloc ln fp i sz n buf = Some (Some b, ln', fp') \<Longrightarrow> length fp' \<le> length fp \<and> (i = 0 \<longrightarrow> length fp' < length fp)"
proof (induction alloc ln fp i sz n buf rule: freadline_loop.induct)
  case (1 alloc ln i sz n buf)
  then show ?case by (auto simp: end_line_def bind_eq_Some_conv split: if_splits)
next
  case (2 alloc ln ch fp i sz n buf)
  show ?case 
  proof (cases "ch = CHR 0x0A")
    case True
    then show ?thesis using 2 by (auto simp: end_line_def bind_eq_Some_conv)
  next
    case nl: False
    show ?thesis
    proof (cases "ch = CHR 0x5C")
      case True
      show ?thesis
      proof (cases fp)
        case Nil
        then show ?thesis using "2.prems" True by (auto simp: end_line_def bind_eq_Some_conv split: if_splits)
      next
        case (Cons c fp'')
        show ?thesis
        proof (cases "c = CHR 0x0A")
          case c: True
          then have "freadline_loop alloc ln fp'' i sz (n + 1) buf = Some (Some b, ln', fp')"
            using "2.prems" True Cons by (simp add: Let_def)
          then show ?thesis using "2.IH"(2) [OF refl nl True Cons c] Cons by auto
        next
          case c: False
          then obtain q where "freadline_put alloc c i sz buf = Some q" and q: "(case q of
              None \<Rightarrow> Some (None, ln, fp'') | Some (sz, buf) \<Rightarrow> freadline_loop alloc ln fp'' (Suc i) sz n buf) = Some (Some b, ln', fp')"
            using "2.prems" True Cons by (auto simp: Let_def bind_eq_Some_conv)
          then show ?thesis using "2.IH"(3) [OF refl nl True Cons c] Cons by (fastforce split: option.splits)
        qed
      qed
    next
      case False
      then obtain q where "freadline_put alloc ch i sz buf = Some q" and q: "(case q of
          None \<Rightarrow> Some (None, ln, fp) | Some (sz, buf) \<Rightarrow> freadline_loop alloc ln fp (Suc i) sz n buf) = Some (Some b, ln', fp')"
        using "2.prems" nl by (auto simp: Let_def bind_eq_Some_conv)
      then show ?thesis using "2.IH"(4) [OF refl nl False] by (fastforce split: option.splits)
    qed
  qed
qed

function parse_lines :: "(size_t \<Rightarrow> bool) \<Rightarrow> kmod_config \<Rightarrow> char list \<Rightarrow> u32 \<Rightarrow> kmod_config option" where
  "parse_lines alloc config fp linenum =
     do { (line, linenum, fp') \<leftarrow> freadline_wrapped alloc fp (Some linenum);
          case (line, linenum) of
            (Some buf, Some linenum) \<Rightarrow>
              do { line \<leftarrow> read_cstr buf;
                   config \<leftarrow> parse_line alloc config line;
                   parse_lines alloc config fp' linenum }
          | _ \<Rightarrow> Some config }"
  by pat_completeness auto

termination
  by (relation "measure (\<lambda>(alloc, config, fp, linenum). length fp)")
    (auto simp: freadline_wrapped_def split: if_splits dest!: freadline_loop_shorter)

declare parse_lines.simps [simp del]

text \<open>\<open>fp\<close> is the result of \<open>fdopen\<close>: the contents of the file or an error.\<close>

definition kmod_config_parse ::
    "(size_t \<Rightarrow> bool) \<Rightarrow> kmod_config \<Rightarrow> char list result \<Rightarrow> (unit result \<times> kmod_config) option" where
  "kmod_config_parse alloc config fp =
     (case fp of
        Inl e \<Rightarrow> Some (Inl e, config)
      | Inr fp \<Rightarrow> map_option (Pair (Inr ())) (parse_lines alloc config fp 0))"

section \<open>The directives of a file\<close>

text \<open>
  The reference: a file is a list of logical lines, a line is at most one directive, and the
  configuration holds, for each kind of directive, those of the file in the order of their lines.
\<close>

lemma logical_line_shorter: "logical_line fp = (t, k, rest, nl) \<Longrightarrow> length rest \<le> length fp \<and> (nl \<or> t \<noteq> [] \<longrightarrow> length rest < length fp)"
  by (induction fp arbitrary: t k rest nl rule: logical_line.induct)
    (fastforce split: if_splits list.splits prod.splits)+

function file_lines :: "char list \<Rightarrow> string list" where
  "file_lines fp =
     (let (t, k, rest, nl) = logical_line fp in
      if \<not> nl \<and> t = [] then [] else takeWhile (\<lambda>c. c \<noteq> NUL) t # file_lines rest)"
  by pat_completeness auto

termination
  by (relation "measure length") (auto dest!: logical_line_shorter [OF sym])

declare file_lines.simps [simp del]

datatype directive =
    D_alias string string
  | D_blacklist string
  | D_options string string
  | D_install string string
  | D_remove string string
  | D_softdep string "string list" "string list"
  | D_weakdep string "string list"

definition next_word :: "string \<Rightarrow> string \<times> string" where
  "next_word s =
     (let t = dropWhile (\<lambda>c. c \<in> set blanks) s in
      (takeWhile (\<lambda>c. c \<notin> set blanks) t, drop 1 (dropWhile (\<lambda>c. c \<notin> set blanks) t)))"

text \<open>The directive of the command \<open>cmd\<close> with the first word \<open>w\<close>, the rest and the first word \<open>v\<close> of the rest.\<close>

definition words_directive :: "string \<Rightarrow> string \<Rightarrow> string \<Rightarrow> string \<Rightarrow> directive option" where
  "words_directive cmd w rest v =
     (if w = [] then None
      else if cmd = ''alias'' then
        if v = [] then None else do { a \<leftarrow> norm_alias w; m \<leftarrow> norm_alias v; Some (D_alias a m) }
      else if cmd = ''blacklist'' then map_option D_blacklist (norm_alias w)
      else if rest = [] then None
      else
        do { m \<leftarrow> norm_alias w;
             if cmd = ''options'' then Some (D_options m (strchr_replace rest (CHR 0x09) (CHR '' '')))
             else if cmd = ''install'' then Some (D_install m rest)
             else if cmd = ''remove'' then Some (D_remove m rest)
             else if cmd = ''softdep'' then
               (let (pre, post) = softdep_lists rest in Some (D_softdep m pre post))
             else if cmd = ''weakdep'' then Some (D_weakdep m (weakdep_list rest))
             else None })"

definition line_directive :: "string \<Rightarrow> directive option" where
  "line_directive line =
     (let (cmd, r) = next_word line; (w, rest) = next_word r in
      if line = [] \<or> hd line = CHR ''#'' then None else words_directive cmd w rest (fst (next_word rest)))"

definition file_directives :: "char list \<Rightarrow> directive list" where
  "file_directives fp = List.map_filter line_directive (file_lines fp)"

definition config_holds :: "kmod_config \<Rightarrow> directive list \<Rightarrow> bool" where
  "config_holds config ds \<longleftrightarrow>
     aliases config = [\<lparr>al_name = a, al_modname = m\<rparr>. D_alias a m \<leftarrow> ds]
   \<and> blacklists config = [m. D_blacklist m \<leftarrow> ds]
   \<and> options config = [\<lparr>op_options = s, op_modname = m\<rparr>. D_options m s \<leftarrow> ds]
   \<and> install_commands config = [\<lparr>cm_command = s, cm_modname = m\<rparr>. D_install m s \<leftarrow> ds]
   \<and> remove_commands config = [\<lparr>cm_command = s, cm_modname = m\<rparr>. D_remove m s \<leftarrow> ds]
   \<and> map softdep_view (softdeps config) = [(m, Some p, Some q). D_softdep m p q \<leftarrow> ds]
   \<and> map weakdep_view (weakdeps config) = [(m, Some w). D_weakdep m w \<leftarrow> ds]"

text \<open>A step that adds the directive \<open>d\<close>, or nothing when memory is short.\<close>

definition adds_to ::
    "(size_t \<Rightarrow> bool) \<Rightarrow> directive list \<Rightarrow> kmod_config option \<Rightarrow> directive list \<Rightarrow> bool" where
  "adds_to alloc ds r es \<longleftrightarrow>
     (\<exists>config' es'. r = Some config' \<and> config_holds config' (ds @ es') \<and> subseq es' es \<and> ((\<forall>s. alloc s) \<longrightarrow> es' = es))"

lemma adds_nothing: "config_holds config ds \<Longrightarrow> adds_to alloc ds (Some config) []"
  unfolding adds_to_def by (rule exI [of _ config], rule exI [of _ "[]"]) simp

lemmas add_defs = kmod_config_add_alias_def kmod_config_add_blacklist_def kmod_config_add_options_def
  kmod_config_add_command_def list_append_def

lemma adds_or_not:
  assumes "config_holds config ds" and "config_holds config' (ds @ [d])"
    and "r = Some config' \<or> r = Some config \<and> \<not> (\<forall>s. alloc s)"
  shows "adds_to alloc ds r [d]"
  using assms unfolding adds_to_def by (metis append_Nil2 subseq_order.order_refl list_emb_Nil)

lemma adds_plain:
  assumes "config_holds config ds"
  shows "adds_to alloc ds (Some (snd (kmod_config_add_alias alloc config a m))) [D_alias a m]"
    and "adds_to alloc ds (Some (snd (kmod_config_add_blacklist alloc config m))) [D_blacklist m]"
    and "adds_to alloc ds (Some (snd (kmod_config_add_options alloc config m s)))
      [D_options m (strchr_replace s (CHR 0x09) (CHR '' ''))]"
    and "adds_to alloc ds (Some (config\<lparr>install_commands := snd (kmod_config_add_command alloc m s (install_commands config))\<rparr>))
      [D_install m s]"
    and "adds_to alloc ds (Some (config\<lparr>remove_commands := snd (kmod_config_add_command alloc m s (remove_commands config))\<rparr>))
      [D_remove m s]"
proof -
  show "adds_to alloc ds (Some (snd (kmod_config_add_alias alloc config a m))) [D_alias a m]"
    by (rule adds_or_not [OF assms, of "config\<lparr>aliases := aliases config @ [\<lparr>al_name = a, al_modname = m\<rparr>]\<rparr>"]) (use assms in \<open>auto simp: add_defs config_holds_def\<close>)
  show "adds_to alloc ds (Some (snd (kmod_config_add_blacklist alloc config m))) [D_blacklist m]"
    by (rule adds_or_not [OF assms, of "config\<lparr>blacklists := blacklists config @ [m]\<rparr>"]) (use assms in \<open>auto simp: add_defs config_holds_def\<close>)
  show "adds_to alloc ds (Some (snd (kmod_config_add_options alloc config m s))) [D_options m (strchr_replace s (CHR 0x09) (CHR '' ''))]"
    by (rule adds_or_not [OF assms, of "config\<lparr>options := options config
        @ [\<lparr>op_options = strchr_replace s (CHR 0x09) (CHR '' ''), op_modname = m\<rparr>]\<rparr>"]) (use assms in \<open>auto simp: add_defs config_holds_def\<close>)
  show "adds_to alloc ds (Some (config\<lparr>install_commands := snd (kmod_config_add_command alloc m s (install_commands config))\<rparr>)) [D_install m s]"
    by (rule adds_or_not [OF assms, of "config\<lparr>install_commands := install_commands config @ [\<lparr>cm_command = s, cm_modname = m\<rparr>]\<rparr>"]) (use assms in \<open>auto simp: add_defs config_holds_def\<close>)
  show "adds_to alloc ds (Some (config\<lparr>remove_commands := snd (kmod_config_add_command alloc m s (remove_commands config))\<rparr>)) [D_remove m s]"
    by (rule adds_or_not [OF assms, of "config\<lparr>remove_commands := remove_commands config @ [\<lparr>cm_command = s, cm_modname = m\<rparr>]\<rparr>"]) (use assms in \<open>auto simp: add_defs config_holds_def\<close>)
qed

lemma adds_softdep:
  assumes "config_holds config ds" and "nul_free line" "length line < 2 ^ 31" "length m < 2 ^ 31"
    and "softdep_lists line = (pre, post)"
  shows "adds_to alloc ds (map_option snd (kmod_config_add_softdep alloc config m line)) [D_softdep m pre post]"
proof -
  let ?sz = "of_nat (33 + length m + 8 * (length pre + length post) + bytes_of pre + bytes_of post) :: size_t"
  obtain dep where d: "softdep_view dep = (m, Some pre, Some post)"
      "kmod_config_add_softdep alloc config m line
        = Some (if alloc ?sz \<and> alloc 24 then (Inr (), config\<lparr>softdeps := softdeps config @ [dep]\<rparr>)
                else (Inl ENOMEM, config))"
    using add_softdep_spec [OF assms(2-5)] by blast
  show ?thesis
    by (rule adds_or_not [OF assms(1), of "config\<lparr>softdeps := softdeps config @ [dep]\<rparr>"])
      (use assms(1) d in \<open>auto simp: config_holds_def\<close>)
qed

lemma adds_weakdep:
  assumes "config_holds config ds" and "nul_free line" "length line < 2 ^ 31" "length m < 2 ^ 31"
  shows "adds_to alloc ds (map_option snd (kmod_config_add_weakdep alloc config m line)) [D_weakdep m (weakdep_list line)]"
proof -
  let ?w = "weakdep_list line"
  let ?sz = "of_nat (25 + length m + 8 * length ?w + bytes_of ?w) :: size_t"
  obtain dep where d: "weakdep_view dep = (m, Some ?w)"
      "kmod_config_add_weakdep alloc config m line
        = Some (if alloc ?sz \<and> alloc 24 then (Inr (), config\<lparr>weakdeps := weakdeps config @ [dep]\<rparr>)
                else (Inl ENOMEM, config))"
    using add_weakdep_spec [OF assms(2-4)] by blast
  show ?thesis
    by (rule adds_or_not [OF assms(1), of "config\<lparr>weakdeps := weakdeps config @ [dep]\<rparr>"])
      (use assms(1) d in \<open>auto simp: config_holds_def\<close>)
qed

section \<open>Parsing a line\<close>

lemma takeWhile_dropWhile_Nil: "takeWhile (\<lambda>c. \<not> P c) (dropWhile P l) = [] \<longleftrightarrow> dropWhile P l = []"
proof (cases "dropWhile P l")
  case Nil
  show ?thesis unfolding Nil by simp
next
  case (Cons x xs)
  have "\<not> P (hd (dropWhile P l))" by (rule hd_dropWhile) (simp only: Cons, simp)
  then have "\<not> P x" unfolding Cons by simp
  then show ?thesis unfolding Cons by simp
qed

lemma strtok_r_word:
  "strtok_r s blanks = (let (w, r) = next_word s in if w = [] then (None, []) else (Some w, r))"
  unfolding strtok_r_def next_word_def Let_def takeWhile_dropWhile_Nil split_conv by (rule refl)

lemma strtok_r_rest: "strtok_r s [] = (if s = [] then (None, []) else (Some s, []))"
proof -
  have d: "dropWhile (\<lambda>c. c \<in> set []) s = s" "takeWhile (\<lambda>c. c \<notin> set []) s = s" by (cases s; simp)+
  have e: "dropWhile (\<lambda>c. c \<notin> set []) s = []" by simp
  show ?thesis unfolding strtok_r_def Let_def d e by simp
qed

lemma next_word_sub:
  assumes "next_word s = (w, r)"
  shows "set w \<subseteq> set s" "set r \<subseteq> set s" "length w + length r \<le> length s"
proof -
  let ?t = "dropWhile (\<lambda>c. c \<in> set blanks) s"
  let ?d = "dropWhile (\<lambda>c. c \<notin> set blanks) ?t"
  have w: "w = takeWhile (\<lambda>c. c \<notin> set blanks) ?t" "r = drop 1 ?d"
    using assms by (auto simp: next_word_def Let_def)
  have "set ?t \<subseteq> set s" "set ?d \<subseteq> set ?t" by (blast dest: set_dropWhileD)+
  then show "set w \<subseteq> set s" "set r \<subseteq> set s"
    unfolding w by (blast dest: set_takeWhileD in_set_dropD)+
  have "length ?t = length (takeWhile (\<lambda>c. c \<notin> set blanks) ?t) + length ?d"
    by (metis length_append takeWhile_dropWhile_id)
  then show "length w + length r \<le> length s"
    unfolding w using length_dropWhile_le [of "\<lambda>c. c \<in> set blanks" s] by simp
qed

lemma underscores_cases:
  assumes "nul_free w"
  shows "\<exists>r t. underscores (Some w) = Some (r, Some t)
    \<and> (case norm_alias w of None \<Rightarrow> r = Inl EINVAL | Some m \<Rightarrow> r = Inr () \<and> t = m)"
  using underscores_spec [OF assms] by (auto split: option.splits)

lemma modname_and_rest_spec:
  assumes "nul_free s" and "next_word s = (w, rest)"
  shows "modname_and_rest s
    = Some (if w = [] \<or> rest = [] then None else map_option (\<lambda>m. (m, rest)) (norm_alias w))"
proof (cases "w = []")
  case True
  then show ?thesis
    by (simp add: modname_and_rest_def strtok_r_word assms(2) strtok_r_rest underscores_def)
next
  case False
  have "nul_free w" using assms(1) next_word_sub(1) [OF assms(2)] by blast
  from underscores_cases [OF this] obtain r t where u: "underscores (Some w) = Some (r, Some t)"
      "case norm_alias w of None \<Rightarrow> r = Inl EINVAL | Some m \<Rightarrow> r = Inr () \<and> t = m"
    by blast
  have st: "strtok_r s blanks = (Some w, rest)" unfolding strtok_r_word assms(2) using False by simp
  show ?thesis
    unfolding modname_and_rest_def st strtok_r_rest using u False by (cases "norm_alias w") simp_all
qed

lemma next_word_none: "next_word s = ([], r) \<Longrightarrow> r = []"
proof -
  assume a: "next_word s = ([], r)"
  then have "takeWhile (\<lambda>c. \<not> c \<in> set blanks) (dropWhile (\<lambda>c. c \<in> set blanks) s) = []"
    unfolding next_word_def Let_def by (rule Pair_inject)
  then have d: "dropWhile (\<lambda>c. c \<in> set blanks) s = []" unfolding takeWhile_dropWhile_Nil .
  show "r = []" using a unfolding next_word_def Let_def d by simp
qed

lemma next_word_Nil: "next_word [] = ([], [])"
  by (simp add: next_word_def)

abbreviation opt_list :: "'a option \<Rightarrow> 'a list" where
  "opt_list x \<equiv> (case x of None \<Rightarrow> [] | Some d \<Rightarrow> [d])"

text \<open>The command, the first word behind it, the rest of the line and the first word of the rest.\<close>

definition line_split :: "string \<Rightarrow> string \<Rightarrow> string \<Rightarrow> string \<Rightarrow> string \<Rightarrow> string \<Rightarrow> bool" where
  "line_split line cmd r w rest v \<longleftrightarrow> nul_free line \<and> line \<noteq> [] \<and> hd line \<noteq> CHR ''#'' \<and> cmd \<noteq> []
     \<and> next_word line = (cmd, r) \<and> next_word r = (w, rest) \<and> fst (next_word rest) = v"

lemma line_split_facts:
  assumes "line_split line cmd r w rest v"
  shows "nul_free r" "nul_free w" "nul_free rest" "nul_free v" "length rest \<le> length line" "length w \<le> length line"
proof -
  obtain r3 where n: "nul_free line" "next_word line = (cmd, r)" "next_word r = (w, rest)" "next_word rest = (v, r3)"
    using assms by (cases "next_word rest") (auto simp: line_split_def)
  note sub = next_word_sub [OF n(2)] next_word_sub [OF n(3)] next_word_sub [OF n(4)]
  show "nul_free r" "nul_free w" "nul_free rest" "nul_free v" using n(1) sub(2,4,5,7) by blast+
  show "length rest \<le> length line" "length w \<le> length line" using sub(3,6) by linarith+
qed

lemma parse_line_split:
  assumes "line_split line cmd r w rest v"
  shows "parse_line alloc config line = parse_command alloc config cmd r"
    and "strtok_r r blanks = (if w = [] then (None, []) else (Some w, rest))"
    and "\<exists>r3. strtok_r rest blanks = (if v = [] then (None, []) else (Some v, r3))"
    and "modname_and_rest r = Some (if w = [] \<or> rest = [] then None else map_option (\<lambda>m. (m, rest)) (norm_alias w))"
    and "line_directive line = words_directive cmd w rest v"
proof -
  obtain r3 where n: "nul_free line" "line \<noteq> []" "hd line \<noteq> CHR ''#''" "cmd \<noteq> []" "next_word line = (cmd, r)"
      "next_word r = (w, rest)" "next_word rest = (v, r3)"
    using assms by (cases "next_word rest") (auto simp: line_split_def)
  have "strtok_r line blanks = (Some cmd, r)" unfolding strtok_r_word n(5) using n(4) by simp
  then show "parse_line alloc config line = parse_command alloc config cmd r"
    using n(1-3) by (cases line) (auto simp: parse_line_def char_at_def)
  show "strtok_r r blanks = (if w = [] then (None, []) else (Some w, rest))" unfolding strtok_r_word n(6) by simp
  show "\<exists>r3. strtok_r rest blanks = (if v = [] then (None, []) else (Some v, r3))"
    unfolding strtok_r_word n(7) by auto
  show "modname_and_rest r = Some (if w = [] \<or> rest = [] then None else map_option (\<lambda>m. (m, rest)) (norm_alias w))"
    by (rule modname_and_rest_spec [OF line_split_facts(1) [OF assms] n(6)])
  show "line_directive line = words_directive cmd w rest v"
    using n by (simp add: line_directive_def)
qed

lemma underscores_None: "underscores None = Some (Inl EINVAL, None)"
  by (simp add: underscores_def)

lemma parse_line_bad_name:
  assumes s: "line_split line cmd r w rest v" and "w = [] \<or> norm_alias w = None" and h: "config_holds config ds"
  shows "adds_to alloc ds (parse_line alloc config line) (opt_list (line_directive line))"
proof -
  note p = parse_line_split [OF s]
  obtain r1 t1 where u: "underscores (Some w) = Some (r1, Some t1)" "norm_alias w = None \<Longrightarrow> r1 = Inl EINVAL"
    using underscores_cases [OF line_split_facts(2) [OF s]] by (auto split: option.splits)
  have "line_directive line = None" unfolding p using assms(2) by (auto simp: words_directive_def)
  moreover have "parse_line alloc config line = Some config"
    using assms(2) u unfolding p(1)
    by (cases "w = []") (simp_all add: parse_command_def p(2,4) underscores_None cong: if_cong split: prod.split)
  ultimately show ?thesis using adds_nothing [OF h] by simp
qed

lemma parse_line_alias:
  assumes s: "line_split line ''alias'' r w rest v" and w: "w \<noteq> []" "norm_alias w = Some a" and h: "config_holds config ds"
  shows "adds_to alloc ds (parse_line alloc config line) (opt_list (line_directive line))"
proof -
  note p = parse_line_split [OF s]
  obtain r3 where r3: "strtok_r rest blanks = (if v = [] then (None, []) else (Some v, r3))" using p(3) by blast
  have u: "underscores (Some w) = Some (Inr (), Some a)"
    using underscores_cases [OF line_split_facts(2) [OF s]] w(2) by auto
  show ?thesis
  proof (cases "v \<noteq> [] \<and> norm_alias v \<noteq> None")
    case True
    then obtain m where m: "norm_alias v = Some m" by blast
    have "underscores (Some v) = Some (Inr (), Some m)"
      using underscores_cases [OF line_split_facts(4) [OF s]] m by auto
    then have "parse_line alloc config line = Some (snd (kmod_config_add_alias alloc config a m))"
      using True w(1) unfolding p(1) by (simp add: parse_command_def p(2) u r3)
    moreover have "line_directive line = Some (D_alias a m)" unfolding p using True w m by (simp add: words_directive_def)
    ultimately show ?thesis using adds_plain(1) [OF h] by simp
  next
    case False
    obtain r1 t1 where v: "underscores (Some v) = Some (r1, Some t1)" "norm_alias v = None \<Longrightarrow> r1 = Inl EINVAL"
      using underscores_cases [OF line_split_facts(4) [OF s]] by (auto split: option.splits)
    have "parse_line alloc config line = Some config"
      using False w(1) v unfolding p(1) by (auto simp: parse_command_def p(2) u r3 underscores_None)
    moreover have "line_directive line = None" unfolding p using False w by (auto simp: words_directive_def)
    ultimately show ?thesis using adds_nothing [OF h] by simp
  qed
qed

lemma parse_line_named:
  assumes s: "line_split line cmd r w rest v" and w: "w \<noteq> []" "norm_alias w = Some m" and "cmd \<noteq> ''alias''"
    and h: "config_holds config ds" and len: "length line < 2 ^ 31"
  shows "adds_to alloc ds (parse_line alloc config line) (opt_list (line_directive line))"
proof -
  note p = parse_line_split [OF s] and nf = line_split_facts [OF s]
  have u: "underscores (Some w) = Some (Inr (), Some m)"
    using underscores_cases [OF nf(2)] w(2) by auto
  have lens: "length rest < 2 ^ 31" "length m < 2 ^ 31"
    using nf(5,6) len norm_alias_length [OF w(2)] by auto
  note adds = adds_nothing [OF h, of alloc] adds_plain [OF h, of alloc] adds_weakdep [OF h nf(3) lens, of alloc]
  obtain pre post where sl: "softdep_lists rest = (pre, post)" by fastforce
  show ?thesis
  proof (cases "rest = []")
    case True
    then show ?thesis
      using assms(4) w adds unfolding p(1,5) by (simp add: parse_command_def p(2,4) u words_directive_def)
  next
    case False
    then show ?thesis
      using assms(4) w adds adds_softdep [OF h nf(3) lens sl, of alloc]
      unfolding p(1,5) by (simp add: parse_command_def p(2,4) u words_directive_def sl)
  qed
qed

lemma parse_line_adds:
  assumes h: "config_holds config ds" and nf: "nul_free line" and len: "length line < 2 ^ 31"
  shows "adds_to alloc ds (parse_line alloc config line) (opt_list (line_directive line))"
proof -
  obtain cmd r where n1: "next_word line = (cmd, r)" by fastforce
  obtain w rest where n2: "next_word r = (w, rest)" by fastforce
  show ?thesis
  proof (cases "line = [] \<or> hd line = CHR ''#'' \<or> cmd = []")
    case True
    have "line_directive line = None"
      using True next_word_none [of line r] n1 n2 next_word_Nil by (auto simp: line_directive_def words_directive_def)
    moreover have "parse_line alloc config line = Some config"
      using True nf unfolding parse_line_def strtok_r_word n1 by (cases line) (auto simp: char_at_def)
    ultimately show ?thesis using adds_nothing [OF h] by simp
  next
    case False
    then have s: "line_split line cmd r w rest (fst (next_word rest))" using nf n1 n2 by (simp add: line_split_def)
    show ?thesis
      using parse_line_bad_name [OF s _ h] parse_line_alias [of line r w rest] parse_line_named [OF s _ _ _ h len] s h
      by (cases "norm_alias w"; cases "cmd = ''alias''") blast+
  qed
qed

section \<open>Parsing a file\<close>

lemma logical_line_length: "logical_line fp = (t, k, rest, nl) \<Longrightarrow> length t + length rest \<le> length fp"
  by (induction fp arbitrary: t k rest nl rule: logical_line.induct)
    (fastforce split: if_splits list.splits prod.splits)+

lemma read_cstr_line: "line_is t buf \<Longrightarrow> read_cstr buf = Some (takeWhile (\<lambda>c. c \<noteq> NUL) t)"
proof -
  assume l: "line_is t buf"
  then have "init_upto (length t) buf \<and> live (length t) buf = t" "length t < length buf" "buf ! length t = Some NUL"
    by (auto simp: line_is_def take_Suc_conv_app_nth intro!: init_upto_intro)
  then show ?thesis using read_cstr_live [of "length t" buf] by auto
qed

lemma adds_to_bind:
  assumes "adds_to alloc ds r es" and "\<And>config es'. config_holds config (ds @ es') \<Longrightarrow> adds_to alloc (ds @ es') (f config) es2"
  shows "adds_to alloc ds (Option.bind r f) (es @ es2)"
proof -
  obtain c es' where c: "r = Some c" "config_holds c (ds @ es')" "subseq es' es" "(\<forall>s. alloc s) \<longrightarrow> es' = es"
    using assms(1) by (auto simp: adds_to_def)
  obtain c2 es2' where c2: "f c = Some c2" "config_holds c2 ((ds @ es') @ es2')" "subseq es2' es2" "(\<forall>s. alloc s) \<longrightarrow> es2' = es2"
    using assms(2) [OF c(2)] by (auto simp: adds_to_def)
  have "subseq (es' @ es2') (es @ es2)" using c(3) c2(3) by (rule list_emb_append_mono)
  then show ?thesis using c c2 by (auto simp: adds_to_def)
qed

lemma adds_fail: "config_holds config ds \<Longrightarrow> \<not> (\<forall>s. alloc s) \<Longrightarrow> adds_to alloc ds (Some config) es"
  unfolding adds_to_def by (rule exI [of _ config], rule exI [of _ "[]"]) auto

lemma freadline_next:
  assumes "length fp < 2 ^ 62" and "logical_line fp = (t, k, rest, nl)"
  obtains "freadline_wrapped alloc fp (Some l) = Some (None, Some l, [])" "file_lines fp = []"
  | l' fp' where "freadline_wrapped alloc fp (Some l) = Some (None, l', fp')" "\<not> (\<forall>s. alloc s)"
  | buf l' where "freadline_wrapped alloc fp (Some l) = Some (Some buf, Some l', rest)"
      "read_cstr buf = Some (takeWhile (\<lambda>c. c \<noteq> NUL) t)" "file_lines fp = takeWhile (\<lambda>c. c \<noteq> NUL) t # file_lines rest"
proof (cases "alloc 256")
  case False
  then show thesis using that(2) by (auto simp: freadline_wrapped_def)
next
  case True
  have "line_buf [] 256 (replicate 256 None)" by (simp add: line_buf_def)
  from freadline_loop_spec [OF this, of fp alloc "Some l" 0] assms(1)
  have "line_ok alloc (Some l) [] 0 fp (freadline_wrapped alloc fp (Some l))"
    using True by (simp add: freadline_wrapped_def)
  then obtain r where r: "freadline_wrapped alloc fp (Some l) = Some r"
      "line_result (Some l) [] 0 fp r \<or> (\<exists>s. \<not> alloc s) \<and> fst r = None \<and> fst (snd r) = Some l"
    unfolding line_ok_def by blast
  note fl = file_lines.simps [of fp, unfolded assms(2) Let_def split_conv]
  show thesis
  proof (cases "(\<exists>s. \<not> alloc s) \<and> fst r = None")
    case True
    then show thesis using r(1) that(2) by (cases r) auto
  next
    case False
    then have lr: "line_result (Some l) [] 0 fp r" using r(2) by blast
    show thesis
    proof (cases "\<not> nl \<and> t = []")
      case True
      then show thesis using that(1) r(1) lr fl assms(2) by (auto simp: line_result_def)
    next
      case False
      then obtain buf l' where b: "r = (Some buf, Some l', rest)" "line_is t buf"
        using lr assms(2) by (auto simp: line_result_def split: if_splits)
      then show thesis using that(3) r(1) fl False read_cstr_line [OF b(2)] by auto
    qed
  qed
qed

lemma parse_lines_adds:
  "config_holds config ds \<Longrightarrow> length fp < 2 ^ 31 \<Longrightarrow> adds_to alloc ds (parse_lines alloc config fp l) (file_directives fp)"
proof (induction "length fp" arbitrary: config ds fp l rule: less_induct)
  case less
  obtain t k rest nl where ll: "logical_line fp = (t, k, rest, nl)" by (cases "logical_line fp")
  have len: "length fp < 2 ^ 62" "length t < 2 ^ 31" "length rest < 2 ^ 31"
    using less.prems(2) logical_line_length [OF ll] by auto
  from len(1) ll show ?case
  proof (cases rule: freadline_next [where alloc = alloc and l = l])
    case 1
    then show ?thesis
      using adds_nothing [OF less.prems(1)] by (subst parse_lines.simps) (simp add: file_directives_def map_filter_simps)
  next
    case (2 l' fp')
    then show ?thesis using adds_fail [OF less.prems(1)] by (subst parse_lines.simps) simp
  next
    case (3 buf l')
    let ?line = "takeWhile (\<lambda>c. c \<noteq> NUL) t"
    have line: "nul_free ?line" "length ?line < 2 ^ 31"
      using len(2) length_takeWhile_le [of "\<lambda>c. c \<noteq> NUL" t] by (auto dest: set_takeWhileD)
    have short: "length rest < length fp"
      using freadline_loop_shorter 3(1) by (auto simp: freadline_wrapped_def split: if_splits)
    have "adds_to alloc ds (Option.bind (parse_line alloc config ?line) (\<lambda>c. parse_lines alloc c rest l'))
        (opt_list (line_directive ?line) @ file_directives rest)"
      by (rule adds_to_bind [OF parse_line_adds [OF less.prems(1) line]]) (rule less.hyps [OF short _ len(3)])
    moreover have "file_directives fp = opt_list (line_directive ?line) @ file_directives rest"
      unfolding file_directives_def 3(3) by (auto simp: map_filter_simps split: option.splits)
    ultimately show ?thesis using 3(1,2) by (subst parse_lines.simps) simp
  qed
qed

section \<open>Sources of directives\<close>

text \<open>
  What files, lines and the kernel command line have in common: running over a valid source adds its
  directives to a configuration, all of them unless memory is short.
\<close>

locale directive_source =
  fixes valid :: "'a \<Rightarrow> bool"
    and run :: "(size_t \<Rightarrow> bool) \<Rightarrow> 'a \<Rightarrow> kmod_config \<Rightarrow> kmod_config option"
    and directives :: "'a \<Rightarrow> directive list"
  assumes run_adds: "valid x \<Longrightarrow> config_holds config ds \<Longrightarrow> adds_to alloc ds (run alloc x config) (directives x)"
begin

lemma outcome:
  assumes "valid x" and "config_holds config ds"
  shows "\<exists>config' es. run alloc x config = Some config' \<and> config_holds config' (ds @ es)
    \<and> subseq es (directives x) \<and> ((\<forall>n. alloc n) \<longrightarrow> es = directives x)"
  using run_adds [OF assms] by (auto simp: adds_to_def)

lemma sequence:
  "\<forall>x \<in> set xs. valid x \<Longrightarrow> config_holds config ds \<Longrightarrow>
    adds_to alloc ds (foldM (run alloc) xs config) (concat (map directives xs))"
proof (induction xs arbitrary: config ds)
  case (Cons x xs)
  show ?case
    using adds_to_bind [OF run_adds [of x config ds alloc], of "foldM (run alloc) xs"] Cons by simp
qed (simp add: adds_nothing)

end

interpretation conf_line: directive_source "\<lambda>line. nul_free line \<and> length line < 2 ^ 31"
  "\<lambda>alloc line config. parse_line alloc config line" "\<lambda>line. opt_list (line_directive line)"
  by unfold_locales (use parse_line_adds in blast)

interpretation conf_text: directive_source "\<lambda>fp. length fp < 2 ^ 31"
  "\<lambda>alloc fp config. parse_lines alloc config fp 0" file_directives
  by unfold_locales (rule parse_lines_adds)

section \<open>Properties\<close>

text \<open>
  C14. A configuration file is read as its directives say: every file is parsed without touching
  memory outside of its lines and blocks, for every line length and every text, and the configuration
  gains, kind by kind and in the order of the lines, exactly the aliases, blacklisted modules,
  options, install and remove commands, soft and weak dependencies that the logical lines of the file
  name, with the names of modules made canonical. Comments, unknown commands, incomplete lines and
  names with unmatched brackets add nothing. If memory is short some entries may be missing, the
  others are the same.
\<close>

theorem config_parse_directives:
  assumes "config_holds config ds" and "length fp < 2 ^ 31"
  shows "\<exists>config' es. kmod_config_parse alloc config (Inr fp) = Some (Inr (), config')
    \<and> config_holds config' (ds @ es) \<and> subseq es (file_directives fp)
    \<and> ((\<forall>n. alloc n) \<longrightarrow> es = file_directives fp)"
  using conf_text.outcome [OF assms(2,1), of alloc] by (auto simp: kmod_config_parse_def)

definition config_example :: string where
  "config_example = ''alias a-b m'' @ CHR 0x0A # ''# note'' @ CHR 0x0A # ''softdep m pre: p q post: r'' @ CHR 0x0A # ''bad''"

theorem config_parse_directives_witness:
  "\<exists>config. kmod_config_parse (\<lambda>_. True) empty_config (Inr config_example) = Some (Inr (), config)
    \<and> aliases config = [\<lparr>al_name = ''a_b'', al_modname = ''m''\<rparr>]
    \<and> map softdep_view (softdeps config) = [(''m'', Some [''p'', ''q''], Some [''r''])]"
proof -
  have lines: "file_lines config_example = [''alias a-b m'', ''# note'', ''softdep m pre: p q post: r'', ''bad'']"
    by (simp add: config_example_def file_lines.simps)
  have "softdep_lists ''pre: p q post: r'' = ([''p'', ''q''], [''r''])"
    by (simp add: softdep_lists_def isspace_def fields.simps)
  then have "file_directives config_example = [D_alias ''a_b'' ''m'', D_softdep ''m'' [''p'', ''q''] [''r'']]"
    unfolding file_directives_def lines
    by (simp add: map_filter_simps line_directive_def words_directive_def next_word_def)
  moreover have "config_holds empty_config []" by (simp add: config_holds_def empty_config_def)
  ultimately show ?thesis
    using config_parse_directives [of empty_config "[]" config_example "\<lambda>_. True"]
    by (auto simp: config_holds_def config_example_def)
qed

text \<open>
  C16. Both passes over the text of a soft dependency agree, so that no store leaves the block: adding
  one either fails for want of memory and changes nothing, or appends an entry whose two lists are the
  fields behind \<open>pre:\<close> and behind \<open>post:\<close>. Of the blanks in front of the line, a single one is taken
  for a part of the first field, so that a keyword behind it is not recognised: the text
  \<open>pre: b\<close> with one blank in front gives an entry without dependencies.
\<close>

theorem add_softdep_lists:
  assumes "nul_free line" and "length line < 2 ^ 31" and "length modname < 2 ^ 31"
  shows "kmod_config_add_softdep alloc config modname line = Some (Inl ENOMEM, config) \<and> \<not> (\<forall>n. alloc n)
    \<or> (\<exists>dep. kmod_config_add_softdep alloc config modname line
          = Some (Inr (), config\<lparr>softdeps := softdeps config @ [dep]\<rparr>)
        \<and> softdep_view dep = (modname, Some (fst (softdep_lists line)), Some (snd (softdep_lists line))))"
  using add_softdep_spec [OF assms, of "fst (softdep_lists line)" "snd (softdep_lists line)" alloc config] by auto

theorem add_softdep_lists_witness:
  "(\<exists>dep. kmod_config_add_softdep (\<lambda>_. True) empty_config ''m'' '' pre: b'' = Some (Inr (), empty_config\<lparr>softdeps := [dep]\<rparr>)
      \<and> softdep_view dep = (''m'', Some [], Some []))
    \<and> (\<exists>dep. kmod_config_add_softdep (\<lambda>_. True) empty_config ''m'' ''pre: b'' = Some (Inr (), empty_config\<lparr>softdeps := [dep]\<rparr>)
      \<and> softdep_view dep = (''m'', Some [''b''], Some []))"
proof -
  have "softdep_lists '' pre: b'' = ([], [])" "softdep_lists ''pre: b'' = ([''b''], [])"
    by (simp_all add: softdep_lists_def isspace_def fields.simps)
  then show ?thesis
    using add_softdep_lists [of "'' pre: b''" "''m''" "\<lambda>_. True" empty_config]
      add_softdep_lists [of "''pre: b''" "''m''" "\<lambda>_. True" empty_config]
    by (simp add: empty_config_def)
qed

end
