(* ===== verification/Kmod_Cmdline.thy ===== *)
theory Kmod_Cmdline
  imports Kmod_Config_File
begin

text \<open>
  \<open>libkmod/libkmod-config.c\<close>, third part: module options and blacklists on the kernel command line.
  The state machine works in place on the buffer that \<open>read_str_safe\<close> filled; the model has the
  buffer and the pointers into it. The buffer is its text with the NUL behind it, since the machine
  stops there. \<open>underscores\<close> and \<open>strsep\<close> also write into the option that was just read; nothing reads
  that part of the buffer again, and the model leaves these writes out.
\<close>

section \<open>The state machine\<close>

datatype kcmd_state = STATE_IGNORE | STATE_MODNAME | STATE_PARAM | STATE_VALUE | STATE_COMPLETE

record kcmd =
  kc_buf :: "char list"
  kc_modname :: nat
  kc_param :: "nat option"
  kc_value :: "nat option"
  kc_quote_start :: "nat option"
  kc_is_quoted :: bool
  kc_state :: kcmd_state

function strsep_all :: "string \<Rightarrow> string list" where
  "strsep_all s =
     (let t = takeWhile (\<lambda>c. c \<noteq> CHR '','') s; r = drop (length t) s in
      if r = [] then [t] else t # strsep_all (tl r))"
  by pat_completeness auto

termination
  by (relation "measure length") auto

declare strsep_all.simps [simp del]

text \<open>\<open>modname\<close>, \<open>param\<close> and \<open>value\<close> are the strings at the pointers, None for NULL.\<close>

definition kcmdline_parse_result ::
    "(size_t \<Rightarrow> bool) \<Rightarrow> kmod_config \<Rightarrow> string \<Rightarrow> string option \<Rightarrow> string option \<Rightarrow> kmod_config option" where
  "kcmdline_parse_result alloc config modname param val =
     (case param of
        None \<Rightarrow> Some config
      | Some param \<Rightarrow>
          if streq modname ''modprobe'' \<and> strstartswith param ''blacklist='' then
            Some (case val of
                    None \<Rightarrow> config
                  | Some v \<Rightarrow> fold (\<lambda>t config. snd (kmod_config_add_blacklist alloc config t)) (strsep_all v) config)
          else
            do { (r, modname) \<leftarrow> underscores (Some modname);
                 Some (case (r, modname) of
                         (Inr _, Some m) \<Rightarrow> snd (kmod_config_add_options alloc config m param)
                       | _ \<Rightarrow> config) })"

text \<open>The \<open>switch\<close> on one character.\<close>

definition kcmd_char :: "char \<Rightarrow> nat \<Rightarrow> kcmd \<Rightarrow> kcmd" where
  "kcmd_char c p k =
     (if c = CHR 0x22 then
        (let q = \<not> kc_is_quoted k; k = k\<lparr>kc_is_quoted := q\<rparr> in
         if q \<and> kc_state k = STATE_MODNAME \<and> p = kc_modname k
         then k\<lparr>kc_quote_start := Some p, kc_modname := Suc p\<rparr>
         else if kc_state k \<noteq> STATE_VALUE then k\<lparr>kc_state := STATE_IGNORE\<rparr>
         else k)
      else if c = NUL \<or> isspace c then
        (if kc_is_quoted k \<and> kc_state k = STATE_VALUE then k
         else if kc_is_quoted k then k\<lparr>kc_state := STATE_IGNORE\<rparr>
         else if kc_state k = STATE_VALUE \<or> kc_state k = STATE_PARAM
         then k\<lparr>kc_buf := (kc_buf k)[p := NUL], kc_state := STATE_COMPLETE\<rparr>
         else k\<lparr>kc_modname := Suc p, kc_state := STATE_MODNAME, kc_quote_start := None\<rparr>)
      else if c = CHR ''.'' then
        (if kc_state k = STATE_MODNAME
         then k\<lparr>kc_buf := (kc_buf k)[p := NUL], kc_param := Some (Suc p), kc_state := STATE_PARAM\<rparr>
         else if kc_state k = STATE_PARAM then k\<lparr>kc_state := STATE_IGNORE\<rparr>
         else k)
      else if c = CHR ''='' then
        (if kc_state k = STATE_PARAM then k\<lparr>kc_value := Some (Suc p), kc_state := STATE_VALUE\<rparr>
         else if kc_state k = STATE_MODNAME then k\<lparr>kc_state := STATE_IGNORE\<rparr>
         else k)
      else k)"

text \<open>Moving the opening quote of an option to the start of its value.\<close>

definition kcmd_requote :: "kcmd \<Rightarrow> kcmd option" where
  "kcmd_requote k =
     (case kc_quote_start k of
        Some q \<Rightarrow>
          if q < kc_modname k then
            do { v \<leftarrow> kc_value k;
                 par \<leftarrow> kc_param k;
                 buf \<leftarrow> memmove q (kc_modname k) (v - kc_modname k) (kc_buf k);
                 Some (k\<lparr>kc_buf := buf[v - 1 := CHR 0x22], kc_modname := kc_modname k - 1,
                         kc_param := Some (par - 1), kc_value := Some (v - 1)\<rparr>) }
          else Some k
      | None \<Rightarrow> Some k)"

definition str_opt :: "char list \<Rightarrow> nat option \<Rightarrow> string option option" where
  "str_opt buf p = (case p of None \<Rightarrow> Some None | Some p \<Rightarrow> map_option Some (cstr_at buf p))"

definition kcmd_complete ::
    "(size_t \<Rightarrow> bool) \<Rightarrow> nat \<Rightarrow> kcmd \<Rightarrow> kmod_config \<Rightarrow> (kcmd \<times> kmod_config) option" where
  "kcmd_complete alloc p k config =
     (if kc_state k = STATE_COMPLETE then
        do { k \<leftarrow> kcmd_requote k;
             modname \<leftarrow> cstr_at (kc_buf k) (kc_modname k);
             param \<leftarrow> str_opt (kc_buf k) (kc_param k);
             val \<leftarrow> (if param \<noteq> None \<and> streq modname ''modprobe'' \<and> strstartswith (the param) ''blacklist=''
                      then str_opt (kc_buf k) (kc_value k) else Some None);
             config \<leftarrow> kcmdline_parse_result alloc config modname param val;
             Some (k\<lparr>kc_modname := Suc p, kc_state := STATE_MODNAME, kc_quote_start := None\<rparr>, config) }
      else Some (k, config))"

lemma length_kcmd_char [simp]: "length (kc_buf (kcmd_char c p k)) = length (kc_buf k)"
  by (simp add: kcmd_char_def Let_def)

lemma length_kcmd_complete:
  "kcmd_complete alloc p k config = Some (k', config') \<Longrightarrow> length (kc_buf k') = length (kc_buf k)"
  by (auto simp: kcmd_complete_def kcmd_requote_def memmove_def bind_eq_Some_conv split: if_splits option.splits)

function kcmd_loop :: "(size_t \<Rightarrow> bool) \<Rightarrow> nat \<Rightarrow> kcmd \<Rightarrow> kmod_config \<Rightarrow> kmod_config option" where
  "kcmd_loop alloc p k config =
     (if length (kc_buf k) \<le> p then None
      else
        (let c = kc_buf k ! p in
         do { (k', config) \<leftarrow> kcmd_complete alloc p (kcmd_char c p k) config;
              if c = NUL then Some config else kcmd_loop alloc (Suc p) k' config }))"
  by pat_completeness auto

termination
  by (relation "measure (\<lambda>(alloc, p, k, config). length (kc_buf k) - p)") (auto dest!: length_kcmd_complete)

declare kcmd_loop.simps [simp del]

text \<open>
  \<open>cmdline\<close> is what \<open>open\<close> and \<open>read_str_safe\<close> give for \<open>/proc/cmdline\<close>: the text in the buffer, or
  an error.
\<close>

definition kmod_config_parse_kcmdline ::
    "(size_t \<Rightarrow> bool) \<Rightarrow> kmod_config \<Rightarrow> string result \<Rightarrow> (unit result \<times> kmod_config) option" where
  "kmod_config_parse_kcmdline alloc config cmdline =
     (case cmdline of
        Inl e \<Rightarrow> Some (Inl e, config)
      | Inr s \<Rightarrow>
          map_option (Pair (Inr ()))
            (kcmd_loop alloc 0
               \<lparr>kc_buf = s @ [NUL], kc_modname = 0, kc_param = None, kc_value = None, kc_quote_start = None,
                kc_is_quoted = False, kc_state = STATE_MODNAME\<rparr> config))"

section \<open>The arguments of a command line\<close>

text \<open>
  The reference: the command line is cut at the blanks outside of quotes; an argument is an option of
  a module if it has the form \<open>module.parameter\<close> or \<open>module.parameter=value\<close>, with quotes and blanks
  in the value only, or with one quote in front of everything.
\<close>

fun open_quote :: "bool \<Rightarrow> string \<Rightarrow> bool" where
  "open_quote q [] = q"
| "open_quote q (c # s) = open_quote (if c = CHR 0x22 then \<not> q else q) s"

fun unbroken :: "bool \<Rightarrow> string \<Rightarrow> bool" where
  "unbroken q [] = True"
| "unbroken q (c # s) \<longleftrightarrow> (q \<or> \<not> isspace c) \<and> unbroken (if c = CHR 0x22 then \<not> q else q) s"

fun next_arg :: "bool \<Rightarrow> string \<Rightarrow> string \<times> string option" where
  "next_arg q [] = ([], None)"
| "next_arg q (c # s) =
     (if \<not> q \<and> isspace c then ([], Some s)
      else (let (a, r) = next_arg (if c = CHR 0x22 then \<not> q else q) s in (c # a, r)))"

lemma next_arg_shorter: "next_arg q s = (a, Some r) \<Longrightarrow> length r < length s"
  by (induction q s arbitrary: a rule: next_arg.induct) (fastforce split: if_splits prod.splits)+

function cmd_args :: "string \<Rightarrow> string list" where
  "cmd_args s = (case next_arg False s of (a, None) \<Rightarrow> [a] | (a, Some r) \<Rightarrow> a # cmd_args r)"
  by pat_completeness auto

termination
  by (relation "measure length") (auto dest: next_arg_shorter [OF sym])

declare cmd_args.simps [simp del]

definition plain :: "char \<Rightarrow> bool" where
  "plain c \<longleftrightarrow> c \<noteq> CHR 0x22 \<and> c \<noteq> CHR ''.'' \<and> c \<noteq> CHR ''='' \<and> \<not> isspace c"

text \<open>Whether the argument starts with a quote, the module, the parameter, and the value if there is one.\<close>

definition arg_parts :: "string \<Rightarrow> (bool \<times> string \<times> string \<times> string option) option" where
  "arg_parts a =
     (let q = (a \<noteq> [] \<and> hd a = CHR 0x22); b = (if q then tl a else a);
          m = takeWhile plain b; r = drop (length m) b;
          par = takeWhile plain (tl r); r2 = drop (length par) (tl r) in
      if open_quote False a \<or> r = [] \<or> hd r \<noteq> CHR ''.'' then None
      else if r2 = [] then if q then None else Some (q, m, par, None)
      else if hd r2 = CHR ''='' then Some (q, m, par, Some (tl r2))
      else None)"

definition arg_directives :: "string \<Rightarrow> directive list" where
  "arg_directives a =
     (case arg_parts a of
        None \<Rightarrow> []
      | Some (q, m, par, v) \<Rightarrow>
          (let val = (case v of None \<Rightarrow> [] | Some v \<Rightarrow> (if q then CHR 0x22 # v else v));
               text' = (case v of None \<Rightarrow> par | Some _ \<Rightarrow> par @ CHR ''='' # val) in
           if m = ''modprobe'' \<and> strstartswith text' ''blacklist='' then map D_blacklist (strsep_all val)
           else (case norm_alias m of
                   None \<Rightarrow> []
                 | Some m \<Rightarrow> [D_options m (strchr_replace text' (CHR 0x09) (CHR '' ''))])))"

definition cmdline_directives :: "string \<Rightarrow> directive list" where
  "cmdline_directives s = concat (map arg_directives (cmd_args s))"

section \<open>Running over characters\<close>

primrec kcmd_chars :: "string \<Rightarrow> nat \<Rightarrow> kcmd \<Rightarrow> kcmd" where
  "kcmd_chars [] p k = k"
| "kcmd_chars (c # w) p k = kcmd_chars w (Suc p) (kcmd_char c p k)"

lemma kcmd_chars_append: "kcmd_chars (u @ v) p k = kcmd_chars v (p + length u) (kcmd_chars u p k)"
  by (induction u arbitrary: p k) auto

text \<open>Only an unquoted blank or the NUL ends an option.\<close>

lemma kcmd_char_facts:
  assumes "kc_is_quoted k \<or> \<not> isspace c" and "c \<noteq> NUL" and "kc_state k \<noteq> STATE_COMPLETE"
  shows "kc_state (kcmd_char c p k) \<noteq> STATE_COMPLETE"
    and "kc_is_quoted (kcmd_char c p k) = (if c = CHR 0x22 then \<not> kc_is_quoted k else kc_is_quoted k)"
    and "drop (Suc p) (kc_buf (kcmd_char c p k)) = drop (Suc p) (kc_buf k)"
  using assms by (auto simp: kcmd_char_def Let_def)

lemma kcmd_loop_run:
  assumes "unbroken (kc_is_quoted k) w" and "nul_free w" and "kc_state k \<noteq> STATE_COMPLETE" and "drop p (kc_buf k) = w @ rest"
  shows "kcmd_loop alloc p k config = kcmd_loop alloc (p + length w) (kcmd_chars w p k) config"
    and "kc_is_quoted (kcmd_chars w p k) = open_quote (kc_is_quoted k) w"
    and "drop (p + length w) (kc_buf (kcmd_chars w p k)) = rest"
    and "length (kc_buf (kcmd_chars w p k)) = length (kc_buf k)"
    and "kc_state (kcmd_chars w p k) \<noteq> STATE_COMPLETE"
  using assms
proof (atomize (full), induction w arbitrary: p k)
  case (Cons c w)
  let ?k = "kcmd_char c p k"
  have c: "kc_is_quoted k \<or> \<not> isspace c" "c \<noteq> NUL" "kc_state k \<noteq> STATE_COMPLETE" using Cons.prems by auto
  note f = kcmd_char_facts [OF c, of p]
  have p: "p < length (kc_buf k)" "kc_buf k ! p = c" "drop (Suc p) (kc_buf k) = w @ rest"
    using Cons.prems(4)
    by (metis append_Cons drop_eq_Nil leI list.distinct(1), metis append_Cons hd_drop_conv_nth drop_eq_Nil leI list.distinct(1) list.sel(1),
        metis append_Cons drop_Suc list.sel(3) tl_drop)
  have "kcmd_loop alloc p k config = kcmd_loop alloc (Suc p) ?k config"
    using p(1,2) c(2) f(1) by (subst kcmd_loop.simps) (simp add: kcmd_complete_def Let_def)
  then show ?case using Cons.IH [of ?k "Suc p"] Cons.prems f p(3) by auto
qed simp

text \<open>What the phases do.\<close>

lemma kcmd_chars_plain: "list_all (\<lambda>c. plain c \<and> c \<noteq> NUL) w \<Longrightarrow> kcmd_chars w p k = k"
  by (induction w arbitrary: p k) (auto simp: kcmd_char_def plain_def)

lemma kcmd_chars_ignore:
  assumes "kc_state k = STATE_IGNORE" "unbroken (kc_is_quoted k) w" "nul_free w"
  shows "kc_state (kcmd_chars w p k) = STATE_IGNORE"
  using assms
proof (induction w arbitrary: p k)
  case (Cons c w)
  have "kc_state (kcmd_char c p k) = STATE_IGNORE" using Cons.prems by (auto simp: kcmd_char_def Let_def)
  then show ?case using Cons.IH [of "kcmd_char c p k"] Cons.prems kcmd_char_facts(2) [of k c p] by auto
qed simp

lemma kcmd_chars_value:
  assumes "kc_state k = STATE_VALUE" "unbroken (kc_is_quoted k) w" "nul_free w"
  shows "kcmd_chars w p k = k\<lparr>kc_is_quoted := open_quote (kc_is_quoted k) w\<rparr>"
  using assms
proof (induction w arbitrary: p k)
  case (Cons c w)
  have "kcmd_char c p k = k\<lparr>kc_is_quoted := (if c = CHR 0x22 then \<not> kc_is_quoted k else kc_is_quoted k)\<rparr>"
    using Cons.prems by (auto simp: kcmd_char_def Let_def)
  then show ?case using Cons.IH [of "kcmd_char c p k"] Cons.prems by auto
qed simp

section \<open>Running over an argument\<close>

definition at_start :: "nat \<Rightarrow> kcmd \<Rightarrow> bool" where
  "at_start p k \<longleftrightarrow> kc_state k = STATE_MODNAME \<and> kc_modname k = p \<and> kc_quote_start k = None \<and> \<not> kc_is_quoted k"

abbreviation quote_if :: "bool \<Rightarrow> string" where
  "quote_if q \<equiv> (if q then [CHR 0x22] else [])"

text \<open>The state behind the opening quote, and behind the dot.\<close>

definition in_name :: "bool \<Rightarrow> nat \<Rightarrow> kcmd \<Rightarrow> kcmd" where
  "in_name q p k = k\<lparr>kc_modname := p + length (quote_if q), kc_quote_start := (if q then Some p else None), kc_is_quoted := q\<rparr>"

definition in_param :: "bool \<Rightarrow> nat \<Rightarrow> nat \<Rightarrow> kcmd \<Rightarrow> kcmd" where
  "in_param q p d k = (in_name q p k)\<lparr>kc_buf := (kc_buf k)[d := NUL], kc_param := Some (Suc d), kc_state := STATE_PARAM\<rparr>"

lemma kcmd_quote:
  assumes "at_start p k"
  shows "kcmd_chars (quote_if q) p k = in_name q p k"
  using assms by (auto simp: at_start_def in_name_def kcmd_char_def Let_def)

lemma unbroken_append: "unbroken q (u @ v) \<longleftrightarrow> unbroken q u \<and> unbroken (open_quote q u) v"
  by (induction u arbitrary: q) auto

lemma open_quote_append: "open_quote q (u @ v) = open_quote (open_quote q u) v"
  by (induction u arbitrary: q) auto

lemma open_quote_plain: "list_all plain w \<Longrightarrow> open_quote q w = q"
  by (induction w arbitrary: q) (auto simp: plain_def)

lemma takeWhile_plain: "nul_free b \<Longrightarrow> list_all (\<lambda>c. plain c \<and> c \<noteq> NUL) (takeWhile plain b)" "list_all plain (takeWhile plain b)"
  by (auto simp: list_all_iff dest!: set_takeWhileD)

lemma drop_takeWhile: "drop (length (takeWhile P b)) b = dropWhile P b"
  by (metis dropWhile_eq_drop)

lemma not_plain_hd: "dropWhile plain b \<noteq> [] \<Longrightarrow> \<not> plain (hd (dropWhile plain b))"
  by (rule hd_dropWhile)

text \<open>A character that ends the name or the parameter without its separator makes the option ignored.\<close>

lemma kcmd_char_ends:
  assumes "\<not> plain c" "c \<noteq> NUL" "kc_is_quoted k \<or> \<not> isspace c"
  shows "kc_state k = STATE_MODNAME \<Longrightarrow> c \<noteq> CHR ''.'' \<Longrightarrow> c \<noteq> CHR 0x22 \<or> kc_is_quoted k \<or> p \<noteq> kc_modname k
      \<Longrightarrow> kc_state (kcmd_char c p k) = STATE_IGNORE"
    and "kc_state k = STATE_PARAM \<Longrightarrow> c \<noteq> CHR ''='' \<Longrightarrow> kc_state (kcmd_char c p k) = STATE_IGNORE"
  using assms by (auto simp: kcmd_char_def plain_def Let_def)

lemma kcmd_ignored:
  assumes "kc_state (kcmd_char c p k) = STATE_IGNORE" and "unbroken (kc_is_quoted k) (c # w)" and "nul_free (c # w)"
    and "kc_state k \<noteq> STATE_COMPLETE"
  shows "kc_state (kcmd_chars (c # w) p k) = STATE_IGNORE"
  using assms kcmd_chars_ignore [of "kcmd_char c p k" w "Suc p"] kcmd_char_facts(2) [of k c p] by auto

lemma kcmd_name:
  assumes "at_start p k" and "unbroken False (quote_if q @ b)" and "nul_free b" and "q \<or> b = [] \<or> hd b \<noteq> CHR 0x22"
  defines "m \<equiv> takeWhile plain b" and "r \<equiv> dropWhile plain b"
  shows "r = [] \<Longrightarrow> kc_state (kcmd_chars (quote_if q @ b) p k) = STATE_MODNAME"
    and "r \<noteq> [] \<Longrightarrow> hd r \<noteq> CHR ''.'' \<Longrightarrow> kc_state (kcmd_chars (quote_if q @ b) p k) = STATE_IGNORE"
    and "r \<noteq> [] \<Longrightarrow> hd r = CHR ''.'' \<Longrightarrow> kcmd_chars (quote_if q @ b) p k
      = kcmd_chars (tl r) (p + length (quote_if q) + length m + 1) (in_param q p (p + length (quote_if q) + length m) k)"
proof -
  have b: "b = m @ r" by (simp add: m_def r_def)
  let ?p = "p + length (quote_if q) + length m"
  have run: "kcmd_chars (quote_if q @ b) p k = kcmd_chars r ?p (in_name q p k)"
    unfolding b kcmd_chars_append kcmd_quote [OF assms(1)]
    using kcmd_chars_plain [OF takeWhile_plain(1) [OF assms(3)]] by (simp add: m_def)
  have st: "kc_state (in_name q p k) = STATE_MODNAME" "kc_is_quoted (in_name q p k) = q"
      "kc_modname (in_name q p k) = p + length (quote_if q)"
    using assms(1) by (auto simp: at_start_def in_name_def)
  show "r = [] \<Longrightarrow> kc_state (kcmd_chars (quote_if q @ b) p k) = STATE_MODNAME" unfolding run using st by simp
  have "open_quote False (quote_if q) = q" by auto
  then have ub: "unbroken q r" "nul_free r"
    using assms(2,3) takeWhile_plain(2) [of b] unfolding b unbroken_append by (auto simp: m_def open_quote_plain r_def dest: set_dropWhileD)
  show "kc_state (kcmd_chars (quote_if q @ b) p k) = STATE_IGNORE" if "r \<noteq> []" "hd r \<noteq> CHR ''.''"
  proof -
    have "\<not> plain (hd r)" using that(1) unfolding r_def by (rule not_plain_hd)
    moreover have "hd r \<noteq> CHR 0x22 \<or> q \<or> m \<noteq> []" using assms(4) that(1) b by (cases m) auto
    moreover have "hd r \<noteq> NUL" "q \<or> \<not> isspace (hd r)" using ub that(1) by (cases r; auto)+
    ultimately have "kc_state (kcmd_char (hd r) ?p (in_name q p k)) = STATE_IGNORE"
      using that(2) st by (intro kcmd_char_ends(1)) auto
    then show ?thesis
      unfolding run using kcmd_ignored [of "hd r" ?p "in_name q p k" "tl r"] that(1) ub st by simp
  qed
  show "kcmd_chars (quote_if q @ b) p k = kcmd_chars (tl r) (?p + 1) (in_param q p ?p k)" if "r \<noteq> []" "hd r = CHR ''.''"
  proof -
    have "kcmd_char (CHR ''.'') ?p (in_name q p k) = in_param q p ?p k"
      using st(1) by (simp add: kcmd_char_def in_param_def isspace_def) (simp add: in_name_def)
    then show ?thesis unfolding run using that by (cases r) auto
  qed
qed

lemma kcmd_parameter:
  assumes "kc_state k = STATE_PARAM" and "unbroken (kc_is_quoted k) c" and "nul_free c"
  defines "par \<equiv> takeWhile plain c" and "r \<equiv> dropWhile plain c"
  shows "r = [] \<Longrightarrow> kcmd_chars c p k = k"
    and "r \<noteq> [] \<Longrightarrow> hd r \<noteq> CHR ''='' \<Longrightarrow> kc_state (kcmd_chars c p k) = STATE_IGNORE"
    and "r \<noteq> [] \<Longrightarrow> hd r = CHR ''='' \<Longrightarrow> kcmd_chars c p k
      = k\<lparr>kc_value := Some (p + length par + 1), kc_state := STATE_VALUE, kc_is_quoted := open_quote (kc_is_quoted k) c\<rparr>"
proof -
  have c: "c = par @ r" by (simp add: par_def r_def)
  have run: "kcmd_chars c p k = kcmd_chars r (p + length par) k"
    unfolding c kcmd_chars_append using kcmd_chars_plain [OF takeWhile_plain(1) [OF assms(3)]] by (simp add: par_def)
  show "r = [] \<Longrightarrow> kcmd_chars c p k = k" unfolding run by simp
  have oq: "open_quote q c = open_quote q r" for q
    unfolding c open_quote_append using takeWhile_plain(2) [of c] by (simp add: par_def open_quote_plain)
  have ub: "unbroken (kc_is_quoted k) r" "nul_free r"
    using assms(2,3) takeWhile_plain(2) [of c] unfolding c unbroken_append
    by (auto simp: par_def open_quote_plain r_def dest: set_dropWhileD)
  show "kc_state (kcmd_chars c p k) = STATE_IGNORE" if "r \<noteq> []" "hd r \<noteq> CHR ''=''"
  proof -
    have "\<not> plain (hd r)" using that(1) unfolding r_def by (rule not_plain_hd)
    moreover have "hd r \<noteq> NUL" "kc_is_quoted k \<or> \<not> isspace (hd r)" using ub that(1) by (cases r; auto)+
    ultimately have "kc_state (kcmd_char (hd r) (p + length par) k) = STATE_IGNORE"
      using that(2) assms(1) by (intro kcmd_char_ends(2)) auto
    then show ?thesis
      unfolding run using kcmd_ignored [of "hd r" "p + length par" k "tl r"] that(1) ub assms(1) by simp
  qed
  show "kcmd_chars c p k
      = k\<lparr>kc_value := Some (p + length par + 1), kc_state := STATE_VALUE, kc_is_quoted := open_quote (kc_is_quoted k) c\<rparr>"
    if "r \<noteq> []" "hd r = CHR ''=''"
  proof -
    let ?k = "k\<lparr>kc_value := Some (p + length par + 1), kc_state := STATE_VALUE\<rparr>"
    have e: "kcmd_char (CHR ''='') (p + length par) k = ?k"
      using assms(1) by (simp add: kcmd_char_def isspace_def)
    have r: "r = CHR ''='' # tl r" using that by (cases r) auto
    have "unbroken (kc_is_quoted k) (CHR ''='' # tl r)" "nul_free (CHR ''='' # tl r)" using ub r by metis+
    then have "kcmd_chars (tl r) (Suc (p + length par)) ?k = ?k\<lparr>kc_is_quoted := open_quote (kc_is_quoted k) (tl r)\<rparr>"
      using kcmd_chars_value [of ?k "tl r"] by simp
    moreover have "kcmd_chars r (p + length par) k = kcmd_chars (tl r) (Suc (p + length par)) ?k"
      by (subst r) (simp add: e)
    moreover have "open_quote q r = open_quote q (tl r)" for q by (subst r) simp
    ultimately show ?thesis unfolding run oq by simp
  qed
qed

text \<open>The state behind a whole argument.\<close>

definition arg_text :: "bool \<Rightarrow> string \<Rightarrow> string \<Rightarrow> string option \<Rightarrow> string" where
  "arg_text q m par v = quote_if q @ m @ CHR ''.'' # par @ (case v of None \<Rightarrow> [] | Some v \<Rightarrow> CHR ''='' # v)"

definition behind_arg :: "bool \<Rightarrow> nat \<Rightarrow> string \<Rightarrow> string \<Rightarrow> string option \<Rightarrow> kcmd \<Rightarrow> kcmd" where
  "behind_arg q p m par v k =
     (let d = p + length (quote_if q) + length m; k' = (in_param q p d k)\<lparr>kc_is_quoted := False\<rparr> in
      case v of None \<Rightarrow> k'
      | Some _ \<Rightarrow> k'\<lparr>kc_value := Some (d + length par + 2), kc_state := STATE_VALUE\<rparr>)"

lemma kcmd_arg:
  assumes "at_start p k" and "unbroken False a" and "nul_free a" and "\<not> open_quote False a"
  shows "case arg_parts a of
      None \<Rightarrow> kc_state (kcmd_chars a p k) = STATE_MODNAME \<or> kc_state (kcmd_chars a p k) = STATE_IGNORE
    | Some (q, m, par, v) \<Rightarrow> a = arg_text q m par v \<and> kcmd_chars a p k = behind_arg q p m par v k"
proof -
  define q where "q = (a \<noteq> [] \<and> hd a = CHR 0x22)"
  define b where "b = (if q then tl a else a)"
  define m where "m = takeWhile plain b"
  define r where "r = dropWhile plain b"
  define par where "par = takeWhile plain (tl r)"
  define r2 where "r2 = dropWhile plain (tl r)"
  have a: "a = quote_if q @ b" by (cases a) (auto simp: q_def b_def)
  have parts: "arg_parts a = (if r = [] \<or> hd r \<noteq> CHR ''.'' then None
      else if r2 = [] then if q then None else Some (q, m, par, None)
      else if hd r2 = CHR ''='' then Some (q, m, par, Some (tl r2)) else None)"
    unfolding arg_parts_def Let_def drop_takeWhile q_def [symmetric] b_def [symmetric] m_def [symmetric]
      r_def [symmetric] par_def [symmetric] r2_def [symmetric] using assms(4) by simp
  have "nul_free b" using assms(3) by (cases a) (auto simp: b_def)
  moreover have "q \<or> b = [] \<or> hd b \<noteq> CHR 0x22" by (auto simp: q_def b_def)
  ultimately have nb: "nul_free b" "q \<or> b = [] \<or> hd b \<noteq> CHR 0x22" by blast+
  note name = kcmd_name [OF assms(1) assms(2) [unfolded a] nb, folded m_def r_def a]
  show ?thesis
  proof (cases "r = [] \<or> hd r \<noteq> CHR ''.''")
    case True
    then have "arg_parts a = None" unfolding parts by simp
    then show ?thesis using name(1,2) True by auto
  next
    case False
    then have r: "r \<noteq> []" "hd r = CHR ''.''" by blast+
    have r3: "r = CHR ''.'' # tl r" unfolding r(2) [symmetric] by (rule list.collapse [OF r(1), symmetric])
    let ?d = "p + length (quote_if q) + length m"
    let ?k = "in_param q p ?d k"
    have k: "kc_state ?k = STATE_PARAM" "kc_is_quoted ?k = q" by (simp_all add: in_param_def in_name_def)
    have b: "b = m @ CHR ''.'' # tl r" 
      unfolding r3 [symmetric] by (simp add: m_def r_def)
    have om: "open_quote q m = q" using takeWhile_plain(2) [of b] by (simp add: m_def open_quote_plain)
    have oq: "open_quote q (tl r) = False"
      using assms(4) om unfolding a b open_quote_append by (auto split: if_splits)
    have "open_quote False (quote_if q) = q" by auto
    then have ub: "unbroken q (tl r)" "nul_free (tl r)"
      using assms(2) nb(1) om unfolding a b unbroken_append by auto
    have tr: "tl r = par @ r2" by (simp add: par_def r2_def)
    note param = kcmd_parameter [OF k(1), of "tl r", unfolded k(2), OF ub, folded par_def r2_def]
    have run: "kcmd_chars a p k = kcmd_chars (tl r) (?d + 1) ?k" by (rule name(3) [OF r(1,2)])
    consider "r2 = []" | "r2 \<noteq> []" "hd r2 \<noteq> CHR ''=''" | "r2 \<noteq> []" "hd r2 = CHR ''=''" by blast
    then show ?thesis
    proof cases
      case 1
      have "open_quote q par = q" unfolding par_def by (rule open_quote_plain [OF takeWhile_plain(2)])
      then have "q = False" using oq tr 1 by (metis append_Nil2)
      then have "arg_parts a = Some (q, m, par, None)" unfolding parts using r 1 by simp
      moreover have "kcmd_chars a p k = behind_arg q p m par None k"
        unfolding run param(1) [OF 1] behind_arg_def using \<open>q = False\<close> by (simp add: Let_def in_param_def in_name_def)
      moreover have "a = arg_text q m par None" unfolding a b arg_text_def using tr 1 by simp
      ultimately show ?thesis by simp
    next
      case 2
      then have "arg_parts a = None" unfolding parts by simp
      then show ?thesis unfolding run using param(2) [OF 2] by simp
    next
      case 3
      have r2: "r2 = CHR ''='' # tl r2" unfolding 3(2) [symmetric] by (rule list.collapse [OF 3(1), symmetric])
      have "arg_parts a = Some (q, m, par, Some (tl r2))" unfolding parts using r 3 by simp
      moreover have "kcmd_chars a p k = behind_arg q p m par (Some (tl r2)) k"
        unfolding run param(3) [OF 3] behind_arg_def oq by (simp add: Let_def in_param_def in_name_def)
      moreover have "a = arg_text q m par (Some (tl r2))"
        unfolding a b tr arg_text_def by (subst r2) simp
      ultimately show ?thesis by simp
    qed
  qed
qed

section \<open>Completing an option\<close>

interpretation blacklist: directive_source "\<lambda>t. True"
  "\<lambda>alloc t config. Some (snd (kmod_config_add_blacklist alloc config t))" "\<lambda>t. [D_blacklist t]"
  by unfold_locales (rule adds_plain(2))

lemma foldM_Some: "foldM (\<lambda>x s. Some (f x s)) xs s = Some (fold f xs s)"
  by (induction xs arbitrary: s) auto

lemma adds_blacklists:
  "config_holds config ds \<Longrightarrow>
    adds_to alloc ds (Some (fold (\<lambda>t config. snd (kmod_config_add_blacklist alloc config t)) ts config)) (map D_blacklist ts)"
  using blacklist.sequence [of ts config ds alloc] by (simp add: foldM_Some)

text \<open>The text of the option and its value, as the code passes them on.\<close>

definition arg_value :: "bool \<Rightarrow> string option \<Rightarrow> string" where
  "arg_value q v = (case v of None \<Rightarrow> [] | Some v \<Rightarrow> quote_if q @ v)"

definition arg_option :: "bool \<Rightarrow> string \<Rightarrow> string option \<Rightarrow> string" where
  "arg_option q par v = (case v of None \<Rightarrow> par | Some _ \<Rightarrow> par @ CHR ''='' # arg_value q v)"

lemma arg_directives_parts:
  "arg_parts a = Some (q, m, par, v) \<Longrightarrow> arg_directives a =
     (if m = ''modprobe'' \<and> strstartswith (arg_option q par v) ''blacklist='' then map D_blacklist (strsep_all (arg_value q v))
      else (case norm_alias m of None \<Rightarrow> []
            | Some m \<Rightarrow> [D_options m (strchr_replace (arg_option q par v) (CHR 0x09) (CHR '' ''))]))"
  by (auto simp: arg_directives_def Let_def arg_option_def arg_value_def split: option.splits)

lemma parse_result_adds:
  assumes "arg_parts a = Some (q, m, par, v)" and "config_holds config ds" and "nul_free m"
    and "m = ''modprobe'' \<and> strstartswith (arg_option q par v) ''blacklist='' \<Longrightarrow> val = Some (arg_value q v)"
  shows "adds_to alloc ds (kcmdline_parse_result alloc config m (Some (arg_option q par v)) val) (arg_directives a)"
proof (cases "m = ''modprobe'' \<and> strstartswith (arg_option q par v) ''blacklist=''")
  case True
  then show ?thesis
    using adds_blacklists [OF assms(2)] assms(4) by (simp add: kcmdline_parse_result_def arg_directives_parts [OF assms(1)])
next
  case False
  obtain r t where u: "underscores (Some m) = Some (r, Some t)"
      "case norm_alias m of None \<Rightarrow> r = Inl EINVAL | Some m \<Rightarrow> r = Inr () \<and> t = m"
    using underscores_cases [OF assms(3)] by blast
  have "kcmdline_parse_result alloc config m (Some (arg_option q par v)) val
      = Some (case norm_alias m of None \<Rightarrow> config | Some m \<Rightarrow> snd (kmod_config_add_options alloc config m (arg_option q par v)))"
    using False u by (auto simp: kcmdline_parse_result_def split: option.splits)
  moreover have "arg_directives a = (case norm_alias m of None \<Rightarrow> []
      | Some m \<Rightarrow> [D_options m (strchr_replace (arg_option q par v) (CHR 0x09) (CHR '' ''))])"
    unfolding arg_directives_parts [OF assms(1)] using False by auto
  ultimately show ?thesis
    using adds_nothing [OF assms(2)] adds_plain(3) [OF assms(2)] by (cases "norm_alias m") simp_all
qed

lemma memmove_shift:
  assumes "w \<noteq> []"
  shows "\<exists>b. memmove (length u) (Suc (length u)) (length w) (u @ x # w @ z) = Some b
    \<and> b[length u + length w := y] = u @ w @ y # z"
proof -
  have "drop (length w) (x # w @ z) = last w # z" using assms by (induction w arbitrary: x) auto
  then have "memmove (length u) (Suc (length u)) (length w) (u @ x # w @ z) = Some (u @ w @ last w # z)"
    by (simp add: memmove_def)
  then show ?thesis by (simp add: list_update_append)
qed

lemma arg_parts_quoted: "arg_parts a = Some (True, m, par, v) \<Longrightarrow> v \<noteq> None"
  by (auto simp: arg_parts_def Let_def split: if_splits)

lemma arg_parts_plain: "arg_parts a = Some (q, m, par, None) \<Longrightarrow> \<not> strstartswith par ''blacklist=''"
proof -
  assume "arg_parts a = Some (q, m, par, None)"
  then have "list_all plain par" by (auto simp: arg_parts_def Let_def takeWhile_plain(2) split: if_splits)
  then have "list_all plain (take (length ''blacklist='') par)" by (auto simp: list_all_iff dest: in_set_takeD)
  then show ?thesis unfolding strstartswith_def by (auto simp: plain_def)
qed

text \<open>The buffer at the end of an option, before and after the quote has moved.\<close>

lemma behind_arg_buf:
  assumes "drop p (kc_buf k) = arg_text q m par v @ c # rest" and "p \<le> length (kc_buf k)"
  defines "e \<equiv> p + length (arg_text q m par v)"
  shows "(kc_buf (behind_arg q p m par v k))[e := NUL]
    = take p (kc_buf k) @ quote_if q @ m @ NUL # par @ (case v of None \<Rightarrow> [] | Some v \<Rightarrow> CHR ''='' # v) @ NUL # rest"
proof -
  let ?u = "take p (kc_buf k)" and ?t = "(case v of None \<Rightarrow> [] | Some v \<Rightarrow> CHR ''='' # v)"
  have b: "kc_buf k = ?u @ quote_if q @ m @ CHR ''.'' # par @ ?t @ c # rest"
    using append_take_drop_id [of p "kc_buf k"] unfolding assms(1) arg_text_def by simp
  have u: "length ?u = p" using assms(2) by simp
  have "kc_buf (behind_arg q p m par v k) = (kc_buf k)[p + length (quote_if q) + length m := NUL]"
    by (simp add: behind_arg_def Let_def in_param_def in_name_def split: option.split)
  also have "\<dots> = ?u @ quote_if q @ m @ NUL # par @ ?t @ c # rest"
    using assms(2) by (subst b) (simp add: list_update_append min.absorb2)
  finally show ?thesis
    using assms(2) unfolding e_def arg_text_def by (simp add: list_update_append min.absorb2)
qed

lemma kcmd_requoted:
  assumes "arg_parts a = Some (q, m, par, v)" and "kc_quote_start k = (if q then Some p else None)"
    and "kc_modname k = p + length (quote_if q)" and "kc_param k = Some (p + length (quote_if q) + length m + 1)"
    and "\<And>x. v = Some x \<Longrightarrow> kc_value k = Some (p + length (quote_if q) + length m + length par + 2)"
    and "kc_buf k = u @ quote_if q @ m @ NUL # par @ (case v of None \<Rightarrow> [] | Some v \<Rightarrow> CHR ''='' # v) @ NUL # rest" "length u = p"
  shows "\<exists>k'. kcmd_requote k = Some k' \<and> kc_modname k' = p \<and> kc_param k' = Some (p + length m + 1)
    \<and> kc_is_quoted k' = kc_is_quoted k \<and> kc_buf k' = u @ m @ NUL # arg_option q par v @ NUL # rest
    \<and> (\<forall>x. v = Some x \<longrightarrow> kc_value k' = Some (p + length m + length par + 2))"
proof (cases q)
  case False
  then show ?thesis using assms(2-6) by (auto simp: kcmd_requote_def arg_option_def arg_value_def split: option.split)
next
  case True
  then obtain x where v: "v = Some x" using arg_parts_quoted [of a m par v] assms(1) by auto
  let ?w = "m @ NUL # par @ [CHR ''='']"
  obtain b where b: "memmove (length u) (Suc (length u)) (length ?w) (u @ CHR 0x22 # ?w @ x @ NUL # rest) = Some b"
      "b[length u + length ?w := CHR 0x22] = u @ ?w @ CHR 0x22 # x @ NUL # rest"
    using memmove_shift [of ?w u "CHR 0x22" "x @ NUL # rest" "CHR 0x22"] by blast
  have buf: "kc_buf k = u @ CHR 0x22 # ?w @ x @ NUL # rest" using assms(6) True v by simp
  have n: "p + length (quote_if q) + length m + length par + 2 - (p + length (quote_if q)) = length ?w" by simp
  have "kcmd_requote k = Some (k\<lparr>kc_buf := u @ ?w @ CHR 0x22 # x @ NUL # rest, kc_modname := p,
      kc_param := Some (p + length m + 1), kc_value := Some (p + length m + length par + 2)\<rparr>)"
    using True assms(2-4) assms(5) [OF v] b assms(7) unfolding kcmd_requote_def buf
    by (simp add: numeral_2_eq_2 add.assoc)
  then show ?thesis using True v by (simp add: arg_option_def arg_value_def)
qed

section \<open>The whole command line\<close>

definition arg_done ::
    "(size_t \<Rightarrow> bool) \<Rightarrow> directive list \<Rightarrow> nat \<Rightarrow> char list \<Rightarrow> (kcmd \<times> kmod_config) option \<Rightarrow> directive list \<Rightarrow> bool" where
  "arg_done alloc ds p rest res es \<longleftrightarrow>
     (\<exists>k r. res = map_option (Pair k) r \<and> at_start p k \<and> drop p (kc_buf k) = rest \<and> adds_to alloc ds r es)"

lemma kcmd_end_ignored:
  assumes "kc_state k = STATE_MODNAME \<or> kc_state k = STATE_IGNORE" and "\<not> kc_is_quoted k" and "c = NUL \<or> isspace c"
    and "drop e (kc_buf k) = c # rest" and "config_holds config ds"
  shows "arg_done alloc ds (Suc e) rest (kcmd_complete alloc e (kcmd_char c e k) config) []"
proof -
  have "kcmd_char c e k = k\<lparr>kc_modname := Suc e, kc_state := STATE_MODNAME, kc_quote_start := None\<rparr>"
    using assms(1-3) by (auto simp: kcmd_char_def isspace_def)
  then show ?thesis
    using assms(2) adds_nothing [OF assms(5), of alloc] assms(4)
    unfolding arg_done_def
    by (intro exI [of _ "k\<lparr>kc_modname := Suc e, kc_state := STATE_MODNAME, kc_quote_start := None\<rparr>"] exI [of _ "Some config"])
      (auto simp: kcmd_complete_def at_start_def drop_Suc tl_drop [symmetric])
qed

lemma kcmd_end_option:
  assumes ps: "arg_parts a = Some (q, m, par, v)" and a: "a = arg_text q m par v" and "nul_free a" and "at_start p k"
    and d: "drop p (kc_buf k) = a @ c # rest" "p \<le> length (kc_buf k)" and c: "c = NUL \<or> isspace c" and h: "config_holds config ds"
  defines "e \<equiv> p + length a"
  shows "arg_done alloc ds (Suc e) rest (kcmd_complete alloc e (kcmd_char c e (behind_arg q p m par v k)) config) (arg_directives a)"
proof -
  let ?k = "behind_arg q p m par v k" and ?u = "take p (kc_buf k)"
  let ?k1 = "?k\<lparr>kc_buf := (kc_buf ?k)[e := NUL], kc_state := STATE_COMPLETE\<rparr>"
  have b: "kc_state ?k = STATE_PARAM \<or> kc_state ?k = STATE_VALUE" "\<not> kc_is_quoted ?k"
      "kc_quote_start ?k = (if q then Some p else None)" "kc_modname ?k = p + length (quote_if q)"
      "kc_param ?k = Some (p + length (quote_if q) + length m + 1)"
      "\<And>x. v = Some x \<Longrightarrow> kc_value ?k = Some (p + length (quote_if q) + length m + length par + 2)"
    by (simp_all add: behind_arg_def Let_def in_param_def in_name_def split: option.split)
  have ch: "kcmd_char c e ?k = ?k1" using b(1,2) c by (auto simp: kcmd_char_def isspace_def)
  have u: "length ?u = p" using d(2) by simp
  have buf: "kc_buf ?k1 = ?u @ quote_if q @ m @ NUL # par @ (case v of None \<Rightarrow> [] | Some v \<Rightarrow> CHR ''='' # v) @ NUL # rest"
    using behind_arg_buf [OF d(1) [unfolded a] d(2)] unfolding e_def a by simp
  obtain k2 where k2: "kcmd_requote ?k1 = Some k2" "kc_modname k2 = p" "kc_param k2 = Some (p + length m + 1)"
      "\<not> kc_is_quoted k2" "kc_buf k2 = ?u @ m @ NUL # arg_option q par v @ NUL # rest"
      "\<And>x. v = Some x \<Longrightarrow> kc_value k2 = Some (p + length m + length par + 2)"
    using kcmd_requoted [OF ps, of ?k1 p ?u rest] buf u b by auto
  have nf: "nul_free m" "nul_free (arg_option q par v)" "nul_free (arg_value q v)"
    using assms(3) unfolding a arg_text_def by (auto simp: arg_option_def arg_value_def split: option.splits)
  have s1: "cstr_at (kc_buf k2) p = Some m"
    using cstr_at_append [OF nf(1), of ?u] u unfolding k2(5) by simp
  have s2: "cstr_at (kc_buf k2) (p + length m + 1) = Some (arg_option q par v)"
    using cstr_at_append [OF nf(2), of "?u @ m @ [NUL]" rest] u unfolding k2(5) by simp
  have s3: "cstr_at (kc_buf k2) (p + length m + length par + 2) = Some (arg_value q v)" if "v = Some x" for x
    using cstr_at_append [OF nf(3), of "?u @ m @ NUL # par @ [CHR ''='']" rest] u that
    unfolding k2(5) by (simp add: arg_option_def add.assoc)
  have e: "length (kc_buf k2) = Suc e + length rest" "drop (Suc e) (kc_buf k2) = rest"
    unfolding k2(5) e_def a arg_text_def using u ps arg_parts_quoted [of a m par v]
    by (auto simp: arg_option_def arg_value_def split: option.split)
  let ?bl = "m = ''modprobe'' \<and> strstartswith (arg_option q par v) ''blacklist=''"
  define val where "val = (if ?bl then Some (arg_value q v) else None)"
  have vs: "(if ?bl then str_opt (kc_buf k2) (kc_value k2) else Some None) = Some val"
  proof (cases ?bl)
    case True
    then obtain x where x: "v = Some x" using arg_parts_plain [of a q m par] ps by (cases v) (auto simp: arg_option_def)
    then show ?thesis using True k2(6) [OF x] s3 [OF x] by (simp add: val_def str_opt_def)
  qed (auto simp: val_def)
  let ?r = "kcmdline_parse_result alloc config m (Some (arg_option q par v)) val"
  have "kcmd_complete alloc e ?k1 config
      = map_option (Pair (k2\<lparr>kc_modname := Suc e, kc_state := STATE_MODNAME, kc_quote_start := None\<rparr>)) ?r"
    using k2(1-3) s1 s2 vs by (simp add: kcmd_complete_def str_opt_def map_conv_bind_option comp_def)
  moreover have "adds_to alloc ds ?r (arg_directives a)"
    by (rule parse_result_adds [OF ps h nf(1)]) (simp add: val_def)
  ultimately show ?thesis
    using k2(4) e(2) unfolding arg_done_def ch
    by (intro exI [of _ "k2\<lparr>kc_modname := Suc e, kc_state := STATE_MODNAME, kc_quote_start := None\<rparr>"] exI [of _ ?r])
      (simp add: at_start_def)
qed

lemma next_arg_split:
  assumes "next_arg q s = (a, r)"
  shows "unbroken q a" and "case r of None \<Rightarrow> s = a | Some t \<Rightarrow> \<not> open_quote q a \<and> (\<exists>c. isspace c \<and> s = a @ c # t)"
  using assms
proof (atomize (full), induction q s arbitrary: a r rule: next_arg.induct)
  case (2 q c s)
  show ?case
  proof (cases "\<not> q \<and> isspace c")
    case True
    then show ?thesis using "2.prems" by auto
  next
    case False
    let ?q = "if c = CHR 0x22 then \<not> q else q"
    obtain a' where a: "next_arg ?q s = (a', r)" "a = c # a'"
      using False "2.prems" by (cases "next_arg ?q s") auto
    from "2.IH" [OF False a(1)] show ?thesis
      using False unfolding a(2) by (cases r) auto
  qed
qed simp

lemma kcmd_arg_end:
  assumes "at_start p k" and "unbroken False a" and "nul_free a" and "\<not> open_quote False a"
    and "drop p (kc_buf k) = a @ c # rest" and "c = NUL \<or> isspace c" and "config_holds config ds"
  shows "arg_done alloc ds (Suc (p + length a)) rest
    (kcmd_complete alloc (p + length a) (kcmd_char c (p + length a) (kcmd_chars a p k)) config) (arg_directives a)"
proof -
  have st: "kc_state k \<noteq> STATE_COMPLETE" "\<not> kc_is_quoted k" using assms(1) by (auto simp: at_start_def)
  note run = kcmd_loop_run [of k a p "c # rest"] st assms
  have p: "p \<le> length (kc_buf k)" using assms(5) by (metis append_is_Nil_conv drop_all linear list.distinct(1))
  show ?thesis
  proof (cases "arg_parts a")
    case None
    then have "arg_directives a = []" by (simp add: arg_directives_def)
    moreover have "kc_state (kcmd_chars a p k) = STATE_MODNAME \<or> kc_state (kcmd_chars a p k) = STATE_IGNORE"
      using kcmd_arg [OF assms(1-4)] None by simp
    ultimately show ?thesis
      using kcmd_end_ignored [of "kcmd_chars a p k" c "p + length a" rest config ds alloc]
        kcmd_loop_run(2,3) [of k a p "c # rest"] st assms by simp
  next
    case (Some x)
    then obtain q m par v where ps: "arg_parts a = Some (q, m, par, v)" by (cases x) auto
    then have "a = arg_text q m par v" "kcmd_chars a p k = behind_arg q p m par v k"
      using kcmd_arg [OF assms(1-4)] by auto
    then show ?thesis using kcmd_end_option [OF ps _ assms(3,1,5) p assms(6,7)] by simp
  qed
qed

lemma kcmd_loop_adds:
  "at_start p k \<Longrightarrow> drop p (kc_buf k) = s @ [NUL] \<Longrightarrow> nul_free s \<Longrightarrow> config_holds config ds \<Longrightarrow>
    adds_to alloc ds (kcmd_loop alloc p k config) (cmdline_directives s)"
proof (induction s arbitrary: p k config ds rule: cmd_args.induct)
  case (1 s)
  obtain a r where na: "next_arg False s = (a, r)" by fastforce
  note sp = next_arg_split [OF na]
  define c where "c = (case r of None \<Rightarrow> NUL | Some t \<Rightarrow> s ! length a)"
  define rest where "rest = (case r of None \<Rightarrow> [] | Some t \<Rightarrow> t @ [NUL])"
  let ?e = "p + length a"
  let ?k = "kcmd_chars a p k"
  have buf: "drop p (kc_buf k) = a @ c # rest" and c: "c = NUL \<or> isspace c" and nf: "nul_free a"
    using sp(2) "1.prems"(2,3) by (auto simp: c_def rest_def split: option.splits)
  have st: "kc_state k \<noteq> STATE_COMPLETE" "\<not> kc_is_quoted k" using "1.prems"(1) by (auto simp: at_start_def)
  have ub: "unbroken (kc_is_quoted k) a" using sp(1) st by simp
  note run = kcmd_loop_run [OF ub nf st(1) buf]
  have e: "?e < length (kc_buf ?k)" "kc_buf ?k ! ?e = c"
    using run(3) by (metis drop_all leI list.distinct(1), metis drop_all hd_drop_conv_nth leI list.distinct(1) list.sel(1))
  have step: "kcmd_loop alloc p k config =
      do { (k', config) \<leftarrow> kcmd_complete alloc ?e (kcmd_char c ?e ?k) config;
           if c = NUL then Some config else kcmd_loop alloc (Suc ?e) k' config }"
    unfolding run(1) by (subst kcmd_loop.simps) (use e in \<open>simp add: Let_def\<close>)
  show ?case
  proof (cases r)
    case None
    then have s: "s = a" "c = NUL" using sp(2) by (auto simp: c_def)
    have cd: "cmdline_directives s = arg_directives a"
      using na None by (simp add: cmdline_directives_def cmd_args.simps [of s])
    show ?thesis
    proof (cases "open_quote False a")
      case True
      then have "arg_directives a = []" by (simp add: arg_directives_def arg_parts_def)
      moreover have "kcmd_loop alloc p k config = Some config"
        unfolding step using s(2) run(2,5) True st(2) by (auto simp: kcmd_complete_def kcmd_char_def)
      ultimately show ?thesis unfolding cd using adds_nothing [OF "1.prems"(4)] by simp
    next
      case False
      obtain k' r' where r': "kcmd_complete alloc ?e (kcmd_char c ?e ?k) config = map_option (Pair k') r'"
          "adds_to alloc ds r' (arg_directives a)"
        using kcmd_arg_end [OF "1.prems"(1) sp(1) nf False buf c "1.prems"(4), of alloc] by (auto simp: arg_done_def)
      then have "kcmd_loop alloc p k config = r'" unfolding step r'(1) using s(2) by (cases r') auto
      then show ?thesis unfolding cd using r'(2) by simp
    qed
  next
    case (Some t)
    then have oq: "\<not> open_quote False a" and s: "s = a @ c # t" and "isspace c"
      using sp(2) by (auto simp: c_def)
    then have nn: "c \<noteq> NUL" "nul_free t" using "1.prems"(3) by auto
    have cd: "cmdline_directives s = arg_directives a @ cmdline_directives t"
      using na Some by (simp add: cmdline_directives_def cmd_args.simps [of s])
    obtain k' r' where r': "kcmd_complete alloc ?e (kcmd_char c ?e ?k) config = map_option (Pair k') r'"
        "at_start (Suc ?e) k'" "drop (Suc ?e) (kc_buf k') = rest" "adds_to alloc ds r' (arg_directives a)"
      using kcmd_arg_end [OF "1.prems"(1) sp(1) nf oq buf c "1.prems"(4), of alloc] by (auto simp: arg_done_def)
    have "kcmd_loop alloc p k config = Option.bind r' (kcmd_loop alloc (Suc ?e) k')"
      unfolding step r'(1) using nn(1) by (cases r') auto
    moreover have "adds_to alloc (ds @ es) (kcmd_loop alloc (Suc ?e) k' config') (cmdline_directives t)"
      if "config_holds config' (ds @ es)" for config' es
      using "1.IH" [OF na [symmetric] Some r'(2) _ nn(2) that] r'(3) Some by (simp add: rest_def)
    ultimately show ?thesis unfolding cd using adds_to_bind [OF r'(4)] by simp
  qed
qed

lemma kcmdline_adds:
  assumes "nul_free s" and "config_holds config ds"
  shows "adds_to alloc ds (map_option snd (kmod_config_parse_kcmdline alloc config (Inr s))) (cmdline_directives s)"
  using kcmd_loop_adds [OF _ _ assms, where p = 0]
  by (auto simp: kmod_config_parse_kcmdline_def option.map_comp comp_def option.map_ident at_start_def)

interpretation cmdline: directive_source nul_free
  "\<lambda>alloc s config. map_option snd (kmod_config_parse_kcmdline alloc config (Inr s))" cmdline_directives
  by unfold_locales (rule kcmdline_adds)

section \<open>Properties\<close>

text \<open>
  C15. The kernel command line is read as its arguments say: for every command line the state machine
  stays inside its buffer, and it adds exactly the options and blacklisted modules of the arguments,
  in their order. Arguments are separated by blanks outside of quotes; an argument counts if it is
  \<open>module.parameter\<close> or \<open>module.parameter=value\<close> with quotes and blanks in the value only, or if one
  quote stands in front of the whole argument, which is then moved to the front of the value;
  everything else is ignored, also an argument whose quote is never closed. If memory is short some
  entries may be missing, the others are the same.
\<close>

theorem kcmdline_arguments:
  assumes "nul_free s" and "config_holds config ds"
  shows "\<exists>config' es. kmod_config_parse_kcmdline alloc config (Inr s) = Some (Inr (), config')
    \<and> config_holds config' (ds @ es) \<and> subseq es (cmdline_directives s)
    \<and> ((\<forall>n. alloc n) \<longrightarrow> es = cmdline_directives s)"
  using cmdline.outcome [OF assms, of alloc] by (auto simp: kmod_config_parse_kcmdline_def)

definition cmdline_example :: string where
  "cmdline_example = ''ro a-b.x=1 '' @ CHR 0x22 # ''p.q=r s'' @ CHR 0x22 # '' modprobe.blacklist=f,g''"

lemma empty_config_holds: "config_holds empty_config []"
  by (simp add: config_holds_def empty_config_def)

lemma cmd_args_cases:
  "next_arg False s = (a, None) \<Longrightarrow> cmd_args s = [a]" "next_arg False s = (a, Some r) \<Longrightarrow> cmd_args s = a # cmd_args r"
  by (simp_all add: cmd_args.simps [of s])

theorem kcmdline_arguments_witness:
  "\<exists>config. kmod_config_parse_kcmdline (\<lambda>_. True) empty_config (Inr cmdline_example) = Some (Inr (), config)
    \<and> options config = [\<lparr>op_options = ''x=1'', op_modname = ''a_b''\<rparr>,
        \<lparr>op_options = ''q='' @ CHR 0x22 # ''r s'' @ [CHR 0x22], op_modname = ''p''\<rparr>]
    \<and> blacklists config = [''f'', ''g'']"
proof -
  have args: "cmd_args cmdline_example = [''ro'', ''a-b.x=1'', CHR 0x22 # ''p.q=r s'' @ [CHR 0x22], ''modprobe.blacklist=f,g'']"
    unfolding cmdline_example_def by (simp add: cmd_args_cases isspace_def)
  have "strsep_all ''g'' = [''g'']" by (subst strsep_all.simps) (simp add: Let_def)
  then have sep: "strsep_all ''f,g'' = [''f'', ''g'']" by (subst strsep_all.simps) (simp add: Let_def)
  have "cmdline_directives cmdline_example
      = [D_options ''a_b'' ''x=1'', D_options ''p'' (''q='' @ CHR 0x22 # ''r s'' @ [CHR 0x22]), D_blacklist ''f'', D_blacklist ''g'']"
    unfolding cmdline_directives_def args
    by (simp add: arg_directives_def arg_parts_def plain_def isspace_def strstartswith_def sep)
  then show ?thesis
    using kcmdline_arguments [of cmdline_example empty_config "[]" "\<lambda>_. True"] empty_config_holds
    by (auto simp: config_holds_def cmdline_example_def)
qed

end
