(* ===== verification/Kmod_Config_Dirs.thy ===== *)
theory Kmod_Config_Dirs
  imports Kmod_Cmdline
begin

text \<open>
  \<open>libkmod/libkmod-config.c\<close>, last part: the files of the configuration directories, in the order of
  their names and without duplicates, the configuration as a whole, and the iterators over it. The
  file system is an argument: \<open>fs_stat\<close> gives the time stamp of a path and whether it is a directory,
  \<open>fs_opendir\<close> the names in a directory, \<open>fs_statat\<close> whether an entry is a directory, and
  \<open>fs_open\<close> the contents of a file, or an error each.
\<close>

section \<open>Files\<close>

record file_system =
  fs_stat :: "string \<Rightarrow> (u64 \<times> bool) result"
  fs_opendir :: "string \<Rightarrow> string list result"
  fs_statat :: "string \<Rightarrow> string \<Rightarrow> bool result"
  fs_open :: "string \<Rightarrow> char list result"

definition conf_files_filter_out :: "file_system \<Rightarrow> string \<Rightarrow> string \<Rightarrow> bool" where
  "conf_files_filter_out fs path fn =
     (let len = length fn in
      if char_at fn 0 = CHR ''.'' then True
      else if len < 6 \<or> \<not> streq (drop (len - 5) fn) ''.conf'' then True
      else (case fs_statat fs path fn of Inl _ \<Rightarrow> True | Inr isdir \<Rightarrow> isdir))"

record conf_file =
  cf_path :: string
  cf_is_single :: bool
  cf_name :: string

text \<open>The loop over the list: where it stopped, or the end of the list, and the last comparison.\<close>

fun conf_pos :: "string \<Rightarrow> conf_file list \<Rightarrow> nat \<Rightarrow> int \<Rightarrow> nat \<times> int" where
  "conf_pos name [] i cmp = (i, cmp)"
| "conf_pos name (cf # list) i cmp =
     (let cmp = strcmp name (cf_name cf) in if cmp \<le> 0 then (i, cmp) else conf_pos name list (Suc i) cmp)"

text \<open>
  Appending at the end, prepending at the head and inserting before an element all put the new
  element at the position \<open>lpos\<close>; \<open>kmod_list\<close> nodes have 24 bytes and \<open>struct conf_file\<close> 16.
\<close>

definition conf_files_insert_sorted ::
    "(size_t \<Rightarrow> bool) \<Rightarrow> conf_file list \<Rightarrow> string \<Rightarrow> string option \<Rightarrow> unit result \<times> conf_file list" where
  "conf_files_insert_sorted alloc list path name =
     (let (name, is_single) = (case name of None \<Rightarrow> (basename path, True) | Some name \<Rightarrow> (name, False));
          (lpos, cmp) = conf_pos name list 0 (- 1) in
      if cmp = 0 then (Inl EEXIST, list)
      else if \<not> alloc (16 + of_nat (length name) + 1) then (Inl ENOMEM, list)
      else if \<not> alloc 24 then (Inl ENOMEM, list)
      else (Inr (), take lpos list @ \<lparr>cf_path = path, cf_is_single = is_single, cf_name = name\<rparr> # drop lpos list))"

definition conf_files_list ::
    "(size_t \<Rightarrow> bool) \<Rightarrow> file_system \<Rightarrow> conf_file list \<Rightarrow> string \<Rightarrow> u64 result \<times> conf_file list" where
  "conf_files_list alloc fs list path =
     (case fs_stat fs path of
        Inl e \<Rightarrow> (Inl e, list)
      | Inr (stamp, isdir) \<Rightarrow>
          if \<not> isdir then (Inr stamp, snd (conf_files_insert_sorted alloc list path None))
          else
            (case fs_opendir fs path of
               Inl _ \<Rightarrow> (Inl EINVAL, list)
             | Inr names \<Rightarrow>
                 (Inr stamp,
                  fold (\<lambda>d_name list.
                          if conf_files_filter_out fs path d_name then list
                          else snd (conf_files_insert_sorted alloc list path (Some d_name))) names list)))"

section \<open>The configuration\<close>

text \<open>The loop over the configuration paths: the files, and the paths with their time stamps.\<close>

fun config_dirs ::
    "(size_t \<Rightarrow> bool) \<Rightarrow> file_system \<Rightarrow> conf_file list \<Rightarrow> kmod_config_path list \<Rightarrow> string list
      \<Rightarrow> (conf_file list \<times> kmod_config_path list) result" where
  "config_dirs alloc fs list path_list [] = Inr (list, path_list)"
| "config_dirs alloc fs list path_list (path # config_paths) =
     (case conf_files_list alloc fs list path of
        (Inl _, list) \<Rightarrow> config_dirs alloc fs list path_list config_paths
      | (Inr stamp, list) \<Rightarrow>
          if \<not> alloc (8 + strsize path) then Inl ENOMEM
          else
            (case list_append alloc path_list \<lparr>cp_stamp = stamp, cp_path = path\<rparr> of
               None \<Rightarrow> Inl ENOMEM
             | Some path_list \<Rightarrow> config_dirs alloc fs list path_list config_paths))"

definition conf_file_name :: "conf_file \<Rightarrow> string option" where
  "conf_file_name cf =
     (if cf_is_single cf then Some (cf_path cf)
      else if PATH_MAX \<le> length (cf_path cf @ CHR ''/'' # cf_name cf) then None
      else Some (cf_path cf @ CHR ''/'' # cf_name cf))"

definition parse_conf_file ::
    "(size_t \<Rightarrow> bool) \<Rightarrow> file_system \<Rightarrow> conf_file \<Rightarrow> kmod_config \<Rightarrow> kmod_config option" where
  "parse_conf_file alloc fs cf config =
     (case conf_file_name cf of
        None \<Rightarrow> Some config
      | Some fn \<Rightarrow>
          (case fs_open fs fn of
             Inl _ \<Rightarrow> Some config
           | Inr fp \<Rightarrow> map_option snd (kmod_config_parse alloc config (Inr fp))))"

text \<open>\<open>dirname\<close> is \<open>kmod_get_dirname\<close> of the context; \<open>struct kmod_config\<close> has 72 bytes.\<close>

definition kmod_config_new ::
    "(size_t \<Rightarrow> bool) \<Rightarrow> file_system \<Rightarrow> string \<Rightarrow> string list \<Rightarrow> string result \<Rightarrow> kmod_config result option" where
  "kmod_config_new alloc fs dirname config_paths cmdline =
     (let list = snd (conf_files_insert_sorted alloc [] dirname (Some ''modules.softdep''));
          list = snd (conf_files_insert_sorted alloc list dirname (Some ''modules.weakdep'')) in
      case config_dirs alloc fs list [] config_paths of
        Inl e \<Rightarrow> Some (Inl e)
      | Inr (list, path_list) \<Rightarrow>
          if \<not> alloc 72 then Some (Inl ENOMEM)
          else
            do { config \<leftarrow> foldM (parse_conf_file alloc fs) list (empty_config\<lparr>paths := path_list\<rparr>);
                 (_, config) \<leftarrow> kmod_config_parse_kcmdline alloc config cmdline;
                 Some (Inr config) })"

section \<open>Which files are read, and in which order\<close>

text \<open>
  The reference: the candidates are the files in the order in which they are found; of those with
  the same name only the first is read, and the files are read in the order of their names.
\<close>

definition is_first :: "conf_file list \<Rightarrow> conf_file \<Rightarrow> bool" where
  "is_first cs x \<longleftrightarrow> (\<exists>us vs. cs = us @ x # vs \<and> cf_name x \<notin> cf_name ` set us)"

definition files_ok :: "conf_file list \<Rightarrow> conf_file list \<Rightarrow> bool" where
  "files_ok cs files \<longleftrightarrow> sorted_wrt (\<lambda>a b. cf_name a < cf_name b) files \<and> (\<forall>x. x \<in> set files \<longleftrightarrow> is_first cs x)"

definition path_candidates :: "file_system \<Rightarrow> string \<Rightarrow> conf_file list" where
  "path_candidates fs path =
     (case fs_stat fs path of
        Inl _ \<Rightarrow> []
      | Inr (_, False) \<Rightarrow> [\<lparr>cf_path = path, cf_is_single = True, cf_name = basename path\<rparr>]
      | Inr (_, True) \<Rightarrow>
          (case fs_opendir fs path of
             Inl _ \<Rightarrow> []
           | Inr names \<Rightarrow> [\<lparr>cf_path = path, cf_is_single = False, cf_name = n\<rparr>. n \<leftarrow> names, \<not> conf_files_filter_out fs path n]))"

definition candidates :: "file_system \<Rightarrow> string \<Rightarrow> string list \<Rightarrow> conf_file list" where
  "candidates fs dirname config_paths =
     [\<lparr>cf_path = dirname, cf_is_single = False, cf_name = ''modules.softdep''\<rparr>,
      \<lparr>cf_path = dirname, cf_is_single = False, cf_name = ''modules.weakdep''\<rparr>]
     @ concat (map (path_candidates fs) config_paths)"

lemma is_first_snoc:
  "is_first (cs @ [y]) x \<longleftrightarrow> is_first cs x \<or> x = y \<and> cf_name y \<notin> cf_name ` set cs"
  unfolding is_first_def by (auto simp: append_eq_append_conv2 append_eq_Cons_conv Cons_eq_append_conv) blast+

lemma is_first_names: "cf_name ` {x. is_first cs x} = cf_name ` set cs"
proof (induction cs rule: rev_induct)
  case (snoc y cs)
  have "{x. is_first (cs @ [y]) x} = {x. is_first cs x} \<union> (if cf_name y \<in> cf_name ` set cs then {} else {y})"
    by (auto simp: is_first_snoc)
  then show ?case using snoc by (auto simp: image_Un)
qed (simp add: is_first_def)

lemma strcmp_le_0 [simp]: "strcmp a b \<le> 0 \<longleftrightarrow> a \<le> b"
  by (metis not_less strcmp_greater_0)

lemma conf_pos_spec:
  assumes "sorted_wrt (\<lambda>a b. cf_name a < cf_name b) files"
  shows "fst (conf_pos name files i cmp) = i + length (takeWhile (\<lambda>cf. cf_name cf < name) files)"
    and "cmp \<noteq> 0 \<Longrightarrow> snd (conf_pos name files i cmp) = 0 \<longleftrightarrow> name \<in> cf_name ` set files"
  using assms
proof (atomize (full), induction files arbitrary: i cmp)
  case (Cons cf files)
  consider "name < cf_name cf" | "name = cf_name cf" | "cf_name cf < name" by (meson linorder_cases)
  then show ?case
  proof cases
    case 1
    then have "name \<notin> cf_name ` set (cf # files)" "\<not> cf_name cf < name" "name \<le> cf_name cf"
      using Cons.prems by auto
    then show ?thesis using 1 by (simp add: Let_def)
  next
    case 2
    then show ?thesis by (simp add: Let_def)
  next
    case 3
    then have "strcmp name (cf_name cf) \<noteq> 0" "\<not> name \<le> cf_name cf" by auto
    then show ?thesis using Cons.IH [of "Suc i" "strcmp name (cf_name cf)"] Cons.prems 3 by (auto simp: Let_def)
  qed
qed simp

lemma insert_sorted_ok:
  assumes "files_ok cs files" and "\<forall>n. alloc n"
    and y_def: "y = (case name of None \<Rightarrow> \<lparr>cf_path = path, cf_is_single = True, cf_name = basename path\<rparr>
      | Some name \<Rightarrow> \<lparr>cf_path = path, cf_is_single = False, cf_name = name\<rparr>)"
  shows "files_ok (cs @ [y]) (snd (conf_files_insert_sorted alloc files path name))"
proof -
  let ?n = "cf_name y"
  have s: "sorted_wrt (\<lambda>a b. cf_name a < cf_name b) files" and m: "\<And>x. x \<in> set files \<longleftrightarrow> is_first cs x"
    using assms(1) by (auto simp: files_ok_def)
  have names: "cf_name ` set files = cf_name ` set cs"
    using is_first_names [of cs] m by (metis Collect_mem_eq Collect_cong)
  define t where "t = takeWhile (\<lambda>cf. cf_name cf < ?n) files"
  define d where "d = dropWhile (\<lambda>cf. cf_name cf < ?n) files"
  note pos = conf_pos_spec [OF s, where name = ?n and i = 0 and cmp = "- 1", folded t_def, simplified]
  have td: "files = t @ d" by (simp add: t_def d_def)
  have tk: "take (length t) files = t" "drop (length t) files = d" unfolding td by simp_all
  have ins: "snd (conf_files_insert_sorted alloc files path name) = (if ?n \<in> cf_name ` set files then files else t @ y # d)"
    using pos assms(2) tk
    by (cases "conf_pos ?n files 0 (- 1)"; cases name) (auto simp: conf_files_insert_sorted_def y_def)
  show ?thesis
  proof (cases "?n \<in> cf_name ` set files")
    case True
    then show ?thesis using s m names unfolding ins files_ok_def by (auto simp: is_first_snoc)
  next
    case False
    have lt: "\<forall>a \<in> set t. cf_name a < ?n" by (auto simp: t_def dest: set_takeWhileD)
    have "\<forall>b \<in> set d. ?n < cf_name b"
    proof (cases d)
      case (Cons b bs)
      then have "d \<noteq> []" by simp
      then have "\<not> cf_name (hd d) < ?n" unfolding d_def by (rule hd_dropWhile)
      then have "\<not> cf_name b < ?n" using Cons by simp
      moreover have "cf_name b \<noteq> ?n" using False td Cons by auto
      ultimately show ?thesis using s td Cons by (auto simp: sorted_wrt_append dest: less_trans)
    qed simp
    then have "sorted_wrt (\<lambda>a b. cf_name a < cf_name b) (t @ y # d)"
      using s lt unfolding td by (auto simp: sorted_wrt_append)
    moreover have "x \<in> set (t @ y # d) \<longleftrightarrow> is_first (cs @ [y]) x" for x
      using m [of x] False names unfolding td is_first_snoc by auto
    ultimately show ?thesis unfolding ins files_ok_def using False by simp
  qed
qed

lemma conf_files_list_ok:
  assumes "files_ok cs files" and "\<forall>n. alloc n"
  shows "files_ok (cs @ path_candidates fs path) (snd (conf_files_list alloc fs files path))"
proof -
  have dir: "files_ok (cs @ [\<lparr>cf_path = path, cf_is_single = False, cf_name = n\<rparr>. n \<leftarrow> names, \<not> conf_files_filter_out fs path n])
      (fold (\<lambda>d_name list. if conf_files_filter_out fs path d_name then list
               else snd (conf_files_insert_sorted alloc list path (Some d_name))) names files)" for names
    using assms(1)
  proof (induction names arbitrary: cs files)
    case (Cons n names)
    show ?case
      using Cons.IH [of cs files] Cons.prems
        Cons.IH [OF insert_sorted_ok [OF Cons.prems assms(2), where name = "Some n" and path = path, OF refl]]
      by simp
  qed simp
  show ?thesis
    using assms(1) dir insert_sorted_ok [OF assms, where name = None and path = path, OF refl]
    by (auto simp: conf_files_list_def path_candidates_def split: sum.splits prod.splits bool.splits)
qed

lemma config_dirs_ok:
  "files_ok cs files \<Longrightarrow> \<forall>n. alloc n \<Longrightarrow> \<exists>files' pl. config_dirs alloc fs files pl0 ps = Inr (files', pl)
     \<and> files_ok (cs @ concat (map (path_candidates fs) ps)) files'"
proof (induction ps arbitrary: cs files pl0)
  case (Cons path ps)
  obtain r files' where c: "conf_files_list alloc fs files path = (r, files')" by fastforce
  then have "files_ok (cs @ path_candidates fs path) files'"
    using conf_files_list_ok [OF Cons.prems, of fs path] by simp
  from Cons.IH [OF this Cons.prems(2)] have ih: "\<exists>files'' pl. config_dirs alloc fs files' pl1 ps = Inr (files'', pl)
      \<and> files_ok (cs @ concat (map (path_candidates fs) (path # ps))) files''" for pl1
    by simp
  show ?case
  proof (cases r)
    case (Inl e)
    then show ?thesis using ih [of pl0] c by simp
  next
    case (Inr stamp)
    have "alloc 24" "alloc (8 + strsize path)" using Cons.prems(2) by blast+
    then show ?thesis
      using ih [of "pl0 @ [\<lparr>cp_stamp = stamp, cp_path = path\<rparr>]"] c Inr by (simp add: list_append_def)
  qed
qed simp

section \<open>Reading the files\<close>

definition conf_file_directives :: "file_system \<Rightarrow> conf_file \<Rightarrow> directive list" where
  "conf_file_directives fs cf =
     (case conf_file_name cf of
        None \<Rightarrow> []
      | Some fn \<Rightarrow> (case fs_open fs fn of Inl _ \<Rightarrow> [] | Inr fp \<Rightarrow> file_directives fp))"

lemma parse_conf_file_adds:
  assumes "config_holds config ds" and "\<forall>fn fp. fs_open fs fn = Inr fp \<longrightarrow> length fp < 2 ^ 31"
  shows "adds_to alloc ds (parse_conf_file alloc fs cf config) (conf_file_directives fs cf)"
proof (cases "conf_file_name cf")
  case None
  then show ?thesis using adds_nothing [OF assms(1)] by (simp add: parse_conf_file_def conf_file_directives_def)
next
  case (Some fn)
  show ?thesis
  proof (cases "fs_open fs fn")
    case (Inl e)
    then show ?thesis using adds_nothing [OF assms(1)] Some by (simp add: parse_conf_file_def conf_file_directives_def)
  next
    case (Inr fp)
    then have "adds_to alloc ds (parse_lines alloc config fp 0) (file_directives fp)"
      using parse_lines_adds [OF assms(1)] assms(2) by blast
    then show ?thesis
      using Some Inr
      by (simp add: parse_conf_file_def conf_file_directives_def kmod_config_parse_def option.map_comp comp_def option.map_ident)
  qed
qed

interpretation conf_file: directive_source "\<lambda>cf. \<forall>fn fp. fs_open fs fn = Inr fp \<longrightarrow> length fp < 2 ^ 31"
  "\<lambda>alloc. parse_conf_file alloc fs" "conf_file_directives fs" for fs
  by unfold_locales (rule parse_conf_file_adds)

section \<open>Properties\<close>

text \<open>
  C13. A configuration is made of the right files in the right order: loading it never touches memory
  it does not own, and unless memory is short it succeeds and holds exactly the directives of the
  chosen files, file after file, followed by those of the kernel command line. The chosen files are
  sorted by name without duplicates, and are \<open>modules.softdep\<close>, \<open>modules.weakdep\<close> and the \<open>.conf\<close>
  files of the configuration paths, where of several files with one name only that of the earliest
  path is read.
\<close>

theorem config_new_files:
  assumes "\<forall>fn fp. fs_open fs fn = Inr fp \<longrightarrow> length fp < 2 ^ 31" and "nul_free s"
  shows "\<exists>r. kmod_config_new alloc fs dirname config_paths (Inr s) = Some r
    \<and> ((\<forall>n. alloc n) \<longrightarrow> (\<exists>config files. r = Inr config \<and> files_ok (candidates fs dirname config_paths) files
         \<and> config_holds config (concat (map (conf_file_directives fs) files) @ cmdline_directives s)))"
proof -
  let ?l1 = "snd (conf_files_insert_sorted alloc [] dirname (Some ''modules.softdep''))"
  let ?l2 = "snd (conf_files_insert_sorted alloc ?l1 dirname (Some ''modules.weakdep''))"
  have fin: "adds_to alloc [] (Option.bind (foldM (parse_conf_file alloc fs) files (empty_config\<lparr>paths := pl\<rparr>))
        (\<lambda>config. map_option snd (kmod_config_parse_kcmdline alloc config (Inr s))))
      (concat (map (conf_file_directives fs) files) @ cmdline_directives s)" for files pl
    using adds_to_bind [OF conf_file.sequence, of files fs "empty_config\<lparr>paths := pl\<rparr>" "[]" alloc]
      cmdline.run_adds [OF assms(2), of _ _ alloc] assms(1) by (simp add: config_holds_def empty_config_def)
  have ok: "\<exists>files pl. config_dirs alloc fs ?l2 [] config_paths = Inr (files, pl)
      \<and> files_ok (candidates fs dirname config_paths) files" if all: "\<forall>n. alloc n"
  proof -
    have "files_ok [] []" by (simp add: files_ok_def is_first_def)
    from insert_sorted_ok [OF this all, where name = "Some ''modules.softdep''" and path = dirname, OF refl]
    have "files_ok ([] @ [\<lparr>cf_path = dirname, cf_is_single = False, cf_name = ''modules.softdep''\<rparr>]) ?l1" by simp
    from config_dirs_ok [OF insert_sorted_ok [OF this all, where name = "Some ''modules.weakdep''" and path = dirname, OF refl] all]
    show ?thesis by (simp add: candidates_def)
  qed
  show ?thesis
  proof (cases "config_dirs alloc fs ?l2 [] config_paths")
    case (Inl e)
    then show ?thesis using ok by (auto simp: kmod_config_new_def)
  next
    case (Inr x)
    obtain files pl where x: "x = (files, pl)" by fastforce
    have new: "kmod_config_new alloc fs dirname config_paths (Inr s) =
        (if alloc 72 then map_option Inr (Option.bind (foldM (parse_conf_file alloc fs) files (empty_config\<lparr>paths := pl\<rparr>))
           (\<lambda>config. map_option snd (kmod_config_parse_kcmdline alloc config (Inr s)))) else Some (Inl ENOMEM))"
      using Inr x by (simp add: kmod_config_new_def map_conv_bind_option comp_def case_prod_unfold)
    from fin [of files pl] obtain config es where c: "Option.bind (foldM (parse_conf_file alloc fs) files (empty_config\<lparr>paths := pl\<rparr>))
          (\<lambda>config. map_option snd (kmod_config_parse_kcmdline alloc config (Inr s))) = Some config"
        "config_holds config es" "(\<forall>n. alloc n) \<longrightarrow> es = concat (map (conf_file_directives fs) files) @ cmdline_directives s"
      by (auto simp: adds_to_def)
    have "(\<forall>n. alloc n) \<longrightarrow> files_ok (candidates fs dirname config_paths) files" using ok Inr x by auto
    then show ?thesis unfolding new using c by auto
  qed
qed

text \<open>Two directories with a file of the same name.\<close>

definition fs_example :: file_system where
  "fs_example = \<lparr>fs_stat = (\<lambda>p. if p = ''/e'' \<or> p = ''/r'' then Inr (1, True) else Inl ENOENT),
     fs_opendir = (\<lambda>p. Inr [''.'', ''aa.conf'', ''x'']),
     fs_statat = (\<lambda>p n. Inr False),
     fs_open = (\<lambda>fn. if fn = ''/e/aa.conf'' then Inr ''blacklist m'' else if fn = ''/r/aa.conf'' then Inr ''blacklist n'' else Inl ENOENT)\<rparr>"

lemma is_first_Cons: "is_first (c # cs) x \<longleftrightarrow> x = c \<or> is_first cs x \<and> cf_name x \<noteq> cf_name c"
proof
  assume "is_first (c # cs) x"
  then obtain us vs where "c # cs = us @ x # vs" "cf_name x \<notin> cf_name ` set us" by (auto simp: is_first_def)
  then show "x = c \<or> is_first cs x \<and> cf_name x \<noteq> cf_name c"
    by (cases us) (auto simp: is_first_def)
next
  assume "x = c \<or> is_first cs x \<and> cf_name x \<noteq> cf_name c"
  then show "is_first (c # cs) x"
  proof
    assume "x = c"
    then show ?thesis unfolding is_first_def by (intro exI [of _ "[]"] exI [of _ cs]) auto
  next
    assume a: "is_first cs x \<and> cf_name x \<noteq> cf_name c"
    then obtain us vs where "cs = us @ x # vs" "cf_name x \<notin> cf_name ` set us" by (auto simp: is_first_def)
    then show ?thesis unfolding is_first_def using a by (intro exI [of _ "c # us"] exI [of _ vs]) auto
  qed
qed

lemma files_ok_unique: "files_ok cs files \<Longrightarrow> files_ok cs files' \<Longrightarrow> files = files'"
proof -
  assume a: "files_ok cs files" "files_ok cs files'"
  have s: "sorted (map cf_name fs) \<and> distinct (map cf_name fs)" if "files_ok cs fs" for fs
  proof -
    have "sorted_wrt (<) (map cf_name fs)" using that by (simp add: files_ok_def sorted_wrt_map)
    then show ?thesis unfolding strict_sorted_iff .
  qed
  have set: "set files = set files'" using a by (auto simp: files_ok_def)
  have "map cf_name files = map cf_name files'"
    using s [OF a(1)] s [OF a(2)] set by (intro sorted_distinct_set_unique) auto
  moreover have "inj_on cf_name (set files \<union> set files')" using s [OF a(1)] set by (simp add: distinct_map)
  ultimately show ?thesis by (rule map_inj_on)
qed

theorem config_new_files_witness:
  "\<exists>config. kmod_config_new (\<lambda>_. True) fs_example ''/l'' [''/e'', ''/r''] (Inr ''a.b=1'') = Some (Inr config)
    \<and> blacklists config = [''m''] \<and> options config = [\<lparr>op_options = ''b=1'', op_modname = ''a''\<rparr>]"
proof -
  let ?cs = "candidates fs_example ''/l'' [''/e'', ''/r'']"
  let ?f = "\<lambda>p n. \<lparr>cf_path = p, cf_is_single = False, cf_name = n\<rparr>"
  have cs: "?cs = [?f ''/l'' ''modules.softdep'', ?f ''/l'' ''modules.weakdep'', ?f ''/e'' ''aa.conf'', ?f ''/r'' ''aa.conf'']"
    by (simp add: candidates_def path_candidates_def fs_example_def conf_files_filter_out_def char_at_def)
  have ok: "files_ok ?cs [?f ''/e'' ''aa.conf'', ?f ''/l'' ''modules.softdep'', ?f ''/l'' ''modules.weakdep'']"
  proof -
    have "is_first [] x = False" for x by (simp add: is_first_def)
    then show ?thesis unfolding files_ok_def cs is_first_Cons
      by (simp add: less_char_def) (intro allI iffI; elim disjE conjE; simp)
  qed
  have "\<forall>fn fp. fs_open fs_example fn = Inr fp \<longrightarrow> length fp < 2 ^ 31" by (auto simp: fs_example_def split: if_splits)
  from config_new_files [OF this, of "''a.b=1''" "\<lambda>_. True" "''/l''" "[''/e'', ''/r'']"] obtain config files where
    c: "kmod_config_new (\<lambda>_. True) fs_example ''/l'' [''/e'', ''/r''] (Inr ''a.b=1'') = Some (Inr config)"
      "files_ok ?cs files" "config_holds config (concat (map (conf_file_directives fs_example) files) @ cmdline_directives ''a.b=1'')"
    by auto
  have f: "files = [?f ''/e'' ''aa.conf'', ?f ''/l'' ''modules.softdep'', ?f ''/l'' ''modules.weakdep'']"
    by (rule files_ok_unique [OF c(2) ok])
  have fl: "file_lines ''blacklist m'' = [''blacklist m'']" by (simp add: file_lines.simps)
  have "concat (map (conf_file_directives fs_example) files) = [D_blacklist ''m'']"
    unfolding f
    by (simp add: conf_file_directives_def conf_file_name_def fs_example_def file_directives_def fl map_filter_simps
        line_directive_def words_directive_def next_word_def)
  moreover have "cmdline_directives ''a.b=1'' = [D_options ''a'' ''b=1'']"
    by (simp add: cmdline_directives_def cmd_args_cases isspace_def arg_directives_def arg_parts_def plain_def strstartswith_def)
  ultimately show ?thesis using c(1,3) by (auto simp: config_holds_def)
qed

end
