(* ===== verification/Kmod_Config_Iter.thy ===== *)
theory Kmod_Config_Iter
  imports Kmod_Config_Dirs
begin

text \<open>
  \<open>libkmod/libkmod-config.c\<close>: the text of soft and weak dependencies and the iterators over the
  entries of a configuration. An iterator has its list and the position of the current entry, None
  before the first and behind the last.
\<close>

section \<open>Text of dependencies\<close>

text \<open>The bytes from the first string of a vector to the end of its last.\<close>

definition strv_span :: "u32 \<Rightarrow> nat slots \<Rightarrow> char slots \<Rightarrow> (nat \<times> nat) option" where
  "strv_span n strv buf =
     (if n = 0 then Some (0, 0)
      else
        do { start \<leftarrow> (if strv = [] then None else strv ! 0);
             end' \<leftarrow> (if unat (n - 1) < length strv then strv ! unat (n - 1) else None);
             s \<leftarrow> read_cstr (drop end' buf);
             if end' + length s < start then None else Some (start, end' + length s - start) })"

definition bytes_at :: "nat \<Rightarrow> nat \<Rightarrow> char slots \<Rightarrow> char list option" where
  "bytes_at p n buf =
     (if p + n \<le> length buf \<and> None \<notin> set (take n (drop p buf)) then Some (map the (take n (drop p buf))) else None)"

definition nul_to_blank :: "char list \<Rightarrow> char list" where
  "nul_to_blank = map (\<lambda>c. if c = NUL then CHR '' '' else c)"

text \<open>
  Copying a vector to \<open>itr\<close>: \<open>sz + k\<close> bytes, of which the NULs among the first \<open>sz\<close> become blanks.
\<close>

definition put_strv ::
    "string \<Rightarrow> nat \<Rightarrow> nat \<Rightarrow> nat \<Rightarrow> char slots \<Rightarrow> nat \<Rightarrow> char slots \<Rightarrow> (nat \<times> char slots) option" where
  "put_strv pfx start sz k buf itr s =
     (if sz = 0 then Some (itr, s)
      else
        do { s \<leftarrow> memcpy_to pfx itr s;
             let itr = itr + length pfx;
             cs \<leftarrow> bytes_at start (sz + k) buf;
             s \<leftarrow> memcpy_to cs itr s;
             s \<leftarrow> memcpy_to (nul_to_blank (take sz cs)) itr s;
             Some (itr + sz, s) })"

definition softdep_to_char :: "(size_t \<Rightarrow> bool) \<Rightarrow> kmod_softdep \<Rightarrow> string option option" where
  "softdep_to_char alloc dep =
     do { (start_pre, sz_pre) \<leftarrow> strv_span (sd_n_pre dep) (sd_pre dep) (sd_buf dep);
          (start_post, sz_post) \<leftarrow> strv_span (sd_n_post dep) (sd_post dep) (sd_buf dep);
          let sz = 1 + (if sd_n_pre dep > 0 then sz_pre + 5 else 0) + (if sd_n_post dep > 0 then sz_post + 6 else 0);
          if \<not> alloc (of_nat sz) then Some None
          else
            do { (itr, s) \<leftarrow> put_strv ''pre: '' start_pre sz_pre 1 (sd_buf dep) 0 (replicate sz None);
                 (itr, s) \<leftarrow> put_strv ''post: '' start_post sz_post 1 (sd_buf dep) itr s;
                 s \<leftarrow> store itr NUL s;
                 map_option Some (read_cstr s) } }"

definition weakdep_to_char :: "(size_t \<Rightarrow> bool) \<Rightarrow> kmod_weakdep \<Rightarrow> string option option" where
  "weakdep_to_char alloc dep =
     do { (start, sz_weak) \<leftarrow> strv_span (wd_n_weak dep) (wd_weak dep) (wd_buf dep);
          let sz = 1 + (if wd_n_weak dep > 0 then sz_weak else 0);
          if \<not> alloc (of_nat sz) then Some None
          else
            do { (itr, s) \<leftarrow> put_strv [] start sz_weak 0 (wd_buf dep) 0 (replicate sz None);
                 s \<leftarrow> store itr NUL s;
                 map_option Some (read_cstr s) } }"

section \<open>Iterators\<close>

datatype config_type =
    CONFIG_TYPE_BLACKLIST | CONFIG_TYPE_INSTALL | CONFIG_TYPE_REMOVE | CONFIG_TYPE_ALIAS
  | CONFIG_TYPE_OPTION | CONFIG_TYPE_SOFTDEP | CONFIG_TYPE_WEAKDEP

datatype config_entry =
    E_blacklist string
  | E_command kmod_command
  | E_alias kmod_alias
  | E_option kmod_options
  | E_softdep kmod_softdep
  | E_weakdep kmod_weakdep

fun entry_key :: "config_entry \<Rightarrow> string" where
  "entry_key (E_blacklist m) = m"
| "entry_key (E_command c) = cm_modname c"
| "entry_key (E_alias a) = al_name a"
| "entry_key (E_option o') = op_modname o'"
| "entry_key (E_softdep d) = sd_name d"
| "entry_key (E_weakdep d) = wd_name d"

fun entry_value :: "(size_t \<Rightarrow> bool) \<Rightarrow> config_entry \<Rightarrow> string option option" where
  "entry_value alloc (E_blacklist m) = Some None"
| "entry_value alloc (E_command c) = Some (Some (cm_command c))"
| "entry_value alloc (E_alias a) = Some (Some (al_modname a))"
| "entry_value alloc (E_option o') = Some (Some (op_options o'))"
| "entry_value alloc (E_softdep d) = softdep_to_char alloc d"
| "entry_value alloc (E_weakdep d) = weakdep_to_char alloc d"

record kmod_config_iter =
  it_type :: config_type
  it_list :: "config_entry list"
  it_curr :: "nat option"

definition config_entries :: "kmod_config \<Rightarrow> config_type \<Rightarrow> config_entry list" where
  "config_entries config type =
     (case type of
        CONFIG_TYPE_BLACKLIST \<Rightarrow> map E_blacklist (blacklists config)
      | CONFIG_TYPE_INSTALL \<Rightarrow> map E_command (install_commands config)
      | CONFIG_TYPE_REMOVE \<Rightarrow> map E_command (remove_commands config)
      | CONFIG_TYPE_ALIAS \<Rightarrow> map E_alias (aliases config)
      | CONFIG_TYPE_OPTION \<Rightarrow> map E_option (options config)
      | CONFIG_TYPE_SOFTDEP \<Rightarrow> map E_softdep (softdeps config)
      | CONFIG_TYPE_WEAKDEP \<Rightarrow> map E_weakdep (weakdeps config))"

text \<open>\<open>struct kmod_config_iter\<close> has 48 bytes.\<close>

definition kmod_config_iter_new :: "(size_t \<Rightarrow> bool) \<Rightarrow> kmod_config \<Rightarrow> config_type \<Rightarrow> kmod_config_iter option" where
  "kmod_config_iter_new alloc config type =
     (if \<not> alloc 48 then None
      else Some \<lparr>it_type = type, it_list = config_entries config type, it_curr = None\<rparr>)"

definition kmod_config_iter_get_key :: "kmod_config_iter \<Rightarrow> string option" where
  "kmod_config_iter_get_key iter = map_option (\<lambda>i. entry_key (it_list iter ! i)) (it_curr iter)"

definition kmod_config_iter_get_value :: "(size_t \<Rightarrow> bool) \<Rightarrow> kmod_config_iter \<Rightarrow> string option option" where
  "kmod_config_iter_get_value alloc iter =
     (case it_curr iter of None \<Rightarrow> Some None | Some i \<Rightarrow> entry_value alloc (it_list iter ! i))"

definition kmod_config_iter_next :: "kmod_config_iter \<Rightarrow> bool \<times> kmod_config_iter" where
  "kmod_config_iter_next iter =
     (let i = (case it_curr iter of None \<Rightarrow> 0 | Some i \<Rightarrow> Suc i);
          curr = (if i < length (it_list iter) then Some i else None) in
      (curr \<noteq> None, iter\<lparr>it_curr := curr\<rparr>))"

text \<open>The loop \<open>while (kmod_config_iter_next(iter))\<close> of the callers, over at most \<open>fuel\<close> entries.\<close>

primrec iter_keys :: "nat \<Rightarrow> kmod_config_iter \<Rightarrow> string list" where
  "iter_keys 0 iter = []"
| "iter_keys (Suc fuel) iter =
     (case kmod_config_iter_next iter of
        (False, _) \<Rightarrow> []
      | (True, iter) \<Rightarrow> the (kmod_config_iter_get_key iter) # iter_keys fuel iter)"

lemma iter_keys_from:
  "i < length l \<Longrightarrow> length l \<le> fuel + i \<Longrightarrow>
    iter_keys fuel \<lparr>it_type = t, it_list = l, it_curr = Some i\<rparr> = map entry_key (drop (Suc i) l)"
proof (induction fuel arbitrary: i)
  case (Suc fuel)
  show ?case
  proof (cases "Suc i < length l")
    case True
    then show ?thesis
      using Suc.IH [of "Suc i"] Suc.prems
      by (simp add: kmod_config_iter_next_def kmod_config_iter_get_key_def Let_def flip: Cons_nth_drop_Suc)
  qed (use Suc.prems in \<open>simp add: kmod_config_iter_next_def Let_def\<close>)
qed simp

lemma iter_visits_entries:
  assumes "kmod_config_iter_new alloc config type = Some iter"
  shows "iter_keys (Suc (length (config_entries config type))) iter = map entry_key (config_entries config type)"
proof (cases "config_entries config type")
  case Nil
  then show ?thesis
    using assms by (auto simp: kmod_config_iter_new_def kmod_config_iter_next_def Let_def split: if_splits)
next
  case (Cons e es)
  then show ?thesis
    using assms iter_keys_from [of 0 "e # es" "Suc (length es)" type]
    by (auto simp: kmod_config_iter_new_def kmod_config_iter_next_def kmod_config_iter_get_key_def Let_def split: if_splits)
qed

text \<open>No blank separates the two lists of a soft dependency in its text.\<close>

lemma softdep_text_joined:
  "do { (_, config) \<leftarrow> kmod_config_add_softdep (\<lambda>_. True) empty_config ''m'' ''pre: a post: b'';
        softdep_to_char (\<lambda>_. True) (hd (softdeps config)) } = Some (Some ''pre: apost: b'')"
  by code_simp

end
