(* ===== verification/Kmod_Elf.thy ===== *)
theory Kmod_Elf
  imports Kmod_Util
begin

text \<open>
  \<open>libkmod/libkmod-elf.c\<close>: the reader of ELF images. The image is the byte list \<open>el_memory\<close>; a
  pointer into it is a 64-bit offset, and every read is checked, so that the value \<open>None\<close> is a read
  outside the image (or a failed assertion). \<open>symbol\<close> pointers of the results stay offsets.
\<close>

section \<open>Data\<close>

type_synonym bytes = "char list"

datatype kmod_elf_section =
    SECTION_KSYMTAB | SECTION_MODINFO | SECTION_STRTAB | SECTION_SYMTAB | SECTION_VERSIONS | SECTION_BUILD_ID

definition all_sections :: "kmod_elf_section list" where
  "all_sections = [SECTION_KSYMTAB, SECTION_MODINFO, SECTION_STRTAB, SECTION_SYMTAB, SECTION_VERSIONS, SECTION_BUILD_ID]"

fun section_name_map :: "kmod_elf_section \<Rightarrow> string" where
  "section_name_map SECTION_KSYMTAB = ''__ksymtab_strings''"
| "section_name_map SECTION_MODINFO = ''.modinfo''"
| "section_name_map SECTION_STRTAB = ''.strtab''"
| "section_name_map SECTION_SYMTAB = ''.symtab''"
| "section_name_map SECTION_VERSIONS = ''__versions''"
| "section_name_map SECTION_BUILD_ID = ''.note.gnu.build-id''"

record kmod_elf =
  el_memory :: bytes
  el_x32 :: bool
  el_msb :: bool
  el_sec_offset :: u64
  el_sec_count :: u16
  el_sec_entry_size :: u16
  el_str_section :: u16
  el_str_offset :: u64
  el_str_size :: u64
  el_machine :: u16
  el_sections :: "kmod_elf_section \<Rightarrow> u64 \<times> u64"

record kmod_modversion =
  mv_crc :: u64
  mv_bind :: char
  mv_symbol :: u64

abbreviation KMOD_SYMBOL_LOCAL :: char where "KMOD_SYMBOL_LOCAL \<equiv> CHR ''L''"
abbreviation KMOD_SYMBOL_GLOBAL :: char where "KMOD_SYMBOL_GLOBAL \<equiv> CHR ''G''"
abbreviation KMOD_SYMBOL_WEAK :: char where "KMOD_SYMBOL_WEAK \<equiv> CHR ''W''"
abbreviation KMOD_SYMBOL_UNDEF :: char where "KMOD_SYMBOL_UNDEF \<equiv> CHR ''U''"

abbreviation el_size :: "kmod_elf \<Rightarrow> u64" where
  "el_size elf \<equiv> of_nat (length (el_memory elf))"

section \<open>String functions on the image\<close>

text \<open>They read from a pointer on, at most as far as they need: \<open>None\<close> if the image ends before.\<close>

definition mem_at :: "bytes \<Rightarrow> u64 \<Rightarrow> bytes" where
  "mem_at mem off = drop (unat off) mem"

fun strncmp_at :: "bytes \<Rightarrow> string \<Rightarrow> bool option" where
  "strncmp_at m [] = Some True"
| "strncmp_at [] (c # cs) = None"
| "strncmp_at (b # m) (c # cs) = (if b = c then strncmp_at m cs else Some False)"

fun streq_at :: "bytes \<Rightarrow> string \<Rightarrow> bool option" where
  "streq_at [] s = None"
| "streq_at (b # m) [] = Some (b = NUL)"
| "streq_at (b # m) (c # cs) = (if b = c then streq_at m cs else Some False)"

fun strcmp_at :: "bytes \<Rightarrow> bytes \<Rightarrow> bool option" where
  "strcmp_at (b # m) (c # n) =
     (if b \<noteq> c then Some False else if b = NUL then Some True else strcmp_at m n)"
| "strcmp_at _ _ = None"

fun strnlen_at :: "bytes \<Rightarrow> nat \<Rightarrow> nat option" where
  "strnlen_at m 0 = Some 0"
| "strnlen_at [] (Suc n) = None"
| "strnlen_at (b # m) (Suc n) = (if b = NUL then Some 0 else map_option Suc (strnlen_at m n))"

fun strlen_at :: "bytes \<Rightarrow> nat option" where
  "strlen_at [] = None"
| "strlen_at (b # m) = (if b = NUL then Some 0 else map_option Suc (strlen_at m))"

definition byte_at :: "bytes \<Rightarrow> u64 \<Rightarrow> char option" where
  "byte_at mem off = (if unat off < length mem then Some (mem ! unat off) else None)"

section \<open>Reading and writing integers\<close>

definition elf_identify :: "bytes \<Rightarrow> (bool \<times> bool) result option" where
  "elf_identify mem =
     (let sz = length mem in
      if sz \<le> 16 \<or> take 4 mem \<noteq> CHR 0x7F # ''ELF'' then Some (Inl ENOEXEC)
      else
        do { cls \<leftarrow> byte_at mem 4;
             x32 \<leftarrow> Some (if cls = CHR 0x01 then (if sz \<le> 52 then Inl EINVAL else Inr True)
                          else if cls = CHR 0x02 then (if sz \<le> 64 then Inl EINVAL else Inr False)
                          else Inl EINVAL);
             case x32 of
               Inl e \<Rightarrow> Some (Inl e)
             | Inr x32 \<Rightarrow>
                 do { dat \<leftarrow> byte_at mem 5;
                      Some (if dat = CHR 0x01 then Inr (x32, False)
                            else if dat = CHR 0x02 then Inr (x32, True)
                            else Inl EINVAL) } })"

definition elf_range_valid :: "kmod_elf \<Rightarrow> u64 \<Rightarrow> u64 \<Rightarrow> bool" where
  "elf_range_valid elf offset sz =
     (let (min_size, ov) = uadd_overflow offset sz in \<not> (ov \<or> el_size elf < min_size))"

definition be_value :: "bytes \<Rightarrow> u64" where
  "be_value bs = foldl (\<lambda>v c. v * 256 + of_char c) 0 bs"

definition elf_get_uint :: "kmod_elf \<Rightarrow> u64 \<Rightarrow> nat \<Rightarrow> u64 option" where
  "elf_get_uint elf offset sz =
     (if 8 < sz \<or> length (el_memory elf) < unat offset + sz then None
      else
        (let p = take sz (mem_at (el_memory elf) offset) in
         Some (if el_msb elf then be_value p else be_value (rev p))))"

definition elf_get_u32 :: "kmod_elf \<Rightarrow> u64 \<Rightarrow> u32 option" where
  "elf_get_u32 elf offset = map_option ucast (elf_get_uint elf offset 4)"

text \<open>The bytes of the value, from the lowest on, as the loops of \<open>elf_set_uint\<close> produce them.\<close>

primrec le_bytes :: "nat \<Rightarrow> u64 \<Rightarrow> bytes" where
  "le_bytes 0 v = []"
| "le_bytes (Suc n) v = char_of (unat (v AND 0xff)) # le_bytes n (drop_bit 8 (v AND 0xffffffffffffff00))"

definition elf_set_uint :: "kmod_elf \<Rightarrow> u64 \<Rightarrow> nat \<Rightarrow> u64 \<Rightarrow> bytes \<Rightarrow> bytes option" where
  "elf_set_uint elf offset sz v changed =
     (if 8 < sz \<or> length changed < unat offset + sz then None
      else
        (let bs = (if el_msb elf then rev (le_bytes sz v) else le_bytes sz v) in
         Some (take (unat offset) changed @ bs @ drop (unat offset + sz) changed)))"

section \<open>Sections\<close>

definition elf_get_section_header_offset :: "kmod_elf \<Rightarrow> u16 \<Rightarrow> u64 option" where
  "elf_get_section_header_offset elf idx =
     (if idx = 0 \<or> el_sec_count elf \<le> idx then None
      else Some (el_sec_offset elf + ucast idx * ucast (el_sec_entry_size elf)))"

text \<open>
  For the section of the section names, the caller passes the fields \<open>header.strings\<close> themselves as
  the out parameters (\<open>own\<close>), so that its name is checked against the size just read. The result is
  the offset, the size and the position of the name.
\<close>

definition elf_get_section_info :: "kmod_elf \<Rightarrow> bool \<Rightarrow> u16 \<Rightarrow> (u64 \<times> u64 \<times> u64) result option" where
  "elf_get_section_info elf own idx =
     do { off \<leftarrow> elf_get_section_header_offset elf idx;
          if off = 0 \<or> \<not> elf_range_valid elf off (if el_x32 elf then 40 else 64) then Some (Inl EINVAL)
          else
            do { sz \<leftarrow> (if el_x32 elf then elf_get_uint elf (off + 20) 4 else elf_get_uint elf (off + 32) 8);
                 offset \<leftarrow> (if el_x32 elf then elf_get_uint elf (off + 16) 4 else elf_get_uint elf (off + 24) 8);
                 nameoff \<leftarrow> elf_get_uint elf (off + 0) 4;
                 let (str_offset, str_size) = (if own then (offset, sz) else (el_str_offset elf, el_str_size elf));
                 if \<not> elf_range_valid elf offset sz then Some (Inl EINVAL)
                 else if str_size \<le> nameoff then Some (Inl EINVAL)
                 else Some (Inr (offset, sz, str_offset + nameoff)) } }"

fun match_section :: "bytes \<Rightarrow> (kmod_elf_section \<Rightarrow> (u64 \<times> u64) option) \<Rightarrow> u64 \<times> u64 \<Rightarrow> kmod_elf_section list
    \<Rightarrow> (kmod_elf_section \<Rightarrow> (u64 \<times> u64) option) option" where
  "match_section n found rng [] = Some found"
| "match_section n found rng (sec # secs) =
     (if found sec \<noteq> None then match_section n found rng secs
      else
        do { eq \<leftarrow> streq_at n (section_name_map sec);
             if eq then Some (found(sec := Some rng)) else match_section n found rng secs })"

text \<open>\<open>found_sec\<close> is the set of sections on which \<open>found\<close> is defined.\<close>

definition save_section ::
    "kmod_elf \<Rightarrow> nat \<Rightarrow> (kmod_elf_section \<Rightarrow> (u64 \<times> u64) option) \<Rightarrow> (kmod_elf_section \<Rightarrow> (u64 \<times> u64) option) option" where
  "save_section elf i found =
     (if \<forall>sec \<in> set all_sections. found sec \<noteq> None then Some found
      else
        do { info \<leftarrow> elf_get_section_info elf False (of_nat i);
             case info of
               Inl e \<Rightarrow> Some found
             | Inr (off, sz, n) \<Rightarrow> match_section (mem_at (el_memory elf) n) found (off, sz) all_sections })"

definition kmod_elf_save_sections :: "kmod_elf \<Rightarrow> kmod_elf option" where
  "kmod_elf_save_sections elf =
     do { found \<leftarrow> foldM (save_section elf) [1..<unat (el_sec_count elf)] (\<lambda>_. None);
          Some (elf\<lparr>el_sections := (\<lambda>sec. case found sec of None \<Rightarrow> (0, 0) | Some r \<Rightarrow> r)\<rparr>) }"

definition load_header :: "kmod_elf \<Rightarrow> kmod_elf option" where
  "load_header elf =
     do { shoff \<leftarrow> (if el_x32 elf then elf_get_uint elf 32 4 else elf_get_uint elf 40 8);
          shnum \<leftarrow> (if el_x32 elf then elf_get_uint elf 48 2 else elf_get_uint elf 60 2);
          shentsize \<leftarrow> (if el_x32 elf then elf_get_uint elf 46 2 else elf_get_uint elf 58 2);
          shstrndx \<leftarrow> (if el_x32 elf then elf_get_uint elf 50 2 else elf_get_uint elf 62 2);
          machine \<leftarrow> elf_get_uint elf 18 2;
          Some (elf\<lparr>el_sec_offset := shoff, el_sec_count := ucast shnum, el_sec_entry_size := ucast shentsize,
                   el_str_section := ucast shstrndx, el_machine := ucast machine\<rparr>) }"

definition elf_init :: "bytes \<Rightarrow> bool \<Rightarrow> bool \<Rightarrow> kmod_elf" where
  "elf_init mem x32 msb =
     \<lparr>el_memory = mem, el_x32 = x32, el_msb = msb, el_sec_offset = 0, el_sec_count = 0, el_sec_entry_size = 0,
      el_str_section = 0, el_str_offset = 0, el_str_size = 0, el_machine = 0, el_sections = (\<lambda>_. (0, 0))\<rparr>"

text \<open>The part of \<open>kmod_elf_new\<close> after the header is loaded: the table of sections and their names.\<close>

definition elf_load_names :: "kmod_elf \<Rightarrow> kmod_elf result option" where
  "elf_load_names elf =
     do { info \<leftarrow> elf_get_section_info elf True (el_str_section elf);
          case info of
            Inl e \<Rightarrow> Some (Inl EINVAL)
          | Inr (offset, slen, name) \<Rightarrow>
              if slen = 0 then Some (Inl EINVAL)
              else
                do { c \<leftarrow> byte_at (el_memory elf) (offset + (slen - 1));
                     if c \<noteq> NUL then Some (Inl EINVAL)
                     else map_option Inr (kmod_elf_save_sections (elf\<lparr>el_str_offset := offset, el_str_size := slen\<rparr>)) } }"

definition elf_load_sections :: "kmod_elf \<Rightarrow> kmod_elf result option" where
  "elf_load_sections elf =
     (let shdr_size = (if el_x32 elf then 40 else 64 :: size_t);
          shdrs_size = shdr_size * ucast (el_sec_count elf) in
      if ucast (el_sec_entry_size elf) \<noteq> shdr_size then Some (Inl EINVAL)
      else if \<not> elf_range_valid elf (el_sec_offset elf) shdrs_size then Some (Inl EINVAL)
      else elf_load_names elf)"

definition kmod_elf_new :: "(size_t \<Rightarrow> bool) \<Rightarrow> bytes \<Rightarrow> kmod_elf result option" where
  "kmod_elf_new alloc mem =
     (if \<not> alloc 168 then Some (Inl ENOMEM)
      else
        do { ident \<leftarrow> elf_identify mem;
             case ident of
               Inl e \<Rightarrow> Some (Inl e)
             | Inr (x32, msb) \<Rightarrow>
                 (let elf = elf_init mem x32 msb in
                  if \<not> elf_range_valid elf 0 (if x32 then 52 else 64) then Some (Inl EINVAL)
                  else do { elf \<leftarrow> load_header elf; elf_load_sections elf }) })"

definition find_section :: "kmod_elf \<Rightarrow> string \<Rightarrow> nat \<Rightarrow> (u16 \<times> u64 \<times> u64) option \<Rightarrow> (u16 \<times> u64 \<times> u64) option option" where
  "find_section elf section i found =
     (case found of
        Some r \<Rightarrow> Some (Some r)
      | None \<Rightarrow>
          do { info \<leftarrow> elf_get_section_info elf False (of_nat i);
               case info of
                 Inl e \<Rightarrow> Some None
               | Inr (off, sz, n) \<Rightarrow>
                   do { eq \<leftarrow> streq_at (mem_at (el_memory elf) n) section;
                        Some (if eq then Some (of_nat i, off, sz) else None) } })"

definition kmod_elf_get_section :: "kmod_elf \<Rightarrow> string \<Rightarrow> (u16 \<times> u64 \<times> u64) result option" where
  "kmod_elf_get_section elf section =
     do { found \<leftarrow> foldM (find_section elf section) [1..<unat (el_sec_count elf)] None;
          Some (case found of None \<Rightarrow> Inl ENODATA | Some r \<Rightarrow> Inr r) }"

section \<open>Strings of the modinfo section\<close>

text \<open>\<open>while (size > 1 \<and> strings[0] = 0)\<close>: the rest of the image and the size after the padding.\<close>

fun skip_padding :: "bytes \<Rightarrow> nat \<Rightarrow> (bytes \<times> nat) option" where
  "skip_padding m sz =
     (if 1 < sz then
        (case m of [] \<Rightarrow> None | b # m' \<Rightarrow> if b = NUL then skip_padding m' (sz - 1) else Some (m, sz))
      else Some (m, sz))"

declare skip_padding.simps [simp del]

definition nth_opt :: "'a list \<Rightarrow> nat \<Rightarrow> 'a option" where
  "nth_opt m i = (if i < length m then Some (m ! i) else None)"

text \<open>The inner loop of the counting pass reads \<open>strings[i]\<close> before it compares \<open>i\<close> with the size.\<close>

function count_nuls :: "bytes \<Rightarrow> nat \<Rightarrow> nat \<Rightarrow> nat option" where
  "count_nuls m sz i =
     do { c \<leftarrow> nth_opt m i;
          if c = NUL \<and> i < sz then count_nuls m sz (Suc i) else Some i }"
  by pat_completeness auto

termination by (relation "measure (\<lambda>(m, sz, i). Suc sz - i)") auto

declare count_nuls.simps [simp del]

lemma count_nuls_mono: "count_nuls m sz i = Some j \<Longrightarrow> i \<le> j"
proof (induction m sz i rule: count_nuls.induct)
  case (1 m sz i)
  then show ?case by (subst (asm) (2) count_nuls.simps) (fastforce simp: bind_eq_Some_conv split: if_splits)
qed

lemma count_nuls_less: "count_nuls m sz i = Some j \<Longrightarrow> i < sz \<Longrightarrow> nth_opt m i = Some NUL \<Longrightarrow> i < j"
  by (subst (asm) count_nuls.simps) (auto dest: count_nuls_mono)

function count_strings :: "bytes \<Rightarrow> nat \<Rightarrow> nat \<Rightarrow> nat \<Rightarrow> (nat \<times> nat) option" where
  "count_strings m sz i count =
     (if i < sz then
        do { c \<leftarrow> nth_opt m i;
             if c \<noteq> NUL then count_strings m sz (Suc i) count
             else do { j \<leftarrow> count_nuls m sz i; count_strings m sz j (Suc count) } }
      else Some (i, count))"
  by pat_completeness auto

termination by (relation "measure (\<lambda>(m, sz, i, count). sz - i)") (auto dest: count_nuls_less)

declare count_strings.simps [simp del]

function skip_nuls :: "bytes \<Rightarrow> nat \<Rightarrow> nat \<Rightarrow> nat option" where
  "skip_nuls s sz i =
     (if i < sz then do { c \<leftarrow> nth_opt s i; if c = NUL then skip_nuls s sz (Suc i) else Some i }
      else Some i)"
  by pat_completeness auto

termination by (relation "measure (\<lambda>(s, sz, i). sz - i)") auto

declare skip_nuls.simps [simp del]

lemma skip_nuls_mono: "skip_nuls m sz i = Some j \<Longrightarrow> i \<le> j"
proof (induction m sz i rule: skip_nuls.induct)
  case (1 m sz i)
  then show ?case by (subst (asm) (2) skip_nuls.simps) (fastforce simp: bind_eq_Some_conv split: if_splits)
qed

lemma skip_nuls_less: "skip_nuls m sz i = Some j \<Longrightarrow> i < sz \<Longrightarrow> nth_opt m i = Some NUL \<Longrightarrow> i < j"
  by (subst (asm) skip_nuls.simps) (auto dest: skip_nuls_mono)

function fill_strings :: "bytes \<Rightarrow> nat \<Rightarrow> nat \<Rightarrow> nat \<Rightarrow> nat \<Rightarrow> nat slots \<Rightarrow> nat slots option" where
  "fill_strings s sz count i j a =
     (if j < count \<and> i < sz then
        do { c \<leftarrow> nth_opt s i;
             if c \<noteq> NUL then fill_strings s sz count (Suc i) j a
             else
               do { i' \<leftarrow> skip_nuls s sz i;
                    a \<leftarrow> store j i' a;
                    fill_strings s sz count i' (Suc j) a } }
      else Some a)"
  by pat_completeness auto

termination by (relation "measure (\<lambda>(s, sz, count, i, j, a). sz - i)") (auto dest: skip_nuls_less)

declare fill_strings.simps [simp del]

text \<open>
  The result is the number of strings, their positions in the copy and the copy, which ends with a
  NUL of its own.
\<close>

definition modinfo_vector ::
    "(size_t \<Rightarrow> bool) \<Rightarrow> bytes \<Rightarrow> nat \<Rightarrow> (nat \<times> nat slots \<times> bytes) result option" where
  "modinfo_vector alloc strings sz =
     do { (i, count) \<leftarrow> count_strings strings sz 0 0;
          c \<leftarrow> nth_opt strings (i - 1);
          let count = (if c \<noteq> NUL then Suc count else count);
          let (tmp, ov1) = uadd_overflow (of_nat count :: size_t) 1;
          let (vec, ov2) = umul_overflow 8 tmp;
          let (tmp, ov3) = uadd_overflow (of_nat sz) vec;
          let (all, ov4) = uadd_overflow 1 tmp;
          if ov1 \<or> ov2 \<or> ov3 \<or> ov4 \<or> \<not> alloc all then Some (Inl ENOMEM)
          else if length strings < sz then None
          else
            (let s = take sz strings @ [NUL] in
             do { a \<leftarrow> store 0 0 (replicate count None @ [None]);
                  a \<leftarrow> fill_strings s sz count 0 1 a;
                  Some (Inr (count, take count a, s)) }) }"

definition kmod_elf_get_modinfo_strings ::
    "(size_t \<Rightarrow> bool) \<Rightarrow> kmod_elf \<Rightarrow> (nat \<times> nat slots \<times> bytes) result option" where
  "kmod_elf_get_modinfo_strings alloc elf =
     (let (off, sz) = el_sections elf SECTION_MODINFO in
      if off = 0 then Some (Inl ENODATA)
      else
        do { (strings, sz) \<leftarrow> skip_padding (mem_at (el_memory elf) off) (unat sz);
             if sz \<le> 1 then Some (Inr (0, [], [])) else modinfo_vector alloc strings sz })"

section \<open>Symbol versions\<close>

text \<open>Both layouts of \<open>struct kmod_modversion\<close> have 64 bytes: a CRC of 4 or 8 bytes and the name.\<close>

abbreviation verlen :: nat where "verlen \<equiv> 64"

definition crclen :: "kmod_elf \<Rightarrow> nat" where
  "crclen elf = (if el_x32 elf then 4 else 8)"

definition namlen :: "kmod_elf \<Rightarrow> nat" where
  "namlen elf = 64 - crclen elf"

definition modversion_step ::
    "kmod_elf \<Rightarrow> u64 \<Rightarrow> nat \<Rightarrow> kmod_modversion list result \<Rightarrow> kmod_modversion list result option" where
  "modversion_step elf sec_off i st =
     (case st of
        Inl e \<Rightarrow> Some (Inl e)
      | Inr a \<Rightarrow>
          (let off = sec_off + of_nat i * of_nat verlen in
           do { crc \<leftarrow> elf_get_uint elf off (crclen elf);
                let symbol = off + of_nat (crclen elf);
                nlen \<leftarrow> strnlen_at (mem_at (el_memory elf) symbol) (namlen elf);
                if nlen = namlen elf then Some (Inl EINVAL)
                else
                  do { c \<leftarrow> byte_at (el_memory elf) symbol;
                       let symbol = (if c = CHR ''.'' then symbol + 1 else symbol);
                       Some (Inr (a @ [\<lparr>mv_crc = crc, mv_bind = KMOD_SYMBOL_UNDEF, mv_symbol = symbol\<rparr>])) } }))"

definition kmod_elf_get_modversions :: "(size_t \<Rightarrow> bool) \<Rightarrow> kmod_elf \<Rightarrow> kmod_modversion list result option" where
  "kmod_elf_get_modversions alloc elf =
     (let (sec_off, sz) = el_sections elf SECTION_VERSIONS in
      if sec_off = 0 then Some (Inl ENODATA)
      else if sz = 0 then Some (Inr [])
      else if sz mod of_nat verlen \<noteq> 0 then Some (Inl EINVAL)
      else
        (let count = sz div of_nat verlen in
         if 2147483647 < count then Some (Inl EINVAL)
         else if \<not> alloc (24 * count) then Some (Inl ENOMEM)
         else foldM (modversion_step elf sec_off) [0..<unat count] (Inr [])))"

section \<open>Stripping version information\<close>

definition elf_strip_versions_section :: "kmod_elf \<Rightarrow> bytes \<Rightarrow> bytes result option" where
  "elf_strip_versions_section elf changed =
     do { r \<leftarrow> kmod_elf_get_section elf ''__versions'';
          case r of
            Inl e \<Rightarrow> Some (if e = ENODATA then Inr changed else Inl e)
          | Inr (idx, _, _) \<Rightarrow>
              do { off \<leftarrow> elf_get_section_header_offset elf idx;
                   let off = off + 8;
                   let sz = (if el_x32 elf then 4 else 8);
                   v \<leftarrow> elf_get_uint elf off sz;
                   map_option Inr (elf_set_uint elf off sz (v AND NOT 2) changed) } }"

text \<open>\<open>strings\<close> is the image from \<open>base\<close> on.\<close>

function vermagic_loop :: "bytes \<Rightarrow> nat \<Rightarrow> nat \<Rightarrow> nat \<Rightarrow> bytes \<Rightarrow> bytes result option" where
  "vermagic_loop strings base sz i changed =
     (if i < sz then
        do { c \<leftarrow> nth_opt strings i;
             if c = NUL \<or> sz \<le> i + 1 \<or> sz \<le> i + 9 then vermagic_loop strings base sz (Suc i) changed
             else
               do { eq \<leftarrow> strncmp_at (drop i strings) ''vermagic='';
                    len \<leftarrow> strlen_at (drop i strings);
                    if \<not> eq then vermagic_loop strings base sz (Suc (i + len)) changed
                    else if length changed < base + i + len then None
                    else Some (Inr (take (base + i) changed @ replicate len NUL @ drop (base + i + len) changed)) } }
      else Some (Inl ENODATA))"
  by pat_completeness auto

termination by (relation "measure (\<lambda>(strings, base, sz, i, changed). sz - i)") auto

declare vermagic_loop.simps [simp del]

definition elf_strip_vermagic :: "kmod_elf \<Rightarrow> bytes \<Rightarrow> bytes result option" where
  "elf_strip_vermagic elf changed =
     (let (sec_off, sz) = el_sections elf SECTION_MODINFO in
      if sec_off = 0 then Some (Inr changed)
      else
        do { (strings, sz) \<leftarrow> skip_padding (mem_at (el_memory elf) sec_off) (unat sz);
             if sz \<le> 1 then Some (Inr changed)
             else vermagic_loop strings (length (el_memory elf) - length strings) sz 0 changed })"

abbreviation KMOD_INSERT_FORCE_VERMAGIC :: u32 where "KMOD_INSERT_FORCE_VERMAGIC \<equiv> 1"
abbreviation KMOD_INSERT_FORCE_MODVERSION :: u32 where "KMOD_INSERT_FORCE_MODVERSION \<equiv> 2"

definition kmod_elf_strip :: "(size_t \<Rightarrow> bool) \<Rightarrow> kmod_elf \<Rightarrow> u32 \<Rightarrow> bytes result option" where
  "kmod_elf_strip alloc elf flags =
     (if flags AND (KMOD_INSERT_FORCE_MODVERSION OR KMOD_INSERT_FORCE_VERMAGIC) = 0 then None
      else if \<not> alloc (el_size elf) then Some (Inl ENOMEM)
      else
        do { r \<leftarrow> (if flags AND KMOD_INSERT_FORCE_MODVERSION \<noteq> 0
                   then elf_strip_versions_section elf (el_memory elf) else Some (Inr (el_memory elf)));
             case r of
               Inl e \<Rightarrow> Some (Inl e)
             | Inr changed \<Rightarrow>
                 if flags AND KMOD_INSERT_FORCE_VERMAGIC \<noteq> 0
                 then elf_strip_vermagic elf changed else Some (Inr changed) })"

section \<open>Exported symbols\<close>

text \<open>
  One pass over \<open>__ksymtab_strings\<close>: the state is \<open>last\<close> and the symbols found; the counting pass
  and the filling pass of the code visit the same bytes.
\<close>

definition ksymtab_step :: "bytes \<Rightarrow> nat \<Rightarrow> ('a \<Rightarrow> nat \<Rightarrow> 'a option) \<Rightarrow> nat \<Rightarrow> nat \<times> 'a \<Rightarrow> (nat \<times> 'a) option" where
  "ksymtab_step strings base emit i st =
     (case st of
        (start, acc) \<Rightarrow>
          do { c \<leftarrow> nth_opt strings i;
               if c \<noteq> NUL then Some (start, acc)
               else if start = i then Some (Suc i, acc)
               else do { acc \<leftarrow> emit acc (base + start); Some (Suc i, acc) } })"

definition put_symbol ::
    "(nat \<Rightarrow> kmod_modversion) \<Rightarrow> kmod_modversion slots \<times> nat \<Rightarrow> nat \<Rightarrow> (kmod_modversion slots \<times> nat) option" where
  "put_symbol mk st p = (case st of (a, count) \<Rightarrow> do { a \<leftarrow> store count (mk p) a; Some (a, Suc count) })"

definition kmod_elf_get_symbols_symtab :: "(size_t \<Rightarrow> bool) \<Rightarrow> kmod_elf \<Rightarrow> kmod_modversion slots result option" where
  "kmod_elf_get_symbols_symtab alloc elf =
     (let (off, sz) = el_sections elf SECTION_KSYMTAB in
      if off = 0 then Some (Inl ENODATA)
      else
        do { (strings, sz) \<leftarrow> skip_padding (mem_at (el_memory elf) off) (unat sz);
             if sz \<le> 1 then Some (Inr [])
             else
               do { c \<leftarrow> nth_opt strings (sz - 1);
                    if c \<noteq> NUL then Some (Inl EINVAL)
                    else
                      (let base = length (el_memory elf) - length strings in
                       do { (_, count) \<leftarrow> foldM (ksymtab_step strings base (\<lambda>n _. Some (Suc n))) [0..<sz] (0, 0);
                            let (bytes, ov) = umul_overflow (24 :: size_t) (of_nat count);
                            if 2147483647 < count then Some (Inl EINVAL)
                            else if ov \<or> \<not> alloc bytes then Some (Inl ENOMEM)
                            else
                              do { (_, a, n) \<leftarrow> foldM (ksymtab_step strings base (put_symbol (\<lambda>p.
                                     \<lparr>mv_crc = 0, mv_bind = KMOD_SYMBOL_GLOBAL, mv_symbol = of_nat p\<rparr>)))
                                     [0..<sz] (0, replicate count None, 0);
                                   Some (Inr (take n a)) } }) } })"

definition kmod_symbol_bind_from_elf :: "u8 \<Rightarrow> char" where
  "kmod_symbol_bind_from_elf v =
     (if v = 0 then KMOD_SYMBOL_LOCAL else if v = 1 then KMOD_SYMBOL_GLOBAL
      else if v = 2 then KMOD_SYMBOL_WEAK else NUL)"

definition kmod_elf_resolve_crc :: "kmod_elf \<Rightarrow> u64 \<Rightarrow> u16 \<Rightarrow> u64 option" where
  "kmod_elf_resolve_crc elf crc shndx =
     (if shndx = 0xfff1 \<or> shndx = 0 then Some crc
      else
        do { info \<leftarrow> elf_get_section_info elf False shndx;
             case info of
               Inl e \<Rightarrow> Some (- 1)
             | Inr (off, sz, name) \<Rightarrow>
                 if sz < 4 \<or> sz - 4 < crc then Some (- 1)
                 else map_option ucast (elf_get_u32 elf (off + crc)) })"

text \<open>A field of a symbol table entry: its offset and width in \<open>Elf32_Sym\<close> and in \<open>Elf64_Sym\<close>.\<close>

definition symlen :: "kmod_elf \<Rightarrow> nat" where
  "symlen elf = (if el_x32 elf then 16 else 24)"

definition sym_field :: "kmod_elf \<Rightarrow> u64 \<Rightarrow> u64 \<times> nat \<Rightarrow> u64 \<times> nat \<Rightarrow> u64 option" where
  "sym_field elf sym_off f32 f64 =
     (if el_x32 elf then elf_get_uint elf (sym_off + fst f32) (snd f32)
      else elf_get_uint elf (sym_off + fst f64) (snd f64))"

definition st_name :: "kmod_elf \<Rightarrow> u64 \<Rightarrow> u32 option" where
  "st_name elf sym_off = map_option ucast (sym_field elf sym_off (0, 4) (0, 4))"

definition st_value :: "kmod_elf \<Rightarrow> u64 \<Rightarrow> u64 option" where
  "st_value elf sym_off = sym_field elf sym_off (4, 4) (8, 8)"

definition st_info :: "kmod_elf \<Rightarrow> u64 \<Rightarrow> u8 option" where
  "st_info elf sym_off = map_option ucast (sym_field elf sym_off (12, 1) (4, 1))"

definition st_shndx :: "kmod_elf \<Rightarrow> u64 \<Rightarrow> u16 option" where
  "st_shndx elf sym_off = map_option ucast (sym_field elf sym_off (14, 2) (6, 2))"

text \<open>The position of entry \<open>i\<close>, which the loops reach by adding \<open>symlen\<close> to \<open>sym_off\<close>.\<close>

definition sym_at :: "kmod_elf \<Rightarrow> u64 \<Rightarrow> nat \<Rightarrow> u64" where
  "sym_at elf sym_sec_off i = sym_sec_off + of_nat (i * symlen elf)"

text \<open>The counting pass; \<open>None\<close> in its state is the jump to \<open>fallback\<close>.\<close>

definition count_crc :: "kmod_elf \<Rightarrow> u64 \<Rightarrow> u64 \<Rightarrow> u64 \<Rightarrow> nat \<Rightarrow> nat option \<Rightarrow> nat option option" where
  "count_crc elf str_off strtablen sym_sec_off i st =
     (case st of
        None \<Rightarrow> Some None
      | Some count \<Rightarrow>
          do { name_off \<leftarrow> st_name elf (sym_at elf sym_sec_off i);
               if strtablen \<le> ucast name_off then Some None
               else
                 do { eq \<leftarrow> strncmp_at (mem_at (el_memory elf) (str_off + ucast name_off)) ''__crc_'';
                      Some (Some (if eq then Suc count else count)) } })"

definition fill_crc ::
    "kmod_elf \<Rightarrow> u64 \<Rightarrow> u64 \<Rightarrow> nat \<Rightarrow> kmod_modversion slots \<times> nat \<Rightarrow> (kmod_modversion slots \<times> nat) option" where
  "fill_crc elf str_off sym_sec_off i st =
     (let sym_off = sym_at elf sym_sec_off i in
      do { name_off \<leftarrow> st_name elf sym_off;
           crc \<leftarrow> st_value elf sym_off;
           info \<leftarrow> st_info elf sym_off;
           shndx \<leftarrow> st_shndx elf sym_off;
           let name = str_off + ucast name_off;
           eq \<leftarrow> strncmp_at (mem_at (el_memory elf) name) ''__crc_'';
           if \<not> eq then Some st
           else
             (case st of
                (a, count) \<Rightarrow>
                  do { crc \<leftarrow> kmod_elf_resolve_crc elf crc shndx;
                       a \<leftarrow> store count \<lparr>mv_crc = crc, mv_bind = kmod_symbol_bind_from_elf (drop_bit 4 info),
                                    mv_symbol = name + 6\<rparr> a;
                       Some (a, Suc count) }) })"

definition kmod_elf_get_symbols :: "(size_t \<Rightarrow> bool) \<Rightarrow> kmod_elf \<Rightarrow> kmod_modversion slots result option" where
  "kmod_elf_get_symbols alloc elf =
     (let (str_sec_off, strtablen) = el_sections elf SECTION_STRTAB;
          (sym_sec_off, symtablen) = el_sections elf SECTION_SYMTAB;
          fallback = kmod_elf_get_symbols_symtab alloc elf in
      if str_sec_off = 0 \<or> sym_sec_off = 0 then fallback
      else if unat symtablen mod symlen elf \<noteq> 0 then fallback
      else
        (let symcount = unat symtablen div symlen elf in
         do { r \<leftarrow> foldM (count_crc elf str_sec_off strtablen sym_sec_off) [1..<symcount] (Some 0);
              case r of
                None \<Rightarrow> fallback
              | Some count \<Rightarrow>
                  if count = 0 then fallback
                  else if \<not> alloc (24 * of_nat count) then Some (Inl ENOMEM)
                  else
                    do { (a, n) \<leftarrow> foldM (fill_crc elf str_sec_off sym_sec_off) [1..<symcount] (replicate count None, 0);
                         Some (Inr (take n a)) } }))"

section \<open>Symbols a module depends on\<close>

primrec crc_find_from :: "kmod_elf \<Rightarrow> u64 \<Rightarrow> bytes \<Rightarrow> nat \<Rightarrow> nat \<Rightarrow> (nat option \<times> u64) option" where
  "crc_find_from elf off name 0 k = Some (None, 0)"
| "crc_find_from elf off name (Suc n) k =
     (let i = of_nat (k * verlen);
          symbol = mem_at (el_memory elf) (off + i + of_nat (crclen elf)) in
      do { nlen \<leftarrow> strnlen_at symbol (namlen elf);
           eq \<leftarrow> (if nlen = namlen elf then Some False else strcmp_at name symbol);
           if eq then do { crc \<leftarrow> elf_get_uint elf (off + i) (crclen elf); Some (Some k, crc) }
           else crc_find_from elf off name n (Suc k) })"

definition kmod_elf_crc_find :: "kmod_elf \<Rightarrow> u64 \<Rightarrow> u64 \<Rightarrow> bytes \<Rightarrow> (nat option \<times> u64) option" where
  "kmod_elf_crc_find elf off versionslen name =
     crc_find_from elf off name ((unat versionslen + verlen - 1) div verlen) 0"

record dep_scan =
  ds_visited :: "bool list option"
  ds_symcrcs :: "u64 list"
  ds_count :: nat

text \<open>
  \<open>skip_symbol\<close>: entries that are defined in the module, and the register symbols of SPARC.
\<close>

definition skip_symbol :: "kmod_elf \<Rightarrow> u16 \<Rightarrow> u8 \<Rightarrow> bool" where
  "skip_symbol elf secidx info \<longleftrightarrow>
     secidx \<noteq> 0 \<or> (el_machine elf = 2 \<or> el_machine elf = 43) \<and> info AND 0xf = 13"

definition scan_symbol ::
    "kmod_elf \<Rightarrow> u64 \<Rightarrow> u64 \<Rightarrow> u64 \<Rightarrow> u64 \<Rightarrow> u64 \<Rightarrow> nat \<Rightarrow> dep_scan result \<Rightarrow> dep_scan result option" where
  "scan_symbol elf ver_off versionslen str_off strtablen sym_sec_off i st =
     (case st of
        Inl e \<Rightarrow> Some (Inl e)
      | Inr ds \<Rightarrow>
          (let sym_off = sym_at elf sym_sec_off i in
           do { name_off \<leftarrow> st_name elf sym_off;
                secidx \<leftarrow> st_shndx elf sym_off;
                info \<leftarrow> st_info elf sym_off;
                if skip_symbol elf secidx info then Some (Inr ds)
                else if strtablen \<le> ucast name_off then Some (Inl EINVAL)
                else
                  (let name = str_off + ucast name_off in
                   do { c \<leftarrow> byte_at (el_memory elf) name;
                        if c = NUL then Some (Inr ds)
                        else
                          do { (idx, crc) \<leftarrow> kmod_elf_crc_find elf ver_off versionslen (mem_at (el_memory elf) name);
                               visited \<leftarrow> (case (idx, ds_visited ds) of
                                   (Some k, Some v) \<Rightarrow> if k < length v then Some (Some (v[k := True])) else None
                                 | _ \<Rightarrow> Some (ds_visited ds));
                               if length (ds_symcrcs ds) \<le> i then None
                               else Some (Inr (ds\<lparr>ds_visited := visited, ds_symcrcs := (ds_symcrcs ds)[i := crc],
                                                ds_count := Suc (ds_count ds)\<rparr>)) } }) }))"

definition count_unvisited :: "kmod_elf \<Rightarrow> u64 \<Rightarrow> bool list \<Rightarrow> nat \<Rightarrow> nat result \<Rightarrow> nat result option" where
  "count_unvisited elf ver_off visited i st =
     (case st of
        Inl e \<Rightarrow> Some (Inl e)
      | Inr count \<Rightarrow>
          do { v \<leftarrow> nth_opt visited i;
               if v then Some (Inr count)
               else
                 do { nlen \<leftarrow> strnlen_at (mem_at (el_memory elf) (ver_off + of_nat (i * verlen) + of_nat (crclen elf))) (namlen elf);
                      Some (if nlen = namlen elf then Inl EINVAL else Inr (Suc count)) } })"

definition fill_symbol ::
    "kmod_elf \<Rightarrow> u64 \<Rightarrow> u64 \<Rightarrow> u64 list \<Rightarrow> nat \<Rightarrow> kmod_modversion slots \<times> nat \<Rightarrow> (kmod_modversion slots \<times> nat) option" where
  "fill_symbol elf str_off sym_sec_off symcrcs i st =
     (let sym_off = sym_at elf sym_sec_off i in
      do { name_off \<leftarrow> st_name elf sym_off;
           secidx \<leftarrow> st_shndx elf sym_off;
           info \<leftarrow> st_info elf sym_off;
           if skip_symbol elf secidx info then Some st
           else
             (let name = str_off + ucast name_off in
              do { c \<leftarrow> byte_at (el_memory elf) name;
                   if c = NUL then Some st
                   else
                     (case st of
                        (a, count) \<Rightarrow>
                          do { crc \<leftarrow> nth_opt symcrcs i;
                               a \<leftarrow> store count \<lparr>mv_crc = crc,
                                      mv_bind = (if drop_bit 4 info = 2 then KMOD_SYMBOL_WEAK else KMOD_SYMBOL_UNDEF),
                                      mv_symbol = name\<rparr> a;
                               Some (a, Suc count) }) }) })"

definition fill_unvisited ::
    "kmod_elf \<Rightarrow> u64 \<Rightarrow> bool list \<Rightarrow> nat \<Rightarrow> kmod_modversion slots \<times> nat \<Rightarrow> (kmod_modversion slots \<times> nat) option" where
  "fill_unvisited elf ver_off visited i st =
     (case st of
        (a, count) \<Rightarrow>
          do { v \<leftarrow> nth_opt visited i;
               if v then Some (a, count)
               else
                 (let off = ver_off + of_nat (i * verlen) in
                  do { crc \<leftarrow> elf_get_uint elf off (crclen elf);
                       a \<leftarrow> store count \<lparr>mv_crc = crc, mv_bind = KMOD_SYMBOL_UNDEF,
                                    mv_symbol = off + of_nat (crclen elf)\<rparr> a;
                       Some (a, Suc count) }) })"

text \<open>The version section is ignored if its size is not a multiple of the entries'.\<close>

definition versions_section :: "kmod_elf \<Rightarrow> u64 \<times> u64" where
  "versions_section elf =
     (let (ver_off, versionslen) = el_sections elf SECTION_VERSIONS in
      if ver_off = 0 \<or> unat versionslen mod verlen \<noteq> 0 then (0, 0) else (ver_off, versionslen))"

definition dep_counts ::
    "kmod_elf \<Rightarrow> u64 \<Rightarrow> u64 \<Rightarrow> u64 \<Rightarrow> u64 \<Rightarrow> u64 \<Rightarrow> nat \<Rightarrow> dep_scan result option" where
  "dep_counts elf ver_off versionslen str_off strtablen sym_sec_off symcount =
     (let vercount = unat versionslen div verlen in
      do { r \<leftarrow> foldM (scan_symbol elf ver_off versionslen str_off strtablen sym_sec_off) [1..<symcount]
             (Inr \<lparr>ds_visited = (if versionslen = 0 then None else Some (replicate vercount False)),
                ds_symcrcs = replicate symcount 0, ds_count = 0\<rparr>);
           case r of
             Inl e \<Rightarrow> Some (Inl e)
           | Inr ds \<Rightarrow>
               (case ds_visited ds of
                  None \<Rightarrow> Some (Inr ds)
                | Some visited \<Rightarrow>
                    do { r \<leftarrow> foldM (count_unvisited elf ver_off visited) [0..<vercount] (Inr (ds_count ds));
                         Some (map_sum id (\<lambda>count. ds\<lparr>ds_count := count\<rparr>) r) }) })"

definition kmod_elf_get_dependency_symbols ::
    "(size_t \<Rightarrow> bool) \<Rightarrow> kmod_elf \<Rightarrow> kmod_modversion slots result option" where
  "kmod_elf_get_dependency_symbols alloc elf =
     (let (ver_off, versionslen) = versions_section elf;
          (str_sec_off, strtablen) = el_sections elf SECTION_STRTAB;
          (sym_sec_off, symtablen) = el_sections elf SECTION_SYMTAB in
      if str_sec_off = 0 \<or> sym_sec_off = 0 \<or> unat symtablen mod symlen elf \<noteq> 0 then Some (Inl EINVAL)
      else if versionslen \<noteq> 0 \<and> \<not> alloc (versionslen div of_nat verlen) then Some (Inl ENOMEM)
      else
        (let symcount = unat symtablen div symlen elf in
         if \<not> alloc (of_nat symcount * 8) then Some (Inl ENOMEM)
         else
           do { r \<leftarrow> dep_counts elf ver_off versionslen str_sec_off strtablen sym_sec_off symcount;
                case r of
                  Inl e \<Rightarrow> Some (Inl e)
                | Inr ds \<Rightarrow>
                    if 2147483647 < ds_count ds then Some (Inl EINVAL)
                    else if ds_count ds = 0 then Some (Inr [])
                    else if \<not> alloc (24 * of_nat (ds_count ds)) then Some (Inl ENOMEM)
                    else
                      do { (a, n) \<leftarrow> foldM (fill_symbol elf str_sec_off sym_sec_off (ds_symcrcs ds)) [1..<symcount]
                             (replicate (ds_count ds) None, 0);
                           (a, n) \<leftarrow> (case ds_visited ds of
                               None \<Rightarrow> Some (a, n)
                             | Some visited \<Rightarrow>
                                 foldM (fill_unvisited elf ver_off visited) [0..<unat versionslen div verlen] (a, n));
                           Some (Inr (take n a)) } }))"

definition kmod_elf_get_build_id :: "kmod_elf \<Rightarrow> (u64 \<times> u32) result option" where
  "kmod_elf_get_build_id elf =
     (let (off, sz) = el_sections elf SECTION_BUILD_ID in
      if off = 0 \<or> sz = 0 then Some (Inl ENODATA)
      else if sz < 12 then Some (Inl EINVAL)
      else
        do { namesz \<leftarrow> elf_get_u32 elf off;
             descsz \<leftarrow> elf_get_u32 elf (off + 4);
             typ \<leftarrow> elf_get_u32 elf (off + 8);
             let off = off + 12;
             if sz < 12 + ucast namesz + ucast descsz then Some (Inl EINVAL)
             else
               do { ok \<leftarrow> (if typ \<noteq> 3 then Some False else streq_at (mem_at (el_memory elf) off) ''GNU'');
                    Some (if \<not> ok then Inl EINVAL else Inr (off + ucast namesz, descsz)) } })"

section \<open>Comparisons within the image\<close>

lemma strncmp_at_long: "length s \<le> length m \<Longrightarrow> strncmp_at m s = Some (take (length s) m = s)"
  by (induction m s rule: strncmp_at.induct) auto

end
