(* ===== verification/Kmod_Elf_Safe.thy ===== *)
theory Kmod_Elf_Safe
  imports Kmod_Elf
begin

text \<open>
  What the ELF reader guarantees. \<open>elf_inv\<close> is what \<open>kmod_elf_new\<close> establishes for every image it
  accepts, whatever its bytes are: the section headers, the section names and the six sections the
  library uses lie inside the image, and the section names are terminated. The accessors are then
  shown to read inside the image and to return what the image holds.
\<close>

section \<open>Checked reads\<close>

lemma elf_range_valid_iff:
  assumes "length (el_memory elf) < 2 ^ 64"
  shows "elf_range_valid elf offset sz \<longleftrightarrow> unat offset + unat sz \<le> length (el_memory elf)"
proof -
  have len: "unat (el_size elf) = length (el_memory elf)" using assms by (simp add: unat_of_nat take_bit_nat_eq_self)
  show ?thesis
    using uadd_overflow_iff [of offset sz] uadd_overflow_value [of offset sz] assms
    by (auto simp: elf_range_valid_def word_less_nat_alt len split: prod.splits)
qed

lemma elf_get_uint_safe: "sz \<le> 8 \<Longrightarrow> unat off + sz \<le> length (el_memory elf) \<Longrightarrow> \<exists>v. elf_get_uint elf off sz = Some v"
  by (simp add: elf_get_uint_def Let_def)

lemma unat_off_add:
  assumes "unat off + unat k < 2 ^ 64"
  shows "unat (off + k :: u64) = unat off + unat k"
  using assms by (simp add: unat_word_ariths)

lemma unat_ucast_16_64: "unat (ucast (w :: u16) :: u64) = unat w"
proof -
  have "unat w < 2 ^ 64" using unsigned_less [of w, where 'a = nat] by simp
  then show ?thesis by (simp add: unsigned_ucast_eq take_bit_nat_eq_self)
qed

lemma streq_at_terminated:
  "NUL \<in> set m \<Longrightarrow> nul_free s \<Longrightarrow> streq_at m s = Some (takeWhile (\<lambda>c. c \<noteq> NUL) m = s)"
  by (induction m s rule: streq_at.induct) auto

lemma strnlen_at_terminated:
  "n \<le> length m \<Longrightarrow> strnlen_at m n = Some (length (takeWhile (\<lambda>c. c \<noteq> NUL) (take n m)))"
  by (induction m n rule: strnlen_at.induct) auto

section \<open>The invariant\<close>

definition shdr_size :: "kmod_elf \<Rightarrow> nat" where
  "shdr_size elf = (if el_x32 elf then 40 else 64)"

definition in_image :: "kmod_elf \<Rightarrow> u64 \<times> u64 \<Rightarrow> bool" where
  "in_image elf r \<longleftrightarrow> unat (fst r) + unat (snd r) \<le> length (el_memory elf)"

definition headers_inv :: "kmod_elf \<Rightarrow> bool" where
  "headers_inv elf \<longleftrightarrow> length (el_memory elf) < 2 ^ 63 \<and> unat (el_sec_entry_size elf) = shdr_size elf
     \<and> unat (el_sec_offset elf) + unat (el_sec_count elf) * shdr_size elf \<le> length (el_memory elf)"

definition names_inv :: "kmod_elf \<Rightarrow> bool" where
  "names_inv elf \<longleftrightarrow> in_image elf (el_str_offset elf, el_str_size elf) \<and> 0 < el_str_size elf
     \<and> el_memory elf ! (unat (el_str_offset elf) + unat (el_str_size elf) - 1) = NUL"

definition elf_inv :: "kmod_elf \<Rightarrow> bool" where
  "elf_inv elf \<longleftrightarrow> headers_inv elf \<and> names_inv elf \<and> (\<forall>sec. in_image elf (el_sections elf sec))"

lemma header_offset:
  assumes "headers_inv elf" and "0 < idx" and "idx < el_sec_count elf"
  shows "\<exists>off. elf_get_section_header_offset elf idx = Some off \<and> unat off + shdr_size elf \<le> length (el_memory elf)
    \<and> unat off = unat (el_sec_offset elf) + unat idx * shdr_size elf"
proof -
  have es: "ucast (el_sec_entry_size elf) = (of_nat (shdr_size elf) :: u64)"
    using assms(1) by (auto simp: headers_inv_def shdr_size_def unsigned_ucast_eq word_unat_eq_iff take_bit_nat_eq_self split: if_splits)
  have "unat idx < unat (el_sec_count elf)" using assms(3) by (simp add: word_less_nat_alt)
  then have "Suc (unat idx) * shdr_size elf \<le> unat (el_sec_count elf) * shdr_size elf" by (intro mult_le_mono1) simp
  then have room: "unat (el_sec_offset elf) + unat idx * shdr_size elf + shdr_size elf \<le> length (el_memory elf)"
    using assms(1) by (simp add: headers_inv_def)
  have i: "unat (ucast idx :: u64) = unat idx" by (rule unat_ucast_16_64)
  have s: "unat (of_nat (shdr_size elf) :: u64) = shdr_size elf" by (simp add: shdr_size_def)
  have l63: "length (el_memory elf) < 2 ^ 63" using assms(1) by (simp add: headers_inv_def)
  have m: "unat (ucast idx * of_nat (shdr_size elf) :: u64) = unat idx * shdr_size elf"
    using room l63 by (simp add: unat_word_ariths i s)
  have "unat (el_sec_offset elf + ucast idx * of_nat (shdr_size elf)) = unat (el_sec_offset elf) + unat idx * shdr_size elf"
    by (subst unat_off_add) (use room l63 in \<open>simp_all add: m\<close>)
  then show ?thesis using assms(2,3) room by (simp add: elf_get_section_header_offset_def es word_gt_0 not_le)
qed

lemma section_info_safe:
  assumes h: "headers_inv elf" and idx: "0 < idx" "idx < el_sec_count elf" and n: "own \<or> names_inv elf"
  shows "\<exists>r. elf_get_section_info elf own idx = Some r
    \<and> (\<forall>off sz n. r = Inr (off, sz, n) \<longrightarrow> in_image elf (off, sz)
        \<and> (\<not> own \<longrightarrow> unat n < unat (el_str_offset elf) + unat (el_str_size elf) \<and> unat (el_str_offset elf) \<le> unat n))
    \<and> (\<forall>e. r = Inl e \<longrightarrow> e = EINVAL)"
proof -
  obtain off where off: "elf_get_section_header_offset elf idx = Some off" "unat off + shdr_size elf \<le> length (el_memory elf)"
    using header_offset [OF h idx] by auto
  have l63: "length (el_memory elf) < 2 ^ 63" using h by (simp add: headers_inv_def)
  have field: "\<exists>v. elf_get_uint elf (off + k) s = Some v" if "unat k + s \<le> shdr_size elf" "s \<le> 8" for k s
  proof -
    have "unat (off + k) = unat off + unat k" using that(1) off(2) l63 by (intro unat_off_add) simp
    then show ?thesis using that off(2) by (intro elf_get_uint_safe) simp_all
  qed
  have f32: "\<exists>v. elf_get_uint elf (off + 20) 4 = Some v" "\<exists>v. elf_get_uint elf (off + 16) 4 = Some v" if "el_x32 elf"
    using that by (simp_all add: field shdr_size_def)
  have f64: "\<exists>v. elf_get_uint elf (off + 32) 8 = Some v" "\<exists>v. elf_get_uint elf (off + 24) 8 = Some v" if "\<not> el_x32 elf"
    using that by (simp_all add: field shdr_size_def)
  have f0: "\<exists>v. elf_get_uint elf (off + 0) 4 = Some v" by (rule field) (simp_all add: shdr_size_def)
  obtain sz where sz: "(if el_x32 elf then elf_get_uint elf (off + 20) 4 else elf_get_uint elf (off + 32) 8) = Some sz"
    using f32 f64 by (cases "el_x32 elf") auto
  obtain o' where o': "(if el_x32 elf then elf_get_uint elf (off + 16) 4 else elf_get_uint elf (off + 24) 8) = Some o'"
    using f32 f64 by (cases "el_x32 elf") auto
  obtain nameoff where no: "elf_get_uint elf (off + 0) 4 = Some nameoff" using f0 by auto
  have "unat (el_str_offset elf + nameoff) = unat (el_str_offset elf) + unat nameoff"
    if "nameoff < el_str_size elf" "names_inv elf"
    using that l63 by (intro unat_off_add) (auto simp: names_inv_def in_image_def word_less_nat_alt)
  then show ?thesis using off(1) sz o' no n elf_range_valid_iff [of elf] l63
    unfolding elf_get_section_info_def by (auto simp: Let_def in_image_def not_le word_less_nat_alt)
qed

section \<open>Finding sections\<close>

fun first_named :: "kmod_elf \<Rightarrow> string \<Rightarrow> nat list \<Rightarrow> (u16 \<times> u64 \<times> u64) option" where
  "first_named elf s [] = None"
| "first_named elf s (i # is) =
     (case elf_get_section_info elf False (of_nat i) of
        Some (Inr (off, sz, n)) \<Rightarrow>
          if takeWhile (\<lambda>c. c \<noteq> NUL) (mem_at (el_memory elf) n) = s then Some (of_nat i, off, sz) else first_named elf s is
      | _ \<Rightarrow> first_named elf s is)"

lemma section_index:
  assumes "i \<in> {1..<unat (el_sec_count elf)}"
  shows "0 < (of_nat i :: u16)" and "(of_nat i :: u16) < el_sec_count elf"
proof -
  have "i < 2 ^ 16" using assms unsigned_less [of "el_sec_count elf", where 'a = nat] by simp
  then have "unat (of_nat i :: u16) = i" by (simp add: unat_of_nat take_bit_nat_eq_self)
  then show "0 < (of_nat i :: u16)" "(of_nat i :: u16) < el_sec_count elf" using assms by (simp_all add: word_less_nat_alt)
qed

lemma name_terminated:
  assumes "names_inv elf" and "unat (el_str_offset elf) \<le> unat n" and "unat n < unat (el_str_offset elf) + unat (el_str_size elf)"
  shows "NUL \<in> set (mem_at (el_memory elf) n)"
proof -
  define l where "l = unat (el_str_offset elf) + unat (el_str_size elf) - 1"
  have "l < length (el_memory elf)" "unat n \<le> l" using assms by (auto simp: names_inv_def in_image_def l_def)
  then have "el_memory elf ! l \<in> set (drop (unat n) (el_memory elf))"
    unfolding in_set_conv_nth by (intro exI [of _ "l - unat n"]) simp
  then show ?thesis using assms(1) by (simp add: names_inv_def mem_at_def l_def)
qed

lemma section_info_cases:
  assumes "headers_inv elf" and "names_inv elf" and "i \<in> {1..<unat (el_sec_count elf)}"
  shows "(\<exists>e. elf_get_section_info elf False (of_nat i) = Some (Inl e))
    \<or> (\<exists>off sz n. elf_get_section_info elf False (of_nat i) = Some (Inr (off, sz, n)) \<and> in_image elf (off, sz)
        \<and> NUL \<in> set (mem_at (el_memory elf) n))"
  using section_info_safe [OF assms(1) section_index [OF assms(3)], of False] assms(2) name_terminated [OF assms(2)]
  by (metis prod_cases3 sum.exhaust)

lemma names_nul_free: "nul_free (section_name_map sec)"
  by (cases sec) simp_all

lemma names_distinct: "section_name_map sec = section_name_map sec' \<longleftrightarrow> sec = sec'"
  by (cases sec; cases sec') simp_all

lemma all_sections_UNIV: "set all_sections = UNIV"
  using kmod_elf_section.exhaust by (auto simp: all_sections_def)

lemma find_sections_spec:
  assumes "headers_inv elf" and "names_inv elf" and "set is \<subseteq> {1..<unat (el_sec_count elf)}" and "nul_free s"
  shows "foldM (find_section elf s) is None = Some (first_named elf s is)"
proof -
  have keep: "foldM (find_section elf s) js (Some r) = Some (Some r)" for js r
    by (induction js) (simp_all add: find_section_def)
  show ?thesis using assms(3)
  proof (induction "is")
    case (Cons i js)
    then have i: "i \<in> {1..<unat (el_sec_count elf)}" by simp
    consider (bad) e where "elf_get_section_info elf False (of_nat i) = Some (Inl e)"
      | (good) off sz n where "elf_get_section_info elf False (of_nat i) = Some (Inr (off, sz, n))" "NUL \<in> set (mem_at (el_memory elf) n)"
      using section_info_cases [OF assms(1,2) i] by blast
    then show ?case
    proof cases
      case bad
      then have "find_section elf s i None = Some None" by (simp add: find_section_def)
      then show ?thesis using Cons bad by simp
    next
      case (good off sz n)
      then have "find_section elf s i None = Some (if takeWhile (\<lambda>c. c \<noteq> NUL) (mem_at (el_memory elf) n) = s
          then Some (of_nat i, off, sz) else None)"
        by (simp add: find_section_def streq_at_terminated assms(4))
      then show ?thesis using Cons good keep by simp
    qed
  qed simp
qed

lemma match_section_spec:
  assumes "NUL \<in> set m"
  shows "match_section m found rng secs = Some (\<lambda>sec.
    if sec \<in> set secs \<and> found sec = None \<and> takeWhile (\<lambda>c. c \<noteq> NUL) m = section_name_map sec then Some rng else found sec)"
  by (induction secs) (auto simp: streq_at_terminated assms names_nul_free names_distinct fun_eq_iff)

lemma save_sections_spec:
  assumes "headers_inv elf" and "names_inv elf" and "set is \<subseteq> {1..<unat (el_sec_count elf)}"
  shows "foldM (save_section elf) is found = Some (\<lambda>sec. case found sec of
      None \<Rightarrow> map_option snd (first_named elf (section_name_map sec) is) | Some r \<Rightarrow> Some r)"
  using assms(3)
proof (induction "is" arbitrary: found)
  case (Cons i js)
  then have i: "i \<in> {1..<unat (el_sec_count elf)}" by simp
  show ?case
  proof (cases "\<forall>sec. found sec \<noteq> None")
    case True
    then have "save_section elf i found = Some found" by (simp add: save_section_def)
    moreover have "(\<lambda>sec. case found sec of None \<Rightarrow> x sec | Some r \<Rightarrow> Some r) = found" for x
      by (rule ext) (metis True option.case_eq_if option.collapse)
    ultimately show ?thesis using Cons by simp
  next
    case False
    then have nf: "\<not> (\<forall>sec \<in> set all_sections. found sec \<noteq> None)" by (simp add: all_sections_UNIV)
    consider (bad) e where "elf_get_section_info elf False (of_nat i) = Some (Inl e)"
      | (good) off sz n where "elf_get_section_info elf False (of_nat i) = Some (Inr (off, sz, n))" "NUL \<in> set (mem_at (el_memory elf) n)"
      using section_info_cases [OF assms(1,2) i] by blast
    then show ?thesis
    proof cases
      case bad
      then have "save_section elf i found = Some found" using nf by (simp add: save_section_def)
      then show ?thesis using Cons bad by (auto simp: fun_eq_iff split: option.splits)
    next
      case (good off sz n)
      let ?nm = "takeWhile (\<lambda>c. c \<noteq> NUL) (mem_at (el_memory elf) n)"
      have "save_section elf i found = Some (\<lambda>sec. if found sec = None \<and> ?nm = section_name_map sec then Some (off, sz) else found sec)"
        unfolding save_section_def if_not_P [OF nf] using good by (simp add: match_section_spec all_sections_UNIV)
      then show ?thesis using Cons good by (auto simp: fun_eq_iff split: option.splits)
    qed
  qed
qed (simp add: fun_eq_iff split: option.splits)

lemma first_named_in_image:
  assumes "headers_inv elf" and "names_inv elf" and "set is \<subseteq> {1..<unat (el_sec_count elf)}"
    and "first_named elf s is = Some (i, off, sz)"
  shows "in_image elf (off, sz)"
  using assms(3,4)
proof (induction "is")
  case (Cons j js)
  then have j: "j \<in> {1..<unat (el_sec_count elf)}" by simp
  show ?case using Cons section_info_cases [OF assms(1,2) j] by (auto split: if_splits)
qed simp

lemma elf_get_uint_sections [simp]: "elf_get_uint (elf\<lparr>el_sections := f\<rparr>) = elf_get_uint elf"
  by (simp add: fun_eq_iff elf_get_uint_def)

lemma section_header_sections [simp]:
  "elf_get_section_header_offset (elf\<lparr>el_sections := f\<rparr>) = elf_get_section_header_offset elf"
  by (simp add: fun_eq_iff elf_get_section_header_offset_def)

lemma elf_range_valid_sections [simp]: "elf_range_valid (elf\<lparr>el_sections := f\<rparr>) = elf_range_valid elf"
  by (simp add: fun_eq_iff elf_range_valid_def)

lemma section_info_sections [simp]: "elf_get_section_info (elf\<lparr>el_sections := f\<rparr>) = elf_get_section_info elf"
  by (simp add: fun_eq_iff elf_get_section_info_def cong: if_cong)

lemma first_named_sections [simp]: "first_named (elf\<lparr>el_sections := f\<rparr>) s is = first_named elf s is"
  by (induction "is") (simp_all split: option.split sum.split)

lemma save_sections_inv:
  assumes "headers_inv elf" and "names_inv elf"
  shows "\<exists>elf'. kmod_elf_save_sections elf = Some elf' \<and> elf_inv elf' \<and> el_memory elf' = el_memory elf
    \<and> (\<forall>sec. \<exists>r. kmod_elf_get_section elf' (section_name_map sec) = Some r
          \<and> el_sections elf' sec = (case r of Inl e \<Rightarrow> (0, 0) | Inr (i, rng) \<Rightarrow> rng))"
proof -
  let ?is = "[1..<unat (el_sec_count elf)]"
  have sub: "set ?is \<subseteq> {1..<unat (el_sec_count elf)}" by simp
  let ?rng = "\<lambda>sec. case map_option snd (first_named elf (section_name_map sec) ?is) of None \<Rightarrow> (0, 0) | Some r \<Rightarrow> r"
  let ?elf = "elf\<lparr>el_sections := ?rng\<rparr>"
  have save: "kmod_elf_save_sections elf = Some ?elf"
    unfolding kmod_elf_save_sections_def save_sections_spec [OF assms sub] by simp
  have inv: "headers_inv ?elf" "names_inv ?elf"
    using assms by (simp_all add: headers_inv_def names_inv_def in_image_def shdr_size_def)
  have get: "kmod_elf_get_section ?elf (section_name_map sec)
      = Some (case first_named elf (section_name_map sec) ?is of None \<Rightarrow> Inl ENODATA | Some r \<Rightarrow> Inr r)" for sec
    using find_sections_spec [OF inv, of ?is "section_name_map sec"] names_nul_free [of sec]
    by (simp add: kmod_elf_get_section_def)
  have "in_image ?elf (?rng sec)" for sec
    using first_named_in_image [OF assms sub, of "section_name_map sec"] by (auto simp: in_image_def split: option.splits)
  then have "elf_inv ?elf" using inv by (simp add: elf_inv_def)
  then show ?thesis using save get by (auto split: option.splits)
qed

section \<open>Opening an image\<close>

lemma elf_identify_cases:
  shows "\<exists>r. elf_identify mem = Some r \<and> (\<forall>e. r = Inl e \<longrightarrow> e = ENOEXEC \<or> e = EINVAL)
    \<and> (\<forall>x32 msb. r = Inr (x32, msb) \<longrightarrow> (if x32 then 52 else 64) < length mem)"
  by (auto simp: elf_identify_def byte_at_def Let_def)

lemma load_header_spec:
  assumes "(if el_x32 elf then 52 else 64) \<le> length (el_memory elf)"
  shows "\<exists>elf'. load_header elf = Some elf' \<and> el_memory elf' = el_memory elf \<and> el_x32 elf' = el_x32 elf"
proof -
  have f: "\<exists>v. elf_get_uint elf k s = Some v" if "unat k + s \<le> (if el_x32 elf then 52 else 64)" "s \<le> 8" for k s
    using that assms by (intro elf_get_uint_safe) auto
  have "\<exists>v. (if el_x32 elf then elf_get_uint elf 32 4 else elf_get_uint elf 40 8) = Some v"
    "\<exists>v. (if el_x32 elf then elf_get_uint elf 48 2 else elf_get_uint elf 60 2) = Some v"
    "\<exists>v. (if el_x32 elf then elf_get_uint elf 46 2 else elf_get_uint elf 58 2) = Some v"
    "\<exists>v. (if el_x32 elf then elf_get_uint elf 50 2 else elf_get_uint elf 62 2) = Some v"
    "\<exists>v. elf_get_uint elf 18 2 = Some v"
    using f [of 32 4] f [of 40 8] f [of 48 2] f [of 60 2] f [of 46 2] f [of 58 2] f [of 50 2] f [of 62 2] f [of 18 2]
    by (cases "el_x32 elf"; simp)+
  then show ?thesis unfolding load_header_def by auto
qed

text \<open>The index of the section names lies among the sections: what the assertions demand.\<close>

definition names_index_ok :: "bytes \<Rightarrow> bool" where
  "names_index_ok mem \<longleftrightarrow> (\<forall>x32 msb elf. elf_identify mem = Some (Inr (x32, msb)) \<longrightarrow>
     load_header (elf_init mem x32 msb) = Some elf \<longrightarrow> 0 < el_str_section elf \<and> el_str_section elf < el_sec_count elf)"

definition good_elf :: "kmod_elf \<Rightarrow> bool" where
  "good_elf elf \<longleftrightarrow> elf_inv elf \<and> (\<forall>sec. \<exists>q. kmod_elf_get_section elf (section_name_map sec) = Some q
     \<and> el_sections elf sec = (case q of Inl e \<Rightarrow> (0, 0) | Inr (i, rng) \<Rightarrow> rng))"

definition opened :: "bytes \<Rightarrow> kmod_elf result option \<Rightarrow> bool" where
  "opened mem res \<longleftrightarrow> (\<exists>r. res = Some r \<and> (\<forall>e. r = Inl e \<longrightarrow> e = ENOMEM \<or> e = ENOEXEC \<or> e = EINVAL)
     \<and> (\<forall>elf. r = Inr elf \<longrightarrow> el_memory elf = mem \<and> good_elf elf))"

lemma elf_load_names_opened:
  assumes h: "headers_inv elf" and strndx: "0 < el_str_section elf" "el_str_section elf < el_sec_count elf"
  shows "opened (el_memory elf) (elf_load_names elf)"
proof -
  obtain info where info: "elf_get_section_info elf True (el_str_section elf) = Some info"
    "\<forall>off sz n. info = Inr (off, sz, n) \<longrightarrow> in_image elf (off, sz)"
    using section_info_safe [OF h strndx, of True] by auto
  show ?thesis
  proof (cases "\<exists>off sz n. info = Inr (off, sz, n) \<and> sz \<noteq> 0")
    case False
    then show ?thesis using info(1) by (cases info) (auto simp: elf_load_names_def opened_def)
  next
    case True
    then obtain off sz n where q: "info = Inr (off, sz, n)" "sz \<noteq> 0" by blast
    let ?elf = "elf\<lparr>el_str_offset := off, el_str_size := sz\<rparr>" and ?l = "unat off + unat sz - 1"
    have im: "unat off + unat sz \<le> length (el_memory elf)" using info(2) q by (simp add: in_image_def)
    have pos: "0 < unat sz" using q(2) by (simp add: unat_gt_0)
    then have "unat off + unat (sz - 1) = ?l" using q(2) by (simp add: unat_pred)
    then have l: "unat (off + (sz - 1)) = ?l" using im h by (subst unat_off_add) (auto simp: headers_inv_def)
    have "?l < length (el_memory elf)" using im pos by linarith
    with l have b: "byte_at (el_memory elf) (off + (sz - 1)) = Some (el_memory elf ! ?l)" by (simp add: byte_at_def)
    show ?thesis
    proof (cases "el_memory elf ! ?l = NUL")
      case nul: True
      have "headers_inv ?elf" using h by (simp add: headers_inv_def shdr_size_def)
      moreover have "names_inv ?elf" using im q(2) nul by (simp add: names_inv_def in_image_def word_gt_0)
      ultimately show ?thesis using save_sections_inv [of ?elf] info(1) q b nul
        by (auto simp: elf_load_names_def opened_def good_elf_def)
    next
      case False
      then show ?thesis using info(1) q b by (simp add: elf_load_names_def opened_def)
    qed
  qed
qed

lemma elf_load_sections_opened:
  assumes len: "length (el_memory elf) < 2 ^ 63"
    and strndx: "0 < el_str_section elf" "el_str_section elf < el_sec_count elf"
  shows "opened (el_memory elf) (elf_load_sections elf)"
proof -
  let ?ss = "if el_x32 elf then 40 else 64 :: size_t"
  show ?thesis
  proof (cases "ucast (el_sec_entry_size elf) = ?ss \<and> elf_range_valid elf (el_sec_offset elf) (?ss * ucast (el_sec_count elf))")
    case False
    then show ?thesis by (auto simp: elf_load_sections_def opened_def Let_def)
  next
    case True
    have es: "unat (el_sec_entry_size elf) = shdr_size elf"
      using conjunct1 [OF True] unat_ucast_16_64 [of "el_sec_entry_size elf"] by (auto simp: shdr_size_def split: if_splits)
    have "unat (?ss * ucast (el_sec_count elf)) = shdr_size elf * unat (el_sec_count elf)"
      using unsigned_less [of "el_sec_count elf", where 'a = nat]
      by (simp add: unat_word_ariths unat_ucast_16_64 shdr_size_def)
    then have "headers_inv elf"
      using conjunct2 [OF True] elf_range_valid_iff [of elf] len es by (simp add: headers_inv_def mult.commute)
    then show ?thesis using elf_load_names_opened [OF _ strndx] True by (simp add: elf_load_sections_def Let_def)
  qed
qed

lemma elf_new_opened:
  assumes len: "length mem < 2 ^ 63" and idx: "names_index_ok mem"
  shows "opened mem (kmod_elf_new alloc mem)"
proof (cases "alloc 168")
  case True
  obtain id where id: "elf_identify mem = Some id" "\<forall>e. id = Inl e \<longrightarrow> e = ENOEXEC \<or> e = EINVAL"
    "\<forall>x32 msb. id = Inr (x32, msb) \<longrightarrow> (if x32 then 52 else 64) < length mem"
    using elf_identify_cases by blast
  show ?thesis
  proof (cases id)
    case (Inl e)
    then show ?thesis using True id(1,2) by (auto simp: kmod_elf_new_def opened_def)
  next
    case (Inr p)
    obtain x32 msb where p: "id = Inr (x32, msb)" using Inr by (cases p) auto
    let ?e0 = "elf_init mem x32 msb"
    have x: "el_x32 ?e0 = x32" "el_memory ?e0 = mem" by (simp_all add: elf_init_def)
    obtain elf where e: "load_header ?e0 = Some elf" "el_memory elf = mem"
      using load_header_spec [of ?e0] id(3) p x by fastforce
    have rv: "elf_range_valid ?e0 0 (if x32 then 52 else 64)"
      using elf_range_valid_iff [of ?e0] id(3) p len by (auto simp: x split: if_splits)
    have "0 < el_str_section elf" "el_str_section elf < el_sec_count elf"
      using idx id(1) p e(1) unfolding names_index_ok_def by blast+
    then have "opened mem (elf_load_sections elf)" using elf_load_sections_opened [of elf] len e(2) by simp
    then show ?thesis using True id(1) p rv e(1) unfolding kmod_elf_new_def by (simp add: Let_def)
  qed
qed (simp add: kmod_elf_new_def opened_def)

lemma zero_bytes [simp]: "foldl (\<lambda>v c. v * 256 + of_char c) (0 :: u64) (replicate n NUL) = 0"
  by (induction n) simp_all

section \<open>Properties\<close>

text \<open>
  C28. Opening an image is safe and leaves a valid object: for every byte sequence whose header points
  to an existing section of section names, the function reads only inside the image; it fails with
  \<open>ENOMEM\<close>, \<open>ENOEXEC\<close> or \<open>EINVAL\<close>, or returns an object whose section headers, section names (ended
  by a NUL) and six known sections lie inside the image, and the known sections are those that a
  search by name finds: the first section of each name, or none.
\<close>

theorem elf_new_valid:
  assumes "length mem < 2 ^ 63" and "names_index_ok mem"
  shows "\<exists>r. kmod_elf_new alloc mem = Some r \<and> (\<forall>e. r = Inl e \<longrightarrow> e = ENOMEM \<or> e = ENOEXEC \<or> e = EINVAL)
    \<and> (\<forall>elf. r = Inr elf \<longrightarrow> el_memory elf = mem \<and> elf_inv elf
         \<and> (\<forall>sec. \<exists>q. kmod_elf_get_section elf (section_name_map sec) = Some q
               \<and> el_sections elf sec = (case q of Inl e \<Rightarrow> (0, 0) | Inr (i, rng) \<Rightarrow> rng)))"
  using elf_new_opened [OF assms] by (simp add: opened_def good_elf_def)

text \<open>A 32-bit image with one section, that of the section names.\<close>

definition tiny_image :: bytes where
  "tiny_image = CHR 0x7F # ''ELF'' @ [CHR 0x01, CHR 0x01] @ replicate 26 NUL @ [CHR 0x34] @ replicate 13 NUL
     @ [CHR 0x28, NUL, CHR 0x02, NUL, CHR 0x01, NUL] @ replicate 40 NUL @ [CHR 0x01] @ replicate 15 NUL
     @ [CHR 0x84, NUL, NUL, NUL, CHR 0x03, NUL, NUL, NUL] @ replicate 16 NUL @ [NUL, CHR ''s'', NUL]"

lemma tiny_image_index: "names_index_ok tiny_image"
proof -
  have "elf_identify tiny_image = Some (Inr (True, False))"
    by (simp add: elf_identify_def tiny_image_def byte_at_def)
  moreover have "el_str_section elf = 1 \<and> el_sec_count elf = 2" if "load_header (elf_init tiny_image True False) = Some elf" for elf
    using that by (auto simp: load_header_def elf_init_def elf_get_uint_def tiny_image_def mem_at_def be_value_def)
  ultimately show ?thesis unfolding names_index_ok_def by simp
qed

lemma tiny_image_new: "\<exists>elf. kmod_elf_new (\<lambda>_. True) tiny_image = Some (Inr elf)"
proof -
  have id: "elf_identify tiny_image = Some (Inr (True, False))"
    by (simp add: elf_identify_def tiny_image_def byte_at_def)
  have rv: "elf_range_valid (elf_init tiny_image True False) 0 52"
    by (simp add: elf_range_valid_def elf_init_def tiny_image_def uadd_overflow_def)
  let ?elf = "(elf_init tiny_image True False)\<lparr>el_sec_offset := 52, el_sec_count := 2, el_sec_entry_size := 40,
      el_str_section := 1, el_machine := 0\<rparr>"
  have lh: "load_header (elf_init tiny_image True False) = Some ?elf"
    by (simp add: load_header_def elf_init_def elf_get_uint_def tiny_image_def mem_at_def be_value_def)
  have le: "\<not> (3 :: u64) \<le> 1" "\<not> (2 :: u16) \<le> 1" by (simp_all add: word_le_nat_alt)
  have info: "elf_get_section_info ?elf True 1 = Some (Inr (132, 3, 133))"
    using le by (simp add: elf_get_section_info_def elf_get_section_header_offset_def elf_range_valid_def uadd_overflow_def
        elf_init_def elf_get_uint_def tiny_image_def mem_at_def be_value_def)
  have b: "byte_at tiny_image 134 = Some NUL" by (simp add: byte_at_def tiny_image_def nth_append)
  have "elf_load_names ?elf \<noteq> None \<and> (\<forall>e. elf_load_names ?elf \<noteq> Some (Inl e))"
  proof -
    have l: "length tiny_image = 135" by (simp add: tiny_image_def)
    have h: "headers_inv (?elf\<lparr>el_str_offset := 132, el_str_size := 3\<rparr>)" by (simp add: headers_inv_def elf_init_def shdr_size_def l)
    have n: "names_inv (?elf\<lparr>el_str_offset := 132, el_str_size := 3\<rparr>)"
      using b l by (simp add: names_inv_def in_image_def elf_init_def byte_at_def)
    show ?thesis using save_sections_inv [OF h n] info b by (auto simp: elf_load_names_def elf_init_def)
  qed
  moreover have "elf_load_sections ?elf = elf_load_names ?elf"
    by (simp add: elf_load_sections_def elf_range_valid_def uadd_overflow_def elf_init_def tiny_image_def)
  ultimately have "\<exists>elf. elf_load_sections ?elf = Some (Inr elf)" by (metis not_Some_eq sum.exhaust)
  then show ?thesis using id rv lh by (simp add: kmod_elf_new_def)
qed

theorem elf_new_valid_witness:
  "\<exists>elf. kmod_elf_new (\<lambda>_. True) tiny_image = Some (Inr elf) \<and> el_memory elf = tiny_image \<and> elf_inv elf"
proof -
  have "length tiny_image < 2 ^ 63" by (simp add: tiny_image_def)
  then show ?thesis using tiny_image_new elf_new_valid [OF _ tiny_image_index, of "\<lambda>_. True"] by force
qed

text \<open>
  A header that points to no section of names is not reported as an error: for a 53-byte image
  without sections, whose other header fields are valid, the assertion in
  \<open>elf_get_section_header_offset\<close> fails and the program aborts.
\<close>

theorem elf_new_aborts:
  "kmod_elf_new (\<lambda>_. True) (CHR 0x7F # ''ELF'' @ [CHR 0x01, CHR 0x01] @ replicate 40 NUL @ [CHR 0x28] @ replicate 6 NUL) = None"
  by (simp add: kmod_elf_new_def elf_identify_def byte_at_def elf_range_valid_def elf_init_def uadd_overflow_def
      load_header_def elf_get_uint_def mem_at_def be_value_def elf_load_sections_def elf_load_names_def
      elf_get_section_info_def elf_get_section_header_offset_def)

end
