(* ===== verification/Kmod_Elf_Symbols.thy ===== *)
theory Kmod_Elf_Symbols
  imports Kmod_Elf_Safe
begin

text \<open>
  The symbols a module depends on, as the image defines them: the undefined entries of the symbol
  table, each with the checksum of the first version entry of the same name, and the version entries
  that no symbol uses. The two passes of \<open>kmod_elf_get_dependency_symbols\<close> are shown to agree, so
  that the second one fills exactly the array that the first one counted.
\<close>

section \<open>What the image holds\<close>

abbreviation cstr :: "bytes \<Rightarrow> string" where
  "cstr m \<equiv> takeWhile (\<lambda>c. c \<noteq> NUL) m"

definition sym_pos :: "kmod_elf \<Rightarrow> nat \<Rightarrow> u64" where
  "sym_pos elf i = sym_at elf (fst (el_sections elf SECTION_SYMTAB)) i"

definition sym_count :: "kmod_elf \<Rightarrow> nat" where
  "sym_count elf = unat (snd (el_sections elf SECTION_SYMTAB)) div symlen elf"

definition sym_skipped :: "kmod_elf \<Rightarrow> nat \<Rightarrow> bool" where
  "sym_skipped elf i \<longleftrightarrow> skip_symbol elf (the (st_shndx elf (sym_pos elf i))) (the (st_info elf (sym_pos elf i)))"

definition sym_name_at :: "kmod_elf \<Rightarrow> nat \<Rightarrow> u64" where
  "sym_name_at elf i = fst (el_sections elf SECTION_STRTAB) + ucast (the (st_name elf (sym_pos elf i)))"

definition sym_name :: "kmod_elf \<Rightarrow> nat \<Rightarrow> string" where
  "sym_name elf i = cstr (mem_at (el_memory elf) (sym_name_at elf i))"

definition sym_needed :: "kmod_elf \<Rightarrow> nat \<Rightarrow> bool" where
  "sym_needed elf i \<longleftrightarrow> \<not> sym_skipped elf i \<and> sym_name elf i \<noteq> []"

definition ver_count :: "kmod_elf \<Rightarrow> nat" where
  "ver_count elf = unat (snd (versions_section elf)) div verlen"

definition ver_pos :: "kmod_elf \<Rightarrow> nat \<Rightarrow> u64" where
  "ver_pos elf k = fst (versions_section elf) + of_nat (k * verlen)"

definition ver_name :: "kmod_elf \<Rightarrow> nat \<Rightarrow> string" where
  "ver_name elf k = cstr (mem_at (el_memory elf) (ver_pos elf k + of_nat (crclen elf)))"

definition ver_crc :: "kmod_elf \<Rightarrow> nat \<Rightarrow> u64" where
  "ver_crc elf k = the (elf_get_uint elf (ver_pos elf k) (crclen elf))"

definition ver_find :: "kmod_elf \<Rightarrow> string \<Rightarrow> nat option" where
  "ver_find elf name = find (\<lambda>k. length (ver_name elf k) < namlen elf \<and> ver_name elf k = name) [0..<ver_count elf]"

definition needed_entry :: "kmod_elf \<Rightarrow> nat \<Rightarrow> kmod_modversion" where
  "needed_entry elf i =
     \<lparr>mv_crc = (case ver_find elf (sym_name elf i) of None \<Rightarrow> 0 | Some k \<Rightarrow> ver_crc elf k),
      mv_bind = (if drop_bit 4 (the (st_info elf (sym_pos elf i))) = 2 then KMOD_SYMBOL_WEAK else KMOD_SYMBOL_UNDEF),
      mv_symbol = sym_name_at elf i\<rparr>"

definition version_entry :: "kmod_elf \<Rightarrow> nat \<Rightarrow> kmod_modversion" where
  "version_entry elf k =
     \<lparr>mv_crc = ver_crc elf k, mv_bind = KMOD_SYMBOL_UNDEF, mv_symbol = ver_pos elf k + of_nat (crclen elf)\<rparr>"

definition ver_used :: "kmod_elf \<Rightarrow> nat list \<Rightarrow> nat \<Rightarrow> bool" where
  "ver_used elf is k \<longleftrightarrow> (\<exists>i \<in> set is. sym_needed elf i \<and> ver_find elf (sym_name elf i) = Some k)"

definition dependency_list :: "kmod_elf \<Rightarrow> kmod_modversion list" where
  "dependency_list elf =
     map (needed_entry elf) (filter (sym_needed elf) [1..<sym_count elf])
     @ map (version_entry elf) (filter (\<lambda>k. \<not> ver_used elf [1..<sym_count elf] k) [0..<ver_count elf])"

text \<open>The string table ends with a NUL, which the code does not check.\<close>

definition strtab_ok :: "kmod_elf \<Rightarrow> bool" where
  "strtab_ok elf \<longleftrightarrow> (let (off, sz) = el_sections elf SECTION_STRTAB in
     sz \<noteq> 0 \<longrightarrow> el_memory elf ! (unat off + unat sz - 1) = NUL)"

section \<open>Fields of the tables\<close>

lemma elf_inv_len: "elf_inv elf \<Longrightarrow> length (el_memory elf) < 2 ^ 63"
  by (simp add: elf_inv_def headers_inv_def)

lemma table_entry:
  assumes "elf_inv elf" and "in_image elf (off, sz)" and "i < unat sz div n" and "0 < n"
  shows "unat (off + of_nat (i * n) :: u64) = unat off + i * n" and "unat off + i * n + n \<le> length (el_memory elf)"
proof -
  have "Suc i \<le> unat sz div n" using assms(3) by simp
  then have "Suc i * n \<le> unat sz" using assms(4) by (metis div_le_mono less_eq_div_iff_mult_less_eq)
  then show le: "unat off + i * n + n \<le> length (el_memory elf)" using assms(2) by (simp add: in_image_def)
  then have "unat (of_nat (i * n) :: u64) = i * n" "i * n < 2 ^ 64"
    using elf_inv_len [OF assms(1)] by (simp_all add: unat_of_nat take_bit_nat_eq_self del: of_nat_mult)
  then show "unat (off + of_nat (i * n) :: u64) = unat off + i * n"
    using le elf_inv_len [OF assms(1)] assms(4) by (subst unat_off_add) (auto simp del: of_nat_mult)
qed

lemma entry_field:
  assumes "elf_inv elf" and "unat pos + n \<le> length (el_memory elf)" and "unat k + s \<le> n" and "s \<le> 8"
  shows "\<exists>v. elf_get_uint elf (pos + k) s = Some v"
proof -
  have "unat (pos + k) = unat pos + unat k" using assms(2,3) elf_inv_len [OF assms(1)] by (intro unat_off_add) simp
  then show ?thesis using assms by (intro elf_get_uint_safe) simp_all
qed

lemma sym_entry_fields:
  assumes "elf_inv elf" and "i < sym_count elf"
  shows "st_name elf (sym_pos elf i) = Some (the (st_name elf (sym_pos elf i)))"
    and "st_info elf (sym_pos elf i) = Some (the (st_info elf (sym_pos elf i)))"
    and "st_shndx elf (sym_pos elf i) = Some (the (st_shndx elf (sym_pos elf i)))"
proof -
  obtain off sz where s: "el_sections elf SECTION_SYMTAB = (off, sz)" by fastforce
  then have im: "in_image elf (off, sz)" using assms(1) by (metis elf_inv_def)
  have pos: "0 < symlen elf" by (simp add: symlen_def)
  note t = table_entry [OF assms(1) im, of i "symlen elf"]
  have "unat (sym_pos elf i) + symlen elf \<le> length (el_memory elf)"
    using t assms(2) pos s by (simp add: sym_pos_def sym_at_def sym_count_def)
  note f = entry_field [OF assms(1) this]
  have "sym_field elf (sym_pos elf i) f32 f64 \<noteq> None"
    if "unat (fst f32) + snd f32 \<le> 16" "snd f32 \<le> 8" "unat (fst f64) + snd f64 \<le> 24" "snd f64 \<le> 8" for f32 f64
    using f [of "fst f32" "snd f32"] f [of "fst f64" "snd f64"] that
    by (cases "el_x32 elf") (auto simp: sym_field_def symlen_def)
  then show "st_name elf (sym_pos elf i) = Some (the (st_name elf (sym_pos elf i)))"
    "st_info elf (sym_pos elf i) = Some (the (st_info elf (sym_pos elf i)))"
    "st_shndx elf (sym_pos elf i) = Some (the (st_shndx elf (sym_pos elf i)))"
    by (simp_all add: st_name_def st_info_def st_shndx_def)
qed

lemma versions_in_image:
  assumes "elf_inv elf" and "versions_section elf = (off, sz)"
  shows "in_image elf (off, sz)"
proof -
  have "in_image elf (el_sections elf SECTION_VERSIONS)" using assms(1) by (simp add: elf_inv_def)
  then show ?thesis using assms(2) by (auto simp: versions_section_def in_image_def Let_def split: prod.splits if_splits)
qed

lemma ver_entry:
  assumes "elf_inv elf" and "k < ver_count elf"
  shows "elf_get_uint elf (ver_pos elf k) (crclen elf) = Some (ver_crc elf k)"
    and "strnlen_at (mem_at (el_memory elf) (ver_pos elf k + of_nat (crclen elf))) (namlen elf)
      = Some (min (length (ver_name elf k)) (namlen elf))"
    and "length (ver_name elf k) < namlen elf \<Longrightarrow> NUL \<in> set (mem_at (el_memory elf) (ver_pos elf k + of_nat (crclen elf)))"
proof -
  obtain off sz where s: "versions_section elf = (off, sz)" by fastforce
  note im = versions_in_image [OF assms(1) s]
  have le: "unat (ver_pos elf k) + verlen \<le> length (el_memory elf)"
    using table_entry [OF assms(1) im, of k verlen] assms(2) s by (simp add: ver_pos_def ver_count_def)
  have c: "crclen elf \<le> 8" "unat (of_nat (crclen elf) :: u64) = crclen elf" "crclen elf + namlen elf = verlen"
    by (simp_all add: crclen_def namlen_def)
  show "elf_get_uint elf (ver_pos elf k) (crclen elf) = Some (ver_crc elf k)"
    using entry_field [OF assms(1) le, of 0 "crclen elf"] c by (auto simp: ver_crc_def)
  define m where "m = mem_at (el_memory elf) (ver_pos elf k + of_nat (crclen elf))"
  have "unat (ver_pos elf k + of_nat (crclen elf)) = unat (ver_pos elf k) + crclen elf"
    using le c elf_inv_len [OF assms(1)] by (subst unat_off_add) simp_all
  then have len: "namlen elf \<le> length m" using le c by (simp add: m_def mem_at_def)
  have t: "length (takeWhile P (take n xs)) = min (length (takeWhile P xs)) n" for P n and xs :: bytes
    by (induction xs arbitrary: n) (auto simp: take_Cons' )
  show "strnlen_at (mem_at (el_memory elf) (ver_pos elf k + of_nat (crclen elf))) (namlen elf)
      = Some (min (length (ver_name elf k)) (namlen elf))"
    using strnlen_at_terminated [OF len] by (simp add: t ver_name_def flip: m_def)
  show "NUL \<in> set (mem_at (el_memory elf) (ver_pos elf k + of_nat (crclen elf)))" if "length (ver_name elf k) < namlen elf"
    using that len takeWhile_eq_all_conv [of "\<lambda>c. c \<noteq> NUL" m] by (fastforce simp: ver_name_def simp flip: m_def)
qed

section \<open>The first pass\<close>

lemma strcmp_at_terminated:
  "NUL \<in> set m \<Longrightarrow> NUL \<in> set n \<Longrightarrow> strcmp_at m n = Some (cstr m = cstr n)"
  by (induction m n rule: strcmp_at.induct) auto

lemma crc_find_from_spec:
  assumes "elf_inv elf" and "NUL \<in> set m" and "k + n = ver_count elf"
  shows "crc_find_from elf (fst (versions_section elf)) m n k
    = (let r = find (\<lambda>k. length (ver_name elf k) < namlen elf \<and> ver_name elf k = cstr m) [k..<ver_count elf] in
       Some (r, case r of None \<Rightarrow> 0 | Some k \<Rightarrow> ver_crc elf k))"
  using assms(3)
proof (induction n arbitrary: k)
  case (Suc n)
  have k: "k < ver_count elf" using Suc.prems by simp
  note v = ver_entry [OF assms(1) k]
  have u: "[k..<ver_count elf] = k # [Suc k..<ver_count elf]" using k by (simp add: upt_conv_Cons)
  let ?s = "mem_at (el_memory elf) (ver_pos elf k + of_nat (crclen elf))"
  have eq: "strcmp_at m ?s = Some (cstr m = ver_name elf k)" if "length (ver_name elf k) < namlen elf"
    using strcmp_at_terminated [OF assms(2) v(3) [OF that]] by (simp add: ver_name_def)
  show ?case using Suc.IH [of "Suc k"] Suc.prems v(1,2) eq
    unfolding crc_find_from.simps Let_def ver_pos_def [symmetric] u by (auto simp: min_def not_less)
qed simp

lemma crc_find_spec:
  assumes "elf_inv elf" and "NUL \<in> set m" and "versions_section elf = (ver_off, versionslen)"
  shows "kmod_elf_crc_find elf ver_off versionslen m
    = Some (ver_find elf (cstr m), case ver_find elf (cstr m) of None \<Rightarrow> 0 | Some k \<Rightarrow> ver_crc elf k)"
proof -
  have "unat versionslen mod verlen = 0"
    using assms(3) by (auto simp: versions_section_def Let_def split: prod.splits if_splits)
  then obtain q where "unat versionslen = verlen * q" by (auto simp: mod_eq_0_iff_dvd elim: dvdE)
  then have "(unat versionslen + verlen - 1) div verlen = ver_count elf" using assms(3) by (simp add: ver_count_def)
  then show ?thesis using crc_find_from_spec [OF assms(1,2), of 0 "ver_count elf"] assms(3)
    by (simp add: kmod_elf_crc_find_def ver_find_def Let_def)
qed

lemma sym_name_terminated:
  assumes "elf_inv elf" and "strtab_ok elf" and "ucast (the (st_name elf (sym_pos elf i))) < snd (el_sections elf SECTION_STRTAB)"
  shows "NUL \<in> set (mem_at (el_memory elf) (sym_name_at elf i))"
    and "byte_at (el_memory elf) (sym_name_at elf i) = Some c \<Longrightarrow> c = NUL \<longleftrightarrow> sym_name elf i = []"
    and "\<exists>c. byte_at (el_memory elf) (sym_name_at elf i) = Some c"
proof -
  obtain off sz where s: "el_sections elf SECTION_STRTAB = (off, sz)" by fastforce
  have im: "unat off + unat sz \<le> length (el_memory elf)" using assms(1) s by (metis elf_inv_def fst_conv in_image_def snd_conv)
  let ?n = "ucast (the (st_name elf (sym_pos elf i))) :: u64"
  have n: "unat ?n < unat sz" using assms(3) s by (simp add: word_less_nat_alt)
  then have p: "unat (sym_name_at elf i) = unat off + unat ?n"
    unfolding sym_name_at_def s fst_conv using im elf_inv_len [OF assms(1)] by (intro unat_off_add) simp
  define l where "l = unat off + unat sz - 1"
  have l: "l < length (el_memory elf)" "unat (sym_name_at elf i) \<le> l" "el_memory elf ! l = NUL"
    using p n im assms(2) s by (auto simp: l_def strtab_ok_def)
  then have "el_memory elf ! l \<in> set (drop (unat (sym_name_at elf i)) (el_memory elf))"
    unfolding in_set_conv_nth by (intro exI [of _ "l - unat (sym_name_at elf i)"]) simp
  then show t: "NUL \<in> set (mem_at (el_memory elf) (sym_name_at elf i))" using l(3) by (simp add: mem_at_def)
  have lt: "unat (sym_name_at elf i) < length (el_memory elf)" using l by simp
  then show "\<exists>c. byte_at (el_memory elf) (sym_name_at elf i) = Some c" by (simp add: byte_at_def)
  show "c = NUL \<longleftrightarrow> sym_name elf i = []" if "byte_at (el_memory elf) (sym_name_at elf i) = Some c"
    using that lt unfolding byte_at_def sym_name_def mem_at_def Cons_nth_drop_Suc [OF lt, symmetric] by auto
qed

definition scan_inv :: "kmod_elf \<Rightarrow> nat list \<Rightarrow> dep_scan \<Rightarrow> bool" where
  "scan_inv elf is ds \<longleftrightarrow>
     ds_visited ds = (if snd (versions_section elf) = 0 then None else Some (map (ver_used elf is) [0..<ver_count elf]))
     \<and> length (ds_symcrcs ds) = sym_count elf
     \<and> (\<forall>i \<in> set is. sym_needed elf i \<longrightarrow> ds_symcrcs ds ! i = mv_crc (needed_entry elf i))
     \<and> (\<forall>i \<in> set is. \<not> sym_skipped elf i \<longrightarrow> ucast (the (st_name elf (sym_pos elf i))) < snd (el_sections elf SECTION_STRTAB))
     \<and> ds_count ds = length (filter (sym_needed elf) is)"

lemma ver_used_append: "ver_used elf (is @ [i]) k \<longleftrightarrow> ver_used elf is k \<or> sym_needed elf i \<and> ver_find elf (sym_name elf i) = Some k"
  by (auto simp: ver_used_def)

lemma ver_find_less: "ver_find elf name = Some k \<Longrightarrow> k < ver_count elf"
  by (auto simp: ver_find_def find_Some_iff)

lemma scan_symbol_spec:
  assumes inv: "elf_inv elf" "strtab_ok elf" and i: "i < sym_count elf" "i \<notin> set is" and ds: "scan_inv elf is ds"
    and secs: "versions_section elf = (ver_off, versionslen)" "el_sections elf SECTION_STRTAB = (str_off, strtablen)"
  shows "\<exists>r. scan_symbol elf ver_off versionslen str_off strtablen (fst (el_sections elf SECTION_SYMTAB)) i (Inr ds) = Some r
    \<and> (r = Inl EINVAL \<or> (\<exists>ds'. r = Inr ds' \<and> scan_inv elf (is @ [i]) ds'))"
proof -
  note f = sym_entry_fields [OF inv(1) i(1)]
  have skip: "skip_symbol elf (the (st_shndx elf (sym_pos elf i))) (the (st_info elf (sym_pos elf i))) \<longleftrightarrow> sym_skipped elf i"
    by (simp add: sym_skipped_def)
  have name: "str_off + ucast (the (st_name elf (sym_pos elf i))) = sym_name_at elf i" using secs by (simp add: sym_name_at_def)
  let ?n = "ucast (the (st_name elf (sym_pos elf i))) :: u64"
  have step: "scan_symbol elf ver_off versionslen str_off strtablen (fst (el_sections elf SECTION_SYMTAB)) i (Inr ds) =
      (if sym_skipped elf i then Some (Inr ds) else if strtablen \<le> ?n then Some (Inl EINVAL)
       else do { c \<leftarrow> byte_at (el_memory elf) (sym_name_at elf i);
         if c = NUL then Some (Inr ds)
         else do { (idx, crc) \<leftarrow> kmod_elf_crc_find elf ver_off versionslen (mem_at (el_memory elf) (sym_name_at elf i));
           visited \<leftarrow> (case (idx, ds_visited ds) of
               (Some k, Some v) \<Rightarrow> if k < length v then Some (Some (v[k := True])) else None | _ \<Rightarrow> Some (ds_visited ds));
           if length (ds_symcrcs ds) \<le> i then None
           else Some (Inr (ds\<lparr>ds_visited := visited, ds_symcrcs := (ds_symcrcs ds)[i := crc], ds_count := Suc (ds_count ds)\<rparr>)) } })"
    unfolding scan_symbol_def sum.case Let_def sym_pos_def [symmetric]
    by (subst f(1), subst f(2), subst f(3)) (simp add: skip name cong: if_cong)
  show ?thesis
  proof (cases "sym_skipped elf i \<or> strtablen \<le> ?n")
    case True
    then show ?thesis unfolding step using ds by (auto simp: scan_inv_def sym_needed_def ver_used_append cong: conj_cong)
  next
    case False
    then have lt: "?n < snd (el_sections elf SECTION_STRTAB)" using secs by (simp add: not_le)
    note t = sym_name_terminated [OF inv lt]
    obtain c where c: "byte_at (el_memory elf) (sym_name_at elf i) = Some c" using t(3) by blast
    show ?thesis
    proof (cases "c = NUL")
      case True
      then have "\<not> sym_needed elf i" using t(2) [OF c] by (simp add: sym_needed_def)
      then show ?thesis unfolding step using ds False c True lt by (auto simp: scan_inv_def ver_used_append)
    next
      case c0: False
      then have need: "sym_needed elf i" using t(2) [OF c] False by (simp add: sym_needed_def)
      let ?r = "ver_find elf (sym_name elf i)"
      have cf: "kmod_elf_crc_find elf ver_off versionslen (mem_at (el_memory elf) (sym_name_at elf i))
          = Some (?r, mv_crc (needed_entry elf i))"
        using crc_find_spec [OF inv(1) t(1) secs(1)] by (simp add: sym_name_def needed_entry_def)
      have empty: "versionslen = 0 \<Longrightarrow> ?r = None" using secs by (simp add: ver_find_def ver_count_def)
      have upd: "(map (ver_used elf is) [0..<ver_count elf])[k := True] = map (ver_used elf (is @ [i])) [0..<ver_count elf]"
        if "?r = Some k" for k
        using that need ver_find_less [OF that] by (auto intro!: nth_equalityI simp: ver_used_append nth_list_update)
      have same: "ver_used elf (is @ [i]) = ver_used elf is" if "?r = None"
        using that by (auto simp: fun_eq_iff ver_used_append)
      have len: "i < length (ds_symcrcs ds)" using ds i(1) by (simp add: scan_inv_def)
      obtain visited where v: "(case (?r, ds_visited ds) of
               (Some k, Some v) \<Rightarrow> if k < length v then Some (Some (v[k := True])) else None | _ \<Rightarrow> Some (ds_visited ds)) = Some visited"
        "visited = (if snd (versions_section elf) = 0 then None else Some (map (ver_used elf (is @ [i])) [0..<ver_count elf]))"
        using ds secs(1) empty upd same by (cases ?r) (auto simp: scan_inv_def dest: ver_find_less)
      let ?ds = "ds\<lparr>ds_visited := visited, ds_symcrcs := (ds_symcrcs ds)[i := mv_crc (needed_entry elf i)], ds_count := Suc (ds_count ds)\<rparr>"
      have "scan_inv elf (is @ [i]) ?ds"
        using ds v(2) need len lt i(2) by (auto simp: scan_inv_def nth_list_update)
      then show ?thesis unfolding step using False c c0 cf v(1) len by auto
    qed
  qed
qed

lemma scan_symbols_spec:
  assumes inv: "elf_inv elf" "strtab_ok elf" and "set is \<subseteq> {..<sym_count elf}" and "distinct is"
    and secs: "versions_section elf = (ver_off, versionslen)" "el_sections elf SECTION_STRTAB = (str_off, strtablen)"
    and ds0: "scan_inv elf [] ds0"
  shows "\<exists>r. foldM (scan_symbol elf ver_off versionslen str_off strtablen (fst (el_sections elf SECTION_SYMTAB))) is (Inr ds0) = Some r
    \<and> (r = Inl EINVAL \<or> (\<exists>ds. r = Inr ds \<and> scan_inv elf is ds))"
  using assms(3,4)
proof (induction "is" rule: rev_induct)
  case (snoc i js)
  let ?step = "scan_symbol elf ver_off versionslen str_off strtablen (fst (el_sections elf SECTION_SYMTAB))"
  obtain r where r: "foldM ?step js (Inr ds0) = Some r" "r = Inl EINVAL \<or> (\<exists>ds. r = Inr ds \<and> scan_inv elf js ds)"
    using snoc by auto
  show ?case
  proof (cases r)
    case (Inl e)
    moreover have "?step i (Inl e) = Some (Inl e)" by (simp add: scan_symbol_def)
    ultimately show ?thesis using r by (auto simp: foldM_append)
  next
    case (Inr ds)
    then show ?thesis using r scan_symbol_spec [OF inv, of i js ds, OF _ _ _ secs] snoc.prems by (auto simp: foldM_append)
  qed
qed (use ds0 in simp)

lemma count_unvisited_spec:
  assumes "elf_inv elf" and "versions_section elf = (ver_off, versionslen)" and "set ks \<subseteq> {..<ver_count elf}"
    and "length visited = ver_count elf"
  shows "\<exists>r. foldM (count_unvisited elf ver_off visited) ks (Inr n) = Some r
    \<and> (r = Inl EINVAL \<or> r = Inr (n + length (filter (\<lambda>k. \<not> visited ! k) ks)))"
  using assms(3)
proof (induction ks arbitrary: n)
  case (Cons k ks)
  have stop: "foldM (count_unvisited elf ver_off visited) ks (Inl e) = Some (Inl e)" for e
    by (induction ks) (simp_all add: count_unvisited_def)
  have k: "k < ver_count elf" using Cons.prems by simp
  have p: "ver_off + of_nat (k * verlen) = ver_pos elf k" using assms(2) by (simp add: ver_pos_def)
  have step: "count_unvisited elf ver_off visited k (Inr n) = Some (if visited ! k then Inr n
      else if min (length (ver_name elf k)) (namlen elf) = namlen elf then Inl EINVAL else Inr (Suc n))"
    unfolding count_unvisited_def sum.case p using ver_entry(2) [OF assms(1) k] k assms(4) by (simp add: nth_opt_def)
  show ?case unfolding foldM.simps step using Cons.IH [of n] Cons.IH [of "Suc n"] Cons.prems stop by auto
qed simp

section \<open>The second pass\<close>

lemma store_next: "store (length xs) v (map Some xs @ replicate (Suc m) None) = Some (map Some (xs @ [v]) @ replicate m None)"
  by (simp add: store_def list_update_append)

lemma fill_symbols_spec:
  assumes inv: "elf_inv elf" "strtab_ok elf" and "set is \<subseteq> {..<sym_count elf}"
    and sec: "el_sections elf SECTION_STRTAB = (str_off, strtablen)"
    and names: "\<forall>i \<in> set is. \<not> sym_skipped elf i \<longrightarrow> ucast (the (st_name elf (sym_pos elf i))) < strtablen"
    and crcs: "length symcrcs = sym_count elf" "\<forall>i \<in> set is. sym_needed elf i \<longrightarrow> symcrcs ! i = mv_crc (needed_entry elf i)"
  shows "foldM (fill_symbol elf str_off (fst (el_sections elf SECTION_SYMTAB)) symcrcs) is
      (map Some xs @ replicate (length (filter (sym_needed elf) is) + m) None, length xs)
    = Some (map Some (xs @ map (needed_entry elf) (filter (sym_needed elf) is)) @ replicate m None,
        length xs + length (filter (sym_needed elf) is))"
  using assms(3) names crcs(2)
proof (induction "is" arbitrary: xs)
  case (Cons i js)
  have i: "i < sym_count elf" using Cons.prems(1) by simp
  note f = sym_entry_fields [OF inv(1) i]
  have name: "str_off + ucast (the (st_name elf (sym_pos elf i))) = sym_name_at elf i" using sec by (simp add: sym_name_at_def)
  have skip: "skip_symbol elf (the (st_shndx elf (sym_pos elf i))) (the (st_info elf (sym_pos elf i))) \<longleftrightarrow> sym_skipped elf i"
    by (simp add: sym_skipped_def)
  have step: "fill_symbol elf str_off (fst (el_sections elf SECTION_SYMTAB)) symcrcs i (a, count) =
      (if sym_skipped elf i then Some (a, count)
       else do { c \<leftarrow> byte_at (el_memory elf) (sym_name_at elf i);
         if c = NUL then Some (a, count)
         else do { crc \<leftarrow> nth_opt symcrcs i;
           a \<leftarrow> store count \<lparr>mv_crc = crc,
                  mv_bind = (if drop_bit 4 (the (st_info elf (sym_pos elf i))) = 2 then KMOD_SYMBOL_WEAK else KMOD_SYMBOL_UNDEF),
                  mv_symbol = sym_name_at elf i\<rparr> a;
           Some (a, Suc count) } })" for a count
    unfolding fill_symbol_def Let_def sym_pos_def [symmetric]
    by (subst f(1), subst f(2), subst f(3)) (simp add: skip name cong: if_cong)
  let ?fill = "fill_symbol elf str_off (fst (el_sections elf SECTION_SYMTAB)) symcrcs"
  have one: "?fill i (a, count) = (if sym_needed elf i
      then Option.bind (store count (needed_entry elf i) a) (\<lambda>a. Some (a, Suc count)) else Some (a, count))" for a count
  proof (cases "sym_skipped elf i")
    case True
    then show ?thesis unfolding step by (simp add: sym_needed_def)
  next
    case False
    then have lt: "ucast (the (st_name elf (sym_pos elf i))) < snd (el_sections elf SECTION_STRTAB)"
      using Cons.prems(2) sec by simp
    note t = sym_name_terminated [OF inv lt]
    obtain c where c: "byte_at (el_memory elf) (sym_name_at elf i) = Some c" using t(3) by blast
    have crc: "nth_opt symcrcs i = Some (mv_crc (needed_entry elf i))" if "sym_needed elf i"
      using that Cons.prems(3) i crcs(1) by (simp add: nth_opt_def)
    show ?thesis unfolding step using False c t(2) [OF c] crc
      by (auto simp: sym_needed_def needed_entry_def)
  qed
  show ?case
  proof (cases "sym_needed elf i")
    case True
    then have "?fill i (map Some xs @ replicate (Suc (length (filter (sym_needed elf) js) + m)) None, length xs)
        = Some (map Some (xs @ [needed_entry elf i]) @ replicate (length (filter (sym_needed elf) js) + m) None, length (xs @ [needed_entry elf i]))"
      by (simp add: one store_next del: replicate_Suc)
    then show ?thesis using Cons.IH [of "xs @ [needed_entry elf i]"] Cons.prems True by (simp del: replicate_Suc)
  next
    case False
    then show ?thesis using Cons.IH [of xs] Cons.prems one by simp
  qed
qed simp

lemma fill_versions_spec:
  assumes "elf_inv elf" and "versions_section elf = (ver_off, versionslen)" and "set ks \<subseteq> {..<ver_count elf}"
    and "length visited = ver_count elf"
  shows "foldM (fill_unvisited elf ver_off visited) ks
      (map Some xs @ replicate (length (filter (\<lambda>k. \<not> visited ! k) ks)) None, length xs)
    = Some (map Some (xs @ map (version_entry elf) (filter (\<lambda>k. \<not> visited ! k) ks)),
        length xs + length (filter (\<lambda>k. \<not> visited ! k) ks))"
  using assms(3)
proof (induction ks arbitrary: xs)
  case (Cons k ks)
  have k: "k < ver_count elf" using Cons.prems by simp
  have p: "ver_off + of_nat (k * verlen) = ver_pos elf k" using assms(2) by (simp add: ver_pos_def)
  have one: "fill_unvisited elf ver_off visited k (a, count) = (if visited ! k then Some (a, count)
      else Option.bind (store count (version_entry elf k) a) (\<lambda>a. Some (a, Suc count)))" for a count
    unfolding fill_unvisited_def prod.case Let_def p
    using ver_entry(1) [OF assms(1) k] k assms(4) by (simp add: nth_opt_def version_entry_def)
  show ?case
  proof (cases "visited ! k")
    case True
    then show ?thesis using Cons.IH [of xs] Cons.prems one by simp
  next
    case False
    then have "fill_unvisited elf ver_off visited k
          (map Some xs @ replicate (Suc (length (filter (\<lambda>k. \<not> visited ! k) ks))) None, length xs)
        = Some (map Some (xs @ [version_entry elf k]) @ replicate (length (filter (\<lambda>k. \<not> visited ! k) ks)) None, length (xs @ [version_entry elf k]))"
      by (simp add: one store_next del: replicate_Suc)
    then show ?thesis using Cons.IH [of "xs @ [version_entry elf k]"] Cons.prems False by (simp del: replicate_Suc)
  qed
qed simp

section \<open>Both passes together\<close>

lemma dep_counts_spec:
  assumes inv: "elf_inv elf" "strtab_ok elf"
    and secs: "versions_section elf = (ver_off, versionslen)" "el_sections elf SECTION_STRTAB = (str_off, strtablen)"
  shows "\<exists>r. dep_counts elf ver_off versionslen str_off strtablen (fst (el_sections elf SECTION_SYMTAB)) (sym_count elf) = Some r
    \<and> (r = Inl EINVAL \<or> (\<exists>ds n. r = Inr (ds\<lparr>ds_count := n\<rparr>) \<and> scan_inv elf [1..<sym_count elf] ds \<and> n = length (dependency_list elf)))"
proof -
  let ?is = "[1..<sym_count elf]"
  let ?ds0 = "\<lparr>ds_visited = (if versionslen = 0 then None else Some (replicate (unat versionslen div verlen) False)),
      ds_symcrcs = replicate (sym_count elf) 0, ds_count = 0\<rparr>"
  have vc: "unat versionslen div verlen = ver_count elf" using secs by (simp add: ver_count_def)
  have "replicate (ver_count elf) False = map (ver_used elf []) [0..<ver_count elf]"
    by (intro nth_equalityI) (simp_all add: ver_used_def)
  then have ds0: "scan_inv elf [] ?ds0" using secs vc by (simp add: scan_inv_def)
  have sub: "set ?is \<subseteq> {..<sym_count elf}" by auto
  obtain r where r: "foldM (scan_symbol elf ver_off versionslen str_off strtablen (fst (el_sections elf SECTION_SYMTAB))) ?is (Inr ?ds0) = Some r"
    "r = Inl EINVAL \<or> (\<exists>ds. r = Inr ds \<and> scan_inv elf ?is ds)"
    using scan_symbols_spec [OF inv sub _ secs ds0] by auto
  show ?thesis
  proof (cases r)
    case (Inl e)
    then show ?thesis unfolding dep_counts_def Let_def r(1) using r(2) by auto
  next
    case (Inr ds)
    then have ds: "scan_inv elf ?is ds" using r(2) by auto
    show ?thesis
    proof (cases "versionslen = 0")
      case True
      then have "ver_count elf = 0" using vc by simp
      then have "ds_count ds = length (dependency_list elf)" using ds by (simp add: scan_inv_def dependency_list_def)
      moreover have "ds_visited ds = None" using ds True secs by (simp add: scan_inv_def)
      ultimately show ?thesis using r(1) Inr ds
        unfolding dep_counts_def Let_def r(1)
        by (intro exI [of _ r] conjI disjI2 exI [of _ ds] exI [of _ "ds_count ds"]) auto
    next
      case False
      let ?v = "map (ver_used elf ?is) [0..<ver_count elf]"
      have v: "ds_visited ds = Some ?v" using ds False secs by (simp add: scan_inv_def)
      have nth: "filter (\<lambda>k. \<not> ?v ! k) [0..<ver_count elf] = filter (\<lambda>k. \<not> ver_used elf ?is k) [0..<ver_count elf]"
        by (rule filter_cong) auto
      obtain q where q: "foldM (count_unvisited elf ver_off ?v) [0..<ver_count elf] (Inr (ds_count ds)) = Some q"
        "q = Inl EINVAL \<or> q = Inr (ds_count ds + length (filter (\<lambda>k. \<not> ver_used elf ?is k) [0..<ver_count elf]))"
        using count_unvisited_spec [OF inv(1) secs(1), of "[0..<ver_count elf]" ?v "ds_count ds"] unfolding nth by force
      have "dep_counts elf ver_off versionslen str_off strtablen (fst (el_sections elf SECTION_SYMTAB)) (sym_count elf)
          = Some (map_sum id (\<lambda>count. ds\<lparr>ds_count := count\<rparr>) q)"
        unfolding dep_counts_def Let_def r(1) using Inr v q(1) vc by simp
      moreover have "ds_count ds + length (filter (\<lambda>k. \<not> ver_used elf ?is k) [0..<ver_count elf]) = length (dependency_list elf)"
        using ds by (simp add: scan_inv_def dependency_list_def)
      ultimately show ?thesis using q(2) ds by auto
    qed
  qed
qed

lemma dep_fill_spec:
  assumes inv: "elf_inv elf" "strtab_ok elf" and ds: "scan_inv elf [1..<sym_count elf] ds"
    and secs: "versions_section elf = (ver_off, versionslen)" "el_sections elf SECTION_STRTAB = (str_off, strtablen)"
  defines "a \<equiv> replicate (length (dependency_list elf)) None"
  shows "(do { (a, n) \<leftarrow> foldM (fill_symbol elf str_off (fst (el_sections elf SECTION_SYMTAB)) (ds_symcrcs ds)) [1..<sym_count elf] (a, 0);
           (a, n) \<leftarrow> (case ds_visited ds of
               None \<Rightarrow> Some (a, n)
             | Some visited \<Rightarrow> foldM (fill_unvisited elf ver_off visited) [0..<unat versionslen div verlen] (a, n));
           Some (take n a) }) = Some (map Some (dependency_list elf))"
proof -
  let ?is = "[1..<sym_count elf]" and ?new = "filter (\<lambda>k. \<not> ver_used elf [1..<sym_count elf] k) [0..<ver_count elf]"
  let ?need = "filter (sym_needed elf) ?is"
  have vc: "unat versionslen div verlen = ver_count elf" using secs by (simp add: ver_count_def)
  have sub: "set ?is \<subseteq> {..<sym_count elf}" by auto
  have a: "a = map Some [] @ replicate (length ?need + length ?new) None" by (simp add: a_def dependency_list_def)
  have one: "foldM (fill_symbol elf str_off (fst (el_sections elf SECTION_SYMTAB)) (ds_symcrcs ds)) ?is (a, 0)
      = Some (map Some (map (needed_entry elf) ?need) @ replicate (length ?new) None, length (map (needed_entry elf) ?need))"
    using fill_symbols_spec [OF inv sub secs(2), of "ds_symcrcs ds" "[]" "length ?new"] ds secs(2) unfolding a by (simp add: scan_inv_def)
  show ?thesis
  proof (cases "versionslen = 0")
    case True
    then have "ver_count elf = 0" using vc by simp
    then have "?new = []" "dependency_list elf = map (needed_entry elf) ?need" by (simp_all add: dependency_list_def)
    moreover have "ds_visited ds = None" using ds True secs by (simp add: scan_inv_def)
    ultimately show ?thesis using one by simp
  next
    case False
    let ?v = "map (ver_used elf ?is) [0..<ver_count elf]"
    have v: "ds_visited ds = Some ?v" using ds False secs by (simp add: scan_inv_def)
    have nth: "filter (\<lambda>k. \<not> ?v ! k) [0..<ver_count elf] = ?new" by (rule filter_cong) auto
    have "foldM (fill_unvisited elf ver_off ?v) [0..<ver_count elf]
          (map Some (map (needed_entry elf) ?need) @ replicate (length ?new) None, length (map (needed_entry elf) ?need))
        = Some (map Some (dependency_list elf), length (dependency_list elf))"
      using fill_versions_spec [OF inv(1) secs(1), of "[0..<ver_count elf]" ?v "map (needed_entry elf) ?need"]
      unfolding nth dependency_list_def by (force simp: atLeast0LessThan)
    then show ?thesis unfolding one v vc by simp
  qed
qed

text \<open>
  C29. The dependency symbols of a module are exactly those its image names: for an opened image whose
  string table ends with a NUL, the function reads only inside the image and writes only inside the
  array it allocated, as its second pass meets exactly the entries the first one counted. It fails
  with \<open>EINVAL\<close> or returns, in this order, every undefined symbol with a name, with the checksum of
  the first version entry of that name (or 0) and its binding, and then every version entry that no
  symbol of the module uses.
\<close>

theorem dependency_symbols_listed:
  assumes "elf_inv elf" and "strtab_ok elf"
  shows "\<exists>r. kmod_elf_get_dependency_symbols (\<lambda>_. True) elf = Some r
    \<and> (r = Inl EINVAL \<or> r = Inr (map Some (
        map (\<lambda>i. \<lparr>mv_crc = (case ver_find elf (sym_name elf i) of None \<Rightarrow> 0 | Some k \<Rightarrow> ver_crc elf k),
                   mv_bind = (if drop_bit 4 (the (st_info elf (sym_pos elf i))) = 2 then KMOD_SYMBOL_WEAK else KMOD_SYMBOL_UNDEF),
                   mv_symbol = sym_name_at elf i\<rparr>) (filter (sym_needed elf) [1..<sym_count elf])
        @ map (version_entry elf) (filter (\<lambda>k. \<not> ver_used elf [1..<sym_count elf] k) [0..<ver_count elf]))))"
proof -
  obtain ver_off versionslen where v: "versions_section elf = (ver_off, versionslen)" by fastforce
  obtain str_off strtablen where s: "el_sections elf SECTION_STRTAB = (str_off, strtablen)" by fastforce
  obtain sym_off symtablen where y: "el_sections elf SECTION_SYMTAB = (sym_off, symtablen)" by fastforce
  have sc: "unat symtablen div symlen elf = sym_count elf" using y by (simp add: sym_count_def)
  have list: "map (\<lambda>i. \<lparr>mv_crc = (case ver_find elf (sym_name elf i) of None \<Rightarrow> 0 | Some k \<Rightarrow> ver_crc elf k),
        mv_bind = (if drop_bit 4 (the (st_info elf (sym_pos elf i))) = 2 then KMOD_SYMBOL_WEAK else KMOD_SYMBOL_UNDEF),
        mv_symbol = sym_name_at elf i\<rparr>) (filter (sym_needed elf) [1..<sym_count elf])
      @ map (version_entry elf) (filter (\<lambda>k. \<not> ver_used elf [1..<sym_count elf] k) [0..<ver_count elf]) = dependency_list elf"
    by (simp add: dependency_list_def needed_entry_def fun_eq_iff)
  obtain r where r: "dep_counts elf ver_off versionslen str_off strtablen sym_off (sym_count elf) = Some r"
    "r = Inl EINVAL \<or> (\<exists>ds n. r = Inr (ds\<lparr>ds_count := n\<rparr>) \<and> scan_inv elf [1..<sym_count elf] ds \<and> n = length (dependency_list elf))"
    using dep_counts_spec [OF assms v s] y by auto
  have main: "kmod_elf_get_dependency_symbols (\<lambda>_. True) elf =
    (if str_off = 0 \<or> sym_off = 0 \<or> unat symtablen mod symlen elf \<noteq> 0 then Some (Inl EINVAL)
     else case r of
       Inl e \<Rightarrow> Some (Inl e)
     | Inr ds \<Rightarrow>
         if 2147483647 < ds_count ds then Some (Inl EINVAL) else if ds_count ds = 0 then Some (Inr [])
         else map_option Inr (do { (a, n) \<leftarrow> foldM (fill_symbol elf str_off sym_off (ds_symcrcs ds)) [1..<sym_count elf] (replicate (ds_count ds) None, 0);
           (a, n) \<leftarrow> (case ds_visited ds of None \<Rightarrow> Some (a, n)
             | Some visited \<Rightarrow> foldM (fill_unvisited elf ver_off visited) [0..<unat versionslen div verlen] (a, n));
           Some (take n a) }))"
    unfolding kmod_elf_get_dependency_symbols_def v s y Let_def prod.case sc
    using r(1) by (auto split: sum.split Option.bind_split)
  show ?thesis
  proof (cases r)
    case (Inl e)
    then show ?thesis unfolding main using r(2) by auto
  next
    case (Inr ds')
    then obtain ds where ds: "ds' = ds\<lparr>ds_count := length (dependency_list elf)\<rparr>" "scan_inv elf [1..<sym_count elf] ds"
      using r(2) by auto
    have "(if length (dependency_list elf) = 0 then Some (Inr []) else Some (Inr (map Some (dependency_list elf))))
        = (Some (Inr (map Some (dependency_list elf))) :: kmod_modversion slots result option)" by simp
    then show ?thesis unfolding main list Inr sum.case using dep_fill_spec [OF assms ds(2) v s] y by (auto simp: ds(1))
  qed
qed

text \<open>A symbol table with one undefined symbol, and no versions.\<close>

definition elf_example :: kmod_elf where
  "elf_example = \<lparr>el_memory = NUL # NUL # ''foo'' @ [NUL] @ replicate 16 NUL @ [CHR 0x01] @ replicate 11 NUL @ [CHR 0x10, NUL, NUL, NUL],
     el_x32 = True, el_msb = False, el_sec_offset = 0, el_sec_count = 0, el_sec_entry_size = 40, el_str_section = 0,
     el_str_offset = 1, el_str_size = 5, el_machine = 0,
     el_sections = (\<lambda>sec. case sec of SECTION_STRTAB \<Rightarrow> (1, 5) | SECTION_SYMTAB \<Rightarrow> (6, 32) | _ \<Rightarrow> (0, 0))\<rparr>"

theorem dependency_symbols_listed_witness:
  "\<exists>r. kmod_elf_get_dependency_symbols (\<lambda>_. True) elf_example = Some r
    \<and> (r = Inl EINVAL \<or> r = Inr [Some \<lparr>mv_crc = 0, mv_bind = KMOD_SYMBOL_UNDEF, mv_symbol = 2\<rparr>])"
proof -
  have "elf_inv elf_example"
    by (auto simp: elf_inv_def headers_inv_def names_inv_def in_image_def shdr_size_def elf_example_def split: kmod_elf_section.splits)
  moreover have "strtab_ok elf_example" by (simp add: strtab_ok_def elf_example_def)
  ultimately obtain r where r: "kmod_elf_get_dependency_symbols (\<lambda>_. True) elf_example = Some r"
    "r = Inl EINVAL \<or> r = Inr (map Some (
        map (\<lambda>i. \<lparr>mv_crc = (case ver_find elf_example (sym_name elf_example i) of None \<Rightarrow> 0 | Some k \<Rightarrow> ver_crc elf_example k),
                   mv_bind = (if drop_bit 4 (the (st_info elf_example (sym_pos elf_example i))) = 2 then KMOD_SYMBOL_WEAK else KMOD_SYMBOL_UNDEF),
                   mv_symbol = sym_name_at elf_example i\<rparr>) (filter (sym_needed elf_example) [1..<sym_count elf_example])
        @ map (version_entry elf_example) (filter (\<lambda>k. \<not> ver_used elf_example [1..<sym_count elf_example] k) [0..<ver_count elf_example])))"
    using dependency_symbols_listed by blast
  have c: "sym_count elf_example = 2" "ver_count elf_example = 0"
    by (simp_all add: sym_count_def ver_count_def versions_section_def symlen_def elf_example_def)
  have p: "sym_pos elf_example 1 = 22" by (simp add: sym_pos_def sym_at_def symlen_def elf_example_def)
  have f: "st_info elf_example 22 = Some 0x10" "st_shndx elf_example 22 = Some 0" "st_name elf_example 22 = Some 1"
    by (simp_all add: st_info_def st_shndx_def st_name_def sym_field_def elf_get_uint_def mem_at_def be_value_def elf_example_def)
  have n: "sym_name_at elf_example 1 = 2" unfolding sym_name_at_def p f by (simp add: elf_example_def)
  have nm: "sym_name elf_example 1 = ''foo''" unfolding sym_name_def n by (simp add: elf_example_def mem_at_def)
  have need: "sym_needed elf_example 1" using f p nm by (simp add: sym_needed_def sym_skipped_def skip_symbol_def elf_example_def)
  have u: "[1..<2] = [1 :: nat]" by (simp add: upt_rec)
  have "r = Inl EINVAL \<or> r = Inr [Some \<lparr>mv_crc = 0, mv_bind = KMOD_SYMBOL_UNDEF, mv_symbol = 2\<rparr>]"
    using r(2) need n p f unfolding c u by (simp add: ver_find_def c)
  then show ?thesis using r(1) by blast
qed

end
