(* ===== verification/Kmod_Elf_Info.thy ===== *)
theory Kmod_Elf_Info
  imports Kmod_Elf_Symbols
begin

text \<open>
  The strings of the \<open>.modinfo\<close> section and the removal of version information from an image.
\<close>

section \<open>Strings between NULs\<close>

text \<open>The reference: the non-empty strings that NULs separate, and the number of runs of NULs.\<close>

function pieces :: "bytes \<Rightarrow> string list" where
  "pieces [] = []"
| "pieces (b # m) = (if b = NUL then pieces m else cstr (b # m) # pieces (dropWhile (\<lambda>c. c \<noteq> NUL) m))"
  by pat_completeness auto

termination
  by (relation "measure length") (auto simp: le_imp_less_Suc length_dropWhile_le)

function nruns :: "bytes \<Rightarrow> nat" where
  "nruns [] = 0"
| "nruns (b # m) = (if b = NUL then Suc (nruns (dropWhile (\<lambda>c. c = NUL) m)) else nruns m)"
  by pat_completeness auto

termination
  by (relation "measure length") (auto simp: le_imp_less_Suc length_dropWhile_le)

lemma nruns_skip: "m \<noteq> [] \<Longrightarrow> hd m = NUL \<Longrightarrow> nruns m = Suc (nruns (dropWhile (\<lambda>c. c = NUL) m))"
  by (cases m) auto

lemma nruns_Cons: "b \<noteq> NUL \<Longrightarrow> nruns (b # m) = nruns m"
  by simp

lemma nruns_dropWhile: "nruns (dropWhile (\<lambda>c. c \<noteq> NUL) m) = nruns m"
  by (induction m) (auto simp: nruns_Cons)

lemma pieces_skip: "pieces (dropWhile (\<lambda>c. c = NUL) m) = pieces m"
  by (induction m) auto

lemma pieces_nruns:
  "m \<noteq> [] \<Longrightarrow> hd m \<noteq> NUL \<Longrightarrow> length (pieces m) = nruns m + (if last m \<noteq> NUL then 1 else 0)"
proof (induction m rule: length_induct)
  case (1 m)
  obtain b m' where m: "m = b # m'" "b \<noteq> NUL" using 1 by (cases m) auto
  let ?r = "dropWhile (\<lambda>c. c \<noteq> NUL) m'" and ?s = "dropWhile (\<lambda>c. c = NUL) (dropWhile (\<lambda>c. c \<noteq> NUL) m')"
  have len: "length (pieces m) = Suc (length (pieces ?s))" using m by (simp add: pieces_skip)
  show ?case
  proof (cases "?r = []")
    case True
    then have "\<forall>c \<in> set m. c \<noteq> NUL" using m by (simp add: dropWhile_eq_Nil_conv)
    then have "last m \<noteq> NUL" using m by (metis last_in_set list.discI)
    moreover have "nruns m = 0" using m nruns_dropWhile [of m'] unfolding True by (simp add: nruns_Cons)
    ultimately show ?thesis using len True by simp
  next
    case r: False
    then have hd: "hd ?r = NUL" using hd_dropWhile [OF r] by simp
    have nr: "nruns m = Suc (nruns ?s)" using m nruns_dropWhile [of m'] nruns_skip [OF r hd] by (simp add: nruns_Cons)
    show ?thesis
    proof (cases "?s = []")
      case True
      then have "\<forall>c \<in> set ?r. c = NUL" using dropWhile_eq_Nil_conv [of "\<lambda>c. c = NUL" ?r] by blast
      then have "last ?r = NUL" using r last_in_set by blast
      then have "last m = NUL" using m last_appendR [OF r, of "b # takeWhile (\<lambda>c. c \<noteq> NUL) m'"] by simp
      then show ?thesis using len nr unfolding True by simp
    next
      case s: False
      then have "hd ?s \<noteq> NUL" using hd_dropWhile [OF s] by simp
      moreover have "length ?s < length m" using m length_dropWhile_le [of _ ?r] length_dropWhile_le [of _ m']
        by (metis (no_types, lifting) length_Cons le_imp_less_Suc le_trans)
      ultimately have "length (pieces ?s) = nruns ?s + (if last ?s \<noteq> NUL then 1 else 0)" using 1 s by blast
      moreover have "last m = last ?s"
        using m last_appendR [OF s, of "b # takeWhile (\<lambda>c. c \<noteq> NUL) m' @ takeWhile (\<lambda>c. c = NUL) ?r"] by simp
      ultimately show ?thesis using len nr by simp
    qed
  qed
qed

section \<open>The counting pass\<close>

lemma count_nuls_spec:
  assumes "sz < length m" and "i \<le> sz"
  shows "count_nuls m sz i = Some (i + length (takeWhile (\<lambda>c. c = NUL) (drop i (take sz m))))"
  using assms
proof (induction m sz i rule: count_nuls.induct)
  case (1 m sz i)
  have c: "nth_opt m i = Some (m ! i)" using 1 by (simp add: nth_opt_def)
  show ?case
  proof (cases "m ! i = NUL \<and> i < sz")
    case True
    then have d: "drop i (take sz m) = m ! i # drop (Suc i) (take sz m)" using 1(2) by (simp add: Cons_nth_drop_Suc [symmetric])
    have "count_nuls m sz i = count_nuls m sz (Suc i)" using c True by (subst count_nuls.simps) simp
    then show ?thesis unfolding d using 1 c True by simp
  next
    case False
    have "takeWhile (\<lambda>c. c = NUL) (drop i (take sz m)) = []"
    proof (cases "i < sz")
      case True
      then have "drop i (take sz m) = m ! i # drop (Suc i) (take sz m)" using 1(2) by (simp add: Cons_nth_drop_Suc [symmetric])
      then show ?thesis using False True by simp
    qed simp
    then show ?thesis using c False by (subst count_nuls.simps) auto
  qed
qed

lemma count_strings_spec:
  assumes "sz < length m" and "i \<le> sz"
  shows "count_strings m sz i n = Some (sz, n + nruns (drop i (take sz m)))"
  using assms
proof (induction m sz i n rule: count_strings.induct)
  case (1 m sz i n)
  show ?case
  proof (cases "i < sz")
    case False
    then show ?thesis using 1 by (subst count_strings.simps) simp
  next
    case True
    have c: "nth_opt m i = Some (m ! i)" using 1 True by (simp add: nth_opt_def)
    have d: "drop i (take sz m) = m ! i # drop (Suc i) (take sz m)" using 1 True by (simp add: Cons_nth_drop_Suc [symmetric])
    show ?thesis
    proof (cases "m ! i = NUL")
      case False
      then have "count_strings m sz i n = count_strings m sz (Suc i) n" using True c by (subst count_strings.simps) simp
      then show ?thesis unfolding d using 1 True c False by (simp add: nruns_Cons)
    next
      case nul: True
      let ?j = "i + length (takeWhile (\<lambda>c. c = NUL) (drop i (take sz m)))"
      have j: "count_nuls m sz i = Some ?j" using 1 True by (intro count_nuls_spec) simp_all
      have jl: "?j \<le> sz" using length_takeWhile_le [of "\<lambda>c. c = NUL" "drop i (take sz m)"] 1 True by simp
      have "count_strings m sz i n = count_strings m sz ?j (Suc n)" using True c nul j by (subst count_strings.simps) simp
      then have "count_strings m sz i n = Some (sz, Suc n + nruns (drop ?j (take sz m)))"
        using 1 True c nul j jl by simp
      moreover have "drop ?j (take sz m) = dropWhile (\<lambda>c. c = NUL) (drop i (take sz m))"
        by (simp add: dropWhile_eq_drop drop_drop add.commute)
      ultimately show ?thesis using nruns_skip [of "drop i (take sz m)"] d nul by simp
    qed
  qed
qed

section \<open>The filling pass\<close>

lemma skip_nuls_spec:
  assumes "sz \<le> length m" and "i \<le> sz"
  shows "skip_nuls m sz i = Some (i + length (takeWhile (\<lambda>c. c = NUL) (drop i (take sz m))))"
  using assms
proof (induction m sz i rule: skip_nuls.induct)
  case (1 m sz i)
  show ?case
  proof (cases "i < sz")
    case True
    then have d: "drop i (take sz m) = m ! i # drop (Suc i) (take sz m)" using 1(2) by (simp add: Cons_nth_drop_Suc [symmetric])
    have c: "nth_opt m i = Some (m ! i)" using 1 True by (simp add: nth_opt_def)
    show ?thesis
    proof (cases "m ! i = NUL")
      case nul: True
      then have "skip_nuls m sz i = skip_nuls m sz (Suc i)" using True c by (subst skip_nuls.simps) simp
      then show ?thesis unfolding d using 1 True c nul by simp
    next
      case False
      then have "skip_nuls m sz i = Some i" using True c by (subst skip_nuls.simps) simp
      then show ?thesis unfolding d using False by simp
    qed
  next
    case False
    then show ?thesis using 1 by (subst skip_nuls.simps) simp
  qed
qed

text \<open>The strings that follow the one in which position \<open>i\<close> lies.\<close>

abbreviation following :: "bytes \<Rightarrow> nat \<Rightarrow> string list" where
  "following t i \<equiv> pieces (dropWhile (\<lambda>c. c \<noteq> NUL) (drop i t))"

lemma fill_strings_spec:
  assumes "length (following t i) = k" and "i \<le> length t"
  shows "\<exists>ps. fill_strings (t @ [NUL]) (length t) (length xs + k) i (length xs) (map Some xs @ replicate (Suc k) None)
      = Some (map Some (xs @ ps) @ [None]) \<and> map (\<lambda>p. cstr (drop p t)) ps = following t i \<and> (\<forall>p \<in> set ps. p < length t)"
  using assms
proof (induction "length t - i" arbitrary: i xs k rule: less_induct)
  case less
  let ?fill = "fill_strings (t @ [NUL]) (length t) (length xs + k) i (length xs) (map Some xs @ replicate (Suc k) None)"
  show ?case
  proof (cases "i < length t \<and> 0 < k")
    case False
    then have "k = 0" using less.prems by auto
    moreover have "?fill = Some (map Some xs @ replicate (Suc k) None)" using False by (subst fill_strings.simps) auto
    ultimately show ?thesis using less.prems by (intro exI [of _ "[]"]) simp
  next
    case True
    have c: "nth_opt (t @ [NUL]) i = Some (t ! i)" using True by (simp add: nth_opt_def nth_append)
    have d: "drop i t = t ! i # drop (Suc i) t" using True by (simp add: Cons_nth_drop_Suc)
    show ?thesis
    proof (cases "t ! i = NUL")
      case False
      then have f: "following t i = following t (Suc i)" unfolding d by simp
      have "?fill = fill_strings (t @ [NUL]) (length t) (length xs + k) (Suc i) (length xs) (map Some xs @ replicate (Suc k) None)"
        using True c False by (subst fill_strings.simps) (simp del: replicate_Suc)
      moreover have "length t - Suc i < length t - i" "Suc i \<le> length t" using True by auto
      ultimately show ?thesis using less.hyps [of "Suc i" k xs] less.prems f by simp
    next
      case nul: True
      let ?j = "i + length (takeWhile (\<lambda>c. c = NUL) (drop i t))"
      have j: "skip_nuls (t @ [NUL]) (length t) i = Some ?j" using skip_nuls_spec [of "length t" "t @ [NUL]" i] True by simp
      have dj: "drop ?j t = dropWhile (\<lambda>c. c = NUL) (drop i t)" by (simp add: dropWhile_eq_drop drop_drop add.commute)
      have ij: "i < ?j" unfolding d using nul by simp
      have fi: "following t i = pieces (drop ?j t)" unfolding dj pieces_skip using d nul by simp
      then have ne: "drop ?j t \<noteq> []" using less.prems(1) True by auto
      then have jl: "?j < length t" by simp
      have hd: "hd (drop ?j t) \<noteq> NUL" using hd_dropWhile [of "\<lambda>c. c = NUL" "drop i t"] ne unfolding dj by simp
      have fj: "pieces (drop ?j t) = cstr (drop ?j t) # following t ?j"
        using ne hd by (cases "drop ?j t") auto
      obtain k' where k: "k = Suc k'" using True by (cases k) auto
      have k': "length (following t ?j) = k'" using fi fj less.prems(1) k by simp
      have "?fill = fill_strings (t @ [NUL]) (length t) (length xs + k) ?j (Suc (length xs)) (map Some (xs @ [?j]) @ replicate k None)"
        using True c nul j k store_next [of xs ?j k] by (subst fill_strings.simps) (simp del: replicate_Suc)
      moreover have "length t - ?j < length t - i" using ij conjunct1 [OF True] by (rule diff_less_mono2)
      then obtain ps where ps: "fill_strings (t @ [NUL]) (length t) (length (xs @ [?j]) + k') ?j (length (xs @ [?j]))
          (map Some (xs @ [?j]) @ replicate (Suc k') None) = Some (map Some ((xs @ [?j]) @ ps) @ [None])"
        "map (\<lambda>p. cstr (drop p t)) ps = following t ?j" "\<forall>p \<in> set ps. p < length t"
        using less.hyps [OF _ k' less_imp_le [OF jl], of "xs @ [?j]"] by blast
      ultimately have "?fill = Some (map Some (xs @ (?j # ps)) @ [None])" using k by (simp del: replicate_Suc)
      then show ?thesis using ps fi fj jl by (intro exI [of _ "?j # ps"]) simp
    qed
  qed
qed

section \<open>All strings of the section\<close>

lemma skip_padding_spec:
  assumes "sz \<le> length m"
  shows "\<exists>p. skip_padding m sz = Some (drop p m, sz - p) \<and> p \<le> sz \<and> (\<forall>c \<in> set (take p m). c = NUL)
    \<and> (1 < sz - p \<longrightarrow> m ! p \<noteq> NUL)"
  using assms
proof (induction m sz rule: skip_padding.induct)
  case (1 m sz)
  show ?case
  proof (cases "1 < sz \<and> hd m = NUL")
    case True
    then obtain m' where m: "m = NUL # m'" using 1(2) by (cases m) auto
    then obtain p where p: "skip_padding m' (sz - 1) = Some (drop p m', sz - 1 - p)" "p \<le> sz - 1"
        "\<forall>c \<in> set (take p m'). c = NUL" "1 < sz - 1 - p \<longrightarrow> m' ! p \<noteq> NUL"
      using 1 True by fastforce
    have "skip_padding m sz = skip_padding m' (sz - 1)" using m True by (subst skip_padding.simps) simp
    then show ?thesis using p m True by (intro exI [of _ "Suc p"]) auto
  next
    case False
    then have "skip_padding m sz = Some (m, sz)" using 1(2) by (cases m; subst skip_padding.simps) auto
    then show ?thesis using False 1(2) by (intro exI [of _ 0]) (cases m; auto)
  qed
qed

lemma pieces_padded: "\<forall>c \<in> set p. c = NUL \<Longrightarrow> pieces (p @ m) = pieces m"
  by (induction p) auto

text \<open>The sizes that are added up before the allocation do not overflow for images below 2^59 bytes.\<close>

lemma modinfo_sizes:
  assumes "n \<le> sz" and "sz < 2 ^ 59"
  shows "\<not> snd (uadd_overflow (of_nat n :: size_t) 1) \<and> \<not> snd (umul_overflow 8 (fst (uadd_overflow (of_nat n :: size_t) 1)))
    \<and> \<not> snd (uadd_overflow (of_nat sz :: size_t) (fst (umul_overflow 8 (fst (uadd_overflow (of_nat n :: size_t) 1)))))
    \<and> \<not> snd (uadd_overflow 1 (fst (uadd_overflow (of_nat sz :: size_t) (fst (umul_overflow 8 (fst (uadd_overflow (of_nat n :: size_t) 1)))))))"
proof -
  have n: "unat (of_nat n :: size_t) = n" "unat (of_nat sz :: size_t) = sz"
    using assms by (simp_all add: unat_of_nat take_bit_nat_eq_self)
  have a: "\<not> snd (uadd_overflow (of_nat n :: size_t) 1)" "unat (fst (uadd_overflow (of_nat n :: size_t) 1)) = n + 1"
    using uadd_overflow_iff [of "of_nat n :: size_t" 1] uadd_overflow_value [of "of_nat n :: size_t" 1] n assms by simp_all
  define t where "t = fst (uadd_overflow (of_nat n :: size_t) 1)"
  have t: "unat t = n + 1" using a(2) by (simp add: t_def)
  have b: "\<not> snd (umul_overflow 8 t)" "unat (fst (umul_overflow 8 t)) = 8 * (n + 1)"
    using umul_overflow_iff [of 8 t] umul_overflow_value [of 8 t] t assms by simp_all
  define v where "v = fst (umul_overflow 8 t)"
  have v: "unat v = 8 * (n + 1)" using b(2) by (simp add: v_def)
  have c: "\<not> snd (uadd_overflow (of_nat sz) v)" "unat (fst (uadd_overflow (of_nat sz) v)) = sz + 8 * (n + 1)"
    using uadd_overflow_iff [of "of_nat sz" v] uadd_overflow_value [of "of_nat sz" v] v n assms by simp_all
  define w where "w = fst (uadd_overflow (of_nat sz) v)"
  have "\<not> snd (uadd_overflow 1 w)" using uadd_overflow_iff [of 1 w] c(2) assms by (simp add: w_def)
  then show ?thesis using a(1) b(1) c(1) by (simp add: t_def v_def w_def)
qed

lemma length_pieces: "length (pieces m) \<le> length m"
proof (induction m rule: pieces.induct)
  case (2 b m)
  then show ?case using length_dropWhile_le [of "\<lambda>c. c \<noteq> NUL" m] by (cases "b = NUL") auto
qed simp

lemma modinfo_vector_spec:
  assumes "s ! 0 \<noteq> NUL" and "k < length s" and "1 < k" and "k < 2 ^ 59"
  shows "\<exists>ps. modinfo_vector (\<lambda>_. True) s k = Some (Inr (length ps, map Some ps, take k s @ [NUL]))
    \<and> map (\<lambda>p. cstr (drop p (take k s @ [NUL]))) ps = pieces (take k s) \<and> (\<forall>p \<in> set ps. NUL \<in> set (drop p (take k s @ [NUL])))"
proof -
  define u where "u = take k s"
  have ul: "length u = k" using assms by (simp add: u_def)
  have "s \<noteq> []" using assms(2) by auto
  then have u0: "u \<noteq> []" "hd u \<noteq> NUL" using assms by (auto simp: u_def hd_conv_nth)
  have cs: "count_strings s k 0 0 = Some (k, nruns u)" using count_strings_spec [of k s 0 0] assms by (simp add: u_def)
  have lastc: "nth_opt s (k - 1) = Some (last u)" using assms u0 ul by (simp add: nth_opt_def last_conv_nth) (simp add: u_def)
  let ?c = "length (pieces u)"
  have c: "(if last u \<noteq> NUL then Suc (nruns u) else nruns u) = ?c" using pieces_nruns [OF u0] by simp
  have cl: "?c \<le> k" using length_pieces [of u] ul by simp
  have fol: "pieces u = cstr u # following u 0" using u0 by (cases u) auto
  then obtain n where n: "?c = Suc n" "length (following u 0) = n" by simp
  obtain ps where ps: "fill_strings (u @ [NUL]) (length u) (length [0 :: nat] + n) 0 (length [0 :: nat]) (map Some [0] @ replicate (Suc n) None)
      = Some (map Some ([0] @ ps) @ [None])" "map (\<lambda>p. cstr (drop p u)) ps = following u 0" "\<forall>p \<in> set ps. p < length u"
    using fill_strings_spec [OF n(2), of "[0]"] by auto
  have st: "store 0 0 (replicate ?c None @ [None]) = Some (map Some [0 :: nat] @ replicate (Suc n) None)"
    using n(1) by (simp add: store_def replicate_append_same)
  have lps: "length ps = n" using arg_cong [OF ps(2), of length] n(2) by simp
  have "modinfo_vector (\<lambda>_. True) s k = Some (Inr (length (0 # ps), map Some (0 # ps), u @ [NUL]))"
    unfolding modinfo_vector_def cs using lastc c modinfo_sizes [OF cl assms(4)] assms(2) st ps(1) n(1) lps ul
    by (simp add: Let_def split_beta flip: u_def)
  moreover have e: "cstr (drop p (u @ [NUL])) = cstr (drop p u)" "NUL \<in> set (drop p (u @ [NUL]))" if "p < length u" for p
    using that by (auto simp: takeWhile_tail)
  have "map (\<lambda>p. cstr (drop p (u @ [NUL]))) (0 # ps) = map (\<lambda>p. cstr (drop p u)) (0 # ps)"
    using ps(3) u0(1) by (intro map_cong refl e(1)) auto
  then have "map (\<lambda>p. cstr (drop p (u @ [NUL]))) (0 # ps) = pieces u" using ps(2) fol by simp
  moreover have "\<forall>p \<in> set (0 # ps). NUL \<in> set (drop p (u @ [NUL]))" using ps(3) u0(1) e(2) by auto
  ultimately show ?thesis unfolding u_def by blast
qed

text \<open>
  C31. The strings of the \<open>.modinfo\<close> section are all found: for an opened image in which the section is
  not at the very end, the function reads and writes inside its blocks and returns positions in its
  copy of the section, one per non-empty string between NULs and in their order, each string ended by
  a NUL in the copy even if the section does not end with one. (If at most one byte follows the zero
  padding of the section, no string is returned.)
\<close>

theorem modinfo_strings_split:
  assumes "elf_inv elf" and "el_sections elf SECTION_MODINFO = (off, sz)" and "off \<noteq> 0"
    and "unat off + unat sz < length (el_memory elf)" and "length (el_memory elf) < 2 ^ 59"
  defines "t \<equiv> dropWhile (\<lambda>c. c = NUL) (take (unat sz) (drop (unat off) (el_memory elf)))"
  shows "\<exists>ps s. kmod_elf_get_modinfo_strings (\<lambda>_. True) elf = Some (Inr (length ps, map Some ps, s))
    \<and> map (\<lambda>p. takeWhile (\<lambda>c. c \<noteq> NUL) (drop p s)) ps = (if length t \<le> 1 then [] else pieces t)
    \<and> (\<forall>p \<in> set ps. NUL \<in> set (drop p s))"
proof -
  let ?m = "mem_at (el_memory elf) off" and ?n = "unat sz"
  have len: "?n < length ?m" using assms(4) by (simp add: mem_at_def)
  obtain p where p: "skip_padding ?m ?n = Some (drop p ?m, ?n - p)" "p \<le> ?n" "\<forall>c \<in> set (take p ?m). c = NUL"
      "1 < ?n - p \<longrightarrow> ?m ! p \<noteq> NUL"
    using skip_padding_spec [of ?n ?m] len by auto
  define u where "u = take (?n - p) (drop p ?m)"
  have split: "take ?n ?m = take p ?m @ u" unfolding u_def using p(2) by (metis le_add_diff_inverse take_add)
  then have tu: "t = dropWhile (\<lambda>c. c = NUL) u" using p(3) by (simp add: t_def mem_at_def dropWhile_append2)
  have ul: "length u = ?n - p" using len by (simp add: u_def)
  show ?thesis
  proof (cases "?n - p \<le> 1")
    case True
    then have "length t \<le> 1" using tu ul length_dropWhile_le [of _ u] by (metis le_trans)
    then show ?thesis using True p(1) assms(2,3) by (auto simp: kmod_elf_get_modinfo_strings_def)
  next
    case False
    then have h: "drop p ?m ! 0 \<noteq> NUL" "?n - p < length (drop p ?m)" "?n - p < 2 ^ 59"
      using p(2,4) len assms(5) by (simp_all add: mem_at_def add.commute)
    obtain ps where ps: "modinfo_vector (\<lambda>_. True) (drop p ?m) (?n - p) = Some (Inr (length ps, map Some ps, u @ [NUL]))"
      "map (\<lambda>q. cstr (drop q (u @ [NUL]))) ps = pieces u" "\<forall>q \<in> set ps. NUL \<in> set (drop q (u @ [NUL]))"
      using modinfo_vector_spec [OF h(1,2) _ h(3)] False by (auto simp: u_def)
    have "u \<noteq> []" "hd u \<noteq> NUL" using h False ul by (auto simp: u_def hd_conv_nth)
    then have t: "t = u" using tu by (cases u) auto
    have "kmod_elf_get_modinfo_strings (\<lambda>_. True) elf = Some (Inr (length ps, map Some ps, u @ [NUL]))"
      using p(1) False assms(2,3) ps(1) by (simp add: kmod_elf_get_modinfo_strings_def)
    then show ?thesis using ps(2,3) t ul False by auto
  qed
qed

theorem modinfo_strings_split_witness:
  "\<exists>elf ps s. kmod_elf_get_modinfo_strings (\<lambda>_. True) elf = Some (Inr (2, map Some ps, s))
    \<and> map (\<lambda>p. takeWhile (\<lambda>c. c \<noteq> NUL) (drop p s)) ps = [''a=1'', ''b'']"
proof -
  let ?elf = "\<lparr>el_memory = NUL # ''a=1'' @ NUL # ''b'' @ [NUL, NUL], el_x32 = True, el_msb = False, el_sec_offset = 0, el_sec_count = 0,
     el_sec_entry_size = 40, el_str_section = 0, el_str_offset = 0, el_str_size = 1, el_machine = 0,
     el_sections = (\<lambda>sec. if sec = SECTION_MODINFO then (1, 6) else (0, 0))\<rparr>"
  have inv: "elf_inv ?elf" by (simp add: elf_inv_def headers_inv_def names_inv_def in_image_def shdr_size_def)
  have t: "dropWhile (\<lambda>c. c = NUL) (take (unat (6 :: u64)) (drop (unat (1 :: u64)) (el_memory ?elf))) = ''a=1'' @ NUL # ''b'' @ [NUL]"
    by simp
  obtain ps s where r: "kmod_elf_get_modinfo_strings (\<lambda>_. True) ?elf = Some (Inr (length ps, map Some ps, s))"
    "map (\<lambda>p. takeWhile (\<lambda>c. c \<noteq> NUL) (drop p s)) ps = [''a=1'', ''b'']"
    using modinfo_strings_split [OF inv, of 1 6] unfolding t by force
  have "length ps = 2" using arg_cong [OF r(2), of length] by simp
  then show ?thesis using r by metis
qed

section \<open>The end of the image\<close>

lemma count_nuls_inside: "count_nuls m sz i = Some j \<Longrightarrow> j < length m"
proof (induction m sz i rule: count_nuls.induct)
  case (1 m sz i)
  then show ?case by (subst (asm) (2) count_nuls.simps) (auto simp: bind_eq_Some_conv nth_opt_def split: if_splits)
qed

text \<open>The pass gets past the last byte of the image only by reading behind it.\<close>

lemma count_strings_overread:
  assumes "i < length m" and "last m = NUL"
  shows "count_strings m (length m) i n = None"
  using assms
proof (induction "length m - i" arbitrary: i n rule: less_induct)
  case less
  have c: "nth_opt m i = Some (m ! i)" using less.prems by (simp add: nth_opt_def)
  show ?case
  proof (cases "m ! i = NUL")
    case False
    have "m \<noteq> []" using less.prems(1) by auto
    then have "i \<noteq> length m - 1" using less.prems False by (metis last_conv_nth)
    then have "Suc i < length m" using less.prems(1) by simp
    then show ?thesis using less c False by (subst count_strings.simps) simp
  next
    case True
    have "count_strings m (length m) j (Suc n) = None" if "count_nuls m (length m) i = Some j" for j
      using less count_nuls_inside [OF that] count_nuls_less [OF that less.prems(1)] c True by simp
    then show ?thesis using less.prems c True by (subst count_strings.simps) (cases "count_nuls m (length m) i"; simp)
  qed
qed

text \<open>
  C34. A defect: the counting pass reads past the image. Its inner loop looks at \<open>strings[i]\<close> before it
  compares \<open>i\<close> with the size, so whenever a \<open>.modinfo\<close> section with a string in it is the end of the image
  and its last byte is a NUL, as it should be, one byte behind the image is read.
\<close>

theorem modinfo_overread:
  assumes "el_sections elf SECTION_MODINFO = (off, sz)" and "off \<noteq> 0"
    and "unat off + unat sz = length (el_memory elf)" and "last (el_memory elf) = NUL"
    and "\<exists>c \<in> set (drop (unat off) (el_memory elf)). c \<noteq> NUL"
  shows "kmod_elf_get_modinfo_strings alloc elf = None"
proof -
  let ?m = "mem_at (el_memory elf) off"
  have len: "length ?m = unat sz" using assms(3) by (simp add: mem_at_def)
  have ne: "?m \<noteq> []" using assms(5) by (auto simp: mem_at_def)
  then have nul: "last ?m = NUL" using assms(4) by (simp add: mem_at_def last_drop)
  obtain p where p: "skip_padding ?m (unat sz) = Some (drop p ?m, unat sz - p)" "p \<le> unat sz"
      "\<forall>c \<in> set (take p ?m). c = NUL"
    using skip_padding_spec [of "unat sz" ?m] len by auto
  have "\<exists>c \<in> set (drop p ?m). c \<noteq> NUL"
    using assms(5) p(3) unfolding mem_at_def by (metis Un_iff append_take_drop_id set_append)
  moreover have "length xs \<noteq> 1" if "last xs = NUL" "\<exists>c \<in> set xs. c \<noteq> NUL" for xs :: bytes
    using that by (cases xs) auto
  moreover from calculation(1) have pl: "p < length ?m" by (cases "p < length ?m") auto
  ultimately have ne': "drop p ?m \<noteq> []" "length (drop p ?m) \<noteq> 1"
    using nul last_drop [OF pl] by (auto simp del: length_drop)
  then have "1 < unat sz - p" using len by (cases "unat sz - p") auto
  moreover have "count_strings (drop p ?m) (unat sz - p) 0 0 = None"
    using count_strings_overread [of 0 "drop p ?m" 0] ne' nul len by (simp add: last_drop)
  ultimately show ?thesis using p(1) assms(1,2) by (simp add: kmod_elf_get_modinfo_strings_def modinfo_vector_def)
qed

text \<open>
  A 32-bit image with the sections \<open>__versions\<close>, \<open>.modinfo\<close> at the end of the image, and the section
  of the section names.
\<close>

definition section_entry :: "nat \<Rightarrow> nat \<Rightarrow> nat \<Rightarrow> nat \<Rightarrow> bytes" where
  "section_entry name flags off sz =
     map char_of [name, 0, 0, 0, 0, 0, 0, 0, flags, 0, 0, 0, 0, 0, 0, 0, off, 0, 0, 0, sz, 0, 0, 0] @ replicate 16 NUL"

definition module_image :: bytes where
  "module_image = CHR 0x7F # ''ELF'' @ [CHR 0x01, CHR 0x01] @ replicate 26 NUL @ [CHR 0x34] @ replicate 13 NUL
     @ [CHR 0x28, NUL, CHR 0x04, NUL, CHR 0x03, NUL] @ replicate 40 NUL
     @ section_entry 1 2 212 4 @ section_entry 12 2 233 21 @ section_entry 0 0 212 21
     @ NUL # ''__versions'' @ NUL # ''.modinfo'' @ NUL # ''a=GPL'' @ NUL # ''vermagic=6'' @ NUL # ''n=x'' @ [NUL]"

lemma module_image_index: "names_index_ok module_image"
proof -
  have "elf_identify module_image = Some (Inr (True, False))" by code_simp
  moreover have "map_option (\<lambda>elf. (el_str_section elf, el_sec_count elf)) (load_header (elf_init module_image True False)) = Some (3, 4)"
    by code_simp
  ultimately show ?thesis unfolding names_index_ok_def by auto
qed

lemma module_image_new:
  "\<exists>elf. kmod_elf_new (\<lambda>_. True) module_image = Some (Inr elf) \<and> el_memory elf = module_image \<and> elf_inv elf \<and> el_x32 elf
    \<and> el_sections elf SECTION_MODINFO = (233, 21) \<and> kmod_elf_get_section elf ''__versions'' = Some (Inr (1, 212, 4))
    \<and> elf_get_section_header_offset elf 1 = Some 92 \<and> elf_get_uint elf 100 4 = Some 2"
proof -
  have r: "map_option (map_sum id (\<lambda>e. (el_x32 e, el_sections e SECTION_MODINFO, kmod_elf_get_section e ''__versions'',
      elf_get_section_header_offset e 1, elf_get_uint e 100 4))) (kmod_elf_new (\<lambda>_. True) module_image)
    = Some (Inr (True, (233, 21), Some (Inr (1, 212, 4)), Some 92, Some 2))"
    by code_simp
  then obtain q where q: "kmod_elf_new (\<lambda>_. True) module_image = Some q" by (cases "kmod_elf_new (\<lambda>_. True) module_image") auto
  then obtain elf where elf: "kmod_elf_new (\<lambda>_. True) module_image = Some (Inr elf)" using r by (cases q) auto
  have l: "length module_image < 2 ^ 63" by (simp add: module_image_def section_entry_def)
  then show ?thesis using r elf elf_new_opened [OF l module_image_index, of "\<lambda>_. True"] by (auto simp: opened_def good_elf_def)
qed

theorem modinfo_overread_witness:
  "\<exists>elf. kmod_elf_new (\<lambda>_. True) module_image = Some (Inr elf) \<and> kmod_elf_get_modinfo_strings (\<lambda>_. True) elf = None"
proof -
  obtain elf where elf: "kmod_elf_new (\<lambda>_. True) module_image = Some (Inr elf)" "el_memory elf = module_image"
    "el_sections elf SECTION_MODINFO = (233, 21)" using module_image_new by blast
  have "unat (233 :: u64) + unat (21 :: u64) = length module_image" "last module_image = NUL"
    "\<exists>c \<in> set (drop (unat (233 :: u64)) module_image). c \<noteq> NUL"
    by (simp_all add: module_image_def section_entry_def)
  then show ?thesis using modinfo_overread [of elf 233 21] elf by auto
qed

end
