(* ===== verification/Kmod_Elf_Strip.thy ===== *)
theory Kmod_Elf_Strip
  imports Kmod_Elf_Info
begin

text \<open>
  Removing version information from an image (\<open>kmod_elf_strip\<close>), for modules that are inserted by
  force: which bytes of the copy change, and to what.
\<close>

section \<open>Writing and reading integers\<close>

lemma be_value_snoc: "be_value (bs @ [b]) = be_value bs * 256 + of_char b"
  by (simp add: be_value_def)

lemma of_char_low: "of_char (char_of (unat (v AND 0xff))) = (take_bit 8 v :: u64)"
proof -
  have m: "v AND 0xff = take_bit 8 v" by (simp add: take_bit_eq_mask mask_eq_exp_minus_1)
  have "unat (take_bit 8 v) = take_bit 8 (unat v)" by (simp add: unsigned_take_bit_eq)
  then have "unat (take_bit 8 v) < 256" using take_bit_nat_less_exp [of 8 "unat v"] by simp
  then have "(of_char (char_of (unat (take_bit 8 v))) :: nat) = unat (take_bit 8 v)" by simp
  then have "(of_nat (of_char (char_of (unat (take_bit 8 v)))) :: u64) = of_nat (unat (take_bit 8 v))" by (rule arg_cong)
  then show ?thesis unfolding m by (simp only: of_nat_of_char of_nat_unat ucast_id)
qed

lemma length_le_bytes [simp]: "length (le_bytes n v) = n"
  by (induction n arbitrary: v) simp_all

lemma be_value_le_bytes: "be_value (rev (le_bytes n v)) = take_bit (8 * n) v"
proof (induction n arbitrary: v)
  case (Suc n)
  have "drop_bit 8 (v AND 0xffffffffffffff00) = drop_bit 8 v"
  proof -
    have "(0xffffffffffffff00 :: u64) = NOT (mask 8)" by (simp add: mask_eq_exp_minus_1 not_eq_complement)
    then have "drop_bit 8 (v AND 0xffffffffffffff00) = drop_bit 8 v AND drop_bit 8 (NOT (mask 8))"
      by (simp only: drop_bit_and)
    moreover have "drop_bit 8 (NOT (mask 8) :: u64) = mask 56" by (simp add: mask_eq_exp_minus_1 not_eq_complement)
    moreover have "drop_bit 8 v AND mask 56 = drop_bit 8 v"
      by (rule bit_eqI) (auto simp: bit_simps dest: bit_imp_le_length)
    ultimately show ?thesis by simp
  qed
  then have "be_value (rev (le_bytes (Suc n) v)) = push_bit 8 (take_bit (8 * n) (drop_bit 8 v)) + take_bit 8 v"
    using Suc by (simp add: be_value_snoc of_char_low push_bit_eq_mult del: of_char_of)
  also have "\<dots> = take_bit (8 * Suc n) v"
    using bits_ident [of 8 "take_bit (8 * Suc n) v"] by (simp add: drop_bit_take_bit)
  finally show ?case .
qed (simp add: be_value_def)

lemma set_get_uint:
  assumes "sz \<le> 8" and "unat off + sz \<le> length changed"
  shows "\<exists>img. elf_set_uint elf off sz v changed = Some img \<and> length img = length changed
    \<and> elf_get_uint (elf\<lparr>el_memory := img\<rparr>) off sz = Some (take_bit (8 * sz) v)
    \<and> (\<forall>i. i < unat off \<or> unat off + sz \<le> i \<longrightarrow> i < length changed \<longrightarrow> img ! i = changed ! i)"
proof -
  let ?bs = "if el_msb elf then rev (le_bytes sz v) else le_bytes sz v"
  let ?img = "take (unat off) changed @ ?bs @ drop (unat off + sz) changed"
  have len: "length ?bs = sz" by simp
  have t: "take sz (drop (unat off) ?img) = ?bs" using assms(2) len by simp
  have "elf_set_uint elf off sz v changed = Some ?img" using assms by (simp add: elf_set_uint_def Let_def)
  moreover have "length ?img = length changed" using assms(2) len by simp
  moreover have "elf_get_uint (elf\<lparr>el_memory := ?img\<rparr>) off sz = Some (take_bit (8 * sz) v)"
    using assms calculation(2) t be_value_le_bytes [of sz v] by (simp add: elf_get_uint_def mem_at_def Let_def)
  moreover have "?img ! i = changed ! i" if "i < unat off \<or> unat off + sz \<le> i" "i < length changed" for i
    using that assms(2) len by (auto simp: nth_append)
  ultimately show ?thesis by blast
qed

section \<open>The flags of the version section\<close>

text \<open>
  The image is the old one outside the \<open>n\<close> bytes at \<open>p\<close>, and, for the section of the version
  strings, outside that section.
\<close>

definition same_outside :: "nat \<Rightarrow> nat \<Rightarrow> bytes \<Rightarrow> bytes \<Rightarrow> bool" where
  "same_outside p n mem img \<longleftrightarrow> length img = length mem
     \<and> (\<forall>i < length mem. i < p \<or> p + n \<le> i \<longrightarrow> img ! i = mem ! i)"

lemma first_named_index: "first_named elf s is = Some (idx, r) \<Longrightarrow> \<exists>i \<in> set is. idx = of_nat i"
  by (induction "is") (auto split: option.splits sum.splits if_splits)

lemma strip_versions_spec:
  assumes inv: "elf_inv elf" and len: "length changed = length (el_memory elf)"
  shows "\<exists>img. elf_strip_versions_section elf changed = Some (Inr img)
    \<and> (case kmod_elf_get_section elf ''__versions'' of
         Some (Inr (idx, _, _)) \<Rightarrow> (\<exists>off v. let w = (if el_x32 elf then 4 else 8) in
             elf_get_section_header_offset elf idx = Some off \<and> elf_get_uint elf (off + 8) w = Some v
             \<and> elf_get_uint (elf\<lparr>el_memory := img\<rparr>) (off + 8) w = Some (take_bit (8 * w) (v AND NOT 2))
             \<and> same_outside (unat off + 8) w changed img)
       | _ \<Rightarrow> img = changed)"
proof -
  have hn: "headers_inv elf" "names_inv elf" using inv by (simp_all add: elf_inv_def)
  let ?is = "[1..<unat (el_sec_count elf)]"
  have find: "foldM (find_section elf ''__versions'') ?is None = Some (first_named elf ''__versions'' ?is)"
    using find_sections_spec [OF hn] by simp
  show ?thesis
  proof (cases "first_named elf ''__versions'' ?is")
    case None
    then show ?thesis using find by (simp add: elf_strip_versions_section_def kmod_elf_get_section_def)
  next
    case (Some q)
    obtain idx o' s' where q: "q = (idx, o', s')" by (cases q) auto
    have get: "kmod_elf_get_section elf ''__versions'' = Some (Inr (idx, o', s'))"
      using find Some q by (simp add: kmod_elf_get_section_def)
    obtain i where i: "i \<in> {1..<unat (el_sec_count elf)}" "idx = of_nat i"
      using first_named_index [of elf "''__versions''" ?is idx "(o', s')"] Some q by auto
    obtain off where off: "elf_get_section_header_offset elf idx = Some off" "unat off + shdr_size elf \<le> length (el_memory elf)"
      using header_offset [OF hn(1) section_index [OF i(1)]] i(2) by auto
    let ?w = "if el_x32 elf then 4 else 8 :: nat"
    have w: "?w \<le> 8" "unat (8 :: u64) + ?w \<le> shdr_size elf" by (simp_all add: shdr_size_def)
    have o8: "unat (off + 8) = unat off + 8" using off(2) elf_inv_len [OF inv] w by (subst unat_off_add) (auto split: if_splits)
    obtain v where v: "elf_get_uint elf (off + 8) ?w = Some v" using entry_field [OF inv off(2) w(2,1)] by blast
    have "unat (off + 8) + ?w \<le> length changed" using o8 off(2) w(2) len by simp
    then obtain img where img: "elf_set_uint elf (off + 8) ?w (v AND NOT 2) changed = Some img" "length img = length changed"
        "elf_get_uint (elf\<lparr>el_memory := img\<rparr>) (off + 8) ?w = Some (take_bit (8 * ?w) (v AND NOT 2))"
        "\<forall>i. i < unat (off + 8) \<or> unat (off + 8) + ?w \<le> i \<longrightarrow> i < length changed \<longrightarrow> img ! i = changed ! i"
      using set_get_uint [OF w(1), of "off + 8" changed elf "v AND NOT 2"] by blast
    have so: "same_outside (unat off + 8) ?w changed img" using img(2,4) unfolding same_outside_def o8 by blast
    have "elf_strip_versions_section elf changed = Some (Inr img)"
      unfolding elf_strip_versions_section_def get using off(1) v img(1) by simp
    then show ?thesis unfolding get using off(1) v img(3) so by (auto simp: Let_def)
  qed
qed

section \<open>The version magic\<close>

lemma strlen_at_terminated: "NUL \<in> set m \<Longrightarrow> strlen_at m = Some (length (cstr m))"
  by (induction m) auto

lemma takeWhile_stops: "e < length xs \<Longrightarrow> \<not> P (xs ! e) \<Longrightarrow> length (takeWhile P xs) \<le> e"
  by (metis linorder_not_le nth_mem set_takeWhileD takeWhile_nth)

text \<open>
  The strings of a section start at its beginning and behind every NUL. \<open>vermagic_pos\<close> is the first
  string that begins with \<open>vermagic=\<close>, and \<open>without_vermagic\<close> an image with that string cleared: an error
  if there is none, except in a section without strings.
\<close>

definition vermagic_start :: "bytes \<Rightarrow> nat \<Rightarrow> bool" where
  "vermagic_start sec j \<longleftrightarrow> (j = 0 \<or> sec ! (j - 1) = NUL) \<and> take 9 (drop j sec) = ''vermagic=''"

definition vermagic_pos :: "bytes \<Rightarrow> nat option" where
  "vermagic_pos sec = find (vermagic_start sec) [0..<length sec]"

definition clear_string :: "nat \<Rightarrow> bytes \<Rightarrow> nat \<Rightarrow> bytes \<Rightarrow> bytes" where
  "clear_string off sec j img =
     (let l = length (cstr (drop j sec)) in take (off + j) img @ replicate l NUL @ drop (off + j + l) img)"

definition without_vermagic :: "nat \<Rightarrow> bytes \<Rightarrow> bytes \<Rightarrow> bytes result" where
  "without_vermagic off sec img =
     (if \<forall>c \<in> set sec. c = NUL then Inr img
      else case vermagic_pos sec of None \<Rightarrow> Inl ENODATA | Some j \<Rightarrow> Inr (clear_string off sec j img))"

lemma vermagic_start_room:
  assumes "vermagic_start sec j" and "sec \<noteq> []" and "last sec = NUL"
  shows "j + 9 < length sec"
proof -
  have t: "take 9 (drop j sec) = ''vermagic=''" using assms(1) by (simp add: vermagic_start_def)
  then have "length (take 9 (drop j sec)) = 9" by simp
  then have l: "9 \<le> length (drop j sec)" by simp
  have "drop j sec ! 8 = CHR ''=''" using arg_cong [OF t, of "\<lambda>xs. xs ! 8"] by simp
  moreover have "drop j sec ! 8 = last sec" if "j + 9 = length sec"
    using that assms(2) by (simp add: last_conv_nth add.commute flip: that)
  ultimately show ?thesis using l assms(3) by (cases "j + 9 = length sec") auto
qed

lemma vermagic_start_string: "vermagic_start sec j \<Longrightarrow> j < length sec \<Longrightarrow> sec ! j \<noteq> NUL"
  by (auto simp: vermagic_start_def dest: arg_cong [where f = "\<lambda>xs. xs ! 0"])

lemma find_append: "find P (xs @ ys) = (case find P xs of None \<Rightarrow> find P ys | Some x \<Rightarrow> Some x)"
  by (induction xs) simp_all

lemma find_map: "find P (map f xs) = map_option f (find (P \<circ> f) xs)"
  by (induction xs) simp_all

lemma find_upt_skip:
  assumes "i \<le> k" and "k \<le> n" and "\<And>j. i \<le> j \<Longrightarrow> j < k \<Longrightarrow> \<not> P j"
  shows "find P [i..<n] = find P [k..<n]"
proof -
  have "find P [i..<k] = None" using assms(3) by (simp add: find_None_iff)
  moreover have "[i..<n] = [i..<k] @ [k..<n]" using assms(1,2) by (metis le_Suc_ex upt_add_eq_append)
  ultimately show ?thesis by (simp add: find_append)
qed

lemma last_take: "0 < n \<Longrightarrow> n \<le> length m \<Longrightarrow> last (take n m) = m ! (n - 1)"
  by (subst last_conv_nth) auto

lemma cstr_inside:
  assumes "n \<le> length m" and "j < n" and "m ! (n - 1) = NUL"
  shows "cstr (drop j (take n m)) = cstr (drop j m)" and "j + length (cstr (drop j m)) < n" and "NUL \<in> set (drop j m)"
proof -
  let ?t = "drop j (take n m)"
  have "?t \<noteq> []" "last ?t = NUL" using assms last_take [of n m] by (auto simp: last_drop)
  then have nul: "NUL \<in> set ?t" by (metis last_in_set)
  have split: "drop j m = ?t @ drop n m" using assms by (metis append_take_drop_id drop_append length_take less_imp_le min.absorb2
      diff_is_0_eq drop0)
  show eq: "cstr ?t = cstr (drop j m)" unfolding split using nul by (simp add: takeWhile_append1 [of NUL])
  show "NUL \<in> set (drop j m)" unfolding split using nul by simp
  have "length (cstr ?t) \<le> length ?t" by (rule length_takeWhile_le)
  moreover have "length (cstr ?t) \<noteq> length ?t" 
  proof
    assume "length (cstr ?t) = length ?t"
    then have "cstr ?t = ?t" by (metis append_eq_conv_conj takeWhile_dropWhile_id take_all order_refl)
    then show False using nul by (metis set_takeWhileD)
  qed
  ultimately have "length (cstr ?t) < length ?t" by simp
  then show "j + length (cstr (drop j m)) < n" using eq assms by simp
qed

text \<open>The loop finds the first string with the prefix; it is at the start of a string, or too near the end for one.\<close>

lemma vermagic_loop_exact:
  assumes "n \<le> length strings" and "0 < n" and "strings ! (n - 1) = NUL" and "base + n \<le> length changed" and "i \<le> n"
    and "i = 0 \<or> strings ! (i - 1) = NUL \<or> n \<le> i + 9"
  shows "vermagic_loop strings base n i changed = Some (case find (vermagic_start (take n strings)) [i..<n] of
      None \<Rightarrow> Inl ENODATA | Some j \<Rightarrow> Inr (clear_string base (take n strings) j changed))"
  using assms
proof (induction strings base n i changed rule: vermagic_loop.induct)
  case (1 strings base n i changed)
  let ?sec = "take n strings" and ?V = "vermagic_start (take n strings)"
  have sec: "?sec \<noteq> []" "last ?sec = NUL" "length ?sec = n" using "1.prems"(1-3) last_take [of n strings] by auto
  show ?case
  proof (cases "i < n")
    case False
    then show ?thesis by (subst vermagic_loop.simps) simp
  next
    case True
    have c: "nth_opt strings i = Some (strings ! i)" using True "1.prems"(1) by (simp add: nth_opt_def)
    show ?thesis
    proof (cases "strings ! i = NUL \<or> n \<le> i + 1 \<or> n \<le> i + 9")
      case skip: True
      then have "\<not> ?V i" using vermagic_start_room [of ?sec i] vermagic_start_string [of ?sec i] sec True by auto
      then have f: "find ?V [i..<n] = find ?V [Suc i..<n]" using True by (simp add: upt_rec [of i n])
      have "vermagic_loop strings base n i changed = vermagic_loop strings base n (Suc i) changed"
        using True c skip by (subst vermagic_loop.simps) simp
      then show ?thesis unfolding f using "1.IH"(1) [OF True c skip "1.prems"(1-4)] True skip by auto
    next
      case False
      let ?l = "length (cstr (drop i strings))"
      note cs = cstr_inside [OF "1.prems"(1) True "1.prems"(3)]
      have st: "strlen_at (drop i strings) = Some ?l" using strlen_at_terminated [OF cs(3)] .
      have n9: "length ''vermagic='' = 9" by simp
      have eq: "strncmp_at (drop i strings) ''vermagic='' = Some (take 9 (drop i strings) = ''vermagic='')"
      proof (rule strncmp_at_long [of "''vermagic=''" "drop i strings", unfolded n9])
        show "9 \<le> length (drop i strings)" using False "1.prems"(1) unfolding length_drop by linarith
      qed
      have t: "take 9 (drop i ?sec) = take 9 (drop i strings)" using False by (auto simp: drop_take min_def)
      have start: "i = 0 \<or> ?sec ! (i - 1) = NUL" using "1.prems"(6) False True by auto
      show ?thesis
      proof (cases "take 9 (drop i strings) = ''vermagic=''")
        case hit: True
        then have "?V i" using start t by (simp add: vermagic_start_def)
        then have "find ?V [i..<n] = Some i" using True by (simp add: upt_rec [of i n])
        moreover have "vermagic_loop strings base n i changed = Some (Inr (clear_string base ?sec i changed))"
          using True c False eq st hit cs(1,2) "1.prems"(4) by (subst vermagic_loop.simps) (simp add: clear_string_def Let_def)
        ultimately show ?thesis by simp
      next
        case miss: False
        have "\<not> ?V j" if "i \<le> j" "j < Suc (i + ?l)" for j
        proof (cases "j = i")
          case False
          then have "j - 1 - i < ?l" using that by linarith
          then have "cstr (drop i strings) ! (j - 1 - i) \<in> set (cstr (drop i strings))" by (rule nth_mem)
          then have "cstr (drop i strings) ! (j - 1 - i) \<noteq> NUL" using set_takeWhileD by metis
          then have "drop i strings ! (j - 1 - i) \<noteq> NUL" using takeWhile_nth [OF \<open>j - 1 - i < ?l\<close>] by simp
          moreover have "i + (j - 1 - i) = j - 1" "i \<le> length strings" using False that cs(2) "1.prems"(1) by linarith+
          ultimately have "strings ! (j - 1) \<noteq> NUL" by (metis nth_drop)
          then show ?thesis using False that cs(2) by (simp add: vermagic_start_def)
        qed (use miss t in \<open>simp add: vermagic_start_def\<close>)
        then have f: "find ?V [i..<n] = find ?V [Suc (i + ?l)..<n]" using cs(2) by (intro find_upt_skip) auto
        have "vermagic_loop strings base n i changed = vermagic_loop strings base n (Suc (i + ?l)) changed"
          using True c False eq st miss by (subst vermagic_loop.simps) simp
        moreover have "drop i strings ! ?l = NUL" using cs(2) "1.prems"(1) by (intro nth_length_takeWhile [where P = "\<lambda>c. c \<noteq> NUL", simplified]) simp
        then have "strings ! (Suc (i + ?l) - 1) = NUL" using cs(2) "1.prems"(1) by simp
        ultimately show ?thesis unfolding f using "1.IH"(2) [OF True c False eq st] miss "1.prems" cs(2) by auto
      qed
    qed
  qed
qed

text \<open>Leading NULs do not matter.\<close>

lemma vermagic_pos_padding:
  assumes "p \<le> length sec" and "\<forall>c \<in> set (take p sec). c = NUL"
  shows "vermagic_pos sec = map_option (\<lambda>j. p + j) (vermagic_pos (drop p sec))"
proof -
  have pad: "sec ! j = NUL" if "j < p" for j using assms that by (metis length_take min.absorb2 nth_mem nth_take)
  have "\<not> vermagic_start sec j" if "j < p" for j
    using vermagic_start_string [of sec j] pad [OF that] that assms(1) by auto
  then have "vermagic_pos sec = find (vermagic_start sec) [p..<length sec]"
    unfolding vermagic_pos_def using assms(1) by (intro find_upt_skip) auto
  also have "\<dots> = find (vermagic_start sec) (map (\<lambda>j. p + j) [0..<length (drop p sec)])"
    using assms(1) by (simp add: map_add_upt add.commute)
  also have "\<dots> = map_option (\<lambda>j. p + j) (find (vermagic_start sec \<circ> (\<lambda>j. p + j)) [0..<length (drop p sec)])"
    by (rule find_map)
  also have "find (vermagic_start sec \<circ> (\<lambda>j. p + j)) [0..<length (drop p sec)] = vermagic_pos (drop p sec)"
    unfolding vermagic_pos_def
  proof (intro find_cong refl)
    fix j assume "j \<in> set [0..<length (drop p sec)]"
    then have "p + (j - 1) = p + j - 1 \<or> j = 0" by auto
    then show "(vermagic_start sec \<circ> (\<lambda>j. p + j)) j = vermagic_start (drop p sec) j"
      using pad [of "p - 1"] assms(1) by (cases "j = 0"; cases "p = 0") (auto simp: vermagic_start_def add.commute)
  qed
  finally show ?thesis .
qed

lemma strip_vermagic_exact:
  assumes inv: "elf_inv elf" and len: "length changed = length (el_memory elf)"
    and sec: "el_sections elf SECTION_MODINFO = (off, sz)"
    and nul: "0 < sz \<Longrightarrow> el_memory elf ! (unat off + unat sz - 1) = NUL"
  shows "elf_strip_vermagic elf changed = Some (if off = 0 then Inr changed
    else without_vermagic (unat off) (take (unat sz) (drop (unat off) (el_memory elf))) changed)"
proof (cases "off = 0")
  case False
  have im: "unat off + unat sz \<le> length (el_memory elf)" using inv sec by (metis elf_inv_def fst_conv in_image_def snd_conv)
  let ?m = "mem_at (el_memory elf) off" and ?sec = "take (unat sz) (drop (unat off) (el_memory elf))"
  have lm: "unat sz \<le> length ?m" unfolding mem_at_def length_drop using im by linarith
  obtain p where p: "skip_padding ?m (unat sz) = Some (drop p ?m, unat sz - p)" "p \<le> unat sz"
      "\<forall>c \<in> set (take p ?m). c = NUL" "1 < unat sz - p \<longrightarrow> ?m ! p \<noteq> NUL"
    using skip_padding_spec [OF lm] by blast
  have ls: "length ?sec = unat sz" using lm by (simp add: mem_at_def)
  have lastn: "0 < sz \<Longrightarrow> ?sec ! (unat sz - 1) = NUL" using nul im by (simp add: word_less_nat_alt)
  have pads: "\<forall>c \<in> set (take p ?sec). c = NUL" using p(2,3) by (simp add: mem_at_def min_def)
  have tail: "drop p ?sec = take (unat sz - p) (drop p ?m)" by (simp add: mem_at_def drop_take)
  show ?thesis
  proof (cases "unat sz - p \<le> 1")
    case True
    have "c = NUL" if c: "c \<in> set (drop p ?sec)" for c
    proof -
      have "length (drop p ?sec) \<le> 1" "drop p ?sec \<noteq> []" using c True ls by (auto simp: length_drop)
      then have one: "length (drop p ?sec) = 1" by (cases "drop p ?sec") auto
      then have "unat sz - 1 = p" "0 < sz" using ls by (auto simp: word_less_nat_alt)
      then have "drop p ?sec ! 0 = NUL" using lastn ls by simp
      then show ?thesis using c one by (cases "drop p ?sec") auto
    qed
    then have "\<forall>c \<in> set ?sec. c = NUL" using pads by (metis Un_iff append_take_drop_id set_append)
    then show ?thesis using False sec p(1) True by (simp add: elf_strip_vermagic_def without_vermagic_def)
  next
    case more: False
    let ?s = "drop p ?m" and ?n = "unat sz - p"
    have z: "0 < sz" using more by (auto simp: word_less_nat_alt)
    have b: "length (el_memory elf) - length ?s = unat off + p" using p(2) im by (simp add: mem_at_def)
    have s: "?n \<le> length ?s" "0 < ?n" "unat off + p + ?n \<le> length changed" using p(2) lm im len more by auto
    have "?s ! (?n - 1) = NUL" using lastn [OF z] p(2) more lm by (simp add: mem_at_def)
    note loop = vermagic_loop_exact [OF s(1,2) this s(3), of 0]
    have "?sec ! p \<noteq> NUL" using p(4) more lm by (simp add: mem_at_def)
    moreover have "?sec ! p \<in> set ?sec" using more ls by (intro nth_mem) linarith
    ultimately have some: "\<not> (\<forall>c \<in> set ?sec. c = NUL)" by blast
    have d: "drop j (take ?n ?s) = drop (p + j) ?sec" for j unfolding tail [symmetric] by (simp only: drop_drop add.commute)
    have cl: "clear_string (unat off + p) (take ?n ?s) j changed = clear_string (unat off) ?sec (p + j) changed" for j
      unfolding clear_string_def d by (simp only: Let_def add.assoc)
    have "find (vermagic_start (take ?n ?s)) [0..<?n] = vermagic_pos (drop p ?sec)"
      unfolding vermagic_pos_def tail using s(1) by (simp only: length_take min.absorb2)
    then have "vermagic_loop ?s (unat off + p) ?n 0 changed = Some (without_vermagic (unat off) ?sec changed)"
      using loop some vermagic_pos_padding [of p ?sec] pads ls p(2)
      by (cases "vermagic_pos (drop p ?sec)") (simp_all only: without_vermagic_def cl option.case option.map if_False simp_thms le0)
    then have "elf_strip_vermagic elf changed = Some (without_vermagic (unat off) ?sec changed)"
      using False sec p(1) more b by (simp add: elf_strip_vermagic_def)
    then show ?thesis using False by simp
  qed
qed (use sec in \<open>simp add: elf_strip_vermagic_def\<close>)

section \<open>Property\<close>

text \<open>
  C30. Stripping changes exactly the version information: for an opened image whose \<open>.modinfo\<close> section
  ends with a NUL, \<open>kmod_elf_strip\<close> stays inside the image. With the flag for the symbol versions the
  copy differs from the image only in the flags word of the header of \<open>__versions\<close>, which reads back
  as the old flags without \<open>SHF_ALLOC\<close>, and is the image itself if there is no such section. With the
  flag for the version magic the bytes of the first string of \<open>.modinfo\<close> that begins with
  \<open>vermagic=\<close> become NUL and no other byte changes; it is an error if the section has strings but no such
  string. With both flags the copy has both changes.
\<close>

theorem elf_strip_confined:
  assumes "elf_inv elf" and "el_sections elf SECTION_MODINFO = (off, sz)"
    and "0 < sz \<Longrightarrow> el_memory elf ! (unat off + unat sz - 1) = NUL"
  defines "sec \<equiv> take (unat sz) (drop (unat off) (el_memory elf))"
  shows "\<exists>img. kmod_elf_strip (\<lambda>_. True) elf KMOD_INSERT_FORCE_MODVERSION = Some (Inr img)
    \<and> (case kmod_elf_get_section elf ''__versions'' of
         Some (Inr (idx, _, _)) \<Rightarrow> (\<exists>hdr v. let w = (if el_x32 elf then 4 else 8) in
             elf_get_section_header_offset elf idx = Some hdr \<and> elf_get_uint elf (hdr + 8) w = Some v
             \<and> elf_get_uint (elf\<lparr>el_memory := img\<rparr>) (hdr + 8) w = Some (take_bit (8 * w) (v AND NOT 2))
             \<and> same_outside (unat hdr + 8) w (el_memory elf) img)
       | _ \<Rightarrow> img = el_memory elf)
    \<and> kmod_elf_strip (\<lambda>_. True) elf KMOD_INSERT_FORCE_VERMAGIC
        = Some (if off = 0 then Inr (el_memory elf) else without_vermagic (unat off) sec (el_memory elf))
    \<and> kmod_elf_strip (\<lambda>_. True) elf (KMOD_INSERT_FORCE_MODVERSION OR KMOD_INSERT_FORCE_VERMAGIC)
        = Some (if off = 0 then Inr img else without_vermagic (unat off) sec img)"
proof -
  have f: "(2 :: u32) AND (2 OR 1) \<noteq> 0" "(1 :: u32) AND (2 OR 1) \<noteq> 0" "(2 OR 1 :: u32) AND (2 OR 1) \<noteq> 0"
    "(2 :: u32) AND 1 = 0" "(1 :: u32) AND 2 = 0" "(2 OR 1 :: u32) AND 1 \<noteq> 0" "(2 OR 1 :: u32) AND 2 \<noteq> 0"
    by simp_all
  obtain img where img: "elf_strip_versions_section elf (el_memory elf) = Some (Inr img)"
    "case kmod_elf_get_section elf ''__versions'' of
           Some (Inr (idx, _, _)) \<Rightarrow> (\<exists>hdr v. let w = (if el_x32 elf then 4 else 8) in
               elf_get_section_header_offset elf idx = Some hdr \<and> elf_get_uint elf (hdr + 8) w = Some v
               \<and> elf_get_uint (elf\<lparr>el_memory := img\<rparr>) (hdr + 8) w = Some (take_bit (8 * w) (v AND NOT 2))
               \<and> same_outside (unat hdr + 8) w (el_memory elf) img)
         | _ \<Rightarrow> img = el_memory elf"
    using strip_versions_spec [OF assms(1) refl] by blast
  then have len: "length img = length (el_memory elf)"
    by (auto simp: same_outside_def Let_def split: option.splits sum.splits prod.splits)
  have v: "elf_strip_vermagic elf changed = Some (if off = 0 then Inr changed else without_vermagic (unat off) sec changed)"
    if "length changed = length (el_memory elf)" for changed
    unfolding sec_def using assms(3) by (rule strip_vermagic_exact [OF assms(1) that assms(2)])
  have "kmod_elf_strip (\<lambda>_. True) elf 2 = Some (Inr img)" using img(1) f by (simp add: kmod_elf_strip_def)
  moreover have "kmod_elf_strip (\<lambda>_. True) elf 1 = elf_strip_vermagic elf (el_memory elf)" using f by (simp add: kmod_elf_strip_def)
  moreover have "kmod_elf_strip (\<lambda>_. True) elf (2 OR 1) = elf_strip_vermagic elf img" using f img(1) by (simp add: kmod_elf_strip_def)
  ultimately show ?thesis unfolding v [OF len] v [OF refl] using img(2) by (intro exI [of _ img] conjI) assumption+
qed

text \<open>
  In the example image the ten bytes of \<open>vermagic=6\<close> are cleared, and neither the string before nor the one
  behind it; the flags word of \<open>__versions\<close> becomes 0.
\<close>

theorem elf_strip_confined_witness:
  "\<exists>elf img. kmod_elf_new (\<lambda>_. True) module_image = Some (Inr elf)
    \<and> kmod_elf_strip (\<lambda>_. True) elf KMOD_INSERT_FORCE_VERMAGIC
        = Some (Inr (take 239 module_image @ replicate 10 NUL @ drop 249 module_image))
    \<and> kmod_elf_strip (\<lambda>_. True) elf KMOD_INSERT_FORCE_MODVERSION = Some (Inr img)
    \<and> same_outside 100 4 module_image img \<and> elf_get_uint (elf\<lparr>el_memory := img\<rparr>) 100 4 = Some 0
    \<and> kmod_elf_strip (\<lambda>_. True) elf (KMOD_INSERT_FORCE_MODVERSION OR KMOD_INSERT_FORCE_VERMAGIC)
        = Some (Inr (take 239 img @ replicate 10 NUL @ drop 249 img))"
proof -
  obtain elf where elf: "kmod_elf_new (\<lambda>_. True) module_image = Some (Inr elf)" "el_memory elf = module_image" "elf_inv elf" "el_x32 elf"
    "el_sections elf SECTION_MODINFO = (233, 21)" "kmod_elf_get_section elf ''__versions'' = Some (Inr (1, 212, 4))"
    "elf_get_section_header_offset elf 1 = Some 92" "elf_get_uint elf 100 4 = Some 2" using module_image_new by blast
  let ?sec = "take 21 (drop 233 module_image)"
  have sec: "?sec = ''a=GPL'' @ NUL # ''vermagic=6'' @ NUL # ''n=x'' @ [NUL]" by (simp add: module_image_def section_entry_def)
  have pos: "vermagic_pos ?sec = Some 6" unfolding sec by code_simp
  have w: "without_vermagic 233 ?sec img = Inr (take 239 img @ replicate 10 NUL @ drop 249 img)" for img
  proof -
    have "length (cstr (drop 6 ?sec)) = 10" unfolding sec by simp
    moreover have "\<not> (\<forall>c \<in> set ?sec. c = NUL)" unfolding sec by simp
    ultimately show ?thesis using pos unfolding without_vermagic_def clear_string_def by auto
  qed
  have "el_memory elf ! (unat (233 :: u64) + unat (21 :: u64) - 1) = NUL" unfolding elf(2) by code_simp
  from elf_strip_confined [OF elf(3,5) this] show ?thesis
    using elf w by (auto simp: Let_def)
qed

end
