(* ===== verification/Kmod_Module.thy ===== *)
theory Kmod_Module
  imports Kmod_Config_Iter Kmod_Index_File
begin

text \<open>
  \<open>libkmod/libkmod-module.c\<close> and \<open>libkmod/libkmod.c\<close>: the pool of modules of a context, and the ways
  to find a module. A module is named by its key in the pool, which stands for the pointer. Reference
  counts are left out: a module of the pool stays there, as it does while somebody holds it. An
  error path that releases a list with the macro \<open>kmod_list_release\<close> leaves the empty list. What the
  library asks of its surroundings is the record \<open>lib_env\<close>: memory (the growth of the hash table of the
  pool included), the working directory, \<open>stat\<close>, the contents of the index files, \<open>fnmatch\<close>, and the
  depth to which the recursion of a wildcard search may go.
\<close>

section \<open>The context\<close>

datatype kmod_index =
    KMOD_INDEX_MODULES_DEP | KMOD_INDEX_MODULES_ALIAS | KMOD_INDEX_MODULES_SYMBOL
  | KMOD_INDEX_MODULES_BUILTIN_ALIAS | KMOD_INDEX_MODULES_BUILTIN

fun index_files :: "kmod_index \<Rightarrow> string" where
  "index_files KMOD_INDEX_MODULES_DEP = ''modules.dep''"
| "index_files KMOD_INDEX_MODULES_ALIAS = ''modules.alias''"
| "index_files KMOD_INDEX_MODULES_SYMBOL = ''modules.symbols''"
| "index_files KMOD_INDEX_MODULES_BUILTIN_ALIAS = ''modules.builtin.alias''"
| "index_files KMOD_INDEX_MODULES_BUILTIN = ''modules.builtin''"

datatype kmod_module_builtin =
    KMOD_MODULE_BUILTIN_UNKNOWN | KMOD_MODULE_BUILTIN_NO | KMOD_MODULE_BUILTIN_YES

record kmod_module =
  km_name :: string
  km_path :: "string option"
  km_dep :: "string list"
  km_options :: "string option"
  km_install_commands :: "string option"
  km_remove_commands :: "string option"
  km_alias :: "string option"
  km_init_dep :: bool
  km_init_options :: bool
  km_init_install_commands :: bool
  km_init_remove_commands :: bool
  km_builtin :: kmod_module_builtin

record kmod_ctx =
  cx_dirname :: string
  cx_config :: kmod_config
  cx_modules_by_name :: "string \<rightharpoonup> kmod_module"
  cx_indexes :: "kmod_index \<Rightarrow> index_mm option"
  cx_indexes_stamp :: "kmod_index \<Rightarrow> u64"

record lib_env =
  en_alloc :: "size_t \<Rightarrow> bool"
  en_pool_grows :: "string \<Rightarrow> bool"
  en_cwd :: "string option"
  en_stat :: "string \<Rightarrow> u64 result"
  en_file :: "string \<Rightarrow> char list result"
  en_mmap :: "string \<Rightarrow> errno option"
  en_fnmatch :: "string \<Rightarrow> string \<Rightarrow> bool"
  en_depth :: nat

text \<open>The object behind a pointer, and an assignment to its fields.\<close>

definition module_at :: "kmod_ctx \<Rightarrow> string \<Rightarrow> kmod_module option" where
  "module_at ctx key = cx_modules_by_name ctx key"

definition set_module :: "string \<Rightarrow> kmod_module \<Rightarrow> kmod_ctx \<Rightarrow> kmod_ctx" where
  "set_module key m ctx = ctx\<lparr>cx_modules_by_name := (cx_modules_by_name ctx)(key \<mapsto> m)\<rparr>"

definition kmod_pool_get_module :: "kmod_ctx \<Rightarrow> string \<Rightarrow> kmod_module option" where
  "kmod_pool_get_module ctx key = cx_modules_by_name ctx key"

definition kmod_pool_add_module :: "lib_env \<Rightarrow> kmod_ctx \<Rightarrow> kmod_module \<Rightarrow> string \<Rightarrow> unit result \<times> kmod_ctx" where
  "kmod_pool_add_module env ctx m key =
     (if en_pool_grows env key then (Inr (), set_module key m ctx) else (Inl ENOMEM, ctx))"

section \<open>New modules\<close>

text \<open>\<open>key\<close> is the name, or the name, a backslash and the alias. The record has 104 bytes.\<close>

definition kmod_module_new :: "lib_env \<Rightarrow> kmod_ctx \<Rightarrow> string \<Rightarrow> nat \<Rightarrow> bool \<Rightarrow> string result \<times> kmod_ctx" where
  "kmod_module_new env ctx key namelen aliased =
     (case kmod_pool_get_module ctx key of
        Some m \<Rightarrow> (Inr key, ctx)
      | None \<Rightarrow>
          if \<not> en_alloc env (104 + (if aliased then 2 else 1) * strsize key) then (Inl ENOMEM, ctx)
          else
            (case kmod_pool_add_module env ctx
                    \<lparr>km_name = take namelen key, km_path = None, km_dep = [], km_options = None,
                     km_install_commands = None, km_remove_commands = None,
                     km_alias = (if aliased then Some (drop (namelen + 1) key) else None),
                     km_init_dep = False, km_init_options = False, km_init_install_commands = False,
                     km_init_remove_commands = False, km_builtin = KMOD_MODULE_BUILTIN_UNKNOWN\<rparr> key of
               (Inl e, ctx) \<Rightarrow> (Inl e, ctx)
             | (Inr _, ctx) \<Rightarrow> (Inr key, ctx)))"

abbreviation path_buf :: "char slots" where "path_buf \<equiv> replicate PATH_MAX None"

definition kmod_module_new_from_name :: "lib_env \<Rightarrow> kmod_ctx \<Rightarrow> string \<Rightarrow> (string result \<times> kmod_ctx) option" where
  "kmod_module_new_from_name env ctx name =
     do { (namelen, buf) \<leftarrow> modname_normalize name path_buf;
          name_norm \<leftarrow> read_cstr buf;
          Some (kmod_module_new env ctx name_norm namelen False) }"

definition kmod_module_new_from_alias :: "lib_env \<Rightarrow> kmod_ctx \<Rightarrow> string \<Rightarrow> string \<Rightarrow> string result \<times> kmod_ctx" where
  "kmod_module_new_from_alias env ctx alias name =
     (if PATH_MAX < length name + length alias + 2 then (Inl ENAMETOOLONG, ctx)
      else kmod_module_new env ctx (name @ [CHR 0x5C] @ alias) (length name) True)"

definition kmod_module_new_from_path :: "lib_env \<Rightarrow> kmod_ctx \<Rightarrow> string \<Rightarrow> (string result \<times> kmod_ctx) option" where
  "kmod_module_new_from_path env ctx path =
     (case path_make_absolute_cwd (en_alloc env) (en_cwd env) path of
        None \<Rightarrow> Some (Inl ENOMEM, ctx)
      | Some abspath \<Rightarrow>
          (case en_stat env abspath of
             Inl e \<Rightarrow> Some (Inl e, ctx)
           | Inr _ \<Rightarrow>
               do { r \<leftarrow> path_to_modname path path_buf;
                    case r of
                      None \<Rightarrow> Some (Inl ENOENT, ctx)
                    | Some (namelen, buf) \<Rightarrow>
                        do { name \<leftarrow> read_cstr buf;
                             case kmod_module_new env ctx name namelen False of
                               (Inl e, ctx) \<Rightarrow> Some (Inl e, ctx)
                             | (Inr key, ctx) \<Rightarrow>
                                 do { m \<leftarrow> module_at ctx key;
                                      if km_path m = None \<or> km_path m = Some abspath
                                      then Some (Inr key, set_module key
                                             (m\<lparr>km_path := Some abspath, km_builtin := KMOD_MODULE_BUILTIN_NO\<rparr>) ctx)
                                      else Some (Inl EEXIST, ctx) } } }))"

section \<open>Dependencies\<close>

text \<open>\<open>prefix\<close> is the contents of the buffer up to \<open>prefixlen\<close>.\<close>

definition path_join :: "string \<Rightarrow> string \<Rightarrow> string option" where
  "path_join path dir =
     (if char_at path 0 = CHR ''/'' then Some path
      else if PATH_MAX \<le> length dir + length path + 1 then None
      else Some (dir @ path))"

lemma strtok_r_less:
  assumes "strtok_r p d = (Some t, r)"
  shows "length r < length p"
proof -
  let ?s = "dropWhile (\<lambda>c. c \<in> set d) p"
  have s: "?s \<noteq> []" "r = drop 1 (dropWhile (\<lambda>c. c \<notin> set d) ?s)"
    using assms unfolding strtok_r_def Let_def by (auto split: if_splits)
  have "length (dropWhile (\<lambda>c. c \<notin> set d) ?s) \<le> length ?s" "length ?s \<le> length p" "0 < length ?s"
    using length_dropWhile_le length_greater_0_conv [THEN iffD2, OF s(1)] by blast+
  then show ?thesis unfolding s(2) length_drop by linarith
qed

text \<open>The loop over the tokens; the inner None is \<open>goto fail\<close>.\<close>

function depline_loop ::
    "lib_env \<Rightarrow> string \<Rightarrow> string \<Rightarrow> string list \<Rightarrow> kmod_ctx \<Rightarrow> (string list option \<times> kmod_ctx) option" where
  "depline_loop env dir p list ctx =
     (case strtok_r p blanks of
        (None, _) \<Rightarrow> Some (Some list, ctx)
      | (Some tok, saveptr) \<Rightarrow>
          (case path_join tok dir of
             None \<Rightarrow> Some (None, ctx)
           | Some path \<Rightarrow>
               do { (r, ctx) \<leftarrow> kmod_module_new_from_path env ctx path;
                    case r of
                      Inl _ \<Rightarrow> Some (None, ctx)
                    | Inr depmod \<Rightarrow>
                        if en_alloc env 24 then depline_loop env dir saveptr (depmod # list) ctx
                        else Some (None, ctx) }))"
  by pat_completeness auto

termination
  by (relation "measure (\<lambda>(env, dir, p, list, ctx). length p)") (auto dest: strtok_r_less [OF sym])

declare depline_loop.simps [simp del]

definition kmod_module_parse_depline :: "lib_env \<Rightarrow> string \<Rightarrow> string \<Rightarrow> kmod_ctx \<Rightarrow> kmod_ctx option" where
  "kmod_module_parse_depline env key depline ctx =
     do { m \<leftarrow> module_at ctx key;
          if km_init_dep m then Some ctx
          else if km_dep m \<noteq> [] then None
          else
            (let m = m\<lparr>km_init_dep := True\<rparr>; ctx = set_module key m ctx; dir = cx_dirname ctx @ ''/'';
                 own = takeWhile (\<lambda>c. c \<noteq> CHR '':'') depline; p = drop (length own + 1) depline in
             if CHR '':'' \<notin> set depline then Some ctx
             else if PATH_MAX \<le> length (cx_dirname ctx) + 2 then Some ctx
             else
               (case (if km_path m = None then
                        (case path_join own dir of
                           None \<Rightarrow> None
                         | Some str \<Rightarrow> if en_alloc env (strsize str) then Some (set_module key (m\<lparr>km_path := Some str\<rparr>) ctx) else None)
                      else Some ctx) of
                  None \<Rightarrow> Some ctx
                | Some ctx \<Rightarrow>
                    do { (r, ctx) \<leftarrow> depline_loop env dir p [] ctx;
                         m \<leftarrow> module_at ctx key;
                         Some (set_module key (case r of
                                 None \<Rightarrow> m\<lparr>km_init_dep := False\<rparr>
                               | Some list \<Rightarrow> m\<lparr>km_dep := list\<rparr>) ctx) })) }"

text \<open>Every index file is read through the mapping if the resources are loaded, else from the file.\<close>

definition index_path :: "kmod_ctx \<Rightarrow> kmod_index \<Rightarrow> string" where
  "index_path ctx i = take (PATH_MAX - 1) (cx_dirname ctx @ ''/'' @ index_files i @ ''.bin'')"

definition open_index :: "lib_env \<Rightarrow> kmod_ctx \<Rightarrow> kmod_index \<Rightarrow> index_file option" where
  "open_index env ctx i =
     index_file_open (en_alloc env 16) (case en_file env (index_path ctx i) of Inl _ \<Rightarrow> None | Inr m \<Rightarrow> Some m)"

definition lookup_file :: "lib_env \<Rightarrow> kmod_ctx \<Rightarrow> kmod_index \<Rightarrow> string \<Rightarrow> string option option" where
  "lookup_file env ctx i name =
     (case cx_indexes ctx i of
        Some idx \<Rightarrow> index_mm_search idx name
      | None \<Rightarrow>
          (case open_index env ctx i of
             None \<Rightarrow> Some None
           | Some idx \<Rightarrow> Some (index_search idx name)))"

definition kmod_search_moddep :: "lib_env \<Rightarrow> kmod_ctx \<Rightarrow> string \<Rightarrow> string option option" where
  "kmod_search_moddep env ctx name = lookup_file env ctx KMOD_INDEX_MODULES_DEP name"

definition module_get_dependencies_noref :: "lib_env \<Rightarrow> string \<Rightarrow> kmod_ctx \<Rightarrow> kmod_ctx option" where
  "module_get_dependencies_noref env key ctx =
     do { m \<leftarrow> module_at ctx key;
          if km_init_dep m then Some ctx
          else
            do { depline \<leftarrow> kmod_search_moddep env ctx (km_name m);
                 case depline of
                   None \<Rightarrow> Some ctx
                 | Some depline \<Rightarrow> kmod_module_parse_depline env key depline ctx } }"

definition copy_modules :: "lib_env \<Rightarrow> string list \<Rightarrow> string list option" where
  "copy_modules env ms = foldM (\<lambda>m l. list_append (en_alloc env) l m) ms []"

definition kmod_module_get_dependencies :: "lib_env \<Rightarrow> kmod_ctx \<Rightarrow> string \<Rightarrow> (string list \<times> kmod_ctx) option" where
  "kmod_module_get_dependencies env ctx key =
     do { ctx \<leftarrow> module_get_dependencies_noref env key ctx;
          m \<leftarrow> module_at ctx key;
          Some (case copy_modules env (km_dep m) of None \<Rightarrow> [] | Some l \<Rightarrow> l, ctx) }"

definition kmod_module_get_path :: "lib_env \<Rightarrow> kmod_ctx \<Rightarrow> string \<Rightarrow> (string option \<times> kmod_ctx) option" where
  "kmod_module_get_path env ctx key =
     do { m \<leftarrow> module_at ctx key;
          if km_path m \<noteq> None then Some (km_path m, ctx)
          else if km_init_dep m then Some (None, ctx)
          else
            do { ctx \<leftarrow> module_get_dependencies_noref env key ctx;
                 m \<leftarrow> module_at ctx key;
                 Some (km_path m, ctx) } }"

section \<open>Lookups\<close>

type_synonym lookup_func = "lib_env \<Rightarrow> kmod_ctx \<Rightarrow> string \<Rightarrow> (nat result \<times> string list \<times> kmod_ctx) option"

text \<open>
  The loop that \<open>kmod_lookup_alias_from_alias_bin\<close> and \<open>kmod_lookup_alias_from_config\<close> share, with
  their error path: a module for every pair of an alias and a name.
\<close>

primrec lookup_aliases ::
    "lib_env \<Rightarrow> (string \<times> string) list \<Rightarrow> string list \<Rightarrow> kmod_ctx \<Rightarrow> nat result \<times> string list \<times> kmod_ctx" where
  "lookup_aliases env [] list ctx = (Inr (length list), list, ctx)"
| "lookup_aliases env (a # as) list ctx =
     (case kmod_module_new_from_alias env ctx (fst a) (snd a) of
        (Inl e, ctx) \<Rightarrow> (Inl e, [], ctx)
      | (Inr md, ctx) \<Rightarrow>
          (case list_append (en_alloc env) list md of
             None \<Rightarrow> (Inl ENOMEM, [], ctx)
           | Some list \<Rightarrow> lookup_aliases env as list ctx))"

text \<open>The values found for a name; the inner None is an index that cannot be opened.\<close>

definition search_realnames :: "lib_env \<Rightarrow> kmod_ctx \<Rightarrow> kmod_index \<Rightarrow> string \<Rightarrow> index_value list option option" where
  "search_realnames env ctx i name =
     (case cx_indexes ctx i of
        Some idx \<Rightarrow> map_option Some (index_mm_searchwild (en_depth env) (en_fnmatch env) (en_alloc env) idx name)
      | None \<Rightarrow>
          (case open_index env ctx i of
             None \<Rightarrow> Some None
           | Some idx \<Rightarrow> map_option Some (index_searchwild (en_depth env) (en_fnmatch env) (en_alloc env) idx name)))"

definition kmod_lookup_alias_from_alias_bin :: "kmod_index \<Rightarrow> lookup_func" where
  "kmod_lookup_alias_from_alias_bin i env ctx name =
     do { realnames \<leftarrow> search_realnames env ctx i name;
          Some (case realnames of
                  None \<Rightarrow> (Inl ENOSYS, [], ctx)
                | Some vs \<Rightarrow> lookup_aliases env (map (\<lambda>v. (name, snd v)) vs) [] ctx) }"

definition kmod_lookup_alias_from_symbols_file :: lookup_func where
  "kmod_lookup_alias_from_symbols_file env ctx name =
     (if \<not> strstartswith name ''symbol:'' then Some (Inr 0, [], ctx)
      else kmod_lookup_alias_from_alias_bin KMOD_INDEX_MODULES_SYMBOL env ctx name)"

definition kmod_lookup_alias_from_aliases_file :: lookup_func where
  "kmod_lookup_alias_from_aliases_file = kmod_lookup_alias_from_alias_bin KMOD_INDEX_MODULES_ALIAS"

definition kmod_module_set_builtin :: "bool \<Rightarrow> string \<Rightarrow> kmod_ctx \<Rightarrow> kmod_ctx option" where
  "kmod_module_set_builtin builtin key ctx =
     map_option (\<lambda>m. set_module key
         (m\<lparr>km_builtin := (if builtin then KMOD_MODULE_BUILTIN_YES else KMOD_MODULE_BUILTIN_NO)\<rparr>) ctx) (module_at ctx key)"

definition kmod_lookup_alias_from_kernel_builtin_file :: lookup_func where
  "kmod_lookup_alias_from_kernel_builtin_file env ctx name =
     do { (ret, list, ctx) \<leftarrow> kmod_lookup_alias_from_alias_bin KMOD_INDEX_MODULES_BUILTIN_ALIAS env ctx name;
          ctx \<leftarrow> foldM (kmod_module_set_builtin True) list ctx;
          Some (ret, list, ctx) }"

definition lookup_builtin_file :: "lib_env \<Rightarrow> kmod_ctx \<Rightarrow> string \<Rightarrow> bool option" where
  "lookup_builtin_file env ctx name = map_option (\<lambda>l. l \<noteq> None) (lookup_file env ctx KMOD_INDEX_MODULES_BUILTIN name)"

definition kmod_lookup_alias_is_builtin :: "lib_env \<Rightarrow> kmod_ctx \<Rightarrow> string \<Rightarrow> bool option" where
  "kmod_lookup_alias_is_builtin env ctx name = lookup_builtin_file env ctx name"

definition kmod_module_is_builtin :: "lib_env \<Rightarrow> string \<Rightarrow> kmod_ctx \<Rightarrow> (bool \<times> kmod_ctx) option" where
  "kmod_module_is_builtin env key ctx =
     do { m \<leftarrow> module_at ctx key;
          ctx \<leftarrow> (if km_builtin m = KMOD_MODULE_BUILTIN_UNKNOWN
                   then do { b \<leftarrow> kmod_lookup_alias_is_builtin env ctx (km_name m); kmod_module_set_builtin b key ctx }
                   else Some ctx);
          m \<leftarrow> module_at ctx key;
          Some (km_builtin m = KMOD_MODULE_BUILTIN_YES, ctx) }"

text \<open>A success returns 0 here, not the number of modules.\<close>

definition kmod_lookup_alias_from_builtin_file :: lookup_func where
  "kmod_lookup_alias_from_builtin_file env ctx name =
     do { b \<leftarrow> lookup_builtin_file env ctx name;
          if b then
            do { (r, ctx) \<leftarrow> kmod_module_new_from_name env ctx name;
                 case r of
                   Inl e \<Rightarrow> Some (Inl e, [], ctx)
                 | Inr md \<Rightarrow>
                     do { ctx \<leftarrow> kmod_module_set_builtin True md ctx;
                          Some (case list_append (en_alloc env) [] md of
                                  None \<Rightarrow> (Inl ENOMEM, [], ctx)
                                | Some list \<Rightarrow> (Inr 0, list, ctx)) } }
          else Some (Inr 0, [], ctx) }"

definition kmod_lookup_alias_from_moddep_file :: lookup_func where
  "kmod_lookup_alias_from_moddep_file env ctx name =
     (if CHR '':'' \<in> set name then Some (Inr 0, [], ctx)
      else
        do { depline \<leftarrow> kmod_search_moddep env ctx name;
             case depline of
               None \<Rightarrow> Some (Inr 0, [], ctx)
             | Some depline \<Rightarrow>
                 do { (r, ctx) \<leftarrow> kmod_module_new_from_name env ctx name;
                      case r of
                        Inl e \<Rightarrow> Some (Inl e, [], ctx)
                      | Inr md \<Rightarrow>
                          (case list_append (en_alloc env) [] md of
                             None \<Rightarrow> Some (Inl ENOMEM, [], ctx)
                           | Some list \<Rightarrow>
                               do { ctx \<leftarrow> kmod_module_parse_depline env md depline ctx;
                                    Some (Inr 0, list, ctx) }) } })"

definition kmod_lookup_alias_from_config :: lookup_func where
  "kmod_lookup_alias_from_config env ctx name =
     Some (lookup_aliases env
       (map (\<lambda>a. (al_name a, al_modname a)) (filter (\<lambda>a. en_fnmatch env (al_name a) name) (aliases (cx_config ctx)))) [] ctx)"

definition kmod_module_set_install_commands :: "string \<Rightarrow> string \<Rightarrow> kmod_ctx \<Rightarrow> kmod_ctx option" where
  "kmod_module_set_install_commands cmd key ctx =
     map_option (\<lambda>m. set_module key (m\<lparr>km_init_install_commands := True, km_install_commands := Some cmd\<rparr>) ctx)
       (module_at ctx key)"

definition kmod_module_set_remove_commands :: "string \<Rightarrow> string \<Rightarrow> kmod_ctx \<Rightarrow> kmod_ctx option" where
  "kmod_module_set_remove_commands cmd key ctx =
     map_option (\<lambda>m. set_module key (m\<lparr>km_init_remove_commands := True, km_remove_commands := Some cmd\<rparr>) ctx)
       (module_at ctx key)"

text \<open>The body of the two loops, for the first entry with the name.\<close>

definition lookup_command ::
    "(string \<Rightarrow> string \<Rightarrow> kmod_ctx \<Rightarrow> kmod_ctx option) \<Rightarrow> lib_env \<Rightarrow> kmod_ctx \<Rightarrow> kmod_command
      \<Rightarrow> (nat result \<times> string list \<times> kmod_ctx) option" where
  "lookup_command set_command env ctx c =
     do { (r, ctx) \<leftarrow> kmod_module_new_from_name env ctx (cm_modname c);
          case r of
            Inl e \<Rightarrow> Some (Inl e, [], ctx)
          | Inr md \<Rightarrow>
              (case list_append (en_alloc env) [] md of
                 None \<Rightarrow> Some (Inl ENOMEM, [], ctx)
               | Some list \<Rightarrow> do { ctx \<leftarrow> set_command (cm_command c) md ctx; Some (Inr 1, list, ctx) }) }"

definition kmod_lookup_alias_from_commands :: lookup_func where
  "kmod_lookup_alias_from_commands env ctx name =
     (case find (\<lambda>c. streq (cm_modname c) name) (install_commands (cx_config ctx)) of
        Some c \<Rightarrow> lookup_command kmod_module_set_install_commands env ctx c
      | None \<Rightarrow>
          (case find (\<lambda>c. streq (cm_modname c) name) (remove_commands (cx_config ctx)) of
             Some c \<Rightarrow> lookup_command kmod_module_set_remove_commands env ctx c
           | None \<Rightarrow> Some (Inr 0, [], ctx)))"

fun kmod_module_new_from_lookups ::
    "lookup_func list \<Rightarrow> lib_env \<Rightarrow> kmod_ctx \<Rightarrow> string \<Rightarrow> (unit result \<times> string list \<times> kmod_ctx) option" where
  "kmod_module_new_from_lookups [] env ctx s = Some (Inr (), [], ctx)"
| "kmod_module_new_from_lookups (lookup # lookups) env ctx s =
     do { (err, list, ctx) \<leftarrow> lookup env ctx s;
          if \<exists>e. err = Inl e \<and> e \<noteq> ENOSYS then Some (case err of Inl e \<Rightarrow> Inl e | Inr _ \<Rightarrow> Inr (), list, ctx)
          else if list \<noteq> [] then Some (Inr (), list, ctx)
          else kmod_module_new_from_lookups lookups env ctx s }"

definition alias_lookups :: "lookup_func list" where
  "alias_lookups =
     [kmod_lookup_alias_from_config, kmod_lookup_alias_from_moddep_file, kmod_lookup_alias_from_symbols_file,
      kmod_lookup_alias_from_commands, kmod_lookup_alias_from_aliases_file, kmod_lookup_alias_from_builtin_file,
      kmod_lookup_alias_from_kernel_builtin_file]"

text \<open>When a lookup failed the list is released and reset.\<close>

definition kmod_module_new_from_lookup ::
    "lib_env \<Rightarrow> kmod_ctx \<Rightarrow> string \<Rightarrow> (unit result \<times> string list \<times> kmod_ctx) option" where
  "kmod_module_new_from_lookup env ctx given_alias =
     do { (r, buf) \<leftarrow> alias_normalize given_alias path_buf;
          case r of
            Inl _ \<Rightarrow> Some (Inl EINVAL, [], ctx)
          | Inr _ \<Rightarrow>
              do { alias \<leftarrow> read_cstr buf;
                   (err, list, ctx) \<leftarrow> kmod_module_new_from_lookups alias_lookups env ctx alias;
                   Some (err, case err of Inl _ \<Rightarrow> [] | Inr _ \<Rightarrow> list, ctx) } }"

definition kmod_module_new_from_name_lookup ::
    "lib_env \<Rightarrow> kmod_ctx \<Rightarrow> string \<Rightarrow> (unit result \<times> string option \<times> kmod_ctx) option" where
  "kmod_module_new_from_name_lookup env ctx modname =
     do { (_, buf) \<leftarrow> modname_normalize modname path_buf;
          name_norm \<leftarrow> read_cstr buf;
          (err, list, ctx) \<leftarrow> kmod_module_new_from_lookups
             [kmod_lookup_alias_from_moddep_file, kmod_lookup_alias_from_builtin_file,
              kmod_lookup_alias_from_kernel_builtin_file] env ctx name_norm;
          Some (err, case (err, list) of (Inr _, md # _) \<Rightarrow> Some md | _ \<Rightarrow> None, ctx) }"

section \<open>What the configuration says about a module\<close>

definition module_is_blacklisted :: "kmod_ctx \<Rightarrow> string \<Rightarrow> bool option" where
  "module_is_blacklisted ctx key =
     map_option (\<lambda>m. \<exists>b \<in> set (blacklists (cx_config ctx)). streq b (km_name m)) (module_at ctx key)"

type_synonym kmod_filter = u32

definition KMOD_FILTER_BLACKLIST :: kmod_filter where "KMOD_FILTER_BLACKLIST = 1"
definition KMOD_FILTER_BUILTIN :: kmod_filter where "KMOD_FILTER_BUILTIN = 2"

text \<open>The loop; the inner None is \<open>goto fail\<close>.\<close>

primrec filter_loop ::
    "lib_env \<Rightarrow> kmod_filter \<Rightarrow> string list \<Rightarrow> string list \<Rightarrow> kmod_ctx \<Rightarrow> (string list option \<times> kmod_ctx) option" where
  "filter_loop env type [] out ctx = Some (Some out, ctx)"
| "filter_loop env type (md # ms) out ctx =
     do { black \<leftarrow> (if type AND KMOD_FILTER_BLACKLIST \<noteq> 0 then module_is_blacklisted ctx md else Some False);
          if black then filter_loop env type ms out ctx
          else
            do { (builtin, ctx) \<leftarrow> (if type AND KMOD_FILTER_BUILTIN \<noteq> 0 then kmod_module_is_builtin env md ctx
                                     else Some (False, ctx));
                 if builtin then filter_loop env type ms out ctx
                 else
                   (case list_append (en_alloc env) out md of
                      None \<Rightarrow> Some (None, ctx)
                    | Some out \<Rightarrow> filter_loop env type ms out ctx) } }"

definition kmod_module_apply_filter ::
    "lib_env \<Rightarrow> kmod_ctx \<Rightarrow> kmod_filter \<Rightarrow> string list \<Rightarrow> (unit result \<times> string list \<times> kmod_ctx) option" where
  "kmod_module_apply_filter env ctx type input =
     do { (r, ctx) \<leftarrow> filter_loop env type input [] ctx;
          Some (case r of None \<Rightarrow> (Inl ENOMEM, [], ctx) | Some out \<Rightarrow> (Inr (), out, ctx)) }"

text \<open>The options of all entries for the module, joined by blanks.\<close>

primrec options_loop :: "(size_t \<Rightarrow> bool) \<Rightarrow> kmod_module \<Rightarrow> kmod_options list \<Rightarrow> string option \<Rightarrow> string option option" where
  "options_loop alloc m [] opts = Some opts"
| "options_loop alloc m (c # cs) opts =
     (let str = op_options c; optslen = (case opts of None \<Rightarrow> 0 | Some t \<Rightarrow> length t) in
      if \<not> (streq (op_modname c) (km_name m) \<or> (\<exists>a. km_alias m = Some a \<and> streq (op_modname c) a))
        \<or> length str < 1 then options_loop alloc m cs opts
      else if \<not> alloc (of_nat (optslen + length str + 2)) then None
      else options_loop alloc m cs
             (Some ((case opts of None \<Rightarrow> [] | Some t \<Rightarrow> if 0 < optslen then t @ '' '' else t) @ str)))"

definition kmod_module_get_options :: "lib_env \<Rightarrow> kmod_ctx \<Rightarrow> string \<Rightarrow> (string option \<times> kmod_ctx) option" where
  "kmod_module_get_options env ctx key =
     do { m \<leftarrow> module_at ctx key;
          if km_init_options m then Some (km_options m, ctx)
          else
            (case options_loop (en_alloc env) m (options (cx_config ctx)) None of
               None \<Rightarrow> Some (None, ctx)
             | Some opts \<Rightarrow> Some (opts, set_module key (m\<lparr>km_init_options := True, km_options := opts\<rparr>) ctx)) }"

definition kmod_module_get_install_commands :: "lib_env \<Rightarrow> kmod_ctx \<Rightarrow> string \<Rightarrow> (string option \<times> kmod_ctx) option" where
  "kmod_module_get_install_commands env ctx key =
     do { m \<leftarrow> module_at ctx key;
          if km_init_install_commands m then Some (km_install_commands m, ctx)
          else
            (let cmd = (case find (\<lambda>c. en_fnmatch env (cm_modname c) (km_name m)) (install_commands (cx_config ctx)) of
                          Some c \<Rightarrow> Some (cm_command c) | None \<Rightarrow> km_install_commands m) in
             Some (cmd, set_module key (m\<lparr>km_init_install_commands := True, km_install_commands := cmd\<rparr>) ctx)) }"

definition kmod_module_get_remove_commands :: "lib_env \<Rightarrow> kmod_ctx \<Rightarrow> string \<Rightarrow> (string option \<times> kmod_ctx) option" where
  "kmod_module_get_remove_commands env ctx key =
     do { m \<leftarrow> module_at ctx key;
          if km_init_remove_commands m then Some (km_remove_commands m, ctx)
          else
            (let cmd = (case find (\<lambda>c. en_fnmatch env (cm_modname c) (km_name m)) (remove_commands (cx_config ctx)) of
                          Some c \<Rightarrow> Some (cm_command c) | None \<Rightarrow> km_remove_commands m) in
             Some (cmd, set_module key (m\<lparr>km_init_remove_commands := True, km_remove_commands := cmd\<rparr>) ctx)) }"

text \<open>A name that cannot be looked up is skipped.\<close>

primrec lookup_dep :: "lib_env \<Rightarrow> string list \<Rightarrow> string list \<Rightarrow> kmod_ctx \<Rightarrow> (string list \<times> kmod_ctx) option" where
  "lookup_dep env [] ret ctx = Some (ret, ctx)"
| "lookup_dep env (depname # array) ret ctx =
     do { (err, lst, ctx) \<leftarrow> kmod_module_new_from_lookup env ctx depname;
          lookup_dep env array (case err of Inl _ \<Rightarrow> ret | Inr _ \<Rightarrow> ret @ lst) ctx }"

definition kmod_module_get_softdeps ::
    "lib_env \<Rightarrow> kmod_ctx \<Rightarrow> string \<Rightarrow> ((string list \<times> string list) result \<times> kmod_ctx) option" where
  "kmod_module_get_softdeps env ctx key =
     do { m \<leftarrow> module_at ctx key;
          case find (\<lambda>d. en_fnmatch env (sd_name d) (km_name m)) (softdeps (cx_config ctx)) of
            None \<Rightarrow> Some (Inr ([], []), ctx)
          | Some d \<Rightarrow>
              do { array \<leftarrow> strv_list (sd_n_pre d) (sd_pre d) (sd_buf d);
                   (pre, ctx) \<leftarrow> lookup_dep env array [] ctx;
                   array \<leftarrow> strv_list (sd_n_post d) (sd_post d) (sd_buf d);
                   (post, ctx) \<leftarrow> lookup_dep env array [] ctx;
                   Some (Inr (pre, post), ctx) } }"

definition kmod_module_get_weakdeps :: "lib_env \<Rightarrow> kmod_ctx \<Rightarrow> string \<Rightarrow> (string list result \<times> kmod_ctx) option" where
  "kmod_module_get_weakdeps env ctx key =
     do { m \<leftarrow> module_at ctx key;
          case find (\<lambda>d. en_fnmatch env (wd_name d) (km_name m)) (weakdeps (cx_config ctx)) of
            None \<Rightarrow> Some (Inr [], ctx)
          | Some d \<Rightarrow>
              do { array \<leftarrow> strv_list (wd_n_weak d) (wd_weak d) (wd_buf d);
                   (weak, ctx) \<leftarrow> lookup_dep env array [] ctx;
                   Some (Inr weak, ctx) } }"

section \<open>The indexes of the context\<close>

definition all_indexes :: "kmod_index list" where
  "all_indexes = [KMOD_INDEX_MODULES_DEP, KMOD_INDEX_MODULES_ALIAS, KMOD_INDEX_MODULES_SYMBOL,
     KMOD_INDEX_MODULES_BUILTIN_ALIAS, KMOD_INDEX_MODULES_BUILTIN]"

definition kmod_unload_resources :: "kmod_ctx \<Rightarrow> kmod_ctx" where
  "kmod_unload_resources ctx =
     ctx\<lparr>cx_indexes := (\<lambda>_. None),
         cx_indexes_stamp := (\<lambda>i. if cx_indexes ctx i \<noteq> None then 0 else cx_indexes_stamp ctx i)\<rparr>"

primrec load_indexes :: "lib_env \<Rightarrow> kmod_index list \<Rightarrow> kmod_ctx \<Rightarrow> unit result \<times> kmod_ctx" where
  "load_indexes env [] ctx = (Inr (), ctx)"
| "load_indexes env (i # is) ctx =
     (if cx_indexes ctx i \<noteq> None then load_indexes env is ctx
      else
        (let path = index_path ctx i;
             contents = (case (en_file env path, en_stat env path) of
                           (Inl e, _) \<Rightarrow> Inl e | (Inr _, Inl _) \<Rightarrow> Inl EINVAL | (Inr m, Inr _) \<Rightarrow> Inr m) in
         case index_mm_open (en_alloc env 32) contents (en_mmap env path) of
           Inr idx \<Rightarrow>
             load_indexes env is (ctx\<lparr>cx_indexes := (cx_indexes ctx)(i \<mapsto> idx),
               cx_indexes_stamp := (cx_indexes_stamp ctx)(i := projr (en_stat env path))\<rparr>)
         | Inl e \<Rightarrow>
             if i \<noteq> KMOD_INDEX_MODULES_BUILTIN_ALIAS then (Inl e, ctx) else load_indexes env is ctx))"

definition kmod_load_resources :: "lib_env \<Rightarrow> kmod_ctx \<Rightarrow> unit result \<times> kmod_ctx" where
  "kmod_load_resources env ctx =
     (case load_indexes env all_indexes ctx of
        (Inl e, ctx) \<Rightarrow> (Inl e, kmod_unload_resources ctx)
      | (Inr _, ctx) \<Rightarrow> (Inr (), ctx))"

definition is_cache_invalid :: "lib_env \<Rightarrow> string \<Rightarrow> u64 \<Rightarrow> bool" where
  "is_cache_invalid env path stamp = (case en_stat env path of Inl _ \<Rightarrow> True | Inr s \<Rightarrow> stamp \<noteq> s)"

datatype kmod_resources = KMOD_RESOURCES_OK | KMOD_RESOURCES_MUST_RELOAD | KMOD_RESOURCES_MUST_RECREATE

definition kmod_validate_resources :: "lib_env \<Rightarrow> kmod_ctx \<Rightarrow> kmod_resources" where
  "kmod_validate_resources env ctx =
     (if \<exists>cf \<in> set (paths (cx_config ctx)). is_cache_invalid env (cp_path cf) (cp_stamp cf)
      then KMOD_RESOURCES_MUST_RECREATE
      else if \<exists>i \<in> set all_indexes. cx_indexes ctx i \<noteq> None \<and> is_cache_invalid env (index_path ctx i) (cx_indexes_stamp ctx i)
      then KMOD_RESOURCES_MUST_RELOAD
      else KMOD_RESOURCES_OK)"

end
