(* ===== verification/Kmod_Probe.thy ===== *)
theory Kmod_Probe
  imports Kmod_Config_Iter
begin

text \<open>
  \<open>libkmod/libkmod-module.c\<close>: the order in which a module, its dependencies and their soft
  dependencies are inserted, and the insertion. A module is named by its key in the pool of the
  context. The context is an argument of type \<open>'c\<close> with the operations that probing needs from it;
  \<open>Kmod_Module\<close> supplies them. The flags \<open>visited\<close>, \<open>required\<close> and \<open>ignorecmd\<close> of a module, which
  only probing uses, are functions of the key; a module that is created while probing starts with
  all of them unset. Soft dependencies may form cycles, so the recursion has fuel: None is running
  out of it.
\<close>

section \<open>The list of modules to insert\<close>

record 'c probe_ops =
  po_dependencies :: "'c \<Rightarrow> string \<Rightarrow> (string list \<times> 'c) option"
  po_softdeps :: "'c \<Rightarrow> string \<Rightarrow> ((string list \<times> string list) result \<times> 'c) option"

record 'c probe_state =
  ps_ctx :: 'c
  ps_visited :: "string \<Rightarrow> bool"
  ps_required :: "string \<Rightarrow> bool"
  ps_ignorecmd :: "string \<Rightarrow> bool"
  ps_list :: "string list"

text \<open>\<open>kmod_list_foreach\<close> with an early exit on errors.\<close>

primrec for_each ::
    "(string \<Rightarrow> 's \<Rightarrow> (unit result \<times> 's) option) \<Rightarrow> string list \<Rightarrow> 's \<Rightarrow> (unit result \<times> 's) option" where
  "for_each f [] st = Some (Inr (), st)"
| "for_each f (m # ms) st =
     do { (err, st) \<leftarrow> f m st;
          case err of Inl e \<Rightarrow> Some (Inl e, st) | Inr _ \<Rightarrow> for_each f ms st }"

definition append_module :: "(size_t \<Rightarrow> bool) \<Rightarrow> string \<Rightarrow> bool \<Rightarrow> 'c probe_state \<Rightarrow> unit result \<times> 'c probe_state" where
  "append_module alloc md ignorecmd st =
     (case list_append alloc (ps_list st) md of
        None \<Rightarrow> (Inl ENOMEM, st)
      | Some l \<Rightarrow> (Inr (), st\<lparr>ps_list := l, ps_ignorecmd := (ps_ignorecmd st)(md := ignorecmd)\<rparr>))"

text \<open>\<open>probe m\<close> is the recursive call \<open>__kmod_module_get_probe_list(m, false, false, list)\<close>.\<close>

definition kmod_module_fill_softdep ::
    "(size_t \<Rightarrow> bool) \<Rightarrow> 'c probe_ops \<Rightarrow> (string \<Rightarrow> 'c probe_state \<Rightarrow> (unit result \<times> 'c probe_state) option)
      \<Rightarrow> string \<Rightarrow> 'c probe_state \<Rightarrow> (unit result \<times> 'c probe_state) option" where
  "kmod_module_fill_softdep alloc ops probe md st =
     do { (r, ctx) \<leftarrow> po_softdeps ops (ps_ctx st) md;
          let st = st\<lparr>ps_ctx := ctx\<rparr>;
          case r of
            Inl e \<Rightarrow> Some (Inl e, st)
          | Inr (pre, post) \<Rightarrow>
              do { (err, st) \<leftarrow> for_each probe pre st;
                   case err of
                     Inl e \<Rightarrow> Some (Inl e, st)
                   | Inr _ \<Rightarrow>
                       (case append_module alloc md (pre \<noteq> [] \<or> post \<noteq> []) st of
                          (Inl e, st) \<Rightarrow> Some (Inl e, st)
                        | (Inr _, st) \<Rightarrow> for_each probe post st) } }"

primrec kmod_module_get_probe_list_rec ::
    "nat \<Rightarrow> (size_t \<Rightarrow> bool) \<Rightarrow> 'c probe_ops \<Rightarrow> string \<Rightarrow> bool \<Rightarrow> bool \<Rightarrow> 'c probe_state
      \<Rightarrow> (unit result \<times> 'c probe_state) option" where
  "kmod_module_get_probe_list_rec 0 alloc ops md required ignorecmd st = None"
| "kmod_module_get_probe_list_rec (Suc fuel) alloc ops md required ignorecmd st =
     (if ps_visited st md then Some (Inr (), st)
      else
        do { let st = st\<lparr>ps_visited := (ps_visited st)(md := True)\<rparr>;
             let probe = (\<lambda>m. kmod_module_get_probe_list_rec fuel alloc ops m False False);
             (dep, ctx) \<leftarrow> po_dependencies ops (ps_ctx st) md;
             let st = st\<lparr>ps_ctx := ctx\<rparr>;
             let st = (if required then st\<lparr>ps_required := (\<lambda>m. m = md \<or> m \<in> set dep \<or> ps_required st m)\<rparr> else st);
             (err, st) \<leftarrow> for_each (kmod_module_fill_softdep alloc ops probe) dep st;
             case err of
               Inl e \<Rightarrow> Some (Inl e, st)
             | Inr _ \<Rightarrow>
                 if ignorecmd then Some (append_module alloc md True st)
                 else kmod_module_fill_softdep alloc ops probe md st })"

definition kmod_module_get_probe_list ::
    "nat \<Rightarrow> (size_t \<Rightarrow> bool) \<Rightarrow> 'c probe_ops \<Rightarrow> string \<Rightarrow> bool \<Rightarrow> 'c probe_state
      \<Rightarrow> (unit result \<times> 'c probe_state) option" where
  "kmod_module_get_probe_list fuel alloc ops md ignorecmd st =
     do { (err, st) \<leftarrow> kmod_module_get_probe_list_rec fuel alloc ops md True ignorecmd
            (st\<lparr>ps_visited := (\<lambda>_. False), ps_required := (\<lambda>_. False), ps_list := []\<rparr>);
          Some (err, case err of Inl _ \<Rightarrow> st\<lparr>ps_list := []\<rparr> | Inr _ \<Rightarrow> st) }"

section \<open>Insertion\<close>

type_synonym flags = u32

definition KMOD_PROBE_IGNORE_COMMAND :: flags where "KMOD_PROBE_IGNORE_COMMAND = 0x4"
definition KMOD_PROBE_IGNORE_LOADED :: flags where "KMOD_PROBE_IGNORE_LOADED = 0x8"
definition KMOD_PROBE_DRY_RUN :: flags where "KMOD_PROBE_DRY_RUN = 0x10"
definition KMOD_PROBE_FAIL_ON_LOADED :: flags where "KMOD_PROBE_FAIL_ON_LOADED = 0x20"
definition KMOD_PROBE_APPLY_BLACKLIST_ALL :: flags where "KMOD_PROBE_APPLY_BLACKLIST_ALL = 0x10000"
definition KMOD_PROBE_APPLY_BLACKLIST :: flags where "KMOD_PROBE_APPLY_BLACKLIST = 0x20000"
definition KMOD_PROBE_APPLY_BLACKLIST_ALIAS_ONLY :: flags where "KMOD_PROBE_APPLY_BLACKLIST_ALIAS_ONLY = 0x40000"

abbreviation has_flag :: "flags \<Rightarrow> flags \<Rightarrow> bool" where
  "has_flag flags f \<equiv> flags AND f \<noteq> 0"

definition module_options_concat :: "(size_t \<Rightarrow> bool) \<Rightarrow> string option \<Rightarrow> string option \<Rightarrow> string option option" where
  "module_options_concat alloc opt xopt =
     (let len = (\<lambda>x. case x of None \<Rightarrow> 0 | Some s \<Rightarrow> length s) in
      if len opt = 0 \<and> len xopt = 0 then Some None
      else if \<not> alloc (of_nat (len opt + len xopt + 2)) then None
      else Some (Some ((case opt of None \<Rightarrow> [] | Some s \<Rightarrow> s @ '' '') @ (case xopt of None \<Rightarrow> [] | Some s \<Rightarrow> s))))"

text \<open>
  What insertion needs from the modules and from the kernel, whose state is \<open>'k\<close>: whether a module is
  live or builtin, inserting it with options, and running an install command. Options and install
  commands come from the configuration.
\<close>

record 'k kernel_ops =
  ko_inkernel :: "'k \<Rightarrow> string \<Rightarrow> bool"
  ko_insert :: "'k \<Rightarrow> string \<Rightarrow> flags \<Rightarrow> string option \<Rightarrow> unit result \<times> 'k"
  ko_run_install :: "'k \<Rightarrow> string \<Rightarrow> string \<Rightarrow> string option \<Rightarrow> unit result \<times> 'k"
  ko_options :: "string \<Rightarrow> string option"
  ko_install_command :: "string \<Rightarrow> string option"
  ko_blacklisted :: "string \<Rightarrow> bool"
  ko_has_alias :: "string \<Rightarrow> bool"

text \<open>The body of the loop over the list: the error so far, the new error, and whether to stop.\<close>

definition probe_insert_step ::
    "(size_t \<Rightarrow> bool) \<Rightarrow> 'k kernel_ops \<Rightarrow> (string \<Rightarrow> bool) \<Rightarrow> (string \<Rightarrow> bool) \<Rightarrow> string \<Rightarrow> flags \<Rightarrow> string option
      \<Rightarrow> string \<Rightarrow> unit result \<times> 'k \<Rightarrow> (unit result \<times> 'k \<times> bool) option" where
  "probe_insert_step alloc ko required ignorecmd md flags extra_options m = (\<lambda>(err, k).
     do { (err, k) \<leftarrow>
            (if \<not> has_flag flags KMOD_PROBE_IGNORE_LOADED \<and> ko_inkernel ko k m then Some (Inl EEXIST, k)
             else
               do { opts \<leftarrow> module_options_concat alloc (ko_options ko m) (if m = md then extra_options else None);
                    Some (if has_flag flags KMOD_PROBE_DRY_RUN then (err, k)
                          else (case ko_install_command ko m of
                                  Some cmd \<Rightarrow> if ignorecmd m then ko_insert ko k m flags opts
                                              else ko_run_install ko k m cmd opts
                                | None \<Rightarrow> ko_insert ko k m flags opts)) });
          Some (if err = Inl EEXIST \<and> m = md \<and> has_flag flags KMOD_PROBE_FAIL_ON_LOADED then (err, k, True)
                else if err = Inl EEXIST \<or> \<not> required m then (Inr (), k, False)
                else (err, k, err \<noteq> Inr ())) })"

primrec probe_insert_loop ::
    "(string \<Rightarrow> unit result \<times> 'k \<Rightarrow> (unit result \<times> 'k \<times> bool) option) \<Rightarrow> string list \<Rightarrow> unit result \<times> 'k
      \<Rightarrow> (unit result \<times> 'k) option" where
  "probe_insert_loop step [] s = Some s"
| "probe_insert_loop step (m # ms) s =
     do { (err, k, stop) \<leftarrow> step m s;
          if stop then Some (err, k) else probe_insert_loop step ms (err, k) }"

text \<open>The result is an error, 0, or one of the flags that say that a blacklist applied.\<close>

definition kmod_module_probe_insert_module ::
    "nat \<Rightarrow> (size_t \<Rightarrow> bool) \<Rightarrow> 'c probe_ops \<Rightarrow> 'k kernel_ops \<Rightarrow> string \<Rightarrow> flags \<Rightarrow> string option
      \<Rightarrow> 'c probe_state \<Rightarrow> 'k \<Rightarrow> (flags result \<times> 'c probe_state \<times> 'k) option" where
  "kmod_module_probe_insert_module fuel alloc ops ko md flags extra_options st k =
     (if \<not> has_flag flags KMOD_PROBE_IGNORE_LOADED \<and> ko_inkernel ko k md
      then Some (if has_flag flags KMOD_PROBE_FAIL_ON_LOADED then Inl EEXIST else Inr 0, st, k)
      else if ko_blacklisted ko md \<and> ko_has_alias ko md \<and> has_flag flags KMOD_PROBE_APPLY_BLACKLIST_ALIAS_ONLY
      then Some (Inr KMOD_PROBE_APPLY_BLACKLIST_ALIAS_ONLY, st, k)
      else if ko_blacklisted ko md \<and> has_flag flags KMOD_PROBE_APPLY_BLACKLIST_ALL
      then Some (Inr KMOD_PROBE_APPLY_BLACKLIST_ALL, st, k)
      else if ko_blacklisted ko md \<and> has_flag flags KMOD_PROBE_APPLY_BLACKLIST
      then Some (Inr KMOD_PROBE_APPLY_BLACKLIST, st, k)
      else
        do { (err, st) \<leftarrow> kmod_module_get_probe_list fuel alloc ops md (has_flag flags KMOD_PROBE_IGNORE_COMMAND) st;
             case err of
               Inl e \<Rightarrow> Some (Inl e, st, k)
             | Inr _ \<Rightarrow>
                 (let all = has_flag flags KMOD_PROBE_APPLY_BLACKLIST_ALL;
                      list = (if all then filter (\<lambda>m. \<not> ko_blacklisted ko m) (ps_list st) else ps_list st) in
                  if all \<and> list \<noteq> [] \<and> \<not> alloc 24 then Some (Inl ENOMEM, st, k)
                  else if all \<and> list = [] then Some (Inr KMOD_PROBE_APPLY_BLACKLIST_ALL, st, k)
                  else
                    do { (err, k) \<leftarrow> probe_insert_loop
                           (probe_insert_step alloc ko (ps_required st) (ps_ignorecmd st) md flags extra_options)
                           list (Inr (), k);
                         Some (case err of Inl e \<Rightarrow> Inl e | Inr _ \<Rightarrow> Inr 0, st, k) }) })"

section \<open>The order of the list\<close>

text \<open>
  What the context promises: the modules it knows are among \<open>U\<close> and are not forgotten; dependencies are
  a fixed list that contains the dependencies of each of its members in front of it.
\<close>

definition deps_first :: "(string \<Rightarrow> string list) \<Rightarrow> string list \<Rightarrow> bool" where
  "deps_first deps l \<longleftrightarrow> (\<forall>i < length l. set (deps (l ! i)) \<subseteq> set (take i l))"

lemma deps_first_Nil [simp]: "deps_first deps []"
  by (simp add: deps_first_def)

lemma deps_first_snoc: "deps_first deps (l @ [m]) \<longleftrightarrow> deps_first deps l \<and> set (deps m) \<subseteq> set l"
proof -
  have "deps_first deps (l @ [m]) \<longleftrightarrow> (\<forall>i < Suc (length l). set (deps ((l @ [m]) ! i)) \<subseteq> set (take i (l @ [m])))"
    by (simp add: deps_first_def)
  also have "\<dots> \<longleftrightarrow> (\<forall>i < length l. set (deps ((l @ [m]) ! i)) \<subseteq> set (take i (l @ [m]))) \<and> set (deps m) \<subseteq> set l"
    by (auto simp: less_Suc_eq)
  also have "\<dots> \<longleftrightarrow> deps_first deps l \<and> set (deps m) \<subseteq> set l"
    by (simp add: deps_first_def nth_append)
  finally show ?thesis .
qed

text \<open>
  What the kernel promises: a module whose dependencies are loaded can be inserted. Names are what it
  knows modules by (\<open>nm\<close>); two keys of the pool may share one.
\<close>

definition kernel_ok :: "'k kernel_ops \<Rightarrow> (string \<Rightarrow> string) \<Rightarrow> (string \<Rightarrow> string list) \<Rightarrow> ('k \<Rightarrow> string set) \<Rightarrow> bool" where
  "kernel_ok ko nm deps loaded \<longleftrightarrow>
     (\<forall>k m. ko_inkernel ko k m \<longleftrightarrow> nm m \<in> loaded k)
     \<and> (\<forall>k m flags opts. nm ` set (deps m) \<subseteq> loaded k \<longrightarrow> nm m \<notin> loaded k \<longrightarrow>
          fst (ko_insert ko k m flags opts) = Inr () \<and> loaded (snd (ko_insert ko k m flags opts)) = insert (nm m) (loaded k))"

definition plain_flags :: "flags \<Rightarrow> bool" where
  "plain_flags flags \<longleftrightarrow> \<not> has_flag flags KMOD_PROBE_DRY_RUN \<and> \<not> has_flag flags KMOD_PROBE_IGNORE_LOADED
     \<and> \<not> has_flag flags KMOD_PROBE_FAIL_ON_LOADED"

lemma options_concat_ok: "\<exists>opts. module_options_concat (\<lambda>_. True) a b = Some opts"
  by (simp add: module_options_concat_def Let_def)

lemma insert_step_ok:
  assumes "kernel_ok ko nm deps loaded" and "plain_flags flags" and "ko_install_command ko m = None"
    and "nm ` set (deps m) \<subseteq> loaded k"
  shows "\<exists>k'. probe_insert_step (\<lambda>_. True) ko required ignorecmd md flags extra m (Inr (), k) = Some (Inr (), k', False)
    \<and> loaded k' = insert (nm m) (loaded k)"
proof (cases "nm m \<in> loaded k")
  case True
  then have "ko_inkernel ko k m" using assms(1) by (simp add: kernel_ok_def)
  then show ?thesis using True assms(2) by (auto simp: probe_insert_step_def plain_flags_def)
next
  case False
  let ?x = "if m = md then extra else None"
  obtain opts where o: "module_options_concat (\<lambda>_. True) (ko_options ko m) ?x = Some opts" using options_concat_ok by blast
  obtain k' where i: "ko_insert ko k m flags opts = (Inr (), k')" "loaded k' = insert (nm m) (loaded k)"
    using assms(1,4) False unfolding kernel_ok_def by (metis prod.collapse)
  have "\<not> ko_inkernel ko k m" using assms(1) False by (simp add: kernel_ok_def)
  then show ?thesis using o i assms(2,3) by (simp add: probe_insert_step_def plain_flags_def)
qed

lemma insert_loop_ok:
  assumes "kernel_ok ko nm deps loaded" and "plain_flags flags" and "\<And>m. ko_install_command ko m = None"
  shows "deps_first deps (pred @ l) \<Longrightarrow> nm ` set pred \<subseteq> loaded k \<Longrightarrow>
    \<exists>k'. probe_insert_loop (probe_insert_step (\<lambda>_. True) ko required ignorecmd md flags extra) l (Inr (), k) = Some (Inr (), k')
      \<and> loaded k' = loaded k \<union> nm ` set l"
proof (induction l arbitrary: pred k)
  case (Cons m l)
  have "set (deps m) \<subseteq> set pred"
    using Cons.prems(1) unfolding deps_first_def by (auto dest!: spec [of _ "length pred"])
  then have "nm ` set (deps m) \<subseteq> loaded k" using Cons.prems(2) by blast
  then obtain k1 where k1: "probe_insert_step (\<lambda>_. True) ko required ignorecmd md flags extra m (Inr (), k) = Some (Inr (), k1, False)"
      "loaded k1 = insert (nm m) (loaded k)"
    using insert_step_ok [OF assms(1-3), where m = m and k = k and required = required and ignorecmd = ignorecmd
        and md = md and extra = extra] by blast
  have "deps_first deps ((pred @ [m]) @ l)" "nm ` set (pred @ [m]) \<subseteq> loaded k1" using Cons.prems k1(2) by auto
  from Cons.IH [OF this] obtain k2 where
    "probe_insert_loop (probe_insert_step (\<lambda>_. True) ko required ignorecmd md flags extra) l (Inr (), k1) = Some (Inr (), k2)"
    "loaded k2 = loaded k1 \<union> nm ` set l" by blast
  then show ?case using k1 by simp
qed simp

locale probe_graph =
  fixes ops :: "'c probe_ops" and ctx_ok :: "'c \<Rightarrow> bool" and known :: "'c \<Rightarrow> string set"
    and deps :: "string \<Rightarrow> string list" and U :: "string set"
  assumes dependencies: "ctx_ok c \<Longrightarrow> m \<in> known c \<Longrightarrow>
      \<exists>c'. po_dependencies ops c m = Some (deps m, c') \<and> ctx_ok c' \<and> known c \<union> set (deps m) \<subseteq> known c'"
    and softdeps: "ctx_ok c \<Longrightarrow> m \<in> known c \<Longrightarrow>
      \<exists>pre post c'. po_softdeps ops c m = Some (Inr (pre, post), c') \<and> ctx_ok c' \<and> known c \<union> set pre \<union> set post \<subseteq> known c'"
    and deps_ordered: "ctx_ok c \<Longrightarrow> m \<in> known c \<Longrightarrow> deps_first deps (deps m)"
    and known_finite: "ctx_ok c \<Longrightarrow> finite U \<and> known c \<subseteq> U"
begin

definition good :: "'c probe_state \<Rightarrow> bool" where
  "good st \<longleftrightarrow> ctx_ok (ps_ctx st) \<and> deps_first deps (ps_list st) \<and> set (ps_list st) \<subseteq> known (ps_ctx st)"

definition runs :: "'c probe_state \<Rightarrow> 'c probe_state \<Rightarrow> bool" where
  "runs st st' \<longleftrightarrow> good st' \<and> set (ps_list st) \<subseteq> set (ps_list st') \<and> known (ps_ctx st) \<subseteq> known (ps_ctx st')
     \<and> (\<forall>m. ps_visited st m \<longrightarrow> ps_visited st' m) \<and> ps_required st' = ps_required st"

definition unvisited :: "'c probe_state \<Rightarrow> nat" where
  "unvisited st = card {m \<in> U. \<not> ps_visited st m}"

text \<open>A result: it is an error only if there was no memory for a list node.\<close>

definition ends ::
    "(size_t \<Rightarrow> bool) \<Rightarrow> string set \<Rightarrow> (unit result \<times> 'c probe_state) option \<Rightarrow> 'c probe_state \<Rightarrow> bool" where
  "ends alloc S res st \<longleftrightarrow> (\<exists>r st'. res = Some (r, st') \<and> runs st st' \<and> (alloc 24 \<longrightarrow> r = Inr ())
     \<and> (r = Inr () \<longrightarrow> S \<subseteq> set (ps_list st')))"

definition probe_ok ::
    "(size_t \<Rightarrow> bool) \<Rightarrow> nat \<Rightarrow> (string \<Rightarrow> 'c probe_state \<Rightarrow> (unit result \<times> 'c probe_state) option) \<Rightarrow> bool" where
  "probe_ok alloc n P \<longleftrightarrow> (\<forall>m st. m \<in> known (ps_ctx st) \<longrightarrow> good st \<longrightarrow> unvisited st < n \<longrightarrow> ends alloc {} (P m st) st)"

lemma runs_refl: "good st \<Longrightarrow> runs st st"
  by (simp add: runs_def)

lemma runs_trans: "runs a b \<Longrightarrow> runs b c \<Longrightarrow> runs a c"
  by (auto simp: runs_def)

lemma runs_good: "runs a b \<Longrightarrow> good b"
  by (simp add: runs_def)

lemma runs_unvisited: "runs a b \<Longrightarrow> unvisited b \<le> unvisited a"
  unfolding unvisited_def by (intro card_mono) (auto simp: runs_def good_def intro: finite_subset [of _ U] dest: known_finite)

lemma ends_trans: "runs a b \<Longrightarrow> ends alloc S res b \<Longrightarrow> ends alloc S res a"
  unfolding ends_def using runs_trans by blast

lemma for_each_probe:
  assumes "probe_ok alloc n P" and "good st" and "unvisited st < n" and "set ms \<subseteq> known (ps_ctx st)"
  shows "ends alloc {} (for_each P ms st) st"
  using assms(2-4)
proof (induction ms arbitrary: st)
  case (Cons m ms)
  have "ends alloc {} (P m st) st" using assms(1) Cons.prems unfolding probe_ok_def by simp
  then obtain r st1 where p: "P m st = Some (r, st1)" "runs st st1" "alloc 24 \<longrightarrow> r = Inr ()"
    unfolding ends_def by blast
  show ?case
  proof (cases r)
    case (Inl e)
    then show ?thesis using p by (simp add: ends_def)
  next
    case (Inr u)
    have "unvisited st1 < n" using runs_unvisited [OF p(2)] Cons.prems(2) by simp
    then have "ends alloc {} (for_each P ms st1) st1"
      using Cons.IH [OF runs_good [OF p(2)]] Cons.prems(3) p(2) by (auto simp: runs_def)
    then show ?thesis using ends_trans [OF p(2)] p(1) Inr by simp
  qed
qed (simp add: runs_refl ends_def)

lemma append_module_ok:
  assumes "good st" and "m \<in> known (ps_ctx st)" and "set (deps m) \<subseteq> set (ps_list st)"
  shows "ends alloc {m} (Some (append_module alloc m b st)) st"
  using assms by (auto simp: append_module_def list_append_def runs_def good_def deps_first_snoc ends_def)

lemma fill_softdep_ok:
  assumes "probe_ok alloc n P" and "good st" and "unvisited st < n" and "m \<in> known (ps_ctx st)" and "set (deps m) \<subseteq> set (ps_list st)"
  shows "ends alloc {m} (kmod_module_fill_softdep alloc ops P m st) st"
proof -
  obtain pre post c' where s: "po_softdeps ops (ps_ctx st) m = Some (Inr (pre, post), c')" "ctx_ok c'"
      "known (ps_ctx st) \<union> set pre \<union> set post \<subseteq> known c'"
    using softdeps [OF _ assms(4)] assms(2) unfolding good_def by blast
  let ?st = "st\<lparr>ps_ctx := c'\<rparr>"
  have g: "good ?st" "runs st ?st" "unvisited ?st < n"
    using assms(2,3) s(2,3) by (auto simp: good_def runs_def unvisited_def)
  have "ends alloc {} (for_each P pre ?st) ?st" using for_each_probe [OF assms(1) g(1,3), of pre] s(3) by simp
  then obtain r1 st1 where p: "for_each P pre ?st = Some (r1, st1)" "runs ?st st1" "alloc 24 \<longrightarrow> r1 = Inr ()"
    unfolding ends_def by blast
  have r1: "runs st st1" by (rule runs_trans [OF g(2) p(2)])
  have d1: "set (deps m) \<subseteq> set (ps_list st1)" and m1: "m \<in> known (ps_ctx st1)" using assms(4,5) r1 by (auto simp: runs_def)
  obtain r2 st2 where a: "append_module alloc m (pre \<noteq> [] \<or> post \<noteq> []) st1 = (r2, st2)" "runs st1 st2"
      "alloc 24 \<longrightarrow> r2 = Inr ()" "r2 = Inr () \<longrightarrow> m \<in> set (ps_list st2)"
    using append_module_ok [OF runs_good [OF r1] m1 d1, of alloc "pre \<noteq> [] \<or> post \<noteq> []"] unfolding ends_def by auto
  have r2: "runs st st2" by (rule runs_trans [OF r1 a(2)])
  have "unvisited st2 < n" using runs_unvisited [OF r2] assms(3) by simp
  then have "ends alloc {} (for_each P post st2) st2"
    using for_each_probe [OF assms(1) runs_good [OF r2], of post] s(3) p(2) a(2) by (auto simp: runs_def)
  then obtain r3 st3 where q: "for_each P post st2 = Some (r3, st3)" "runs st2 st3" "alloc 24 \<longrightarrow> r3 = Inr ()"
    unfolding ends_def by blast
  have "m \<in> set (ps_list st3)" if "r2 = Inr ()" using a(4) q(2) that by (auto simp: runs_def)
  then show ?thesis
    using s(1) p(1,3) a(1,3) q(1,3) r1 r2 runs_trans [OF r2 q(2)]
    by (cases r1; cases r2) (auto simp: kmod_module_fill_softdep_def ends_def)
qed

lemma fill_dependencies_ok:
  assumes "probe_ok alloc n P" and "deps m = ds1 @ ds2" and "good st" and "unvisited st < n"
    and "set ds1 \<subseteq> set (ps_list st)" and "insert m (set (deps m)) \<subseteq> known (ps_ctx st)"
  shows "ends alloc (set (deps m)) (for_each (kmod_module_fill_softdep alloc ops P) ds2 st) st"
  using assms(2-6)
proof (induction ds2 arbitrary: ds1 st)
  case Nil
  then show ?case by (simp add: runs_refl ends_def)
next
  case (Cons d ds2)
  have ok: "ctx_ok (ps_ctx st)" using Cons.prems(2) by (simp add: good_def)
  have d: "d \<in> known (ps_ctx st)" and m: "m \<in> known (ps_ctx st)" using Cons.prems(1,5) by auto
  have "set (deps d) \<subseteq> set ds1"
    using deps_ordered [OF ok m] unfolding Cons.prems(1) deps_first_def
    by (auto dest!: spec [of _ "length ds1"])
  then have "set (deps d) \<subseteq> set (ps_list st)" using Cons.prems(4) by blast
  from fill_softdep_ok [OF assms(1) Cons.prems(2,3) d this] obtain r st1 where
    f: "kmod_module_fill_softdep alloc ops P d st = Some (r, st1)" "runs st st1" "alloc 24 \<longrightarrow> r = Inr ()"
      "r = Inr () \<longrightarrow> d \<in> set (ps_list st1)"
    unfolding ends_def by blast
  show ?case
  proof (cases r)
    case (Inl e)
    then show ?thesis using f by (simp add: ends_def)
  next
    case (Inr x)
    have "set (ds1 @ [d]) \<subseteq> set (ps_list st1)" using f(2,4) Inr Cons.prems(4) by (auto simp: runs_def)
    moreover have "unvisited st1 < n" using runs_unvisited [OF f(2)] Cons.prems(3) by simp
    moreover have "insert m (set (deps m)) \<subseteq> known (ps_ctx st1)" using f(2) Cons.prems(5) by (auto simp: runs_def)
    ultimately have "ends alloc (set (deps m)) (for_each (kmod_module_fill_softdep alloc ops P) ds2 st1) st1"
      using Cons.IH [of "ds1 @ [d]" st1] Cons.prems(1) runs_good [OF f(2)] by simp
    then show ?thesis using ends_trans [OF f(2)] f(1) Inr by simp
  qed
qed

text \<open>The flags that a visit sets before it follows the dependencies.\<close>

definition entered :: "string \<Rightarrow> bool \<Rightarrow> 'c probe_state \<Rightarrow> 'c probe_state" where
  "entered md required st = st\<lparr>ps_visited := (ps_visited st)(md := True),
     ps_required := (if required then (\<lambda>m. m = md \<or> m \<in> set (deps md) \<or> ps_required st m) else ps_required st)\<rparr>"

lemma entered_fields [simp]:
  "ps_ctx (entered md required st) = ps_ctx st" "ps_list (entered md required st) = ps_list st"
  "ps_visited (entered md required st) = (ps_visited st)(md := True)"
  by (simp_all add: entered_def)

lemma entered_unvisited:
  assumes "good st" and "md \<in> known (ps_ctx st)" and "\<not> ps_visited st md"
  shows "unvisited (entered md required st) < unvisited st"
proof -
  have "finite {m \<in> U. \<not> ps_visited st m}" using assms(1) known_finite by (auto simp: good_def)
  moreover have "md \<in> U" using assms(1,2) known_finite by (auto simp: good_def)
  ultimately show ?thesis using assms(3) unfolding unvisited_def by (intro psubset_card_mono) auto
qed

lemma visit_ok:
  assumes P: "probe_ok alloc n (\<lambda>m. kmod_module_get_probe_list_rec n alloc ops m False False)"
    and st: "good st" "unvisited st < Suc n" and md: "md \<in> known (ps_ctx st)" "\<not> ps_visited st md"
  shows "ends alloc (insert md (set (deps md)))
    (kmod_module_get_probe_list_rec (Suc n) alloc ops md required ignorecmd st) (entered md required st)"
proof -
  let ?P = "\<lambda>m. kmod_module_get_probe_list_rec n alloc ops m False False" and ?e = "entered md required st"
  obtain c' where c: "po_dependencies ops (ps_ctx st) md = Some (deps md, c')" "ctx_ok c'"
      "known (ps_ctx st) \<union> set (deps md) \<subseteq> known c'"
    using dependencies [OF _ md(1)] st(1) unfolding good_def by blast
  let ?st = "?e\<lparr>ps_ctx := c'\<rparr>"
  have g: "good ?st" "runs ?e ?st" "insert md (set (deps md)) \<subseteq> known (ps_ctx ?st)"
    using st(1) c(2,3) md(1) by (auto simp: good_def runs_def)
  have u: "unvisited ?st < n" using entered_unvisited [OF st(1) md, of required] st(2) by (simp add: unvisited_def)
  obtain r1 st1 where f: "for_each (kmod_module_fill_softdep alloc ops ?P) (deps md) ?st = Some (r1, st1)"
      "runs ?st st1" "alloc 24 \<longrightarrow> r1 = Inr ()" "r1 = Inr () \<longrightarrow> set (deps md) \<subseteq> set (ps_list st1)"
    using fill_dependencies_ok [OF P _ g(1) u _ g(3), of "[]" "deps md"] unfolding ends_def by auto
  have step: "kmod_module_get_probe_list_rec (Suc n) alloc ops md required ignorecmd st =
      (case r1 of Inl e \<Rightarrow> Some (Inl e, st1)
       | Inr _ \<Rightarrow> if ignorecmd then Some (append_module alloc md True st1)
                   else kmod_module_fill_softdep alloc ops ?P md st1)"
  proof -
    have "?st = (if required then st\<lparr>ps_visited := (ps_visited st)(md := True), ps_ctx := c',
          ps_required := (\<lambda>m. m = md \<or> m \<in> set (deps md) \<or> ps_required st m)\<rparr>
        else st\<lparr>ps_visited := (ps_visited st)(md := True), ps_ctx := c'\<rparr>)"
      by (simp add: entered_def)
    with f(1) show ?thesis using md(2) c(1) by (cases required) (simp_all add: Let_def)
  qed
  have r1: "runs ?e st1" by (rule runs_trans [OF g(2) f(2)])
  show ?thesis
  proof (cases r1)
    case (Inl e)
    then show ?thesis using step f r1 by (simp add: ends_def)
  next
    case (Inr x)
    have d: "set (deps md) \<subseteq> set (ps_list st1)" using f(4) Inr by simp
    have m1: "md \<in> known (ps_ctx st1)" using r1 md(1) by (auto simp: runs_def)
    have u1: "unvisited st1 < n" using runs_unvisited [OF f(2)] u by simp
    have "ends alloc {md} (kmod_module_get_probe_list_rec (Suc n) alloc ops md required ignorecmd st) st1"
      using step Inr append_module_ok [OF runs_good [OF r1] m1 d] fill_softdep_ok [OF P runs_good [OF r1] u1 m1 d]
      by simp
    then obtain r2 st2 where "kmod_module_get_probe_list_rec (Suc n) alloc ops md required ignorecmd st = Some (r2, st2)"
        "runs st1 st2" "alloc 24 \<longrightarrow> r2 = Inr ()" "r2 = Inr () \<longrightarrow> md \<in> set (ps_list st2)"
      unfolding ends_def by blast
    then show ?thesis using d runs_trans [OF r1] unfolding ends_def by (auto simp: runs_def)
  qed
qed

lemma rec_probe_ok: "probe_ok alloc n (\<lambda>m. kmod_module_get_probe_list_rec n alloc ops m False False)"
proof (induction n)
  case (Suc n)
  show ?case
    unfolding probe_ok_def
  proof (intro allI impI)
    fix m st assume a: "m \<in> known (ps_ctx st)" "good st" "unvisited st < Suc n"
    show "ends alloc {} (kmod_module_get_probe_list_rec (Suc n) alloc ops m False False st) st"
    proof (cases "ps_visited st m")
      case True
      then show ?thesis using runs_refl [OF a(2)] by (simp add: ends_def)
    next
      case False
      have "runs st (entered m False st)" using a(2) by (auto simp: runs_def good_def entered_def)
      then show ?thesis
        using visit_ok [OF Suc.IH a(2,3,1) False, where required = False and ignorecmd = False] unfolding ends_def by (blast intro: runs_trans)
    qed
  qed
qed (simp add: probe_ok_def)

lemma probe_list_ok:
  assumes "ctx_ok (ps_ctx st)" and "md \<in> known (ps_ctx st)" and "card U < fuel"
  shows "\<exists>r st'. kmod_module_get_probe_list fuel alloc ops md ignorecmd st = Some (r, st') \<and> ctx_ok (ps_ctx st')
    \<and> (alloc 24 \<longrightarrow> r = Inr ()) \<and> set (ps_list st') \<subseteq> known (ps_ctx st') \<and> known (ps_ctx st) \<subseteq> known (ps_ctx st') \<and> deps_first deps (ps_list st')
    \<and> (r = Inr () \<longrightarrow> insert md (set (deps md)) \<subseteq> set (ps_list st'))
    \<and> ps_required st' = (\<lambda>m. m = md \<or> m \<in> set (deps md))"
proof -
  let ?st = "st\<lparr>ps_visited := (\<lambda>_. False), ps_required := (\<lambda>_. False), ps_list := []\<rparr>"
  obtain n where n: "fuel = Suc n" using assms(3) by (cases fuel) auto
  have g: "good ?st" "unvisited ?st < Suc n" using assms n by (simp_all add: good_def unvisited_def)
  obtain r st' where "kmod_module_get_probe_list_rec (Suc n) alloc ops md True ignorecmd ?st = Some (r, st')"
      "runs (entered md True ?st) st'" "alloc 24 \<longrightarrow> r = Inr ()" "r = Inr () \<longrightarrow> insert md (set (deps md)) \<subseteq> set (ps_list st')"
    using visit_ok [OF rec_probe_ok g, of md alloc True ignorecmd] assms(2) unfolding ends_def
    by (auto simp del: kmod_module_get_probe_list_rec.simps)
  then show ?thesis
    unfolding n by (cases r) (auto simp: kmod_module_get_probe_list_def runs_def good_def entered_def
        simp del: kmod_module_get_probe_list_rec.simps)
qed

lemma insert_module_ok:
  assumes "ctx_ok (ps_ctx st)" and "md \<in> known (ps_ctx st)" and "card U < fuel"
    and "kernel_ok ko nm deps loaded" and "plain_flags flags" and "\<And>m. ko_install_command ko m = None" and "\<And>m. \<not> ko_blacklisted ko m"
  shows "\<exists>st' k'. kmod_module_probe_insert_module fuel (\<lambda>_. True) ops ko md flags extra st k = Some (Inr 0, st', k')
    \<and> loaded k \<subseteq> loaded k' \<and> nm md \<in> loaded k' \<and> (nm md \<notin> loaded k \<longrightarrow> nm ` set (deps md) \<subseteq> loaded k')"
proof (cases "nm md \<in> loaded k")
  case True
  then show ?thesis using assms(4,5) by (simp add: kmod_module_probe_insert_module_def plain_flags_def kernel_ok_def)
next
  case False
  obtain st' where L: "kmod_module_get_probe_list fuel (\<lambda>_. True) ops md (has_flag flags KMOD_PROBE_IGNORE_COMMAND) st = Some (Inr (), st')"
      "deps_first deps (ps_list st')" "insert md (set (deps md)) \<subseteq> set (ps_list st')"
    using probe_list_ok [OF assms(1-3), of "\<lambda>_. True" "has_flag flags KMOD_PROBE_IGNORE_COMMAND"] by auto
  obtain k' where k': "probe_insert_loop (probe_insert_step (\<lambda>_. True) ko (ps_required st') (ps_ignorecmd st') md flags extra)
        (ps_list st') (Inr (), k) = Some (Inr (), k')" "loaded k' = loaded k \<union> nm ` set (ps_list st')"
    using insert_loop_ok [OF assms(4-6), where pred = "[]" and l = "ps_list st'" and k = k and required = "ps_required st'"
        and ignorecmd = "ps_ignorecmd st'" and md = md and extra = extra] L(2) by auto
  have "ps_list st' \<noteq> []" using L(3) by auto
  then have "kmod_module_probe_insert_module fuel (\<lambda>_. True) ops ko md flags extra st k = Some (Inr 0, st', k')"
    using L(1) k'(1) False assms(4,5,7) by (simp add: kmod_module_probe_insert_module_def plain_flags_def kernel_ok_def Let_def)
  then show ?thesis using k'(2) L(3) by blast
qed

text \<open>Without soft dependencies the list is the dependencies and then the module.\<close>

definition no_softdeps :: bool where
  "no_softdeps \<longleftrightarrow> (\<forall>c m. ctx_ok c \<longrightarrow> m \<in> known c \<longrightarrow> po_softdeps ops c m = Some (Inr ([], []), c))"

lemma fill_softdep_plain:
  assumes "no_softdeps" and "alloc 24" and "ctx_ok (ps_ctx st)" and "m \<in> known (ps_ctx st)"
  shows "kmod_module_fill_softdep alloc ops P m st
    = Some (Inr (), st\<lparr>ps_list := ps_list st @ [m], ps_ignorecmd := (ps_ignorecmd st)(m := False)\<rparr>)"
  using assms by (simp add: no_softdeps_def kmod_module_fill_softdep_def append_module_def list_append_def)

lemma fill_dependencies_plain:
  assumes "no_softdeps" and "alloc 24" and "ctx_ok (ps_ctx st)" and "set ms \<subseteq> known (ps_ctx st)"
  shows "\<exists>st'. for_each (kmod_module_fill_softdep alloc ops P) ms st = Some (Inr (), st')
    \<and> ps_list st' = ps_list st @ ms \<and> ps_ctx st' = ps_ctx st"
  using assms(3,4)
proof (induction ms arbitrary: st)
  case (Cons m ms)
  let ?st = "st\<lparr>ps_list := ps_list st @ [m], ps_ignorecmd := (ps_ignorecmd st)(m := False)\<rparr>"
  have "kmod_module_fill_softdep alloc ops P m st = Some (Inr (), ?st)"
    using fill_softdep_plain [of alloc st m P] assms(1,2) Cons.prems by simp
  then show ?case using Cons.IH [of ?st] Cons.prems by auto
qed simp

lemma probe_list_plain:
  assumes "no_softdeps" and "alloc 24" and "ctx_ok (ps_ctx st)" and "md \<in> known (ps_ctx st)" and "0 < fuel"
  shows "\<exists>st'. kmod_module_get_probe_list fuel alloc ops md ignorecmd st = Some (Inr (), st') \<and> ps_list st' = deps md @ [md]"
proof -
  obtain n where n: "fuel = Suc n" using assms(5) by (cases fuel) auto
  let ?P = "\<lambda>m. kmod_module_get_probe_list_rec n alloc ops m False False"
  let ?st = "st\<lparr>ps_visited := (\<lambda>_. False), ps_required := (\<lambda>_. False), ps_list := []\<rparr>"
  obtain c' where c: "po_dependencies ops (ps_ctx st) md = Some (deps md, c')" "ctx_ok c'" "known (ps_ctx st) \<union> set (deps md) \<subseteq> known c'"
    using dependencies [OF assms(3,4)] by blast
  let ?s = "?st\<lparr>ps_visited := (ps_visited ?st)(md := True), ps_ctx := c', ps_required := (\<lambda>m. m = md \<or> m \<in> set (deps md) \<or> ps_required ?st m)\<rparr>"
  obtain s1 where s1: "for_each (kmod_module_fill_softdep alloc ops ?P) (deps md) ?s = Some (Inr (), s1)"
      "ps_list s1 = deps md" "ps_ctx s1 = c'"
    using fill_dependencies_plain [of alloc ?s "deps md" ?P] assms(1,2) c by auto
  have "md \<in> known (ps_ctx s1)" "ctx_ok (ps_ctx s1)" using c assms(4) s1(3) by auto
  then have "\<exists>s2. (if ignorecmd then Some (append_module alloc md True s1) else kmod_module_fill_softdep alloc ops ?P md s1)
      = Some (Inr (), s2) \<and> ps_list s2 = deps md @ [md]"
    using fill_softdep_plain [of alloc s1 md ?P] assms(1,2) s1(2) by (simp add: append_module_def list_append_def)
  then obtain s2 where s2: "(if ignorecmd then Some (append_module alloc md True s1) else kmod_module_fill_softdep alloc ops ?P md s1)
      = Some (Inr (), s2)" "ps_list s2 = deps md @ [md]" by blast
  have "kmod_module_get_probe_list_rec fuel alloc ops md True ignorecmd ?st = Some (Inr (), s2)"
    using c(1) s1(1) s2(1) n by (simp add: Let_def)
  then show ?thesis using s2(2) by (simp add: kmod_module_get_probe_list_def)
qed

end

end
