(* ===== verification/Kmod_Load.thy ===== *)
theory Kmod_Load
  imports Kmod_Module Kmod_Probe
begin

text \<open>
  Loading modules: the operations of \<open>Kmod_Module\<close> as the context of the probing of \<open>Kmod_Probe\<close>. A
  \<open>mod_tree\<close> says what the installed module tree contains: the modules of \<open>modules.dep\<close> with their
  files and dependencies, and the keys of the pool that lookups may create. On a context that agrees
  with it (\<open>lib_ok\<close>) the operations never fail and never leave it.
\<close>

section \<open>The module tree\<close>

record mod_tree =
  mt_names :: "string set"
  mt_rel :: "string \<Rightarrow> string"
  mt_needs :: "string \<Rightarrow> string list"
  mt_keys :: "string set"
  mt_name :: "string \<Rightarrow> string"

definition mod_path :: "mod_tree \<Rightarrow> kmod_ctx \<Rightarrow> string \<Rightarrow> string" where
  "mod_path T ctx n = cx_dirname ctx @ ''/'' @ mt_rel T n"

definition depline_of :: "mod_tree \<Rightarrow> string \<Rightarrow> string" where
  "depline_of T n = mt_rel T n @ '':'' @ concat (map (\<lambda>d. '' '' @ mt_rel T d) (mt_needs T n))"

definition key_deps :: "mod_tree \<Rightarrow> string \<Rightarrow> string list" where
  "key_deps T k = (if mt_name T k \<in> mt_names T then rev (mt_needs T (mt_name T k)) else [])"

text \<open>Names are canonical, and a file has the name of its module.\<close>

definition clean_name :: "string \<Rightarrow> bool" where
  "clean_name n \<longleftrightarrow> nul_free n \<and> CHR ''-'' \<notin> set n \<and> CHR ''.'' \<notin> set n \<and> length n < PATH_MAX"

definition file_ok :: "lib_env \<Rightarrow> kmod_ctx \<Rightarrow> mod_tree \<Rightarrow> string \<Rightarrow> bool" where
  "file_ok env ctx T n \<longleftrightarrow> nul_free (mod_path T ctx n) \<and> mt_rel T n \<noteq> [] \<and> set (mt_rel T n) \<inter> {CHR '' '', CHR 0x09, CHR '':''} = {}
     \<and> hd (mt_rel T n) \<noteq> CHR ''/'' \<and> basename (mt_rel T n) \<noteq> [] \<and> norm_name (basename (mt_rel T n)) = n
     \<and> length (mod_path T ctx n) + 1 < PATH_MAX \<and> (\<exists>stamp. en_stat env (mod_path T ctx n) = Inr stamp)"

definition tree_ok :: "lib_env \<Rightarrow> kmod_ctx \<Rightarrow> mod_tree \<Rightarrow> bool" where
  "tree_ok env ctx T \<longleftrightarrow> finite (mt_keys T) \<and> mt_names T \<subseteq> mt_keys T
     \<and> cx_dirname ctx \<noteq> [] \<and> hd (cx_dirname ctx) = CHR ''/'' \<and> length (cx_dirname ctx) + 2 < PATH_MAX
     \<and> (\<forall>n \<in> mt_names T. clean_name n \<and> mt_name T n = n \<and> file_ok env ctx T n \<and> set (mt_needs T n) \<subseteq> mt_names T
          \<and> deps_first (key_deps T) (rev (mt_needs T n)))
     \<and> (\<forall>k \<in> mt_keys T. kmod_search_moddep env ctx (mt_name T k)
          = Some (if mt_name T k \<in> mt_names T then Some (depline_of T (mt_name T k)) else None))"

definition env_ok :: "lib_env \<Rightarrow> bool" where
  "env_ok env \<longleftrightarrow> (\<forall>n. en_alloc env n) \<and> (\<forall>k. en_pool_grows env k)"

text \<open>What a lookup may find is in the tree; so is what the soft dependencies name.\<close>

definition name_ok :: "mod_tree \<Rightarrow> string \<Rightarrow> bool" where
  "name_ok T s \<longleftrightarrow> nul_free s \<and> length s < PATH_MAX \<and> norm_name s \<in> mt_keys T \<and> mt_name T (norm_name s) = norm_name s"

definition alias_key :: "string \<times> string \<Rightarrow> string" where
  "alias_key a = snd a @ [CHR 0x5C] @ fst a"

definition alias_ok :: "mod_tree \<Rightarrow> string \<times> string \<Rightarrow> bool" where
  "alias_ok T a \<longleftrightarrow> alias_key a \<in> mt_keys T \<and> mt_name T (alias_key a) = snd a \<and> length (snd a) + length (fst a) + 2 \<le> PATH_MAX"

definition lookup_closed :: "lib_env \<Rightarrow> kmod_ctx \<Rightarrow> mod_tree \<Rightarrow> string \<Rightarrow> bool" where
  "lookup_closed env ctx T s \<longleftrightarrow>
     (\<forall>a \<in> set (aliases (cx_config ctx)). en_fnmatch env (al_name a) s \<longrightarrow> alias_ok T (al_name a, al_modname a))
     \<and> (\<forall>i. \<exists>r. search_realnames env ctx i s = Some r \<and> (\<forall>vs. r = Some vs \<longrightarrow> (\<forall>v \<in> set vs. alias_ok T (s, snd v))))
     \<and> (\<exists>r. kmod_search_moddep env ctx s = Some r \<and> (r \<noteq> None \<longrightarrow> s \<in> mt_names T \<and> r = Some (depline_of T s)))
     \<and> (\<exists>r. lookup_file env ctx KMOD_INDEX_MODULES_BUILTIN s = Some r \<and> (r \<noteq> None \<longrightarrow> name_ok T s))
     \<and> (\<forall>c \<in> set (install_commands (cx_config ctx)) \<union> set (remove_commands (cx_config ctx)). cm_modname c = s \<longrightarrow> name_ok T s)"

definition soft_closed :: "lib_env \<Rightarrow> kmod_ctx \<Rightarrow> mod_tree \<Rightarrow> bool" where
  "soft_closed env ctx T \<longleftrightarrow> (\<forall>d \<in> set (softdeps (cx_config ctx)). \<exists>pre post. softdep_view d = (sd_name d, Some pre, Some post)
     \<and> (\<forall>s \<in> set pre \<union> set post. nul_free s \<and> (\<forall>t. norm_alias (take (PATH_MAX - 1) s) = Some t \<longrightarrow> lookup_closed env ctx T t)))"

section \<open>Contexts that agree with the tree\<close>

definition same_lib :: "kmod_ctx \<Rightarrow> kmod_ctx \<Rightarrow> bool" where
  "same_lib c c' \<longleftrightarrow> cx_dirname c' = cx_dirname c \<and> cx_config c' = cx_config c \<and> cx_indexes c' = cx_indexes c"

abbreviation pool :: "kmod_ctx \<Rightarrow> string \<rightharpoonup> kmod_module" where "pool \<equiv> cx_modules_by_name"

definition base_ok :: "mod_tree \<Rightarrow> kmod_ctx \<Rightarrow> string \<Rightarrow> kmod_module \<Rightarrow> bool" where
  "base_ok T ctx k m \<longleftrightarrow> k \<in> mt_keys T \<and> km_name m = mt_name T k
     \<and> (mt_name T k \<in> mt_names T \<longrightarrow> km_path m = None \<or> km_path m = Some (mod_path T ctx (mt_name T k)))"

definition dep_ok :: "mod_tree \<Rightarrow> kmod_ctx \<Rightarrow> string \<Rightarrow> kmod_module \<Rightarrow> bool" where
  "dep_ok T ctx k m \<longleftrightarrow> km_dep m = (if km_init_dep m then key_deps T k else []) \<and> set (km_dep m) \<subseteq> dom (pool ctx)"

text \<open>\<open>x\<close> is a module whose dependency line is being read.\<close>

definition pool_ok :: "mod_tree \<Rightarrow> string option \<Rightarrow> kmod_ctx \<Rightarrow> bool" where
  "pool_ok T x ctx \<longleftrightarrow> (\<forall>k m. pool ctx k = Some m \<longrightarrow> base_ok T ctx k m \<and> (x \<noteq> Some k \<longrightarrow> dep_ok T ctx k m))"

definition lib_ok :: "lib_env \<Rightarrow> mod_tree \<Rightarrow> kmod_ctx \<Rightarrow> bool" where
  "lib_ok env T ctx \<longleftrightarrow> env_ok env \<and> tree_ok env ctx T \<and> soft_closed env ctx T \<and> pool_ok T None ctx"

definition grows :: "kmod_ctx \<Rightarrow> kmod_ctx \<Rightarrow> bool" where
  "grows c c' \<longleftrightarrow> same_lib c c' \<and> dom (pool c) \<subseteq> dom (pool c')"

text \<open>The dependencies that are known stay the same.\<close>

definition keeps_deps :: "kmod_ctx \<Rightarrow> kmod_ctx \<Rightarrow> bool" where
  "keeps_deps c c' \<longleftrightarrow> grows c c' \<and> (\<forall>k m. pool c k = Some m \<longrightarrow>
     (\<exists>m'. pool c' k = Some m' \<and> km_init_dep m' = km_init_dep m \<and> km_dep m' = km_dep m))"

lemma grows_refl: "grows c c" and keeps_deps_refl: "keeps_deps c c"
  by (simp_all add: grows_def same_lib_def keeps_deps_def)

lemma grows_trans: "grows a b \<Longrightarrow> grows b c \<Longrightarrow> grows a c"
  by (auto simp: grows_def same_lib_def)

lemma keeps_deps_trans: "keeps_deps a b \<Longrightarrow> keeps_deps b c \<Longrightarrow> keeps_deps a c"
  unfolding keeps_deps_def using grows_trans by (elim conjE) (intro conjI allI impI, blast, fastforce)

lemma keeps_deps_grows: "keeps_deps a b \<Longrightarrow> grows a b"
  by (simp add: keeps_deps_def)

lemma open_index_same: "same_lib c c' \<Longrightarrow> open_index env c' i = open_index env c i"
  by (simp add: open_index_def index_path_def same_lib_def)

lemma lookup_file_same: "same_lib c c' \<Longrightarrow> lookup_file env c' i n = lookup_file env c i n"
  unfolding lookup_file_def by (simp only: open_index_same) (simp add: same_lib_def)

lemma search_same: "same_lib c c' \<Longrightarrow> kmod_search_moddep env c' n = kmod_search_moddep env c n"
  by (simp add: kmod_search_moddep_def lookup_file_same)

lemma realnames_same: "same_lib c c' \<Longrightarrow> search_realnames env c' i n = search_realnames env c i n"
  unfolding search_realnames_def by (simp only: open_index_same) (simp add: same_lib_def)

lemma mod_path_same: "same_lib c c' \<Longrightarrow> mod_path T c' n = mod_path T c n"
  by (simp add: mod_path_def same_lib_def)

lemma tree_ok_same: "same_lib c c' \<Longrightarrow> tree_ok env c' T = tree_ok env c T"
  unfolding tree_ok_def file_ok_def by (simp only: search_same mod_path_same) (simp add: same_lib_def)

lemma lookup_closed_same: "same_lib c c' \<Longrightarrow> lookup_closed env c' T s = lookup_closed env c T s"
  unfolding lookup_closed_def by (simp only: search_same realnames_same lookup_file_same) (simp add: same_lib_def)

lemma soft_closed_same: "same_lib c c' \<Longrightarrow> soft_closed env c' T = soft_closed env c T"
  unfolding soft_closed_def by (simp only: lookup_closed_same) (simp add: same_lib_def)

lemma base_ok_same: "same_lib c c' \<Longrightarrow> base_ok T c' k m = base_ok T c k m"
  unfolding base_ok_def by (simp only: mod_path_same)

lemma lib_ok_grows: "lib_ok env T c \<Longrightarrow> grows c c' \<Longrightarrow> pool_ok T None c' \<Longrightarrow> lib_ok env T c'"
  unfolding lib_ok_def grows_def using tree_ok_same soft_closed_same by blast

lemma dep_ok_cong: "km_dep m' = km_dep m \<Longrightarrow> km_init_dep m' = km_init_dep m \<Longrightarrow> dep_ok T c k m' = dep_ok T c k m"
  by (simp only: dep_ok_def)

lemma pool_ok_done:
  assumes "pool_ok T (Some k) ctx" and "pool ctx k = Some m" and "dep_ok T ctx k m"
  shows "pool_ok T None ctx"
  unfolding pool_ok_def
proof (intro allI impI)
  fix k' m' assume p: "pool ctx k' = Some m'"
  then show "base_ok T ctx k' m' \<and> (None \<noteq> Some k' \<longrightarrow> dep_ok T ctx k' m')"
    using assms unfolding pool_ok_def by (cases "k' = k") auto
qed

text \<open>Updating a module of the pool, or adding one.\<close>

lemma set_module_ok:
  assumes "pool_ok T x ctx" and "base_ok T ctx k m" and "x \<noteq> Some k \<Longrightarrow> dep_ok T ctx k m"
  shows "pool_ok T x (set_module k m ctx)" "grows ctx (set_module k m ctx)" "pool (set_module k m ctx) k = Some m"
proof -
  have s: "same_lib ctx (set_module k m ctx)" by (simp add: same_lib_def set_module_def)
  have "dep_ok T (set_module k m ctx) k' m'" if "dep_ok T ctx k' m'" for k' m'
    using that by (auto simp: dep_ok_def set_module_def)
  note mono = this
  have "base_ok T ctx k' m' \<and> (x \<noteq> Some k' \<longrightarrow> dep_ok T (set_module k m ctx) k' m')"
    if "pool (set_module k m ctx) k' = Some m'" for k' m'
  proof (cases "k' = k")
    case True
    then show ?thesis using that assms(2,3) mono by (auto simp: set_module_def)
  next
    case False
    then have "pool ctx k' = Some m'" using that by (simp add: set_module_def)
    then show ?thesis using assms(1) mono unfolding pool_ok_def by blast
  qed
  then show "pool_ok T x (set_module k m ctx)" unfolding pool_ok_def base_ok_same [OF s] by blast
  show "grows ctx (set_module k m ctx)" using s by (auto simp: grows_def set_module_def)
qed (simp add: set_module_def)

lemma set_module_keeps:
  assumes "grows ctx (set_module k m ctx)"
    and "\<And>m'. pool ctx k = Some m' \<Longrightarrow> km_init_dep m = km_init_dep m' \<and> km_dep m = km_dep m'"
  shows "keeps_deps ctx (set_module k m ctx)"
  using assms by (auto simp: keeps_deps_def set_module_def)

lemma new_ok:
  assumes "env_ok env" and "pool_ok T x ctx" and "key \<in> mt_keys T" and "take namelen key = mt_name T key"
  shows "\<exists>ctx'. kmod_module_new env ctx key namelen al = (Inr key, ctx') \<and> pool_ok T x ctx' \<and> keeps_deps ctx ctx' \<and> key \<in> dom (pool ctx')"
proof (cases "pool ctx key")
  case (Some m)
  then show ?thesis using assms(2) keeps_deps_refl by (auto simp: kmod_module_new_def kmod_pool_get_module_def)
next
  case None
  let ?m = "\<lparr>km_name = take namelen key, km_path = None, km_dep = [], km_options = None,
     km_install_commands = None, km_remove_commands = None, km_alias = (if al then Some (drop (namelen + 1) key) else None),
     km_init_dep = False, km_init_options = False, km_init_install_commands = False,
     km_init_remove_commands = False, km_builtin = KMOD_MODULE_BUILTIN_UNKNOWN\<rparr>"
  have ok: "base_ok T ctx key ?m" "dep_ok T ctx key ?m" using assms(3,4) by (simp_all add: base_ok_def dep_ok_def)
  note s = set_module_ok [OF assms(2) ok(1)] ok(2)
  have "kmod_module_new env ctx key namelen al = (Inr key, set_module key ?m ctx)"
    using None assms(1) by (simp add: kmod_module_new_def kmod_pool_get_module_def kmod_pool_add_module_def env_ok_def)
  then show ?thesis using s set_module_keeps [OF s(2)] None by auto
qed

lemma tree_okD:
  assumes "tree_ok env ctx T" and "n \<in> mt_names T"
  shows "clean_name n" "mt_name T n = n" "file_ok env ctx T n" "set (mt_needs T n) \<subseteq> mt_names T" "n \<in> mt_keys T"
  using assms unfolding tree_ok_def by blast+

lemma basename_join: "basename (dir @ ''/'' @ rel) = basename rel"
proof -
  have "takeWhile P (xs @ y # zs) = takeWhile P xs" if "\<not> P y" for P xs and y :: char and zs
    using that by (induction xs) auto
  then show ?thesis by (simp add: basename_def)
qed

lemma file_modname:
  assumes "file_ok env ctx T n"
  shows "\<exists>buf. path_to_modname (mod_path T ctx n) path_buf = Some (Some (length n, buf)) \<and> read_cstr buf = Some n"
proof -
  let ?b = "basename (mt_rel T n)"
  have b: "basename (mod_path T ctx n) = ?b" by (simp only: mod_path_def basename_join)
  have len: "length ?b \<le> PATH_MAX - 1"
    using assms length_takeWhile_le [of "\<lambda>c. c \<noteq> CHR ''/''" "rev (mt_rel T n)"] by (simp add: file_ok_def mod_path_def basename_def)
  have "nul_free (mt_rel T n)" using assms by (simp add: file_ok_def mod_path_def)
  then have nf: "nul_free ?b" by (auto simp: basename_def dest: set_takeWhileD)
  have "norm_name (take (PATH_MAX - 1) ?b) = n" using assms len by (simp add: file_ok_def)
  with modname_normalize_spec [OF nf, of path_buf] obtain buf where
    "modname_normalize ?b path_buf = Some (length n, buf)" "read_cstr buf = Some n" by auto
  then show ?thesis using b assms by (simp add: path_to_modname_def Let_def file_ok_def)
qed

lemma mod_path_absolute: "tree_ok env ctx T \<Longrightarrow> path_is_absolute (mod_path T ctx n)"
  by (cases "cx_dirname ctx") (auto simp: tree_ok_def path_is_absolute_def mod_path_def char_at_def)

lemma new_from_path_ok:
  assumes "env_ok env" and "tree_ok env ctx T" and "pool_ok T x ctx" and "d \<in> mt_names T"
  shows "\<exists>ctx'. kmod_module_new_from_path env ctx (mod_path T ctx d) = Some (Inr d, ctx')
    \<and> pool_ok T x ctx' \<and> keeps_deps ctx ctx' \<and> d \<in> dom (pool ctx')"
proof -
  note D = tree_okD [OF assms(2,4)]
  let ?p = "mod_path T ctx d"
  obtain buf where nm: "path_to_modname ?p path_buf = Some (Some (length d, buf))" "read_cstr buf = Some d"
    using file_modname [OF D(3)] by blast
  have a: "path_make_absolute_cwd (en_alloc env) (en_cwd env) ?p = Some ?p"
    using mod_path_absolute [OF assms(2)] assms(1) by (simp add: path_make_absolute_cwd_def env_ok_def)
  obtain stamp where st: "en_stat env ?p = Inr stamp" using D(3) by (auto simp: file_ok_def)
  obtain c1 where c1: "kmod_module_new env ctx d (length d) False = (Inr d, c1)" "pool_ok T x c1" "keeps_deps ctx c1" "d \<in> dom (pool c1)"
    using new_ok [OF assms(1,3) D(5), of "length d" False] D(2) by auto
  obtain m where m: "pool c1 d = Some m" using c1(4) by blast
  have same: "same_lib ctx c1" using c1(3) by (simp add: keeps_deps_def grows_def)
  have base: "base_ok T c1 d m" "x \<noteq> Some d \<longrightarrow> dep_ok T c1 d m" using c1(2) m by (auto simp: pool_ok_def)
  have path: "km_path m = None \<or> km_path m = Some ?p"
    using base(1) D(2) assms(4) mod_path_same [OF same] by (simp add: base_ok_def)
  let ?m = "m\<lparr>km_path := Some ?p, km_builtin := KMOD_MODULE_BUILTIN_NO\<rparr>"
  have b: "base_ok T c1 d ?m" using base(1) D(2) assms(4) mod_path_same [OF same] by (simp add: base_ok_def)
  have "dep_ok T c1 d ?m" if "x \<noteq> Some d" using base(2) that dep_ok_cong [of ?m m] by simp
  note s = set_module_ok [OF c1(2) b this]
  have k: "keeps_deps c1 (set_module d ?m c1)" by (rule set_module_keeps [OF s(2)]) (simp_all add: m)
  have "kmod_module_new_from_path env ctx ?p = Some (Inr d, set_module d ?m c1)"
    using a st nm c1(1) m path by (simp add: kmod_module_new_from_path_def module_at_def)
  then show ?thesis using s keeps_deps_trans [OF c1(3) k] by auto
qed

section \<open>Reading dependency lines\<close>

lemma strtok_word:
  assumes "w \<noteq> []" and "set w \<inter> set blanks = {}" and "r = [] \<or> hd r \<in> set blanks"
  shows "strtok_r (w @ r) blanks = (Some w, drop 1 r)" "strtok_r (CHR '' '' # w @ r) blanks = (Some w, drop 1 r)"
proof -
  let ?nb = "\<lambda>c. c \<notin> set blanks"
  have nb: "\<forall>c \<in> set w. ?nb c" using assms(2) by blast
  have d: "dropWhile (\<lambda>c. c \<in> set blanks) (w @ r) = w @ r" using assms(1) nb by (cases w) auto
  have d': "dropWhile (\<lambda>c. c \<in> set blanks) (CHR '' '' # w @ r) = w @ r" using d by simp
  have r: "takeWhile ?nb r = [] \<and> dropWhile ?nb r = r" using assms(3) by (cases r) auto
  have t: "takeWhile ?nb (w @ r) = w" "dropWhile ?nb (w @ r) = r"
    using nb r takeWhile_append2 [of w ?nb r] dropWhile_append2 [of w ?nb r] by auto
  have ne: "w @ r \<noteq> []" using assms(1) by simp
  show "strtok_r (w @ r) blanks = (Some w, drop 1 r)" unfolding strtok_r_def Let_def d t using ne by simp
  show "strtok_r (CHR '' '' # w @ r) blanks = (Some w, drop 1 r)" unfolding strtok_r_def Let_def d' t using ne by simp
qed

lemma path_join_ok:
  assumes "file_ok env ctx T n"
  shows "path_join (mt_rel T n) (cx_dirname ctx @ ''/'') = Some (mod_path T ctx n)"
  using assms by (cases "mt_rel T n") (auto simp: path_join_def file_ok_def mod_path_def char_at_def)

lemma depline_loop_ok:
  assumes "env_ok env"
  shows "tree_ok env ctx T \<Longrightarrow> pool_ok T x ctx \<Longrightarrow> set ds \<subseteq> mt_names T \<Longrightarrow> j \<le> 1 \<Longrightarrow>
    \<exists>ctx'. depline_loop env (cx_dirname ctx @ ''/'') (drop j (concat (map (\<lambda>d. '' '' @ mt_rel T d) ds))) list ctx
        = Some (Some (rev ds @ list), ctx')
      \<and> pool_ok T x ctx' \<and> keeps_deps ctx ctx' \<and> set ds \<subseteq> dom (pool ctx')"
proof (induction ds arbitrary: j list ctx)
  case Nil
  have "strtok_r [] blanks = (None, [])" by (simp add: strtok_r_def)
  then show ?case using Nil keeps_deps_refl by (simp add: depline_loop.simps)
next
  case (Cons d ds)
  let ?rest = "concat (map (\<lambda>d. '' '' @ mt_rel T d) ds)" and ?dir = "cx_dirname ctx @ ''/''"
  have d: "d \<in> mt_names T" using Cons.prems(3) by simp
  have f: "file_ok env ctx T d" using tree_okD(3) [OF Cons.prems(1) d] .
  have rest: "?rest = [] \<or> hd ?rest \<in> set blanks" by (cases ds) auto
  have w: "mt_rel T d \<noteq> []" "set (mt_rel T d) \<inter> set blanks = {}" using f by (auto simp: file_ok_def)
  have "drop j (concat (map (\<lambda>d. '' '' @ mt_rel T d) (d # ds))) \<in> {CHR '' '' # mt_rel T d @ ?rest, mt_rel T d @ ?rest}"
    using Cons.prems(4) by (cases j) auto
  then have tok: "strtok_r (drop j (concat (map (\<lambda>d. '' '' @ mt_rel T d) (d # ds)))) blanks = (Some (mt_rel T d), drop 1 ?rest)"
    using strtok_word [OF w rest] by auto
  obtain c1 where c1: "kmod_module_new_from_path env ctx (mod_path T ctx d) = Some (Inr d, c1)"
      "pool_ok T x c1" "keeps_deps ctx c1" "d \<in> dom (pool c1)"
    using new_from_path_ok [OF assms Cons.prems(1,2) d] by blast
  have same: "same_lib ctx c1" using c1(3) by (simp add: keeps_deps_def grows_def)
  have dir: "cx_dirname c1 = cx_dirname ctx" using same by (simp add: same_lib_def)
  obtain c2 where c2: "depline_loop env ?dir (drop 1 ?rest) (d # list) c1 = Some (Some (rev ds @ d # list), c2)"
      "pool_ok T x c2" "keeps_deps c1 c2" "set ds \<subseteq> dom (pool c2)"
    using Cons.IH [of c1 1 "d # list"] Cons.prems(1,3) tree_ok_same [OF same] c1(2) dir by auto
  have "d \<in> dom (pool c2)" using c1(4) c2(3) unfolding keeps_deps_def grows_def by blast
  moreover have "depline_loop env ?dir (drop j (concat (map (\<lambda>d. '' '' @ mt_rel T d) (d # ds)))) list ctx
      = Some (Some (rev (d # ds) @ list), c2)"
    unfolding depline_loop.simps [of env ?dir "drop j (concat (map (\<lambda>d. '' '' @ mt_rel T d) (d # ds)))"] tok
    using path_join_ok [OF f] c1(1) c2(1) assms by (simp add: env_ok_def)
  ultimately show ?case using c2 keeps_deps_trans [OF c1(3) c2(3)] by auto
qed

lemma depline_split:
  assumes "file_ok env ctx T n"
  shows "takeWhile (\<lambda>c. c \<noteq> CHR '':'') (depline_of T n) = mt_rel T n" "CHR '':'' \<in> set (depline_of T n)"
    "drop (length (mt_rel T n) + 1) (depline_of T n) = concat (map (\<lambda>d. '' '' @ mt_rel T d) (mt_needs T n))"
proof -
  have "\<forall>c \<in> set (mt_rel T n). c \<noteq> CHR '':''" using assms by (auto simp: file_ok_def)
  then show "takeWhile (\<lambda>c. c \<noteq> CHR '':'') (depline_of T n) = mt_rel T n"
    by (simp add: depline_of_def takeWhile_append2)
qed (simp_all add: depline_of_def)

lemma parse_depline_ok:
  assumes "lib_ok env T ctx" and m: "pool ctx key = Some m" and n: "mt_name T key \<in> mt_names T"
  shows "\<exists>ctx' m'. kmod_module_parse_depline env key (depline_of T (mt_name T key)) ctx = Some ctx'
    \<and> lib_ok env T ctx' \<and> grows ctx ctx' \<and> pool ctx' key = Some m' \<and> km_init_dep m'"
proof (cases "km_init_dep m")
  case True
  then show ?thesis using assms grows_refl by (auto simp: kmod_module_parse_depline_def module_at_def)
next
  case False
  let ?n = "mt_name T key" and ?dir = "cx_dirname ctx @ ''/''"
  have env: "env_ok env" and tree: "tree_ok env ctx T" and pl: "pool_ok T None ctx" using assms(1) by (auto simp: lib_ok_def)
  have f: "file_ok env ctx T ?n" using tree_okD(3) [OF tree n] .
  have base: "base_ok T ctx key m" "km_dep m = []" using pl m False by (auto simp: pool_ok_def dep_ok_def)
  define m1 where "m1 = m\<lparr>km_init_dep := True\<rparr>"
  define m2 where "m2 = m1\<lparr>km_path := Some (mod_path T ctx ?n)\<rparr>"
  let ?c1 = "set_module key m1 ctx"
  let ?c2 = "if km_path m = None then set_module key m2 ?c1 else ?c1"
  have pl': "pool_ok T (Some key) ctx" using pl by (auto simp: pool_ok_def)
  have b1: "base_ok T ctx key m1" using base(1) by (simp add: base_ok_def m1_def)
  note s1 = set_module_ok [OF pl' b1]
  have "base_ok T ctx key m2" using base(1) n by (simp add: base_ok_def m1_def m2_def)
  then have b2: "base_ok T ?c1 key m2" using s1(2) base_ok_same unfolding grows_def by blast
  note s2 = set_module_ok [OF s1(1) b2]
  have c2: "pool_ok T (Some key) ?c2" "grows ctx ?c2" "\<exists>m'. pool ?c2 key = Some m' \<and> km_init_dep m'"
    using s1 s2 grows_trans [OF s1(2) s2(2)] by (auto simp: m1_def m2_def)
  have same: "same_lib ctx ?c2" using c2(2) by (simp add: grows_def)
  have dir: "cx_dirname ?c2 = cx_dirname ctx" using same by (simp only: same_lib_def)
  have needs: "set (mt_needs T ?n) \<subseteq> mt_names T" using tree_okD(4) [OF tree n] .
  obtain c3 where c3: "depline_loop env ?dir (concat (map (\<lambda>d. '' '' @ mt_rel T d) (mt_needs T ?n))) [] ?c2
        = Some (Some (rev (mt_needs T ?n)), c3)"
      "pool_ok T (Some key) c3" "keeps_deps ?c2 c3" "set (mt_needs T ?n) \<subseteq> dom (pool c3)"
    using depline_loop_ok [OF env, of ?c2 T "Some key" "mt_needs T ?n" 0 "[]"] tree tree_ok_same [OF same] c2(1) needs dir by auto
  obtain m3 where m3: "pool c3 key = Some m3" "km_init_dep m3"
    using c2(3) c3(3) unfolding keeps_deps_def by metis
  let ?m = "m3\<lparr>km_dep := rev (mt_needs T ?n)\<rparr>"
  have b3: "base_ok T c3 key ?m" using c3(2) m3(1) by (auto simp: pool_ok_def base_ok_def)
  have d3: "dep_ok T (set_module key ?m c3) key ?m" using m3(2) n c3(4) by (auto simp: dep_ok_def key_deps_def set_module_def)
  have s3: "pool_ok T (Some key) (set_module key ?m c3)" "grows c3 (set_module key ?m c3)" "pool (set_module key ?m c3) key = Some ?m"
    using set_module_ok [OF c3(2) b3] by auto
  have fin: "pool_ok T None (set_module key ?m c3)"
    by (rule pool_ok_done [OF s3(1,3) d3])
  have len: "\<not> PATH_MAX \<le> length (cx_dirname ?c1) + 2" "cx_dirname ?c1 = cx_dirname ctx"
    using tree s1(2) by (simp_all add: tree_ok_def grows_def same_lib_def)
  have "kmod_module_parse_depline env key (depline_of T ?n) ctx = Some (set_module key ?m c3)"
    using False m base(2) depline_split [OF f] path_join_ok [OF f] env c3(1) m3(1) len
    by (cases "km_path m = None")
      (auto simp: kmod_module_parse_depline_def Let_def module_at_def env_ok_def m1_def m2_def)
  moreover have "grows ctx (set_module key ?m c3)"
    using grows_trans [OF c2(2) grows_trans [OF keeps_deps_grows [OF c3(3)] s3(2)]] .
  ultimately show ?thesis using lib_ok_grows [OF assms(1) _ fin] s3(3) m3(2) by auto
qed

lemma copy_modules_ok: "env_ok env \<Longrightarrow> copy_modules env ms = Some ms"
proof -
  assume "env_ok env"
  then have "foldM (\<lambda>m l. list_append (en_alloc env) l m) ms acc = Some (acc @ ms)" for acc
    by (induction ms arbitrary: acc) (auto simp: list_append_def env_ok_def)
  then show ?thesis by (simp add: copy_modules_def)
qed

lemma lib_okD:
  assumes "lib_ok env T ctx" and "pool ctx key = Some m"
  shows "key \<in> mt_keys T" "km_name m = mt_name T key" "km_dep m = (if km_init_dep m then key_deps T key else [])"
    "set (km_dep m) \<subseteq> dom (pool ctx)"
  using assms unfolding lib_ok_def pool_ok_def base_ok_def dep_ok_def by blast+

lemma get_dependencies_ok:
  assumes "lib_ok env T ctx" and "key \<in> dom (pool ctx)"
  shows "\<exists>ctx'. kmod_module_get_dependencies env ctx key = Some (key_deps T key, ctx') \<and> lib_ok env T ctx' \<and> grows ctx ctx'
    \<and> set (key_deps T key) \<subseteq> dom (pool ctx')"
proof -
  obtain m where m: "pool ctx key = Some m" using assms(2) by blast
  note D = lib_okD [OF assms(1) m]
  have env: "env_ok env" using assms(1) by (simp add: lib_ok_def)
  have s: "kmod_search_moddep env ctx (mt_name T key)
      = Some (if mt_name T key \<in> mt_names T then Some (depline_of T (mt_name T key)) else None)"
    using assms(1) D(1) by (simp add: lib_ok_def tree_ok_def)
  have "\<exists>ctx' m'. module_get_dependencies_noref env key ctx = Some ctx' \<and> lib_ok env T ctx' \<and> grows ctx ctx'
      \<and> pool ctx' key = Some m' \<and> km_dep m' = key_deps T key"
  proof (cases "\<not> km_init_dep m \<and> mt_name T key \<in> mt_names T")
    case True
    obtain ctx' m' where p: "kmod_module_parse_depline env key (depline_of T (mt_name T key)) ctx = Some ctx'"
        "lib_ok env T ctx'" "grows ctx ctx'" "pool ctx' key = Some m'" "km_init_dep m'"
      using parse_depline_ok [OF assms(1) m] True by blast
    moreover have "km_dep m' = key_deps T key" using lib_okD(3) [OF p(2,4)] p(5) by simp
    ultimately show ?thesis using True m s D(2) by (simp add: module_get_dependencies_noref_def module_at_def)
  next
    case False
    then have "module_get_dependencies_noref env key ctx = Some ctx"
      using m s D(2) by (auto simp: module_get_dependencies_noref_def module_at_def)
    moreover have "km_dep m = key_deps T key" using D(3) False by (auto simp: key_deps_def)
    ultimately show ?thesis using assms(1) m grows_refl by blast
  qed
  then obtain ctx' m' where c: "module_get_dependencies_noref env key ctx = Some ctx'" "lib_ok env T ctx'" "grows ctx ctx'"
      "pool ctx' key = Some m'" "km_dep m' = key_deps T key" by blast
  have "kmod_module_get_dependencies env ctx key = Some (key_deps T key, ctx')"
    using c(1,4,5) copy_modules_ok [OF env] by (simp add: kmod_module_get_dependencies_def module_at_def)
  then show ?thesis using c(2,3) lib_okD(4) [OF c(2,4)] c(5) by auto
qed

section \<open>Lookups stay in the tree\<close>

definition finds :: "lib_env \<Rightarrow> mod_tree \<Rightarrow> kmod_ctx \<Rightarrow> string list \<Rightarrow> kmod_ctx \<Rightarrow> bool" where
  "finds env T ctx l ctx' \<longleftrightarrow> lib_ok env T ctx' \<and> grows ctx ctx' \<and> set l \<subseteq> dom (pool ctx')"

definition lookup_ok :: "lib_env \<Rightarrow> mod_tree \<Rightarrow> lookup_func \<Rightarrow> bool" where
  "lookup_ok env T f \<longleftrightarrow> (\<forall>ctx s. lib_ok env T ctx \<longrightarrow> lookup_closed env ctx T s \<longrightarrow>
     (\<exists>r l ctx'. f env ctx s = Some (r, l, ctx') \<and> (\<forall>e. r = Inl e \<longrightarrow> e = ENOSYS) \<and> finds env T ctx l ctx'))"

lemma lookup_okI:
  assumes "\<And>ctx s. lib_ok env T ctx \<Longrightarrow> lookup_closed env ctx T s \<Longrightarrow>
     \<exists>r l ctx'. f env ctx s = Some (r, l, ctx') \<and> (\<forall>e. r = Inl e \<longrightarrow> e = ENOSYS) \<and> finds env T ctx l ctx'"
  shows "lookup_ok env T f"
  using assms unfolding lookup_ok_def by blast

lemma finds_none: "lib_ok env T ctx \<Longrightarrow> finds env T ctx [] ctx"
  by (simp add: finds_def grows_refl)

lemma finds_trans: "finds env T a l b \<Longrightarrow> finds env T b l' c \<Longrightarrow> finds env T a (l @ l') c"
  unfolding finds_def using grows_trans [of a b c] by (simp add: grows_def) blast

lemma lib_env_ok: "lib_ok env T ctx \<Longrightarrow> env_ok env"
  by (simp add: lib_ok_def)

lemma lookup_aliases_ok:
  assumes "lib_ok env T ctx" and "\<forall>a \<in> set as. alias_ok T a" and "set l \<subseteq> dom (pool ctx)"
  shows "\<exists>r l' ctx'. lookup_aliases env as l ctx = (Inr r, l', ctx') \<and> finds env T ctx l' ctx'"
  using assms
proof (induction as arbitrary: l ctx)
  case Nil
  then show ?case by (simp add: finds_def grows_refl)
next
  case (Cons a as)
  have a: "alias_key a \<in> mt_keys T" "mt_name T (alias_key a) = snd a" "length (snd a) + length (fst a) + 2 \<le> PATH_MAX"
    using Cons.prems(2) by (auto simp: alias_ok_def)
  have env: "env_ok env" using lib_env_ok [OF Cons.prems(1)] .
  have "pool_ok T None ctx" using Cons.prems(1) by (simp add: lib_ok_def)
  then obtain c1 where c1: "kmod_module_new env ctx (alias_key a) (length (snd a)) True = (Inr (alias_key a), c1)"
      "pool_ok T None c1" "keeps_deps ctx c1" "alias_key a \<in> dom (pool c1)"
    using new_ok [OF env _ a(1), of None ctx "length (snd a)" True] a(2) by (auto simp: alias_key_def)
  have g: "grows ctx c1" using c1(3) by (rule keeps_deps_grows)
  have ok: "lib_ok env T c1" by (rule lib_ok_grows [OF Cons.prems(1) g c1(2)])
  have "set (l @ [alias_key a]) \<subseteq> dom (pool c1)" using c1(4) g Cons.prems(3) by (auto simp: grows_def)
  then obtain r l' ctx' where "lookup_aliases env as (l @ [alias_key a]) c1 = (Inr r, l', ctx')" "finds env T c1 l' ctx'"
    using Cons.IH [OF ok, of "l @ [alias_key a]"] Cons.prems(2) by auto
  moreover have "kmod_module_new_from_alias env ctx (fst a) (snd a) = (Inr (alias_key a), c1)"
    using c1(1) a(3) by (simp add: kmod_module_new_from_alias_def alias_key_def)
  ultimately show ?case using env grows_trans [OF g] by (auto simp: finds_def list_append_def env_ok_def)
qed

lemma alias_bin_ok: "lookup_ok env T (kmod_lookup_alias_from_alias_bin i)"
proof (rule lookup_okI)
  fix ctx s assume ok: "lib_ok env T ctx" and c: "lookup_closed env ctx T s"
  obtain r where r: "search_realnames env ctx i s = Some r" "\<And>vs. r = Some vs \<Longrightarrow> \<forall>v \<in> set vs. alias_ok T (s, snd v)"
    using c unfolding lookup_closed_def by blast
  show "\<exists>q l ctx'. kmod_lookup_alias_from_alias_bin i env ctx s = Some (q, l, ctx') \<and> (\<forall>e. q = Inl e \<longrightarrow> e = ENOSYS)
      \<and> finds env T ctx l ctx'"
  proof (cases r)
    case None
    then show ?thesis using r(1) finds_none [OF ok] by (simp add: kmod_lookup_alias_from_alias_bin_def)
  next
    case (Some vs)
    then obtain q l' ctx' where "lookup_aliases env (map (\<lambda>v. (s, snd v)) vs) [] ctx = (Inr q, l', ctx')" "finds env T ctx l' ctx'"
      using lookup_aliases_ok [OF ok, of "map (\<lambda>v. (s, snd v)) vs" "[]"] r(2) by auto
    then show ?thesis using r(1) Some by (simp add: kmod_lookup_alias_from_alias_bin_def)
  qed
qed

lemma config_ok: "lookup_ok env T kmod_lookup_alias_from_config"
proof (rule lookup_okI)
  fix ctx s assume ok: "lib_ok env T ctx" and c: "lookup_closed env ctx T s"
  let ?as = "map (\<lambda>a. (al_name a, al_modname a)) (filter (\<lambda>a. en_fnmatch env (al_name a) s) (aliases (cx_config ctx)))"
  have "\<forall>a \<in> set ?as. alias_ok T a" using c unfolding lookup_closed_def by auto
  then obtain q l' ctx' where "lookup_aliases env ?as [] ctx = (Inr q, l', ctx')" "finds env T ctx l' ctx'"
    using lookup_aliases_ok [OF ok, of ?as "[]"] by auto
  then show "\<exists>r l ctx'. kmod_lookup_alias_from_config env ctx s = Some (r, l, ctx') \<and> (\<forall>e. r = Inl e \<longrightarrow> e = ENOSYS)
      \<and> finds env T ctx l ctx'"
    by (simp add: kmod_lookup_alias_from_config_def)
qed

lemma symbols_ok: "lookup_ok env T kmod_lookup_alias_from_symbols_file"
proof (rule lookup_okI)
  fix ctx s assume ok: "lib_ok env T ctx" and c: "lookup_closed env ctx T s"
  then show "\<exists>r l ctx'. kmod_lookup_alias_from_symbols_file env ctx s = Some (r, l, ctx') \<and> (\<forall>e. r = Inl e \<longrightarrow> e = ENOSYS)
      \<and> finds env T ctx l ctx'"
    using alias_bin_ok [of env T KMOD_INDEX_MODULES_SYMBOL] finds_none [OF ok] unfolding lookup_ok_def
    by (cases "strstartswith s ''symbol:''") (simp_all add: kmod_lookup_alias_from_symbols_file_def)
qed

text \<open>A module that exists gets another field than its name, path or dependencies.\<close>

lemma update_ok:
  assumes "lib_ok env T ctx" and "pool ctx k = Some m" and "km_name m' = km_name m" "km_path m' = km_path m"
    "km_dep m' = km_dep m" "km_init_dep m' = km_init_dep m"
  shows "lib_ok env T (set_module k m' ctx)" "grows ctx (set_module k m' ctx)"
proof -
  have p: "pool_ok T None ctx" using assms(1) by (simp add: lib_ok_def)
  then have "base_ok T ctx k m" "dep_ok T ctx k m" using assms(2) by (auto simp: pool_ok_def)
  then have "base_ok T ctx k m'" "dep_ok T ctx k m'"
    using assms(3-6) dep_ok_cong [of m' m] by (simp_all add: base_ok_def)
  note s = set_module_ok [OF p this]
  show g: "grows ctx (set_module k m' ctx)" by (rule s(2))
  show "lib_ok env T (set_module k m' ctx)" by (rule lib_ok_grows [OF assms(1) g s(1)])
qed

lemma new_from_name_ok:
  assumes "lib_ok env T ctx" and "name_ok T s"
  shows "\<exists>ctx'. kmod_module_new_from_name env ctx s = Some (Inr (norm_name s), ctx') \<and> finds env T ctx [norm_name s] ctx'"
proof -
  have s: "nul_free s" "take (PATH_MAX - 1) s = s" "norm_name s \<in> mt_keys T" "mt_name T (norm_name s) = norm_name s"
    using assms(2) by (auto simp: name_ok_def)
  obtain buf where b: "modname_normalize s path_buf = Some (length (norm_name s), buf)" "read_cstr buf = Some (norm_name s)"
    using modname_normalize_spec [OF s(1), of path_buf] s(2) by auto
  have p: "pool_ok T None ctx" using assms(1) by (simp add: lib_ok_def)
  obtain c1 where c1: "kmod_module_new env ctx (norm_name s) (length (norm_name s)) False = (Inr (norm_name s), c1)"
      "pool_ok T None c1" "keeps_deps ctx c1" "norm_name s \<in> dom (pool c1)"
    using new_ok [OF lib_env_ok [OF assms(1)] p s(3), of "length (norm_name s)" False] s(4) by auto
  have g: "grows ctx c1" using c1(3) by (rule keeps_deps_grows)
  show ?thesis using b c1(1,4) g lib_ok_grows [OF assms(1) g c1(2)] by (simp add: kmod_module_new_from_name_def finds_def)
qed

lemma set_builtin_ok:
  assumes "lib_ok env T ctx" and "k \<in> dom (pool ctx)"
  shows "\<exists>ctx'. kmod_module_set_builtin b k ctx = Some ctx' \<and> lib_ok env T ctx' \<and> grows ctx ctx'"
proof -
  obtain m where m: "pool ctx k = Some m" using assms(2) by blast
  show ?thesis using m update_ok [OF assms(1) m] by (simp add: kmod_module_set_builtin_def module_at_def)
qed

lemma set_builtins_ok:
  assumes "lib_ok env T ctx" and "set l \<subseteq> dom (pool ctx)"
  shows "\<exists>ctx'. foldM (kmod_module_set_builtin True) l ctx = Some ctx' \<and> lib_ok env T ctx' \<and> grows ctx ctx'"
  using assms
proof (induction l arbitrary: ctx)
  case (Cons k l)
  obtain c1 where c1: "kmod_module_set_builtin True k ctx = Some c1" "lib_ok env T c1" "grows ctx c1"
    using set_builtin_ok [OF Cons.prems(1), of k True] Cons.prems(2) by auto
  have "set l \<subseteq> dom (pool c1)" using c1(3) Cons.prems(2) by (meson grows_def set_subset_Cons subset_trans)
  from Cons.IH [OF c1(2) this] obtain c2 where
    "foldM (kmod_module_set_builtin True) l c1 = Some c2" "lib_ok env T c2" "grows c1 c2" by blast
  then show ?case using c1 grows_trans [OF c1(3)] by simp
qed (simp add: grows_refl)

lemma kernel_builtin_ok: "lookup_ok env T kmod_lookup_alias_from_kernel_builtin_file"
proof (rule lookup_okI)
  fix ctx s assume ok: "lib_ok env T ctx" and c: "lookup_closed env ctx T s"
  obtain r l c1 where f: "kmod_lookup_alias_from_alias_bin KMOD_INDEX_MODULES_BUILTIN_ALIAS env ctx s = Some (r, l, c1)"
      "\<forall>e. r = Inl e \<longrightarrow> e = ENOSYS" "lib_ok env T c1" "grows ctx c1" "set l \<subseteq> dom (pool c1)"
    using alias_bin_ok [of env T KMOD_INDEX_MODULES_BUILTIN_ALIAS] ok c unfolding lookup_ok_def finds_def by blast
  obtain c2 where c2: "foldM (kmod_module_set_builtin True) l c1 = Some c2" "lib_ok env T c2" "grows c1 c2"
    using set_builtins_ok [OF f(3,5)] by blast
  have "finds env T ctx l c2" using c2(2,3) grows_trans [OF f(4) c2(3)] f(5) by (auto simp: finds_def grows_def)
  then show "\<exists>r l ctx'. kmod_lookup_alias_from_kernel_builtin_file env ctx s = Some (r, l, ctx')
      \<and> (\<forall>e. r = Inl e \<longrightarrow> e = ENOSYS) \<and> finds env T ctx l ctx'"
    using f(1,2) c2(1) by (simp add: kmod_lookup_alias_from_kernel_builtin_file_def)
qed

text \<open>The three lookups that make one module from a name and then change it.\<close>

lemma named_lookup:
  assumes "lib_ok env T ctx" and "name_ok T s"
    and "\<And>c. lib_ok env T c \<Longrightarrow> norm_name s \<in> dom (pool c) \<Longrightarrow> grows ctx c
      \<Longrightarrow> \<exists>c'. upd (norm_name s) c = Some c' \<and> lib_ok env T c' \<and> grows c c'"
  obtains c1 c2 where "kmod_module_new_from_name env ctx s = Some (Inr (norm_name s), c1)"
    "upd (norm_name s) c1 = Some c2" "finds env T ctx [norm_name s] c2"
proof -
  obtain c1 where c1: "kmod_module_new_from_name env ctx s = Some (Inr (norm_name s), c1)" "lib_ok env T c1" "grows ctx c1"
      "norm_name s \<in> dom (pool c1)"
    using new_from_name_ok [OF assms(1,2)] unfolding finds_def by auto
  obtain c2 where c2: "upd (norm_name s) c1 = Some c2" "lib_ok env T c2" "grows c1 c2"
    using assms(3) [OF c1(2,4,3)] by blast
  have "finds env T ctx [norm_name s] c2" using c2(2,3) grows_trans [OF c1(3) c2(3)] c1(4) by (auto simp: finds_def grows_def)
  then show thesis using that c1(1) c2(1) by blast
qed

lemma append_one: "lib_ok env T ctx \<Longrightarrow> list_append (en_alloc env) [] x = Some [x]"
  using lib_env_ok by (auto simp: list_append_def env_ok_def)

lemma builtin_ok: "lookup_ok env T kmod_lookup_alias_from_builtin_file"
proof (rule lookup_okI)
  fix ctx s assume ok: "lib_ok env T ctx" and c: "lookup_closed env ctx T s"
  obtain r where r: "lookup_file env ctx KMOD_INDEX_MODULES_BUILTIN s = Some r" "r \<noteq> None \<longrightarrow> name_ok T s"
    using c unfolding lookup_closed_def by blast
  show "\<exists>r l ctx'. kmod_lookup_alias_from_builtin_file env ctx s = Some (r, l, ctx')
      \<and> (\<forall>e. r = Inl e \<longrightarrow> e = ENOSYS) \<and> finds env T ctx l ctx'"
  proof (cases r)
    case None
    then show ?thesis using r(1) finds_none [OF ok] by (simp add: kmod_lookup_alias_from_builtin_file_def lookup_builtin_file_def)
  next
    case (Some x)
    obtain c1 c2 where n: "kmod_module_new_from_name env ctx s = Some (Inr (norm_name s), c1)"
        "kmod_module_set_builtin True (norm_name s) c1 = Some c2" "finds env T ctx [norm_name s] c2"
      using named_lookup [OF ok, of s "kmod_module_set_builtin True"] r(2) Some set_builtin_ok by blast
    then show ?thesis using r(1) Some append_one [OF ok, of "norm_name s"]
      by (simp add: kmod_lookup_alias_from_builtin_file_def lookup_builtin_file_def)
  qed
qed

lemma moddep_ok: "lookup_ok env T kmod_lookup_alias_from_moddep_file"
proof (rule lookup_okI)
  fix ctx s assume ok: "lib_ok env T ctx" and c: "lookup_closed env ctx T s"
  obtain r where r: "kmod_search_moddep env ctx s = Some r" "r \<noteq> None \<longrightarrow> s \<in> mt_names T \<and> r = Some (depline_of T s)"
    using c unfolding lookup_closed_def by blast
  show "\<exists>r l ctx'. kmod_lookup_alias_from_moddep_file env ctx s = Some (r, l, ctx')
      \<and> (\<forall>e. r = Inl e \<longrightarrow> e = ENOSYS) \<and> finds env T ctx l ctx'"
  proof (cases "CHR '':'' \<in> set s \<or> r = None")
    case True
    then show ?thesis using r(1) finds_none [OF ok] by (auto simp: kmod_lookup_alias_from_moddep_file_def)
  next
    case False
    then have s: "s \<in> mt_names T" "r = Some (depline_of T s)" using r(2) by auto
    have tree: "tree_ok env ctx T" using ok by (simp add: lib_ok_def)
    note D = tree_okD [OF tree s(1)]
    have nn: "norm_name s = s" using D(1) norm_name_idem by (simp add: clean_name_def)
    have nm: "name_ok T s" using D nn by (simp add: name_ok_def clean_name_def)
    have upd: "\<exists>c'. kmod_module_parse_depline env (norm_name s) (depline_of T s) c = Some c' \<and> lib_ok env T c' \<and> grows c c'"
      if "lib_ok env T c" "norm_name s \<in> dom (pool c)" for c
      using parse_depline_ok [OF that(1), of "norm_name s"] that(2) nn D(2) s(1) by auto
    obtain c1 c2 where n: "kmod_module_new_from_name env ctx s = Some (Inr (norm_name s), c1)"
        "kmod_module_parse_depline env (norm_name s) (depline_of T s) c1 = Some c2" "finds env T ctx [norm_name s] c2"
      using named_lookup [OF ok nm, of "\<lambda>k. kmod_module_parse_depline env k (depline_of T s)"] upd by blast
    then show ?thesis using r(1) s(2) False append_one [OF ok, of "norm_name s"] by (simp add: kmod_lookup_alias_from_moddep_file_def)
  qed
qed

lemma set_commands_ok:
  assumes "lib_ok env T ctx" and "k \<in> dom (pool ctx)"
  shows "\<exists>ctx'. kmod_module_set_install_commands cmd k ctx = Some ctx' \<and> lib_ok env T ctx' \<and> grows ctx ctx'"
    and "\<exists>ctx'. kmod_module_set_remove_commands cmd k ctx = Some ctx' \<and> lib_ok env T ctx' \<and> grows ctx ctx'"
proof -
  obtain m where m: "pool ctx k = Some m" using assms(2) by blast
  show "\<exists>ctx'. kmod_module_set_install_commands cmd k ctx = Some ctx' \<and> lib_ok env T ctx' \<and> grows ctx ctx'"
    using m update_ok [OF assms(1) m] by (simp add: kmod_module_set_install_commands_def module_at_def)
  show "\<exists>ctx'. kmod_module_set_remove_commands cmd k ctx = Some ctx' \<and> lib_ok env T ctx' \<and> grows ctx ctx'"
    using m update_ok [OF assms(1) m] by (simp add: kmod_module_set_remove_commands_def module_at_def)
qed

lemma lookup_command_ok:
  assumes "lib_ok env T ctx" and "name_ok T (cm_modname c)"
    and "\<And>ctx k. lib_ok env T ctx \<Longrightarrow> k \<in> dom (pool ctx) \<Longrightarrow>
      \<exists>ctx'. set_command (cm_command c) k ctx = Some ctx' \<and> lib_ok env T ctx' \<and> grows ctx ctx'"
  shows "\<exists>r l ctx'. lookup_command set_command env ctx c = Some (Inr r, l, ctx') \<and> finds env T ctx l ctx'"
proof -
  let ?k = "norm_name (cm_modname c)"
  obtain c1 c2 where n: "kmod_module_new_from_name env ctx (cm_modname c) = Some (Inr ?k, c1)"
      "set_command (cm_command c) ?k c1 = Some c2" "finds env T ctx [?k] c2"
    using named_lookup [OF assms(1,2), of "set_command (cm_command c)"] assms(3) by blast
  then show ?thesis using append_one [OF assms(1), of ?k] by (simp add: lookup_command_def)
qed

lemma commands_ok: "lookup_ok env T kmod_lookup_alias_from_commands"
proof (rule lookup_okI)
  fix ctx s assume ok: "lib_ok env T ctx" and c: "lookup_closed env ctx T s"
  have nm: "name_ok T (cm_modname c)"
    if f: "find (\<lambda>c. streq (cm_modname c) s) cs = Some c"
      and sub: "set cs \<subseteq> set (install_commands (cx_config ctx)) \<union> set (remove_commands (cx_config ctx))" for cs c
  proof -
    have "c \<in> set cs" "cm_modname c = s" using f by (auto simp: find_Some_iff)
    then show ?thesis using sub \<open>lookup_closed env ctx T s\<close> unfolding lookup_closed_def by blast
  qed
  note L = lookup_command_ok [OF ok]
  let ?i = "find (\<lambda>c. streq (cm_modname c) s) (install_commands (cx_config ctx))"
  let ?r = "find (\<lambda>c. streq (cm_modname c) s) (remove_commands (cx_config ctx))"
  consider (i) c where "?i = Some c" | (r) c where "?i = None" "?r = Some c" | (none) "?i = None" "?r = None"
    by (cases ?i; cases ?r) auto
  then have "\<exists>r l ctx'. kmod_lookup_alias_from_commands env ctx s = Some (Inr r, l, ctx') \<and> finds env T ctx l ctx'"
  proof cases
    case i
    then show ?thesis using L [OF nm [OF i], of kmod_module_set_install_commands] set_commands_ok(1)
      by (simp add: kmod_lookup_alias_from_commands_def)
  next
    case r
    then show ?thesis using L [OF nm [OF r(2)], of kmod_module_set_remove_commands] set_commands_ok(2)
      by (simp add: kmod_lookup_alias_from_commands_def)
  next
    case none
    then show ?thesis using finds_none [OF ok] by (simp add: kmod_lookup_alias_from_commands_def)
  qed
  then show "\<exists>r l ctx'. kmod_lookup_alias_from_commands env ctx s = Some (r, l, ctx')
      \<and> (\<forall>e. r = Inl e \<longrightarrow> e = ENOSYS) \<and> finds env T ctx l ctx'" by auto
qed

lemma lookups_ok:
  assumes "lib_ok env T ctx" and "lookup_closed env ctx T s" and "\<forall>f \<in> set fs. lookup_ok env T f"
  shows "\<exists>l ctx'. kmod_module_new_from_lookups fs env ctx s = Some (Inr (), l, ctx') \<and> finds env T ctx l ctx'"
  using assms
proof (induction fs arbitrary: ctx)
  case Nil
  then show ?case by (simp add: finds_none)
next
  case (Cons f fs)
  obtain r l c1 where f: "f env ctx s = Some (r, l, c1)" "\<forall>e. r = Inl e \<longrightarrow> e = ENOSYS" "finds env T ctx l c1"
    using Cons.prems unfolding lookup_ok_def by (meson list.set_intros(1))
  have g: "lib_ok env T c1" "grows ctx c1" using f(3) by (auto simp: finds_def)
  have err: "\<not> (\<exists>e. r = Inl e \<and> e \<noteq> ENOSYS)" using f(2) by blast
  show ?case
  proof (cases "l = []")
    case True
    have "lookup_closed env c1 T s" using Cons.prems(2) lookup_closed_same g(2) unfolding grows_def by blast
    then obtain l' c2 where "kmod_module_new_from_lookups fs env c1 s = Some (Inr (), l', c2)" "finds env T c1 l' c2"
      using Cons.IH [OF g(1)] Cons.prems(3) by auto
    then show ?thesis using f err True finds_trans [OF f(3)] by auto
  next
    case False
    then show ?thesis using f err by auto
  qed
qed

lemma alias_lookups_ok: "\<forall>f \<in> set alias_lookups. lookup_ok env T f"
  using config_ok moddep_ok symbols_ok commands_ok builtin_ok kernel_builtin_ok alias_bin_ok
  by (simp add: alias_lookups_def kmod_lookup_alias_from_aliases_file_def)

text \<open>A lookup of a name of a soft dependency.\<close>

lemma new_from_lookup_ok:
  assumes "lib_ok env T ctx" and "nul_free s"
    and "\<And>t. norm_alias (take (PATH_MAX - 1) s) = Some t \<Longrightarrow> lookup_closed env ctx T t"
  shows "\<exists>r l ctx'. kmod_module_new_from_lookup env ctx s = Some (r, l, ctx') \<and> finds env T ctx l ctx'"
proof (cases "norm_alias (take (PATH_MAX - 1) s)")
  case None
  then obtain buf where "alias_normalize s path_buf = Some (Inl EINVAL, buf)"
    using alias_normalize_spec [OF assms(2), of path_buf] by auto
  then show ?thesis using finds_none [OF assms(1)] by (simp add: kmod_module_new_from_lookup_def)
next
  case (Some t)
  obtain buf where b: "alias_normalize s path_buf = Some (Inr (length t), buf)" "read_cstr buf = Some t"
    using alias_normalize_spec [OF assms(2), of path_buf] Some by auto
  obtain l ctx' where "kmod_module_new_from_lookups alias_lookups env ctx t = Some (Inr (), l, ctx')" "finds env T ctx l ctx'"
    using lookups_ok [OF assms(1) assms(3) [OF Some] alias_lookups_ok] by blast
  then show ?thesis using b by (simp add: kmod_module_new_from_lookup_def)
qed

lemma lookup_dep_ok:
  assumes "lib_ok env T ctx" and "set ret \<subseteq> dom (pool ctx)"
    and "\<forall>s \<in> set ss. nul_free s \<and> (\<forall>t. norm_alias (take (PATH_MAX - 1) s) = Some t \<longrightarrow> lookup_closed env ctx T t)"
  shows "\<exists>l ctx'. lookup_dep env ss ret ctx = Some (l, ctx') \<and> finds env T ctx l ctx'"
  using assms
proof (induction ss arbitrary: ret ctx)
  case Nil
  then show ?case by (simp add: finds_def grows_refl)
next
  case (Cons s ss)
  obtain r l c1 where c1: "kmod_module_new_from_lookup env ctx s = Some (r, l, c1)" "lib_ok env T c1" "grows ctx c1" "set l \<subseteq> dom (pool c1)"
    using new_from_lookup_ok [OF Cons.prems(1), of s] Cons.prems(3) unfolding finds_def by auto
  let ?ret = "case r of Inl _ \<Rightarrow> ret | Inr _ \<Rightarrow> ret @ l"
  have "set ret \<subseteq> dom (pool c1)" using Cons.prems(2) c1(3) unfolding grows_def by blast
  then have ret: "set ?ret \<subseteq> dom (pool c1)" using c1(4) by (cases r) auto
  have "\<forall>s \<in> set ss. nul_free s \<and> (\<forall>t. norm_alias (take (PATH_MAX - 1) s) = Some t \<longrightarrow> lookup_closed env c1 T t)"
    using Cons.prems(3) c1(3) lookup_closed_same [of ctx c1] by (simp add: grows_def)
  from Cons.IH [OF c1(2) ret this] obtain l' c2 where "lookup_dep env ss ?ret c1 = Some (l', c2)" "finds env T c1 l' c2" by blast
  then show ?case using c1 grows_trans [OF c1(3)] by (auto simp: finds_def)
qed

lemma get_softdeps_ok:
  assumes "lib_ok env T ctx" and "key \<in> dom (pool ctx)"
  shows "\<exists>pre post ctx'. kmod_module_get_softdeps env ctx key = Some (Inr (pre, post), ctx') \<and> finds env T ctx (pre @ post) ctx'"
proof -
  obtain m where m: "pool ctx key = Some m" using assms(2) by blast
  show ?thesis
  proof (cases "find (\<lambda>d. en_fnmatch env (sd_name d) (km_name m)) (softdeps (cx_config ctx))")
    case None
    then show ?thesis using m finds_none [OF assms(1)] by (simp add: kmod_module_get_softdeps_def module_at_def)
  next
    case (Some d)
    then have "d \<in> set (softdeps (cx_config ctx))" by (auto simp: find_Some_iff)
    then obtain pre post where v: "softdep_view d = (sd_name d, Some pre, Some post)" and
      cl: "\<forall>s \<in> set pre \<union> set post. nul_free s \<and> (\<forall>t. norm_alias (take (PATH_MAX - 1) s) = Some t \<longrightarrow> lookup_closed env ctx T t)"
      using assms(1) unfolding lib_ok_def soft_closed_def by blast
    obtain l c1 where c1: "lookup_dep env pre [] ctx = Some (l, c1)" "finds env T ctx l c1"
      using lookup_dep_ok [OF assms(1), of "[]" pre] cl by auto
    have g: "lib_ok env T c1" "same_lib ctx c1" using c1(2) by (auto simp: finds_def grows_def)
    obtain l' c2 where c2: "lookup_dep env post [] c1 = Some (l', c2)" "finds env T c1 l' c2"
      using lookup_dep_ok [OF g(1), of "[]" post] cl lookup_closed_same [OF g(2)] by auto
    have "kmod_module_get_softdeps env ctx key = Some (Inr (l, l'), c2)"
      using m Some v c1(1) c2(1) by (simp add: kmod_module_get_softdeps_def module_at_def softdep_view_def)
    then show ?thesis using finds_trans [OF c1(2) c2(2)] by blast
  qed
qed

section \<open>Probing on the library\<close>

definition module_ops :: "lib_env \<Rightarrow> kmod_ctx probe_ops" where
  "module_ops env = \<lparr>po_dependencies = kmod_module_get_dependencies env, po_softdeps = kmod_module_get_softdeps env\<rparr>"

interpretation lib: probe_graph "module_ops env" "lib_ok env T" "\<lambda>c. dom (pool c)" "key_deps T" "mt_keys T"
proof unfold_locales
  fix c m assume ok: "lib_ok env T c" and m: "m \<in> dom (pool c)"
  show "\<exists>c'. po_dependencies (module_ops env) c m = Some (key_deps T m, c') \<and> lib_ok env T c'
      \<and> dom (pool c) \<union> set (key_deps T m) \<subseteq> dom (pool c')"
    using get_dependencies_ok [OF ok m] by (auto simp: module_ops_def grows_def)
  show "\<exists>pre post c'. po_softdeps (module_ops env) c m = Some (Inr (pre, post), c') \<and> lib_ok env T c'
      \<and> dom (pool c) \<union> set pre \<union> set post \<subseteq> dom (pool c')"
    using get_softdeps_ok [OF ok m] by (fastforce simp: module_ops_def finds_def grows_def)
  have tree: "tree_ok env c T" using ok by (simp add: lib_ok_def)
  show "deps_first (key_deps T) (key_deps T m)"
    using tree unfolding key_deps_def [of T m] tree_ok_def by simp
next
  fix c assume ok: "lib_ok env T c"
  then have "k \<in> mt_keys T" if "pool c k = Some m" for k m using lib_okD(1) that by blast
  then show "finite (mt_keys T) \<and> dom (pool c) \<subseteq> mt_keys T" using ok by (auto simp: lib_ok_def tree_ok_def)
qed

section \<open>Aliases of the configuration\<close>










end
