(* ===== verification/Kmod_Modprobe.thy ===== *)
theory Kmod_Modprobe
  imports Kmod_Load Kmod_Output
begin

text \<open>
  From depmod to the kernel: what the library inserts when it works on the index that depmod wrote.
  The tree of \<open>Kmod_Load\<close> is that of depmod's module table.
\<close>

section \<open>The tree of a module table\<close>

definition mod_pos :: "dmod list \<Rightarrow> string \<Rightarrow> nat" where
  "mod_pos mods n = length (takeWhile (\<lambda>m. dm_modname m \<noteq> n) mods)"

definition tree_of :: "dmod list \<Rightarrow> (nat \<Rightarrow> nat list) \<Rightarrow> mod_tree" where
  "tree_of mods dss = \<lparr>mt_names = dm_modname ` set mods,
     mt_rel = (\<lambda>n. mod_get_compressed_path (mods ! mod_pos mods n)),
     mt_needs = (\<lambda>n. map (\<lambda>d. dm_modname (mods ! d)) (dss (mod_pos mods n))),
     mt_keys = dm_modname ` set mods, mt_name = (\<lambda>k. k)\<rparr>"

text \<open>A file below the directory of the context that is the module \<open>n\<close>.\<close>

definition module_file :: "lib_env \<Rightarrow> string \<Rightarrow> string \<Rightarrow> string \<Rightarrow> bool" where
  "module_file env dir rel n \<longleftrightarrow> nul_free (dir @ ''/'' @ rel) \<and> rel \<noteq> [] \<and> set rel \<inter> {CHR '' '', CHR 0x09, CHR '':''} = {}
     \<and> hd rel \<noteq> CHR ''/'' \<and> basename rel \<noteq> [] \<and> norm_name (basename rel) = n
     \<and> length (dir @ ''/'' @ rel) + 1 < PATH_MAX \<and> (\<exists>stamp. en_stat env (dir @ ''/'' @ rel) = Inr stamp)"

definition installed :: "lib_env \<Rightarrow> kmod_ctx \<Rightarrow> dmod list \<Rightarrow> bool" where
  "installed env ctx mods \<longleftrightarrow> cx_dirname ctx \<noteq> [] \<and> hd (cx_dirname ctx) = CHR ''/'' \<and> length (cx_dirname ctx) + 2 < PATH_MAX
     \<and> (\<forall>m \<in> set mods. clean_name (dm_modname m) \<and> module_file env (cx_dirname ctx) (mod_get_compressed_path m) (dm_modname m))"

lemma mod_pos_nth:
  assumes "distinct (map dm_modname mods)" and "i < length mods"
  shows "mod_pos mods (dm_modname (mods ! i)) = i"
proof -
  have "takeWhile (\<lambda>m. dm_modname m \<noteq> dm_modname (mods ! i)) mods = take i mods"
    by (rule takeWhile_eq_take_P_nth) (use assms in \<open>auto simp: distinct_conv_nth\<close>)
  then show ?thesis using assms(2) by (simp add: mod_pos_def)
qed

lemma tree_of_mod:
  assumes "distinct (map dm_modname mods)" and "i < length mods"
  shows "mt_rel (tree_of mods dss) (dm_modname (mods ! i)) = mod_get_compressed_path (mods ! i)"
    "mt_needs (tree_of mods dss) (dm_modname (mods ! i)) = map (\<lambda>d. dm_modname (mods ! d)) (dss i)"
    "key_deps (tree_of mods dss) (dm_modname (mods ! i)) = rev (map (\<lambda>d. dm_modname (mods ! d)) (dss i))"
  using mod_pos_nth [OF assms] assms(2) by (simp_all add: tree_of_def key_deps_def)

text \<open>The order of depmod's line, read backwards, puts dependencies first.\<close>

lemma closure_first:
  assumes "acyclic (dep_edges mods)" and "Kmod_Output.load_order mods i ds" and "p < length ds"
  shows "(dep_edges mods)\<^sup>+ `` {rev ds ! p} \<subseteq> set (take p (rev ds))"
proof
  let ?R = "(dep_edges mods)\<^sup>+" and ?l = "rev ds"
  have set: "set ?l = ?R `` {i}" and sorted: "sorted_wrt (\<lambda>x y. (x, y) \<notin> ?R) ?l"
    using assms(2) by (auto simp: Kmod_Output.load_order_def sorted_wrt_rev)
  fix e assume "e \<in> ?R `` {?l ! p}"
  then have e: "(?l ! p, e) \<in> ?R" by simp
  have "?l ! p \<in> set ?l" using assms(3) by (intro nth_mem) simp
  then have "(i, ?l ! p) \<in> ?R" using set by blast
  then have "e \<in> set ?l" using e set by (auto intro: trancl_trans)
  then obtain q where q: "q < length ?l" "e = ?l ! q" by (metis in_set_conv_nth)
  have "q \<noteq> p" using e q assms(1) by (auto simp: acyclic_def)
  moreover have "\<not> p < q" using sorted_wrt_nth_less [OF sorted, of p q] e q by auto
  ultimately show "e \<in> set (take p ?l)" using q by (auto simp: in_set_conv_nth)
qed

lemma tree_of_deps_first:
  assumes d: "distinct (map dm_modname mods)" and "acyclic (dep_edges mods)" and "edges_ok mods"
    and L: "\<And>j. j < length mods \<Longrightarrow> Kmod_Output.load_order mods j (dss j)" and i: "i < length mods"
  shows "deps_first (key_deps (tree_of mods dss)) (rev (map (\<lambda>d. dm_modname (mods ! d)) (dss i)))"
  unfolding deps_first_def
proof (intro allI impI)
  let ?n = "\<lambda>d. dm_modname (mods ! d)" and ?l = "rev (dss i)"
  fix p assume p: "p < length (rev (map ?n (dss i)))"
  have "?l ! p \<in> set (dss i)" using p by (metis length_map length_rev nth_mem set_rev)
  then have j: "?l ! p < length mods" using closure_positions [OF assms(3) L [OF i]] by blast
  have "set (dss (?l ! p)) \<subseteq> set (take p ?l)"
    using closure_first [OF assms(2) L [OF i], of p] L [OF j] p by (simp add: Kmod_Output.load_order_def)
  then have "?n ` set (dss (?l ! p)) \<subseteq> ?n ` set (take p ?l)" by blast
  moreover have "rev (map ?n (dss i)) ! p = ?n (?l ! p)" "take p (rev (map ?n (dss i))) = map ?n (take p ?l)"
    using p by (simp_all add: rev_map take_map)
  ultimately show "set (key_deps (tree_of mods dss) (rev (map ?n (dss i)) ! p)) \<subseteq> set (take p (rev (map ?n (dss i))))"
    using tree_of_mod(3) [OF d j] by simp
qed

lemma installed_lib_ok:
  assumes "env_ok env" and I: "installed env ctx mods" and d: "distinct (map dm_modname mods)" and "acyclic (dep_edges mods)"
    and "edges_ok mods" and L: "\<And>j. j < length mods \<Longrightarrow> Kmod_Output.load_order mods j (dss j)"
    and S: "\<And>j. j < length mods \<Longrightarrow> kmod_search_moddep env ctx (dm_modname (mods ! j)) = Some (Some (deps_line mods j (dss j)))"
    and "softdeps (cx_config ctx) = []" and "pool ctx = Map.empty"
  shows "lib_ok env (tree_of mods dss) ctx"
proof -
  let ?T = "tree_of mods dss"
  have D: "depline_of ?T (dm_modname (mods ! j)) = deps_line mods j (dss j)" if "j < length mods" for j
  proof -
    have "mt_rel ?T (dm_modname (mods ! x)) = mod_get_compressed_path (mods ! x)" if "x \<in> set (dss j)" for x
      using closure_positions [OF assms(5) L [OF \<open>j < length mods\<close>]] that by (auto intro!: tree_of_mod(1) [OF d])
    then show ?thesis
      unfolding depline_of_def tree_of_mod [OF d that] deps_line_def by (auto intro!: arg_cong [where f = concat])
  qed
  have N: "clean_name n \<and> mt_name ?T n = n \<and> file_ok env ctx ?T n \<and> set (mt_needs ?T n) \<subseteq> mt_names ?T
      \<and> deps_first (key_deps ?T) (rev (mt_needs ?T n)) \<and> kmod_search_moddep env ctx n = Some (Some (depline_of ?T n))"
    if "n \<in> mt_names ?T" for n
  proof -
    have "n \<in> dm_modname ` set mods" using that unfolding tree_of_def by simp
    then obtain j where j: "j < length mods" "n = dm_modname (mods ! j)" by (auto simp: in_set_conv_nth)
    note t = tree_of_mod [OF d j(1)]
    have m: "mods ! j \<in> set mods" using j(1) by simp
    have "set (dss j) \<subseteq> {..<length mods}" using closure_positions [OF assms(5) L [OF j(1)]] .
    then have "set (mt_needs ?T n) \<subseteq> mt_names ?T" unfolding j(2) t by (auto simp: tree_of_def subset_iff)
    moreover have "file_ok env ctx ?T n"
      using I m t(1) unfolding j(2) installed_def file_ok_def module_file_def mod_path_def by simp
    moreover have "deps_first (key_deps ?T) (rev (mt_needs ?T n))"
      unfolding j(2) t by (rule tree_of_deps_first [OF d assms(4,5) L j(1)])
    ultimately show ?thesis using I m S [OF j(1)] D [OF j(1)] j(2) by (simp add: installed_def tree_of_def)
  qed
  have "mt_keys ?T = mt_names ?T" "finite (mt_names ?T)" "\<And>k. mt_name ?T k = k" by (simp_all add: tree_of_def)
  then have "tree_ok env ctx ?T" using N I unfolding tree_ok_def installed_def by auto
  then show ?thesis using assms(1,8,9) by (simp add: lib_ok_def soft_closed_def pool_ok_def)
qed

section \<open>What is probed\<close>

interpretation plain: probe_graph "module_ops env" "\<lambda>c. lib_ok env T c \<and> softdeps (cx_config c) = []"
  "\<lambda>c. dom (pool c)" "key_deps T" "mt_keys T"
proof unfold_locales
  fix c m assume c: "lib_ok env T c \<and> softdeps (cx_config c) = []" and m: "m \<in> dom (pool c)"
  show "\<exists>c'. po_dependencies (module_ops env) c m = Some (key_deps T m, c') \<and> (lib_ok env T c' \<and> softdeps (cx_config c') = [])
      \<and> dom (pool c) \<union> set (key_deps T m) \<subseteq> dom (pool c')"
    using get_dependencies_ok [of env T c m] c m by (auto simp: module_ops_def grows_def same_lib_def)
  have "kmod_module_get_softdeps env c m = Some (Inr ([], []), c)"
    using c m by (auto simp: kmod_module_get_softdeps_def module_at_def)
  then show "\<exists>pre post c'. po_softdeps (module_ops env) c m = Some (Inr (pre, post), c')
      \<and> (lib_ok env T c' \<and> softdeps (cx_config c') = []) \<and> dom (pool c) \<union> set pre \<union> set post \<subseteq> dom (pool c')"
    using c by (simp add: module_ops_def)
  show "deps_first (key_deps T) (key_deps T m)" using lib.deps_ordered [of env T c m] c m by blast
next
  fix c assume "lib_ok env T c \<and> softdeps (cx_config c) = []"
  then show "finite (mt_keys T) \<and> dom (pool c) \<subseteq> mt_keys T" using lib.known_finite by blast
qed

lemma no_softdeps_plain: "plain.no_softdeps env T"
  unfolding plain.no_softdeps_def by (auto simp: module_ops_def kmod_module_get_softdeps_def module_at_def)

definition new_probe :: "kmod_ctx \<Rightarrow> kmod_ctx probe_state" where
  "new_probe ctx = \<lparr>ps_ctx = ctx, ps_visited = (\<lambda>_. False), ps_required = (\<lambda>_. False), ps_ignorecmd = (\<lambda>_. False), ps_list = []\<rparr>"

lemma installed_probe_list:
  assumes ok: "lib_ok env (tree_of mods dss) ctx" and s: "softdeps (cx_config ctx) = []" and d: "distinct (map dm_modname mods)"
    and i: "i < length mods" and c: "clean_name (dm_modname (mods ! i))" and "0 < fuel"
  shows "\<exists>ctx' st. kmod_module_new_from_name env ctx (dm_modname (mods ! i)) = Some (Inr (dm_modname (mods ! i)), ctx')
    \<and> kmod_module_get_probe_list fuel (en_alloc env) (module_ops env) (dm_modname (mods ! i)) ignorecmd (new_probe ctx') = Some (Inr (), st)
    \<and> ps_list st = map (\<lambda>d. dm_modname (mods ! d)) (rev (dss i) @ [i])"
proof -
  let ?n = "dm_modname (mods ! i)" and ?T = "tree_of mods dss"
  have nn: "norm_name ?n = ?n" using c norm_name_idem by (simp add: clean_name_def)
  have "name_ok ?T ?n" using c nn i by (simp add: name_ok_def clean_name_def tree_of_def)
  then obtain ctx' where n: "kmod_module_new_from_name env ctx ?n = Some (Inr ?n, ctx')" "finds env ?T ctx [?n] ctx'"
    using new_from_name_ok [OF ok, of ?n] nn by auto
  have ctx': "lib_ok env ?T ctx'" "softdeps (cx_config ctx') = []" "?n \<in> dom (pool ctx')"
    using n(2) s by (auto simp: finds_def grows_def same_lib_def)
  have mem: "en_alloc env 24" using lib_env_ok [OF ok] by (simp add: env_ok_def)
  obtain st where st: "kmod_module_get_probe_list fuel (en_alloc env) (module_ops env) ?n ignorecmd (new_probe ctx') = Some (Inr (), st)"
      "ps_list st = key_deps ?T ?n @ [?n]"
    using plain.probe_list_plain [of env ?T "en_alloc env" "new_probe ctx'" ?n fuel ignorecmd] no_softdeps_plain [of env ?T]
      mem ctx' assms(6) by (auto simp: new_probe_def)
  have "ps_list st = map (\<lambda>d. dm_modname (mods ! d)) (rev (dss i) @ [i])" using st(2) tree_of_mod(3) [OF d i] by (simp add: rev_map)
  then show ?thesis using n(1) st(1) by blast
qed

lemma search_loaded:
  "cx_indexes ctx KMOD_INDEX_MODULES_DEP = Some idx \<Longrightarrow> kmod_search_moddep env ctx n = index_mm_search idx n"
  by (simp add: kmod_search_moddep_def lookup_file_def)

lemma wf_edges_ok: "wf_mods mods \<Longrightarrow> edges_ok mods"
  by (auto simp: wf_mods_def edges_ok_def)

lemma indexed_lib_ok:
  assumes "wf_mods mods" and "acyclic (dep_edges mods)" and "distinct (map dm_modname mods)"
    and "\<forall>i < length mods. \<exists>ds. index_mm_search idx (dm_modname (mods ! i)) = Some (Some (deps_line mods i ds)) \<and> Kmod_Output.load_order mods i ds"
    and "env_ok env" and "installed env ctx mods" and "cx_indexes ctx KMOD_INDEX_MODULES_DEP = Some idx"
    and "softdeps (cx_config ctx) = []" and "pool ctx = Map.empty"
  shows "\<exists>dss. lib_ok env (tree_of mods dss) ctx \<and> (\<forall>i < length mods. Kmod_Output.load_order mods i (dss i))"
proof -
  obtain dss where D: "index_mm_search idx (dm_modname (mods ! i)) = Some (Some (deps_line mods i (dss i)))"
      "Kmod_Output.load_order mods i (dss i)" if "i < length mods" for i
    using assms(4) by metis
  have "lib_ok env (tree_of mods dss) ctx"
    using installed_lib_ok [OF assms(5,6,3,2) wf_edges_ok [OF assms(1)] D(2) _ assms(8,9)] D(1) search_loaded [OF assms(7)] by simp
  then show ?thesis using D(2) by blast
qed

lemma load_order_end:
  assumes "acyclic (dep_edges mods)" and "Kmod_Output.load_order mods i ds"
  shows "sorted_wrt (\<lambda>x y. (x, y) \<notin> (dep_edges mods)\<^sup>+) (rev ds @ [i])"
proof -
  have "(d, i) \<notin> (dep_edges mods)\<^sup>+" if "d \<in> set ds" for d
    using assms that by (auto simp: Kmod_Output.load_order_def acyclic_def dest: trancl_trans)
  then show ?thesis using assms(2) by (simp add: Kmod_Output.load_order_def sorted_wrt_append sorted_wrt_rev)
qed

section \<open>An installed chain of modules\<close>

definition chain_env :: lib_env where
  "chain_env = \<lparr>en_alloc = (\<lambda>_. True), en_pool_grows = (\<lambda>_. True), en_cwd = None, en_stat = (\<lambda>_. Inr 0),
     en_file = (\<lambda>_. Inl ENOENT), en_mmap = (\<lambda>_. None), en_fnmatch = (\<lambda>p s. p = s), en_depth = 10\<rparr>"

definition chain_ctx :: "index_mm \<Rightarrow> kmod_ctx" where
  "chain_ctx idx = \<lparr>cx_dirname = ''/m'', cx_config = empty_config, cx_modules_by_name = Map.empty,
     cx_indexes = [KMOD_INDEX_MODULES_DEP \<mapsto> idx], cx_indexes_stamp = (\<lambda>_. 0)\<rparr>"

lemma chain_env_ok: "env_ok chain_env"
  by (simp add: env_ok_def chain_env_def)

lemma chain_installed: "installed chain_env (chain_ctx idx) chain_mods"
  by (simp add: installed_def chain_ctx_def chain_env_def chain_mods_def example_mod_def clean_name_def module_file_def
      mod_get_compressed_path_def basename_def norm_name_def)

lemma chain_ctx_facts:
  "cx_indexes (chain_ctx idx) KMOD_INDEX_MODULES_DEP = Some idx" "softdeps (cx_config (chain_ctx idx)) = []" "pool (chain_ctx idx) = Map.empty"
  by (simp_all add: chain_ctx_def empty_config_def)

lemma chain_named: "named chain_mods" "distinct (map dm_modname chain_mods)"
  by (auto simp: named_def chain_mods_def example_mod_def mod_get_compressed_path_def less_Suc_eq ascii_def)

lemma chain_trie:
  "map_option trie_len (index_build [(''ext4'', ''ext4.ko: jbd2.ko crc.ko'', 0), (''jbd2'', ''jbd2.ko: crc.ko'', 1), (''crc'', ''crc.ko:'', 2)])
    = Some 117"
  by code_simp

lemma chain_index:
  obtains qsort mods' root img idx where "qsort_spec qsort"
    "depmod_calculate_dependencies 0 (\<lambda>_. True) qsort chain_mods = Some (Some (Inr (), mods', []))"
    "deps_index (Suc (length chain_mods)) (\<lambda>_. True) qsort mods' = Some root" "trie_len root + 12 < 2 ^ 28"
    "output_deps_bin (Suc (length chain_mods)) (\<lambda>_. True) qsort mods' False True = Some (Inr img)"
    "index_mm_open True (Inr img) None = Inr idx"
proof -
  note wf = chain_mods_wf(1,2)
  obtain qsort where q: "qsort_spec qsort" using insort_qsort_spec by blast
  obtain mods' where M: "depmod_calculate_dependencies 0 (\<lambda>_. True) qsort chain_mods = Some (Some (Inr (), mods', []))"
    "topo_ready chain_mods mods'"
    "\<forall>i < length chain_mods. dm_modname (mods' ! i) = dm_modname (chain_mods ! i) \<and> dm_path (mods' ! i) = dm_path (chain_mods ! i)
       \<and> dm_relpath (mods' ! i) = dm_relpath (chain_mods ! i) \<and> dm_idx (mods' ! i) = dm_idx (chain_mods ! i)"
    using calculate_spec(1)[OF wf(1) q wf(2), of 0] by blast
  note N = topo_ready_numbered [OF wf(1) M(2)]
  have len: "length mods' = 3" "length chain_mods = 3" using M(2) by (simp_all add: topo_ready_def chain_mods_def)
  have paths: "\<forall>i < length chain_mods. mod_get_compressed_path (mods' ! i) = mod_get_compressed_path (chain_mods ! i)"
    using M(3) by (simp add: mod_get_compressed_path_def split: option.split)
  have "named mods'" using chain_named(1) M(3) paths len by (simp add: named_def)
  then obtain root dss where I: "deps_index 4 (\<lambda>_. True) qsort mods' = Some root" "index_build (dep_entries mods' dss 3) = Some root"
      "\<forall>i < 3. Kmod_Output.load_order mods' i (dss i)"
    using deps_index_spec [OF N(1) q, of 4] len(1) by auto
  have "\<forall>i < length chain_mods. distinct (dss i) \<and> set (dss i) = (dep_edges chain_mods)\<^sup>+ `` {i}
      \<and> sorted_wrt (\<lambda>x y. (y, x) \<notin> (dep_edges chain_mods)\<^sup>+) (dss i)"
    using I(3) N(2) len(2) by (simp add: Kmod_Output.load_order_def)
  note C = chain_closure [OF this]
  have e: "mods' ! i = mods' ! i \<and> dm_modname (mods' ! i) = dm_modname (chain_mods ! i)
      \<and> mod_get_compressed_path (mods' ! i) = mod_get_compressed_path (chain_mods ! i) \<and> dm_idx (mods' ! i) = dm_idx (chain_mods ! i)" if "i < 3" for i
    using M(3) paths that len(2) by simp
  have "[0..<3] = [0, 1, 2 :: nat]" by (simp add: upt_rec)
  then have "dep_entries mods' dss 3 = [(''ext4'', ''ext4.ko: jbd2.ko crc.ko'', 0), (''jbd2'', ''jbd2.ko: crc.ko'', 1), (''crc'', ''crc.ko:'', 2)]"
    using e [of 0] e [of 1] e [of 2] C
    by (simp add: dep_entries_def deps_line_def chain_mods_def example_mod_def mod_get_compressed_path_def)
  then have t: "trie_len root + 12 < 2 ^ 28" using I(2) chain_trie by simp
  have f: "Suc (length chain_mods) = 4" using len(2) by simp
  have I': "deps_index (Suc (length chain_mods)) (\<lambda>_. True) qsort mods' = Some root" using I(1) f by simp
  obtain img idx where "output_deps_bin (Suc (length chain_mods)) (\<lambda>_. True) qsort mods' False True = Some (Inr img)"
      "index_mm_open True (Inr img) None = Inr idx"
    using deps_bin_lookup [OF wf q chain_named M(1) I' t] by blast
  then show thesis using that q M(1) I' t by blast
qed

text \<open>
  C1. From depmod's graph to the order of insertion. Let the module table be well formed and acyclic
  with distinct 7-bit names, let the library have mapped the index that depmod writes for it, let the
  files be installed, and let there be no soft dependencies. Then the list of modules that probing a
  module of the table makes is: every module it needs, directly or not, each once and behind all
  that it needs itself, and the module at the end.
\<close>

theorem depmod_modprobe_order:
  assumes "wf_mods mods" and "acyclic (dep_edges mods)" and "qsort_spec qsort" and "named mods"
    and "distinct (map dm_modname mods)"
    and "depmod_calculate_dependencies fuel (\<lambda>_. True) qsort mods = Some (Some (Inr (), mods', []))"
    and "deps_index (Suc (length mods)) (\<lambda>_. True) qsort mods' = Some root" and "trie_len root + 12 < 2 ^ 28"
    and "output_deps_bin (Suc (length mods)) (\<lambda>_. True) qsort mods' False True = Some (Inr img)"
    and "index_mm_open True (Inr img) None = Inr idx" and "cx_indexes ctx KMOD_INDEX_MODULES_DEP = Some idx"
    and "env_ok env" and "installed env ctx mods" and "softdeps (cx_config ctx) = []" and "pool ctx = Map.empty"
    and "i < length mods" and "0 < depth"
  shows "\<exists>ds ctx' st. kmod_module_new_from_name env ctx (dm_modname (mods ! i)) = Some (Inr (dm_modname (mods ! i)), ctx')
    \<and> kmod_module_get_probe_list depth (en_alloc env) (module_ops env) (dm_modname (mods ! i)) ignorecmd (new_probe ctx') = Some (Inr (), st)
    \<and> ps_list st = map (\<lambda>d. dm_modname (mods ! d)) (ds @ [i])
    \<and> distinct ds \<and> set ds = (dep_edges mods)\<^sup>+ `` {i} \<and> sorted_wrt (\<lambda>x y. (x, y) \<notin> (dep_edges mods)\<^sup>+) (ds @ [i])"
proof -
  have "\<forall>i < length mods. \<exists>ds. index_mm_search idx (dm_modname (mods ! i)) = Some (Some (deps_line mods i ds)) \<and> Kmod_Output.load_order mods i ds"
    using deps_bin_lookup [OF assms(1-8)] assms(9,10) by auto
  from indexed_lib_ok [OF assms(1,2,5) this assms(12,13,11,14,15)] obtain dss where
    ok: "lib_ok env (tree_of mods dss) ctx" and L: "\<forall>i < length mods. Kmod_Output.load_order mods i (dss i)" by blast
  have li: "Kmod_Output.load_order mods i (dss i)" using L assms(16) by blast
  have c: "clean_name (dm_modname (mods ! i))" using assms(13,16) by (simp add: installed_def)
  obtain ctx' st where p: "kmod_module_new_from_name env ctx (dm_modname (mods ! i)) = Some (Inr (dm_modname (mods ! i)), ctx')"
      "kmod_module_get_probe_list depth (en_alloc env) (module_ops env) (dm_modname (mods ! i)) ignorecmd (new_probe ctx') = Some (Inr (), st)"
      "ps_list st = map (\<lambda>d. dm_modname (mods ! d)) (rev (dss i) @ [i])"
    using installed_probe_list [OF ok assms(14,5,16) c assms(17)] by blast
  have "distinct (rev (dss i))" "set (rev (dss i)) = (dep_edges mods)\<^sup>+ `` {i}" using li by (simp_all add: Kmod_Output.load_order_def)
  then show ?thesis using p load_order_end [OF assms(2) li] by blast
qed

theorem depmod_modprobe_order_witness:
  "\<exists>idx ctx' st. kmod_module_new_from_name chain_env (chain_ctx idx) ''ext4'' = Some (Inr ''ext4'', ctx')
    \<and> kmod_module_get_probe_list 1 (en_alloc chain_env) (module_ops chain_env) ''ext4'' False (new_probe ctx') = Some (Inr (), st)
    \<and> ps_list st = [''crc'', ''jbd2'', ''ext4'']"
proof -
  obtain qsort mods' root img idx where q: "qsort_spec qsort"
    and M: "depmod_calculate_dependencies 0 (\<lambda>_. True) qsort chain_mods = Some (Some (Inr (), mods', []))"
    and I: "deps_index (Suc (length chain_mods)) (\<lambda>_. True) qsort mods' = Some root" "trie_len root + 12 < 2 ^ 28"
    "output_deps_bin (Suc (length chain_mods)) (\<lambda>_. True) qsort mods' False True = Some (Inr img)" "index_mm_open True (Inr img) None = Inr idx"
    by (rule chain_index)
  have i: "0 < length chain_mods" "0 < (1 :: nat)" "dm_modname (chain_mods ! 0) = ''ext4''" by (simp_all add: chain_mods_def example_mod_def)
  obtain ds ctx' st where D: "kmod_module_new_from_name chain_env (chain_ctx idx) ''ext4'' = Some (Inr ''ext4'', ctx')"
      "kmod_module_get_probe_list 1 (en_alloc chain_env) (module_ops chain_env) ''ext4'' False (new_probe ctx') = Some (Inr (), st)"
      "ps_list st = map (\<lambda>d. dm_modname (chain_mods ! d)) (ds @ [0])" "distinct ds" "set ds = (dep_edges chain_mods)\<^sup>+ `` {0}"
      "sorted_wrt (\<lambda>x y. (x, y) \<notin> (dep_edges chain_mods)\<^sup>+) (ds @ [0])"
    using depmod_modprobe_order [OF chain_mods_wf(1,2) q chain_named M I chain_ctx_facts(1) chain_env_ok chain_installed
        chain_ctx_facts(2,3) i(1,2), where ignorecmd = False] unfolding i(3) by blast
  have R: "(dep_edges chain_mods)\<^sup>+ = {(0, 1), (0, 2), (1, 2)}"
    unfolding chain_mods_wf(3) by (rule trancl_id) (auto intro!: transI)
  have s: "set ds = {1, 2}" using D(5) unfolding R by auto
  then have "length ds = 2" using D(4) distinct_card [of ds] by simp
  then obtain a b where ab: "ds = [a, b]" by (auto simp: length_Suc_conv numeral_2_eq_2)
  have "{a, b} = {1, 2}" "(a, b) \<noteq> (1, 2)" using s D(6) ab unfolding R by auto
  then have "ds = [2, 1]" using ab by (auto simp: doubleton_eq_iff)
  then have "ps_list st = [''crc'', ''jbd2'', ''ext4'']" using D(3) by (simp add: chain_mods_def example_mod_def)
  then show ?thesis using D(1,2) by blast
qed

lemma chain_order: "Kmod_Output.load_order chain_mods 0 ds \<Longrightarrow> ds = [1, 2]"
proof -
  assume L: "Kmod_Output.load_order chain_mods 0 ds"
  have R: "(dep_edges chain_mods)\<^sup>+ = {(0, 1), (0, 2), (1, 2)}"
    unfolding chain_mods_wf(3) by (rule trancl_id) (auto intro!: transI)
  have s: "set ds = {1, 2}" "distinct ds" "sorted_wrt (\<lambda>x y. (y, x) \<notin> {(0, 1), (0, 2), (1, 2)}) ds"
    using L unfolding Kmod_Output.load_order_def R by auto
  then have "length ds = 2" using distinct_card [of ds] by simp
  then obtain a b where ab: "ds = [a, b]" by (auto simp: length_Suc_conv numeral_2_eq_2)
  have "{a, b} = {1, 2}" "(b, a) \<noteq> (1, 2)" using s ab by auto
  then show "ds = [1, 2]" using ab by (auto simp: doubleton_eq_iff)
qed

lemma chain_ready:
  obtains T ctx where "lib_ok chain_env T ctx" "''ext4'' \<in> dom (pool ctx)" "card (mt_keys T) = 3" "key_deps T ''ext4'' = [''crc'', ''jbd2'']"
    "mt_name T = (\<lambda>k. k)"
proof -
  obtain qsort mods' root img idx where q: "qsort_spec qsort"
    and M: "depmod_calculate_dependencies 0 (\<lambda>_. True) qsort chain_mods = Some (Some (Inr (), mods', []))"
    and I: "deps_index (Suc (length chain_mods)) (\<lambda>_. True) qsort mods' = Some root" "trie_len root + 12 < 2 ^ 28"
    "output_deps_bin (Suc (length chain_mods)) (\<lambda>_. True) qsort mods' False True = Some (Inr img)" "index_mm_open True (Inr img) None = Inr idx"
    by (rule chain_index)
  have "\<forall>i < length chain_mods. \<exists>ds. index_mm_search idx (dm_modname (chain_mods ! i)) = Some (Some (deps_line chain_mods i ds))
      \<and> Kmod_Output.load_order chain_mods i ds"
    using deps_bin_lookup [OF chain_mods_wf(1,2) q chain_named M I(1,2)] I(3,4) by auto
  from indexed_lib_ok [OF chain_mods_wf(1,2) chain_named(2) this chain_env_ok chain_installed chain_ctx_facts]
  obtain dss where ok: "lib_ok chain_env (tree_of chain_mods dss) (chain_ctx idx)"
    and L: "\<forall>i < length chain_mods. Kmod_Output.load_order chain_mods i (dss i)" by blast
  have z: "0 < length chain_mods" "dm_modname (chain_mods ! 0) = ''ext4''" by (simp_all add: chain_mods_def example_mod_def)
  have nn: "norm_name ''ext4'' = ''ext4''" by (simp add: norm_name_def)
  have nm: "name_ok (tree_of chain_mods dss) ''ext4''"
    unfolding name_ok_def nn by (simp add: tree_of_def chain_mods_def example_mod_def)
  obtain ctx where c: "lib_ok chain_env (tree_of chain_mods dss) ctx" "''ext4'' \<in> dom (pool ctx)"
    using new_from_name_ok [OF ok nm] unfolding nn finds_def by auto
  have d0: "dss 0 = [1, 2]" using chain_order L z(1) by blast
  have k: "key_deps (tree_of chain_mods dss) ''ext4'' = [''crc'', ''jbd2'']"
    using tree_of_mod(3) [OF chain_named(2) z(1), of dss] unfolding d0 z(2) by (simp add: chain_mods_def example_mod_def)
  have "mt_keys (tree_of chain_mods dss) = {''ext4'', ''jbd2'', ''crc''}" by (simp add: tree_of_def chain_mods_def example_mod_def)
  then have "card (mt_keys (tree_of chain_mods dss)) = 3" by simp
  then show thesis using that [OF c _ k] by (simp add: tree_of_def)
qed

text \<open>
  C2. The list of modules to insert, with soft dependencies. On a context that agrees with the
  installed tree, where soft dependencies may name aliases, symbols, builtin modules and each other in
  cycles, building the list ends: a depth of one more than the number of keys that lookups can create
  is enough. The list has the module and all its dependencies, every module on it stands behind all
  its own dependencies, and exactly the module and its dependencies are marked as required.
\<close>

theorem probe_list_order:
  assumes "lib_ok env T (ps_ctx st)" and "md \<in> dom (pool (ps_ctx st))" and "card (mt_keys T) < depth"
  shows "\<exists>st'. kmod_module_get_probe_list depth (en_alloc env) (module_ops env) md ignorecmd st = Some (Inr (), st')
    \<and> insert md (set (key_deps T md)) \<subseteq> set (ps_list st')
    \<and> (\<forall>i < length (ps_list st'). set (key_deps T (ps_list st' ! i)) \<subseteq> set (take i (ps_list st')))
    \<and> (\<forall>m. ps_required st' m \<longleftrightarrow> m = md \<or> m \<in> set (key_deps T md))"
proof -
  have "en_alloc env 24" using lib_env_ok [OF assms(1)] by (simp add: env_ok_def)
  then show ?thesis
    using lib.probe_list_ok [OF assms, of "en_alloc env" ignorecmd] unfolding deps_first_def by auto
qed

theorem probe_list_order_witness:
  "\<exists>ctx st. kmod_module_get_probe_list 4 (en_alloc chain_env) (module_ops chain_env) ''ext4'' False (new_probe ctx) = Some (Inr (), st)
    \<and> {''crc'', ''jbd2'', ''ext4''} \<subseteq> set (ps_list st) \<and> ps_required st ''crc''"
proof -
  obtain T ctx where c: "lib_ok chain_env T ctx" "''ext4'' \<in> dom (pool ctx)" "card (mt_keys T) = 3" "key_deps T ''ext4'' = [''crc'', ''jbd2'']"
    by (rule chain_ready)
  have p: "lib_ok chain_env T (ps_ctx (new_probe ctx))" "''ext4'' \<in> dom (pool (ps_ctx (new_probe ctx)))" "card (mt_keys T) < 4"
    using c by (simp_all add: new_probe_def)
  from probe_list_order [OF p, where ignorecmd = False] obtain st where
    "kmod_module_get_probe_list 4 (en_alloc chain_env) (module_ops chain_env) ''ext4'' False (new_probe ctx) = Some (Inr (), st)"
    "insert ''ext4'' (set (key_deps T ''ext4'')) \<subseteq> set (ps_list st)"
    "\<forall>m. ps_required st m \<longleftrightarrow> m = ''ext4'' \<or> m \<in> set (key_deps T ''ext4'')" by blast
  then show ?thesis unfolding c(4) by (intro exI [of _ ctx] exI [of _ st]) simp
qed

text \<open>
  C3. Probing loads. For a kernel that accepts a module whose dependencies are loaded, and no install
  commands or blacklist entries, probing a module with none of the flags that suppress the insertion
  or make it an error that a module is loaded returns 0, ends with the module loaded, unloads nothing,
  and, if the module was not loaded before, ends with all its dependencies loaded, whatever soft
  dependencies bring in on the way.
\<close>

theorem probe_insert_loads:
  assumes "lib_ok env T (ps_ctx st)" and "md \<in> dom (pool (ps_ctx st))" and "card (mt_keys T) < depth"
    and "kernel_ok ko (mt_name T) (key_deps T) loaded" and "plain_flags flags"
    and "\<And>m. ko_install_command ko m = None" and "\<And>m. \<not> ko_blacklisted ko m"
  shows "\<exists>st' k'. kmod_module_probe_insert_module depth (\<lambda>_. True) (module_ops env) ko md flags extra st k = Some (Inr 0, st', k')
    \<and> loaded k \<subseteq> loaded k' \<and> mt_name T md \<in> loaded k' \<and> (mt_name T md \<notin> loaded k \<longrightarrow> mt_name T ` set (key_deps T md) \<subseteq> loaded k')"
  by (rule lib.insert_module_ok [OF assms])

text \<open>A kernel whose state is the set of the loaded modules, given the dependencies of each.\<close>

definition set_kernel :: "(string \<Rightarrow> string list) \<Rightarrow> string set kernel_ops" where
  "set_kernel deps = \<lparr>ko_inkernel = (\<lambda>k m. m \<in> k),
     ko_insert = (\<lambda>k m flags opts. if set (deps m) \<subseteq> k then (Inr (), insert m k) else (Inl ENOENT, k)),
     ko_run_install = (\<lambda>k m cmd opts. (Inr (), k)), ko_options = (\<lambda>_. None), ko_install_command = (\<lambda>_. None),
     ko_blacklisted = (\<lambda>_. False), ko_has_alias = (\<lambda>_. False)\<rparr>"

theorem probe_insert_loads_witness:
  "\<exists>deps ctx st k. kmod_module_probe_insert_module 4 (\<lambda>_. True) (module_ops chain_env) (set_kernel deps) ''ext4'' 0 None (new_probe ctx) {}
    = Some (Inr 0, st, k) \<and> {''crc'', ''jbd2'', ''ext4''} \<subseteq> k"
proof -
  obtain T ctx where c: "lib_ok chain_env T ctx" "''ext4'' \<in> dom (pool ctx)" "card (mt_keys T) = 3" "key_deps T ''ext4'' = [''crc'', ''jbd2'']"
      "mt_name T = (\<lambda>k. k)" by (rule chain_ready)
  have p: "lib_ok chain_env T (ps_ctx (new_probe ctx))" "''ext4'' \<in> dom (pool (ps_ctx (new_probe ctx)))" "card (mt_keys T) < 4"
    using c by (simp_all add: new_probe_def)
  let ?ko = "set_kernel (key_deps T)"
  have k: "kernel_ok ?ko (mt_name T) (key_deps T) id" unfolding c(5) by (simp add: kernel_ok_def set_kernel_def)
  have f: "plain_flags 0" by (simp add: plain_flags_def)
  have n: "ko_install_command ?ko m = None" "\<not> ko_blacklisted ?ko m" for m by (simp_all add: set_kernel_def)
  from probe_insert_loads [OF p k f n, where extra = None and k = "{}"] obtain st k' where
    "kmod_module_probe_insert_module 4 (\<lambda>_. True) (module_ops chain_env) ?ko ''ext4'' 0 None (new_probe ctx) {} = Some (Inr 0, st, k')"
    "mt_name T ''ext4'' \<in> k'" "mt_name T ` set (key_deps T ''ext4'') \<subseteq> k'" by auto
  then show ?thesis unfolding c(4,5) by (intro exI [of _ "key_deps T"] exI [of _ ctx] exI [of _ st] exI [of _ k']) simp
qed

section \<open>A module loaded for the first time\<close>

text \<open>
  \<open>KMOD_PROBE_FAIL_ON_LOADED\<close> reports a module that this very call has inserted: the module has a soft
  dependency that depends on it, so it is on the list twice, and the second time it is loaded.
\<close>

definition loop_ops :: "unit probe_ops" where
  "loop_ops = \<lparr>po_dependencies = (\<lambda>c m. Some (if m = ''b'' then [''a''] else [], c)),
     po_softdeps = (\<lambda>c m. Some (Inr (if m = ''a'' then [''b''] else [], []), c))\<rparr>"

lemma first_time_fails:
  "map_option (\<lambda>(r, st, k). (r, ps_list st, k))
     (kmod_module_probe_insert_module 3 (\<lambda>_. True) loop_ops (set_kernel (\<lambda>m. if m = ''b'' then [''a''] else [])) ''a''
        KMOD_PROBE_FAIL_ON_LOADED None
        \<lparr>ps_ctx = (), ps_visited = (\<lambda>_. False), ps_required = (\<lambda>_. False), ps_ignorecmd = (\<lambda>_. False), ps_list = []\<rparr> {})
    = Some (Inl EEXIST, [''a'', ''b'', ''a''], {''a'', ''b''})"
  by code_simp

end
