(* ===== verification/Kmod_File.thy ===== *)
theory Kmod_File
  imports Kmod_Io
begin

text \<open>
  \<open>libkmod/libkmod-file.c\<close> and the loaders behind it: a module file is opened, its compression is
  recognised by its first bytes, and its contents are loaded when they are first asked for. What the
  operating system answers is the record \<open>file_env\<close>; the functions of zlib, liblzma and libzstd are
  arguments. The descriptor is left out. Loops that read take fuel as in \<open>Kmod_Io\<close>: the inner
  \<open>None\<close> says that the loop is still running.
\<close>

section \<open>Opening\<close>

datatype kmod_file_compression_type =
    KMOD_FILE_COMPRESSION_NONE | KMOD_FILE_COMPRESSION_ZSTD | KMOD_FILE_COMPRESSION_XZ
  | KMOD_FILE_COMPRESSION_ZLIB

definition magic_zstd :: "char list" where
  "magic_zstd = [CHR 0x28, CHR 0xB5, CHR 0x2F, CHR 0xFD]"

definition magic_xz :: "char list" where
  "magic_xz = [CHR 0xFD, CHR ''7'', CHR ''z'', CHR ''X'', CHR ''Z'', NUL]"

definition magic_zlib :: "char list" where
  "magic_zlib = [CHR 0x1F, CHR 0x8B]"

lemmas magic_defs = magic_zstd_def magic_xz_def magic_zlib_def

record file_env =
  fe_open :: "errno option"
  fe_seekable :: bool
  fe_pread :: "nat \<Rightarrow> size_t \<Rightarrow> u64 \<Rightarrow> char list result"
  fe_fstat :: "size_t result"
  fe_mmap :: "size_t \<Rightarrow> char list result"

record kmod_file =
  kf_compression :: kmod_file_compression_type
  kf_memory :: "char list option"

definition comp_types :: "(char list \<times> kmod_file_compression_type) list" where
  "comp_types =
     [(magic_zstd, KMOD_FILE_COMPRESSION_ZSTD), (magic_xz, KMOD_FILE_COMPRESSION_XZ),
      (magic_zlib, KMOD_FILE_COMPRESSION_ZLIB), ([], KMOD_FILE_COMPRESSION_NONE)]"

text \<open>\<open>memcmp\<close> of the start of a buffer; reading a byte that was not written is undefined.\<close>

definition memcmp_eq :: "char slots \<Rightarrow> char list \<Rightarrow> bool option" where
  "memcmp_eq buf bs =
     (if length bs \<le> length buf then map_option (\<lambda>cs. cs = bs) (those (take (length bs) buf)) else None)"

fun detect ::
    "char slots \<Rightarrow> (char list \<times> kmod_file_compression_type) list \<Rightarrow> kmod_file_compression_type
      \<Rightarrow> kmod_file_compression_type option" where
  "detect buf [] compression = Some compression"
| "detect buf ((magic_bytes, c) # types) compression =
     (if magic_bytes = [] then detect buf types c
      else do { eq \<leftarrow> memcmp_eq buf magic_bytes; if eq then Some c else detect buf types c })"

text \<open>
  \<open>struct kmod_file\<close> has 40 bytes. A failed \<open>lseek\<close> is returned as it is, which is \<open>-EPERM\<close>.
\<close>

definition kmod_file_open :: "nat \<Rightarrow> (size_t \<Rightarrow> bool) \<Rightarrow> file_env \<Rightarrow> kmod_file result option option" where
  "kmod_file_open fuel alloc env =
     (if \<not> alloc 40 then Some (Some (Inl ENOMEM))
      else
        (case fe_open env of
           Some e \<Rightarrow> Some (Some (Inl e))
         | None \<Rightarrow>
             if \<not> fe_seekable env then Some (Some (Inl EPERM))
             else
               (case pread_str_safe fuel (fe_pread env) (replicate 7 None) 7 0 of
                  None \<Rightarrow> None
                | Some None \<Rightarrow> Some None
                | Some (Some (Inl e, buf)) \<Rightarrow> Some (Some (Inl e))
                | Some (Some (Inr sz, buf)) \<Rightarrow>
                    if sz \<noteq> 6 then Some (Some (Inl EINVAL))
                    else
                      do { c \<leftarrow> detect buf comp_types KMOD_FILE_COMPRESSION_NONE;
                           Some (Some (Inr \<lparr>kf_compression = c, kf_memory = None\<rparr>)) })))"

section \<open>Loading\<close>

definition load_reg :: "file_env \<Rightarrow> char list result" where
  "load_reg env =
     (case fe_fstat env of
        Inl e \<Rightarrow> Inl e
      | Inr sz \<Rightarrow> if (- 1 :: size_t) < sz then Inl ENOMEM else fe_mmap env sz)"

text \<open>
  The loop of the zlib loader: \<open>gzread k pos n\<close> is the answer of the \<open>k\<close>-th call, after \<open>pos\<close> bytes,
  to a request for \<open>n\<close>; an error is an \<open>errno\<close>, or none if zlib says what went wrong.
\<close>

abbreviation READ_STEP :: nat where "READ_STEP \<equiv> 4194304"

primrec gz_loop ::
    "nat \<Rightarrow> (size_t \<Rightarrow> bool) \<Rightarrow> (nat \<Rightarrow> nat \<Rightarrow> nat \<Rightarrow> errno option + char list) \<Rightarrow> nat \<Rightarrow> nat \<Rightarrow> char slots
      \<Rightarrow> char list result option option" where
  "gz_loop 0 alloc gzread k did p = Some None"
| "gz_loop (Suc fuel) alloc gzread k did p =
     (let total = length p in
      if did = total \<and> \<not> alloc (of_nat (total + READ_STEP)) then Some (Some (Inl ENOMEM))
      else
        (let p = (if did = total then realloc_slots (total + READ_STEP) p else p) in
         case gzread k did (length p - did) of
           Inl e \<Rightarrow> Some (Some (Inl (case e of None \<Rightarrow> EINVAL | Some e \<Rightarrow> e)))
         | Inr [] \<Rightarrow> Some (Some (Inr (live did p)))
         | Inr cs \<Rightarrow> do { p \<leftarrow> memcpy_to cs did p; gz_loop fuel alloc gzread (Suc k) (did + length cs) p }))"

text \<open>\<open>dl\<close>: zlib is there; \<open>dup\<close> and \<open>gzdopen\<close>: their errors.\<close>

definition kmod_file_load_zlib ::
    "nat \<Rightarrow> (size_t \<Rightarrow> bool) \<Rightarrow> bool \<Rightarrow> errno option \<Rightarrow> errno option
      \<Rightarrow> (nat \<Rightarrow> nat \<Rightarrow> nat \<Rightarrow> errno option + char list) \<Rightarrow> char list result option option" where
  "kmod_file_load_zlib fuel alloc dl dup gzdopen gzread =
     (if \<not> dl then Some (Some (Inl EINVAL))
      else
        (case dup of
           Some e \<Rightarrow> Some (Some (Inl e))
         | None \<Rightarrow>
             (case gzdopen of
                Some e \<Rightarrow> Some (Some (Inl e))
              | None \<Rightarrow> gz_loop fuel alloc gzread 0 0 [])))"

text \<open>
  \<open>frame_size\<close> is \<open>ZSTD_getFrameContentSize\<close>, which answers the two largest numbers for an error and
  an unknown size; \<open>decompress src n\<close> is \<open>ZSTD_decompress\<close> into a block of \<open>n\<close> bytes, None on error.
\<close>

definition kmod_file_load_zstd ::
    "(size_t \<Rightarrow> bool) \<Rightarrow> bool \<Rightarrow> file_env \<Rightarrow> (char list \<Rightarrow> u64) \<Rightarrow> (char list \<Rightarrow> u64 \<Rightarrow> char list option)
      \<Rightarrow> char list result" where
  "kmod_file_load_zstd alloc dl env frame_size decompress =
     (if \<not> dl then Inl EINVAL
      else
        (case load_reg env of
           Inl e \<Rightarrow> Inl e
         | Inr src \<Rightarrow>
             (let n = frame_size src in
              if n = 0 \<or> n = - 1 \<or> n = - 2 then Inl EINVAL
              else if (- 1 :: size_t) < n then Inl ENOMEM
              else if \<not> alloc n then Inl ENOMEM
              else
                (case decompress src n of
                   None \<Rightarrow> Inl EINVAL
                 | Some dst \<Rightarrow> Inr dst))))"

text \<open>
  The loop of the xz loader. \<open>lzma_code s inp room finish\<close> is the answer of the decoder in state \<open>s\<close>
  to the input \<open>inp\<close> with \<open>room\<close> bytes left in the output buffer: a return code, how much of the input
  it took, what it put out, and its next state. \<open>read k pos\<close> is the \<open>k\<close>-th \<open>read\<close>, after \<open>pos\<close> bytes.
  The output buffer is flushed into \<open>p\<close> when it is full and when the decoder stops.
\<close>

datatype lzma_ret =
    LZMA_OK | LZMA_STREAM_END | LZMA_MEM_ERROR | LZMA_FORMAT_ERROR | LZMA_OPTIONS_ERROR
  | LZMA_DATA_ERROR | LZMA_BUF_ERROR | LZMA_PROG_ERROR

type_synonym 's lzma_coder = "'s \<Rightarrow> char list \<Rightarrow> nat \<Rightarrow> bool \<Rightarrow> lzma_ret \<times> nat \<times> char list \<times> 's"

abbreviation BUFSIZ :: nat where "BUFSIZ \<equiv> 8192"

definition xz_input ::
    "(nat \<Rightarrow> nat \<Rightarrow> char list result) \<Rightarrow> nat \<times> nat \<times> char list \<times> bool \<Rightarrow> (nat \<times> nat \<times> char list \<times> bool) result" where
  "xz_input read = (\<lambda>(k, pos, inp, finish).
     if inp = [] then
       (case read k pos of
          Inl e \<Rightarrow> Inl e
        | Inr bs \<Rightarrow> Inr (Suc k, pos + length bs, bs, finish \<or> bs = []))
     else Inr (k, pos, inp, finish))"

primrec xz_loop ::
    "nat \<Rightarrow> (size_t \<Rightarrow> bool) \<Rightarrow> (nat \<Rightarrow> nat \<Rightarrow> char list result) \<Rightarrow> 's lzma_coder
      \<Rightarrow> nat \<times> nat \<times> char list \<times> bool \<Rightarrow> 's \<Rightarrow> char list \<Rightarrow> char list \<Rightarrow> char list result option option" where
  "xz_loop 0 alloc read lzma_code st s out_buf p = Some None"
| "xz_loop (Suc fuel) alloc read lzma_code st s out_buf p =
     (case xz_input read st of
        Inl e \<Rightarrow> Some (Some (Inl e))
      | Inr (k, pos, inp, finish) \<Rightarrow>
          (let room = BUFSIZ - length out_buf;
               (ret, n, bs, s) = lzma_code s inp room finish;
               out_buf = out_buf @ bs in
           if length inp < n \<or> room < length bs then None
           else
             (let flush = (length out_buf = BUFSIZ \<or> ret \<noteq> LZMA_OK) in
              if flush \<and> \<not> alloc (of_nat (length p + length out_buf)) then Some (Some (Inl ENOMEM))
              else
                (let p = (if flush then p @ out_buf else p);
                     out_buf = (if flush then [] else out_buf) in
                 if ret = LZMA_STREAM_END then Some (Some (Inr p))
                 else if ret \<noteq> LZMA_OK then Some (Some (Inl EINVAL))
                 else xz_loop fuel alloc read lzma_code (k, pos, drop n inp, finish) s out_buf p))))"

definition xz_uncompress ::
    "nat \<Rightarrow> (size_t \<Rightarrow> bool) \<Rightarrow> (nat \<Rightarrow> nat \<Rightarrow> char list result) \<Rightarrow> 's lzma_coder \<Rightarrow> 's
      \<Rightarrow> char list result option option" where
  "xz_uncompress fuel alloc read lzma_code s = xz_loop fuel alloc read lzma_code (0, 0, [], False) s [] []"

text \<open>\<open>decoder\<close> is \<open>lzma_stream_decoder\<close>: its return code, and the first state of the decoder.\<close>

definition kmod_file_load_xz ::
    "nat \<Rightarrow> (size_t \<Rightarrow> bool) \<Rightarrow> bool \<Rightarrow> (nat \<Rightarrow> nat \<Rightarrow> char list result) \<Rightarrow> lzma_ret \<times> 's \<Rightarrow> 's lzma_coder
      \<Rightarrow> char list result option option" where
  "kmod_file_load_xz fuel alloc dl read decoder lzma_code =
     (if \<not> dl then Some (Some (Inl EINVAL))
      else if fst decoder = LZMA_MEM_ERROR then Some (Some (Inl ENOMEM))
      else if fst decoder \<noteq> LZMA_OK then Some (Some (Inl EINVAL))
      else xz_uncompress fuel alloc read lzma_code (snd decoder))"

section \<open>Contents\<close>

text \<open>The libraries a build may have, with their functions; \<open>file_load\<close> is the pointer \<open>file->load\<close>.\<close>

record 's comp_libs =
  cl_zlib :: bool
  cl_dup :: "errno option"
  cl_gzdopen :: "errno option"
  cl_gzread :: "nat \<Rightarrow> nat \<Rightarrow> nat \<Rightarrow> errno option + char list"
  cl_zstd :: bool
  cl_frame_size :: "char list \<Rightarrow> u64"
  cl_decompress :: "char list \<Rightarrow> u64 \<Rightarrow> char list option"
  cl_xz :: bool
  cl_read :: "nat \<Rightarrow> nat \<Rightarrow> char list result"
  cl_decoder :: "lzma_ret \<times> 's"
  cl_lzma_code :: "'s lzma_coder"

definition file_load ::
    "nat \<Rightarrow> (size_t \<Rightarrow> bool) \<Rightarrow> file_env \<Rightarrow> 's comp_libs \<Rightarrow> kmod_file_compression_type
      \<Rightarrow> char list result option option" where
  "file_load fuel alloc env libs compression =
     (case compression of
        KMOD_FILE_COMPRESSION_NONE \<Rightarrow> Some (Some (load_reg env))
      | KMOD_FILE_COMPRESSION_ZSTD \<Rightarrow>
          Some (Some (kmod_file_load_zstd alloc (cl_zstd libs) env (cl_frame_size libs) (cl_decompress libs)))
      | KMOD_FILE_COMPRESSION_XZ \<Rightarrow>
          kmod_file_load_xz fuel alloc (cl_xz libs) (cl_read libs) (cl_decoder libs) (cl_lzma_code libs)
      | KMOD_FILE_COMPRESSION_ZLIB \<Rightarrow>
          kmod_file_load_zlib fuel alloc (cl_zlib libs) (cl_dup libs) (cl_gzdopen libs) (cl_gzread libs))"

definition kmod_file_get_contents ::
    "nat \<Rightarrow> (size_t \<Rightarrow> bool) \<Rightarrow> file_env \<Rightarrow> 's comp_libs \<Rightarrow> kmod_file
      \<Rightarrow> (char list result \<times> kmod_file) option option" where
  "kmod_file_get_contents fuel alloc env libs file =
     (case kf_memory file of
        Some m \<Rightarrow> Some (Some (Inr m, file))
      | None \<Rightarrow>
          (case file_load fuel alloc env libs (kf_compression file) of
             None \<Rightarrow> None
           | Some None \<Rightarrow> Some None
           | Some (Some (Inl e)) \<Rightarrow> Some (Some (Inl e, file))
           | Some (Some (Inr m)) \<Rightarrow> Some (Some (Inr m, file\<lparr>kf_memory := Some m\<rparr>))))"

definition kmod_file_get_compression :: "kmod_file \<Rightarrow> kmod_file_compression_type" where
  "kmod_file_get_compression file = kf_compression file"

section \<open>Detection\<close>

definition compression_of :: "char list \<Rightarrow> kmod_file_compression_type" where
  "compression_of content =
     (if strstartswith content magic_zstd then KMOD_FILE_COMPRESSION_ZSTD
      else if strstartswith content magic_xz then KMOD_FILE_COMPRESSION_XZ
      else if strstartswith content magic_zlib then KMOD_FILE_COMPRESSION_ZLIB
      else KMOD_FILE_COMPRESSION_NONE)"

lemma those_map_Some [simp]: "those (map Some xs) = Some xs"
  by (induction xs) auto

lemma memcmp_eq_start:
  assumes "take n buf = map Some (take n content)" and "length bs \<le> n" and "n \<le> length content" and "n \<le> length buf"
  shows "memcmp_eq buf bs = Some (strstartswith content bs)"
proof -
  have "take (length bs) (take n buf) = map Some (take (length bs) (take n content))"
    unfolding assms(1) by (simp add: take_map)
  then have "take (length bs) buf = map Some (take (length bs) content)" using assms(2) by (simp add: min_def)
  then show ?thesis using assms by (simp add: memcmp_eq_def strstartswith_def)
qed

lemma detect_compression:
  assumes "take 6 buf = map Some (take 6 content)" and "6 \<le> length content" and "6 \<le> length buf"
  shows "detect buf comp_types c = Some (compression_of content)"
  using memcmp_eq_start [OF assms(1) _ assms(2,3)]
  by (simp add: comp_types_def compression_of_def magic_defs)

lemma pread_start:
  assumes "pread_spec content pread" and "\<And>i n off e. m \<le> i \<Longrightarrow> pread i n off = Inl e \<Longrightarrow> \<not> transient e"
    and "m + 6 < fuel"
  shows "\<exists>r. pread_str_safe fuel pread (replicate 7 None) 7 0 = Some (Some r) \<and> read_done content 7 r"
proof -
  have st: "read_state content 6 0 (replicate 7 None)" by (simp add: read_state_def)
  have sv: "serves content (\<lambda>k done todo. pread k todo (0 + done)) (length (replicate 7 (None :: char option)))"
    using assms(1) unfolding pread_spec_def serves_def by simp
  show ?thesis
    using read_loop_safe [OF st sv, of fuel 0] read_loop_ends [OF st sv, of m 0 fuel] assms(2,3)
    by (auto simp: pread_str_safe_def)
qed

lemma read_loop_error:
  "read_loop fuel call k todo done buf = Some (Some (Inl e, b)) \<Longrightarrow> \<exists>k d t. call k d t = Inl e"
proof (induction fuel arbitrary: k todo "done" buf)
  case (Suc fuel)
  show ?case
  proof (cases "call k done todo")
    case (Inl e')
    then show ?thesis using Suc by (fastforce split: if_splits)
  next
    case (Inr cs)
    then show ?thesis using Suc.prems Suc.IH
      by (cases cs) (auto simp: bind_eq_Some_conv split: if_splits dest!: Suc.IH)
  qed
qed simp

text \<open>A file that can be read: no error of \<open>pread\<close> but interrupts, and those only \<open>m\<close> times.\<close>

definition readable :: "nat \<Rightarrow> char list \<Rightarrow> file_env \<Rightarrow> bool" where
  "readable m content env \<longleftrightarrow> fe_open env = None \<and> fe_seekable env \<and> pread_spec content (fe_pread env)
     \<and> (\<forall>i n off e. fe_pread env i n off = Inl e \<longrightarrow> transient e \<and> i < m)"

section \<open>The zlib loop\<close>

definition gz_spec :: "char list \<Rightarrow> (nat \<Rightarrow> nat \<Rightarrow> nat \<Rightarrow> errno option + char list) \<Rightarrow> bool" where
  "gz_spec content gzread \<longleftrightarrow> (\<forall>k pos n cs. gzread k pos n = Inr cs \<longrightarrow>
     length cs \<le> n \<and> cs = take (length cs) (drop pos content) \<and> (cs = [] \<longrightarrow> n = 0 \<or> length content \<le> pos))"

lemma gz_loop_loads:
  assumes spec: "gz_spec content gzread"
  shows "init_upto did p \<Longrightarrow> live did p = take did content \<Longrightarrow> did \<le> length content \<Longrightarrow>
    length content - did < fuel \<Longrightarrow>
    \<exists>r. gz_loop fuel alloc gzread k did p = Some (Some r) \<and>
      (case r of Inl e \<Rightarrow> (e = ENOMEM \<and> (\<exists>n. \<not> alloc n)) \<or> (\<exists>k pos n x. gzread k pos n = Inl x \<and> e = (case x of None \<Rightarrow> EINVAL | Some y \<Rightarrow> y))
       | Inr m \<Rightarrow> m = content)"
proof (induction fuel arbitrary: k did p)
  case (Suc fuel)
  define q where "q = (if did = length p then realloc_slots (length p + READ_STEP) p else p)"
  have q: "init_upto did q" "live did q = take did content" "did < length q"
    using Suc.prems realloc_slots_live [of did p "length p + READ_STEP"]
    by (auto simp: q_def init_upto_def)
  show ?case
  proof (cases "did = length p \<and> \<not> alloc (of_nat (length p + READ_STEP))")
    case False
    then have eq: "gz_loop (Suc fuel) alloc gzread k did p =
        (case gzread k did (length q - did) of
           Inl e \<Rightarrow> Some (Some (Inl (case e of None \<Rightarrow> EINVAL | Some e \<Rightarrow> e)))
         | Inr [] \<Rightarrow> Some (Some (Inr (live did q)))
         | Inr cs \<Rightarrow> do { p \<leftarrow> memcpy_to cs did q; gz_loop fuel alloc gzread (Suc k) (did + length cs) p })"
      unfolding gz_loop.simps Let_def q_def by simp
    show ?thesis
    proof (cases "gzread k did (length q - did)")
      case (Inl x)
      then show ?thesis unfolding eq by simp blast
    next
      case (Inr cs)
      then have cs: "length cs \<le> length q - did" "cs = take (length cs) (drop did content)"
          "cs = [] \<longrightarrow> length content \<le> did"
        using spec q(3) unfolding gz_spec_def by fastforce+
      show ?thesis
      proof (cases cs)
        case Nil
        then show ?thesis unfolding eq using Inr q cs(3) by simp
      next
        case (Cons c cs')
        obtain p' where p': "memcpy_to cs did q = Some p'" "init_upto (did + length cs) p'"
            "live (did + length cs) p' = live did q @ cs"
        proof -
          have "did + length cs \<le> length q" using cs(1) q(3) by linarith
          then show thesis using memcpy_to_spec [OF q(1)] that by blast
        qed
        have len: "did + length cs \<le> length content" using arg_cong [OF cs(2), of length] Suc.prems(3) by simp
        have "live (did + length cs) p' = take (did + length cs) content" using p'(3) q(2) cs(2) by (simp add: take_add)
        moreover have "length content - (did + length cs) < fuel" using Suc.prems(4) Cons len by simp
        ultimately show ?thesis
          unfolding eq using Suc.IH [OF p'(2) _ len, of "Suc k"] p'(1) Inr Cons by simp
      qed
    qed
  qed auto
qed simp

section \<open>The xz loop\<close>

text \<open>
  What liblzma promises: \<open>rel s i o\<close> says that the decoder in state \<open>s\<close> has taken the input \<open>i\<close> and
  given the output \<open>o\<close>. It keeps within its buffers, and with \<open>LZMA_CONCATENATED\<close> it reports the end
  of the stream only once it was told that the input ends and has taken all of it.
\<close>

definition lzma_spec ::
    "(char list \<Rightarrow> char list option) \<Rightarrow> ('s \<Rightarrow> char list \<Rightarrow> char list \<Rightarrow> bool) \<Rightarrow> 's lzma_coder \<Rightarrow> bool" where
  "lzma_spec unxz rel lzma_code \<longleftrightarrow> (\<forall>s i out inp room finish ret n bs s'.
     rel s i out \<and> lzma_code s inp room finish = (ret, n, bs, s') \<longrightarrow>
       n \<le> length inp \<and> length bs \<le> room
       \<and> (ret = LZMA_OK \<longrightarrow> rel s' (i @ take n inp) (out @ bs))
       \<and> (ret = LZMA_STREAM_END \<longrightarrow> finish \<and> n = length inp \<and> unxz (i @ inp) = Some (out @ bs)))"

definition read_spec :: "char list \<Rightarrow> (nat \<Rightarrow> nat \<Rightarrow> char list result) \<Rightarrow> bool" where
  "read_spec content read \<longleftrightarrow> (\<forall>k pos bs. read k pos = Inr bs \<longrightarrow>
     bs = take (length bs) (drop pos content) \<and> (bs = [] \<longrightarrow> length content \<le> pos))"

definition xz_at :: "char list \<Rightarrow> char list \<Rightarrow> nat \<times> nat \<times> char list \<times> bool \<Rightarrow> bool" where
  "xz_at content i = (\<lambda>(k, pos, inp, finish).
     pos \<le> length content \<and> i @ inp = take pos content \<and> (finish \<longrightarrow> pos = length content))"

lemma xz_input_at:
  assumes "read_spec content read" and "xz_at content i st" and "xz_input read st = Inr st'"
  shows "xz_at content i st'"
proof -
  obtain k pos inp finish where st: "st = (k, pos, inp, finish)" by (metis prod_cases4)
  show ?thesis
  proof (cases "inp = []")
    case True
    then obtain bs where bs: "read k pos = Inr bs" "st' = (Suc k, pos + length bs, bs, finish \<or> bs = [])"
      using assms(3) st by (auto simp: xz_input_def split: sum.splits)
    then have r: "bs = take (length bs) (drop pos content)" "bs = [] \<longrightarrow> length content \<le> pos"
      using assms(1) unfolding read_spec_def by blast+
    have at: "pos \<le> length content" "i = take pos content" "finish \<longrightarrow> pos = length content"
      using assms(2) st True by (auto simp: xz_at_def)
    have len: "pos + length bs \<le> length content" using arg_cong [OF r(1), of length] at(1) by simp
    show ?thesis using at r len bs(2) by (auto simp: xz_at_def take_add)
  qed (use assms st in \<open>auto simp: xz_input_def\<close>)
qed

lemma xz_loop_sound:
  assumes spec: "lzma_spec unxz rel lzma_code" "read_spec content read"
  shows "rel s i (p @ out_buf) \<Longrightarrow> xz_at content i st \<Longrightarrow>
    \<exists>r. xz_loop fuel alloc read lzma_code st s out_buf p = Some r \<and> (\<forall>m. r = Some (Inr m) \<longrightarrow> unxz content = Some m)"
proof (induction fuel arbitrary: s i p out_buf st)
  case (Suc fuel)
  show ?case
  proof (cases "xz_input read st")
    case (Inr st')
    obtain k pos inp finish where st': "st' = (k, pos, inp, finish)" by (metis prod_cases4)
    obtain ret n bs s' where c: "lzma_code s inp (BUFSIZ - length out_buf) finish = (ret, n, bs, s')" by (metis prod_cases4)
    have at: "pos \<le> length content" "i @ inp = take pos content" "finish \<longrightarrow> pos = length content"
      using xz_input_at [OF spec(2) Suc.prems(2) Inr] st' by (auto simp: xz_at_def)
    have l: "n \<le> length inp" "length bs \<le> BUFSIZ - length out_buf"
        "ret = LZMA_OK \<Longrightarrow> rel s' (i @ take n inp) ((p @ out_buf) @ bs)"
        "ret = LZMA_STREAM_END \<Longrightarrow> finish \<and> unxz (i @ inp) = Some ((p @ out_buf) @ bs)"
      using spec(1) Suc.prems(1) c unfolding lzma_spec_def by blast+
    have "xz_at content (i @ take n inp) (k, pos, drop n inp, finish)" using at by (simp add: xz_at_def)
    note step = Suc.IH [OF _ this]
    show ?thesis
    proof (cases "ret = LZMA_OK")
      case True
      then show ?thesis
        using Inr st' c l(1,2) l(3) [OF True] step [of s' p "out_buf @ bs"] step [of s' "p @ out_buf @ bs" "[]"]
        by (simp add: Let_def)
    next
      case False
      then show ?thesis using Inr st' c l(1,2,4) at by (auto simp: Let_def)
    qed
  qed simp
qed simp

lemma xz_uncompress_sound:
  assumes "lzma_spec unxz rel lzma_code" and "read_spec content read" and "rel s [] []"
  shows "\<exists>r. xz_uncompress fuel alloc read lzma_code s = Some r \<and> (\<forall>m. r = Some (Inr m) \<longrightarrow> unxz content = Some m)"
  using xz_loop_sound [OF assms(1,2), of s "[]" "[]" "[]" "(0, 0, [], False)"] assms(3)
  by (simp add: xz_uncompress_def xz_at_def)

lemma open_readable:
  assumes "readable m content env" and "alloc 40" and "m + 6 < fuel"
  shows "kmod_file_open fuel alloc env = Some (Some
    (if length content < 6 then Inl EINVAL
     else Inr \<lparr>kf_compression = compression_of content, kf_memory = None\<rparr>))"
proof -
  note r = assms(1) [unfolded readable_def]
  have io: "fe_open env = None" "fe_seekable env" "pread_spec content (fe_pread env)" using r by auto
  obtain d buf where d: "pread_str_safe fuel (fe_pread env) (replicate 7 None) 7 0 = Some (Some (d, buf))"
      "read_done content 7 (d, buf)"
    using pread_start [OF io(3), of m fuel] r assms(3) by fastforce
  have "\<not> isl d" using d r by (cases d) (auto simp: read_done_def pread_str_safe_def dest!: read_loop_error)
  then obtain sz where sz: "d = Inr sz" by (cases d) auto
  have b: "unat sz = min (length content) 6" "take (Suc (unat sz)) buf = map Some (take 6 content @ [NUL])" "length buf = 7"
    using d(2) sz by (auto simp: read_done_def)
  have six: "sz = 6 \<longleftrightarrow> unat sz = 6" by (simp add: word_unat_eq_iff)
  show ?thesis
  proof (cases "length content < 6")
    case True
    then show ?thesis using io d(1) sz b(1) six assms(2) by (simp add: kmod_file_open_def)
  next
    case False
    then have "take 6 (take 7 buf) = take 6 (map Some (take 6 content @ [NUL]))" using b(1,2) by simp
    then have "take 6 buf = map Some (take 6 content)" using False by (simp add: min_def)
    then have "detect buf comp_types KMOD_FILE_COMPRESSION_NONE = Some (compression_of content)"
      using detect_compression False b(3) by simp
    then show ?thesis using io d(1) sz b(1) six assms(2) False by (simp add: kmod_file_open_def)
  qed
qed

section \<open>Properties\<close>

text \<open>
  Opening a readable module file ends and recognises the compression by the first bytes, however
  the reads are cut into pieces or interrupted: a file of fewer than six bytes is refused with
  \<open>EINVAL\<close>, every other gets the loader that its magic number asks for, and the plain one if it has
  none; nothing is loaded yet.
\<close>

theorem kmod_file_open_detects:
  assumes "readable m content env" and "alloc 40" and "m + 6 < fuel"
  shows "kmod_file_open fuel alloc env = Some (Some
    (if length content < 6 then Inl EINVAL
     else Inr \<lparr>kf_compression = compression_of content, kf_memory = None\<rparr>))"
  using assms by (rule open_readable)

text \<open>A gzip file of eight bytes, read a byte at a time after an interrupt.\<close>

definition gzip_env :: file_env where
  "gzip_env = \<lparr>fe_open = None, fe_seekable = True,
     fe_pread = (\<lambda>k n off. if k = 0 then Inl EINTR
       else Inr (take (min 1 (unat n)) (drop (unat off) (magic_zlib @ ''module'')))),
     fe_fstat = Inr 8, fe_mmap = (\<lambda>n. Inr (magic_zlib @ ''module''))\<rparr>"

theorem kmod_file_open_detects_witness:
  "readable 1 (magic_zlib @ ''module'') gzip_env
   \<and> kmod_file_open 8 (\<lambda>_. True) gzip_env
       = Some (Some (Inr \<lparr>kf_compression = KMOD_FILE_COMPRESSION_ZLIB, kf_memory = None\<rparr>))"
proof -
  have r: "readable 1 (magic_zlib @ ''module'') gzip_env"
    by (auto simp: readable_def gzip_env_def pread_spec_def transient_def min_def magic_defs
          word_le_nat_alt unat_eq_zero split: if_splits)
  show ?thesis using kmod_file_open_detects [OF r, of "\<lambda>_. True" 8] r
    by (simp add: compression_of_def magic_defs strstartswith_def)
qed

text \<open>
  Loading a zlib-compressed module gives the whole decompressed stream, whatever the sizes in
  which \<open>gzread\<close> delivers it: the loop ends, never writes outside its growing block, and the contents
  of the file are the stream exactly; otherwise memory ran out or zlib reported an error.
\<close>

theorem kmod_file_load_zlib_contents:
  assumes "gz_spec content gzread" and "length content < fuel"
  shows "\<exists>r. kmod_file_load_zlib fuel alloc True None None gzread = Some (Some r) \<and>
    (case r of
       Inl e \<Rightarrow> e = ENOMEM \<and> (\<exists>n. \<not> alloc n)
         \<or> (\<exists>k pos n x. gzread k pos n = Inl x \<and> e = (case x of None \<Rightarrow> EINVAL | Some y \<Rightarrow> y))
     | Inr m \<Rightarrow> m = content)"
  using gz_loop_loads [OF assms(1), of 0 "[]" fuel alloc 0] assms(2) by (simp add: kmod_file_load_zlib_def)

theorem kmod_file_load_zlib_contents_witness:
  "kmod_file_load_zlib 9 (\<lambda>_. True) True None None (\<lambda>k pos n. Inr (take (min n 3) (drop pos ''kernel.o'')))
     = Some (Some (Inr ''kernel.o''))"
proof -
  have "gz_spec ''kernel.o'' (\<lambda>k pos n. Inr (take (min n 3) (drop pos ''kernel.o'')))"
    by (auto simp: gz_spec_def min_def)
  from kmod_file_load_zlib_contents [OF this, of 9 "\<lambda>_. True"] obtain r where
    "kmod_file_load_zlib 9 (\<lambda>_. True) True None None (\<lambda>k pos n. Inr (take (min n 3) (drop pos ''kernel.o'')))
       = Some (Some r)" "case r of Inl e \<Rightarrow> False | Inr m \<Rightarrow> m = ''kernel.o''"
    by (auto cong: sum.case_cong)
  then show ?thesis by (cases r) auto
qed

end
