(* ===== verification/Kmod_Signature.thy ===== *)
theory Kmod_Signature
  imports Kmod_File Kmod_Index_Format Kmod_Elf
begin

text \<open>
  \<open>libkmod/libkmod-signature.c\<close>: the signature appended to a module file, found from its end: a magic
  string, a block of twelve bytes with three lengths, and before it the signature, the identifier of
  the key and the name of the signer. A pointer and a length into the file are the bytes they denote;
  \<open>None\<close> is a range outside the file or an index outside a table. What OpenSSL and mbed TLS make of a
  PKCS#7 message are arguments, given the bytes of the message.
\<close>

section \<open>Data\<close>

definition PKEY_ALGO__LAST :: u8 where "PKEY_ALGO__LAST = 2"
definition PKEY_HASH__LAST :: u8 where "PKEY_HASH__LAST = 9"
definition PKEY_ID_PKCS7 :: u8 where "PKEY_ID_PKCS7 = 2"
definition PKEY_ID_TYPE__LAST :: u8 where "PKEY_ID_TYPE__LAST = 3"

lemmas pkey_defs = PKEY_ALGO__LAST_def PKEY_HASH__LAST_def PKEY_ID_PKCS7_def PKEY_ID_TYPE__LAST_def

definition pkey_hash_algo :: "string list" where
  "pkey_hash_algo =
     [''md4'', ''md5'', ''sha1'', ''rmd160'', ''sha256'', ''sha384'', ''sha512'', ''sha224'', ''sm3'']"

definition pkey_id_type :: "string list" where
  "pkey_id_type = [''PGP'', ''X509'', ''PKCS#7'']"

record module_signature =
  ms_algo :: u8
  ms_hash :: u8
  ms_id_type :: u8
  ms_signer_len :: u8
  ms_key_id_len :: u8
  ms_sig_len :: u32

record kmod_signature_info =
  si_signer :: bytes
  si_key_id :: bytes
  si_hash_algo :: string
  si_id_type :: string
  si_sig :: bytes

definition SIG_MAGIC :: string where
  "SIG_MAGIC = ''~Module signature appended~'' @ [CHR 0x0A]"

section \<open>Reading a signature\<close>

text \<open>The \<open>len\<close> bytes at \<open>mem + off\<close>.\<close>

definition mem_range :: "bytes \<Rightarrow> int \<Rightarrow> nat \<Rightarrow> bytes option" where
  "mem_range mem off len =
     (if 0 \<le> off \<and> off + int len \<le> int (length mem) then Some (take len (drop (nat off) mem)) else None)"

definition modsig_of :: "bytes \<Rightarrow> module_signature" where
  "modsig_of bs =
     \<lparr>ms_algo = of_char (bs ! 0), ms_hash = of_char (bs ! 1), ms_id_type = of_char (bs ! 2),
      ms_signer_len = of_char (bs ! 3), ms_key_id_len = of_char (bs ! 4), ms_sig_len = dec32 (drop 8 bs)\<rparr>"

text \<open>\<open>struct kmod_signature_info\<close> has 64 bytes.\<close>

definition fill_default ::
    "(size_t \<Rightarrow> bool) \<Rightarrow> bytes \<Rightarrow> int \<Rightarrow> module_signature \<Rightarrow> nat \<Rightarrow> kmod_signature_info option option" where
  "fill_default alloc mem sz modsig sig_len =
     (if \<not> alloc 64 then Some None
      else
        do { let sz = sz - int sig_len;
             sg \<leftarrow> mem_range mem sz sig_len;
             let sz = sz - int (unat (ms_key_id_len modsig));
             key_id \<leftarrow> mem_range mem sz (unat (ms_key_id_len modsig));
             let sz = sz - int (unat (ms_signer_len modsig));
             signer \<leftarrow> mem_range mem sz (unat (ms_signer_len modsig));
             hash_algo \<leftarrow> nth_opt pkey_hash_algo (unat (ms_hash modsig));
             Some (Some \<lparr>si_signer = signer, si_key_id = key_id, si_hash_algo = hash_algo, si_id_type = [],
                         si_sig = sg\<rparr>) })"

definition kmod_fill_pkcs7_dummy :: "(size_t \<Rightarrow> bool) \<Rightarrow> kmod_signature_info option" where
  "kmod_fill_pkcs7_dummy alloc =
     (if \<not> alloc 64 then None
      else Some \<lparr>si_signer = [], si_key_id = [], si_hash_algo = ''unknown'', si_id_type = [], si_sig = []\<rparr>)"

definition fill_signature ::
    "(size_t \<Rightarrow> bool) \<Rightarrow> (bytes \<Rightarrow> kmod_signature_info option) \<Rightarrow> (bytes \<Rightarrow> kmod_signature_info option)
      \<Rightarrow> bytes \<Rightarrow> int \<Rightarrow> module_signature \<Rightarrow> nat \<Rightarrow> kmod_signature_info option option" where
  "fill_signature alloc openssl mbedtls mem sz modsig sig_len =
     (if ms_id_type modsig = PKEY_ID_PKCS7 then
        do { raw \<leftarrow> mem_range mem (sz - int sig_len) sig_len;
             Some (case openssl raw of
                     Some info \<Rightarrow> Some info
                   | None \<Rightarrow> (case mbedtls raw of
                               Some info \<Rightarrow> Some info
                             | None \<Rightarrow> kmod_fill_pkcs7_dummy alloc)) }
      else fill_default alloc mem sz modsig sig_len)"

definition kmod_module_signature_info ::
    "(size_t \<Rightarrow> bool) \<Rightarrow> (bytes \<Rightarrow> kmod_signature_info option) \<Rightarrow> (bytes \<Rightarrow> kmod_signature_info option)
      \<Rightarrow> bytes result \<Rightarrow> kmod_signature_info option option" where
  "kmod_module_signature_info alloc openssl mbedtls contents =
     (case contents of
        Inl e \<Rightarrow> Some None
      | Inr mem \<Rightarrow>
          (let sz = int (length mem) in
           if sz < int (length SIG_MAGIC) then Some None
           else
             do { let sz = sz - int (length SIG_MAGIC);
                  magic \<leftarrow> strncmp_at (drop (nat sz) mem) SIG_MAGIC;
                  if \<not> magic \<or> sz < 12 then Some None
                  else
                    do { let sz = sz - 12;
                         block \<leftarrow> mem_range mem sz 12;
                         let modsig = modsig_of block;
                         let sig_len = unat (ms_sig_len modsig);
                         if PKEY_ALGO__LAST \<le> ms_algo modsig \<or> PKEY_HASH__LAST \<le> ms_hash modsig
                            \<or> PKEY_ID_TYPE__LAST \<le> ms_id_type modsig then Some None
                         else if sig_len = 0
                                 \<or> sz < int sig_len + int (unat (ms_signer_len modsig)) + int (unat (ms_key_id_len modsig))
                         then Some None
                         else
                           do { info \<leftarrow> fill_signature alloc openssl mbedtls mem sz modsig sig_len;
                                case info of
                                  None \<Rightarrow> Some None
                                | Some info \<Rightarrow>
                                    do { id_type \<leftarrow> nth_opt pkey_id_type (unat (ms_id_type modsig));
                                         Some (Some (info\<lparr>si_id_type := id_type\<rparr>)) } } } }))"

section \<open>The layout of a signed module\<close>

text \<open>As the comment before \<open>kmod_module_signature_info\<close> draws it.\<close>

definition signature_block :: "nat \<Rightarrow> nat \<Rightarrow> nat \<Rightarrow> nat \<Rightarrow> nat \<Rightarrow> bytes \<Rightarrow> nat \<Rightarrow> bytes" where
  "signature_block algo hash id_type signer_len key_id_len pad sig_len =
     map char_of [algo, hash, id_type, signer_len, key_id_len] @ pad @ enc32 (of_nat sig_len)"

definition signed_module :: "bytes \<Rightarrow> bytes \<Rightarrow> bytes \<Rightarrow> bytes \<Rightarrow> nat \<Rightarrow> nat \<Rightarrow> nat \<Rightarrow> bytes \<Rightarrow> bytes" where
  "signed_module body signer key_id sg algo hash id_type pad =
     body @ signer @ key_id @ sg
       @ signature_block algo hash id_type (length signer) (length key_id) pad (length sg) @ SIG_MAGIC"

definition signable :: "bytes \<Rightarrow> bytes \<Rightarrow> bytes \<Rightarrow> nat \<Rightarrow> nat \<Rightarrow> nat \<Rightarrow> bytes \<Rightarrow> bool" where
  "signable signer key_id sg algo hash id_type pad \<longleftrightarrow>
     length signer < 256 \<and> length key_id < 256 \<and> 0 < length sg \<and> length sg < 2 ^ 32
     \<and> algo < 2 \<and> hash < 9 \<and> id_type < 3 \<and> length pad = 3"

lemma four_digits:
  fixes a b c d :: nat
  assumes "a < 256" "b < 256" "c < 256" "d < 256"
  defines "n \<equiv> 256 * (256 * (256 * a + b) + c) + d"
  shows "n < 4294967296" "n div 16777216 = a" "n div 65536 = 256 * a + b" "n div 256 = 256 * (256 * a + b) + c"
  using assms by (auto simp: n_def)

lemma char_of_digit: "char_of (256 * k + code x) = x"
  using char_of_mod_256 [of "256 * k + code x"] by simp

lemma enc32_dec32:
  assumes "length bs = 4"
  shows "enc32 (dec32 bs) = bs"
proof -
  obtain a b c d where bs: "bs = [a, b, c, d]"
    using assms by (auto simp: numeral_eq_Suc length_Suc_conv)
  define n where "n = 256 * (256 * (256 * code a + code b) + code c) + code d"
  note n = four_digits [OF code_less_256 [of a] code_less_256 [of b] code_less_256 [of c] code_less_256 [of d],
    folded n_def]
  have "dec32 bs = of_nat n" using bs by (simp add: dec32_def n_def)
  then have "unat (dec32 bs) = n" using n(1) by (simp add: unat_of_nat take_bit_nat_eq_self)
  moreover have "char_of n = d" "char_of (n div 256) = c" unfolding n(4) unfolding n_def by (rule char_of_digit)+
  ultimately show ?thesis using bs n(2-) by (simp add: enc32_def char_of_digit)
qed

lemma modsig_of_block:
  assumes "signable signer key_id sg algo hash id_type pad"
  shows "modsig_of (signature_block algo hash id_type (length signer) (length key_id) pad (length sg))
    = \<lparr>ms_algo = of_nat algo, ms_hash = of_nat hash, ms_id_type = of_nat id_type,
       ms_signer_len = of_nat (length signer), ms_key_id_len = of_nat (length key_id), ms_sig_len = of_nat (length sg)\<rparr>"
proof -
  have c: "(of_char (char_of n) :: u8) = of_nat n" if "n < 256" for n :: nat
    using that by (simp add: word_unat_eq_iff unat_of_nat)
  show ?thesis using assms c by (simp add: modsig_of_def signature_block_def signable_def)
qed

lemma block_of_modsig:
  assumes "length bs = 12"
  shows "bs = signature_block (unat (ms_algo (modsig_of bs))) (unat (ms_hash (modsig_of bs))) (unat (ms_id_type (modsig_of bs)))
    (unat (ms_signer_len (modsig_of bs))) (unat (ms_key_id_len (modsig_of bs))) (take 3 (drop 5 bs))
    (unat (ms_sig_len (modsig_of bs)))"
proof -
  obtain a b c d e xs where bs: "bs = a # b # c # d # e # xs" "length xs = 7"
    using assms by (auto simp: numeral_eq_Suc length_Suc_conv)
  have "enc32 (dec32 (drop 3 xs)) = drop 3 xs" using bs(2) by (intro enc32_dec32) simp
  then show ?thesis using bs by (simp add: modsig_of_def signature_block_def)
qed

text \<open>The parser on a file that ends with twelve bytes and the magic string.\<close>

lemma mem_range_mid: "off = int (length xs) \<Longrightarrow> len = length ys \<Longrightarrow> mem_range (xs @ ys @ zs) off len = Some ys"
  by (simp add: mem_range_def)

lemma length_SIG_MAGIC: "length SIG_MAGIC = 28"
  by (simp add: SIG_MAGIC_def)

lemma signature_info_split:
  assumes "length block = 12"
  defines "ms \<equiv> modsig_of block"
  shows "kmod_module_signature_info alloc openssl mbedtls (Inr (front @ block @ SIG_MAGIC)) =
    (if 2 \<le> ms_algo ms \<or> 9 \<le> ms_hash ms \<or> 3 \<le> ms_id_type ms \<or> ms_sig_len ms = 0
        \<or> length front < unat (ms_sig_len ms) + unat (ms_signer_len ms) + unat (ms_key_id_len ms) then Some None
     else
       do { info \<leftarrow> fill_signature alloc openssl mbedtls (front @ block @ SIG_MAGIC) (int (length front)) ms (unat (ms_sig_len ms));
            case info of
              None \<Rightarrow> Some None
            | Some info \<Rightarrow>
                do { id_type \<leftarrow> nth_opt pkey_id_type (unat (ms_id_type ms)); Some (Some (info\<lparr>si_id_type := id_type\<rparr>)) } })"
proof -
  have "strncmp_at (drop (nat (int (length front) + 12)) (front @ block @ SIG_MAGIC)) SIG_MAGIC = Some True"
    using assms(1) by (simp add: nat_add_distrib strncmp_at_long)
  moreover have "mem_range (front @ block @ SIG_MAGIC) (int (length front)) 12 = Some block"
    using assms(1) by (intro mem_range_mid) auto
  moreover have "unat w = 0 \<longleftrightarrow> w = 0" for w :: u32 by (simp add: unat_eq_zero)
  moreover have "int a < uint v + uint w + uint x \<longleftrightarrow> a < unat v + unat w + unat x" for a and v :: u32 and w x :: u8
    unfolding uint_nat by linarith
  ultimately show ?thesis
    using assms(1) by (simp add: kmod_module_signature_info_def length_SIG_MAGIC pkey_defs ms_def Let_def)
qed

lemma signature_info_needs_layout:
  assumes "kmod_module_signature_info alloc openssl mbedtls (Inr mem) \<noteq> Some None"
  obtains front block where "mem = front @ block @ SIG_MAGIC" and "length block = 12"
proof
  let ?n = "length mem - 28"
  have l: "28 \<le> length mem"
  proof (rule ccontr)
    assume "\<not> 28 \<le> length mem"
    then show False using assms by (simp add: kmod_module_signature_info_def length_SIG_MAGIC)
  qed
  then have cmp: "strncmp_at (drop ?n mem) SIG_MAGIC = Some (drop ?n mem = SIG_MAGIC)"
    by (simp add: strncmp_at_long length_SIG_MAGIC)
  have nat: "nat (int (length mem) - 28) = ?n" using l by simp
  have magic: "drop ?n mem = SIG_MAGIC" and len: "40 \<le> length mem"
    using assms l cmp nat
    by (auto simp: kmod_module_signature_info_def length_SIG_MAGIC Let_def split: if_splits)
  then have "take ?n mem @ SIG_MAGIC = mem" by (metis append_take_drop_id)
  moreover have "take (?n - 12) mem @ take 12 (drop (?n - 12) mem) = take ?n mem"
    using len by (simp flip: take_add)
  ultimately show "mem = take (?n - 12) mem @ take 12 (drop (?n - 12) mem) @ SIG_MAGIC" by (metis append_assoc)
  show "length (take 12 (drop (?n - 12) mem)) = 12" using len by simp
qed

lemma fill_default_ranges:
  assumes "unat (ms_signer_len ms) = length signer" and "unat (ms_key_id_len ms) = length key_id"
    and "unat (ms_hash ms) < 9" and "n = length sg" and "alloc 64"
  shows "fill_default alloc (body @ signer @ key_id @ sg @ rest) (int (length (body @ signer @ key_id @ sg))) ms n
    = Some (Some \<lparr>si_signer = signer, si_key_id = key_id, si_hash_algo = pkey_hash_algo ! unat (ms_hash ms),
                  si_id_type = [], si_sig = sg\<rparr>)"
proof -
  have "mem_range (body @ signer @ key_id @ sg @ rest) (int (length (body @ signer @ key_id))) (length sg) = Some sg"
    using mem_range_mid [of _ "body @ signer @ key_id" _ sg rest] by simp
  moreover have "mem_range (body @ signer @ key_id @ sg @ rest) (int (length (body @ signer))) (length key_id) = Some key_id"
    using mem_range_mid [of _ "body @ signer" _ key_id "sg @ rest"] by simp
  moreover have "mem_range (body @ signer @ key_id @ sg @ rest) (int (length body)) (length signer) = Some signer"
    by (simp add: mem_range_mid)
  ultimately show ?thesis using assms by (simp add: fill_default_def nth_opt_def pkey_hash_algo_def)
qed

lemma fill_signature_ranges:
  assumes "length signer = unat (ms_signer_len ms)" and "length key_id = unat (ms_key_id_len ms)"
    and "length sg = unat (ms_sig_len ms)" and "unat (ms_hash ms) < 9"
  shows "\<exists>i. fill_signature alloc openssl mbedtls (body @ signer @ key_id @ sg @ rest) (int (length (body @ signer @ key_id @ sg)))
        ms (unat (ms_sig_len ms)) = Some i
      \<and> (\<forall>info. i = Some info \<and> ms_id_type ms \<noteq> 2 \<longrightarrow> si_signer info = signer \<and> si_key_id info = key_id \<and> si_sig info = sg
              \<and> si_hash_algo info = pkey_hash_algo ! unat (ms_hash ms))"
proof -
  have "mem_range (body @ signer @ key_id @ sg @ rest) (int (length (body @ signer @ key_id))) (unat (ms_sig_len ms)) = Some sg"
    using mem_range_mid [of _ "body @ signer @ key_id" _ sg rest] assms(3) by simp
  then show ?thesis
    using fill_default_ranges [OF assms(1,2) [symmetric] assms(4) assms(3) [symmetric], of alloc body rest] assms
    by (cases "alloc 64") (simp_all add: fill_signature_def fill_default_def PKEY_ID_PKCS7_def)
qed

lemma split_front:
  assumes "a + b + c \<le> length (front :: 'a list)"
  obtains body x y z where "front = body @ x @ y @ z" "length x = a" "length y = b" "length z = c"
proof -
  let ?k = "length front - (a + b + c)"
  have "front = take ?k front @ take a (drop ?k front) @ take b (drop (?k + a) front) @ drop (?k + a + b) front"
    by (metis append.assoc append_take_drop_id take_add)
  then show thesis by (rule that) (use assms in auto)
qed

text \<open>The parser gets back what was signed.\<close>

lemma signature_info_signed:
  assumes "signable signer key_id sg algo hash id_type pad" and "id_type \<noteq> 2" and "alloc 64"
  shows "kmod_module_signature_info alloc openssl mbedtls (Inr (signed_module body signer key_id sg algo hash id_type pad))
    = Some (Some \<lparr>si_signer = signer, si_key_id = key_id, si_hash_algo = pkey_hash_algo ! hash,
                  si_id_type = pkey_id_type ! id_type, si_sig = sg\<rparr>)"
proof -
  let ?b = "signature_block algo hash id_type (length signer) (length key_id) pad (length sg)"
  have lens: "algo < 2" "hash < 9" "id_type < 3" "length signer < 256" "length key_id < 256"
      "0 < length sg" "length sg < 2 ^ 32" "length pad = 3"
    using assms(1) by (auto simp: signable_def)
  then have un: "unat (of_nat algo :: u8) = algo" "unat (of_nat hash :: u8) = hash" "unat (of_nat id_type :: u8) = id_type"
      "unat (of_nat (length signer) :: u8) = length signer" "unat (of_nat (length key_id) :: u8) = length key_id"
      "unat (of_nat (length sg) :: u32) = length sg"
    by (simp_all add: unat_of_nat take_bit_nat_eq_self)
  have g: "\<not> 2 \<le> (of_nat algo :: u8)" "\<not> 9 \<le> (of_nat hash :: u8)" "\<not> 3 \<le> (of_nat id_type :: u8)"
      "(of_nat (length sg) :: u32) \<noteq> 0" "(of_nat id_type :: u8) \<noteq> 2"
    using lens un assms(2) by (simp_all add: word_le_nat_alt word_unat_eq_iff)
  have "length ?b = 12" using lens by (simp add: signature_block_def)
  note split = signature_info_split [OF this, unfolded modsig_of_block [OF assms(1)], of alloc openssl mbedtls "body @ signer @ key_id @ sg"]
  have id: "nth_opt pkey_id_type id_type = Some (pkey_id_type ! id_type)" using lens by (simp add: nth_opt_def pkey_id_type_def)
  show ?thesis
    using split g un id lens assms(3)
      fill_default_ranges [of "modsig_of ?b" signer key_id "length sg" sg alloc body "?b @ SIG_MAGIC",
        unfolded modsig_of_block [OF assms(1)]]
    by (simp add: signed_module_def fill_signature_def pkey_defs)
qed

section \<open>Properties\<close>

text \<open>
  Round trip: from a module signed in the documented layout, with a name of the signer and a key
  identifier of at most 255 bytes and a signature that is not empty, the reader gets back exactly
  these parts, the name of the hash algorithm and the kind of the key.
\<close>

theorem signature_roundtrip:
  assumes "signable signer key_id sg algo hash id_type pad" and "id_type \<noteq> 2" and "alloc 64"
  shows "kmod_module_signature_info alloc openssl mbedtls (Inr (signed_module body signer key_id sg algo hash id_type pad))
    = Some (Some \<lparr>si_signer = signer, si_key_id = key_id, si_hash_algo = pkey_hash_algo ! hash,
                  si_id_type = pkey_id_type ! id_type, si_sig = sg\<rparr>)"
  using assms by (rule signature_info_signed)

theorem signature_roundtrip_witness:
  "kmod_module_signature_info (\<lambda>_. True) (\<lambda>_. None) (\<lambda>_. None)
     (Inr (signed_module ''ELF'' ''kernel key'' [CHR 0x01, CHR 0x00] ''sig'' 1 4 1 [NUL, NUL, NUL]))
   = Some (Some \<lparr>si_signer = ''kernel key'', si_key_id = [CHR 0x01, CHR 0x00], si_hash_algo = ''sha256'',
                 si_id_type = ''X509'', si_sig = ''sig''\<rparr>)"
  using signature_roundtrip [of "''kernel key''" "[CHR 0x01, CHR 0x00]" "''sig''" 1 4 1 "[NUL, NUL, NUL]"
      "\<lambda>_. True" "\<lambda>_. None" "\<lambda>_. None" "''ELF''"]
  by (simp add: signable_def pkey_hash_algo_def pkey_id_type_def)

text \<open>
  C10. The reader of signatures is safe on every file, however damaged: it reads no byte outside the
  file and no entry outside its tables, and it accepts only files of the documented layout, whose
  parts it then returns (for a PKCS#7 message, what the cryptographic library says).
\<close>

theorem signature_accepts_layout:
  "\<exists>r. kmod_module_signature_info alloc openssl mbedtls (Inr mem) = Some r \<and>
    (\<forall>info. r = Some info \<longrightarrow>
      (\<exists>body signer key_id sg algo hash id_type pad.
         signable signer key_id sg algo hash id_type pad
         \<and> mem = signed_module body signer key_id sg algo hash id_type pad
         \<and> si_id_type info = pkey_id_type ! id_type
         \<and> (id_type \<noteq> 2 \<longrightarrow> si_signer info = signer \<and> si_key_id info = key_id \<and> si_sig info = sg
              \<and> si_hash_algo info = pkey_hash_algo ! hash)))"
proof (cases "kmod_module_signature_info alloc openssl mbedtls (Inr mem) = Some None")
  case False
  then obtain front block where mem: "mem = front @ block @ SIG_MAGIC" "length block = 12"
    using signature_info_needs_layout by blast
  let ?m = "modsig_of block"
  note split = signature_info_split [OF mem(2), of alloc openssl mbedtls front]
  from False have ok: "\<not> 2 \<le> ms_algo ?m" "\<not> 9 \<le> ms_hash ?m" "\<not> 3 \<le> ms_id_type ?m" "ms_sig_len ?m \<noteq> 0"
      "unat (ms_signer_len ?m) + unat (ms_key_id_len ?m) + unat (ms_sig_len ?m) \<le> length front"
    unfolding mem(1) split by (auto split: if_splits)
  then obtain body signer key_id sg where front: "front = body @ signer @ key_id @ sg"
      "length signer = unat (ms_signer_len ?m)" "length key_id = unat (ms_key_id_len ?m)" "length sg = unat (ms_sig_len ?m)"
    using split_front by metis
  have block: "block = signature_block (unat (ms_algo ?m)) (unat (ms_hash ?m)) (unat (ms_id_type ?m))
      (length signer) (length key_id) (take 3 (drop 5 block)) (length sg)"
    unfolding front using block_of_modsig [OF mem(2)] .
  have small: "unat (ms_algo ?m) < 2" "unat (ms_hash ?m) < 9" "unat (ms_id_type ?m) < 3" "0 < unat (ms_sig_len ?m)"
    using ok by (auto simp: word_le_nat_alt unat_gt_0)
  have sig: "signable signer key_id sg (unat (ms_algo ?m)) (unat (ms_hash ?m)) (unat (ms_id_type ?m)) (take 3 (drop 5 block))"
    using small front mem(2) unat_lt_32 [of "ms_sig_len ?m"] unsigned_less [of "ms_signer_len ?m"]
      unsigned_less [of "ms_key_id_len ?m"] by (simp add: signable_def)
  have id: "nth_opt pkey_id_type (unat (ms_id_type ?m)) = Some (pkey_id_type ! unat (ms_id_type ?m))"
    using small by (simp add: nth_opt_def pkey_id_type_def)
  have mem': "mem = signed_module body signer key_id sg (unat (ms_algo ?m)) (unat (ms_hash ?m)) (unat (ms_id_type ?m)) (take 3 (drop 5 block))"
    unfolding signed_module_def block [symmetric] using mem(1) front(1) by simp
  have ne: "unat (ms_id_type ?m) \<noteq> 2 \<longleftrightarrow> ms_id_type ?m \<noteq> 2" by (simp add: word_unat_eq_iff)
  obtain i where i: "fill_signature alloc openssl mbedtls mem (int (length front)) ?m (unat (ms_sig_len ?m)) = Some i"
      "\<And>info. i = Some info \<Longrightarrow> ms_id_type ?m \<noteq> 2 \<Longrightarrow> si_signer info = signer \<and> si_key_id info = key_id \<and> si_sig info = sg
              \<and> si_hash_algo info = pkey_hash_algo ! unat (ms_hash ?m)"
    using fill_signature_ranges [OF front(2-4), of alloc openssl mbedtls body "block @ SIG_MAGIC"] small(2)
    unfolding mem(1) front(1) by auto
  have r: "kmod_module_signature_info alloc openssl mbedtls (Inr mem)
      = Some (map_option (\<lambda>x. x\<lparr>si_id_type := pkey_id_type ! unat (ms_id_type ?m)\<rparr>) i)"
    using split ok i(1) id unfolding mem(1) by (cases i) (auto simp: add.commute add.left_commute)
  show ?thesis unfolding r using sig mem' i(2) ne by (cases i) fastforce+
qed simp

text \<open>A file of 46 bytes: two of the module, no signer, no key, a signature of four bytes.\<close>

definition small_signed :: bytes where
  "small_signed = ''ko'' @ ''sign'' @ map char_of [1 :: nat, 6, 0, 0, 0, 0, 0, 0, 0, 0, 0, 4] @ SIG_MAGIC"

lemma small_signed_info:
  "kmod_module_signature_info (\<lambda>_. True) (\<lambda>_. None) (\<lambda>_. None) (Inr small_signed)
   = Some (Some \<lparr>si_signer = [], si_key_id = [], si_hash_algo = ''sha512'', si_id_type = ''PGP'', si_sig = ''sign''\<rparr>)"
  by code_simp

theorem signature_accepts_layout_witness:
  "\<exists>body signer key_id sg algo hash id_type pad. signable signer key_id sg algo hash id_type pad
     \<and> small_signed = signed_module body signer key_id sg algo hash id_type pad \<and> ''PGP'' = pkey_id_type ! id_type"
  using signature_accepts_layout [of "\<lambda>_. True" "\<lambda>_. None" "\<lambda>_. None" small_signed]
  unfolding small_signed_info by force

end
