(* ===== verification/Kmod_Builtin.thy ===== *)
theory Kmod_Builtin
  imports Kmod_Index_File Kmod_Util
begin

text \<open>
  \<open>libkmod/libkmod-builtin.c\<close>: the information about the modules linked into the kernel, kept in
  \<open>modules.builtin.modinfo\<close> as strings \<open>module.key=value\<close> that end with NUL. The strings of a module
  are collected in a \<open>strbuf\<close>, which then becomes a vector of pointers followed by the strings. The
  stream is the contents of the file with a position; \<open>fail k\<close> is the error of the \<open>k\<close>-th \<open>getdelim\<close>,
  if it has one. A pointer of the vector is the string it points to.
\<close>

section \<open>Operations\<close>

definition MODULES_BUILTIN_MODINFO :: string where
  "MODULES_BUILTIN_MODINFO = ''modules.builtin.modinfo''"

text \<open>The stream it opens; \<open>fopen\<close> is the contents of a file, or the error.\<close>

definition kmod_builtin_info_init :: "(string \<Rightarrow> char list result) \<Rightarrow> string \<Rightarrow> char list result" where
  "kmod_builtin_info_init fopen dirname =
     (if PATH_MAX \<le> length dirname + 1 + length MODULES_BUILTIN_MODINFO + 1 then Inl ENAMETOOLONG
      else fopen (dirname @ ''/'' @ MODULES_BUILTIN_MODINFO))"

abbreviation INTPTR_MAX :: nat where "INTPTR_MAX \<equiv> 9223372036854775807"

function get_strings ::
    "(size_t \<Rightarrow> bool) \<Rightarrow> (nat \<Rightarrow> errno option) \<Rightarrow> char list \<Rightarrow> string \<Rightarrow> nat \<Rightarrow> nat \<Rightarrow> nat \<Rightarrow> strbuf
      \<Rightarrow> (nat result \<times> strbuf) option" where
  "get_strings alloc fail fp modname k p count buf =
     (if INTPTR_MAX \<le> count then Some (Inl ENOMEM, buf)
      else
        (case fail k of
           Some e \<Rightarrow> Some (Inl e, buf)
         | None \<Rightarrow>
             (case getdelim fp p of
                None \<Rightarrow> Some (Inr count, buf)
              | Some (ln, p') \<Rightarrow>
                  if CHR ''.'' \<notin> set ln then Some (Inl EINVAL, buf)
                  else if take (length modname) ln \<noteq> modname \<or> char_at ln (length modname) \<noteq> CHR ''.'' then
                    (if count = 0 then get_strings alloc fail fp modname (Suc k) p' count buf
                     else Some (Inr count, buf))
                  else
                    (case strbuf_pushchars alloc buf (tl (dropWhile (\<lambda>c. c \<noteq> CHR ''.'') ln)) of
                       None \<Rightarrow> None
                     | Some (n, buf) \<Rightarrow>
                         if n = 0 then Some (Inl ENOMEM, buf)
                         else
                           (case strbuf_pushchar alloc buf NUL of
                              None \<Rightarrow> None
                            | Some (ok, buf) \<Rightarrow>
                                if \<not> ok then Some (Inl ENOMEM, buf)
                                else get_strings alloc fail fp modname (Suc k) p' (Suc count) buf)))))"
  by pat_completeness auto
termination
  by (relation "measure (\<lambda>(alloc, fail, fp, modname, k, p, count, buf). length fp - p)")
    (auto simp: getdelim_def Let_def split: if_splits)

declare get_strings.simps [simp del]

primrec vector_strings :: "nat \<Rightarrow> char list \<Rightarrow> nat \<Rightarrow> string list option" where
  "vector_strings 0 m p = Some []"
| "vector_strings (Suc n) m p =
     do { s \<leftarrow> cstr_at m p; rest \<leftarrow> vector_strings n m (p + length s + 1); Some (s # rest) }"

definition strbuf_to_vector :: "(size_t \<Rightarrow> bool) \<Rightarrow> strbuf \<Rightarrow> nat \<Rightarrow> string list option option" where
  "strbuf_to_vector alloc buf count =
     (let (n, ov1) = uadd_overflow (of_nat count :: size_t) 1;
          (vec_size, ov2) = umul_overflow 8 n;
          (total_size, ov3) = uadd_overflow (sb_used buf) vec_size in
      if ov1 \<or> ov2 \<or> ov3 \<or> \<not> alloc total_size then Some None
      else map_option Some (vector_strings count (sb_text buf) 0))"

definition kmod_builtin_get_modinfo ::
    "(size_t \<Rightarrow> bool) \<Rightarrow> (nat \<Rightarrow> errno option) \<Rightarrow> (string \<Rightarrow> char list result) \<Rightarrow> string \<Rightarrow> string
      \<Rightarrow> string list result option" where
  "kmod_builtin_get_modinfo alloc fail fopen dirname modname =
     (case kmod_builtin_info_init fopen dirname of
        Inl e \<Rightarrow> Some (Inl e)
      | Inr fp \<Rightarrow>
          do { (count, buf) \<leftarrow> get_strings alloc fail fp modname 0 0 0 strbuf_init;
               case count of
                 Inl e \<Rightarrow> Some (Inl e)
               | Inr count \<Rightarrow>
                   if count = 0 then Some (Inr [])
                   else
                     do { modinfo \<leftarrow> strbuf_to_vector alloc buf count;
                          Some (case modinfo of None \<Rightarrow> Inl ENOMEM | Some v \<Rightarrow> Inr v) } })"

section \<open>The file and its blocks\<close>

type_synonym modinfo_entry = "string \<times> string"

definition entry_line :: "modinfo_entry \<Rightarrow> string" where
  "entry_line e = fst e @ ''.'' @ snd e"

definition modinfo_file :: "modinfo_entry list \<Rightarrow> char list" where
  "modinfo_file es = concat (map (\<lambda>e. entry_line e @ [NUL]) es)"

definition entry_ok :: "modinfo_entry \<Rightarrow> bool" where
  "entry_ok e \<longleftrightarrow> CHR ''.'' \<notin> set (fst e) \<and> nul_free (fst e) \<and> nul_free (snd e) \<and> snd e \<noteq> []"

definition block_of :: "string \<Rightarrow> modinfo_entry list \<Rightarrow> modinfo_entry list" where
  "block_of modname es = takeWhile (\<lambda>e. fst e = modname) (dropWhile (\<lambda>e. fst e \<noteq> modname) es)"

lemma getdelim_line:
  assumes "nul_free s"
  shows "getdelim (pre @ (s @ [NUL]) @ post) (length pre) = Some (s, length (pre @ s @ [NUL]))"
  using assms by (simp add: getdelim_def Let_def takeWhile_append)

lemma entry_matches:
  assumes "entry_ok e" and "CHR ''.'' \<notin> set modname"
  shows "take (length modname) (entry_line e) = modname \<and> char_at (entry_line e) (length modname) = CHR ''.''
    \<longleftrightarrow> fst e = modname"
proof (rule iffI)
  assume m: "take (length modname) (entry_line e) = modname \<and> char_at (entry_line e) (length modname) = CHR ''.''"
  then have l: "length modname < length (entry_line e)" and dot: "entry_line e ! length modname = CHR ''.''"
    by (auto simp: char_at_def split: if_splits)
  have nth: "entry_line e ! i = modname ! i" if "i < length modname" for i
    using m that by (metis nth_take)
  have at: "entry_line e ! length (fst e) = CHR ''.''" "\<And>i. i < length (fst e) \<Longrightarrow> entry_line e ! i = fst e ! i"
    by (auto simp: entry_line_def nth_append)
  have "\<not> length (fst e) < length modname" using nth at(1) assms(2) by (metis nth_mem)
  moreover have "\<not> length modname < length (fst e)"
    using at(2) dot assms(1) unfolding entry_ok_def by (metis nth_mem)
  ultimately have "length (fst e) = length modname" by simp
  then show "fst e = modname" using m by (simp add: entry_line_def)
qed (simp add: entry_line_def char_at_def nth_append)

lemma entry_text: "entry_ok e \<Longrightarrow> tl (dropWhile (\<lambda>c. c \<noteq> CHR ''.'') (entry_line e)) = snd e"
  by (auto simp: entry_ok_def entry_line_def dropWhile_append)

lemma nul_free_line: "entry_ok e \<Longrightarrow> nul_free (entry_line e)"
  by (simp add: entry_ok_def entry_line_def)

text \<open>What is still to be collected after \<open>count\<close> strings: the first match has to come, or the last one came.\<close>

definition to_come :: "string \<Rightarrow> nat \<Rightarrow> modinfo_entry list \<Rightarrow> modinfo_entry list" where
  "to_come modname count es = (if count = 0 then block_of modname es else takeWhile (\<lambda>e. fst e = modname) es)"

lemma to_come_simps:
  "to_come modname count [] = []"
  "fst e = modname \<Longrightarrow> to_come modname count (e # es) = e # to_come modname (Suc count) es"
  "fst e \<noteq> modname \<Longrightarrow> to_come modname 0 (e # es) = to_come modname 0 es"
  "fst e \<noteq> modname \<Longrightarrow> 0 < count \<Longrightarrow> to_come modname count (e # es) = []"
  by (auto simp: to_come_def block_of_def)

lemma push_entry:
  assumes "strbuf_inv buf" and "entry_ok e" and "length (sb_text buf) + length (snd e) + 1 < 2 ^ 63"
  obtains n buf1 buf2 where "strbuf_pushchars (\<lambda>_. True) buf (snd e) = Some (n, buf1)" "n \<noteq> 0"
    "strbuf_pushchar (\<lambda>_. True) buf1 NUL = Some (True, buf2)" "strbuf_inv buf2"
    "sb_text buf2 = sb_text buf @ snd e @ [NUL]"
proof -
  obtain b1 where b1: "strbuf_pushmem (\<lambda>_. True) buf (snd e) = Some (of_nat (length (snd e)), b1)" "strbuf_inv b1"
      "sb_text b1 = sb_text buf @ snd e"
    using strbuf_pushmem_ok [OF assms(1), of "snd e"] assms(3) by auto
  obtain b2 where b2: "strbuf_pushchar (\<lambda>_. True) b1 NUL = Some (True, b2)" "strbuf_inv b2" "sb_text b2 = sb_text b1 @ [NUL]"
    using strbuf_pushchar_ok [OF b1(2), of NUL] b1(3) assms(3) by auto
  have "unat (of_nat (length (snd e)) :: size_t) = length (snd e)" using assms(3) by (simp add: unat_of_nat)
  then have "(of_nat (length (snd e)) :: size_t) \<noteq> 0" using assms(2) by (auto simp: entry_ok_def)
  then show thesis using that b1 b2 by (simp add: strbuf_pushchars_def)
qed

lemma get_strings_entries:
  assumes dot: "CHR ''.'' \<notin> set modname"
  shows "\<forall>e \<in> set es. entry_ok e \<Longrightarrow> strbuf_inv buf \<Longrightarrow> count + length es < INTPTR_MAX \<Longrightarrow>
    length (sb_text buf) + length (modinfo_file es) < 2 ^ 63 \<Longrightarrow>
    \<exists>buf'. get_strings (\<lambda>_. True) (\<lambda>_. None) (pre @ modinfo_file es) modname k (length pre) count buf
        = Some (Inr (count + length (to_come modname count es)), buf')
      \<and> strbuf_inv buf' \<and> sb_text buf' = sb_text buf @ concat (map (\<lambda>e. snd e @ [NUL]) (to_come modname count es))"
proof (induction es arbitrary: pre k count buf)
  case Nil
  then show ?case by (subst get_strings.simps) (simp add: getdelim_def to_come_simps modinfo_file_def)
next
  case (Cons e es)
  let ?pre = "pre @ entry_line e @ [NUL]"
  have e: "entry_ok e" using Cons.prems(1) by simp
  have fl: "pre @ modinfo_file (e # es) = ?pre @ modinfo_file es" by (simp add: modinfo_file_def)
  have gd: "getdelim (?pre @ modinfo_file es) (length pre) = Some (entry_line e, length ?pre)"
    using getdelim_line [OF nul_free_line [OF e], of pre "modinfo_file es"] by simp
  have has_dot: "CHR ''.'' \<in> set (entry_line e)" by (simp add: entry_line_def)
  have lens: "length (modinfo_file (e # es)) = length (fst e) + length (snd e) + 2 + length (modinfo_file es)"
    by (simp add: modinfo_file_def entry_line_def)
  show ?case
  proof (cases "fst e = modname")
    case True
    then have m: "take (length modname) (entry_line e) = modname" "char_at (entry_line e) (length modname) = CHR ''.''"
      using entry_matches [OF e dot] by auto
    obtain n b1 b2 where b: "strbuf_pushchars (\<lambda>_. True) buf (snd e) = Some (n, b1)" "n \<noteq> 0"
        "strbuf_pushchar (\<lambda>_. True) b1 NUL = Some (True, b2)" "strbuf_inv b2" "sb_text b2 = sb_text buf @ snd e @ [NUL]"
      using push_entry [OF Cons.prems(2) e] Cons.prems(4) lens by auto
    have "get_strings (\<lambda>_. True) (\<lambda>_. None) (?pre @ modinfo_file es) modname k (length pre) count buf
        = get_strings (\<lambda>_. True) (\<lambda>_. None) (?pre @ modinfo_file es) modname (Suc k) (length ?pre) (Suc count) b2"
      unfolding get_strings.simps [of _ _ _ _ k] using Cons.prems(3) gd has_dot m b entry_text [OF e] by simp
    then show ?thesis unfolding fl
      using Cons.IH [where pre = ?pre and count = "Suc count" and buf = b2 and k = "Suc k"] Cons.prems b lens True
      by (auto simp: to_come_simps)
  next
    case False
    then have m: "\<not> (take (length modname) (entry_line e) = modname \<and> char_at (entry_line e) (length modname) = CHR ''.'')"
      using entry_matches [OF e dot] by simp
    have eq: "get_strings (\<lambda>_. True) (\<lambda>_. None) (?pre @ modinfo_file es) modname k (length pre) count buf
        = (if count = 0 then get_strings (\<lambda>_. True) (\<lambda>_. None) (?pre @ modinfo_file es) modname (Suc k) (length ?pre) count buf
           else Some (Inr count, buf))"
      unfolding get_strings.simps [of _ _ _ _ k] using Cons.prems(3) gd has_dot m by simp
    show ?thesis unfolding fl eq
      using Cons.IH [where pre = ?pre and count = 0 and buf = buf and k = "Suc k"] Cons.prems lens False
      by (cases "count = 0") (auto simp: to_come_simps)
  qed
qed

lemma vector_strings_concat:
  "\<forall>s \<in> set ss. nul_free s \<Longrightarrow>
    vector_strings (length ss) (pre @ concat (map (\<lambda>s. s @ [NUL]) ss)) (length pre) = Some ss"
proof (induction ss arbitrary: pre)
  case (Cons s ss)
  have "cstr_at (pre @ s @ NUL # concat (map (\<lambda>s. s @ [NUL]) ss)) (length pre) = Some s"
    using Cons.prems by (intro cstr_at_append) simp
  then show ?case using Cons.IH [of "pre @ s @ [NUL]"] Cons.prems by simp
qed simp

lemma strbuf_to_vector_ok:
  assumes "strbuf_inv buf" and "sb_text buf = concat (map (\<lambda>s. s @ [NUL]) ss)" and "\<forall>s \<in> set ss. nul_free s"
    and "length (sb_text buf) < 2 ^ 59"
  shows "strbuf_to_vector (\<lambda>_. True) buf (length ss) = Some (Some ss)"
proof -
  have "length ss \<le> length (concat (map (\<lambda>s. s @ [NUL]) ss))" by (induction ss) auto
  then have n: "length ss < 2 ^ 59" using assms(2,4) by simp
  have u: "unat (sb_used buf) < 2 ^ 59" using assms(1,4) by (simp add: length_sb_text)
  have c: "unat (of_nat (length ss) + 1 :: size_t) = length ss + 1" "unat (8 * (of_nat (length ss) + 1) :: size_t) = 8 * (length ss + 1)"
    using n by (simp_all add: unat_word_ariths unat_of_nat)
  have "\<not> snd (uadd_overflow (of_nat (length ss) :: size_t) 1)" using n by (simp add: uadd_overflow_iff unat_of_nat)
  moreover have "\<not> snd (umul_overflow 8 (of_nat (length ss) + 1 :: size_t))" using n c(1) by (simp add: umul_overflow_iff)
  moreover have "\<not> snd (uadd_overflow (sb_used buf) (8 * (of_nat (length ss) + 1)))" using n u c(2) by (simp add: uadd_overflow_iff)
  ultimately show ?thesis
    using vector_strings_concat [OF assms(3), of "[]"] assms(2)
    by (simp add: strbuf_to_vector_def uadd_overflow_def umul_overflow_def)
qed

text \<open>An empty text is taken for a lack of memory, since \<open>strbuf_pushchars\<close> returns 0 for it.\<close>

lemma empty_text_fails:
  "kmod_builtin_get_modinfo (\<lambda>_. True) (\<lambda>_. None) (\<lambda>_. Inr (''m.'' @ [NUL])) ''/m'' ''m'' = Some (Inl ENOMEM)"
  unfolding kmod_builtin_get_modinfo_def kmod_builtin_info_init_def get_strings.simps [of _ _ _ _ 0 0 0]
  by (simp add: MODULES_BUILTIN_MODINFO_def getdelim_def char_at_def strbuf_pushchars_def strbuf_pushmem_def)

section \<open>Properties\<close>

text \<open>
  C11. The information of a built-in module: for a file made of lines \<open>module.text\<close> with texts that
  are not empty, the strings returned for a module are the texts of the first run of lines of that
  module, all of them, in the order of the file, and none of a module whose name only begins or ends
  like it; none if the file has no such line.
\<close>

theorem builtin_modinfo_block:
  assumes "\<forall>e \<in> set es. entry_ok e" and "CHR ''.'' \<notin> set modname" and "length (modinfo_file es) < 2 ^ 59"
    and "length dirname + 25 < PATH_MAX" and "fopen (dirname @ ''/modules.builtin.modinfo'') = Inr (modinfo_file es)"
  shows "kmod_builtin_get_modinfo (\<lambda>_. True) (\<lambda>_. None) fopen dirname modname
    = Some (Inr (map snd (block_of modname es)))"
proof -
  let ?b = "block_of modname es"
  have "length es \<le> length (modinfo_file es)" by (induction es) (auto simp: modinfo_file_def)
  then obtain buf where buf: "get_strings (\<lambda>_. True) (\<lambda>_. None) (modinfo_file es) modname 0 0 0 strbuf_init = Some (Inr (length ?b), buf)"
      "strbuf_inv buf" "sb_text buf = concat (map (\<lambda>e. snd e @ [NUL]) ?b)"
    using get_strings_entries [OF assms(2,1), of strbuf_init 0 "[]" 0] assms(3) by (auto simp: to_come_def)
  have init: "kmod_builtin_info_init fopen dirname = Inr (modinfo_file es)"
    using assms(4,5) by (simp add: kmod_builtin_info_init_def MODULES_BUILTIN_MODINFO_def)
  have sub: "set ?b \<subseteq> set es" unfolding block_of_def by (meson set_dropWhileD set_takeWhileD subsetI)
  have len: "length (concat (map (\<lambda>e. snd e @ [NUL]) ?b)) \<le> length (modinfo_file es)"
  proof -
    have d: "length (modinfo_file (dropWhile P es)) \<le> length (modinfo_file es)" for P
      by (induction es) (auto simp: modinfo_file_def)
    have "length (concat (map (\<lambda>e. snd e @ [NUL]) (takeWhile Q xs))) \<le> length (modinfo_file xs)" for Q and xs :: "modinfo_entry list"
      by (induction xs) (auto simp: modinfo_file_def entry_line_def)
    then show ?thesis using d order_trans unfolding block_of_def by blast
  qed
  have "strbuf_to_vector (\<lambda>_. True) buf (length (map snd ?b)) = Some (Some (map snd ?b))"
    using buf(3) sub assms(1,3) len by (intro strbuf_to_vector_ok [OF buf(2)]) (auto simp: entry_ok_def comp_def)
  then show ?thesis using buf(1) init by (simp add: kmod_builtin_get_modinfo_def)
qed

theorem builtin_modinfo_block_witness:
  "kmod_builtin_get_modinfo (\<lambda>_. True) (\<lambda>_. None)
     (\<lambda>f. if f = ''/m/modules.builtin.modinfo'' then Inr (modinfo_file
        [(''ext'', ''license=GPL''), (''ext4'', ''license=GPL''), (''ext4'', ''alias=fs-ext4''), (''fat'', ''license=GPL'')])
      else Inl ENOENT) ''/m'' ''ext4''
   = Some (Inr [''license=GPL'', ''alias=fs-ext4''])"
  using builtin_modinfo_block [of "[(''ext'', ''license=GPL''), (''ext4'', ''license=GPL''), (''ext4'', ''alias=fs-ext4''), (''fat'', ''license=GPL'')]"
      "''ext4''" "''/m''" "\<lambda>f. if f = ''/m/modules.builtin.modinfo'' then Inr (modinfo_file
        [(''ext'', ''license=GPL''), (''ext4'', ''license=GPL''), (''ext4'', ''alias=fs-ext4''), (''fat'', ''license=GPL'')])
      else Inl ENOENT"]
  by (simp add: entry_ok_def modinfo_file_def entry_line_def block_of_def)

end
