(* ===== verification/Kmod_Info.thy ===== *)
theory Kmod_Info
  imports Kmod_Signature Kmod_Builtin Kmod_Module Kmod_Elf_Info
begin

text \<open>
  What \<open>libkmod/libkmod-module.c\<close> reads from the file of a module: the strings of \<open>.modinfo\<close>, the
  build id and the signature as pairs of a key and a value, the versions, the exported symbols and the
  symbols the module depends on. The fields \<open>file\<close> and \<open>elf\<close> of \<open>struct kmod_module\<close>, filled when they
  are first needed, are the record \<open>mod_data\<close>. What the library gets from outside is \<open>info_env\<close>: the
  files behind the paths, the decompressors and the cryptographic libraries. The inner \<open>None\<close> of a
  result says that a loop that reads is still running.
\<close>

section \<open>Opening the image\<close>

record mod_data =
  md_file :: "kmod_file option"
  md_elf :: "kmod_elf option"

record 's info_env =
  ie_lib :: lib_env
  ie_files :: "string \<Rightarrow> file_env"
  ie_libs :: "string \<Rightarrow> 's comp_libs"
  ie_fuel :: nat
  ie_openssl :: "bytes \<Rightarrow> kmod_signature_info option"
  ie_mbedtls :: "bytes \<Rightarrow> kmod_signature_info option"
  ie_getdelim :: "nat \<Rightarrow> errno option"
  ie_fopen :: "string \<Rightarrow> char list result"

abbreviation ie_alloc :: "'s info_env \<Rightarrow> size_t \<Rightarrow> bool" where "ie_alloc env \<equiv> en_alloc (ie_lib env)"

definition open_file ::
    "'s info_env \<Rightarrow> kmod_ctx \<Rightarrow> string \<Rightarrow> mod_data \<Rightarrow> (kmod_file result \<times> kmod_ctx) option option" where
  "open_file env ctx key md =
     (case md_file md of
        Some file \<Rightarrow> Some (Some (Inr file, ctx))
      | None \<Rightarrow>
          (case kmod_module_get_path (ie_lib env) ctx key of
             None \<Rightarrow> None
           | Some (None, ctx) \<Rightarrow> Some (Some (Inl ENOENT, ctx))
           | Some (Some path, ctx) \<Rightarrow>
               map_option (map_option (\<lambda>r. (r, ctx))) (kmod_file_open (ie_fuel env) (ie_alloc env) (ie_files env path))))"

text \<open>The contents of the file, which is found by the path of the module.\<close>

definition file_contents ::
    "'s info_env \<Rightarrow> kmod_ctx \<Rightarrow> string \<Rightarrow> kmod_file \<Rightarrow> (bytes result \<times> kmod_file) option option" where
  "file_contents env ctx key file =
     (case module_at ctx key of
        None \<Rightarrow> None
      | Some m \<Rightarrow>
          (let path = (case km_path m of None \<Rightarrow> [] | Some p \<Rightarrow> p) in
           kmod_file_get_contents (ie_fuel env) (ie_alloc env) (ie_files env path) (ie_libs env path) file))"

definition kmod_module_load_elf ::
    "'s info_env \<Rightarrow> kmod_ctx \<Rightarrow> string \<Rightarrow> mod_data \<Rightarrow> (unit result \<times> mod_data \<times> kmod_ctx) option option" where
  "kmod_module_load_elf env ctx key md =
     (case open_file env ctx key md of
        None \<Rightarrow> None
      | Some None \<Rightarrow> Some None
      | Some (Some (Inl e, ctx)) \<Rightarrow> Some (Some (Inl e, md, ctx))
      | Some (Some (Inr file, ctx)) \<Rightarrow>
          if md_elf md \<noteq> None then Some (Some (Inr (), md\<lparr>md_file := Some file\<rparr>, ctx))
          else
            (case file_contents env ctx key file of
               None \<Rightarrow> None
             | Some None \<Rightarrow> Some None
             | Some (Some (Inl e, file)) \<Rightarrow> Some (Some (Inl e, md\<lparr>md_file := Some file\<rparr>, ctx))
             | Some (Some (Inr mem, file)) \<Rightarrow>
                 (case kmod_elf_new (ie_alloc env) mem of
                    None \<Rightarrow> None
                  | Some (Inl e) \<Rightarrow> Some (Some (Inl e, md\<lparr>md_file := Some file\<rparr>, ctx))
                  | Some (Inr elf) \<Rightarrow> Some (Some (Inr (), \<lparr>md_file = Some file, md_elf = Some elf\<rparr>, ctx)))))"

section \<open>Pairs of a key and a value\<close>

record kmod_module_info =
  mi_key :: bytes
  mi_value :: bytes

definition kmod_module_info_new :: "(size_t \<Rightarrow> bool) \<Rightarrow> bytes \<Rightarrow> bytes \<Rightarrow> kmod_module_info option" where
  "kmod_module_info_new alloc key val =
     (if alloc (8 + of_nat (length key) + of_nat (length val) + 2)
      then Some \<lparr>mi_key = key, mi_value = val\<rparr> else None)"

definition kmod_module_info_append ::
    "(size_t \<Rightarrow> bool) \<Rightarrow> kmod_module_info list \<Rightarrow> bytes \<Rightarrow> bytes \<Rightarrow> kmod_module_info list option" where
  "kmod_module_info_append alloc list key val =
     do { info \<leftarrow> kmod_module_info_new alloc key val; list_append alloc list info }"

definition hex_digits :: string where
  "hex_digits = ''0123456789ABCDEF''"

fun pushhex_loop :: "(size_t \<Rightarrow> bool) \<Rightarrow> nat \<Rightarrow> bytes \<Rightarrow> strbuf \<Rightarrow> (bool \<times> strbuf) option" where
  "pushhex_loop alloc i [] sbuf = Some (True, sbuf)"
| "pushhex_loop alloc i (c # hex) sbuf =
     do { (ok, sbuf) \<leftarrow> strbuf_pushchar alloc sbuf (hex_digits ! (code c div 16));
          if \<not> ok then Some (False, sbuf)
          else
            do { (ok, sbuf) \<leftarrow> strbuf_pushchar alloc sbuf (hex_digits ! (code c mod 16));
                 if \<not> ok then Some (False, sbuf)
                 else if hex = [] then Some (True, sbuf)
                 else
                   do { (ok, sbuf) \<leftarrow> strbuf_pushchar alloc sbuf (CHR '':'');
                        if \<not> ok then Some (False, sbuf)
                        else if (i + 1) mod 20 = 0 then
                          do { (n, sbuf) \<leftarrow> strbuf_pushchars alloc sbuf [CHR 0x0A, CHR 0x09, CHR 0x09];
                               if n = 0 then Some (False, sbuf) else pushhex_loop alloc (Suc i) hex sbuf }
                        else pushhex_loop alloc (Suc i) hex sbuf } } }"

definition kmod_module_strbuf_pushhex :: "(size_t \<Rightarrow> bool) \<Rightarrow> strbuf \<Rightarrow> bytes \<Rightarrow> (bool \<times> strbuf) option" where
  "kmod_module_strbuf_pushhex alloc sbuf hex = pushhex_loop alloc 0 hex sbuf"

text \<open>The outer \<open>None\<close> is undefined behaviour of the buffer, the inner one the lack of memory.\<close>

definition kmod_module_info_append_hex ::
    "(size_t \<Rightarrow> bool) \<Rightarrow> kmod_module_info list \<Rightarrow> bytes \<Rightarrow> bytes \<Rightarrow> kmod_module_info list option option" where
  "kmod_module_info_append_hex alloc list key val =
     (if val \<noteq> [] then
        do { (ok, sbuf) \<leftarrow> kmod_module_strbuf_pushhex alloc (strbuf_with_stack 512) val;
             if \<not> ok then Some None
             else
               do { (hex, sbuf) \<leftarrow> strbuf_str sbuf;
                    Some (kmod_module_info_append alloc list key hex) } }
      else Some (kmod_module_info_append alloc list key []))"

section \<open>Information\<close>

definition split_info :: "string \<Rightarrow> string \<times> string" where
  "split_info s =
     (if CHR ''='' \<in> set s then (takeWhile (\<lambda>c. c \<noteq> CHR ''='') s, tl (dropWhile (\<lambda>c. c \<noteq> CHR ''='') s))
      else (s, []))"

text \<open>Each step is left with whether memory sufficed and the list so far.\<close>

primrec append_strings ::
    "(size_t \<Rightarrow> bool) \<Rightarrow> string list \<Rightarrow> kmod_module_info list \<Rightarrow> bool \<times> kmod_module_info list" where
  "append_strings alloc [] list = (True, list)"
| "append_strings alloc (s # ss) list =
     (case kmod_module_info_append alloc list (fst (split_info s)) (snd (split_info s)) of
        None \<Rightarrow> (False, list)
      | Some list \<Rightarrow> append_strings alloc ss list)"

datatype info_item = Plain string bytes | Hex string bytes

fun append_items ::
    "(size_t \<Rightarrow> bool) \<Rightarrow> info_item list \<Rightarrow> kmod_module_info list \<Rightarrow> (bool \<times> kmod_module_info list) option" where
  "append_items alloc [] list = Some (True, list)"
| "append_items alloc (Plain key val # items) list =
     (case kmod_module_info_append alloc list key val of
        None \<Rightarrow> Some (False, list)
      | Some list \<Rightarrow> append_items alloc items list)"
| "append_items alloc (Hex key val # items) list =
     (case kmod_module_info_append_hex alloc list key val of
        None \<Rightarrow> None
      | Some None \<Rightarrow> Some (False, list)
      | Some (Some list) \<Rightarrow> append_items alloc items list)"

definition signature_items :: "kmod_signature_info \<Rightarrow> info_item list" where
  "signature_items info =
     [Plain ''sig_id'' (si_id_type info), Plain ''signer'' (si_signer info), Hex ''sig_key'' (si_key_id info),
      Plain ''sig_hashalgo'' (si_hash_algo info), Hex ''signature'' (si_sig info)]"

definition build_id_items :: "kmod_elf option \<Rightarrow> info_item list option" where
  "build_id_items elf =
     (case elf of
        None \<Rightarrow> Some []
      | Some elf \<Rightarrow>
          do { r \<leftarrow> kmod_elf_get_build_id elf;
               case r of
                 Inl e \<Rightarrow> Some []
               | Inr (off, len) \<Rightarrow>
                   do { b \<leftarrow> mem_range (el_memory elf) (uint off) (unat len); Some [Hex ''build-id'' b] } })"

definition file_signature_items ::
    "'s info_env \<Rightarrow> kmod_ctx \<Rightarrow> string \<Rightarrow> mod_data \<Rightarrow> (info_item list \<times> mod_data) option option" where
  "file_signature_items env ctx key md =
     (case md_file md of
        None \<Rightarrow> Some (Some ([], md))
      | Some file \<Rightarrow>
          (case file_contents env ctx key file of
             None \<Rightarrow> None
           | Some None \<Rightarrow> Some None
           | Some (Some (contents, file)) \<Rightarrow>
               (case kmod_module_signature_info (ie_alloc env) (ie_openssl env) (ie_mbedtls env) contents of
                  None \<Rightarrow> None
                | Some None \<Rightarrow> Some (Some ([], md\<lparr>md_file := Some file\<rparr>))
                | Some (Some info) \<Rightarrow> Some (Some (signature_items info, md\<lparr>md_file := Some file\<rparr>)))))"

text \<open>
  \<open>ret\<close> is what an error in the middle returns: \<open>-ENOMEM\<close> for a built-in module, but 0, the answer of
  \<open>kmod_module_load_elf\<close>, for one with a file; only an error clears the list. Fewer than \<open>2 ^ 31\<close>
  strings are taken for granted (\<open>count\<close> is an \<open>int\<close>).
\<close>

definition info_error :: "unit result \<Rightarrow> kmod_module_info list \<Rightarrow> nat result \<times> kmod_module_info list" where
  "info_error ret list = (case ret of Inl e \<Rightarrow> (Inl e, []) | Inr _ \<Rightarrow> (Inr 0, list))"

definition info_of_strings ::
    "'s info_env \<Rightarrow> kmod_ctx \<Rightarrow> string \<Rightarrow> mod_data \<Rightarrow> unit result \<Rightarrow> string list
      \<Rightarrow> (nat result \<times> kmod_module_info list \<times> mod_data) option option" where
  "info_of_strings env ctx key md ret strings =
     (case append_strings (ie_alloc env) strings [] of
        (False, list) \<Rightarrow> (let (r, list) = info_error ret list in Some (Some (r, list, md)))
      | (True, list) \<Rightarrow>
          (case do { items \<leftarrow> build_id_items (md_elf md); (ok, list) \<leftarrow> append_items (ie_alloc env) items list;
                     Some (ok, length items, list) } of
             None \<Rightarrow> None
           | Some (False, n, list) \<Rightarrow> (let (r, list) = info_error ret list in Some (Some (r, list, md)))
           | Some (True, n, list) \<Rightarrow>
               (case file_signature_items env ctx key md of
                  None \<Rightarrow> None
                | Some None \<Rightarrow> Some None
                | Some (Some (items, md)) \<Rightarrow>
                    (case append_items (ie_alloc env) items list of
                       None \<Rightarrow> None
                     | Some (False, list) \<Rightarrow> (let (r, list) = info_error ret list in Some (Some (r, list, md)))
                     | Some (True, list) \<Rightarrow> Some (Some (Inr (length strings + n + length items), list, md))))))"

definition elf_strings :: "(size_t \<Rightarrow> bool) \<Rightarrow> kmod_elf \<Rightarrow> string list result option" where
  "elf_strings alloc elf =
     do { r \<leftarrow> kmod_elf_get_modinfo_strings alloc elf;
          case r of
            Inl e \<Rightarrow> Some (Inl e)
          | Inr (count, a, s) \<Rightarrow>
              do { ps \<leftarrow> those a; strings \<leftarrow> those (map (cstr_at s) ps); Some (Inr strings) } }"

definition kmod_module_get_info ::
    "'s info_env \<Rightarrow> kmod_ctx \<Rightarrow> string \<Rightarrow> mod_data
      \<Rightarrow> (nat result \<times> kmod_module_info list \<times> mod_data \<times> kmod_ctx) option option" where
  "kmod_module_get_info env ctx key md =
     (case kmod_module_is_builtin (ie_lib env) key ctx of
        None \<Rightarrow> None
      | Some (True, ctx) \<Rightarrow>
          (case do { m \<leftarrow> module_at ctx key;
                     kmod_builtin_get_modinfo (ie_alloc env) (ie_getdelim env) (ie_fopen env) (cx_dirname ctx) (km_name m) } of
             None \<Rightarrow> None
           | Some (Inl e) \<Rightarrow> Some (Some (Inl e, [], md, ctx))
           | Some (Inr strings) \<Rightarrow>
               map_option (map_option (\<lambda>(r, list, md). (r, list, md, ctx)))
                 (info_of_strings env ctx key md (Inl ENOMEM) strings))
      | Some (False, ctx) \<Rightarrow>
          (case kmod_module_load_elf env ctx key md of
             None \<Rightarrow> None
           | Some None \<Rightarrow> Some None
           | Some (Some (Inl e, md, ctx)) \<Rightarrow> Some (Some (Inl e, [], md, ctx))
           | Some (Some (Inr ret, md, ctx)) \<Rightarrow>
               (case do { elf \<leftarrow> md_elf md; elf_strings (ie_alloc env) elf } of
                  None \<Rightarrow> None
                | Some (Inl e) \<Rightarrow> Some (Some (Inl e, [], md, ctx))
                | Some (Inr strings) \<Rightarrow>
                    map_option (map_option (\<lambda>(r, list, md). (r, list, md, ctx)))
                      (info_of_strings env ctx key md (Inr ret) strings))))"

text \<open>A value is handed out as a C string, which ends at its first NUL.\<close>

definition kmod_module_info_get_key :: "kmod_module_info option \<Rightarrow> string option" where
  "kmod_module_info_get_key entry = map_option (\<lambda>i. takeWhile (\<lambda>c. c \<noteq> NUL) (mi_key i)) entry"

definition kmod_module_info_get_value :: "kmod_module_info option \<Rightarrow> string option" where
  "kmod_module_info_get_value entry = map_option (\<lambda>i. takeWhile (\<lambda>c. c \<noteq> NUL) (mi_value i)) entry"

section \<open>Versions and symbols\<close>

record kmod_module_version =
  vn_crc :: u64
  vn_symbol :: string

record kmod_module_symbol =
  sy_crc :: u64
  sy_symbol :: string

record kmod_module_dependency_symbol =
  dy_crc :: u64
  dy_bind :: char
  dy_symbol :: string

definition kmod_module_versions_new :: "(size_t \<Rightarrow> bool) \<Rightarrow> kmod_modversion \<Rightarrow> string \<Rightarrow> kmod_module_version option" where
  "kmod_module_versions_new alloc v symbol =
     (if alloc (8 + strsize symbol) then Some \<lparr>vn_crc = mv_crc v, vn_symbol = symbol\<rparr> else None)"

definition kmod_module_symbols_new :: "(size_t \<Rightarrow> bool) \<Rightarrow> kmod_modversion \<Rightarrow> string \<Rightarrow> kmod_module_symbol option" where
  "kmod_module_symbols_new alloc v symbol =
     (if alloc (8 + strsize symbol) then Some \<lparr>sy_crc = mv_crc v, sy_symbol = symbol\<rparr> else None)"

definition kmod_module_dependency_symbols_new ::
    "(size_t \<Rightarrow> bool) \<Rightarrow> kmod_modversion \<Rightarrow> string \<Rightarrow> kmod_module_dependency_symbol option" where
  "kmod_module_dependency_symbols_new alloc v symbol =
     (if alloc (16 + strsize symbol)
      then Some \<lparr>dy_crc = mv_crc v, dy_bind = mv_bind v, dy_symbol = symbol\<rparr> else None)"

text \<open>
  The loop that the three functions share: a copy of every entry, with the string its pointer denotes
  in the image; without memory the list is cleared.
\<close>

primrec copy_entries ::
    "(size_t \<Rightarrow> bool) \<Rightarrow> (kmod_modversion \<Rightarrow> string \<Rightarrow> 'a option) \<Rightarrow> bytes \<Rightarrow> kmod_modversion slots \<Rightarrow> 'a list
      \<Rightarrow> 'a list result option" where
  "copy_entries alloc mk mem [] list = Some (Inr list)"
| "copy_entries alloc mk mem (x # xs) list =
     do { v \<leftarrow> x;
          symbol \<leftarrow> cstr_at mem (unat (mv_symbol v));
          case mk v symbol of
            None \<Rightarrow> Some (Inl ENOMEM)
          | Some y \<Rightarrow>
              (case list_append alloc list y of
                 None \<Rightarrow> Some (Inl ENOMEM)
               | Some list \<Rightarrow> copy_entries alloc mk mem xs list) }"

definition entries_of_elf ::
    "'s info_env \<Rightarrow> (kmod_elf \<Rightarrow> kmod_modversion slots result option) \<Rightarrow> (kmod_modversion \<Rightarrow> string \<Rightarrow> 'a option)
      \<Rightarrow> kmod_ctx \<Rightarrow> string \<Rightarrow> mod_data \<Rightarrow> ('a list result \<times> mod_data \<times> kmod_ctx) option option" where
  "entries_of_elf env get mk ctx key md =
     (case kmod_module_load_elf env ctx key md of
        None \<Rightarrow> None
      | Some None \<Rightarrow> Some None
      | Some (Some (Inl e, md, ctx)) \<Rightarrow> Some (Some (Inl e, md, ctx))
      | Some (Some (Inr _, md, ctx)) \<Rightarrow>
          do { elf \<leftarrow> md_elf md;
               r \<leftarrow> get elf;
               r \<leftarrow> (case r of
                       Inl e \<Rightarrow> Some (Inl e)
                     | Inr vs \<Rightarrow> copy_entries (ie_alloc env) mk (el_memory elf) vs []);
               Some (Some (r, md, ctx)) })"

definition kmod_module_get_versions ::
    "'s info_env \<Rightarrow> kmod_ctx \<Rightarrow> string \<Rightarrow> mod_data
      \<Rightarrow> (kmod_module_version list result \<times> mod_data \<times> kmod_ctx) option option" where
  "kmod_module_get_versions env =
     entries_of_elf env (\<lambda>elf. map_option (map_sum id (map Some)) (kmod_elf_get_modversions (ie_alloc env) elf))
       (kmod_module_versions_new (ie_alloc env))"

definition kmod_module_get_symbols ::
    "'s info_env \<Rightarrow> kmod_ctx \<Rightarrow> string \<Rightarrow> mod_data
      \<Rightarrow> (kmod_module_symbol list result \<times> mod_data \<times> kmod_ctx) option option" where
  "kmod_module_get_symbols env =
     entries_of_elf env (kmod_elf_get_symbols (ie_alloc env)) (kmod_module_symbols_new (ie_alloc env))"

definition kmod_module_get_dependency_symbols ::
    "'s info_env \<Rightarrow> kmod_ctx \<Rightarrow> string \<Rightarrow> mod_data
      \<Rightarrow> (kmod_module_dependency_symbol list result \<times> mod_data \<times> kmod_ctx) option option" where
  "kmod_module_get_dependency_symbols env =
     entries_of_elf env (kmod_elf_get_dependency_symbols (ie_alloc env))
       (kmod_module_dependency_symbols_new (ie_alloc env))"

section \<open>Hexadecimal text\<close>

text \<open>The text meant: pairs of digits joined by colons, in lines of twenty bytes.\<close>

definition hex_byte :: "char \<Rightarrow> string" where
  "hex_byte c = [hex_digits ! (code c div 16), hex_digits ! (code c mod 16)]"

fun join :: "string \<Rightarrow> string list \<Rightarrow> string" where
  "join sep [] = []"
| "join sep [s] = s"
| "join sep (s # t # ss) = s @ sep @ join sep (t # ss)"

function chunks :: "nat \<Rightarrow> 'a list \<Rightarrow> 'a list list" where
  "chunks n xs = (if length xs \<le> n \<or> n = 0 then [xs] else take n xs # chunks n (drop n xs))"
  by pat_completeness auto
termination by (relation "measure (\<lambda>(n, xs). length xs)") auto

declare chunks.simps [simp del]

definition hex_text :: "bytes \<Rightarrow> string" where
  "hex_text bs = join ('':'' @ [CHR 0x0A, CHR 0x09, CHR 0x09]) (map (\<lambda>l. join '':'' (map hex_byte l)) (chunks 20 bs))"

text \<open>The text as the loop builds it, from position \<open>i\<close> on.\<close>

fun hex_from :: "nat \<Rightarrow> bytes \<Rightarrow> string" where
  "hex_from i [] = []"
| "hex_from i [c] = hex_byte c"
| "hex_from i (c # d # cs) = hex_byte c @ '':'' @ (if (i + 1) mod 20 = 0 then [CHR 0x0A, CHR 0x09, CHR 0x09] else [])
     @ hex_from (Suc i) (d # cs)"

lemma Suc_mod_20: "i mod 20 + 1 < 20 \<Longrightarrow> Suc i mod 20 = Suc (i mod 20)"
  by (simp add: mod_Suc)

lemma hex_from_line: "i mod 20 + length cs \<le> 20 \<Longrightarrow> hex_from i cs = join '':'' (map hex_byte cs)"
proof (induction i cs rule: hex_from.induct)
  case (3 i c d cs)
  then have "Suc i mod 20 = Suc (i mod 20)" by (intro Suc_mod_20) simp
  moreover from this have "hex_from (Suc i) (d # cs) = join '':'' (map hex_byte (d # cs))"
    using "3.prems" by (intro "3.IH") simp
  ultimately show ?case by simp
qed auto

lemma hex_from_split:
  "i mod 20 + length l = 20 \<Longrightarrow> l \<noteq> [] \<Longrightarrow> cs \<noteq> [] \<Longrightarrow>
    hex_from i (l @ cs) = join '':'' (map hex_byte l) @ '':'' @ [CHR 0x0A, CHR 0x09, CHR 0x09] @ hex_from (i + length l) cs"
proof (induction i l rule: hex_from.induct)
  case (2 i c)
  then have "Suc i mod 20 = 0" by (simp add: mod_Suc)
  then show ?case using 2 by (cases cs) auto
next
  case (3 i c d l)
  then have m: "Suc i mod 20 = Suc (i mod 20)" by (intro Suc_mod_20) simp
  then have "hex_from (Suc i) ((d # l) @ cs) = join '':'' (map hex_byte (d # l)) @ '':'' @ [CHR 0x0A, CHR 0x09, CHR 0x09]
      @ hex_from (Suc i + length (d # l)) cs"
    using "3.prems" by (intro "3.IH") simp_all
  then show ?case using m by simp
qed auto

lemma hex_from_text: "i mod 20 = 0 \<Longrightarrow> hex_from i bs = hex_text bs"
proof (induction "20 :: nat" bs arbitrary: i rule: chunks.induct)
  case (1 bs)
  show ?case
  proof (cases "length bs \<le> 20")
    case True
    then show ?thesis using hex_from_line [of i bs] "1.prems" by (simp add: hex_text_def chunks.simps)
  next
    case False
    let ?l = "take 20 bs" and ?r = "drop 20 bs"
    have "hex_from i (?l @ ?r) = join '':'' (map hex_byte ?l) @ '':'' @ [CHR 0x0A, CHR 0x09, CHR 0x09] @ hex_from (i + 20) ?r"
    proof -
      have "bs \<noteq> []" "length ?l = 20" using False by auto
      then show ?thesis using hex_from_split [of i ?l ?r] False "1.prems" by simp
    qed
    moreover have "hex_from (i + 20) ?r = hex_text ?r" using "1.hyps" [of "i + 20"] False "1.prems" by simp
    moreover have "chunks 20 ?r \<noteq> []" by (simp add: chunks.simps [of 20 ?r])
    ultimately show ?thesis using False
      by (cases "chunks 20 ?r") (simp_all add: hex_text_def chunks.simps [of 20 bs])
  qed
qed

lemma push_byte:
  assumes "strbuf_inv sbuf" and "length (sb_text sbuf) + 2 < 2 ^ 63"
  obtains b1 b2 where "strbuf_pushchar (\<lambda>_. True) sbuf (hex_digits ! (code c div 16)) = Some (True, b1)"
    "strbuf_pushchar (\<lambda>_. True) b1 (hex_digits ! (code c mod 16)) = Some (True, b2)" "strbuf_inv b2"
    "sb_text b2 = sb_text sbuf @ hex_byte c"
proof -
  obtain b1 where b1: "strbuf_pushchar (\<lambda>_. True) sbuf (hex_digits ! (code c div 16)) = Some (True, b1)" "strbuf_inv b1"
      "sb_text b1 = sb_text sbuf @ [hex_digits ! (code c div 16)]"
    using strbuf_pushchar_ok [OF assms(1)] assms(2) by fastforce
  moreover obtain b2 where "strbuf_pushchar (\<lambda>_. True) b1 (hex_digits ! (code c mod 16)) = Some (True, b2)" "strbuf_inv b2"
      "sb_text b2 = sb_text b1 @ [hex_digits ! (code c mod 16)]"
    using strbuf_pushchar_ok [OF b1(2)] b1(3) assms(2) by fastforce
  ultimately show thesis using that by (simp add: hex_byte_def)
qed

lemma pushhex_ok:
  "strbuf_inv sbuf \<Longrightarrow> length (sb_text sbuf) + 8 * length hex < 2 ^ 63 \<Longrightarrow>
    \<exists>sbuf'. pushhex_loop (\<lambda>_. True) i hex sbuf = Some (True, sbuf') \<and> strbuf_inv sbuf'
      \<and> sb_text sbuf' = sb_text sbuf @ hex_from i hex"
proof (induction i hex arbitrary: sbuf rule: hex_from.induct)
  case (2 i c)
  obtain b1 b2 where "strbuf_pushchar (\<lambda>_. True) sbuf (hex_digits ! (code c div 16)) = Some (True, b1)"
      "strbuf_pushchar (\<lambda>_. True) b1 (hex_digits ! (code c mod 16)) = Some (True, b2)" "strbuf_inv b2"
      "sb_text b2 = sb_text sbuf @ hex_byte c"
    by (rule push_byte [OF 2(1), of c]) (use 2(2) in auto)
  then show ?case by simp
next
  case (3 i c d cs)
  obtain b1 b2 where b: "strbuf_pushchar (\<lambda>_. True) sbuf (hex_digits ! (code c div 16)) = Some (True, b1)"
      "strbuf_pushchar (\<lambda>_. True) b1 (hex_digits ! (code c mod 16)) = Some (True, b2)" "strbuf_inv b2"
      "sb_text b2 = sb_text sbuf @ hex_byte c"
    by (rule push_byte [OF "3.prems"(1), of c]) (use "3.prems"(2) in auto)
  have l2: "length (sb_text b2) = length (sb_text sbuf) + 2" using b(4) by (simp add: hex_byte_def)
  obtain b3 where b3: "strbuf_pushchar (\<lambda>_. True) b2 (CHR '':'') = Some (True, b3)" "strbuf_inv b3"
      "sb_text b3 = sb_text b2 @ '':''"
    using strbuf_pushchar_ok [OF b(3), of "CHR '':''"] l2 "3.prems"(2) by auto
  show ?case
  proof (cases "Suc i mod 20 = 0")
    case True
    obtain b4 where b4: "strbuf_pushmem (\<lambda>_. True) b3 [CHR 0x0A, CHR 0x09, CHR 0x09] = Some (3, b4)" "strbuf_inv b4"
        "sb_text b4 = sb_text b3 @ [CHR 0x0A, CHR 0x09, CHR 0x09]"
      using strbuf_pushmem_ok [OF b3(2), of "[CHR 0x0A, CHR 0x09, CHR 0x09]"] b3(3) l2 "3.prems"(2) by auto
    show ?thesis using "3.IH" [OF b4(2)] "3.prems"(2) b b3 b4 l2 True by (simp add: strbuf_pushchars_def)
  next
    case False
    then show ?thesis using "3.IH" [OF b3(2)] "3.prems"(2) b b3 l2 by simp
  qed
qed auto

lemma nul_free_hex_byte: "nul_free (hex_byte c)"
proof -
  have "code c div 16 < 16" by (rule less_mult_imp_div_less) (rule order_less_le_trans [OF code_less_256], simp)
  moreover have "length hex_digits = 16" "nul_free hex_digits" by (simp_all add: hex_digits_def)
  ultimately have "nul_free hex_digits" "code c div 16 < length hex_digits" "code c mod 16 < length hex_digits"
    by simp_all
  then show ?thesis unfolding hex_byte_def by (metis empty_iff empty_set insert_iff list.simps(15) nth_mem)
qed

lemma nul_free_hex_from: "nul_free (hex_from i bs)"
  by (induction i bs rule: hex_from.induct) (auto simp: nul_free_hex_byte)

lemma append_hex_ok:
  assumes "length val < 2 ^ 59"
  shows "kmod_module_info_append_hex (\<lambda>_. True) list key val = Some (Some (list @ [\<lparr>mi_key = key, mi_value = hex_text val\<rparr>]))"
proof (cases "val = []")
  case True
  then show ?thesis
    by (simp add: kmod_module_info_append_hex_def kmod_module_info_append_def kmod_module_info_new_def list_append_def
        hex_text_def chunks.simps)
next
  case False
  obtain b where b: "pushhex_loop (\<lambda>_. True) 0 val (strbuf_with_stack 512) = Some (True, b)" "strbuf_inv b"
      "sb_text b = hex_text val"
  proof -
    have "hex_from 0 val = hex_text val" by (rule hex_from_text) simp
    then show thesis using pushhex_ok [of "strbuf_with_stack 512" val 0] assms that by auto
  qed
  have "takeWhile (\<lambda>c. c \<noteq> NUL) (hex_text val) = hex_text val"
    using nul_free_hex_from [of 0 val] hex_from_text [of 0 val] by (subst takeWhile_eq_all_conv) auto
  then obtain b' where "strbuf_str b = Some (hex_text val, b')" using strbuf_str_spec [OF b(2)] unfolding b(3) by metis
  then show ?thesis using False b(1)
    by (simp add: kmod_module_info_append_hex_def kmod_module_strbuf_pushhex_def kmod_module_info_append_def
        kmod_module_info_new_def list_append_def)
qed

section \<open>What the entries say\<close>

definition string_entry :: "string \<Rightarrow> kmod_module_info" where
  "string_entry s = \<lparr>mi_key = fst (split_info s), mi_value = snd (split_info s)\<rparr>"

fun item_entry :: "info_item \<Rightarrow> kmod_module_info" where
  "item_entry (Plain key val) = \<lparr>mi_key = key, mi_value = val\<rparr>"
| "item_entry (Hex key val) = \<lparr>mi_key = key, mi_value = hex_text val\<rparr>"

fun item_small :: "info_item \<Rightarrow> bool" where
  "item_small (Plain key val) \<longleftrightarrow> True"
| "item_small (Hex key val) \<longleftrightarrow> length val < 2 ^ 59"

lemma append_strings_ok: "append_strings (\<lambda>_. True) ss list = (True, list @ map string_entry ss)"
  by (induction ss arbitrary: list)
    (simp_all add: kmod_module_info_append_def kmod_module_info_new_def list_append_def string_entry_def)

lemma append_items_ok:
  "\<forall>i \<in> set items. item_small i \<Longrightarrow> append_items (\<lambda>_. True) items list = Some (True, list @ map item_entry items)"
proof (induction items arbitrary: list)
  case (Cons i items)
  then show ?case
    by (cases i) (simp_all add: append_hex_ok kmod_module_info_append_def kmod_module_info_new_def list_append_def)
qed simp

definition loaded :: "bytes \<Rightarrow> kmod_elf \<Rightarrow> mod_data \<Rightarrow> bool" where
  "loaded mem elf md \<longleftrightarrow> (\<exists>c. md = \<lparr>md_file = Some \<lparr>kf_compression = c, kf_memory = Some mem\<rparr>, md_elf = Some elf\<rparr>)"

lemma load_elf_loaded: "loaded mem elf md \<Longrightarrow> kmod_module_load_elf env ctx key md = Some (Some (Inr (), md, ctx))"
  by (auto simp: loaded_def kmod_module_load_elf_def open_file_def)

lemma not_builtin:
  assumes "module_at ctx key = Some m" and "km_builtin m = KMOD_MODULE_BUILTIN_NO"
  shows "kmod_module_is_builtin env key ctx = Some (False, ctx)"
  using assms by (simp add: kmod_module_is_builtin_def)

lemma build_id_small:
  assumes "build_id_items elf = Some items"
  shows "\<forall>i \<in> set items. item_small i"
proof (cases elf)
  case (Some e)
  then obtain r where r: "kmod_elf_get_build_id e = Some r"
    using assms by (auto simp: build_id_items_def bind_eq_Some_conv)
  show ?thesis
  proof (cases r)
    case (Inr p)
    have "min n (unat (snd p)) < 2 ^ 59" for n :: nat using unat_lt_32 [of "snd p"] by (simp add: min_less_iff_disj)
    then show ?thesis using assms Some r Inr
      by (cases p) (auto simp: build_id_items_def mem_range_def bind_eq_Some_conv split: if_splits)
  qed (use assms Some r in \<open>simp add: build_id_items_def\<close>)
qed (use assms in \<open>simp add: build_id_items_def\<close>)

section \<open>Properties\<close>

text \<open>
  C9. The information about a loaded module with a signature other than a PKCS#7 message, whose parts
  are named in the trailer, is complete and in order: one entry per string of \<open>.modinfo\<close>, split at its first equals sign; the build id, if there is one, in hexadecimal;
  then the five entries of the signature with the parts that were signed, the key and the signature as
  pairs of hexadecimal digits, joined by colons in lines of twenty. The result is their number.
\<close>

theorem module_info_complete:
  assumes "module_at ctx key = Some m" and "km_builtin m = KMOD_MODULE_BUILTIN_NO" and "ie_alloc env = (\<lambda>_. True)"
    and "loaded (signed_module body signer key_id sg algo hash id_type pad) elf md"
    and "signable signer key_id sg algo hash id_type pad" and "id_type \<noteq> 2"
    and "elf_strings (\<lambda>_. True) elf = Some (Inr strings)" and "build_id_items (Some elf) = Some bid"
  shows "kmod_module_get_info env ctx key md = Some (Some (Inr (length strings + length bid + 5),
    map string_entry strings @ map item_entry bid @
      [\<lparr>mi_key = ''sig_id'', mi_value = pkey_id_type ! id_type\<rparr>, \<lparr>mi_key = ''signer'', mi_value = signer\<rparr>,
       \<lparr>mi_key = ''sig_key'', mi_value = hex_text key_id\<rparr>,
       \<lparr>mi_key = ''sig_hashalgo'', mi_value = pkey_hash_algo ! hash\<rparr>,
       \<lparr>mi_key = ''signature'', mi_value = hex_text sg\<rparr>],
    md, ctx))"
proof -
  let ?i = "\<lparr>si_signer = signer, si_key_id = key_id, si_hash_algo = pkey_hash_algo ! hash,
              si_id_type = pkey_id_type ! id_type, si_sig = sg\<rparr>"
  obtain c where md: "md = \<lparr>md_file = Some \<lparr>kf_compression = c, kf_memory = Some (signed_module body signer key_id sg algo hash id_type pad)\<rparr>,
      md_elf = Some elf\<rparr>" using assms(4) by (auto simp: loaded_def)
  have sig: "file_signature_items env ctx key md = Some (Some (signature_items ?i, md))"
    using signature_info_signed [OF assms(5,6), of "\<lambda>_. True" "ie_openssl env" "ie_mbedtls env" body] assms(1,3)
    by (simp add: md file_signature_items_def file_contents_def kmod_file_get_contents_def)
  have "\<forall>i \<in> set (signature_items ?i). item_small i" using assms(5) by (auto simp: signature_items_def signable_def)
  note items = append_items_ok [OF this] append_items_ok [OF build_id_small [OF assms(8)]]
  have "info_of_strings env ctx key md (Inr ()) strings = Some (Some (Inr (length strings + length bid + 5),
      map string_entry strings @ map item_entry bid @ map item_entry (signature_items ?i), md))"
    unfolding info_of_strings_def assms(3) append_strings_ok using sig assms(8) items
    by (simp add: md) (simp add: signature_items_def)
  moreover have "md_elf md = Some elf" by (simp add: md)
  ultimately show ?thesis
    using not_builtin [OF assms(1,2)] load_elf_loaded [OF assms(4), of env ctx key] assms(3,7)
    by (simp add: kmod_module_get_info_def signature_items_def)
qed

text \<open>A module in memory, with two strings and a signature, in a library without anything else.\<close>

definition small_info_env :: "(size_t \<Rightarrow> bool) \<Rightarrow> unit info_env" where
  "small_info_env alloc =
     \<lparr>ie_lib = \<lparr>en_alloc = alloc, en_pool_grows = (\<lambda>_. True), en_cwd = None, en_stat = (\<lambda>_. Inl ENOENT),
                en_file = (\<lambda>_. Inl ENOENT), en_mmap = (\<lambda>_. None), en_fnmatch = (=), en_depth = 0\<rparr>,
      ie_files = (\<lambda>_. gzip_env),
      ie_libs = (\<lambda>_. \<lparr>cl_zlib = False, cl_dup = None, cl_gzdopen = None, cl_gzread = (\<lambda>_ _ _. Inr []), cl_zstd = False,
        cl_frame_size = (\<lambda>_. 0), cl_decompress = (\<lambda>_ _. None), cl_xz = False, cl_read = (\<lambda>_ _. Inr []),
        cl_decoder = (LZMA_OK, ()), cl_lzma_code = (\<lambda>_ _ _ _. (LZMA_BUF_ERROR, 0, [], ()))\<rparr>),
      ie_fuel = 8, ie_openssl = (\<lambda>_. None), ie_mbedtls = (\<lambda>_. None), ie_getdelim = (\<lambda>_. None), ie_fopen = (\<lambda>_. Inl ENOENT)\<rparr>"

definition small_info_ctx :: kmod_ctx where
  "small_info_ctx =
     \<lparr>cx_dirname = ''/m'', cx_config = empty_config,
      cx_modules_by_name = [''a'' \<mapsto> \<lparr>km_name = ''a'', km_path = Some ''/a.ko'', km_dep = [], km_options = None, km_install_commands = None,
        km_remove_commands = None, km_alias = None, km_init_dep = False, km_init_options = False,
        km_init_install_commands = False, km_init_remove_commands = False, km_builtin = KMOD_MODULE_BUILTIN_NO\<rparr>],
      cx_indexes = (\<lambda>_. None), cx_indexes_stamp = (\<lambda>_. 0)\<rparr>"

definition two_strings_elf :: kmod_elf where
  "two_strings_elf =
     \<lparr>el_memory = NUL # ''a=1'' @ NUL # ''b'' @ [NUL, NUL], el_x32 = True, el_msb = False, el_sec_offset = 0, el_sec_count = 0,
      el_sec_entry_size = 40, el_str_section = 0, el_str_offset = 0, el_str_size = 1, el_machine = 0,
      el_sections = (\<lambda>sec. if sec = SECTION_MODINFO then (1, 6) else (0, 0))\<rparr>"

definition small_mod_data :: mod_data where
  "small_mod_data =
     \<lparr>md_file = Some \<lparr>kf_compression = KMOD_FILE_COMPRESSION_NONE,
        kf_memory = Some (signed_module ''ELF'' ''me'' [CHR 0x01] ''sig'' 1 4 1 [NUL, NUL, NUL])\<rparr>,
      md_elf = Some two_strings_elf\<rparr>"

lemma small_strings: "elf_strings (\<lambda>_. True) two_strings_elf = Some (Inr [''a=1'', ''b''])"
  "elf_strings (\<lambda>n. n \<noteq> 24) two_strings_elf = Some (Inr [''a=1'', ''b''])"
  by code_simp+

lemma small_build_id: "build_id_items (Some two_strings_elf) = Some []"
  by (simp add: build_id_items_def kmod_elf_get_build_id_def two_strings_elf_def)

lemma small_loaded:
  "loaded (signed_module ''ELF'' ''me'' [CHR 0x01] ''sig'' 1 4 1 [NUL, NUL, NUL]) two_strings_elf small_mod_data"
  by (simp add: loaded_def small_mod_data_def)

theorem module_info_complete_witness:
  "kmod_module_get_info (small_info_env (\<lambda>_. True)) small_info_ctx ''a'' small_mod_data = Some (Some (Inr 7,
     [\<lparr>mi_key = ''a'', mi_value = ''1''\<rparr>, \<lparr>mi_key = ''b'', mi_value = []\<rparr>,
      \<lparr>mi_key = ''sig_id'', mi_value = ''X509''\<rparr>, \<lparr>mi_key = ''signer'', mi_value = ''me''\<rparr>,
      \<lparr>mi_key = ''sig_key'', mi_value = ''01''\<rparr>, \<lparr>mi_key = ''sig_hashalgo'', mi_value = ''sha256''\<rparr>,
      \<lparr>mi_key = ''signature'', mi_value = ''73:69:67''\<rparr>], small_mod_data, small_info_ctx))"
proof -
  have at: "module_at small_info_ctx ''a'' = Some \<lparr>km_name = ''a'', km_path = Some ''/a.ko'', km_dep = [], km_options = None,
      km_install_commands = None, km_remove_commands = None, km_alias = None, km_init_dep = False, km_init_options = False,
      km_init_install_commands = False, km_init_remove_commands = False, km_builtin = KMOD_MODULE_BUILTIN_NO\<rparr>"
    by (simp add: module_at_def small_info_ctx_def)
  have alloc: "ie_alloc (small_info_env (\<lambda>_. True)) = (\<lambda>_. True)" by (simp add: small_info_env_def)
  have s: "signable ''me'' [CHR 0x01] ''sig'' 1 4 1 [NUL, NUL, NUL]" by (simp add: signable_def)
  have e: "string_entry ''a=1'' = \<lparr>mi_key = ''a'', mi_value = ''1''\<rparr>" "string_entry ''b'' = \<lparr>mi_key = ''b'', mi_value = []\<rparr>"
    "hex_text [CHR 0x01] = ''01''" "hex_text ''sig'' = ''73:69:67''" "pkey_id_type ! 1 = ''X509''" "pkey_hash_algo ! 4 = ''sha256''"
    by code_simp+
  show ?thesis
    using module_info_complete [OF at _ alloc small_loaded s _ small_strings(1) small_build_id] by (simp add: e pkey_id_type_def)
qed

text \<open>
  C38. A defect: when memory runs out while the entries of a module with a file are collected,
  \<open>kmod_module_get_info\<close> does not fail. It returns 0 and leaves a list with the entries made so far
  (\<open>ret\<close> still holds the answer of \<open>kmod_module_load_elf\<close>), where the documentation promises a
  negative number.
\<close>

theorem module_info_enomem_lost:
  assumes "module_at ctx key = Some m" and "km_builtin m = KMOD_MODULE_BUILTIN_NO" and "loaded mem elf md"
    and "elf_strings (ie_alloc env) elf = Some (Inr strings)"
    and "append_strings (ie_alloc env) strings [] = (False, list)"
  shows "kmod_module_get_info env ctx key md = Some (Some (Inr 0, list, md, ctx))"
proof -
  have "md_elf md = Some elf" using assms(3) by (auto simp: loaded_def)
  then show ?thesis
    using not_builtin [OF assms(1,2)] load_elf_loaded [OF assms(3), of env ctx key] assms(4,5)
    by (simp add: kmod_module_get_info_def info_of_strings_def info_error_def)
qed

theorem module_info_enomem_lost_witness:
  "kmod_module_get_info (small_info_env (\<lambda>n. n \<noteq> 24)) small_info_ctx ''a'' small_mod_data
   = Some (Some (Inr 0, [], small_mod_data, small_info_ctx))"
proof -
  have at: "module_at small_info_ctx ''a'' = Some \<lparr>km_name = ''a'', km_path = Some ''/a.ko'', km_dep = [], km_options = None,
      km_install_commands = None, km_remove_commands = None, km_alias = None, km_init_dep = False, km_init_options = False,
      km_init_install_commands = False, km_init_remove_commands = False, km_builtin = KMOD_MODULE_BUILTIN_NO\<rparr>"
    by (simp add: module_at_def small_info_ctx_def)
  have alloc: "ie_alloc (small_info_env (\<lambda>n. n \<noteq> 24)) = (\<lambda>n. n \<noteq> 24)" by (simp add: small_info_env_def)
  have "append_strings (ie_alloc (small_info_env (\<lambda>n. n \<noteq> 24))) [''a=1'', ''b''] [] = (False, [])"
    unfolding alloc by code_simp
  then show ?thesis
    using module_info_enomem_lost [OF at _ small_loaded, of "small_info_env (\<lambda>n. n \<noteq> 24)" "[''a=1'', ''b'']" "[]"] small_strings(2)
    by (simp add: alloc)
qed

end
