(* ===== verification/Kmod_Insert.thy ===== *)
theory Kmod_Insert
  imports Kmod_Info Kmod_Elf_Strip
begin

text \<open>
  The part of \<open>libkmod/libkmod-module.c\<close> that hands a module to the kernel or takes it away, and the
  expansion of install and remove commands, which \<open>tools/modprobe.c\<close> repeats. The kernel is a record
  of operations on its state: the system calls, and the command interpreter.
\<close>

section \<open>Inserting and removing\<close>

record 'k kernel =
  kn_finit_module :: "string \<Rightarrow> string \<Rightarrow> u32 \<Rightarrow> 'k \<Rightarrow> errno option \<times> 'k"
  kn_init_module :: "bytes \<Rightarrow> string \<Rightarrow> 'k \<Rightarrow> errno option \<times> 'k"
  kn_delete_module :: "string \<Rightarrow> u32 \<Rightarrow> 'k \<Rightarrow> errno option \<times> 'k"
  kn_system :: "string \<Rightarrow> string \<Rightarrow> 'k \<Rightarrow> nat option \<times> 'k"

definition MODULE_INIT_IGNORE_MODVERSIONS :: u32 where "MODULE_INIT_IGNORE_MODVERSIONS = 1"
definition MODULE_INIT_IGNORE_VERMAGIC :: u32 where "MODULE_INIT_IGNORE_VERMAGIC = 2"
definition MODULE_INIT_COMPRESSED_FILE :: u32 where "MODULE_INIT_COMPRESSED_FILE = 4"
definition KMOD_REMOVE_FORCE :: u32 where "KMOD_REMOVE_FORCE = 0x200"
definition KMOD_REMOVE_NOWAIT :: u32 where "KMOD_REMOVE_NOWAIT = 0x800"

definition kmod_module_remove_module :: "'k kernel \<Rightarrow> kmod_module \<Rightarrow> u32 \<Rightarrow> 'k \<Rightarrow> errno option \<times> 'k" where
  "kmod_module_remove_module kn m flags k =
     kn_delete_module kn (km_name m) ((flags AND KMOD_REMOVE_FORCE) OR KMOD_REMOVE_NOWAIT) k"

text \<open>The file behind the descriptor is named by its path.\<close>

definition do_finit_module ::
    "'k kernel \<Rightarrow> kmod_file_compression_type \<Rightarrow> kmod_file_compression_type \<Rightarrow> u32 \<Rightarrow> string \<Rightarrow> string \<Rightarrow> 'k
      \<Rightarrow> errno option \<times> 'k" where
  "do_finit_module kn compression kernel_compression flags path args k =
     (if \<not> (compression = KMOD_FILE_COMPRESSION_NONE \<or> compression = kernel_compression) then (Some ENOSYS, k)
      else
        kn_finit_module kn path args
          ((if compression \<noteq> KMOD_FILE_COMPRESSION_NONE then MODULE_INIT_COMPRESSED_FILE else 0)
           OR (if flags AND KMOD_INSERT_FORCE_VERMAGIC \<noteq> 0 then MODULE_INIT_IGNORE_VERMAGIC else 0)
           OR (if flags AND KMOD_INSERT_FORCE_MODVERSION \<noteq> 0 then MODULE_INIT_IGNORE_MODVERSIONS else 0)) k)"

definition stripped_image ::
    "(size_t \<Rightarrow> bool) \<Rightarrow> u32 \<Rightarrow> bytes \<Rightarrow> kmod_elf option \<Rightarrow> (bytes result \<times> kmod_elf option) option" where
  "stripped_image alloc flags mem elf =
     (if flags AND (KMOD_INSERT_FORCE_VERMAGIC OR KMOD_INSERT_FORCE_MODVERSION) = 0 then Some (Inr mem, elf)
      else
        do { r \<leftarrow> (case elf of Some e \<Rightarrow> Some (Inr e) | None \<Rightarrow> kmod_elf_new alloc mem);
             case r of
               Inl e \<Rightarrow> Some (Inl e, elf)
             | Inr e \<Rightarrow> do { stripped \<leftarrow> kmod_elf_strip alloc e flags; Some (stripped, Some e) } })"

definition do_init_module ::
    "'s info_env \<Rightarrow> 'k kernel \<Rightarrow> kmod_ctx \<Rightarrow> string \<Rightarrow> mod_data \<Rightarrow> kmod_file \<Rightarrow> u32 \<Rightarrow> string \<Rightarrow> 'k
      \<Rightarrow> (errno option \<times> mod_data \<times> 'k) option option" where
  "do_init_module env kn ctx key md file flags args k =
     (case file_contents env ctx key file of
        None \<Rightarrow> None
      | Some None \<Rightarrow> Some None
      | Some (Some (Inl e, file)) \<Rightarrow> Some (Some (Some e, md\<lparr>md_file := Some file\<rparr>, k))
      | Some (Some (Inr mem, file)) \<Rightarrow>
          (case stripped_image (ie_alloc env) flags mem (md_elf md) of
             None \<Rightarrow> None
           | Some (Inl e, elf) \<Rightarrow> Some (Some (Some e, \<lparr>md_file = Some file, md_elf = elf\<rparr>, k))
           | Some (Inr img, elf) \<Rightarrow>
               (let (err, k) = kn_init_module kn img args k in
                Some (Some (err, \<lparr>md_file = Some file, md_elf = elf\<rparr>, k)))))"

definition kmod_module_insert_module ::
    "'s info_env \<Rightarrow> 'k kernel \<Rightarrow> kmod_file_compression_type \<Rightarrow> kmod_ctx \<Rightarrow> string \<Rightarrow> mod_data \<Rightarrow> u32 \<Rightarrow> string option
      \<Rightarrow> 'k \<Rightarrow> (errno option \<times> mod_data \<times> kmod_ctx \<times> 'k) option option" where
  "kmod_module_insert_module env kn kernel_compression ctx key md flags xopts k =
     (let args = (case xopts of None \<Rightarrow> [] | Some s \<Rightarrow> s) in
      case kmod_module_get_path (ie_lib env) ctx key of
        None \<Rightarrow> None
      | Some (None, ctx) \<Rightarrow> Some (Some (Some ENOENT, md, ctx, k))
      | Some (Some path, ctx) \<Rightarrow>
          (case (case md_file md of
                   Some file \<Rightarrow> Some (Some (Inr file))
                 | None \<Rightarrow> kmod_file_open (ie_fuel env) (ie_alloc env) (ie_files env path)) of
             None \<Rightarrow> None
           | Some None \<Rightarrow> Some None
           | Some (Some (Inl e)) \<Rightarrow> Some (Some (Some e, md, ctx, k))
           | Some (Some (Inr file)) \<Rightarrow>
               (let (err, k) = do_finit_module kn (kf_compression file) kernel_compression flags path args k in
                if err = Some ENOSYS
                then map_option (map_option (\<lambda>(err, md, k). (err, md, ctx, k)))
                       (do_init_module env kn ctx key (md\<lparr>md_file := Some file\<rparr>) file flags args k)
                else Some (Some (err, md\<lparr>md_file := Some file\<rparr>, ctx, k)))))"

section \<open>Commands\<close>

definition CMDLINE_OPTS :: string where
  "CMDLINE_OPTS = ''$CMDLINE_OPTS''"

text \<open>\<open>strstr\<close>: the position of the first occurrence.\<close>

fun strstr :: "string \<Rightarrow> string \<Rightarrow> nat option" where
  "strstr [] t = (if t = [] then Some 0 else None)"
| "strstr (c # s) t = (if take (length t) (c # s) = t then Some 0 else map_option Suc (strstr s t))"

text \<open>
  The loop replaces the first \<open>$CMDLINE_OPTS\<close> and starts again at the beginning of the result; the
  outer \<open>None\<close> is the lack of fuel.
\<close>

primrec expand_command :: "nat \<Rightarrow> (size_t \<Rightarrow> bool) \<Rightarrow> string \<Rightarrow> string \<Rightarrow> string result option" where
  "expand_command 0 alloc opts cmd = None"
| "expand_command (Suc fuel) alloc opts cmd =
     (case strstr cmd CMDLINE_OPTS of
        None \<Rightarrow> Some (Inr cmd)
      | Some p \<Rightarrow>
          if \<not> alloc (of_nat (length cmd) - of_nat (length CMDLINE_OPTS) + of_nat (length opts) + 1)
          then Some (Inl ENOMEM)
          else expand_command fuel alloc opts (take p cmd @ opts @ drop (p + length CMDLINE_OPTS) cmd))"

text \<open>\<open>system\<close> answers a wait status, None if it could not run the command.\<close>

definition WEXITSTATUS :: "nat \<Rightarrow> nat" where
  "WEXITSTATUS status = status div 256 mod 256"

definition command_do :: "'k kernel \<Rightarrow> string \<Rightarrow> string \<Rightarrow> 'k \<Rightarrow> errno option \<times> 'k" where
  "command_do kn modname cmd k =
     (case kn_system kn modname cmd k of
        (None, k) \<Rightarrow> (Some EINVAL, k)
      | (Some status, k) \<Rightarrow> (if WEXITSTATUS status \<noteq> 0 then Some EINVAL else None, k))"

definition module_do_install_commands ::
    "nat \<Rightarrow> (size_t \<Rightarrow> bool) \<Rightarrow> 'k kernel \<Rightarrow> (string \<Rightarrow> string \<Rightarrow> 'k \<Rightarrow> errno option \<times> 'k) option \<Rightarrow> string \<Rightarrow> string
      \<Rightarrow> string option \<Rightarrow> 'k \<Rightarrow> (errno option \<times> 'k) option" where
  "module_do_install_commands fuel alloc kn run_install modname command xopts k =
     (if \<not> alloc (strsize command) then Some (Some ENOMEM, k)
      else
        do { r \<leftarrow> expand_command fuel alloc (case xopts of None \<Rightarrow> [] | Some s \<Rightarrow> s) command;
             Some (case r of
                     Inl e \<Rightarrow> (Some e, k)
                   | Inr cmd \<Rightarrow>
                       (case run_install of
                          Some run \<Rightarrow> run modname cmd k
                        | None \<Rightarrow> command_do kn modname cmd k)) })"

section \<open>Occurrences\<close>

definition occurs :: "string \<Rightarrow> string \<Rightarrow> bool" where
  "occurs t s \<longleftrightarrow> (\<exists>a b. s = a @ t @ b)"

lemma strstr_Some:
  "strstr s t = Some p \<Longrightarrow> s = take p s @ t @ drop (p + length t) s"
proof (induction s t arbitrary: p rule: strstr.induct)
  case (2 c s t)
  show ?case
  proof (cases "take (length t) (c # s) = t")
    case True
    then show ?thesis using 2(2) append_take_drop_id [of "length t" "c # s"] by simp
  next
    case False
    then obtain q where q: "strstr s t = Some q" "p = Suc q" using 2(2) by auto
    then show ?thesis using "2.IH" [OF False q(1)] by simp
  qed
qed (simp split: if_splits)

lemma strstr_first:
  "t \<noteq> [] \<Longrightarrow> hd t \<notin> set a \<Longrightarrow> strstr (a @ t @ b) t = Some (length a)"
proof (induction a)
  case Nil
  then show ?case by (cases t) auto
next
  case (Cons c a)
  then have "take (length t) (c # a @ t @ b) \<noteq> t" by (cases t) auto
  then show ?case using Cons by simp
qed

lemma strstr_None: "strstr s t = None \<longleftrightarrow> \<not> occurs t s"
proof (induction s t rule: strstr.induct)
  case (1 t)
  then show ?case by (auto simp: occurs_def)
next
  case (2 c s t)
  show ?case
  proof (cases "take (length t) (c # s) = t")
    case True
    then have "c # s = [] @ t @ drop (length t) (c # s)" by (metis append_Nil append_take_drop_id)
    then have "occurs t (c # s)" unfolding occurs_def by blast
    then show ?thesis using True by simp
  next
    case False
    have "occurs t (c # s) \<longleftrightarrow> occurs t s"
    proof
      assume "occurs t (c # s)"
      then obtain a b where ab: "c # s = a @ t @ b" by (auto simp: occurs_def)
      then show "occurs t s" using False by (cases a) (auto simp: occurs_def)
    next
      assume "occurs t s"
      then show "occurs t (c # s)" unfolding occurs_def by (metis append_Cons)
    qed
    then show ?thesis using False 2 by simp
  qed
qed

lemma CMDLINE_OPTS_simps: "CMDLINE_OPTS \<noteq> []" "hd CMDLINE_OPTS = CHR ''$''" "count_list CMDLINE_OPTS (CHR ''$'') = 1"
  by (simp_all add: CMDLINE_OPTS_def)

lemma occurs_dollar: "occurs CMDLINE_OPTS s \<Longrightarrow> CHR ''$'' \<in> set s"
  by (auto simp: occurs_def CMDLINE_OPTS_def)

lemma expand_once:
  assumes "strstr cmd CMDLINE_OPTS = Some p"
  shows "expand_command (Suc fuel) (\<lambda>_. True) opts cmd
    = expand_command fuel (\<lambda>_. True) opts (take p cmd @ opts @ drop (p + length CMDLINE_OPTS) cmd)"
  using assms by simp

lemma expand_ends:
  assumes "CHR ''$'' \<notin> set opts"
  shows "count_list cmd (CHR ''$'') < fuel \<Longrightarrow>
    \<exists>r. expand_command fuel (\<lambda>_. True) opts cmd = Some (Inr r) \<and> \<not> occurs CMDLINE_OPTS r"
proof (induction fuel arbitrary: cmd)
  case (Suc fuel)
  show ?case
  proof (cases "strstr cmd CMDLINE_OPTS")
    case None
    then have "\<not> occurs CMDLINE_OPTS cmd" using strstr_None by blast
    then show ?thesis using None by simp
  next
    case (Some p)
    have "count_list cmd (CHR ''$'') = count_list (take p cmd @ CMDLINE_OPTS @ drop (p + length CMDLINE_OPTS) cmd) (CHR ''$'')"
      using strstr_Some [OF Some] by simp
    then have "count_list (take p cmd @ opts @ drop (p + length CMDLINE_OPTS) cmd) (CHR ''$'') < fuel"
      using Suc.prems assms by (simp add: CMDLINE_OPTS_simps)
    then show ?thesis unfolding expand_once [OF Some] by (rule Suc.IH)
  qed
qed simp

section \<open>Properties\<close>

text \<open>
  C8. From the compressed file to the kernel: a module file with the magic number of gzip, in a
  kernel that does not read gzip itself, is opened, recognised and decompressed, and the system call
  gets exactly the decompressed module and the options, whatever the sizes of the reads; its answer
  is the answer of the library. The file is not offered to the kernel as it is.
\<close>

theorem insert_decompresses:
  fixes env :: "'s info_env"
  assumes "module_at ctx key = Some m" and "km_path m = Some path" and "ie_alloc env = (\<lambda>_. True)"
    and "readable n raw (ie_files env path)" and "6 \<le> length raw" and "compression_of raw = KMOD_FILE_COMPRESSION_ZLIB"
    and "cl_zlib (ie_libs env path)" and "cl_dup (ie_libs env path) = None" and "cl_gzdopen (ie_libs env path) = None"
    and "gz_spec content (cl_gzread (ie_libs env path))" and "\<forall>k pos n. \<not> isl (cl_gzread (ie_libs env path) k pos n)"
    and "n + 6 < ie_fuel env" and "length content < ie_fuel env" and "kernel_compression \<noteq> KMOD_FILE_COMPRESSION_ZLIB"
    and "kn_init_module kn content args k = (err, k')"
  shows "\<exists>md. kmod_module_insert_module env kn kernel_compression ctx key \<lparr>md_file = None, md_elf = None\<rparr> 0 (Some args) k
    = Some (Some (err, md, ctx, k'))"
proof -
  let ?f = "\<lparr>kf_compression = KMOD_FILE_COMPRESSION_ZLIB, kf_memory = None\<rparr>"
  have op: "kmod_file_open (ie_fuel env) (\<lambda>_. True) (ie_files env path) = Some (Some (Inr ?f))"
    using open_readable [OF assms(4) _ assms(12), of "\<lambda>_. True"] assms(5,6) by simp
  have "gz_loop (ie_fuel env) (\<lambda>_. True) (cl_gzread (ie_libs env path)) 0 0 [] = Some (Some (Inr content))"
  proof -
    obtain r where r: "gz_loop (ie_fuel env) (\<lambda>_. True) (cl_gzread (ie_libs env path)) 0 0 [] = Some (Some r)"
      "case r of Inl e \<Rightarrow> \<exists>k pos n x. cl_gzread (ie_libs env path) k pos n = Inl x | Inr y \<Rightarrow> y = content"
      using gz_loop_loads [OF assms(10), of 0 "[]" "ie_fuel env" "\<lambda>_. True" 0] assms(13)
      by (fastforce split: sum.splits)
    then show ?thesis using assms(11) by (cases r) (auto, metis isl_def)
  qed
  then have "file_load (ie_fuel env) (\<lambda>_. True) (ie_files env path) (ie_libs env path) KMOD_FILE_COMPRESSION_ZLIB
      = Some (Some (Inr content))"
    using assms(7-9) by (simp add: file_load_def kmod_file_load_zlib_def)
  then have fc: "file_contents env ctx key ?f = Some (Some (Inr content, ?f\<lparr>kf_memory := Some content\<rparr>))"
    using assms(1-3) by (simp add: file_contents_def kmod_file_get_contents_def)
  have path: "kmod_module_get_path (ie_lib env) ctx key = Some (Some path, ctx)"
    using assms(1,2) by (simp add: kmod_module_get_path_def)
  have fin: "do_finit_module kn KMOD_FILE_COMPRESSION_ZLIB kernel_compression 0 path args k = (Some ENOSYS, k)"
    using assms(14) by (simp add: do_finit_module_def)
  show ?thesis
    using op fc path fin assms(3,15)
    by (simp add: kmod_module_insert_module_def do_init_module_def stripped_image_def)
qed

text \<open>A kernel that notes what it was given, and the module of \<open>small_info_ctx\<close> in a gzip file.\<close>

definition noting_kernel :: "(bytes \<times> string) list kernel" where
  "noting_kernel =
     \<lparr>kn_finit_module = (\<lambda>_ _ _ k. (Some EINVAL, k)), kn_init_module = (\<lambda>img args k. (None, k @ [(img, args)])),
      kn_delete_module = (\<lambda>_ _ k. (None, k)), kn_system = (\<lambda>_ _ k. (Some 0, k))\<rparr>"

definition gzip_info_env :: "unit info_env" where
  "gzip_info_env = (small_info_env (\<lambda>_. True))
     \<lparr>ie_fuel := 10,
      ie_libs := (\<lambda>_. \<lparr>cl_zlib = True, cl_dup = None, cl_gzdopen = None,
        cl_gzread = (\<lambda>k pos n. Inr (take (min n 3) (drop pos ''kernel.o''))), cl_zstd = False,
        cl_frame_size = (\<lambda>_. 0), cl_decompress = (\<lambda>_ _. None), cl_xz = False, cl_read = (\<lambda>_ _. Inr []),
        cl_decoder = (LZMA_OK, ()), cl_lzma_code = (\<lambda>_ _ _ _. (LZMA_BUF_ERROR, 0, [], ()))\<rparr>)\<rparr>"

theorem insert_decompresses_witness:
  "\<exists>md. kmod_module_insert_module gzip_info_env noting_kernel KMOD_FILE_COMPRESSION_XZ small_info_ctx ''a''
     \<lparr>md_file = None, md_elf = None\<rparr> 0 (Some ''debug=1'') []
   = Some (Some (None, md, small_info_ctx, [(''kernel.o'', ''debug=1'')]))"
proof -
  have at: "module_at small_info_ctx ''a'' = Some \<lparr>km_name = ''a'', km_path = Some ''/a.ko'', km_dep = [], km_options = None,
      km_install_commands = None, km_remove_commands = None, km_alias = None, km_init_dep = False, km_init_options = False,
      km_init_install_commands = False, km_init_remove_commands = False, km_builtin = KMOD_MODULE_BUILTIN_NO\<rparr>"
    by (simp add: module_at_def small_info_ctx_def)
  have alloc: "ie_alloc gzip_info_env = (\<lambda>_. True)" by (simp add: gzip_info_env_def small_info_env_def)
  have r: "readable 1 (magic_zlib @ ''module'') (ie_files gzip_info_env ''/a.ko'')"
    by (auto simp: gzip_info_env_def small_info_env_def readable_def gzip_env_def pread_spec_def transient_def min_def
          magic_defs word_le_nat_alt unat_eq_zero split: if_splits)
  have c: "compression_of (magic_zlib @ ''module'') = KMOD_FILE_COMPRESSION_ZLIB" "6 \<le> length (magic_zlib @ ''module'')"
    by (simp_all add: compression_of_def magic_defs strstartswith_def)
  have g: "gz_spec ''kernel.o'' (cl_gzread (ie_libs gzip_info_env ''/a.ko''))"
    by (auto simp: gzip_info_env_def gz_spec_def min_def)
  show ?thesis
    by (rule insert_decompresses [OF at _ alloc r c(2,1) _ _ _ g]) (simp_all add: gzip_info_env_def noting_kernel_def)
qed

text \<open>
  C36. The expansion of a command ends if the options have no dollar sign: after as many rounds as the
  command has dollar signs no \<open>$CMDLINE_OPTS\<close> is left, and a command with a single dollar sign has its
  variable replaced by the options, the rest unchanged.
\<close>

theorem install_command_expansion:
  assumes "CHR ''$'' \<notin> set opts" and "count_list cmd (CHR ''$'') < fuel"
  shows "\<exists>r. expand_command fuel (\<lambda>_. True) opts cmd = Some (Inr r) \<and> \<not> occurs CMDLINE_OPTS r
    \<and> (\<forall>a b. cmd = a @ CMDLINE_OPTS @ b \<longrightarrow> CHR ''$'' \<notin> set a \<union> set b \<longrightarrow> r = a @ opts @ b)"
proof -
  obtain r where r: "expand_command fuel (\<lambda>_. True) opts cmd = Some (Inr r)" "\<not> occurs CMDLINE_OPTS r"
    using expand_ends [OF assms] by blast
  have "r = a @ opts @ b" if cmd: "cmd = a @ CMDLINE_OPTS @ b" and free: "CHR ''$'' \<notin> set a \<union> set b" for a b
  proof -
    obtain f where f: "fuel = Suc f" "0 < f" using assms(2) cmd by (cases fuel) (auto simp: CMDLINE_OPTS_simps)
    then obtain g where g: "f = Suc g" by (cases f) auto
    have "strstr cmd CMDLINE_OPTS = Some (length a)"
      unfolding cmd using free CMDLINE_OPTS_simps by (intro strstr_first) auto
    then have "expand_command fuel (\<lambda>_. True) opts cmd = expand_command f (\<lambda>_. True) opts (a @ opts @ b)"
      unfolding f(1) by (subst expand_once) (auto simp: cmd)
    moreover have "strstr (a @ opts @ b) CMDLINE_OPTS = None"
    proof -
      have "CHR ''$'' \<notin> set (a @ opts @ b)" using assms(1) free by simp
      then show ?thesis unfolding strstr_None by (blast dest: occurs_dollar)
    qed
    ultimately show ?thesis using r(1) g by simp
  qed
  then show ?thesis using r by blast
qed

theorem install_command_expansion_witness:
  "expand_command 2 (\<lambda>_. True) ''debug=1'' (''insmod a.ko '' @ CMDLINE_OPTS @ '' && true'')
   = Some (Inr (''insmod a.ko '' @ ''debug=1'' @ '' && true''))"
proof -
  have free: "CHR ''$'' \<notin> set ''insmod a.ko '' \<union> set '' && true''" "CHR ''$'' \<notin> set ''debug=1''" by simp_all
  have "count_list (''insmod a.ko '' @ CMDLINE_OPTS @ '' && true'') (CHR ''$'') < 2" by (simp add: CMDLINE_OPTS_def)
  from install_command_expansion [OF free(2) this] free(1) show ?thesis by blast
qed

text \<open>
  C37. A defect of the expansion: if the options themselves contain \<open>$CMDLINE_OPTS\<close>, every round puts the
  variable back, and the loop does not end for any command that uses the variable.
\<close>

theorem install_command_diverges:
  assumes "occurs CMDLINE_OPTS opts" and "occurs CMDLINE_OPTS cmd"
  shows "expand_command fuel (\<lambda>_. True) opts cmd = None"
  using assms(2)
proof (induction fuel arbitrary: cmd)
  case (Suc fuel)
  then obtain p where p: "strstr cmd CMDLINE_OPTS = Some p" using strstr_None by (metis not_None_eq)
  have "occurs CMDLINE_OPTS (take p cmd @ opts @ drop (p + length CMDLINE_OPTS) cmd)"
    using assms(1) unfolding occurs_def by (metis append.assoc)
  then show ?case unfolding expand_once [OF p] by (rule Suc.IH)
qed simp

theorem install_command_diverges_witness:
  "expand_command 1000 (\<lambda>_. True) CMDLINE_OPTS (''insmod a.ko '' @ CMDLINE_OPTS) = None"
proof -
  have o: "occurs CMDLINE_OPTS CMDLINE_OPTS" unfolding occurs_def by (metis append.left_neutral append.right_neutral)
  have "occurs CMDLINE_OPTS (''insmod a.ko '' @ CMDLINE_OPTS)" unfolding occurs_def by (metis append.right_neutral)
  from install_command_diverges [OF o this, of 1000] show ?thesis .
qed

end
