(* ===== verification/Kmod_Sysfs.thy ===== *)
theory Kmod_Sysfs
  imports Kmod_Module Kmod_Io
begin

text \<open>
  The numbers of \<open>shared/util.c\<close> and the part of \<open>libkmod/libkmod-module.c\<close> that asks the running
  kernel about a module: its state, size, reference count, holders and sections, read from the files
  of \<open>/sys/module\<close>, and from \<open>/proc/modules\<close> on old kernels. What these files say is the record
  \<open>sys_env\<close>. The loops that read take fuel as in \<open>Kmod_Io\<close>: the inner \<open>None\<close> says that a read is
  still repeated.
\<close>

section \<open>Numbers\<close>

definition isspace :: "char \<Rightarrow> bool" where
  "isspace c \<longleftrightarrow> c \<in> {CHR '' '', CHR 0x09, CHR 0x0A, CHR 0x0B, CHR 0x0C, CHR 0x0D}"

definition digit :: "nat \<Rightarrow> char \<Rightarrow> nat option" where
  "digit base c =
     (let n = code c;
          v = (if 48 \<le> n \<and> n \<le> 57 then n - 48 else if 97 \<le> n \<and> n \<le> 122 then n - 87
               else if 65 \<le> n \<and> n \<le> 90 then n - 55 else 36) in
      if v < base then Some v else None)"

primrec scan_digits :: "nat \<Rightarrow> string \<Rightarrow> nat \<Rightarrow> nat \<Rightarrow> nat \<times> nat" where
  "scan_digits base [] v n = (v, n)"
| "scan_digits base (c # s) v n =
     (case digit base c of None \<Rightarrow> (v, n) | Some d \<Rightarrow> scan_digits base s (v * base + d) (Suc n))"

text \<open>
  What \<open>strtol\<close> and \<open>strtoul\<close> have in common: the sign, the magnitude, and where the number ends, 0 if
  there is none. White space, a sign, and for base 16 a prefix \<open>0x\<close> may come before the digits.
\<close>

definition scan_number :: "nat \<Rightarrow> string \<Rightarrow> bool \<times> nat \<times> nat" where
  "scan_number base s =
     (let i = length (takeWhile isspace s);
          neg = (char_at s i = CHR ''-'');
          j = (if neg \<or> char_at s i = CHR ''+'' then i + 1 else i);
          h = (if base = 16 \<and> char_at s j = CHR ''0'' \<and> char_at s (j + 1) \<in> {CHR ''x'', CHR ''X''}
                  \<and> digit 16 (char_at s (j + 2)) \<noteq> None then j + 2 else j);
          (v, n) = scan_digits base (drop h s) 0 0 in
      (neg, v, if n = 0 then 0 else h + n))"

text \<open>The value, the end of the number, and whether \<open>errno\<close> is \<open>ERANGE\<close>.\<close>

definition strtol :: "string \<Rightarrow> nat \<Rightarrow> int \<times> nat \<times> bool" where
  "strtol s base =
     (let (neg, v, e) = scan_number base s; x = (if neg then - int v else int v) in
      if x < - (2 ^ 63) then (- (2 ^ 63), e, True)
      else if 2 ^ 63 \<le> x then (2 ^ 63 - 1, e, True)
      else (x, e, False))"

definition strtoul :: "string \<Rightarrow> nat \<Rightarrow> u64 \<times> nat \<times> bool" where
  "strtoul s base =
     (let (neg, v, e) = scan_number base s in
      if 2 ^ 64 \<le> v then (- 1, e, True) else (if neg then - of_nat v else of_nat v, e, False))"

type_synonym read_fn = "nat \<Rightarrow> size_t \<Rightarrow> char list result"

text \<open>
  Both functions read the start of a file into 32 bytes; \<open>*value\<close> is 0 when they fail. They want
  white space behind the number.
\<close>

definition read_number ::
    "nat \<Rightarrow> read_fn \<Rightarrow> (string \<Rightarrow> 'a \<times> nat \<times> bool) \<Rightarrow> 'a result option option" where
  "read_number fuel read conv =
     (case read_str_safe fuel read (replicate 32 None) 32 of
        None \<Rightarrow> None
      | Some None \<Rightarrow> Some None
      | Some (Some (Inl e, buf)) \<Rightarrow> Some (Some (Inl e))
      | Some (Some (Inr n, buf)) \<Rightarrow>
          do { s \<leftarrow> read_cstr buf;
               let (v, e, range) = conv s;
               Some (Some (if e = 0 \<or> \<not> isspace (char_at s e) \<or> range then Inl EINVAL else Inr v)) })"

definition read_str_long :: "nat \<Rightarrow> read_fn \<Rightarrow> nat \<Rightarrow> int result option option" where
  "read_str_long fuel read base = read_number fuel read (\<lambda>s. strtol s base)"

definition read_str_ulong :: "nat \<Rightarrow> read_fn \<Rightarrow> nat \<Rightarrow> u64 result option option" where
  "read_str_ulong fuel read base = read_number fuel read (\<lambda>s. strtoul s base)"

section \<open>State and reference count\<close>

record sys_env =
  sy_open :: "string \<Rightarrow> read_fn result"
  sy_stat_dir :: "string \<Rightarrow> bool result"
  sy_readdir :: "string \<Rightarrow> string list option"
  sy_proc_modules :: "char list result"

datatype kmod_module_initstate =
    KMOD_MODULE_BUILTIN | KMOD_MODULE_LIVE | KMOD_MODULE_COMING | KMOD_MODULE_GOING

definition read_initstate :: "nat \<Rightarrow> read_fn \<Rightarrow> kmod_module_initstate result option option" where
  "read_initstate fuel read =
     (case read_str_safe fuel read (replicate 32 None) 32 of
        None \<Rightarrow> None
      | Some None \<Rightarrow> Some None
      | Some (Some (Inl e, buf)) \<Rightarrow> Some (Some (Inl e))
      | Some (Some (Inr n, buf)) \<Rightarrow>
          do { s \<leftarrow> read_cstr buf;
               Some (Some (if streq s (''live'' @ [CHR 0x0A]) then Inr KMOD_MODULE_LIVE
                           else if streq s (''coming'' @ [CHR 0x0A]) then Inr KMOD_MODULE_COMING
                           else if streq s (''going'' @ [CHR 0x0A]) then Inr KMOD_MODULE_GOING
                           else Inl EINVAL)) })"

text \<open>
  A module without the file \<open>initstate\<close> but with a directory is about to be initialised. If there is
  something else in the place of the directory, the error of \<open>open\<close> is returned.
\<close>

definition kmod_module_get_initstate ::
    "nat \<Rightarrow> lib_env \<Rightarrow> sys_env \<Rightarrow> kmod_ctx \<Rightarrow> string \<Rightarrow> (kmod_module_initstate result \<times> kmod_ctx) option option" where
  "kmod_module_get_initstate fuel env sys ctx key =
     (case kmod_module_is_builtin env key ctx of
        None \<Rightarrow> None
      | Some (True, ctx) \<Rightarrow> Some (Some (Inr KMOD_MODULE_BUILTIN, ctx))
      | Some (False, ctx) \<Rightarrow>
          (case module_at ctx key of
             None \<Rightarrow> None
           | Some m \<Rightarrow>
               (let dir = ''/sys/module/'' @ km_name m; path = dir @ ''/initstate'' in
                if PATH_MAX \<le> length path then Some (Some (Inl ENAMETOOLONG, ctx))
                else
                  (case sy_open sys path of
                     Inl e \<Rightarrow>
                       Some (Some (case sy_stat_dir sys dir of
                                     Inl e \<Rightarrow> Inl e
                                   | Inr is_dir \<Rightarrow> if is_dir then Inr KMOD_MODULE_COMING else Inl e, ctx))
                   | Inr read \<Rightarrow> map_option (map_option (\<lambda>r. (r, ctx))) (read_initstate fuel read)))))"

definition sys_path :: "kmod_module \<Rightarrow> string \<Rightarrow> string" where
  "sys_path m attr = take (PATH_MAX - 1) (''/sys/module/'' @ km_name m @ attr)"

text \<open>The conversion to \<open>int\<close> at the end keeps the low 32 bits; \<open>snprintf\<close> cuts a path that is too long.\<close>

definition kmod_module_get_refcnt :: "nat \<Rightarrow> sys_env \<Rightarrow> kmod_module \<Rightarrow> int result option option" where
  "kmod_module_get_refcnt fuel sys m =
     (case sy_open sys (sys_path m ''/refcnt'') of
        Inl e \<Rightarrow> Some (Some (Inl e))
      | Inr read \<Rightarrow>
          map_option (map_option (map_sum id (\<lambda>v. sint (word_of_int v :: 32 word)))) (read_str_long fuel read 10))"

section \<open>Size\<close>

text \<open>\<open>fgets\<close> into 4096 bytes, on the characters not yet read, and the tokens of \<open>strtok_r\<close>.\<close>

definition fgets :: "char list \<Rightarrow> (string \<times> char list) option" where
  "fgets fp =
     (if fp = [] then None
      else
        (let n = min 4095 (length (takeWhile (\<lambda>c. c \<noteq> CHR 0x0A) fp) + 1) in
         Some (take n fp, drop n fp)))"

definition strtok :: "string \<Rightarrow> (string \<times> string) option" where
  "strtok s =
     (let blank = (\<lambda>c. c = CHR '' '' \<or> c = CHR 0x09); r = dropWhile blank s in
      if r = [] then None
      else Some (takeWhile (\<lambda>c. \<not> blank c) r, drop 1 (dropWhile (\<lambda>c. \<not> blank c) r)))"

lemma fgets_shorter: "fgets fp = Some (ln, fp') \<Longrightarrow> length fp' < length fp"
  by (auto simp: fgets_def Let_def split: if_splits)

function eat_line :: "string \<Rightarrow> char list \<Rightarrow> char list" where
  "eat_line ln fp =
     (if ln \<noteq> [] \<and> last ln \<noteq> CHR 0x0A then
        (case fgets fp of None \<Rightarrow> fp | Some (ln, fp) \<Rightarrow> eat_line ln fp)
      else fp)"
  by pat_completeness auto
termination
  by (relation "measure (\<lambda>(ln, fp). length fp)") (auto dest: fgets_shorter)

declare eat_line.simps [simp del]

lemma eat_line_shorter: "length (eat_line ln fp) \<le> length fp"
proof (induction ln fp rule: eat_line.induct)
  case (1 ln fp)
  show ?case
  proof (cases "fgets fp")
    case (Some p)
    then have "length (snd p) < length fp" using fgets_shorter by (metis prod.collapse)
    then show ?thesis using 1 [of p "fst p" "snd p"] Some by (subst eat_line.simps) (auto split: prod.splits)
  qed (subst eat_line.simps, simp)
qed

definition size_field :: "string \<Rightarrow> int result" where
  "size_field rest =
     (case strtok rest of
        None \<Rightarrow> Inl ENOENT
      | Some (tok, rest) \<Rightarrow>
          (let (v, e, range) = strtol tok 10 in
           if e = 0 \<or> char_at tok e \<noteq> NUL \<or> range \<or> v < 0 then Inl ENOENT else Inr v))"

function size_loop :: "string \<Rightarrow> char list \<Rightarrow> int result" where
  "size_loop name fp =
     (case fgets fp of
        None \<Rightarrow> Inl ENOENT
      | Some (ln, fp) \<Rightarrow>
          (case strtok ln of
             None \<Rightarrow> size_loop name (eat_line ln fp)
           | Some (tok, rest) \<Rightarrow>
               if \<not> streq tok name then size_loop name (eat_line ln fp) else size_field rest))"
  by pat_completeness auto
termination
  by (relation "measure (\<lambda>(name, fp). length fp)")
    (auto dest: fgets_shorter intro: le_less_trans [OF eat_line_shorter])

declare size_loop.simps [simp del]

text \<open>
  \<open>read_str_long\<close> leaves 0 in \<open>size\<close> when it fails, which is then returned as the size.
\<close>

definition kmod_module_get_size :: "nat \<Rightarrow> sys_env \<Rightarrow> kmod_module \<Rightarrow> int result option option" where
  "kmod_module_get_size fuel sys m =
     (let dir = take 4095 (''/sys/module/'' @ km_name m) in
      case sy_open sys dir of
        Inl e \<Rightarrow> Some (Some (Inl e))
      | Inr _ \<Rightarrow>
          (case sy_open sys (dir @ ''/coresize'') of
             Inr read \<Rightarrow>
               map_option (map_option (\<lambda>r. case r of Inl e \<Rightarrow> Inr 0 | Inr v \<Rightarrow> Inr v)) (read_str_long fuel read 10)
           | Inl _ \<Rightarrow>
               Some (Some (case sy_proc_modules sys of Inl e \<Rightarrow> Inl e | Inr fp \<Rightarrow> size_loop (km_name m) fp))))"

section \<open>Loaded modules\<close>

text \<open>A line without a name and a name that no module can be made of are skipped.\<close>

function loaded_loop ::
    "lib_env \<Rightarrow> char list \<Rightarrow> string list \<Rightarrow> kmod_ctx \<Rightarrow> (string list \<times> kmod_ctx) option" where
  "loaded_loop env fp list ctx =
     (case fgets fp of
        None \<Rightarrow> Some (list, ctx)
      | Some (ln, fp) \<Rightarrow>
          (case strtok ln of
             None \<Rightarrow> loaded_loop env (eat_line ln fp) list ctx
           | Some (name, rest) \<Rightarrow>
               (case kmod_module_new_from_name env ctx name of
                  None \<Rightarrow> None
                | Some (Inl e, ctx) \<Rightarrow> loaded_loop env (eat_line ln fp) list ctx
                | Some (Inr m, ctx) \<Rightarrow>
                    loaded_loop env (eat_line ln fp)
                      (case list_append (en_alloc env) list m of None \<Rightarrow> list | Some l \<Rightarrow> l) ctx)))"
  by pat_completeness auto
termination
  by (relation "measure (\<lambda>(env, fp, list, ctx). length fp)")
    (auto dest: fgets_shorter intro: le_less_trans [OF eat_line_shorter])

declare loaded_loop.simps [simp del]

definition kmod_module_new_from_loaded ::
    "lib_env \<Rightarrow> sys_env \<Rightarrow> kmod_ctx \<Rightarrow> (string list result \<times> kmod_ctx) option" where
  "kmod_module_new_from_loaded env sys ctx =
     (case sy_proc_modules sys of
        Inl e \<Rightarrow> Some (Inl e, ctx)
      | Inr fp \<Rightarrow> map_option (\<lambda>(list, ctx). (Inr list, ctx)) (loaded_loop env fp [] ctx))"

fun kmod_module_initstate_str :: "kmod_module_initstate \<Rightarrow> string" where
  "kmod_module_initstate_str KMOD_MODULE_BUILTIN = ''builtin''"
| "kmod_module_initstate_str KMOD_MODULE_LIVE = ''live''"
| "kmod_module_initstate_str KMOD_MODULE_COMING = ''coming''"
| "kmod_module_initstate_str KMOD_MODULE_GOING = ''going''"

section \<open>Holders and sections\<close>

definition is_dot :: "string \<Rightarrow> bool" where
  "is_dot name \<longleftrightarrow> char_at name 0 = CHR ''.''
     \<and> (char_at name 1 = NUL \<or> char_at name 1 = CHR ''.'' \<and> char_at name 2 = NUL)"

primrec holders_loop ::
    "lib_env \<Rightarrow> string list \<Rightarrow> string list \<Rightarrow> kmod_ctx \<Rightarrow> (string list \<times> kmod_ctx) option" where
  "holders_loop env [] list ctx = Some (list, ctx)"
| "holders_loop env (d_name # ds) list ctx =
     (if is_dot d_name then holders_loop env ds list ctx
      else
        do { (r, ctx) \<leftarrow> kmod_module_new_from_name env ctx d_name;
             case r of
               Inl e \<Rightarrow> Some ([], ctx)
             | Inr holder \<Rightarrow>
                 (case list_append (en_alloc env) list holder of
                    None \<Rightarrow> Some ([], ctx)
                  | Some list \<Rightarrow> holders_loop env ds list ctx) })"

definition kmod_module_get_holders ::
    "lib_env \<Rightarrow> sys_env \<Rightarrow> kmod_ctx \<Rightarrow> string \<Rightarrow> (string list \<times> kmod_ctx) option" where
  "kmod_module_get_holders env sys ctx key =
     do { m \<leftarrow> module_at ctx key;
          case sy_readdir sys (sys_path m ''/holders'') of
            None \<Rightarrow> Some ([], ctx)
          | Some ds \<Rightarrow> holders_loop env ds [] ctx }"

record kmod_module_section =
  sec_address :: u64
  sec_name :: string

text \<open>
  The error path of \<open>kmod_module_get_sections\<close> hands the list of sections to
  \<open>kmod_module_unref_list\<close>, which takes every entry for a module: that is undefined, unless the list is
  still empty.
\<close>

definition sections_fail :: "kmod_module_section list \<Rightarrow> kmod_module_section list option option" where
  "sections_fail list = (if list = [] then Some (Some []) else None)"

primrec sections_loop ::
    "nat \<Rightarrow> (size_t \<Rightarrow> bool) \<Rightarrow> (string \<Rightarrow> read_fn result) \<Rightarrow> string list \<Rightarrow> kmod_module_section list
      \<Rightarrow> kmod_module_section list option option" where
  "sections_loop fuel alloc openat [] list = Some (Some list)"
| "sections_loop fuel alloc openat (d_name # ds) list =
     (if is_dot d_name then sections_loop fuel alloc openat ds list
      else
        (case openat d_name of
           Inl e \<Rightarrow> sections_fail list
         | Inr read \<Rightarrow>
             (case read_str_ulong fuel read 16 of
                None \<Rightarrow> None
              | Some None \<Rightarrow> Some None
              | Some (Some (Inl e)) \<Rightarrow> sections_fail list
              | Some (Some (Inr address)) \<Rightarrow>
                  if \<not> alloc (8 + strsize d_name) then sections_fail list
                  else
                    (case list_append alloc list \<lparr>sec_address = address, sec_name = d_name\<rparr> of
                       None \<Rightarrow> sections_fail list
                     | Some list \<Rightarrow> sections_loop fuel alloc openat ds list))))"

definition kmod_module_get_sections ::
    "nat \<Rightarrow> (size_t \<Rightarrow> bool) \<Rightarrow> sys_env \<Rightarrow> kmod_module \<Rightarrow> kmod_module_section list option option" where
  "kmod_module_get_sections fuel alloc sys m =
     (let dname = sys_path m ''/sections'' in
      case sy_readdir sys dname of
        None \<Rightarrow> Some (Some [])
      | Some ds \<Rightarrow> sections_loop fuel alloc (\<lambda>name. sy_open sys (dname @ ''/'' @ name)) ds [])"

definition kmod_module_section_get_name :: "kmod_module_section option \<Rightarrow> string option" where
  "kmod_module_section_get_name entry = map_option sec_name entry"

definition kmod_module_section_get_address :: "kmod_module_section option \<Rightarrow> u64" where
  "kmod_module_section_get_address entry = (case entry of None \<Rightarrow> - 1 | Some s \<Rightarrow> sec_address s)"

section \<open>Numbers as the kernel prints them\<close>

definition digit_char :: "nat \<Rightarrow> char" where
  "digit_char d = char_of (if d < 10 then 48 + d else 87 + d)"

fun to_digits :: "nat \<Rightarrow> nat \<Rightarrow> string" where
  "to_digits base n =
     (if base < 2 \<or> n < base then [digit_char n] else to_digits base (n div base) @ [digit_char (n mod base)])"

declare to_digits.simps [simp del]

lemma digit_digit_char [simp]: "d < base \<Longrightarrow> base \<le> 16 \<Longrightarrow> digit base (digit_char d) = Some d"
  by (simp add: digit_def digit_char_def Let_def)

lemma digit_newline [simp]: "base \<le> 36 \<Longrightarrow> digit base (CHR 0x0A) = None"
  by (auto simp: digit_def)

lemma to_digits_Cons:
  "1 < base \<Longrightarrow> base \<le> 16 \<Longrightarrow> \<exists>c cs. to_digits base n = c # cs \<and> digit base c \<noteq> None"
proof (induction base n rule: to_digits.induct)
  case (1 base n)
  show ?case
  proof (cases "n < base")
    case True
    then show ?thesis using "1.prems" digit_digit_char [OF True] by (simp add: to_digits.simps [of base n])
  next
    case False
    then have "\<exists>c cs. to_digits base (n div base) = c # cs \<and> digit base c \<noteq> None" using 1 by simp
    then show ?thesis using False "1.prems" by (auto simp: to_digits.simps [of base n])
  qed
qed

lemma scan_to_digits:
  assumes "1 < base" and "base \<le> 16"
  shows "scan_digits base (to_digits base n @ s) v k =
    scan_digits base s (v * base ^ length (to_digits base n) + n) (k + length (to_digits base n))"
  using assms
proof (induction base n arbitrary: s rule: to_digits.induct)
  case (1 base n)
  show ?case
  proof (cases "n < base")
    case True
    then show ?thesis using "1.prems" by (simp add: to_digits.simps [of base n])
  next
    case False
    let ?m = "n div base" and ?l = "length (to_digits base (n div base))"
    have d: "digit base (digit_char (n mod base)) = Some (n mod base)" using "1.prems" by simp
    have "(v * base ^ ?l + ?m) * base + n mod base = v * base ^ Suc ?l + (?m * base + n mod base)"
      by (simp add: add_mult_distrib)
    then have "(v * base ^ ?l + ?m) * base + n mod base = v * base ^ Suc ?l + n" by simp
    then show ?thesis
      using False "1.prems" "1.IH" [of "digit_char (n mod base) # s"] d by (simp add: to_digits.simps [of base n])
  qed
qed

lemma digit_not_blank:
  assumes "digit base c \<noteq> None" and "base \<le> 16"
  shows "\<not> isspace c" "c \<noteq> CHR ''-''" "c \<noteq> CHR ''+''" "c \<noteq> NUL"
  using assms by (auto simp: digit_def isspace_def)

lemma scan_decimal: "scan_number 10 (to_digits 10 n @ [CHR 0x0A]) = (False, n, length (to_digits 10 n))"
proof -
  obtain c cs where c: "to_digits 10 n = c # cs" "digit 10 c \<noteq> None" using to_digits_Cons [of 10 n] by auto
  have "scan_digits 10 (c # cs @ [CHR 0x0A]) 0 0 = (n, Suc (length cs))"
    using scan_to_digits [of 10 n "[CHR 0x0A]" 0 0] c(1) by simp
  then show ?thesis using c digit_not_blank [OF c(2)] unfolding scan_number_def Let_def c(1)
    by (simp add: char_at_def del: scan_digits.simps)
qed

lemma scan_hex: "scan_number 16 (''0x'' @ to_digits 16 n @ [CHR 0x0A]) = (False, n, 2 + length (to_digits 16 n))"
proof -
  obtain c cs where c: "to_digits 16 n = c # cs" "digit 16 c \<noteq> None" using to_digits_Cons [of 16 n] by auto
  have "scan_digits 16 (c # cs @ [CHR 0x0A]) 0 0 = (n, Suc (length cs))"
    using scan_to_digits [of 16 n "[CHR 0x0A]" 0 0] c(1) by simp
  then show ?thesis using c digit_not_blank [OF c(2) order_refl] unfolding scan_number_def Let_def c(1)
    by (simp add: char_at_def isspace_def del: scan_digits.simps)
qed

lemma length_to_digits: "n < base ^ k \<Longrightarrow> 0 < k \<Longrightarrow> 1 < base \<Longrightarrow> length (to_digits base n) \<le> k"
proof (induction base n arbitrary: k rule: to_digits.induct)
  case (1 base n)
  show ?case
  proof (cases "n < base")
    case False
    obtain j where j: "k = Suc j" using "1.prems" by (cases k) auto
    have "j \<noteq> 0" using False "1.prems"(1) j by (intro notI) simp
    then have k: "k = Suc j" "0 < j" using j by auto
    then have "n div base < base ^ j" using "1.prems"(1) by (intro less_mult_imp_div_less) (simp add: mult.commute)
    then show ?thesis using 1 False k by (simp add: to_digits.simps [of base n])
  qed (use "1.prems" in \<open>simp add: to_digits.simps [of base n]\<close>)
qed

lemma nul_free_to_digits: "1 < base \<Longrightarrow> base \<le> 16 \<Longrightarrow> nul_free (to_digits base n)"
proof (induction base n rule: to_digits.induct)
  case (1 base n)
  have "NUL \<noteq> digit_char d" if "d < base" for d
    using digit_not_blank(4) [of base "digit_char d"] that "1.prems" by simp
  then have "NUL \<noteq> digit_char (n mod base)" "n < base \<Longrightarrow> NUL \<noteq> digit_char n" using "1.prems" by simp_all
  then show ?case using 1 by (cases "n < base") (simp_all add: to_digits.simps [of base n])
qed

text \<open>An attribute of the kernel: the first read gives all of it.\<close>

definition attr_file :: "char list \<Rightarrow> read_fn" where
  "attr_file content = (\<lambda>k n. if k = 0 then Inr (take (unat n) content) else Inr [])"

lemma read_attr:
  assumes "content \<noteq> []" and "length content \<le> 30" and "2 \<le> fuel"
  shows "read_str_safe fuel (attr_file content) (replicate 32 None) 32
    = Some (Some (Inr (of_nat (length content)), map Some content @ Some NUL # replicate (31 - length content) None))"
proof -
  obtain f where f: "fuel = Suc (Suc f)" using assms(3) by (metis Suc_le_D numeral_2_eq_2 Suc_le_mono)
  obtain c cs where c: "content = c # cs" using assms(1) by (cases content) auto
  let ?n = "of_nat (length content) :: size_t"
  have n: "unat ?n = length content" using assms(2) by (simp add: unat_of_nat take_bit_nat_eq_self)
  then have pos: "0 < 31 - ?n" using assms(2) by (simp add: word_less_nat_alt unat_sub word_le_nat_alt)
  have "take 31 content = content" using assms(2) by simp
  then have first: "attr_file content 0 31 = Inr content" by (simp add: attr_file_def)
  have cp: "memcpy_to content 0 (replicate 32 None) = Some (map Some content @ replicate (32 - length content) None)"
    using assms(2) by (simp add: memcpy_to_def)
  have r: "replicate (32 - length content) None = None # replicate (31 - length content) (None :: char option)"
    using assms(2) by (simp add: Suc_diff_le flip: replicate_Suc)
  have st: "store (length content) NUL (map Some content @ replicate (32 - length content) None)
      = Some (map Some content @ Some NUL # replicate (31 - length content) None)"
    unfolding r by (simp add: store_def list_update_append)
  have "read_loop fuel (\<lambda>k done todo. attr_file content k todo) 0 31 0 (replicate 32 None)
      = read_loop (Suc f) (\<lambda>k done todo. attr_file content k todo) (Suc 0) (31 - ?n) ?n
          (map Some content @ replicate (32 - length content) None)"
    using pos first cp c unfolding f by (simp add: Let_def)
  also have "\<dots> = Some (Some (Inr ?n, map Some content @ Some NUL # replicate (31 - length content) None))"
    using st n by (simp add: attr_file_def)
  finally show ?thesis by (simp add: read_str_safe_def)
qed

lemma read_cstr_attr: "nul_free s \<Longrightarrow> read_cstr (map Some s @ Some NUL # rest) = Some s"
  by (induction s) auto

lemma read_address:
  assumes "2 \<le> fuel"
  shows "read_str_ulong fuel (attr_file (''0x'' @ to_digits 16 (unat a) @ [CHR 0x0A])) 16 = Some (Some (Inr a))"
proof -
  let ?d = "to_digits 16 (unat a)" and ?s = "''0x'' @ to_digits 16 (unat a) @ [CHR 0x0A]"
  have "unat a < 16 ^ 16" using unat_lt_64 [of a] by simp
  then have "length ?d \<le> 16" by (rule length_to_digits) simp_all
  then have "read_str_safe fuel (attr_file ?s) (replicate 32 None) 32
      = Some (Some (Inr (of_nat (length ?s)), map Some ?s @ Some NUL # replicate (31 - length ?s) None))"
    using assms by (intro read_attr) auto
  moreover have "read_cstr (map Some ?s @ Some NUL # replicate (31 - length ?s) None) = Some ?s"
    using nul_free_to_digits [of 16 "unat a"] by (intro read_cstr_attr) simp
  moreover have "strtoul ?s 16 = (a, 2 + length ?d, False)"
    unfolding strtoul_def scan_hex using unat_lt_64 [of a] by simp
  moreover have "char_at ?s (2 + length ?d) = CHR 0x0A" by (simp add: char_at_def)
  ultimately show ?thesis
    unfolding read_str_ulong_def read_number_def by (simp add: isspace_def del: append_Cons)
qed

lemma read_count:
  assumes "2 \<le> fuel" and "n < 2 ^ 31"
  shows "read_str_long fuel (attr_file (to_digits 10 n @ [CHR 0x0A])) 10 = Some (Some (Inr (int n)))"
proof -
  let ?d = "to_digits 10 n" and ?s = "to_digits 10 n @ [CHR 0x0A]"
  have "n < 10 ^ 10" using assms(2) by simp
  then have "length ?d \<le> 10" by (rule length_to_digits) simp_all
  then have "read_str_safe fuel (attr_file ?s) (replicate 32 None) 32
      = Some (Some (Inr (of_nat (length ?s)), map Some ?s @ Some NUL # replicate (31 - length ?s) None))"
    using assms by (intro read_attr) auto
  moreover have "read_cstr (map Some ?s @ Some NUL # replicate (31 - length ?s) None) = Some ?s"
    using nul_free_to_digits [of 10 n] by (intro read_cstr_attr) simp
  moreover have "strtol ?s 10 = (int n, length ?d, False)" unfolding strtol_def scan_decimal using assms(2) by simp
  moreover have "char_at ?s (length ?d) = CHR 0x0A" "?d \<noteq> []" using to_digits_Cons [of 10 n] by (auto simp: char_at_def)
  ultimately show ?thesis
    unfolding read_str_long_def read_number_def by (simp add: isspace_def)
qed

text \<open>The directory of sections as the kernel fills it: every entry holds the address.\<close>

definition holds_address :: "sys_env \<Rightarrow> kmod_module \<Rightarrow> string \<Rightarrow> u64 \<Rightarrow> bool" where
  "holds_address sys m d a \<longleftrightarrow>
     sy_open sys (sys_path m ''/sections'' @ ''/'' @ d) = Inr (attr_file (''0x'' @ to_digits 16 (unat a) @ [CHR 0x0A]))"

definition listed :: "(string \<Rightarrow> u64) \<Rightarrow> string list \<Rightarrow> kmod_module_section list" where
  "listed addr ds = map (\<lambda>d. \<lparr>sec_address = addr d, sec_name = d\<rparr>) (filter (\<lambda>d. \<not> is_dot d) ds)"

lemma sections_loop_reads:
  assumes "2 \<le> fuel"
  shows "\<forall>d \<in> set ds. \<not> is_dot d \<longrightarrow> holds_address sys m d (addr d) \<Longrightarrow>
    sections_loop fuel (\<lambda>_. True) (\<lambda>name. sy_open sys (sys_path m ''/sections'' @ ''/'' @ name)) (ds @ rest) list
    = sections_loop fuel (\<lambda>_. True) (\<lambda>name. sy_open sys (sys_path m ''/sections'' @ ''/'' @ name)) rest (list @ listed addr ds)"
proof (induction ds arbitrary: list)
  case (Cons d ds)
  then show ?case
  proof (cases "is_dot d")
    case False
    then have "sy_open sys (sys_path m ''/sections'' @ ''/'' @ d)
        = Inr (attr_file (''0x'' @ to_digits 16 (unat (addr d)) @ [CHR 0x0A]))"
      using Cons.prems by (simp add: holds_address_def)
    moreover note read_address [OF assms, of "addr d"]
    ultimately show ?thesis using False Cons by (simp add: listed_def list_append_def)
  qed (simp add: listed_def)
qed (simp add: listed_def)

text \<open>
  The sections of a loaded module: if every file of its directory \<open>sections\<close> holds an address as
  the kernel prints it, the list has every section once, in the order of the directory, with exactly
  its 64-bit address, and nothing for the entries \<open>.\<close> and \<open>..\<close>.
\<close>

lemma sections_addresses:
  assumes "sy_readdir sys (sys_path m ''/sections'') = Some ds"
    and "\<forall>d \<in> set ds. \<not> is_dot d \<longrightarrow> holds_address sys m d (addr d)" and "2 \<le> fuel"
  shows "kmod_module_get_sections fuel (\<lambda>_. True) sys m = Some (Some (listed addr ds))"
  using sections_loop_reads [OF assms(3,2), of "[]" "[]"] assms(1)
  by (simp add: kmod_module_get_sections_def)

definition text_sys :: sys_env where
  "text_sys = \<lparr>sy_open = (\<lambda>p. if p = ''/sys/module/fat/sections/.text'' then Inr (attr_file (''0x'' @ to_digits 16 4096 @ [CHR 0x0A]))
                         else if p = ''/sys/module/fat/refcnt'' then Inr (attr_file (to_digits 10 2 @ [CHR 0x0A])) else Inl ENOENT),
     sy_stat_dir = (\<lambda>_. Inr True),
     sy_readdir = (\<lambda>p. if p = ''/sys/module/fat/sections'' then Some [''.'', ''..'', ''.text''] else None),
     sy_proc_modules = Inl ENOENT\<rparr>"

definition fat_module :: kmod_module where
  "fat_module = \<lparr>km_name = ''fat'', km_path = None, km_dep = [], km_options = None, km_install_commands = None,
     km_remove_commands = None, km_alias = None, km_init_dep = False, km_init_options = False,
     km_init_install_commands = False, km_init_remove_commands = False, km_builtin = KMOD_MODULE_BUILTIN_NO\<rparr>"

lemma sections_addresses_witness:
  "kmod_module_get_sections 2 (\<lambda>_. True) text_sys fat_module = Some (Some [\<lparr>sec_address = 4096, sec_name = ''.text''\<rparr>])"
  using sections_addresses [of text_sys fat_module "[''.'', ''..'', ''.text'']" "\<lambda>_. 4096" 2]
  by (simp add: text_sys_def fat_module_def sys_path_def is_dot_def char_at_def holds_address_def listed_def)

lemma refcnt_read:
  assumes "sy_open sys (sys_path m ''/refcnt'') = Inr (attr_file (to_digits 10 n @ [CHR 0x0A]))"
    and "n < 2 ^ 31" and "2 \<le> fuel"
  shows "kmod_module_get_refcnt fuel sys m = Some (Some (Inr (int n)))"
proof -
  have "sint (word_of_int (int n) :: 32 word) = int n"
    using assms(2) by (simp add: sint_uint uint_nat unat_of_nat take_bit_nat_eq_self signed_take_bit_int_eq_self)
  then show ?thesis using read_count [OF assms(3,2)] assms(1) by (simp add: kmod_module_get_refcnt_def)
qed

text \<open>What \<open>kmod_module_initstate_str\<close> prints is what the kernel writes, for the states that have a file.\<close>

lemma initstate_read:
  assumes "st \<noteq> KMOD_MODULE_BUILTIN" and "2 \<le> fuel"
  shows "read_initstate fuel (attr_file (kmod_module_initstate_str st @ [CHR 0x0A])) = Some (Some (Inr st))"
proof -
  have "read_str_safe fuel (attr_file (kmod_module_initstate_str st @ [CHR 0x0A])) (replicate 32 None) 32
      = Some (Some (Inr (of_nat (length (kmod_module_initstate_str st @ [CHR 0x0A]))),
          map Some (kmod_module_initstate_str st @ [CHR 0x0A]) @ Some NUL
            # replicate (31 - length (kmod_module_initstate_str st @ [CHR 0x0A])) None))"
    by (rule read_attr) (cases st; simp add: assms(2))+
  then show ?thesis using assms(1) by (cases st) (simp_all add: read_initstate_def)
qed

section \<open>Properties\<close>

text \<open>
  C39. A defect on the error path of \<open>kmod_module_get_sections\<close>: if a file of the directory cannot be
  opened after the address of at least one section was read, the behaviour is undefined, since the
  sections read so far are released as modules.
\<close>

theorem sections_error_undefined:
  assumes "sy_readdir sys (sys_path m ''/sections'') = Some (ds @ d # rest)"
    and "\<forall>d \<in> set ds. \<not> is_dot d \<longrightarrow> holds_address sys m d (addr d)" and "\<exists>d \<in> set ds. \<not> is_dot d"
    and "\<not> is_dot d" and "sy_open sys (sys_path m ''/sections'' @ ''/'' @ d) = Inl e" and "2 \<le> fuel"
  shows "kmod_module_get_sections fuel (\<lambda>_. True) sys m = None"
proof -
  have "listed addr ds \<noteq> []" using assms(3) by (auto simp: listed_def filter_empty_conv)
  then show ?thesis
    using sections_loop_reads [OF assms(6,2), of "d # rest" "[]"] assms(1,4,5)
    by (simp add: kmod_module_get_sections_def sections_fail_def)
qed

theorem sections_error_undefined_witness:
  "kmod_module_get_sections 2 (\<lambda>_. True)
     (text_sys\<lparr>sy_readdir := \<lambda>p. Some [''.'', ''.text'', ''.data'']\<rparr>) fat_module = None"
  using sections_error_undefined [of "text_sys\<lparr>sy_readdir := \<lambda>p. Some [''.'', ''.text'', ''.data'']\<rparr>" fat_module
      "[''.'', ''.text'']" "''.data''" "[]" "\<lambda>_. 4096" ENOENT 2]
  by (simp add: text_sys_def fat_module_def sys_path_def is_dot_def char_at_def holds_address_def)

end
