(* ===== verification/Kmod_Rmmod.thy ===== *)
theory Kmod_Rmmod
  imports Kmod_Insert Kmod_Sysfs
begin

text \<open>
  The removal of modules by \<open>modprobe -r\<close> (\<open>tools/modprobe.c\<close>): a module, the modules that depend on
  it softly before and after it, its holders if asked for, and the modules it needed once they are
  unused. What the tool asks the library and the kernel is the record \<open>rm_env\<close>, the options of the
  command line are \<open>rm_opts\<close>. The recursion and the loop that waits for a module to become free have
  fuel; \<open>None\<close> says that they are still running.
\<close>

section \<open>Operations\<close>

record rm_opts =
  op_ignore_commands :: bool
  op_ignore_loaded :: bool
  op_first_time :: bool
  op_dry_run :: bool
  op_force :: bool
  op_remove_holders :: bool
  op_wait_msec :: u64

record 'k rm_env =
  re_kernel :: "'k kernel"
  re_module :: "string \<Rightarrow> kmod_module"
  re_softdeps :: "string \<Rightarrow> (string list \<times> string list) result"
  re_remove_commands :: "string \<Rightarrow> string option"
  re_initstate :: "string \<Rightarrow> 'k \<Rightarrow> kmod_module_initstate result"
  re_holders :: "string \<Rightarrow> 'k \<Rightarrow> string list"
  re_refcnt :: "string \<Rightarrow> 'k \<Rightarrow> int result"
  re_dependencies :: "string \<Rightarrow> string list"
  re_lookup :: "string \<Rightarrow> string list result"
  re_clock :: "'k \<Rightarrow> timespec option"
  re_nanosleep :: "timespec \<Rightarrow> 'k \<Rightarrow> int \<times> 'k"
  re_errno :: "'k \<Rightarrow> errno"
  re_alloc :: "size_t \<Rightarrow> bool"

definition KMOD_REMOVE_NOLOG :: u32 where "KMOD_REMOVE_NOLOG = 1"

definition remove_flags :: "rm_opts \<Rightarrow> u32" where
  "remove_flags opt =
     (if op_force opt then KMOD_REMOVE_FORCE else 0) OR (if op_wait_msec opt \<noteq> 0 then KMOD_REMOVE_NOLOG else 0)"

text \<open>\<open>tend\<close> is 0 until the first failure with \<open>EAGAIN\<close> sets the deadline.\<close>

primrec remove_loop ::
    "nat \<Rightarrow> 'k rm_env \<Rightarrow> rm_opts \<Rightarrow> string \<Rightarrow> u64 \<Rightarrow> u64 \<Rightarrow> 'k \<Rightarrow> (errno option \<times> 'k) option" where
  "remove_loop 0 env opt md tend interval k = None"
| "remove_loop (Suc fuel) env opt md tend interval k =
     (let (err, k) = kmod_module_remove_module (re_kernel env) (re_module env md) (remove_flags opt) k in
      if err = Some EEXIST then Some (if op_first_time opt then Some EEXIST else None, k)
      else if err = Some EAGAIN \<and> op_wait_msec opt \<noteq> 0 then
        (let (tend, interval) = (if tend = 0 then (now_msec (re_clock env) k + op_wait_msec opt, 1) else (tend, interval));
             (until, interval) = get_backoff_delta_msec (now_msec (re_clock env) k) tend interval;
             (serr, k) = sleep_until_msec (re_nanosleep env) (re_errno env) until k in
         if tend = op_wait_msec opt \<or> serr \<noteq> None \<or> interval = 0 then Some (Some EAGAIN, k)
         else remove_loop fuel env opt md tend interval k)
      else Some (err, k))"

definition rmmod_do_remove_module ::
    "nat \<Rightarrow> 'k rm_env \<Rightarrow> rm_opts \<Rightarrow> string \<Rightarrow> 'k \<Rightarrow> (errno option \<times> 'k) option" where
  "rmmod_do_remove_module fuel env opt md k =
     (if op_dry_run opt then Some (None, k) else remove_loop fuel env opt md 0 0 k)"

text \<open>The command interpreter of \<open>modprobe.c\<close>; an exit status is returned as an error of its own.\<close>

definition command_do_tool ::
    "nat \<Rightarrow> 'k rm_env \<Rightarrow> rm_opts \<Rightarrow> string \<Rightarrow> string \<Rightarrow> string option \<Rightarrow> 'k \<Rightarrow> (int \<times> 'k) option" where
  "command_do_tool fuel env opt md command cmdline_opts k =
     (if \<not> re_alloc env (strsize command) then Some (- 12, k)
      else
        do { r \<leftarrow> expand_command fuel (re_alloc env) (case cmdline_opts of None \<Rightarrow> [] | Some s \<Rightarrow> s) command;
             Some (case r of
                     Inl e \<Rightarrow> (- 12, k)
                   | Inr cmd \<Rightarrow>
                       if op_dry_run opt then (0, k)
                       else
                         (case kn_system (re_kernel env) (km_name (re_module env md)) cmd k of
                            (None, k) \<Rightarrow> (- 1, k)
                          | (Some status, k) \<Rightarrow>
                              (if WEXITSTATUS status \<noteq> 0 then - int (WEXITSTATUS status) else int status, k))) })"

text \<open>The errors of the tool are the negative numbers it returns; \<open>errno_code\<close> has those of the model.\<close>

fun errno_code :: "errno \<Rightarrow> int" where
  "errno_code ENOMEM = 12"
| "errno_code EEXIST = 17"
| "errno_code ENOENT = 2"
| "errno_code EINVAL = 22"
| "errno_code ENODATA = 61"
| "errno_code ENOSYS = 38"
| "errno_code ENAMETOOLONG = 36"
| "errno_code ENOTDIR = 20"
| "errno_code ERANGE = 34"
| "errno_code ENOEXEC = 8"
| "errno_code EAGAIN = 11"
| "errno_code EINTR = 4"
| "errno_code EBUSY = 16"
| "errno_code EIO = 5"
| "errno_code EPERM = 1"

definition ret_of :: "errno option \<Rightarrow> int" where
  "ret_of err = (case err of None \<Rightarrow> 0 | Some e \<Rightarrow> - errno_code e)"

text \<open>\<open>rmmod_do_modlist\<close> walks the list from its end; \<open>f\<close> removes a module.\<close>

primrec rmmod_do_modlist ::
    "(string \<Rightarrow> 'k \<Rightarrow> (int \<times> 'k) option) \<Rightarrow> bool \<Rightarrow> string list \<Rightarrow> 'k \<Rightarrow> (int \<times> 'k) option" where
  "rmmod_do_modlist f stop_on_errors [] k = Some (0, k)"
| "rmmod_do_modlist f stop_on_errors (m # ms) k =
     do { (r, k) \<leftarrow> f m k;
          if r < 0 \<and> stop_on_errors then Some (r, k) else rmmod_do_modlist f stop_on_errors ms k }"

text \<open>The state of a module that is not to be removed: what \<open>rmmod_do_module\<close> then returns.\<close>

definition not_loaded :: "'k rm_env \<Rightarrow> rm_opts \<Rightarrow> string \<Rightarrow> bool \<Rightarrow> 'k \<Rightarrow> int option" where
  "not_loaded env opt md ignore_builtin k =
     (case re_initstate env md k of
        Inl e \<Rightarrow> Some (if op_first_time opt then - errno_code ENOENT else 0)
      | Inr state \<Rightarrow>
          if state = KMOD_MODULE_BUILTIN then Some (if ignore_builtin then 0 else - errno_code ENOENT) else None)"

text \<open>The modules that became unused; errors do not matter.\<close>

primrec remove_unused ::
    "nat \<Rightarrow> 'k rm_env \<Rightarrow> rm_opts \<Rightarrow> string list \<Rightarrow> 'k \<Rightarrow> 'k option" where
  "remove_unused fuel env opt [] k = Some k"
| "remove_unused fuel env opt (d # ds) k =
     (if re_refcnt env d k = Inr 0 then
        do { (err, k) \<leftarrow> rmmod_do_remove_module fuel env opt d k; remove_unused fuel env opt ds k }
      else remove_unused fuel env opt ds k)"

definition remove_itself ::
    "nat \<Rightarrow> 'k rm_env \<Rightarrow> rm_opts \<Rightarrow> string \<Rightarrow> string option \<Rightarrow> 'k \<Rightarrow> (int \<times> 'k) option" where
  "remove_itself fuel env opt md cmd k =
     (case cmd of
        None \<Rightarrow>
          if (\<not> op_ignore_loaded opt \<and> op_wait_msec opt = 0
              \<and> (case re_refcnt env md k of Inl e \<Rightarrow> False | Inr n \<Rightarrow> 0 < n)) then Some (- errno_code EBUSY, k)
          else if re_refcnt env md k = Inl ENOENT then Some (0, k)
          else map_option (\<lambda>(err, k). (ret_of err, k)) (rmmod_do_remove_module fuel env opt md k)
      | Some cmd \<Rightarrow> command_do_tool fuel env opt md cmd None k)"

primrec rmmod_do_module ::
    "nat \<Rightarrow> 'k rm_env \<Rightarrow> rm_opts \<Rightarrow> bool \<Rightarrow> bool \<Rightarrow> string \<Rightarrow> 'k \<Rightarrow> (int \<times> 'k) option" where
  "rmmod_do_module 0 env opt remove_holders ignore_builtin md k = None"
| "rmmod_do_module (Suc fuel) env opt remove_holders ignore_builtin md k =
     (let deps = (if op_ignore_commands opt then Inr ([], []) else re_softdeps env md);
          cmd = (if op_ignore_commands opt then None else re_remove_commands env md) in
      case deps of
        Inl e \<Rightarrow> Some (- errno_code e, k)
      | Inr (pre, post) \<Rightarrow>
          (let done = (if cmd = None \<and> \<not> op_ignore_loaded opt then not_loaded env opt md ignore_builtin k else None) in
           case done of
             Some r \<Rightarrow> Some (r, k)
           | None \<Rightarrow>
               do { (_, k) \<leftarrow> rmmod_do_modlist (rmmod_do_module fuel env opt False True) False (rev post) k;
                    (r, k) \<leftarrow> (if remove_holders
                               then rmmod_do_modlist (rmmod_do_module fuel env opt False True) True
                                      (rev (re_holders env md k)) k
                               else Some (0, k));
                    if r < 0 then Some (r, k)
                    else
                      do { (r, k) \<leftarrow> remove_itself fuel env opt md cmd k;
                           if r < 0 then Some (r, k)
                           else
                             do { k \<leftarrow> (if cmd = None then remove_unused fuel env opt (re_dependencies env md) k
                                        else Some k);
                                  (_, k) \<leftarrow> rmmod_do_modlist (rmmod_do_module fuel env opt False True) False (rev pre) k;
                                  Some (r, k) } } }))"

primrec rmmod_list :: "nat \<Rightarrow> 'k rm_env \<Rightarrow> rm_opts \<Rightarrow> string list \<Rightarrow> int \<Rightarrow> 'k \<Rightarrow> (int \<times> 'k) option" where
  "rmmod_list fuel env opt [] err k = Some (err, k)"
| "rmmod_list fuel env opt (m # ms) err k =
     do { (err, k) \<leftarrow> rmmod_do_module fuel env opt (op_remove_holders opt) False m k;
          if err < 0 then Some (err, k) else rmmod_list fuel env opt ms err k }"

text \<open>\<open>err\<close> starts as the answer of the lookup, which is 0 here if it found something.\<close>

definition rmmod :: "nat \<Rightarrow> 'k rm_env \<Rightarrow> rm_opts \<Rightarrow> string \<Rightarrow> 'k \<Rightarrow> (int \<times> 'k) option" where
  "rmmod fuel env opt alias k =
     (case re_lookup env alias of
        Inl e \<Rightarrow> Some (- errno_code e, k)
      | Inr list \<Rightarrow> rmmod_list fuel env opt list (if list = [] then - errno_code ENOENT else 0) k)"

primrec rmmod_all :: "nat \<Rightarrow> 'k rm_env \<Rightarrow> rm_opts \<Rightarrow> string list \<Rightarrow> int \<Rightarrow> 'k \<Rightarrow> (int \<times> 'k) option" where
  "rmmod_all fuel env opt [] err k = Some (err, k)"
| "rmmod_all fuel env opt (arg # args) err k =
     do { (r, k) \<leftarrow> rmmod fuel env opt arg k; rmmod_all fuel env opt args (if r < 0 then r else err) k }"

section \<open>The wait for a module\<close>

text \<open>
  What is asked of the clock, as \<open>clock_gettime\<close> and \<open>clock_nanosleep\<close> document it: reading it always
  fails or never does, it is not turned back, and its milliseconds fit 64 bits. A sleep returns 0 when its
  time is reached, and a positive number when a signal ends it early; \<open>signals\<close> counts the signals
  that are still to come.
\<close>

definition ts_le :: "timespec \<Rightarrow> timespec \<Rightarrow> bool" where
  "ts_le s t \<longleftrightarrow> tv_sec s < tv_sec t \<or> tv_sec s = tv_sec t \<and> tv_nsec s \<le> tv_nsec t"

definition clock_ok :: "'k rm_env \<Rightarrow> ('k \<Rightarrow> nat) \<Rightarrow> bool" where
  "clock_ok env signals \<longleftrightarrow>
     ((\<forall>k. re_clock env k = None) \<or> (\<forall>k. re_clock env k \<noteq> None))
     \<and> (\<forall>k ts. re_clock env k = Some ts \<longrightarrow> unat (tv_sec ts) * 1000 + unat (tv_nsec ts) div 1000000 < 2 ^ 64)
     \<and> (\<forall>t k r k'. re_nanosleep env (msec_ts t) k = (r, k') \<longrightarrow> 0 \<le> r
         \<and> now_msec (re_clock env) k \<le> now_msec (re_clock env) k'
         \<and> (if r = 0 then signals k' \<le> signals k \<and> (\<forall>ts. re_clock env k' = Some ts \<longrightarrow> ts_le (msec_ts t) ts)
            else signals k' < signals k))
     \<and> (\<forall>m fl k. now_msec (re_clock env) k \<le> now_msec (re_clock env) (snd (kn_delete_module (re_kernel env) m fl k))
         \<and> signals (snd (kn_delete_module (re_kernel env) m fl k)) \<le> signals k)"

lemma backoff_step:
  assumes "get_backoff_delta_msec now tend delta = (t, d)" and "d \<noteq> 0"
  shows "unat now < unat t" and "unat t \<le> unat tend"
proof -
  note b = backoff_bounds [of now tend delta, unfolded assms(1) Let_def prod.case]
  have f: "\<not> tend \<le> now" using b assms(2) by auto
  then have "0 < d" "unat t = unat now + unat d" "t \<le> tend" using b by auto
  then show "unat now < unat t" "unat t \<le> unat tend" by (simp_all add: word_gt_0 word_le_nat_alt unat_gt_0)
qed

text \<open>A sleep never fails, and brings the deadline or the last signal nearer.\<close>

lemma sleep_progress:
  assumes clock: "clock_ok env signals" and works: "\<forall>k. re_clock env k \<noteq> None"
    and b: "get_backoff_delta_msec (now_msec (re_clock env) k) tend delta = (t, d)" "d \<noteq> 0"
    and sl: "sleep_until_msec (re_nanosleep env) (re_errno env) t k = (serr, k')"
  shows "serr = None"
    and "unat tend - unat (now_msec (re_clock env) k') + signals k' < unat tend - unat (now_msec (re_clock env) k) + signals k"
proof -
  obtain r where r: "re_nanosleep env (msec_ts t) k = (r, k')"
    using sl by (auto simp: sleep_until_msec_def Let_def split: prod.splits if_splits)
  have c: "0 \<le> r" "now_msec (re_clock env) k \<le> now_msec (re_clock env) k'"
      "if r = 0 then signals k' \<le> signals k \<and> (\<forall>ts. re_clock env k' = Some ts \<longrightarrow> ts_le (msec_ts t) ts) else signals k' < signals k"
    using clock r unfolding clock_ok_def by blast+
  show "serr = None" using sl r c(1) by (simp add: sleep_until_msec_def)
  obtain ts where ts: "re_clock env k' = Some ts" using works by blast
  have fit: "unat (tv_sec ts) * 1000 + unat (tv_nsec ts) div 1000000 < 2 ^ 64" using clock ts unfolding clock_ok_def by blast
  show "unat tend - unat (now_msec (re_clock env) k') + signals k' < unat tend - unat (now_msec (re_clock env) k) + signals k"
  proof (cases "r = 0")
    case True
    then have "t \<le> now_msec (re_clock env) k'"
      using c(3) ts ts_msec_reached [OF _ fit] by (simp add: now_msec_def ts_le_def)
    then have "unat t \<le> unat (now_msec (re_clock env) k')" by (simp add: word_le_nat_alt)
    then show ?thesis using backoff_step [OF b] c(3) True by (auto intro!: add_less_le_mono)
  next
    case False
    then show ?thesis using c(2,3) by (simp add: word_le_nat_alt)
  qed
qed

lemma delete_progress:
  assumes "clock_ok env signals" and "kmod_module_remove_module (re_kernel env) md flags k = (err, k')"
  shows "now_msec (re_clock env) k \<le> now_msec (re_clock env) k'" and "signals k' \<le> signals k"
  using assms unfolding clock_ok_def kmod_module_remove_module_def by (metis snd_conv)+

lemma remove_loop_waits:
  assumes clock: "clock_ok env signals" and works: "\<forall>k. re_clock env k \<noteq> None"
  shows "tend \<noteq> 0 \<Longrightarrow> unat tend - unat (now_msec (re_clock env) k) + signals k < fuel
    \<Longrightarrow> remove_loop fuel env opt md tend interval k \<noteq> None"
proof (induction fuel arbitrary: interval k)
  case (Suc fuel)
  obtain err k1 where del: "kmod_module_remove_module (re_kernel env) (re_module env md) (remove_flags opt) k = (err, k1)" by force
  obtain t d where b: "get_backoff_delta_msec (now_msec (re_clock env) k1) tend interval = (t, d)" by force
  obtain serr k2 where sl: "sleep_until_msec (re_nanosleep env) (re_errno env) t k1 = (serr, k2)" by force
  have "remove_loop fuel env opt md tend d k2 \<noteq> None" if "d \<noteq> 0"
    using sleep_progress(2) [OF clock works b that sl] delete_progress [OF clock del] Suc.prems(2)
    by (intro Suc.IH Suc.prems(1)) (simp add: word_le_nat_alt)
  then show ?case using del b sl Suc.prems(1) by simp
qed simp

lemma remove_module_ends:
  assumes clock: "clock_ok env signals" and fuel: "unat (op_wait_msec opt) + signals k + 1 < fuel"
  shows "rmmod_do_remove_module fuel env opt md k \<noteq> None"
proof -
  obtain f where f: "fuel = Suc f" using fuel by (cases fuel) auto
  obtain err k1 where del: "kmod_module_remove_module (re_kernel env) (re_module env md) (remove_flags opt) k = (err, k1)" by force
  let ?now = "now_msec (re_clock env) k1"
  let ?tend = "?now + op_wait_msec opt"
  obtain t d where b: "get_backoff_delta_msec ?now ?tend 1 = (t, d)" by force
  obtain serr k2 where sl: "sleep_until_msec (re_nanosleep env) (re_errno env) t k1 = (serr, k2)" by force
  have "remove_loop f env opt md ?tend d k2 \<noteq> None" if "?tend \<noteq> op_wait_msec opt" "d \<noteq> 0"
  proof -
    have "\<not> (\<forall>k. re_clock env k = None)" using that(1) unfolding now_msec_def by (metis add.left_neutral option.case(1))
    then have works: "\<forall>k. re_clock env k \<noteq> None" using clock unfolding clock_ok_def by blast
    have "unat ?tend \<le> unat ?now + unat (op_wait_msec opt)" by (simp add: unat_word_ariths)
    moreover have "?tend \<noteq> 0" using backoff_step [OF b that(2)] by auto
    ultimately show ?thesis
      using sleep_progress(2) [OF clock works b that(2) sl] delete_progress(2) [OF clock del] fuel f
      by (intro remove_loop_waits [OF clock works]) simp_all
  qed
  then show ?thesis using del b sl unfolding rmmod_do_remove_module_def f by simp
qed

section \<open>What removal leaves\<close>

text \<open>
  What is asked of the kernel: \<open>inside k\<close> are the modules in it. \<open>delete_module\<close> takes out the module
  if it succeeds and nothing otherwise, and refuses one that a loaded module needs; the files of
  \<open>/sys\<close> tell the truth; the clock and sleeping change nothing.
\<close>

definition kernel_removes :: "'k rm_env \<Rightarrow> (string \<Rightarrow> string set) \<Rightarrow> ('k \<Rightarrow> string set) \<Rightarrow> bool" where
  "kernel_removes env needs inside \<longleftrightarrow>
     (\<forall>m fl k err k'. kn_delete_module (re_kernel env) (km_name (re_module env m)) fl k = (err, k') \<longrightarrow>
        (if err = None then m \<in> inside k \<and> inside k' = inside k - {m} \<and> (\<forall>x \<in> inside k - {m}. m \<notin> needs x)
         else inside k' = inside k \<and> (err = Some EEXIST \<longrightarrow> m \<notin> inside k)))
     \<and> (\<forall>t k. inside (snd (re_nanosleep env t k)) = inside k)
     \<and> (\<forall>m k. re_refcnt env m k = Inl ENOENT \<longrightarrow> m \<notin> inside k)
     \<and> (\<forall>m k. m \<in> inside k \<longrightarrow> re_initstate env m k = Inr KMOD_MODULE_LIVE)"

definition closed :: "(string \<Rightarrow> string set) \<Rightarrow> string set \<Rightarrow> bool" where
  "closed needs L \<longleftrightarrow> (\<forall>x \<in> L. needs x \<subseteq> L)"

text \<open>From \<open>L\<close> to \<open>L'\<close> only modules of \<open>R\<close> are taken out, and none that is needed.\<close>

definition shrinks :: "(string \<Rightarrow> string set) \<Rightarrow> string set \<Rightarrow> string set \<Rightarrow> string set \<Rightarrow> bool" where
  "shrinks needs R L L' \<longleftrightarrow> L' \<subseteq> L \<and> L - L' \<subseteq> R \<and> (closed needs L \<longrightarrow> closed needs L')"

lemma shrinks_refl [simp]: "shrinks needs R L L"
  by (simp add: shrinks_def)

lemma shrinks_trans: "shrinks needs R L M \<Longrightarrow> shrinks needs R M N \<Longrightarrow> shrinks needs R L N"
  by (auto simp: shrinks_def)

lemma shrinks_mono: "shrinks needs R L M \<Longrightarrow> R \<subseteq> S \<Longrightarrow> shrinks needs S L M"
  by (auto simp: shrinks_def)

lemma delete_shrinks:
  assumes "kernel_removes env needs inside" and "kmod_module_remove_module (re_kernel env) (re_module env md) flags k = (err, k')"
  shows "shrinks needs {md} (inside k) (inside k')" and "err = None \<or> err = Some EEXIST \<Longrightarrow> md \<notin> inside k'"
proof -
  have d: "if err = None then md \<in> inside k \<and> inside k' = inside k - {md} \<and> (\<forall>x \<in> inside k - {md}. md \<notin> needs x)
       else inside k' = inside k \<and> (err = Some EEXIST \<longrightarrow> md \<notin> inside k)"
    using assms unfolding kernel_removes_def kmod_module_remove_module_def by blast
  then show "shrinks needs {md} (inside k) (inside k')"
    by (cases "err = None") (auto simp: shrinks_def closed_def)
  show "err = None \<or> err = Some EEXIST \<Longrightarrow> md \<notin> inside k'" using d by (auto split: if_splits)
qed

lemma remove_loop_shrinks:
  assumes k: "kernel_removes env needs inside"
  shows "remove_loop fuel env opt md tend interval k = Some (err, k') \<Longrightarrow>
    shrinks needs {md} (inside k) (inside k') \<and> (err = None \<longrightarrow> md \<notin> inside k')"
proof (induction fuel arbitrary: tend interval k)
  case (Suc fuel)
  obtain e k1 where del: "kmod_module_remove_module (re_kernel env) (re_module env md) (remove_flags opt) k = (e, k1)" by force
  note d = delete_shrinks [OF k del]
  show ?case
  proof (cases "e = Some EAGAIN \<and> op_wait_msec opt \<noteq> 0")
    case True
    obtain tend' i' where ti: "(if tend = 0 then (now_msec (re_clock env) k1 + op_wait_msec opt, 1) else (tend, interval)) = (tend', i')" by force
    obtain t dl where b: "get_backoff_delta_msec (now_msec (re_clock env) k1) tend' i' = (t, dl)" by force
    obtain serr k2 where sl: "sleep_until_msec (re_nanosleep env) (re_errno env) t k1 = (serr, k2)" by force
    have "inside (snd (sleep_until_msec (re_nanosleep env) (re_errno env) t k1)) = inside k1"
      using k unfolding kernel_removes_def by (auto simp: sleep_until_msec_def Let_def split_beta)
    then have l2: "inside k2 = inside k1" using sl by simp
    have eq: "remove_loop (Suc fuel) env opt md tend interval k =
        (if tend' = op_wait_msec opt \<or> serr \<noteq> None \<or> dl = 0 then Some (Some EAGAIN, k2)
         else remove_loop fuel env opt md tend' dl k2)"
      using True del ti b sl by simp
    show ?thesis
      using Suc.prems Suc.IH [of tend' dl k2] d(1) l2 shrinks_trans unfolding eq by (auto split: if_splits)
  next
    case False
    then show ?thesis using Suc.prems del d by (auto split: if_splits)
  qed
qed simp

lemma remove_unused_shrinks:
  assumes k: "kernel_removes env needs inside"
  shows "remove_unused fuel env opt ds k = Some k' \<Longrightarrow> shrinks needs (set ds) (inside k) (inside k')"
proof (induction ds arbitrary: k)
  case (Cons d ds)
  have step: "shrinks needs (set (d # ds)) (inside k) (inside k1)" if "rmmod_do_remove_module fuel env opt d k = Some (err, k1)" for err k1
    using that remove_loop_shrinks [OF k, of fuel opt d 0 0 k err k1] shrinks_mono [of needs "{d}" _ _ "set (d # ds)"]
    by (auto simp: rmmod_do_remove_module_def split: if_splits)
  show ?case
  proof (cases "re_refcnt env d k = Inr 0")
    case True
    then obtain err k1 where k1: "rmmod_do_remove_module fuel env opt d k = Some (err, k1)" "remove_unused fuel env opt ds k1 = Some k'"
      using Cons.prems by (auto simp: bind_eq_Some_conv)
    have "shrinks needs (set (d # ds)) (inside k1) (inside k')" using Cons.IH [OF k1(2)] by (rule shrinks_mono) auto
    then show ?thesis using step [OF k1(1)] shrinks_trans by blast
  next
    case False
    then show ?thesis using Cons.IH [of k] Cons.prems shrinks_mono [of needs "set ds" _ _ "set (d # ds)"] by auto
  qed
qed simp

lemma remove_unused_ends:
  assumes "clock_ok env signals" and "\<forall>k. unat (op_wait_msec opt) + signals k + 1 < fuel"
  shows "\<exists>k'. remove_unused fuel env opt ds k = Some k'"
proof (induction ds arbitrary: k)
  case (Cons d ds)
  obtain err k1 where "rmmod_do_remove_module fuel env opt d k = Some (err, k1)"
    using remove_module_ends [OF assms(1) assms(2) [rule_format], of d k] by auto
  then show ?case using Cons.IH [of k] Cons.IH [of k1] by simp
qed simp

lemma errno_code_pos: "0 < errno_code e"
  by (cases e) simp_all

lemma ret_of_Some: "ret_of (Some e) < 0"
  using errno_code_pos [of e] by (simp add: ret_of_def)

lemma ret_of_None: "ret_of None = 0"
  by (simp add: ret_of_def)

lemma ret_of_0 [simp]: "ret_of err = 0 \<longleftrightarrow> err = None"
proof (cases err)
  case (Some e)
  then show ?thesis using ret_of_Some [of e] by simp
qed (simp add: ret_of_None)

lemma ret_of_le [simp]: "ret_of err \<le> 0"
proof (cases err)
  case (Some e)
  then show ?thesis using ret_of_Some [of e] by simp
qed (simp add: ret_of_None)

lemma ret_of_neg [simp]: "ret_of err < 0 \<longleftrightarrow> err \<noteq> None"
proof (cases err)
  case (Some e)
  then show ?thesis using ret_of_Some [of e] by simp
qed (simp add: ret_of_None)

lemma remove_itself_shrinks:
  assumes k: "kernel_removes env needs inside" and clock: "clock_ok env signals"
    and fuel: "\<forall>k. unat (op_wait_msec opt) + signals k + 1 < fuel" and "\<not> op_dry_run opt"
  shows "\<exists>r k'. remove_itself fuel env opt md None k = Some (r, k') \<and> shrinks needs {md} (inside k) (inside k')
    \<and> r \<le> 0 \<and> (r = 0 \<longrightarrow> md \<notin> inside k')"
proof -
  obtain err k1 where r: "rmmod_do_remove_module fuel env opt md k = Some (err, k1)"
    using remove_module_ends [OF clock fuel [rule_format], of md k] by auto
  have s: "shrinks needs {md} (inside k) (inside k1)" "err = None \<longrightarrow> md \<notin> inside k1"
    using r remove_loop_shrinks [OF k] assms(4) by (auto simp: rmmod_do_remove_module_def)
  have "re_refcnt env md k = Inl ENOENT \<Longrightarrow> md \<notin> inside k" using k unfolding kernel_removes_def by blast
  then show ?thesis using r s by (auto simp: remove_itself_def)
qed

section \<open>Properties\<close>

text \<open>
  C12. \<open>modprobe -r\<close> of a module without soft dependencies and remove command ends, also when it waits
  for the module to become free and signals interrupt its sleeps: a removal takes at most as many rounds
  as the milliseconds to wait and the signals. It takes out at most the module and modules it depends on, never one that a loaded module still needs,
  so that every loaded module keeps what it needs; if it reports success the module is gone, and a
  module in use is left alone with \<open>EBUSY\<close> unless it was told to wait.
\<close>

theorem rmmod_removes:
  assumes "kernel_removes env needs inside" and "clock_ok env signals" and "\<forall>k. signals k \<le> n"
    and "re_softdeps env md = Inr ([], [])" and "re_remove_commands env md = None"
    and "\<not> op_ignore_loaded opt" and "\<not> op_dry_run opt" and "unat (op_wait_msec opt) + n + 2 < fuel"
  shows "\<exists>r k'. rmmod_do_module fuel env opt False ignore_builtin md k = Some (r, k')
    \<and> shrinks needs (insert md (set (re_dependencies env md))) (inside k) (inside k')
    \<and> (md \<in> inside k \<longrightarrow> r = 0 \<longrightarrow> md \<notin> inside k')
    \<and> (md \<in> inside k \<longrightarrow> op_wait_msec opt = 0 \<longrightarrow> (\<exists>n > 0. re_refcnt env md k = Inr n) \<longrightarrow> r = - errno_code EBUSY \<and> k' = k)"
proof (cases "not_loaded env opt md ignore_builtin k")
  case (Some r)
  obtain f where f: "fuel = Suc f" using assms(8) by (cases fuel) auto
  have "re_initstate env md k \<noteq> Inr KMOD_MODULE_LIVE" using Some by (auto simp: not_loaded_def)
  then have "md \<notin> inside k" using assms(1) unfolding kernel_removes_def by blast
  then show ?thesis using Some assms(4-6) f by simp
next
  case None
  obtain f where f: "fuel = Suc f" "unat (op_wait_msec opt) + n + 1 < f" using assms(8) by (cases fuel) auto
  have fuel: "\<forall>k. unat (op_wait_msec opt) + signals k + 1 < f" using f(2) assms(3) by (meson add_le_mono le_less_trans order_refl)
  obtain r k1 where r: "remove_itself f env opt md None k = Some (r, k1)" "shrinks needs {md} (inside k) (inside k1)"
      "r \<le> 0" "r = 0 \<longrightarrow> md \<notin> inside k1"
    using remove_itself_shrinks [OF assms(1,2) fuel assms(7), of md k] by blast
  obtain k2 where k2: "remove_unused f env opt (re_dependencies env md) k1 = Some k2"
    using remove_unused_ends [OF assms(2) fuel] by blast
  let ?R = "insert md (set (re_dependencies env md))"
  have s1: "shrinks needs ?R (inside k) (inside k1)" using r(2) by (rule shrinks_mono) simp
  have s2: "shrinks needs ?R (inside k1) (inside k2)" using remove_unused_shrinks [OF assms(1) k2] by (rule shrinks_mono) auto
  have busy: "r = - errno_code EBUSY \<and> k1 = k" if "op_wait_msec opt = 0" "\<exists>n > 0. re_refcnt env md k = Inr n"
    using r(1) that assms(6) by (auto simp: remove_itself_def)
  have eq: "rmmod_do_module fuel env opt False ignore_builtin md k = Some (r, if r < 0 then k1 else k2)"
    unfolding f(1) using None assms(4-6) r(1) k2 by simp
  have "inside k2 \<subseteq> inside k1" using s2 by (simp add: shrinks_def)
  then show ?thesis unfolding eq using s1 s2 shrinks_trans [OF s1 s2] r(3,4) busy by auto
qed

text \<open>
  A kernel with the module \<open>vfat\<close>, which is in use until a certain time, and the module \<open>fat\<close> it
  needs. A signal, if there is one, interrupts the next sleep.
\<close>

record sim =
  sm_inside :: "string set"
  sm_msec :: u64
  sm_free_at :: u64
  sm_signal :: bool

definition sim_busy :: "string \<Rightarrow> sim \<Rightarrow> bool" where
  "sim_busy m k \<longleftrightarrow> (if m = ''vfat'' then sm_msec k < sm_free_at k else m = ''fat'' \<and> ''vfat'' \<in> sm_inside k)"

definition sim_env :: "sim rm_env" where
  "sim_env =
     \<lparr>re_kernel = \<lparr>kn_finit_module = (\<lambda>_ _ _ k. (Some EINVAL, k)), kn_init_module = (\<lambda>_ _ k. (Some EINVAL, k)),
        kn_delete_module = (\<lambda>m fl k. if m \<notin> sm_inside k then (Some ENOENT, k)
          else if sim_busy m k then (Some EAGAIN, k) else (None, k\<lparr>sm_inside := sm_inside k - {m}\<rparr>)),
        kn_system = (\<lambda>_ _ k. (None, k))\<rparr>,
      re_module = (\<lambda>m. fat_module\<lparr>km_name := m\<rparr>), re_softdeps = (\<lambda>_. Inr ([], [])), re_remove_commands = (\<lambda>_. None),
      re_initstate = (\<lambda>m k. if m \<in> sm_inside k then Inr KMOD_MODULE_LIVE else Inl ENOENT), re_holders = (\<lambda>_ _. []),
      re_refcnt = (\<lambda>m k. if m \<notin> sm_inside k then Inl ENOENT else if sim_busy m k then Inr 1 else Inr 0),
      re_dependencies = (\<lambda>m. if m = ''vfat'' then [''fat''] else []), re_lookup = (\<lambda>m. Inr [m]),
      re_clock = (\<lambda>k. Some (msec_ts (sm_msec k))),
      re_nanosleep = (\<lambda>ts k. if sm_signal k then (4, k\<lparr>sm_signal := False\<rparr>)
        else (0, k\<lparr>sm_msec := max (sm_msec k) (ts_msec ts)\<rparr>)),
      re_errno = (\<lambda>_. ENOENT), re_alloc = (\<lambda>_. True)\<rparr>"

definition plain_rm_opts :: rm_opts where
  "plain_rm_opts = \<lparr>op_ignore_commands = False, op_ignore_loaded = False, op_first_time = False, op_dry_run = False,
     op_force = False, op_remove_holders = False, op_wait_msec = 0\<rparr>"

definition sim_start :: sim where
  "sim_start = \<lparr>sm_inside = {''fat'', ''vfat''}, sm_msec = 100, sm_free_at = 103, sm_signal = True\<rparr>"

definition sim_signals :: "sim \<Rightarrow> nat" where
  "sim_signals k = of_bool (sm_signal k)"

definition sim_needs :: "string \<Rightarrow> string set" where
  "sim_needs m = (if m = ''vfat'' then {''fat''} else {})"

lemma ts_le_mono: "t \<le> u \<Longrightarrow> ts_le (msec_ts t) (msec_ts u)"
proof -
  assume "t \<le> u"
  then have le: "unat t \<le> unat u" by (simp add: word_le_nat_alt)
  then have "unat t div 1000 \<le> unat u div 1000" by (rule div_le_mono)
  moreover have "unat t div 1000 = unat u div 1000 \<Longrightarrow> unat t mod 1000 \<le> unat u mod 1000"
    using le by (metis add_le_cancel_left div_mult_mod_eq)
  ultimately show ?thesis
    by (auto simp: ts_le_def word_less_nat_alt word_le_nat_alt word_unat_eq_iff msec_ts_unat)
qed

lemma sim_ok: "kernel_removes sim_env sim_needs sm_inside" "clock_ok sim_env sim_signals" "\<forall>k. sim_signals k \<le> 1"
proof -
  show "kernel_removes sim_env sim_needs sm_inside"
    by (auto simp: kernel_removes_def sim_env_def sim_needs_def sim_busy_def split: if_splits)
  have "unat (tv_sec (msec_ts t)) * 1000 + unat (tv_nsec (msec_ts t)) div 1000000 < 2 ^ 64" for t
    using unsigned_less [of t] by (simp add: msec_ts_unat)
  then show "clock_ok sim_env sim_signals"
    by (auto simp: clock_ok_def sim_env_def sim_signals_def now_msec_def intro!: ts_le_mono split: if_splits)
  show "\<forall>k. sim_signals k \<le> 1" by (simp add: sim_signals_def)
qed

text \<open>The wait is interrupted once, then lasts until 104 milliseconds; then both modules are removed.\<close>

lemma sim_run:
  "rmmod_do_module 20 sim_env (plain_rm_opts\<lparr>op_wait_msec := 10\<rparr>) False False ''vfat'' sim_start
     = Some (0, \<lparr>sm_inside = {}, sm_msec = 104, sm_free_at = 103, sm_signal = False\<rparr>)"
  by code_simp

theorem rmmod_removes_witness:
  "(\<exists>k'. rmmod_do_module 20 sim_env (plain_rm_opts\<lparr>op_wait_msec := 10\<rparr>) False False ''vfat'' sim_start = Some (0, k')
      \<and> sm_msec k' = 104 \<and> ''vfat'' \<notin> sm_inside k' \<and> closed sim_needs (sm_inside k'))
   \<and> rmmod_do_module 20 sim_env plain_rm_opts False False ''vfat'' sim_start = Some (- 16, sim_start)"
proof -
  note R = rmmod_removes [OF sim_ok, of "''vfat''" _ 20 False sim_start]
  have "closed sim_needs (sm_inside sim_start)" "''vfat'' \<in> sm_inside sim_start"
    by (simp_all add: closed_def sim_needs_def sim_start_def)
  then show ?thesis using R [of "plain_rm_opts\<lparr>op_wait_msec := 10\<rparr>"] R [of plain_rm_opts] sim_run
    by (auto simp: shrinks_def sim_env_def plain_rm_opts_def sim_busy_def sim_start_def)
qed

text \<open>
  C40. A defect: two loaded modules that name each other as post soft dependencies make \<open>modprobe -r\<close> recurse for ever, since it removes those before the module itself and does not note
  where it has been.
\<close>

theorem rmmod_post_cycle_diverges:
  assumes "re_softdeps env a = Inr (pre, [b])" and "re_softdeps env b = Inr (pre', [a])" and "\<not> op_ignore_commands opt"
    and "re_initstate env a k = Inr KMOD_MODULE_LIVE" and "re_initstate env b k = Inr KMOD_MODULE_LIVE"
  shows "rmmod_do_module fuel env opt remove_holders ignore_builtin a k = None"
proof -
  have "rmmod_do_module fuel env opt rh ib m k = None" if "m = a \<or> m = b" for rh ib m
    using that
  proof (induction fuel arbitrary: rh ib m)
    case (Suc fuel)
    obtain p x where sd: "re_softdeps env m = Inr (p, [x])" "x = a \<or> x = b" using Suc.prems assms(1,2) by auto
    have "rmmod_do_modlist (rmmod_do_module fuel env opt False True) False (rev [x]) k = None" using Suc.IH [OF sd(2)] by simp
    moreover have "not_loaded env opt m ib k = None" using Suc.prems assms(4,5) by (auto simp: not_loaded_def)
    ultimately show ?case using sd(1) assms(3) by (simp add: Let_def del: rev.simps)
  qed simp
  then show ?thesis by simp
qed

theorem rmmod_post_cycle_diverges_witness:
  "rmmod_do_module 1000 (sim_env\<lparr>re_softdeps := \<lambda>m. Inr ([], [if m = ''a'' then ''b'' else ''a''])\<rparr>) plain_rm_opts
     False False ''a'' (sim_start\<lparr>sm_inside := {''a'', ''b''}\<rparr>) = None"
  using rmmod_post_cycle_diverges [of "sim_env\<lparr>re_softdeps := \<lambda>m. Inr ([], [if m = ''a'' then ''b'' else ''a''])\<rparr>"
      "''a''" "[]" "''b''" "[]" plain_rm_opts "(sim_start\<lparr>sm_inside := {''a'', ''b''}\<rparr>)" 1000]
  by (simp add: sim_env_def plain_rm_opts_def)

end
