(* ===== verification/Spec2Isabelle.thy ===== *)
theory Spec2Isabelle
  imports Kmod_Array Kmod_Strbuf Kmod_Hash Kmod_List Kmod_Index_File Kmod_Report Kmod_Output Kmod_Config_Iter Kmod_Elf_Strip Kmod_Modprobe
    Kmod_Rmmod
begin

text \<open>
  A verification development for kmod, the library and the tools that manage the modules of the
  Linux kernel.

  \<^bold>\<open>The program.\<close> depmod (\<open>tools/depmod.c\<close>) reads the modules of a kernel, calculates what each of
  them needs, and writes the result as text (\<open>modules.dep\<close>) and as a binary index
  (\<open>modules.dep.bin\<close>). The library (\<open>libkmod/\<close>) reads the configuration files and the kernel command
  line, opens the indexes, finds modules by name or alias, and inserts a module with everything it
  needs in the right order. modprobe and the other tools are front ends. \<open>shared/\<close> holds the
  containers and string functions that all of them use.

  \<^bold>\<open>Conventions.\<close> \<open>Kmod_Prelude\<close> explains them: an outer \<open>None\<close> is undefined behaviour or a failed
  assertion, so that a result \<open>Some\<close> is memory safety; errors are values of \<open>errno + 'a\<close>; memory is an
  argument \<open>alloc\<close>, which says for every size whether an allocation succeeds; machine integers have
  their width; blocks of memory are lists of cells that may be uninitialised. System calls, the file
  system, \<open>qsort\<close> and \<open>fnmatch\<close> are arguments; what a theorem needs of them is a hypothesis by name
  (\<open>qsort_spec\<close>, \<open>kernel_ok\<close>), and its witness has a concrete instance. Log messages are left out.

  \<^bold>\<open>Shared code.\<close>
  \<^item> \<open>Kmod_Array\<close> (\<open>shared/array.c\<close>), \<open>Kmod_Strbuf\<close> (\<open>shared/strbuf.c\<close>), \<open>Kmod_Hash\<close>
    (\<open>shared/hash.c\<close>), \<open>Kmod_List\<close> (\<open>libkmod-list.c\<close>, on an explicit heap of nodes): every operation,
    an invariant that each keeps, and a refinement of lists, strings, finite maps and sequences. The
    contracts are locales (\<open>vec\<close>, \<open>unique_vec\<close>, \<open>textbuf\<close>, \<open>seq_heap\<close> and that of the hash table),
    interpreted on the operations.
  \<^item> \<open>Kmod_Util\<close>, \<open>Kmod_Io\<close> (\<open>shared/util.c\<close>): normalisation of names and aliases, file names, reading
    and writing that survives short transfers and interrupts, continued lines, the back-off timer.

  \<^bold>\<open>Indexes.\<close>
  \<^item> \<open>Kmod_Index_Format\<close> and \<open>Kmod_Index_Write\<close> (depmod's Patricia trie and its file format),
    \<open>Kmod_Index_Mm\<close> (the memory mapped reader of \<open>libkmod-index.c\<close>) and \<open>Kmod_Index_File\<close> (the stream
    reader). Insertion refines the update of a map from keys to sorted value lists; the written file
    reads back as the trie; \<open>Kmod_Index_Walk\<close> shows that the wildcard search returns exactly the values
    of the matching patterns and that a dump prints every value; both readers agree on an index with entries
    if values of one key and one priority are equal, and otherwise differ in their order. The recursion
    over a file has fuel, because a file may be anything; a depth above the height of the written trie
    is enough. The bound of \<open>2 ^ 28\<close> bytes is that of the format's offsets.

  \<^bold>\<open>Dependencies.\<close>
  \<^item> \<open>Kmod_Deps\<close> (symbols, loading of dependencies, topological order), \<open>Kmod_Cycles\<close> (the report of
    cycles and the calculation as a whole), \<open>Kmod_Report\<close> (properties of the report), \<open>Kmod_Output\<close>
    (closure, text file and index). The calculation succeeds exactly on acyclic graphs; the files list for
    each module exactly what it needs, in load order. The search for cycles from a root reports exactly
    the cycles through it; it ends if every cycle it reaches passes through the root, and otherwise never
    completes. Its fuel is the number of steps.

  \<^bold>\<open>Configuration.\<close>
  \<^item> \<open>Kmod_Config\<close>, \<open>Kmod_Softdep\<close> (entries, the two passes over soft and weak dependencies),
    \<open>Kmod_Config_File\<close> (files), \<open>Kmod_Cmdline\<close> (the state machine for the kernel command line),
    \<open>Kmod_Config_Dirs\<close> (directories, order of the files), \<open>Kmod_Config_Iter\<close> (iterators), all of
    \<open>libkmod-config.c\<close>. Each reader is shown to add the directives of a reference grammar; the locale
    \<open>directive_source\<close> states that once for lines, files and arguments.

  \<^bold>\<open>Modules.\<close>
  \<^item> \<open>Kmod_Module\<close> (\<open>libkmod-module.c\<close> and \<open>libkmod.c\<close>): the context, the pool, lookup by name, alias,
    symbol, command and builtin list, dependency lines, options, soft and weak dependencies, filters,
    and the loading of the indexes.
  \<^item> \<open>Kmod_Probe\<close>: the list of modules to insert and the insertion, over the operations that probing
    needs from a context (locale \<open>probe_graph\<close>). Soft dependencies may be cyclic; the recursion has
    fuel, and one more than the number of modules that lookups can create is enough.
  \<^item> \<open>Kmod_Load\<close> interprets that locale on the operations of \<open>Kmod_Module\<close>; \<open>Kmod_Modprobe\<close> puts depmod
    and the library together: the list of modules to insert is exactly the closure of depmod's graph in
    load order, and in a kernel that accepts a module whose dependencies are loaded, probing loads all.

  \<^bold>\<open>ELF.\<close>
  \<^item> \<open>Kmod_Elf\<close>, \<open>Kmod_Elf_Safe\<close>, \<open>Kmod_Elf_Info\<close>, \<open>Kmod_Elf_Symbols\<close>, \<open>Kmod_Elf_Strip\<close>
    (\<open>libkmod-elf.c\<close>): opening an image, its sections, strings, versions and symbols, and stripping of
    version information. The image is an arbitrary list of bytes of either class and byte order.

  \<^bold>\<open>Files, signatures and the running kernel.\<close>
  \<^item> \<open>Kmod_File\<close> (\<open>libkmod-file.c\<close> and the loaders for zlib, xz and zstd): recognition of the compression
    and loading of the contents. The functions of the libraries are arguments, with their documented
    behaviour as \<open>gz_spec\<close> and \<open>lzma_spec\<close>. The loops have fuel; for zlib one more than the length of the
    decompressed stream is enough.
  \<^item> \<open>Kmod_Signature\<close> (\<open>libkmod-signature.c\<close>): the signature behind a module. The reader is safe on every
    file, accepts exactly the documented layout, and gets back what was signed.
  \<^item> \<open>Kmod_Builtin\<close> (\<open>libkmod-builtin.c\<close>): the strings of built-in modules.
  \<^item> \<open>Kmod_Info\<close> (the last part of \<open>libkmod-module.c\<close>): information, versions and symbols of a module, on top
    of the ELF reader, the signature and the file.
  \<^item> \<open>Kmod_Sysfs\<close>: what \<open>libkmod-module.c\<close> asks \<open>/sys\<close> and \<open>/proc\<close>, with the conversion of numbers.
  \<^item> \<open>Kmod_Insert\<close>: insertion and removal by system calls, from the compressed file to the bytes the kernel
    gets, and the expansion of install commands, which ends or runs for ever depending on the options.
  \<^item> \<open>Kmod_Rmmod\<close> (\<open>tools/modprobe.c\<close>): removal with soft dependencies, holders and waiting. Without soft
    dependencies it ends with three rounds more than the milliseconds to wait and the signals that
    interrupt a sleep, and leaves what loaded modules need; it recurses for ever on mutual post soft
    dependencies.

  \<^bold>\<open>Not modelled.\<close> Reference counts of modules and contexts, so that the pool only grows;
  the field \<open>len\<close> of the values of an index; the decompressors themselves; PKCS#7 messages (read by OpenSSL or mbed TLS); the parts of depmod that search directories,
  read its own configuration and write the remaining files; the command line and the output of the
  tools; logging; temporary files; the test suite.
\<close>

end
